(* ===== verification/Prelude.thy ===== *)
theory Prelude
  imports Main "HOL-Library.Word" "HOL-Library.Multiset"
begin

section \<open>Shared vocabulary of the library\<close>

text \<open>
  What every component theory uses: the ways a C function can go wrong and the result type
  that carries them, the 32-bit integer arithmetic of the target (ILP32: \<open>int\<close>, \<open>long\<close>,
  \<open>size_t\<close> and pointers are four bytes wide, which is what the casts between pointers and
  \<open>int\<close> in the sources assume), the allocator as an argument, blocks of slots, and the
  generic lemmas on results and lists. The sources are read with assertions enabled
  (\<open>NDEBUG\<close> not defined), so a failed \<open>assert\<close> is a result of its own.
\<close>

subsection \<open>Faults and results\<close>

text \<open>
  A fault is the end of the program or undefined behaviour: a failed assertion, a NULL or
  dangling pointer followed, an access outside a block, a read of memory nobody wrote, an
  integer division by zero, a signed overflow, a union or an array read through the wrong
  layout, an \<open>exit\<close>. \<open>Blocked\<close> is a wait that only another thread can end, \<open>OutOfFuel\<close> a loop that
  was cut off because it was not given enough steps. An \<open>Error\<close> object that a function returns is no fault: it is an ordinary value.
\<close>

datatype fault =
    AssertFailed
  | NullDeref
  | DanglingPtr
  | OutOfBounds
  | UninitRead
  | DivByZero
  | SignedOverflow
  | LayoutMismatch
  | Aborted
  | Blocked
  | OutOfFuel

type_synonym 'a res = "fault + 'a"

definition rbind :: "'a res \<Rightarrow> ('a \<Rightarrow> 'b res) \<Rightarrow> 'b res" where
  "rbind m f = (case m of Inl e \<Rightarrow> Inl e | Inr x \<Rightarrow> f x)"

definition rassert :: "bool \<Rightarrow> unit res" where
  "rassert b = (if b then Inr () else Inl AssertFailed)"

definition rguard :: "fault \<Rightarrow> bool \<Rightarrow> unit res" where
  "rguard e b = (if b then Inr () else Inl e)"

text \<open>A pointer that may be NULL, and following it.\<close>

definition deref :: "'a option \<Rightarrow> 'a res" where
  "deref p = (case p of None \<Rightarrow> Inl NullDeref | Some x \<Rightarrow> Inr x)"

text \<open>A loop over a list that stops at the first fault.\<close>

fun rfold :: "('a \<Rightarrow> 's \<Rightarrow> 's res) \<Rightarrow> 'a list \<Rightarrow> 's \<Rightarrow> 's res" where
  "rfold f [] s = Inr s"
| "rfold f (x # xs) s = rbind (f x s) (rfold f xs)"

named_theorems res_iff \<open>when a composed result is a value\<close>

lemma rbind_simps [simp]:
  "rbind (Inl e) f = Inl e"
  "rbind (Inr x) f = f x"
  by (simp_all add: rbind_def)

lemma rassert_simps [simp]:
  "rassert True = Inr ()"
  "rassert False = Inl AssertFailed"
  by (simp_all add: rassert_def)

lemma rguard_simps [simp]:
  "rguard e True = Inr ()"
  "rguard e False = Inl e"
  by (simp_all add: rguard_def)

lemma deref_simps [simp]:
  "deref None = Inl NullDeref"
  "deref (Some x) = Inr x"
  by (simp_all add: deref_def)

lemma deref_Inr_iff [res_iff]: "deref p = Inr x \<longleftrightarrow> p = Some x"
  by (cases p) auto

lemma rbind_Inr_iff [res_iff]: "rbind m f = Inr y \<longleftrightarrow> (\<exists>x. m = Inr x \<and> f x = Inr y)"
  by (cases m) auto

lemma rassert_Inr_iff [res_iff]: "rassert b = Inr u \<longleftrightarrow> b"
  by (cases b) auto

lemma rguard_Inr_iff [res_iff]: "rguard e b = Inr u \<longleftrightarrow> b"
  by (cases b) auto

lemma rbind_cong [fundef_cong]:
  "m = m' \<Longrightarrow> (\<And>x. m' = Inr x \<Longrightarrow> f x = g x) \<Longrightarrow> rbind m f = rbind m' g"
  by (cases m') auto

lemma rbind_assoc: "rbind (rbind m f) g = rbind m (\<lambda>x. rbind (f x) g)"
  by (cases m) auto

lemma rfold_append [simp]: "rfold f (xs @ ys) s = rbind (rfold f xs s) (rfold f ys)"
  by (induction xs arbitrary: s) (auto simp: rbind_def split: sum.split)

text \<open>The loop rule: an invariant that every iteration keeps, and a loop that never faults.\<close>

lemma rfold_invariant:
  assumes "\<And>x s. x \<in> set xs \<Longrightarrow> I s \<Longrightarrow> \<exists>s'. f x s = Inr s' \<and> I s'"
    and "I s"
  shows "\<exists>s'. rfold f xs s = Inr s' \<and> I s'"
  using assms
proof (induction xs arbitrary: s)
  case Nil
  then show ?case by simp
next
  case (Cons x xs)
  then obtain s1 where "f x s = Inr s1" "I s1"
    by (metis list.set_intros(1))
  moreover have "\<exists>s'. rfold f xs s1 = Inr s' \<and> I s'"
    using Cons.IH Cons.prems(1) \<open>I s1\<close> by simp
  ultimately show ?case by auto
qed

subsection \<open>Integers of the target\<close>

abbreviation INT_MAX :: int where "INT_MAX \<equiv> 2147483647"
abbreviation INT_MIN :: int where "INT_MIN \<equiv> -2147483648"
abbreviation SIZE_T_MOD :: nat where "SIZE_T_MOD \<equiv> 4294967296"

definition in_int :: "int \<Rightarrow> bool" where
  "in_int i \<longleftrightarrow> INT_MIN \<le> i \<and> i \<le> INT_MAX"

text \<open>Signed addition and multiplication: overflow is undefined behaviour.\<close>

definition iadd :: "int \<Rightarrow> int \<Rightarrow> int res" where
  "iadd a b = (if in_int (a + b) then Inr (a + b) else Inl SignedOverflow)"

definition imul :: "int \<Rightarrow> int \<Rightarrow> int res" where
  "imul a b = (if in_int (a * b) then Inr (a * b) else Inl SignedOverflow)"

text \<open>An \<open>int\<close> converted to \<open>size_t\<close>, and the wrapping product of two sizes.\<close>

definition size_of_int :: "int \<Rightarrow> nat" where
  "size_of_int i = nat (i mod int SIZE_T_MOD)"

definition size_mul :: "nat \<Rightarrow> nat \<Rightarrow> nat" where
  "size_mul a b = (a * b) mod SIZE_T_MOD"

lemma iadd_ok [simp]: "in_int (a + b) \<Longrightarrow> iadd a b = Inr (a + b)"
  by (simp add: iadd_def)

lemma imul_ok [simp]: "in_int (a * b) \<Longrightarrow> imul a b = Inr (a * b)"
  by (simp add: imul_def)

lemma iadd_Inr_iff [res_iff]: "iadd a b = Inr c \<longleftrightarrow> in_int (a + b) \<and> c = a + b"
  by (auto simp: iadd_def)

lemma imul_Inr_iff [res_iff]: "imul a b = Inr c \<longleftrightarrow> in_int (a * b) \<and> c = a * b"
  by (auto simp: imul_def)

lemma size_of_int_nonneg: "0 \<le> i \<Longrightarrow> i \<le> INT_MAX \<Longrightarrow> size_of_int i = nat i"
  by (simp add: size_of_int_def)

subsection \<open>The allocator and blocks of slots\<close>

text \<open>
  The allocator is code of the C library: an argument that says which request sizes (in
  bytes) it grants. A granted block is a list of slots, one per element of \<open>esz\<close> bytes;
  \<open>None\<close> is a slot nobody wrote yet. Copying \<open>esz\<close> bytes at a multiple of \<open>esz\<close> copies one slot.
\<close>

type_synonym allocator = "nat \<Rightarrow> bool"

definition block_bytes :: "nat \<Rightarrow> int \<Rightarrow> nat" where
  "block_bytes esz n = size_mul esz (size_of_int n)"

definition block_slots :: "nat \<Rightarrow> int \<Rightarrow> nat" where
  "block_slots esz n = block_bytes esz n div esz"

definition realloc_slots :: "nat \<Rightarrow> 'a option list \<Rightarrow> 'a option list" where
  "realloc_slots n xs = take n xs @ replicate (n - length xs) None"

definition read_slot :: "'a option list \<Rightarrow> int \<Rightarrow> 'a res" where
  "read_slot xs i =
     (if 0 \<le> i \<and> i < int (length xs)
      then (case xs ! nat i of None \<Rightarrow> Inl UninitRead | Some x \<Rightarrow> Inr x)
      else Inl OutOfBounds)"

definition write_slot :: "'a option list \<Rightarrow> int \<Rightarrow> 'a \<Rightarrow> 'a option list res" where
  "write_slot xs i x =
     (if 0 \<le> i \<and> i < int (length xs) then Inr (xs[nat i := Some x]) else Inl OutOfBounds)"

text \<open>The block of \<open>n\<close> elements is addressable: \<open>n\<close> is a count and its bytes fit \<open>size_t\<close>.\<close>

definition block_fits :: "nat \<Rightarrow> int \<Rightarrow> bool" where
  "block_fits esz n \<longleftrightarrow> 0 < esz \<and> 0 \<le> n \<and> n \<le> INT_MAX \<and> esz * nat n < SIZE_T_MOD"

text \<open>Evaluation of the size arithmetic on binary integers.\<close>

lemma size_code [code]:
  "size_of_int i = nat (i mod 4294967296)"
  "size_mul a b = nat ((int a * int b) mod 4294967296)"
  "block_fits esz n \<longleftrightarrow> 0 < esz \<and> 0 \<le> n \<and> n \<le> INT_MAX \<and> int esz * n < 4294967296"
proof -
  show "size_of_int i = nat (i mod 4294967296)"
    by (simp add: size_of_int_def)
  show "size_mul a b = nat ((int a * int b) mod 4294967296)"
    by (simp add: size_mul_def nat_mod_as_int)
  show "block_fits esz n \<longleftrightarrow> 0 < esz \<and> 0 \<le> n \<and> n \<le> INT_MAX \<and> int esz * n < 4294967296"
  proof (cases "0 \<le> n")
    case True
    then obtain m where "n = int m" by (metis zero_le_imp_eq_int)
    moreover have "esz * m < SIZE_T_MOD \<longleftrightarrow> int esz * int m < 4294967296"
      unfolding of_nat_mult[symmetric] by linarith
    ultimately show ?thesis by (simp add: block_fits_def)
  qed (simp add: block_fits_def)
qed

lemma block_slots_fits: "block_fits esz n \<Longrightarrow> block_slots esz n = nat n"
  by (simp add: block_fits_def block_slots_def block_bytes_def size_mul_def size_of_int_nonneg)

lemma length_realloc_slots [simp]: "length (realloc_slots n xs) = n"
  by (simp add: realloc_slots_def)

lemma nth_realloc_slots:
  "i < n \<Longrightarrow> realloc_slots n xs ! i = (if i < length xs then xs ! i else None)"
  by (simp add: realloc_slots_def nth_append)

lemma take_realloc_slots: "k \<le> length xs \<Longrightarrow> k \<le> n \<Longrightarrow> take k (realloc_slots n xs) = take k xs"
  by (simp add: realloc_slots_def min_def)

lemma write_slot_ok [simp]:
  "0 \<le> i \<Longrightarrow> i < int (length xs) \<Longrightarrow> write_slot xs i x = Inr (xs[nat i := Some x])"
  by (simp add: write_slot_def)

lemma write_slot_Inr_iff [res_iff]:
  "write_slot xs i x = Inr ys \<longleftrightarrow> 0 \<le> i \<and> i < int (length xs) \<and> ys = xs[nat i := Some x]"
  by (auto simp: write_slot_def)

lemma read_slot_Inr_iff [res_iff]:
  "read_slot xs i = Inr x \<longleftrightarrow> 0 \<le> i \<and> i < int (length xs) \<and> xs ! nat i = Some x"
  by (auto simp: read_slot_def split: option.splits)

text \<open>The written part of a block: its first \<open>n\<close> slots hold the values \<open>ys\<close>.\<close>

definition holds :: "'a option list \<Rightarrow> int \<Rightarrow> 'a list \<Rightarrow> bool" where
  "holds xs n ys \<longleftrightarrow> 0 \<le> n \<and> n \<le> int (length xs) \<and> take (nat n) xs = map Some ys"

lemma holds_length: "holds xs n ys \<Longrightarrow> int (length ys) = n"
  unfolding holds_def by (metis int_nat_eq length_map length_take min.absorb2 nat_le_iff)

lemma holds_unique: "holds xs n ys \<Longrightarrow> holds xs n zs \<Longrightarrow> ys = zs"
  unfolding holds_def by (metis list.inj_map_strong option.inject)

lemma holds_nth: "holds xs n ys \<Longrightarrow> i < length ys \<Longrightarrow> xs ! i = Some (ys ! i)"
proof -
  assume h: "holds xs n ys" and i: "i < length ys"
  then have "take (nat n) xs ! i = map Some ys ! i"
    by (simp add: holds_def)
  moreover have "i < nat n"
    using h i holds_length by fastforce
  ultimately show ?thesis using i by simp
qed

lemma holdsI:
  "int (length ys) = n \<Longrightarrow> length ys \<le> length xs \<Longrightarrow>
   (\<And>i. i < length ys \<Longrightarrow> xs ! i = Some (ys ! i)) \<Longrightarrow> holds xs n ys"
  unfolding holds_def by (auto intro!: nth_equalityI)

lemma read_slot_holds:
  "holds xs n ys \<Longrightarrow> 0 \<le> i \<Longrightarrow> i < n \<Longrightarrow> read_slot xs i = Inr (ys ! nat i)"
  using holds_length[of xs n ys] holds_nth[of xs n ys "nat i"]
  by (auto simp: read_slot_def holds_def)

lemma holds_realloc: "holds xs n ys \<Longrightarrow> n \<le> int k \<Longrightarrow> holds (realloc_slots k xs) n ys"
  by (simp add: holds_def take_realloc_slots nat_le_iff)

lemma holds_snoc:
  "holds xs n ys \<Longrightarrow> n < int (length xs) \<Longrightarrow> holds (xs[nat n := Some y]) (n + 1) (ys @ [y])"
  using holds_length[of xs n ys] holds_nth[of xs n ys]
  by (auto intro!: holdsI simp: nth_append less_Suc_eq)

lemma holds_update:
  "holds xs n ys \<Longrightarrow> 0 \<le> i \<Longrightarrow> i < n \<Longrightarrow> holds (xs[nat i := Some y]) n (ys[nat i := y])"
  unfolding holds_def by (auto simp: take_update_swap map_update)

lemma holds_butlast:
  assumes "holds xs n ys" and "0 < n"
  shows "holds xs (n - 1) (butlast ys)"
proof (rule holdsI)
  from assms show "length (butlast ys) \<le> length xs"
    using holds_length[OF assms(1)] by (auto simp: holds_def)
qed (use assms holds_length[OF assms(1)] holds_nth[OF assms(1)] in \<open>auto simp: nth_butlast\<close>)

lemma holds_Nil [simp]: "holds xs 0 ys \<longleftrightarrow> ys = []"
  by (auto simp: holds_def)

lemma holds_full: "holds xs (int (length xs)) ys \<longleftrightarrow> xs = map Some ys"
  by (auto simp: holds_def)

subsection \<open>Cells of a store\<close>

text \<open>Objects at addresses: an address that is not in the map is not allocated, or no more.\<close>

definition cell :: "(nat \<rightharpoonup> 'a) \<Rightarrow> nat \<Rightarrow> 'a res" where
  "cell m a = (case m a of None \<Rightarrow> Inl DanglingPtr | Some x \<Rightarrow> Inr x)"

definition modify :: "nat \<Rightarrow> ('a \<Rightarrow> 'a) \<Rightarrow> (nat \<rightharpoonup> 'a) \<Rightarrow> (nat \<rightharpoonup> 'a) res" where
  "modify a g m = rbind (cell m a) (\<lambda>x. Inr (m(a \<mapsto> g x)))"

text \<open>The common \<open>if( p != NULL ) p->field = ...\<close>.\<close>

definition modify_if :: "nat option \<Rightarrow> ('a \<Rightarrow> 'a) \<Rightarrow> (nat \<rightharpoonup> 'a) \<Rightarrow> (nat \<rightharpoonup> 'a) res" where
  "modify_if p g m = (case p of None \<Rightarrow> Inr m | Some a \<Rightarrow> modify a g m)"

lemma cell_Some [simp]: "m a = Some x \<Longrightarrow> cell m a = Inr x"
  by (simp add: cell_def)

lemma cell_Inr_iff [res_iff]: "cell m a = Inr x \<longleftrightarrow> m a = Some x"
  by (simp add: cell_def split: option.splits)

lemma modify_Some [simp]: "m a = Some x \<Longrightarrow> modify a g m = Inr (m(a \<mapsto> g x))"
  by (simp add: modify_def)

lemma modify_if_simps [simp]:
  "modify_if None g m = Inr m"
  "modify_if (Some a) g m = modify a g m"
  by (simp_all add: modify_if_def)

subsection \<open>Rings\<close>

text \<open>
  A fixed array used as a ring: the contents \<open>xs\<close> (oldest first) start at index \<open>t\<close> and wrap
  around at the end of the array. Both ring buffers of the library refine to this.
\<close>

definition ring :: "'a list \<Rightarrow> nat \<Rightarrow> 'a list \<Rightarrow> bool" where
  "ring s t xs \<longleftrightarrow> t < length s \<and> length xs \<le> length s
     \<and> (\<forall>k < length xs. s ! ((t + k) mod length s) = xs ! k)"

lemma mod_add_inj_le:
  fixes t j k n :: nat
  assumes "(t + j) mod n = (t + k) mod n" and "j < n" and "k \<le> j"
  shows "j = k"
proof -
  obtain q where "t + j = t + k + n * q"
    using mod_eq_nat1E[OF assms(1)] assms(3) by auto
  then show ?thesis using assms(2) by (cases q) auto
qed

lemma mod_add_inj:
  fixes t j k n :: nat
  assumes "(t + j) mod n = (t + k) mod n" and "j < n" and "k < n"
  shows "j = k"
  using mod_add_inj_le[of t j n k] mod_add_inj_le[of t k n j] assms
  by (metis nat_le_linear)

lemma ring_Nil [simp]: "ring s t [] \<longleftrightarrow> t < length s"
  by (auto simp add: ring_def)

lemma ring_mod_less: "ring s t xs \<Longrightarrow> i mod length s < length s"
  by (auto simp: ring_def intro: mod_less_divisor)

lemma ring_snoc:
  assumes "ring s t xs" and "length xs < length s"
  shows "ring (s[(t + length xs) mod length s := x]) t (xs @ [x])"
  unfolding ring_def
proof (intro conjI allI impI)
  fix k assume "k < length (xs @ [x])"
  then show "s[(t + length xs) mod length s := x]
      ! ((t + k) mod length (s[(t + length xs) mod length s := x])) = (xs @ [x]) ! k"
    using assms mod_add_inj[of t "length xs" "length s" k] ring_mod_less[OF assms(1)]
    by (cases "k = length xs") (auto simp: ring_def nth_append nth_list_update)
qed (use assms in \<open>auto simp: ring_def\<close>)

lemma ring_hd: "ring s t (x # xs) \<Longrightarrow> s ! t = x"
  by (auto simp: ring_def)

lemma ring_tl:
  assumes "ring s t (x # xs)"
  shows "ring s (Suc t mod length s) xs"
proof -
  have "s ! ((t + Suc k) mod length s) = xs ! k" if "k < length xs" for k
    using assms that unfolding ring_def by (metis Suc_less_eq length_Cons nth_Cons_Suc)
  then show ?thesis
    using assms ring_mod_less[OF assms, of "Suc t"] by (auto simp: ring_def mod_simps)
qed

lemma ring_update:
  assumes "ring s t xs" and "p < length s" and "\<And>k. k < length xs \<Longrightarrow> p \<noteq> (t + k) mod length s"
  shows "ring (s[p := y]) t xs"
  using assms by (auto simp: ring_def nth_list_update)

lemma ring_tl_update:
  assumes "ring s t (x # xs)"
  shows "ring (s[t := y]) (Suc t mod length s) xs"
proof (rule ring_update)
  show "ring s (Suc t mod length s) xs" using assms by (rule ring_tl)
  show "t < length s" using assms by (simp add: ring_def)
  show "t \<noteq> (Suc t mod length s + k) mod length s" if "k < length xs" for k
    using that assms mod_add_inj[of t 0 "length s" "Suc k"]
    by (cases "s = []") (auto simp: ring_def mod_simps)
qed

lemma ring_drop: "ring s t (xs @ ys) \<Longrightarrow> ring s ((t + length xs) mod length s) ys"
proof (induction xs arbitrary: t)
  case (Cons x xs)
  then show ?case using ring_tl[of s t x "xs @ ys"] by (force simp: mod_simps)
qed (simp add: ring_def)

text \<open>Contiguous writes and reads: \<open>m\<close> slots from \<open>p\<close> on that do not cross the end.\<close>

definition blit :: "'a list \<Rightarrow> nat \<Rightarrow> 'a list \<Rightarrow> 'a list" where
  "blit s p ys = take p s @ ys @ drop (p + length ys) s"

lemma blit_Nil [simp]: "blit s p [] = s"
  by (simp add: blit_def)

lemma length_blit [simp]: "p + length ys \<le> length s \<Longrightarrow> length (blit s p ys) = length s"
  by (simp add: blit_def)

lemma blit_snoc:
  "p + length ys < length s \<Longrightarrow> blit s p (ys @ [y]) = (blit s p ys)[p + length ys := y]"
  by (simp add: blit_def list_update_append Cons_nth_drop_Suc[symmetric])

lemma ring_blit:
  assumes "ring s t xs" and "p = (t + length xs) mod length s"
    and "p + length ys \<le> length s" and "length xs + length ys \<le> length s"
  shows "ring (blit s p ys) t (xs @ ys)"
  using assms(3,4)
proof (induction ys rule: rev_induct)
  case Nil
  then show ?case using assms(1) by simp
next
  case (snoc y ys)
  have "(t + (length xs + length ys)) mod length s = p + length ys"
    using snoc.prems assms(2)
    by (metis add.assoc add_lessD1 add_less_cancel_left less_le_trans length_append_singleton lessI mod_add_left_eq mod_less)
  then show ?case
    using snoc ring_snoc[of "blit s p ys" t "xs @ ys" y] by (simp add: blit_snoc)
qed

lemma ring_take:
  assumes "ring s t xs" and "m \<le> length xs" and "t + m \<le> length s"
  shows "take m (drop t s) = take m xs"
proof (rule nth_equalityI)
  fix k assume "k < length (take m (drop t s))"
  then show "take m (drop t s) ! k = take m xs ! k"
    using assms by (auto simp: ring_def dest: spec[of _ k])
qed (use assms in \<open>auto simp: ring_def\<close>)

end
