(* ===== verification/Err.thy ===== *)
theory Err
  imports Prelude
begin

section \<open>Error objects\<close>

text \<open>
  The ``new'' error handling of \<open>src/err.c\<close> and the allocation wrappers of \<open>src/mem.c\<close>: an
  \<open>Error\<close> is NULL (\<open>None\<close>: success) or a chain of \<open>sError\<close> objects linked by \<open>reason\<close>.
  Modelled: construction, copying with its clean-up paths, disposal, and the two-pass
  conversion to a readable string, with the blocks each function obtains and gives back.
  \<open>printf\<close>-style formatting is the C library's: a description arrives already formatted.
  The old trace stack (\<open>ErrPushFunc\<close>, \<open>ErrPopFunc\<close>) is compiled out by \<open>DISABLE_PUSH_POP\<close>.
\<close>

subsection \<open>Data\<close>

datatype ErrType =
    ERR_UNKNOWN | ERR_ERRNO | ERR_OSERR | ERR_SOCK | ERR_APP | ERR_SND
  | ERR_MAC | ERR_FFT | ERR_BROKER | ERR_MEMORY | ERR_SHLIB
  | ERR_THREADING
  | ERR_TEXTRPC | ERR_STRBUF | ERR_LOOP | ERR_ISI_IDE | ERR_OOW
  | ERR_PARSER | ERR_JAVA_GENERIC | ERR_COOWA | ERR_WINSOCK
  | ERR_SPEECH_RECOGNITION | ERR_HTTP | ERR_IVR | ERR_WIN32
  | ERR_DRIVER | ERR_NUANCE | ERR_STATE_MACHINE | ERR_LOGGING
  | ERR_LLT | ERR_DIALOGIC_GLOBAL_CALL | ERR_DIALOGIC_CALL_CONTROL
  | ERR_DIALOGIC_DX | ERR_QUEUE | ERR_SSL | ERR_XTI | ERR_TCL
  | ERR_TCPIP | ERR_SIP | ERR_ICU | ERR_SQLITE | ERR_UPNP

datatype sError =
  SError (err_type: ErrType) (err_number: int) (err_description: string) (err_reason: "sError option")

type_synonym Error = "sError option"

abbreviation NUL :: char where "NUL \<equiv> CHR 0x00"
abbreviation ERR_BUFF_SIZE :: nat where "ERR_BUFF_SIZE \<equiv> 1024"
definition MEMERR_OUT :: int where
  "MEMERR_OUT = 0"

definition ERR_BECAUSE_STR :: string where
  "ERR_BECAUSE_STR = '', because ''"

subsection \<open>Construction and access\<close>

text \<open>
  \<open>ErrNew\<close> cuts the formatted description to the buffer, duplicates it (without memory for
  the duplicate it aborts the program) and allocates the object; when that allocation fails
  it returns NULL.
\<close>

definition mkErr :: "ErrType \<Rightarrow> int \<Rightarrow> Error \<Rightarrow> string \<Rightarrow> sError" where
  "mkErr t n r d = SError t n (take (ERR_BUFF_SIZE - 1) d) r"

definition ErrNew :: "bool \<Rightarrow> bool \<Rightarrow> ErrType \<Rightarrow> int \<Rightarrow> Error \<Rightarrow> string \<Rightarrow> Error res" where
  "ErrNew strdupOk mallocOk t n r d =
     (if \<not> strdupOk then Inl Aborted
      else if \<not> mallocOk then Inr None
      else Inr (Some (mkErr t n r d)))"

definition Err_getType :: "Error \<Rightarrow> ErrType res" where
  "Err_getType e = (case e of None \<Rightarrow> Inl AssertFailed | Some x \<Rightarrow> Inr (err_type x))"

definition Err_getNum :: "Error \<Rightarrow> int res" where
  "Err_getNum e = (case e of None \<Rightarrow> Inl AssertFailed | Some x \<Rightarrow> Inr (err_number x))"

text \<open>
  \<open>emalloc\<close>: the block (or NULL) and the error. The last two arguments are the outcomes of the
  two allocations inside \<open>ErrNew\<close>, which matter only when the first one failed. The byte
  counts that the source formats into its messages are left out of the texts.
\<close>

definition emalloc :: "bool \<Rightarrow> bool \<Rightarrow> bool \<Rightarrow> (Error \<times> unit option) res" where
  "emalloc mallocOk errStrOk errObjOk =
     (if mallocOk then Inr (None, Some ())
      else rbind (ErrNew errStrOk errObjOk ERR_MEMORY MEMERR_OUT None
                    ''Out of memory when allocating'')
             (\<lambda>e. Inr (e, None)))"

definition estrdup :: "bool \<Rightarrow> bool \<Rightarrow> bool \<Rightarrow> string option \<Rightarrow> (Error \<times> string option) res" where
  "estrdup mallocOk errStrOk errObjOk originalString =
     (case originalString of
        None \<Rightarrow> Inl AssertFailed
      | Some s \<Rightarrow>
          if mallocOk then Inr (None, Some s)
          else rbind (ErrNew errStrOk errObjOk ERR_MEMORY MEMERR_OUT None
                        ''Out of memory when allocating copying a string'')
                 (\<lambda>e. Inr (e, None)))"

subsection \<open>Copying and disposing\<close>

text \<open>
  \<open>ErrCopy\<close> consumes one allocation outcome per allocation, in program order (an exhausted
  list is an allocator that has stopped granting). The last component of the result is the
  number of blocks the call obtained and did not give back.
\<close>

definition next_ok :: "bool list \<Rightarrow> bool \<times> bool list" where
  "next_ok oks = (case oks of [] \<Rightarrow> (False, []) | b # bs \<Rightarrow> (b, bs))"

definition oom :: "sError" where
  "oom = mkErr ERR_MEMORY MEMERR_OUT None ''Out of memory''"

primrec ErrCopy :: "sError \<Rightarrow> bool list \<Rightarrow> Error \<times> Error \<times> bool list \<times> int"
  and ErrCopyReason :: "sError option \<Rightarrow> bool list \<Rightarrow> Error \<times> Error \<times> bool list \<times> int"
where
  "ErrCopy (SError t n d r) oks =
     (let (ok1, oks1) = next_ok oks in
      if \<not> ok1 then (Some oom, None, oks1, 0)
      else
        let (ok2, oks2) = next_ok oks1 in
        if \<not> ok2 then (Some oom, None, oks2, 1 - 1)
        else
          let (e, c, oks3, live) = ErrCopyReason r oks2 in
          if e \<noteq> None then (e, None, oks3, live + 2 - 2)
          else (None, Some (SError t n d c), oks3, live + 2))"
| "ErrCopyReason None oks = (None, None, oks, 0)"
| "ErrCopyReason (Some e) oks = ErrCopy e oks"

text \<open>\<open>ErrDispose\<close>: the number of blocks freed (description and object of each link it visits).\<close>

primrec ErrDispose :: "sError \<Rightarrow> bool \<Rightarrow> int"
  and ErrDisposeReason :: "sError option \<Rightarrow> bool \<Rightarrow> int"
where
  "ErrDispose (SError t n d r) recursive = (if recursive then ErrDisposeReason r True else 0) + 2"
| "ErrDisposeReason None recursive = 0"
| "ErrDisposeReason (Some e) recursive = ErrDispose e recursive"

subsection \<open>The readable string\<close>

text \<open>A C string in a buffer: \<open>strcpy\<close> at an offset, and what is read back up to the NUL.\<close>

definition put_cstr :: "char list \<Rightarrow> nat \<Rightarrow> string \<Rightarrow> char list res" where
  "put_cstr buf off s =
     (if off + length s + 1 \<le> length buf
      then Inr (take off buf @ s @ NUL # drop (off + length s + 1) buf)
      else Inl OutOfBounds)"

definition get_cstr :: "char list \<Rightarrow> nat \<Rightarrow> string" where
  "get_cstr buf off = takeWhile (\<lambda>c. c \<noteq> NUL) (drop off buf)"

primrec calculateHumanReadableStringLength :: "sError \<Rightarrow> nat"
  and calculateReasonLength :: "sError option \<Rightarrow> nat"
where
  "calculateHumanReadableStringLength (SError t n d r) = length d + calculateReasonLength r"
| "calculateReasonLength None = 0"
| "calculateReasonLength (Some e) =
     length ERR_BECAUSE_STR + calculateHumanReadableStringLength e"

primrec writeHumanReadableString :: "sError \<Rightarrow> char list \<Rightarrow> nat \<Rightarrow> nat \<Rightarrow> char list res"
  and writeReason :: "sError option \<Rightarrow> char list \<Rightarrow> nat \<Rightarrow> nat \<Rightarrow> char list res"
where
  "writeHumanReadableString (SError t n d r) buf off remainingLength =
     rbind (rassert (remainingLength \<ge> length ERR_BECAUSE_STR + length d)) (\<lambda>_.
     rbind (put_cstr buf off ERR_BECAUSE_STR) (\<lambda>buf1.
     rbind (put_cstr buf1 (off + length ERR_BECAUSE_STR) d) (\<lambda>buf2.
     (let addedLength = length (get_cstr buf2 off)
      in writeReason r buf2 (off + addedLength) (remainingLength - addedLength)))))"
| "writeReason None buf off remainingLength = Inr buf"
| "writeReason (Some e) buf off remainingLength =
     writeHumanReadableString e buf off remainingLength"

definition ErrToHumanReadableString :: "sError \<Rightarrow> bool \<Rightarrow> (Error \<times> char list option) res" where
  "ErrToHumanReadableString e mallocOk =
     (let stringLength = calculateHumanReadableStringLength e;
          descriptionLength = length (err_description e)
      in if \<not> mallocOk then Inr (Some oom, None)
         else
           let filled = take (stringLength + 1)
                          (err_description e @ replicate (stringLength + 1) NUL);
               buf = filled[stringLength := NUL]
           in rbind (writeReason (err_reason e) buf descriptionLength
                       (stringLength - descriptionLength))
                (\<lambda>b. Inr (None, Some b)))"

text \<open>The lines \<open>ErrReport\<close> prints on \<open>stderr\<close>.\<close>

primrec report_lines :: "sError \<Rightarrow> string list"
  and report_reason :: "sError option \<Rightarrow> string list"
where
  "report_lines (SError t n d r) = (''  '' @ d) # (if r \<noteq> None then [''because''] else []) @ report_reason r"
| "report_reason None = []"
| "report_reason (Some e) = report_lines e"

definition ErrReport :: "Error \<Rightarrow> string list" where
  "ErrReport e = ''Error:'' # report_reason e"

subsection \<open>Specification: the chain of descriptions\<close>

primrec err_chain :: "sError \<Rightarrow> string list"
  and reason_chain :: "sError option \<Rightarrow> string list"
where
  "err_chain (SError t n d r) = d # reason_chain r"
| "reason_chain None = []"
| "reason_chain (Some e) = err_chain e"

fun join_because :: "string list \<Rightarrow> string" where
  "join_because [] = []"
| "join_because [d] = d"
| "join_because (d # ds) = d @ ERR_BECAUSE_STR @ join_because ds"

definition nul_free :: "sError \<Rightarrow> bool" where
  "nul_free e \<longleftrightarrow> (\<forall>d \<in> set (err_chain e). NUL \<notin> set d)"

definition reason_text :: "string list \<Rightarrow> string" where
  "reason_text ds = concat (map (\<lambda>d. ERR_BECAUSE_STR @ d) ds)"

subsection \<open>Lemmas\<close>

lemma because_nul_free [simp]: "NUL \<notin> set ERR_BECAUSE_STR"
  by (simp add: ERR_BECAUSE_STR_def)

lemma next_ok_simps [simp]: "next_ok [] = (False, [])" "next_ok (b # bs) = (b, bs)"
  by (simp_all add: next_ok_def)

definition copied :: "Error \<Rightarrow> Error \<times> Error \<times> bool list \<times> int \<Rightarrow> bool" where
  "copied r res =
     (case res of
        (None, c, _, live) \<Rightarrow> c = r \<and> live = ErrDisposeReason r True
      | (Some _, c, _, live) \<Rightarrow> c = None \<and> live = 0)"

lemma ErrCopy_copied: "copied (Some e) (ErrCopy e oks)"
proof (induction e arbitrary: oks)
  case (SError t n d r)
  have "copied r (ErrCopyReason r oks')" for oks'
  proof (cases r)
    case (Some e)
    then show ?thesis using SError[of e oks'] by simp
  qed (simp add: copied_def)
  from this[of "snd (next_ok (snd (next_ok oks)))"] show ?case
    by (auto simp: copied_def Let_def split: prod.splits option.splits)
qed

lemma join_because_eq: "join_because (d # ds) = d @ reason_text ds"
  by (induction ds arbitrary: d) (auto simp: reason_text_def)

lemma calc_length: "calculateHumanReadableStringLength e = length (join_because (err_chain e))"
proof (induction e)
  case (SError t n d r)
  show ?case
  proof (cases r)
    case None
    then show ?thesis by simp
  next
    case (Some e)
    then show ?thesis
      using SError[of e] by (cases e) (simp add: join_because_eq reason_text_def)
  qed
qed

lemma get_cstr_app:
  "NUL \<notin> set s \<Longrightarrow> length xs = off \<Longrightarrow> get_cstr (xs @ s @ NUL # ys) off = s"
  by (simp add: get_cstr_def takeWhile_append2 takeWhile_tail split: if_splits)
    (metis (mono_tags, lifting) append.right_neutral takeWhile.simps(2) takeWhile_append2)

text \<open>
  Writing the rest of a chain: the buffer holds exactly the prefix written so far, a NUL, and
  room for the rest; afterwards it holds prefix, rest and NUL, and no write left the buffer.
\<close>

definition writes_chain :: "(char list \<Rightarrow> nat \<Rightarrow> nat \<Rightarrow> char list res) \<Rightarrow> string list \<Rightarrow> bool" where
  "writes_chain write ds \<longleftrightarrow>
     (\<forall>buf off. length buf = off + length (reason_text ds) + 1 \<longrightarrow> buf ! off = NUL \<longrightarrow>
        write buf off (length (reason_text ds)) = Inr (take off buf @ reason_text ds @ [NUL]))"

lemma write_chain_step:
  assumes nul: "NUL \<notin> set d" and rest: "writes_chain (writeReason r) (reason_chain r)"
  shows "writes_chain (writeHumanReadableString (SError t n d r)) (d # reason_chain r)"
  unfolding writes_chain_def
proof (intro allI impI)
  fix buf :: "char list" and off :: nat
  assume lenbuf: "length buf = off + length (reason_text (d # reason_chain r)) + 1"
  let ?B = "ERR_BECAUSE_STR" and ?R = "reason_text (reason_chain r)"
  have rt: "reason_text (d # reason_chain r) = ?B @ d @ ?R"
    by (simp add: reason_text_def)
  have len: "length buf = off + length ?B + length d + length ?R + 1"
    using lenbuf rt by simp
  define buf1 where "buf1 = take off buf @ ?B @ NUL # drop (off + length ?B + 1) buf"
  have p1: "put_cstr buf off ?B = Inr buf1"
    using len by (simp add: put_cstr_def buf1_def)
  have len1: "length buf1 = length buf" using len by (simp add: buf1_def)
  have t1: "take (off + length ?B) buf1 = take off buf @ ?B"
    using len by (simp add: buf1_def)
  define buf2 where "buf2 = (take off buf @ ?B) @ d @ NUL # drop (off + length ?B + length d + 1) buf1"
  have p2: "put_cstr buf1 (off + length ?B) d = Inr buf2"
    using len len1 t1 by (simp add: put_cstr_def buf2_def)
  have nulB: "NUL \<notin> set (?B @ d)" using nul by simp
  have g: "get_cstr buf2 off = ?B @ d"
    using get_cstr_app[OF nulB, of "take off buf" off] len by (simp add: buf2_def)
  have len2: "length buf2 = off + length (?B @ d) + length ?R + 1"
    using len len1 by (simp add: buf2_def)
  have nul2: "buf2 ! (off + length (?B @ d)) = NUL"
    using len by (simp add: buf2_def nth_append)
  have t2: "take (off + length (?B @ d)) buf2 = take off buf @ ?B @ d"
    using len by (simp add: buf2_def)
  have "writeReason r buf2 (off + length (?B @ d)) (length ?R)
          = Inr (take (off + length (?B @ d)) buf2 @ ?R @ [NUL])"
    using rest len2 nul2 by (simp add: writes_chain_def)
  moreover have "length (?B @ d @ ?R) - length (?B @ d) = length ?R" by simp
  ultimately show "writeHumanReadableString (SError t n d r) buf off
      (length (reason_text (d # reason_chain r)))
      = Inr (take off buf @ reason_text (d # reason_chain r) @ [NUL])"
    using p1 p2 g t2 rt by (simp add: Let_def)
qed

lemma write_chain:
  "NUL \<notin> set (concat (err_chain e)) \<Longrightarrow> writes_chain (writeHumanReadableString e) (err_chain e)"
proof (induction e)
  case (SError t n d r)
  have "writes_chain (writeReason r) (reason_chain r)"
  proof (cases r)
    case None
    then show ?thesis
      by (auto simp: writes_chain_def reason_text_def)
        (metis lessI order_refl take_Suc_conv_app_nth take_all)
  next
    case (Some e)
    then show ?thesis using SError by (auto simp: writes_chain_def)
  qed
  moreover have "NUL \<notin> set d" using SError.prems by simp
  ultimately show ?case using write_chain_step by (simp only: err_chain.simps)
qed

subsection \<open>Properties\<close>

lemma reason_bytes:
  "length (join_because (err_chain e)) - length (err_description e) = length (reason_text (reason_chain (err_reason e)))"
  by (cases e) (simp add: join_because_eq)

lemma get_cstr_terminated: "NUL \<notin> set s \<Longrightarrow> get_cstr (s @ [NUL]) 0 = s"
  using get_cstr_app[of s "[]" 0 "[]"] by simp

lemma nul_free_join: "nul_free e \<Longrightarrow> NUL \<notin> set (join_because (err_chain e))"
  by (cases e) (auto simp: nul_free_def join_because_eq reason_text_def)

lemma ErrToHumanReadableString_eq:
  assumes "nul_free e"
  shows "ErrToHumanReadableString e True = Inr (None, Some (join_because (err_chain e) @ [NUL]))"
proof -
  obtain t n d r where e: "e = SError t n d r" by (cases e)
  let ?R = "reason_text (reason_chain r)"
  let ?buf = "(take (length d + length ?R + 1) (d @ replicate (length d + length ?R + 1) NUL))
                [length d + length ?R := NUL]"
  have "take (length d + length ?R + 1) (d @ replicate (length d + length ?R + 1) NUL)
          = d @ replicate (length ?R + 1) NUL"
    by simp
  then have buf: "?buf = d @ replicate (length ?R + 1) NUL"
    by (intro nth_equalityI) (auto simp: nth_append nth_list_update nth_Cons')
  have "writes_chain (writeReason r) (reason_chain r)"
  proof (cases r)
    case None
    then show ?thesis
      by (auto simp: writes_chain_def reason_text_def)
        (metis lessI order_refl take_Suc_conv_app_nth take_all)
  next
    case (Some e')
    then have "NUL \<notin> set (concat (err_chain e'))"
      using assms e by (auto simp: nul_free_def)
    then show ?thesis using Some write_chain by (auto simp: writes_chain_def)
  qed
  then have "writeReason r (d @ replicate (length ?R + 1) NUL) (length d) (length ?R)
               = Inr (d @ ?R @ [NUL])"
    by (simp add: writes_chain_def nth_append)
  then show ?thesis
    using buf by (simp add: ErrToHumanReadableString_def e calc_length join_because_eq Let_def)
qed

text \<open>C14: \<open>ErrToHumanReadableString\<close> computes the length of the whole chain first and then
  fills a buffer of exactly that size: for every chain of NUL-free descriptions no copy leaves
  the buffer and no assertion fails, and the C string it returns is the descriptions joined by
  \<open>, because \<close>, with the terminator in the last byte of the block.\<close>

theorem ErrToHumanReadableString_text:
  assumes "nul_free e"
  shows "\<exists>buf. ErrToHumanReadableString e True = Inr (None, Some buf)
      \<and> get_cstr buf 0 = join_because (err_chain e)
      \<and> length buf = calculateHumanReadableStringLength e + 1"
  using ErrToHumanReadableString_eq[OF assms] nul_free_join[OF assms]
  by (simp add: get_cstr_terminated calc_length)

theorem ErrToHumanReadableString_text_witness:
  "\<exists>buf. ErrToHumanReadableString (SError ERR_APP 1 ''open failed'' (Some (SError ERR_ERRNO 2 ''no file'' None))) True
           = Inr (None, Some buf)
      \<and> get_cstr buf 0 = ''open failed, because no file'' \<and> length buf = 29"
proof -
  let ?e = "SError ERR_APP 1 ''open failed'' (Some (SError ERR_ERRNO 2 ''no file'' None))"
  have h: "nul_free ?e" by (simp add: nul_free_def)
  have j: "join_because (err_chain ?e) = ''open failed, because no file''"
    by (simp add: ERR_BECAUSE_STR_def)
  have l: "calculateHumanReadableStringLength ?e + 1 = 29"
    by (simp add: ERR_BECAUSE_STR_def)
  show ?thesis using ErrToHumanReadableString_text[OF h] unfolding j l .
qed

lemma ErrCopy_granted:
  "ErrCopy e (replicate (2 * length (err_chain e)) True @ rest) = (None, Some e, rest, ErrDispose e True)"
proof (induction e)
  case (SError t n d r)
  have "ErrCopyReason r (replicate (2 * length (reason_chain r)) True @ rest)
          = (None, r, rest, ErrDisposeReason r True)"
  proof (cases r)
    case (Some e)
    then show ?thesis using SError[of e] by simp
  qed simp
  then show ?case by simp
qed

text \<open>\<open>ErrCopy\<close> with every pattern of allocation failures: either it reports no error, the
  copy equals the original and the blocks it obtained are exactly those a recursive
  \<open>ErrDispose\<close> of the copy frees, or it reports an error, hands out no copy and has given back
  every block; and when the allocator grants two blocks per link it succeeds.\<close>

theorem ErrCopy_exact:
  "(case ErrCopy e oks of
      (None, c, _, live) \<Rightarrow> c = Some e \<and> live = ErrDispose e True
    | (Some _, c, _, live) \<Rightarrow> c = None \<and> live = 0)
   \<and> ErrCopy e (replicate (2 * length (err_chain e)) True @ rest)
       = (None, Some e, rest, ErrDispose e True)"
  using ErrCopy_copied[of e oks] ErrCopy_granted[of e rest]
  by (auto simp: copied_def split: prod.splits option.splits)

end
