(* ===== verification/Vector.thy ===== *)
theory Vector
  imports Err
begin

section \<open>Vectors\<close>

text \<open>
  \<open>src/vector.c\<close>: a dynamic one-dimensional array with a reference count. The state is the
  C struct; \<open>v_data\<close> is the allocated block, one slot per element. The two recursive locks
  are taken and released in a balanced way by every function and are no part of the
  sequential state. A destroy function is client code: a function on the client's world
  \<open>'w\<close>. Interface \<open>array_store\<close>: what the clients of a vector rely on.
\<close>

subsection \<open>State\<close>

record ('a, 'w) sVector =
  v_elementSize :: nat
  v_capacity :: int
  v_capacityIncrement :: int
  v_elementCount :: int
  v_refCount :: int
  v_destroyFunc :: "('a \<Rightarrow> 'w \<Rightarrow> 'w) option"
  v_name :: "string option"
  v_data :: "'a option list"

abbreviation sizeof_voidp :: nat where "sizeof_voidp \<equiv> 4"

subsection \<open>Operations\<close>

text \<open>\<open>vector_isValid\<close> is a list of assertions; \<open>data\<close> and \<open>cookie\<close> are right by construction.\<close>

definition vector_isValid :: "('a, 'w) sVector \<Rightarrow> bool res" where
  "vector_isValid v =
     rbind (rassert (v_elementSize v > 0)) (\<lambda>_.
     rbind (rassert (v_capacity v \<ge> 0)) (\<lambda>_.
     rbind (rassert (v_capacityIncrement v > 0)) (\<lambda>_.
     rbind (rassert (v_elementCount v \<ge> 0)) (\<lambda>_.
     rbind (rassert (v_refCount v > 0)) (\<lambda>_.
     rbind (rassert (v_capacity v \<ge> v_elementCount v)) (\<lambda>_.
     Inr True))))))"

text \<open>
  \<open>vectorCreate\<close>: outcomes of the allocation of the struct, of the copy of the name, of the
  data block (by its size) and of the two mutexes. The common exit frees \<open>name\<close> and \<open>data\<close>
  if they are not NULL; on the path where the name could not be copied, \<open>data\<close> has not been
  written yet.
\<close>

definition vectorCreate ::
  "bool \<Rightarrow> bool \<Rightarrow> allocator \<Rightarrow> bool \<Rightarrow> bool \<Rightarrow> string option \<Rightarrow> nat \<Rightarrow> int \<Rightarrow> int
   \<Rightarrow> ('a \<Rightarrow> 'w \<Rightarrow> 'w) option \<Rightarrow> ('a, 'w) sVector option res" where
  "vectorCreate structOk nameOk avail lockOk refLockOk name elementSize initialCapacity
     capacityIncrement destroyFunc =
     (if \<not> structOk then Inr None
      else if name \<noteq> None \<and> \<not> nameOk then Inl UninitRead
      else if \<not> avail (block_bytes elementSize initialCapacity) then Inr None
      else if \<not> lockOk then Inr None
      else if \<not> refLockOk then Inr None
      else Inr (Some \<lparr> v_elementSize = elementSize, v_capacity = initialCapacity,
                       v_capacityIncrement = capacityIncrement, v_elementCount = 0,
                       v_refCount = 1, v_destroyFunc = destroyFunc, v_name = name,
                       v_data = replicate (block_slots elementSize initialCapacity) None \<rparr>))"

definition vectorClone ::
  "bool \<Rightarrow> bool \<Rightarrow> allocator \<Rightarrow> bool \<Rightarrow> bool \<Rightarrow> string option \<Rightarrow> ('a, 'w) sVector
   \<Rightarrow> ('a, 'w) sVector res" where
  "vectorClone structOk nameOk avail lockOk refLockOk name a =
     rbind (vector_isValid a) (\<lambda>_.
     rbind (iadd (v_elementCount a) (v_capacityIncrement a)) (\<lambda>cap.
     rbind (vectorCreate structOk nameOk avail lockOk refLockOk name (v_elementSize a) cap
              (v_capacityIncrement a) (v_destroyFunc a)) (\<lambda>res.
     case res of
       None \<Rightarrow> Inl NullDeref
     | Some b \<Rightarrow>
         rbind (rguard OutOfBounds (v_elementCount a \<le> int (length (v_data b)))) (\<lambda>_.
         (let n = nat (v_elementCount a);
              b' = b\<lparr> v_data := take n (v_data a) @ drop n (v_data b),
                      v_elementCount := v_elementCount a \<rparr>
          in rbind (vector_isValid b') (\<lambda>_. Inr b'))))))"

definition vectorRefcountIncrease :: "('a, 'w) sVector \<Rightarrow> ('a, 'w) sVector res" where
  "vectorRefcountIncrease v =
     rbind (iadd (v_refCount v) 1) (\<lambda>n. Inr (v\<lparr> v_refCount := n \<rparr>))"

text \<open>The loop that hands every element in the vector to the destroy function, in order.\<close>

definition destroy_loop :: "('a, 'w) sVector \<Rightarrow> 'w \<Rightarrow> 'w res" where
  "destroy_loop v w =
     (case v_destroyFunc v of
        None \<Rightarrow> Inr w
      | Some f \<Rightarrow>
          rfold (\<lambda>i w. rbind (read_slot (v_data v) i) (\<lambda>x. Inr (f x w)))
                (map int [0..<nat (v_elementCount v)]) w)"

definition vectorDestroy :: "('a, 'w) sVector \<Rightarrow> 'w \<Rightarrow> 'w res" where
  "vectorDestroy v w = destroy_loop v w"

text \<open>The vector is gone (\<open>None\<close>) once the count reaches zero.\<close>

definition vectorRefcountDecrease ::
  "('a, 'w) sVector \<Rightarrow> 'w \<Rightarrow> (('a, 'w) sVector option \<times> 'w) res" where
  "vectorRefcountDecrease v w =
     rbind (rassert (v_refCount v > 0)) (\<lambda>_.
     (let v' = v\<lparr> v_refCount := v_refCount v - 1 \<rparr>
      in if v_refCount v' = 0
         then rbind (vectorDestroy v' w) (\<lambda>w'. Inr (None, w'))
         else Inr (Some v', w)))"

definition vectorGetElementCount :: "('a, 'w) sVector \<Rightarrow> int" where
  "vectorGetElementCount v = v_elementCount v"

definition increaseCapacity :: "allocator \<Rightarrow> ('a, 'w) sVector \<Rightarrow> ('a, 'w) sVector res" where
  "increaseCapacity avail v =
     rbind (rassert (v_capacityIncrement v > 0)) (\<lambda>_.
     rbind (iadd (v_capacity v) (v_capacityIncrement v)) (\<lambda>cap.
     rbind (rassert (avail (block_bytes (v_elementSize v) cap))) (\<lambda>_.
     Inr (v\<lparr> v_capacity := cap,
             v_data := realloc_slots (block_slots (v_elementSize v) cap) (v_data v) \<rparr>))))"

definition vectorAppend ::
  "allocator \<Rightarrow> ('a, 'w) sVector \<Rightarrow> 'a \<Rightarrow> (int \<times> ('a, 'w) sVector) res" where
  "vectorAppend avail v element =
     rbind (if v_elementCount v = v_capacity v then increaseCapacity avail v else Inr v) (\<lambda>v1.
     rbind (rassert (v_capacity v1 > v_elementCount v1)) (\<lambda>_.
     (let index = v_elementCount v1
      in rbind (write_slot (v_data v1) index element) (\<lambda>d.
         Inr (index, v1\<lparr> v_data := d, v_elementCount := v_elementCount v1 + 1 \<rparr>)))))"

definition vectorAppendPtr ::
  "allocator \<Rightarrow> ('a, 'w) sVector \<Rightarrow> 'a \<Rightarrow> (int \<times> ('a, 'w) sVector) res" where
  "vectorAppendPtr avail v ptr =
     rbind (rassert (v_elementSize v = sizeof_voidp)) (\<lambda>_.
     rbind (if v_elementCount v = v_capacity v then increaseCapacity avail v else Inr v) (\<lambda>v1.
     rbind (rassert (v_capacity v1 > v_elementCount v1)) (\<lambda>_.
     (let index = v_elementCount v1
      in rbind (write_slot (v_data v1) index ptr) (\<lambda>d.
         Inr (index, v1\<lparr> v_data := d, v_elementCount := v_elementCount v1 + 1 \<rparr>))))))"

definition vectorRemoveLastElement :: "('a, 'w) sVector \<Rightarrow> ('a, 'w) sVector res" where
  "vectorRemoveLastElement v =
     (if v_elementCount v \<noteq> 0 then Inr (v\<lparr> v_elementCount := v_elementCount v - 1 \<rparr>)
      else Inl AssertFailed)"

definition vectorRemoveAll :: "('a, 'w) sVector \<Rightarrow> 'w \<Rightarrow> (('a, 'w) sVector \<times> 'w) res" where
  "vectorRemoveAll v w =
     rbind (destroy_loop v w) (\<lambda>w'. Inr (v\<lparr> v_elementCount := 0 \<rparr>, w'))"

definition vectorGetElementAt :: "('a, 'w) sVector \<Rightarrow> int \<Rightarrow> 'a res" where
  "vectorGetElementAt v index =
     rbind (rassert (index < v_elementCount v)) (\<lambda>_.
     rbind (rassert (index \<ge> 0)) (\<lambda>_.
     read_slot (v_data v) index))"

definition vectorSetElementAt ::
  "allocator \<Rightarrow> ('a, 'w) sVector \<Rightarrow> int \<Rightarrow> 'a \<Rightarrow> ('a, 'w) sVector res" where
  "vectorSetElementAt avail v index element =
     rbind (rassert (index \<le> v_elementCount v)) (\<lambda>_.
     rbind (if index = v_elementCount v
            then rbind (if index \<ge> v_capacity v then increaseCapacity avail v else Inr v) (\<lambda>v1.
                 Inr (v1\<lparr> v_elementCount := v_elementCount v1 + 1 \<rparr>))
            else Inr v) (\<lambda>v2.
     rbind (write_slot (v_data v2) index element) (\<lambda>d.
     Inr (v2\<lparr> v_data := d \<rparr>))))"

subsection \<open>Invariant and abstraction\<close>

text \<open>
  The assertions of \<open>vector_isValid\<close>, that the block has as many slots as the capacity says,
  and that the first \<open>elementCount\<close> of them have been written: they hold the vector's elements.
\<close>

definition vec_holds :: "('a, 'w) sVector \<Rightarrow> 'a list \<Rightarrow> bool" where
  "vec_holds v xs \<longleftrightarrow>
     block_fits (v_elementSize v) (v_capacity v) \<and> v_capacityIncrement v > 0 \<and> v_refCount v > 0
     \<and> int (length (v_data v)) = v_capacity v
     \<and> holds (v_data v) (v_elementCount v) xs"

definition vec_elems :: "('a, 'w) sVector \<Rightarrow> 'a list" where
  "vec_elems v = map the (take (nat (v_elementCount v)) (v_data v))"

definition vec_wf :: "('a, 'w) sVector \<Rightarrow> bool" where
  "vec_wf v \<longleftrightarrow> vec_holds v (vec_elems v)"

text \<open>The vector can grow: the next capacity is addressable and the allocator grants it.\<close>

definition vec_can_grow :: "allocator \<Rightarrow> ('a, 'w) sVector \<Rightarrow> bool" where
  "vec_can_grow avail v \<longleftrightarrow>
     (let cap = v_capacity v + v_capacityIncrement v
      in block_fits (v_elementSize v) cap \<and> avail (block_bytes (v_elementSize v) cap))"

subsection \<open>Lemmas\<close>

lemma vec_holds_elems: "vec_holds v xs \<Longrightarrow> vec_elems v = xs"
  by (auto simp: vec_holds_def holds_def vec_elems_def comp_def)

lemma vec_wf_iff: "vec_wf v \<longleftrightarrow> (\<exists>xs. vec_holds v xs)"
  by (metis vec_wf_def vec_holds_elems)

lemma vec_holds_count: "vec_holds v xs \<Longrightarrow> v_elementCount v = int (length xs)"
  using holds_length by (fastforce simp: vec_holds_def)

lemma vec_holds_bounds: "vec_holds v xs \<Longrightarrow> int (length xs) \<le> v_capacity v"
  using vec_holds_count by (fastforce simp: vec_holds_def holds_def)

lemma vector_isValid_wf: "vec_holds v xs \<Longrightarrow> vector_isValid v = Inr True"
  using vec_holds_count[of v xs] vec_holds_bounds[of v xs]
  by (simp add: vector_isValid_def vec_holds_def block_fits_def)

lemma vectorCreate_holds:
  assumes "block_fits esz cap" and "inc > 0" and "avail (block_bytes esz cap)"
  shows "\<exists>v. vectorCreate True True avail True True name esz cap inc f = Inr (Some v)
      \<and> vec_holds v [] \<and> v_capacity v = cap \<and> v_elementSize v = esz
      \<and> v_capacityIncrement v = inc \<and> v_destroyFunc v = f \<and> v_refCount v = 1"
  using assms by (simp add: vectorCreate_def vec_holds_def block_slots_fits block_fits_def)

lemma increaseCapacity_holds:
  assumes "vec_holds v xs" and "vec_can_grow avail v"
  shows "\<exists>v'. increaseCapacity avail v = Inr v' \<and> vec_holds v' xs
      \<and> v_elementCount v' = v_elementCount v
      \<and> v_capacity v' = v_capacity v + v_capacityIncrement v
      \<and> v_elementSize v' = v_elementSize v \<and> v_destroyFunc v' = v_destroyFunc v"
proof -
  let ?cap = "v_capacity v + v_capacityIncrement v"
  have fits: "block_fits (v_elementSize v) ?cap" "avail (block_bytes (v_elementSize v) ?cap)"
    using assms(2) by (simp_all add: vec_can_grow_def Let_def)
  have "in_int ?cap" using fits(1) by (simp add: block_fits_def in_int_def)
  moreover have "holds (realloc_slots (nat ?cap) (v_data v)) (v_elementCount v) xs"
    using assms(1) fits(1) by (intro holds_realloc) (auto simp: vec_holds_def holds_def block_fits_def)
  ultimately show ?thesis
    using assms(1) fits
    by (auto simp: increaseCapacity_def vec_holds_def block_slots_fits block_fits_def)
qed

lemma vectorAppend_holds:
  assumes v: "vec_holds v xs" and grow: "int (length xs) = v_capacity v \<longrightarrow> vec_can_grow avail v"
  shows "\<exists>v'. vectorAppend avail v x = Inr (int (length xs), v') \<and> vec_holds v' (xs @ [x])
      \<and> v_elementSize v' = v_elementSize v \<and> v_destroyFunc v' = v_destroyFunc v"
proof -
  obtain v1 where v1: "(if v_elementCount v = v_capacity v then increaseCapacity avail v else Inr v) = Inr v1"
    and h1: "vec_holds v1 xs" and room: "int (length xs) < v_capacity v1"
    and same: "v_elementSize v1 = v_elementSize v" "v_destroyFunc v1 = v_destroyFunc v"
  proof (cases "int (length xs) = v_capacity v")
    case True
    then obtain v1 where "increaseCapacity avail v = Inr v1" "vec_holds v1 xs"
      "v_capacity v1 = v_capacity v + v_capacityIncrement v"
      "v_elementSize v1 = v_elementSize v" "v_destroyFunc v1 = v_destroyFunc v"
      using increaseCapacity_holds[OF v] grow by blast
    then show ?thesis
      using that[of v1] True v vec_holds_count[OF v] by (simp add: vec_holds_def)
  next
    case False
    then show ?thesis
      using that[of v] v vec_holds_count[OF v] vec_holds_bounds[OF v] by simp
  qed
  have "holds ((v_data v1)[nat (v_elementCount v1) := Some x]) (v_elementCount v1 + 1) (xs @ [x])"
    using h1 room vec_holds_count[OF h1] by (intro holds_snoc) (auto simp: vec_holds_def)
  then show ?thesis
    using v1 h1 room same vec_holds_count[OF h1]
    by (simp add: vectorAppend_def Let_def vec_holds_def)
qed

lemma vectorAppendPtr_eq:
  "v_elementSize v = sizeof_voidp \<Longrightarrow> vectorAppendPtr avail v x = vectorAppend avail v x"
  by (simp add: vectorAppendPtr_def vectorAppend_def)

lemma vectorGetElementAt_holds:
  assumes "vec_holds v xs"
  shows "vectorGetElementAt v i = (if 0 \<le> i \<and> i < int (length xs) then Inr (xs ! nat i) else Inl AssertFailed)"
  using assms vec_holds_count[OF assms] read_slot_holds[of "v_data v" "v_elementCount v" xs i]
  by (auto simp: vectorGetElementAt_def vec_holds_def)

lemma vectorSetElementAt_holds:
  assumes v: "vec_holds v xs" and i: "0 \<le> i" "i < int (length xs)"
  shows "\<exists>v'. vectorSetElementAt avail v i x = Inr v' \<and> vec_holds v' (xs[nat i := x])
      \<and> v_capacity v' = v_capacity v \<and> v_refCount v' = v_refCount v
      \<and> v_destroyFunc v' = v_destroyFunc v"
  using v i vec_holds_count[OF v] vec_holds_bounds[OF v]
    holds_update[of "v_data v" "v_elementCount v" xs i x]
  by (auto simp: vectorSetElementAt_def vec_holds_def)

lemma vectorSetElementAt_end:
  assumes v: "vec_holds v xs" and room: "int (length xs) < v_capacity v"
  shows "\<exists>v'. vectorSetElementAt avail v (int (length xs)) x = Inr v' \<and> vec_holds v' (xs @ [x])
      \<and> v_capacity v' = v_capacity v \<and> v_refCount v' = v_refCount v
      \<and> v_destroyFunc v' = v_destroyFunc v"
  using v room vec_holds_count[OF v] holds_snoc[of "v_data v" "v_elementCount v" xs x]
  by (auto simp: vectorSetElementAt_def vec_holds_def)

lemma destroy_loop_holds:
  assumes "vec_holds v xs"
  shows "destroy_loop v w = Inr (case v_destroyFunc v of None \<Rightarrow> w | Some f \<Rightarrow> fold f xs w)"
proof (cases "v_destroyFunc v")
  case (Some f)
  have h: "holds (v_data v) (int (length xs)) xs"
    using assms vec_holds_count[OF assms] by (simp add: vec_holds_def)
  have "n \<le> length xs \<Longrightarrow>
      rfold (\<lambda>i w. rbind (read_slot (v_data v) i) (\<lambda>x. Inr (f x w))) (map int [0..<n]) w
        = Inr (fold f (take n xs) w)" for n
    by (induction n) (auto simp: read_slot_holds[OF h] take_Suc_conv_app_nth)
  from this[of "length xs"] show ?thesis
    using Some vec_holds_count[OF assms] by (simp add: destroy_loop_def)
qed (simp add: destroy_loop_def)

subsection \<open>The interface clients rely on\<close>

text \<open>
  An array whose elements are read and overwritten in range and appended just past the end
  while there is room. Client lemma: filling an empty array from index 0 upwards.
\<close>

locale array_store =
  fixes inv :: "'v \<Rightarrow> bool"
    and elems :: "'v \<Rightarrow> 'a list"
    and cap :: "'v \<Rightarrow> int"
    and get :: "'v \<Rightarrow> int \<Rightarrow> 'a res"
    and put :: "'v \<Rightarrow> int \<Rightarrow> 'a \<Rightarrow> 'v res"
  assumes get_in: "inv v \<Longrightarrow> 0 \<le> i \<Longrightarrow> i < int (length (elems v)) \<Longrightarrow> get v i = Inr (elems v ! nat i)"
    and put_in: "inv v \<Longrightarrow> 0 \<le> i \<Longrightarrow> i < int (length (elems v)) \<Longrightarrow>
      \<exists>v'. put v i x = Inr v' \<and> inv v' \<and> elems v' = (elems v)[nat i := x] \<and> cap v' = cap v"
    and put_end: "inv v \<Longrightarrow> int (length (elems v)) < cap v \<Longrightarrow>
      \<exists>v'. put v (int (length (elems v))) x = Inr v' \<and> inv v' \<and> elems v' = elems v @ [x]
        \<and> cap v' = cap v"
begin

lemma fill:
  assumes "inv v" and "elems v = []" and "int n \<le> cap v"
  shows "\<exists>v'. rfold (\<lambda>i v. put v i x) (map int [0..<n]) v = Inr v' \<and> inv v'
      \<and> elems v' = replicate n x \<and> cap v' = cap v"
  using assms(3)
proof (induction n)
  case 0
  then show ?case using assms by simp
next
  case (Suc n)
  then obtain v1 where v1: "rfold (\<lambda>i v. put v i x) (map int [0..<n]) v = Inr v1" "inv v1"
      "elems v1 = replicate n x" "cap v1 = cap v"
    by auto
  with put_end[of v1 x] Suc.prems show ?case
    by (auto simp: replicate_append_same)
qed

lemma put_get:
  assumes "inv v" and "0 \<le> i" and "i < int (length (elems v))" and "0 \<le> j" and "j < int (length (elems v))"
  shows "rbind (put v i x) (\<lambda>v'. get v' j) = (if i = j then Inr x else get v j)"
  using put_in[OF assms(1-3), of x] get_in assms by (auto simp: nth_list_update)

end

interpretation vec: array_store
  "\<lambda>v. vec_wf v \<and> v_refCount v = r \<and> v_destroyFunc v = f" vec_elems v_capacity
  vectorGetElementAt "vectorSetElementAt avail" for r f avail
proof unfold_locales
  fix v :: "('a, 'b) sVector" and i x
  assume v: "vec_wf v \<and> v_refCount v = r \<and> v_destroyFunc v = f"
  then have h: "vec_holds v (vec_elems v)" by (simp add: vec_wf_def)
  show "0 \<le> i \<Longrightarrow> i < int (length (vec_elems v)) \<Longrightarrow>
      vectorGetElementAt v i = Inr (vec_elems v ! nat i)"
    using vectorGetElementAt_holds[OF h] by simp
  show "0 \<le> i \<Longrightarrow> i < int (length (vec_elems v)) \<Longrightarrow>
      \<exists>v'. vectorSetElementAt avail v i x = Inr v'
        \<and> (vec_wf v' \<and> v_refCount v' = r \<and> v_destroyFunc v' = f)
        \<and> vec_elems v' = (vec_elems v)[nat i := x] \<and> v_capacity v' = v_capacity v"
    using vectorSetElementAt_holds[OF h, of i avail x] v by (metis vec_holds_elems vec_wf_iff)
  show "int (length (vec_elems v)) < v_capacity v \<Longrightarrow>
      \<exists>v'. vectorSetElementAt avail v (int (length (vec_elems v))) x = Inr v'
        \<and> (vec_wf v' \<and> v_refCount v' = r \<and> v_destroyFunc v' = f)
        \<and> vec_elems v' = vec_elems v @ [x] \<and> v_capacity v' = v_capacity v"
    using vectorSetElementAt_end[OF h, of avail x] v by (metis vec_holds_elems vec_wf_iff)
qed

subsection \<open>Properties\<close>

text \<open>\<open>vectorAppend\<close> on a well-formed vector that is not full, or that is full and whose next
  capacity the allocator grants, never faults: it returns the old element count as the index,
  the vector stays well-formed, and its elements are the old ones followed by the new one,
  whether or not the block had to be reallocated.\<close>

theorem vectorAppend_appends:
  assumes "vec_wf v" and "v_elementCount v = v_capacity v \<longrightarrow> vec_can_grow avail v"
  shows "\<exists>v'. vectorAppend avail v x = Inr (vectorGetElementCount v, v') \<and> vec_wf v'
      \<and> vec_elems v' = vec_elems v @ [x] \<and> v_destroyFunc v' = v_destroyFunc v"
proof -
  have h: "vec_holds v (vec_elems v)" using assms(1) by (simp add: vec_wf_def)
  have "int (length (vec_elems v)) = v_capacity v \<longrightarrow> vec_can_grow avail v"
    using assms(2) vec_holds_count[OF h] by simp
  then show ?thesis
    using vectorAppend_holds[OF h, of avail x] vec_holds_count[OF h]
    by (metis vec_holds_elems vec_wf_iff vectorGetElementCount_def)
qed

definition vec_two :: "(nat, nat list) sVector" where
  "vec_two = \<lparr> v_elementSize = 4, v_capacity = 2, v_capacityIncrement = 3, v_elementCount = 2,
     v_refCount = 1, v_destroyFunc = None, v_name = None, v_data = [Some 7, Some 8] \<rparr>"

theorem vectorAppend_appends_witness:
  "\<exists>v'. vectorAppend (\<lambda>n. n \<le> 20) vec_two 9 = Inr (2, v') \<and> vec_wf v' \<and> vec_elems v' = [7, 8, 9]
      \<and> v_destroyFunc v' = None"
proof -
  have w: "vec_wf vec_two"
    by (simp add: vec_wf_def vec_holds_def vec_elems_def vec_two_def block_fits_def holds_def)
  have g: "v_elementCount vec_two = v_capacity vec_two \<longrightarrow> vec_can_grow (\<lambda>n. n \<le> 20) vec_two"
    by (simp add: vec_can_grow_def vec_two_def block_fits_def block_bytes_def size_mul_def size_of_int_def)
  have e: "vec_elems vec_two @ [9] = [7, 8, 9]" "vectorGetElementCount vec_two = 2"
      "v_destroyFunc vec_two = None"
    by (simp_all add: vec_two_def vec_elems_def vectorGetElementCount_def)
  show ?thesis using vectorAppend_appends[OF w g, of 9] unfolding e .
qed

text \<open>\<open>vectorGetElementAt\<close> on a well-formed vector returns the element at an index between
  zero and the element count and fails its assertions at every other index: no index makes it
  read outside the block or read a slot nobody wrote.\<close>

theorem vectorGetElementAt_exact:
  assumes "vec_wf v"
  shows "vectorGetElementAt v i =
      (if 0 \<le> i \<and> i < vectorGetElementCount v then Inr (vec_elems v ! nat i) else Inl AssertFailed)"
proof -
  have h: "vec_holds v (vec_elems v)" using assms by (simp add: vec_wf_def)
  show ?thesis
    using vectorGetElementAt_holds[OF h] vec_holds_count[OF h]
    by (simp add: vectorGetElementCount_def)
qed

theorem vectorGetElementAt_exact_witness:
  "vectorGetElementAt vec_two 1 = Inr 8 \<and> vectorGetElementAt vec_two 2 = Inl AssertFailed
   \<and> vectorGetElementAt vec_two (-1) = Inl AssertFailed"
proof -
  have w: "vec_wf vec_two"
    by (simp add: vec_wf_def vec_holds_def vec_elems_def vec_two_def block_fits_def holds_def)
  show ?thesis
    using vectorGetElementAt_exact[OF w, of 1] vectorGetElementAt_exact[OF w, of 2]
      vectorGetElementAt_exact[OF w, of "-1"]
    by (simp add: vectorGetElementCount_def vec_elems_def vec_two_def)
qed

text \<open>\<open>vectorSetElementAt\<close> checks its index from above only. In range it overwrites exactly one
  element, at the element count it appends (growing the block when it is full), above it the
  assertion fails; but every negative index passes the assertion and the copy is made in front
  of the block.\<close>

theorem vectorSetElementAt_cases:
  assumes "vec_wf v" and "v_elementCount v < v_capacity v"
  shows "(if i < 0 then vectorSetElementAt avail v i x = Inl OutOfBounds
          else if i < v_elementCount v then
            (\<exists>v'. vectorSetElementAt avail v i x = Inr v' \<and> vec_wf v' \<and> vec_elems v' = (vec_elems v)[nat i := x])
          else if i = v_elementCount v then
            (\<exists>v'. vectorSetElementAt avail v i x = Inr v' \<and> vec_wf v' \<and> vec_elems v' = vec_elems v @ [x])
          else vectorSetElementAt avail v i x = Inl AssertFailed)"
proof -
  have h: "vec_holds v (vec_elems v)" using assms by (simp add: vec_wf_def)
  have n: "v_elementCount v = int (length (vec_elems v))" using vec_holds_count[OF h] .
  have neg: "i < 0 \<Longrightarrow> vectorSetElementAt avail v i x = Inl OutOfBounds"
    using n by (simp add: vectorSetElementAt_def write_slot_def)
  have big: "i > v_elementCount v \<Longrightarrow> vectorSetElementAt avail v i x = Inl AssertFailed"
    by (simp add: vectorSetElementAt_def)
  show ?thesis
    using neg big vec.put_in[of v "v_refCount v" "v_destroyFunc v" i avail x]
      vec.put_end[of v "v_refCount v" "v_destroyFunc v" avail x] assms n
    by (cases "i < 0"; cases "i < v_elementCount v"; cases "i = v_elementCount v") force+
qed

definition vec_room :: "(nat, nat list) sVector" where
  "vec_room = vec_two\<lparr> v_capacity := 3, v_data := [Some 7, Some 8, None] \<rparr>"

theorem vectorSetElementAt_cases_witness:
  "vectorSetElementAt (\<lambda>_. False) vec_room (-1) 5 = Inl OutOfBounds
   \<and> vectorSetElementAt (\<lambda>_. False) vec_room 3 5 = Inl AssertFailed
   \<and> (\<exists>v'. vectorSetElementAt (\<lambda>_. False) vec_room 2 5 = Inr v' \<and> vec_elems v' = [7, 8, 5])"
proof -
  have w: "vec_wf vec_room" "v_elementCount vec_room < v_capacity vec_room"
    by (simp_all add: vec_wf_def vec_holds_def vec_elems_def vec_room_def vec_two_def block_fits_def
        holds_def numeral_3_eq_3)
  have c: "v_elementCount vec_room = 2" "vec_elems vec_room = [7, 8]"
    by (simp_all add: vec_room_def vec_two_def vec_elems_def)
  show ?thesis
    using vectorSetElementAt_cases[OF w, of "-1" "\<lambda>_. False" 5]
      vectorSetElementAt_cases[OF w, of 3 "\<lambda>_. False" 5]
      vectorSetElementAt_cases[OF w, of 2 "\<lambda>_. False" 5] c
    by auto
qed

end
