(* ===== verification/Fifo.thy ===== *)
theory Fifo
  imports Prelude
begin

section \<open>The queue contract\<close>

text \<open>
  What a client of a first-in-first-out container relies on. The circular buffer, the linked
  queue and the byte queue are interpreted as instances in their own theories. \<open>fits q k\<close>
  says that \<open>k\<close> more elements can be taken in without loss.
\<close>

text \<open>Taking \<open>n\<close> elements out, in the order they come.\<close>

fun drain :: "('q \<Rightarrow> ('a \<times> 'q) res) \<Rightarrow> nat \<Rightarrow> 'q \<Rightarrow> ('a list \<times> 'q) res" where
  "drain deq 0 q = Inr ([], q)"
| "drain deq (Suc n) q =
     rbind (deq q) (\<lambda>(x, q'). rbind (drain deq n q') (\<lambda>(xs, q''). Inr (x # xs, q'')))"

locale fifo =
  fixes inv :: "'q \<Rightarrow> bool"
    and elems :: "'q \<Rightarrow> 'a list"
    and fits :: "'q \<Rightarrow> nat \<Rightarrow> bool"
    and enq :: "'a \<Rightarrow> 'q \<Rightarrow> 'q res"
    and deq :: "'q \<Rightarrow> ('a \<times> 'q) res"
  assumes enq_law: "inv q \<Longrightarrow> fits q (Suc k) \<Longrightarrow>
      \<exists>q'. enq x q = Inr q' \<and> inv q' \<and> elems q' = elems q @ [x] \<and> fits q' k"
    and deq_law: "inv q \<Longrightarrow> elems q = x # xs \<Longrightarrow>
      \<exists>q'. deq q = Inr (x, q') \<and> inv q' \<and> elems q' = xs"
begin

lemma enq_all:
  assumes "inv q" and "fits q (length xs)"
  shows "\<exists>q'. rfold enq xs q = Inr q' \<and> inv q' \<and> elems q' = elems q @ xs"
  using assms
proof (induction xs arbitrary: q)
  case (Cons x xs)
  then obtain q1 where "enq x q = Inr q1" "inv q1" "elems q1 = elems q @ [x]" "fits q1 (length xs)"
    using enq_law[of q "length xs" x] by auto
  with Cons.IH[of q1] show ?case by auto
qed simp

lemma drain_prefix:
  assumes "inv q" and "elems q = xs @ ys"
  shows "\<exists>q'. drain deq (length xs) q = Inr (xs, q') \<and> inv q' \<and> elems q' = ys"
  using assms
proof (induction xs arbitrary: q)
  case (Cons x xs)
  then obtain q1 where "deq q = Inr (x, q1)" "inv q1" "elems q1 = xs @ ys"
    using deq_law[of q x "xs @ ys"] by auto
  with Cons.IH[of q1] show ?case by auto
qed simp

text \<open>First in, first out: what was there comes out first, then what was put in, in order.\<close>

lemma fifo_order:
  assumes "inv q" and "fits q (length xs)"
  shows "\<exists>q'. rbind (rfold enq xs q) (drain deq (length (elems q @ xs))) = Inr (elems q @ xs, q')
      \<and> inv q' \<and> elems q' = []"
proof -
  obtain q1 where "rfold enq xs q = Inr q1" "inv q1" "elems q1 = elems q @ xs"
    using enq_all[OF assms] by blast
  then show ?thesis using drain_prefix[of q1 "elems q @ xs" "[]"] by auto
qed

end

end
