(* ===== verification/CircularBuffer.thy ===== *)
theory CircularBuffer
  imports Vector Fifo
begin

section \<open>Circular buffers\<close>

text \<open>
  \<open>src/circularBuffer.c\<close>: a bounded buffer of pointers over a vector of constant size; a push
  into a full buffer destroys the oldest element. A pointer is an \<open>'a option\<close> with \<open>None\<close> for
  NULL. The buffer is a client of the vector's \<open>array_store\<close> interface and an instance of \<open>fifo\<close>.
\<close>

subsection \<open>State and operations\<close>

record ('a, 'w) sCircularBuffer =
  cb_size :: int
  cb_vector :: "('a option, 'w) sVector option"
  cb_headIndex :: int
  cb_tailIndex :: int
  cb_elementCount :: int
  cb_destroyFunc :: "('a option \<Rightarrow> 'w \<Rightarrow> 'w) option"

text \<open>
  \<open>circBuf_create\<close>: the outcome of the struct's allocation with those of the two error objects
  made when it fails, then the outcomes inside \<open>vectorCreate\<close>, whose result is not checked.
\<close>

definition circBuf_create ::
  "bool \<Rightarrow> bool \<times> bool \<Rightarrow> bool \<times> bool \<Rightarrow> bool \<Rightarrow> bool \<Rightarrow> allocator \<Rightarrow> bool \<Rightarrow> bool \<Rightarrow> int
   \<Rightarrow> ('a option \<Rightarrow> 'w \<Rightarrow> 'w) option \<Rightarrow> (Error \<times> ('a, 'w) sCircularBuffer option) res" where
  "circBuf_create mallocOk err1Ok err2Ok structOk nameOk avail lockOk refLockOk sz destroyFunc =
     rbind (emalloc mallocOk (fst err1Ok) (snd err1Ok)) (\<lambda>(error, block).
     if error \<noteq> None then
       rbind (ErrNew (fst err2Ok) (snd err2Ok) ERR_UNKNOWN 0 error
                ''Failed to allocate the sCircularBuffer struct'') (\<lambda>error2.
       rbind (rassert (error2 \<noteq> None)) (\<lambda>_. Inr (error2, None)))
     else
       rbind (deref block) (\<lambda>_.
       rbind (vectorCreate structOk nameOk avail lockOk refLockOk (Some ''Circular Buffer Vector'')
                sizeof_voidp sz 1 None) (\<lambda>vector.
       rbind (rfold (\<lambda>i vp. rbind (deref vp) (\<lambda>v.
                rbind (vectorSetElementAt avail v i None) (\<lambda>v'. Inr (Some v'))))
                (map int [0..<nat sz]) vector) (\<lambda>vector'.
       Inr (None, Some \<lparr> cb_size = sz, cb_vector = vector', cb_headIndex = 0, cb_tailIndex = 1,
                         cb_elementCount = 0, cb_destroyFunc = destroyFunc \<rparr>)))))"

text \<open>The loop of \<open>circBuf_destroy\<close>: \<open>n\<close> elements from \<open>vectorIndex\<close> upwards, wrapping at \<open>size\<close>.\<close>

fun destroy_from ::
  "nat \<Rightarrow> ('a option \<Rightarrow> 'w \<Rightarrow> 'w) \<Rightarrow> int \<Rightarrow> ('a option, 'w) sVector \<Rightarrow> int \<Rightarrow> 'w \<Rightarrow> 'w res" where
  "destroy_from 0 f sz v vectorIndex w = Inr w"
| "destroy_from (Suc n) f sz v vectorIndex w =
     rbind (vectorGetElementAt v vectorIndex) (\<lambda>element.
     rbind (rassert (vectorIndex + 1 \<le> sz)) (\<lambda>_.
     destroy_from n f sz v (if vectorIndex + 1 = sz then 0 else vectorIndex + 1) (f element w)))"

definition circBuf_destroy :: "('a, 'w) sCircularBuffer \<Rightarrow> 'w \<Rightarrow> 'w res" where
  "circBuf_destroy cb w =
     rbind (deref (cb_vector cb)) (\<lambda>v.
     rbind (case cb_destroyFunc cb of
              None \<Rightarrow> Inr w
            | Some f \<Rightarrow> destroy_from (nat (cb_elementCount cb)) f (cb_size cb) v (cb_headIndex cb) w)
       (\<lambda>w1. rbind (vectorRefcountDecrease v w1) (\<lambda>(_, w2). Inr w2)))"

definition next_index :: "('a, 'w) sCircularBuffer \<Rightarrow> int \<Rightarrow> int" where
  "next_index cb i = (if i = cb_size cb - 1 then 0 else i + 1)"

definition circBuf_push ::
  "allocator \<Rightarrow> ('a, 'w) sCircularBuffer \<Rightarrow> 'a option \<Rightarrow> 'w \<Rightarrow> (('a, 'w) sCircularBuffer \<times> 'w) res" where
  "circBuf_push avail cb element w =
     rbind (deref (cb_vector cb)) (\<lambda>v.
     rbind (if cb_elementCount cb = cb_size cb
            then rbind (case cb_destroyFunc cb of
                          None \<Rightarrow> Inr w
                        | Some f \<Rightarrow> rbind (vectorGetElementAt v (cb_tailIndex cb)) (\<lambda>x. Inr (f x w)))
                   (\<lambda>w'. Inr (cb\<lparr> cb_tailIndex := next_index cb (cb_tailIndex cb),
                                  cb_elementCount := cb_elementCount cb - 1 \<rparr>, w'))
            else Inr (cb, w)) (\<lambda>(cb1, w1).
     (let cb2 = cb1\<lparr> cb_headIndex := next_index cb1 (cb_headIndex cb1) \<rparr>
      in rbind (vectorSetElementAt avail v (cb_headIndex cb2) element) (\<lambda>v'.
         (let cb3 = cb2\<lparr> cb_vector := Some v', cb_elementCount := cb_elementCount cb2 + 1 \<rparr>
          in rbind (rassert (cb_elementCount cb3 \<le> cb_size cb3)) (\<lambda>_. Inr (cb3, w1)))))))"

definition circBuf_popTail ::
  "allocator \<Rightarrow> ('a, 'w) sCircularBuffer \<Rightarrow> ('a option \<times> ('a, 'w) sCircularBuffer) res" where
  "circBuf_popTail avail cb =
     rbind (rassert (cb_elementCount cb > 0)) (\<lambda>_.
     rbind (deref (cb_vector cb)) (\<lambda>v.
     rbind (vectorGetElementAt v (cb_tailIndex cb)) (\<lambda>element.
     rbind (vectorSetElementAt avail v (cb_tailIndex cb) None) (\<lambda>v'.
     Inr (element, cb\<lparr> cb_vector := Some v', cb_tailIndex := next_index cb (cb_tailIndex cb),
                       cb_elementCount := cb_elementCount cb - 1 \<rparr>)))))"

definition circBuf_getElementCount :: "('a, 'w) sCircularBuffer \<Rightarrow> int" where
  "circBuf_getElementCount cb = cb_elementCount cb"

lemma circBuf_popTail_count:
  "circBuf_popTail avail cb = Inr (x, cb') \<Longrightarrow>
   cb_elementCount cb > 0 \<and> cb_elementCount cb' = cb_elementCount cb - 1"
  by (auto simp: circBuf_popTail_def res_iff)

function circBuf_clear ::
  "allocator \<Rightarrow> ('a, 'w) sCircularBuffer \<Rightarrow> 'w \<Rightarrow> (('a, 'w) sCircularBuffer \<times> 'w) res" where
  "circBuf_clear avail cb w =
     (if cb_elementCount cb > 0
      then rbind (circBuf_popTail avail cb) (\<lambda>(element, cb').
           rbind (deref (cb_destroyFunc cb')) (\<lambda>f.
           circBuf_clear avail cb' (f element w)))
      else Inr (cb, w))"
  by pat_completeness auto

termination
  by (relation "measure (\<lambda>(avail, cb, w). nat (cb_elementCount cb))")
    (auto dest!: circBuf_popTail_count)

declare circBuf_clear.simps [simp del]

subsection \<open>Invariant and abstraction\<close>

text \<open>
  \<open>circ_rep cb xs\<close>: the buffer holds the pointers \<open>xs\<close>, oldest first. The vector is full to its
  capacity, the tail index is where the ring starts and the head index is where it ends; in an
  empty buffer the head is just behind the tail.
\<close>

definition circ_rep :: "('a, 'w) sCircularBuffer \<Rightarrow> 'a option list \<Rightarrow> bool" where
  "circ_rep cb xs \<longleftrightarrow>
     (case cb_vector cb of
        None \<Rightarrow> False
      | Some v \<Rightarrow> vec_wf v \<and> v_refCount v = 1 \<and> v_destroyFunc v = None
          \<and> int (length (vec_elems v)) = cb_size cb
          \<and> ring (vec_elems v) (nat (cb_tailIndex cb)) xs)
     \<and> 2 \<le> cb_size cb \<and> 0 \<le> cb_tailIndex cb
     \<and> cb_elementCount cb = int (length xs)
     \<and> cb_headIndex cb = (cb_tailIndex cb + int (length xs) - 1) mod cb_size cb"

text \<open>The abstract bounded buffer: a push keeps the newest \<open>size\<close> elements.\<close>

definition spec_push :: "int \<Rightarrow> 'b \<Rightarrow> 'b list \<Rightarrow> 'b list" where
  "spec_push n x xs = (if int (length xs) = n then tl xs @ [x] else xs @ [x])"

definition spec_lost :: "int \<Rightarrow> 'b list \<Rightarrow> 'b list" where
  "spec_lost n xs = (if int (length xs) = n then take 1 xs else [])"

definition destroyed_by :: "('b \<Rightarrow> 'w \<Rightarrow> 'w) option \<Rightarrow> 'b list \<Rightarrow> 'w \<Rightarrow> 'w" where
  "destroyed_by f xs w = (case f of None \<Rightarrow> w | Some g \<Rightarrow> fold g xs w)"

subsection \<open>Lemmas\<close>

lemma next_index_mod:
  "0 \<le> i \<Longrightarrow> i < cb_size cb \<Longrightarrow> next_index cb i = (i + 1) mod cb_size cb"
  by (auto simp: next_index_def)

lemma nat_ring_index:
  assumes "int (length es) = n" and "0 \<le> t"
  shows "nat ((t + int k) mod n) = (nat t + k) mod length es"
proof -
  have "(t + int k) mod n = int ((nat t + k) mod length es)"
    using assms by (auto simp: zmod_int)
  then show ?thesis by simp
qed

lemma head_after_drop: "((t + 1) mod n + k - 1) mod n = (t + k) mod (n :: int)"
proof -
  have "((t + 1) mod n + (k - 1)) mod n = (t + 1 + (k - 1)) mod n"
    by (rule mod_add_left_eq)
  then show ?thesis by (simp add: algebra_simps)
qed

lemmas nat_ring_succ = nat_ring_index[where k = 1, simplified]

text \<open>Every fact about the state that the operations need, with the vector named.\<close>

lemma circ_repE:
  assumes "circ_rep cb xs"
  obtains v where "cb_vector cb = Some v" "vec_wf v \<and> v_refCount v = 1 \<and> v_destroyFunc v = None"
    "int (length (vec_elems v)) = cb_size cb" "ring (vec_elems v) (nat (cb_tailIndex cb)) xs"
    "0 \<le> cb_tailIndex cb" "cb_tailIndex cb < cb_size cb" "2 \<le> cb_size cb"
    "cb_elementCount cb = int (length xs)" "int (length xs) \<le> cb_size cb"
    "cb_headIndex cb = (cb_tailIndex cb + int (length xs) - 1) mod cb_size cb"
  using assms that by (auto simp: circ_rep_def ring_def split: option.splits)

lemma circ_rep_pop:
  assumes "circ_rep cb (x # xs)"
  shows "\<exists>cb'. circBuf_popTail avail cb = Inr (x, cb') \<and> circ_rep cb' xs
      \<and> cb_size cb' = cb_size cb \<and> cb_destroyFunc cb' = cb_destroyFunc cb"
proof -
  from assms obtain v where v: "cb_vector cb = Some v"
      "vec_wf v \<and> v_refCount v = 1 \<and> v_destroyFunc v = None"
      "int (length (vec_elems v)) = cb_size cb" "ring (vec_elems v) (nat (cb_tailIndex cb)) (x # xs)"
    and t: "0 \<le> cb_tailIndex cb" "cb_tailIndex cb < cb_size cb" "2 \<le> cb_size cb"
    and c: "cb_elementCount cb = int (length (x # xs))"
      "cb_headIndex cb = (cb_tailIndex cb + int (length (x # xs)) - 1) mod cb_size cb"
    by (rule circ_repE)
  have g: "vectorGetElementAt v (cb_tailIndex cb) = Inr x"
    using vec.get_in[OF v(2)] t v(3) ring_hd[OF v(4)] by simp
  obtain v' where v': "vectorSetElementAt avail v (cb_tailIndex cb) None = Inr v'"
      "vec_wf v' \<and> v_refCount v' = 1 \<and> v_destroyFunc v' = None"
      "vec_elems v' = (vec_elems v)[nat (cb_tailIndex cb) := None]"
    using vec.put_in[OF v(2)] t v(3) by metis
  have "ring (vec_elems v') (nat ((cb_tailIndex cb + 1) mod cb_size cb)) xs"
    using ring_tl_update[OF v(4), of None] v'(3) by (simp add: nat_ring_succ[OF v(3) t(1)])
  then show ?thesis
    using g v' v(1,3) t c
    by (simp add: circBuf_popTail_def circ_rep_def next_index_mod head_after_drop)
qed

text \<open>A push into a buffer that is not full.\<close>

lemma circ_rep_push_room:
  assumes "circ_rep cb xs" and "int (length xs) < cb_size cb"
  shows "\<exists>cb'. circBuf_push avail cb x w = Inr (cb', w) \<and> circ_rep cb' (xs @ [x])
      \<and> cb_size cb' = cb_size cb \<and> cb_destroyFunc cb' = cb_destroyFunc cb"
proof -
  from assms(1) obtain v where v: "cb_vector cb = Some v"
      "vec_wf v \<and> v_refCount v = 1 \<and> v_destroyFunc v = None"
      "int (length (vec_elems v)) = cb_size cb" "ring (vec_elems v) (nat (cb_tailIndex cb)) xs"
    and t: "0 \<le> cb_tailIndex cb" "cb_tailIndex cb < cb_size cb" "2 \<le> cb_size cb"
    and c: "cb_elementCount cb = int (length xs)"
      "cb_headIndex cb = (cb_tailIndex cb + int (length xs) - 1) mod cb_size cb"
    by (rule circ_repE)
  let ?h = "(cb_tailIndex cb + int (length xs)) mod cb_size cb"
  have h: "next_index cb (cb_headIndex cb) = ?h" "0 \<le> ?h" "?h < cb_size cb"
    using t c by (simp_all add: next_index_mod mod_simps)
  obtain v' where v': "vectorSetElementAt avail v ?h x = Inr v'"
      "vec_wf v' \<and> v_refCount v' = 1 \<and> v_destroyFunc v' = None"
      "vec_elems v' = (vec_elems v)[nat ?h := x]"
    using vec.put_in[OF v(2), of ?h avail x] h v(3) by auto
  have "nat ?h = (nat (cb_tailIndex cb) + length xs) mod length (vec_elems v)"
    by (rule nat_ring_index[OF v(3) t(1)])
  then have "ring (vec_elems v') (nat (cb_tailIndex cb)) (xs @ [x])"
    using ring_snoc[OF v(4), of x] v(3) v'(3) assms(2) by simp
  then show ?thesis
    using v' v(1,3) t c h assms(2)
    by (simp add: circBuf_push_def circ_rep_def Let_def)
qed

text \<open>A push into a full buffer is the discarding of the oldest element, then a push with room.\<close>

lemma circ_rep_push_full:
  assumes "circ_rep cb (y # ys)" and "int (length (y # ys)) = cb_size cb"
  shows "\<exists>cb'. circBuf_push avail cb x w = Inr (cb', destroyed_by (cb_destroyFunc cb) [y] w)
      \<and> circ_rep cb' (ys @ [x])
      \<and> cb_size cb' = cb_size cb \<and> cb_destroyFunc cb' = cb_destroyFunc cb"
proof -
  let ?cb = "cb\<lparr> cb_tailIndex := next_index cb (cb_tailIndex cb), cb_elementCount := cb_elementCount cb - 1 \<rparr>"
  from assms(1) obtain v where v: "cb_vector cb = Some v"
      "vec_wf v \<and> v_refCount v = 1 \<and> v_destroyFunc v = None"
      "int (length (vec_elems v)) = cb_size cb" "ring (vec_elems v) (nat (cb_tailIndex cb)) (y # ys)"
    and t: "0 \<le> cb_tailIndex cb" "cb_tailIndex cb < cb_size cb" "2 \<le> cb_size cb"
    and c: "cb_elementCount cb = int (length (y # ys))"
      "cb_headIndex cb = (cb_tailIndex cb + int (length (y # ys)) - 1) mod cb_size cb"
    by (rule circ_repE)
  have "ring (vec_elems v) (nat ((cb_tailIndex cb + 1) mod cb_size cb)) ys"
    using ring_tl[OF v(4)] by (simp add: nat_ring_succ[OF v(3) t(1)])
  then have rep: "circ_rep ?cb ys"
    using v t c by (simp add: circ_rep_def next_index_mod head_after_drop)
  have "circBuf_push avail cb x w
      = circBuf_push avail ?cb x (destroyed_by (cb_destroyFunc cb) [y] w)"
    using v(1,3) t c assms(2) vec.get_in[OF v(2), of "cb_tailIndex cb"] ring_hd[OF v(4)]
    by (cases "cb_destroyFunc cb") (simp_all add: circBuf_push_def destroyed_by_def)
  with circ_rep_push_room[OF rep, of avail x "destroyed_by (cb_destroyFunc cb) [y] w"] assms(2)
  show ?thesis by simp
qed

lemma circ_rep_push:
  assumes "circ_rep cb xs"
  shows "\<exists>cb'. circBuf_push avail cb x w
        = Inr (cb', destroyed_by (cb_destroyFunc cb) (spec_lost (cb_size cb) xs) w)
      \<and> circ_rep cb' (spec_push (cb_size cb) x xs)
      \<and> cb_size cb' = cb_size cb \<and> cb_destroyFunc cb' = cb_destroyFunc cb"
proof (cases "int (length xs) = cb_size cb")
  case True
  moreover have "2 \<le> cb_size cb" using assms by (simp add: circ_rep_def)
  ultimately obtain y ys where "xs = y # ys" by (cases xs) auto
  then show ?thesis
    using circ_rep_push_full[of cb y ys avail x w] assms True by (simp add: spec_push_def spec_lost_def)
next
  case False
  moreover have "int (length xs) \<le> cb_size cb" using assms by (auto elim: circ_repE)
  ultimately show ?thesis
    using circ_rep_push_room[OF assms, of avail x w]
    by (auto simp: spec_push_def spec_lost_def destroyed_by_def split: option.split)
qed

text \<open>The contents as a function of the state.\<close>

definition circ_elems :: "('a, 'w) sCircularBuffer \<Rightarrow> 'a option list" where
  "circ_elems cb =
     (case cb_vector cb of
        None \<Rightarrow> []
      | Some v \<Rightarrow> map (\<lambda>k. vec_elems v ! ((nat (cb_tailIndex cb) + k) mod length (vec_elems v)))
                     [0..<nat (cb_elementCount cb)])"

lemma circ_rep_elems: "circ_rep cb xs \<Longrightarrow> circ_elems cb = xs"
  by (auto simp: circ_rep_def circ_elems_def ring_def intro!: nth_equalityI split: option.splits)

lemma circBuf_create_rep:
  assumes "2 \<le> n" and "block_fits sizeof_voidp n" and "avail (block_bytes sizeof_voidp n)"
  shows "\<exists>cb. circBuf_create True e1 e2 True True avail True True n f = Inr (None, Some cb)
      \<and> circ_rep cb [] \<and> cb_size cb = n \<and> cb_destroyFunc cb = f"
proof -
  obtain v where v: "vectorCreate True True avail True True (Some ''Circular Buffer Vector'')
        sizeof_voidp n 1 (None :: ('a option \<Rightarrow> 'b \<Rightarrow> 'b) option) = Inr (Some v)"
      "vec_holds v []" "v_capacity v = n" "v_destroyFunc v = None" "v_refCount v = 1"
    using vectorCreate_holds[of sizeof_voidp n 1 avail] assms by (metis zero_less_one)
  have w: "vec_wf v \<and> v_refCount v = 1 \<and> v_destroyFunc v = None" "vec_elems v = []"
    using v by (auto simp: vec_wf_iff vec_holds_elems)
  obtain v' where v': "rfold (\<lambda>i v. vectorSetElementAt avail v i None) (map int [0..<nat n]) v = Inr v'"
      "vec_wf v' \<and> v_refCount v' = 1 \<and> v_destroyFunc v' = None" "vec_elems v' = replicate (nat n) None"
    using vec.fill[OF w, of "nat n" avail None] v(3) assms(1) by auto
  have "rfold (\<lambda>i vp. rbind (deref vp) (\<lambda>v.
      rbind (vectorSetElementAt avail v i None) (\<lambda>v'. Inr (Some v')))) is (Some v)
      = rbind (rfold (\<lambda>i v. vectorSetElementAt avail v i None) is v) (\<lambda>v'. Inr (Some v'))"
    for "is" and v :: "('a option, 'b) sVector"
    by (induction "is" arbitrary: v) (simp_all add: rbind_assoc)
  then show ?thesis
    using v(1) v' assms(1)
    by (simp add: circBuf_create_def emalloc_def circ_rep_def)
qed

lemma circBuf_clear_rep:
  assumes "circ_rep cb xs" and "cb_destroyFunc cb = Some f"
  shows "\<exists>cb'. circBuf_clear avail cb w = Inr (cb', fold f xs w) \<and> circ_rep cb' []"
  using assms
proof (induction xs arbitrary: cb w)
  case Nil
  then show ?case by (subst circBuf_clear.simps) (simp add: circ_rep_def)
next
  case (Cons x xs)
  then obtain cb1 where "circBuf_popTail avail cb = Inr (x, cb1)" "circ_rep cb1 xs"
      "cb_destroyFunc cb1 = Some f"
    using circ_rep_pop[of cb x xs avail] by auto
  moreover have "cb_elementCount cb > 0" using Cons.prems by (simp add: circ_rep_def)
  ultimately show ?case
    using Cons.IH[of cb1 "f x w"] by (subst circBuf_clear.simps) simp
qed

subsection \<open>The queue contract\<close>

text \<open>The state of the instance is the buffer with the client's world.\<close>

definition circ_enq ::
  "allocator \<Rightarrow> 'a option \<Rightarrow> ('a, 'w) sCircularBuffer \<times> 'w \<Rightarrow> (('a, 'w) sCircularBuffer \<times> 'w) res" where
  "circ_enq avail x q = circBuf_push avail (fst q) x (snd q)"

definition circ_deq ::
  "allocator \<Rightarrow> ('a, 'w) sCircularBuffer \<times> 'w
   \<Rightarrow> ('a option \<times> ('a, 'w) sCircularBuffer \<times> 'w) res" where
  "circ_deq avail q = rbind (circBuf_popTail avail (fst q)) (\<lambda>(x, cb). Inr (x, cb, snd q))"

definition circ_wf :: "('a, 'w) sCircularBuffer \<Rightarrow> bool" where
  "circ_wf cb \<longleftrightarrow> circ_rep cb (circ_elems cb)"

lemma circ_wf_iff: "circ_wf cb \<longleftrightarrow> (\<exists>xs. circ_rep cb xs)"
  by (metis circ_wf_def circ_rep_elems)

interpretation circ: fifo
  "\<lambda>q. circ_wf (fst q) \<and> cb_size (fst q) = n \<and> snd q = w" "\<lambda>q. circ_elems (fst q)"
  "\<lambda>q k. int (length (circ_elems (fst q)) + k) \<le> cb_size (fst q)"
  "circ_enq avail" "circ_deq avail" for n w avail
proof unfold_locales
  fix q :: "('a, 'b) sCircularBuffer \<times> 'b" and k x
  assume q: "circ_wf (fst q) \<and> cb_size (fst q) = n \<and> snd q = w"
    and fits: "int (length (circ_elems (fst q)) + Suc k) \<le> cb_size (fst q)"
  then obtain cb' where "circBuf_push avail (fst q) x (snd q) = Inr (cb', snd q)"
      "circ_rep cb' (circ_elems (fst q) @ [x])" "cb_size cb' = cb_size (fst q)"
    using circ_rep_push_room[of "fst q" "circ_elems (fst q)" avail x "snd q"]
    by (auto simp: circ_wf_def)
  moreover from this have "circ_elems cb' = circ_elems (fst q) @ [x]" "circ_wf cb'"
    by (auto simp: circ_rep_elems circ_wf_iff)
  ultimately show "\<exists>q'. circ_enq avail x q = Inr q' \<and> (circ_wf (fst q') \<and> cb_size (fst q') = n \<and> snd q' = w)
      \<and> circ_elems (fst q') = circ_elems (fst q) @ [x]
      \<and> int (length (circ_elems (fst q')) + k) \<le> cb_size (fst q')"
    using q fits by (simp add: circ_enq_def)
next
  fix q :: "('a, 'b) sCircularBuffer \<times> 'b" and x xs
  assume q: "circ_wf (fst q) \<and> cb_size (fst q) = n \<and> snd q = w" and xs: "circ_elems (fst q) = x # xs"
  then obtain cb' where "circBuf_popTail avail (fst q) = Inr (x, cb')" "circ_rep cb' xs"
      "cb_size cb' = cb_size (fst q)"
    using circ_rep_pop[of "fst q" x xs avail] by (auto simp: circ_wf_def)
  moreover from this have "circ_elems cb' = xs" "circ_wf cb'"
    by (auto simp: circ_rep_elems circ_wf_iff)
  ultimately show "\<exists>q'. circ_deq avail q = Inr (x, q') \<and> (circ_wf (fst q') \<and> cb_size (fst q') = n \<and> snd q' = w)
      \<and> circ_elems (fst q') = xs"
    using q by (simp add: circ_deq_def)
qed

subsection \<open>Properties\<close>

text \<open>C13: \<open>circBuf_push\<close> refines the push of a bounded list for every buffer of two or more slots:
  it never faults, the buffer stays well-formed with its size, the contents become the old
  ones (without the oldest one if the buffer was full) followed by the new element, and the
  destroy function, when there is one, is called on exactly the element that was lost.\<close>

theorem circBuf_push_refines:
  assumes "circ_wf cb"
  shows "\<exists>cb'. circBuf_push avail cb x w
        = Inr (cb', destroyed_by (cb_destroyFunc cb) (spec_lost (cb_size cb) (circ_elems cb)) w)
      \<and> circ_wf cb' \<and> circ_elems cb' = spec_push (cb_size cb) x (circ_elems cb)
      \<and> cb_size cb' = cb_size cb \<and> circBuf_getElementCount cb' = int (length (circ_elems cb'))"
proof -
  obtain cb' where cb': "circBuf_push avail cb x w
        = Inr (cb', destroyed_by (cb_destroyFunc cb) (spec_lost (cb_size cb) (circ_elems cb)) w)"
      "circ_rep cb' (spec_push (cb_size cb) x (circ_elems cb))" "cb_size cb' = cb_size cb"
    using circ_rep_push[of cb "circ_elems cb" avail x w] assms by (auto simp: circ_wf_def)
  moreover from cb'(2) have "circBuf_getElementCount cb' = int (length (circ_elems cb'))"
    by (simp add: circ_rep_elems) (simp add: circ_rep_def circBuf_getElementCount_def)
  ultimately show ?thesis by (auto simp: circ_wf_iff circ_rep_elems)
qed

text \<open>A buffer of three slots that has wrapped around; its destroy function logs what it gets.\<close>

definition log_destroy :: "'b \<Rightarrow> 'b list \<Rightarrow> 'b list" where
  "log_destroy x w = w @ [x]"

definition cb_full :: "(nat, nat option list) sCircularBuffer" where
  "cb_full = \<lparr> cb_size = 3,
     cb_vector = Some \<lparr> v_elementSize = 4, v_capacity = 3, v_capacityIncrement = 1,
       v_elementCount = 3, v_refCount = 1, v_destroyFunc = None, v_name = None,
       v_data = [Some (Some 12), Some (Some 10), Some (Some 11)] \<rparr>,
     cb_headIndex = 0, cb_tailIndex = 1, cb_elementCount = 3, cb_destroyFunc = Some log_destroy \<rparr>"

lemma cb_full_elems: "circ_elems cb_full = [Some 10, Some 11, Some 12]"
  by code_simp

lemma cb_full_wf: "circ_wf cb_full"
  by code_simp

theorem circBuf_push_refines_witness:
  "\<exists>cb'. circBuf_push (\<lambda>_. False) cb_full (Some 13) [] = Inr (cb', [Some 10])
      \<and> circ_elems cb' = [Some 11, Some 12, Some 13]"
proof -
  have d: "cb_destroyFunc cb_full = Some log_destroy" "cb_size cb_full = 3"
    by (simp_all add: cb_full_def)
  have s: "spec_push 3 (Some 13) (circ_elems cb_full) = [Some 11, Some 12, Some 13]"
      "destroyed_by (Some log_destroy) (spec_lost 3 (circ_elems cb_full)) [] = [Some 10]"
    by (simp_all add: cb_full_elems spec_push_def spec_lost_def destroyed_by_def log_destroy_def)
  show ?thesis
    using circBuf_push_refines[OF cb_full_wf, of "\<lambda>_. False" "Some 13" "[]"] unfolding d s by blast
qed

text \<open>first in, first out. Pushing any number of elements that fit and then popping everything
  returns what the buffer held before, oldest first, followed by the pushed elements in the
  order of the pushes, destroys nothing on the way and leaves the buffer empty.\<close>

theorem circBuf_fifo_order:
  assumes "circ_wf cb" and "int (length (circ_elems cb) + length xs) \<le> cb_size cb"
  shows "\<exists>cb'. rbind (rfold (circ_enq avail) xs (cb, w))
        (drain (circ_deq avail) (length (circ_elems cb @ xs))) = Inr (circ_elems cb @ xs, cb', w)
      \<and> circ_wf cb' \<and> circ_elems cb' = []"
  using circ.fifo_order[of "(cb, w)" "cb_size cb" w xs avail] assms by auto

definition cb_part :: "(nat, nat option list) sCircularBuffer" where
  "cb_part = cb_full\<lparr> cb_tailIndex := 0, cb_elementCount := 1 \<rparr>"

theorem circBuf_fifo_order_witness:
  "\<exists>cb'. rbind (rfold (circ_enq (\<lambda>_. False)) [Some 5, Some 6] (cb_part, []))
        (drain (circ_deq (\<lambda>_. False)) 3) = Inr ([Some 12, Some 5, Some 6], cb', [])
      \<and> circ_wf cb' \<and> circ_elems cb' = []"
proof -
  have e: "circ_elems cb_part = [Some 12]"
    by code_simp
  have w: "circ_wf cb_part"
    by code_simp
  have f: "int (length (circ_elems cb_part) + length [Some 5, Some 6 :: nat option]) \<le> cb_size cb_part"
    by code_simp
  show ?thesis
    using circBuf_fifo_order[OF w f, of "\<lambda>_. False" "[]"] by (simp add: e numeral_3_eq_3)
qed

text \<open>\<open>circBuf_clear\<close> terminates and hands every element to the destroy function exactly once,
  oldest first, leaving a well-formed empty buffer; without a destroy function it calls a NULL
  function pointer as soon as there is an element.\<close>

theorem circBuf_clear_destroys_all:
  assumes "circ_wf cb"
  shows "case cb_destroyFunc cb of
      Some f \<Rightarrow> \<exists>cb'. circBuf_clear avail cb w = Inr (cb', fold f (circ_elems cb) w)
        \<and> circ_wf cb' \<and> circ_elems cb' = []
    | None \<Rightarrow> circBuf_clear avail cb w = (if circ_elems cb = [] then Inr (cb, w) else Inl NullDeref)"
proof (cases "cb_destroyFunc cb")
  case None
  have r: "circ_rep cb (circ_elems cb)" using assms by (simp add: circ_wf_def)
  show ?thesis
  proof (cases "circ_elems cb")
    case Nil
    then show ?thesis using None r by (subst circBuf_clear.simps) (simp add: circ_rep_def)
  next
    case (Cons x xs)
    moreover obtain cb1 where "circBuf_popTail avail cb = Inr (x, cb1)" "cb_destroyFunc cb1 = None"
      using circ_rep_pop[of cb x xs avail] r Cons None by auto
    moreover have "cb_elementCount cb > 0" using r Cons by (simp add: circ_rep_def)
    ultimately show ?thesis using None by (subst circBuf_clear.simps) simp
  qed
next
  case (Some f)
  then show ?thesis
    using circBuf_clear_rep[OF assms[unfolded circ_wf_def], of f avail w]
    by (auto simp: circ_wf_iff circ_rep_elems)
qed

theorem circBuf_clear_destroys_all_witness:
  "\<exists>cb'. circBuf_clear (\<lambda>_. False) cb_full [] = Inr (cb', [Some 10, Some 11, Some 12])
      \<and> circ_wf cb' \<and> circ_elems cb' = []"
proof -
  have d: "cb_destroyFunc cb_full = Some log_destroy" by (simp add: cb_full_def)
  have l: "fold log_destroy [Some 10, Some 11, Some 12] [] = [Some 10, Some 11, Some 12 :: nat option]"
    by (simp add: log_destroy_def)
  show ?thesis
    using circBuf_clear_destroys_all[OF cb_full_wf, of "\<lambda>_. False" "[]"]
    unfolding cb_full_elems d option.case l by assumption
qed

text \<open>\<open>circBuf_destroy\<close> walks upwards from the head (the newest element) instead of from the tail.
  On a buffer of three slots into which two elements were pushed it destroys the newer one,
  then the NULL of a slot outside the contents, and never destroys the older one.\<close>

theorem circBuf_destroy_wrong_slots:
  "rbind (circBuf_create True e1 e2 True True (\<lambda>_. True) True True 3 (Some log_destroy)) (\<lambda>(_, p).
   rbind (deref p) (\<lambda>cb0.
   rbind (circBuf_push (\<lambda>_. True) cb0 (Some (1::nat)) []) (\<lambda>(cb1, w1).
   rbind (circBuf_push (\<lambda>_. True) cb1 (Some 2) w1) (\<lambda>(cb2, w2).
   circBuf_destroy cb2 w2)))) = Inr [Some 2, None]"
  by code_simp

text \<open>a buffer created with one slot starts with its tail index outside the vector, so the first
  \<open>circBuf_popTail\<close> after a push fails an assertion of the vector.\<close>

theorem circBuf_size_one_unusable:
  "rbind (circBuf_create True e1 e2 True True (\<lambda>_. True) True True 1 (Some log_destroy)) (\<lambda>(_, p).
   rbind (deref p) (\<lambda>cb0.
   rbind (circBuf_push (\<lambda>_. True) cb0 (Some (1::nat)) []) (\<lambda>(cb1, w1).
   rbind (circBuf_popTail (\<lambda>_. True) cb1) (\<lambda>(x, _). Inr x)))) = Inl AssertFailed"
  by code_simp

end
