(* ===== verification/Queue.thy ===== *)
theory Queue
  imports Err Fifo
begin

section \<open>The linked queue\<close>

text \<open>
  \<open>src/queue.c\<close>: an unbounded queue between threads, a singly linked list of heap entries under
  a mutex with a semaphore that counts the entries. Entries live in an explicit store (a map
  from addresses); the address \<open>malloc\<close> returns is an argument, NULL included. The semaphore's
  value and whether the mutex is held are part of the state: waiting on a zero semaphore or
  locking a held mutex is the result \<open>Blocked\<close>. The walk of \<open>validate\<close> gets fuel.
\<close>

subsection \<open>State\<close>

record 'a sQueueEntry =
  qe_newer :: "nat option"
  qe_userData :: 'a

record 'a sQueue =
  q_mutex :: bool
  q_semaphore :: nat
  q_oldest :: "nat option"
  q_newest :: "nat option"
  q_heap :: "nat \<rightharpoonup> 'a sQueueEntry"

abbreviation ERR_QUEUE_UNSPECIFIED :: int where "ERR_QUEUE_UNSPECIFIED \<equiv> 0"
abbreviation ERR_QUEUE_NOT_EMPTY :: int where "ERR_QUEUE_NOT_EMPTY \<equiv> 2"
abbreviation ERR_QUEUE_TIMEDOUT :: int where "ERR_QUEUE_TIMEDOUT \<equiv> 1"

definition entry_at :: "(nat \<rightharpoonup> 'a sQueueEntry) \<Rightarrow> nat \<Rightarrow> 'a sQueueEntry res" where
  "entry_at h a = (case h a of None \<Rightarrow> Inl DanglingPtr | Some e \<Rightarrow> Inr e)"

subsection \<open>Operations\<close>

text \<open>The loop of \<open>validate\<close>: follow \<open>newer\<close> to the last entry.\<close>

fun last_entry :: "nat \<Rightarrow> (nat \<rightharpoonup> 'a sQueueEntry) \<Rightarrow> nat \<Rightarrow> nat res" where
  "last_entry 0 h element = Inl OutOfFuel"
| "last_entry (Suc fuel) h element =
     rbind (entry_at h element) (\<lambda>e.
     case qe_newer e of None \<Rightarrow> Inr element | Some a \<Rightarrow> last_entry fuel h a)"

definition validate :: "nat \<Rightarrow> 'a sQueue \<Rightarrow> unit res" where
  "validate fuel q =
     (case q_oldest q of
        None \<Rightarrow> rassert (q_newest q = None)
      | Some a \<Rightarrow>
          rbind (last_entry fuel (q_heap q) a) (\<lambda>element.
          rbind (rassert (q_newest q = Some element)) (\<lambda>_.
          rbind (entry_at (q_heap q) element) (\<lambda>e. rassert (qe_newer e = None)))))"

definition mutex_lock :: "'a sQueue \<Rightarrow> 'a sQueue res" where
  "mutex_lock q = (if q_mutex q then Inl Blocked else Inr (q\<lparr> q_mutex := True \<rparr>))"

definition mutex_unlock :: "'a sQueue \<Rightarrow> 'a sQueue" where
  "mutex_unlock q = q\<lparr> q_mutex := False \<rparr>"

text \<open>
  Each operation takes the outcomes of the calls it makes: the address from \<open>malloc\<close>, the
  return codes of the semaphore and mutex calls, and for every error object that may be built
  the two outcomes of \<open>ErrNew\<close>.
\<close>

definition queue_error :: "bool \<times> bool \<Rightarrow> int \<Rightarrow> Error \<Rightarrow> string \<Rightarrow> Error res" where
  "queue_error ok n r d = ErrNew (fst ok) (snd ok) ERR_QUEUE n r d"

definition queue_create ::
  "bool \<Rightarrow> bool \<Rightarrow> bool \<Rightarrow> bool \<times> bool \<Rightarrow> (Error \<times> 'a sQueue option) res" where
  "queue_create mallocOk semOk mutexOk errOk =
     rbind (emalloc mallocOk (fst errOk) (snd errOk)) (\<lambda>(error, block).
     if error \<noteq> None then Inr (error, None)
     else rbind (deref block) (\<lambda>_.
     if \<not> semOk then
       rbind (queue_error errOk ERR_QUEUE_UNSPECIFIED None ''sem_init failed'') (\<lambda>e. Inr (e, None))
     else if \<not> mutexOk then
       rbind (queue_error errOk ERR_QUEUE_UNSPECIFIED None ''pthread_mutex_init failed'')
         (\<lambda>e. Inr (e, None))
     else
       (let q = \<lparr> q_mutex = False, q_semaphore = 0, q_oldest = None, q_newest = None,
                  q_heap = Map.empty \<rparr>
        in rbind (validate 0 q) (\<lambda>_. Inr (None, Some q)))))"

text \<open>\<open>queue_destroy\<close>: the queue is gone (\<open>None\<close>) when it succeeds.\<close>

definition queue_destroy ::
  "nat \<Rightarrow> bool \<Rightarrow> bool \<Rightarrow> bool \<Rightarrow> bool \<Rightarrow> bool \<times> bool \<Rightarrow> 'a sQueue \<Rightarrow> (Error \<times> 'a sQueue option) res" where
  "queue_destroy fuel lockOk semOk unlockOk mutexOk errOk q =
     (if \<not> lockOk then
        rbind (queue_error errOk ERR_QUEUE_UNSPECIFIED None ''queue_destroy: pthread_mutex_lock failed'')
          (\<lambda>e. Inr (e, Some q))
      else
        rbind (mutex_lock q) (\<lambda>q1.
        rbind (validate fuel q1) (\<lambda>_.
        if q_newest q1 \<noteq> None then
          rbind (queue_error errOk ERR_QUEUE_NOT_EMPTY None
                   ''The queue was not empty, which it must be in order to be destroyed'')
            (\<lambda>e. Inr (e, Some q1))
        else
          rbind (rassert (q_oldest q1 = None)) (\<lambda>_.
          if \<not> semOk then
            rbind (queue_error errOk ERR_QUEUE_UNSPECIFIED None ''queue_destroy: sem_destroy failed'')
              (\<lambda>e. Inr (e, Some (mutex_unlock q1)))
          else if \<not> unlockOk then
            rbind (queue_error errOk ERR_QUEUE_UNSPECIFIED None
                     ''queue_destroy: pthread_mutex_unlock failed'') (\<lambda>e. Inr (e, Some q1))
          else if \<not> mutexOk then
            rbind (queue_error errOk ERR_QUEUE_UNSPECIFIED None
                     ''queue_destroy: pthread_mutex_destroy failed'')
              (\<lambda>e. Inr (e, Some (mutex_unlock q1)))
          else Inr (None, None)))))"

text \<open>The linking of the new entry \<open>a\<close>, the part of \<open>queue_push\<close> between lock and unlock.\<close>

definition link_newest :: "nat \<Rightarrow> nat \<Rightarrow> 'a sQueue \<Rightarrow> 'a sQueue res" where
  "link_newest fuel a q =
     rbind (validate fuel q) (\<lambda>_.
     rbind (entry_at (q_heap q) a) (\<lambda>e.
     (let q1 = q\<lparr> q_heap := (q_heap q)(a \<mapsto> e\<lparr> qe_newer := None \<rparr>) \<rparr>
      in rbind (case q_newest q1 of
                  None \<Rightarrow>
                    rbind (rassert (q_oldest q1 = None)) (\<lambda>_. Inr (q1\<lparr> q_oldest := Some a \<rparr>))
                | Some n \<Rightarrow>
                    rbind (entry_at (q_heap q1) n) (\<lambda>en.
                    Inr (q1\<lparr> q_heap := (q_heap q1)(n \<mapsto> en\<lparr> qe_newer := Some a \<rparr>) \<rparr>)))
           (\<lambda>q2. (let q3 = q2\<lparr> q_newest := Some a \<rparr>
                  in rbind (validate fuel q3) (\<lambda>_. Inr q3))))))"

text \<open>
  \<open>malloc\<close> leaves the new entry's \<open>newer\<close> undefined; it is set before anybody reads it, so the
  model starts it at NULL.
\<close>

definition new_entry :: "nat \<Rightarrow> 'a \<Rightarrow> 'a sQueue \<Rightarrow> 'a sQueue" where
  "new_entry a x q = q\<lparr> q_heap := (q_heap q)(a \<mapsto> \<lparr> qe_newer = None, qe_userData = x \<rparr>) \<rparr>"

definition push_locked :: "nat \<Rightarrow> nat \<Rightarrow> 'a \<Rightarrow> 'a sQueue \<Rightarrow> 'a sQueue res" where
  "push_locked fuel a x q =
     rbind (mutex_lock (new_entry a x q)) (\<lambda>q1.
     rbind (link_newest fuel a q1) (\<lambda>q2. Inr (mutex_unlock q2)))"

definition sem_post :: "'a sQueue \<Rightarrow> 'a sQueue" where
  "sem_post q = q\<lparr> q_semaphore := q_semaphore q + 1 \<rparr>"

definition sem_wait :: "'a sQueue \<Rightarrow> 'a sQueue res" where
  "sem_wait q =
     (if q_semaphore q = 0 then Inl Blocked else Inr (q\<lparr> q_semaphore := q_semaphore q - 1 \<rparr>))"

definition queue_push ::
  "nat \<Rightarrow> nat option \<Rightarrow> bool \<Rightarrow> bool \<Rightarrow> bool \<Rightarrow> bool \<times> bool \<Rightarrow> bool \<times> bool \<Rightarrow> 'a sQueue \<Rightarrow> 'a
   \<Rightarrow> (Error \<times> 'a sQueue) res" where
  "queue_push fuel addr lockOk unlockOk postOk err1Ok err2Ok q userElement =
     rbind (emalloc (addr \<noteq> None) (fst err1Ok) (snd err1Ok)) (\<lambda>(error, _).
     if error \<noteq> None then
       rbind (queue_error err2Ok ERR_QUEUE_UNSPECIFIED error ''queue_push: emalloc failed'')
         (\<lambda>e. Inr (e, q))
     else
       rbind (deref addr) (\<lambda>a.
       if \<not> lockOk then
         rbind (queue_error err2Ok ERR_QUEUE_UNSPECIFIED None ''queue_push: pthread_mutex_lock failed'')
           (\<lambda>e. Inr (e, new_entry a userElement q))
       else
         rbind (push_locked fuel a userElement q) (\<lambda>q1.
         if \<not> unlockOk then
           rbind (queue_error err2Ok ERR_QUEUE_UNSPECIFIED None
                    ''queue_push: pthread_mutex_unlock failed'') (\<lambda>e. Inr (e, q1\<lparr> q_mutex := True \<rparr>))
         else if \<not> postOk then
           rbind (queue_error err2Ok ERR_QUEUE_UNSPECIFIED None ''queue_push: sem_post failed'')
             (\<lambda>e. Inr (e, q1))
         else Inr (None, sem_post q1))))"

definition queue_poll :: "'a sQueue \<Rightarrow> bool res" where
  "queue_poll q = rbind (mutex_lock q) (\<lambda>q1. Inr (q_newest q1 \<noteq> None))"

text \<open>\<open>doPop\<close>: the entry taken out (NULL when the mutex could not be locked) and the queue.\<close>

definition doPop :: "nat \<Rightarrow> bool \<Rightarrow> 'a sQueue \<Rightarrow> (nat option \<times> 'a sQueue) res" where
  "doPop fuel lockOk q =
     (if \<not> lockOk then Inr (None, q)
      else
        rbind (mutex_lock q) (\<lambda>q1.
        rbind (validate fuel q1) (\<lambda>_.
        rbind (rassert (q_oldest q1 \<noteq> None)) (\<lambda>_.
        rbind (rassert (q_newest q1 \<noteq> None)) (\<lambda>_.
        rbind (deref (q_oldest q1)) (\<lambda>element.
        rbind (entry_at (q_heap q1) element) (\<lambda>e.
        (let q2 = q1\<lparr> q_oldest := qe_newer e \<rparr>
         in rbind (if q_oldest q2 = None
                   then rbind (rassert (q_newest q2 = Some element)) (\<lambda>_. Inr (q2\<lparr> q_newest := None \<rparr>))
                   else Inr q2) (\<lambda>q3.
            rbind (validate fuel q3) (\<lambda>_. Inr (Some element, mutex_unlock q3)))))))))))"

text \<open>Read the user's pointer out of the entry and free it: the end of both pop functions.\<close>

definition take_entry :: "nat \<Rightarrow> 'a sQueue \<Rightarrow> ('a \<times> 'a sQueue) res" where
  "take_entry a q =
     rbind (entry_at (q_heap q) a) (\<lambda>e. Inr (qe_userData e, q\<lparr> q_heap := (q_heap q)(a := None) \<rparr>))"

text \<open>\<open>queue_pop\<close> ignores the return code of the wait: a failed wait goes on to \<open>doPop\<close>.\<close>

definition queue_pop ::
  "nat \<Rightarrow> bool \<Rightarrow> bool \<Rightarrow> bool \<times> bool \<Rightarrow> 'a sQueue \<Rightarrow> (Error \<times> 'a option \<times> 'a sQueue) res" where
  "queue_pop fuel waitOk lockOk errOk q =
     rbind (if waitOk then sem_wait q else Inr q) (\<lambda>q1.
     rbind (doPop fuel lockOk q1) (\<lambda>(element, q2).
     case element of
       None \<Rightarrow> rbind (queue_error errOk ERR_QUEUE_UNSPECIFIED None ''queue_pop: doPop failed'')
                 (\<lambda>e. Inr (e, None, q2))
     | Some a \<Rightarrow> rbind (take_entry a q2) (\<lambda>(x, q3). Inr (None, Some x, q3))))"

datatype wait_outcome = WaitOk | WaitTimedOut | WaitFailed

definition queue_waitFor ::
  "nat \<Rightarrow> wait_outcome \<Rightarrow> bool \<Rightarrow> bool \<times> bool \<Rightarrow> Error \<Rightarrow> 'a sQueue
   \<Rightarrow> (Error \<times> 'a option \<times> 'a sQueue) res" where
  "queue_waitFor fuel wait lockOk errOk errno q =
     (case wait of
        WaitTimedOut \<Rightarrow>
          rbind (queue_error errOk ERR_QUEUE_TIMEDOUT None ''Wait timed out'') (\<lambda>e. Inr (e, None, q))
      | WaitFailed \<Rightarrow>
          rbind (queue_error errOk ERR_QUEUE_UNSPECIFIED errno ''sem_timedwait failed'')
            (\<lambda>e. Inr (e, None, q))
      | WaitOk \<Rightarrow>
          rbind (sem_wait q) (\<lambda>q1.
          rbind (doPop fuel lockOk q1) (\<lambda>(element, q2).
          case element of
            None \<Rightarrow> rbind (queue_error errOk ERR_QUEUE_UNSPECIFIED None ''queue_waitFor: doPop failed'')
                      (\<lambda>e. Inr (e, None, q2))
          | Some a \<Rightarrow> rbind (take_entry a q2) (\<lambda>(x, q3). Inr (None, Some x, q3)))))"

subsection \<open>Representation\<close>

text \<open>The addresses of the entries from \<open>p\<close> on, and the contents they carry.\<close>

fun chain :: "(nat \<rightharpoonup> 'a sQueueEntry) \<Rightarrow> nat option \<Rightarrow> nat list \<Rightarrow> 'a list \<Rightarrow> bool" where
  "chain h p [] xs \<longleftrightarrow> p = None \<and> xs = []"
| "chain h p (a # as) xs \<longleftrightarrow>
     p = Some a \<and>
     (case h a of None \<Rightarrow> False
      | Some e \<Rightarrow> xs \<noteq> [] \<and> qe_userData e = hd xs \<and> chain h (qe_newer e) as (tl xs))"

definition q_shape :: "'a sQueue \<Rightarrow> nat list \<Rightarrow> 'a list \<Rightarrow> bool" where
  "q_shape q as xs \<longleftrightarrow>
     chain (q_heap q) (q_oldest q) as xs \<and> distinct as
     \<and> q_newest q = (if as = [] then None else Some (last as))"

definition q_rep :: "'a sQueue \<Rightarrow> 'a list \<Rightarrow> bool" where
  "q_rep q xs \<longleftrightarrow> \<not> q_mutex q \<and> (\<exists>as. q_shape q as xs)"

subsection \<open>Lemmas\<close>

lemma chain_cong:
  "(\<And>a. a \<in> set as \<Longrightarrow> h a = h' a) \<Longrightarrow> chain h p as xs \<longleftrightarrow> chain h' p as xs"
  by (induction as arbitrary: p xs) (auto split: option.splits)

lemma chain_update_notin [simp]: "a \<notin> set as \<Longrightarrow> chain (h(a := v)) p as xs \<longleftrightarrow> chain h p as xs"
  by (rule chain_cong) auto

lemma chain_lengths: "chain h p as xs \<Longrightarrow> length as = length xs"
  by (induction as arbitrary: p xs) (auto split: option.splits)

lemma chain_last_entry:
  "chain h (Some a) as xs \<Longrightarrow> length as \<le> fuel \<Longrightarrow> last_entry fuel h a = Inr (last as)
   \<and> (\<exists>e. h (last as) = Some e \<and> qe_newer e = None)"
proof (induction as arbitrary: a xs fuel)
  case (Cons b as)
  then obtain e k where "h b = Some e" "a = b" "fuel = Suc k" "chain h (qe_newer e) as (tl xs)"
    by (cases fuel) (auto split: option.splits)
  with Cons show ?case
    by (cases as) (auto simp: entry_at_def split: option.splits)
qed simp

lemma validate_shape: "q_shape q as xs \<Longrightarrow> length xs \<le> fuel \<Longrightarrow> validate fuel q = Inr ()"
  using chain_last_entry[of "q_heap q" "hd as" as xs fuel] chain_lengths[of "q_heap q" "q_oldest q" as xs]
  by (cases as) (auto simp: q_shape_def validate_def entry_at_def)

text \<open>Hanging a new entry behind the last one.\<close>

lemma chain_link:
  assumes "chain h p as xs" and "distinct as" and "as \<noteq> []" and "b \<notin> set as"
    and "h (last as) = Some e" and "h b = Some \<lparr> qe_newer = None, qe_userData = x \<rparr>"
  shows "chain (h(last as \<mapsto> e\<lparr> qe_newer := Some b \<rparr>)) p (as @ [b]) (xs @ [x])"
  using assms
proof (induction as arbitrary: p xs)
  case (Cons a as)
  then obtain e' y ys where e': "h a = Some e'" "qe_userData e' = y" "xs = y # ys" "p = Some a"
      "chain h (qe_newer e') as ys"
    by (cases xs) (auto split: option.splits)
  show ?case
  proof (cases "as = []")
    case True
    then show ?thesis using Cons.prems e' by simp
  next
    case False
    then have "chain (h(last as \<mapsto> e\<lparr> qe_newer := Some b \<rparr>)) (qe_newer e') (as @ [b]) (ys @ [x])"
      by (intro Cons.IH[OF e'(5)]) (use Cons.prems False in auto)
    moreover have "a \<noteq> last as" using Cons.prems False by auto
    ultimately show ?thesis using e' False by (simp add: fun_upd_def)
  qed
qed simp

lemma chain_last_in_heap: "chain h p as xs \<Longrightarrow> as \<noteq> [] \<Longrightarrow> \<exists>e. h (last as) = Some e"
  by (induction as arbitrary: p xs) (auto split: option.splits)

lemma chain_heap_dom: "chain h p as xs \<Longrightarrow> h a = None \<Longrightarrow> a \<notin> set as"
  by (induction as arbitrary: p xs) (auto split: option.splits)

lemma link_newest_shape:
  assumes s: "q_shape q as xs" and a: "a \<notin> set as" "length xs < fuel"
    and e: "q_heap q a = Some \<lparr> qe_newer = None, qe_userData = x \<rparr>"
  shows "\<exists>q'. link_newest fuel a q = Inr q' \<and> q_shape q' (as @ [a]) (xs @ [x])
      \<and> q_semaphore q' = q_semaphore q \<and> q_mutex q' = q_mutex q"
proof -
  have q: "(q_heap q)(a \<mapsto> \<lparr> qe_newer = None, qe_userData = x \<rparr>) = q_heap q"
    using e by (simp add: fun_upd_idem)
  have v: "validate fuel q = Inr ()" using validate_shape[OF s] a by simp
  define q' where "q' =
     (if as = [] then q\<lparr> q_oldest := Some a, q_newest := Some a \<rparr>
      else q\<lparr> q_heap := (q_heap q)(last as \<mapsto> (the (q_heap q (last as)))\<lparr> qe_newer := Some a \<rparr>),
              q_newest := Some a \<rparr>)"
  have s': "q_shape q' (as @ [a]) (xs @ [x])"
  proof (cases "as = []")
    case True
    then show ?thesis using s e by (simp add: q'_def q_shape_def)
  next
    case False
    then obtain el where "q_heap q (last as) = Some el"
      using chain_last_in_heap s by (fastforce simp: q_shape_def)
    then show ?thesis
      using False s a e chain_link[of "q_heap q" "q_oldest q" as xs a el x]
      by (auto simp: q'_def q_shape_def)
  qed
  have v': "validate fuel q' = Inr ()" using validate_shape[OF s'] a by simp
  have "link_newest fuel a q = Inr q'"
  proof (cases "as = []")
    case True
    then show ?thesis
      using s v v' e q by (simp add: link_newest_def q'_def q_shape_def entry_at_def Let_def)
  next
    case False
    then obtain el where "q_heap q (last as) = Some el"
      using chain_last_in_heap s by (fastforce simp: q_shape_def)
    moreover have "last as \<noteq> a" using False a(1) by auto
    ultimately show ?thesis
      using False s v v' e q by (simp add: link_newest_def q'_def q_shape_def entry_at_def Let_def)
  qed
  then show ?thesis using s' by (simp add: q'_def)
qed

lemma q_shape_mutex [simp]: "q_shape (q\<lparr> q_mutex := b \<rparr>) as xs \<longleftrightarrow> q_shape q as xs"
  by (simp add: q_shape_def)

lemma q_shape_semaphore [simp]: "q_shape (q\<lparr> q_semaphore := n \<rparr>) as xs \<longleftrightarrow> q_shape q as xs"
  by (simp add: q_shape_def)

lemma q_rep_semaphore [simp]: "q_rep (q\<lparr> q_semaphore := n \<rparr>) xs \<longleftrightarrow> q_rep q xs"
  by (simp add: q_rep_def)

lemma push_locked_rep:
  assumes "q_rep q xs" and "q_heap q a = None" and "length xs < fuel"
  shows "\<exists>q'. push_locked fuel a x q = Inr q' \<and> q_rep q' (xs @ [x]) \<and> q_semaphore q' = q_semaphore q"
proof -
  obtain as where m: "\<not> q_mutex q" and s: "q_shape q as xs"
    using assms(1) by (auto simp: q_rep_def)
  have fresh: "a \<notin> set as"
    using s assms(2) unfolding q_shape_def by (metis chain_heap_dom)
  then have s1: "q_shape (new_entry a x q\<lparr> q_mutex := True \<rparr>) as xs"
    using s by (simp add: q_shape_def new_entry_def)
  have e: "q_heap (new_entry a x q\<lparr> q_mutex := True \<rparr>) a = Some \<lparr> qe_newer = None, qe_userData = x \<rparr>"
    by (simp add: new_entry_def)
  obtain q2 where "link_newest fuel a (new_entry a x q\<lparr> q_mutex := True \<rparr>) = Inr q2"
      "q_shape q2 (as @ [a]) (xs @ [x])" "q_semaphore q2 = q_semaphore q"
    using link_newest_shape[OF s1 fresh assms(3) e] by (auto simp: new_entry_def)
  then show ?thesis
    using m by (auto simp: push_locked_def mutex_lock_def mutex_unlock_def new_entry_def q_rep_def)
qed

text \<open>Taking the oldest entry out: \<open>doPop\<close> returns its address, and it is still allocated.\<close>

lemma doPop_rep:
  assumes "q_rep q (x # xs)" and "length xs < fuel"
  shows "\<exists>a q'. doPop fuel True q = Inr (Some a, q') \<and> q_semaphore q' = q_semaphore q
      \<and> (\<exists>q''. take_entry a q' = Inr (x, q'') \<and> q_rep q'' xs \<and> q_semaphore q'' = q_semaphore q)"
proof -
  obtain a as where m: "\<not> q_mutex q" and s: "q_shape q (a # as) (x # xs)"
  proof -
    from assms(1) obtain as where "\<not> q_mutex q" "q_shape q as (x # xs)" by (auto simp: q_rep_def)
    then show ?thesis using that by (cases as) (auto simp: q_shape_def)
  qed
  obtain e where e: "q_heap q a = Some e" "qe_userData e = x" "chain (q_heap q) (qe_newer e) as xs"
      "q_oldest q = Some a" "a \<notin> set as" "distinct as"
    using s by (auto simp: q_shape_def split: option.splits)
  define q3 where "q3 = (if as = [] then q\<lparr> q_mutex := True, q_oldest := None, q_newest := None \<rparr>
      else q\<lparr> q_mutex := True, q_oldest := qe_newer e \<rparr>)"
  have s3: "q_shape q3 as xs"
    using s e by (auto simp: q_shape_def q3_def)
  have v: "validate fuel (q\<lparr> q_mutex := True \<rparr>) = Inr ()" "validate fuel q3 = Inr ()"
    using validate_shape[of "q\<lparr> q_mutex := True \<rparr>" "a # as" "x # xs" fuel] validate_shape[OF s3, of fuel]
      s assms(2) by simp_all
  have "qe_newer e = None \<longleftrightarrow> as = []" using e(3) by (cases as) auto
  then have "doPop fuel True q = Inr (Some a, mutex_unlock q3)"
    using s v e m
    by (cases "as = []") (auto simp: doPop_def mutex_lock_def q_shape_def q3_def entry_at_def Let_def)
  moreover have h3: "q_heap q3 = q_heap q" by (simp add: q3_def)
  define q4 where "q4 = q3\<lparr> q_mutex := False, q_heap := (q_heap q)(a := None) \<rparr>"
  have "take_entry a (mutex_unlock q3) = Inr (x, q4)"
    using e(1,2) h3 by (simp add: take_entry_def entry_at_def mutex_unlock_def q4_def)
  moreover have "q_shape q4 as xs"
    using s3 h3 e(5) by (simp add: q4_def q_shape_def)
  moreover have "\<not> q_mutex q4" by (simp add: q4_def)
  ultimately have "q_rep q4 xs" "take_entry a (mutex_unlock q3) = Inr (x, q4)"
      "doPop fuel True q = Inr (Some a, mutex_unlock q3)"
    by (auto simp only: q_rep_def)
  moreover have "q_semaphore q4 = q_semaphore q" "q_semaphore (mutex_unlock q3) = q_semaphore q"
    by (simp_all add: q4_def q3_def mutex_unlock_def)
  ultimately show ?thesis by auto
qed

text \<open>The contents as a function of the state.\<close>

fun entries :: "nat \<Rightarrow> (nat \<rightharpoonup> 'a sQueueEntry) \<Rightarrow> nat option \<Rightarrow> 'a list" where
  "entries 0 h p = []"
| "entries (Suc n) h p =
     (case p of None \<Rightarrow> []
      | Some a \<Rightarrow> (case h a of None \<Rightarrow> [] | Some e \<Rightarrow> qe_userData e # entries n h (qe_newer e)))"

lemma chain_entries: "chain h p as xs \<Longrightarrow> length xs \<le> n \<Longrightarrow> entries n h p = xs"
proof (induction as arbitrary: p xs n)
  case Nil
  then show ?case by (cases n) auto
next
  case (Cons a as)
  then show ?case by (cases n; cases xs) (auto split: option.splits)
qed

lemma q_rep_entries: "q_rep q xs \<Longrightarrow> length xs \<le> n \<Longrightarrow> entries n (q_heap q) (q_oldest q) = xs"
  by (auto simp: q_rep_def q_shape_def chain_entries)

lemma q_rep_unique: "q_rep q xs \<Longrightarrow> q_rep q ys \<Longrightarrow> xs = ys"
  by (metis q_rep_entries max.cobounded1 max.cobounded2)

lemma queue_push_rep:
  assumes "q_rep q xs" and "q_heap q a = None" and "length xs < fuel"
  shows "\<exists>q'. queue_push fuel (Some a) True True True e1 e2 q x = Inr (None, q') \<and> q_rep q' (xs @ [x])
      \<and> q_semaphore q' = Suc (q_semaphore q)"
  using push_locked_rep[OF assms, of x]
  by (auto simp: queue_push_def emalloc_def sem_post_def)

lemma queue_pop_rep:
  assumes "q_rep q (x # xs)" and "length xs < fuel" and "q_semaphore q = Suc n"
  shows "\<exists>q'. queue_pop fuel True True e q = Inr (None, Some x, q') \<and> q_rep q' xs \<and> q_semaphore q' = n"
proof -
  have "q_rep (q\<lparr> q_semaphore := n \<rparr>) (x # xs)" using assms(1) by simp
  from doPop_rep[OF this assms(2)] obtain a q1 q2 where
    "doPop fuel True (q\<lparr> q_semaphore := n \<rparr>) = Inr (Some a, q1)" "take_entry a q1 = Inr (x, q2)"
    "q_rep q2 xs" "q_semaphore q2 = n"
    by auto
  then show ?thesis using assms(3) by (auto simp: queue_pop_def sem_wait_def)
qed

subsection \<open>Interleavings\<close>

text \<open>
  Threads interleave at the points where the mutex is free. A push is two steps: the linking
  under the mutex and, later, the \<open>sem_post\<close>. A pop is two steps: the wait that gets through
  and, later, \<open>doPop\<close> (the entry it takes is private to the thread from then on). The system
  counts the threads in between, and two histories record what was linked and what was taken.
  \<open>validate\<close> gets as many steps as there were pushes. A step whose code runs into an assertion, a
  dangling pointer or a mutex that is not free is a step too: it ends the program with the fault
  in \<open>s_fault\<close>.
\<close>

record 'a qsys =
  s_queue :: "'a sQueue"
  s_posting :: nat
  s_popping :: nat
  s_pushed :: "'a list"
  s_popped :: "'a list"
  s_fault :: "fault option"

definition qsys_init :: "'a sQueue \<Rightarrow> 'a qsys" where
  "qsys_init q = \<lparr> s_queue = q, s_posting = 0, s_popping = 0, s_pushed = [], s_popped = [],
     s_fault = None \<rparr>"

definition s_fuel :: "'a qsys \<Rightarrow> nat" where
  "s_fuel s = Suc (length (s_pushed s))"

text \<open>What a pop does once the semaphore let it through, and how a step ends.\<close>

definition pop_entry :: "nat \<Rightarrow> 'a sQueue \<Rightarrow> ('a \<times> 'a sQueue) res" where
  "pop_entry fuel q =
     rbind (doPop fuel True q) (\<lambda>(element, q1). rbind (deref element) (\<lambda>a. take_entry a q1))"

definition after_link :: "'a qsys \<Rightarrow> 'a \<Rightarrow> 'a sQueue res \<Rightarrow> 'a qsys" where
  "after_link s x r =
     (case r of
        Inl f \<Rightarrow> s\<lparr> s_fault := Some f \<rparr>
      | Inr q \<Rightarrow> s\<lparr> s_queue := q, s_posting := Suc (s_posting s), s_pushed := s_pushed s @ [x] \<rparr>)"

definition after_pop :: "'a qsys \<Rightarrow> ('a \<times> 'a sQueue) res \<Rightarrow> 'a qsys" where
  "after_pop s r =
     (case r of
        Inl f \<Rightarrow> s\<lparr> s_fault := Some f \<rparr>
      | Inr (x, q) \<Rightarrow> s\<lparr> s_queue := q, s_popping := s_popping s - 1, s_popped := s_popped s @ [x] \<rparr>)"

inductive q_step :: "'a qsys \<Rightarrow> 'a qsys \<Rightarrow> bool" where
  link: "s_fault s = None \<Longrightarrow> q_heap (s_queue s) a = None \<Longrightarrow>
    q_step s (after_link s x (push_locked (s_fuel s) a x (s_queue s)))"
| post: "s_fault s = None \<Longrightarrow> s_posting s = Suc n \<Longrightarrow>
    q_step s (s\<lparr> s_queue := sem_post (s_queue s), s_posting := n \<rparr>)"
| wait: "s_fault s = None \<Longrightarrow> sem_wait (s_queue s) = Inr q' \<Longrightarrow>
    q_step s (s\<lparr> s_queue := q', s_popping := Suc (s_popping s) \<rparr>)"
| pop: "s_fault s = None \<Longrightarrow> s_popping s > 0 \<Longrightarrow>
    q_step s (after_pop s (pop_entry (s_fuel s) (s_queue s)))"

inductive_cases q_stepE: "q_step s s'"

definition q_fresh :: "'a sQueue" where
  "q_fresh = \<lparr> q_mutex = False, q_semaphore = 0, q_oldest = None, q_newest = None, q_heap = Map.empty \<rparr>"

definition reachable :: "'a qsys \<Rightarrow> bool" where
  "reachable s \<longleftrightarrow> q_step\<^sup>*\<^sup>* (qsys_init q_fresh) s"

text \<open>
  The invariant: the entries are the pushed elements not yet popped, and every entry is
  accounted for by the semaphore, a thread about to post or a thread about to pop.
\<close>

definition qsys_inv :: "'a qsys \<Rightarrow> bool" where
  "qsys_inv s \<longleftrightarrow> (\<exists>xs. q_rep (s_queue s) xs \<and> s_pushed s = s_popped s @ xs
     \<and> length xs = q_semaphore (s_queue s) + s_posting s + s_popping s) \<and> s_fault s = None"

lemma queue_create_fresh: "queue_create True True True e = Inr (None, Some q_fresh)"
  by (simp add: queue_create_def emalloc_def validate_def q_fresh_def)

lemma q_fresh_rep: "q_rep q_fresh []"
  by (auto simp: q_rep_def q_shape_def q_fresh_def intro!: exI[of _ "[]"])

lemma pop_entry_rep:
  assumes "q_rep q (x # xs)" and "length xs < fuel"
  shows "\<exists>q'. pop_entry fuel q = Inr (x, q') \<and> q_rep q' xs \<and> q_semaphore q' = q_semaphore q"
  using doPop_rep[OF assms] by (auto simp: pop_entry_def)

lemma q_step_inv:
  assumes "q_step s s'" and "qsys_inv s"
  shows "qsys_inv s'"
proof -
  from assms(2) obtain xs where xs: "q_rep (s_queue s) xs" "s_pushed s = s_popped s @ xs"
      "length xs = q_semaphore (s_queue s) + s_posting s + s_popping s" "s_fault s = None"
    by (auto simp: qsys_inv_def)
  then have fuel: "length xs < s_fuel s" by (simp add: s_fuel_def)
  from assms(1) show ?thesis
  proof (cases rule: q_step.cases)
    case (link a x)
    obtain q' where "push_locked (s_fuel s) a x (s_queue s) = Inr q'" "q_rep q' (xs @ [x])"
        "q_semaphore q' = q_semaphore (s_queue s)"
      using push_locked_rep[OF xs(1) link(3) fuel, of x] by auto
    then show ?thesis
      using link xs by (auto simp: qsys_inv_def after_link_def intro!: exI[of _ "xs @ [x]"])
  next
    case (post n)
    then show ?thesis using xs by (auto simp: qsys_inv_def sem_post_def intro!: exI[of _ xs])
  next
    case (wait q')
    then show ?thesis
      using xs by (auto simp: qsys_inv_def sem_wait_def split: if_splits intro!: exI[of _ xs])
  next
    case pop
    then obtain y ys where ys: "xs = y # ys" using xs(3) by (cases xs) auto
    then obtain q2 where "pop_entry (s_fuel s) (s_queue s) = Inr (y, q2)" "q_rep q2 ys"
        "q_semaphore q2 = q_semaphore (s_queue s)"
      using pop_entry_rep[of "s_queue s" y ys "s_fuel s"] xs(1) fuel by auto
    then show ?thesis
      using pop xs ys by (auto simp: qsys_inv_def after_pop_def intro!: exI[of _ ys])
  qed
qed

lemma reachable_inv: "reachable s \<Longrightarrow> qsys_inv s"
  unfolding reachable_def
proof (induction rule: rtranclp_induct)
  case base
  show ?case
    using q_fresh_rep by (auto simp: qsys_inv_def qsys_init_def q_fresh_def)
next
  case (step s s')
  then show ?case using q_step_inv by blast
qed

subsection \<open>The queue contract\<close>

text \<open>
  Used by one thread at a time, with an allocator that hands out increasing addresses: the
  state of the instance is the queue with the next free address.
\<close>

definition q_enq :: "nat \<Rightarrow> 'a \<Rightarrow> 'a sQueue \<times> nat \<Rightarrow> ('a sQueue \<times> nat) res" where
  "q_enq fuel x s =
     rbind (queue_push fuel (Some (snd s)) True True True (True, True) (True, True) (fst s) x)
       (\<lambda>(e, q). Inr (q, Suc (snd s)))"

definition q_deq :: "nat \<Rightarrow> 'a sQueue \<times> nat \<Rightarrow> ('a \<times> 'a sQueue \<times> nat) res" where
  "q_deq fuel s =
     rbind (queue_pop fuel True True (True, True) (fst s)) (\<lambda>(e, x, q).
     rbind (deref x) (\<lambda>y. Inr (y, q, snd s)))"

definition q_elems :: "nat \<Rightarrow> 'a sQueue \<times> nat \<Rightarrow> 'a list" where
  "q_elems fuel s = entries fuel (q_heap (fst s)) (q_oldest (fst s))"

definition q_idle :: "nat \<Rightarrow> 'a sQueue \<times> nat \<Rightarrow> bool" where
  "q_idle fuel s \<longleftrightarrow> q_rep (fst s) (q_elems fuel s) \<and> length (q_elems fuel s) \<le> fuel
     \<and> q_semaphore (fst s) = length (q_elems fuel s) \<and> (\<forall>a \<ge> snd s. q_heap (fst s) a = None)"

lemma q_idleI:
  "q_rep q xs \<Longrightarrow> length xs \<le> fuel \<Longrightarrow> q_semaphore q = length xs \<Longrightarrow> (\<And>a. a \<ge> n \<Longrightarrow> q_heap q a = None)
   \<Longrightarrow> q_idle fuel (q, n) \<and> q_elems fuel (q, n) = xs"
  by (auto simp: q_idle_def q_elems_def q_rep_entries)

text \<open>The operations touch no address of their own choice.\<close>

lemma link_newest_heap:
  "link_newest fuel a q = Inr q' \<Longrightarrow> q_heap q b = None \<Longrightarrow> b \<noteq> a \<Longrightarrow> q_heap q' b = None"
  by (auto simp: link_newest_def Let_def res_iff entry_at_def split: option.splits)

lemma queue_push_heap:
  "queue_push fuel (Some a) True True True e1 e2 q x = Inr (e, q') \<Longrightarrow> q_heap q b = None \<Longrightarrow> b \<noteq> a \<Longrightarrow>
   q_heap q' b = None"
  by (auto simp: queue_push_def emalloc_def push_locked_def res_iff mutex_lock_def mutex_unlock_def
      sem_post_def new_entry_def split: if_splits dest!: link_newest_heap[where b = b])

lemma queue_pop_heap:
  "queue_pop fuel True True e q = Inr (r, x, q') \<Longrightarrow> q_heap q b = None \<Longrightarrow> q_heap q' b = None"
  by (auto simp: queue_pop_def sem_wait_def doPop_def take_entry_def res_iff mutex_lock_def
      mutex_unlock_def Let_def split: if_splits option.splits)

interpretation lq: fifo "q_idle fuel" "q_elems fuel"
  "\<lambda>s k. length (q_elems fuel s) + k \<le> fuel" "q_enq fuel" "q_deq fuel" for fuel
proof unfold_locales
  fix s :: "'a sQueue \<times> nat" and k x
  assume s: "q_idle fuel s" and k: "length (q_elems fuel s) + Suc k \<le> fuel"
  then obtain q' where q': "queue_push fuel (Some (snd s)) True True True (True, True) (True, True) (fst s) x
      = Inr (None, q')" "q_rep q' (q_elems fuel s @ [x])" "q_semaphore q' = Suc (q_semaphore (fst s))"
    using queue_push_rep[of "fst s" "q_elems fuel s" "snd s" fuel "(True, True)" "(True, True)" x]
    by (auto simp: q_idle_def)
  then have "q_idle fuel (q', Suc (snd s)) \<and> q_elems fuel (q', Suc (snd s)) = q_elems fuel s @ [x]"
    using s k queue_push_heap[OF q'(1)] by (intro q_idleI) (auto simp: q_idle_def)
  then show "\<exists>s'. q_enq fuel x s = Inr s' \<and> q_idle fuel s' \<and> q_elems fuel s' = q_elems fuel s @ [x]
      \<and> length (q_elems fuel s') + k \<le> fuel"
    using q'(1) k by (auto simp: q_enq_def)
next
  fix s :: "'a sQueue \<times> nat" and x xs
  assume s: "q_idle fuel s" and e: "q_elems fuel s = x # xs"
  then obtain q' where q': "queue_pop fuel True True (True, True) (fst s) = Inr (None, Some x, q')"
      "q_rep q' xs" "q_semaphore q' = length xs"
    using queue_pop_rep[of "fst s" x xs fuel "length xs" "(True, True)"] by (auto simp: q_idle_def)
  then have "q_idle fuel (q', snd s) \<and> q_elems fuel (q', snd s) = xs"
    using s e queue_pop_heap[OF q'(1)] by (intro q_idleI) (auto simp: q_idle_def)
  then show "\<exists>s'. q_deq fuel s = Inr (x, s') \<and> q_idle fuel s' \<and> q_elems fuel s' = xs"
    using q'(1) by (auto simp: q_deq_def)
qed

subsection \<open>Properties\<close>

text \<open>C7: no interleaving of pushes and pops on a new queue faults. In every reachable state no
  assertion of \<open>queue_push\<close>, \<open>doPop\<close> or \<open>validate\<close> has failed, no dangling pointer has been followed
  and the mutex was free whenever a thread locked it; the next push of any element links it without
  a fault; the elements popped are the first ones pushed, in that order; and a thread that got
  through the semaphore finds an entry and gets the oldest element not yet popped.\<close>

theorem doPop_safe_in_every_interleaving:
  assumes "reachable s"
  shows "s_fault s = None
      \<and> (\<forall>a x. q_heap (s_queue s) a = None \<longrightarrow>
            (\<exists>q'. push_locked (s_fuel s) a x (s_queue s) = Inr q'))
      \<and> s_popped s = take (length (s_popped s)) (s_pushed s)
      \<and> (s_popping s > 0 \<longrightarrow>
          (\<exists>a q1 q2. doPop (s_fuel s) True (s_queue s) = Inr (Some a, q1)
             \<and> take_entry a q1 = Inr (s_pushed s ! length (s_popped s), q2)))"
proof -
  obtain xs where xs: "q_rep (s_queue s) xs" "s_pushed s = s_popped s @ xs"
      "length xs = q_semaphore (s_queue s) + s_posting s + s_popping s" "s_fault s = None"
    using reachable_inv[OF assms] by (auto simp: qsys_inv_def)
  then have fuel: "length xs < s_fuel s" by (simp add: s_fuel_def)
  have "\<exists>q'. push_locked (s_fuel s) a x (s_queue s) = Inr q'" if "q_heap (s_queue s) a = None" for a x
    using push_locked_rep[OF xs(1) that fuel, of x] by blast
  moreover have "\<exists>a q1 q2. doPop (s_fuel s) True (s_queue s) = Inr (Some a, q1)
      \<and> take_entry a q1 = Inr (s_pushed s ! length (s_popped s), q2)" if p: "s_popping s > 0"
  proof -
    obtain y ys where y: "xs = y # ys" using xs(3) p by (cases xs) auto
    then show ?thesis
      using doPop_rep[of "s_queue s" y ys "s_fuel s"] xs(1,2) fuel by auto
  qed
  ultimately show ?thesis using xs(2,4) by auto
qed

text \<open>A pusher links 7 and posts, then a popper gets through the semaphore.\<close>

definition q_one :: "nat sQueue" where
  "q_one = \<lparr> q_mutex = False, q_semaphore = 0, q_oldest = Some 1, q_newest = Some 1,
     q_heap = Map.empty(1 \<mapsto> \<lparr> qe_newer = None, qe_userData = 7 \<rparr>) \<rparr>"

definition s_one :: "nat qsys" where
  "s_one = \<lparr> s_queue = q_one, s_posting = 0, s_popping = 1, s_pushed = [7], s_popped = [],
     s_fault = None \<rparr>"

lemma s_one_reachable: "reachable s_one"
proof -
  let ?s1 = "\<lparr> s_queue = q_one, s_posting = 1, s_popping = 0, s_pushed = [7], s_popped = [], s_fault = None \<rparr>"
  let ?s2 = "?s1\<lparr> s_queue := q_one\<lparr> q_semaphore := 1 \<rparr>, s_posting := 0 \<rparr>"
  have "push_locked 1 1 (7 :: nat) q_fresh = Inr q_one"
    by (simp add: push_locked_def new_entry_def mutex_lock_def mutex_unlock_def link_newest_def
        validate_def entry_at_def q_fresh_def q_one_def Let_def)
  then have "q_step (qsys_init q_fresh) ?s1"
    using q_step.link[of "qsys_init q_fresh" 1 "7 :: nat"]
    by (simp add: qsys_init_def s_fuel_def q_fresh_def after_link_def)
  moreover have "q_step ?s1 ?s2"
    using q_step.post[of ?s1 0] by (simp add: sem_post_def q_one_def)
  moreover have "q_step ?s2 s_one"
    using q_step.wait[of ?s2 q_one] by (simp add: sem_wait_def s_one_def q_one_def)
  ultimately show ?thesis
    unfolding reachable_def by (meson rtranclp.rtrancl_into_rtrancl rtranclp.rtrancl_refl)
qed

theorem doPop_safe_in_every_interleaving_witness:
  "(\<exists>q'. push_locked 2 9 5 q_one = Inr q')
    \<and> (\<exists>a q1 q2. doPop 2 True q_one = Inr (Some a, q1) \<and> take_entry a q1 = Inr (7, q2))"
  using doPop_safe_in_every_interleaving[OF s_one_reachable]
  by (auto simp: s_one_def s_fuel_def numeral_2_eq_2) (simp add: q_one_def)

text \<open>no wake-up is lost. In every reachable state in which no push is between its linking and
  its post, a popper that finds more linked elements than pops done or under way does not block
  on the semaphore.\<close>

theorem queue_no_lost_wakeup:
  assumes "reachable s" and "s_posting s = 0"
    and "length (s_popped s) + s_popping s < length (s_pushed s)"
  shows "\<exists>q'. sem_wait (s_queue s) = Inr q'"
proof -
  obtain xs where "s_pushed s = s_popped s @ xs"
      "length xs = q_semaphore (s_queue s) + s_posting s + s_popping s"
    using reachable_inv[OF assms(1)] by (auto simp: qsys_inv_def)
  then show ?thesis using assms by (auto simp: sem_wait_def)
qed

theorem queue_no_lost_wakeup_witness:
  "\<exists>s :: nat qsys. reachable s \<and> s_pushed s = [7] \<and> s_popping s = 0 \<and> (\<exists>q'. sem_wait (s_queue s) = Inr q')"
proof -
  let ?s = "s_one\<lparr> s_queue := q_one\<lparr> q_semaphore := 1 \<rparr>, s_popping := 0 \<rparr>"
  let ?s1 = "\<lparr> s_queue = q_one, s_posting = 1, s_popping = 0, s_pushed = [7], s_popped = [], s_fault = None \<rparr>"
  have "push_locked 1 1 (7 :: nat) q_fresh = Inr q_one"
    by (simp add: push_locked_def new_entry_def mutex_lock_def mutex_unlock_def link_newest_def
        validate_def entry_at_def q_fresh_def q_one_def Let_def)
  then have "q_step (qsys_init q_fresh) ?s1"
    using q_step.link[of "qsys_init q_fresh" 1 "7 :: nat"]
    by (simp add: qsys_init_def s_fuel_def q_fresh_def after_link_def)
  moreover have "q_step ?s1 ?s"
    using q_step.post[of ?s1 0] by (simp add: sem_post_def q_one_def s_one_def)
  ultimately have r: "reachable ?s"
    unfolding reachable_def by (meson rtranclp.rtrancl_into_rtrancl rtranclp.rtrancl_refl)
  have "\<exists>q'. sem_wait (s_queue ?s) = Inr q'"
    by (rule queue_no_lost_wakeup[OF r]) (simp_all add: s_one_def)
  then show ?thesis using r by (intro exI[of _ ?s]) (simp add: s_one_def)
qed

text \<open>used by one thread, the queue is first in, first out: pushing any elements and popping
  everything returns what was queued before, then the new elements in their order, and leaves
  the queue empty, the semaphore at the number of entries and the mutex free throughout.\<close>

theorem queue_fifo_order:
  assumes "q_idle fuel s" and "length (q_elems fuel s) + length xs \<le> fuel"
  shows "\<exists>s'. rbind (rfold (q_enq fuel) xs s) (drain (q_deq fuel) (length (q_elems fuel s @ xs)))
        = Inr (q_elems fuel s @ xs, s') \<and> q_idle fuel s' \<and> q_elems fuel s' = []"
  using lq.fifo_order[OF assms(1), of xs] assms(2) by simp

theorem queue_fifo_order_witness:
  "\<exists>s'. rbind (rfold (q_enq 3) [5, 6, 7] (q_fresh, 1)) (drain (q_deq 3) 3) = Inr ([5, 6, 7 :: nat], s')
      \<and> q_elems 3 s' = []"
proof -
  have i: "q_idle 3 (q_fresh :: nat sQueue, 1) \<and> q_elems 3 (q_fresh :: nat sQueue, 1) = []"
    by (rule q_idleI[OF q_fresh_rep]) (simp_all add: q_fresh_def)
  show ?thesis
    using queue_fifo_order[of 3 "(q_fresh, 1)" "[5, 6, 7 :: nat]"] i by (auto simp: numeral_3_eq_3)
qed

text \<open>\<open>queue_destroy\<close> of a queue that still has entries reports it but returns with the mutex
  locked: the queue is unchanged otherwise, and every later push, pop or poll of it blocks.\<close>

theorem queue_destroy_nonempty_keeps_mutex:
  assumes "q_rep q (x # xs)" and "length (x # xs) \<le> fuel"
  shows "\<exists>q'. queue_destroy fuel True semOk unlockOk mutexOk (True, True) q
        = Inr (Some (mkErr ERR_QUEUE ERR_QUEUE_NOT_EMPTY None
            ''The queue was not empty, which it must be in order to be destroyed''), Some q')
      \<and> q' = q\<lparr> q_mutex := True \<rparr> \<and> queue_poll q' = Inl Blocked
      \<and> queue_push fuel (Some a) True True True e1 e2 q' y = Inl Blocked
      \<and> doPop fuel True q' = Inl Blocked"
proof -
  obtain as where m: "\<not> q_mutex q" and s: "q_shape q as (x # xs)"
    using assms(1) by (auto simp: q_rep_def)
  have v: "validate fuel (q\<lparr> q_mutex := True \<rparr>) = Inr ()"
    using s assms(2) by (intro validate_shape) auto
  have n: "q_newest q \<noteq> None" using s by (cases as) (auto simp: q_shape_def)
  show ?thesis
    using m v n
    by (simp add: queue_destroy_def mutex_lock_def queue_error_def ErrNew_def queue_poll_def
        queue_push_def emalloc_def push_locked_def new_entry_def doPop_def)
qed

theorem queue_destroy_nonempty_keeps_mutex_witness:
  "\<exists>e q'. queue_destroy 1 True True True True (True, True) q_one = Inr (Some e, Some q')
      \<and> queue_push 1 (Some 2) True True True (True, True) (True, True) q' 8 = Inl Blocked"
proof -
  have r: "q_rep q_one [7]"
    by (auto simp: q_rep_def q_shape_def q_one_def intro!: exI[of _ "[1]"])
  show ?thesis
    using queue_destroy_nonempty_keeps_mutex[OF r, of 1] by auto
qed

end
