(* ===== verification/ByteQueue.thy ===== *)
theory ByteQueue
  imports Err Fifo
begin

section \<open>The byte queue\<close>

text \<open>
  \<open>src/byteQueueC.c\<close>: a bounded ring of bytes between a writer and a reader thread, with an
  end-of-stream protocol. A byte of the buffer is \<open>None\<close> until it is written. The \<open>int\<close> indices
  \<open>head\<close> and \<open>tail\<close> are naturals here: they are proved to stay below \<open>size\<close>, which is taken to
  fit an \<open>int\<close>. Every function runs under the mutex; a thread leaves it only in
  \<open>pthread_cond_wait\<close>. So a read that has to wait is a value (\<open>Waiting\<close>) from which the loop is
  resumed, and \<open>bq_signals\<close> counts the broadcasts on the condition variable.
\<close>

subsection \<open>State and operations\<close>

type_synonym byte = "8 word"

record sByteQueue =
  bq_buffer :: "byte option list"
  bq_head :: nat
  bq_tail :: nat
  bq_isFull :: bool
  bq_size :: nat
  bq_endOfStream :: bool
  bq_endOfStreamReported :: bool
  bq_signals :: nat

definition byteQueue_create ::
  "bool \<Rightarrow> bool \<Rightarrow> bool \<times> bool \<Rightarrow> bool \<Rightarrow> bool \<Rightarrow> nat \<Rightarrow> (Error \<times> sByteQueue option) res" where
  "byteQueue_create structOk bufferOk errOk mutexOk condOk sz =
     rbind (rassert (sz \<noteq> 0)) (\<lambda>_.
     rbind (emalloc structOk (fst errOk) (snd errOk)) (\<lambda>(error, block).
     if error \<noteq> None then Inr (error, None)
     else
       rbind (deref block) (\<lambda>_.
       rbind (emalloc bufferOk (fst errOk) (snd errOk)) (\<lambda>(error2, buffer).
       if error2 \<noteq> None then Inr (error2, None)
       else
         rbind (rassert mutexOk) (\<lambda>_.
         rbind (rassert condOk) (\<lambda>_.
         Inr (None, Some
           \<lparr> bq_buffer = (if buffer = None then [] else replicate sz None), bq_head = 0, bq_tail = 0,
             bq_isFull = False, bq_size = sz, bq_endOfStream = True,
             bq_endOfStreamReported = False, bq_signals = 0 \<rparr>)))))))"

definition byteQueue_isFull :: "sByteQueue \<Rightarrow> bool" where
  "byteQueue_isFull bq \<longleftrightarrow> bq_isFull bq \<and> bq_head bq = bq_tail bq"

definition byteQueue_isEmpty :: "sByteQueue \<Rightarrow> bool" where
  "byteQueue_isEmpty bq \<longleftrightarrow> bq_head bq = bq_tail bq \<and> \<not> bq_isFull bq"

definition byteQueue_isEndOfStream :: "sByteQueue \<Rightarrow> bool" where
  "byteQueue_isEndOfStream bq \<longleftrightarrow> bq_endOfStream bq"

text \<open>The two \<open>memcpy\<close> calls, into and out of the buffer.\<close>

definition copy_in :: "byte option list \<Rightarrow> nat \<Rightarrow> byte list \<Rightarrow> byte option list res" where
  "copy_in buf off data =
     (if off + length data \<le> length buf then Inr (blit buf off (map Some data)) else Inl OutOfBounds)"

definition copy_out :: "byte option list \<Rightarrow> nat \<Rightarrow> nat \<Rightarrow> byte list res" where
  "copy_out buf off n =
     (if off + n \<le> length buf
      then (let block = take n (drop off buf)
            in if None \<in> set block then Inl UninitRead else Inr (map the block))
      else Inl OutOfBounds)"

text \<open>One pass of the loop of \<open>byteQueue_writeData\<close>: the queue, the rest of the data, \<open>wasEmpty\<close>.\<close>

definition write_pass :: "sByteQueue \<Rightarrow> byte list \<Rightarrow> bool \<Rightarrow> (sByteQueue \<times> byte list) res" where
  "write_pass bq data wasEmpty =
     (let avail = (if bq_head bq > bq_tail bq then bq_head bq - bq_tail bq
                   else bq_size bq - bq_tail bq);
          bytesToCopy = (if avail > length data then length data else avail)
      in rbind (rassert (bytesToCopy > 0)) (\<lambda>_.
         rbind (copy_in (bq_buffer bq) (bq_tail bq) (take bytesToCopy data)) (\<lambda>buf.
         rbind (rassert (bq_tail bq + bytesToCopy \<le> bq_size bq)) (\<lambda>_.
         (let tail = (if bq_tail bq + bytesToCopy = bq_size bq then 0 else bq_tail bq + bytesToCopy);
              bq1 = bq\<lparr> bq_buffer := buf, bq_tail := tail,
                        bq_isFull := (bq_isFull bq \<or> bq_head bq = tail) \<rparr>
          in rbind (if wasEmpty
                    then rbind (rassert (\<not> byteQueue_isEmpty bq1))
                           (\<lambda>_. Inr (bq1\<lparr> bq_signals := bq_signals bq1 + 1 \<rparr>))
                    else Inr bq1)
               (\<lambda>bq2. Inr (bq2, drop bytesToCopy data)))))))"

lemma write_pass_shorter: "write_pass bq data e = Inr (bq', data') \<Longrightarrow> length data' < length data"
  by (auto simp: write_pass_def Let_def res_iff split: if_splits)

function write_loop :: "sByteQueue \<Rightarrow> byte list \<Rightarrow> bool \<Rightarrow> (bool \<times> sByteQueue) res" where
  "write_loop bq data wasEmpty =
     (if data = [] then Inr (True, bq)
      else if byteQueue_isFull bq then Inr (False, bq)
      else rbind (write_pass bq data wasEmpty) (\<lambda>(bq', data'). write_loop bq' data' False))"
  by pat_completeness auto

termination
  by (relation "measure (\<lambda>(bq, data, wasEmpty). length data)") (auto dest: write_pass_shorter)

declare write_loop.simps [simp del]

definition byteQueue_writeData :: "sByteQueue \<Rightarrow> byte list \<Rightarrow> (bool \<times> sByteQueue) res" where
  "byteQueue_writeData bq data =
     rbind (rassert (\<not> byteQueue_isEndOfStream bq)) (\<lambda>_.
     write_loop bq data (byteQueue_isEmpty bq))"

definition byteQueue_writeEndOfStream :: "sByteQueue \<Rightarrow> sByteQueue" where
  "byteQueue_writeEndOfStream bq =
     (if bq_endOfStream bq then bq
      else bq\<lparr> bq_endOfStreamReported := False, bq_endOfStream := True,
               bq_signals := bq_signals bq + 1 \<rparr>)"

text \<open>\<open>byteQueue_writeStartOfStream\<close> waits (\<open>None\<close>) until the end of stream has been reported. Woken
  up, it goes back to the test of its loop and not to the assertion.\<close>

definition start_loop :: "sByteQueue \<Rightarrow> sByteQueue option" where
  "start_loop bq =
     (if \<not> bq_endOfStreamReported bq then None else Some (bq\<lparr> bq_endOfStream := False \<rparr>))"

definition byteQueue_writeStartOfStream :: "sByteQueue \<Rightarrow> sByteQueue option res" where
  "byteQueue_writeStartOfStream bq =
     rbind (rassert (bq_endOfStream bq)) (\<lambda>_. Inr (start_loop bq))"

datatype read_outcome = Done "byte list" | Waiting "byte list" nat

text \<open>One pass of the loop of \<open>ByteQueue_readData\<close> on a queue that is not empty.\<close>

definition read_pass :: "sByteQueue \<Rightarrow> nat \<Rightarrow> (byte list \<times> sByteQueue) res" where
  "read_pass bq len =
     (let avail = (if bq_tail bq \<le> bq_head bq then bq_size bq - bq_head bq
                   else bq_tail bq - bq_head bq);
          bytesToCopy = (if avail > len then len else avail)
      in rbind (rassert (bytesToCopy > 0)) (\<lambda>_.
         rbind (copy_out (bq_buffer bq) (bq_head bq) bytesToCopy) (\<lambda>data.
         rbind (if bq_head bq = bq_tail bq
                then rbind (rassert (bq_isFull bq)) (\<lambda>_. Inr (bq\<lparr> bq_isFull := False \<rparr>))
                else Inr bq) (\<lambda>bq1.
         rbind (rassert (bq_head bq1 + bytesToCopy \<le> bq_size bq1)) (\<lambda>_.
         Inr (data, bq1\<lparr> bq_head := (if bq_head bq1 + bytesToCopy = bq_size bq1 then 0
                                     else bq_head bq1 + bytesToCopy) \<rparr>)))))) "

lemma copy_out_length: "copy_out buf off n = Inr xs \<Longrightarrow> length xs = n"
  by (auto simp: copy_out_def Let_def split: if_splits)

lemma read_pass_progress: "read_pass bq len = Inr (data, bq') \<Longrightarrow> 0 < length data \<and> length data \<le> len"
  by (auto simp: read_pass_def Let_def res_iff split: if_splits dest!: copy_out_length)

text \<open>The loop: \<open>len\<close> bytes are still wanted and \<open>acc\<close> has been delivered.\<close>

function read_loop :: "sByteQueue \<Rightarrow> byte list \<Rightarrow> nat \<Rightarrow> (read_outcome \<times> sByteQueue) res" where
  "read_loop bq acc len =
     (if len = 0 then Inr (Done acc, bq)
      else if byteQueue_isEmpty bq then
        (if byteQueue_isEndOfStream bq \<and> \<not> bq_endOfStreamReported bq then Inr (Done acc, bq)
         else Inr (Waiting acc len, bq))
      else rbind (read_pass bq len) (\<lambda>(data, bq'). read_loop bq' (acc @ data) (len - length data)))"
  by pat_completeness auto

termination
  by (relation "measure (\<lambda>(bq, acc, len). len)") (auto dest!: read_pass_progress)

declare read_loop.simps [simp del]

text \<open>After the loop: a short result is the report of the end of the stream.\<close>

definition read_finish :: "nat \<Rightarrow> read_outcome \<times> sByteQueue \<Rightarrow> (read_outcome \<times> sByteQueue) res" where
  "read_finish readRequest r =
     (case r of
        (Waiting acc len, bq) \<Rightarrow> Inr (Waiting acc len, bq)
      | (Done acc, bq) \<Rightarrow>
          if length acc < readRequest
          then rbind (rassert (byteQueue_isEndOfStream bq)) (\<lambda>_.
               Inr (Done acc, bq\<lparr> bq_endOfStreamReported := True, bq_signals := bq_signals bq + 1 \<rparr>))
          else Inr (Done acc, bq))"

definition ByteQueue_readData :: "sByteQueue \<Rightarrow> nat \<Rightarrow> (read_outcome \<times> sByteQueue) res" where
  "ByteQueue_readData bq readRequest =
     rbind (rassert (readRequest > 0)) (\<lambda>_.
     rbind (read_loop bq [] readRequest) (read_finish readRequest))"

text \<open>The same call woken up from its wait with \<open>acc\<close> delivered and \<open>len\<close> bytes to go.\<close>

definition read_resume :: "sByteQueue \<Rightarrow> byte list \<Rightarrow> nat \<Rightarrow> (read_outcome \<times> sByteQueue) res" where
  "read_resume bq acc len = rbind (read_loop bq acc len) (read_finish (length acc + len))"

subsection \<open>Representation\<close>

definition bq_rep :: "sByteQueue \<Rightarrow> byte list \<Rightarrow> bool" where
  "bq_rep bq xs \<longleftrightarrow>
     length (bq_buffer bq) = bq_size bq \<and> ring (bq_buffer bq) (bq_head bq) (map Some xs)
     \<and> bq_tail bq = (bq_head bq + length xs) mod bq_size bq
     \<and> bq_isFull bq = (length xs = bq_size bq)"

subsection \<open>Lemmas\<close>

lemma bq_repD:
  assumes "bq_rep bq xs"
  shows "bq_head bq < bq_size bq" "length xs \<le> bq_size bq" "bq_tail bq < bq_size bq"
    "bq_tail bq = (if bq_head bq + length xs < bq_size bq then bq_head bq + length xs
                   else bq_head bq + length xs - bq_size bq)"
proof -
  show b: "bq_head bq < bq_size bq" "length xs \<le> bq_size bq" "bq_tail bq < bq_size bq"
    using assms by (auto simp: bq_rep_def ring_def intro: mod_less_divisor)
  show "bq_tail bq = (if bq_head bq + length xs < bq_size bq then bq_head bq + length xs
                   else bq_head bq + length xs - bq_size bq)"
    using assms b by (simp add: bq_rep_def mod_if)
qed

lemma isEmpty_rep: "bq_rep bq xs \<Longrightarrow> byteQueue_isEmpty bq \<longleftrightarrow> xs = []"
  using bq_repD[of bq xs] by (auto simp: byteQueue_isEmpty_def bq_rep_def split: if_splits)

lemma isFull_rep: "bq_rep bq xs \<Longrightarrow> byteQueue_isFull bq \<longleftrightarrow> length xs = bq_size bq"
  using bq_repD[of bq xs] by (auto simp: byteQueue_isFull_def bq_rep_def split: if_splits)

lemma bq_rep_cong:
  "bq_rep (bq\<lparr> bq_signals := k \<rparr>) xs \<longleftrightarrow> bq_rep bq xs"
  "bq_rep (bq\<lparr> bq_endOfStream := b \<rparr>) xs \<longleftrightarrow> bq_rep bq xs"
  "bq_rep (bq\<lparr> bq_endOfStreamReported := b \<rparr>) xs \<longleftrightarrow> bq_rep bq xs"
  by (simp_all add: bq_rep_def)

lemma wrap_index: "i \<le> n \<Longrightarrow> 0 < n \<Longrightarrow> (if i = n then 0 else i) = i mod (n :: nat)"
  by auto

text \<open>The contiguous free space: positive unless the queue is full, and never more than is free.\<close>

lemma write_space:
  assumes "bq_rep bq xs" and "length xs < bq_size bq"
  defines "avail \<equiv> if bq_head bq > bq_tail bq then bq_head bq - bq_tail bq else bq_size bq - bq_tail bq"
  shows "0 < avail" "avail \<le> bq_size bq - length xs" "bq_tail bq + avail \<le> bq_size bq"
  using bq_repD[OF assms(1)] assms(2) by (auto simp: avail_def split: if_splits)

lemma write_pass_rep:
  assumes r: "bq_rep bq xs" and room: "length xs < bq_size bq" and d: "data \<noteq> []"
    and e: "wasEmpty \<longrightarrow> xs = []"
  shows "\<exists>n bq'. write_pass bq data wasEmpty = Inr (bq', drop n data) \<and> 0 < n \<and> n \<le> length data
      \<and> bq_rep bq' (xs @ take n data) \<and> bq_size bq' = bq_size bq
      \<and> bq_endOfStream bq' = bq_endOfStream bq
      \<and> bq_endOfStreamReported bq' = bq_endOfStreamReported bq
      \<and> bq_signals bq' = bq_signals bq + (if wasEmpty then 1 else 0)"
proof -
  define avail where
    "avail = (if bq_head bq > bq_tail bq then bq_head bq - bq_tail bq else bq_size bq - bq_tail bq)"
  define n where "n = (if avail > length data then length data else avail)"
  note sp = write_space[OF r room, folded avail_def]
  have n: "0 < n" "n \<le> length data" "length xs + n \<le> bq_size bq" "bq_tail bq + n \<le> bq_size bq"
    using sp d bq_repD[OF r] by (auto simp: n_def)
  let ?buf = "blit (bq_buffer bq) (bq_tail bq) (map Some (take n data))"
  let ?tail = "(bq_tail bq + n) mod bq_size bq"
  define bq1 where "bq1 = bq\<lparr> bq_buffer := ?buf, bq_tail := ?tail,
      bq_isFull := (bq_isFull bq \<or> bq_head bq = ?tail) \<rparr>"
  have "?tail = (bq_head bq + (length xs + n)) mod bq_size bq"
    using r by (simp add: bq_rep_def mod_simps add.assoc)
  moreover have "bq_head bq = ?tail \<longleftrightarrow> length xs + n = bq_size bq"
    using calculation bq_repD[OF r] n mod_add_inj[of "bq_head bq" 0 "bq_size bq" "length xs + n"]
    by (cases "length xs + n = bq_size bq") auto
  moreover have "ring ?buf (bq_head bq) (map Some xs @ map Some (take n data))"
    using r n by (intro ring_blit) (auto simp: bq_rep_def)
  ultimately have rep: "bq_rep bq1 (xs @ take n data)"
    using r n room by (auto simp: bq_rep_def bq1_def min_absorb2)
  then have "\<not> byteQueue_isEmpty bq1"
    using isEmpty_rep[OF rep] n d by simp
  moreover have "copy_in (bq_buffer bq) (bq_tail bq) (take n data) = Inr ?buf"
    using r n by (simp add: copy_in_def bq_rep_def)
  moreover have "(if bq_tail bq + n = bq_size bq then 0 else bq_tail bq + n) = ?tail"
    using wrap_index[OF n(4)] bq_repD[OF r] by simp
  moreover have "bq_signals bq1 = bq_signals bq" by (simp add: bq1_def)
  ultimately have "write_pass bq data wasEmpty
      = Inr (if wasEmpty then bq1\<lparr> bq_signals := bq_signals bq + 1 \<rparr> else bq1, drop n data)"
    using n unfolding write_pass_def Let_def avail_def[symmetric] n_def[symmetric]
    by (simp add: bq1_def[symmetric])
  then show ?thesis
    using rep n by (intro exI[of _ n]) (auto simp: bq_rep_cong, auto simp: bq1_def)
qed

text \<open>What an operation leaves alone.\<close>

definition same_stream :: "sByteQueue \<Rightarrow> sByteQueue \<Rightarrow> bool" where
  "same_stream bq bq' \<longleftrightarrow> bq_size bq' = bq_size bq \<and> bq_endOfStream bq' = bq_endOfStream bq
     \<and> bq_endOfStreamReported bq' = bq_endOfStreamReported bq"

lemma write_loop_rep:
  assumes "bq_rep bq xs" and "wasEmpty \<longrightarrow> xs = []"
  shows "\<exists>bq'. write_loop bq data wasEmpty = Inr (length data \<le> bq_size bq - length xs, bq')
      \<and> bq_rep bq' (xs @ take (bq_size bq - length xs) data) \<and> same_stream bq bq'
      \<and> bq_signals bq' = bq_signals bq + (if wasEmpty \<and> data \<noteq> [] then 1 else 0)"
  using assms
proof (induction "length data" arbitrary: bq xs data wasEmpty rule: less_induct)
  case less
  consider (nil) "data = []" | (full) "data \<noteq> []" "length xs = bq_size bq"
    | (room) "data \<noteq> []" "length xs < bq_size bq"
    using bq_repD(2)[OF less.prems(1)] by linarith
  then show ?case
  proof cases
    case nil
    then show ?thesis using less.prems by (subst write_loop.simps) (simp add: same_stream_def)
  next
    case full
    then show ?thesis
      using less.prems isFull_rep[OF less.prems(1)] bq_repD(1)[OF less.prems(1)]
      by (subst write_loop.simps) (auto simp: same_stream_def)
  next
    case room
    from write_pass_rep[OF less.prems(1) room(2,1) less.prems(2)] obtain n bq1 where
      p: "write_pass bq data wasEmpty = Inr (bq1, drop n data)" and n: "0 < n" "n \<le> length data"
      and r1: "bq_rep bq1 (xs @ take n data)" and s1: "bq_size bq1 = bq_size bq"
        "bq_endOfStream bq1 = bq_endOfStream bq" "bq_endOfStreamReported bq1 = bq_endOfStreamReported bq"
        "bq_signals bq1 = bq_signals bq + (if wasEmpty then 1 else 0)"
      by blast
    have l: "length xs + n \<le> bq_size bq" using bq_repD(2)[OF r1] n s1 by simp
    have sh: "length (drop n data) < length data" using n by simp
    obtain bq2 where q2: "write_loop bq1 (drop n data) False
        = Inr (length (drop n data) \<le> bq_size bq1 - length (xs @ take n data), bq2)"
      "bq_rep bq2 ((xs @ take n data) @ take (bq_size bq1 - length (xs @ take n data)) (drop n data))"
      "same_stream bq1 bq2" "bq_signals bq2 = bq_signals bq1"
      using less.hyps[OF sh r1, of False] by auto
    have t: "take n data @ take (bq_size bq - length xs - n) (drop n data) = take (bq_size bq - length xs) data"
      using l by (metis add_diff_inverse_nat diff_le_mono le_add_diff_inverse2 add_diff_cancel_left'
          linorder_not_less order.strict_iff_not take_add)
    have "write_loop bq data wasEmpty = write_loop bq1 (drop n data) False"
      using room isFull_rep[OF less.prems(1)] p by (subst write_loop.simps) simp
    moreover have "length (drop n data) \<le> bq_size bq1 - length (xs @ take n data)
        \<longleftrightarrow> length data \<le> bq_size bq - length xs"
      using n l s1 by auto
    moreover have "bq_rep bq2 (xs @ take (bq_size bq - length xs) data)"
      using q2(2) n s1(1) t by (simp add: min_absorb2)
    ultimately show ?thesis
      using q2 s1 room by (auto simp: same_stream_def)
  qed
qed

lemma read_space:
  assumes "bq_rep bq xs" and "xs \<noteq> []"
  defines "avail \<equiv> if bq_tail bq \<le> bq_head bq then bq_size bq - bq_head bq else bq_tail bq - bq_head bq"
  shows "0 < avail" "avail \<le> length xs" "bq_head bq + avail \<le> bq_size bq"
  using bq_repD[OF assms(1)] assms(2) by (auto simp: avail_def split: if_splits)

lemma read_pass_rep:
  assumes r: "bq_rep bq xs" and ne: "xs \<noteq> []" and len: "0 < len"
  shows "\<exists>n bq'. read_pass bq len = Inr (take n xs, bq') \<and> 0 < n \<and> n \<le> len \<and> n \<le> length xs
      \<and> bq_rep bq' (drop n xs) \<and> same_stream bq bq' \<and> bq_signals bq' = bq_signals bq"
proof -
  define avail where
    "avail = (if bq_tail bq \<le> bq_head bq then bq_size bq - bq_head bq else bq_tail bq - bq_head bq)"
  define n where "n = (if avail > len then len else avail)"
  note sp = read_space[OF r ne, folded avail_def]
  have n: "0 < n" "n \<le> len" "n \<le> length xs" "bq_head bq + n \<le> bq_size bq"
    using sp len by (auto simp: n_def)
  let ?head = "(bq_head bq + n) mod bq_size bq"
  have "take n (drop (bq_head bq) (bq_buffer bq)) = take n (map Some xs)"
    using r n by (intro ring_take) (auto simp: bq_rep_def)
  then have c: "copy_out (bq_buffer bq) (bq_head bq) n = Inr (take n xs)"
    using r n by (auto simp: copy_out_def bq_rep_def take_map comp_def)
  have f: "bq_head bq = bq_tail bq \<longleftrightarrow> bq_isFull bq"
    using isFull_rep[OF r] isEmpty_rep[OF r] ne r
    by (auto simp: byteQueue_isEmpty_def byteQueue_isFull_def bq_rep_def)
  have w: "(if bq_head bq + n = bq_size bq then 0 else bq_head bq + n) = ?head"
    using wrap_index[OF n(4)] bq_repD[OF r] by simp
  define bq1 where "bq1 = bq\<lparr> bq_isFull := False, bq_head := ?head \<rparr>"
  have "bq\<lparr> bq_isFull := False \<rparr> = bq" if "\<not> bq_isFull bq" using that by simp
  then have "read_pass bq len = Inr (take n xs, bq1)"
    using n c f w unfolding read_pass_def Let_def avail_def[symmetric] n_def[symmetric]
    by (cases "bq_isFull bq") (simp_all add: bq1_def)
  moreover have "bq_rep bq1 (drop n xs)"
  proof -
    have "ring (bq_buffer bq) ((bq_head bq + length (map Some (take n xs))) mod length (bq_buffer bq))
        (map Some (drop n xs))"
      using r by (intro ring_drop) (simp add: bq_rep_def flip: map_append)
    moreover have "bq_tail bq = (?head + (length xs - n)) mod bq_size bq"
      using r n mod_add_left_eq[of "bq_head bq + n" "bq_size bq" "length xs - n"]
      by (simp add: bq_rep_def)
    ultimately show ?thesis
      using r n bq_repD(2)[OF r] by (auto simp: bq_rep_def bq1_def min_absorb2)
  qed
  ultimately show ?thesis using n by (auto simp: same_stream_def bq1_def)
qed

text \<open>What a read that finds the contents \<open>xs\<close> delivers.\<close>

definition read_result :: "sByteQueue \<Rightarrow> byte list \<Rightarrow> byte list \<Rightarrow> nat \<Rightarrow> read_outcome" where
  "read_result bq xs acc len =
     (if len \<le> length xs then Done (acc @ take len xs)
      else if bq_endOfStream bq \<and> \<not> bq_endOfStreamReported bq then Done (acc @ xs)
      else Waiting (acc @ xs) (len - length xs))"

lemma read_loop_rep:
  assumes "bq_rep bq xs"
  shows "\<exists>bq'. read_loop bq acc len = Inr (read_result bq xs acc len, bq')
      \<and> bq_rep bq' (drop len xs) \<and> same_stream bq bq' \<and> bq_signals bq' = bq_signals bq"
  using assms
proof (induction len arbitrary: bq xs acc rule: less_induct)
  case (less len)
  consider (zero) "len = 0" | (empty) "len > 0" "xs = []" | (some) "len > 0" "xs \<noteq> []" by auto
  then show ?case
  proof cases
    case zero
    then show ?thesis
      using less.prems by (subst read_loop.simps) (simp add: read_result_def same_stream_def)
  next
    case empty
    then show ?thesis
      using less.prems isEmpty_rep[OF less.prems]
      by (subst read_loop.simps) (auto simp: read_result_def same_stream_def byteQueue_isEndOfStream_def)
  next
    case some
    from read_pass_rep[OF less.prems some(2,1)] obtain n bq1 where
      p: "read_pass bq len = Inr (take n xs, bq1)" and n: "0 < n" "n \<le> len" "n \<le> length xs"
      and r1: "bq_rep bq1 (drop n xs)" "same_stream bq bq1" "bq_signals bq1 = bq_signals bq"
      by blast
    have "read_loop bq acc len = read_loop bq1 (acc @ take n xs) (len - n)"
      using some isEmpty_rep[OF less.prems] p n by (subst read_loop.simps) (simp add: min_absorb2)
    moreover have "read_result bq1 (drop n xs) (acc @ take n xs) (len - n) = read_result bq xs acc len"
      using n r1(2) by (auto simp: read_result_def same_stream_def min_absorb2 simp flip: take_add)
    ultimately show ?thesis
      using less.IH[of "len - n" bq1 "drop n xs" "acc @ take n xs"] n r1
      by (auto simp: same_stream_def)
  qed
qed

text \<open>The contents as a function of the state.\<close>

definition bq_elems :: "sByteQueue \<Rightarrow> byte list" where
  "bq_elems bq =
     (let n = (if bq_isFull bq then bq_size bq
               else (bq_size bq + bq_tail bq - bq_head bq) mod bq_size bq)
      in map (\<lambda>k. the (bq_buffer bq ! ((bq_head bq + k) mod bq_size bq))) [0..<n])"

definition bq_wf :: "sByteQueue \<Rightarrow> bool" where
  "bq_wf bq \<longleftrightarrow> bq_rep bq (bq_elems bq)"

lemma bq_rep_elems:
  assumes "bq_rep bq xs"
  shows "bq_elems bq = xs"
proof -
  have "(if bq_isFull bq then bq_size bq else (bq_size bq + bq_tail bq - bq_head bq) mod bq_size bq)
      = length xs"
    using assms bq_repD[OF assms] by (auto simp: bq_rep_def mod_if split: if_splits)
  then show ?thesis
    using assms by (auto simp: bq_elems_def Let_def bq_rep_def ring_def intro!: nth_equalityI)
qed

lemma bq_wf_iff: "bq_wf bq \<longleftrightarrow> (\<exists>xs. bq_rep bq xs)"
  by (metis bq_wf_def bq_rep_elems)

lemma writeData_rep:
  assumes "bq_rep bq xs" and "\<not> bq_endOfStream bq"
  shows "\<exists>bq'. byteQueue_writeData bq data = Inr (length data \<le> bq_size bq - length xs, bq')
      \<and> bq_rep bq' (xs @ take (bq_size bq - length xs) data) \<and> same_stream bq bq'
      \<and> bq_signals bq' = bq_signals bq + (if xs = [] \<and> data \<noteq> [] then 1 else 0)"
  using write_loop_rep[OF assms(1), of "byteQueue_isEmpty bq" data] isEmpty_rep[OF assms(1)] assms(2)
  by (auto simp: byteQueue_writeData_def byteQueue_isEndOfStream_def)

text \<open>A read call, first started (\<open>acc = []\<close>) or woken up: what it returns and what it leaves.\<close>

lemma read_resume_rep:
  assumes "bq_rep bq xs"
  shows "\<exists>bq'. read_resume bq acc len = Inr (read_result bq xs acc len, bq') \<and> bq_rep bq' (drop len xs)
      \<and> bq_size bq' = bq_size bq \<and> bq_endOfStream bq' = bq_endOfStream bq
      \<and> bq_endOfStreamReported bq' = (bq_endOfStreamReported bq \<or> bq_endOfStream bq \<and> length xs < len)
      \<and> bq_signals bq' = bq_signals bq
          + (if \<not> bq_endOfStreamReported bq \<and> bq_endOfStream bq \<and> length xs < len then 1 else 0)"
proof -
  obtain bq1 where bq1: "read_loop bq acc len = Inr (read_result bq xs acc len, bq1)"
      "bq_rep bq1 (drop len xs)" "same_stream bq bq1" "bq_signals bq1 = bq_signals bq"
    using read_loop_rep[OF assms] by blast
  show ?thesis
    using bq1
    by (auto simp: read_resume_def read_finish_def read_result_def same_stream_def
        byteQueue_isEndOfStream_def bq_rep_cong min_absorb2)
qed

lemma readData_resume: "0 < n \<Longrightarrow> ByteQueue_readData bq n = read_resume bq [] n"
  by (simp add: ByteQueue_readData_def read_resume_def)

subsection \<open>The queue contract\<close>

definition bq_enq :: "byte \<Rightarrow> sByteQueue \<Rightarrow> sByteQueue res" where
  "bq_enq x bq = rbind (byteQueue_writeData bq [x]) (\<lambda>(noDrop, bq'). Inr bq')"

definition bq_deq :: "sByteQueue \<Rightarrow> (byte \<times> sByteQueue) res" where
  "bq_deq bq =
     rbind (ByteQueue_readData bq 1) (\<lambda>(r, bq').
     case r of Done [x] \<Rightarrow> Inr (x, bq') | _ \<Rightarrow> Inl Blocked)"

interpretation bytes: fifo "\<lambda>bq. bq_wf bq \<and> \<not> bq_endOfStream bq" bq_elems
  "\<lambda>bq k. length (bq_elems bq) + k \<le> bq_size bq" bq_enq bq_deq
proof unfold_locales
  fix bq k x
  assume a: "bq_wf bq \<and> \<not> bq_endOfStream bq" and k: "length (bq_elems bq) + Suc k \<le> bq_size bq"
  then obtain b bq' where q: "byteQueue_writeData bq [x] = Inr (b, bq')" "bq_rep bq' (bq_elems bq @ [x])"
      "same_stream bq bq'"
    using writeData_rep[of bq "bq_elems bq" "[x]"] by (auto simp: bq_wf_def take_Cons')
  have "bq_wf bq'" "bq_elems bq' = bq_elems bq @ [x]"
    using q(2) by (auto simp: bq_wf_iff bq_rep_elems)
  then show "\<exists>bq'. bq_enq x bq = Inr bq' \<and> (bq_wf bq' \<and> \<not> bq_endOfStream bq')
      \<and> bq_elems bq' = bq_elems bq @ [x] \<and> length (bq_elems bq') + k \<le> bq_size bq'"
    using q a k by (simp add: bq_enq_def same_stream_def)
next
  fix bq x xs
  assume a: "bq_wf bq \<and> \<not> bq_endOfStream bq" and e: "bq_elems bq = x # xs"
  then obtain bq' where q: "read_resume bq [] 1 = Inr (Done [x], bq')" "bq_rep bq' xs"
      "bq_endOfStream bq' = bq_endOfStream bq"
    using read_resume_rep[of bq "x # xs" "[]" 1] by (auto simp: bq_wf_def read_result_def)
  have "bq_wf bq'" "bq_elems bq' = xs"
    using q(2) by (auto simp: bq_wf_iff bq_rep_elems)
  then show "\<exists>bq'. bq_deq bq = Inr (x, bq') \<and> (bq_wf bq' \<and> \<not> bq_endOfStream bq') \<and> bq_elems bq' = xs"
    using q a by (simp add: bq_deq_def readData_resume)
qed

subsection \<open>Interleavings of a writer and a reader\<close>

text \<open>
  A reader that waits is recorded with what it was given and what it still wants, and with the
  number of broadcasts it had seen; a writer that waits in \<open>byteQueue_writeStartOfStream\<close> with the
  number of broadcasts it had seen. A thread that waits may be woken at any time: by a broadcast
  or spuriously. Histories: the bytes taken in from the writer and the bytes of the reads that
  returned.
\<close>

record bsys =
  b_queue :: sByteQueue
  b_reader :: "(byte list \<times> nat \<times> nat) option"
  b_writer :: "nat option"
  b_written :: "byte list"
  b_read :: "byte list"

definition after_read :: "bsys \<Rightarrow> read_outcome \<times> sByteQueue \<Rightarrow> bsys" where
  "after_read s r =
     (case r of
        (Done d, bq) \<Rightarrow> s\<lparr> b_queue := bq, b_reader := None, b_read := b_read s @ d \<rparr>
      | (Waiting acc len, bq) \<Rightarrow> s\<lparr> b_queue := bq, b_reader := Some (acc, len, bq_signals bq) \<rparr>)"

definition after_start :: "bsys \<Rightarrow> sByteQueue option \<Rightarrow> bsys" where
  "after_start s r =
     (case r of
        None \<Rightarrow> s\<lparr> b_writer := Some (bq_signals (b_queue s)) \<rparr>
      | Some bq \<Rightarrow> s\<lparr> b_queue := bq, b_writer := None \<rparr>)"

inductive b_step :: "bsys \<Rightarrow> bsys \<Rightarrow> bool" where
  put: "b_writer s = None \<Longrightarrow> byteQueue_writeData (b_queue s) data = Inr (noDrop, bq') \<Longrightarrow>
    b_step s (s\<lparr> b_queue := bq',
      b_written := b_written s
        @ take (bq_size (b_queue s) - length (bq_elems (b_queue s))) data \<rparr>)"
| finish: "b_writer s = None \<Longrightarrow>
    b_step s (s\<lparr> b_queue := byteQueue_writeEndOfStream (b_queue s) \<rparr>)"
| start: "b_writer s = None \<Longrightarrow> byteQueue_writeStartOfStream (b_queue s) = Inr r \<Longrightarrow>
    b_step s (after_start s r)"
| restart: "b_writer s = Some seen \<Longrightarrow> b_step s (after_start s (start_loop (b_queue s)))"
| request: "b_reader s = None \<Longrightarrow> ByteQueue_readData (b_queue s) n = Inr r \<Longrightarrow> b_step s (after_read s r)"
| resume: "b_reader s = Some (acc, len, seen) \<Longrightarrow> read_resume (b_queue s) acc len = Inr r \<Longrightarrow>
    b_step s (after_read s r)"

inductive_cases b_stepE: "b_step s s'"

definition bq_init :: "nat \<Rightarrow> sByteQueue" where
  "bq_init n = \<lparr> bq_buffer = replicate n None, bq_head = 0, bq_tail = 0, bq_isFull = False,
     bq_size = n, bq_endOfStream = True, bq_endOfStreamReported = False, bq_signals = 0 \<rparr>"

definition b_init :: "nat \<Rightarrow> bsys" where
  "b_init n = \<lparr> b_queue = bq_init n, b_reader = None, b_writer = None, b_written = [], b_read = [] \<rparr>"

definition b_reachable :: "nat \<Rightarrow> bsys \<Rightarrow> bool" where
  "b_reachable n s \<longleftrightarrow> b_step\<^sup>*\<^sup>* (b_init n) s"

text \<open>A waiting reader could go on: there is a byte or an unreported end of stream.\<close>

definition can_proceed :: "sByteQueue \<Rightarrow> bool" where
  "can_proceed bq \<longleftrightarrow> bq_elems bq \<noteq> [] \<or> bq_endOfStream bq \<and> \<not> bq_endOfStreamReported bq"

definition bsys_inv :: "nat \<Rightarrow> bsys \<Rightarrow> bool" where
  "bsys_inv n s \<longleftrightarrow> bq_wf (b_queue s) \<and> bq_size (b_queue s) = n
     \<and> (case b_reader s of
          None \<Rightarrow> b_written s = b_read s @ bq_elems (b_queue s)
        | Some (acc, len, seen) \<Rightarrow> b_written s = b_read s @ acc @ bq_elems (b_queue s)
            \<and> 0 < len \<and> seen \<le> bq_signals (b_queue s)
            \<and> (can_proceed (b_queue s) \<longrightarrow> seen < bq_signals (b_queue s)))
     \<and> (case b_writer s of
          None \<Rightarrow> True
        | Some seen \<Rightarrow> bq_endOfStream (b_queue s) \<and> seen \<le> bq_signals (b_queue s)
            \<and> (bq_endOfStreamReported (b_queue s) \<longrightarrow> seen < bq_signals (b_queue s)))"

text \<open>The calls the two threads can make next do not fault: a write into an open stream, the start
  of the next stream, a new read, and a read that is woken up.\<close>

definition b_calls_ok :: "bsys \<Rightarrow> bool" where
  "b_calls_ok s \<longleftrightarrow>
     (\<not> bq_endOfStream (b_queue s) \<longrightarrow> (\<forall>data. \<exists>r. byteQueue_writeData (b_queue s) data = Inr r))
     \<and> (bq_endOfStream (b_queue s) \<longrightarrow> (\<exists>r. byteQueue_writeStartOfStream (b_queue s) = Inr r))
     \<and> (case b_reader s of
          None \<Rightarrow> \<forall>k>0. \<exists>r. ByteQueue_readData (b_queue s) k = Inr r
        | Some (acc, len, seen) \<Rightarrow> \<exists>r. read_resume (b_queue s) acc len = Inr r)"

lemma byteQueue_create_init:
  "0 < n \<Longrightarrow> byteQueue_create True True e True True n = Inr (None, Some (bq_init n))"
  by (simp add: byteQueue_create_def emalloc_def bq_init_def)

lemma bq_init_rep: "0 < n \<Longrightarrow> bq_rep (bq_init n) []"
  by (simp add: bq_rep_def bq_init_def)

lemma after_read_inv:
  assumes "bq_rep (b_queue s) xs" and "bq_size (b_queue s) = n" and "0 < len"
    and "b_written s = b_read s @ acc @ xs"
    and "case b_writer s of None \<Rightarrow> True
        | Some seen \<Rightarrow> bq_endOfStream (b_queue s) \<and> seen \<le> bq_signals (b_queue s)
            \<and> (bq_endOfStreamReported (b_queue s) \<longrightarrow> seen < bq_signals (b_queue s))"
    and "read_resume (b_queue s) acc len = Inr r"
  shows "bsys_inv n (after_read s r)"
proof -
  obtain bq' where r: "r = (read_result (b_queue s) xs acc len, bq')" and q: "bq_rep bq' (drop len xs)"
      "bq_size bq' = n" "bq_endOfStream bq' = bq_endOfStream (b_queue s)"
      "bq_endOfStreamReported bq'
        = (bq_endOfStreamReported (b_queue s) \<or> bq_endOfStream (b_queue s) \<and> length xs < len)"
      "bq_signals bq' = bq_signals (b_queue s)
        + (if \<not> bq_endOfStreamReported (b_queue s) \<and> bq_endOfStream (b_queue s) \<and> length xs < len
           then 1 else 0)"
    using read_resume_rep[OF assms(1), of acc len] assms(2,6) by auto
  have "bq_wf bq'" "bq_elems bq' = drop len xs" using q(1) by (auto simp: bq_wf_iff bq_rep_elems)
  then show ?thesis
    using q r assms(3-5)
    by (auto simp: bsys_inv_def after_read_def read_result_def can_proceed_def split: option.splits)
qed

lemma after_start_inv:
  assumes "bsys_inv n s" and "bq_endOfStream (b_queue s)"
  shows "bsys_inv n (after_start s (start_loop (b_queue s)))"
proof (cases "bq_endOfStreamReported (b_queue s)")
  case True
  let ?bq = "(b_queue s)\<lparr> bq_endOfStream := False \<rparr>"
  have "bq_elems ?bq = bq_elems (b_queue s)" "bq_wf ?bq"
    using assms(1) bq_rep_elems[of ?bq "bq_elems (b_queue s)"]
    by (auto simp: bsys_inv_def bq_wf_def bq_rep_cong)
  then show ?thesis
    using True assms
    by (auto simp: bsys_inv_def after_start_def start_loop_def can_proceed_def split: option.splits)
next
  case False
  then show ?thesis
    using assms by (auto simp: bsys_inv_def after_start_def start_loop_def split: option.splits)
qed

lemma b_step_inv:
  assumes "b_step s s'" and "bsys_inv n s"
  shows "bsys_inv n s'"
proof -
  have r: "bq_rep (b_queue s) (bq_elems (b_queue s))" "bq_size (b_queue s) = n"
    using assms(2) by (auto simp: bsys_inv_def bq_wf_def)
  from assms(1) show ?thesis
  proof (cases rule: b_step.cases)
    case (put data noDrop bq')
    then have "\<not> bq_endOfStream (b_queue s)"
      by (auto simp: byteQueue_writeData_def byteQueue_isEndOfStream_def res_iff)
    from writeData_rep[OF r(1) this, of data] put have
      q: "bq_rep bq' (bq_elems (b_queue s) @ take (n - length (bq_elems (b_queue s))) data)"
        "same_stream (b_queue s) bq'"
        "bq_signals bq' = bq_signals (b_queue s) + (if bq_elems (b_queue s) = [] \<and> data \<noteq> [] then 1 else 0)"
      using r(2) by auto
    have "bq_wf bq'" "bq_elems bq' = bq_elems (b_queue s) @ take (n - length (bq_elems (b_queue s))) data"
      using q(1) by (auto simp: bq_wf_iff bq_rep_elems)
    then show ?thesis
      using put assms(2) q(2,3)
      by (auto simp: bsys_inv_def can_proceed_def same_stream_def split: option.splits if_splits)
  next
    case finish
    have "bq_elems (byteQueue_writeEndOfStream (b_queue s)) = bq_elems (b_queue s)"
        "bq_wf (byteQueue_writeEndOfStream (b_queue s))"
      using r(1) bq_rep_elems[of "byteQueue_writeEndOfStream (b_queue s)" "bq_elems (b_queue s)"]
      by (auto simp: bq_wf_iff byteQueue_writeEndOfStream_def bq_rep_cong)
    then show ?thesis
      using finish assms(2)
      by (auto simp: bsys_inv_def can_proceed_def byteQueue_writeEndOfStream_def split: option.splits)
  next
    case (start r)
    then show ?thesis using after_start_inv[OF assms(2)]
      by (auto simp: byteQueue_writeStartOfStream_def res_iff)
  next
    case (restart seen)
    then show ?thesis
      using after_start_inv[OF assms(2)] assms(2) by (simp add: bsys_inv_def)
  next
    case (request k rr)
    then have "0 < k" by (auto simp: ByteQueue_readData_def res_iff)
    then show ?thesis
      using request after_read_inv[OF r, of k "[]" rr] assms(2)
      by (simp add: readData_resume bsys_inv_def)
  next
    case (resume acc len seen rr)
    then show ?thesis
      using after_read_inv[OF r, of len acc rr] assms(2) by (simp add: bsys_inv_def)
  qed
qed

lemma b_reachable_inv: "b_reachable n s \<Longrightarrow> 0 < n \<Longrightarrow> bsys_inv n s"
  unfolding b_reachable_def
proof (induction rule: rtranclp_induct)
  case base
  have "bq_wf (bq_init n)" "bq_elems (bq_init n) = []"
    using bq_init_rep[OF base] by (auto simp: bq_wf_iff bq_rep_elems)
  then show ?case by (simp add: bsys_inv_def b_init_def) (simp add: bq_init_def)
next
  case (step s s')
  then show ?case using b_step_inv by blast
qed

lemma bsys_inv_calls_ok:
  assumes "bsys_inv n s"
  shows "b_calls_ok s"
proof -
  have r: "bq_rep (b_queue s) (bq_elems (b_queue s))"
    using assms by (simp add: bsys_inv_def bq_wf_def)
  have "\<exists>r. read_resume (b_queue s) acc len = Inr r" for acc len
    using read_resume_rep[OF r, of acc len] by blast
  moreover have "\<exists>r. byteQueue_writeData (b_queue s) data = Inr r" if "\<not> bq_endOfStream (b_queue s)" for data
    using writeData_rep[OF r that, of data] by blast
  ultimately show ?thesis
    by (auto simp: b_calls_ok_def byteQueue_writeStartOfStream_def readData_resume split: option.splits)
qed

subsection \<open>Properties\<close>

text \<open>C6: the byte stream is preserved by every interleaving. In every state reachable from a new
  queue, the bytes taken in are the bytes of the finished reads, then the bytes a waiting reader
  already holds, then the contents of the queue, in order: nothing is lost, duplicated or
  reordered once it was taken in. No broadcast is missed by either thread: a waiting reader that
  could go on (a byte or an unreported end of stream is there) and a writer waiting to start the
  next stream that could go on (the end has been reported) have had a broadcast since they began
  to wait. And no call the two threads can make next runs into an assertion or a fault.\<close>

theorem byteQueue_stream_preserved:
  assumes "b_reachable n s" and "0 < n"
  shows "b_written s = b_read s
        @ (case b_reader s of None \<Rightarrow> [] | Some (acc, len, seen) \<Rightarrow> acc) @ bq_elems (b_queue s)
      \<and> length (bq_elems (b_queue s)) \<le> n
      \<and> (case b_reader s of None \<Rightarrow> True
         | Some (acc, len, seen) \<Rightarrow> can_proceed (b_queue s) \<longrightarrow> seen < bq_signals (b_queue s))
      \<and> (case b_writer s of None \<Rightarrow> True
         | Some seen \<Rightarrow> start_loop (b_queue s) \<noteq> None \<longrightarrow> seen < bq_signals (b_queue s))
      \<and> b_calls_ok s"
proof -
  have i: "bsys_inv n s" using b_reachable_inv[OF assms] .
  then have "length (bq_elems (b_queue s)) \<le> n"
    using bq_repD(2)[of "b_queue s" "bq_elems (b_queue s)"] by (auto simp: bsys_inv_def bq_wf_def)
  moreover have "case b_writer s of None \<Rightarrow> True
         | Some seen \<Rightarrow> start_loop (b_queue s) \<noteq> None \<longrightarrow> seen < bq_signals (b_queue s)"
    using i by (auto simp: bsys_inv_def start_loop_def split: option.splits)
  ultimately show ?thesis
    using i bsys_inv_calls_ok[OF i] by (auto simp: bsys_inv_def split: option.splits)
qed

text \<open>A run: the writer wants to start the stream of a new queue of two bytes and has to wait; the
  reader asks for a byte and reports the initial end of stream, which wakes the writer; the writer
  writes three bytes, and the reader asks for three.\<close>

definition b_mid :: "bsys res" where
  "b_mid =
     rbind (byteQueue_writeStartOfStream (bq_init 2)) (\<lambda>r1. let s1 = after_start (b_init 2) r1 in
     rbind (ByteQueue_readData (b_queue s1) 1) (\<lambda>r2. Inr (after_read s1 r2)))"

definition b_woken :: bsys where
  "b_woken = \<lparr> b_queue = \<lparr> bq_buffer = [None, None], bq_head = 0, bq_tail = 0, bq_isFull = False,
       bq_size = 2, bq_endOfStream = True, bq_endOfStreamReported = True, bq_signals = 1 \<rparr>,
     b_reader = None, b_writer = Some 0, b_written = [], b_read = [] \<rparr>"

definition b_last :: bsys where
  "b_last = \<lparr> b_queue = \<lparr> bq_buffer = [Some 1, Some 2], bq_head = 0, bq_tail = 0, bq_isFull = False,
       bq_size = 2, bq_endOfStream = False, bq_endOfStreamReported = True, bq_signals = 2 \<rparr>,
     b_reader = Some ([1, 2], 1, 2), b_writer = None, b_written = [1, 2], b_read = [] \<rparr>"

definition b_end :: "bsys res" where
  "b_end =
     (let s2 = after_start b_woken (start_loop (b_queue b_woken)) in
     rbind (byteQueue_writeData (b_queue s2) [1, 2, 3]) (\<lambda>(ok, q3).
     let s3 = s2\<lparr> b_queue := q3, b_written := b_written s2
                @ take (bq_size (b_queue s2) - length (bq_elems (b_queue s2))) [1, 2, 3] \<rparr> in
     rbind (ByteQueue_readData (b_queue s3) 3) (\<lambda>r4. Inr (after_read s3 r4))))"

lemma b_mid_eval: "b_mid = Inr b_woken"
  by code_simp

lemma b_end_eval: "b_end = Inr b_last"
  by code_simp

lemma b_woken_reachable: "b_reachable 2 b_woken"
proof -
  obtain r1 r2 where
    1: "byteQueue_writeStartOfStream (b_queue (b_init 2)) = Inr r1" and
    2: "ByteQueue_readData (b_queue (after_start (b_init 2) r1)) 1 = Inr r2" and
    3: "b_woken = after_read (after_start (b_init 2) r1) r2"
    using b_mid_eval by (auto simp: b_mid_def Let_def res_iff b_init_def)
  have n: "b_writer (b_init 2) = None" "b_reader (after_start (b_init 2) r1) = None"
    by (auto simp: b_init_def after_start_def split: option.splits)
  show ?thesis
    unfolding b_reachable_def 3
    using b_step.start[OF n(1) 1] b_step.request[OF n(2) 2]
    by (meson rtranclp.rtrancl_into_rtrancl rtranclp.rtrancl_refl)
qed

lemma b_last_reachable: "b_reachable 2 b_last"
proof -
  let ?s2 = "after_start b_woken (start_loop (b_queue b_woken))"
  obtain ok q3 r4 where
    3: "byteQueue_writeData (b_queue ?s2) [1, 2, 3] = Inr (ok, q3)" and
    4: "ByteQueue_readData q3 3 = Inr r4" and
    5: "b_last = after_read (?s2\<lparr> b_queue := q3, b_written := b_written ?s2
          @ take (bq_size (b_queue ?s2) - length (bq_elems (b_queue ?s2))) [1, 2, 3] \<rparr>) r4"
    using b_end_eval by (auto simp: b_end_def Let_def res_iff)
  let ?s3 = "?s2\<lparr> b_queue := q3, b_written := b_written ?s2
      @ take (bq_size (b_queue ?s2) - length (bq_elems (b_queue ?s2))) [1, 2, 3] \<rparr>"
  have "b_step b_woken ?s2"
    by (rule b_step.restart[of _ 0]) (simp add: b_woken_def)
  moreover have "b_step ?s2 ?s3"
    by (rule b_step.put[OF _ 3]) (simp add: b_woken_def after_start_def start_loop_def)
  moreover have "b_step ?s3 b_last"
    unfolding 5 using b_step.request[of ?s3 3 r4] 4
    by (simp add: b_woken_def after_start_def start_loop_def)
  ultimately show ?thesis
    using b_woken_reachable unfolding b_reachable_def by (meson rtranclp.rtrancl_into_rtrancl)
qed

theorem byteQueue_stream_preserved_witness:
  "(b_written b_last = [1, 2] @ bq_elems (b_queue b_last) \<and> length (bq_elems (b_queue b_last)) \<le> 2
      \<and> b_calls_ok b_last)
    \<and> start_loop (b_queue b_woken) \<noteq> None \<and> 0 < bq_signals (b_queue b_woken) \<and> b_calls_ok b_woken"
  using byteQueue_stream_preserved[OF b_last_reachable]
    byteQueue_stream_preserved[OF b_woken_reachable]
  by (auto simp: b_last_def b_woken_def start_loop_def)

text \<open>\<open>byteQueue_writeData\<close> on a well-formed queue with an open stream never faults: it appends
  exactly the longest prefix of the data that fits, says whether that was everything, and
  broadcasts once if and only if the queue was empty and there was data.\<close>

theorem byteQueue_writeData_exact:
  assumes "bq_wf bq" and "\<not> byteQueue_isEndOfStream bq"
  shows "\<exists>bq'. byteQueue_writeData bq data = Inr (length data \<le> bq_size bq - length (bq_elems bq), bq')
      \<and> bq_wf bq' \<and> bq_elems bq' = bq_elems bq @ take (bq_size bq - length (bq_elems bq)) data
      \<and> bq_signals bq' = bq_signals bq + (if byteQueue_isEmpty bq \<and> data \<noteq> [] then 1 else 0)"
proof -
  have r: "bq_rep bq (bq_elems bq)" "\<not> bq_endOfStream bq"
    using assms by (auto simp: bq_wf_def byteQueue_isEndOfStream_def)
  show ?thesis
    using writeData_rep[OF r, of data] isEmpty_rep[OF r(1)] by (auto simp: bq_wf_iff bq_rep_elems)
qed

text \<open>A queue of four bytes whose contents wrap around.\<close>

definition bq_wrapped :: sByteQueue where
  "bq_wrapped = \<lparr> bq_buffer = [Some 9, None, None, Some 8], bq_head = 3, bq_tail = 1, bq_isFull = False,
     bq_size = 4, bq_endOfStream = False, bq_endOfStreamReported = True, bq_signals = 5 \<rparr>"

lemma bq_wrapped_facts:
  "bq_wf bq_wrapped" "\<not> byteQueue_isEndOfStream bq_wrapped" "bq_elems bq_wrapped = [8, 9]"
  "byteQueue_isEmpty bq_wrapped = False" "bq_size bq_wrapped = 4" "bq_signals bq_wrapped = 5"
  by code_simp+

theorem byteQueue_writeData_exact_witness:
  "\<exists>bq'. byteQueue_writeData bq_wrapped [1, 2, 3] = Inr (False, bq')
      \<and> bq_wf bq' \<and> bq_elems bq' = [8, 9, 1, 2] \<and> bq_signals bq' = 5"
  using byteQueue_writeData_exact[OF bq_wrapped_facts(1,2), of "[1, 2, 3]"]
  by (simp add: bq_wrapped_facts(3-6))

text \<open>\<open>ByteQueue_readData\<close> on a well-formed queue never faults. It returns exactly the number of
  bytes asked for when the queue holds that many; at an unreported end of stream it returns
  everything there is and marks the end as reported; otherwise it sleeps, holding what it
  already took. The bytes come off the front of the contents.\<close>

theorem ByteQueue_readData_exact:
  assumes "bq_wf bq" and "0 < n"
  shows "\<exists>bq'. ByteQueue_readData bq n = Inr (read_result bq (bq_elems bq) [] n, bq')
      \<and> bq_wf bq' \<and> bq_elems bq' = drop n (bq_elems bq)
      \<and> bq_endOfStream bq' = bq_endOfStream bq
      \<and> bq_endOfStreamReported bq'
          = (bq_endOfStreamReported bq \<or> bq_endOfStream bq \<and> length (bq_elems bq) < n)"
  using read_resume_rep[OF assms(1)[unfolded bq_wf_def], of "[]" n] assms(2)
  by (auto simp: readData_resume bq_wf_iff bq_rep_elems)

theorem ByteQueue_readData_exact_witness:
  "\<exists>bq'. ByteQueue_readData bq_wrapped 3 = Inr (Waiting [8, 9] 1, bq') \<and> bq_wf bq' \<and> bq_elems bq' = []"
proof -
  have "read_result bq_wrapped [8, 9] [] 3 = Waiting [8, 9] 1"
    by (simp add: read_result_def bq_wrapped_def)
  then show ?thesis
    using ByteQueue_readData_exact[OF bq_wrapped_facts(1), of 3] by (auto simp: bq_wrapped_facts(3))
qed

text \<open>written byte by byte into a queue with room and read byte by byte, a stream comes out as it
  went in, after the bytes that were queued before.\<close>

theorem byteQueue_fifo_order:
  assumes "bq_wf bq" and "\<not> byteQueue_isEndOfStream bq"
    and "length (bq_elems bq) + length xs \<le> bq_size bq"
  shows "\<exists>bq'. rbind (rfold bq_enq xs bq) (drain bq_deq (length (bq_elems bq @ xs)))
        = Inr (bq_elems bq @ xs, bq') \<and> bq_wf bq' \<and> bq_elems bq' = []"
  using bytes.fifo_order[of bq xs] assms by (auto simp: byteQueue_isEndOfStream_def)

theorem byteQueue_fifo_order_witness:
  "\<exists>bq'. rbind (rfold bq_enq [5, 6] bq_wrapped) (drain bq_deq 4) = Inr ([8, 9, 5, 6], bq')
      \<and> bq_wf bq' \<and> bq_elems bq' = []"
proof -
  have "length (bq_elems bq_wrapped) + length [5, 6 :: byte] \<le> bq_size bq_wrapped"
    by (simp add: bq_wrapped_facts)
  from byteQueue_fifo_order[OF bq_wrapped_facts(1,2) this] show ?thesis
    by (simp add: bq_wrapped_facts(3) eval_nat_numeral)
qed

end
