(* ===== verification/HashTable.thy ===== *)
theory HashTable
  imports Prelude
begin

section \<open>Hash tables\<close>

text \<open>
  \<open>src/hash.c\<close>: a table of chained buckets whose hash, comparison and destroy functions are the
  client's. A chain is the list of its nodes in the order of the \<open>next\<close> pointers; a node keeps
  its address, because cursors point at it. The hash function's \<open>int\<close> is a 32-bit word, reduced
  modulo the unsigned size; a comparison result of 0 means equal. Cursors live in a store of
  their own with the doubly linked list that each node heads. The per-node semaphores guard the
  cursor lists and are taken and released within one function. Interface \<open>hash_keys\<close>: what a
  client's functions must satisfy for the table to be a finite map.
\<close>

unbundle bit_operations_syntax

subsection \<open>State\<close>

record 'a HiPtr =
  hi_addr :: nat
  hi_data :: 'a
  hi_firstCursor :: "nat option"

record ('a, 'w) Hasht =
  ht_size :: nat
  ht_elementCount :: int
  ht_calcIndx :: "'a \<Rightarrow> 32 word"
  ht_compData :: "'a \<Rightarrow> 'a \<Rightarrow> 32 word"
  ht_destrData :: "('a \<Rightarrow> 'w \<Rightarrow> 'w) option"
  ht_debugLevel :: int
  ht_infoArray :: "'a HiPtr list list"

abbreviation sizeof_Hasht :: nat where "sizeof_Hasht \<equiv> 24"
abbreviation sizeof_HashInfoPtr :: nat where "sizeof_HashInfoPtr \<equiv> 4"

subsection \<open>Operations\<close>

text \<open>The request of \<open>malloc\<close> wraps; the initialising loop then writes behind the block.\<close>

definition HashCreateTable ::
  "allocator \<Rightarrow> nat \<Rightarrow> ('a \<Rightarrow> 32 word) \<Rightarrow> ('a \<Rightarrow> 'a \<Rightarrow> 32 word) \<Rightarrow> ('a \<Rightarrow> 'w \<Rightarrow> 'w) option
   \<Rightarrow> ('a, 'w) Hasht option res" where
  "HashCreateTable avail sz calc cmp destr =
     rbind (rassert (sz \<noteq> 0)) (\<lambda>_.
     (let bytes = sizeof_Hasht + sz * sizeof_HashInfoPtr
      in if \<not> avail (nat (int bytes mod 4294967296)) then Inr None
         else rbind (rguard OutOfBounds (int bytes < 4294967296)) (\<lambda>_.
              Inr (Some \<lparr> ht_size = sz, ht_elementCount = 0, ht_calcIndx = calc, ht_compData = cmp,
                          ht_destrData = destr, ht_debugLevel = 0,
                          ht_infoArray = replicate sz [] \<rparr>))))"

definition HashSetDebug :: "('a, 'w) Hasht \<Rightarrow> int \<Rightarrow> int \<times> ('a, 'w) Hasht" where
  "HashSetDebug ht level = (ht_debugLevel ht, ht\<lparr> ht_debugLevel := level \<rparr>)"

definition hash_index :: "('a, 'w) Hasht \<Rightarrow> 'a \<Rightarrow> nat res" where
  "hash_index ht data =
     rbind (rguard DivByZero (ht_size ht \<noteq> 0)) (\<lambda>_. Inr (unat (ht_calcIndx ht data) mod ht_size ht))"

definition bucket :: "('a, 'w) Hasht \<Rightarrow> nat \<Rightarrow> 'a HiPtr list res" where
  "bucket ht h =
     (if h < length (ht_infoArray ht) then Inr (ht_infoArray ht ! h) else Inl OutOfBounds)"

text \<open>The loop of \<open>FindInfo\<close>: skip the nodes that compare different.\<close>

fun find_loop :: "('a \<Rightarrow> 'a \<Rightarrow> 32 word) \<Rightarrow> 'a \<Rightarrow> 'a HiPtr list \<Rightarrow> 'a HiPtr option" where
  "find_loop cmp data [] = None"
| "find_loop cmp data (tmp # rest) =
     (if cmp data (hi_data tmp) \<noteq> 0 then find_loop cmp data rest else Some tmp)"

definition FindInfo :: "('a, 'w) Hasht \<Rightarrow> 'a \<Rightarrow> nat \<Rightarrow> 'a HiPtr option res" where
  "FindInfo ht data hashval =
     rbind (bucket ht hashval) (\<lambda>chain. Inr (find_loop (ht_compData ht) data chain))"

definition DestroyInfo :: "('a, 'w) Hasht \<Rightarrow> 'a HiPtr \<Rightarrow> 'w \<Rightarrow> 'w res" where
  "DestroyInfo ht rec w =
     rbind (rassert (hi_firstCursor rec = None)) (\<lambda>_.
     Inr (case ht_destrData ht of None \<Rightarrow> w | Some f \<Rightarrow> f (hi_data rec) w))"

definition HashDestroyTable :: "('a, 'w) Hasht \<Rightarrow> 'w \<Rightarrow> 'w res" where
  "HashDestroyTable ht w =
     rfold (\<lambda>i w. rbind (bucket ht i) (\<lambda>chain. rfold (DestroyInfo ht) chain w)) [0..<ht_size ht] w"

definition HashGetElementCount :: "('a, 'w) Hasht \<Rightarrow> int" where
  "HashGetElementCount ht = ht_elementCount ht"

definition HashFind :: "('a, 'w) Hasht \<Rightarrow> 'a \<Rightarrow> 'a option res" where
  "HashFind ht data =
     rbind (rassert (ht_size ht \<noteq> 0)) (\<lambda>_.
     rbind (hash_index ht data) (\<lambda>h.
     rbind (FindInfo ht data h) (\<lambda>tmp. Inr (map_option hi_data tmp))))"

text \<open>
  Unlinking the first node that matches: the head of the chain is tested on its own, then the
  loop looks at the successor of \<open>tmp\<close>. The result is the node and the chain without it.
\<close>

fun unlink_next ::
  "('a \<Rightarrow> 'a \<Rightarrow> 32 word) \<Rightarrow> 'a \<Rightarrow> 'a HiPtr \<Rightarrow> 'a HiPtr list \<Rightarrow> ('a HiPtr \<times> 'a HiPtr list) option" where
  "unlink_next cmp data tmp [] = None"
| "unlink_next cmp data tmp (next # rest) =
     (if cmp (hi_data next) data \<noteq> 0
      then map_option (\<lambda>(x, chain). (x, tmp # chain)) (unlink_next cmp data next rest)
      else Some (next, tmp # rest))"

definition unlink_info ::
  "('a \<Rightarrow> 'a \<Rightarrow> 32 word) \<Rightarrow> 'a \<Rightarrow> 'a HiPtr list \<Rightarrow> ('a HiPtr \<times> 'a HiPtr list) option" where
  "unlink_info cmp data chain =
     (case chain of
        [] \<Rightarrow> None
      | first # rest \<Rightarrow>
          if cmp (hi_data first) data = 0 then Some (first, rest)
          else unlink_next cmp data first rest)"

definition HashDestroy :: "('a, 'w) Hasht \<Rightarrow> 'a \<Rightarrow> 'w \<Rightarrow> (int \<times> ('a, 'w) Hasht \<times> 'w) res" where
  "HashDestroy ht data w =
     rbind (hash_index ht data) (\<lambda>h.
     rbind (bucket ht h) (\<lambda>chain.
     case unlink_info (ht_compData ht) data chain of
       None \<Rightarrow> Inr (0, ht, w)
     | Some (toTrash, chain') \<Rightarrow>
         rbind (DestroyInfo ht toTrash w) (\<lambda>w'.
         rbind (rassert (ht_elementCount ht - 1 \<ge> 0)) (\<lambda>_.
         Inr (1, ht\<lparr> ht_infoArray := (ht_infoArray ht)[h := chain'],
                     ht_elementCount := ht_elementCount ht - 1 \<rparr>, w')))))"

text \<open>\<open>HashDelete\<close> frees the node without looking at its cursors and keeps the data.\<close>

definition HashDelete :: "('a, 'w) Hasht \<Rightarrow> 'a \<Rightarrow> (int \<times> ('a, 'w) Hasht) res" where
  "HashDelete ht data =
     rbind (hash_index ht data) (\<lambda>h.
     rbind (bucket ht h) (\<lambda>chain.
     case unlink_info (ht_compData ht) data chain of
       None \<Rightarrow> Inr (0, ht)
     | Some (toTrash, chain') \<Rightarrow>
         rbind (rassert (ht_elementCount ht - 1 \<ge> 0)) (\<lambda>_.
         Inr (1, ht\<lparr> ht_infoArray := (ht_infoArray ht)[h := chain'],
                     ht_elementCount := ht_elementCount ht - 1 \<rparr>))))"

text \<open>\<open>HashAdd\<close>: \<open>addr\<close> is what \<open>malloc\<close> returns for the node and \<open>semOk\<close> the success of \<open>sem_init\<close>.\<close>

definition HashAdd :: "nat option \<Rightarrow> bool \<Rightarrow> ('a, 'w) Hasht \<Rightarrow> 'a \<Rightarrow> (int \<times> ('a, 'w) Hasht) res" where
  "HashAdd addr semOk ht data =
     rbind (hash_index ht data) (\<lambda>h.
     rbind (FindInfo ht data h) (\<lambda>found.
     if found \<noteq> None then Inr (0, ht)
     else
       (case addr of
          None \<Rightarrow> Inr (0, ht)
        | Some a \<Rightarrow>
            if \<not> semOk then Inr (0, ht)
            else
              rbind (bucket ht h) (\<lambda>chain.
              rbind (iadd (ht_elementCount ht) 1) (\<lambda>count.
              Inr (1, ht\<lparr> ht_infoArray := (ht_infoArray ht)
                           [h := \<lparr> hi_addr = a, hi_data = data, hi_firstCursor = None \<rparr> # chain],
                          ht_elementCount := count \<rparr>))))))"

text \<open>The loop of \<open>HashGetArbitraryElement\<close>: the first bucket that is not empty.\<close>

definition HashGetArbitraryElement :: "('a, 'w) Hasht \<Rightarrow> 'a res" where
  "HashGetArbitraryElement ht =
     rbind (rassert (ht_elementCount ht > 0)) (\<lambda>_.
     (let hashIndex = length (takeWhile (\<lambda>c. c = []) (take (ht_size ht) (ht_infoArray ht)))
      in rbind (rassert (hashIndex < ht_size ht)) (\<lambda>_.
         rbind (bucket ht hashIndex) (\<lambda>chain.
         case chain of [] \<Rightarrow> Inl NullDeref | n # _ \<Rightarrow> Inr (hi_data n)))))"

subsection \<open>Hash functions\<close>

definition char_value :: "char \<Rightarrow> 32 word" where
  "char_value c = scast (of_char c :: 8 word)"

definition HashString :: "string option \<Rightarrow> 32 word" where
  "HashString str =
     (case str of
        None \<Rightarrow> 0
      | Some s \<Rightarrow> fold (\<lambda>c h. push_bit 4 h XOR char_value c) s 0)"

definition tolower :: "char \<Rightarrow> char" where
  "tolower c =
     (if (of_char c :: nat) \<ge> 65 \<and> (of_char c :: nat) \<le> 90 then char_of ((of_char c :: nat) + 32) else c)"

definition HashLowercaseString :: "string option \<Rightarrow> 32 word" where
  "HashLowercaseString str =
     (case str of
        None \<Rightarrow> 0
      | Some s \<Rightarrow> fold (\<lambda>c h. push_bit 4 h XOR char_value (tolower c)) s 0)"

subsection \<open>Cursors\<close>

record sHashTableCursor =
  c_nextCursor :: "nat option"
  c_prevCursor :: "nat option"
  c_hashIndex :: int
  c_element :: "nat option"

type_synonym ('a, 'w) hstate = "('a, 'w) Hasht \<times> (nat \<rightharpoonup> sHashTableCursor)"

text \<open>Following a cursor, and the node at an address; a node that was freed is not found.\<close>

definition cursor_at :: "('a, 'w) hstate \<Rightarrow> nat \<Rightarrow> sHashTableCursor res" where
  "cursor_at s c = (case snd s c of None \<Rightarrow> Inl DanglingPtr | Some x \<Rightarrow> Inr x)"

definition set_cursor :: "nat \<Rightarrow> sHashTableCursor \<Rightarrow> ('a, 'w) hstate \<Rightarrow> ('a, 'w) hstate" where
  "set_cursor c x s = (fst s, (snd s)(c \<mapsto> x))"

definition node_at :: "('a, 'w) hstate \<Rightarrow> nat \<Rightarrow> 'a HiPtr res" where
  "node_at s a =
     (case find (\<lambda>n. hi_addr n = a) (concat (ht_infoArray (fst s))) of
        None \<Rightarrow> Inl DanglingPtr | Some n \<Rightarrow> Inr n)"

definition mark :: "nat \<Rightarrow> nat option \<Rightarrow> 'a HiPtr \<Rightarrow> 'a HiPtr" where
  "mark a p n = (if hi_addr n = a then n\<lparr> hi_firstCursor := p \<rparr> else n)"

definition mark_table :: "nat \<Rightarrow> nat option \<Rightarrow> ('a, 'w) Hasht \<Rightarrow> ('a, 'w) Hasht" where
  "mark_table a p ht = ht\<lparr> ht_infoArray := map (map (mark a p)) (ht_infoArray ht) \<rparr>"

definition set_firstCursor :: "nat \<Rightarrow> nat option \<Rightarrow> ('a, 'w) hstate \<Rightarrow> ('a, 'w) hstate" where
  "set_firstCursor a p s = (mark_table a p (fst s), snd s)"

text \<open>The successor of the node \<open>a\<close> in its chain.\<close>

fun next_in_chain :: "nat \<Rightarrow> 'a HiPtr list \<Rightarrow> nat option" where
  "next_in_chain a [] = None"
| "next_in_chain a (n # ns) =
     (if hi_addr n = a then (case ns of [] \<Rightarrow> None | m # _ \<Rightarrow> Some (hi_addr m)) else next_in_chain a ns)"

definition node_next :: "('a, 'w) hstate \<Rightarrow> nat \<Rightarrow> nat option res" where
  "node_next s a =
     rbind (node_at s a) (\<lambda>_.
     Inr (case find (\<lambda>c. a \<in> hi_addr ` set c) (ht_infoArray (fst s)) of
            None \<Rightarrow> None | Some chain \<Rightarrow> next_in_chain a chain))"

text \<open>
  \<open>removeCursorFromList\<close> in the order of its statements: in the first branch \<open>prevCursor\<close> is
  cleared before the second statement hands it to the successor.
\<close>

definition removeCursorFromList :: "nat \<Rightarrow> ('a, 'w) hstate \<Rightarrow> ('a, 'w) hstate res" where
  "removeCursorFromList c s =
     rbind (cursor_at s c) (\<lambda>cur.
     rbind (rassert (c_element cur \<noteq> None)) (\<lambda>_.
     rbind (deref (c_element cur)) (\<lambda>e.
     rbind (node_at s e) (\<lambda>_.
     rbind (case c_prevCursor cur of
              Some p \<Rightarrow>
                rbind (cursor_at s p) (\<lambda>prev.
                Inr (set_cursor c (cur\<lparr> c_prevCursor := None \<rparr>)
                      (set_cursor p (prev\<lparr> c_nextCursor := c_nextCursor cur \<rparr>) s)))
            | None \<Rightarrow> Inr (set_firstCursor e (c_nextCursor cur) s)) (\<lambda>s1.
     rbind (cursor_at s1 c) (\<lambda>cur1.
     case c_nextCursor cur1 of
       None \<Rightarrow> Inr s1
     | Some n \<Rightarrow>
         rbind (cursor_at s1 n) (\<lambda>nxt.
         (let s2 = set_cursor n (nxt\<lparr> c_prevCursor := c_prevCursor cur1 \<rparr>) s1
          in rbind (cursor_at s2 c) (\<lambda>cur2.
             Inr (set_cursor c (cur2\<lparr> c_nextCursor := None \<rparr>) s2))))))))))"

definition addCursorToList :: "nat \<Rightarrow> ('a, 'w) hstate \<Rightarrow> ('a, 'w) hstate res" where
  "addCursorToList c s =
     rbind (cursor_at s c) (\<lambda>cur.
     rbind (rassert (c_element cur \<noteq> None)) (\<lambda>_.
     rbind (deref (c_element cur)) (\<lambda>e.
     rbind (node_at s e) (\<lambda>node.
     (let s1 = set_firstCursor e (Some c)
                 (set_cursor c (cur\<lparr> c_nextCursor := hi_firstCursor node, c_prevCursor := None \<rparr>) s)
      in case hi_firstCursor node of
           None \<Rightarrow> Inr s1
         | Some n \<Rightarrow>
             rbind (cursor_at s1 n) (\<lambda>nxt.
             Inr (set_cursor n (nxt\<lparr> c_prevCursor := Some c \<rparr>) s1)))))))"

text \<open>The loop of \<open>moveCursorToNextIndex\<close>: the first bucket from \<open>i\<close> on that is not empty.\<close>

function next_bucket :: "('a, 'w) Hasht \<Rightarrow> nat \<Rightarrow> nat res" where
  "next_bucket ht i =
     (if i < ht_size ht
      then rbind (bucket ht i) (\<lambda>chain. if chain = [] then next_bucket ht (Suc i) else Inr i)
      else Inr i)"
  by pat_completeness auto

termination
  by (relation "measure (\<lambda>(ht, i). ht_size ht - i)") auto

declare next_bucket.simps [simp del]

definition moveCursorToNextIndex :: "nat \<Rightarrow> ('a, 'w) hstate \<Rightarrow> ('a, 'w) hstate res" where
  "moveCursorToNextIndex c s =
     rbind (cursor_at s c) (\<lambda>cur.
     rbind (rassert (c_element cur = None)) (\<lambda>_.
     rbind (next_bucket (fst s) (nat (c_hashIndex cur + 1))) (\<lambda>i.
     if i < ht_size (fst s)
     then rbind (bucket (fst s) i) (\<lambda>chain.
          (let elem = (case chain of [] \<Rightarrow> None | n # _ \<Rightarrow> Some (hi_addr n))
           in rbind (rassert (elem \<noteq> None)) (\<lambda>_.
              addCursorToList c (set_cursor c (cur\<lparr> c_hashIndex := int i, c_element := elem \<rparr>) s))))
     else Inr (set_cursor c (cur\<lparr> c_hashIndex := int i, c_element := None \<rparr>) s))))"

definition HashCursorGoFirst :: "nat \<Rightarrow> ('a, 'w) hstate \<Rightarrow> ('a, 'w) hstate res" where
  "HashCursorGoFirst c s =
     rbind (cursor_at s c) (\<lambda>cur.
     rbind (if c_element cur \<noteq> None then removeCursorFromList c s else Inr s) (\<lambda>s1.
     rbind (cursor_at s1 c) (\<lambda>cur1.
     moveCursorToNextIndex c (set_cursor c (cur1\<lparr> c_element := None, c_hashIndex := -1 \<rparr>) s1))))"

text \<open>\<open>HashCursorCreate\<close>: \<open>addr\<close> is the cursor's address from \<open>malloc\<close>.\<close>

definition HashCursorCreate :: "nat option \<Rightarrow> ('a, 'w) hstate \<Rightarrow> (nat option \<times> ('a, 'w) hstate) res" where
  "HashCursorCreate addr s =
     (case addr of
        None \<Rightarrow> Inr (None, s)
      | Some c \<Rightarrow>
          rbind (HashCursorGoFirst c
                   (set_cursor c \<lparr> c_nextCursor = None, c_prevCursor = None, c_hashIndex = 0,
                                   c_element = None \<rparr> s))
            (\<lambda>s1. Inr (Some c, s1)))"

definition HashCursorDestroy :: "nat \<Rightarrow> ('a, 'w) hstate \<Rightarrow> ('a, 'w) hstate res" where
  "HashCursorDestroy c s =
     rbind (cursor_at s c) (\<lambda>cur.
     rbind (if c_element cur \<noteq> None then removeCursorFromList c s else Inr s) (\<lambda>s1.
     Inr (fst s1, (snd s1)(c := None))))"

definition HashCursorGoNext :: "nat \<Rightarrow> ('a, 'w) hstate \<Rightarrow> ('a, 'w) hstate res" where
  "HashCursorGoNext c s =
     rbind (cursor_at s c) (\<lambda>cur.
     rbind (deref (c_element cur)) (\<lambda>e.
     rbind (node_next s e) (\<lambda>nxt.
     rbind (removeCursorFromList c s) (\<lambda>s1.
     rbind (cursor_at s1 c) (\<lambda>cur1.
     case nxt of
       None \<Rightarrow> moveCursorToNextIndex c (set_cursor c (cur1\<lparr> c_element := None \<rparr>) s1)
     | Some a \<Rightarrow> addCursorToList c (set_cursor c (cur1\<lparr> c_element := Some a \<rparr>) s1))))))"

definition HashCursorPastLastElement :: "nat \<Rightarrow> ('a, 'w) hstate \<Rightarrow> bool res" where
  "HashCursorPastLastElement c s =
     rbind (cursor_at s c) (\<lambda>cur. Inr (c_hashIndex cur \<ge> int (ht_size (fst s))))"

definition HashCursorGetElement :: "nat \<Rightarrow> ('a, 'w) hstate \<Rightarrow> 'a res" where
  "HashCursorGetElement c s =
     rbind (cursor_at s c) (\<lambda>cur.
     rbind (rassert (c_element cur \<noteq> None)) (\<lambda>_.
     rbind (deref (c_element cur)) (\<lambda>e.
     rbind (node_at s e) (\<lambda>n. Inr (hi_data n)))))"

subsection \<open>Invariant and abstraction\<close>

definition keys_differ :: "('a \<Rightarrow> 'a \<Rightarrow> 32 word) \<Rightarrow> 'a HiPtr list \<Rightarrow> bool" where
  "keys_differ cmp chain \<longleftrightarrow> sorted_wrt (\<lambda>m n. cmp (hi_data m) (hi_data n) \<noteq> 0) chain"

text \<open>
  Every node is in the bucket of its hash value, no two nodes of a bucket compare equal, and
  \<open>elementCount\<close> is the number of nodes.
\<close>

definition ht_wf :: "('a, 'w) Hasht \<Rightarrow> bool" where
  "ht_wf ht \<longleftrightarrow>
     0 < ht_size ht \<and> length (ht_infoArray ht) = ht_size ht
     \<and> (\<forall>i < ht_size ht.
          list_all (\<lambda>n. unat (ht_calcIndx ht (hi_data n)) mod ht_size ht = i) (ht_infoArray ht ! i)
          \<and> keys_differ (ht_compData ht) (ht_infoArray ht ! i))
     \<and> ht_elementCount ht = int (length (concat (ht_infoArray ht)))"

definition ht_slot :: "('a, 'w) Hasht \<Rightarrow> 'a \<Rightarrow> nat" where
  "ht_slot ht k = unat (ht_calcIndx ht k) mod ht_size ht"

definition ht_lookup :: "('a, 'w) Hasht \<Rightarrow> 'a \<Rightarrow> 'a option" where
  "ht_lookup ht k = map_option hi_data (find_loop (ht_compData ht) k (ht_infoArray ht ! ht_slot ht k))"

definition ht_elems :: "('a, 'w) Hasht \<Rightarrow> 'a list" where
  "ht_elems ht = map hi_data (concat (ht_infoArray ht))"

definition ht_for :: "('a \<Rightarrow> 32 word) \<Rightarrow> ('a \<Rightarrow> 'a \<Rightarrow> 32 word) \<Rightarrow> ('a, 'w) Hasht \<Rightarrow> bool" where
  "ht_for calc cmp ht \<longleftrightarrow> ht_wf ht \<and> ht_calcIndx ht = calc \<and> ht_compData ht = cmp"

subsection \<open>Lemmas\<close>

lemma ht_slot_less: "ht_wf ht \<Longrightarrow> ht_slot ht k < ht_size ht"
  by (simp add: ht_wf_def ht_slot_def)

lemma hash_index_wf: "ht_wf ht \<Longrightarrow> hash_index ht k = Inr (ht_slot ht k)"
  by (simp add: hash_index_def ht_wf_def ht_slot_def)

lemma bucket_wf: "ht_wf ht \<Longrightarrow> bucket ht (ht_slot ht k) = Inr (ht_infoArray ht ! ht_slot ht k)"
  using ht_slot_less[of ht k] by (simp add: bucket_def ht_wf_def)

lemma HashFind_wf: "ht_wf ht \<Longrightarrow> HashFind ht k = Inr (ht_lookup ht k)"
  by (simp add: HashFind_def hash_index_wf FindInfo_def bucket_wf ht_lookup_def)
    (simp add: ht_wf_def)

lemma find_loop_None: "find_loop cmp k chain = None \<longleftrightarrow> (\<forall>n \<in> set chain. cmp k (hi_data n) \<noteq> 0)"
  by (induction chain) auto

lemma find_loop_Some: "find_loop cmp k chain = Some n \<Longrightarrow> n \<in> set chain \<and> cmp k (hi_data n) = 0"
  by (induction chain) (auto split: if_splits)

lemma find_loop_append:
  "find_loop cmp k (xs @ ys) = (case find_loop cmp k xs of None \<Rightarrow> find_loop cmp k ys | Some n \<Rightarrow> Some n)"
  by (induction xs) auto

text \<open>The two-phase unlinking is one search for the first match.\<close>

lemma unlink_next_info:
  "unlink_next cmp d tmp rest = map_option (\<lambda>(x, chain). (x, tmp # chain)) (unlink_info cmp d rest)"
  by (cases rest) (simp_all add: unlink_info_def)

lemma unlink_info_simps [simp]:
  "unlink_info cmp d [] = None"
  "unlink_info cmp d (n # ns) =
     (if cmp (hi_data n) d = 0 then Some (n, ns)
      else map_option (\<lambda>(x, chain). (x, n # chain)) (unlink_info cmp d ns))"
  by (simp_all add: unlink_info_def[of _ _ "[]"] unlink_info_def[of _ _ "n # ns"] unlink_next_info)

lemma unlink_info_None: "unlink_info cmp d chain = None \<longleftrightarrow> (\<forall>n \<in> set chain. cmp (hi_data n) d \<noteq> 0)"
  by (induction chain) auto

lemma unlink_info_split:
  "unlink_info cmp d chain = Some (x, chain') \<Longrightarrow>
   \<exists>ps qs. chain = ps @ x # qs \<and> chain' = ps @ qs \<and> cmp (hi_data x) d = 0
     \<and> (\<forall>n \<in> set ps. cmp (hi_data n) d \<noteq> 0)"
proof (induction chain arbitrary: chain')
  case (Cons n ns)
  show ?case
  proof (cases "cmp (hi_data n) d = 0")
    case True
    then show ?thesis using Cons.prems by (intro exI[of _ "[]"] exI[of _ ns]) auto
  next
    case False
    with Cons.prems obtain c where c: "unlink_info cmp d ns = Some (x, c)" "chain' = n # c" by auto
    then obtain ps qs where "ns = ps @ x # qs" "c = ps @ qs" "cmp (hi_data x) d = 0"
        "\<forall>n \<in> set ps. cmp (hi_data n) d \<noteq> 0"
      using Cons.IH by blast
    then show ?thesis using False c(2) by (intro exI[of _ "n # ps"] exI[of _ qs]) auto
  qed
qed simp

lemma length_concat_update:
  "i < length xss \<Longrightarrow>
   int (length (concat (xss[i := ys]))) = int (length (concat xss)) - int (length (xss ! i)) + int (length ys)"
proof (induction xss arbitrary: i)
  case (Cons xs xss)
  then show ?case by (cases i) auto
qed simp

lemma mset_concat_update:
  assumes "i < length xss"
  shows "mset (concat (xss[i := ys])) + mset (xss ! i) = mset (concat xss) + mset ys"
  using assms
proof (induction xss arbitrary: i)
  case (Cons xs xss)
  then show ?case by (cases i) (auto simp: algebra_simps)
qed simp

text \<open>Replacing one bucket keeps the invariant if the new chain satisfies it and is counted.\<close>

lemma ht_wf_replace:
  assumes wf: "ht_wf ht" and i: "i < ht_size ht"
    and "list_all (\<lambda>n. ht_slot ht (hi_data n) = i) chain" and "keys_differ (ht_compData ht) chain"
    and "c = ht_elementCount ht - int (length (ht_infoArray ht ! i)) + int (length chain)"
  shows "ht_wf (ht\<lparr> ht_infoArray := (ht_infoArray ht)[i := chain], ht_elementCount := c \<rparr>)"
proof -
  have "c = int (length (concat ((ht_infoArray ht)[i := chain])))"
    using length_concat_update[of i "ht_infoArray ht" chain] wf i assms(5) by (simp add: ht_wf_def)
  then show ?thesis
    using wf i assms(3,4) by (auto simp: ht_wf_def ht_slot_def nth_list_update)
qed

subsection \<open>The interface to the client's functions\<close>

text \<open>
  Comparing equal is an equivalence and equal data have equal hash values. Inside, the table
  is a finite map from data to the stored equal element.
\<close>

locale hash_keys =
  fixes calc :: "'a \<Rightarrow> 32 word"
    and cmp :: "'a \<Rightarrow> 'a \<Rightarrow> 32 word"
  assumes cmp_refl: "cmp x x = 0"
    and cmp_sym: "cmp x y = 0 \<Longrightarrow> cmp y x = 0"
    and cmp_trans: "cmp x y = 0 \<Longrightarrow> cmp y z = 0 \<Longrightarrow> cmp x z = 0"
    and calc_cong: "cmp x y = 0 \<Longrightarrow> calc x = calc y"
begin

lemma lookup_Some: "ht_for calc cmp ht \<Longrightarrow> ht_lookup ht k = Some x \<Longrightarrow> cmp k x = 0 \<and> x \<in> set (ht_elems ht)"
  using ht_slot_less[of ht k]
  by (auto simp: ht_for_def ht_lookup_def ht_elems_def ht_wf_def dest!: find_loop_Some)
    (metis UN_iff nth_mem set_concat image_eqI)+

text \<open>A lookup finds exactly the element that compares equal.\<close>

lemma lookup_Some_iff:
  assumes "ht_for calc cmp ht"
  shows "ht_lookup ht k = Some x \<longleftrightarrow> x \<in> set (ht_elems ht) \<and> cmp k x = 0"
proof
  assume "ht_lookup ht k = Some x"
  then show "x \<in> set (ht_elems ht) \<and> cmp k x = 0" using lookup_Some[OF assms] by blast
next
  assume x: "x \<in> set (ht_elems ht) \<and> cmp k x = 0"
  have t: "ht_wf ht" "ht_calcIndx ht = calc" "ht_compData ht = cmp" using assms by (auto simp: ht_for_def)
  obtain i n where i: "i < ht_size ht" "n \<in> set (ht_infoArray ht ! i)" "hi_data n = x"
    using x t(1) by (fastforce simp: ht_elems_def ht_wf_def in_set_conv_nth)
  have "calc k = calc x" using x calc_cong by blast
  then have slot: "ht_slot ht k = i"
    using t i by (auto simp: ht_slot_def ht_wf_def list_all_iff)
  have kd: "keys_differ cmp (ht_infoArray ht ! i)" using t i by (auto simp: ht_wf_def)
  have "find_loop cmp k chain = Some n" if "n \<in> set chain" "keys_differ cmp chain" for chain
    using that
  proof (induction chain)
    case (Cons m ms)
    then show ?case
      using x i(3) cmp_sym cmp_trans[of "hi_data m" k x] by (auto simp: keys_differ_def)
  qed simp
  then show "ht_lookup ht k = Some x" using slot kd i t by (simp add: ht_lookup_def)
qed

lemma lookup_None_cong:
  assumes "ht_for calc cmp ht" and "ht_lookup ht d = None" and "cmp k d = 0"
  shows "ht_lookup ht k = None"
proof -
  have "ht_slot ht k = ht_slot ht d"
    using calc_cong[OF assms(3)] assms(1) by (simp add: ht_slot_def ht_for_def)
  moreover have "cmp k x \<noteq> 0" if "cmp d x \<noteq> 0" for x
    using that assms(3) cmp_sym cmp_trans by metis
  ultimately show ?thesis
    using assms(1,2) by (simp add: ht_lookup_def ht_for_def find_loop_None)
qed

lemma add_fresh:
  assumes "ht_for calc cmp ht" and "ht_lookup ht d = None" and "ht_elementCount ht < INT_MAX"
  shows "\<exists>ht'. HashAdd (Some a) True ht d = Inr (1, ht') \<and> ht_for calc cmp ht'
      \<and> (\<forall>k. ht_lookup ht' k = (if cmp k d = 0 then Some d else ht_lookup ht k))
      \<and> ht_elementCount ht' = ht_elementCount ht + 1
      \<and> mset (ht_elems ht') = add_mset d (mset (ht_elems ht))"
proof -
  let ?i = "ht_slot ht d"
  let ?n = "\<lparr> hi_addr = a, hi_data = d, hi_firstCursor = None \<rparr>"
  let ?c = "?n # ht_infoArray ht ! ?i"
  define ht' where "ht' = ht\<lparr> ht_infoArray := (ht_infoArray ht)[?i := ?c],
      ht_elementCount := ht_elementCount ht + 1 \<rparr>"
  have wf: "ht_wf ht" and f: "ht_calcIndx ht = calc" "ht_compData ht = cmp"
    using assms(1) by (auto simp: ht_for_def)
  have i: "?i < ht_size ht" using ht_slot_less[OF wf] .
  have l: "length (ht_infoArray ht) = ht_size ht" using wf by (simp add: ht_wf_def)
  have none: "find_loop cmp d (ht_infoArray ht ! ?i) = None"
    using assms(2) f by (simp add: ht_lookup_def)
  then have "ht_wf ht'"
    unfolding ht'_def using wf i f
    by (intro ht_wf_replace) (auto simp: keys_differ_def find_loop_None ht_wf_def ht_slot_def)
  moreover have "ht_lookup ht' k = (if cmp k d = 0 then Some d else ht_lookup ht k)" for k
    using i l f calc_cong[of k d] by (auto simp: ht'_def ht_lookup_def ht_slot_def nth_list_update)
  moreover have "0 \<le> ht_elementCount ht" using wf by (simp add: ht_wf_def)
  then have "HashAdd (Some a) True ht d = Inr (1, ht')"
    using wf none f assms(3)
    by (simp add: HashAdd_def hash_index_wf FindInfo_def bucket_wf ht'_def in_int_def)
  moreover have "mset (ht_elems ht') = add_mset d (mset (ht_elems ht))"
    using mset_concat_update[of ?i "ht_infoArray ht" ?c] i l
    by (simp add: ht'_def ht_elems_def flip: image_mset_union)
  ultimately show ?thesis using f by (auto simp: ht_for_def ht'_def)
qed

lemma add_present:
  assumes "ht_for calc cmp ht" and "ht_lookup ht d = Some x"
  shows "HashAdd addr semOk ht d = Inr (0, ht)"
  using assms by (auto simp: ht_for_def HashAdd_def hash_index_wf FindInfo_def bucket_wf ht_lookup_def)

text \<open>Taking the matching node out of its bucket: the map without the key.\<close>

lemma unlink_map:
  assumes ht: "ht_for calc cmp ht" and u: "unlink_info cmp d (ht_infoArray ht ! ht_slot ht d) = Some (x, chain')"
  defines "ht' \<equiv> ht\<lparr> ht_infoArray := (ht_infoArray ht)[ht_slot ht d := chain'],
      ht_elementCount := ht_elementCount ht - 1 \<rparr>"
  shows "ht_for calc cmp ht'" "ht_lookup ht d = Some (hi_data x)" "1 \<le> ht_elementCount ht"
    "ht_lookup ht' k = (if cmp k d = 0 then None else ht_lookup ht k)"
    "mset (ht_elems ht) = add_mset (hi_data x) (mset (ht_elems ht'))"
proof -
  let ?i = "ht_slot ht d"
  have wf: "ht_wf ht" and f: "ht_calcIndx ht = calc" "ht_compData ht = cmp"
    using ht by (auto simp: ht_for_def)
  have i: "?i < ht_size ht" using ht_slot_less[OF wf] .
  have l: "length (ht_infoArray ht) = ht_size ht" using wf by (simp add: ht_wf_def)
  obtain ps qs where c: "ht_infoArray ht ! ?i = ps @ x # qs" "chain' = ps @ qs" "cmp (hi_data x) d = 0"
      "\<forall>n \<in> set ps. cmp (hi_data n) d \<noteq> 0"
    using unlink_info_split[OF u] by blast
  have old: "list_all (\<lambda>n. ht_slot ht (hi_data n) = ?i) (ps @ x # qs)" "keys_differ cmp (ps @ x # qs)"
    using wf i c(1) f by (auto simp: ht_wf_def ht_slot_def)
  then have new: "list_all (\<lambda>n. ht_slot ht (hi_data n) = ?i) chain'" "keys_differ cmp chain'"
    using c(2) by (auto simp: keys_differ_def sorted_wrt_append)
  show "ht_for calc cmp ht'"
    using ht_wf_replace[OF wf i new(1), of "ht_elementCount ht - 1"] new(2) c(1,2) f
    by (simp add: ht_for_def ht'_def)
  show "ht_lookup ht d = Some (hi_data x)"
    using c f cmp_sym by (auto simp: ht_lookup_def find_loop_append find_loop_None split: option.split
        dest!: find_loop_Some)
  have "ht_infoArray ht ! ?i \<in> set (ht_infoArray ht)" "x \<in> set (ht_infoArray ht ! ?i)"
    using nth_mem[of ?i "ht_infoArray ht"] i l c(1) by auto
  then have "0 < length (concat (ht_infoArray ht))"
    by (intro length_pos_if_in_set[of x]) auto
  then have "1 \<le> int (length (concat (ht_infoArray ht)))" by linarith
  then show "1 \<le> ht_elementCount ht" using wf unfolding ht_wf_def by metis
  have "mset (concat (ht_infoArray ht)) = add_mset x (mset (concat ((ht_infoArray ht)[?i := chain'])))"
    using mset_concat_update[of ?i "ht_infoArray ht" chain'] i l c(1,2) by simp
  then show "mset (ht_elems ht) = add_mset (hi_data x) (mset (ht_elems ht'))"
    by (simp add: ht'_def ht_elems_def)
  have other: "cmp (hi_data n) d \<noteq> 0" if "n \<in> set chain'" for n
  proof -
    have "n \<in> set ps \<or> n \<in> set qs" using that c(2) by simp
    moreover have "cmp (hi_data x) (hi_data n) \<noteq> 0" if "n \<in> set qs"
      using old(2) that by (auto simp: keys_differ_def sorted_wrt_append)
    ultimately show ?thesis using c(3,4) cmp_trans[of "hi_data x" d "hi_data n"] cmp_sym by blast
  qed
  show "ht_lookup ht' k = (if cmp k d = 0 then None else ht_lookup ht k)"
  proof (cases "ht_slot ht k = ?i")
    case True
    have "find_loop cmp k chain' = (if cmp k d = 0 then None else find_loop cmp k (ps @ x # qs))"
    proof (cases "cmp k d = 0")
      case True
      then have "\<forall>n \<in> set chain'. cmp k (hi_data n) \<noteq> 0" using other by (metis cmp_sym cmp_trans)
      then show ?thesis using True by (simp add: find_loop_None)
    next
      case False
      then have "cmp k (hi_data x) \<noteq> 0" using c(3) by (metis cmp_trans)
      then show ?thesis using False c(2) by (simp add: find_loop_append split: option.split)
    qed
    then show ?thesis
      using True i l f c(1) by (simp add: ht_lookup_def ht'_def ht_slot_def)
  next
    case False
    then have "cmp k d \<noteq> 0" using calc_cong[of k d] f by (auto simp: ht_slot_def)
    then show ?thesis using False f by (simp add: ht_lookup_def ht'_def ht_slot_def)
  qed
qed

lemma delete_present:
  assumes "ht_for calc cmp ht" and "ht_lookup ht d = Some x"
  shows "\<exists>ht'. HashDelete ht d = Inr (1, ht') \<and> ht_for calc cmp ht'
      \<and> (\<forall>k. ht_lookup ht' k = (if cmp k d = 0 then None else ht_lookup ht k))
      \<and> ht_elementCount ht' = ht_elementCount ht - 1
      \<and> mset (ht_elems ht) = add_mset x (mset (ht_elems ht'))"
proof -
  have wf: "ht_wf ht" and f: "ht_calcIndx ht = calc" "ht_compData ht = cmp"
    using assms(1) by (auto simp: ht_for_def)
  have "unlink_info cmp d (ht_infoArray ht ! ht_slot ht d) \<noteq> None"
    using assms(2) f cmp_sym by (auto simp: unlink_info_None ht_lookup_def dest!: find_loop_Some)
  then obtain n c where u: "unlink_info cmp d (ht_infoArray ht ! ht_slot ht d) = Some (n, c)" by auto
  note m = unlink_map[OF assms(1) u]
  have x: "x = hi_data n" using m(2) assms(2) by simp
  show ?thesis
    using m wf f u x by (simp add: HashDelete_def hash_index_wf bucket_wf)
qed

lemma delete_absent:
  assumes "ht_for calc cmp ht" and "ht_lookup ht d = None"
  shows "HashDelete ht d = Inr (0, ht)"
proof -
  have wf: "ht_wf ht" and f: "ht_calcIndx ht = calc" "ht_compData ht = cmp"
    using assms(1) by (auto simp: ht_for_def)
  have "unlink_info cmp d (ht_infoArray ht ! ht_slot ht d) = None"
    using assms(2) f cmp_sym by (auto simp: unlink_info_None ht_lookup_def find_loop_None)
  then show ?thesis using wf f by (simp add: HashDelete_def hash_index_wf bucket_wf)
qed

end

subsection \<open>Traversal with one cursor\<close>

text \<open>The loop that clients write: read the element and go on until past the last one.\<close>

fun cursor_collect :: "nat \<Rightarrow> nat \<Rightarrow> ('a, 'w) hstate \<Rightarrow> ('a list \<times> ('a, 'w) hstate) res" where
  "cursor_collect 0 c s = Inl OutOfFuel"
| "cursor_collect (Suc fuel) c s =
     rbind (HashCursorPastLastElement c s) (\<lambda>past.
     if past then Inr ([], s)
     else rbind (HashCursorGetElement c s) (\<lambda>x.
          rbind (HashCursorGoNext c s) (\<lambda>s1.
          rbind (cursor_collect fuel c s1) (\<lambda>(xs, s2). Inr (x # xs, s2)))))"

text \<open>A table no cursor points into, with every node at an address of its own.\<close>

definition ht_clean :: "('a, 'w) Hasht \<Rightarrow> bool" where
  "ht_clean ht \<longleftrightarrow> length (ht_infoArray ht) = ht_size ht
     \<and> distinct (map hi_addr (concat (ht_infoArray ht)))
     \<and> list_all (\<lambda>n. hi_firstCursor n = None) (concat (ht_infoArray ht))"

text \<open>The only cursor is on the node \<open>n\<close> of bucket \<open>i\<close>, which is the node's only cursor.\<close>

definition cursor_on ::
  "nat \<Rightarrow> ('a, 'w) hstate \<Rightarrow> ('a, 'w) Hasht \<Rightarrow> nat \<Rightarrow> 'a HiPtr list \<Rightarrow> 'a HiPtr \<Rightarrow> 'a HiPtr list \<Rightarrow> bool" where
  "cursor_on c s ht i xs n ys \<longleftrightarrow>
     i < ht_size ht \<and> ht_infoArray ht ! i = xs @ n # ys
     \<and> fst s = mark_table (hi_addr n) (Some c) ht
     \<and> snd s c = Some \<lparr> c_nextCursor = None, c_prevCursor = None, c_hashIndex = int i,
                        c_element = Some (hi_addr n) \<rparr>"

definition cursor_past :: "nat \<Rightarrow> ('a, 'w) hstate \<Rightarrow> ('a, 'w) Hasht \<Rightarrow> bool" where
  "cursor_past c s ht \<longleftrightarrow> fst s = ht
     \<and> snd s c = Some \<lparr> c_nextCursor = None, c_prevCursor = None, c_hashIndex = int (ht_size ht),
                        c_element = None \<rparr>"

lemma hi_mark [simp]:
  "hi_addr (mark a p n) = hi_addr n" "hi_data (mark a p n) = hi_data n"
  by (simp_all add: mark_def)

lemma mark_table_simps [simp]:
  "ht_size (mark_table a p ht) = ht_size ht"
  "ht_infoArray (mark_table a p ht) = map (map (mark a p)) (ht_infoArray ht)"
  by (simp_all add: mark_table_def)

lemma mark_mark [simp]: "mark a p (mark a q n) = mark a p n"
  by (simp add: mark_def)

lemma mark_id: "hi_firstCursor n = None \<Longrightarrow> mark a None n = n"
  by (simp add: mark_def)

lemma mark_table_clean:
  assumes "ht_clean ht"
  shows "mark_table a None (mark_table a p ht) = ht"
proof -
  have "mark a None n = n" if "c \<in> set (ht_infoArray ht)" "n \<in> set c" for c n
    using assms that by (intro mark_id) (auto simp: ht_clean_def list_all_iff)
  then have "map (map (mark a None)) (ht_infoArray ht) = ht_infoArray ht"
    by (auto intro!: map_idI)
  then show ?thesis by (simp add: mark_table_def comp_def)
qed

lemma find_addr:
  "distinct (map hi_addr ns) \<Longrightarrow> n \<in> set ns \<Longrightarrow> find (\<lambda>m. hi_addr m = hi_addr n) ns = Some n"
  by (induction ns) auto

lemma node_at_marked:
  assumes "ht_clean ht" and "n \<in> set (concat (ht_infoArray ht))"
  shows "node_at (mark_table a p ht, cs) (hi_addr n) = Inr (mark a p n)"
proof -
  have "find (\<lambda>m. hi_addr m = hi_addr (mark a p n)) (concat (map (map (mark a p)) (ht_infoArray ht)))
      = Some (mark a p n)"
    using assms by (intro find_addr) (auto simp: ht_clean_def map_concat comp_def)
  then show ?thesis by (simp add: node_at_def)
qed

lemma node_at_clean:
  "ht_clean ht \<Longrightarrow> n \<in> set (concat (ht_infoArray ht)) \<Longrightarrow> node_at (ht, cs) (hi_addr n) = Inr n"
  using find_addr[of "concat (ht_infoArray ht)" n] by (simp add: ht_clean_def node_at_def)

lemma in_concat_nth: "i < length xss \<Longrightarrow> x \<in> set (xss ! i) \<Longrightarrow> x \<in> set (concat xss)"
  by auto

lemma next_in_chain_split:
  "distinct (map hi_addr (xs @ n # ys)) \<Longrightarrow>
   next_in_chain (hi_addr n) (xs @ n # ys) = (case ys of [] \<Rightarrow> None | m # _ \<Rightarrow> Some (hi_addr m))"
  by (induction xs) auto

lemma distinct_map_nth: "distinct (map f (concat css)) \<Longrightarrow> i < length css \<Longrightarrow> distinct (map f (css ! i))"
  by (induction css arbitrary: i) (auto simp: nth_Cons split: nat.splits)

lemma find_chain:
  assumes "distinct (map hi_addr (concat css))" and "i < length css" and "n \<in> set (css ! i)"
  shows "find (\<lambda>c. hi_addr n \<in> hi_addr ` set c) css = Some (css ! i)"
  using assms
proof (induction css arbitrary: i)
  case (Cons c css)
  show ?case
  proof (cases i)
    case (Suc j)
    then have "n \<in> set (concat css)" using Cons.prems in_concat_nth[of j css n] by simp
    then have "hi_addr n \<notin> hi_addr ` set c" using Cons.prems(1) by auto
    then show ?thesis using Suc Cons by simp
  qed (use Cons.prems in auto)
qed simp

lemma node_next_marked:
  assumes cl: "ht_clean ht" and i: "i < ht_size ht" "ht_infoArray ht ! i = xs @ n # ys"
  shows "node_next (mark_table a p ht, cs) (hi_addr n) = Inr (case ys of [] \<Rightarrow> None | m # _ \<Rightarrow> Some (hi_addr m))"
proof -
  let ?css = "map (map (mark a p)) (ht_infoArray ht)"
  have l: "length (ht_infoArray ht) = ht_size ht" using cl by (simp add: ht_clean_def)
  then have n: "n \<in> set (concat (ht_infoArray ht))"
    using i in_concat_nth[of i "ht_infoArray ht" n] by simp
  have d: "distinct (map hi_addr (concat ?css))"
    using cl by (simp add: ht_clean_def map_concat comp_def)
  have "?css ! i = map (mark a p) xs @ mark a p n # map (mark a p) ys" using i l by simp
  moreover have "find (\<lambda>c. hi_addr (mark a p n) \<in> hi_addr ` set c) ?css = Some (?css ! i)"
    using d i l by (intro find_chain) auto
  moreover have "distinct (map hi_addr (?css ! i))"
    using d i l by (intro distinct_map_nth) simp_all
  ultimately show ?thesis
    using next_in_chain_split[of "map (mark a p) xs" "mark a p n" "map (mark a p) ys"]
      node_at_marked[OF cl n] by (cases ys) (auto simp: node_next_def)
qed

text \<open>The two list operations when there is one cursor.\<close>

lemma addCursor_clean:
  assumes cl: "ht_clean ht" and n: "n \<in> set (concat (ht_infoArray ht))"
    and c: "cs c = Some cur" "c_element cur = Some (hi_addr n)"
  shows "addCursorToList c (ht, cs)
      = Inr (mark_table (hi_addr n) (Some c) ht,
          cs(c \<mapsto> cur\<lparr> c_nextCursor := None, c_prevCursor := None \<rparr>))"
proof -
  have "hi_firstCursor n = None" using cl n by (auto simp: ht_clean_def list_all_iff)
  then show ?thesis
    using c node_at_clean[OF cl n, of cs]
    by (simp add: addCursorToList_def cursor_at_def set_firstCursor_def set_cursor_def Let_def)
qed

lemma node_at_on:
  assumes cl: "ht_clean ht" and on: "cursor_on c s ht i xs n ys"
  shows "node_at s (hi_addr n) = Inr (mark (hi_addr n) (Some c) n)"
proof -
  have "n \<in> set (concat (ht_infoArray ht))"
    using on cl in_concat_nth[of i "ht_infoArray ht" n] by (simp add: cursor_on_def ht_clean_def)
  moreover have "s = (mark_table (hi_addr n) (Some c) ht, snd s)"
    using on by (simp add: cursor_on_def prod_eq_iff)
  ultimately show ?thesis using node_at_marked[OF cl] by metis
qed

lemma removeCursor_on:
  assumes cl: "ht_clean ht" and on: "cursor_on c s ht i xs n ys"
  shows "removeCursorFromList c s = Inr (ht, snd s)"
  using on mark_table_clean[OF cl] node_at_on[OF cl on]
  by (simp add: removeCursorFromList_def cursor_at_def cursor_on_def set_firstCursor_def)

lemma next_bucket_spec:
  assumes "length (ht_infoArray ht) = ht_size ht" and "i \<le> ht_size ht"
  shows "\<exists>j. next_bucket ht i = Inr j \<and> i \<le> j \<and> j \<le> ht_size ht
      \<and> concat (drop j (ht_infoArray ht)) = concat (drop i (ht_infoArray ht))
      \<and> (j < ht_size ht \<longrightarrow> ht_infoArray ht ! j \<noteq> [])"
  using assms(2)
proof (induction "ht_size ht - i" arbitrary: i)
  case 0
  then show ?case by (subst next_bucket.simps) auto
next
  case (Suc k)
  then have i: "i < ht_size ht" by simp
  show ?case
  proof (cases "ht_infoArray ht ! i = []")
    case True
    then have "next_bucket ht i = next_bucket ht (Suc i)"
      using i assms(1) by (subst next_bucket.simps) (simp add: bucket_def)
    moreover have "concat (drop i (ht_infoArray ht)) = concat (drop (Suc i) (ht_infoArray ht))"
      using True i assms(1) by (metis Cons_nth_drop_Suc concat.simps(2) append_Nil)
    moreover have "k = ht_size ht - Suc i" "Suc i \<le> ht_size ht" using Suc.hyps(2) by auto
    ultimately show ?thesis using Suc.hyps(1)[of "Suc i"] by (metis Suc_leD)
  next
    case False
    then show ?thesis
      using i assms(1) by (subst next_bucket.simps) (auto simp: bucket_def)
  qed
qed

text \<open>Moving on to the next bucket that is not empty: on its first node or past the end.\<close>

lemma moveCursor_next:
  assumes cl: "ht_clean ht" and i: "i \<le> ht_size ht"
    and c: "cs c = Some \<lparr> c_nextCursor = None, c_prevCursor = None, c_hashIndex = int i - 1, c_element = None \<rparr>"
  shows "\<exists>s'. moveCursorToNextIndex c (ht, cs) = Inr s' \<and>
      (concat (drop i (ht_infoArray ht)) = [] \<and> cursor_past c s' ht
       \<or> (\<exists>j n ys. cursor_on c s' ht j [] n ys
            \<and> concat (drop i (ht_infoArray ht)) = n # ys @ concat (drop (Suc j) (ht_infoArray ht))))"
proof -
  have l: "length (ht_infoArray ht) = ht_size ht" using cl by (simp add: ht_clean_def)
  obtain j where j: "next_bucket ht i = Inr j" "j \<le> ht_size ht"
      "concat (drop j (ht_infoArray ht)) = concat (drop i (ht_infoArray ht))"
      "j < ht_size ht \<longrightarrow> ht_infoArray ht ! j \<noteq> []"
    using next_bucket_spec[OF l i] by blast
  show ?thesis
  proof (cases "j < ht_size ht")
    case False
    then show ?thesis
      using j c l by (simp add: moveCursorToNextIndex_def cursor_at_def set_cursor_def cursor_past_def)
  next
    case True
    then obtain n ys where b: "ht_infoArray ht ! j = n # ys" using j(4) by (cases "ht_infoArray ht ! j") auto
    let ?cur = "\<lparr> c_nextCursor = None, c_prevCursor = None, c_hashIndex = int j, c_element = Some (hi_addr n) \<rparr>"
    have "n \<in> set (concat (ht_infoArray ht))"
      using True b l in_concat_nth[of j "ht_infoArray ht" n] by simp
    then have "addCursorToList c (ht, cs(c \<mapsto> ?cur)) = Inr (mark_table (hi_addr n) (Some c) ht, cs(c \<mapsto> ?cur))"
      using addCursor_clean[OF cl, of n "cs(c \<mapsto> ?cur)" c ?cur] by simp
    moreover have "concat (drop i (ht_infoArray ht)) = n # ys @ concat (drop (Suc j) (ht_infoArray ht))"
      using j(3) True b l by (metis Cons_nth_drop_Suc concat.simps(2) append_Cons)
    ultimately show ?thesis
      using j(1) c True b l
      by (auto simp: moveCursorToNextIndex_def cursor_at_def set_cursor_def cursor_on_def bucket_def Let_def)
  qed
qed

lemma cursorGoNext_on:
  assumes cl: "ht_clean ht" and on: "cursor_on c s ht i xs n ys"
  shows "\<exists>s'. HashCursorGoNext c s = Inr s' \<and>
      (ys @ concat (drop (Suc i) (ht_infoArray ht)) = [] \<and> cursor_past c s' ht
       \<or> (\<exists>j xs' n' ys'. cursor_on c s' ht j xs' n' ys' \<and>
            ys @ concat (drop (Suc i) (ht_infoArray ht)) = n' # ys' @ concat (drop (Suc j) (ht_infoArray ht))))"
proof -
  let ?cur = "\<lambda>e. \<lparr> c_nextCursor = None, c_prevCursor = None, c_hashIndex = int i, c_element = e \<rparr>"
  have i: "i < ht_size ht" "ht_infoArray ht ! i = xs @ n # ys"
    and s: "s = (mark_table (hi_addr n) (Some c) ht, snd s)" "snd s c = Some (?cur (Some (hi_addr n)))"
    using on by (auto simp: cursor_on_def prod_eq_iff)
  have l: "length (ht_infoArray ht) = ht_size ht" using cl by (simp add: ht_clean_def)
  note nn = node_next_marked[OF cl i, of "hi_addr n" "Some c" "snd s", folded s(1)]
  show ?thesis
  proof (cases ys)
    case Nil
    have "HashCursorGoNext c s = moveCursorToNextIndex c (ht, (snd s)(c \<mapsto> ?cur None))"
      using nn Nil removeCursor_on[OF cl on] s(2)
      by (simp add: HashCursorGoNext_def cursor_at_def set_cursor_def)
    then show ?thesis
      using moveCursor_next[OF cl, of "Suc i" "(snd s)(c \<mapsto> ?cur None)" c] i(1) Nil by fastforce
  next
    case (Cons m zs)
    have "HashCursorGoNext c s = addCursorToList c (ht, (snd s)(c \<mapsto> ?cur (Some (hi_addr m))))"
      using nn Cons removeCursor_on[OF cl on] s(2)
      by (simp add: HashCursorGoNext_def cursor_at_def set_cursor_def)
    moreover have "m \<in> set (concat (ht_infoArray ht))"
      using i l Cons in_concat_nth[of i "ht_infoArray ht" m] by simp
    ultimately have "HashCursorGoNext c s = Inr (mark_table (hi_addr m) (Some c) ht,
        (snd s)(c \<mapsto> ?cur (Some (hi_addr m))))"
      using addCursor_clean[OF cl, of m "(snd s)(c \<mapsto> ?cur (Some (hi_addr m)))" c "?cur (Some (hi_addr m))"]
      by simp
    moreover have "cursor_on c (mark_table (hi_addr m) (Some c) ht, (snd s)(c \<mapsto> ?cur (Some (hi_addr m))))
        ht i (xs @ [n]) m zs"
      using i Cons by (simp add: cursor_on_def)
    ultimately show ?thesis using Cons by auto
  qed
qed

lemma cursor_collect_on:
  assumes cl: "ht_clean ht"
  shows "cursor_on c s ht i xs n ys \<Longrightarrow>
    rest = ys @ concat (drop (Suc i) (ht_infoArray ht)) \<Longrightarrow> length rest + 1 < fuel \<Longrightarrow>
    \<exists>s'. cursor_collect fuel c s = Inr (map hi_data (n # rest), s') \<and> cursor_past c s' ht"
proof (induction "length rest" arbitrary: rest s i xs n ys fuel rule: less_induct)
  case less
  obtain k where k: "fuel = Suc k" "length rest < k" using less.prems(3) by (cases fuel) auto
  have i: "i < ht_size ht" "ht_infoArray ht ! i = xs @ n # ys" and s: "snd s c = Some \<lparr> c_nextCursor = None,
      c_prevCursor = None, c_hashIndex = int i, c_element = Some (hi_addr n) \<rparr>"
    using less.prems(1) by (auto simp: cursor_on_def)
  have get: "HashCursorGetElement c s = Inr (hi_data n)" "HashCursorPastLastElement c s = Inr False"
    using s i less.prems(1) node_at_on[OF cl less.prems(1)]
    by (simp_all add: HashCursorGetElement_def HashCursorPastLastElement_def cursor_at_def cursor_on_def)
  obtain s1 where s1: "HashCursorGoNext c s = Inr s1" and
    cases: "rest = [] \<and> cursor_past c s1 ht
      \<or> (\<exists>j xs' n' ys'. cursor_on c s1 ht j xs' n' ys' \<and> rest = n' # ys' @ concat (drop (Suc j) (ht_infoArray ht)))"
    using cursorGoNext_on[OF cl less.prems(1)] unfolding less.prems(2)[symmetric] by blast
  from cases show ?case
  proof (elim disjE conjE exE)
    assume past: "rest = []" "cursor_past c s1 ht"
    then have "cursor_collect k c s1 = Inr ([], s1)"
      using k by (cases k) (auto simp: HashCursorPastLastElement_def cursor_at_def cursor_past_def)
    then show ?thesis using get s1 k(1) past by simp
  next
    fix j xs' n' ys'
    assume on: "cursor_on c s1 ht j xs' n' ys'" and r: "rest = n' # ys' @ concat (drop (Suc j) (ht_infoArray ht))"
    then obtain s2 where "cursor_collect k c s1 = Inr (map hi_data rest, s2)" "cursor_past c s2 ht"
      using less.hyps[OF _ on, of "tl rest" k] k by auto
    then show ?thesis using get s1 k(1) by auto
  qed
qed

lemma cursor_traversal:
  assumes cl: "ht_clean ht" and fuel: "length (concat (ht_infoArray ht)) < fuel"
  shows "\<exists>s1 s2. HashCursorCreate (Some c) (ht, cs) = Inr (Some c, s1)
      \<and> cursor_collect fuel c s1 = Inr (ht_elems ht, s2)
      \<and> (\<exists>cs'. HashCursorDestroy c s2 = Inr (ht, cs'))"
proof -
  let ?cur = "\<lparr> c_nextCursor = None, c_prevCursor = None, c_hashIndex = -1, c_element = None \<rparr>"
  have cc: "(cs(c \<mapsto> ?cur)) c = Some \<lparr> c_nextCursor = None, c_prevCursor = None,
      c_hashIndex = int 0 - 1, c_element = None \<rparr>" by simp
  obtain s1 where s1: "moveCursorToNextIndex c (ht, cs(c \<mapsto> ?cur)) = Inr s1" and
    cases: "concat (ht_infoArray ht) = [] \<and> cursor_past c s1 ht
      \<or> (\<exists>j n ys. cursor_on c s1 ht j [] n ys \<and> concat (ht_infoArray ht) = n # ys @ concat (drop (Suc j) (ht_infoArray ht)))"
    using moveCursor_next[where i = 0 and cs = "cs(c \<mapsto> ?cur)", OF cl le0 cc, unfolded drop_0] by blast
  have create: "HashCursorCreate (Some c) (ht, cs) = Inr (Some c, s1)"
    using s1 by (simp add: HashCursorCreate_def HashCursorGoFirst_def cursor_at_def set_cursor_def)
  have "\<exists>s2. cursor_collect fuel c s1 = Inr (ht_elems ht, s2) \<and> cursor_past c s2 ht"
    using cases
  proof (elim disjE conjE exE)
    assume e: "concat (ht_infoArray ht) = []" and p: "cursor_past c s1 ht"
    then have "cursor_collect fuel c s1 = Inr ([], s1)"
      using fuel by (cases fuel) (auto simp: HashCursorPastLastElement_def cursor_at_def cursor_past_def)
    then show ?thesis using e p unfolding ht_elems_def by auto
  next
    fix j n ys
    assume on: "cursor_on c s1 ht j [] n ys"
      and r: "concat (ht_infoArray ht) = n # ys @ concat (drop (Suc j) (ht_infoArray ht))"
    have "length (ys @ concat (drop (Suc j) (ht_infoArray ht))) + 1 < fuel"
      using fuel arg_cong[OF r, of length] by simp
    then show ?thesis
      using cursor_collect_on[OF cl on refl, of fuel] unfolding ht_elems_def by (metis r)
  qed
  then obtain s2 where s2: "cursor_collect fuel c s1 = Inr (ht_elems ht, s2)" "cursor_past c s2 ht" by blast
  moreover have "HashCursorDestroy c s2 = Inr (ht, (snd s2)(c := None))"
    using s2(2) by (auto simp: HashCursorDestroy_def cursor_at_def cursor_past_def)
  ultimately show ?thesis using create by blast
qed

subsection \<open>Properties\<close>

text \<open>C5: a well-formed table is a finite map for every client whose comparison is an equivalence
  that its hash function respects. Adding an absent key makes \<open>HashFind\<close> return the new element
  for every equal key and changes no other answer; adding a present key changes nothing and
  returns 0; deleting makes every equal key absent, leaves the others, and returns whether there
  was one. The element count and the invariant are kept throughout.\<close>

theorem hash_table_is_map:
  assumes keys: "hash_keys calc cmp" and ht: "ht_for calc cmp ht" and n: "ht_elementCount ht < INT_MAX"
  shows "(\<exists>r ht'. HashAdd (Some a) True ht d = Inr (r, ht') \<and> ht_for calc cmp ht'
        \<and> r = (if HashFind ht d = Inr None then 1 else 0)
        \<and> HashGetElementCount ht' = HashGetElementCount ht + r
        \<and> (\<forall>k. HashFind ht' k = (if cmp k d = 0 \<and> r = 1 then Inr (Some d) else HashFind ht k)))
    \<and> (\<exists>r ht'. HashDelete ht d = Inr (r, ht') \<and> ht_for calc cmp ht'
        \<and> r = (if HashFind ht d = Inr None then 0 else 1)
        \<and> HashGetElementCount ht' = HashGetElementCount ht - r
        \<and> (\<forall>k. HashFind ht' k = (if cmp k d = 0 then Inr None else HashFind ht k)))"
proof -
  have wf: "ht_for calc cmp t \<Longrightarrow> HashFind t k = Inr (ht_lookup t k)" for t :: "('a, 'b) Hasht" and k
    by (simp add: ht_for_def HashFind_wf)
  show ?thesis
  proof (cases "ht_lookup ht d")
    case None
    have same: "ht_lookup ht k = None" if "cmp k d = 0" for k
      by (rule hash_keys.lookup_None_cong[OF keys ht None that])
    obtain ht1 where "HashAdd (Some a) True ht d = Inr (1, ht1)" "ht_for calc cmp ht1"
        "\<forall>k. ht_lookup ht1 k = (if cmp k d = 0 then Some d else ht_lookup ht k)"
        "ht_elementCount ht1 = ht_elementCount ht + 1"
      using hash_keys.add_fresh[OF keys ht None n] by blast
    then show ?thesis
      using hash_keys.delete_absent[OF keys ht None] wf ht None same by (simp add: HashGetElementCount_def)
  next
    case (Some x)
    obtain ht1 where "HashDelete ht d = Inr (1, ht1)" "ht_for calc cmp ht1"
        "\<forall>k. ht_lookup ht1 k = (if cmp k d = 0 then None else ht_lookup ht k)"
        "ht_elementCount ht1 = ht_elementCount ht - 1"
      using hash_keys.delete_present[OF keys ht Some] by blast
    then show ?thesis
      using hash_keys.add_present[OF keys ht Some] wf ht Some by (simp add: HashGetElementCount_def)
  qed
qed

text \<open>Strings compared for equality and hashed by \<open>HashString\<close>.\<close>

definition str_cmp :: "string \<Rightarrow> string \<Rightarrow> 32 word" where
  "str_cmp x y = (if x = y then 0 else 1)"

definition str_table :: "(string, nat) Hasht" where
  "str_table = \<lparr> ht_size = 2, ht_elementCount = 1, ht_calcIndx = (\<lambda>x. HashString (Some x)),
     ht_compData = str_cmp, ht_destrData = None, ht_debugLevel = 0,
     ht_infoArray = [[], [\<lparr> hi_addr = 9, hi_data = ''a'', hi_firstCursor = None \<rparr>]] \<rparr>"

theorem hash_table_is_map_witness:
  "(\<exists>ht'. HashAdd (Some 5) True str_table ''c'' = Inr (1, ht') \<and> HashFind ht' ''c'' = Inr (Some ''c'')
      \<and> HashFind ht' ''a'' = Inr (Some ''a''))
   \<and> (\<exists>ht'. HashDelete str_table ''a'' = Inr (1, ht') \<and> HashFind ht' ''a'' = Inr None)"
proof -
  have k: "hash_keys (\<lambda>x. HashString (Some x)) str_cmp"
    by unfold_locales (auto simp: str_cmp_def split: if_splits)
  have w: "ht_wf str_table" by code_simp
  have t: "ht_for (\<lambda>x. HashString (Some x)) str_cmp str_table"
    using w by (simp add: ht_for_def) (simp add: str_table_def)
  have n: "ht_elementCount str_table < INT_MAX" by (simp add: str_table_def)
  have f: "HashFind str_table ''a'' = Inr (Some ''a'')" "HashFind str_table ''c'' = Inr None"
    by code_simp+
  have c: "str_cmp ''a'' ''c'' \<noteq> 0" "str_cmp ''c'' ''c'' = 0" "str_cmp ''a'' ''a'' = 0"
    by (simp_all add: str_cmp_def)
  show ?thesis
    using hash_table_is_map[OF k t n, of 5 "''c''"] hash_table_is_map[OF k t n, of 5 "''a''"] f c
    by (metis (no_types, lifting) sum.inject(2) option.distinct(1))
qed

text \<open>C15: traversal. On a table without cursors, creating a cursor and reading and advancing until
  it is past the last element ends after as many rounds as there are elements, returns every
  element exactly once, in the order of the buckets, and destroying the cursor restores the
  table with no cursor left in any node.\<close>

theorem hash_cursor_visits_all:
  assumes "ht_clean ht" and "length (ht_elems ht) < fuel"
  shows "\<exists>s1 s2 cs'. HashCursorCreate (Some c) (ht, cs) = Inr (Some c, s1)
      \<and> cursor_collect fuel c s1 = Inr (ht_elems ht, s2) \<and> HashCursorDestroy c s2 = Inr (ht, cs')"
  using cursor_traversal[OF assms(1), of fuel c cs] assms(2) by (auto simp: ht_elems_def)

theorem hash_cursor_visits_all_witness:
  "\<exists>s1 s2 cs'. HashCursorCreate (Some 3) (str_table, Map.empty) = Inr (Some 3, s1)
      \<and> cursor_collect 2 3 s1 = Inr ([''a''], s2) \<and> HashCursorDestroy 3 s2 = Inr (str_table, cs')"
proof -
  have c: "ht_clean str_table" and e: "ht_elems str_table = [''a'']" by code_simp+
  have l: "length (ht_elems str_table) < 2" by (simp add: e)
  show ?thesis using hash_cursor_visits_all[OF c l, of 3 Map.empty] unfolding e .
qed

text \<open>\<open>removeCursorFromList\<close> clears \<open>prevCursor\<close> before it hands it to the next cursor, which
  breaks the list as soon as a cursor in the middle leaves. With three cursors on one element,
  destroying the second and then the first leaves the element without any cursor registered
  although the third is still on it: the element can then be destroyed without the assertion
  that protects cursors, and the third cursor is left on freed memory.\<close>

theorem cursor_list_corrupted:
  "rbind (HashCursorCreate (Some 1) (str_table, Map.empty)) (\<lambda>(_, s1).
   rbind (HashCursorCreate (Some 2) s1) (\<lambda>(_, s2).
   rbind (HashCursorCreate (Some 3) s2) (\<lambda>(_, s3).
   rbind (HashCursorDestroy 2 s3) (\<lambda>s4.
   rbind (HashCursorDestroy 1 s4) (\<lambda>s5.
   rbind (HashDestroy (fst s5) ''a'' 0) (\<lambda>(removed, ht6, _).
   HashCursorGetElement 3 (ht6, snd s5))))))) = Inl DanglingPtr
   \<and> rbind (HashCursorCreate (Some 1) (str_table, Map.empty)) (\<lambda>(_, s1).
   rbind (HashCursorCreate (Some 2) s1) (\<lambda>(_, s2).
   rbind (HashCursorDestroy 1 s2) (\<lambda>s3.
   rbind (HashDestroy (fst s3) ''a'' 0) (\<lambda>(removed, ht4, _).
   Inr removed)))) = Inl AssertFailed"
  by code_simp

end
