(* ===== verification/CText.thy ===== *)
theory CText
  imports Main
begin

section \<open>Text functions of the C library\<close>

text \<open>
  The conversions and the string functions of the C library that several components use, on strings
  without their terminating NUL: decimal and hexadecimal numbers as \<open>printf\<close> writes them and \<open>atoi\<close>
  reads them, \<open>strsep\<close>, and comparison without regard to case.
\<close>

subsection \<open>Numbers\<close>

text \<open>What \<open>printf("%d")\<close> writes and what \<open>atoi\<close> reads.\<close>

fun digits :: "nat \<Rightarrow> string" where
  "digits n = (if n < 10 then [char_of (48 + n)] else digits (n div 10) @ [char_of (48 + n mod 10)])"

declare digits.simps [simp del]

definition print_int :: "int \<Rightarrow> string" where
  "print_int i = (if i < 0 then CHR ''-'' # digits (nat (- i)) else digits (nat i))"

definition is_digit :: "char \<Rightarrow> bool" where
  "is_digit c \<longleftrightarrow> 48 \<le> (of_char c :: nat) \<and> (of_char c :: nat) \<le> 57"

definition is_space :: "char \<Rightarrow> bool" where
  "is_space c \<longleftrightarrow> (of_char c :: nat) = 32 \<or> 9 \<le> (of_char c :: nat) \<and> (of_char c :: nat) \<le> 13"

definition read_digits :: "string \<Rightarrow> nat" where
  "read_digits s = fold (\<lambda>c v. v * 10 + (of_char c - 48)) (takeWhile is_digit s) 0"

definition atoi :: "string \<Rightarrow> int" where
  "atoi str =
     (let s = dropWhile is_space str
      in case s of
           [] \<Rightarrow> 0
         | c # cs \<Rightarrow> if c = CHR ''-'' then - int (read_digits cs)
                     else if c = CHR ''+'' then int (read_digits cs)
                     else int (read_digits s))"

text \<open>What \<open>printf("%x")\<close> writes.\<close>

definition hex_digit :: "nat \<Rightarrow> char" where
  "hex_digit n = (if n < 10 then char_of (48 + n) else char_of (87 + n))"

fun hex_digits :: "nat \<Rightarrow> string" where
  "hex_digits n = (if n < 16 then [hex_digit n] else hex_digits (n div 16) @ [hex_digit (n mod 16)])"

declare hex_digits.simps [simp del]

subsection \<open>Tokens\<close>

text \<open>
  \<open>strsep(&p, delims)\<close> for a \<open>p\<close> that is not NULL: the token before the first delimiter, and \<open>p\<close> behind it,
  or NULL when there is none.
\<close>

definition strsep :: "string \<Rightarrow> string \<Rightarrow> string \<times> string option" where
  "strsep delims s =
     (case dropWhile (\<lambda>c. c \<notin> set delims) s of
        [] \<Rightarrow> (s, None)
      | _ # rest \<Rightarrow> (takeWhile (\<lambda>c. c \<notin> set delims) s, Some rest))"

definition tolower :: "char \<Rightarrow> char" where
  "tolower c = (if 65 \<le> (of_char c :: nat) \<and> (of_char c :: nat) \<le> 90 then char_of ((of_char c :: nat) + 32) else c)"

definition same_nocase :: "string \<Rightarrow> string \<Rightarrow> bool" where
  "same_nocase a b \<longleftrightarrow> map tolower a = map tolower b"

lemma strsep_token:
  "\<forall>c \<in> set token. c \<notin> set delims \<Longrightarrow> d \<in> set delims \<Longrightarrow> strsep delims (token @ d # rest) = (token, Some rest)"
  by (simp add: strsep_def dropWhile_append3 takeWhile_append2)

lemma strsep_last: "\<forall>c \<in> set token. c \<notin> set delims \<Longrightarrow> strsep delims token = (token, None)"
  by (simp add: strsep_def dropWhile_eq_Nil_conv[THEN iffD2])

subsection \<open>Reading what was written\<close>

lemma of_char_digit: "n < 10 \<Longrightarrow> (of_char (char_of (48 + n) :: char) :: nat) = 48 + n"
  by (simp add: of_char_of)

lemma digits_are_digits: "c \<in> set (digits n) \<Longrightarrow> is_digit c"
proof (induction n rule: digits.induct)
  case (1 n)
  then show ?case
    by (subst (asm) (2) digits.simps) (auto simp: is_digit_def of_char_of split: if_splits)
qed

lemma digits_nonempty: "digits n \<noteq> []"
  by (subst digits.simps) simp

lemma read_digits_digits: "read_digits (digits n) = n"
proof -
  have "fold (\<lambda>c v. v * 10 + (of_char c - 48)) (digits n) (0 :: nat) = n"
  proof (induction n rule: digits.induct)
    case (1 n)
    show ?case
    proof (cases "n < 10")
      case True
      then show ?thesis by (subst digits.simps) (simp add: of_char_digit)
    next
      case False
      then show ?thesis using 1 of_char_digit[of "n mod 10"] by (subst digits.simps) simp
    qed
  qed
  moreover have "takeWhile is_digit (digits n) = digits n"
    by (simp add: takeWhile_eq_all_conv digits_are_digits)
  ultimately show ?thesis unfolding read_digits_def by (simp only:)
qed

lemma not_space_digit:
  "is_digit c \<Longrightarrow> \<not> is_space c \<and> c \<noteq> CHR '' '' \<and> c \<noteq> CHR ''-'' \<and> c \<noteq> CHR ''+''"
  by (auto simp: is_digit_def is_space_def)

lemma atoi_print_int: "atoi (print_int i) = i"
proof -
  obtain c cs where c: "digits (nat \<bar>i\<bar>) = c # cs" using digits_nonempty by (cases "digits (nat \<bar>i\<bar>)") auto
  have d: "is_digit c" using digits_are_digits[of c "nat \<bar>i\<bar>"] c by simp
  show ?thesis
  proof (cases "i < 0")
    case True
    then show ?thesis using read_digits_digits[of "nat (- i)"] by (simp add: print_int_def atoi_def Let_def is_space_def)
  next
    case False
    then have p: "print_int i = c # cs" using c by (simp add: print_int_def)
    have "read_digits (c # cs) = nat i" using read_digits_digits[of "nat i"] c False by simp
    then show ?thesis using not_space_digit[OF d] False unfolding p atoi_def Let_def by simp
  qed
qed

lemma print_int_chars: "c \<in> set (print_int i) \<Longrightarrow> is_digit c \<or> c = CHR ''-''"
  by (auto simp: print_int_def dest: digits_are_digits split: if_splits)

lemma print_int_no_space: "c \<in> set (print_int i) \<Longrightarrow> c \<noteq> CHR '' ''"
  using digits_are_digits not_space_digit by (auto simp: print_int_def split: if_splits)

end
