(* ===== verification/StrBuf.thy ===== *)
theory StrBuf
  imports Err CText
begin

section \<open>String buffers\<close>

text \<open>
  \<open>src/strbuf.c\<close>: text and binary buffers that grow by reallocation, and the small formatter on top
  of them. The block is a list of slots; the cursor is an offset into it. Sizes are those of
  \<open>size_t\<close>, with their wrap-around. A block that is NULL after a failed reallocation has no slots.
  The arguments after a format are a list of values; reading one of another kind, or more than
  there are, is \<open>LayoutMismatch\<close>.
\<close>

subsection \<open>State\<close>

record sStringBuffer =
  sb_string :: "char option list"
  sb_cursor :: nat
  sb_bufferSize :: nat
  sb_bufferRemaining :: nat

datatype fmt_arg = Arg_d int | Arg_s string

abbreviation (input) STRBUF_ERR_UNKNOWN_FORMAT :: int where "STRBUF_ERR_UNKNOWN_FORMAT \<equiv> 1"
abbreviation (input) STRBUF_ERR_ENLARGE_FAILED :: int where "STRBUF_ERR_ENLARGE_FAILED \<equiv> 2"

text \<open>\<open>env_reason\<close> is what \<open>ErrErrno\<close> returns, \<open>env_errOk\<close> whether \<open>ErrNew\<close> gets its two blocks.\<close>

record environment =
  env_avail :: allocator
  env_errOk :: "bool \<times> bool"
  env_reason :: Error

definition size_add :: "nat \<Rightarrow> nat \<Rightarrow> nat" where
  "size_add a b = (a + b) mod SIZE_T_MOD"

definition size_sub :: "nat \<Rightarrow> nat \<Rightarrow> nat" where
  "size_sub a b = (a + SIZE_T_MOD - b) mod SIZE_T_MOD"

text \<open>The assertion that states the invariant of the structure.\<close>

definition sb_assert :: "sStringBuffer \<Rightarrow> unit res" where
  "sb_assert sb = rassert (sb_cursor sb = size_sub (sb_bufferSize sb) (sb_bufferRemaining sb))"

text \<open>Bytes written from an offset on, and the C string read from an offset on.\<close>

definition put_bytes :: "char option list \<Rightarrow> nat \<Rightarrow> string \<Rightarrow> char option list res" where
  "put_bytes block off s =
     (if off + length s \<le> length block then Inr (blit block off (map Some s)) else Inl OutOfBounds)"

fun read_cstr :: "char option list \<Rightarrow> string res" where
  "read_cstr [] = Inl OutOfBounds"
| "read_cstr (None # cs) = Inl UninitRead"
| "read_cstr (Some c # cs) = (if c = NUL then Inr [] else rbind (read_cstr cs) (\<lambda>s. Inr (c # s)))"

subsection \<open>Creation and growth\<close>

definition strbuf_create :: "bool \<Rightarrow> bool \<Rightarrow> nat \<Rightarrow> sStringBuffer res" where
  "strbuf_create strbufOk stringOk len =
     rbind (rassert strbufOk) (\<lambda>_.
     rbind (rassert stringOk) (\<lambda>_.
     rbind (put_bytes (replicate (size_add len 1) None) 0 [NUL]) (\<lambda>block.
     (let sb = \<lparr> sb_string = block, sb_cursor = 0, sb_bufferSize = len, sb_bufferRemaining = len \<rparr>
      in rbind (sb_assert sb) (\<lambda>_. Inr sb)))))"

definition strbuf_enlarge :: "environment \<Rightarrow> nat \<Rightarrow> sStringBuffer \<Rightarrow> (Error \<times> sStringBuffer) res" where
  "strbuf_enlarge env minFreeSpace sb =
     (if sb_bufferRemaining sb \<le> minFreeSpace then
        let sizeIncrease = (if size_add (sb_bufferSize sb) (sb_bufferRemaining sb) < minFreeSpace then minFreeSpace
                            else sb_bufferSize sb);
            newSize = size_add (sb_bufferSize sb) sizeIncrease
        in rbind (if env_avail env newSize then Inr None
                  else ErrNew (fst (env_errOk env)) (snd (env_errOk env)) ERR_STRBUF STRBUF_ERR_ENLARGE_FAILED (env_reason env)
                         (''Failed to enlarge string buffer to '' @ print_int (sint (of_nat newSize :: 32 word)) @ '' bytes.'')) (\<lambda>error.
           (let sb1 = (if error = None then
                  sb\<lparr> sb_string := (if env_avail env newSize then realloc_slots newSize (sb_string sb) else []),
                      sb_bufferSize := newSize,
                      sb_bufferRemaining := size_add (sb_bufferRemaining sb) sizeIncrease \<rparr> else sb)
            in rbind (sb_assert sb1) (\<lambda>_. Inr (error, sb1))))
      else Inr (None, sb))"

definition strbuf_appendBinary :: "environment \<Rightarrow> string \<Rightarrow> sStringBuffer \<Rightarrow> (Error \<times> sStringBuffer) res" where
  "strbuf_appendBinary env bytes sb =
     rbind (strbuf_enlarge env (length bytes) sb) (\<lambda>(error, sb1).
     if error \<noteq> None then Inr (error, sb1)
     else
       rbind (rassert (sb_bufferRemaining sb1 \<ge> length bytes)) (\<lambda>_.
       rbind (put_bytes (sb_string sb1) (sb_cursor sb1) bytes) (\<lambda>block.
       Inr (None, sb1\<lparr> sb_string := block, sb_cursor := sb_cursor sb1 + length bytes,
                       sb_bufferRemaining := size_sub (sb_bufferRemaining sb1) (length bytes) \<rparr>))))"

subsection \<open>Formatting\<close>

text \<open>A converted argument: the room is made, then \<open>strcpy\<close> writes it with its NUL.\<close>

definition append_text :: "environment \<Rightarrow> string \<Rightarrow> sStringBuffer \<Rightarrow> (Error \<times> sStringBuffer) res" where
  "append_text env s sb =
     rbind (strbuf_enlarge env (length s) sb) (\<lambda>(error, sb1).
     if error \<noteq> None then Inr (error, sb1)
     else
       rbind (put_bytes (sb_string sb1) (sb_cursor sb1) (s @ [NUL])) (\<lambda>block.
       Inr (None, sb1\<lparr> sb_string := block, sb_cursor := sb_cursor sb1 + length s,
                       sb_bufferRemaining := size_sub (sb_bufferRemaining sb1) (length s) \<rparr>)))"

definition advance :: "nat \<Rightarrow> string \<Rightarrow> sStringBuffer \<Rightarrow> sStringBuffer res" where
  "advance n s sb =
     rbind (put_bytes (sb_string sb) (sb_cursor sb) s) (\<lambda>block.
     Inr (sb\<lparr> sb_string := block, sb_cursor := sb_cursor sb + n,
              sb_bufferRemaining := size_sub (sb_bufferRemaining sb) n \<rparr>))"

text \<open>What \<open>"%%%2xc"\<close> writes for a character, which is signed and promoted to \<open>int\<close>.\<close>

definition quoted :: "char \<Rightarrow> string" where
  "quoted c =
     (let n = (of_char c :: nat);
          hex = hex_digits (if n < 128 then n else n + 4294967040)
      in CHR ''%'' # (if length hex < 2 then CHR '' '' # hex else hex) @ ''c'')"

fun quote_loop :: "environment \<Rightarrow> string \<Rightarrow> string \<Rightarrow> sStringBuffer \<Rightarrow> (Error \<times> sStringBuffer) res" where
  "quote_loop env quoteString [] sb = Inr (None, sb)"
| "quote_loop env quoteString (c # cs) sb =
     (let remainToCopy = Suc (length cs) in
      if c = CHR ''%'' \<or> c \<in> set quoteString then
        rbind (if sb_bufferRemaining sb < remainToCopy + 2 then strbuf_enlarge env (remainToCopy + 2) sb
               else Inr (None, sb)) (\<lambda>(error, sb1).
        rbind (advance 3 (quoted c @ [NUL]) sb1) (\<lambda>sb2.
        if error \<noteq> None then Inr (error, sb2) else quote_loop env quoteString cs sb2))
      else rbind (advance 1 [c] sb) (quote_loop env quoteString cs))"

definition append_string :: "environment \<Rightarrow> string option \<Rightarrow> string \<Rightarrow> sStringBuffer \<Rightarrow> (Error \<times> sStringBuffer) res" where
  "append_string env quoteString s sb =
     (case quoteString of
        None \<Rightarrow> append_text env s sb
      | Some q \<Rightarrow> rbind (strbuf_enlarge env (length s) sb) (\<lambda>(_, sb1). quote_loop env q s sb1))"

definition append_char :: "environment \<Rightarrow> char \<Rightarrow> sStringBuffer \<Rightarrow> (Error \<times> sStringBuffer) res" where
  "append_char env c sb =
     rbind (if sb_bufferRemaining sb = 0 then strbuf_enlarge env 1 sb else Inr (None, sb)) (\<lambda>(error, sb1).
     rbind (rassert (sb_bufferRemaining sb1 > 0)) (\<lambda>_.
     rbind (advance 1 (if error = None then [c] else []) sb1) (\<lambda>sb2. Inr (error, sb2))))"

text \<open>One conversion: the arguments left, the error and the buffer.\<close>

definition convert ::
  "environment \<Rightarrow> string option \<Rightarrow> char \<Rightarrow> fmt_arg list \<Rightarrow> sStringBuffer \<Rightarrow> (fmt_arg list \<times> Error \<times> sStringBuffer) res" where
  "convert env quoteString c args sb =
     (if c = CHR ''d'' then
        (case args of
           Arg_d i # args' \<Rightarrow> rbind (append_text env (print_int i) sb) (\<lambda>r. Inr (args', r))
         | _ \<Rightarrow> Inl LayoutMismatch)
      else if c = CHR ''s'' then
        (case args of
           Arg_s s # args' \<Rightarrow> rbind (append_string env quoteString s sb) (\<lambda>r. Inr (args', r))
         | _ \<Rightarrow> Inl LayoutMismatch)
      else
        rbind (ErrNew (fst (env_errOk env)) (snd (env_errOk env)) ERR_STRBUF STRBUF_ERR_UNKNOWN_FORMAT None
                 (''Unknown format character %'' @ [c] @ ''.'')) (\<lambda>e. Inr (args, e, sb)))"

text \<open>
  The loop over the format. A percent sign at its end is reported as an unknown format, but the
  loop then steps over the terminating NUL and reads behind the format.
\<close>

fun format_loop ::
  "environment \<Rightarrow> string option \<Rightarrow> string \<Rightarrow> fmt_arg list \<Rightarrow> sStringBuffer \<Rightarrow> (Error \<times> sStringBuffer) res" where
  "format_loop env quoteString [] args sb = Inr (None, sb)"
| "format_loop env quoteString [c] args sb =
     (if c = CHR ''%'' then Inl OutOfBounds else append_char env c sb)"
| "format_loop env quoteString (c # d # cs) args sb =
     (if c = CHR ''%'' then
        rbind (convert env quoteString d args sb) (\<lambda>(args', error, sb1).
        if error \<noteq> None then Inr (error, sb1) else format_loop env quoteString cs args' sb1)
      else
        rbind (append_char env c sb) (\<lambda>(error, sb1).
        if error \<noteq> None then Inr (error, sb1) else format_loop env quoteString (d # cs) args sb1))"

definition strbuf_sprintfQuoteSubstrings2 ::
  "environment \<Rightarrow> string option \<Rightarrow> string \<Rightarrow> fmt_arg list \<Rightarrow> sStringBuffer \<Rightarrow> (Error \<times> sStringBuffer) res" where
  "strbuf_sprintfQuoteSubstrings2 env quoteString format args sb =
     rbind (format_loop env quoteString format args sb) (\<lambda>(error, sb1).
     rbind (put_bytes (sb_string sb1) (sb_cursor sb1) [NUL]) (\<lambda>block.
     (let sb2 = sb1\<lparr> sb_string := block \<rparr> in rbind (sb_assert sb2) (\<lambda>_. Inr (error, sb2)))))"

definition strbuf_sprintf :: "environment \<Rightarrow> string \<Rightarrow> fmt_arg list \<Rightarrow> sStringBuffer \<Rightarrow> (Error \<times> sStringBuffer) res" where
  "strbuf_sprintf env format args sb = strbuf_sprintfQuoteSubstrings2 env None format args sb"

definition strbuf_sprintfQuoteSubstrings ::
  "environment \<Rightarrow> string \<Rightarrow> string \<Rightarrow> fmt_arg list \<Rightarrow> sStringBuffer \<Rightarrow> (Error \<times> sStringBuffer) res" where
  "strbuf_sprintfQuoteSubstrings env quoteString format args sb =
     strbuf_sprintfQuoteSubstrings2 env (Some quoteString) format args sb"

subsection \<open>Reading\<close>

definition strbuf_getString :: "sStringBuffer \<Rightarrow> string res" where
  "strbuf_getString sb = read_cstr (sb_string sb)"

text \<open>\<open>strdup\<close> returns NULL without memory.\<close>

definition strbuf_getStringCopy :: "bool \<Rightarrow> sStringBuffer \<Rightarrow> string option res" where
  "strbuf_getStringCopy dupOk sb = rbind (read_cstr (sb_string sb)) (\<lambda>s. Inr (if dupOk then Some s else None))"

definition strbuf_destroyKeepString :: "sStringBuffer \<Rightarrow> char option list \<times> nat" where
  "strbuf_destroyKeepString sb = (sb_string sb, sb_cursor sb)"

subsection \<open>Lists of strings\<close>

definition strbuf_stringList_append :: "environment \<Rightarrow> string \<Rightarrow> sStringBuffer \<Rightarrow> (Error \<times> sStringBuffer) res" where
  "strbuf_stringList_append env s sb = strbuf_appendBinary env (s @ [NUL]) sb"

text \<open>The text that \<open>vsprintf\<close> writes into a buffer of 1024 bytes is an argument.\<close>

definition strbuf_stringList_append2 :: "environment \<Rightarrow> string \<Rightarrow> sStringBuffer \<Rightarrow> (Error \<times> sStringBuffer) res" where
  "strbuf_stringList_append2 env formatted sb =
     rbind (rguard OutOfBounds (length formatted < 1024)) (\<lambda>_. strbuf_appendBinary env (formatted @ [NUL]) sb)"

text \<open>The function adds to its own pointer, not to the client's index, which keeps its value.\<close>

definition strbuf_stringList_popString :: "sStringBuffer \<Rightarrow> nat \<Rightarrow> (nat \<times> string) res" where
  "strbuf_stringList_popString sb index =
     (if index = sb_cursor sb then Inl NullDeref
      else rbind (read_cstr (drop index (sb_string sb))) (\<lambda>s. Inr (index, s)))"

subsection \<open>The buffer as a string\<close>

text \<open>The buffer holds the characters \<open>xs\<close> before its cursor, and its sizes are consistent.\<close>

definition sb_rep :: "sStringBuffer \<Rightarrow> string \<Rightarrow> bool" where
  "sb_rep sb xs \<longleftrightarrow> sb_cursor sb = length xs \<and> take (length xs) (sb_string sb) = map Some xs
     \<and> length xs + sb_bufferRemaining sb = sb_bufferSize sb \<and> sb_bufferSize sb \<le> length (sb_string sb)
     \<and> sb_bufferSize sb < SIZE_T_MOD"

lemma size_sub_le [simp]:
  assumes "b \<le> a" and "a < SIZE_T_MOD"
  shows "size_sub a b = a - b"
proof -
  have "a + SIZE_T_MOD - b = (a - b) + SIZE_T_MOD" using assms(1) by simp
  then have "size_sub a b = ((a - b) + SIZE_T_MOD) mod SIZE_T_MOD" by (simp only: size_sub_def)
  then show ?thesis using assms(2) by simp
qed

lemma sb_assert_rep [simp]:
  assumes "sb_rep sb xs"
  shows "sb_assert sb = Inr ()"
proof -
  have "sb_cursor sb = sb_bufferSize sb - sb_bufferRemaining sb" "sb_bufferRemaining sb \<le> sb_bufferSize sb"
    "sb_bufferSize sb < SIZE_T_MOD" using assms by (auto simp: sb_rep_def)
  then show ?thesis by (simp add: sb_assert_def)
qed

lemma sb_rep_le: "sb_rep sb xs \<Longrightarrow> length xs \<le> length (sb_string sb)"
  by (auto simp: sb_rep_def)

lemma strbuf_create_rep:
  assumes "len + 1 < SIZE_T_MOD"
  shows "\<exists>sb. strbuf_create True True len = Inr sb \<and> sb_rep sb [] \<and> sb_bufferSize sb = len \<and> length (sb_string sb) = len + 1"
  using assms by (simp add: strbuf_create_def size_add_def put_bytes_def sb_assert_def sb_rep_def Let_def)

text \<open>How far the buffer grows for \<open>n\<close> more characters, and that there is then room for them.\<close>

definition grown :: "nat \<Rightarrow> sStringBuffer \<Rightarrow> nat" where
  "grown n sb = (if sb_bufferRemaining sb \<le> n
     then sb_bufferSize sb + (if sb_bufferSize sb + sb_bufferRemaining sb < n then n else sb_bufferSize sb) else sb_bufferSize sb)"

lemma grown_bound: "sb_rep sb xs \<Longrightarrow> grown n sb \<le> max (sb_bufferSize sb) (2 * (length xs + n))"
  by (auto simp: grown_def sb_rep_def)

text \<open>A buffer that grew keeps its size or doubles it a number of times, and once it has grown there is
  no byte behind the buffer in its block.\<close>

definition doubled :: "sStringBuffer \<Rightarrow> sStringBuffer \<Rightarrow> bool" where
  "doubled sb sb' \<longleftrightarrow> (\<exists>k. sb_bufferSize sb' = sb_bufferSize sb * 2 ^ k
     \<and> length (sb_string sb') = (if k = 0 then length (sb_string sb) else sb_bufferSize sb'))"

lemma doubled_refl: "sb_bufferSize sb' = sb_bufferSize sb \<Longrightarrow> length (sb_string sb') = length (sb_string sb)
   \<Longrightarrow> doubled sb sb'"
  by (auto simp: doubled_def intro!: exI[of _ 0])

lemma doubled_once: "sb_bufferSize sb' = 2 * sb_bufferSize sb \<Longrightarrow> length (sb_string sb') = sb_bufferSize sb'
   \<Longrightarrow> doubled sb sb'"
  by (auto simp: doubled_def intro!: exI[of _ 1])

lemma doubled_trans:
  assumes "doubled sb1 sb2" and "doubled sb2 sb3"
  shows "doubled sb1 sb3"
proof -
  obtain j k where
    "sb_bufferSize sb2 = sb_bufferSize sb1 * 2 ^ j"
    "length (sb_string sb2) = (if j = 0 then length (sb_string sb1) else sb_bufferSize sb2)"
    "sb_bufferSize sb3 = sb_bufferSize sb2 * 2 ^ k"
    "length (sb_string sb3) = (if k = 0 then length (sb_string sb2) else sb_bufferSize sb3)"
    using assms unfolding doubled_def by metis
  then show ?thesis
    unfolding doubled_def by (intro exI[of _ "j + k"]) (auto simp: power_add)
qed

lemma enlarge_rep:
  assumes rep: "sb_rep sb xs" and fits: "grown n sb < SIZE_T_MOD" "n < SIZE_T_MOD"
    "sb_bufferSize sb + sb_bufferRemaining sb < SIZE_T_MOD" and avail: "env_avail env (grown n sb)"
  shows "\<exists>sb'. strbuf_enlarge env n sb = Inr (None, sb') \<and> sb_rep sb' xs \<and> n \<le> sb_bufferRemaining sb' \<and> sb_bufferSize sb' = grown n sb
    \<and> (n < sb_bufferSize sb \<longrightarrow> n < sb_bufferRemaining sb') \<and> sb_bufferSize sb \<le> sb_bufferSize sb'
    \<and> (n \<le> sb_bufferSize sb \<longrightarrow> doubled sb sb')"
proof (cases "sb_bufferRemaining sb \<le> n")
  case True
  let ?inc = "if sb_bufferSize sb + sb_bufferRemaining sb < n then n else sb_bufferSize sb"
  have g: "grown n sb = sb_bufferSize sb + ?inc" using True by (simp add: grown_def)
  let ?sb = "sb\<lparr> sb_string := realloc_slots (grown n sb) (sb_string sb), sb_bufferSize := grown n sb,
    sb_bufferRemaining := sb_bufferRemaining sb + ?inc \<rparr>"
  have r: "sb_bufferRemaining sb + ?inc < SIZE_T_MOD" using rep g fits(1) by (auto simp: sb_rep_def)
  have rep': "sb_rep ?sb xs"
    using rep g fits(1) by (auto simp: sb_rep_def take_realloc_slots)
  have "strbuf_enlarge env n sb = Inr (None, ?sb)"
    using True g fits avail r sb_assert_rep[OF rep'] by (simp add: strbuf_enlarge_def size_add_def Let_def split: if_splits)
  moreover have "doubled sb ?sb" if "n \<le> sb_bufferSize sb"
    by (rule doubled_once) (use that g in \<open>auto simp: realloc_slots_def\<close>)
  ultimately show ?thesis using rep' rep True g by (auto simp: sb_rep_def)
next
  case False
  then show ?thesis using rep by (auto simp: strbuf_enlarge_def grown_def doubled_refl)
qed

lemma put_bytes_rep:
  assumes "length xs + length s \<le> length block" and "take (length xs) block = map Some xs" and "length xs \<le> length block"
  shows "\<exists>b. put_bytes block (length xs) s = Inr b \<and> length b = length block \<and> take (length (xs @ s)) b = map Some (xs @ s)"
  using assms by (auto simp: put_bytes_def blit_def)

lemma take_shorter: "take n b = ys \<Longrightarrow> m \<le> n \<Longrightarrow> take m b = take m ys"
  by (metis min.absorb1 take_take)

lemma append_text_rep:
  assumes rep: "sb_rep sb xs" and fits: "grown (length s) sb < SIZE_T_MOD" "length s < SIZE_T_MOD"
    "sb_bufferSize sb + sb_bufferRemaining sb < SIZE_T_MOD" and avail: "env_avail env (grown (length s) sb)"
    and short: "length s < sb_bufferSize sb"
  shows "\<exists>sb'. append_text env s sb = Inr (None, sb') \<and> sb_rep sb' (xs @ s) \<and> sb_bufferSize sb' = grown (length s) sb
    \<and> sb_bufferSize sb \<le> sb_bufferSize sb' \<and> doubled sb sb'"
proof -
  obtain sb1 where e: "strbuf_enlarge env (length s) sb = Inr (None, sb1)" "sb_rep sb1 xs" "length s < sb_bufferRemaining sb1"
      "sb_bufferSize sb1 = grown (length s) sb" "sb_bufferSize sb \<le> sb_bufferSize sb1" "doubled sb sb1"
    using enlarge_rep[OF rep fits avail] short by auto
  have r: "sb_cursor sb1 = length xs" "take (length xs) (sb_string sb1) = map Some xs" "length xs + length s + 1 \<le> length (sb_string sb1)"
      "length xs \<le> length (sb_string sb1)" using e(2,3) by (auto simp: sb_rep_def)
  obtain b where b: "put_bytes (sb_string sb1) (length xs) (s @ [NUL]) = Inr b" "length b = length (sb_string sb1)"
      "take (length (xs @ s @ [NUL])) b = map Some (xs @ s @ [NUL])"
    using put_bytes_rep[of xs "s @ [NUL]" "sb_string sb1"] r by auto
  have tk: "take (length (xs @ s)) b = map Some (xs @ s)" using take_shorter[OF b(3), of "length (xs @ s)"] by simp
  let ?sb = "sb1\<lparr> sb_string := b, sb_cursor := length xs + length s,
      sb_bufferRemaining := size_sub (sb_bufferRemaining sb1) (length s) \<rparr>"
  have "append_text env s sb = Inr (None, ?sb)" using e(1) r(1) b(1) by (simp add: append_text_def)
  moreover have "sb_rep ?sb (xs @ s)" using e(2,3) b(2) tk by (simp add: sb_rep_def)
  moreover have "doubled sb ?sb"
    by (rule doubled_trans[OF e(6)], rule doubled_refl) (simp_all add: b(2))
  ultimately show ?thesis using e(4,5) by (intro exI[of _ ?sb]) simp
qed

lemma advance_rep:
  assumes "sb_rep sb xs" and "length s \<le> sb_bufferRemaining sb"
  shows "\<exists>sb'. advance (length s) s sb = Inr sb' \<and> sb_rep sb' (xs @ s) \<and> sb_bufferSize sb' = sb_bufferSize sb
    \<and> length (sb_string sb') = length (sb_string sb)"
proof -
  have r: "sb_cursor sb = length xs" "take (length xs) (sb_string sb) = map Some xs" "length xs + length s \<le> length (sb_string sb)"
      "length xs \<le> length (sb_string sb)" using assms by (auto simp: sb_rep_def)
  obtain b where b: "put_bytes (sb_string sb) (length xs) s = Inr b" "length b = length (sb_string sb)"
      "take (length (xs @ s)) b = map Some (xs @ s)"
    using put_bytes_rep[of xs s "sb_string sb"] r by auto
  let ?sb = "sb\<lparr> sb_string := b, sb_cursor := length xs + length s,
      sb_bufferRemaining := size_sub (sb_bufferRemaining sb) (length s) \<rparr>"
  have "advance (length s) s sb = Inr ?sb" using r(1) b(1) by (simp add: advance_def)
  moreover have "sb_rep ?sb (xs @ s)" using assms b(2,3) by (simp add: sb_rep_def)
  ultimately show ?thesis by (intro exI[of _ ?sb]) (simp add: b(2))
qed

lemma appendBinary_rep:
  assumes rep: "sb_rep sb xs" and fits: "grown (length s) sb < SIZE_T_MOD" "length s < SIZE_T_MOD"
    "sb_bufferSize sb + sb_bufferRemaining sb < SIZE_T_MOD" and avail: "env_avail env (grown (length s) sb)"
  shows "\<exists>sb'. strbuf_appendBinary env s sb = Inr (None, sb') \<and> sb_rep sb' (xs @ s) \<and> sb_bufferSize sb' = grown (length s) sb"
proof -
  obtain sb1 where e: "strbuf_enlarge env (length s) sb = Inr (None, sb1)" "sb_rep sb1 xs" "length s \<le> sb_bufferRemaining sb1"
      "sb_bufferSize sb1 = grown (length s) sb"
    using enlarge_rep[OF rep fits avail] by auto
  have "strbuf_appendBinary env s sb = rbind (advance (length s) s sb1) (\<lambda>sb2. Inr (None, sb2))"
    using e(1,3) by (simp add: strbuf_appendBinary_def advance_def rbind_assoc)
  then show ?thesis using advance_rep[OF e(2,3)] e(4) by auto
qed

lemma append_char_rep:
  assumes rep: "sb_rep sb xs" and fits: "grown 1 sb < SIZE_T_MOD"
    "sb_bufferSize sb + sb_bufferRemaining sb < SIZE_T_MOD" and avail: "env_avail env (grown 1 sb)"
  shows "\<exists>sb'. append_char env c sb = Inr (None, sb') \<and> sb_rep sb' (xs @ [c]) \<and> sb_bufferSize sb \<le> sb_bufferSize sb'
    \<and> sb_bufferSize sb' \<le> grown 1 sb \<and> (0 < sb_bufferSize sb \<longrightarrow> doubled sb sb')"
proof -
  obtain sb1 where e: "(if sb_bufferRemaining sb = 0 then strbuf_enlarge env 1 sb else Inr (None, sb)) = Inr (None, sb1)"
      "sb_rep sb1 xs" "0 < sb_bufferRemaining sb1" "sb_bufferSize sb \<le> sb_bufferSize sb1" "sb_bufferSize sb1 \<le> grown 1 sb"
      "0 < sb_bufferSize sb \<longrightarrow> doubled sb sb1"
  proof (cases "sb_bufferRemaining sb = 0")
    case True
    then show ?thesis using that enlarge_rep[OF rep fits(1) _ fits(2) avail] by fastforce
  next
    case False
    then show ?thesis using that[of sb] rep by (simp add: grown_def doubled_refl)
  qed
  obtain sb2 where a: "advance (length [c]) [c] sb1 = Inr sb2" "sb_rep sb2 (xs @ [c])"
      "sb_bufferSize sb2 = sb_bufferSize sb1" "length (sb_string sb2) = length (sb_string sb1)"
    using advance_rep[OF e(2), of "[c]"] e(3) by auto
  then have "0 < sb_bufferSize sb \<longrightarrow> doubled sb sb2"
    using e(6) doubled_trans doubled_refl by blast
  then show ?thesis using a e by (auto simp: append_char_def)
qed

text \<open>What a format stands for.\<close>

fun expand :: "string \<Rightarrow> fmt_arg list \<Rightarrow> string option" where
  "expand [] args = Some []"
| "expand [c] args = (if c = CHR ''%'' then None else Some [c])"
| "expand (c # d # cs) args =
     (if c = CHR ''%'' then
        if d = CHR ''d'' then (case args of Arg_d i # args' \<Rightarrow> map_option ((@) (print_int i)) (expand cs args') | _ \<Rightarrow> None)
        else if d = CHR ''s'' then (case args of Arg_s s # args' \<Rightarrow> map_option ((@) s) (expand cs args') | _ \<Rightarrow> None)
        else None
      else map_option ((#) c) (expand (d # cs) args))"

definition arg_text :: "fmt_arg \<Rightarrow> string" where
  "arg_text a = (case a of Arg_d i \<Rightarrow> print_int i | Arg_s s \<Rightarrow> s)"

text \<open>The sizes a buffer may take while it grows for a text of \<open>n\<close> characters in all.\<close>

definition roomy :: "environment \<Rightarrow> nat \<Rightarrow> nat \<Rightarrow> bool" where
  "roomy env B n \<longleftrightarrow> 2 * max B (2 * n) < SIZE_T_MOD \<and> (\<forall>k \<le> max B (2 * n). env_avail env k)"

lemma roomy_grown:
  assumes "sb_rep sb xs" and "sb_bufferSize sb \<le> max B (2 * n)" and "roomy env B n" and "length xs + m \<le> n"
  shows "grown m sb \<le> max B (2 * n)" "grown m sb < SIZE_T_MOD" "m < SIZE_T_MOD"
    "sb_bufferSize sb + sb_bufferRemaining sb < SIZE_T_MOD" "env_avail env (grown m sb)"
proof -
  show g: "grown m sb \<le> max B (2 * n)" using grown_bound[OF assms(1), of m] assms(2,4) by auto
  then show "grown m sb < SIZE_T_MOD" "env_avail env (grown m sb)" using assms(3) by (auto simp: roomy_def)
  show "m < SIZE_T_MOD" using assms(3,4) by (auto simp: roomy_def)
  have "sb_bufferRemaining sb \<le> sb_bufferSize sb" using assms(1) by (auto simp: sb_rep_def)
  then show "sb_bufferSize sb + sb_bufferRemaining sb < SIZE_T_MOD" using assms(2,3) by (auto simp: roomy_def)
qed

lemma format_loop_rep:
  "sb_rep sb xs \<Longrightarrow> expand fmt args = Some ys \<Longrightarrow> \<forall>a \<in> set args. length (arg_text a) < B
    \<Longrightarrow> 0 < B \<Longrightarrow> B \<le> sb_bufferSize sb \<Longrightarrow> sb_bufferSize sb \<le> max B (2 * n) \<Longrightarrow> roomy env B n \<Longrightarrow> length xs + length ys \<le> n
    \<Longrightarrow> \<exists>sb'. format_loop env None fmt args sb = Inr (None, sb') \<and> sb_rep sb' (xs @ ys)
      \<and> B \<le> sb_bufferSize sb' \<and> sb_bufferSize sb' \<le> max B (2 * n) \<and> doubled sb sb'"
proof (induction env "None :: string option" fmt args sb arbitrary: xs ys rule: format_loop.induct)
  case (2 env c args sb)
  then have c: "c \<noteq> CHR ''%''" "ys = [c]" by (auto split: if_splits)
  have "length xs + 1 \<le> n" using "2.prems"(8) c(2) by simp
  note g = roomy_grown[OF "2.prems"(1,6,7) this]
  then show ?case using append_char_rep[OF "2.prems"(1) g(2,4,5), of c] c "2.prems"(4,5) by fastforce
next
  case (3 env c d cs args sb)
  show ?case
  proof (cases "c = CHR ''%''")
    case False
    then obtain r where r: "expand (d # cs) args = Some r" "ys = c # r" using "3.prems"(2) by auto
    have "length xs + 1 \<le> n" using "3.prems"(8) r(2) by simp
    note g = roomy_grown[OF "3.prems"(1,6,7) this]
    obtain sb1 where s: "append_char env c sb = Inr (None, sb1)" "sb_rep sb1 (xs @ [c])" "sb_bufferSize sb \<le> sb_bufferSize sb1"
        "sb_bufferSize sb1 \<le> grown 1 sb" "doubled sb sb1"
      using append_char_rep[OF "3.prems"(1) g(2,4,5), of c] "3.prems"(4,5) by auto
    have "\<exists>sb'. format_loop env None (d # cs) args sb1 = Inr (None, sb') \<and> sb_rep sb' ((xs @ [c]) @ r)
        \<and> B \<le> sb_bufferSize sb' \<and> sb_bufferSize sb' \<le> max B (2 * n) \<and> doubled sb1 sb'"
      by (rule "3.hyps"(2)[OF False s(1) refl _ s(2) r(1) "3.prems"(3)])
         (use "3.prems" g(1) s(3,4) r(2) in \<open>auto\<close>)
    then show ?thesis using False s(1) r(2) doubled_trans[OF s(5)] by auto
  next
    case True
    obtain a args' r where a: "args = a # args'" "expand cs args' = Some r" "ys = arg_text a @ r"
        "\<And>sb. convert env None d args sb = rbind (append_text env (arg_text a) sb) (\<lambda>q. Inr (args', q))"
    proof (cases "d = CHR ''d''")
      case d: True
      then obtain i args' r where "args = Arg_d i # args'" "expand cs args' = Some r" "ys = print_int i @ r"
        using "3.prems"(2) True by (auto split: list.splits fmt_arg.splits)
      then show ?thesis using that[of "Arg_d i" args' r] d by (simp add: arg_text_def convert_def)
    next
      case d: False
      then obtain s args' r where "d = CHR ''s''" "args = Arg_s s # args'" "expand cs args' = Some r" "ys = s @ r"
        using "3.prems"(2) True by (auto split: list.splits fmt_arg.splits if_splits)
      then show ?thesis using that[of "Arg_s s" args' r] by (simp add: arg_text_def convert_def append_string_def)
    qed
    have "length xs + length (arg_text a) \<le> n" using "3.prems"(8) a(3) by simp
    note g = roomy_grown[OF "3.prems"(1,6,7) this]
    have "length (arg_text a) < sb_bufferSize sb" using "3.prems"(3,5) a(1) by auto
    then obtain sb1 where s: "append_text env (arg_text a) sb = Inr (None, sb1)" "sb_rep sb1 (xs @ arg_text a)"
        "sb_bufferSize sb1 = grown (length (arg_text a)) sb" "sb_bufferSize sb \<le> sb_bufferSize sb1" "doubled sb sb1"
      using append_text_rep[OF "3.prems"(1) g(2,3,4,5)] by blast
    have cv: "convert env None d args sb = Inr (args', None, sb1)" using a(4) s(1) by simp
    have "\<exists>sb'. format_loop env None cs args' sb1 = Inr (None, sb') \<and> sb_rep sb' ((xs @ arg_text a) @ r)
        \<and> B \<le> sb_bufferSize sb' \<and> sb_bufferSize sb' \<le> max B (2 * n) \<and> doubled sb1 sb'"
      by (rule "3.hyps"(1)[OF True cv refl refl _ s(2) a(2)])
         (use "3.prems" g(1) s(3,4) a(1,3) in \<open>auto\<close>)
    then show ?thesis using True cv a(3) doubled_trans[OF s(5)] by auto
  qed
qed (auto intro: doubled_refl)

subsection \<open>Properties\<close>

lemma read_cstr_string: "NUL \<notin> set s \<Longrightarrow> read_cstr (map Some s @ Some NUL # rest) = Inr s"
  by (induction s) auto

lemma read_cstr_take:
  assumes "take (Suc (length s)) b = map Some (s @ [NUL])" and "NUL \<notin> set s"
  shows "read_cstr b = Inr s"
proof -
  have "b = map Some s @ Some NUL # drop (Suc (length s)) b"
    using append_take_drop_id[of "Suc (length s)" b] assms(1) by simp
  then show ?thesis using read_cstr_string[OF assms(2)] by metis
qed

text \<open>C22: \<open>strbuf_sprintf\<close> appends to the text in the buffer exactly what the format and its arguments stand
  for, growing the buffer as needed, as long as each inserted argument is shorter than the buffer;
  the text read back is the old text followed by the new one. There is one exception, a write of
  the terminating NUL behind the block, and it can only happen when the whole text is exactly as long
  as the buffer doubled a number of times (or as the buffer itself, if its block has no byte
  to spare for the NUL).\<close>

theorem strbuf_sprintf_appends:
  assumes "sb_rep sb xs" and "expand format args = Some out" and "\<forall>a \<in> set args. length (arg_text a) < sb_bufferSize sb"
    and "0 < sb_bufferSize sb" and "roomy env (sb_bufferSize sb) (length xs + length out)" and "NUL \<notin> set (xs @ out)"
  shows "(\<exists>sb'. strbuf_sprintf env format args sb = Inr (None, sb') \<and> sb_rep sb' (xs @ out)
        \<and> strbuf_getString sb' = Inr (xs @ out))
    \<or> strbuf_sprintf env format args sb = Inl OutOfBounds
        \<and> (\<exists>k. length (xs @ out) = sb_bufferSize sb * 2 ^ k \<and> (k = 0 \<longrightarrow> length (sb_string sb) = sb_bufferSize sb))"
proof -
  obtain sb1 where s: "format_loop env None format args sb = Inr (None, sb1)" "sb_rep sb1 (xs @ out)" "doubled sb sb1"
    using format_loop_rep[OF assms(1-4) order_refl _ assms(5) order_refl] by auto
  let ?b = "sb_string sb1" and ?n = "length (xs @ out)"
  have r: "sb_cursor sb1 = ?n" "take ?n ?b = map Some (xs @ out)" "?n \<le> sb_bufferSize sb1" "sb_bufferSize sb1 \<le> length ?b"
    using s(2) by (auto simp: sb_rep_def)
  show ?thesis
  proof (cases "length ?b = ?n")
    case True
    then have "strbuf_sprintf env format args sb = Inl OutOfBounds"
      using s(1) r(1) by (simp add: strbuf_sprintf_def strbuf_sprintfQuoteSubstrings2_def put_bytes_def)
    moreover have "sb_bufferSize sb1 = ?n" using True r(3,4) by simp
    ultimately show ?thesis using s(3) True by (auto simp: doubled_def)
  next
    case False
    then obtain b where b: "put_bytes ?b ?n [NUL] = Inr b" "length b = length ?b" "take (Suc ?n) b = map Some ((xs @ out) @ [NUL])"
      using put_bytes_rep[of "xs @ out" "[NUL]" ?b] r by auto
    let ?sb = "sb1\<lparr> sb_string := b \<rparr>"
    have rep: "sb_rep ?sb (xs @ out)" using s(2) b(2) take_shorter[OF b(3), of ?n] by (simp add: sb_rep_def)
    have "strbuf_sprintf env format args sb = Inr (None, ?sb)"
      using s(1) r(1) b(1) sb_assert_rep[OF rep] by (simp add: strbuf_sprintf_def strbuf_sprintfQuoteSubstrings2_def Let_def)
    moreover have "strbuf_getString ?sb = Inr (xs @ out)" using read_cstr_take[OF b(3) assms(6)] by (simp add: strbuf_getString_def)
    ultimately show ?thesis using rep by blast
  qed
qed

definition demo_env :: environment where
  "demo_env = \<lparr> env_avail = (\<lambda>_. True), env_errOk = (True, True), env_reason = None \<rparr>"

definition demo_buf :: sStringBuffer where
  "demo_buf = \<lparr> sb_string = map Some ''id '' @ replicate 6 None, sb_cursor = 3, sb_bufferSize = 8, sb_bufferRemaining = 5 \<rparr>"

theorem strbuf_sprintf_appends_witness:
  "\<exists>sb'. strbuf_sprintf demo_env ''%d %s!'' [Arg_d 42, Arg_s ''forty''] demo_buf = Inr (None, sb')
     \<and> strbuf_getString sb' = Inr (''id '' @ ''42 forty!'')"
proof -
  have "sb_rep demo_buf ''id ''" by (simp add: sb_rep_def demo_buf_def)
  moreover have "expand ''%d %s!'' [Arg_d 42, Arg_s ''forty''] = Some ''42 forty!''" by code_simp
  moreover have "\<forall>a \<in> set [Arg_d 42, Arg_s ''forty'']. length (arg_text a) < sb_bufferSize demo_buf" by code_simp
  moreover have "roomy demo_env (sb_bufferSize demo_buf) (length ''id '' + length ''42 forty!'')"
    by (simp add: roomy_def demo_env_def demo_buf_def)
  moreover have "length (''id '' @ ''42 forty!'') \<noteq> sb_bufferSize demo_buf * 2 ^ k" for k
  proof (cases k)
    case (Suc j)
    have "(1 :: nat) \<le> 2 ^ j" by simp
    then have "(12 :: nat) < 16 * 2 ^ j" by linarith
    then show ?thesis using Suc by (simp add: demo_buf_def)
  qed (simp add: demo_buf_def)
  ultimately show ?thesis
    using strbuf_sprintf_appends[of demo_buf "''id ''" "''%d %s!''" "[Arg_d 42, Arg_s ''forty'']" "''42 forty!''" demo_env]
    by (auto simp: demo_buf_def)
qed

text \<open>A string inserted into a new buffer that is exactly twice as long as the buffer is copied with its
  terminating NUL into a block of exactly its length: the last byte is written behind the block.
  The byte that \<open>strbuf_create\<close> reserves for the NUL is not reserved when the buffer grows.\<close>

theorem strbuf_exact_fill_overflows:
  assumes "0 < n" and "2 * n < SIZE_T_MOD" and "length s = 2 * n" and "env_avail env (2 * n)"
  shows "rbind (strbuf_create True True n) (strbuf_sprintf env ''%s'' [Arg_s s]) = Inl OutOfBounds"
proof -
  obtain sb where sb: "strbuf_create True True n = Inr sb" "sb_rep sb []" "sb_bufferSize sb = n"
    using strbuf_create_rep[of n] assms(2) by auto
  have r: "sb_bufferRemaining sb = n" "sb_cursor sb = 0" using sb(2,3) by (auto simp: sb_rep_def)
  have a: "size_add n n = 2 * n" using assms(2) by (simp add: size_add_def)
  have "strbuf_enlarge env (2 * n) sb = Inr (None, sb\<lparr> sb_string := realloc_slots (2 * n) (sb_string sb),
      sb_bufferSize := 2 * n, sb_bufferRemaining := 2 * n \<rparr>)"
    using assms sb(3) r by (simp add: strbuf_enlarge_def a sb_assert_def Let_def)
  then have "append_text env s sb = Inl OutOfBounds" using assms(3) r(2) by (simp add: append_text_def put_bytes_def)
  then show ?thesis using sb(1) by (simp add: strbuf_sprintf_def strbuf_sprintfQuoteSubstrings2_def convert_def append_string_def)
qed

theorem strbuf_exact_fill_overflows_witness:
  "rbind (strbuf_create True True 2) (strbuf_sprintf demo_env ''%s'' [Arg_s ''four'']) = Inl OutOfBounds"
  by (rule strbuf_exact_fill_overflows) (simp_all add: demo_env_def)

text \<open>Binary data: \<open>strbuf_appendBinary\<close> appends the bytes, also NUL bytes and more bytes than the buffer
  has, and \<open>strbuf_destroyKeepString\<close> hands out a block that starts with all bytes appended.\<close>

theorem strbuf_appendBinary_appends:
  assumes "sb_rep sb xs" and "roomy env (sb_bufferSize sb) (length xs + length bytes)"
  shows "\<exists>sb'. strbuf_appendBinary env bytes sb = Inr (None, sb') \<and> sb_rep sb' (xs @ bytes)
    \<and> (case strbuf_destroyKeepString sb' of (block, n) \<Rightarrow> take n block = map Some (xs @ bytes))"
proof -
  note g = roomy_grown[OF assms(1) _ assms(2) order_refl]
  obtain sb' where "strbuf_appendBinary env bytes sb = Inr (None, sb')" "sb_rep sb' (xs @ bytes)"
    using appendBinary_rep[OF assms(1) g(2-5)] by auto
  then show ?thesis by (auto simp: strbuf_destroyKeepString_def sb_rep_def)
qed

theorem strbuf_appendBinary_appends_witness:
  "\<exists>sb'. strbuf_appendBinary demo_env [NUL, CHR ''x'', NUL] demo_buf = Inr (None, sb') \<and> sb_rep sb' (''id '' @ [NUL, CHR ''x'', NUL])"
  using strbuf_appendBinary_appends[of demo_buf "''id ''" demo_env "[NUL, CHR ''x'', NUL]"]
  by (auto simp: sb_rep_def demo_buf_def roomy_def demo_env_def)

text \<open>\<open>strbuf_stringList_popString\<close> does not step through a list of strings: it returns the string at the
  client's index and leaves the index as it was, so every call returns the first string, and a call
  at the end of the list follows a NULL pointer.\<close>

theorem strbuf_popString_stands_still:
  assumes "sb_rep sb (s @ NUL # rest)" and "NUL \<notin> set s"
  shows "strbuf_stringList_popString sb 0 = Inr (0, s)
    \<and> strbuf_stringList_popString sb (length (s @ NUL # rest)) = Inl NullDeref"
proof -
  have r: "sb_cursor sb = length (s @ NUL # rest)" "take (length (s @ NUL # rest)) (sb_string sb) = map Some (s @ NUL # rest)"
    using assms(1) by (auto simp: sb_rep_def)
  have "take (Suc (length s)) (sb_string sb) = map Some (s @ [NUL])" using take_shorter[OF r(2), of "Suc (length s)"] by simp
  then show ?thesis using read_cstr_take[OF _ assms(2)] r(1) by (simp add: strbuf_stringList_popString_def)
qed

theorem strbuf_popString_stands_still_witness:
  "\<exists>sb. sb_rep sb (''a'' @ NUL # ''b'') \<and> strbuf_stringList_popString sb 0 = Inr (0, ''a'')"
proof -
  let ?sb = "\<lparr> sb_string = map Some (''a'' @ NUL # ''b''), sb_cursor = 3, sb_bufferSize = 3, sb_bufferRemaining = 0 \<rparr>"
  have rep: "sb_rep ?sb (''a'' @ NUL # ''b'')" by (simp add: sb_rep_def)
  then have "strbuf_stringList_popString ?sb 0 = Inr (0, ''a'')" using strbuf_popString_stands_still[OF rep] by simp
  then show ?thesis using rep by blast
qed

text \<open>
  A percent sign at the end of a format reads behind it; quoting a character writes two bytes more than
  it reserves, and a character with its highest bit set is quoted as the first two digits of its
  sign extension.
\<close>

lemma format_ends_with_percent: "strbuf_sprintf env ''%'' args sb = Inl OutOfBounds"
  by (simp add: strbuf_sprintf_def strbuf_sprintfQuoteSubstrings2_def)

lemma quoting_overflows:
  "rbind (strbuf_create True True 2) (strbuf_sprintfQuoteSubstrings demo_env ''x'' ''%s'' [Arg_s ''x'']) = Inl OutOfBounds"
  by (simp add: strbuf_create_def strbuf_sprintfQuoteSubstrings_def strbuf_sprintfQuoteSubstrings2_def convert_def append_string_def
      quote_loop.simps advance_def put_bytes_def strbuf_enlarge_def size_add_def size_sub_def sb_assert_def demo_env_def Let_def
      quoted_def hex_digits.simps[of 120] hex_digits.simps[of 7] blit_def realloc_slots_def)

lemma quoted_high_character: "quoted (CHR 0xE5) = ''%ffffffe5c''"
proof -
  have "char_of (102 :: nat) = CHR ''f''" "char_of (101 :: nat) = CHR ''e''" "char_of (53 :: nat) = CHR ''5''" by code_simp+
  then show ?thesis by (simp add: quoted_def hex_digits.simps hex_digit_def Let_def)
qed

end
