(* ===== verification/File.thy ===== *)
theory File
  imports StrBuf
begin

section \<open>Files and lines\<close>

text \<open>
  \<open>src/file.c\<close>: reading lines from a stream, reading bytes written in hexadecimal, opening. A stream is
  what the operating system will deliver: bytes and failed reads, each with its \<open>errno\<close>, then the end
  of the file. \<open>errno\<close> of the thread is passed along, because the end of a file does not set it. A
  buffer is a block of slots.
\<close>

subsection \<open>Streams\<close>

datatype read_event = R_byte char | R_error int

record FILE =
  fl_input :: "read_event list"
  fl_eof :: bool

type_synonym buffer = "char option list"

datatype line_end = L_full | L_eof | L_error int

text \<open>The characters \<open>fgets\<close> takes: at most \<open>n\<close>, up to the newline, the end or a failing read.\<close>

fun get_line :: "nat \<Rightarrow> read_event list \<Rightarrow> string \<times> read_event list \<times> line_end" where
  "get_line 0 evs = ([], evs, L_full)"
| "get_line (Suc n) [] = ([], [], L_eof)"
| "get_line (Suc n) (R_error e # evs) = ([], evs, L_error e)"
| "get_line (Suc n) (R_byte c # evs) =
     (if c = CHR ''\<newline>'' then ([c], evs, L_full)
      else case get_line n evs of (s, rest, l) \<Rightarrow> (c # s, rest, l))"

text \<open>
  \<open>fgets\<close>: whether it returned the buffer. At the end of the file without a character the buffer stays
  as it was and \<open>errno\<close> too; after a failed read the contents of the buffer are indeterminate.
\<close>

definition fgets :: "nat \<Rightarrow> int \<Rightarrow> FILE \<Rightarrow> buffer \<Rightarrow> (bool \<times> int \<times> FILE \<times> buffer) res" where
  "fgets bufSize errno f buf =
     (case get_line (bufSize - 1) (fl_input f) of
        (s, rest, L_error e) \<Rightarrow> Inr (False, e, f\<lparr> fl_input := rest \<rparr>, replicate (length buf) None)
      | (s, rest, l) \<Rightarrow>
          let f1 = f\<lparr> fl_input := rest, fl_eof := (fl_eof f \<or> l = L_eof) \<rparr>
          in if l = L_eof \<and> s = [] then Inr (False, errno, f1, buf)
             else rbind (put_bytes buf 0 (s @ [NUL])) (\<lambda>buf1. Inr (True, errno, f1, buf1)))"

subsection \<open>Lines\<close>

lemma get_line_shorter:
  assumes "get_line n evs = (s, rest, l)"
  shows "length rest \<le> length evs \<and> (s \<noteq> [] \<longrightarrow> length rest < length evs)"
  using assms by (induction n evs arbitrary: s rest l rule: get_line.induct) (auto split: if_splits prod.splits)

lemma fgets_progress:
  assumes "fgets n errno f buf = Inr (True, errno1, f1, buf1)" and "read_slot buf1 0 = Inr c" and "c \<noteq> NUL"
  shows "length (fl_input f1) < length (fl_input f)"
proof -
  obtain s rest l where g: "get_line (n - 1) (fl_input f) = (s, rest, l)" by (metis prod_cases3)
  then have r: "fl_input f1 = rest" "put_bytes buf 0 (s @ [NUL]) = Inr buf1"
    using assms(1) by (cases l; auto simp: fgets_def Let_def res_iff split: if_splits)+
  have "s \<noteq> []" using r(2) assms(2,3) by (auto simp: put_bytes_def blit_def read_slot_def split: if_splits)
  then show ?thesis using get_line_shorter[OF g] r(1) by simp
qed

text \<open>The loop that skips comments: a comment that the end of the file cuts off is not skipped.\<close>

function skip_comments :: "nat \<Rightarrow> int \<Rightarrow> FILE \<Rightarrow> buffer \<Rightarrow> (bool \<times> int \<times> FILE \<times> buffer) res" where
  "skip_comments bufSize errno f buf =
     rbind (fgets bufSize errno f buf) (\<lambda>(ok, errno1, f1, buf1).
     if \<not> ok then Inr (False, errno1, f1, buf1)
     else rbind (read_slot buf1 0) (\<lambda>c.
       if \<not> fl_eof f1 \<and> c = CHR ''#'' then skip_comments bufSize errno1 f1 buf1
       else Inr (True, errno1, f1, buf1)))"
  by pat_completeness auto
termination
  by (relation "measure (\<lambda>(_, _, f, _). length (fl_input f))") (auto dest: fgets_progress)

declare skip_comments.simps [simp del]

text \<open>
  The loop that drops line ends, from \<open>lastIndex\<close> down. It has no lower bound: on a line of line ends
  only it reads in front of the buffer. \<open>lastIndex\<close> is a \<open>size_t\<close>; minus one stands for its wrapped
  value, which is as far outside the buffer.
\<close>

function strip_newlines :: "buffer \<Rightarrow> int \<Rightarrow> int res" where
  "strip_newlines buf lastIndex =
     rbind (read_slot buf lastIndex) (\<lambda>c.
     if c = CHR ''\<newline>'' \<or> c = CHR 0x0D then strip_newlines buf (lastIndex - 1) else Inr lastIndex)"
  by pat_completeness auto
termination
  by (relation "measure (\<lambda>(_, i). nat (i + 1))") (auto simp: res_iff)

declare strip_newlines.simps [simp del]

text \<open>The value returned, \<open>errno\<close>, the stream and the buffer.\<close>

definition file_readLine :: "nat \<Rightarrow> int \<Rightarrow> FILE \<Rightarrow> buffer \<Rightarrow> (int \<times> int \<times> FILE \<times> buffer) res" where
  "file_readLine bufSize errno f buf =
     rbind (skip_comments bufSize errno f buf) (\<lambda>(ok, errno1, f1, buf1).
     if \<not> ok then Inr (errno1, errno1, f1, buf1)
     else
       rbind (read_cstr buf1) (\<lambda>s.
       rbind (strip_newlines buf1 (int (length s) - 1)) (\<lambda>lastIndex.
       rbind (write_slot buf1 (lastIndex + 1) NUL) (\<lambda>buf2. Inr (0, errno1, f1, buf2)))))"

subsection \<open>Hexadecimal bytes\<close>

definition hex_value :: "char \<Rightarrow> nat option" where
  "hex_value c =
     (let n = (of_char c :: nat)
      in if 48 \<le> n \<and> n \<le> 57 then Some (n - 48)
         else if 97 \<le> n \<and> n \<le> 102 then Some (n - 87)
         else if 65 \<le> n \<and> n \<le> 70 then Some (n - 55) else None)"

fun read_hex :: "nat \<Rightarrow> string \<Rightarrow> nat" where
  "read_hex acc [] = acc"
| "read_hex acc (c # cs) = (case hex_value c of None \<Rightarrow> acc | Some d \<Rightarrow> read_hex (acc * 16 + d) cs)"

text \<open>
  \<open>strtoul(s, NULL, 16)\<close> on a string of at most two characters: blanks, a sign, digits; the value of a
  negative number wraps. A prefix \<open>0x\<close> has no room for a digit behind it and reads as zero either way.
\<close>

definition strtoul16 :: "string \<Rightarrow> nat" where
  "strtoul16 str =
     (case dropWhile is_space str of
        [] \<Rightarrow> 0
      | c # cs \<Rightarrow> if c = CHR ''-'' then size_sub 0 (read_hex 0 cs)
                  else if c = CHR ''+'' then read_hex 0 cs
                  else read_hex 0 (c # cs))"

text \<open>\<open>fread\<close> of two bytes, which succeeds only when both come; the characters before a NUL are read.\<close>

fun file_readHexAsBinary :: "read_event list \<Rightarrow> nat \<Rightarrow> (nat list \<times> read_event list) res" where
  "file_readHexAsBinary evs 0 = Inr ([], evs)"
| "file_readHexAsBinary (R_byte a # R_byte b # evs) (Suc byteCount) =
     (let byteValue = strtoul16 (takeWhile (\<lambda>c. c \<noteq> NUL) [a, b])
      in rbind (rassert (byteValue < 256)) (\<lambda>_.
         rbind (file_readHexAsBinary evs byteCount) (\<lambda>(bytes, rest). Inr (byteValue # bytes, rest))))"
| "file_readHexAsBinary evs (Suc byteCount) = Inl AssertFailed"

definition file_fopen :: "environment \<Rightarrow> 'f option \<Rightarrow> string \<Rightarrow> string \<Rightarrow> (Error \<times> 'f option) res" where
  "file_fopen env fopened fileName mode =
     rbind (if fopened = None
            then ErrNew (fst (env_errOk env)) (snd (env_errOk env)) ERR_UNKNOWN 0 (env_reason env)
                   (''fopen( \"'' @ fileName @ ''\", \"'' @ mode @ ''\" ) failed.'')
            else Inr None) (\<lambda>error. Inr (error, fopened))"

subsection \<open>The lines of a text\<close>

text \<open>A text of lines as a peer sends them: comments, and messages with any number of carriage returns.\<close>

datatype wire_line = Comment string | Message string nat

abbreviation CR :: char where "CR \<equiv> CHR 0x0D"
abbreviation NL :: char where "NL \<equiv> CHR ''\<newline>''"

fun line_text :: "wire_line \<Rightarrow> string" where
  "line_text (Comment s) = CHR ''#'' # s @ [NL]"
| "line_text (Message m k) = m @ replicate k CR @ [NL]"

fun line_ok :: "nat \<Rightarrow> wire_line \<Rightarrow> bool" where
  "line_ok n (Comment s) \<longleftrightarrow> NL \<notin> set s \<and> NUL \<notin> set s \<and> length s + 3 \<le> n"
| "line_ok n (Message m k) \<longleftrightarrow> m \<noteq> [] \<and> NL \<notin> set m \<and> NUL \<notin> set m \<and> hd m \<noteq> CHR ''#'' \<and> last m \<noteq> CR \<and> length m + k + 2 \<le> n"

fun messages :: "wire_line list \<Rightarrow> string list" where
  "messages [] = []"
| "messages (Comment s # ls) = messages ls"
| "messages (Message m k # ls) = m # messages ls"

text \<open>What the buffer holds after a line has been read: a comment as it came, a message stripped.\<close>

fun line_left :: "wire_line \<Rightarrow> string" where
  "line_left (Comment s) = CHR ''#'' # s @ [NL]"
| "line_left (Message m k) = m"

abbreviation bytes :: "string \<Rightarrow> read_event list" where "bytes s \<equiv> map R_byte s"

lemma get_line_line:
  "NL \<notin> set s \<Longrightarrow> length s < n \<Longrightarrow> get_line n (bytes s @ R_byte NL # evs) = (s @ [NL], evs, L_full)"
proof (induction s arbitrary: n)
  case Nil
  then show ?case by (cases n) auto
next
  case (Cons c s)
  then show ?case by (cases n) auto
qed

lemma fgets_line:
  assumes "fl_input f = bytes (s @ [NL]) @ evs" and "NL \<notin> set s" and "length s + 2 \<le> n" and "n \<le> length buf"
  shows "fgets n errno f buf = Inr (True, errno, f\<lparr> fl_input := evs \<rparr>, blit buf 0 (map Some (s @ [NL, NUL])))"
  using assms get_line_line[of s "n - 1" evs] by (simp add: fgets_def put_bytes_def Let_def)

lemma blit_front: "length s \<le> length buf \<Longrightarrow> blit buf 0 (map Some s) = map Some s @ drop (length s) buf"
  by (simp add: blit_def)

lemma skip_comment:
  assumes "fl_input f = bytes (line_text (Comment s)) @ evs" and "line_ok n (Comment s)" and "n \<le> length buf" and "\<not> fl_eof f"
  shows "\<exists>buf1. length buf1 = length buf \<and> read_cstr buf1 = Inr (line_left (Comment s))
    \<and> skip_comments n errno f buf = skip_comments n errno (f\<lparr> fl_input := evs \<rparr>) buf1"
proof -
  let ?b = "blit buf 0 (map Some ((CHR ''#'' # s) @ [NL, NUL]))"
  have g: "fgets n errno f buf = Inr (True, errno, f\<lparr> fl_input := evs \<rparr>, ?b)"
    using fgets_line[of f "CHR ''#'' # s" evs n buf errno] assms(1-3) by simp
  have b: "?b = map Some (CHR ''#'' # s @ [NL]) @ Some NUL # drop (length s + 3) buf"
    using blit_front[of "(CHR ''#'' # s) @ [NL, NUL]" buf] assms(2,3) by (simp add: numeral_3_eq_3)
  have "length ?b = length buf" using assms(2,3) by simp
  moreover have "read_cstr ?b = Inr (line_left (Comment s))"
    unfolding b using read_cstr_string[of "CHR ''#'' # s @ [NL]"] assms(2) by simp
  moreover have "read_slot ?b 0 = Inr (CHR ''#'')" unfolding b by (simp add: read_slot_def)
  ultimately show ?thesis using g assms(4) by (intro exI[of _ ?b]) (subst skip_comments.simps, simp)
qed

lemma read_slot_end: "read_slot (map Some s @ Some c # rest) (int (length s)) = Inr c"
  by (simp add: read_slot_def nth_append)

lemma strip_newlines_text:
  assumes "m \<noteq> []" and "last m \<noteq> CR" and "last m \<noteq> NL" and "\<forall>c \<in> set cs. c = CR \<or> c = NL"
  shows "strip_newlines (map Some (m @ cs) @ rest) (int (length (m @ cs)) - 1) = Inr (int (length m) - 1)"
  using assms(4)
proof (induction cs arbitrary: rest rule: rev_induct)
  case Nil
  have "read_slot (map Some m @ rest) (int (length m) - 1) = Inr (last m)"
    using assms(1) by (simp add: read_slot_def nth_append last_conv_nth nat_diff_distrib Suc_leI)
  then show ?case using assms(2,3) by (subst strip_newlines.simps) simp
next
  case (snoc c cs)
  have i: "int (length (m @ cs @ [c])) - 1 = int (length (m @ cs))" by simp
  have "map Some (m @ cs @ [c]) @ rest = map Some (m @ cs) @ Some c # rest" by simp
  moreover have "strip_newlines (map Some (m @ cs) @ Some c # rest) (int (length (m @ cs)) - 1) = Inr (int (length m) - 1)"
    using snoc by simp
  moreover have "c = CR \<or> c = NL" using snoc.prems by simp
  ultimately show ?case unfolding i using read_slot_end[of "m @ cs" c rest] by (subst strip_newlines.simps) auto
qed

lemma readLine_message:
  assumes "fl_input f = bytes (line_text (Message m k)) @ evs" and "line_ok n (Message m k)" and "n \<le> length buf"
  shows "\<exists>buf1. length buf1 = length buf \<and> read_cstr buf1 = Inr (line_left (Message m k))
    \<and> file_readLine n errno f buf = Inr (0, errno, f\<lparr> fl_input := evs \<rparr>, buf1)"
proof -
  let ?s = "m @ replicate k CR" and ?d = "drop (length m + k + 2) buf"
  let ?b = "map Some ((m @ replicate k CR @ [NL])) @ Some NUL # ?d"
  note ok = assms(2)[simplified]
  have n: "NL \<notin> set ?s" using ok by auto
  have "fgets n errno f buf = Inr (True, errno, f\<lparr> fl_input := evs \<rparr>, blit buf 0 (map Some (?s @ [NL, NUL])))"
    using fgets_line[of f ?s evs n buf errno] assms(1,3) n ok by simp
  moreover have "blit buf 0 (map Some (?s @ [NL, NUL])) = ?b"
    using blit_front[of "?s @ [NL, NUL]" buf] assms(3) ok by simp
  ultimately have g: "fgets n errno f buf = Inr (True, errno, f\<lparr> fl_input := evs \<rparr>, ?b)" by simp
  have "read_slot ?b 0 = Inr (hd m)" using ok by (cases m) (auto simp: read_slot_def)
  then have sk: "skip_comments n errno f buf = Inr (True, errno, f\<lparr> fl_input := evs \<rparr>, ?b)"
    using g ok by (subst skip_comments.simps) simp
  have rd: "read_cstr ?b = Inr (m @ replicate k CR @ [NL])" by (rule read_cstr_string) (use ok in auto)
  have "last m \<noteq> NL" using ok last_in_set[of m] by metis
  then have st: "strip_newlines ?b (int (length (m @ replicate k CR @ [NL])) - 1) = Inr (int (length m) - 1)"
    by (intro strip_newlines_text) (use ok in auto)
  let ?c = "?b[length m := Some NUL]"
  have "write_slot ?b (int (length m) - 1 + 1) NUL = Inr ?c" by (simp add: write_slot_def)
  then have "file_readLine n errno f buf = Inr (0, errno, f\<lparr> fl_input := evs \<rparr>, ?c)"
    unfolding file_readLine_def sk using rd st by simp
  moreover have "read_cstr ?c = Inr m"
  proof (rule read_cstr_take)
    show "take (Suc (length m)) ?c = map Some (m @ [NUL])" by (cases k) (simp_all add: list_update_append)
    show "NUL \<notin> set m" using ok by simp
  qed
  moreover have "length ?c = length buf" using ok assms(3) by (simp, linarith)
  ultimately show ?thesis by (intro exI[of _ ?c]) simp
qed

text \<open>At the end of the file nothing is read and the value returned is whatever \<open>errno\<close> holds.\<close>

lemma readLine_eof:
  assumes "fl_input f = []" and "2 \<le> n"
  shows "file_readLine n errno f buf = Inr (errno, errno, f\<lparr> fl_eof := True \<rparr>, buf)"
proof -
  obtain k where "n - 1 = Suc k" using assms(2) by (cases "n - 1") auto
  then have "fgets n errno f buf = Inr (False, errno, f\<lparr> fl_eof := True \<rparr>, buf)"
    using assms(1) by (simp add: fgets_def Let_def)
  then show ?thesis by (simp add: file_readLine_def skip_comments.simps)
qed

lemma readLine_comment:
  assumes "fl_input f = bytes (line_text (Comment s)) @ evs" and "line_ok n (Comment s)" and "n \<le> length buf" and "\<not> fl_eof f"
  shows "\<exists>buf1. length buf1 = length buf \<and> read_cstr buf1 = Inr (line_left (Comment s))
    \<and> file_readLine n errno f buf = file_readLine n errno (f\<lparr> fl_input := evs \<rparr>) buf1"
  using skip_comment[OF assms, of errno] by (auto simp: file_readLine_def)

lemma readLine_after_comments:
  assumes "\<forall>c \<in> set cs. line_ok n (Comment c)" and "line_ok n (Message m k)" and "n \<le> length buf"
  shows "\<exists>buf1. read_cstr buf1 = Inr m
    \<and> file_readLine n errno \<lparr> fl_input = bytes (concat (map line_text (map Comment cs @ [Message m k]))) @ evs, fl_eof = False \<rparr> buf
      = Inr (0, errno, \<lparr> fl_input = evs, fl_eof = False \<rparr>, buf1)"
  using assms(1,3)
proof (induction cs arbitrary: buf)
  case Nil
  then show ?case using readLine_message[OF _ assms(2) Nil.prems(2), of "\<lparr> fl_input = bytes (line_text (Message m k)) @ evs, fl_eof = False \<rparr>" evs errno]
    by auto
next
  case (Cons c cs)
  let ?rest = "bytes (concat (map line_text (map Comment cs @ [Message m k]))) @ evs"
  obtain b where "length b = length buf" "file_readLine n errno \<lparr> fl_input = bytes (line_text (Comment c)) @ ?rest, fl_eof = False \<rparr> buf
      = file_readLine n errno \<lparr> fl_input = ?rest, fl_eof = False \<rparr> b"
    using readLine_comment[of "\<lparr> fl_input = bytes (line_text (Comment c)) @ ?rest, fl_eof = False \<rparr>" c ?rest n buf errno] Cons.prems by auto
  then show ?case using Cons.IH[of b] Cons.prems by auto
qed

text \<open>An empty line, or one of carriage returns only, is read in front of the buffer.\<close>

lemma strip_newlines_all:
  assumes "\<forall>c \<in> set cs. c = CR \<or> c = NL"
  shows "strip_newlines (map Some cs @ rest) (int (length cs) - 1) = Inl OutOfBounds"
  using assms
proof (induction cs arbitrary: rest rule: rev_induct)
  case Nil
  then show ?case by (subst strip_newlines.simps) (simp add: read_slot_def)
next
  case (snoc c cs)
  then show ?case using read_slot_end[of cs c rest] by (subst strip_newlines.simps) auto
qed

lemma readLine_empty_line:
  assumes "fl_input f = bytes (replicate k CR @ [NL]) @ evs" and "k + 2 \<le> n" and "n \<le> length buf"
  shows "file_readLine n errno f buf = Inl OutOfBounds"
proof -
  let ?s = "replicate k CR @ [NL]"
  let ?b = "map Some ?s @ Some NUL # drop (k + 2) buf"
  have "fgets n errno f buf = Inr (True, errno, f\<lparr> fl_input := evs \<rparr>, ?b)"
    using fgets_line[of f "replicate k CR" evs n buf errno] assms blit_front[of "replicate k CR @ [NL, NUL]" buf] by simp
  moreover have "\<exists>c. read_slot ?b 0 = Inr c \<and> c \<noteq> CHR ''#''" by (cases k) (auto simp: read_slot_def)
  ultimately have "skip_comments n errno f buf = Inr (True, errno, f\<lparr> fl_input := evs \<rparr>, ?b)"
    by (subst skip_comments.simps) auto
  moreover have "read_cstr ?b = Inr ?s" by (rule read_cstr_string) auto
  moreover have "strip_newlines ?b (int (length ?s) - 1) = Inl OutOfBounds" by (rule strip_newlines_all) auto
  ultimately show ?thesis by (simp add: file_readLine_def)
qed

text \<open>Every call that does not fail consumes something or sees the end of the file.\<close>

lemma fgets_consumes:
  assumes "2 \<le> n" and "fgets n errno f buf = Inr (ok, errno1, f1, buf1)"
  shows "length (fl_input f1) \<le> length (fl_input f) \<and> (fl_eof f1 \<or> length (fl_input f1) < length (fl_input f))"
proof -
  obtain k where k: "n - 1 = Suc k" using assms(1) by (cases "n - 1") auto
  obtain s rest l where g: "get_line (n - 1) (fl_input f) = (s, rest, l)" by (metis prod_cases3)
  have "l = L_eof \<or> length rest < length (fl_input f)"
    using g k by (cases "fl_input f" rule: list.exhaust; cases "hd (fl_input f)")
      (auto split: if_splits prod.splits dest: get_line_shorter)
  then show ?thesis using g assms(2) get_line_shorter[OF g]
    by (cases l) (auto simp: fgets_def Let_def res_iff split: if_splits)
qed

lemma readLine_consumes:
  assumes "2 \<le> n" and "file_readLine n errno f buf = Inr (ret, errno1, f1, buf1)"
  shows "fl_eof f1 \<or> length (fl_input f1) < length (fl_input f)"
proof -
  have "skip_comments n errno f buf = Inr (ok, e1, f1, b1)
      \<Longrightarrow> length (fl_input f1) \<le> length (fl_input f) \<and> (fl_eof f1 \<or> length (fl_input f1) < length (fl_input f))" for ok e1 f1 b1
    using assms(1)
  proof (induction n errno f buf arbitrary: ok e1 f1 b1 rule: skip_comments.induct)
    case (1 n errno f buf)
    obtain k e2 f2 b2 where g: "fgets n errno f buf = Inr (k, e2, f2, b2)"
      using "1.prems"(1) by (subst (asm) skip_comments.simps) (auto simp: res_iff)
    note c = fgets_consumes[OF "1.prems"(2) g]
    show ?case
    proof (cases "k \<and> \<not> fl_eof f2 \<and> read_slot b2 0 = Inr (CHR ''#'')")
      case True
      then have "skip_comments n e2 f2 b2 = Inr (ok, e1, f1, b1)"
        using "1.prems"(1) g by (subst (asm) skip_comments.simps) simp
      then have "length (fl_input f1) \<le> length (fl_input f2) \<and> (fl_eof f1 \<or> length (fl_input f1) < length (fl_input f2))"
        using "1.IH"[OF g refl refl refl, of "CHR ''#''"] True "1.prems"(2) by blast
      then show ?thesis using c by linarith
    next
      case False
      then have "f1 = f2" using "1.prems"(1) g by (subst (asm) skip_comments.simps) (auto simp: res_iff split: if_splits)
      then show ?thesis using c by simp
    qed
  qed
  then show ?thesis using assms(2) by (auto simp: file_readLine_def res_iff split: prod.splits if_splits)
qed

subsection \<open>Bytes written in hexadecimal\<close>

definition hex_byte :: "nat \<Rightarrow> string" where
  "hex_byte b = [hex_digit (b div 16), hex_digit (b mod 16)]"

lemma hex_digit_cases:
  assumes "n < 16"
  shows "hex_value (hex_digit n) = Some n \<and> \<not> is_space (hex_digit n)
    \<and> hex_digit n \<noteq> CHR ''-'' \<and> hex_digit n \<noteq> CHR ''+'' \<and> hex_digit n \<noteq> NUL"
proof -
  define c where "c = (of_char (hex_digit n) :: nat)"
  have c: "c = (if n < 10 then 48 + n else 87 + n)" using assms by (simp add: c_def hex_digit_def of_char_of)
  then have "hex_value (hex_digit n) = Some n" "\<not> is_space (hex_digit n)"
    using assms by (auto simp: hex_value_def is_space_def c_def[symmetric])
  moreover have "hex_digit n \<noteq> d" if "(of_char d :: nat) < 48" for d
    using c that by (auto simp: c_def split: if_splits)
  ultimately show ?thesis by simp
qed

lemma strtoul16_hex_byte: "b < 256 \<Longrightarrow> strtoul16 (takeWhile (\<lambda>c. c \<noteq> NUL) (hex_byte b)) = b"
  using hex_digit_cases[of "b div 16"] hex_digit_cases[of "b mod 16"]
  by (simp add: hex_byte_def strtoul16_def less_mult_imp_div_less)

text \<open>Bytes written as two lower-case hexadecimal digits each are read back by \<open>file_readHexAsBinary\<close>
  unchanged, and nothing behind them is consumed.\<close>

theorem file_hex_roundtrip:
  assumes "\<forall>b \<in> set bs. b < 256"
  shows "file_readHexAsBinary (bytes (concat (map hex_byte bs)) @ rest) (length bs) = Inr (bs, rest)"
  using assms
proof (induction bs)
  case (Cons b bs)
  have "strtoul16 (takeWhile (\<lambda>c. c \<noteq> NUL) [hex_digit (b div 16), hex_digit (b mod 16)]) = b"
    using strtoul16_hex_byte[of b] Cons.prems by (simp add: hex_byte_def)
  then show ?case using Cons by (simp add: hex_byte_def Let_def del: takeWhile.simps)
qed simp

theorem file_hex_roundtrip_witness:
  "file_readHexAsBinary (bytes (concat (map hex_byte [0, 171, 255])) @ [R_byte NL]) 3 = Inr ([0, 171, 255], [R_byte NL])"
  using file_hex_roundtrip[of "[0, 171, 255]" "[R_byte NL]"] by (simp add: numeral_3_eq_3)

text \<open>Characters that are no digits are read as zero without a complaint; a minus sign fails the assertion.\<close>

lemma file_hex_garbage:
  "file_readHexAsBinary (bytes ''zz'') 1 = Inr ([0], [])"
  "file_readHexAsBinary (bytes ''-1'') 1 = Inl AssertFailed"
  by (simp_all add: strtoul16_def is_space_def hex_value_def size_sub_def Let_def One_nat_def)

end
