(* ===== verification/WordMap.thy ===== *)
theory WordMap
  imports HashTable Err CText File
begin

section \<open>Word maps\<close>

text \<open>
  \<open>src/wordMap.c\<close>: a two-way map between names and numbers, kept in two hash tables that share
  their entries. The entry comparison and hash functions are the real instances of the hash
  table's \<open>hash_keys\<close> interface. An entry carries its address; \<open>wm_live\<close> lists the entries that
  were allocated and not freed. A table the map's type does not ask for is \<open>None\<close>. The decimal
  conversions are those of the C library on the values the code uses. A map is saved to and loaded
  from a stream of bytes, through \<open>fscanf\<close>, \<open>fgets\<close> and \<open>file_readLine\<close>.
\<close>

subsection \<open>State\<close>

record sEntry =
  en_addr :: nat
  en_name :: string
  en_number :: "32 word"

record sWordMap =
  wm_name :: string
  wm_type :: "32 word"
  wm_byName :: "(sEntry, unit) Hasht option"
  wm_byNumber :: "(sEntry, unit) Hasht option"
  wm_live :: "nat list"

abbreviation FILE_FORMAT_VERSION :: int where "FILE_FORMAT_VERSION \<equiv> 2"
abbreviation DEFAULT_HASHTABLE_SIZE :: int where "DEFAULT_HASHTABLE_SIZE \<equiv> 1024"
abbreviation WORDMAP_BYNAME_NUMBER :: "32 word" where "WORDMAP_BYNAME_NUMBER \<equiv> 3"

definition has_names :: "32 word \<Rightarrow> bool" where
  "has_names t \<longleftrightarrow> t AND 1 \<noteq> 0"

definition has_numbers :: "32 word \<Rightarrow> bool" where
  "has_numbers t \<longleftrightarrow> t AND 2 \<noteq> 0"

subsection \<open>The key functions\<close>

fun strcmp :: "string \<Rightarrow> string \<Rightarrow> 32 word" where
  "strcmp [] [] = 0"
| "strcmp [] (d # ds) = -1"
| "strcmp (c # cs) [] = 1"
| "strcmp (c # cs) (d # ds) =
     (if c = d then strcmp cs ds else if (of_char c :: nat) < of_char d then -1 else 1)"

definition compareEntryNames :: "sEntry \<Rightarrow> sEntry \<Rightarrow> 32 word" where
  "compareEntryNames e1 e2 = strcmp (en_name e1) (en_name e2)"

definition compareEntryNumbers :: "sEntry \<Rightarrow> sEntry \<Rightarrow> 32 word" where
  "compareEntryNumbers e1 e2 = en_number e2 - en_number e1"

definition hashEntryName :: "sEntry \<Rightarrow> 32 word" where
  "hashEntryName e = HashString (Some (en_name e))"

definition hashEntryNumber :: "sEntry \<Rightarrow> 32 word" where
  "hashEntryNumber e = en_number e"

subsection \<open>Operations\<close>

definition wordMap_create2 ::
  "bool \<Rightarrow> allocator \<Rightarrow> string \<Rightarrow> 32 word \<Rightarrow> int \<Rightarrow> sWordMap res" where
  "wordMap_create2 structOk avail name type hashTableSize =
     rbind (rassert structOk) (\<lambda>_.
     rbind (if has_names type
            then HashCreateTable avail (size_of_int hashTableSize) hashEntryName compareEntryNames None
            else Inr None) (\<lambda>byName.
     rbind (if has_numbers type
            then HashCreateTable avail (size_of_int hashTableSize) hashEntryNumber compareEntryNumbers None
            else Inr None) (\<lambda>byNumber.
     Inr \<lparr> wm_name = name, wm_type = type, wm_byName = byName, wm_byNumber = byNumber, wm_live = [] \<rparr>)))"

definition wordMap_create :: "bool \<Rightarrow> allocator \<Rightarrow> string \<Rightarrow> 32 word \<Rightarrow> sWordMap res" where
  "wordMap_create structOk avail name type =
     wordMap_create2 structOk avail name type DEFAULT_HASHTABLE_SIZE"

definition wordMap_getType :: "sWordMap \<Rightarrow> 32 word" where
  "wordMap_getType m = wm_type m"

definition wordMap_getName :: "sWordMap \<Rightarrow> string" where
  "wordMap_getName m = wm_name m"

text \<open>
  \<open>wordMap_add\<close>: \<open>addr\<close> is the entry's address from \<open>malloc\<close>, \<open>node1\<close> and \<open>node2\<close> those of the
  table nodes. Duplicating a NULL name follows it. What \<open>HashAdd\<close> returns is not looked at.
\<close>

definition wordMap_add ::
  "nat option \<Rightarrow> nat option \<Rightarrow> nat option \<Rightarrow> sWordMap \<Rightarrow> string option \<Rightarrow> 32 word \<Rightarrow> sWordMap res" where
  "wordMap_add addr node1 node2 m name number =
     rbind (rassert (addr \<noteq> None)) (\<lambda>_.
     rbind (deref addr) (\<lambda>a.
     rbind (deref name) (\<lambda>nm.
     (let newEntry = \<lparr> en_addr = a, en_name = nm, en_number = number \<rparr>;
          m0 = m\<lparr> wm_live := a # wm_live m \<rparr>
      in rbind (if has_names (wm_type m)
                then rbind (deref (wm_byName m0)) (\<lambda>t.
                     rbind (HashAdd node1 True t newEntry) (\<lambda>(_, t').
                     Inr (m0\<lparr> wm_byName := Some t' \<rparr>)))
                else Inr m0) (\<lambda>m1.
         if has_numbers (wm_type m)
         then rbind (deref (wm_byNumber m1)) (\<lambda>t.
              rbind (HashAdd node2 True t newEntry) (\<lambda>(_, t').
              Inr (m1\<lparr> wm_byNumber := Some t' \<rparr>)))
         else Inr m1)))))"

text \<open>The templates on the stack: only the field the table looks at is set.\<close>

definition name_template :: "string \<Rightarrow> sEntry" where
  "name_template name = \<lparr> en_addr = 0, en_name = name, en_number = 0 \<rparr>"

definition number_template :: "32 word \<Rightarrow> sEntry" where
  "number_template number = \<lparr> en_addr = 0, en_name = [], en_number = number \<rparr>"

definition wordMap_findByName :: "sWordMap \<Rightarrow> string \<Rightarrow> 32 word res" where
  "wordMap_findByName m name =
     (if \<not> has_names (wm_type m) then Inr (-1)
      else rbind (deref (wm_byName m)) (\<lambda>t.
           rbind (HashFind t (name_template name)) (\<lambda>entry.
           Inr (case entry of None \<Rightarrow> -1 | Some e \<Rightarrow> en_number e))))"

definition wordMap_findByNumber :: "sWordMap \<Rightarrow> 32 word \<Rightarrow> string option res" where
  "wordMap_findByNumber m number =
     rbind (rassert (has_numbers (wm_type m))) (\<lambda>_.
     rbind (deref (wm_byNumber m)) (\<lambda>t.
     rbind (HashFind t (number_template number)) (\<lambda>entry. Inr (map_option en_name entry))))"

definition wordMap_getNoElements :: "sWordMap \<Rightarrow> int res" where
  "wordMap_getNoElements m =
     (if has_numbers (wm_type m)
      then rbind (deref (wm_byNumber m)) (\<lambda>t. Inr (HashGetElementCount t))
      else rbind (deref (wm_byName m)) (\<lambda>t. Inr (HashGetElementCount t)))"

definition wordMap_deleteByNumber :: "sWordMap \<Rightarrow> 32 word \<Rightarrow> sWordMap res" where
  "wordMap_deleteByNumber m number =
     rbind (rassert (has_numbers (wm_type m))) (\<lambda>_.
     rbind (deref (wm_byNumber m)) (\<lambda>t.
     rbind (HashFind t (number_template number)) (\<lambda>entry.
     rbind (rassert (entry \<noteq> None)) (\<lambda>_.
     rbind (deref entry) (\<lambda>e.
     rbind (HashDelete t e) (\<lambda>(r, t').
     rbind (rassert (r = 1)) (\<lambda>_.
     rbind (if has_names (wm_type m)
            then rbind (deref (wm_byName m)) (\<lambda>u.
                 rbind (HashDelete u e) (\<lambda>(r2, u').
                 rbind (rassert (r2 = 1)) (\<lambda>_. Inr (Some u'))))
            else Inr (wm_byName m)) (\<lambda>byName.
     Inr (m\<lparr> wm_byNumber := Some t', wm_byName := byName,
             wm_live := remove1 (en_addr e) (wm_live m) \<rparr>)))))))))"

definition wordMap_deleteByName :: "sWordMap \<Rightarrow> string \<Rightarrow> sWordMap res" where
  "wordMap_deleteByName m name =
     rbind (rassert (has_names (wm_type m))) (\<lambda>_.
     rbind (deref (wm_byName m)) (\<lambda>t.
     rbind (HashFind t (name_template name)) (\<lambda>entry.
     rbind (rassert (entry \<noteq> None)) (\<lambda>_.
     rbind (deref entry) (\<lambda>e.
     rbind (HashDelete t e) (\<lambda>(r, t').
     rbind (rassert (r = 1)) (\<lambda>_.
     rbind (if has_numbers (wm_type m)
            then rbind (deref (wm_byNumber m)) (\<lambda>u.
                 rbind (HashDelete u e) (\<lambda>(r2, u').
                 rbind (rassert (r2 = 1)) (\<lambda>_. Inr (Some u'))))
            else Inr (wm_byNumber m)) (\<lambda>byNumber.
     Inr (m\<lparr> wm_byName := Some t', wm_byNumber := byNumber,
             wm_live := remove1 (en_addr e) (wm_live m) \<rparr>)))))))))"

subsection \<open>The text form\<close>

text \<open>\<open>strsep(&p, " ")\<close>: the token before the first space, and \<open>p\<close> behind it or NULL.\<close>

definition strsep_space :: "string \<Rightarrow> string \<times> string option" where
  "strsep_space s = strsep '' '' s"

definition entry_line :: "sEntry \<Rightarrow> string" where
  "entry_line e = print_int (sint (en_number e)) @ '' '' @ en_name e"

text \<open>
  \<open>wordMap_save\<close>: the text it writes to the file. \<open>c\<close> is the address of the cursor; the loop over the
  cursor is \<open>cursor_collect\<close>.
\<close>

definition text_of :: "string list \<Rightarrow> string" where
  "text_of ls = concat (map (\<lambda>l. l @ [NL]) ls)"

definition wordMap_save :: "nat \<Rightarrow> nat \<Rightarrow> sWordMap \<Rightarrow> string res" where
  "wordMap_save fuel c m =
     rbind (if has_names (wm_type m) then deref (wm_byName m)
            else if has_numbers (wm_type m) then deref (wm_byNumber m)
            else Inl AssertFailed) (\<lambda>t.
     rbind (HashCursorCreate (Some c) (t, Map.empty)) (\<lambda>(_, s1).
     rbind (cursor_collect fuel c s1) (\<lambda>(entries, s2).
     rbind (HashCursorDestroy c s2) (\<lambda>_.
     Inr (text_of ([print_int FILE_FORMAT_VERSION, wm_name m, print_int (sint (wm_type m)),
           print_int (HashGetElementCount t)] @ map entry_line entries))))))"

text \<open>
  The characters a scan takes from a stream while they satisfy \<open>P\<close>; it stops in front of another
  character, at the end of the file, or behind a failing read.
\<close>

fun scan_while :: "(char \<Rightarrow> bool) \<Rightarrow> read_event list \<Rightarrow> string \<times> read_event list \<times> line_end" where
  "scan_while P [] = ([], [], L_eof)"
| "scan_while P (R_error e # evs) = ([], evs, L_error e)"
| "scan_while P (R_byte c # evs) =
     (if P c then (case scan_while P evs of (s, rest, l) \<Rightarrow> (c # s, rest, l)) else ([], R_byte c # evs, L_full))"

text \<open>
  \<open>fscanf(file, "%d\n", &v)\<close>: white space, a sign, digits, and then all white space, line ends or not.
  The variable is not written (\<open>None\<close>) when there are no digits; a number that does not fit an
  \<open>int\<close> is undefined.
\<close>

definition fscanf_int :: "FILE \<Rightarrow> (int option \<times> FILE) res" where
  "fscanf_int f =
     (case scan_while is_space (fl_input f) of (_, e1, l1) \<Rightarrow>
      if l1 \<noteq> L_full then Inr (None, f\<lparr> fl_input := e1, fl_eof := (fl_eof f \<or> l1 = L_eof) \<rparr>)
      else
        (let (sign, e2) = (case e1 of R_byte c # evs \<Rightarrow> if c = CHR ''-'' \<or> c = CHR ''+'' then ([c], evs) else ([], e1) | _ \<Rightarrow> ([], e1))
         in case scan_while is_digit e2 of (ds, e3, l3) \<Rightarrow>
            if ds = [] then Inr (None, f\<lparr> fl_input := e3, fl_eof := (fl_eof f \<or> l3 = L_eof) \<rparr>)
            else
              rbind (rguard SignedOverflow (in_int (atoi (sign @ ds)))) (\<lambda>_.
              case scan_while is_space e3 of (_, e4, l4) \<Rightarrow>
              Inr (Some (atoi (sign @ ds)), f\<lparr> fl_input := e4, fl_eof := (fl_eof f \<or> l3 = L_eof \<or> l4 = L_eof) \<rparr>))))"

text \<open>A variable that a failed conversion left as it was is read all the same.\<close>

definition scanned :: "int option \<Rightarrow> int res" where
  "scanned v = (case v of None \<Rightarrow> Inl UninitRead | Some i \<Rightarrow> Inr i)"

abbreviation WORDMAP_LOAD_BUFSIZE :: nat where "WORDMAP_LOAD_BUFSIZE \<equiv> 1024"

text \<open>One round of the loop of \<open>wordMap_load\<close>: what \<open>file_readLine\<close> returns is not looked at.\<close>

definition load_line :: "(nat \<Rightarrow> nat) \<Rightarrow> nat \<Rightarrow> int \<times> FILE \<times> sWordMap \<Rightarrow> (int \<times> FILE \<times> sWordMap) res" where
  "load_line addr i s =
     (case s of (errno, f, m) \<Rightarrow>
      rbind (file_readLine WORDMAP_LOAD_BUFSIZE errno f (replicate WORDMAP_LOAD_BUFSIZE None)) (\<lambda>(_, errno1, f1, block).
      rbind (read_cstr block) (\<lambda>buffer.
      (let (charPtr2, charPtr1) = strsep_space buffer
       in rbind (wordMap_add (Some (addr (3 * i))) (Some (addr (3 * i + 1))) (Some (addr (3 * i + 2))) m
                  charPtr1 (of_int (atoi charPtr2))) (\<lambda>m1. Inr (errno1, f1, m1))))))"

definition wordMap_load ::
  "bool \<Rightarrow> allocator \<Rightarrow> (nat \<Rightarrow> nat) \<Rightarrow> bool \<times> bool \<Rightarrow> int \<Rightarrow> FILE \<Rightarrow> (Error \<times> sWordMap option \<times> FILE) res" where
  "wordMap_load structOk avail addr errOk errno f =
     rbind (fscanf_int f) (\<lambda>(v, f1).
     rbind (fgets 256 errno f1 (replicate 256 None)) (\<lambda>(_, errno1, f2, block).
     rbind (read_cstr block) (\<lambda>line.
     rbind (write_slot block (int (length line) - 1) NUL) (\<lambda>block1.
     rbind (read_cstr block1) (\<lambda>name.
     rbind (scanned v) (\<lambda>version.
     if version = 1 \<or> version = 2 then
       rbind (if version = 1 then Inr (Some (uint WORDMAP_BYNAME_NUMBER), f2) else fscanf_int f2) (\<lambda>(type, f3).
       rbind (fscanf_int f3) (\<lambda>(count, f4).
       rbind (scanned type) (\<lambda>type.
       rbind (scanned count) (\<lambda>count.
       rbind (wordMap_create2 structOk avail name (of_int type) count) (\<lambda>m.
       rbind (rfold (load_line addr) [0..<nat count] (errno1, f4, m)) (\<lambda>(_, f5, m').
       Inr (None, Some m', f5)))))))
     else
       rbind (ErrNew (fst errOk) (snd errOk) ERR_APP 0 None
                (''Unsupported version number ('' @ print_int version @ '') in WordMap.'')) (\<lambda>e. Inr (e, None, f2))))))))"

definition str_at :: "string list \<Rightarrow> nat \<Rightarrow> string res" where
  "str_at str j = (if j < length str then Inr (str ! j) else Inl OutOfBounds)"

text \<open>One round of the loop that adds the entries, with the addresses \<open>malloc\<close> gives it.\<close>

definition add_line :: "(nat \<Rightarrow> nat) \<Rightarrow> string list \<Rightarrow> nat \<Rightarrow> nat \<Rightarrow> sWordMap \<Rightarrow> sWordMap res" where
  "add_line addr str j i m =
     rbind (str_at str (j + i)) (\<lambda>buffer.
     (let (charPtr2, charPtr1) = strsep_space buffer
      in wordMap_add (Some (addr (3 * i))) (Some (addr (3 * i + 1))) (Some (addr (3 * i + 2))) m
           charPtr1 (of_int (atoi charPtr2))))"

definition wordMap_createFromString ::
  "bool \<Rightarrow> allocator \<Rightarrow> (nat \<Rightarrow> nat) \<Rightarrow> bool \<times> bool \<Rightarrow> string list \<Rightarrow> (Error \<times> sWordMap option) res" where
  "wordMap_createFromString structOk avail addr errOk str =
     rbind (str_at str 0) (\<lambda>versionStr.
     rbind (str_at str 1) (\<lambda>name.
     (let version = atoi versionStr
      in if version = 1 then
           rbind (str_at str 2) (\<lambda>countStr.
           (let count = atoi countStr
            in rbind (wordMap_create2 structOk avail name WORDMAP_BYNAME_NUMBER count) (\<lambda>m.
               rbind (rfold (add_line addr str 3) [0..<nat count] m) (\<lambda>m'. Inr (None, Some m')))))
         else if version = 2 then
           rbind (str_at str 2) (\<lambda>typeStr.
           rbind (str_at str 3) (\<lambda>countStr.
           (let count = atoi countStr
            in rbind (wordMap_create2 structOk avail name (of_int (atoi typeStr)) count) (\<lambda>m.
               rbind (rfold (add_line addr str 4) [0..<nat count] m) (\<lambda>m'. Inr (None, Some m'))))))
         else
           rbind (ErrNew (fst errOk) (snd errOk) ERR_APP 0 None
                    ''Unsupported version number in WordMap.'') (\<lambda>e. Inr (e, None)))))"

subsection \<open>Cursors\<close>

text \<open>
  A word-map cursor is a block that holds a hash cursor; the hash cursor works on one of the two
  tables. The result of creation is the error or the hash cursor with its state.
\<close>

definition wordMap_cursor_create ::
  "bool \<Rightarrow> nat option \<Rightarrow> bool \<times> bool \<Rightarrow> bool \<times> bool \<Rightarrow> sWordMap \<Rightarrow> 32 word
   \<Rightarrow> (Error \<times> (nat option \<times> (sEntry, unit) hstate) option) res" where
  "wordMap_cursor_create blockOk addr err1Ok err2Ok m msk =
     (if wm_type m AND msk = 0 then
        rbind (ErrNew (fst err1Ok) (snd err1Ok) ERR_UNKNOWN 0 None
                 ''Requested a cursor for a mask by which the wordmap is not indexed.'') (\<lambda>error.
        rbind (rassert (error \<noteq> None)) (\<lambda>_. Inr (error, None)))
      else
        rbind (emalloc blockOk (fst err1Ok) (snd err1Ok)) (\<lambda>(error, block).
        if error \<noteq> None then
          rbind (ErrNew (fst err2Ok) (snd err2Ok) ERR_UNKNOWN 0 error
                   ''Failed to allocate memory for the word map cursor.'') (\<lambda>error2.
          rbind (rassert (error2 \<noteq> None)) (\<lambda>_. Inr (error2, None)))
        else
          rbind (deref block) (\<lambda>_.
          rbind (if msk = 2 then deref (wm_byNumber m)
                 else if msk = 1 then deref (wm_byName m)
                 else Inl AssertFailed) (\<lambda>t.
          rbind (HashCursorCreate addr (t, Map.empty)) (\<lambda>r. Inr (None, Some r))))))"

definition wordMap_cursor_destroy :: "nat \<Rightarrow> (sEntry, unit) hstate \<Rightarrow> (sEntry, unit) hstate res" where
  "wordMap_cursor_destroy c s = HashCursorDestroy c s"

definition wordMap_cursor_getElementNumber :: "nat \<Rightarrow> (sEntry, unit) hstate \<Rightarrow> 32 word res" where
  "wordMap_cursor_getElementNumber c s = rbind (HashCursorGetElement c s) (\<lambda>e. Inr (en_number e))"

definition wordMap_cursor_getElementName :: "nat \<Rightarrow> (sEntry, unit) hstate \<Rightarrow> string res" where
  "wordMap_cursor_getElementName c s = rbind (HashCursorGetElement c s) (\<lambda>e. Inr (en_name e))"

definition wordMap_cursor_goFirst :: "nat \<Rightarrow> (sEntry, unit) hstate \<Rightarrow> (sEntry, unit) hstate res" where
  "wordMap_cursor_goFirst c s = HashCursorGoFirst c s"

definition wordMap_cursor_goNext :: "nat \<Rightarrow> (sEntry, unit) hstate \<Rightarrow> (sEntry, unit) hstate res" where
  "wordMap_cursor_goNext c s = HashCursorGoNext c s"

definition wordMap_cursor_pastLastElement :: "nat \<Rightarrow> (sEntry, unit) hstate \<Rightarrow> bool res" where
  "wordMap_cursor_pastLastElement c s = HashCursorPastLastElement c s"

subsection \<open>The instances of the hash table interface\<close>

lemma strcmp_0 [simp]: "strcmp a b = 0 \<longleftrightarrow> a = b"
  by (induction a b rule: strcmp.induct) auto

lemma compareEntryNames_0 [simp]: "compareEntryNames e f = 0 \<longleftrightarrow> en_name e = en_name f"
  by (simp add: compareEntryNames_def)

lemma compareEntryNumbers_0 [simp]: "compareEntryNumbers e f = 0 \<longleftrightarrow> en_number e = en_number f"
  by (auto simp: compareEntryNumbers_def)

interpretation by_name: hash_keys hashEntryName compareEntryNames
  by unfold_locales (auto simp: hashEntryName_def)

interpretation by_number: hash_keys hashEntryNumber compareEntryNumbers
  by unfold_locales (auto simp: hashEntryNumber_def)

subsection \<open>Invariant\<close>

text \<open>
  A map indexed both ways: both tables are well-formed and hold the same entries, no two of
  which share a name or a number, each of them allocated at an address of its own.
\<close>

definition wm_tables :: "sWordMap \<Rightarrow> (sEntry, unit) Hasht \<Rightarrow> (sEntry, unit) Hasht \<Rightarrow> bool" where
  "wm_tables m t u \<longleftrightarrow>
     wm_type m = WORDMAP_BYNAME_NUMBER \<and> wm_byName m = Some t \<and> wm_byNumber m = Some u
     \<and> ht_for hashEntryName compareEntryNames t \<and> ht_for hashEntryNumber compareEntryNumbers u
     \<and> mset (ht_elems t) = mset (ht_elems u)
     \<and> distinct (map en_addr (ht_elems t)) \<and> set (map en_addr (ht_elems t)) \<subseteq> set (wm_live m)"

definition wm_wf :: "sWordMap \<Rightarrow> bool" where
  "wm_wf m \<longleftrightarrow>
     (case (wm_byName m, wm_byNumber m) of (Some t, Some u) \<Rightarrow> wm_tables m t u | _ \<Rightarrow> False)"

definition wm_entries :: "sWordMap \<Rightarrow> sEntry list" where
  "wm_entries m = (case wm_byName m of None \<Rightarrow> [] | Some t \<Rightarrow> ht_elems t)"

subsection \<open>Lemmas\<close>

lemma wm_type_both [simp]:
  "has_names WORDMAP_BYNAME_NUMBER" "has_numbers WORDMAP_BYNAME_NUMBER"
  by (simp_all add: has_names_def has_numbers_def)

lemma wm_wfE:
  assumes "wm_wf m"
  obtains t u where "wm_tables m t u"
  using assms by (auto simp: wm_wf_def split: option.splits)

lemma wm_wfI: "wm_tables m t u \<Longrightarrow> wm_wf m"
  by (simp add: wm_wf_def wm_tables_def)

lemma name_lookup_iff:
  "ht_for hashEntryName compareEntryNames t \<Longrightarrow>
   ht_lookup t k = Some x \<longleftrightarrow> x \<in> set (ht_elems t) \<and> en_name x = en_name k"
  using by_name.lookup_Some_iff[of t k x] by auto

lemma number_lookup_iff:
  "ht_for hashEntryNumber compareEntryNumbers t \<Longrightarrow>
   ht_lookup t k = Some x \<longleftrightarrow> x \<in> set (ht_elems t) \<and> en_number x = en_number k"
  using by_number.lookup_Some_iff[of t k x] by auto

lemma wm_find:
  assumes "wm_tables m t u"
  shows "wordMap_findByName m n
        = Inr (case ht_lookup t (name_template n) of None \<Rightarrow> -1 | Some e \<Rightarrow> en_number e)"
    "wordMap_findByNumber m k = Inr (map_option en_name (ht_lookup u (number_template k)))"
  using assms
  by (simp_all add: wm_tables_def wordMap_findByName_def wordMap_findByNumber_def ht_for_def HashFind_wf)

text \<open>The distinctness of addresses depends only on the multiset of entries.\<close>

lemma distinct_map_mset: "mset xs = mset ys \<Longrightarrow> distinct (map f xs) \<longleftrightarrow> distinct (map f ys)"
  by (metis mset_eq_imp_distinct_iff mset_map)

lemma set_elems_add: "mset xs = add_mset e (mset ys) \<Longrightarrow> set xs = insert e (set ys)"
  by (metis set_mset_mset set_mset_add_mset_insert)

lemma distinct_elems_add:
  "mset xs = add_mset e (mset ys) \<Longrightarrow> distinct (map f xs) \<longleftrightarrow> f e \<notin> f ` set ys \<and> distinct (map f ys)"
  using distinct_map_mset[of xs "e # ys" f] by simp

lemma wm_add:
  assumes m: "wm_tables m t u"
    and fresh: "\<forall>e \<in> set (ht_elems t). en_name e \<noteq> nm \<and> en_number e \<noteq> k" "a \<notin> set (wm_live m)"
    and count: "int (length (ht_elems t)) < INT_MAX"
  defines "e \<equiv> \<lparr> en_addr = a, en_name = nm, en_number = k \<rparr>"
  shows "\<exists>m' t' u'. wordMap_add (Some a) (Some n1) (Some n2) m (Some nm) k = Inr m' \<and> wm_tables m' t' u'
      \<and> (\<forall>x. ht_lookup t' x = (if en_name x = nm then Some e else ht_lookup t x))
      \<and> (\<forall>x. ht_lookup u' x = (if en_number x = k then Some e else ht_lookup u x))
      \<and> mset (ht_elems t') = add_mset e (mset (ht_elems t)) \<and> wm_live m' = a # wm_live m"
proof -
  have tu: "ht_for hashEntryName compareEntryNames t" "ht_for hashEntryNumber compareEntryNumbers u"
    "mset (ht_elems t) = mset (ht_elems u)" using m by (auto simp: wm_tables_def)
  have s: "set (ht_elems u) = set (ht_elems t)" "length (ht_elems u) = length (ht_elems t)"
    using tu(3) by (metis set_mset_mset) (metis tu(3) size_mset)
  have "ht_lookup t e = None"
    using name_lookup_iff[OF tu(1), of e] fresh(1) by (cases "ht_lookup t e") (auto simp: e_def)
  moreover have "ht_elementCount t < INT_MAX"
    using tu(1) count by (simp add: ht_for_def ht_wf_def ht_elems_def)
  ultimately obtain t' where t': "HashAdd (Some n1) True t e = Inr (1, t')"
      "ht_for hashEntryName compareEntryNames t'"
      "\<forall>x. ht_lookup t' x = (if compareEntryNames x e = 0 then Some e else ht_lookup t x)"
      "mset (ht_elems t') = add_mset e (mset (ht_elems t))"
    using by_name.add_fresh[OF tu(1), of e n1] by blast
  have "ht_lookup u e = None"
    using number_lookup_iff[OF tu(2), of e] fresh(1) s by (cases "ht_lookup u e") (auto simp: e_def)
  moreover have "ht_elementCount u < INT_MAX"
    using tu(2) count s by (simp add: ht_for_def ht_wf_def ht_elems_def)
  ultimately obtain u' where u': "HashAdd (Some n2) True u e = Inr (1, u')"
      "ht_for hashEntryNumber compareEntryNumbers u'"
      "\<forall>x. ht_lookup u' x = (if compareEntryNumbers x e = 0 then Some e else ht_lookup u x)"
      "mset (ht_elems u') = add_mset e (mset (ht_elems u))"
    using by_number.add_fresh[OF tu(2), of e n2] by blast
  let ?m = "m\<lparr> wm_live := a # wm_live m, wm_byName := Some t', wm_byNumber := Some u' \<rparr>"
  have "wordMap_add (Some a) (Some n1) (Some n2) m (Some nm) k = Inr ?m"
    using m t'(1) u'(1) by (simp add: wordMap_add_def wm_tables_def e_def)
  moreover have "wm_tables ?m t' u'"
    using m t' u' tu(3) fresh(2) distinct_elems_add[OF t'(4), of en_addr] set_elems_add[OF t'(4)]
    by (auto simp: wm_tables_def e_def)
  moreover have "en_name e = nm" "en_number e = k" by (simp_all add: e_def)
  ultimately show ?thesis
    using t'(3,4) u'(3) by (intro exI[of _ ?m] exI[of _ t'] exI[of _ u']) simp
qed

text \<open>Taking an entry out of both tables.\<close>

lemma wm_delete:
  assumes m: "wm_tables m t u" and e: "e \<in> set (ht_elems t)"
  shows "\<exists>t' u'. HashDelete t e = Inr (1, t') \<and> HashDelete u e = Inr (1, u')
      \<and> wm_tables (m\<lparr> wm_byName := Some t', wm_byNumber := Some u',
            wm_live := remove1 (en_addr e) (wm_live m) \<rparr>) t' u'
      \<and> (\<forall>x. ht_lookup t' x = (if en_name x = en_name e then None else ht_lookup t x))
      \<and> (\<forall>x. ht_lookup u' x = (if en_number x = en_number e then None else ht_lookup u x))
      \<and> mset (ht_elems t) = add_mset e (mset (ht_elems t'))"
proof -
  have tu: "ht_for hashEntryName compareEntryNames t" "ht_for hashEntryNumber compareEntryNumbers u"
    "mset (ht_elems t) = mset (ht_elems u)" using m by (auto simp: wm_tables_def)
  have eu: "e \<in> set (ht_elems u)" using tu(3) e by (metis set_mset_mset)
  obtain t' where t': "HashDelete t e = Inr (1, t')" "ht_for hashEntryName compareEntryNames t'"
      "\<forall>x. ht_lookup t' x = (if compareEntryNames x e = 0 then None else ht_lookup t x)"
      "mset (ht_elems t) = add_mset e (mset (ht_elems t'))"
    using by_name.delete_present[OF tu(1), of e e] name_lookup_iff[OF tu(1), of e e] e by blast
  obtain u' where u': "HashDelete u e = Inr (1, u')" "ht_for hashEntryNumber compareEntryNumbers u'"
      "\<forall>x. ht_lookup u' x = (if compareEntryNumbers x e = 0 then None else ht_lookup u x)"
      "mset (ht_elems u) = add_mset e (mset (ht_elems u'))"
    using by_number.delete_present[OF tu(2), of e e] number_lookup_iff[OF tu(2), of e e] eu by blast
  have "distinct (map en_addr (ht_elems t))" using m by (simp add: wm_tables_def)
  then have d: "en_addr e \<notin> en_addr ` set (ht_elems t')" "distinct (map en_addr (ht_elems t'))"
    by (simp_all add: distinct_elems_add[OF t'(4), of en_addr])
  have l: "set (map en_addr (ht_elems t)) \<subseteq> set (wm_live m)" using m by (simp add: wm_tables_def)
  have "set (map en_addr (ht_elems t')) \<subseteq> set (remove1 (en_addr e) (wm_live m))"
  proof
    fix y assume y: "y \<in> set (map en_addr (ht_elems t'))"
    then have "y \<noteq> en_addr e" using d(1) by (metis set_map)
    moreover have "y \<in> set (wm_live m)" using y l set_elems_add[OF t'(4)] by auto
    ultimately show "y \<in> set (remove1 (en_addr e) (wm_live m))" by (simp add: in_set_remove1)
  qed
  then have "wm_tables (m\<lparr> wm_byName := Some t', wm_byNumber := Some u',
      wm_live := remove1 (en_addr e) (wm_live m) \<rparr>) t' u'"
    using m t' u' tu(3) d by (simp add: wm_tables_def)
  then show ?thesis using t' u' by auto
qed

subsection \<open>Properties of the operations\<close>

text \<open>adding a new name with a new number to a well-formed two-way map makes each find the
  other and changes no other answer of either search; the map stays well-formed and has one
  element more.\<close>

theorem wordMap_add_then_find:
  assumes "wm_wf m" and "\<forall>e \<in> set (wm_entries m). en_name e \<noteq> nm \<and> en_number e \<noteq> k"
    and "a \<notin> set (wm_live m)" and "int (length (wm_entries m)) < INT_MAX"
  shows "\<exists>m'. wordMap_add (Some a) (Some n1) (Some n2) m (Some nm) k = Inr m' \<and> wm_wf m'
      \<and> (\<forall>n. wordMap_findByName m' n = (if n = nm then Inr k else wordMap_findByName m n))
      \<and> (\<forall>j. wordMap_findByNumber m' j = (if j = k then Inr (Some nm) else wordMap_findByNumber m j))
      \<and> mset (wm_entries m') = add_mset \<lparr> en_addr = a, en_name = nm, en_number = k \<rparr> (mset (wm_entries m))"
proof -
  obtain t u where m: "wm_tables m t u" using assms(1) by (rule wm_wfE)
  then have e: "wm_entries m = ht_elems t" by (simp add: wm_entries_def wm_tables_def)
  obtain m' t' u' where m': "wordMap_add (Some a) (Some n1) (Some n2) m (Some nm) k = Inr m'" "wm_tables m' t' u'"
      "\<forall>x. ht_lookup t' x = (if en_name x = nm then Some \<lparr> en_addr = a, en_name = nm, en_number = k \<rparr> else ht_lookup t x)"
      "\<forall>x. ht_lookup u' x = (if en_number x = k then Some \<lparr> en_addr = a, en_name = nm, en_number = k \<rparr> else ht_lookup u x)"
      "mset (ht_elems t') = add_mset \<lparr> en_addr = a, en_name = nm, en_number = k \<rparr> (mset (ht_elems t))"
    using wm_add[OF m, of nm k a n1 n2] assms(2-4) unfolding e by blast
  have "wm_entries m' = ht_elems t'" using m'(2) by (simp add: wm_entries_def wm_tables_def)
  moreover have "wm_wf m'" by (rule wm_wfI[OF m'(2)])
  ultimately show ?thesis
    using m'(1,3-5) e
    by (simp add: wm_find[OF m] wm_find[OF m'(2)] name_template_def number_template_def)
qed

text \<open>An entry at an address of its own per table; bucket 1 of the byName table holds it.\<close>

definition wm_one :: sWordMap where
  "wm_one =
     (let e = \<lparr> en_addr = 9, en_name = ''a'', en_number = 4 \<rparr>;
          n = \<lparr> hi_addr = 1, hi_data = e, hi_firstCursor = None \<rparr>
      in \<lparr> wm_name = ''map'', wm_type = 3,
           wm_byName = Some \<lparr> ht_size = 2, ht_elementCount = 1, ht_calcIndx = hashEntryName,
             ht_compData = compareEntryNames, ht_destrData = None, ht_debugLevel = 0,
             ht_infoArray = [[], [n]] \<rparr>,
           wm_byNumber = Some \<lparr> ht_size = 2, ht_elementCount = 1, ht_calcIndx = hashEntryNumber,
             ht_compData = compareEntryNumbers, ht_destrData = None, ht_debugLevel = 0,
             ht_infoArray = [[n], []] \<rparr>,
           wm_live = [9] \<rparr>)"

lemma wm_one_wf: "wm_wf wm_one"
proof -
  have "ht_wf (the (wm_byName wm_one))" "ht_wf (the (wm_byNumber wm_one))"
      "ht_elems (the (wm_byName wm_one)) = ht_elems (the (wm_byNumber wm_one))"
      "distinct (map en_addr (ht_elems (the (wm_byName wm_one))))"
      "set (map en_addr (ht_elems (the (wm_byName wm_one)))) \<subseteq> set (wm_live wm_one)"
    by code_simp+
  then have "wm_tables wm_one (the (wm_byName wm_one)) (the (wm_byNumber wm_one))"
    by (simp add: wm_tables_def ht_for_def) (simp add: wm_one_def Let_def)
  then show ?thesis by (rule wm_wfI)
qed

lemma wm_one_entries: "wm_entries wm_one = [\<lparr> en_addr = 9, en_name = ''a'', en_number = 4 \<rparr>]"
  by (simp add: wm_one_def wm_entries_def ht_elems_def Let_def)

theorem wordMap_add_then_find_witness:
  "\<exists>m'. wordMap_add (Some 10) (Some 11) (Some 12) wm_one (Some ''b'') 5 = Inr m' \<and> wm_wf m'
      \<and> wordMap_findByName m' ''b'' = Inr 5 \<and> wordMap_findByNumber m' 5 = Inr (Some ''b'')"
proof -
  have f: "\<forall>e \<in> set (wm_entries wm_one). en_name e \<noteq> ''b'' \<and> en_number e \<noteq> 5"
    "10 \<notin> set (wm_live wm_one)" "int (length (wm_entries wm_one)) < INT_MAX"
    by (simp_all add: wm_one_entries) (simp add: wm_one_def Let_def)
  show ?thesis using wordMap_add_then_find[OF wm_one_wf f, of 11 12] by auto
qed

text \<open>deleting an entry of a well-formed two-way map, by its name or by its number, gives the
  same map: the name is no longer found, the number is no longer found, every other answer stays,
  the entry is freed and the map is well-formed.\<close>

theorem wordMap_delete_removes:
  assumes "wm_wf m" and "e \<in> set (wm_entries m)"
  shows "\<exists>m'. wordMap_deleteByName m (en_name e) = Inr m' \<and> wordMap_deleteByNumber m (en_number e) = Inr m'
      \<and> wm_wf m'
      \<and> (\<forall>n. wordMap_findByName m' n = (if n = en_name e then Inr (-1) else wordMap_findByName m n))
      \<and> (\<forall>j. wordMap_findByNumber m' j = (if j = en_number e then Inr None else wordMap_findByNumber m j))
      \<and> wm_live m' = remove1 (en_addr e) (wm_live m)"
proof -
  obtain t u where m: "wm_tables m t u" using assms(1) by (rule wm_wfE)
  then have e: "wm_entries m = ht_elems t" by (simp add: wm_entries_def wm_tables_def)
  obtain t' u' where d: "HashDelete t e = Inr (1, t')" "HashDelete u e = Inr (1, u')"
      "wm_tables (m\<lparr> wm_byName := Some t', wm_byNumber := Some u',
          wm_live := remove1 (en_addr e) (wm_live m) \<rparr>) t' u'"
      "\<forall>x. ht_lookup t' x = (if en_name x = en_name e then None else ht_lookup t x)"
      "\<forall>x. ht_lookup u' x = (if en_number x = en_number e then None else ht_lookup u x)"
    using wm_delete[OF m, of e] assms(2) unfolding e by blast
  let ?m = "m\<lparr> wm_byName := Some t', wm_byNumber := Some u', wm_live := remove1 (en_addr e) (wm_live m) \<rparr>"
  have tu: "wm_type m = 3" "wm_byName m = Some t" "wm_byNumber m = Some u"
    "ht_for hashEntryName compareEntryNames t" "ht_for hashEntryNumber compareEntryNumbers u"
    "set (ht_elems u) = set (ht_elems t)"
    using m by (auto simp: wm_tables_def) (metis set_mset_mset)+
  have "HashFind t (name_template (en_name e)) = Inr (Some e)"
    using tu(4) name_lookup_iff[OF tu(4), of "name_template (en_name e)" e] assms(2) e
    by (simp add: ht_for_def HashFind_wf name_template_def)
  moreover have "HashFind u (number_template (en_number e)) = Inr (Some e)"
    using tu(5,6) number_lookup_iff[OF tu(5), of "number_template (en_number e)" e] assms(2) e
    by (simp add: ht_for_def HashFind_wf number_template_def)
  ultimately have "wordMap_deleteByName m (en_name e) = Inr ?m" "wordMap_deleteByNumber m (en_number e) = Inr ?m"
    using d(1,2) tu(1-3) by (simp_all add: wordMap_deleteByName_def wordMap_deleteByNumber_def)
  moreover have "wm_wf ?m" by (rule wm_wfI[OF d(3)])
  ultimately show ?thesis
    using d(4,5) by (intro exI[of _ ?m])
      (simp add: wm_find[OF m] wm_find[OF d(3)] name_template_def number_template_def)
qed

theorem wordMap_delete_removes_witness:
  "\<exists>m'. wordMap_deleteByName wm_one ''a'' = Inr m' \<and> wordMap_deleteByNumber wm_one 4 = Inr m'
      \<and> wm_wf m' \<and> wordMap_findByName m' ''a'' = Inr (-1) \<and> wordMap_findByNumber m' 4 = Inr None
      \<and> wm_live m' = []"
proof -
  have e: "\<lparr> en_addr = 9, en_name = ''a'', en_number = 4 \<rparr> \<in> set (wm_entries wm_one)"
    by (simp add: wm_one_entries)
  have l: "wm_live wm_one = [9]" by (simp add: wm_one_def Let_def)
  show ?thesis using wordMap_delete_removes[OF wm_one_wf e] by (auto simp: l)
qed

text \<open>\<open>wordMap_add\<close> does not look at what \<open>HashAdd\<close> returns. Giving a name a second number stores
  the entry in the number table only; deleting that second number then removes the first entry
  from the name table, so the name is lost although its first number is still there, and deleting
  the first number fails the assertion.\<close>

theorem wordMap_duplicate_name_breaks_map:
  "(rbind (wordMap_add (Some 10) (Some 11) (Some 12) wm_one (Some ''a'') 5) (\<lambda>m1.
    rbind (wordMap_deleteByNumber m1 5) (\<lambda>m2.
    rbind (wordMap_findByName m2 ''a'') (\<lambda>byName.
    rbind (wordMap_findByNumber m2 4) (\<lambda>byNumber. Inr (byName, byNumber))))) = Inr (-1, Some ''a''))
   \<and> (rbind (wordMap_add (Some 10) (Some 11) (Some 12) wm_one (Some ''a'') 5) (\<lambda>m1.
    rbind (wordMap_deleteByNumber m1 5) (\<lambda>m2.
    rbind (wordMap_deleteByNumber m2 4) (\<lambda>m3. Inr (wm_live m3)))) = Inl AssertFailed)"
  by code_simp

subsection \<open>Lemmas on the text form\<close>

lemma strsep_entry_line: "strsep_space (entry_line e) = (print_int (sint (en_number e)), Some (en_name e))"
proof -
  have a: "\<forall>c \<in> set (print_int (sint (en_number e))). c \<noteq> CHR '' ''" using print_int_no_space by blast
  then show ?thesis by (simp add: strsep_space_def entry_line_def strsep_token)
qed

subsection \<open>Lemmas on loading\<close>

definition en_pair :: "sEntry \<Rightarrow> string \<times> 32 word" where
  "en_pair e = (en_name e, en_number e)"

text \<open>The answers of the searches depend on the pairs only.\<close>

lemma pairs_sub:
  assumes "e \<in> A" and "en_pair ` A = en_pair ` B"
  obtains e' where "e' \<in> B" "en_name e' = en_name e" "en_number e' = en_number e"
proof -
  have "en_pair e \<in> en_pair ` B" using assms by blast
  then show ?thesis using that by (auto simp: en_pair_def)
qed

lemma name_lookup_pairs:
  assumes f: "ht_for hashEntryName compareEntryNames t" "ht_for hashEntryName compareEntryNames t'"
    and p: "en_pair ` set (ht_elems t) = en_pair ` set (ht_elems t')"
  shows "map_option en_number (ht_lookup t k) = map_option en_number (ht_lookup t' k)"
proof (cases "ht_lookup t k")
  case None
  have "ht_lookup t' k = None"
  proof (rule ccontr)
    assume "ht_lookup t' k \<noteq> None"
    then obtain e' where "e' \<in> set (ht_elems t')" "en_name e' = en_name k"
      using name_lookup_iff[OF f(2)] by blast
    then obtain e where "e \<in> set (ht_elems t)" "en_name e = en_name k"
      using pairs_sub[OF _ p[symmetric]] by metis
    then show False using name_lookup_iff[OF f(1), of k e] None by simp
  qed
  then show ?thesis using None by simp
next
  case (Some e)
  then obtain e' where "e' \<in> set (ht_elems t')" "en_name e' = en_name k" "en_number e' = en_number e"
    using name_lookup_iff[OF f(1), of k e] pairs_sub[OF _ p, of e] by metis
  then show ?thesis using Some name_lookup_iff[OF f(2), of k e'] by simp
qed

lemma number_lookup_pairs:
  assumes f: "ht_for hashEntryNumber compareEntryNumbers t" "ht_for hashEntryNumber compareEntryNumbers t'"
    and p: "en_pair ` set (ht_elems t) = en_pair ` set (ht_elems t')"
  shows "map_option en_name (ht_lookup t k) = map_option en_name (ht_lookup t' k)"
proof (cases "ht_lookup t k")
  case None
  have "ht_lookup t' k = None"
  proof (rule ccontr)
    assume "ht_lookup t' k \<noteq> None"
    then obtain e' where "e' \<in> set (ht_elems t')" "en_number e' = en_number k"
      using number_lookup_iff[OF f(2)] by blast
    then obtain e where "e \<in> set (ht_elems t)" "en_number e = en_number k"
      using pairs_sub[OF _ p[symmetric]] by metis
    then show False using number_lookup_iff[OF f(1), of k e] None by simp
  qed
  then show ?thesis using None by simp
next
  case (Some e)
  then obtain e' where "e' \<in> set (ht_elems t')" "en_number e' = en_number k" "en_name e' = en_name e"
    using number_lookup_iff[OF f(1), of k e] pairs_sub[OF _ p, of e] by metis
  then show ?thesis using Some number_lookup_iff[OF f(2), of k e'] by simp
qed

lemma wm_find_pairs:
  assumes m: "wm_tables m t u" "wm_tables m' t' u'"
    and p: "en_pair ` set (ht_elems t) = en_pair ` set (ht_elems t')"
  shows "wordMap_findByName m n = wordMap_findByName m' n"
    "wordMap_findByNumber m k = wordMap_findByNumber m' k"
proof -
  have us: "set (ht_elems u) = set (ht_elems t)" "set (ht_elems u') = set (ht_elems t')"
    using m by (auto simp: wm_tables_def) (metis set_mset_mset)+
  have num: "(case x of None \<Rightarrow> -1 | Some e \<Rightarrow> en_number e) = (case map_option en_number x of None \<Rightarrow> -1 | Some v \<Rightarrow> v)"
    for x by (cases x) auto
  show "wordMap_findByName m n = wordMap_findByName m' n"
    unfolding wm_find[OF m(1)] wm_find[OF m(2)] num
    using name_lookup_pairs[of t t' "name_template n"] m p by (simp add: wm_tables_def)
  show "wordMap_findByNumber m k = wordMap_findByNumber m' k"
    unfolding wm_find[OF m(1)] wm_find[OF m(2)]
    using number_lookup_pairs[of u u' "number_template k"] m p us by (simp add: wm_tables_def)
qed

lemma wordMap_create2_both:
  assumes "0 < n" and "n \<le> INT_MAX" and "sizeof_Hasht + nat n * sizeof_HashInfoPtr < SIZE_T_MOD"
    and "avail (sizeof_Hasht + nat n * sizeof_HashInfoPtr)"
  shows "\<exists>m t u. wordMap_create2 True avail nm WORDMAP_BYNAME_NUMBER n = Inr m \<and> wm_tables m t u
      \<and> ht_elems t = [] \<and> wm_live m = [] \<and> wm_name m = nm"
proof -
  let ?t = "\<lambda>calc cmp. \<lparr> ht_size = nat n, ht_elementCount = 0, ht_calcIndx = calc, ht_compData = cmp,
      ht_destrData = None, ht_debugLevel = 0, ht_infoArray = replicate (nat n) [] \<rparr>
      :: (sEntry, unit) Hasht"
  have sz: "size_of_int n = nat n" using assms(1,2) by (simp add: size_of_int_nonneg)
  have lt: "int (sizeof_Hasht + nat n * sizeof_HashInfoPtr) < 4294967296"
    using assms(3) by linarith
  then have b: "int (sizeof_Hasht + nat n * sizeof_HashInfoPtr) mod 4294967296
      = int (sizeof_Hasht + nat n * sizeof_HashInfoPtr)"
    by (intro mod_pos_pos_trivial) simp_all
  have c: "HashCreateTable avail (nat n) calc cmp None = Inr (Some (?t calc cmp))"
    for calc :: "sEntry \<Rightarrow> 32 word" and cmp
    unfolding HashCreateTable_def Let_def b nat_int
    using assms(1,4) lt by (simp del: of_nat_add of_nat_mult)
  have f: "ht_for calc cmp (?t calc cmp)" and e: "ht_elems (?t calc cmp) = []"
    for calc :: "sEntry \<Rightarrow> 32 word" and cmp
    using assms(1) by (simp_all add: ht_for_def ht_wf_def keys_differ_def ht_elems_def)
  show ?thesis
    using f[of hashEntryName compareEntryNames] f[of hashEntryNumber compareEntryNumbers] e
    by (simp add: wordMap_create2_def sz c wm_tables_def)
qed

text \<open>The loading loop: after \<open>i\<close> lines the map holds the first \<open>i\<close> pairs.\<close>

lemma add_lines:
  assumes str: "str = hdr @ map entry_line es" and j: "length hdr = j"
    and dn: "distinct (map en_name es)" "distinct (map en_number es)"
    and inj: "inj addr" and small: "int (length es) \<le> INT_MAX"
    and m: "wm_tables m t u" "ht_elems t = []" "wm_live m = []"
  shows "n \<le> length es \<Longrightarrow> \<exists>m' t' u'. rfold (add_line addr str j) [0..<n] m = Inr m' \<and> wm_tables m' t' u'
      \<and> mset (map en_pair (ht_elems t')) = mset (map en_pair (take n es))
      \<and> set (wm_live m') = (\<lambda>i. addr (3 * i)) ` {..<n} \<and> wm_name m' = wm_name m"
proof (induction n)
  case 0
  then show ?case using m by auto
next
  case (Suc n)
  then obtain m1 t1 u1 where m1: "rfold (add_line addr str j) [0..<n] m = Inr m1" "wm_tables m1 t1 u1"
      "mset (map en_pair (ht_elems t1)) = mset (map en_pair (take n es))"
      "set (wm_live m1) = (\<lambda>i. addr (3 * i)) ` {..<n}" "wm_name m1 = wm_name m"
    by auto
  let ?e = "es ! n"
  have n: "n < length es" using Suc.prems by simp
  have pairs: "en_pair ` set (ht_elems t1) = en_pair ` set (take n es)"
    using m1(3) by (metis set_map set_mset_mset)
  have fresh: "\<forall>e \<in> set (ht_elems t1). en_name e \<noteq> en_name ?e \<and> en_number e \<noteq> en_number ?e"
  proof
    fix e assume "e \<in> set (ht_elems t1)"
    then obtain e' where e': "e' \<in> set (take n es)" "en_name e' = en_name e" "en_number e' = en_number e"
      using pairs_sub[OF _ pairs] by metis
    then obtain i where "i < n" "e' = es ! i" using n by (auto simp: in_set_conv_nth)
    then show "en_name e \<noteq> en_name ?e \<and> en_number e \<noteq> en_number ?e"
      using e' n dn by (auto simp: distinct_conv_nth)
  qed
  have a: "addr (3 * n) \<notin> set (wm_live m1)"
    using m1(4) by (auto dest!: injD[OF inj])
  have len: "int (length (ht_elems t1)) < INT_MAX"
    using arg_cong[OF m1(3), of size] n small by simp
  obtain m2 t2 u2 where m2: "wordMap_add (Some (addr (3 * n))) (Some (addr (3 * n + 1))) (Some (addr (3 * n + 2)))
        m1 (Some (en_name ?e)) (en_number ?e) = Inr m2" "wm_tables m2 t2 u2"
      "mset (ht_elems t2) = add_mset \<lparr> en_addr = addr (3 * n), en_name = en_name ?e, en_number = en_number ?e \<rparr>
        (mset (ht_elems t1))" "wm_live m2 = addr (3 * n) # wm_live m1"
    using wm_add[OF m1(2) fresh a len, of "addr (3 * n + 1)" "addr (3 * n + 2)"] by blast
  have "str_at str (j + n) = Inr (entry_line ?e)"
    using str j n by (simp add: str_at_def nth_append)
  then have step: "add_line addr str j n m1 = Inr m2"
    using m2(1) by (simp add: add_line_def strsep_entry_line atoi_print_int)
  have "mset (map en_pair (ht_elems t2)) = mset (map en_pair (take (Suc n) es))"
    using m1(3) m2(3) n by (simp add: take_Suc_conv_app_nth en_pair_def)
  moreover have "wm_name m2 = wm_name m1"
    using m2(1) by (auto simp: wordMap_add_def Let_def res_iff split: if_splits)
  moreover have "set (wm_live m2) = (\<lambda>i. addr (3 * i)) ` {..<Suc n}"
    using m2(4) m1(4) by (auto simp: lessThan_Suc)
  moreover have "rfold (add_line addr str j) [0..<Suc n] m = Inr m2" using m1(1) step by simp
  ultimately show ?case using m2(2) m1(5) by auto
qed

lemma wordMap_save_lines:
  assumes "wm_tables m t u" and "ht_clean t" and "length (ht_elems t) < fuel"
  shows "wordMap_save fuel c m = Inr (text_of ([print_int 2, wm_name m, print_int 3, print_int (int (length (ht_elems t)))]
      @ map entry_line (ht_elems t)))"
proof -
  obtain s1 s2 cs where "HashCursorCreate (Some c) (t, Map.empty) = Inr (Some c, s1)"
      "cursor_collect fuel c s1 = Inr (ht_elems t, s2)" "HashCursorDestroy c s2 = Inr (t, cs)"
    using cursor_traversal[OF assms(2), of fuel c Map.empty] assms(3) by (auto simp: ht_elems_def)
  moreover have "HashGetElementCount t = int (length (ht_elems t))"
    using assms(1) by (simp add: wm_tables_def ht_for_def ht_wf_def HashGetElementCount_def ht_elems_def)
  ultimately show ?thesis
    using assms(1) by (simp add: wordMap_save_def wm_tables_def text_of_def)
qed

lemma entries_distinct:
  assumes "wm_tables m t u"
  shows "distinct (map en_name (ht_elems t))" "distinct (map en_number (ht_elems t))"
proof -
  have f: "ht_for hashEntryName compareEntryNames t" "ht_for hashEntryNumber compareEntryNumbers u"
    and d: "distinct (ht_elems t)" and us: "set (ht_elems u) = set (ht_elems t)"
    using assms by (auto simp: wm_tables_def distinct_map) (metis set_mset_mset)+
  have "x = y" if "x \<in> set (ht_elems t)" "y \<in> set (ht_elems t)" "en_name x = en_name y" for x y
    using that name_lookup_iff[OF f(1), of y x] name_lookup_iff[OF f(1), of y y] by simp
  then show "distinct (map en_name (ht_elems t))" using d by (auto simp: distinct_map inj_on_def)
  have "x = y" if "x \<in> set (ht_elems t)" "y \<in> set (ht_elems t)" "en_number x = en_number y" for x y
    using that us number_lookup_iff[OF f(2), of y x] number_lookup_iff[OF f(2), of y y] by simp
  then show "distinct (map en_number (ht_elems t))" using d by (auto simp: distinct_map inj_on_def)
qed

text \<open>The lines of a map, added one after the other to a new map of the saved size.\<close>

lemma read_back:
  assumes m: "wm_tables m t u" and inj: "inj addr"
    and ne: "ht_elems t \<noteq> []" "int (length (ht_elems t)) \<le> INT_MAX"
    and room: "sizeof_Hasht + length (ht_elems t) * sizeof_HashInfoPtr < SIZE_T_MOD"
      "avail (sizeof_Hasht + length (ht_elems t) * sizeof_HashInfoPtr)"
  defines "es \<equiv> ht_elems t"
  shows "\<exists>m0 m'. wordMap_create2 True avail (wm_name m) WORDMAP_BYNAME_NUMBER (int (length es)) = Inr m0
    \<and> rfold (add_line addr ([print_int 2, wm_name m, print_int 3, print_int (int (length es))] @ map entry_line es) 4) [0..<length es] m0 = Inr m'
    \<and> wm_wf m' \<and> wm_name m' = wm_name m \<and> (\<forall>n. wordMap_findByName m' n = wordMap_findByName m n)
    \<and> (\<forall>k. wordMap_findByNumber m' k = wordMap_findByNumber m k)"
proof -
  let ?hdr = "[print_int 2, wm_name m, print_int 3, print_int (int (length es))]"
  have n: "0 < int (length es)" "int (length es) \<le> INT_MAX" using ne by (auto simp: es_def)
  obtain m0 t0 u0 where m0: "wordMap_create2 True avail (wm_name m) WORDMAP_BYNAME_NUMBER (int (length es)) = Inr m0"
      "wm_tables m0 t0 u0" "ht_elems t0 = []" "wm_live m0 = []" "wm_name m0 = wm_name m"
    using wordMap_create2_both[OF n, of avail "wm_name m"] room unfolding es_def nat_int by blast
  have j: "length ?hdr = 4" by simp
  obtain m' t' u' where m': "rfold (add_line addr (?hdr @ map entry_line es) 4) [0..<length es] m0 = Inr m'"
      "wm_tables m' t' u'" "mset (map en_pair (ht_elems t')) = mset (map en_pair (take (length es) es))"
      "wm_name m' = wm_name m0"
    using add_lines[OF refl j entries_distinct[OF m, folded es_def] inj n(2) m0(2-4) order_refl] by blast
  have "en_pair ` set (ht_elems t') = en_pair ` set (ht_elems t)"
    using m'(3) unfolding es_def by (metis set_map set_mset_mset take_all order_refl)
  then show ?thesis
    using m0(1,5) m'(1,4) wm_find_pairs[OF m'(2) m] wm_wfI[OF m'(2)]
    by (intro exI[of _ m0] exI[of _ m'] conjI allI) simp_all
qed

subsection \<open>Properties of the text form\<close>

subsubsection \<open>Reading a saved text\<close>

lemma scan_while_bytes:
  "\<forall>c \<in> set s. P c \<Longrightarrow> \<not> P d \<Longrightarrow> scan_while P (bytes s @ R_byte d # evs) = (s, R_byte d # evs, L_full)"
  by (induction s) auto

lemma NL_space: "is_space NL" "\<not> is_digit NL" "\<not> is_space (CHR ''-'')"
  by (simp_all add: is_space_def is_digit_def)

text \<open>A number on a line of its own, with something that is no white space on the next line.\<close>

lemma fscanf_print_int:
  assumes "fl_input f = bytes (print_int i @ [NL]) @ R_byte c # evs" and "\<not> is_space c" and "in_int i"
  shows "fscanf_int f = Inr (Some i, f\<lparr> fl_input := R_byte c # evs \<rparr>)"
proof -
  define sg where "sg = (if i < 0 then [CHR ''-''] else [])"
  define ds where "ds = digits (nat \<bar>i\<bar>)"
  have pi: "print_int i = sg @ ds" by (simp add: print_int_def sg_def ds_def)
  have ds: "\<forall>d \<in> set ds. is_digit d" "ds \<noteq> []" by (auto simp: ds_def digits_are_digits digits_nonempty)
  obtain d ds' where d: "ds = d # ds'" "is_digit d" using ds by (cases ds) auto
  let ?rest = "R_byte NL # R_byte c # evs"
  have inp: "fl_input f = bytes sg @ bytes ds @ ?rest" using assms(1) pi by simp
  have head: "scan_while is_space (fl_input f) = ([], fl_input f, L_full)"
    using d not_space_digit[OF d(2)] by (simp add: inp sg_def NL_space)
  have sign: "(case fl_input f of R_byte c # evs \<Rightarrow> if c = CHR ''-'' \<or> c = CHR ''+'' then ([c], evs) else ([], fl_input f)
      | _ \<Rightarrow> ([], fl_input f)) = (sg, bytes ds @ ?rest)"
    using d not_space_digit[OF d(2)] by (simp add: inp sg_def)
  have dig: "scan_while is_digit (bytes ds @ ?rest) = (ds, ?rest, L_full)"
    using scan_while_bytes[OF ds(1) NL_space(2)] .
  have tail: "scan_while is_space ?rest = ([NL], R_byte c # evs, L_full)"
    using assms(2) by (simp add: NL_space)
  have v: "atoi (sg @ ds) = i" using atoi_print_int[of i] by (simp add: pi)
  show ?thesis
    unfolding fscanf_int_def head using ds(2) v assms(3)
    by (simp add: sign dig tail del: scan_while.simps)
qed

text \<open>The line with the name of the map.\<close>

lemma read_name:
  assumes "fl_input f = bytes (nm @ [NL]) @ evs" and "NL \<notin> set nm" and "NUL \<notin> set nm" and "length nm \<le> 254"
  shows "\<exists>block block1. fgets 256 errno f (replicate 256 None) = Inr (True, errno, f\<lparr> fl_input := evs \<rparr>, block)
    \<and> read_cstr block = Inr (nm @ [NL]) \<and> write_slot block (int (length (nm @ [NL])) - 1) NUL = Inr block1
    \<and> read_cstr block1 = Inr nm"
proof -
  let ?d = "drop (length nm + 2) (replicate 256 (None :: char option))"
  let ?b = "map Some (nm @ [NL]) @ Some NUL # ?d"
  have "blit (replicate 256 None) 0 (map Some (nm @ [NL, NUL])) = ?b"
    using blit_front[of "nm @ [NL, NUL]" "replicate 256 None"] assms(4) by simp
  then have "fgets 256 errno f (replicate 256 None) = Inr (True, errno, f\<lparr> fl_input := evs \<rparr>, ?b)"
    using fgets_line[OF assms(1,2), of 256 "replicate 256 None" errno] assms(4) by simp
  moreover have "read_cstr ?b = Inr (nm @ [NL])" by (rule read_cstr_string) (use assms(3) in auto)
  moreover have "write_slot ?b (int (length (nm @ [NL])) - 1) NUL = Inr (map Some nm @ Some NUL # Some NUL # ?d)"
    by (simp add: write_slot_def list_update_append)
  moreover have "read_cstr (map Some nm @ Some NUL # Some NUL # ?d) = Inr nm"
    by (rule read_cstr_string) (use assms(3) in auto)
  ultimately show ?thesis by blast
qed

text \<open>A name that a line of a file can carry.\<close>

definition name_ok :: "sEntry \<Rightarrow> bool" where
  "name_ok e \<longleftrightarrow> NL \<notin> set (en_name e) \<and> NUL \<notin> set (en_name e) \<and> (en_name e = [] \<or> last (en_name e) \<noteq> CR)
     \<and> length (entry_line e) + 2 \<le> WORDMAP_LOAD_BUFSIZE"

lemma digit_not: "is_digit c \<Longrightarrow> c \<noteq> NL \<and> c \<noteq> NUL \<and> c \<noteq> CHR ''#''"
  by (auto simp: is_digit_def)

lemma print_int_first:
  obtains c cs where "print_int i = c # cs" "\<not> is_space c" "c \<noteq> CHR ''#''"
proof (cases "print_int i")
  case Nil
  then show thesis using digits_nonempty by (auto simp: print_int_def split: if_splits)
next
  case (Cons c cs)
  then have "is_digit c \<or> c = CHR ''-''" using print_int_chars[of c i] by simp
  then show thesis using that Cons not_space_digit[of c] digit_not[of c] by (auto simp: is_space_def)
qed

lemma entry_line_ok: "name_ok e \<Longrightarrow> line_ok WORDMAP_LOAD_BUFSIZE (Message (entry_line e) 0)"
proof -
  assume n: "name_ok e"
  obtain c cs where p: "print_int (sint (en_number e)) = c # cs" "\<not> is_space c" "c \<noteq> CHR ''#''"
    by (rule print_int_first)
  have "NL \<notin> set (print_int (sint (en_number e)))" "NUL \<notin> set (print_int (sint (en_number e)))"
    using print_int_chars digit_not by blast+
  then show ?thesis using n p by (auto simp: name_ok_def entry_line_def)
qed

lemma load_lines:
  assumes "\<forall>e \<in> set es. name_ok e" and "length hdr = 4"
  shows "n \<le> length es \<Longrightarrow> fl_input f = bytes (text_of (map entry_line es)) @ evs \<Longrightarrow>
    rfold (add_line addr (hdr @ map entry_line es) 4) [0..<n] m = Inr m' \<Longrightarrow>
    rfold (load_line addr) [0..<n] (errno, f, m)
      = Inr (errno, f\<lparr> fl_input := bytes (text_of (map entry_line (drop n es))) @ evs \<rparr>, m')"
proof (induction n arbitrary: m')
  case 0
  then show ?case by (cases f) simp
next
  case (Suc n)
  obtain m1 where m1: "rfold (add_line addr (hdr @ map entry_line es) 4) [0..<n] m = Inr m1"
      "add_line addr (hdr @ map entry_line es) 4 n m1 = Inr m'"
    using Suc.prems(3) by (auto simp: res_iff)
  let ?f = "f\<lparr> fl_input := bytes (text_of (map entry_line (drop n es))) @ evs \<rparr>"
  have IH: "rfold (load_line addr) [0..<n] (errno, f, m) = Inr (errno, ?f, m1)"
    using Suc.IH[OF _ Suc.prems(2) m1(1)] Suc.prems(1) by simp
  have n: "n < length es" using Suc.prems(1) by simp
  let ?e = "es ! n"
  have "drop n es = ?e # drop (Suc n) es" using n by (simp add: Cons_nth_drop_Suc)
  then have inp: "fl_input ?f = bytes (line_text (Message (entry_line ?e) 0)) @ bytes (text_of (map entry_line (drop (Suc n) es))) @ evs"
    by (simp add: text_of_def)
  have "line_ok WORDMAP_LOAD_BUFSIZE (Message (entry_line ?e) 0)"
    using entry_line_ok[of ?e] assms(1) n nth_mem by blast
  from readLine_message[OF inp this, of "replicate WORDMAP_LOAD_BUFSIZE None" errno]
  obtain block where b: "read_cstr block = Inr (entry_line ?e)"
      "file_readLine WORDMAP_LOAD_BUFSIZE errno ?f (replicate WORDMAP_LOAD_BUFSIZE None)
        = Inr (0, errno, f\<lparr> fl_input := bytes (text_of (map entry_line (drop (Suc n) es))) @ evs \<rparr>, block)"
    by auto
  have "str_at (hdr @ map entry_line es) (4 + n) = Inr (entry_line ?e)"
    using assms(2) n by (simp add: str_at_def nth_append)
  then have "load_line addr n (errno, ?f, m1)
      = Inr (errno, f\<lparr> fl_input := bytes (text_of (map entry_line (drop (Suc n) es))) @ evs \<rparr>, m')"
    using m1(2) b by (simp add: load_line_def add_line_def strsep_entry_line)
  then show ?case using IH by simp
qed

text \<open>The saved text, read by \<open>wordMap_load\<close> line by line: first the version, the name and the type.\<close>

lemma load_header:
  assumes nm: "nm \<noteq> []" "\<not> is_space (hd nm)" "NL \<notin> set nm" "NUL \<notin> set nm" "length nm \<le> 254"
    and d: "\<not> is_space d"
    and f: "fl_input f = bytes (text_of [print_int 2, nm, print_int 3]) @ R_byte d # rest"
  shows "wordMap_load structOk avail addr errOk errno f =
    rbind (fscanf_int (f\<lparr> fl_input := R_byte d # rest \<rparr>)) (\<lambda>(count, f4).
    rbind (scanned count) (\<lambda>count.
    rbind (wordMap_create2 structOk avail nm WORDMAP_BYNAME_NUMBER count) (\<lambda>m.
    rbind (rfold (load_line addr) [0..<nat count] (errno, f4, m)) (\<lambda>(_, f5, m'). Inr (None, Some m', f5)))))"
proof -
  let ?from_type = "bytes (print_int 3 @ [NL]) @ R_byte d # rest"
  obtain c cs where c: "nm = c # cs" "\<not> is_space c" using nm(1,2) by (cases nm) auto
  have "fl_input f = bytes (print_int 2 @ [NL]) @ R_byte c # (bytes (cs @ [NL]) @ ?from_type)"
    using f c(1) by (simp add: text_of_def)
  from fscanf_print_int[OF this c(2)] c(1) have 1: "fscanf_int f = Inr (Some 2, f\<lparr> fl_input := bytes (nm @ [NL]) @ ?from_type \<rparr>)"
    by (simp add: in_int_def)
  obtain block block1 where 2: "fgets 256 errno (f\<lparr> fl_input := bytes (nm @ [NL]) @ ?from_type \<rparr>) (replicate 256 None)
        = Inr (True, errno, f\<lparr> fl_input := ?from_type \<rparr>, block)"
      "read_cstr block = Inr (nm @ [NL])" "write_slot block (int (length (nm @ [NL])) - 1) NUL = Inr block1" "read_cstr block1 = Inr nm"
    using read_name[OF _ nm(3-5), of "f\<lparr> fl_input := bytes (nm @ [NL]) @ ?from_type \<rparr>" ?from_type errno] by auto
  have 3: "fscanf_int (f\<lparr> fl_input := ?from_type \<rparr>) = Inr (Some 3, f\<lparr> fl_input := R_byte d # rest \<rparr>)"
    using fscanf_print_int[of "f\<lparr> fl_input := ?from_type \<rparr>" 3 d rest] d by (simp add: in_int_def)
  show ?thesis
    unfolding wordMap_load_def 1 rbind_simps prod.case 2 scanned_def option.case
    using 3 by (simp del: rfold.simps)
qed

lemma load_text:
  fixes es :: "sEntry list" and nm
  defines "hdr \<equiv> [print_int 2, nm, print_int 3, print_int (int (length es))]"
  assumes nm: "nm \<noteq> []" "\<not> is_space (hd nm)" "NL \<notin> set nm" "NUL \<notin> set nm" "length nm \<le> 254"
    and es: "es \<noteq> []" "\<forall>e \<in> set es. name_ok e" "int (length es) \<le> INT_MAX"
    and m0: "wordMap_create2 structOk avail nm WORDMAP_BYNAME_NUMBER (int (length es)) = Inr m0"
    and m': "rfold (add_line addr (hdr @ map entry_line es) 4) [0..<length es] m0 = Inr m'"
    and f: "fl_input f = bytes (text_of (hdr @ map entry_line es)) @ evs"
  shows "wordMap_load structOk avail addr errOk errno f = Inr (None, Some m', f\<lparr> fl_input := evs \<rparr>)"
proof -
  let ?entries = "bytes (text_of (map entry_line es)) @ evs"
  let ?from_count = "bytes (print_int (int (length es)) @ [NL]) @ ?entries"
  obtain d ds where d: "print_int (int (length es)) = d # ds" "\<not> is_space d" by (rule print_int_first)
  have "fl_input f = bytes (text_of [print_int 2, nm, print_int 3]) @ R_byte d # (bytes (ds @ [NL]) @ ?entries)"
    using f d(1) by (simp add: hdr_def text_of_def)
  note h = load_header[OF nm d(2) this, of structOk avail addr errOk errno]
  have cnt: "R_byte d # (bytes (ds @ [NL]) @ ?entries) = ?from_count" using d(1) by simp
  obtain e es' where e: "es = e # es'" using es(1) by (cases es) auto
  obtain x xs where x: "print_int (sint (en_number e)) = x # xs" "\<not> is_space x" by (rule print_int_first)
  have ent: "?entries = R_byte x # (bytes (xs @ '' '' @ en_name e @ [NL]) @ bytes (text_of (map entry_line es')) @ evs)"
    using x(1) by (simp add: e text_of_def entry_line_def)
  have 4: "fscanf_int (f\<lparr> fl_input := ?from_count \<rparr>) = Inr (Some (int (length es)), f\<lparr> fl_input := ?entries \<rparr>)"
    using fscanf_print_int[OF _ x(2), of "f\<lparr> fl_input := ?from_count \<rparr>" "int (length es)"
        "bytes (xs @ '' '' @ en_name e @ [NL]) @ bytes (text_of (map entry_line es')) @ evs"] es(3)
    unfolding ent by (simp add: in_int_def)
  have 5: "rfold (load_line addr) [0..<length es] (errno, f\<lparr> fl_input := ?entries \<rparr>, m0) = Inr (errno, f\<lparr> fl_input := evs \<rparr>, m')"
    using load_lines[OF es(2), of hdr "length es" "f\<lparr> fl_input := ?entries \<rparr>" evs addr m0 m' errno] m'
    by (simp add: hdr_def text_of_def)
  show ?thesis
    unfolding h cnt 4 rbind_simps prod.case using 5 m0 by (simp add: scanned_def del: rfold.simps)
qed

text \<open>At the end of the file the white space behind a number ends there.\<close>

lemma fscanf_zero_end:
  assumes "fl_input f = bytes (''0'' @ [NL])"
  shows "fscanf_int f = Inr (Some 0, f\<lparr> fl_input := [], fl_eof := True \<rparr>)"
  using assms by (simp add: fscanf_int_def is_space_def is_digit_def atoi_def read_digits_def in_int_def)

text \<open>A newline in a name splits its line: the name that is loaded ends before it, and what follows is
  read as a line of its own.\<close>

lemma newline_splits_entry:
  assumes "name_ok e" and "fl_input f = bytes (text_of [entry_line (e\<lparr> en_name := en_name e @ NL # u \<rparr>)])"
    and "WORDMAP_LOAD_BUFSIZE \<le> length buf"
  shows "\<exists>buf1. read_cstr buf1 = Inr (entry_line e)
    \<and> file_readLine WORDMAP_LOAD_BUFSIZE errno f buf = Inr (0, errno, f\<lparr> fl_input := bytes (u @ [NL]) \<rparr>, buf1)"
proof -
  have "fl_input f = bytes (line_text (Message (entry_line e) 0)) @ bytes (u @ [NL])"
    using assms(2) by (simp add: text_of_def entry_line_def)
  from readLine_message[OF this entry_line_ok[OF assms(1)] assms(3), of errno] show ?thesis by auto
qed

text \<open>C8: round trip through a file. A two-way map with at least one element whose names the file format can
  carry is written by \<open>wordMap_save\<close> as one text, and \<open>wordMap_load\<close>, reading that text from a file that may
  go on behind it, makes a well-formed map of the same name in which every name finds the same number and
  every number the same name, spaces in names and negative numbers included; it consumes the text and
  nothing more. What the format can carry: a name of the map that is not empty, does not begin with
  white space and has at most 254 characters; names of entries that do not end in a carriage return and whose
  lines fit the buffer of 1024; and no newline and no NUL in either.\<close>

theorem wordMap_save_load_roundtrip:
  assumes "wm_wf m" and "wm_byName m = Some t" and "ht_clean t" and "wm_entries m \<noteq> []"
    and "int (length (wm_entries m)) \<le> INT_MAX" and "inj addr"
    and "sizeof_Hasht + length (wm_entries m) * sizeof_HashInfoPtr < SIZE_T_MOD"
    and "avail (sizeof_Hasht + length (wm_entries m) * sizeof_HashInfoPtr)"
    and "length (wm_entries m) < fuel"
    and "wm_name m \<noteq> []" and "\<not> is_space (hd (wm_name m))" and "NL \<notin> set (wm_name m)" and "NUL \<notin> set (wm_name m)"
    and "length (wm_name m) \<le> 254"
    and "\<forall>e \<in> set (wm_entries m). NL \<notin> set (en_name e) \<and> NUL \<notin> set (en_name e)
      \<and> (en_name e = [] \<or> last (en_name e) \<noteq> CR) \<and> length (entry_line e) + 2 \<le> WORDMAP_LOAD_BUFSIZE"
  shows "\<exists>text m' f'. wordMap_save fuel c m = Inr text
      \<and> wordMap_load True avail addr errOk errno \<lparr> fl_input = bytes text @ evs, fl_eof = False \<rparr> = Inr (None, Some m', f')
      \<and> fl_input f' = evs \<and> wm_wf m' \<and> wordMap_getName m' = wordMap_getName m
      \<and> (\<forall>n. wordMap_findByName m' n = wordMap_findByName m n)
      \<and> (\<forall>k. wordMap_findByNumber m' k = wordMap_findByNumber m k)"
proof -
  obtain u where m: "wm_tables m t u" using assms(1,2) by (auto elim!: wm_wfE simp: wm_tables_def)
  have e: "wm_entries m = ht_elems t" using assms(2) by (simp add: wm_entries_def)
  let ?es = "ht_elems t" and ?hdr = "[print_int 2, wm_name m, print_int 3, print_int (int (length (ht_elems t)))]"
  let ?f = "\<lparr> fl_input = bytes (text_of (?hdr @ map entry_line ?es)) @ evs, fl_eof = False \<rparr>"
  obtain m0 m' where m0: "wordMap_create2 True avail (wm_name m) WORDMAP_BYNAME_NUMBER (int (length ?es)) = Inr m0"
    and m': "rfold (add_line addr (?hdr @ map entry_line ?es) 4) [0..<length ?es] m0 = Inr m'"
    and ok: "wm_wf m'" "wm_name m' = wm_name m" "\<forall>n. wordMap_findByName m' n = wordMap_findByName m n"
      "\<forall>k. wordMap_findByNumber m' k = wordMap_findByNumber m k"
    using read_back[OF m assms(6), of avail] assms(4,5,7,8) unfolding e by blast
  have "\<forall>e \<in> set ?es. name_ok e" using assms(15) unfolding e name_ok_def .
  then have "wordMap_load True avail addr errOk errno ?f = Inr (None, Some m', ?f\<lparr> fl_input := evs \<rparr>)"
    using load_text[OF assms(10-14) _ _ _ m0 m'] assms(4,5) e by simp
  then show ?thesis
    using wordMap_save_lines[OF m assms(3), of fuel c] assms(9) ok e by (auto simp: wordMap_getName_def)
qed

theorem wordMap_save_load_roundtrip_witness:
  "\<exists>text m' f'. wordMap_save 2 7 wm_one = Inr text
      \<and> wordMap_load True (\<lambda>n. n \<le> 28) id (True, True) 0 \<lparr> fl_input = bytes text @ bytes ''more'', fl_eof = False \<rparr> = Inr (None, Some m', f')
      \<and> fl_input f' = bytes ''more'' \<and> wordMap_findByName m' ''a'' = wordMap_findByName wm_one ''a''"
proof -
  let ?t = "the (wm_byName wm_one)"
  have t: "wm_byName wm_one = Some ?t" by (simp add: wm_one_def Let_def)
  have c: "ht_clean ?t" by code_simp
  have n: "wm_name wm_one = ''map''" by (simp add: wm_one_def Let_def)
  have s: "length (entry_line \<lparr> en_addr = 9, en_name = ''a'', en_number = 4 \<rparr>) = 3" by code_simp
  show ?thesis
    using wordMap_save_load_roundtrip[OF wm_one_wf t c, of id "\<lambda>n. n \<le> 28" 2 7 "(True, True)" 0 "bytes ''more''"]
    by (auto simp: wm_one_entries n s is_space_def)
qed

text \<open>What \<open>wordMap_createFromString\<close> makes of the same lines, given as an array: the array needs no
  condition on the names.\<close>

theorem wordMap_createFromString_lines:
  assumes "wm_wf m" and "wm_byName m = Some t" and "wm_entries m \<noteq> []"
    and "int (length (wm_entries m)) \<le> INT_MAX" and "inj addr"
    and "sizeof_Hasht + length (wm_entries m) * sizeof_HashInfoPtr < SIZE_T_MOD"
    and "avail (sizeof_Hasht + length (wm_entries m) * sizeof_HashInfoPtr)"
  shows "\<exists>m'. wordMap_createFromString True avail addr errOk
        ([print_int 2, wm_name m, print_int 3, print_int (int (length (wm_entries m)))] @ map entry_line (wm_entries m))
        = Inr (None, Some m')
      \<and> wm_wf m' \<and> wordMap_getName m' = wordMap_getName m
      \<and> (\<forall>n. wordMap_findByName m' n = wordMap_findByName m n)
      \<and> (\<forall>k. wordMap_findByNumber m' k = wordMap_findByNumber m k)"
proof -
  obtain u where m: "wm_tables m t u" using assms(1,2) by (auto elim!: wm_wfE simp: wm_tables_def)
  have e: "wm_entries m = ht_elems t" using assms(2) by (simp add: wm_entries_def)
  let ?str = "[print_int 2, wm_name m, print_int 3, print_int (int (length (ht_elems t)))] @ map entry_line (ht_elems t)"
  obtain m0 m' where m0: "wordMap_create2 True avail (wm_name m) WORDMAP_BYNAME_NUMBER (int (length (ht_elems t))) = Inr m0"
    and m': "rfold (add_line addr ?str 4) [0..<length (ht_elems t)] m0 = Inr m'"
    and ok: "wm_wf m'" "wm_name m' = wm_name m" "\<forall>n. wordMap_findByName m' n = wordMap_findByName m n"
      "\<forall>k. wordMap_findByNumber m' k = wordMap_findByNumber m k"
    using read_back[OF m assms(5), of avail] assms(3,4,6,7) unfolding e by blast
  have "wordMap_createFromString True avail addr errOk ?str = Inr (None, Some m')"
    using m0 m' by (simp add: wordMap_createFromString_def str_at_def atoi_print_int nth_Cons' del: rfold.simps)
  then show ?thesis using ok e by (auto simp: wordMap_getName_def)
qed

theorem wordMap_createFromString_lines_witness:
  "\<exists>m'. wordMap_createFromString True (\<lambda>n. n \<le> 28) id (True, True)
      ([print_int 2, ''map'', print_int 3, print_int 1] @ [entry_line \<lparr> en_addr = 9, en_name = ''a'', en_number = 4 \<rparr>]) = Inr (None, Some m')
    \<and> wm_wf m' \<and> wordMap_findByName m' ''a'' = wordMap_findByName wm_one ''a''"
proof -
  let ?t = "the (wm_byName wm_one)"
  have t: "wm_byName wm_one = Some ?t" "wm_name wm_one = ''map''" by (simp_all add: wm_one_def Let_def)
  show ?thesis
    using wordMap_createFromString_lines[OF wm_one_wf t(1), of id "\<lambda>n. n \<le> 28" "(True, True)"]
    by (auto simp: wm_one_entries t(2))
qed

text \<open>The round trip fails for an empty map. The saved element count is used as the size of the
  hash tables on loading, so a map saved with no entries is written without an error and cannot
  be read back: \<open>HashCreateTable\<close> asserts that its size is not zero.\<close>

theorem wordMap_empty_not_loadable:
  "rbind (wordMap_create True (\<lambda>_. True) ''map'' WORDMAP_BYNAME_NUMBER) (\<lambda>m.
   rbind (wordMap_save 1 7 m) (\<lambda>text.
   wordMap_load True (\<lambda>_. True) addr errOk errno \<lparr> fl_input = bytes text, fl_eof = False \<rparr>)) = Inl AssertFailed"
proof -
  obtain m t u where m: "wordMap_create2 True (\<lambda>_. True) ''map'' WORDMAP_BYNAME_NUMBER 1024 = Inr m"
      "wm_tables m t u" "ht_elems t = []" "wm_name m = ''map''"
    using wordMap_create2_both[of 1024 "\<lambda>_. True" "''map''"] by auto
  have "concat (ht_infoArray t) = []" using m(3) unfolding ht_elems_def by (metis list.map_disc_iff)
  moreover have "length (ht_infoArray t) = ht_size t"
    using m(2) by (simp add: wm_tables_def ht_for_def ht_wf_def)
  ultimately have "ht_clean t" unfolding ht_clean_def by (simp only: list.map distinct.simps list.pred_inject simp_thms)
  then have save: "wordMap_save 1 7 m = Inr (text_of [print_int 2, ''map'', print_int 3] @ print_int 0 @ [NL])"
    using wordMap_save_lines[OF m(2), of 1 7] m(3,4) by (simp add: text_of_def)
  have zero: "print_int 0 = ''0''" by code_simp
  let ?f = "\<lparr> fl_input = bytes (text_of [print_int 2, ''map'', print_int 3] @ print_int 0 @ [NL]), fl_eof = False \<rparr>"
  have "wordMap_load True (\<lambda>_. True) addr errOk errno ?f = Inl AssertFailed"
    using load_header[of "''map''" "CHR ''0''" ?f "[R_byte NL]" True "\<lambda>_. True" addr errOk errno]
      fscanf_zero_end[of "?f\<lparr> fl_input := bytes (''0'' @ [NL]) \<rparr>"]
    by (simp add: zero is_space_def scanned_def wordMap_create2_def HashCreateTable_def size_of_int_def)
  then show ?thesis
    using m(1) save by (simp add: wordMap_create_def)
qed

end
