(* ===== verification/SlotAllocator.thy ===== *)
theory SlotAllocator
  imports Prelude
begin

section \<open>The slot allocator contract\<close>

text \<open>
  Tables that hand out small integers for elements and take them back through a free list: the
  identifier table and the memory manager. The contract: an addition returns an index that was
  not in use and changes nothing else, an index in use returns its element, and a removal frees
  exactly that index. The shared representation of free lists follows.
\<close>

locale slot_allocator =
  fixes inv :: "'s \<Rightarrow> bool"
    and contents :: "'s \<Rightarrow> int \<rightharpoonup> 'a"
    and can_add :: "'s \<Rightarrow> bool"
    and add :: "'a \<Rightarrow> 's \<Rightarrow> (int \<times> 's) res"
    and remove :: "'s \<Rightarrow> int \<Rightarrow> 's res"
  assumes add_law: "inv s \<Longrightarrow> can_add s \<Longrightarrow>
      \<exists>i s'. add x s = Inr (i, s') \<and> inv s' \<and> contents s i = None \<and> contents s' = (contents s)(i \<mapsto> x)"
    and remove_law: "inv s \<Longrightarrow> contents s i \<noteq> None \<Longrightarrow>
      \<exists>s'. remove s i = Inr s' \<and> inv s' \<and> contents s' = (contents s)(i := None)"
begin

lemma add_remove:
  assumes "inv s" and "can_add s"
  shows "\<exists>s'. rbind (add x s) (\<lambda>(i, s1). remove s1 i) = Inr s' \<and> inv s' \<and> contents s' = contents s"
proof -
  obtain i s1 where s1: "add x s = Inr (i, s1)" "inv s1" "contents s i = None"
      "contents s1 = (contents s)(i \<mapsto> x)"
    using add_law[OF assms] by blast
  then obtain s2 where "remove s1 i = Inr s2" "inv s2" "contents s2 = (contents s1)(i := None)"
    using remove_law[of s1 i] by auto
  then show ?thesis using s1 by (auto simp: fun_upd_idem)
qed

lemma add_twice:
  assumes "inv s" and "can_add s" and "\<And>i s1. add x s = Inr (i, s1) \<Longrightarrow> can_add s1"
  shows "\<exists>i j s1 s2. add x s = Inr (i, s1) \<and> add y s1 = Inr (j, s2) \<and> i \<noteq> j
      \<and> contents s2 = (contents s)(i \<mapsto> x, j \<mapsto> y)"
proof -
  obtain i s1 where s1: "add x s = Inr (i, s1)" "inv s1" "contents s1 = (contents s)(i \<mapsto> x)"
    using add_law[OF assms(1,2)] by blast
  obtain j s2 where "add y s1 = Inr (j, s2)" "contents s1 j = None" "contents s2 = (contents s1)(j \<mapsto> y)"
    using add_law[OF s1(2) assms(3)[OF s1(1)]] by blast
  then show ?thesis using s1 by (auto split: if_splits)
qed

end

subsection \<open>Free lists in a table\<close>

text \<open>A slot holds the index of the next free slot or an element; \<open>None\<close> was never written.\<close>

datatype 'a slot = Free int | Used 'a

fun free_list :: "'a slot option list \<Rightarrow> int \<Rightarrow> int list \<Rightarrow> bool" where
  "free_list t f [] \<longleftrightarrow> f = -1"
| "free_list t f (i # is) \<longleftrightarrow>
     f = i \<and> 0 \<le> i \<and> i < int (length t)
     \<and> (case t ! nat i of Some (Free n) \<Rightarrow> free_list t n is | _ \<Rightarrow> False)"

definition slot_contents :: "'a slot option list \<Rightarrow> int \<rightharpoonup> 'a" where
  "slot_contents t i =
     (if 0 \<le> i \<and> i < int (length t) then (case t ! nat i of Some (Used x) \<Rightarrow> Some x | _ \<Rightarrow> None) else None)"

definition used_count :: "'a slot option list \<Rightarrow> int" where
  "used_count t = int (length (filter (\<lambda>s. case s of Some (Used x) \<Rightarrow> True | _ \<Rightarrow> False) t))"

text \<open>Every slot was written, and the free list runs through each free slot once.\<close>

definition table_wf :: "'a slot option list \<Rightarrow> int \<Rightarrow> bool" where
  "table_wf t f \<longleftrightarrow> None \<notin> set t
     \<and> (\<exists>fs. free_list t f fs \<and> distinct fs
          \<and> (\<forall>i. 0 \<le> i \<and> i < int (length t) \<and> slot_contents t i = None \<longrightarrow> i \<in> set fs))"

lemma free_list_range: "free_list t f fs \<Longrightarrow> i \<in> set fs \<Longrightarrow> 0 \<le> i \<and> i < int (length t) \<and> slot_contents t i = None"
  by (induction fs arbitrary: f) (auto simp: slot_contents_def split: option.splits slot.splits)

lemma free_list_update:
  "free_list t f fs \<Longrightarrow> i \<notin> set fs \<Longrightarrow> 0 \<le> i \<Longrightarrow> free_list (t[nat i := v]) f fs"
proof (induction fs arbitrary: f)
  case (Cons j js)
  then have "nat j \<noteq> nat i" by auto
  then show ?case using Cons by (auto split: option.splits slot.splits)
qed simp

lemma free_list_append: "free_list t f fs \<Longrightarrow> free_list (t @ u) f fs"
  by (induction fs arbitrary: f) (auto simp: nth_append split: option.splits slot.splits)

lemma slot_contents_update:
  "0 \<le> i \<Longrightarrow> i < int (length t) \<Longrightarrow>
   slot_contents (t[nat i := s]) = (slot_contents t)(i := (case s of Some (Used x) \<Rightarrow> Some x | _ \<Rightarrow> None))"
  by (auto simp: slot_contents_def fun_eq_iff nth_list_update nat_eq_iff split: option.splits slot.splits)

lemma length_filter_update:
  "i < length t \<Longrightarrow>
   int (length (filter P (t[i := v]))) = int (length (filter P t)) - (if P (t ! i) then 1 else 0) + (if P v then 1 else 0)"
proof (induction t arbitrary: i)
  case (Cons a t)
  show ?case
  proof (cases i)
    case (Suc j)
    then show ?thesis using Cons.IH[of j] Cons.prems by (auto split: if_splits)
  qed simp
qed simp

lemma used_count_update:
  "0 \<le> i \<Longrightarrow> i < int (length t) \<Longrightarrow>
   used_count (t[nat i := s]) = used_count t - (if slot_contents t i \<noteq> None then 1 else 0)
     + (case s of Some (Used x) \<Rightarrow> 1 | _ \<Rightarrow> 0)"
  unfolding used_count_def
  by (subst length_filter_update) (auto simp: slot_contents_def split: option.splits slot.splits)

text \<open>Taking the first free slot, and giving a used one back.\<close>

lemma table_wf_take:
  assumes "table_wf t f" and "f \<noteq> -1"
  shows "\<exists>n. 0 \<le> f \<and> f < int (length t) \<and> t ! nat f = Some (Free n) \<and> slot_contents t f = None
      \<and> table_wf (t[nat f := Some (Used x)]) n"
proof -
  obtain fs where fs: "free_list t f fs" "distinct fs"
      "\<forall>i. 0 \<le> i \<and> i < int (length t) \<and> slot_contents t i = None \<longrightarrow> i \<in> set fs"
    and w: "None \<notin> set t"
    using assms(1) by (auto simp: table_wf_def)
  then obtain gs n where g: "fs = f # gs" "0 \<le> f" "f < int (length t)" "t ! nat f = Some (Free n)"
      "free_list t n gs" "f \<notin> set gs" "distinct gs"
    using assms(2) by (cases fs) (auto split: option.splits slot.splits)
  let ?t = "t[nat f := Some (Used x)]"
  have "free_list ?t n gs" using free_list_update[OF g(5,6,2)] .
  moreover have "None \<notin> set ?t" using w set_update_subset_insert[of t "nat f" "Some (Used x)"] by auto
  moreover have "\<forall>i. 0 \<le> i \<and> i < int (length ?t) \<and> slot_contents ?t i = None \<longrightarrow> i \<in> set gs"
    using fs(3) g slot_contents_update[OF g(2,3), of "Some (Used x)"] by auto
  ultimately show ?thesis using g by (auto simp: table_wf_def slot_contents_def)
qed

lemma table_wf_give:
  assumes "table_wf t f" and "slot_contents t i \<noteq> None"
  shows "0 \<le> i \<and> i < int (length t) \<and> table_wf (t[nat i := Some (Free f)]) i"
proof -
  obtain fs where fs: "free_list t f fs" "distinct fs"
      "\<forall>i. 0 \<le> i \<and> i < int (length t) \<and> slot_contents t i = None \<longrightarrow> i \<in> set fs"
    and w: "None \<notin> set t"
    using assms(1) by (auto simp: table_wf_def)
  have i: "0 \<le> i" "i < int (length t)" using assms(2) by (auto simp: slot_contents_def split: if_splits)
  have n: "i \<notin> set fs" using free_list_range[OF fs(1), of i] assms(2) by auto
  let ?t = "t[nat i := Some (Free f)]"
  have "free_list ?t i (i # fs)" using i free_list_update[OF fs(1) n i(1)] by simp
  moreover have "None \<notin> set ?t" using w set_update_subset_insert[of t "nat i" "Some (Free f)"] by auto
  moreover have "\<forall>j. 0 \<le> j \<and> j < int (length ?t) \<and> slot_contents ?t j = None \<longrightarrow> j \<in> set (i # fs)"
    using fs(3) slot_contents_update[OF i, of "Some (Free f)"] by auto
  ultimately show ?thesis using i n fs(2) unfolding table_wf_def by (metis distinct.simps(2))
qed

end
