(* ===== verification/IdTable.thy ===== *)
theory IdTable
  imports SlotAllocator
begin

section \<open>Identifier tables\<close>

text \<open>
  \<open>src/idTable.c\<close>: a growing table whose free slots form a list through the union that otherwise
  holds the element. A slot is a value of the datatype \<open>slot\<close>: reading the wrong member of the
  union is \<open>LayoutMismatch\<close>. The source addresses slots in two ways, with the stride \<open>slotSize\<close>
  (the macro \<open>ELEMENT\<close>) and as an array of \<open>sTableSlot\<close>; the two agree at index 0 and when
  \<open>slotSize\<close> is the size of \<open>sTableSlot\<close>. The table is an instance of \<open>slot_allocator\<close>.
\<close>

subsection \<open>State and operations\<close>

record 'a sIDTable =
  it_table :: "'a slot option list"
  it_tableSize :: int
  it_firstFree :: int
  it_elementCount :: int
  it_elementSize :: nat
  it_slotSize :: nat

abbreviation sizeof_sTableSlot :: nat where "sizeof_sTableSlot \<equiv> 8"
abbreviation sizeof_ptr :: nat where "sizeof_ptr \<equiv> 4"

text \<open>\<open>ELEMENT(idt, i)\<close> and \<open>idt->table[i]\<close>.\<close>

definition ELEMENT :: "'a sIDTable \<Rightarrow> int \<Rightarrow> 'a slot res" where
  "ELEMENT idt i = read_slot (it_table idt) i"

definition table_at :: "'a sIDTable \<Rightarrow> int \<Rightarrow> 'a slot res" where
  "table_at idt i =
     rbind (rguard LayoutMismatch (i = 0 \<or> it_slotSize idt = sizeof_sTableSlot)) (\<lambda>_. ELEMENT idt i)"

definition set_slot :: "'a sIDTable \<Rightarrow> int \<Rightarrow> 'a slot \<Rightarrow> 'a sIDTable res" where
  "set_slot idt i s = rbind (write_slot (it_table idt) i s) (\<lambda>t. Inr (idt\<lparr> it_table := t \<rparr>))"

definition isFree :: "'a slot \<Rightarrow> bool" where
  "isFree s = (case s of Free _ \<Rightarrow> True | Used _ \<Rightarrow> False)"

definition nextFree :: "'a slot \<Rightarrow> int res" where
  "nextFree s = (case s of Free n \<Rightarrow> Inr n | Used _ \<Rightarrow> Inl LayoutMismatch)"

definition element :: "'a slot \<Rightarrow> 'a res" where
  "element s = (case s of Free _ \<Rightarrow> Inl LayoutMismatch | Used x \<Rightarrow> Inr x)"

text \<open>The loop that chains the slots \<open>lo\<close> to \<open>hi - 2\<close>, and the last slot after it.\<close>

definition chain_slots :: "int \<Rightarrow> int \<Rightarrow> int \<Rightarrow> 'a slot option list \<Rightarrow> 'a slot option list res" where
  "chain_slots lo hi lst t =
     rbind (rfold (\<lambda>i t. write_slot t i (Free (i + 1))) [lo..hi - 2] t) (\<lambda>t.
     write_slot t (hi - 1) (Free lst))"

definition idt_create2 :: "bool \<Rightarrow> allocator \<Rightarrow> int \<Rightarrow> nat \<Rightarrow> 'a sIDTable res" where
  "idt_create2 structOk avail initialCount elementSize =
     rbind (rassert structOk) (\<lambda>_.
     (let slotSize = sizeof_sTableSlot + (if elementSize \<ge> 4 then elementSize else 4) - 4
      in rbind (rassert (avail (block_bytes slotSize initialCount))) (\<lambda>_.
         rbind (chain_slots 0 initialCount (-1) (replicate (block_slots slotSize initialCount) None)) (\<lambda>t.
         Inr \<lparr> it_table = t, it_tableSize = initialCount, it_firstFree = 0, it_elementCount = 0,
               it_elementSize = elementSize, it_slotSize = slotSize \<rparr>))))"

definition idt_create :: "bool \<Rightarrow> allocator \<Rightarrow> int \<Rightarrow> 'a sIDTable res" where
  "idt_create structOk avail initialCount = idt_create2 structOk avail initialCount sizeof_ptr"

definition idt_enlarge :: "allocator \<Rightarrow> 'a sIDTable \<Rightarrow> 'a sIDTable res" where
  "idt_enlarge avail idt =
     rbind (imul (it_tableSize idt) 2) (\<lambda>newSize.
     rbind (rassert (avail (block_bytes (it_slotSize idt) newSize))) (\<lambda>_.
     rbind (chain_slots (it_tableSize idt) newSize (it_firstFree idt)
              (realloc_slots (block_slots (it_slotSize idt) newSize) (it_table idt))) (\<lambda>t.
     Inr (idt\<lparr> it_table := t, it_tableSize := newSize, it_firstFree := it_tableSize idt \<rparr>))))"

text \<open>\<open>idt_add2\<close> copies the element into the slot; \<open>idt_add\<close> stores the pointer.\<close>

definition idt_add2 :: "allocator \<Rightarrow> 'a sIDTable \<Rightarrow> 'a \<Rightarrow> (int \<times> 'a sIDTable) res" where
  "idt_add2 avail idt x =
     rbind (if it_firstFree idt = -1
            then rbind (idt_enlarge avail idt) (\<lambda>idt1.
                 rbind (rassert (it_firstFree idt1 \<noteq> -1)) (\<lambda>_. Inr idt1))
            else Inr idt) (\<lambda>idt1.
     (let index = it_firstFree idt1
      in rbind (ELEMENT idt1 index) (\<lambda>s.
         rbind (rassert (isFree s)) (\<lambda>_.
         rbind (nextFree s) (\<lambda>n.
         rbind (set_slot (idt1\<lparr> it_firstFree := n \<rparr>) index (Used x)) (\<lambda>idt2.
         rbind (iadd (it_elementCount idt2) 1) (\<lambda>c.
         Inr (index, idt2\<lparr> it_elementCount := c \<rparr>))))))))"

definition idt_add :: "allocator \<Rightarrow> 'a sIDTable \<Rightarrow> 'a \<Rightarrow> (int \<times> 'a sIDTable) res" where
  "idt_add avail idt x =
     rbind (rassert (it_elementSize idt = sizeof_ptr)) (\<lambda>_. idt_add2 avail idt x)"

definition idt_getElementAt :: "'a sIDTable \<Rightarrow> int \<Rightarrow> 'a res" where
  "idt_getElementAt idt index =
     rbind (rassert (index < it_tableSize idt)) (\<lambda>_.
     rbind (ELEMENT idt index) (\<lambda>s.
     rbind (rassert (\<not> isFree s)) (\<lambda>_.
     rbind (rassert (it_elementSize idt = sizeof_ptr)) (\<lambda>_. element s))))"

text \<open>
  \<open>idt_getElementAt2\<close> passes \<open>data.element\<close>, not its address, to \<open>memcpy\<close>: the bytes of the
  element that \<open>idt_add2\<close> copied into the slot are followed as if they were an address.
\<close>

definition idt_getElementAt2 :: "'a sIDTable \<Rightarrow> int \<Rightarrow> 'a res" where
  "idt_getElementAt2 idt index =
     rbind (rassert (index < it_tableSize idt)) (\<lambda>_.
     rbind (table_at idt index) (\<lambda>s.
     rbind (rassert (\<not> isFree s)) (\<lambda>_. Inl DanglingPtr)))"

definition idt_remove :: "'a sIDTable \<Rightarrow> int \<Rightarrow> 'a sIDTable res" where
  "idt_remove idt index =
     rbind (rassert (index < it_tableSize idt)) (\<lambda>_.
     rbind (table_at idt index) (\<lambda>s.
     rbind (rassert (\<not> isFree s)) (\<lambda>_.
     rbind (set_slot idt index (Free (it_firstFree idt))) (\<lambda>idt1.
     rbind (rassert (it_elementCount idt1 - 1 \<ge> 0)) (\<lambda>_.
     Inr (idt1\<lparr> it_firstFree := index, it_elementCount := it_elementCount idt1 - 1 \<rparr>))))))"

lemma chain_slots_length: "chain_slots lo hi l t = Inr t' \<Longrightarrow> 1 \<le> hi"
  by (auto simp: chain_slots_def res_iff)

lemma idt_enlarge_grows: "idt_enlarge avail idt = Inr idt' \<Longrightarrow> it_tableSize idt < it_tableSize idt'"
  by (auto simp: idt_enlarge_def res_iff dest!: chain_slots_length)

function enlarge_to :: "allocator \<Rightarrow> int \<Rightarrow> 'a sIDTable \<Rightarrow> 'a sIDTable res" where
  "enlarge_to avail index idt =
     (if index \<ge> it_tableSize idt
      then rbind (idt_enlarge avail idt) (enlarge_to avail index)
      else Inr idt)"
  by pat_completeness auto

termination
  by (relation "measure (\<lambda>(avail, index, idt). nat (index + 1 - it_tableSize idt))")
    (auto dest!: idt_enlarge_grows)

declare enlarge_to.simps [simp del]

text \<open>The search for the predecessor of \<open>index\<close> in the free list.\<close>

fun find_prev :: "nat \<Rightarrow> 'a sIDTable \<Rightarrow> int \<Rightarrow> int \<Rightarrow> (int \<times> int) res" where
  "find_prev 0 idt index prevFree = Inl OutOfFuel"
| "find_prev (Suc fuel) idt index prevFree =
     rbind (ELEMENT idt prevFree) (\<lambda>s.
     rbind (nextFree s) (\<lambda>n.
     if n \<noteq> index \<and> n \<noteq> -1 then find_prev fuel idt index n else Inr (prevFree, n)))"

text \<open>\<open>idt_putElementAt\<close>: the flag says whether the element was put; otherwise the slot was occupied.\<close>

definition idt_putElementAt ::
  "nat \<Rightarrow> allocator \<Rightarrow> 'a sIDTable \<Rightarrow> int \<Rightarrow> 'a \<Rightarrow> (bool \<times> 'a sIDTable) res" where
  "idt_putElementAt fuel avail idt index x =
     rbind (rassert (it_elementSize idt = sizeof_ptr)) (\<lambda>_.
     rbind (enlarge_to avail index idt) (\<lambda>idt1.
     if it_firstFree idt1 = index then
       rbind (ELEMENT idt1 (it_firstFree idt1)) (\<lambda>s.
       rbind (rassert (isFree s)) (\<lambda>_.
       rbind (table_at idt1 index) (\<lambda>s'.
       rbind (nextFree s') (\<lambda>n.
       rbind (set_slot (idt1\<lparr> it_firstFree := n \<rparr>) index (Used x)) (\<lambda>idt2.
       rbind (iadd (it_elementCount idt2) 1) (\<lambda>c.
       Inr (True, idt2\<lparr> it_elementCount := c \<rparr>)))))))
     else
       rbind (find_prev fuel idt1 index (it_firstFree idt1)) (\<lambda>(prevFree, n).
       if n = -1 then Inr (False, idt1)
       else
         rbind (ELEMENT idt1 index) (\<lambda>s.
         rbind (rassert (isFree s)) (\<lambda>_.
         rbind (nextFree s) (\<lambda>m.
         rbind (set_slot idt1 prevFree (Free m)) (\<lambda>idt2.
         rbind (set_slot idt2 index (Used x)) (\<lambda>idt3.
         rbind (iadd (it_elementCount idt3) 1) (\<lambda>c.
         Inr (True, idt3\<lparr> it_elementCount := c \<rparr>))))))))))"

definition idt_forEach :: "('a \<Rightarrow> 'w \<Rightarrow> 'w) \<Rightarrow> 'a sIDTable \<Rightarrow> 'w \<Rightarrow> 'w res" where
  "idt_forEach func idt w =
     rbind (rassert (it_elementSize idt = sizeof_ptr)) (\<lambda>_.
     rfold (\<lambda>i w. rbind (ELEMENT idt i) (\<lambda>s.
        if isFree s then Inr w else rbind (element s) (\<lambda>x. Inr (func x w)))) [0..it_tableSize idt - 1] w)"

definition idt_isElementAllocated :: "'a sIDTable \<Rightarrow> int \<Rightarrow> bool res" where
  "idt_isElementAllocated idt index =
     (if index \<ge> it_tableSize idt then Inr False
      else rbind (ELEMENT idt index) (\<lambda>s. Inr (\<not> isFree s)))"

definition idt_getSize :: "'a sIDTable \<Rightarrow> int" where
  "idt_getSize idt = it_tableSize idt"

definition idt_getElementCount :: "'a sIDTable \<Rightarrow> int" where
  "idt_getElementCount idt = it_elementCount idt"

subsection \<open>Invariant and abstraction\<close>

definition idt_wf :: "'a sIDTable \<Rightarrow> bool" where
  "idt_wf idt \<longleftrightarrow>
     0 < it_tableSize idt \<and> int (length (it_table idt)) = it_tableSize idt
     \<and> block_fits (it_slotSize idt) (it_tableSize idt) \<and> sizeof_sTableSlot \<le> it_slotSize idt
     \<and> table_wf (it_table idt) (it_firstFree idt)
     \<and> it_elementCount idt = used_count (it_table idt)"

definition idt_contents :: "'a sIDTable \<Rightarrow> int \<rightharpoonup> 'a" where
  "idt_contents idt = slot_contents (it_table idt)"

text \<open>A full table can grow: twice its size is addressable and the allocator grants it.\<close>

definition idt_can_add :: "allocator \<Rightarrow> 'a sIDTable \<Rightarrow> bool" where
  "idt_can_add avail idt \<longleftrightarrow>
     it_firstFree idt \<noteq> -1
     \<or> block_fits (it_slotSize idt) (it_tableSize idt * 2)
       \<and> avail (block_bytes (it_slotSize idt) (it_tableSize idt * 2))"

subsection \<open>Lemmas\<close>

text \<open>Chaining the tail of a table: the free list through it ends where \<open>lst\<close> continues.\<close>

lemma chain_loop:
  "length t = n + k \<Longrightarrow> j < k \<Longrightarrow>
   rfold (\<lambda>i t. write_slot t i (Free (i + 1))) [int n..int n + int j - 1] t
     = Inr (take n t @ map (\<lambda>i. Some (Free (i + 1))) [int n..int n + int j - 1] @ drop (n + j) t)"
proof (induction j)
  case 0
  then show ?case by simp
next
  case (Suc j)
  have u: "[int n..int n + int (Suc j) - 1] = [int n..int n + int j - 1] @ [int n + int j]"
    by (subst upto_rec2) (auto simp: algebra_simps)
  have "length (take n t @ map (\<lambda>i. Some (Free (i + 1))) [int n..int n + int j - 1]) = n + j"
    using Suc.prems by simp
  moreover have "drop (n + j) t = t ! (n + j) # drop (Suc (n + j)) t"
    using Suc.prems by (simp add: Cons_nth_drop_Suc)
  ultimately show ?case
    using Suc unfolding u by (simp add: write_slot_def list_update_append nat_add_distrib)
qed

lemma chain_slots_eq:
  assumes "length t = n + Suc k"
  shows "chain_slots (int n) (int n + int (Suc k)) lst t
      = Inr (take n t @ map (\<lambda>i. Some (Free (i + 1))) [int n..int n + int k - 1] @ [Some (Free lst)])"
proof -
  have "length (take n t @ map (\<lambda>i. Some (Free (i + 1))) [int n..int n + int k - 1]) = n + k"
    using assms by simp
  moreover have "drop (n + k) t = [t ! (n + k)]"
    using assms by (simp add: Cons_nth_drop_Suc[symmetric])
  ultimately show ?thesis
    using chain_loop[of t n "Suc k" k] assms
    by (simp add: chain_slots_def write_slot_def list_update_append nat_add_distrib algebra_simps)
qed

definition free_tail :: "nat \<Rightarrow> nat \<Rightarrow> int \<Rightarrow> 'a slot option list" where
  "free_tail n k lst = map (\<lambda>i. Some (Free (i + 1))) [int n..int n + int k - 1] @ [Some (Free lst)]"

lemma length_free_tail [simp]: "length (free_tail n k lst) = Suc k"
  by (simp add: free_tail_def)

lemma free_tail_nth:
  "j < k \<Longrightarrow> free_tail n k lst ! j = Some (Free (int n + int j + 1))"
  "free_tail n k lst ! k = Some (Free lst)"
  by (simp_all add: free_tail_def nth_append)

lemma free_list_tail:
  assumes fs: "free_list t lst fs" and n: "n = length t"
  shows "j \<le> k \<Longrightarrow> free_list (t @ free_tail n k lst) (int n + int j) ([int n + int j..int n + int k] @ fs)"
proof (induction "k - j" arbitrary: j)
  case 0
  then have "j = k" by simp
  then show ?case
    using free_list_append[OF fs, of "free_tail n k lst"] n
    by (simp add: nat_add_distrib nth_append free_tail_nth)
next
  case (Suc i)
  then have "free_list (t @ free_tail n k lst) (int n + int (Suc j)) ([int n + int (Suc j)..int n + int k] @ fs)"
    using Suc.hyps(1)[of "Suc j"] Suc.hyps(2) by simp
  moreover have "[int n + int j..int n + int k] = (int n + int j) # [int n + int (Suc j)..int n + int k]"
    using Suc.hyps(2) by (subst upto_rec1) (auto simp: algebra_simps)
  ultimately show ?case
    using Suc.hyps(2) n by (simp add: nat_add_distrib nth_append free_tail_nth algebra_simps)
qed

lemma slot_contents_tail: "slot_contents (t @ free_tail n k lst) = slot_contents t"
proof
  fix i
  show "slot_contents (t @ free_tail n k lst) i = slot_contents t i"
  proof (cases "int (length t) \<le> i \<and> i < int (length t) + int (Suc k)")
    case True
    then have "(t @ free_tail n k lst) ! nat i = free_tail n k lst ! (nat i - length t)" "nat i - length t \<le> k"
      by (auto simp: nth_append)
    then show ?thesis
      using True by (cases "nat i - length t = k") (auto simp: slot_contents_def free_tail_nth)
  next
    case False
    then show ?thesis by (auto simp: slot_contents_def nth_append nat_less_iff)
  qed
qed

lemma used_count_tail: "used_count (t @ free_tail n k lst) = used_count t"
  by (simp add: used_count_def free_tail_def filter_map comp_def)

lemma table_wf_tail:
  assumes "table_wf t lst" and "n = length t"
  shows "table_wf (t @ free_tail n k lst) (int n)"
proof -
  obtain fs where fs: "free_list t lst fs" "distinct fs"
      "\<forall>i. 0 \<le> i \<and> i < int (length t) \<and> slot_contents t i = None \<longrightarrow> i \<in> set fs"
    and w: "None \<notin> set t"
    using assms(1) by (auto simp: table_wf_def)
  let ?t = "t @ free_tail n k lst" and ?fs = "[int n..int n + int k] @ fs"
  have "free_list ?t (int n) ?fs" using free_list_tail[OF fs(1) assms(2), of 0 k] by simp
  moreover have "\<forall>i \<in> set fs. i < int n" using free_list_range[OF fs(1)] assms(2) by blast
  then have "distinct ?fs" using fs(2) by fastforce
  moreover have "None \<notin> set ?t" using w by (auto simp: free_tail_def)
  moreover have "\<forall>i. 0 \<le> i \<and> i < int (length ?t) \<and> slot_contents ?t i = None \<longrightarrow> i \<in> set ?fs"
    using fs(3) assms(2) by (auto simp: slot_contents_tail)
  ultimately show ?thesis unfolding table_wf_def by blast
qed

lemma idt_enlarge_wf:
  assumes wf: "idt_wf idt" and fits: "block_fits (it_slotSize idt) (it_tableSize idt * 2)"
    and "avail (block_bytes (it_slotSize idt) (it_tableSize idt * 2))"
  shows "\<exists>idt'. idt_enlarge avail idt = Inr idt' \<and> idt_wf idt' \<and> idt_contents idt' = idt_contents idt
      \<and> it_firstFree idt' = it_tableSize idt \<and> it_tableSize idt' = it_tableSize idt * 2
      \<and> it_elementSize idt' = it_elementSize idt \<and> it_slotSize idt' = it_slotSize idt
      \<and> it_elementCount idt' = it_elementCount idt"
proof -
  let ?n = "length (it_table idt)"
  let ?t = "it_table idt @ free_tail ?n (?n - 1) (it_firstFree idt)"
  have n: "it_tableSize idt = int ?n" "0 < ?n" using wf by (auto simp: idt_wf_def)
  have "in_int (it_tableSize idt * 2)" using fits by (simp add: block_fits_def in_int_def)
  moreover have b: "block_slots (it_slotSize idt) (it_tableSize idt * 2) = ?n + Suc (?n - 1)"
    using block_slots_fits[OF fits] n by simp
  moreover have "chain_slots (int ?n) (int ?n * 2) (it_firstFree idt)
      (realloc_slots (?n + Suc (?n - 1)) (it_table idt)) = Inr ?t"
  proof -
    have tk: "take ?n (realloc_slots (?n + Suc (?n - 1)) (it_table idt)) = it_table idt"
      by (simp add: realloc_slots_def)
    have sm: "int ?n + int (Suc (?n - 1)) = int ?n * 2" using n(2) by simp
    have "length (realloc_slots (?n + Suc (?n - 1)) (it_table idt)) = ?n + Suc (?n - 1)"
      by (rule length_realloc_slots)
    from chain_slots_eq[OF this, of "it_firstFree idt"] show ?thesis
      unfolding tk sm free_tail_def .
  qed
  ultimately have "idt_enlarge avail idt = Inr (idt\<lparr> it_table := ?t, it_tableSize := it_tableSize idt * 2,
      it_firstFree := it_tableSize idt \<rparr>)"
    using assms(3) n(1) by (simp add: idt_enlarge_def)
  moreover have "table_wf ?t (int ?n)" using wf by (intro table_wf_tail) (auto simp: idt_wf_def)
  ultimately show ?thesis
    using wf fits n by (simp add: idt_wf_def idt_contents_def slot_contents_tail used_count_tail)
qed

text \<open>Taking the first free slot of a table that has one.\<close>

lemma idt_add2_free:
  assumes wf: "idt_wf idt" and f: "it_firstFree idt \<noteq> -1"
  shows "\<exists>idt'. idt_add2 avail idt x = Inr (it_firstFree idt, idt') \<and> idt_wf idt'
      \<and> idt_contents idt (it_firstFree idt) = None
      \<and> idt_contents idt' = (idt_contents idt)(it_firstFree idt \<mapsto> x)
      \<and> it_elementSize idt' = it_elementSize idt \<and> it_slotSize idt' = it_slotSize idt
      \<and> it_elementCount idt' = it_elementCount idt + 1"
proof -
  let ?f = "it_firstFree idt" and ?t = "it_table idt"
  obtain n where n: "0 \<le> ?f" "?f < int (length ?t)" "?t ! nat ?f = Some (Free n)" "slot_contents ?t ?f = None"
      "table_wf (?t[nat ?f := Some (Used x)]) n"
    using table_wf_take[of ?t ?f x] wf f by (auto simp: idt_wf_def)
  let ?i = "idt\<lparr> it_firstFree := n, it_table := ?t[nat ?f := Some (Used x)],
      it_elementCount := it_elementCount idt + 1 \<rparr>"
  have c: "used_count (?t[nat ?f := Some (Used x)]) = used_count ?t + 1"
    using used_count_update[OF n(1,2), of "Some (Used x)"] n(4) by simp
  have "used_count (?t[nat ?f := Some (Used x)]) \<le> int (length ?t)"
    unfolding used_count_def by (metis length_filter_le length_list_update of_nat_le_iff)
  then have "in_int (it_elementCount idt + 1)"
    using wf c by (auto simp: idt_wf_def in_int_def block_fits_def used_count_def)
  then have "idt_add2 avail idt x = Inr (?f, ?i)"
    using f n(1-3)
    by (simp add: idt_add2_def ELEMENT_def read_slot_def isFree_def nextFree_def set_slot_def Let_def)
  moreover have "idt_wf ?i" using wf n c by (simp add: idt_wf_def)
  ultimately show ?thesis
    using n(4) slot_contents_update[OF n(1,2), of "Some (Used x)"] by (simp add: idt_contents_def)
qed

lemma idt_add2_wf:
  assumes wf: "idt_wf idt" and can: "idt_can_add avail idt"
  shows "\<exists>i idt'. idt_add2 avail idt x = Inr (i, idt') \<and> idt_wf idt' \<and> idt_contents idt i = None
      \<and> idt_contents idt' = (idt_contents idt)(i \<mapsto> x)
      \<and> it_elementSize idt' = it_elementSize idt \<and> it_slotSize idt' = it_slotSize idt
      \<and> it_elementCount idt' = it_elementCount idt + 1"
proof (cases "it_firstFree idt = -1")
  case False
  then show ?thesis using idt_add2_free[OF wf, of avail x] by blast
next
  case True
  then obtain idt1 where 1: "idt_enlarge avail idt = Inr idt1" "idt_wf idt1" "idt_contents idt1 = idt_contents idt"
      "it_firstFree idt1 = it_tableSize idt" "it_elementSize idt1 = it_elementSize idt"
      "it_slotSize idt1 = it_slotSize idt" "it_elementCount idt1 = it_elementCount idt"
    using idt_enlarge_wf[OF wf, of avail] can by (auto simp: idt_can_add_def)
  have ff: "it_firstFree idt1 \<noteq> -1" using 1(4) wf by (simp add: idt_wf_def)
  then have "idt_add2 avail idt x = idt_add2 avail idt1 x" using True 1(1) by (simp add: idt_add2_def)
  then show ?thesis using idt_add2_free[OF 1(2) ff, of avail x] 1 by metis
qed

lemma idt_remove_wf:
  assumes wf: "idt_wf idt" and c: "idt_contents idt i \<noteq> None"
    and s: "i = 0 \<or> it_slotSize idt = sizeof_sTableSlot"
  shows "\<exists>idt'. idt_remove idt i = Inr idt' \<and> idt_wf idt' \<and> idt_contents idt' = (idt_contents idt)(i := None)
      \<and> it_elementSize idt' = it_elementSize idt \<and> it_slotSize idt' = it_slotSize idt
      \<and> it_elementCount idt' = it_elementCount idt - 1"
proof -
  let ?t = "it_table idt"
  have w: "0 \<le> i" "i < int (length ?t)" "table_wf (?t[nat i := Some (Free (it_firstFree idt))]) i"
    using table_wf_give[of ?t "it_firstFree idt" i] wf c by (auto simp: idt_wf_def idt_contents_def)
  obtain x where x: "?t ! nat i = Some (Used x)"
    using c w by (auto simp: idt_contents_def slot_contents_def split: option.splits slot.splits)
  have n: "used_count (?t[nat i := Some (Free (it_firstFree idt))]) = used_count ?t - 1"
    using used_count_update[OF w(1,2), of "Some (Free (it_firstFree idt))"] c by (simp add: idt_contents_def)
  have "0 \<le> used_count (?t[nat i := Some (Free (it_firstFree idt))])" by (simp add: used_count_def)
  then show ?thesis
    using wf w x n s slot_contents_update[OF w(1,2), of "Some (Free (it_firstFree idt))"]
    by (simp add: idt_remove_def table_at_def ELEMENT_def read_slot_def isFree_def set_slot_def
        idt_wf_def idt_contents_def)
qed

subsection \<open>The slot allocator contract\<close>

interpretation ids: slot_allocator
  "\<lambda>idt. idt_wf idt \<and> it_elementSize idt = sizeof_ptr \<and> it_slotSize idt = sizeof_sTableSlot"
  idt_contents "idt_can_add avail" "\<lambda>x idt. idt_add avail idt x" idt_remove for avail
proof unfold_locales
  fix idt :: "'a sIDTable" and x
  assume "idt_wf idt \<and> it_elementSize idt = sizeof_ptr \<and> it_slotSize idt = sizeof_sTableSlot"
    and "idt_can_add avail idt"
  then show "\<exists>i idt'. idt_add avail idt x = Inr (i, idt')
      \<and> (idt_wf idt' \<and> it_elementSize idt' = sizeof_ptr \<and> it_slotSize idt' = sizeof_sTableSlot)
      \<and> idt_contents idt i = None \<and> idt_contents idt' = (idt_contents idt)(i \<mapsto> x)"
    using idt_add2_wf[of idt avail x] by (fastforce simp: idt_add_def)
next
  fix idt :: "'a sIDTable" and i
  assume "idt_wf idt \<and> it_elementSize idt = sizeof_ptr \<and> it_slotSize idt = sizeof_sTableSlot"
    and "idt_contents idt i \<noteq> None"
  then show "\<exists>idt'. idt_remove idt i = Inr idt'
      \<and> (idt_wf idt' \<and> it_elementSize idt' = sizeof_ptr \<and> it_slotSize idt' = sizeof_sTableSlot)
      \<and> idt_contents idt' = (idt_contents idt)(i := None)"
    using idt_remove_wf[of idt i] by fastforce
qed

lemma idt_getElementAt_contents:
  assumes "idt_wf idt" and "it_elementSize idt = sizeof_ptr" and "0 \<le> i"
  shows "idt_getElementAt idt i
      = (case idt_contents idt i of Some x \<Rightarrow> Inr x | None \<Rightarrow> Inl AssertFailed)"
proof (cases "i < it_tableSize idt")
  case True
  then have "it_table idt ! nat i \<noteq> None"
    using assms nth_mem[of "nat i" "it_table idt"]
    by (metis idt_wf_def int_nat_eq of_nat_less_iff table_wf_def)
  then show ?thesis
    using True assms
    by (auto simp: idt_getElementAt_def ELEMENT_def read_slot_def isFree_def element_def idt_wf_def
        idt_contents_def slot_contents_def split: option.splits slot.splits)
qed (use assms in \<open>auto simp: idt_getElementAt_def idt_contents_def slot_contents_def idt_wf_def\<close>)

subsection \<open>Properties\<close>

text \<open>\<open>idt_add\<close> to a well-formed table of pointers, growing it when it is full, returns an index
  that was not in use; from then on that index gives the new element and every other index gives
  what it gave before, an assertion for a free one included. The count grows by one and the table
  stays well-formed.\<close>

theorem idt_add_fresh_handle:
  assumes "idt_wf idt" and "it_elementSize idt = sizeof_ptr" and "idt_can_add avail idt"
  shows "\<exists>i idt'. idt_add avail idt x = Inr (i, idt') \<and> idt_wf idt' \<and> 0 \<le> i
      \<and> idt_getElementAt idt i = Inl AssertFailed
      \<and> (\<forall>j \<ge> 0. idt_getElementAt idt' j = (if j = i then Inr x else idt_getElementAt idt j))
      \<and> idt_getElementCount idt' = idt_getElementCount idt + 1"
proof -
  obtain i idt' where i: "idt_add2 avail idt x = Inr (i, idt')" "idt_wf idt'" "idt_contents idt i = None"
      "idt_contents idt' = (idt_contents idt)(i \<mapsto> x)" "it_elementSize idt' = sizeof_ptr"
      "it_elementCount idt' = it_elementCount idt + 1"
    using idt_add2_wf[OF assms(1,3), of x] assms(2) by auto
  have "0 \<le> i" using arg_cong[OF i(4), of "\<lambda>f. f i"] by (auto simp: idt_contents_def slot_contents_def split: if_splits)
  then show ?thesis
    using i assms
    by (auto simp: idt_add_def idt_getElementAt_contents idt_getElementCount_def)
qed

text \<open>A full table of two slots.\<close>

definition idt_full :: "nat sIDTable" where
  "idt_full = \<lparr> it_table = [Some (Used 7), Some (Used 8)], it_tableSize = 2, it_firstFree = -1,
     it_elementCount = 2, it_elementSize = 4, it_slotSize = 8 \<rparr>"

lemma idt_full_wf: "idt_wf idt_full"
  by (auto simp: idt_wf_def idt_full_def block_fits_def table_wf_def used_count_def slot_contents_def
      less_2_cases_iff nat_less_iff nth_Cons' intro!: exI[of _ "[]"])

theorem idt_add_fresh_handle_witness:
  "\<exists>i idt'. idt_add (\<lambda>n. n \<le> 32) idt_full 9 = Inr (i, idt') \<and> idt_wf idt' \<and> 0 \<le> i
      \<and> idt_getElementAt idt' i = Inr 9 \<and> idt_getElementCount idt' = 3"
proof -
  have e: "it_elementSize idt_full = sizeof_ptr" "idt_getElementCount idt_full = 2"
    by (simp_all add: idt_full_def idt_getElementCount_def)
  have g: "idt_can_add (\<lambda>n. n \<le> 32) idt_full" by code_simp
  show ?thesis using idt_add_fresh_handle[OF idt_full_wf e(1) g, of 9] by (auto simp: e(2))
qed

text \<open>adding an element and removing the index it got gives back a table with the same contents,
  whether or not the table had to grow in between.\<close>

theorem idt_add_remove_restores:
  assumes "idt_wf idt" and "it_elementSize idt = sizeof_ptr" and "it_slotSize idt = sizeof_sTableSlot"
    and "idt_can_add avail idt"
  shows "\<exists>idt'. rbind (idt_add avail idt x) (\<lambda>(i, idt1). idt_remove idt1 i) = Inr idt'
      \<and> idt_wf idt' \<and> idt_contents idt' = idt_contents idt"
  using ids.add_remove[of idt avail x] assms by blast

theorem idt_add_remove_restores_witness:
  "\<exists>idt'. rbind (idt_add (\<lambda>n. n \<le> 32) idt_full 9) (\<lambda>(i, idt1). idt_remove idt1 i) = Inr idt'
      \<and> idt_wf idt' \<and> idt_contents idt' = idt_contents idt_full"
proof -
  have e: "it_elementSize idt_full = sizeof_ptr" "it_slotSize idt_full = sizeof_sTableSlot"
    by (simp_all add: idt_full_def)
  have g: "idt_can_add (\<lambda>n. n \<le> 32) idt_full" by code_simp
  show ?thesis by (rule idt_add_remove_restores[OF idt_full_wf e g])
qed

text \<open>for elements larger than a pointer the table does not work: \<open>idt_remove\<close> looks at
  \<open>table[index]\<close> with the stride of the bare slot instead of \<open>slotSize\<close>, and \<open>idt_getElementAt2\<close>
  follows the bytes of the stored element as an address.\<close>

theorem idt_large_elements_broken:
  "rbind (idt_create2 True (\<lambda>_. True) 2 12) (\<lambda>t0.
   rbind (idt_add2 (\<lambda>_. True) t0 (7::nat)) (\<lambda>(i1, t1).
   rbind (idt_add2 (\<lambda>_. True) t1 8) (\<lambda>(i2, t2).
   rbind (idt_remove t2 i2) (\<lambda>t3. Inr (it_elementCount t3))))) = Inl LayoutMismatch
   \<and> rbind (idt_create2 True (\<lambda>_. True) 2 12) (\<lambda>t0.
   rbind (idt_add2 (\<lambda>_. True) t0 (7::nat)) (\<lambda>(i1, t1). idt_getElementAt2 t1 i1)) = Inl DanglingPtr"
  by code_simp

text \<open>\<open>idt_putElementAt\<close> on a table without a free slot starts its search at index -1: instead of
  reporting that the position is occupied it reads in front of the table.\<close>

theorem idt_put_in_full_table:
  "rbind (idt_putElementAt fuel (\<lambda>_. True) idt_full 0 (9::nat)) (\<lambda>(ok, t). Inr ok)
   = (if fuel = 0 then Inl OutOfFuel else Inl OutOfBounds)"
proof -
  have "enlarge_to (\<lambda>_. True) 0 idt_full = Inr idt_full"
    by (subst enlarge_to.simps) (simp add: idt_full_def)
  then show ?thesis
    by (cases fuel) (simp_all add: idt_putElementAt_def idt_full_def ELEMENT_def read_slot_def)
qed

end
