(* ===== verification/MemManager.thy ===== *)
theory MemManager
  imports SlotAllocator
begin

section \<open>The memory manager\<close>

text \<open>
  \<open>src/memory.c\<close>: a pool of equal blocks, each behind a header. A header's two union members are
  both an \<open>int\<close> in the same place, here \<open>bh_data\<close>: the next free index or the block's own index.
  A block pointer is the index of its header. \<open>mm_mutex\<close> counts how often the calling thread
  holds the manager's recursive mutex. The manager is an instance of \<open>slot_allocator\<close>.
\<close>

subsection \<open>State and operations\<close>

record sBlockHeader =
  bh_manager :: "nat option"
  bh_isFree :: bool
  bh_data :: int
  bh_allocatedFrom :: "string option"

record sMemoryManager =
  mm_self :: nat
  mm_name :: "string option"
  mm_capacity :: int
  mm_elementSize :: nat
  mm_blockSize :: nat
  mm_firstFree :: int
  mm_mutex :: nat
  mm_data :: "sBlockHeader list"

abbreviation sizeof_sBlockHeader :: nat where "sizeof_sBlockHeader \<equiv> 16"

text \<open>\<open>BLOCK_HEADER(manager, index)\<close>, for reading and for writing.\<close>

definition BLOCK_HEADER :: "sMemoryManager \<Rightarrow> int \<Rightarrow> sBlockHeader res" where
  "BLOCK_HEADER m i =
     (if 0 \<le> i \<and> i < int (length (mm_data m)) then Inr (mm_data m ! nat i) else Inl OutOfBounds)"

definition set_header :: "sMemoryManager \<Rightarrow> int \<Rightarrow> sBlockHeader \<Rightarrow> sMemoryManager" where
  "set_header m i h = m\<lparr> mm_data := (mm_data m)[nat i := h] \<rparr>"

text \<open>A name that cannot be duplicated is left NULL; the other failures give NULL.\<close>

definition memManager_create ::
  "nat option \<Rightarrow> bool \<Rightarrow> bool \<Rightarrow> allocator \<Rightarrow> nat \<Rightarrow> string option \<Rightarrow> int \<Rightarrow> sMemoryManager option res" where
  "memManager_create addr nameOk lockOk avail elementSize name capacity =
     rbind (rassert (capacity > 0)) (\<lambda>_.
     rbind (rassert (elementSize > 0)) (\<lambda>_.
     (case addr of
        None \<Rightarrow> Inr None
      | Some self \<Rightarrow>
          (let blockSize = elementSize + sizeof_sBlockHeader
           in if \<not> lockOk then Inr None
              else if \<not> avail (block_bytes blockSize capacity) then Inr None
              else rbind (rguard OutOfBounds (capacity \<le> int (block_slots blockSize capacity))) (\<lambda>_.
                   Inr (Some \<lparr> mm_self = self, mm_name = (if nameOk then name else None),
                               mm_capacity = capacity, mm_elementSize = elementSize,
                               mm_blockSize = blockSize, mm_firstFree = 0, mm_mutex = 0,
                               mm_data = map (\<lambda>i. \<lparr> bh_manager = Some self, bh_isFree = True,
                                   bh_data = (if i = capacity - 1 then -1 else i + 1),
                                   bh_allocatedFrom = None \<rparr>) [0..capacity - 1] \<rparr>))))))"

text \<open>The dump of a full pool checks every header on the way.\<close>

definition dump_blocks :: "sMemoryManager \<Rightarrow> unit res" where
  "dump_blocks m =
     rfold (\<lambda>i _. rbind (BLOCK_HEADER m i) (\<lambda>h.
       rbind (rassert (bh_manager h = Some (mm_self m))) (\<lambda>_.
       rbind (rassert (\<not> bh_isFree h)) (\<lambda>_.
       rassert (bh_data h = i))))) [0..mm_capacity m - 1] ()"

definition memManager_allocate ::
  "sMemoryManager \<Rightarrow> string option \<Rightarrow> (int option \<times> sMemoryManager) res" where
  "memManager_allocate manager wher =
     (let m0 = manager\<lparr> mm_mutex := mm_mutex manager + 1 \<rparr>;
          index = mm_firstFree m0
      in if index = -1 then
           rbind (dump_blocks m0) (\<lambda>_. Inr (None, m0))
         else
           rbind (BLOCK_HEADER m0 index) (\<lambda>header.
           rbind (rassert (index < mm_capacity m0)) (\<lambda>_.
           (let m1 = m0\<lparr> mm_firstFree := bh_data header, mm_mutex := mm_mutex m0 - 1 \<rparr>
            in rbind (rassert (bh_manager header = Some (mm_self m1))) (\<lambda>_.
               rbind (rassert (bh_isFree header)) (\<lambda>_.
               Inr (Some index, set_header m1 index (header\<lparr> bh_isFree := False, bh_data := index,
                                                             bh_allocatedFrom := wher \<rparr>))))))))"

text \<open>The check of the following header at the end of \<open>memManager_free\<close> and \<open>memManager_validate\<close>.\<close>

definition check_successor :: "sMemoryManager \<Rightarrow> int \<Rightarrow> sMemoryManager res" where
  "check_successor m index =
     (if index < mm_capacity m - 1
      then rbind (BLOCK_HEADER m (index + 1)) (\<lambda>h.
           Inr (if bh_manager h \<noteq> Some (mm_self m)
                then set_header m (index + 1) (h\<lparr> bh_manager := Some (mm_self m) \<rparr>) else m))
      else Inr m)"

definition memManager_validate :: "sMemoryManager \<Rightarrow> int \<Rightarrow> sMemoryManager res" where
  "memManager_validate m block =
     rbind (BLOCK_HEADER m block) (\<lambda>header.
     rbind (rassert (\<not> bh_isFree header)) (\<lambda>_.
     if bh_manager header = None then Inr m
     else
       rbind (rassert (bh_data header < mm_capacity m)) (\<lambda>_.
       check_successor m (bh_data header))))"

definition memManager_free :: "sMemoryManager \<Rightarrow> int \<Rightarrow> sMemoryManager res" where
  "memManager_free m block =
     rbind (BLOCK_HEADER m block) (\<lambda>header.
     if bh_isFree header then
       rbind (rassert (bh_manager header \<noteq> None)) (\<lambda>_. Inr m)
     else if bh_manager header = None then Inr m
     else
       (let index = bh_data header
        in rbind (rassert (index < mm_capacity m)) (\<lambda>_.
           (let m1 = (set_header m block (header\<lparr> bh_isFree := True, bh_data := mm_firstFree m \<rparr>))
                       \<lparr> mm_firstFree := index \<rparr>
            in check_successor m1 index))))"

subsection \<open>Invariant and abstraction\<close>

definition mm_slot :: "sBlockHeader \<Rightarrow> string option slot option" where
  "mm_slot h = Some (if bh_isFree h then Free (bh_data h) else Used (bh_allocatedFrom h))"

definition mm_contents :: "sMemoryManager \<Rightarrow> int \<rightharpoonup> string option" where
  "mm_contents m = slot_contents (map mm_slot (mm_data m))"

definition mm_wf :: "sMemoryManager \<Rightarrow> bool" where
  "mm_wf m \<longleftrightarrow>
     mm_capacity m = int (length (mm_data m)) \<and> mm_data m \<noteq> []
     \<and> table_wf (map mm_slot (mm_data m)) (mm_firstFree m)
     \<and> (\<forall>i < length (mm_data m). bh_manager (mm_data m ! i) = Some (mm_self m)
          \<and> (\<not> bh_isFree (mm_data m ! i) \<longrightarrow> bh_data (mm_data m ! i) = int i))"

subsection \<open>Lemmas\<close>

lemma mm_contents_header:
  "0 \<le> i \<Longrightarrow> i < int (length (mm_data m)) \<Longrightarrow>
   mm_contents m i = (if bh_isFree (mm_data m ! nat i) then None else Some (bh_allocatedFrom (mm_data m ! nat i)))"
  by (simp add: mm_contents_def slot_contents_def mm_slot_def nat_less_iff)

lemma memManager_allocate_wf:
  assumes wf: "mm_wf m" and f: "mm_firstFree m \<noteq> -1"
  shows "\<exists>i m'. memManager_allocate m wher = Inr (Some i, m') \<and> mm_wf m' \<and> mm_contents m i = None
      \<and> mm_contents m' = (mm_contents m)(i \<mapsto> wher) \<and> mm_mutex m' = mm_mutex m
      \<and> 0 \<le> i \<and> i < mm_capacity m"
proof -
  let ?f = "mm_firstFree m" and ?t = "map mm_slot (mm_data m)"
  obtain n where n: "0 \<le> ?f" "?f < int (length ?t)" "?t ! nat ?f = Some (Free n)" "slot_contents ?t ?f = None"
      "table_wf (?t[nat ?f := Some (Used wher)]) n"
    using table_wf_take[of ?t ?f wher] wf f by (auto simp: mm_wf_def)
  let ?h = "mm_data m ! nat ?f"
  have i: "nat ?f < length (mm_data m)" using n(1,2) by auto
  have h: "bh_isFree ?h" "bh_data ?h = n" "bh_manager ?h = Some (mm_self m)"
    using n(3) i wf by (auto simp: mm_slot_def mm_wf_def split: if_splits)
  define h' where "h' = ?h\<lparr> bh_isFree := False, bh_data := ?f, bh_allocatedFrom := wher \<rparr>"
  define m' where "m' = m\<lparr> mm_firstFree := n, mm_data := (mm_data m)[nat ?f := h'] \<rparr>"
  have "memManager_allocate m wher = Inr (Some ?f, m')"
    using f n(1,2) h wf
    by (simp add: memManager_allocate_def Let_def BLOCK_HEADER_def set_header_def mm_wf_def h'_def m'_def)
  moreover have t': "map mm_slot (mm_data m') = ?t[nat ?f := Some (Used wher)]"
    by (simp add: m'_def h'_def map_update mm_slot_def)
  then have "mm_wf m'"
    using wf n(1,5) i h(3) by (auto simp: mm_wf_def m'_def h'_def nth_list_update)
  moreover have "mm_contents m' = (mm_contents m)(?f \<mapsto> wher)"
    using t' slot_contents_update[OF n(1,2), of "Some (Used wher)"] by (simp add: mm_contents_def)
  ultimately show ?thesis using n wf by (auto simp: mm_contents_def mm_wf_def m'_def)
qed

lemma check_successor_wf: "mm_wf m \<Longrightarrow> 0 \<le> i \<Longrightarrow> check_successor m i = Inr m"
  by (auto simp: check_successor_def BLOCK_HEADER_def mm_wf_def nat_less_iff)

lemma memManager_free_wf:
  assumes wf: "mm_wf m" and c: "mm_contents m i \<noteq> None"
  shows "\<exists>m'. memManager_free m i = Inr m' \<and> mm_wf m' \<and> mm_contents m' = (mm_contents m)(i := None)
      \<and> mm_mutex m' = mm_mutex m"
proof -
  let ?t = "map mm_slot (mm_data m)"
  have w: "0 \<le> i" "i < int (length ?t)" "table_wf (?t[nat i := Some (Free (mm_firstFree m))]) i"
    using table_wf_give[of ?t "mm_firstFree m" i] wf c by (auto simp: mm_wf_def mm_contents_def)
  let ?h = "mm_data m ! nat i"
  have l: "nat i < length (mm_data m)" using w by auto
  have h: "\<not> bh_isFree ?h" "bh_data ?h = i" "bh_manager ?h = Some (mm_self m)"
    using c mm_contents_header[of i m] w wf l by (auto simp: mm_wf_def)
  define h' where "h' = ?h\<lparr> bh_isFree := True, bh_data := mm_firstFree m \<rparr>"
  define m' where "m' = m\<lparr> mm_data := (mm_data m)[nat i := h'], mm_firstFree := i \<rparr>"
  have t': "map mm_slot (mm_data m') = ?t[nat i := Some (Free (mm_firstFree m))]"
    by (simp add: m'_def h'_def map_update mm_slot_def)
  then have wf': "mm_wf m'"
    using wf w l h(3) by (auto simp: mm_wf_def m'_def h'_def nth_list_update)
  have "memManager_free m i = check_successor m' i"
    using w h wf
    by (simp add: memManager_free_def BLOCK_HEADER_def set_header_def Let_def mm_wf_def m'_def h'_def)
  then have "memManager_free m i = Inr m'" using check_successor_wf[OF wf' w(1)] by simp
  moreover have "mm_contents m' = (mm_contents m)(i := None)"
    using t' slot_contents_update[OF w(1,2), of "Some (Free (mm_firstFree m))"] by (simp add: mm_contents_def)
  ultimately show ?thesis using wf' by (auto simp: m'_def)
qed

subsection \<open>The slot allocator contract\<close>

definition mm_add :: "string option \<Rightarrow> sMemoryManager \<Rightarrow> (int \<times> sMemoryManager) res" where
  "mm_add wher m =
     rbind (memManager_allocate m wher) (\<lambda>(p, m'). rbind (deref p) (\<lambda>i. Inr (i, m')))"

interpretation pool: slot_allocator "\<lambda>m. mm_wf m \<and> mm_mutex m = k" mm_contents
  "\<lambda>m. mm_firstFree m \<noteq> -1" mm_add memManager_free for k
proof unfold_locales
  fix m x
  assume "mm_wf m \<and> mm_mutex m = k" and "mm_firstFree m \<noteq> -1"
  then show "\<exists>i m'. mm_add x m = Inr (i, m') \<and> (mm_wf m' \<and> mm_mutex m' = k) \<and> mm_contents m i = None
      \<and> mm_contents m' = (mm_contents m)(i \<mapsto> x)"
    using memManager_allocate_wf[of m x] by (auto simp: mm_add_def)
next
  fix m i
  assume "mm_wf m \<and> mm_mutex m = k" and "mm_contents m i \<noteq> None"
  then show "\<exists>m'. memManager_free m i = Inr m' \<and> (mm_wf m' \<and> mm_mutex m' = k)
      \<and> mm_contents m' = (mm_contents m)(i := None)"
    using memManager_free_wf[of m i] by auto
qed

subsection \<open>Properties\<close>

text \<open>C16: from a pool with a free block \<open>memManager_allocate\<close> returns a block that was not in use,
  leaves every other block as it was, keeps the pool well-formed and the mutex as it found it;
  freeing the block afterwards gives back a pool with the same blocks in use; and freeing it a
  second time is detected and changes nothing.\<close>

theorem memManager_allocate_free:
  assumes "mm_wf m" and "mm_firstFree m \<noteq> -1"
  shows "\<exists>i m1 m2. memManager_allocate m wher = Inr (Some i, m1) \<and> mm_wf m1
      \<and> mm_contents m i = None \<and> mm_contents m1 = (mm_contents m)(i \<mapsto> wher) \<and> mm_mutex m1 = mm_mutex m
      \<and> memManager_free m1 i = Inr m2 \<and> mm_wf m2 \<and> mm_contents m2 = mm_contents m
      \<and> memManager_free m2 i = Inr m2"
proof -
  obtain i m1 where 1: "memManager_allocate m wher = Inr (Some i, m1)" "mm_wf m1" "mm_contents m i = None"
      "mm_contents m1 = (mm_contents m)(i \<mapsto> wher)" "mm_mutex m1 = mm_mutex m" "0 \<le> i"
    using memManager_allocate_wf[OF assms, of wher] by blast
  obtain m2 where 2: "memManager_free m1 i = Inr m2" "mm_wf m2" "mm_contents m2 = (mm_contents m1)(i := None)"
    using memManager_free_wf[OF 1(2), of i] 1(4) by auto
  have r: "i < int (length (mm_data m1))"
    using arg_cong[OF 1(4), of "\<lambda>f. f i"] by (auto simp: mm_contents_def slot_contents_def split: if_splits)
  have "length (mm_data m2) = length (mm_data m1)"
    using 2(1) by (auto simp: memManager_free_def check_successor_def res_iff set_header_def Let_def split: if_splits)
  then have "bh_isFree (mm_data m2 ! nat i)" "bh_manager (mm_data m2 ! nat i) \<noteq> None"
    using 2(2,3) 1(6) r mm_contents_header[of i m2] by (auto simp: mm_wf_def nat_less_iff split: if_splits)
  then have "memManager_free m2 i = Inr m2"
    using \<open>length (mm_data m2) = length (mm_data m1)\<close> 1(6) r by (simp add: memManager_free_def BLOCK_HEADER_def)
  then show ?thesis using 1 2 by (auto simp: fun_upd_idem)
qed

text \<open>A pool of two blocks, the second one in use.\<close>

definition mm_two :: sMemoryManager where
  "mm_two = \<lparr> mm_self = 5, mm_name = None, mm_capacity = 2, mm_elementSize = 8, mm_blockSize = 24,
     mm_firstFree = 0, mm_mutex = 0,
     mm_data = [\<lparr> bh_manager = Some 5, bh_isFree = True, bh_data = -1, bh_allocatedFrom = None \<rparr>,
                \<lparr> bh_manager = Some 5, bh_isFree = False, bh_data = 1, bh_allocatedFrom = Some ''x'' \<rparr>] \<rparr>"

lemma mm_two_wf: "mm_wf mm_two"
  by (auto simp: mm_wf_def mm_two_def table_wf_def mm_slot_def slot_contents_def less_2_cases_iff
      nat_less_iff nth_Cons' intro!: exI[of _ "[0]"])

theorem memManager_allocate_free_witness:
  "\<exists>i m1 m2. memManager_allocate mm_two (Some ''y'') = Inr (Some i, m1)
      \<and> memManager_free m1 i = Inr m2 \<and> mm_contents m2 = mm_contents mm_two"
proof -
  have f: "mm_firstFree mm_two \<noteq> -1" by (simp add: mm_two_def)
  show ?thesis using memManager_allocate_free[OF mm_two_wf f, of "Some ''y''"] by blast
qed

text \<open>an exhausted pool. \<open>memManager_allocate\<close> on a well-formed pool without a free block passes all
  the checks of its dump and returns NULL, but it returns with the mutex still held once more
  than before, so another thread that uses the manager blocks forever.\<close>

theorem memManager_full_keeps_mutex:
  assumes "mm_wf m" and "mm_firstFree m = -1"
  shows "memManager_allocate m wher = Inr (None, m\<lparr> mm_mutex := mm_mutex m + 1 \<rparr>)"
proof -
  let ?m = "m\<lparr> mm_mutex := mm_mutex m + 1 \<rparr>"
  have used: "\<not> bh_isFree (mm_data m ! i)" if "i < length (mm_data m)" for i
  proof -
    obtain fs where "free_list (map mm_slot (mm_data m)) (-1) fs"
        "\<forall>j. 0 \<le> j \<and> j < int (length (mm_data m)) \<and> mm_contents m j = None \<longrightarrow> j \<in> set fs"
      using assms by (auto simp: mm_wf_def table_wf_def mm_contents_def)
    then have "mm_contents m (int i) \<noteq> None" using that by (cases fs) auto
    then show ?thesis using mm_contents_header[of "int i" m] that by auto
  qed
  have "\<exists>u. dump_blocks ?m = Inr u \<and> True"
    unfolding dump_blocks_def
    by (rule rfold_invariant)
      (use assms(1) used in \<open>auto simp: mm_wf_def BLOCK_HEADER_def res_iff nat_less_iff\<close>)
  then show ?thesis using assms(2) by (auto simp: memManager_allocate_def Let_def)
qed

definition mm_full :: sMemoryManager where
  "mm_full = mm_two\<lparr> mm_firstFree := -1,
     mm_data := [\<lparr> bh_manager = Some 5, bh_isFree = False, bh_data = 0, bh_allocatedFrom = None \<rparr>,
                \<lparr> bh_manager = Some 5, bh_isFree = False, bh_data = 1, bh_allocatedFrom = Some ''x'' \<rparr>] \<rparr>"

theorem memManager_full_keeps_mutex_witness:
  "memManager_allocate mm_full None = Inr (None, mm_full\<lparr> mm_mutex := 1 \<rparr>)"
proof -
  have w: "mm_wf mm_full"
    by (auto simp: mm_wf_def mm_full_def mm_two_def table_wf_def mm_slot_def slot_contents_def
        less_2_cases_iff nat_less_iff nth_Cons' intro!: exI[of _ "[]"])
  have f: "mm_firstFree mm_full = -1" and k: "mm_mutex mm_full = 0" by (simp_all add: mm_full_def mm_two_def)
  show ?thesis using memManager_full_keeps_mutex[OF w f, of None] by (simp add: k)
qed

end
