(* ===== verification/Bag.thy ===== *)
theory Bag
  imports Prelude
begin

section \<open>Bags\<close>

text \<open>
  \<open>src/bag.c\<close>: an unordered collection in a growing array. A \<open>Bag\<close> argument is a pointer that may
  be NULL. \<open>b_array\<close> is the element block (NULL or one slot per element), \<open>b_destroyFunc\<close> is
  \<open>None\<close> while nobody has written the field, and \<open>b_lock\<close> says whether the mutex was initialised;
  \<open>b_cookie\<close> says whether the cookie is the address of \<open>bag_isValid\<close>. Addresses the allocator
  returns are above the 1000 that \<open>bag_isValid\<close> tests for. Callbacks are client code: functions on
  the client's world \<open>'w\<close>; a callback of the second family receives a pointer to the element and
  may change it, none of them changes the bag itself. Two bags given to one function are distinct
  objects. The calls of \<open>bagLock\<close> and \<open>bagUnlock\<close> are left out: their bodies depend on a macro that
  nobody defines, and \<open>bag.h\<close> documents that they do nothing.
  A bag is an instance of \<open>multiset_store\<close>, in both families of operations.
\<close>

subsection \<open>State\<close>

record ('a, 'w) sBag =
  b_cookie :: bool
  b_noElements :: int
  b_capacity :: int
  b_capacityIncrement :: int
  b_elementSize :: nat
  b_array :: "'a option list option"
  b_destroyFunc :: "('a \<Rightarrow> 'w \<Rightarrow> 'w) option option"
  b_lock :: bool

record sBagIterator =
  bi_current :: int
  bi_bag :: nat

abbreviation bag_ptr_size :: nat where "bag_ptr_size \<equiv> 4"

type_synonym ('a, 'w) Bag = "('a, 'w) sBag option"
type_synonym ('a, 'w) FilterFunc = "'a \<Rightarrow> 'w \<Rightarrow> bool \<times> 'w"
type_synonym ('a, 'w) FilterFunc2 = "'a \<Rightarrow> 'w \<Rightarrow> bool \<times> 'a \<times> 'w"
type_synonym ('a, 'w) ForEachFunc2 = "'a \<Rightarrow> 'w \<Rightarrow> ('a \<times> 'w) res"

subsection \<open>Creation and destruction\<close>

definition bag_isValid :: "('a, 'w) Bag \<Rightarrow> bool" where
  "bag_isValid bag =
     (case bag of
        None \<Rightarrow> False
      | Some b \<Rightarrow>
          if \<not> b_cookie b then False
          else if b_noElements b < 0 then False
          else if b_capacity b < 0 then False
          else if b_capacityIncrement b < 0 then False
          else if b_elementSize b \<le> 0 then False
          else if b_array b = None then False
          else True)"

text \<open>The outcomes of the allocation of the struct, of the block (by its size) and of the mutex.\<close>

definition bagCreate2 ::
  "bool \<Rightarrow> allocator \<Rightarrow> bool \<Rightarrow> int \<Rightarrow> int \<Rightarrow> nat \<Rightarrow> ('a \<Rightarrow> 'w \<Rightarrow> 'w) option \<Rightarrow> ('a, 'w) Bag res" where
  "bagCreate2 structOk avail lockOk initialCapacity capacityIncrement elementSize destroyFunc =
     rbind (rassert (capacityIncrement \<ge> 0)) (\<lambda>_.
     if \<not> structOk then Inr None
     else if \<not> avail (block_bytes elementSize initialCapacity) then Inr None
     else if \<not> lockOk then Inr None
     else
       (let result = Some \<lparr> b_cookie = True, b_noElements = 0, b_capacity = initialCapacity,
              b_capacityIncrement = capacityIncrement, b_elementSize = elementSize,
              b_array = Some (replicate (block_slots elementSize initialCapacity) None),
              b_destroyFunc = Some destroyFunc, b_lock = True \<rparr>
        in rbind (rassert (bag_isValid result)) (\<lambda>_. Inr result)))"

definition bagCreate ::
  "bool \<Rightarrow> allocator \<Rightarrow> bool \<Rightarrow> int \<Rightarrow> int \<Rightarrow> ('a \<Rightarrow> 'w \<Rightarrow> 'w) option \<Rightarrow> ('a, 'w) Bag res" where
  "bagCreate structOk avail lockOk initialCapacity capacityIncrement destroyFunc =
     bagCreate2 structOk avail lockOk initialCapacity capacityIncrement bag_ptr_size destroyFunc"

text \<open>Neither \<open>destroyFunc\<close> nor \<open>lock\<close> of the new struct is written.\<close>

definition bagDuplicate :: "bool \<Rightarrow> allocator \<Rightarrow> ('a, 'w) Bag \<Rightarrow> ('a, 'w) Bag res" where
  "bagDuplicate structOk avail original =
     (case original of
        None \<Rightarrow> Inr None
      | Some b \<Rightarrow>
          rbind (rassert (bag_isValid original)) (\<lambda>_.
          rbind (rassert structOk) (\<lambda>_.
          (let n = b_noElements b;
               array = (if avail (block_bytes (b_elementSize b) (b_capacity b))
                        then Some (replicate (block_slots (b_elementSize b) (b_capacity b)) None) else None)
           in rbind (rassert (n > 0 \<longrightarrow> array \<noteq> None)) (\<lambda>_.
              rbind (deref (b_array b)) (\<lambda>src.
              rbind (case array of
                       None \<Rightarrow> Inr None
                     | Some dst \<Rightarrow>
                         rbind (rguard OutOfBounds (n \<le> int (length src) \<and> n \<le> int (length dst))) (\<lambda>_.
                         Inr (Some (take (nat n) src @ drop (nat n) dst)))) (\<lambda>copied.
              (let result = Some \<lparr> b_cookie = b_cookie b, b_noElements = n, b_capacity = b_capacity b,
                     b_capacityIncrement = b_capacityIncrement b, b_elementSize = b_elementSize b,
                     b_array = copied, b_destroyFunc = None, b_lock = False \<rparr>
               in rbind (rassert (bag_isValid result)) (\<lambda>_. Inr result))))))))) "

text \<open>The loops that hand every element to a destroy function, and the mutex that goes with the bag.\<close>

definition bag_destroy_all :: "('a \<Rightarrow> 'w \<Rightarrow> 'w) \<Rightarrow> ('a, 'w) sBag \<Rightarrow> 'w \<Rightarrow> 'w res" where
  "bag_destroy_all f b w =
     rbind (deref (b_array b)) (\<lambda>arr.
     rfold (\<lambda>i w. rbind (read_slot arr i) (\<lambda>x. Inr (f x w))) [0..b_noElements b - 1] w)"

definition bagDestroy :: "('a, 'w) Bag \<Rightarrow> ('a \<Rightarrow> 'w \<Rightarrow> 'w) option \<Rightarrow> 'w \<Rightarrow> 'w res" where
  "bagDestroy bag destroyFunc w =
     (case bag of
        None \<Rightarrow> Inr w
      | Some b \<Rightarrow>
          rbind (rassert (bag_isValid bag)) (\<lambda>_.
          rbind (rassert (b_elementSize b = bag_ptr_size)) (\<lambda>_.
          rbind (case destroyFunc of None \<Rightarrow> Inr w | Some f \<Rightarrow> bag_destroy_all f b w) (\<lambda>w'.
          rbind (rguard UninitRead (b_lock b)) (\<lambda>_. Inr w')))))"

definition bagDestroy2 :: "('a, 'w) Bag \<Rightarrow> 'w \<Rightarrow> 'w res" where
  "bagDestroy2 bag w =
     (case bag of
        None \<Rightarrow> Inr w
      | Some b \<Rightarrow>
          rbind (rassert (bag_isValid bag)) (\<lambda>_.
          rbind (case b_destroyFunc b of
                   None \<Rightarrow> Inl UninitRead
                 | Some None \<Rightarrow> Inr w
                 | Some (Some f) \<Rightarrow> bag_destroy_all f b w) (\<lambda>w'.
          rbind (rguard UninitRead (b_lock b)) (\<lambda>_. Inr w'))))"

definition bagGetElementSize :: "('a, 'w) Bag \<Rightarrow> nat res" where
  "bagGetElementSize bag = (case bag of None \<Rightarrow> Inl AssertFailed | Some b \<Rightarrow> Inr (b_elementSize b))"

definition bagGetCapacityIncrement :: "('a, 'w) Bag \<Rightarrow> int res" where
  "bagGetCapacityIncrement bag =
     (case bag of None \<Rightarrow> Inl AssertFailed | Some b \<Rightarrow> Inr (b_capacityIncrement b))"

subsection \<open>Adding and removing\<close>

definition ensureIncCapacity :: "allocator \<Rightarrow> ('a, 'w) sBag \<Rightarrow> ('a, 'w) sBag res" where
  "ensureIncCapacity avail b =
     (if b_noElements b = b_capacity b then
        rbind (if b_capacityIncrement b = 0
               then (if b_capacity b = 0 then Inr 1 else imul (b_capacity b) 2)
               else iadd (b_capacity b) (b_capacityIncrement b)) (\<lambda>cap.
        rbind (rassert (cap \<noteq> 0)) (\<lambda>_.
        rbind (rassert (avail (block_bytes (b_elementSize b) cap))) (\<lambda>_.
        Inr (b\<lparr> b_capacity := cap,
                b_array := Some (realloc_slots (block_slots (b_elementSize b) cap)
                                   (case b_array b of None \<Rightarrow> [] | Some arr \<Rightarrow> arr)) \<rparr>))))
      else Inr b)"

text \<open>Storing at the end and counting, the common part of \<open>bagAdd\<close> and \<open>bagAdd2\<close>.\<close>

definition bag_store :: "('a, 'w) sBag \<Rightarrow> 'a \<Rightarrow> ('a, 'w) sBag res" where
  "bag_store b x =
     rbind (deref (b_array b)) (\<lambda>arr.
     rbind (write_slot arr (b_noElements b) x) (\<lambda>arr'.
     rbind (iadd (b_noElements b) 1) (\<lambda>n.
     Inr (b\<lparr> b_noElements := n, b_array := Some arr' \<rparr>))))"

definition bagAdd :: "allocator \<Rightarrow> ('a, 'w) Bag \<Rightarrow> 'a \<Rightarrow> ('a, 'w) sBag res" where
  "bagAdd avail bag obj =
     (case bag of
        None \<Rightarrow> Inl AssertFailed
      | Some b \<Rightarrow>
          rbind (rassert (b_elementSize b = bag_ptr_size)) (\<lambda>_.
          rbind (rassert (bag_isValid (Some b))) (\<lambda>_.
          rbind (ensureIncCapacity avail b) (\<lambda>b1.
          rbind (bag_store b1 obj) (\<lambda>b2.
          rbind (rassert (bag_isValid (Some b2))) (\<lambda>_. Inr b2))))))"

definition bagAdd2 :: "allocator \<Rightarrow> ('a, 'w) Bag \<Rightarrow> 'a \<Rightarrow> ('a, 'w) sBag res" where
  "bagAdd2 avail bag data =
     (case bag of
        None \<Rightarrow> Inl AssertFailed
      | Some b \<Rightarrow>
          rbind (rassert (bag_isValid (Some b))) (\<lambda>_.
          rbind (ensureIncCapacity avail b) (\<lambda>b1.
          rbind (bag_store b1 data) (\<lambda>b2.
          rbind (rassert (bag_isValid (Some b2))) (\<lambda>_. Inr b2)))))"

text \<open>The loop over the elements that stops at the first one a test accepts.\<close>

fun bag_find :: "('a \<Rightarrow> bool) \<Rightarrow> 'a option list \<Rightarrow> int list \<Rightarrow> int option res" where
  "bag_find t arr [] = Inr None"
| "bag_find t arr (i # is) =
     rbind (read_slot arr i) (\<lambda>x. if t x then Inr (Some i) else bag_find t arr is)"

text \<open>The last element takes the place of the removed one.\<close>

definition bag_remove_at :: "('a, 'w) sBag \<Rightarrow> 'a option list \<Rightarrow> int \<Rightarrow> ('a, 'w) sBag res" where
  "bag_remove_at b arr i =
     rbind (read_slot arr (b_noElements b - 1)) (\<lambda>y.
     rbind (write_slot arr i y) (\<lambda>arr'.
     Inr (b\<lparr> b_noElements := b_noElements b - 1, b_array := Some arr' \<rparr>)))"

definition bagRemoveMaybe2 :: "('a, 'w) Bag \<Rightarrow> 'a \<Rightarrow> (int \<times> ('a, 'w) Bag) res" where
  "bagRemoveMaybe2 bag data =
     (case bag of
        None \<Rightarrow> Inr (0, None)
      | Some b \<Rightarrow>
          rbind (rassert (bag_isValid bag)) (\<lambda>_.
          rbind (deref (b_array b)) (\<lambda>arr.
          rbind (bag_find (\<lambda>x. x = data) arr [0..b_noElements b - 1]) (\<lambda>found.
          case found of
            None \<Rightarrow> Inr (0, bag)
          | Some i \<Rightarrow> rbind (bag_remove_at b arr i) (\<lambda>b'. Inr (1, Some b'))))))"

definition bagRemoveMaybe :: "('a, 'w) Bag \<Rightarrow> 'a \<Rightarrow> (int \<times> ('a, 'w) Bag) res" where
  "bagRemoveMaybe bag obj =
     (case bag of
        None \<Rightarrow> Inr (0, None)
      | Some b \<Rightarrow>
          rbind (rassert (bag_isValid bag)) (\<lambda>_.
          rbind (rassert (b_elementSize b = bag_ptr_size)) (\<lambda>_.
          rbind (deref (b_array b)) (\<lambda>arr.
          rbind (bag_find (\<lambda>x. x = obj) arr [0..b_noElements b - 1]) (\<lambda>found.
          case found of
            None \<Rightarrow> Inr (0, bag)
          | Some i \<Rightarrow> rbind (bag_remove_at b arr i) (\<lambda>b'. Inr (1, Some b')))))))"

definition bagRemove :: "('a, 'w) Bag \<Rightarrow> 'a \<Rightarrow> ('a, 'w) Bag res" where
  "bagRemove bag obj = rbind (bagRemoveMaybe bag obj) (\<lambda>(res, bag'). Inr bag')"

definition bagRemove2 :: "('a, 'w) Bag \<Rightarrow> 'a \<Rightarrow> ('a, 'w) Bag res" where
  "bagRemove2 bag data = rbind (bagRemoveMaybe2 bag data) (\<lambda>(res, bag'). Inr bag')"

subsection \<open>Looking\<close>

definition bagNoElements :: "('a, 'w) Bag \<Rightarrow> int res" where
  "bagNoElements bag =
     (case bag of
        None \<Rightarrow> Inr 0
      | Some b \<Rightarrow> rbind (rassert (bag_isValid bag)) (\<lambda>_. Inr (b_noElements b)))"

definition bagElements2 :: "('a, 'w) Bag \<Rightarrow> 'a option list option res" where
  "bagElements2 bag =
     (case bag of
        None \<Rightarrow> Inr None
      | Some b \<Rightarrow> rbind (rassert (bag_isValid bag)) (\<lambda>_. Inr (b_array b)))"

definition bagElements :: "('a, 'w) Bag \<Rightarrow> 'a option list option res" where
  "bagElements bag =
     (case bag of
        None \<Rightarrow> Inr None
      | Some b \<Rightarrow>
          rbind (rassert (bag_isValid bag)) (\<lambda>_.
          rbind (rassert (b_elementSize b = bag_ptr_size)) (\<lambda>_. Inr (b_array b))))"

text \<open>\<open>compareFunction\<close> is client code, applied to the element and the argument.\<close>

definition bagContainsCompare :: "('a, 'w) Bag \<Rightarrow> 'a \<Rightarrow> ('a \<Rightarrow> 'a \<Rightarrow> int) \<Rightarrow> bool res" where
  "bagContainsCompare bag element compareFunction =
     (case bag of
        None \<Rightarrow> Inr False
      | Some b \<Rightarrow>
          rbind (rassert (bag_isValid bag)) (\<lambda>_.
          rbind (rassert (b_elementSize b = bag_ptr_size)) (\<lambda>_.
          rbind (deref (b_array b)) (\<lambda>arr.
          rbind (bag_find (\<lambda>x. compareFunction x element = 0) arr [0..b_noElements b - 1]) (\<lambda>found.
          Inr (found \<noteq> None))))))"

definition bagContains :: "('a, 'w) Bag \<Rightarrow> 'a \<Rightarrow> bool res" where
  "bagContains bag element =
     (case bag of
        None \<Rightarrow> Inr False
      | Some b \<Rightarrow>
          rbind (rassert (bag_isValid bag)) (\<lambda>_.
          rbind (rassert (b_elementSize b = bag_ptr_size)) (\<lambda>_.
          rbind (deref (b_array b)) (\<lambda>arr.
          rbind (bag_find (\<lambda>x. x = element) arr [0..b_noElements b - 1]) (\<lambda>found.
          Inr (found \<noteq> None))))))"

text \<open>This one does not stop at the first match.\<close>

definition bagContains2 :: "('a, 'w) Bag \<Rightarrow> 'a \<Rightarrow> bool res" where
  "bagContains2 bag element =
     rbind (rassert (bag = None \<or> bag_isValid bag)) (\<lambda>_.
     rbind (case bag of
              None \<Rightarrow> Inr False
            | Some b \<Rightarrow>
                rbind (deref (b_array b)) (\<lambda>arr.
                rfold (\<lambda>i contains. rbind (read_slot arr i) (\<lambda>x.
                  Inr (if x = element then True else contains))) [0..b_noElements b - 1] False)) (\<lambda>contains.
     rbind (rassert (bag = None \<or> bag_isValid bag)) (\<lambda>_. Inr contains)))"

text \<open>\<open>rand()\<close> is an argument, a number that is not negative.\<close>

definition bagGetRandomElement :: "int \<Rightarrow> ('a, 'w) Bag \<Rightarrow> 'a option res" where
  "bagGetRandomElement rand bag =
     (case bag of
        None \<Rightarrow> Inl AssertFailed
      | Some b \<Rightarrow>
          rbind (rassert (b_elementSize b = bag_ptr_size)) (\<lambda>_.
          if b_noElements b = 0 then Inr None
          else
            (let elementNumber = rand mod \<bar>b_noElements b\<bar>
             in rbind (rassert (elementNumber \<ge> 0)) (\<lambda>_.
                rbind (rassert (elementNumber < b_noElements b)) (\<lambda>_.
                rbind (deref (b_array b)) (\<lambda>arr.
                rbind (read_slot arr elementNumber) (\<lambda>x. Inr (Some x))))))))"

definition bagGetRandomElement2 :: "int \<Rightarrow> ('a, 'w) Bag \<Rightarrow> 'a res" where
  "bagGetRandomElement2 rand bag =
     (case bag of
        None \<Rightarrow> Inl AssertFailed
      | Some b \<Rightarrow>
          if b_noElements b = 0 then Inl AssertFailed
          else
            (let elementNumber = rand mod \<bar>b_noElements b\<bar>
             in rbind (rassert (elementNumber \<ge> 0)) (\<lambda>_.
                rbind (rassert (elementNumber < b_noElements b)) (\<lambda>_.
                rbind (deref (b_array b)) (\<lambda>arr. read_slot arr elementNumber)))))"

subsection \<open>Callbacks over the elements\<close>

text \<open>The new bag is not checked for NULL; it takes over the destroy function of the old one.\<close>

definition bagFilter ::
  "bool \<Rightarrow> allocator \<Rightarrow> bool \<Rightarrow> ('a, 'w) Bag \<Rightarrow> ('a, 'w) FilterFunc \<Rightarrow> 'w \<Rightarrow> (('a, 'w) Bag \<times> 'w) res" where
  "bagFilter structOk avail lockOk bag filterFunc w =
     (case bag of
        None \<Rightarrow> Inr (None, w)
      | Some b \<Rightarrow>
          rbind (rassert (bag_isValid bag)) (\<lambda>_.
          rbind (case b_destroyFunc b of None \<Rightarrow> Inl UninitRead | Some d \<Rightarrow> Inr d) (\<lambda>d.
          rbind (bagCreate structOk avail lockOk 10 10 d) (\<lambda>result.
          rbind (rassert (b_elementSize b = bag_ptr_size)) (\<lambda>_.
          rbind (deref (b_array b)) (\<lambda>arr.
          rfold (\<lambda>i (result, w).
            rbind (read_slot arr i) (\<lambda>x.
            (case filterFunc x w of (keep, w') \<Rightarrow>
               if keep then rbind (bagAdd avail result x) (\<lambda>r. Inr (Some r, w'))
               else Inr (result, w')))) [0..b_noElements b - 1] (result, w)))))))"

text \<open>
  The loop of \<open>bagFilter2\<close>: \<open>i\<close> and \<open>ptr\<close> are the same place, \<open>l\<close> is \<open>lastPtr\<close>, \<open>n\<close> the number
  of elements. It ends because \<open>n - i\<close> shrinks in both branches.
\<close>

function filter2_loop ::
  "('a, 'w) FilterFunc2 \<Rightarrow> int \<Rightarrow> int \<Rightarrow> int \<Rightarrow> 'a option list \<Rightarrow> 'w \<Rightarrow> (int \<times> 'a option list \<times> 'w) res" where
  "filter2_loop f i l n arr w =
     (if i < n then
        rbind (read_slot arr i) (\<lambda>x.
        (case f x w of (keep, x', w') \<Rightarrow>
          rbind (write_slot arr i x') (\<lambda>arr1.
          if keep then filter2_loop f (i + 1) l n arr1 w'
          else rbind (read_slot arr1 l) (\<lambda>y.
               rbind (write_slot arr1 i y) (\<lambda>arr2.
               filter2_loop f i (l - 1) (n - 1) arr2 w')))))
      else Inr (n, arr, w))"
  by pat_completeness auto
termination
  by (relation "measure (\<lambda>(f, i, l, n, arr, w). nat (n - i))") auto

declare filter2_loop.simps [simp del]

definition bagFilter2 :: "('a, 'w) Bag \<Rightarrow> ('a, 'w) FilterFunc2 \<Rightarrow> 'w \<Rightarrow> (('a, 'w) Bag \<times> 'w) res" where
  "bagFilter2 bag filterFunc w =
     (case bag of
        None \<Rightarrow> Inr (None, w)
      | Some b \<Rightarrow>
          rbind (rassert (bag_isValid bag)) (\<lambda>_.
          rbind (deref (b_array b)) (\<lambda>arr.
          rbind (filter2_loop filterFunc 0 (b_noElements b - 1) (b_noElements b) arr w) (\<lambda>(n, arr', w').
          Inr (Some (b\<lparr> b_noElements := n, b_array := Some arr' \<rparr>), w')))))"

definition bagForEach :: "('a, 'w) Bag \<Rightarrow> ('a \<Rightarrow> 's \<Rightarrow> 's res) \<Rightarrow> 's \<Rightarrow> 's res" where
  "bagForEach bag forEachFunc w =
     (case bag of
        None \<Rightarrow> Inr w
      | Some b \<Rightarrow>
          rbind (rassert (bag_isValid bag)) (\<lambda>_.
          rbind (rassert (b_elementSize b = bag_ptr_size)) (\<lambda>_.
          rbind (deref (b_array b)) (\<lambda>arr.
          rfold (\<lambda>i w. rbind (read_slot arr i) (\<lambda>x. forEachFunc x w)) [0..b_noElements b - 1] w))))"

definition bagForEach2 :: "('a, 'w) Bag \<Rightarrow> ('a, 's) ForEachFunc2 \<Rightarrow> 's \<Rightarrow> (('a, 'w) Bag \<times> 's) res" where
  "bagForEach2 bag forEachFunc w =
     (case bag of
        None \<Rightarrow> Inr (None, w)
      | Some b \<Rightarrow>
          rbind (rassert (bag_isValid bag)) (\<lambda>_.
          rbind (deref (b_array b)) (\<lambda>arr.
          rbind (rfold (\<lambda>i (arr, w).
                   rbind (read_slot arr i) (\<lambda>x.
                   rbind (forEachFunc x w) (\<lambda>(x', w').
                   rbind (write_slot arr i x') (\<lambda>arr'. Inr (arr', w'))))) [0..b_noElements b - 1] (arr, w)) (\<lambda>(arr', w').
          Inr (Some (b\<lparr> b_array := Some arr' \<rparr>), w')))))"

definition bagFilterForEach ::
  "('a, 'w) Bag \<Rightarrow> ('a, 's) FilterFunc \<Rightarrow> ('a \<Rightarrow> 's \<Rightarrow> 's res) \<Rightarrow> 's \<Rightarrow> 's res" where
  "bagFilterForEach bag filterFunc forEachFunc w =
     (case bag of
        None \<Rightarrow> Inr w
      | Some b \<Rightarrow>
          rbind (rassert (bag_isValid bag)) (\<lambda>_.
          rbind (rassert (b_elementSize b = bag_ptr_size)) (\<lambda>_.
          rbind (deref (b_array b)) (\<lambda>arr.
          rfold (\<lambda>i w.
            rbind (read_slot arr i) (\<lambda>x.
            (case filterFunc x w of (keep, w') \<Rightarrow> if keep then forEachFunc x w' else Inr w')))
            [0..b_noElements b - 1] w))))"

text \<open>The loop of the three \<open>Until\<close> functions: the index of the accepted element, or \<open>None\<close>.\<close>

fun until_loop ::
  "('a, 's) FilterFunc2 \<Rightarrow> int list \<Rightarrow> 'a option list \<Rightarrow> 's \<Rightarrow> (int option \<times> 'a option list \<times> 's) res" where
  "until_loop f [] arr w = Inr (None, arr, w)"
| "until_loop f (i # is) arr w =
     rbind (read_slot arr i) (\<lambda>x.
     (case f x w of (found, x', w') \<Rightarrow>
        rbind (write_slot arr i x') (\<lambda>arr'.
        if found then Inr (Some i, arr', w') else until_loop f is arr' w')))"

text \<open>A filter function of the first family sees the value only.\<close>

definition by_value :: "('a, 's) FilterFunc \<Rightarrow> ('a, 's) FilterFunc2" where
  "by_value f x w = (case f x w of (found, w') \<Rightarrow> (found, x, w'))"

text \<open>
  The result, what is written to \<open>*element\<close> (\<open>None\<close>: nothing), and the world; \<open>wanted\<close> says that
  the argument \<open>element\<close> is not NULL.
\<close>

definition bagUntil ::
  "('a, 'w) Bag \<Rightarrow> ('a, 's) FilterFunc \<Rightarrow> bool \<Rightarrow> 's \<Rightarrow> (bool \<times> 'a option \<times> 's) res" where
  "bagUntil bag filterFunc wanted w =
     (case bag of
        None \<Rightarrow> Inr (False, None, w)
      | Some b \<Rightarrow>
          rbind (rassert (bag_isValid bag)) (\<lambda>_.
          rbind (rassert (b_elementSize b = bag_ptr_size)) (\<lambda>_.
          rbind (deref (b_array b)) (\<lambda>arr.
          rbind (until_loop (by_value filterFunc) [0..b_noElements b - 1] arr w) (\<lambda>(found, arr', w').
          case found of
            None \<Rightarrow> Inr (False, None, w')
          | Some j \<Rightarrow>
              if wanted then
                rbind (rassert (j + 1 > 0)) (\<lambda>_.
                rbind (read_slot arr' (j + 1 - 1)) (\<lambda>x. Inr (True, Some x, w')))
              else Inr (True, None, w'))))))"

definition bagUntil2 ::
  "('a, 'w) Bag \<Rightarrow> ('a, 's) FilterFunc2 \<Rightarrow> bool \<Rightarrow> 's \<Rightarrow> (bool \<times> 'a option \<times> ('a, 'w) Bag \<times> 's) res" where
  "bagUntil2 bag filterFunc wanted w =
     (case bag of
        None \<Rightarrow> Inr (False, None, None, w)
      | Some b \<Rightarrow>
          rbind (rassert (bag_isValid bag)) (\<lambda>_.
          rbind (deref (b_array b)) (\<lambda>arr.
          rbind (until_loop filterFunc [0..b_noElements b - 1] arr w) (\<lambda>(found, arr', w').
          (let bag' = Some (b\<lparr> b_array := Some arr' \<rparr>)
           in case found of
                None \<Rightarrow> Inr (False, None, bag', w')
              | Some j \<Rightarrow>
                  if wanted then
                    rbind (rassert (j + 1 > 0)) (\<lambda>_.
                    rbind (read_slot arr' (j + 1 - 1)) (\<lambda>x. Inr (True, Some x, bag', w')))
                  else Inr (True, None, bag', w'))))))"

text \<open>Here the caller gets the place of the element, or NULL when there is none.\<close>

definition bagUntil2NoCopy ::
  "('a, 'w) Bag \<Rightarrow> ('a, 's) FilterFunc2 \<Rightarrow> bool \<Rightarrow> 's
   \<Rightarrow> (bool \<times> int option option \<times> ('a, 'w) Bag \<times> 's) res" where
  "bagUntil2NoCopy bag filterFunc wanted w =
     (case bag of
        None \<Rightarrow> Inr (False, None, None, w)
      | Some b \<Rightarrow>
          rbind (rassert (bag_isValid bag)) (\<lambda>_.
          rbind (deref (b_array b)) (\<lambda>arr.
          rbind (until_loop filterFunc [0..b_noElements b - 1] arr w) (\<lambda>(found, arr', w').
          Inr (found \<noteq> None, if wanted then Some found else None,
               Some (b\<lparr> b_array := Some arr' \<rparr>), w')))))"

text \<open>\<open>bagForEach2\<close> with \<open>bagAdd2\<close>, the result bag as the world.\<close>

definition bagAppend :: "allocator \<Rightarrow> ('a, 'w) Bag \<Rightarrow> ('a, 'v) Bag \<Rightarrow> ('a, 'w) Bag res" where
  "bagAppend avail result source =
     (case source of
        None \<Rightarrow> Inr result
      | Some s \<Rightarrow>
          rbind (rassert (bag_isValid source)) (\<lambda>_.
          (case result of
             None \<Rightarrow> Inl AssertFailed
           | Some r \<Rightarrow>
               rbind (rassert (b_elementSize r = b_elementSize s)) (\<lambda>_.
               rbind (bagForEach2 source (\<lambda>x r. rbind (bagAdd2 avail (Some r) x) (\<lambda>r'. Inr (x, r'))) r)
                 (\<lambda>(source', r'). Inr (Some r'))))))"

subsection \<open>Iterators\<close>

text \<open>Bags live in a store here: an iterator keeps a pointer to its bag.\<close>

type_synonym ('a, 'w) bags = "nat \<rightharpoonup> ('a, 'w) sBag"

definition bag_at :: "('a, 'w) bags \<Rightarrow> nat option \<Rightarrow> ('a, 'w) Bag res" where
  "bag_at bags p =
     (case p of
        None \<Rightarrow> Inr None
      | Some a \<Rightarrow> (case bags a of None \<Rightarrow> Inl DanglingPtr | Some b \<Rightarrow> Inr (Some b)))"

definition bagIteratorCreate2 :: "bool \<Rightarrow> ('a, 'w) bags \<Rightarrow> nat option \<Rightarrow> sBagIterator res" where
  "bagIteratorCreate2 allocOk bags bag =
     rbind (bag_at bags bag) (\<lambda>b.
     rbind (rassert (bag_isValid b)) (\<lambda>_.
     rbind (rguard NullDeref allocOk) (\<lambda>_.
     rbind (deref bag) (\<lambda>a. Inr \<lparr> bi_current = 0, bi_bag = a \<rparr>))))"

definition bagIteratorCreate :: "bool \<Rightarrow> ('a, 'w) bags \<Rightarrow> nat option \<Rightarrow> sBagIterator res" where
  "bagIteratorCreate allocOk bags bag =
     rbind (bag_at bags bag) (\<lambda>b.
     rbind (rassert (bag_isValid b)) (\<lambda>_.
     rbind (rguard NullDeref allocOk) (\<lambda>_.
     rbind (deref bag) (\<lambda>a. Inr \<lparr> bi_current = 0, bi_bag = a \<rparr>))))"

text \<open>The copy of the element at the current position; no test that there is one.\<close>

definition bagIteratorGetNext ::
  "('a, 'w) bags \<Rightarrow> sBagIterator option \<Rightarrow> ('a \<times> sBagIterator) res" where
  "bagIteratorGetNext bags bi =
     rbind (deref bi) (\<lambda>it.
     (let i = bi_current it
      in rbind (bag_at bags (Some (bi_bag it))) (\<lambda>bag.
         rbind (rassert (bag_isValid bag)) (\<lambda>_.
         rbind (deref bag) (\<lambda>b.
         rbind (deref (b_array b)) (\<lambda>arr.
         rbind (read_slot arr i) (\<lambda>x.
         rbind (iadd (bi_current it) 1) (\<lambda>j.
         Inr (x, it\<lparr> bi_current := j \<rparr>)))))))))"

definition bagIteratorNext ::
  "bool \<Rightarrow> ('a, 'w) bags \<Rightarrow> sBagIterator option \<Rightarrow> ('a \<times> sBagIterator) res" where
  "bagIteratorNext allocOk bags bi =
     rbind (deref bi) (\<lambda>it.
     (let i = bi_current it
      in rbind (bag_at bags (Some (bi_bag it))) (\<lambda>bag.
         rbind (rassert (bag_isValid bag)) (\<lambda>_.
         rbind (deref bag) (\<lambda>b.
         rbind (rguard NullDeref allocOk) (\<lambda>_.
         rbind (deref (b_array b)) (\<lambda>arr.
         rbind (read_slot arr i) (\<lambda>x.
         rbind (iadd (bi_current it) 1) (\<lambda>j.
         Inr (x, it\<lparr> bi_current := j \<rparr>))))))))))"

definition bagIteratorHasNext :: "('a, 'w) bags \<Rightarrow> sBagIterator option \<Rightarrow> bool res" where
  "bagIteratorHasNext bags bi =
     (case bi of
        None \<Rightarrow> Inl AssertFailed
      | Some it \<Rightarrow>
          rbind (bag_at bags (Some (bi_bag it))) (\<lambda>bag.
          rbind (rassert (bag_isValid bag)) (\<lambda>_.
          rbind (deref bag) (\<lambda>b.
          Inr (\<not> (bi_current it \<ge> b_noElements b \<or> bi_current it < 0))))))"

text \<open>The loop \<open>while( bagIteratorHasNext( bi ) ) bagIteratorGetNext( bi, ... )\<close> with a loop body.\<close>

definition elements_left :: "('a, 'w) bags \<Rightarrow> sBagIterator \<Rightarrow> nat" where
  "elements_left bags bi = (case bags (bi_bag bi) of None \<Rightarrow> 0 | Some b \<Rightarrow> nat (b_noElements b - bi_current bi))"

function iterate ::
  "('a, 'w) bags \<Rightarrow> ('a \<Rightarrow> 's \<Rightarrow> 's res) \<Rightarrow> sBagIterator \<Rightarrow> 's \<Rightarrow> 's res" where
  "iterate bags body bi s =
     rbind (bagIteratorHasNext bags (Some bi)) (\<lambda>more.
     if more then
       rbind (bagIteratorGetNext bags (Some bi)) (\<lambda>(x, bi').
       rbind (body x s) (\<lambda>s'. iterate bags body bi' s'))
     else Inr s)"
  by pat_completeness auto
termination
  by (relation "measure (\<lambda>(bags, body, bi, s). elements_left bags bi)")
    (auto simp: elements_left_def bagIteratorHasNext_def bagIteratorGetNext_def bag_at_def res_iff
      split: option.splits)

declare iterate.simps [simp del]

subsection \<open>The cross product of two bags of strings\<close>

text \<open>
  \<open>snprintf( buf, 512, "%s %s", str1, str2 )\<close> and \<open>strdup\<close>, which gives NULL when it fails. The
  elements are pointers to strings. \<open>resultOk\<close> says that the argument \<open>result\<close> is not NULL.
\<close>

definition cross_string :: "bool \<Rightarrow> string option \<Rightarrow> string option \<Rightarrow> string option res" where
  "cross_string dupOk str1 str2 =
     rbind (deref str1) (\<lambda>s1.
     rbind (deref str2) (\<lambda>s2.
     Inr (if dupOk then Some (take 511 (s1 @ '' '' @ s2)) else None)))"

text \<open>The iterators copy \<open>elementSize\<close> bytes into a pointer variable.\<close>

definition holds_pointers :: "('a, 'w) Bag \<Rightarrow> bool" where
  "holds_pointers bag = (case bag of None \<Rightarrow> True | Some b \<Rightarrow> b_elementSize b = bag_ptr_size)"

definition bagCrossProd ::
  "bool \<Rightarrow> allocator \<Rightarrow> bool \<Rightarrow> bool \<Rightarrow> bool \<Rightarrow> bool \<Rightarrow> (string option, 'w) bags \<Rightarrow> nat option \<Rightarrow> nat option
   \<Rightarrow> (string option, 'w) Bag res" where
  "bagCrossProd structOk avail lockOk iterOk dupOk resultOk bags bag1 bag2 =
     rbind (rassert resultOk) (\<lambda>_.
     rbind (bagCreate structOk avail lockOk 10 10 None) (\<lambda>bag.
     rbind (bag_at bags bag1) (\<lambda>b1.
     rbind (bagNoElements b1) (\<lambda>n.
     if n = 0 then
       rbind (bag_at bags bag2) (\<lambda>b2. bagAppend avail bag b2)
     else
       rbind (bag_at bags bag2) (\<lambda>b2.
       rbind (rguard LayoutMismatch (holds_pointers b1 \<and> holds_pointers b2)) (\<lambda>_.
       rbind (bagIteratorCreate2 iterOk bags bag1) (\<lambda>bi.
       iterate bags (\<lambda>str1 bag.
         rbind (bagIteratorCreate2 iterOk bags bag2) (\<lambda>bi2.
         iterate bags (\<lambda>str2 bag.
           rbind (cross_string dupOk str1 str2) (\<lambda>s.
           rbind (bagAdd avail bag s) (\<lambda>b. Inr (Some b)))) bi2 bag)) bi bag)))))))"

subsection \<open>Invariant and abstraction\<close>

text \<open>
  What \<open>bag_isValid\<close> tests, that the block has as many slots as the capacity says, and that the
  first \<open>noElements\<close> slots hold the elements. The order is an accident of the representation: what
  a bag stands for is the multiset of its elements.
\<close>

definition bag_holds :: "('a, 'w) sBag \<Rightarrow> 'a list \<Rightarrow> bool" where
  "bag_holds b xs \<longleftrightarrow>
     b_cookie b \<and> b_capacityIncrement b \<ge> 0 \<and> block_fits (b_elementSize b) (b_capacity b)
     \<and> (\<exists>arr. b_array b = Some arr \<and> length arr = nat (b_capacity b) \<and> holds arr (b_noElements b) xs)"

definition bag_wf :: "('a, 'w) sBag \<Rightarrow> bool" where
  "bag_wf b \<longleftrightarrow> (\<exists>xs. bag_holds b xs)"

definition bag_list :: "('a, 'w) sBag \<Rightarrow> 'a list" where
  "bag_list b = (case b_array b of None \<Rightarrow> [] | Some arr \<Rightarrow> map the (take (nat (b_noElements b)) arr))"

definition bag_mset :: "('a, 'w) sBag \<Rightarrow> 'a multiset" where
  "bag_mset b = mset (bag_list b)"

text \<open>The allocator grants every block the bag may ask for on its way to \<open>n\<close> elements.\<close>

definition bag_grows :: "allocator \<Rightarrow> ('a, 'w) sBag \<Rightarrow> int \<Rightarrow> bool" where
  "bag_grows avail b n \<longleftrightarrow>
     (\<forall>c. b_capacity b < c \<and> c \<le> max (2 * n) (n + b_capacityIncrement b) \<longrightarrow>
        block_fits (b_elementSize b) c \<and> avail (block_bytes (b_elementSize b) c))"

text \<open>What no operation on the elements changes, and that the block never shrinks.\<close>

definition bag_ext :: "('a, 'w) sBag \<Rightarrow> ('a, 'w) sBag \<Rightarrow> bool" where
  "bag_ext b b' \<longleftrightarrow>
     b_capacity b \<le> b_capacity b' \<and> b_elementSize b' = b_elementSize b
     \<and> b_capacityIncrement b' = b_capacityIncrement b \<and> b_destroyFunc b' = b_destroyFunc b
     \<and> b_lock b' = b_lock b"

lemma bag_ext_refl [simp]: "bag_ext b b"
  by (simp add: bag_ext_def)

lemma bag_ext_trans: "bag_ext b b1 \<Longrightarrow> bag_ext b1 b2 \<Longrightarrow> bag_ext b b2"
  by (simp add: bag_ext_def)

lemma bag_grows_mono: "bag_grows avail b n \<Longrightarrow> bag_ext b b' \<Longrightarrow> m \<le> n \<Longrightarrow> bag_grows avail b' m"
  unfolding bag_grows_def bag_ext_def by (smt (verit, ccfv_threshold))

lemma bag_holds_list: "bag_holds b xs \<Longrightarrow> bag_list b = xs"
  by (auto simp: bag_holds_def bag_list_def holds_def)

lemma bag_wf_list: "bag_wf b \<longleftrightarrow> bag_holds b (bag_list b)"
  unfolding bag_wf_def using bag_holds_list by metis

lemma bag_holds_count: "bag_holds b xs \<Longrightarrow> b_noElements b = int (length xs)"
  by (auto simp: bag_holds_def dest: holds_length)

lemma bag_holds_valid: "bag_holds b xs \<Longrightarrow> bag_isValid (Some b)"
  by (auto simp: bag_holds_def bag_isValid_def block_fits_def holds_def)

lemma bag_holds_array:
  assumes "bag_holds b xs"
  obtains arr where "b_array b = Some arr" "length arr = nat (b_capacity b)" "holds arr (int (length xs)) xs"
    "int (length xs) \<le> b_capacity b" "b_capacity b \<le> INT_MAX"
proof -
  obtain arr where arr: "b_array b = Some arr" "length arr = nat (b_capacity b)" "holds arr (b_noElements b) xs"
      "0 \<le> b_capacity b" "b_capacity b \<le> INT_MAX"
    using assms by (auto simp: bag_holds_def block_fits_def)
  moreover have "int (length xs) \<le> b_capacity b"
    using arr bag_holds_count[OF assms] by (auto simp: holds_def)
  ultimately show thesis using that bag_holds_count[OF assms] by auto
qed

lemma ensureIncCapacity_holds:
  assumes h: "bag_holds b xs" and g: "bag_grows avail b (int (length xs) + 1)"
  shows "\<exists>b'. ensureIncCapacity avail b = Inr b' \<and> bag_holds b' xs \<and> int (length xs) < b_capacity b'
      \<and> bag_ext b b'"
proof -
  obtain arr where arr: "b_array b = Some arr" "length arr = nat (b_capacity b)" "holds arr (int (length xs)) xs"
      "int (length xs) \<le> b_capacity b"
    using bag_holds_array[OF h] by metis
  have n: "b_noElements b = int (length xs)" using bag_holds_count[OF h] .
  have inc: "0 \<le> b_capacityIncrement b" using h by (simp add: bag_holds_def)
  show ?thesis
  proof (cases "b_noElements b = b_capacity b")
    case True
    define cap where "cap = (if b_capacityIncrement b = 0 then (if b_capacity b = 0 then 1 else b_capacity b * 2)
      else b_capacity b + b_capacityIncrement b)"
    have cap: "b_capacity b < cap" "cap \<le> max (2 * (int (length xs) + 1)) (int (length xs) + 1 + b_capacityIncrement b)"
      using True n inc by (auto simp: cap_def)
    then have f: "block_fits (b_elementSize b) cap" "avail (block_bytes (b_elementSize b) cap)"
      using g unfolding bag_grows_def by blast+
    then have "in_int cap" by (auto simp: block_fits_def in_int_def)
    then have "ensureIncCapacity avail b = Inr (b\<lparr> b_capacity := cap, b_array := Some (realloc_slots (nat cap) arr) \<rparr>)"
      using True f cap n arr(1) block_slots_fits[OF f(1)]
      by (auto simp: ensureIncCapacity_def cap_def split: if_splits)
    moreover have "holds (realloc_slots (nat cap) arr) (int (length xs)) xs"
      using holds_realloc[OF arr(3)] arr(4) cap(1) by simp
    ultimately show ?thesis using h f cap True n by (auto simp: bag_holds_def bag_ext_def)
  qed (use h n arr in \<open>auto simp: ensureIncCapacity_def\<close>)
qed

lemma bag_store_holds:
  assumes h: "bag_holds b xs" and c: "int (length xs) < b_capacity b"
  shows "\<exists>arr. bag_store b x = Inr (b\<lparr> b_noElements := int (length xs) + 1, b_array := Some arr \<rparr>)
      \<and> bag_holds (b\<lparr> b_noElements := int (length xs) + 1, b_array := Some arr \<rparr>) (xs @ [x])"
proof -
  obtain arr where arr: "b_array b = Some arr" "length arr = nat (b_capacity b)" "holds arr (int (length xs)) xs"
      "b_capacity b \<le> INT_MAX"
    using bag_holds_array[OF h] by metis
  have "in_int (int (length xs) + 1)" using c arr(4) by (simp add: in_int_def)
  then show ?thesis
    using h arr c bag_holds_count[OF h] holds_snoc[OF arr(3), of x]
    by (auto simp: bag_store_def bag_holds_def)
qed

lemma bagAdd2_holds:
  assumes h: "bag_holds b xs" and g: "bag_grows avail b (int (length xs) + 1)"
  shows "\<exists>b'. bagAdd2 avail (Some b) x = Inr b' \<and> bag_holds b' (xs @ [x]) \<and> bag_ext b b'"
proof -
  obtain b1 where b1: "ensureIncCapacity avail b = Inr b1" "bag_holds b1 xs" "int (length xs) < b_capacity b1" "bag_ext b b1"
    using ensureIncCapacity_holds[OF assms] by blast
  obtain arr where "bag_store b1 x = Inr (b1\<lparr> b_noElements := int (length xs) + 1, b_array := Some arr \<rparr>)"
      "bag_holds (b1\<lparr> b_noElements := int (length xs) + 1, b_array := Some arr \<rparr>) (xs @ [x])"
    using bag_store_holds[OF b1(2,3)] by blast
  then show ?thesis
    using b1 bag_holds_valid[OF h] bag_holds_valid by (fastforce simp: bagAdd2_def bag_ext_def)
qed

lemma bagAdd_eq: "b_elementSize b = bag_ptr_size \<Longrightarrow> bagAdd avail (Some b) x = bagAdd2 avail (Some b) x"
  by (simp add: bagAdd_def bagAdd2_def)

text \<open>A search over the elements finds the first one that passes.\<close>

lemma bag_find_list:
  assumes "holds arr (int (length xs)) xs" and "k \<le> length xs"
  shows "\<exists>r. bag_find t arr [int k..int (length xs) - 1] = Inr r
      \<and> (case r of None \<Rightarrow> \<forall>j. k \<le> j \<and> j < length xs \<longrightarrow> \<not> t (xs ! j)
         | Some i \<Rightarrow> int k \<le> i \<and> i < int (length xs) \<and> t (xs ! nat i)
             \<and> (\<forall>j. k \<le> j \<and> j < nat i \<longrightarrow> \<not> t (xs ! j)))"
  using assms(2)
proof (induction "length xs - k" arbitrary: k)
  case (Suc d)
  then have lt: "int k \<le> int (length xs) - 1" by linarith
  have r: "read_slot arr (int k) = Inr (xs ! k)"
    using read_slot_holds[OF assms(1), of "int k"] lt by simp
  show ?case
  proof (cases "t (xs ! k)")
    case False
    have "d = length xs - Suc k" "Suc k \<le> length xs" using Suc by auto
    from Suc.hyps(1)[OF this] obtain r' where r': "bag_find t arr [int (Suc k)..int (length xs) - 1] = Inr r'"
        "case r' of None \<Rightarrow> \<forall>j. Suc k \<le> j \<and> j < length xs \<longrightarrow> \<not> t (xs ! j)
         | Some i \<Rightarrow> int (Suc k) \<le> i \<and> i < int (length xs) \<and> t (xs ! nat i)
             \<and> (\<forall>j. Suc k \<le> j \<and> j < nat i \<longrightarrow> \<not> t (xs ! j))"
      by blast
    have s: "Suc k \<le> j" if "k \<le> j" "\<not> \<not> t (xs ! j)" for j
      using that False by (metis Suc_leI le_neq_implies_less)
    from r' r False show ?thesis
      unfolding upto_rec1[OF lt]
      by (auto simp: add.commute split: option.splits dest: s)
  qed (use r lt in \<open>auto simp: upto_rec1\<close>)
qed auto

lemma bag_find_mem:
  assumes "holds arr (int (length xs)) xs"
  shows "\<exists>r. bag_find t arr [0..int (length xs) - 1] = Inr r \<and> (r \<noteq> None \<longleftrightarrow> (\<exists>x \<in> set xs. t x))
      \<and> (\<forall>i. r = Some i \<longrightarrow> 0 \<le> i \<and> i < int (length xs) \<and> t (xs ! nat i))"
proof -
  obtain r where r: "bag_find t arr [0..int (length xs) - 1] = Inr r"
    and c: "case r of None \<Rightarrow> \<forall>j. j < length xs \<longrightarrow> \<not> t (xs ! j)
         | Some i \<Rightarrow> 0 \<le> i \<and> i < int (length xs) \<and> t (xs ! nat i)"
    using bag_find_list[OF assms, of 0 t] by (fastforce split: option.splits)
  from c have "r \<noteq> None \<longleftrightarrow> (\<exists>x \<in> set xs. t x)"
    by (cases r) (auto simp: in_set_conv_nth intro: bexI[OF _ nth_mem])
  then show ?thesis using r c by (auto split: option.splits)
qed

text \<open>Removing by overwriting with the last element removes one occurrence.\<close>

lemma mset_swap_remove:
  assumes "i < length xs"
  shows "mset (butlast (xs[i := last xs])) = mset xs - {#xs ! i#}"
proof -
  let ?ys = "xs[i := last xs]"
  have "?ys \<noteq> []" using assms by auto
  then have "mset ?ys = add_mset (last ?ys) (mset (butlast ?ys))"
    by (metis append_butlast_last_id mset_append mset.simps add_mset_add_single)
  moreover have "last ?ys = last xs"
    using assms by (cases xs rule: rev_cases) (auto simp: last_list_update)
  moreover have "mset ?ys = add_mset (last xs) (mset xs - {#xs ! i#})"
    using assms by (simp add: mset_update)
  ultimately show ?thesis by simp
qed

lemma bag_remove_at_holds:
  assumes h: "bag_holds b xs" and a: "b_array b = Some arr" and i: "0 \<le> i" "i < int (length xs)"
  shows "\<exists>b'. bag_remove_at b arr i = Inr b' \<and> bag_holds b' (butlast (xs[nat i := last xs])) \<and> bag_ext b b'"
proof -
  have arr: "length arr = nat (b_capacity b)" "holds arr (int (length xs)) xs" "int (length xs) \<le> b_capacity b"
    using bag_holds_array[OF h] a by (metis option.inject)+
  have n: "b_noElements b = int (length xs)" using bag_holds_count[OF h] .
  have "read_slot arr (int (length xs) - 1) = Inr (last xs)"
    using read_slot_holds[OF arr(2), of "int (length xs) - 1"] i last_conv_nth[of xs]
    by (cases "xs = []") (auto simp: nat_diff_distrib)
  moreover have "holds (arr[nat i := Some (last xs)]) (int (length xs) - 1) (butlast (xs[nat i := last xs]))"
    using holds_butlast[OF holds_update[OF arr(2) i]] i by (cases "xs = []") auto
  ultimately show ?thesis using h n arr i by (auto simp: bag_remove_at_def bag_holds_def bag_ext_def)
qed

lemma bagRemoveMaybe2_holds:
  assumes h: "bag_holds b xs"
  shows "if x \<in> set xs
    then \<exists>b' ys. bagRemoveMaybe2 (Some b) x = Inr (1, Some b') \<and> bag_holds b' ys \<and> mset ys = mset xs - {#x#}
       \<and> bag_ext b b'
    else bagRemoveMaybe2 (Some b) x = Inr (0, Some b)"
proof -
  obtain arr where arr: "b_array b = Some arr" "holds arr (int (length xs)) xs"
    using bag_holds_array[OF h] by metis
  obtain r where r: "bag_find (\<lambda>y. y = x) arr [0..int (length xs) - 1] = Inr r" "r \<noteq> None \<longleftrightarrow> x \<in> set xs"
      "\<And>i. r = Some i \<Longrightarrow> 0 \<le> i \<and> i < int (length xs) \<and> xs ! nat i = x"
    using bag_find_mem[OF arr(2), of "\<lambda>y. y = x"] by auto
  show ?thesis
  proof (cases r)
    case None
    then show ?thesis
      using r arr bag_holds_valid[OF h] bag_holds_count[OF h] by (simp add: bagRemoveMaybe2_def)
  next
    case (Some i)
    then have i: "0 \<le> i" "i < int (length xs)" "xs ! nat i = x" using r(3) by auto
    obtain b' where b': "bag_remove_at b arr i = Inr b'" "bag_holds b' (butlast (xs[nat i := last xs]))" "bag_ext b b'"
      using bag_remove_at_holds[OF h arr(1) i(1,2)] by blast
    have "mset (butlast (xs[nat i := last xs])) = mset xs - {#x#}"
      using mset_swap_remove[of "nat i" xs] i by (simp add: nat_less_iff)
    then show ?thesis
      using Some r(1,2) b' arr(1) bag_holds_valid[OF h] bag_holds_count[OF h]
      by (auto simp: bagRemoveMaybe2_def)
  qed
qed

lemma bagRemoveMaybe_eq: "b_elementSize b = bag_ptr_size \<Longrightarrow> bagRemoveMaybe (Some b) x = bagRemoveMaybe2 (Some b) x"
  by (simp add: bagRemoveMaybe_def bagRemoveMaybe2_def)

lemma bagContains_holds:
  assumes h: "bag_holds b xs" and "b_elementSize b = bag_ptr_size"
  shows "bagContains (Some b) x = Inr (x \<in> set xs)"
proof -
  obtain arr where arr: "b_array b = Some arr" "holds arr (int (length xs)) xs"
    using bag_holds_array[OF h] by metis
  then show ?thesis
    using bag_find_mem[OF arr(2), of "\<lambda>y. y = x"] assms bag_holds_valid[OF h] bag_holds_count[OF h]
    by (auto simp: bagContains_def)
qed

text \<open>A loop over the indices of the elements is a loop over the elements.\<close>

lemma rfold_read:
  assumes "holds arr (int (length xs)) xs" and "k \<le> length xs"
  shows "rfold (\<lambda>i w. rbind (read_slot arr i) (\<lambda>x. g x w)) [int k..int (length xs) - 1] w = rfold g (drop k xs) w"
  using assms(2)
proof (induction "length xs - k" arbitrary: k w)
  case (Suc d)
  then have lt: "int k \<le> int (length xs) - 1" by linarith
  have "read_slot arr (int k) = Inr (xs ! k)"
    using read_slot_holds[OF assms(1), of "int k"] lt by simp
  moreover have "drop k xs = xs ! k # drop (Suc k) xs" using lt by (simp add: Cons_nth_drop_Suc)
  moreover have "rfold (\<lambda>i w. rbind (read_slot arr i) (\<lambda>x. g x w)) [int k + 1..int (length xs) - 1] = rfold g (drop (Suc k) xs)"
    using Suc.hyps(1)[of "Suc k"] Suc.hyps(2) lt by (auto simp: add.commute)
  ultimately show ?case by (simp add: upto_rec1[OF lt])
qed simp

lemma rfold_contains:
  "rfold (\<lambda>x contains. Inr (if x = y then True else contains)) xs c = Inr (c \<or> y \<in> set xs)"
  by (induction xs arbitrary: c) auto

lemma bagContains2_holds:
  assumes h: "bag_holds b xs"
  shows "bagContains2 (Some b) x = Inr (x \<in> set xs)"
proof -
  obtain arr where arr: "b_array b = Some arr" "holds arr (int (length xs)) xs"
    using bag_holds_array[OF h] by metis
  then show ?thesis
    using rfold_read[OF arr(2), of 0 "\<lambda>x' c. Inr (if x' = x then True else c)" False]
      bag_holds_valid[OF h] bag_holds_count[OF h]
    by (simp add: bagContains2_def rfold_contains)
qed

subsection \<open>The multiset contract\<close>

text \<open>
  What a client of an unordered collection relies on: adding and removing are addition and
  subtraction of multisets, whatever the order the elements are kept in. \<open>room s k\<close> says that
  \<open>k\<close> more elements can be taken in.
\<close>

datatype 'a bag_op = Put 'a | Take 'a

fun mset_op :: "'a bag_op \<Rightarrow> 'a multiset \<Rightarrow> 'a multiset" where
  "mset_op (Put x) m = add_mset x m"
| "mset_op (Take x) m = m - {#x#}"

definition puts :: "'a bag_op list \<Rightarrow> nat" where
  "puts ops = length (filter (\<lambda>p. case p of Put x \<Rightarrow> True | Take x \<Rightarrow> False) ops)"

fun run_op :: "('a \<Rightarrow> 's \<Rightarrow> 's res) \<Rightarrow> ('a \<Rightarrow> 's \<Rightarrow> (int \<times> 's) res) \<Rightarrow> 'a bag_op \<Rightarrow> 's \<Rightarrow> 's res" where
  "run_op add remove (Put x) s = add x s"
| "run_op add remove (Take x) s = rbind (remove x s) (\<lambda>(n, s'). Inr s')"

locale multiset_store =
  fixes inv :: "'s \<Rightarrow> bool"
    and abs :: "'s \<Rightarrow> 'a multiset"
    and room :: "'s \<Rightarrow> nat \<Rightarrow> bool"
    and add :: "'a \<Rightarrow> 's \<Rightarrow> 's res"
    and remove :: "'a \<Rightarrow> 's \<Rightarrow> (int \<times> 's) res"
    and contains :: "'a \<Rightarrow> 's \<Rightarrow> bool res"
  assumes add_law: "inv s \<Longrightarrow> room s (Suc k) \<Longrightarrow>
      \<exists>s'. add x s = Inr s' \<and> inv s' \<and> abs s' = add_mset x (abs s) \<and> room s' k"
    and remove_law: "inv s \<Longrightarrow>
      \<exists>s'. remove x s = Inr (if x \<in># abs s then 1 else 0, s') \<and> inv s' \<and> abs s' = abs s - {#x#}
         \<and> (\<forall>k. room s k \<longrightarrow> room s' k)"
    and contains_law: "inv s \<Longrightarrow> contains x s = Inr (x \<in># abs s)"
begin

lemma run_ops:
  assumes "inv s" and "room s (puts ops)"
  shows "\<exists>s'. rfold (run_op add remove) ops s = Inr s' \<and> inv s' \<and> abs s' = fold mset_op ops (abs s)
      \<and> (\<forall>x. contains x s' = Inr (x \<in># fold mset_op ops (abs s)))"
  using assms
proof (induction ops arbitrary: s)
  case (Cons p ops)
  show ?case
  proof (cases p)
    case (Put x)
    then obtain s1 where "add x s = Inr s1" "inv s1" "abs s1 = add_mset x (abs s)" "room s1 (puts ops)"
      using add_law[of s "puts ops" x] Cons.prems by (auto simp: puts_def)
    with Cons.IH[of s1] Put show ?thesis by auto
  next
    case (Take x)
    then obtain s1 where "run_op add remove p s = Inr s1" "inv s1" "abs s1 = abs s - {#x#}" "room s1 (puts ops)"
      using remove_law[of s x] Cons.prems by (auto simp: puts_def)
    with Cons.IH[of s1] Take show ?thesis by auto
  qed
qed (simp add: contains_law)

lemma add_remove:
  assumes "inv s" and "room s (Suc k)"
  shows "\<exists>s'. rbind (add x s) (remove x) = Inr (1, s') \<and> inv s' \<and> abs s' = abs s"
proof -
  obtain s1 where "add x s = Inr s1" "inv s1" "abs s1 = add_mset x (abs s)"
    using add_law[OF assms, of x] by blast
  then show ?thesis using remove_law[of s1 x] by auto
qed

end

text \<open>The two families of operations, on a bag that is not NULL.\<close>

definition on_bag :: "(int \<times> ('a, 'w) Bag) res \<Rightarrow> (int \<times> ('a, 'w) sBag) res" where
  "on_bag m = rbind m (\<lambda>(n, bag). rbind (deref bag) (\<lambda>b. Inr (n, b)))"

definition bag_room :: "allocator \<Rightarrow> ('a, 'w) sBag \<Rightarrow> nat \<Rightarrow> bool" where
  "bag_room avail b k \<longleftrightarrow> bag_grows avail b (b_noElements b + int k)"

lemma bagAdd2_law:
  assumes "bag_wf b" and "bag_room avail b (Suc k)"
  shows "\<exists>b'. bagAdd2 avail (Some b) x = Inr b' \<and> bag_wf b' \<and> bag_mset b' = add_mset x (bag_mset b)
      \<and> bag_room avail b' k \<and> bag_ext b b'"
proof -
  let ?xs = "bag_list b"
  have h: "bag_holds b ?xs" using assms(1) by (simp add: bag_wf_list)
  have g: "bag_grows avail b (int (length ?xs) + 1 + int k)"
    using assms(2) bag_holds_count[OF h] by (simp add: bag_room_def algebra_simps)
  obtain b' where b': "bagAdd2 avail (Some b) x = Inr b'" "bag_holds b' (?xs @ [x])" "bag_ext b b'"
    using bagAdd2_holds[OF h bag_grows_mono[OF g bag_ext_refl]] by auto
  have "bag_room avail b' k"
    using bag_grows_mono[OF g b'(3)] bag_holds_count[OF b'(2)] by (simp add: bag_room_def)
  then show ?thesis
    using b' bag_holds_list[OF b'(2)] by (auto simp: bag_wf_def bag_mset_def)
qed

lemma bagRemoveMaybe2_law:
  assumes "bag_wf b"
  shows "\<exists>b'. on_bag (bagRemoveMaybe2 (Some b) x) = Inr (if x \<in># bag_mset b then 1 else 0, b') \<and> bag_wf b'
      \<and> bag_mset b' = bag_mset b - {#x#} \<and> (\<forall>k. bag_room avail b k \<longrightarrow> bag_room avail b' k) \<and> bag_ext b b'"
proof -
  let ?xs = "bag_list b"
  have h: "bag_holds b ?xs" using assms(1) by (simp add: bag_wf_list)
  show ?thesis
  proof (cases "x \<in> set ?xs")
    case True
    then obtain b' ys where b': "bagRemoveMaybe2 (Some b) x = Inr (1, Some b')" "bag_holds b' ys"
        "mset ys = mset ?xs - {#x#}" "bag_ext b b'"
      using bagRemoveMaybe2_holds[OF h, of x] by auto
    have "length ys \<le> length ?xs"
      using arg_cong[OF b'(3), of size] by (simp add: size_Diff_singleton_if)
    then have "bag_room avail b' k" if "bag_room avail b k" for k
      using that bag_grows_mono[OF _ b'(4)] bag_holds_count[OF h] bag_holds_count[OF b'(2)]
      by (simp add: bag_room_def)
    then show ?thesis
      using True b' bag_holds_list[OF b'(2)] by (auto simp: on_bag_def bag_wf_def bag_mset_def)
  next
    case False
    then show ?thesis
      using bagRemoveMaybe2_holds[OF h, of x] assms by (auto simp: on_bag_def bag_mset_def)
  qed
qed

interpretation val_bag: multiset_store bag_wf bag_mset "bag_room avail"
  "\<lambda>x b. bagAdd2 avail (Some b) x" "\<lambda>x b. on_bag (bagRemoveMaybe2 (Some b) x)"
  "\<lambda>x b. bagContains2 (Some b) x" for avail
proof unfold_locales
  fix b :: "('a, 'b) sBag" and x k
  assume b: "bag_wf b"
  then show "bagContains2 (Some b) x = Inr (x \<in># bag_mset b)"
    using bagContains2_holds by (auto simp: bag_wf_list bag_mset_def)
  from b show "\<exists>b'. on_bag (bagRemoveMaybe2 (Some b) x) = Inr (if x \<in># bag_mset b then 1 else 0, b')
      \<and> bag_wf b' \<and> bag_mset b' = bag_mset b - {#x#} \<and> (\<forall>k. bag_room avail b k \<longrightarrow> bag_room avail b' k)"
    using bagRemoveMaybe2_law[of b x avail] by auto
  assume "bag_room avail b (Suc k)"
  with b show "\<exists>b'. bagAdd2 avail (Some b) x = Inr b' \<and> bag_wf b'
      \<and> bag_mset b' = add_mset x (bag_mset b) \<and> bag_room avail b' k"
    using bagAdd2_law[of b avail k x] by auto
qed

interpretation ptr_bag: multiset_store "\<lambda>b. bag_wf b \<and> b_elementSize b = bag_ptr_size" bag_mset "bag_room avail"
  "\<lambda>x b. bagAdd avail (Some b) x" "\<lambda>x b. on_bag (bagRemoveMaybe (Some b) x)"
  "\<lambda>x b. bagContains (Some b) x" for avail
proof unfold_locales
  fix b :: "('a, 'b) sBag" and x k
  assume b: "bag_wf b \<and> b_elementSize b = bag_ptr_size"
  then show "bagContains (Some b) x = Inr (x \<in># bag_mset b)"
    using bagContains_holds by (auto simp: bag_wf_list bag_mset_def)
  from b show "\<exists>b'. on_bag (bagRemoveMaybe (Some b) x) = Inr (if x \<in># bag_mset b then 1 else 0, b')
      \<and> (bag_wf b' \<and> b_elementSize b' = bag_ptr_size) \<and> bag_mset b' = bag_mset b - {#x#}
      \<and> (\<forall>k. bag_room avail b k \<longrightarrow> bag_room avail b' k)"
    using bagRemoveMaybe2_law[of b x avail] by (auto simp: bagRemoveMaybe_eq bag_ext_def)
  assume "bag_room avail b (Suc k)"
  with b show "\<exists>b'. bagAdd avail (Some b) x = Inr b' \<and> (bag_wf b' \<and> b_elementSize b' = bag_ptr_size)
      \<and> bag_mset b' = add_mset x (bag_mset b) \<and> bag_room avail b' k"
    using bagAdd2_law[of b avail k x] by (auto simp: bagAdd_eq bag_ext_def)
qed

subsection \<open>Loops over a bag\<close>

text \<open>The loop of \<open>bagFilter2\<close> for a filter that depends on the element only and leaves it alone.\<close>

definition decides :: "('a, 'w) FilterFunc2 \<Rightarrow> ('a \<Rightarrow> bool) \<Rightarrow> bool" where
  "decides f p \<longleftrightarrow> (\<forall>x w. fst (f x w) = p x \<and> fst (snd (f x w)) = x)"

lemma decides_apply: "decides f p \<Longrightarrow> \<exists>w'. f x w = (p x, x, w')"
  by (rule exI[of _ "snd (snd (f x w))"]) (auto simp: decides_def prod_eq_iff)

lemma mset_drop_swap_remove:
  assumes "k < length xs"
  shows "mset (drop k (butlast (xs[k := last xs]))) = mset (drop (Suc k) xs)"
proof -
  have "drop k (butlast (xs[k := last xs])) = butlast ((drop k xs)[0 := last (drop k xs)])"
    unfolding butlast_drop[symmetric] using assms by (simp add: drop_update_swap)
  then have "mset (drop k (butlast (xs[k := last xs]))) = mset (drop k xs) - {#drop k xs ! 0#}"
    using assms mset_swap_remove[of 0 "drop k xs"] by simp
  then show ?thesis using assms by (simp add: Cons_nth_drop_Suc[symmetric])
qed

lemma filter2_loop_holds:
  assumes p: "decides f p"
  shows "holds arr (int (length xs)) xs \<Longrightarrow> k \<le> length xs \<Longrightarrow>
    \<exists>n arr' w' ys. filter2_loop f (int k) (int (length xs) - 1) (int (length xs)) arr w = Inr (n, arr', w')
      \<and> length arr' = length arr \<and> holds arr' n ys
      \<and> mset ys = mset (take k xs) + filter_mset p (mset (drop k xs))"
proof (induction "length xs - k" arbitrary: k xs arr w)
  case 0
  then show ?case by (subst filter2_loop.simps) auto
next
  case (Suc d)
  then have k: "k < length xs" by linarith
  have x: "read_slot arr (int k) = Inr (xs ! k)"
    using read_slot_holds[OF Suc.prems(1), of "int k"] k by simp
  have l: "length xs \<le> length arr" using Suc.prems(1) by (simp add: holds_def)
  have a: "arr[k := Some (xs ! k)] = arr"
    using holds_nth[OF Suc.prems(1) k] by (metis list_update_id)
  obtain w' where f: "f (xs ! k) w = (p (xs ! k), xs ! k, w')" using decides_apply[OF p] by blast
  have split: "drop k xs = xs ! k # drop (Suc k) xs" using k by (simp add: Cons_nth_drop_Suc)
  show ?case
  proof (cases "p (xs ! k)")
    case True
    obtain n arr' w2 ys where "filter2_loop f (int (Suc k)) (int (length xs) - 1) (int (length xs)) arr w' = Inr (n, arr', w2)"
        "length arr' = length arr" "holds arr' n ys"
        "mset ys = mset (take (Suc k) xs) + filter_mset p (mset (drop (Suc k) xs))"
      using Suc.hyps(1)[of xs "Suc k" arr w'] Suc.hyps(2) Suc.prems(1) k by fastforce
    then show ?thesis
      using True x f a l k by (subst filter2_loop.simps) (auto simp: split take_Suc_conv_app_nth add.commute)
  next
    case False
    let ?xs = "butlast (xs[k := last xs])" and ?arr = "arr[k := Some (last xs)]"
    have last: "read_slot arr (int (length xs) - 1) = Inr (last xs)"
      using read_slot_holds[OF Suc.prems(1), of "int (length xs) - 1"] k last_conv_nth[of xs]
      by (cases "xs = []") (auto simp: nat_diff_distrib)
    have len: "int (length ?xs) = int (length xs) - 1" using k by simp
    have h: "holds ?arr (int (length ?xs)) ?xs"
      using holds_butlast[OF holds_update[OF Suc.prems(1), of "int k" "last xs"]] k len
      by (cases "xs = []") auto
    obtain n arr' w2 ys where "filter2_loop f (int k) (int (length ?xs) - 1) (int (length ?xs)) ?arr w' = Inr (n, arr', w2)"
        "length arr' = length ?arr" "holds arr' n ys"
        "mset ys = mset (take k ?xs) + filter_mset p (mset (drop k ?xs))"
      using Suc.hyps(1)[of ?xs k ?arr w', OF _ h] Suc.hyps(2) k by fastforce
    moreover have "take k ?xs = take k xs" using k by (simp add: take_butlast)
    ultimately show ?thesis
      using False x f a l k last len
      by (subst filter2_loop.simps) (auto simp: split mset_drop_swap_remove)
  qed
qed

text \<open>The iterator loop is a loop over the elements.\<close>

lemma iterate_list:
  assumes b: "bags a = Some b" and h: "bag_holds b xs"
  shows "k \<le> length xs \<Longrightarrow>
    iterate bags body \<lparr> bi_current = int k, bi_bag = a \<rparr> s = rfold body (drop k xs) s"
proof (induction "length xs - k" arbitrary: k s)
  case 0
  then show ?case
    using b bag_holds_valid[OF h] bag_holds_count[OF h]
    by (subst iterate.simps) (simp add: bagIteratorHasNext_def bag_at_def)
next
  case (Suc d)
  then have k: "k < length xs" by linarith
  obtain arr where arr: "b_array b = Some arr" "holds arr (int (length xs)) xs"
      "int (length xs) \<le> b_capacity b" "b_capacity b \<le> INT_MAX"
    using bag_holds_array[OF h] by metis
  have x: "read_slot arr (int k) = Inr (xs ! k)"
    using read_slot_holds[OF arr(2), of "int k"] k by simp
  have "in_int (int k + 1)" using arr k by (simp add: in_int_def)
  then have "bagIteratorGetNext bags (Some \<lparr> bi_current = int k, bi_bag = a \<rparr>)
      = Inr (xs ! k, \<lparr> bi_current = int (Suc k), bi_bag = a \<rparr>)"
    using b x arr(1) bag_holds_valid[OF h] by (simp add: bagIteratorGetNext_def bag_at_def add.commute)
  moreover have "bagIteratorHasNext bags (Some \<lparr> bi_current = int k, bi_bag = a \<rparr>) = Inr True"
    using b k bag_holds_valid[OF h] bag_holds_count[OF h] by (simp add: bagIteratorHasNext_def bag_at_def)
  moreover have "iterate bags body \<lparr> bi_current = int (Suc k), bi_bag = a \<rparr> = rfold body (drop (Suc k) xs)"
    using Suc.hyps(1)[of "Suc k"] Suc.hyps(2) k by auto
  moreover have "drop k xs = xs ! k # drop (Suc k) xs" using k by (simp add: Cons_nth_drop_Suc)
  ultimately show ?case by (subst iterate.simps) simp
qed

lemma bagIteratorCreate2_ok:
  "bags a = Some b \<Longrightarrow> bag_holds b xs \<Longrightarrow>
   bagIteratorCreate2 True bags (Some a) = Inr \<lparr> bi_current = 0, bi_bag = a \<rparr>"
  by (simp add: bagIteratorCreate2_def bag_at_def bag_holds_valid)

lemma bagForEach_list:
  assumes h: "bag_holds b xs" and "b_elementSize b = bag_ptr_size"
  shows "bagForEach (Some b) f w = rfold f xs w"
proof -
  obtain arr where arr: "b_array b = Some arr" "holds arr (int (length xs)) xs"
    using bag_holds_array[OF h] by metis
  then show ?thesis
    using rfold_read[OF arr(2), of 0 f w] assms bag_holds_valid[OF h] bag_holds_count[OF h]
    by (simp add: bagForEach_def)
qed

text \<open>Adding the elements of a list one after the other, and \<open>bagAppend\<close>.\<close>

lemma rfold_read_write:
  assumes "holds arr (int (length xs)) xs" and "k \<le> length xs"
  shows "rfold (\<lambda>i (arr, w).
      rbind (read_slot arr i) (\<lambda>x.
      rbind (rbind (g x w) (\<lambda>w'. Inr (x, w'))) (\<lambda>(x', w').
      rbind (write_slot arr i x') (\<lambda>arr'. Inr (arr', w'))))) [int k..int (length xs) - 1] (arr, w)
    = rbind (rfold g (drop k xs) w) (\<lambda>w'. Inr (arr, w'))" (is "rfold ?step _ _ = _")
  using assms(2)
proof (induction "length xs - k" arbitrary: k w)
  case (Suc d)
  then have lt: "int k \<le> int (length xs) - 1" by linarith
  then have x: "read_slot arr (int k) = Inr (xs ! k)"
    using read_slot_holds[OF assms(1), of "int k"] by simp
  have "arr[k := Some (xs ! k)] = arr"
    using holds_nth[OF assms(1), of k] lt by (metis list_update_id of_nat_less_iff zle_diff1_eq)
  moreover have "k < length arr" using assms(1) lt by (simp add: holds_def)
  ultimately have "?step (int k) (arr, w) = rbind (g (xs ! k) w) (\<lambda>w'. Inr (arr, w'))"
    using x by (cases "g (xs ! k) w") auto
  moreover have "rfold ?step [int k + 1..int (length xs) - 1] (arr, w')
      = rbind (rfold g (drop (Suc k) xs) w') (\<lambda>w'. Inr (arr, w'))" for w'
    using Suc.hyps(1)[of "Suc k" w'] Suc.hyps(2) lt by (auto simp: add.commute)
  moreover have "drop k xs = xs ! k # drop (Suc k) xs" using lt by (simp add: Cons_nth_drop_Suc)
  ultimately show ?case by (simp add: upto_rec1[OF lt] rbind_assoc)
qed simp

lemma bagAdd2_all:
  "bag_holds b xs \<Longrightarrow> bag_grows avail b (int (length xs + length ys)) \<Longrightarrow>
   \<exists>b'. rfold (\<lambda>x r. bagAdd2 avail (Some r) x) ys b = Inr b' \<and> bag_holds b' (xs @ ys) \<and> bag_ext b b'"
proof (induction ys arbitrary: b xs)
  case (Cons y ys)
  have "bag_grows avail b (int (length xs) + 1)"
    by (rule bag_grows_mono[OF Cons.prems(2) bag_ext_refl]) simp
  then obtain b1 where b1: "bagAdd2 avail (Some b) y = Inr b1" "bag_holds b1 (xs @ [y])" "bag_ext b b1"
    using bagAdd2_holds[OF Cons.prems(1)] by blast
  have "bag_grows avail b1 (int (length (xs @ [y]) + length ys))"
    by (rule bag_grows_mono[OF Cons.prems(2) b1(3)]) simp
  from Cons.IH[OF b1(2) this] show ?case using b1 by (auto intro: bag_ext_trans)
qed (auto simp: bag_ext_def)

lemma bagAppend_holds:
  assumes r: "bag_holds r xs" and s: "bag_holds s ys" and "b_elementSize r = b_elementSize s"
    and g: "bag_grows avail r (int (length xs + length ys))"
  shows "\<exists>r'. bagAppend avail (Some r) (Some s) = Inr (Some r') \<and> bag_holds r' (xs @ ys) \<and> bag_ext r r'"
proof -
  obtain arr where arr: "b_array s = Some arr" "holds arr (int (length ys)) ys"
    using bag_holds_array[OF s] by metis
  obtain r' where "rfold (\<lambda>x r. bagAdd2 avail (Some r) x) ys r = Inr r'" "bag_holds r' (xs @ ys)" "bag_ext r r'"
    using bagAdd2_all[OF r g] by blast
  then show ?thesis
    using rfold_read_write[OF arr(2), of 0 "\<lambda>x r. bagAdd2 avail (Some r) x" r] arr(1) assms(3)
      bag_holds_valid[OF s] bag_holds_count[OF s]
    by (simp add: bagAppend_def bagForEach2_def)
qed

lemma iterate_from_start:
  "bags a = Some b \<Longrightarrow> bag_holds b xs \<Longrightarrow>
   iterate bags body \<lparr> bi_current = 0, bi_bag = a \<rparr> s = rfold body xs s"
  using iterate_list[of bags a b xs 0 body s] by simp

lemma bagCreate2_holds:
  assumes "avail (block_bytes esz cap)" and "0 \<le> inc" and "block_fits esz cap"
  shows "\<exists>b. bagCreate2 True avail True cap inc esz d = Inr (Some b) \<and> bag_holds b []
      \<and> b_capacity b = cap \<and> b_capacityIncrement b = inc \<and> b_elementSize b = esz
      \<and> b_destroyFunc b = Some d \<and> b_lock b"
  using assms block_slots_fits[OF assms(3)]
  by (auto simp: bagCreate2_def bag_isValid_def bag_holds_def Let_def block_fits_def)

text \<open>The strings of the cross product, and the two nested loops that add them.\<close>

definition cross_row :: "string \<Rightarrow> string list \<Rightarrow> string option list" where
  "cross_row s1 ys = map (\<lambda>s2. Some (take 511 (s1 @ '' '' @ s2))) ys"

lemma length_cross_row [simp]: "length (cross_row s1 ys) = length ys"
  by (simp add: cross_row_def)

lemma cross_inner:
  assumes "bag_holds b zs" and "b_elementSize b = bag_ptr_size"
    and "bag_grows avail b (int (length zs + length ys))"
  shows "\<exists>b'. rfold (\<lambda>s2 bag. rbind (cross_string True (Some s1) s2) (\<lambda>s.
        rbind (bagAdd avail bag s) (\<lambda>b. Inr (Some b)))) (map Some ys) (Some b) = Inr (Some b')
      \<and> bag_holds b' (zs @ cross_row s1 ys) \<and> bag_ext b b'"
  using assms
proof (induction ys arbitrary: b zs)
  case (Cons y ys)
  let ?s = "Some (take 511 (s1 @ '' '' @ y))"
  have "bag_grows avail b (int (length zs) + 1)"
    by (rule bag_grows_mono[OF Cons.prems(3) bag_ext_refl]) simp
  then obtain b1 where b1: "bagAdd avail (Some b) ?s = Inr b1" "bag_holds b1 (zs @ [?s])" "bag_ext b b1"
    using bagAdd2_holds[OF Cons.prems(1)] Cons.prems(2) by (metis bagAdd_eq)
  have "bag_grows avail b1 (int (length (zs @ [?s]) + length ys))"
    by (rule bag_grows_mono[OF Cons.prems(3) b1(3)]) simp
  moreover have "b_elementSize b1 = bag_ptr_size" using Cons.prems(2) b1(3) by (simp add: bag_ext_def)
  ultimately show ?case
    using Cons.IH[OF b1(2)] b1 by (auto simp: cross_string_def cross_row_def intro: bag_ext_trans)
qed (simp add: cross_row_def)

lemma cross_outer:
  assumes "bag_holds b zs" and "b_elementSize b = bag_ptr_size"
    and "bag_grows avail b (int (length zs + length xs * length ys))"
  shows "\<exists>b'. rfold (\<lambda>s1 bag. rfold (\<lambda>s2 bag. rbind (cross_string True s1 s2) (\<lambda>s.
        rbind (bagAdd avail bag s) (\<lambda>b. Inr (Some b)))) (map Some ys) bag) (map Some xs) (Some b) = Inr (Some b')
      \<and> bag_holds b' (zs @ concat (map (\<lambda>s1. cross_row s1 ys) xs)) \<and> bag_ext b b'"
  using assms
proof (induction xs arbitrary: b zs)
  case (Cons x xs)
  have "bag_grows avail b (int (length zs + length ys))"
    by (rule bag_grows_mono[OF Cons.prems(3) bag_ext_refl]) simp
  then obtain b1 where b1: "rfold (\<lambda>s2 bag. rbind (cross_string True (Some x) s2) (\<lambda>s.
        rbind (bagAdd avail bag s) (\<lambda>b. Inr (Some b)))) (map Some ys) (Some b) = Inr (Some b1)"
      "bag_holds b1 (zs @ cross_row x ys)" "bag_ext b b1"
    using cross_inner[OF Cons.prems(1,2)] by blast
  have "bag_grows avail b1 (int (length (zs @ cross_row x ys) + length xs * length ys))"
    by (rule bag_grows_mono[OF Cons.prems(3) b1(3)]) simp
  moreover have "b_elementSize b1 = bag_ptr_size" using Cons.prems(2) b1(3) by (simp add: bag_ext_def)
  ultimately show ?case
    using Cons.IH[OF b1(2)] b1 by (auto intro: bag_ext_trans)
qed simp

lemma bag_grows_fresh:
  assumes "b_capacity b = 10" and "b_capacityIncrement b = 10" and "b_elementSize b = bag_ptr_size"
    and "\<forall>m \<le> 4 * (2 * n + 10). avail m" and "4 * (2 * n + 10) < SIZE_T_MOD div 2"
  shows "bag_grows avail b (int n)"
  unfolding bag_grows_def
proof (intro allI impI)
  fix c assume "b_capacity b < c \<and> c \<le> max (2 * int n) (int n + b_capacityIncrement b)"
  then have "0 \<le> c" "c \<le> int (2 * n + 10)" using assms(1,2) by auto
  then have f: "block_fits 4 c" and "nat c \<le> 2 * n + 10" using assms(5) by (auto simp: block_fits_def)
  moreover have "block_bytes 4 c = 4 * nat c"
    using f by (simp add: block_bytes_def size_mul_def block_fits_def size_of_int_nonneg)
  ultimately show "block_fits (b_elementSize b) c \<and> avail (block_bytes (b_elementSize b) c)"
    using assms(3,4) by simp
qed

subsection \<open>Properties\<close>

text \<open>C9: for every sequence of additions and removals a bag behaves as the multiset of its elements:
  additions add, removals subtract one occurrence or nothing, no operation faults as long as the
  allocator grants the growth, and afterwards \<open>bagContains\<close> answers membership and
  \<open>bagNoElements\<close> the size. The pointer operations and the by-value operations give the same
  multiset.\<close>

theorem bag_operations_multiset:
  assumes "bag_wf b" and "b_elementSize b = bag_ptr_size" and "bag_room avail b (puts ops)"
  shows "\<exists>b' c'. rfold (run_op (\<lambda>x b. bagAdd avail (Some b) x) (\<lambda>x b. on_bag (bagRemoveMaybe (Some b) x))) ops b = Inr b'
      \<and> rfold (run_op (\<lambda>x b. bagAdd2 avail (Some b) x) (\<lambda>x b. on_bag (bagRemoveMaybe2 (Some b) x))) ops b = Inr c'
      \<and> bag_wf b' \<and> bag_mset b' = fold mset_op ops (bag_mset b) \<and> bag_mset c' = bag_mset b'
      \<and> (\<forall>x. bagContains (Some b') x = Inr (x \<in># bag_mset b') \<and> bagContains2 (Some c') x = Inr (x \<in># bag_mset b'))
      \<and> bagNoElements (Some b') = Inr (int (size (bag_mset b')))"
proof -
  obtain b' where b': "rfold (run_op (\<lambda>x b. bagAdd avail (Some b) x) (\<lambda>x b. on_bag (bagRemoveMaybe (Some b) x))) ops b = Inr b'"
      "bag_wf b'" "bag_mset b' = fold mset_op ops (bag_mset b)"
      "\<forall>x. bagContains (Some b') x = Inr (x \<in># fold mset_op ops (bag_mset b))"
    using ptr_bag.run_ops[of b avail ops] assms by blast
  obtain c' where "rfold (run_op (\<lambda>x b. bagAdd2 avail (Some b) x) (\<lambda>x b. on_bag (bagRemoveMaybe2 (Some b) x))) ops b = Inr c'"
      "bag_mset c' = fold mset_op ops (bag_mset b)"
      "\<forall>x. bagContains2 (Some c') x = Inr (x \<in># fold mset_op ops (bag_mset b))"
    using val_bag.run_ops[of b avail ops] assms by blast
  moreover have "bagNoElements (Some b') = Inr (int (size (bag_mset b')))"
    using b'(2) bag_holds_count[of b' "bag_list b'"] bag_holds_valid[of b' "bag_list b'"]
    by (simp add: bagNoElements_def bag_wf_list bag_mset_def)
  ultimately show ?thesis using b' by auto
qed

text \<open>A bag of pointers with room for two, holding 7 and 5, that grows by three.\<close>

definition bag_two :: "(nat, nat list) sBag" where
  "bag_two = \<lparr> b_cookie = True, b_noElements = 2, b_capacity = 2, b_capacityIncrement = 3, b_elementSize = 4,
     b_array = Some [Some 7, Some 5], b_destroyFunc = Some None, b_lock = True \<rparr>"

lemma bag_two_holds: "bag_holds bag_two [7, 5]"
  by (simp add: bag_holds_def bag_two_def block_fits_def holds_def)

lemma bag_two_wf: "bag_wf bag_two"
  using bag_two_holds by (auto simp: bag_wf_def)

theorem bag_operations_multiset_witness:
  "\<exists>b'. rfold (run_op (\<lambda>x b. bagAdd (\<lambda>_. True) (Some b) x) (\<lambda>x b. on_bag (bagRemoveMaybe (Some b) x)))
        [Put 9, Take 7, Put 5] bag_two = Inr b'
      \<and> bag_mset b' = {#5, 5, 9#}"
proof -
  have "bag_room (\<lambda>_. True) bag_two (puts [Put 9, Take 7, Put (5 :: nat)])"
    by (auto simp: bag_room_def bag_grows_def puts_def bag_two_def block_fits_def)
  moreover have "bag_mset bag_two = {#7, 5#}"
    using bag_holds_list[OF bag_two_holds] by (simp add: bag_mset_def)
  ultimately show ?thesis
    using bag_operations_multiset[OF bag_two_wf, of "\<lambda>_. True" "[Put 9, Take 7, Put 5]"]
    by (auto simp: bag_two_def)
qed

text \<open>\<open>bagFilter2\<close> ends without a fault and keeps exactly the elements the filter accepts, each as
  often as it was there, whatever order its moves leave them in; the elements it moves into the
  place of a removed one are tested too.\<close>

theorem bagFilter2_keeps_exactly:
  assumes "bag_wf b" and "decides f p"
  shows "\<exists>b' w'. bagFilter2 (Some b) f w = Inr (Some b', w') \<and> bag_wf b'
      \<and> bag_mset b' = filter_mset p (bag_mset b)"
proof -
  let ?xs = "bag_list b"
  have h: "bag_holds b ?xs" using assms(1) by (simp add: bag_wf_list)
  obtain arr where arr: "b_array b = Some arr" "length arr = nat (b_capacity b)" "holds arr (int (length ?xs)) ?xs"
    using bag_holds_array[OF h] by metis
  obtain n arr' w' ys where l: "filter2_loop f 0 (int (length ?xs) - 1) (int (length ?xs)) arr w = Inr (n, arr', w')"
      "length arr' = length arr" "holds arr' n ys" "mset ys = filter_mset p (mset ?xs)"
    using filter2_loop_holds[OF assms(2) arr(3), of 0 w] by auto
  let ?b = "b\<lparr> b_noElements := n, b_array := Some arr' \<rparr>"
  have "bagFilter2 (Some b) f w = Inr (Some ?b, w')"
    using l(1) arr(1) bag_holds_valid[OF h] bag_holds_count[OF h] by (simp add: bagFilter2_def)
  moreover have "bag_holds ?b ys" using h l arr(2) by (simp add: bag_holds_def)
  ultimately show ?thesis
    using l(4) bag_holds_list by (force simp: bag_wf_def bag_mset_def)
qed

theorem bagFilter2_keeps_exactly_witness:
  "\<exists>b' w'. bagFilter2 (Some bag_two) (\<lambda>x w. (x < 6, x, x # w)) [] = Inr (Some b', w')
      \<and> bag_mset b' = {#5#}"
proof -
  have "decides (\<lambda>x w. (x < 6, x, x # w)) (\<lambda>x :: nat. x < 6)" by (simp add: decides_def)
  moreover have "bag_mset bag_two = {#7, 5#}"
    using bag_holds_list[OF bag_two_holds] by (simp add: bag_mset_def)
  ultimately show ?thesis
    using bagFilter2_keeps_exactly[OF bag_two_wf, of "\<lambda>x w. (x < 6, x, x # w)" "\<lambda>x. x < 6" "[]"] by auto
qed

text \<open>the three ways to go through a bag of pointers agree: the loop with \<open>bagIteratorHasNext\<close> and
  \<open>bagIteratorGetNext\<close> ends and, like \<open>bagForEach\<close>, calls the body once for every element, in the
  order of the array that \<open>bagElements\<close> returns, and reads nothing else.\<close>

theorem bag_iteration_complete:
  assumes "bag_wf b" and "b_elementSize b = bag_ptr_size" and "bags a = Some b"
  shows "rbind (bagIteratorCreate2 True bags (Some a)) (\<lambda>bi. iterate bags body bi s) = rfold body (bag_list b) s
      \<and> bagForEach (Some b) body s = rfold body (bag_list b) s
      \<and> (\<exists>arr. bagElements (Some b) = Inr (Some arr)
           \<and> bagNoElements (Some b) = Inr (int (length (bag_list b)))
           \<and> take (length (bag_list b)) arr = map Some (bag_list b))"
proof -
  have h: "bag_holds b (bag_list b)" using assms(1) by (simp add: bag_wf_list)
  obtain arr where "b_array b = Some arr" "holds arr (int (length (bag_list b))) (bag_list b)"
    using bag_holds_array[OF h] by metis
  then have "\<exists>arr. bagElements (Some b) = Inr (Some arr)
           \<and> bagNoElements (Some b) = Inr (int (length (bag_list b)))
           \<and> take (length (bag_list b)) arr = map Some (bag_list b)"
    using bag_holds_valid[OF h] bag_holds_count[OF h] assms(2)
    by (simp add: bagElements_def bagNoElements_def holds_def)
  then show ?thesis
    using bagIteratorCreate2_ok[of bags a b] iterate_from_start[of bags a b "bag_list b" body s]
      bagForEach_list[OF h assms(2), of body s]
      assms(3) h
    by simp
qed

theorem bag_iteration_complete_witness:
  "rbind (bagIteratorCreate2 True [3 \<mapsto> bag_two] (Some 3))
     (\<lambda>bi. iterate [3 \<mapsto> bag_two] (\<lambda>x seen. Inr (seen @ [x])) bi []) = Inr [7, 5]"
proof -
  have "b_elementSize bag_two = bag_ptr_size" by (simp add: bag_two_def)
  then show ?thesis
    using bag_iteration_complete[OF bag_two_wf, of "[3 \<mapsto> bag_two]" 3 "\<lambda>x seen. Inr (seen @ [x])" "[]"]
      bag_holds_list[OF bag_two_holds]
    by simp
qed

text \<open>\<open>bagDuplicate\<close> gives a bag with the same elements, which can be searched and changed, but
  whose destroy function and mutex nobody initialised: \<open>bagDestroy2\<close>, \<open>bagDestroy\<close> and \<open>bagFilter\<close>
  on the copy read uninitialised memory.\<close>

theorem bagDuplicate_not_destroyable:
  fixes b :: "('a, 'w) sBag"
  assumes "bag_wf b" and "b_elementSize b = bag_ptr_size" and "avail (block_bytes bag_ptr_size (b_capacity b))"
  shows "\<exists>b'. bagDuplicate True avail (Some b) = Inr (Some b') \<and> bag_wf b' \<and> bag_list b' = bag_list b
      \<and> bagDestroy2 (Some b') w = Inl UninitRead \<and> bagDestroy (Some b') None w = Inl UninitRead
      \<and> bagFilter structOk avail lockOk (Some b') f w = Inl UninitRead"
proof -
  let ?xs = "bag_list b"
  have h: "bag_holds b ?xs" using assms(1) by (simp add: bag_wf_list)
  obtain arr where arr: "b_array b = Some arr" "length arr = nat (b_capacity b)" "holds arr (int (length ?xs)) ?xs"
      "int (length ?xs) \<le> b_capacity b"
    using bag_holds_array[OF h] by metis
  have f: "block_fits (b_elementSize b) (b_capacity b)" using h by (simp add: bag_holds_def)
  let ?arr = "take (length ?xs) arr @ drop (length ?xs) (replicate (nat (b_capacity b)) None)"
  let ?b = "\<lparr> b_cookie = b_cookie b, b_noElements = int (length ?xs), b_capacity = b_capacity b,
    b_capacityIncrement = b_capacityIncrement b, b_elementSize = b_elementSize b,
    b_array = Some ?arr, b_destroyFunc = None, b_lock = False \<rparr> :: ('a, 'w) sBag"
  have n: "b_noElements b = int (length ?xs)" using bag_holds_count[OF h] .
  have l: "length ?xs \<le> nat (b_capacity b)" using arr(4) by linarith
  have h': "bag_holds ?b ?xs"
    using h arr n l by (auto simp: bag_holds_def holds_def)
  have "bagDuplicate True avail (Some b) = Inr (Some ?b)"
    using bag_holds_valid[OF h] bag_holds_valid[OF h'] n arr(1,2,4) l assms(2,3) block_slots_fits[OF f]
    by (simp add: bagDuplicate_def Let_def)
  then show ?thesis
    using bag_holds_valid[OF h'] h' bag_holds_list[OF h'] assms(2)
    by (auto simp: bagDestroy2_def bagDestroy_def bagFilter_def bag_wf_def)
qed

theorem bagDuplicate_not_destroyable_witness:
  "\<exists>b'. bagDuplicate True (\<lambda>_. True) (Some bag_two) = Inr (Some b') \<and> bag_list b' = [7, 5]
      \<and> bagDestroy2 (Some b') [] = Inl UninitRead"
proof -
  have "b_elementSize bag_two = bag_ptr_size" by (simp add: bag_two_def)
  then show ?thesis
    using bagDuplicate_not_destroyable[OF bag_two_wf, of "\<lambda>_. True" "[]" True True undefined] bag_holds_list[OF bag_two_holds]
    by auto
qed

text \<open>\<open>bagCrossProd\<close> of two bags of strings builds the bag of all combinations, first string, blank,
  second string, cut off after 511 characters, in the order of the two bags. When the first bag is
  empty the result is not empty, as a cross product would be, but has the elements of the second.\<close>

theorem bagCrossProd_elements:
  fixes bags :: "(string option, 'w) bags"
  assumes "bags a1 = Some b1" and "bag_holds b1 (map Some xs)" and "b_elementSize b1 = bag_ptr_size"
    and "bags a2 = Some b2" and "bag_holds b2 (map Some ys)" and "b_elementSize b2 = bag_ptr_size"
    and "\<forall>m \<le> 4 * (2 * (length xs * length ys + length ys) + 10). avail m"
    and "4 * (2 * (length xs * length ys + length ys) + 10) < SIZE_T_MOD div 2"
  shows "\<exists>b'. bagCrossProd True avail True True True True bags (Some a1) (Some a2) = Inr (Some b')
      \<and> bag_wf b'
      \<and> bag_list b' = (if xs = [] then map Some ys
                       else concat (map (\<lambda>s1. map (\<lambda>s2. Some (take 511 (s1 @ '' '' @ s2))) ys) xs))"
proof -
  have "avail (block_bytes bag_ptr_size 10)" using assms(7)
    by (simp add: block_bytes_def size_mul_def size_of_int_def)
  then obtain b0 :: "(string option, 'w) sBag" where b0: "bagCreate True avail True 10 10 None = Inr (Some b0)" "bag_holds b0 []"
      "b_capacity b0 = 10" "b_capacityIncrement b0 = 10" "b_elementSize b0 = bag_ptr_size"
    using bagCreate2_holds[of avail bag_ptr_size 10 10 None] by (auto simp: bagCreate_def block_fits_def)
  have g: "bag_grows avail b0 (int (length xs * length ys + length ys))"
    by (rule bag_grows_fresh[OF b0(3-5) assms(7,8)])
  have n: "bagNoElements (Some b1) = Inr (int (length xs))"
    using bag_holds_count[OF assms(2)] bag_holds_valid[OF assms(2)] by (simp add: bagNoElements_def)
  show ?thesis
  proof (cases "xs = []")
    case True
    obtain b' where "bagAppend avail (Some b0) (Some b2) = Inr (Some b')" "bag_holds b' (map Some ys)"
      using bagAppend_holds[OF b0(2) assms(5), of avail] b0(5) assms(6) bag_grows_mono[OF g] by auto
    then show ?thesis
      using True b0(1) n assms(1,4) bag_holds_list by (auto simp: bagCrossProd_def bag_at_def bag_wf_def)
  next
    case False
    have "bag_grows avail b0 (int (length [] + length xs * length ys))"
      by (rule bag_grows_mono[OF g bag_ext_refl]) simp
    from cross_outer[OF b0(2,5) this] obtain b' where
        "rfold (\<lambda>s1 bag. rfold (\<lambda>s2 bag. rbind (cross_string True s1 s2) (\<lambda>s.
          rbind (bagAdd avail bag s) (\<lambda>b. Inr (Some b)))) (map Some ys) bag) (map Some xs) (Some b0) = Inr (Some b')"
        "bag_holds b' (concat (map (\<lambda>s1. cross_row s1 ys) xs))"
      by auto
    then show ?thesis
      using False b0(1) n assms(1,3,4,6) bag_holds_list
      by (auto simp: bagCrossProd_def bag_at_def bag_wf_def cross_row_def holds_pointers_def
          bagIteratorCreate2_ok[of bags a1, OF assms(1,2)] bagIteratorCreate2_ok[of bags a2, OF assms(4,5)]
          iterate_from_start[of bags a1, OF assms(1,2)] iterate_from_start[of bags a2, OF assms(4,5)])
  qed
qed

definition bag_of_strings :: "string list \<Rightarrow> (string option, unit) sBag" where
  "bag_of_strings xs = \<lparr> b_cookie = True, b_noElements = int (length xs), b_capacity = int (length xs),
     b_capacityIncrement = 1, b_elementSize = 4, b_array = Some (map (\<lambda>s. Some (Some s)) xs),
     b_destroyFunc = Some None, b_lock = True \<rparr>"

theorem bagCrossProd_elements_witness:
  "\<exists>b'. bagCrossProd True (\<lambda>_. True) True True True True
        [1 \<mapsto> bag_of_strings [''a'', ''b''], 2 \<mapsto> bag_of_strings [''x'']] (Some 1) (Some 2) = Inr (Some b')
      \<and> bag_list b' = [Some ''a x'', Some ''b x'']"
proof -
  have h: "bag_holds (bag_of_strings xs) (map Some xs)" if "length xs \<le> 2" for xs
    using that by (auto simp: bag_holds_def bag_of_strings_def block_fits_def holds_def)
  have e: "b_elementSize (bag_of_strings xs) = bag_ptr_size" for xs by (simp add: bag_of_strings_def)
  show ?thesis
    using bagCrossProd_elements[of "[1 \<mapsto> bag_of_strings [''a'', ''b''], 2 \<mapsto> bag_of_strings [''x'']]"
        1 "bag_of_strings [''a'', ''b'']" "[''a'', ''b'']" 2 "bag_of_strings [''x'']" "[''x'']" "\<lambda>_. True"]
      h[of "[''a'', ''b'']"] h[of "[''x'']"] e
    by auto
qed

end
