(* ===== verification/StateMachine.thy ===== *)
theory StateMachine
  imports Err Bag
begin

section \<open>State machines\<close>

text \<open>
  \<open>src/stateMachine.c\<close>: definitions with their classes and states in bags, and machines that run
  through the states by calling entry and exit functions. The objects live in a store of addresses,
  one map per struct, beside the client's world; an address that is not in the map was never
  allocated or has been freed. Function pointers are numbers, and \<open>call\<close> is what calling one does
  to the store: client code. Loops that only client code or the allocator can end take fuel.
\<close>

subsection \<open>State\<close>

record sStateMachineDefinition =
  d_machineCount :: int
  d_classes :: "(nat, unit) Bag"
  d_states :: "(nat, unit) Bag"

record sStateMachine =
  m_definition :: nat
  m_currentState :: "nat option"
  m_userData :: nat
  m_nextState :: "nat option"
  m_immediateExit :: bool
  m_nuanceSemantics :: bool

text \<open>A name is \<open>None\<close> after it was freed; \<open>Some None\<close> is a NULL name.\<close>

record sStateClass =
  c_name :: "string option option"
  c_machineDefinition :: nat
  c_entryFunc :: "nat option"
  c_exitFunc :: "nat option"
  c_stateCount :: int
  c_userData :: nat

record sStateMachineState =
  s_name :: "string option"
  s_machineDefinition :: nat
  s_cls :: "nat option"
  s_entryFunc :: "nat option"
  s_exitFunc :: "nat option"

record 'w sm_heap =
  h_defs :: "nat \<rightharpoonup> sStateMachineDefinition"
  h_machines :: "nat \<rightharpoonup> sStateMachine"
  h_classes :: "nat \<rightharpoonup> sStateClass"
  h_states :: "nat \<rightharpoonup> sStateMachineState"
  h_world :: 'w

abbreviation ERR_STATE_MACHINE_UNSPECIFIED :: int where "ERR_STATE_MACHINE_UNSPECIFIED \<equiv> 0"
abbreviation ERR_STATE_MACHINE_OUT_OF_MEMORY :: int where "ERR_STATE_MACHINE_OUT_OF_MEMORY \<equiv> 1"
abbreviation ERR_STATE_MACHINE_DEF_HAS_MACHINES :: int where "ERR_STATE_MACHINE_DEF_HAS_MACHINES \<equiv> 2"
abbreviation ERR_STATE_MACHINE_NEXT_STATE_ALREADY_SET :: int where "ERR_STATE_MACHINE_NEXT_STATE_ALREADY_SET \<equiv> 3"

text \<open>\<open>ErrNew( ERR_STATE_MACHINE, ... )\<close> with the outcomes of its two allocations.\<close>

definition sm_error :: "bool \<times> bool \<Rightarrow> int \<Rightarrow> Error \<Rightarrow> string \<Rightarrow> Error res" where
  "sm_error errOk n reason text = ErrNew (fst errOk) (snd errOk) ERR_STATE_MACHINE n reason text"

subsection \<open>Definitions, classes and states\<close>

text \<open>
  \<open>addr\<close> is the address \<open>malloc\<close> returns (\<open>None\<close>: out of memory) and \<open>dupOk\<close> the success of
  \<open>strdup\<close>. The outcomes of a bag's creation are those of \<open>bagCreate\<close>; its result is not checked.
\<close>

definition stateMachine_defCreate ::
  "nat option \<Rightarrow> bool \<times> bool \<Rightarrow> bool \<times> allocator \<times> bool \<Rightarrow> bool \<times> allocator \<times> bool \<Rightarrow> 'w sm_heap
   \<Rightarrow> (Error \<times> nat option \<times> 'w sm_heap) res" where
  "stateMachine_defCreate addr errOk mem1 mem2 h =
     rbind (emalloc (addr \<noteq> None) (fst errOk) (snd errOk)) (\<lambda>(error, block).
     if error \<noteq> None then
       rbind (sm_error errOk ERR_STATE_MACHINE_OUT_OF_MEMORY error
                ''Failed to allocate memory for state machine definition'') (\<lambda>e. Inr (e, None, h))
     else
       rbind (deref addr) (\<lambda>d.
       rbind (case mem1 of (s, av, l) \<Rightarrow> bagCreate s av l 32 32 None) (\<lambda>classes.
       rbind (case mem2 of (s, av, l) \<Rightarrow> bagCreate s av l 32 32 None) (\<lambda>states.
       Inr (None, Some d, h\<lparr> h_defs := (h_defs h)(d \<mapsto>
              \<lparr> d_machineCount = 0, d_classes = classes, d_states = states \<rparr>) \<rparr>)))))"

definition stateMachine_create ::
  "nat option \<Rightarrow> bool \<times> bool \<Rightarrow> nat \<Rightarrow> nat \<Rightarrow> bool \<Rightarrow> 'w sm_heap \<Rightarrow> (Error \<times> nat option \<times> 'w sm_heap) res" where
  "stateMachine_create addr errOk def userData nuanceSemantics h =
     rbind (emalloc (addr \<noteq> None) (fst errOk) (snd errOk)) (\<lambda>(error, block).
     if error \<noteq> None then Inr (error, None, h)
     else
       rbind (deref addr) (\<lambda>m.
       rbind (cell (h_defs h) def) (\<lambda>d.
       rbind (iadd (d_machineCount d) 1) (\<lambda>n.
       Inr (None, Some m,
            h\<lparr> h_defs := (h_defs h)(def \<mapsto> d\<lparr> d_machineCount := n \<rparr>),
               h_machines := (h_machines h)(m \<mapsto>
                 \<lparr> m_definition = def, m_currentState = None, m_userData = userData, m_nextState = None,
                   m_immediateExit = False, m_nuanceSemantics = nuanceSemantics \<rparr>) \<rparr>)))))"

definition stateMachine_destroy :: "nat \<Rightarrow> 'w sm_heap \<Rightarrow> (Error \<times> 'w sm_heap) res" where
  "stateMachine_destroy m h =
     rbind (cell (h_machines h) m) (\<lambda>x.
     rbind (cell (h_defs h) (m_definition x)) (\<lambda>d.
     rbind (iadd (d_machineCount d) (-1)) (\<lambda>n.
     Inr (None, h\<lparr> h_defs := (h_defs h)(m_definition x \<mapsto> d\<lparr> d_machineCount := n \<rparr>),
                   h_machines := (h_machines h)(m := None) \<rparr>))))"

definition stateMachine_createClass ::
  "nat option \<Rightarrow> bool \<times> bool \<Rightarrow> bool \<Rightarrow> allocator \<Rightarrow> nat \<Rightarrow> string \<Rightarrow> nat option \<Rightarrow> nat option \<Rightarrow> nat
   \<Rightarrow> 'w sm_heap \<Rightarrow> (Error \<times> nat option \<times> 'w sm_heap) res" where
  "stateMachine_createClass addr errOk dupOk avail def name entryFunc exitFunc userData h =
     rbind (emalloc (addr \<noteq> None) (fst errOk) (snd errOk)) (\<lambda>(error, block).
     if error \<noteq> None then Inr (error, None, h)
     else
       rbind (deref addr) (\<lambda>c.
       rbind (cell (h_defs h) def) (\<lambda>d.
       rbind (bagAdd avail (d_classes d) c) (\<lambda>classes.
       Inr (None, Some c,
            h\<lparr> h_defs := (h_defs h)(def \<mapsto> d\<lparr> d_classes := Some classes \<rparr>),
               h_classes := (h_classes h)(c \<mapsto>
                 \<lparr> c_name = Some (if dupOk then Some name else None), c_machineDefinition = def,
                   c_entryFunc = entryFunc, c_exitFunc = exitFunc, c_stateCount = 0,
                   c_userData = userData \<rparr>) \<rparr>)))))"

text \<open>The name is freed, the class itself is not.\<close>

definition stateMachine_destroyClass :: "bool \<times> bool \<Rightarrow> nat \<Rightarrow> 'w sm_heap \<Rightarrow> (Error \<times> 'w sm_heap) res" where
  "stateMachine_destroyClass errOk c h =
     rbind (cell (h_classes h) c) (\<lambda>k.
     if c_stateCount k \<noteq> 0 then
       rbind (sm_error errOk ERR_STATE_MACHINE_UNSPECIFIED None ''The state class still had states.'')
         (\<lambda>e. Inr (e, h))
     else
       rbind (cell (h_defs h) (c_machineDefinition k)) (\<lambda>d.
       rbind (bagRemove (d_classes d) c) (\<lambda>classes.
       rbind (rguard DanglingPtr (c_name k \<noteq> None)) (\<lambda>_.
       Inr (None, h\<lparr> h_defs := (h_defs h)(c_machineDefinition k \<mapsto> d\<lparr> d_classes := classes \<rparr>),
                     h_classes := (h_classes h)(c \<mapsto> k\<lparr> c_name := None \<rparr>) \<rparr>)))))"

definition add_stateCount :: "nat option \<Rightarrow> int \<Rightarrow> 'w sm_heap \<Rightarrow> 'w sm_heap res" where
  "add_stateCount cls n h =
     (case cls of
        None \<Rightarrow> Inr h
      | Some c \<Rightarrow>
          rbind (cell (h_classes h) c) (\<lambda>k.
          rbind (iadd (c_stateCount k) n) (\<lambda>count.
          Inr (h\<lparr> h_classes := (h_classes h)(c \<mapsto> k\<lparr> c_stateCount := count \<rparr>) \<rparr>))))"

definition stateMachine_createState ::
  "nat option \<Rightarrow> bool \<times> bool \<Rightarrow> bool \<Rightarrow> allocator \<Rightarrow> nat \<Rightarrow> string \<Rightarrow> nat option \<Rightarrow> nat option \<Rightarrow> nat option
   \<Rightarrow> 'w sm_heap \<Rightarrow> (Error \<times> nat option \<times> 'w sm_heap) res" where
  "stateMachine_createState addr errOk dupOk avail def name stateClass entryFunc exitFunc h =
     rbind (emalloc (addr \<noteq> None) (fst errOk) (snd errOk)) (\<lambda>(error, block).
     if error \<noteq> None then Inr (error, None, h)
     else
       rbind (deref addr) (\<lambda>s.
       rbind (cell (h_defs h) def) (\<lambda>d.
       rbind (bagAdd avail (d_states d) s) (\<lambda>states.
       (let h1 = h\<lparr> h_defs := (h_defs h)(def \<mapsto> d\<lparr> d_states := Some states \<rparr>),
                     h_states := (h_states h)(s \<mapsto>
                       \<lparr> s_name = (if dupOk then Some name else None), s_machineDefinition = def,
                         s_cls = stateClass, s_entryFunc = entryFunc, s_exitFunc = exitFunc \<rparr>) \<rparr>
        in rbind (add_stateCount stateClass 1 h1) (\<lambda>h2. Inr (None, Some s, h2)))))))"

definition stateMachine_destroyState :: "nat \<Rightarrow> 'w sm_heap \<Rightarrow> (Error \<times> 'w sm_heap) res" where
  "stateMachine_destroyState s h =
     rbind (cell (h_states h) s) (\<lambda>st.
     rbind (add_stateCount (s_cls st) (-1) h) (\<lambda>h1.
     rbind (cell (h_defs h1) (s_machineDefinition st)) (\<lambda>d.
     rbind (bagRemove (d_states d) s) (\<lambda>states.
     Inr (None, h1\<lparr> h_defs := (h_defs h1)(s_machineDefinition st \<mapsto> d\<lparr> d_states := states \<rparr>),
                    h_states := (h_states h1)(s := None) \<rparr>)))))"

text \<open>The two loops of \<open>stateMachine_defDestroy\<close>; \<open>rand i\<close> is what \<open>rand()\<close> returns with \<open>i\<close> rounds left.\<close>

fun destroy_states :: "nat \<Rightarrow> (nat \<Rightarrow> int) \<Rightarrow> bool \<times> bool \<Rightarrow> nat \<Rightarrow> 'w sm_heap \<Rightarrow> (Error \<times> 'w sm_heap) res" where
  "destroy_states fuel rand errOk def h =
     rbind (cell (h_defs h) def) (\<lambda>d.
     rbind (bagNoElements (d_states d)) (\<lambda>n.
     if n > 0 then
       (case fuel of
          0 \<Rightarrow> Inl OutOfFuel
        | Suc i \<Rightarrow>
            rbind (bagGetRandomElement (rand i) (d_states d)) (\<lambda>s.
            rbind (deref s) (\<lambda>s.
            rbind (stateMachine_destroyState s h) (\<lambda>(error, h').
            if error \<noteq> None then
              rbind (sm_error errOk ERR_STATE_MACHINE_UNSPECIFIED error ''Could not destroy state.'') (\<lambda>e. Inr (e, h'))
            else destroy_states i rand errOk def h'))))
     else Inr (None, h)))"

fun destroy_classes :: "nat \<Rightarrow> (nat \<Rightarrow> int) \<Rightarrow> bool \<times> bool \<Rightarrow> nat \<Rightarrow> 'w sm_heap \<Rightarrow> (Error \<times> 'w sm_heap) res" where
  "destroy_classes fuel rand errOk def h =
     rbind (cell (h_defs h) def) (\<lambda>d.
     rbind (bagNoElements (d_classes d)) (\<lambda>n.
     if n > 0 then
       (case fuel of
          0 \<Rightarrow> Inl OutOfFuel
        | Suc i \<Rightarrow>
            rbind (bagGetRandomElement (rand i) (d_classes d)) (\<lambda>c.
            rbind (deref c) (\<lambda>c.
            rbind (stateMachine_destroyClass errOk c h) (\<lambda>(error, h').
            if error \<noteq> None then
              rbind (sm_error errOk ERR_STATE_MACHINE_UNSPECIFIED error ''stateMachine_destroyClass failed.'')
                (\<lambda>e. Inr (e, h'))
            else destroy_classes i rand errOk def h'))))
     else Inr (None, h)))"

declare destroy_states.simps [simp del] destroy_classes.simps [simp del]

definition stateMachine_defDestroy ::
  "nat \<Rightarrow> (nat \<Rightarrow> int) \<Rightarrow> (nat \<Rightarrow> int) \<Rightarrow> bool \<times> bool \<Rightarrow> nat \<Rightarrow> 'w sm_heap \<Rightarrow> (Error \<times> 'w sm_heap) res" where
  "stateMachine_defDestroy fuel rand1 rand2 errOk def h =
     rbind (cell (h_defs h) def) (\<lambda>d.
     if d_machineCount d \<noteq> 0 then
       rbind (sm_error errOk ERR_STATE_MACHINE_DEF_HAS_MACHINES None
                ''The state machine definition has state machines refering to it.'') (\<lambda>e. Inr (e, h))
     else
       rbind (destroy_states fuel rand1 errOk def h) (\<lambda>(error, h1).
       if error \<noteq> None then Inr (error, h1)
       else
         rbind (destroy_classes fuel rand2 errOk def h1) (\<lambda>(error, h2).
         if error \<noteq> None then Inr (error, h2)
         else
           rbind (cell (h_defs h2) def) (\<lambda>d2.
           rbind (bagDestroy (d_states d2) None ()) (\<lambda>_.
           rbind (bagDestroy (d_classes d2) None ()) (\<lambda>_.
           Inr (None, h2\<lparr> h_defs := (h_defs h2)(def := None) \<rparr>)))))))"

subsection \<open>Access\<close>

definition stateMachine_classGetUserData :: "nat option \<Rightarrow> 'w sm_heap \<Rightarrow> nat res" where
  "stateMachine_classGetUserData cls h =
     (case cls of None \<Rightarrow> Inl AssertFailed | Some c \<Rightarrow> rbind (cell (h_classes h) c) (\<lambda>k. Inr (c_userData k)))"

definition stateMachine_stateGetClass :: "nat option \<Rightarrow> 'w sm_heap \<Rightarrow> nat option res" where
  "stateMachine_stateGetClass state h =
     (case state of None \<Rightarrow> Inl AssertFailed | Some s \<Rightarrow> rbind (cell (h_states h) s) (\<lambda>st. Inr (s_cls st)))"

definition stateMachine_stateGetMachineDefinition :: "nat \<Rightarrow> 'w sm_heap \<Rightarrow> nat res" where
  "stateMachine_stateGetMachineDefinition s h =
     rbind (cell (h_states h) s) (\<lambda>st. Inr (s_machineDefinition st))"

definition stateMachine_getUserData :: "nat \<Rightarrow> 'w sm_heap \<Rightarrow> nat res" where
  "stateMachine_getUserData m h = rbind (cell (h_machines h) m) (\<lambda>x. Inr (m_userData x))"

definition stateMachine_getCurrentState :: "nat \<Rightarrow> 'w sm_heap \<Rightarrow> nat option res" where
  "stateMachine_getCurrentState m h = rbind (cell (h_machines h) m) (\<lambda>x. Inr (m_currentState x))"

definition stateMachine_getStateName :: "nat \<Rightarrow> 'w sm_heap \<Rightarrow> string option res" where
  "stateMachine_getStateName m h =
     rbind (cell (h_machines h) m) (\<lambda>x.
     rbind (deref (m_currentState x)) (\<lambda>s.
     rbind (cell (h_states h) s) (\<lambda>st. Inr (s_name st))))"

subsection \<open>Running a machine\<close>

text \<open>The message of a refused second call formats both names, so it follows both pointers.\<close>

definition stateMachine_setNextState ::
  "bool \<times> bool \<Rightarrow> nat \<Rightarrow> nat option \<Rightarrow> 'w sm_heap \<Rightarrow> (Error \<times> 'w sm_heap) res" where
  "stateMachine_setNextState errOk m nextState h =
     rbind (cell (h_machines h) m) (\<lambda>x.
     (case (m_nuanceSemantics x, m_nextState x) of
        (True, Some old) \<Rightarrow>
          rbind (deref nextState) (\<lambda>s.
          rbind (cell (h_states h) s) (\<lambda>st.
          rbind (cell (h_states h) old) (\<lambda>ost.
          rbind (deref (s_name st)) (\<lambda>n1.
          rbind (deref (s_name ost)) (\<lambda>n2.
          rbind (sm_error errOk ERR_STATE_MACHINE_NEXT_STATE_ALREADY_SET None
                   (''stateMachine_setNextState: trying to set next state to '' @ [CHR 0x27] @ n1 @ [CHR 0x27]
                    @ '', was previously set to '' @ [CHR 0x27] @ n2 @ [CHR 0x27]
                    @ '' (Illegal with Nuance semantics)'')) (\<lambda>e. Inr (e, h)))))))
      | _ \<Rightarrow> Inr (None, h\<lparr> h_machines := (h_machines h)(m \<mapsto> x\<lparr> m_nextState := nextState \<rparr>) \<rparr>)))"

definition stateMachine_setImmediateExit :: "nat \<Rightarrow> 'w sm_heap \<Rightarrow> 'w sm_heap res" where
  "stateMachine_setImmediateExit m h =
     rbind (cell (h_machines h) m) (\<lambda>x.
     Inr (h\<lparr> h_machines := (h_machines h)(m \<mapsto> x\<lparr> m_immediateExit := True \<rparr>) \<rparr>))"

type_synonym 'w call = "nat \<Rightarrow> nat \<Rightarrow> nat \<Rightarrow> 'w sm_heap \<Rightarrow> 'w sm_heap res"

text \<open>
  One of the four calls of a round: the function is looked up through the machine's current state,
  and called with the machine and that state if it is not NULL.
\<close>

definition class_func ::
  "(sStateClass \<Rightarrow> nat option) \<Rightarrow> 'w sm_heap \<Rightarrow> sStateMachineState \<Rightarrow> nat option res" where
  "class_func sel h st =
     (case s_cls st of None \<Rightarrow> Inr None | Some c \<Rightarrow> rbind (cell (h_classes h) c) (\<lambda>k. Inr (sel k)))"

definition phase ::
  "'w call \<Rightarrow> ('w sm_heap \<Rightarrow> sStateMachineState \<Rightarrow> nat option res) \<Rightarrow> nat \<Rightarrow> 'w sm_heap \<Rightarrow> 'w sm_heap res" where
  "phase call sel m h =
     rbind (cell (h_machines h) m) (\<lambda>x.
     rbind (deref (m_currentState x)) (\<lambda>s.
     rbind (cell (h_states h) s) (\<lambda>st.
     rbind (sel h st) (\<lambda>f.
     case f of None \<Rightarrow> Inr h | Some g \<Rightarrow> call g m s h))))"

definition immediateExit :: "nat \<Rightarrow> 'w sm_heap \<Rightarrow> bool res" where
  "immediateExit m h = rbind (cell (h_machines h) m) (\<lambda>x. Inr (m_immediateExit x))"

text \<open>Going to the next state.\<close>

definition go_on :: "sStateMachine \<Rightarrow> sStateMachine" where
  "go_on x = x\<lparr> m_currentState := m_nextState x, m_nextState := None \<rparr>"

text \<open>One round of the \<open>do\<close> loop; the first component says that it was left by \<open>break\<close>.\<close>

definition run_round :: "'w call \<Rightarrow> nat \<Rightarrow> 'w sm_heap \<Rightarrow> (bool \<times> 'w sm_heap) res" where
  "run_round call m h =
     rbind (phase call (class_func c_entryFunc) m h) (\<lambda>h1.
     rbind (immediateExit m h1) (\<lambda>quit1.
     if quit1 then Inr (True, h1)
     else
       rbind (phase call (\<lambda>_ st. Inr (s_entryFunc st)) m h1) (\<lambda>h2.
       rbind (immediateExit m h2) (\<lambda>quit2.
       if quit2 then Inr (True, h2)
       else
         rbind (phase call (\<lambda>_ st. Inr (s_exitFunc st)) m h2) (\<lambda>h3.
         rbind (immediateExit m h3) (\<lambda>quit3.
         if quit3 then Inr (True, h3)
         else
           rbind (phase call (class_func c_exitFunc) m h3) (\<lambda>h4.
           rbind (cell (h_machines h4) m) (\<lambda>x.
           Inr (False, h4\<lparr> h_machines := (h_machines h4)(m \<mapsto> go_on x) \<rparr>)))))))))"

fun run_loop :: "'w call \<Rightarrow> nat \<Rightarrow> nat \<Rightarrow> 'w sm_heap \<Rightarrow> 'w sm_heap res" where
  "run_loop call 0 m h = Inl OutOfFuel"
| "run_loop call (Suc n) m h =
     rbind (run_round call m h) (\<lambda>(left, h').
     if left then Inr h'
     else
       rbind (cell (h_machines h') m) (\<lambda>x.
       if \<not> m_immediateExit x \<and> m_currentState x \<noteq> None then run_loop call n m h' else Inr h'))"

definition stateMachine_run ::
  "'w call \<Rightarrow> nat \<Rightarrow> nat \<Rightarrow> nat option \<Rightarrow> 'w sm_heap \<Rightarrow> (Error \<times> 'w sm_heap) res" where
  "stateMachine_run call fuel m initialState h =
     rbind (cell (h_machines h) m) (\<lambda>x.
     rbind (run_loop call fuel m
              (h\<lparr> h_machines := (h_machines h)(m \<mapsto>
                 x\<lparr> m_currentState := initialState, m_nextState := None, m_immediateExit := False \<rparr>) \<rparr>)) (\<lambda>h'.
     Inr (None, h')))"

definition stateMachine_createAndRun ::
  "'w call \<Rightarrow> nat \<Rightarrow> nat option \<Rightarrow> bool \<times> bool \<Rightarrow> nat \<Rightarrow> nat option \<Rightarrow> nat \<Rightarrow> bool \<Rightarrow> 'w sm_heap
   \<Rightarrow> (Error \<times> 'w sm_heap) res" where
  "stateMachine_createAndRun call fuel addr errOk def initialState userData nuanceSemantics h =
     rbind (stateMachine_create addr errOk def userData nuanceSemantics h) (\<lambda>(error, machine, h1).
     if error \<noteq> None then
       rbind (sm_error errOk ERR_STATE_MACHINE_UNSPECIFIED error ''Failed to create the state machine.'')
         (\<lambda>e. Inr (e, h1))
     else
       rbind (deref machine) (\<lambda>m.
       rbind (stateMachine_run call fuel m initialState h1) (\<lambda>(error, h2).
       if error \<noteq> None then
         rbind (stateMachine_destroy m h2) (\<lambda>(_, h3). Inr (error, h3))
       else stateMachine_destroy m h2)))"

subsection \<open>Invariant of a definition\<close>

text \<open>A bag of addresses as \<open>stateMachine_defCreate\<close> makes it: valid, of pointers, without repetition.\<close>

definition addr_bag :: "(nat, unit) Bag \<Rightarrow> nat set \<Rightarrow> bool" where
  "addr_bag bag A \<longleftrightarrow>
     (\<exists>b. bag = Some b \<and> bag_wf b \<and> b_elementSize b = bag_ptr_size \<and> b_lock b
        \<and> distinct (bag_list b) \<and> set (bag_list b) = A)"

text \<open>The states \<open>S\<close> of a definition that have the class \<open>c\<close>.\<close>

definition of_class :: "'w sm_heap \<Rightarrow> nat set \<Rightarrow> nat \<Rightarrow> nat set" where
  "of_class h S c = {s \<in> S. \<exists>st. h_states h s = Some st \<and> s_cls st = Some c}"

text \<open>
  The bags hold the addresses of the live states \<open>S\<close> and classes \<open>C\<close> of this definition, the class of
  a state is one of \<open>C\<close>, and each class counts its states.
\<close>

definition sm_wf :: "'w sm_heap \<Rightarrow> nat \<Rightarrow> nat set \<Rightarrow> nat set \<Rightarrow> bool" where
  "sm_wf h def S C \<longleftrightarrow>
     (\<exists>d. h_defs h def = Some d \<and> addr_bag (d_states d) S \<and> addr_bag (d_classes d) C)
     \<and> (\<forall>s \<in> S. \<exists>st. h_states h s = Some st \<and> s_machineDefinition st = def
          \<and> (\<forall>c. s_cls st = Some c \<longrightarrow> c \<in> C))
     \<and> (\<forall>c \<in> C. \<exists>k. h_classes h c = Some k \<and> c_machineDefinition k = def \<and> c_name k \<noteq> None
          \<and> c_stateCount k = int (card (of_class h S c)))"

lemma addr_bag_finite: "addr_bag bag A \<Longrightarrow> finite A"
  by (auto simp: addr_bag_def)

lemma addr_bag_count: "addr_bag bag A \<Longrightarrow> bagNoElements bag = Inr (int (card A))"
  unfolding addr_bag_def bag_wf_list
  by (auto simp: bagNoElements_def bag_holds_valid bag_holds_count distinct_card)

lemma addr_bag_card: "addr_bag bag A \<Longrightarrow> int (card A) \<le> INT_MAX"
  unfolding addr_bag_def bag_wf_list
  by (metis bag_holds_array distinct_card order.trans)

lemma addr_bag_random:
  assumes "addr_bag bag A" and "A \<noteq> {}" and "0 \<le> r"
  shows "\<exists>a \<in> A. bagGetRandomElement r bag = Inr (Some a)"
proof -
  obtain b where b: "bag = Some b" "bag_holds b (bag_list b)" "b_elementSize b = bag_ptr_size"
      "set (bag_list b) = A"
    using assms(1) by (auto simp: addr_bag_def bag_wf_list)
  obtain arr where arr: "b_array b = Some arr" "holds arr (int (length (bag_list b))) (bag_list b)"
    using bag_holds_array[OF b(2)] by metis
  have n: "b_noElements b = int (length (bag_list b))" "length (bag_list b) > 0"
    using bag_holds_count[OF b(2)] b(4) assms(2) by auto
  let ?i = "r mod int (length (bag_list b))"
  have i: "0 \<le> ?i" "?i < int (length (bag_list b))" using n(2) by auto
  then have "read_slot arr ?i = Inr (bag_list b ! nat ?i)" using read_slot_holds[OF arr(2)] by blast
  moreover have "bag_list b ! nat ?i \<in> A" using i b(4) by (metis nat_less_iff nth_mem)
  ultimately show ?thesis using b arr(1) n i by (auto simp: bagGetRandomElement_def Let_def)
qed

lemma addr_bag_remove:
  assumes "addr_bag bag A" and "a \<in> A"
  shows "\<exists>bag'. bagRemove bag a = Inr bag' \<and> addr_bag bag' (A - {a})"
proof -
  obtain b where b: "bag = Some b" "bag_holds b (bag_list b)" "b_elementSize b = bag_ptr_size" "b_lock b"
      "distinct (bag_list b)" "set (bag_list b) = A"
    using assms(1) by (auto simp: addr_bag_def bag_wf_list)
  obtain b' ys where b': "bagRemoveMaybe2 (Some b) a = Inr (1, Some b')" "bag_holds b' ys"
      "mset ys = mset (bag_list b) - {#a#}" "bag_ext b b'"
    using bagRemoveMaybe2_holds[OF b(2), of a] assms(2) b(6) by auto
  have "mset ys = mset (remove1 a (bag_list b))" using b'(3) by simp
  then have "distinct ys \<and> set ys = A - {a}"
    using b(5,6) by (metis distinct_remove1 mset_eq_imp_distinct_iff mset_eq_setD set_remove1_eq)
  then show ?thesis
    using b b' bag_holds_list[OF b'(2)]
    by (auto simp: bagRemove_def bagRemoveMaybe_eq addr_bag_def bag_wf_def bag_ext_def)
qed

lemma addr_bag_add:
  assumes "addr_bag (Some b) A" and "a \<notin> A" and "bag_room avail b 1"
  shows "\<exists>b'. bagAdd avail (Some b) a = Inr b' \<and> addr_bag (Some b') (insert a A)"
proof -
  have b: "bag_wf b" "b_elementSize b = bag_ptr_size" "b_lock b" "distinct (bag_list b)" "set (bag_list b) = A"
    using assms(1) by (auto simp: addr_bag_def)
  obtain b' where b': "bagAdd2 avail (Some b) a = Inr b'" "bag_wf b'" "bag_mset b' = add_mset a (bag_mset b)" "bag_ext b b'"
    using bagAdd2_law[of b avail 0 a] b(1) assms(3) by auto
  have "mset (bag_list b') = mset (a # bag_list b)" using b'(3) by (simp add: bag_mset_def)
  then have "distinct (bag_list b') \<and> set (bag_list b') = insert a A"
    using b(4,5) assms(2) by (metis distinct.simps(2) list.simps(15) mset_eq_imp_distinct_iff mset_eq_setD)
  then show ?thesis using b b' by (auto simp: bagAdd_eq addr_bag_def bag_ext_def)
qed

subsection \<open>Destruction of a definition\<close>

lemma stateMachine_destroyState_wf:
  assumes wf: "sm_wf h def S C" and s: "s \<in> S"
  shows "\<exists>h'. stateMachine_destroyState s h = Inr (None, h') \<and> sm_wf h' def (S - {s}) C
      \<and> h_states h' = (h_states h)(s := None) \<and> dom (h_classes h') = dom (h_classes h)
      \<and> map_option d_machineCount (h_defs h' def) = map_option d_machineCount (h_defs h def)
      \<and> h_machines h' = h_machines h \<and> h_world h' = h_world h"
proof -
  obtain d where d: "h_defs h def = Some d" "addr_bag (d_states d) S" "addr_bag (d_classes d) C"
    using wf by (auto simp: sm_wf_def)
  obtain st where st: "h_states h s = Some st" "s_machineDefinition st = def" "\<forall>c. s_cls st = Some c \<longrightarrow> c \<in> C"
    using wf s by (auto simp: sm_wf_def)
  obtain bag' where r: "bagRemove (d_states d) s = Inr bag'" "addr_bag bag' (S - {s})"
    using addr_bag_remove[OF d(2) s] by blast
  have fin: "finite S" using addr_bag_finite[OF d(2)] .
  have sub: "of_class h S c \<subseteq> S" for c by (auto simp: of_class_def)
  have small: "int (card (of_class h S c)) \<le> INT_MAX" for c
    using card_mono[OF fin sub[of c]] addr_bag_card[OF d(2)] by linarith
  define C1 where "C1 = (case s_cls st of None \<Rightarrow> h_classes h
     | Some c \<Rightarrow> (h_classes h)(c \<mapsto> (the (h_classes h c))\<lparr> c_stateCount := c_stateCount (the (h_classes h c)) - 1 \<rparr>))"
  have a: "add_stateCount (s_cls st) (-1) h = Inr (h\<lparr> h_classes := C1 \<rparr>)"
  proof (cases "s_cls st")
    case (Some c)
    then obtain k where k: "h_classes h c = Some k" "c_stateCount k = int (card (of_class h S c))"
      using wf st(3) by (auto simp: sm_wf_def)
    moreover have "in_int (c_stateCount k + -1)" using k(2) small[of c] by (simp add: in_int_def)
    ultimately show ?thesis using Some by (simp add: add_stateCount_def C1_def)
  qed (simp add: add_stateCount_def C1_def)
  define h' where "h' = h\<lparr> h_defs := (h_defs h)(def \<mapsto> d\<lparr> d_states := bag' \<rparr>), h_classes := C1,
      h_states := (h_states h)(s := None) \<rparr>"
  have "stateMachine_destroyState s h = Inr (None, h')"
    using st(1,2) a d(1) r(1) by (simp add: stateMachine_destroyState_def h'_def)
  moreover have count: "int (card (of_class h' (S - {s}) c)) = int (card (of_class h S c)) - (if s_cls st = Some c then 1 else 0)" for c
  proof -
    have "of_class h' (S - {s}) c = of_class h S c - {s}" by (auto simp: of_class_def h'_def)
    moreover have "s \<in> of_class h S c \<longleftrightarrow> s_cls st = Some c" using s st(1) by (simp add: of_class_def)
    ultimately show ?thesis
      using card_Suc_Diff1[OF finite_subset[OF sub fin], of s c] by (cases "s_cls st = Some c") auto
  qed
  moreover have "sm_wf h' def (S - {s}) C"
    unfolding sm_wf_def
  proof (intro conjI ballI)
    fix c assume c: "c \<in> C"
    then obtain k where "h_classes h c = Some k" "c_machineDefinition k = def" "c_name k \<noteq> None"
        "c_stateCount k = int (card (of_class h S c))"
      using wf by (auto simp: sm_wf_def)
    then show "\<exists>k. h_classes h' c = Some k \<and> c_machineDefinition k = def \<and> c_name k \<noteq> None
        \<and> c_stateCount k = int (card (of_class h' (S - {s}) c))"
      using count[of c] by (cases "s_cls st") (auto simp: h'_def C1_def)
  qed (use wf d r in \<open>auto simp: sm_wf_def h'_def\<close>)
  moreover have "dom C1 = dom (h_classes h)"
    using wf st(3) by (cases "s_cls st") (auto simp: C1_def sm_wf_def)
  ultimately show ?thesis using d(1) by (auto simp: h'_def)
qed

lemma stateMachine_destroyClass_wf:
  assumes wf: "sm_wf h def {} C" and c: "c \<in> C"
  shows "\<exists>h'. stateMachine_destroyClass errOk c h = Inr (None, h') \<and> sm_wf h' def {} (C - {c})
      \<and> h_states h' = h_states h \<and> dom (h_classes h') = dom (h_classes h)
      \<and> h_machines h' = h_machines h \<and> h_world h' = h_world h"
proof -
  obtain d where d: "h_defs h def = Some d" "addr_bag (d_states d) {}" "addr_bag (d_classes d) C"
    using wf by (auto simp: sm_wf_def)
  obtain k where k: "h_classes h c = Some k" "c_machineDefinition k = def" "c_name k \<noteq> None" "c_stateCount k = 0"
    using wf c by (auto simp: sm_wf_def of_class_def)
  obtain bag' where r: "bagRemove (d_classes d) c = Inr bag'" "addr_bag bag' (C - {c})"
    using addr_bag_remove[OF d(3) c] by blast
  let ?h = "h\<lparr> h_defs := (h_defs h)(def \<mapsto> d\<lparr> d_classes := bag' \<rparr>),
      h_classes := (h_classes h)(c \<mapsto> k\<lparr> c_name := None \<rparr>) \<rparr>"
  have "stateMachine_destroyClass errOk c h = Inr (None, ?h)"
    using d(1) k r(1) by (simp add: stateMachine_destroyClass_def)
  moreover have "sm_wf ?h def {} (C - {c})"
    using wf d(2) r(2) by (auto simp: sm_wf_def of_class_def)
  ultimately show ?thesis using k(1) by auto
qed

lemma destroy_states_all:
  assumes "\<forall>i. 0 \<le> rand i"
  shows "sm_wf h def S C \<Longrightarrow> card S \<le> fuel \<Longrightarrow>
    \<exists>h'. destroy_states fuel rand errOk def h = Inr (None, h') \<and> sm_wf h' def {} C
      \<and> h_states h' = (h_states h) |` (- S) \<and> dom (h_classes h') = dom (h_classes h)
      \<and> h_machines h' = h_machines h \<and> h_world h' = h_world h"
proof (induction fuel arbitrary: h S)
  case 0
  then obtain d where d: "h_defs h def = Some d" "addr_bag (d_states d) S" by (auto simp: sm_wf_def)
  then have "S = {}" using 0 addr_bag_finite by auto
  then show ?case
    using d addr_bag_count[OF d(2)] 0 by (subst destroy_states.simps) auto
next
  case (Suc n)
  obtain d where d: "h_defs h def = Some d" "addr_bag (d_states d) S"
    using Suc.prems by (auto simp: sm_wf_def)
  show ?case
  proof (cases "S = {}")
    case True
    then show ?thesis
      using d addr_bag_count[OF d(2)] Suc.prems by (subst destroy_states.simps) auto
  next
    case False
    obtain s where s: "s \<in> S" "bagGetRandomElement (rand n) (d_states d) = Inr (Some s)"
      using addr_bag_random[OF d(2) False, of "rand n"] assms by blast
    obtain h1 where h1: "stateMachine_destroyState s h = Inr (None, h1)" "sm_wf h1 def (S - {s}) C"
        "h_states h1 = (h_states h)(s := None)" "dom (h_classes h1) = dom (h_classes h)"
        "h_machines h1 = h_machines h" "h_world h1 = h_world h"
      using stateMachine_destroyState_wf[OF Suc.prems(1) s(1)] by blast
    have "finite S" using addr_bag_finite[OF d(2)] .
    then have c: "card (S - {s}) \<le> n" "0 < card S" using Suc.prems(2) s(1) by (auto simp: card_gt_0_iff)
    obtain h2 where h2: "destroy_states n rand errOk def h1 = Inr (None, h2)" "sm_wf h2 def {} C"
        "h_states h2 = (h_states h1) |` (- (S - {s}))" "dom (h_classes h2) = dom (h_classes h1)"
        "h_machines h2 = h_machines h1" "h_world h2 = h_world h1"
      using Suc.IH[OF h1(2) c(1)] by blast
    have "h_states h2 = (h_states h) |` (- S)"
      unfolding h2(3) h1(3) using s(1) by (auto simp: fun_eq_iff restrict_map_def)
    then show ?thesis
      using h2 d(1) addr_bag_count[OF d(2)] s(2) h1 c(2) by (subst destroy_states.simps) simp
  qed
qed

lemma destroy_classes_all:
  assumes "\<forall>i. 0 \<le> rand i"
  shows "sm_wf h def {} C \<Longrightarrow> card C \<le> fuel \<Longrightarrow>
    \<exists>h'. destroy_classes fuel rand errOk def h = Inr (None, h') \<and> sm_wf h' def {} {}
      \<and> h_states h' = h_states h \<and> dom (h_classes h') = dom (h_classes h)
      \<and> h_machines h' = h_machines h \<and> h_world h' = h_world h"
proof (induction fuel arbitrary: h C)
  case 0
  then obtain d where d: "h_defs h def = Some d" "addr_bag (d_classes d) C" by (auto simp: sm_wf_def)
  then have "C = {}" using 0 addr_bag_finite by auto
  then show ?case
    using d addr_bag_count[OF d(2)] 0 by (subst destroy_classes.simps) auto
next
  case (Suc n)
  obtain d where d: "h_defs h def = Some d" "addr_bag (d_classes d) C"
    using Suc.prems by (auto simp: sm_wf_def)
  show ?case
  proof (cases "C = {}")
    case True
    then show ?thesis
      using d addr_bag_count[OF d(2)] Suc.prems by (subst destroy_classes.simps) auto
  next
    case False
    obtain c where c: "c \<in> C" "bagGetRandomElement (rand n) (d_classes d) = Inr (Some c)"
      using addr_bag_random[OF d(2) False, of "rand n"] assms by blast
    obtain h1 where h1: "stateMachine_destroyClass errOk c h = Inr (None, h1)" "sm_wf h1 def {} (C - {c})"
        "h_states h1 = h_states h" "dom (h_classes h1) = dom (h_classes h)"
        "h_machines h1 = h_machines h" "h_world h1 = h_world h"
      using stateMachine_destroyClass_wf[OF Suc.prems(1) c(1)] by blast
    have "finite C" using addr_bag_finite[OF d(2)] .
    then have n: "card (C - {c}) \<le> n" "0 < card C" using Suc.prems(2) c(1) by (auto simp: card_gt_0_iff)
    then show ?thesis
      using Suc.IH[OF h1(2) n(1)] d(1) addr_bag_count[OF d(2)] c(2) h1
      by (subst destroy_classes.simps) auto
  qed
qed

lemma addr_bag_destroy: "addr_bag bag A \<Longrightarrow> bagDestroy bag None w = Inr w"
  unfolding addr_bag_def bag_wf_list by (auto simp: bagDestroy_def bag_holds_valid)

subsection \<open>What a run does\<close>

text \<open>
  The specification of a run. A callback changes what it may of its machine, the next state and the
  exit flag, and the world: \<open>eff g s (next, exit, world)\<close>. In each state the callbacks of the list
  \<open>cb s\<close> are executed in order, up to the first that asks for an immediate exit; then the machine
  goes on with the next state, if there is one.
\<close>

type_synonym 'w eff = "nat \<Rightarrow> nat \<Rightarrow> nat option \<times> bool \<times> 'w \<Rightarrow> nat option \<times> bool \<times> 'w"

definition apply_cb :: "'w eff \<Rightarrow> nat \<Rightarrow> nat option \<Rightarrow> nat option \<times> bool \<times> 'w \<Rightarrow> nat option \<times> bool \<times> 'w" where
  "apply_cb eff s f a = (case f of None \<Rightarrow> a | Some g \<Rightarrow> eff g s a)"

fun exec :: "'w eff \<Rightarrow> nat \<Rightarrow> nat option list \<Rightarrow> nat option \<times> bool \<times> 'w \<Rightarrow> nat option \<times> bool \<times> 'w" where
  "exec eff s [] a = a"
| "exec eff s (f # fs) a =
     (let a' = apply_cb eff s f a in if fst (snd a') then a' else exec eff s fs a')"

inductive visits :: "'w eff \<Rightarrow> (nat \<Rightarrow> nat option list) \<Rightarrow> nat \<Rightarrow> 'w \<Rightarrow> nat list \<Rightarrow> bool \<Rightarrow> 'w \<Rightarrow> bool"
  for eff cb where
  quit: "exec eff s (cb s) (None, False, w) = (n, True, w') \<Longrightarrow> visits eff cb s w [s] True w'"
| stop: "exec eff s (cb s) (None, False, w) = (None, False, w') \<Longrightarrow> visits eff cb s w [s] False w'"
| go: "exec eff s (cb s) (None, False, w) = (Some t, False, w') \<Longrightarrow> visits eff cb t w' ss q w'' \<Longrightarrow>
    visits eff cb s w (s # ss) q w''"

text \<open>The four callbacks of a state of the store: of its class, its own two, of its class again.\<close>

definition callbacks :: "'w sm_heap \<Rightarrow> nat \<Rightarrow> nat option list" where
  "callbacks h s =
     (case h_states h s of
        None \<Rightarrow> []
      | Some st \<Rightarrow>
          (let k = (case s_cls st of None \<Rightarrow> None | Some c \<Rightarrow> h_classes h c)
           in [Option.bind k c_entryFunc, s_entryFunc st, s_exitFunc st, Option.bind k c_exitFunc]))"

text \<open>Every state of \<open>S\<close> is alive and so is its class.\<close>

definition states_alive :: "'w sm_heap \<Rightarrow> nat set \<Rightarrow> bool" where
  "states_alive h S \<longleftrightarrow>
     (\<forall>s \<in> S. \<exists>st. h_states h s = Some st \<and> (\<forall>c. s_cls st = Some c \<longrightarrow> h_classes h c \<noteq> None))"

text \<open>The store after a callback of machine \<open>m\<close>, and what calling a function pointer must do.\<close>

definition put_view :: "nat \<Rightarrow> sStateMachine \<Rightarrow> nat option \<times> bool \<times> 'w \<Rightarrow> 'w sm_heap \<Rightarrow> 'w sm_heap" where
  "put_view m x a h =
     h\<lparr> h_machines := (h_machines h)(m \<mapsto> x\<lparr> m_nextState := fst a, m_immediateExit := fst (snd a) \<rparr>),
        h_world := snd (snd a) \<rparr>"

definition behaves :: "'w call \<Rightarrow> nat \<Rightarrow> 'w eff \<Rightarrow> bool" where
  "behaves call m eff \<longleftrightarrow>
     (\<forall>g s h x. h_machines h m = Some x \<longrightarrow>
        call g m s h = Inr (put_view m x (eff g s (m_nextState x, m_immediateExit x, h_world h)) h))"

lemma put_view_simps [simp]:
  "h_machines (put_view m x a h) m = Some (x\<lparr> m_nextState := fst a, m_immediateExit := fst (snd a) \<rparr>)"
  "h_states (put_view m x a h) = h_states h" "h_classes (put_view m x a h) = h_classes h"
  "h_defs (put_view m x a h) = h_defs h" "h_world (put_view m x a h) = snd (snd a)"
  by (simp_all add: put_view_def)

lemma phase_view:
  assumes "behaves call m eff" and "m_currentState x = Some s" and "h_states h s = Some st"
    and "sel (put_view m x a h) st = Inr f"
  shows "phase call sel m (put_view m x a h) = Inr (put_view m x (apply_cb eff s f a) h)"
proof (cases f)
  case (Some g)
  have "call g m s (put_view m x a h) = Inr (put_view m x (eff g s a) h)"
    using assms(1) unfolding behaves_def by (simp add: put_view_def)
  then show ?thesis using assms Some by (simp add: phase_def apply_cb_def)
qed (use assms in \<open>simp add: phase_def apply_cb_def\<close>)

lemma class_func_view:
  assumes "\<forall>c. s_cls st = Some c \<longrightarrow> h_classes h c \<noteq> None"
  shows "class_func sel (put_view m x a h) st
    = Inr (Option.bind (case s_cls st of None \<Rightarrow> None | Some c \<Rightarrow> h_classes h c) sel)"
  using assms by (cases "s_cls st") (auto simp: class_func_def)

text \<open>One round: the callbacks are executed; without an exit the machine moves on.\<close>

lemma run_round_view:
  assumes b: "behaves call m eff" and x: "m_currentState x = Some s" and al: "states_alive h {s}"
    and e: "\<not> fst (snd a)" and a': "exec eff s (callbacks h s) a = a'"
  shows "run_round call m (put_view m x a h) = Inr (True, put_view m x a' h) \<and> fst (snd a')
    \<or> run_round call m (put_view m x a h) =
        Inr (False, put_view m (x\<lparr> m_currentState := fst a' \<rparr>) (None, snd a') h)"
proof -
  obtain st where st: "h_states h s = Some st" "\<forall>c. s_cls st = Some c \<longrightarrow> h_classes h c \<noteq> None"
    using al by (auto simp: states_alive_def)
  note ph = phase_view[OF b x st(1)] class_func_view[OF st(2)]
  have m: "put_view m x y h\<lparr> h_machines := (h_machines (put_view m x y h))(m \<mapsto>
      go_on (x\<lparr> m_nextState := fst y, m_immediateExit := fst (snd y) \<rparr>)) \<rparr>
      = put_view m (x\<lparr> m_currentState := fst y \<rparr>) (None, snd y) h" for y
    by (cases h; cases x) (simp add: put_view_def go_on_def)
  show ?thesis
    using a' e st(1)
    by (auto simp: run_round_def callbacks_def Let_def ph immediateExit_def m split: if_splits)
qed

lemma run_loop_visits:
  assumes b: "behaves call m eff"
  shows "visits eff (callbacks h) s w ss q w' \<Longrightarrow> states_alive h (set ss) \<Longrightarrow> m_currentState x = Some s \<Longrightarrow>
    length ss \<le> fuel \<Longrightarrow>
    \<exists>x' n. run_loop call fuel m (put_view m x (None, False, w) h) = Inr (put_view m x' (n, q, w') h)
      \<and> m_definition x' = m_definition x \<and> (\<not> q \<longrightarrow> m_currentState x' = None)"
proof (induction arbitrary: x fuel rule: visits.induct)
  case (quit s w n w')
  then obtain k where k: "fuel = Suc k" by (cases fuel) auto
  show ?case
    using run_round_view[OF b quit.prems(2) _ _ quit.hyps] quit.prems(1) k
    by (fastforce simp: states_alive_def)
next
  case (stop s w w')
  then obtain k where k: "fuel = Suc k" by (cases fuel) auto
  show ?case
    using run_round_view[OF b stop.prems(2) _ _ stop.hyps] stop.prems(1) k
    by (fastforce simp: states_alive_def)
next
  case (go s w t w' ss q w'')
  then obtain k where k: "fuel = Suc k" "length ss \<le> k" by (cases fuel) auto
  let ?x = "x\<lparr> m_currentState := Some t \<rparr>"
  have "run_round call m (put_view m x (None, False, w) h) = Inr (False, put_view m ?x (None, False, w') h)"
    using run_round_view[OF b go.prems(2) _ _ go.hyps(1)] go.prems(1) by (auto simp: states_alive_def)
  moreover have "states_alive h (set ss)" using go.prems(1) by (auto simp: states_alive_def)
  ultimately show ?case
    using go.IH[of ?x k] k by simp
qed

subsection \<open>Creation of a state\<close>

lemma stateMachine_createState_wf:
  assumes wf: "sm_wf h def S C" and a: "a \<notin> S" and cls: "\<forall>c. cls = Some c \<longrightarrow> c \<in> C"
    and d: "h_defs h def = Some d" "d_states d = Some b" "bag_room avail b 1"
  shows "\<exists>h'. stateMachine_createState (Some a) errOk dupOk avail def name cls entryFunc exitFunc h
        = Inr (None, Some a, h')
      \<and> sm_wf h' def (insert a S) C
      \<and> (\<exists>st. h_states h' = (h_states h)(a \<mapsto> st) \<and> s_cls st = cls
           \<and> s_entryFunc st = entryFunc \<and> s_exitFunc st = exitFunc)"
proof -
  have bags: "addr_bag (Some b) S" "addr_bag (d_classes d) C" using wf d by (auto simp: sm_wf_def)
  obtain b' where b': "bagAdd avail (Some b) a = Inr b'" "addr_bag (Some b') (insert a S)"
    using addr_bag_add[OF bags(1) a d(3)] by blast
  define st where "st = \<lparr> s_name = (if dupOk then Some name else None), s_machineDefinition = def,
     s_cls = cls, s_entryFunc = entryFunc, s_exitFunc = exitFunc \<rparr>"
  define h1 where "h1 = h\<lparr> h_defs := (h_defs h)(def \<mapsto> d\<lparr> d_states := Some b' \<rparr>),
     h_states := (h_states h)(a \<mapsto> st) \<rparr>"
  have oc: "of_class h1 (insert a S) c = (if cls = Some c then insert a (of_class h S c) else of_class h S c)"
    and na: "a \<notin> of_class h S c" for c
    using a by (auto simp: of_class_def h1_def st_def)
  have fin: "finite (of_class h S c)" for c
    by (rule finite_subset[OF _ addr_bag_finite[OF bags(1)]]) (auto simp: of_class_def)
  have small: "int (card (of_class h1 (insert a S) c)) \<le> INT_MAX" for c
  proof -
    have "of_class h1 (insert a S) c \<subseteq> insert a S" by (auto simp: of_class_def)
    then have "card (of_class h1 (insert a S) c) \<le> card (insert a S)"
      by (rule card_mono[OF addr_bag_finite[OF b'(2)]])
    then show ?thesis using addr_bag_card[OF b'(2)] by linarith
  qed
  define C1 where "C1 = (case cls of None \<Rightarrow> h_classes h
     | Some c \<Rightarrow> (h_classes h)(c \<mapsto> (the (h_classes h c))\<lparr> c_stateCount := c_stateCount (the (h_classes h c)) + 1 \<rparr>))"
  have "add_stateCount cls 1 h1 = Inr (h1\<lparr> h_classes := C1 \<rparr>)"
  proof (cases cls)
    case (Some c)
    then obtain k where k: "h_classes h c = Some k" "c_stateCount k = int (card (of_class h S c))"
      using wf cls by (auto simp: sm_wf_def)
    moreover have "in_int (c_stateCount k + 1)"
      using k(2) small[of c] oc[of c] na[of c] fin[of c] Some by (simp add: in_int_def)
    ultimately show ?thesis using Some by (simp add: add_stateCount_def C1_def h1_def)
  qed (simp add: add_stateCount_def C1_def h1_def)
  then have "stateMachine_createState (Some a) errOk dupOk avail def name cls entryFunc exitFunc h
      = Inr (None, Some a, h1\<lparr> h_classes := C1 \<rparr>)"
    using d b'(1) by (simp add: stateMachine_createState_def emalloc_def Let_def h1_def st_def)
  moreover have oc': "of_class (h1\<lparr> h_classes := C1 \<rparr>) (insert a S) c = of_class h1 (insert a S) c" for c
    by (simp add: of_class_def)
  have "sm_wf (h1\<lparr> h_classes := C1 \<rparr>) def (insert a S) C"
    unfolding sm_wf_def
  proof (intro conjI ballI)
    fix c assume "c \<in> C"
    then obtain k where "h_classes h c = Some k" "c_machineDefinition k = def" "c_name k \<noteq> None"
        "c_stateCount k = int (card (of_class h S c))"
      using wf by (auto simp: sm_wf_def)
    then show "\<exists>k. h_classes (h1\<lparr> h_classes := C1 \<rparr>) c = Some k \<and> c_machineDefinition k = def \<and> c_name k \<noteq> None
        \<and> c_stateCount k = int (card (of_class (h1\<lparr> h_classes := C1 \<rparr>) (insert a S) c))"
      using oc[of c] na[of c] fin[of c] unfolding oc' by (cases cls) (auto simp: C1_def)
  next
    fix s assume "s \<in> insert a S"
    then show "\<exists>st. h_states (h1\<lparr> h_classes := C1 \<rparr>) s = Some st \<and> s_machineDefinition st = def
        \<and> (\<forall>c. s_cls st = Some c \<longrightarrow> c \<in> C)"
      using wf cls by (cases "s = a") (auto simp: sm_wf_def h1_def st_def)
  qed (use bags b' in \<open>auto simp: h1_def\<close>)
  ultimately show ?thesis by (auto simp: h1_def st_def)
qed

subsection \<open>Properties\<close>

text \<open>\<open>stateMachine_defDestroy\<close> of a consistent definition without machines ends without a fault,
  whatever elements \<open>rand\<close> selects: every state is freed exactly once, each class is destroyed only
  after its states, the definition is gone, and nothing else changes; the blocks of the classes,
  however, stay allocated. A definition with machines is refused and stays as it is.\<close>

theorem stateMachine_defDestroy_frees:
  assumes "sm_wf h def S C" and "h_defs h def = Some d"
    and "\<forall>i. 0 \<le> rand1 i" and "\<forall>i. 0 \<le> rand2 i" and "card S \<le> fuel" and "card C \<le> fuel"
  shows "if d_machineCount d = 0
    then \<exists>h'. stateMachine_defDestroy fuel rand1 rand2 errOk def h = Inr (None, h')
      \<and> h_defs h' def = None \<and> h_states h' = (h_states h) |` (- S)
      \<and> dom (h_classes h') = dom (h_classes h) \<and> h_machines h' = h_machines h \<and> h_world h' = h_world h
    else stateMachine_defDestroy fuel rand1 rand2 (True, True) def h
      = Inr (Some (mkErr ERR_STATE_MACHINE ERR_STATE_MACHINE_DEF_HAS_MACHINES None
               ''The state machine definition has state machines refering to it.''), h)"
proof (cases "d_machineCount d = 0")
  case True
  obtain h1 where h1: "destroy_states fuel rand1 errOk def h = Inr (None, h1)" "sm_wf h1 def {} C"
      "h_states h1 = (h_states h) |` (- S)" "dom (h_classes h1) = dom (h_classes h)"
      "h_machines h1 = h_machines h" "h_world h1 = h_world h"
    using destroy_states_all[OF assms(3,1,5)] by blast
  obtain h2 where h2: "destroy_classes fuel rand2 errOk def h1 = Inr (None, h2)" "sm_wf h2 def {} {}"
      "h_states h2 = h_states h1" "dom (h_classes h2) = dom (h_classes h1)"
      "h_machines h2 = h_machines h1" "h_world h2 = h_world h1"
    using destroy_classes_all[OF assms(4) h1(2) assms(6)] by blast
  obtain d2 where "h_defs h2 def = Some d2" "addr_bag (d_states d2) {}" "addr_bag (d_classes d2) {}"
    using h2(2) by (auto simp: sm_wf_def)
  then show ?thesis
    using True assms(2) h1 h2 by (auto simp: stateMachine_defDestroy_def addr_bag_destroy)
next
  case False
  then show ?thesis
    using assms(2) by (simp add: stateMachine_defDestroy_def sm_error_def ErrNew_def)
qed

text \<open>A definition at address 1 with the class 10 and the states 20, of that class, and 21.\<close>

definition addr_list_bag :: "nat list \<Rightarrow> (nat, unit) sBag" where
  "addr_list_bag xs = \<lparr> b_cookie = True, b_noElements = int (length xs), b_capacity = 4,
     b_capacityIncrement = 32, b_elementSize = 4, b_array = Some (map Some xs @ replicate (4 - length xs) None),
     b_destroyFunc = Some None, b_lock = True \<rparr>"

definition sm_small :: "nat list sm_heap" where
  "sm_small = \<lparr>
     h_defs = [1 \<mapsto> \<lparr> d_machineCount = 0, d_classes = Some (addr_list_bag [10]), d_states = Some (addr_list_bag [20, 21]) \<rparr>],
     h_machines = Map.empty,
     h_classes = [10 \<mapsto> \<lparr> c_name = Some (Some ''c''), c_machineDefinition = 1, c_entryFunc = Some 1,
       c_exitFunc = Some 2, c_stateCount = 1, c_userData = 0 \<rparr>],
     h_states = [20 \<mapsto> \<lparr> s_name = Some ''s'', s_machineDefinition = 1, s_cls = Some 10, s_entryFunc = Some 3, s_exitFunc = None \<rparr>,
       21 \<mapsto> \<lparr> s_name = Some ''t'', s_machineDefinition = 1, s_cls = None, s_entryFunc = Some 4, s_exitFunc = None \<rparr>],
     h_world = [] \<rparr>"

lemma addr_list_bag_ok:
  assumes "length xs \<le> 4" and "distinct xs"
  shows "addr_bag (Some (addr_list_bag xs)) (set xs)"
proof -
  have "bag_holds (addr_list_bag xs) xs"
    using assms by (auto simp: bag_holds_def addr_list_bag_def block_fits_def holds_def)
  then have "bag_wf (addr_list_bag xs)" "bag_list (addr_list_bag xs) = xs"
    using bag_holds_list by (auto simp: bag_wf_def)
  moreover have "b_elementSize (addr_list_bag xs) = bag_ptr_size" "b_lock (addr_list_bag xs)"
    by (simp_all add: addr_list_bag_def)
  ultimately show ?thesis using assms(2) by (simp add: addr_bag_def)
qed

lemma sm_small_wf: "sm_wf sm_small 1 {20, 21} {10}"
proof -
  have "of_class sm_small {20, 21} 10 = {20}" by (auto simp: of_class_def sm_small_def)
  then show ?thesis
    using addr_list_bag_ok[of "[20, 21]"] addr_list_bag_ok[of "[10]"]
    by (simp add: sm_wf_def) (simp add: sm_small_def)
qed

theorem stateMachine_defDestroy_frees_witness:
  "\<exists>h'. stateMachine_defDestroy 2 (\<lambda>i. int (5 * i)) (\<lambda>i. 0) (True, True) 1 sm_small = Inr (None, h')
      \<and> h_states h' 20 = None \<and> h_states h' 21 = None \<and> h_defs h' 1 = None \<and> 10 \<in> dom (h_classes h')"
proof -
  obtain d where d: "h_defs sm_small 1 = Some d" "d_machineCount d = 0" by (simp add: sm_small_def)
  have k: "10 \<in> dom (h_classes sm_small)" by (simp add: sm_small_def)
  show ?thesis
    using stateMachine_defDestroy_frees[OF sm_small_wf d(1), of "\<lambda>i. int (5 * i)" "\<lambda>i. 0" 2 "(True, True)"] d(2) k
    by (auto simp: restrict_map_def)
qed

text \<open>C12: \<open>stateMachine_createAndRun\<close> implements the specification of a run: in every state visited, in
  the order of the transitions, the entry function of the class, the entry function of the state,
  its exit function and the exit function of the class are called in this order, up to the first
  that asks for an immediate exit; it returns after the last state, the machine is gone, and the
  store is as it was but for the world of the client.\<close>

theorem stateMachine_createAndRun_visits:
  assumes "behaves call m eff" and "visits eff (callbacks h) s (h_world h) ss quit w'"
    and "states_alive h (set ss)" and "length ss \<le> fuel"
    and "h_machines h m = None" and "h_defs h def = Some d" and "in_int (d_machineCount d)" and "d_machineCount d < INT_MAX"
  shows "stateMachine_createAndRun call fuel (Some m) errOk def (Some s) userData nuance h
    = Inr (None, h\<lparr> h_world := w' \<rparr>)"
proof -
  define x where "x = \<lparr> m_definition = def, m_currentState = Some s, m_userData = userData, m_nextState = None,
    m_immediateExit = False, m_nuanceSemantics = nuance \<rparr>"
  define d1 where "d1 = d\<lparr> d_machineCount := d_machineCount d + 1 \<rparr>"
  define h1 where "h1 = h\<lparr> h_defs := (h_defs h)(def \<mapsto> d1) \<rparr>"
  have "callbacks h1 = callbacks h" 
    by (auto simp: callbacks_def h1_def fun_eq_iff Let_def split: option.splits)
  moreover have "states_alive h1 (set ss)" using assms(3) by (simp add: states_alive_def h1_def)
  ultimately obtain x' n where run: "run_loop call fuel m (put_view m x (None, False, h_world h) h1)
      = Inr (put_view m x' (n, quit, w') h1)" and x': "m_definition x' = def"
    using run_loop_visits[OF assms(1), of h1 s "h_world h" ss quit w' x fuel] assms(2,4) by (auto simp: x_def)
  have c: "in_int (d_machineCount d + 1)" using assms(7,8) by (simp add: in_int_def)
  have start: "put_view m x (None, False, h_world h) h1
      = h\<lparr> h_defs := (h_defs h)(def \<mapsto> d1), h_machines := (h_machines h)(m \<mapsto> x) \<rparr>"
    by (cases h) (simp add: put_view_def h1_def x_def)
  have "stateMachine_createAndRun call fuel (Some m) errOk def (Some s) userData nuance h
      = stateMachine_destroy m (put_view m x' (n, quit, w') h1)"
    using run c assms(6) unfolding start
    by (simp add: stateMachine_createAndRun_def stateMachine_create_def emalloc_def stateMachine_run_def x_def d1_def)
  also have "\<dots> = Inr (None, h\<lparr> h_world := w' \<rparr>)"
    using x' assms(5-7)
    by (cases h) (auto simp: stateMachine_destroy_def put_view_def h1_def d1_def fun_upd_idem)
  finally show ?thesis .
qed

text \<open>A client whose functions log their number and of which function 3 sets the next state to 21.\<close>

definition log_eff :: "nat list eff" where
  "log_eff g s a = (case a of (n, e, w) \<Rightarrow> (if g = 3 then Some 21 else n, e, w @ [g]))"

definition log_call :: "nat list call" where
  "log_call g m s h =
     rbind (cell (h_machines h) m) (\<lambda>x.
     Inr (put_view m x (log_eff g s (m_nextState x, m_immediateExit x, h_world h)) h))"

theorem stateMachine_createAndRun_visits_witness:
  "stateMachine_createAndRun log_call 2 (Some 5) (True, True) 1 (Some 20) 0 True sm_small
   = Inr (None, sm_small\<lparr> h_world := [1, 3, 2, 4] \<rparr>)"
proof -
  have b: "behaves log_call 5 log_eff" by (simp add: behaves_def log_call_def)
  have cb: "callbacks sm_small 20 = [Some 1, Some 3, None, Some 2]" "callbacks sm_small 21 = [None, Some 4, None, None]"
    by (simp_all add: callbacks_def sm_small_def)
  have "visits log_eff (callbacks sm_small) 21 [1, 3, 2] [21] False [1, 3, 2, 4]"
    by (rule visits.stop) (simp add: cb apply_cb_def log_eff_def)
  then have "visits log_eff (callbacks sm_small) 20 [] [20, 21] False [1, 3, 2, 4]"
    by (rule visits.go[rotated]) (simp add: cb apply_cb_def log_eff_def)
  then have v: "visits log_eff (callbacks sm_small) 20 (h_world sm_small) [20, 21] False [1, 3, 2, 4]"
    by (simp add: sm_small_def)
  have al: "states_alive sm_small (set [20, 21])" by (auto simp: states_alive_def sm_small_def)
  obtain d where d: "h_defs sm_small 1 = Some d" "d_machineCount d = 0" by (simp add: sm_small_def)
  have n: "h_machines sm_small 5 = None" by (simp add: sm_small_def)
  show ?thesis
    by (rule stateMachine_createAndRun_visits[OF b v al _ n d(1)]) (simp_all add: d(2) in_int_def)
qed

text \<open>a new state is counted by its class: as long as it exists \<open>stateMachine_destroyClass\<close> refuses the
  class and changes nothing, and \<open>stateMachine_destroyState\<close> frees the state and gives back a
  definition with the states it had before; every step keeps the definition consistent.\<close>

theorem stateMachine_state_lifecycle:
  assumes "sm_wf h def S C" and "a \<notin> S" and "c \<in> C"
    and "h_defs h def = Some d" and "d_states d = Some b" and "bag_room avail b 1"
  shows "\<exists>h1 h2 e. stateMachine_createState (Some a) errOk dupOk avail def name (Some c) entryFunc exitFunc h
        = Inr (None, Some a, h1) \<and> sm_wf h1 def (insert a S) C
      \<and> stateMachine_destroyClass (True, True) c h1 = Inr (Some e, h1)
      \<and> stateMachine_destroyState a h1 = Inr (None, h2) \<and> sm_wf h2 def S C
      \<and> h_states h2 = (h_states h)(a := None)"
proof -
  obtain h1 st where h1: "stateMachine_createState (Some a) errOk dupOk avail def name (Some c) entryFunc exitFunc h
        = Inr (None, Some a, h1)" "sm_wf h1 def (insert a S) C" "h_states h1 = (h_states h)(a \<mapsto> st)" "s_cls st = Some c"
    using stateMachine_createState_wf[OF assms(1,2) _ assms(4,5,6), of "Some c"] assms(3) by blast
  obtain h2 where h2: "stateMachine_destroyState a h1 = Inr (None, h2)" "sm_wf h2 def (insert a S - {a}) C"
      "h_states h2 = (h_states h1)(a := None)"
    using stateMachine_destroyState_wf[OF h1(2), of a] by blast
  obtain k where k: "h_classes h1 c = Some k" "c_stateCount k = int (card (of_class h1 (insert a S) c))"
    using h1(2) assms(3) by (auto simp: sm_wf_def)
  obtain d1 :: sStateMachineDefinition where "addr_bag (d_states d1) (insert a S)" using h1(2) by (auto simp only: sm_wf_def)
  then have "finite (insert a S)" by (rule addr_bag_finite)
  then have "finite (of_class h1 (insert a S) c)"
    by (rule rev_finite_subset) (auto simp: of_class_def)
  moreover have "a \<in> of_class h1 (insert a S) c" using h1(3,4) by (simp add: of_class_def)
  ultimately have "c_stateCount k \<noteq> 0" using k(2) by auto
  then have "\<exists>e. stateMachine_destroyClass (True, True) c h1 = Inr (Some e, h1)"
    using k(1) by (simp add: stateMachine_destroyClass_def sm_error_def ErrNew_def)
  then show ?thesis using h1 h2 assms(2) by auto
qed

theorem stateMachine_state_lifecycle_witness:
  "\<exists>h1 h2. stateMachine_createState (Some 22) (True, True) True (\<lambda>_. True) 1 ''u'' (Some 10) None None sm_small
        = Inr (None, Some 22, h1)
      \<and> stateMachine_destroyState 22 h1 = Inr (None, h2) \<and> sm_wf h2 1 {20, 21} {10}"
proof -
  obtain d where d: "h_defs sm_small 1 = Some d" "d_states d = Some (addr_list_bag [20, 21])"
    by (simp add: sm_small_def)
  have "bag_room (\<lambda>_. True) (addr_list_bag [20, 21]) 1"
    by (auto simp: bag_room_def bag_grows_def addr_list_bag_def block_fits_def)
  then show ?thesis
    using stateMachine_state_lifecycle[OF sm_small_wf _ _ d, of 22 10 "\<lambda>_. True" "(True, True)" True "''u''" None None]
    by auto
qed

end
