(* ===== verification/BitTools.thy ===== *)
theory BitTools
  imports Prelude
begin

section \<open>Checksums and byte order\<close>

text \<open>
  \<open>src/checksums.c\<close>: the CRC-32 over a table that is generated at the first call, proved equal to the
  bit-serial division it abbreviates. \<open>src/bitFippling.c\<close>: byte order changes and the binary
  printing of integers, on words (\<open>long\<close> has 32 bits, \<open>VOXI_LONG_LONG\<close> 64).
\<close>

unbundle bit_operations_syntax

subsection \<open>The CRC table\<close>

abbreviation crc_poly :: "32 word" where "crc_poly \<equiv> 0xEDB88320"

text \<open>One round of the inner loop of \<open>gen_table\<close>, and the table entry after its eight rounds.\<close>

definition crc_shift :: "32 word \<Rightarrow> 32 word" where
  "crc_shift crc = (if crc AND 1 \<noteq> 0 then drop_bit 1 crc XOR crc_poly else drop_bit 1 crc)"

definition table_entry :: "nat \<Rightarrow> 32 word" where
  "table_entry i = (crc_shift ^^ 8) (word_of_nat i)"

definition gen_table :: "32 word list" where
  "gen_table = map table_entry [0..<256]"

text \<open>The static table starts with 1 in its first place and 0 elsewhere.\<close>

definition crc_table_init :: "32 word list" where
  "crc_table_init = 1 # replicate 255 0"

definition crc_byte :: "32 word list \<Rightarrow> 8 word \<Rightarrow> 32 word \<Rightarrow> 32 word" where
  "crc_byte table b crc = drop_bit 8 crc XOR table ! unat ((crc XOR ucast b) AND 0xFF)"

definition crc32_memory :: "32 word list \<Rightarrow> 8 word list \<Rightarrow> (32 word \<times> 32 word list) res" where
  "crc32_memory table memory =
     rbind (if table ! 0 = 1
            then rbind (rassert (gen_table ! 0 \<noteq> 1)) (\<lambda>_. Inr gen_table)
            else Inr table) (\<lambda>table'.
     Inr (fold (crc_byte table') memory 0xFFFFFFFF XOR 0xFFFFFFFF, table'))"

subsection \<open>The reference: bit-serial division\<close>

text \<open>Each byte is added to the low end of the register, which is then divided bit by bit.\<close>

definition crc_serial_byte :: "8 word \<Rightarrow> 32 word \<Rightarrow> 32 word" where
  "crc_serial_byte b crc = (crc_shift ^^ 8) (crc XOR ucast b)"

definition crc_serial :: "8 word list \<Rightarrow> 32 word" where
  "crc_serial memory = fold crc_serial_byte memory 0xFFFFFFFF XOR 0xFFFFFFFF"

lemma crc_shift_bit0: "crc_shift x = (if bit x 0 then drop_bit 1 x XOR crc_poly else drop_bit 1 x)"
  by (simp add: crc_shift_def and_one_eq bit_0 odd_iff_mod_2_eq_one)

text \<open>The shift is linear, and shifts out a register whose low bits are zero unchanged.\<close>

lemma crc_shift_xor: "crc_shift (x XOR y) = crc_shift x XOR crc_shift y"
  by (auto simp: crc_shift_bit0 bit_xor_iff drop_bit_xor intro!: bit_eqI)

lemma crc_shift_pow_xor: "(crc_shift ^^ n) (x XOR y) = (crc_shift ^^ n) x XOR (crc_shift ^^ n) y"
  by (induction n) (simp_all add: crc_shift_xor)

lemma crc_shift_pow_zeros: "\<forall>i < n. \<not> bit x i \<Longrightarrow> (crc_shift ^^ n) x = drop_bit n x"
proof (induction n)
  case (Suc n)
  then have "(crc_shift ^^ n) x = drop_bit n x" by simp
  moreover have "\<not> bit (drop_bit n x) 0" using Suc.prems by (simp add: bit_drop_bit_eq)
  ultimately show ?case using crc_shift_bit0[of "drop_bit n x"] by simp
qed simp

lemma low_byte: "(0xFF :: 'a::len word) = mask 8"
  by (simp add: mask_eq_exp_minus_1)

lemma crc_shift_split: "(crc_shift ^^ 8) x = drop_bit 8 x XOR (crc_shift ^^ 8) (x AND 0xFF)"
proof -
  let ?h = "x AND NOT (mask 8)" and ?l = "x AND mask 8"
  have "x = ?h XOR ?l" by (rule bit_eqI) (auto simp: bit_simps)
  then have "(crc_shift ^^ 8) x = (crc_shift ^^ 8) ?h XOR (crc_shift ^^ 8) ?l"
    using crc_shift_pow_xor by metis
  moreover have "(crc_shift ^^ 8) ?h = drop_bit 8 ?h"
    by (rule crc_shift_pow_zeros) (auto simp: bit_simps)
  moreover have "drop_bit 8 ?h = drop_bit 8 x"
    by (rule bit_eqI) (auto simp: bit_simps dest: bit_imp_le_length)
  ultimately show ?thesis by (simp add: low_byte)
qed

lemma unat_low_byte: "unat (x AND 0xFF :: 32 word) < 256"
proof -
  have "x AND 0xFF \<le> (0xFF :: 32 word)" by (rule word_and_le1)
  then show ?thesis by (simp add: word_le_nat_alt)
qed

lemma gen_table_nth: "i < 256 \<Longrightarrow> gen_table ! i = (crc_shift ^^ 8) (word_of_nat i)"
  by (simp add: gen_table_def table_entry_def)

lemma crc_byte_serial: "crc_byte gen_table b crc = crc_serial_byte b crc"
proof -
  let ?x = "crc XOR ucast b :: 32 word"
  have "drop_bit 8 (ucast b :: 32 word) = 0"
    by (rule bit_eqI) (auto simp: bit_simps dest: bit_imp_le_length)
  then have "drop_bit 8 ?x = drop_bit 8 crc" by simp
  moreover have "gen_table ! unat (?x AND 0xFF) = (crc_shift ^^ 8) (?x AND 0xFF)"
    using gen_table_nth[OF unat_low_byte[of ?x]] by simp
  ultimately show ?thesis
    using crc_shift_split[of ?x] by (simp add: crc_byte_def crc_serial_byte_def)
qed

lemma gen_table_0: "gen_table ! 0 = 0"
  by (simp add: gen_table_nth crc_shift_def numeral_eq_Suc)

subsection \<open>Byte order\<close>

text \<open>
  \<open>drokk\<close> and \<open>smeg\<close> share their body: \<open>smeg\<close> applies it to the bits of a \<open>float\<close>. The mask with the
  top byte is an unsigned constant, so all shifts are logical.
\<close>

definition drokk :: "32 word \<Rightarrow> 32 word" where
  "drokk i =
     drop_bit 24 (i AND 0xff000000) OR
     drop_bit 8 (i AND 0x00ff0000) OR
     push_bit 8 (i AND 0x0000ff00) OR
     push_bit 24 (i AND 0x000000ff)"

definition smeg :: "32 word \<Rightarrow> 32 word" where
  "smeg f =
     (let j = f
      in drop_bit 24 (j AND 0xff000000) OR
         drop_bit 8 (j AND 0x00ff0000) OR
         push_bit 8 (j AND 0x0000ff00) OR
         push_bit 24 (j AND 0x000000ff))"

text \<open>The argument of \<open>tanj\<close> is promoted with its sign; the result is cut to 16 bits again.\<close>

definition tanj :: "16 word \<Rightarrow> 16 word" where
  "tanj i =
     (let n = (scast i :: 32 word)
      in ucast (drop_bit 8 (n AND 0xff00) OR push_bit 8 (n AND 0x00ff)))"

text \<open>The digits that \<open>printbinary\<close> and \<open>printbinarylong\<close> write first, most significant bit first.\<close>

definition printbinary :: "64 word \<Rightarrow> string" where
  "printbinary value =
     map (\<lambda>i. if value AND push_bit i 1 \<noteq> 0 then CHR ''1'' else CHR ''0'') (rev [0..<64])"

definition printbinarylong :: "32 word \<Rightarrow> string" where
  "printbinarylong value =
     map (\<lambda>i. if (scast value :: 64 word) AND push_bit i 1 \<noteq> 0 then CHR ''1'' else CHR ''0'') (rev [0..<32])"

text \<open>The bytes of a word, the lowest first.\<close>

definition byte_of :: "nat \<Rightarrow> 'a::len word \<Rightarrow> 8 word" where
  "byte_of k x = ucast (drop_bit (8 * k) x)"

lemma byte_masks:
  "(0xff000000 :: 32 word) = push_bit 24 (mask 8)" "(0x00ff0000 :: 32 word) = push_bit 16 (mask 8)"
  "(0x0000ff00 :: 32 word) = push_bit 8 (mask 8)" "(0x000000ff :: 32 word) = mask 8"
  by (simp_all add: mask_eq_exp_minus_1 push_bit_eq_mult)

lemma bit_drokk:
  assumes "q < 4" and "m < 8"
  shows "bit (drokk x) (8 * q + m) \<longleftrightarrow> bit x (8 * (3 - q) + m)"
proof -
  have "q = 0 \<or> q = 1 \<or> q = 2 \<or> q = 3" using assms(1) by auto
  then show ?thesis
    unfolding drokk_def byte_masks using assms(2)
    by (elim disjE) (auto simp: bit_simps)
qed

lemma byte_of_drokk: "k < 4 \<Longrightarrow> byte_of k (drokk x) = byte_of (3 - k) x"
  by (rule bit_eqI) (auto simp: byte_of_def bit_simps bit_drokk)

lemma drokk_drokk: "drokk (drokk x) = x"
proof (rule bit_eqI)
  fix n assume "possible_bit TYPE(32 word) n"
  then have "n div 8 < 4" "n = 8 * (n div 8) + n mod 8" "n mod 8 < 8" by auto
  then show "bit (drokk (drokk x)) n \<longleftrightarrow> bit x n"
    using bit_drokk[of "n div 8" "n mod 8"] bit_drokk[of "3 - n div 8" "n mod 8"] by simp
qed

lemma smeg_eq: "smeg x = drokk x"
  by (simp only: smeg_def drokk_def Let_def)

lemma bit_tanj:
  assumes "q < 2" and "m < 8"
  shows "bit (tanj x) (8 * q + m) \<longleftrightarrow> bit x (8 * (1 - q) + m)"
proof -
  have "q = 0 \<or> q = 1" using assms(1) by auto
  then show ?thesis
    unfolding tanj_def Let_def byte_masks(3,4) using assms(2)
    by (elim disjE) (auto simp: bit_simps)
qed

lemma byte_of_tanj: "k < 2 \<Longrightarrow> byte_of k (tanj x) = byte_of (1 - k) x"
  by (rule bit_eqI) (auto simp: byte_of_def bit_simps bit_tanj)

lemma tanj_tanj: "tanj (tanj x) = x"
proof (rule bit_eqI)
  fix n assume "possible_bit TYPE(16 word) n"
  then have "n div 8 < 2" "n = 8 * (n div 8) + n mod 8" "n mod 8 < 8" by auto
  then show "bit (tanj (tanj x)) n \<longleftrightarrow> bit x n"
    using bit_tanj[of "n div 8" "n mod 8"] bit_tanj[of "1 - n div 8" "n mod 8"] by simp
qed

text \<open>The printed digits determine the value.\<close>

lemma horner_sum_digits:
  "horner_sum (\<lambda>c. of_bool (c = CHR ''1'')) 2 (map (\<lambda>i. if p i then CHR ''1'' else CHR ''0'') xs)
   = horner_sum of_bool (2 :: 'a::comm_semiring_1) (map p xs)"
  by (induction xs) auto

lemma printbinary_value:
  "horner_sum (\<lambda>c. of_bool (c = CHR ''1'')) 2 (rev (printbinary v)) = v"
  "horner_sum (\<lambda>c. of_bool (c = CHR ''1'')) 2 (rev (printbinarylong w)) = w"
proof -
  have "rev (printbinary v) = map (\<lambda>i. if bit v i then CHR ''1'' else CHR ''0'') [0..<64]"
    by (simp add: printbinary_def rev_map bit_iff_and_push_bit_not_eq_0)
  then have "horner_sum (\<lambda>c. of_bool (c = CHR ''1'')) 2 (rev (printbinary v)) = (horner_sum of_bool 2 (map (bit v) [0..<64]) :: 64 word)"
    by (simp only: horner_sum_digits)
  also have "\<dots> = take_bit 64 v" by (rule horner_sum_bit_eq_take_bit)
  finally show "horner_sum (\<lambda>c. of_bool (c = CHR ''1'')) 2 (rev (printbinary v)) = v" by (simp add: take_bit_word_eq_self)
  have "rev (printbinarylong w) = map (\<lambda>i. if bit w i then CHR ''1'' else CHR ''0'') [0..<32]"
    unfolding printbinarylong_def bit_iff_and_push_bit_not_eq_0[symmetric] by (auto simp: rev_map bit_simps)
  then have "horner_sum (\<lambda>c. of_bool (c = CHR ''1'')) 2 (rev (printbinarylong w)) = (horner_sum of_bool 2 (map (bit w) [0..<32]) :: 32 word)"
    by (simp only: horner_sum_digits)
  also have "\<dots> = take_bit 32 w" by (rule horner_sum_bit_eq_take_bit)
  finally show "horner_sum (\<lambda>c. of_bool (c = CHR ''1'')) 2 (rev (printbinarylong w)) = w" by (simp add: take_bit_word_eq_self)
qed

subsection \<open>Properties\<close>

text \<open>C11: the table-driven checksum of \<open>crc32_memory\<close> is the bit-serial CRC-32 of the memory, whether or
  not the table was generated before, and it leaves the generated table behind; no assertion
  fails.\<close>

theorem crc32_memory_is_serial:
  "crc32_memory crc_table_init memory = Inr (crc_serial memory, gen_table)
   \<and> crc32_memory gen_table memory = Inr (crc_serial memory, gen_table)"
proof -
  have "crc_byte gen_table = crc_serial_byte" by (intro ext) (rule crc_byte_serial)
  then show ?thesis
    by (simp add: crc32_memory_def crc_serial_def gen_table_0 crc_table_init_def)
qed

text \<open>\<open>drokk\<close> and \<open>smeg\<close> reverse the four bytes of their argument, \<open>tanj\<close> the two of a short, also of a
  negative one, and each of them undoes itself.\<close>

theorem byte_order_reversed:
  "(\<forall>k < 4. byte_of k (drokk x) = byte_of (3 - k) x) \<and> drokk (drokk x) = x \<and> smeg x = drokk x
   \<and> (\<forall>k < 2. byte_of k (tanj y) = byte_of (1 - k) y) \<and> tanj (tanj y) = y"
  using byte_of_drokk byte_of_tanj by (simp add: drokk_drokk tanj_tanj smeg_eq)

theorem byte_order_reversed_witness:
  "byte_of 0 (drokk 0x12345678) = 0x12 \<and> byte_of 1 (tanj 0xFF01) = 1"
proof -
  have "byte_of 3 (0x12345678 :: 32 word) = 0x12" "byte_of 0 (0xFF01 :: 16 word) = 1"
    by (simp_all add: byte_of_def)
  then show ?thesis
    using byte_order_reversed[of "0x12345678" "0xFF01"] by simp
qed

end
