(* ===== verification/DList.thy ===== *)
theory DList
  imports Prelude
begin

section \<open>Doubly linked lists in a store\<close>

text \<open>
  The lists of timer events and of pool threads are threaded through the nodes themselves. What
  matters of a node here are its two links; a component reads its store as a \<^emph>\<open>link view\<close>, a map from
  addresses to the pair of previous and next. The lemmas say which link updates push, insert and
  unlink a node.
\<close>

subsection \<open>Lists in a link view\<close>

type_synonym link_view = "nat \<rightharpoonup> nat option \<times> nat option"

definition hdopt :: "nat list \<Rightarrow> nat option" where
  "hdopt xs = (case xs of [] \<Rightarrow> None | a # _ \<Rightarrow> Some a)"

definition lastopt :: "nat list \<Rightarrow> nat option" where
  "lastopt xs = (if xs = [] then None else Some (last xs))"

lemma hdopt_simps [simp]: "hdopt [] = None" "hdopt (a # xs) = Some a"
  by (simp_all add: hdopt_def)

lemma hdopt_mem: "hdopt xs = Some a \<Longrightarrow> a \<in> set xs"
  by (cases xs) auto

lemma lastopt_simps [simp]: "lastopt [] = None" "lastopt (xs @ [a]) = Some a"
  by (simp_all add: lastopt_def)

text \<open>From \<open>f\<close> the nodes \<open>xs\<close> follow each other; the first points back to \<open>p\<close>, the last on to \<open>n\<close>.\<close>

fun dseg :: "link_view \<Rightarrow> nat option \<Rightarrow> nat option \<Rightarrow> nat list \<Rightarrow> nat option \<Rightarrow> bool" where
  "dseg L p f [] n \<longleftrightarrow> f = n"
| "dseg L p f (a # xs) n \<longleftrightarrow> f = Some a \<and> (\<exists>x. L a = Some (p, x) \<and> dseg L (Some a) x xs n)"

definition dll :: "link_view \<Rightarrow> nat option \<Rightarrow> nat list \<Rightarrow> bool" where
  "dll L f xs \<longleftrightarrow> distinct xs \<and> dseg L None f xs None"

lemma dseg_append:
  "dseg L p f (xs @ ys) n \<longleftrightarrow>
     (\<exists>m. dseg L p f xs m \<and> dseg L (if xs = [] then p else Some (last xs)) m ys n)"
  by (induction xs arbitrary: p f) auto

lemma dseg_cong: "(\<And>a. a \<in> set xs \<Longrightarrow> L a = K a) \<Longrightarrow> dseg L p f xs n \<longleftrightarrow> dseg K p f xs n"
  by (induction xs arbitrary: p f) auto

lemma dseg_frame [simp]: "a \<notin> set xs \<Longrightarrow> dseg (L(a := v)) p f xs n \<longleftrightarrow> dseg L p f xs n"
  by (rule dseg_cong) auto

lemma dseg_first: "dseg L p f xs n \<Longrightarrow> f = (if xs = [] then n else hdopt xs)"
  by (cases xs) auto

lemma dll_Nil [simp]: "dll L f [] \<longleftrightarrow> f = None"
  by (auto simp: dll_def)

lemma dll_distinct: "dll L f xs \<Longrightarrow> distinct xs"
  by (simp add: dll_def)

lemma dll_first: "dll L f xs \<Longrightarrow> f = hdopt xs"
  by (auto simp: dll_def dest: dseg_first)

lemma dseg_alive: "dseg L p f xs n \<Longrightarrow> a \<in> set xs \<Longrightarrow> \<exists>l. L a = Some l"
  by (induction xs arbitrary: p f) auto

lemma dll_alive: "dll L f xs \<Longrightarrow> a \<in> set xs \<Longrightarrow> \<exists>l. L a = Some l"
  by (auto simp: dll_def dest: dseg_alive)

lemma dll_frame: "a \<notin> set xs \<Longrightarrow> dll (L(a := v)) f xs \<longleftrightarrow> dll L f xs"
  by (simp add: dll_def)

lemma dll_cong: "(\<And>a. a \<in> set xs \<Longrightarrow> L a = K a) \<Longrightarrow> dll L f xs \<longleftrightarrow> dll K f xs"
  using dseg_cong[of xs L K] by (simp add: dll_def)

lemma dll_links:
  assumes "dll L f (xs @ a # ys)"
  shows "L a = Some (lastopt xs, hdopt ys)"
  using assms by (auto simp: dll_def dseg_append lastopt_def dest: dseg_first)

subsection \<open>Link updates\<close>

definition set_prev :: "nat option \<Rightarrow> nat option \<Rightarrow> link_view \<Rightarrow> link_view" where
  "set_prev c v L = (case c of None \<Rightarrow> L | Some a \<Rightarrow> L(a := map_option (\<lambda>l. (v, snd l)) (L a)))"

definition set_next :: "nat option \<Rightarrow> nat option \<Rightarrow> link_view \<Rightarrow> link_view" where
  "set_next c v L = (case c of None \<Rightarrow> L | Some a \<Rightarrow> L(a := map_option (\<lambda>l. (fst l, v)) (L a)))"

lemma set_prev_other [simp]: "c \<noteq> Some a \<Longrightarrow> set_prev c v L a = L a"
  by (auto simp: set_prev_def split: option.splits)

lemma set_next_other [simp]: "c \<noteq> Some a \<Longrightarrow> set_next c v L a = L a"
  by (auto simp: set_next_def split: option.splits)

lemma set_prev_hd: "a \<notin> set ys \<Longrightarrow> set_prev (hdopt ys) v L a = L a"
  using hdopt_mem by (intro set_prev_other) blast

lemma set_next_lastopt: "a \<notin> set xs \<Longrightarrow> set_next (lastopt xs) v L a = L a"
  by (intro set_next_other) (auto simp: lastopt_def)

lemma dseg_set_prev:
  assumes "dseg L p f xs n" and "distinct xs" and "xs \<noteq> []"
  shows "dseg (set_prev f v L) v f xs n"
  using assms by (cases xs) (auto simp: set_prev_def)

lemma dseg_set_next:
  assumes "dseg L p f (xs @ [b]) n" and "distinct (xs @ [b])"
  shows "dseg (set_next (Some b) v L) p f (xs @ [b]) v"
  using assms by (auto simp: dseg_append set_next_def)

lemma dll_push:
  assumes "dll L f xs" and "a \<notin> set xs"
  shows "dll ((set_prev f (Some a) L)(a \<mapsto> (None, f))) (Some a) (a # xs)"
proof (cases "xs = []")
  case False
  have "dseg (set_prev f (Some a) L) (Some a) f xs None"
    using dseg_set_prev[of L None f xs None] assms(1) False by (simp add: dll_def)
  then show ?thesis using assms by (simp add: dll_def)
qed (use assms in \<open>simp add: dll_def\<close>)

lemma dll_insert:
  assumes "dll L f (xs @ b # ys)" and "a \<notin> set (xs @ b # ys)"
  shows "dll ((set_next (Some b) (Some a) (set_prev (hdopt ys) (Some a) L))(a \<mapsto> (Some b, hdopt ys)))
    f (xs @ b # a # ys)"
proof -
  let ?L1 = "set_prev (hdopt ys) (Some a) L"
  let ?L2 = "set_next (Some b) (Some a) ?L1"
  have d: "distinct (xs @ [b])" "distinct ys" "set (xs @ [b]) \<inter> set ys = {}"
    using dll_distinct[OF assms(1)] by auto
  obtain m where m: "dseg L None f (xs @ [b]) m" "dseg L (Some b) m ys None"
    using assms(1) dseg_append[of L None f "xs @ [b]" ys None] by (auto simp: dll_def)
  have "dseg ?L1 None f (xs @ [b]) m"
    using m(1) d(3) by (subst dseg_cong[of _ _ L]) (auto intro!: set_prev_hd)
  then have 1: "dseg ?L2 None f (xs @ [b]) (Some a)" using dseg_set_next d(1) by blast
  have "dseg ?L1 (Some a) (hdopt ys) ys None"
    using dseg_set_prev[OF m(2) d(2), of "Some a"] dseg_first[OF m(2)] by (cases ys) auto
  then have 2: "dseg ?L2 (Some a) (hdopt ys) ys None"
    using d(3) by (subst dseg_cong[of _ _ ?L1]) (auto intro!: set_next_other)
  show ?thesis
    using 1 2 assms(2) d dseg_append[of "?L2(a \<mapsto> (Some b, hdopt ys))" None f "xs @ [b]" "a # ys" None]
    by (auto simp: dll_def)
qed

lemma dll_unlink:
  assumes "dll L f (xs @ a # ys)"
  shows "dll (set_prev (hdopt ys) (lastopt xs) (set_next (lastopt xs) (hdopt ys) L))
    (if xs = [] then hdopt ys else f) (xs @ ys)"
proof -
  let ?L1 = "set_next (lastopt xs) (hdopt ys) L"
  let ?L2 = "set_prev (hdopt ys) (lastopt xs) ?L1"
  have d: "distinct xs" "distinct ys" "set xs \<inter> set ys = {}"
    using dll_distinct[OF assms] by auto
  obtain m where m: "dseg L None f xs m" using assms by (auto simp: dll_def dseg_append)
  have y: "dseg L (Some a) (hdopt ys) ys None"
    using assms by (cases ys) (auto simp: dll_def dseg_append)
  have 1: "dseg ?L2 None (if xs = [] then hdopt ys else f) xs (hdopt ys)"
  proof (cases xs rule: rev_cases)
    case (snoc zs z)
    then have "dseg ?L1 None f xs (hdopt ys)" using dseg_set_next[of L None f zs z m "hdopt ys"] m d(1) by simp
    then show ?thesis
      using snoc d(3) by (subst dseg_cong[of _ _ ?L1]) (auto intro!: set_prev_hd)
  qed simp
  have "dseg ?L1 (Some a) (hdopt ys) ys None"
    using y d(3) by (subst dseg_cong[of _ _ L]) (auto intro!: set_next_lastopt)
  then have 2: "dseg ?L2 (lastopt xs) (hdopt ys) ys None"
    using dseg_set_prev[of ?L1 "Some a" "hdopt ys" ys None] d(2) by (cases "ys = []") auto
  show ?thesis
    using 1 2 d by (auto simp: dll_def dseg_append lastopt_def)
qed

subsection \<open>Nodes of a component\<close>

text \<open>
  A component's nodes have the two links among their fields. The interface: how the links are read and
  written, and the rest of a node, which writing a link does not change.
\<close>

definition links_by :: "('n \<Rightarrow> nat option) \<Rightarrow> ('n \<Rightarrow> nat option) \<Rightarrow> (nat \<rightharpoonup> 'n) \<Rightarrow> link_view" where
  "links_by prev_of next_of h = (\<lambda>a. map_option (\<lambda>n. (prev_of n, next_of n)) (h a))"

definition body_by :: "('n \<Rightarrow> 'b) \<Rightarrow> (nat \<rightharpoonup> 'n) \<Rightarrow> nat \<rightharpoonup> 'b" where
  "body_by body h = (\<lambda>a. map_option body (h a))"

lemma links_by_Some: "links_by prv nxt h a = Some (p, n) \<longleftrightarrow> (\<exists>x. h a = Some x \<and> prv x = p \<and> nxt x = n)"
  by (auto simp: links_by_def)

lemma links_by_upd: "links_by prv nxt (h(a \<mapsto> x)) = (links_by prv nxt h)(a \<mapsto> (prv x, nxt x))"
  by (auto simp: links_by_def)

lemma links_by_del [simp]: "links_by prv nxt (h(a := None)) = (links_by prv nxt h)(a := None)"
  by (auto simp: links_by_def)

lemma body_by_Some: "body_by body h a = Some b \<longleftrightarrow> (\<exists>x. h a = Some x \<and> b = body x)"
  by (auto simp: body_by_def)

lemma body_by_upd: "body_by body (h(a \<mapsto> x)) = (body_by body h)(a \<mapsto> body x)"
  by (auto simp: body_by_def)

lemma body_by_same: "h a = Some x \<Longrightarrow> body y = body x \<Longrightarrow> body_by body (h(a \<mapsto> y)) = body_by body h"
  by (auto simp: body_by_def fun_eq_iff)

lemma body_by_del [simp]: "body_by body (h(a := None)) = (body_by body h)(a := None)"
  by (auto simp: body_by_def)

locale linked_nodes =
  fixes prev_of :: "'n \<Rightarrow> nat option" and next_of :: "'n \<Rightarrow> nat option"
    and upd_prev :: "nat option \<Rightarrow> 'n \<Rightarrow> 'n" and upd_next :: "nat option \<Rightarrow> 'n \<Rightarrow> 'n"
    and body :: "'n \<Rightarrow> 'b"
  assumes prev_upd: "prev_of (upd_prev v x) = v" "prev_of (upd_next v x) = prev_of x"
    and next_upd: "next_of (upd_next v x) = v" "next_of (upd_prev v x) = next_of x"
    and body_upd: "body (upd_prev v x) = body x" "body (upd_next v x) = body x"
begin

lemma write_prev:
  assumes "\<And>a. c = Some a \<Longrightarrow> h a \<noteq> None"
  shows "\<exists>h'. modify_if c (upd_prev v) h = Inr h' \<and> links_by prev_of next_of h' = set_prev c v (links_by prev_of next_of h)
    \<and> body_by body h' = body_by body h \<and> (\<forall>b. c \<noteq> Some b \<longrightarrow> h' b = h b)"
proof (cases c)
  case (Some a)
  then obtain x where "h a = Some x" using assms by auto
  then show ?thesis using Some
    by (auto simp: links_by_upd set_prev_def links_by_def body_by_same prev_upd next_upd body_upd)
qed (simp add: set_prev_def)

lemma write_next:
  assumes "\<And>a. c = Some a \<Longrightarrow> h a \<noteq> None"
  shows "\<exists>h'. modify_if c (upd_next v) h = Inr h' \<and> links_by prev_of next_of h' = set_next c v (links_by prev_of next_of h)
    \<and> body_by body h' = body_by body h \<and> (\<forall>b. c \<noteq> Some b \<longrightarrow> h' b = h b)"
proof (cases c)
  case (Some a)
  then obtain x where "h a = Some x" using assms by auto
  then show ?thesis using Some
    by (auto simp: links_by_upd set_next_def links_by_def body_by_same prev_upd next_upd body_upd)
qed (simp add: set_next_def)

lemma node_links:
  assumes "dll (links_by prev_of next_of h) f (us @ a # ys)"
  obtains x where "h a = Some x" "prev_of x = lastopt us" "next_of x = hdopt ys"
  using dll_links[OF assms] that by (auto simp: links_by_Some)

lemma node_alive: "dll (links_by prev_of next_of h) f xs \<Longrightarrow> a \<in> set xs \<Longrightarrow> h a \<noteq> None"
  using dll_alive by (fastforce simp: links_by_def)

text \<open>A node pushed to the front of a list.\<close>

lemma push_front:
  assumes "dll (links_by prev_of next_of h) f xs" and "a \<notin> set xs" and "h a = Some x"
  obtains h1 h2 where "modify_if f (upd_prev (Some a)) h = Inr h1"
    and "h1 a = Some x" and "h2 = h1(a \<mapsto> upd_prev None (upd_next f x))"
    and "dll (links_by prev_of next_of h2) (Some a) (a # xs)"
    and "body_by body h2 = body_by body h" and "\<forall>b. b \<notin> set (a # xs) \<longrightarrow> h2 b = h b"
proof -
  have f: "f = hdopt xs" using dll_first[OF assms(1)] .
  have "h b \<noteq> None" if "f = Some b" for b using node_alive[OF assms(1)] that f hdopt_mem by metis
  then obtain h1 where h1: "modify_if f (upd_prev (Some a)) h = Inr h1"
      "links_by prev_of next_of h1 = set_prev f (Some a) (links_by prev_of next_of h)"
      "body_by body h1 = body_by body h" "\<forall>b. f \<noteq> Some b \<longrightarrow> h1 b = h b"
    using write_prev[of f h "Some a"] by blast
  have "f \<noteq> Some a" using f assms(2) hdopt_mem by metis
  then have a: "h1 a = Some x" using h1(4) assms(3) by simp
  let ?h2 = "h1(a \<mapsto> upd_prev None (upd_next f x))"
  have "dll (links_by prev_of next_of ?h2) (Some a) (a # xs)"
    using dll_push[OF assms(1,2)] by (simp add: links_by_upd h1(2) prev_upd next_upd)
  moreover have "body_by body ?h2 = body_by body h"
    using body_by_same[of h1 a x body] a h1(3) by (simp add: body_upd)
  moreover have "\<forall>b. b \<notin> set (a # xs) \<longrightarrow> ?h2 b = h b" using h1(4) f hdopt_mem[of xs] by auto
  ultimately show thesis using that[OF h1(1) a refl] by blast
qed

text \<open>A node taken out of a list.\<close>

lemma unlink_node:
  assumes "dll (links_by prev_of next_of h) f (us @ a # ys)"
  obtains x h1 x1 h2 where "h a = Some x" "prev_of x = lastopt us" "next_of x = hdopt ys"
    and "modify_if (lastopt us) (upd_next (hdopt ys)) h = Inr h1"
    and "h1 a = Some x1" "prev_of x1 = lastopt us" "next_of x1 = hdopt ys"
    and "modify_if (hdopt ys) (upd_prev (lastopt us)) h1 = Inr h2"
    and "dll (links_by prev_of next_of h2) (if us = [] then hdopt ys else f) (us @ ys)"
    and "body_by body h2 = body_by body h" and "\<forall>b. b \<notin> set (us @ ys) \<longrightarrow> h2 b = h b"
proof -
  obtain x where x: "h a = Some x" "prev_of x = lastopt us" "next_of x = hdopt ys" using node_links[OF assms] .
  have a: "a \<notin> set us" "a \<notin> set ys" and d: "set us \<inter> set ys = {}" using dll_distinct[OF assms] by auto
  have l: "lastopt us = Some c \<Longrightarrow> c \<in> set us" for c by (auto simp: lastopt_def split: if_splits)
  have "h c \<noteq> None" if "lastopt us = Some c" for c using node_alive[OF assms, of c] l[OF that] by simp
  then obtain h1 where h1: "modify_if (lastopt us) (upd_next (hdopt ys)) h = Inr h1"
      "links_by prev_of next_of h1 = set_next (lastopt us) (hdopt ys) (links_by prev_of next_of h)"
      "body_by body h1 = body_by body h" "\<forall>b. lastopt us \<noteq> Some b \<longrightarrow> h1 b = h b"
    using write_next[of "lastopt us" h "hdopt ys"] by blast
  have x1: "h1 a = Some x" using x(1) h1(4) a(1) l by metis
  have "h1 c \<noteq> None" if "hdopt ys = Some c" for c
  proof -
    have "c \<in> set ys" "c \<notin> set us" using that hdopt_mem[of ys c] d by auto
    then show ?thesis using node_alive[OF assms, of c] h1(4) l by (metis in_set_conv_decomp Un_iff set_append list.set_intros(2))
  qed
  then obtain h2 where h2: "modify_if (hdopt ys) (upd_prev (lastopt us)) h1 = Inr h2"
      "links_by prev_of next_of h2 = set_prev (hdopt ys) (lastopt us) (links_by prev_of next_of h1)"
      "body_by body h2 = body_by body h1" "\<forall>b. hdopt ys \<noteq> Some b \<longrightarrow> h2 b = h1 b"
    using write_prev[of "hdopt ys" h1 "lastopt us"] by blast
  have "\<forall>b. b \<notin> set (us @ ys) \<longrightarrow> h2 b = h b" using h1(4) h2(4) l hdopt_mem[of ys] by (metis Un_iff set_append)
  moreover have "dll (links_by prev_of next_of h2) (if us = [] then hdopt ys else f) (us @ ys)"
    using dll_unlink[OF assms] by (simp add: h1(2) h2(2))
  ultimately show thesis using that[OF x h1(1) x1 x(2,3) h2(1)] h1(3) h2(3) by simp
qed

end

end
