(* ===== verification/Timer.thy ===== *)
theory Timer
  imports Err DList
begin

section \<open>Timer events\<close>

text \<open>
  \<open>src/timer.c\<close>: the list of timer events, sorted by time and doubly linked through the events, and
  the callback that the sound device calls once per tick. Events live in a store of addresses. A
  handler is client code: a number, and an environment that says what calling it returns and does to
  the client's world; as the header demands, it does not call back into the timer manager. The list
  lock is not part of the state: each operation is one step. The two list walks take fuel.
\<close>

subsection \<open>State\<close>

abbreviation TIMER_STOP :: int where "TIMER_STOP \<equiv> -1"

abbreviation (input) timerType_oneShot :: int where "timerType_oneShot \<equiv> 0"
abbreviation (input) timerType_repetitive :: int where "timerType_repetitive \<equiv> 1"
abbreviation (input) timerType_random :: int where "timerType_random \<equiv> 2"

text \<open>An event without its links, and the event; \<open>timerHandler\<close> is never NULL when it is stored.\<close>

record timer_data =
  te_atTimeMillis :: int
  te_timerHandler :: nat
  te_newThread :: bool
  te_source :: nat
  te_eventType :: int
  te_eventData :: nat
  te_timerType :: int
  te_repetitiveInterval :: int
  te_randomMinInterval :: int
  te_randomMaxInterval :: int

record sTimerEvent = timer_data +
  te_prevTE :: "nat option"
  te_nextTE :: "nat option"

text \<open>
  The static data of the file. \<open>tm_threads\<close> are the events given to threads of their own that have
  not run yet, \<open>tm_randoms\<close> counts the calls of \<open>random()\<close>.
\<close>

record 'w timer_manager =
  tm_events :: "nat \<rightharpoonup> sTimerEvent"
  tm_firstTE :: "nat option"
  tm_timerDevice :: "nat option"
  tm_callbackInterval :: int
  tm_timerTimeMillis :: int
  tm_threads :: "nat list"
  tm_randoms :: nat
  tm_world :: 'w

record timer_call =
  tc_handler :: nat
  tc_theTime :: int
  tc_nextTime :: int
  tc_source :: nat
  tc_eventType :: int
  tc_eventData :: nat

text \<open>What \<open>random()\<close> returns at its \<open>n\<close>th call, what a handler does, whether a thread can be created.\<close>

record 'w timer_env =
  env_random :: "nat \<Rightarrow> int"
  env_call :: "timer_call \<Rightarrow> 'w \<Rightarrow> int \<times> 'w"
  env_spawn :: "nat \<Rightarrow> bool"

subsection \<open>The list\<close>

fun searchEventPos ::
  "nat \<Rightarrow> int \<Rightarrow> nat \<Rightarrow> nat option \<Rightarrow> (nat \<rightharpoonup> sTimerEvent) \<Rightarrow> (nat \<times> nat option) res" where
  "searchEventPos fuel absTimeMillis prev pos h =
     (case pos of
        None \<Rightarrow> Inr (prev, None)
      | Some p \<Rightarrow>
          rbind (cell h p) (\<lambda>e.
          if te_atTimeMillis e < absTimeMillis then
            (case fuel of
               0 \<Rightarrow> Inl OutOfFuel
             | Suc i \<Rightarrow> searchEventPos i absTimeMillis p (te_nextTE e) h)
          else Inr (prev, Some p)))"

declare searchEventPos.simps [simp del]

definition insertAnEvent :: "nat \<Rightarrow> nat \<Rightarrow> 'w timer_manager \<Rightarrow> 'w timer_manager res" where
  "insertAnEvent fuel aEvent s =
     (let h = tm_events s in
      rbind (cell h aEvent) (\<lambda>ev.
      case tm_firstTE s of
        None \<Rightarrow>
          Inr (s\<lparr> tm_firstTE := Some aEvent,
                  tm_events := h(aEvent \<mapsto> ev\<lparr> te_nextTE := None, te_prevTE := None \<rparr>) \<rparr>)
      | Some f \<Rightarrow>
          rbind (cell h f) (\<lambda>first.
          if te_atTimeMillis first \<ge> te_atTimeMillis ev then
            rbind (modify aEvent (\<lambda>e. e\<lparr> te_nextTE := Some f, te_prevTE := None \<rparr>) h) (\<lambda>h1.
            rbind (modify f (\<lambda>e. e\<lparr> te_prevTE := Some aEvent \<rparr>) h1) (\<lambda>h2.
            Inr (s\<lparr> tm_firstTE := Some aEvent, tm_events := h2 \<rparr>)))
          else
            rbind (searchEventPos fuel (te_atTimeMillis ev) f (te_nextTE first) h) (\<lambda>(prev, pos).
            rbind (cell h prev) (\<lambda>pe.
            rbind (modify_if (te_nextTE pe) (\<lambda>e. e\<lparr> te_prevTE := Some aEvent \<rparr>) h) (\<lambda>h1.
            rbind (modify prev (\<lambda>e. e\<lparr> te_nextTE := Some aEvent \<rparr>) h1) (\<lambda>h2.
            rbind (modify aEvent (\<lambda>e. e\<lparr> te_nextTE := pos, te_prevTE := Some prev \<rparr>) h2) (\<lambda>h3.
            Inr (s\<lparr> tm_events := h3 \<rparr>)))))))))"

definition tem_cancel :: "nat \<Rightarrow> 'w timer_manager \<Rightarrow> 'w timer_manager res" where
  "tem_cancel event s =
     (let h = tm_events s in
      rbind (cell h event) (\<lambda>e.
      rbind (case te_prevTE e of
               None \<Rightarrow> Inr (te_nextTE e, h)
             | Some p \<Rightarrow>
                 rbind (modify p (\<lambda>x. x\<lparr> te_nextTE := te_nextTE e \<rparr>) h) (\<lambda>h1.
                 Inr (tm_firstTE s, h1))) (\<lambda>(first, h1).
      rbind (cell h1 event) (\<lambda>e1.
      rbind (modify_if (te_nextTE e1) (\<lambda>x. x\<lparr> te_prevTE := te_prevTE e1 \<rparr>) h1) (\<lambda>h2.
      Inr (s\<lparr> tm_firstTE := first, tm_events := h2(event := None) \<rparr>))))))"

subsection \<open>Adding events\<close>

text \<open>\<open>%\<close> takes the sign of the dividend.\<close>

definition c_rem :: "int \<Rightarrow> int \<Rightarrow> int res" where
  "c_rem a b = (if b = 0 then Inl DivByZero else Inr (sgn a * (\<bar>a\<bar> mod \<bar>b\<bar>)))"

definition calcRandomInterval :: "int \<Rightarrow> int \<Rightarrow> int \<Rightarrow> int res" where
  "calcRandomInterval random lo hi =
     rbind (iadd hi (- lo)) (\<lambda>d.
     rbind (c_rem random d) (\<lambda>r.
     iadd lo r))"

definition tem_addOneShotAbsolute ::
  "nat \<Rightarrow> nat option \<Rightarrow> int \<Rightarrow> nat option \<Rightarrow> nat \<Rightarrow> int \<Rightarrow> nat \<Rightarrow> bool \<Rightarrow> 'w timer_manager
   \<Rightarrow> (nat \<times> 'w timer_manager) res" where
  "tem_addOneShotAbsolute fuel addr absTimeMillis timerHandler source eventType eventData newThread s =
     rbind (case timerHandler of None \<Rightarrow> Inl AssertFailed | Some h \<Rightarrow> Inr h) (\<lambda>handler.
     rbind (deref addr) (\<lambda>aEvent.
     rbind (insertAnEvent fuel aEvent
              (s\<lparr> tm_events := (tm_events s)(aEvent \<mapsto>
                 \<lparr> te_atTimeMillis = absTimeMillis, te_timerHandler = handler, te_newThread = newThread,
                   te_source = source, te_eventType = eventType, te_eventData = eventData,
                   te_timerType = timerType_oneShot, te_repetitiveInterval = 0,
                   te_randomMinInterval = 0, te_randomMaxInterval = 0,
                   te_prevTE = None, te_nextTE = None \<rparr>) \<rparr>)) (\<lambda>s'.
     Inr (aEvent, s'))))"

definition tem_addOneShotRelative ::
  "nat \<Rightarrow> nat option \<Rightarrow> int \<Rightarrow> nat option \<Rightarrow> nat \<Rightarrow> int \<Rightarrow> nat \<Rightarrow> bool \<Rightarrow> 'w timer_manager
   \<Rightarrow> (nat \<times> 'w timer_manager) res" where
  "tem_addOneShotRelative fuel addr relTimeMillis timerHandler source eventType eventData newThread s =
     rbind (iadd (tm_timerTimeMillis s) relTimeMillis) (\<lambda>t.
     tem_addOneShotAbsolute fuel addr t timerHandler source eventType eventData newThread s)"

definition tem_addRepetitive ::
  "nat \<Rightarrow> nat option \<Rightarrow> int \<Rightarrow> nat option \<Rightarrow> nat \<Rightarrow> int \<Rightarrow> nat \<Rightarrow> bool \<Rightarrow> 'w timer_manager
   \<Rightarrow> 'w timer_manager res" where
  "tem_addRepetitive fuel addr intervalMillis timerHandler source eventType eventData newThread s =
     (case timerHandler of
        None \<Rightarrow> Inr s
      | Some handler \<Rightarrow>
          (let interval = (if intervalMillis < tm_callbackInterval s then tm_callbackInterval s
                           else intervalMillis)
           in rbind (deref addr) (\<lambda>aEvent.
              rbind (iadd (tm_timerTimeMillis s) interval) (\<lambda>t.
              insertAnEvent fuel aEvent
                (s\<lparr> tm_events := (tm_events s)(aEvent \<mapsto>
                   \<lparr> te_atTimeMillis = t, te_timerHandler = handler, te_newThread = newThread,
                     te_source = source, te_eventType = eventType, te_eventData = eventData,
                     te_timerType = timerType_repetitive, te_repetitiveInterval = interval,
                     te_randomMinInterval = 0, te_randomMaxInterval = 0,
                     te_prevTE = None, te_nextTE = None \<rparr>) \<rparr>)))))"

definition tem_addRandom ::
  "'w timer_env \<Rightarrow> nat \<Rightarrow> nat option \<Rightarrow> int \<Rightarrow> int \<Rightarrow> nat option \<Rightarrow> nat \<Rightarrow> int \<Rightarrow> nat \<Rightarrow> bool \<Rightarrow> 'w timer_manager
   \<Rightarrow> 'w timer_manager res" where
  "tem_addRandom env fuel addr minIntervalMillis maxIntervalMillis timerHandler source eventType eventData
     newThread s =
     (case timerHandler of
        None \<Rightarrow> Inr s
      | Some handler \<Rightarrow>
          (let lo = (if minIntervalMillis < tm_callbackInterval s then tm_callbackInterval s
                     else minIntervalMillis);
               hi = (if maxIntervalMillis < tm_callbackInterval s then tm_callbackInterval s
                     else maxIntervalMillis)
           in rbind (deref addr) (\<lambda>aEvent.
              rbind (calcRandomInterval (env_random env (tm_randoms s)) lo hi) (\<lambda>d.
              rbind (iadd (tm_timerTimeMillis s) d) (\<lambda>t.
              insertAnEvent fuel aEvent
                (s\<lparr> tm_randoms := Suc (tm_randoms s),
                    tm_events := (tm_events s)(aEvent \<mapsto>
                   \<lparr> te_atTimeMillis = t, te_timerHandler = handler, te_newThread = newThread,
                     te_source = source, te_eventType = eventType, te_eventData = eventData,
                     te_timerType = timerType_random, te_repetitiveInterval = 0,
                     te_randomMinInterval = lo, te_randomMaxInterval = hi,
                     te_prevTE = None, te_nextTE = None \<rparr>) \<rparr>))))))"

subsection \<open>Time\<close>

text \<open>The time that is proposed to the handler, with the number of \<open>random()\<close> calls made for it.\<close>

definition proposedTime :: "'w timer_env \<Rightarrow> nat \<Rightarrow> 'e timer_data_scheme \<Rightarrow> (int \<times> nat) res" where
  "proposedTime env randoms e =
     (if te_timerType e = timerType_oneShot then Inr (TIMER_STOP, randoms)
      else if te_timerType e = timerType_repetitive then
        rbind (iadd (te_atTimeMillis e) (te_repetitiveInterval e)) (\<lambda>t. Inr (t, randoms))
      else if te_timerType e = timerType_random then
        rbind (calcRandomInterval (env_random env randoms) (te_randomMinInterval e) (te_randomMaxInterval e)) (\<lambda>d.
        rbind (iadd (te_atTimeMillis e) d) (\<lambda>t. Inr (t, Suc randoms)))
      else Inl AssertFailed)"

definition handler_call :: "'e timer_data_scheme \<Rightarrow> int \<Rightarrow> timer_call" where
  "handler_call e nextTime =
     \<lparr> tc_handler = te_timerHandler e, tc_theTime = te_atTimeMillis e, tc_nextTime = nextTime,
       tc_source = te_source e, tc_eventType = te_eventType e, tc_eventData = te_eventData e \<rparr>"

definition doOneEvent :: "'w timer_env \<Rightarrow> nat \<Rightarrow> nat \<Rightarrow> 'w timer_manager \<Rightarrow> 'w timer_manager res" where
  "doOneEvent env fuel currEvent s =
     rbind (cell (tm_events s) currEvent) (\<lambda>e.
     rbind (proposedTime env (tm_randoms s) e) (\<lambda>(nextTime, randoms).
     case env_call env (handler_call e nextTime) (tm_world s) of
       (handlerResultTime, world) \<Rightarrow>
         (let s1 = s\<lparr> tm_randoms := randoms, tm_world := world \<rparr>
          in if handlerResultTime \<noteq> TIMER_STOP \<and> handlerResultTime > tm_timerTimeMillis s1
             then insertAnEvent fuel currEvent
                    (s1\<lparr> tm_events := (tm_events s1)(currEvent \<mapsto> e\<lparr> te_atTimeMillis := handlerResultTime \<rparr>) \<rparr>)
             else Inr (s1\<lparr> tm_events := (tm_events s1)(currEvent := None) \<rparr>))))"

text \<open>The thread of an event of its own runs \<open>doOneEvent\<close> some time after it was created.\<close>

definition eventThreadFunc :: "'w timer_env \<Rightarrow> nat \<Rightarrow> nat \<Rightarrow> 'w timer_manager \<Rightarrow> 'w timer_manager res" where
  "eventThreadFunc env fuel event s =
     doOneEvent env fuel event (s\<lparr> tm_threads := remove1 event (tm_threads s) \<rparr>)"

definition take_first :: "nat \<Rightarrow> sTimerEvent \<Rightarrow> 'w timer_manager \<Rightarrow> 'w timer_manager res" where
  "take_first currEvent e s =
     rbind (modify_if (te_nextTE e) (\<lambda>x. x\<lparr> te_prevTE := None \<rparr>) (tm_events s)) (\<lambda>h.
     Inr (s\<lparr> tm_firstTE := te_nextTE e, tm_events := h \<rparr>))"

definition run_event :: "'w timer_env \<Rightarrow> nat \<Rightarrow> nat \<Rightarrow> sTimerEvent \<Rightarrow> 'w timer_manager \<Rightarrow> 'w timer_manager res" where
  "run_event env fuel currEvent e s =
     (if te_newThread e
      then rbind (rassert (env_spawn env currEvent)) (\<lambda>_.
           Inr (s\<lparr> tm_threads := tm_threads s @ [currEvent] \<rparr>))
      else doOneEvent env fuel currEvent s)"

fun timer_loop :: "'w timer_env \<Rightarrow> nat \<Rightarrow> nat \<Rightarrow> 'w timer_manager \<Rightarrow> 'w timer_manager res" where
  "timer_loop env fuel rounds s =
     (case tm_firstTE s of
        None \<Rightarrow> Inr s
      | Some currEvent \<Rightarrow>
          rbind (cell (tm_events s) currEvent) (\<lambda>e.
          if te_atTimeMillis e \<le> tm_timerTimeMillis s then
            (case rounds of
               0 \<Rightarrow> Inl OutOfFuel
             | Suc i \<Rightarrow>
                 rbind (take_first currEvent e s) (\<lambda>s1.
                 rbind (run_event env fuel currEvent e s1) (\<lambda>s2.
                 timer_loop env fuel i s2)))
          else Inr s))"

declare timer_loop.simps [simp del]

definition timerCallbackFunction :: "'w timer_env \<Rightarrow> nat \<Rightarrow> 'w timer_manager \<Rightarrow> 'w timer_manager res" where
  "timerCallbackFunction env fuel s =
     rbind (iadd (tm_timerTimeMillis s) (tm_callbackInterval s)) (\<lambda>t.
     timer_loop env fuel fuel (s\<lparr> tm_timerTimeMillis := t \<rparr>))"

definition tem_getTimeSinceStartMillis :: "'w timer_manager \<Rightarrow> nat" where
  "tem_getTimeSinceStartMillis s = size_of_int (tm_timerTimeMillis s)"

definition tem_getResolutionMillis :: "'w timer_manager \<Rightarrow> int" where
  "tem_getResolutionMillis s = tm_callbackInterval s"

subsection \<open>Starting and stopping\<close>

text \<open>
  The sound device is code of another package: \<open>setTimer\<close> is what registering the callback returns,
  its error and the interval it stores; \<open>unsetTimer\<close> what taking it back returns.
\<close>

definition tem_startup :: "(nat \<Rightarrow> Error \<times> int) \<Rightarrow> nat option \<Rightarrow> 'w timer_manager \<Rightarrow> Error \<times> 'w timer_manager" where
  "tem_startup setTimer timerDev s =
     (let s1 = s\<lparr> tm_firstTE := None \<rparr> in
      case timerDev of
        None \<Rightarrow> (None, s1)
      | Some dev \<Rightarrow>
          (case setTimer dev of (error, interval) \<Rightarrow>
             (let s2 = s1\<lparr> tm_callbackInterval := interval \<rparr>
              in (error, if error = None then s2\<lparr> tm_timerDevice := timerDev \<rparr> else s2))))"

fun free_events :: "nat \<Rightarrow> nat option \<Rightarrow> (nat \<rightharpoonup> sTimerEvent) \<Rightarrow> (nat \<rightharpoonup> sTimerEvent) res" where
  "free_events fuel aTE h =
     (case aTE of
        None \<Rightarrow> Inr h
      | Some a \<Rightarrow>
          (case fuel of
             0 \<Rightarrow> Inl OutOfFuel
           | Suc i \<Rightarrow> rbind (cell h a) (\<lambda>e. free_events i (te_nextTE e) (h(a := None)))))"

declare free_events.simps [simp del]

text \<open>\<open>firstTE\<close> keeps the address of the first event that was freed.\<close>

definition tem_shutdown :: "(nat option \<Rightarrow> Error) \<Rightarrow> nat \<Rightarrow> 'w timer_manager \<Rightarrow> 'w timer_manager res" where
  "tem_shutdown unsetTimer fuel s =
     rbind (rassert (unsetTimer (tm_timerDevice s) = None)) (\<lambda>_.
     rbind (free_events fuel (tm_firstTE s) (tm_events s)) (\<lambda>h.
     Inr (s\<lparr> tm_timerDevice := None, tm_events := h \<rparr>)))"

subsection \<open>Sleeping\<close>

text \<open>
  \<open>tem_sleep\<close> blocks on a semaphore of its own, so it is two steps: up to \<open>sem_wait\<close>, and from there.
  The world is the semaphores; \<open>WAKE\<close> is the address of \<open>sleep_wakeHandler\<close>.
\<close>

abbreviation WAKE :: nat where "WAKE \<equiv> 0"

type_synonym semaphores = "nat \<rightharpoonup> nat"

definition sleep_wakeHandler :: "timer_call \<Rightarrow> semaphores \<Rightarrow> int \<times> semaphores" where
  "sleep_wakeHandler c w = (tc_nextTime c, w(tc_source c := map_option Suc (w (tc_source c))))"

definition tem_sleep_begin ::
  "nat \<Rightarrow> nat option \<Rightarrow> nat \<Rightarrow> int \<Rightarrow> semaphores timer_manager \<Rightarrow> semaphores timer_manager res" where
  "tem_sleep_begin fuel addr semaphore ms s =
     rbind (tem_addOneShotRelative fuel addr ms (Some WAKE) semaphore 0 0 False
              (s\<lparr> tm_world := (tm_world s)(semaphore \<mapsto> 0) \<rparr>)) (\<lambda>(_, s').
     Inr s')"

definition tem_sleep_end :: "nat \<Rightarrow> semaphores timer_manager \<Rightarrow> semaphores timer_manager res" where
  "tem_sleep_end semaphore s =
     rbind (cell (tm_world s) semaphore) (\<lambda>n.
     if n = 0 then Inl Blocked else Inr (s\<lparr> tm_world := (tm_world s)(semaphore := None) \<rparr>))"

subsection \<open>The agenda\<close>

text \<open>
  What the timer manager is about: the scheduled events with their addresses in the order of their
  times, the events waiting in threads, the time. A new event goes before those with the same time.
\<close>

type_synonym appointment = "nat \<times> timer_data"

record 'w agenda =
  ag_events :: "appointment list"
  ag_threads :: "appointment list"
  ag_interval :: int
  ag_now :: int
  ag_randoms :: nat
  ag_world :: 'w

definition at_time :: "appointment \<Rightarrow> int" where
  "at_time x = te_atTimeMillis (snd x)"

definition agenda_insert :: "appointment \<Rightarrow> 'w agenda \<Rightarrow> 'w agenda" where
  "agenda_insert x g = g\<lparr> ag_events := insort_key at_time x (ag_events g) \<rparr>"

definition agenda_cancel :: "nat \<Rightarrow> 'w agenda \<Rightarrow> 'w agenda" where
  "agenda_cancel a g = g\<lparr> ag_events := filter (\<lambda>x. fst x \<noteq> a) (ag_events g) \<rparr>"

text \<open>Handling one event that was taken off the agenda.\<close>

definition agenda_handle :: "'w timer_env \<Rightarrow> appointment \<Rightarrow> 'w agenda \<Rightarrow> 'w agenda res" where
  "agenda_handle env x g =
     rbind (proposedTime env (ag_randoms g) (snd x)) (\<lambda>(nextTime, randoms).
     case env_call env (handler_call (snd x) nextTime) (ag_world g) of
       (t, world) \<Rightarrow>
         (let g1 = g\<lparr> ag_randoms := randoms, ag_world := world \<rparr>
          in Inr (if t \<noteq> TIMER_STOP \<and> t > ag_now g
                  then agenda_insert (fst x, (snd x)\<lparr> te_atTimeMillis := t \<rparr>) g1 else g1)))"

definition agenda_event :: "'w timer_env \<Rightarrow> appointment \<Rightarrow> 'w agenda \<Rightarrow> 'w agenda res" where
  "agenda_event env x g =
     (if te_newThread (snd x)
      then rbind (rassert (env_spawn env (fst x))) (\<lambda>_. Inr (g\<lparr> ag_threads := ag_threads g @ [x] \<rparr>))
      else agenda_handle env x g)"

definition due :: "int \<Rightarrow> appointment list \<Rightarrow> appointment list" where
  "due now xs = takeWhile (\<lambda>x. at_time x \<le> now) xs"

definition later :: "int \<Rightarrow> appointment list \<Rightarrow> appointment list" where
  "later now xs = dropWhile (\<lambda>x. at_time x \<le> now) xs"

text \<open>
  A tick: the events that are due are fixed once the time has advanced, taken off the agenda, and
  handled one after the other.
\<close>

definition agenda_tick :: "'w timer_env \<Rightarrow> 'w agenda \<Rightarrow> 'w agenda res" where
  "agenda_tick env g =
     rbind (iadd (ag_now g) (ag_interval g)) (\<lambda>t.
     rfold (agenda_event env) (due t (ag_events g))
       (g\<lparr> ag_now := t, ag_events := later t (ag_events g) \<rparr>))"

definition agenda_thread :: "'w timer_env \<Rightarrow> appointment \<Rightarrow> 'w agenda \<Rightarrow> 'w agenda res" where
  "agenda_thread env x g = agenda_handle env x (g\<lparr> ag_threads := remove1 x (ag_threads g) \<rparr>)"

subsection \<open>The list represents the agenda\<close>

definition links_of :: "(nat \<rightharpoonup> sTimerEvent) \<Rightarrow> link_view" where
  "links_of = links_by te_prevTE te_nextTE"

definition data_of :: "(nat \<rightharpoonup> sTimerEvent) \<Rightarrow> nat \<rightharpoonup> timer_data" where
  "data_of = body_by timer_data.truncate"

definition timer_rep :: "'w timer_manager \<Rightarrow> 'w agenda \<Rightarrow> bool" where
  "timer_rep s g \<longleftrightarrow>
     dll (links_of (tm_events s)) (tm_firstTE s) (map fst (ag_events g))
     \<and> (\<forall>x \<in> set (ag_events g @ ag_threads g). data_of (tm_events s) (fst x) = Some (snd x))
     \<and> distinct (map fst (ag_events g @ ag_threads g))
     \<and> sorted (map at_time (ag_events g))
     \<and> tm_threads s = map fst (ag_threads g)
     \<and> tm_callbackInterval s = ag_interval g \<and> tm_timerTimeMillis s = ag_now g
     \<and> tm_randoms s = ag_randoms g \<and> tm_world s = ag_world g"

lemma links_of_upd: "links_of (h(a \<mapsto> e)) = (links_of h)(a \<mapsto> (te_prevTE e, te_nextTE e))"
  by (auto simp: links_of_def links_by_def)

lemma data_of_upd [simp]: "data_of (h(a \<mapsto> e)) = (data_of h)(a \<mapsto> timer_data.truncate e)"
  by (auto simp: data_of_def body_by_def)

lemma data_of_same: "h a = Some e \<Longrightarrow> timer_data.truncate e' = timer_data.truncate e \<Longrightarrow> data_of (h(a \<mapsto> e')) = data_of h"
  by (auto simp: data_of_def body_by_def fun_eq_iff)

lemma data_of_del [simp]: "data_of (h(a := None)) = (data_of h)(a := None)"
  by (auto simp: data_of_def body_by_def)

lemma links_of_del [simp]: "links_of (h(a := None)) = (links_of h)(a := None)"
  by (auto simp: links_of_def links_by_def)

lemma truncate_links [simp]:
  "timer_data.truncate (e\<lparr> te_prevTE := v \<rparr>) = timer_data.truncate e"
  "timer_data.truncate (e\<lparr> te_nextTE := v \<rparr>) = timer_data.truncate e"
  "timer_data.truncate (e\<lparr> te_atTimeMillis := t \<rparr>) = (timer_data.truncate e)\<lparr> te_atTimeMillis := t \<rparr>"
  by (simp_all add: timer_data.defs)

lemma truncate_fields [simp]:
  "te_atTimeMillis (timer_data.truncate e) = te_atTimeMillis e"
  "te_newThread (timer_data.truncate e) = te_newThread e"
  "proposedTime env k (timer_data.truncate e) = proposedTime env k e"
  "handler_call (timer_data.truncate e) t = handler_call e t"
  by (simp_all add: timer_data.defs proposedTime_def handler_call_def)

lemma data_of_Some: "data_of h a = Some d \<Longrightarrow> \<exists>e. h a = Some e \<and> d = timer_data.truncate e"
  by (auto simp: data_of_def body_by_def)

lemma links_of_Some: "links_of h a = Some (p, n) \<Longrightarrow> \<exists>e. h a = Some e \<and> te_prevTE e = p \<and> te_nextTE e = n"
  by (auto simp: links_of_def links_by_def)

text \<open>The events are nodes of a linked list.\<close>

interpretation timer_nodes: linked_nodes "te_prevTE :: sTimerEvent \<Rightarrow> nat option" te_nextTE "\<lambda>v e. e\<lparr> te_prevTE := v \<rparr>" "\<lambda>v e. e\<lparr> te_nextTE := v \<rparr>"
  timer_data.truncate
  by unfold_locales simp_all

lemmas modify_prev = timer_nodes.write_prev[folded links_of_def data_of_def]
lemmas modify_next = timer_nodes.write_next[folded links_of_def data_of_def]
lemmas unlink_event = timer_nodes.unlink_node[folded links_of_def data_of_def]

subsection \<open>Inserting and cancelling\<close>

lemma insort_key_split:
  "insort_key k a xs = takeWhile (\<lambda>b. k b < k a) xs @ a # dropWhile (\<lambda>b. k b < (k a :: int)) xs"
  by (induction xs) auto

definition time_at :: "(nat \<rightharpoonup> sTimerEvent) \<Rightarrow> nat \<Rightarrow> int" where
  "time_at h a = te_atTimeMillis (the (h a))"

lemma search_pos:
  assumes "dll (links_of h) f (us @ b # ys)" and "length ys \<le> fuel"
  shows "searchEventPos fuel t b (hdopt ys) h =
    Inr (last (b # takeWhile (\<lambda>a. time_at h a < t) ys), hdopt (dropWhile (\<lambda>a. time_at h a < t) ys))"
  using assms
proof (induction ys arbitrary: us b fuel)
  case Nil
  then show ?case by (simp add: searchEventPos.simps)
next
  case (Cons c ys)
  then have "links_of h c = Some (lastopt (us @ [b]), hdopt ys)" using dll_links[of _ f "us @ [b]" c ys] by simp
  then obtain e where "h c = Some e" "te_nextTE e = hdopt ys" using links_of_Some by blast
  moreover obtain i where "fuel = Suc i" "length ys \<le> i" using Cons.prems(2) by (cases fuel) auto
  ultimately show ?case using Cons.IH[of "us @ [b]" c i] Cons.prems(1)
    by (simp add: searchEventPos.simps[of _ _ _ "Some c"] time_at_def)
qed

lemma insert_after:
  assumes "dll (links_of h) f (us @ b # ys)" and "a \<notin> set (us @ b # ys)" and "h a = Some ev"
  obtains pe h1 h2 h3 where "h b = Some pe" and "te_nextTE pe = hdopt ys"
    and "modify_if (te_nextTE pe) (\<lambda>e. e\<lparr> te_prevTE := Some a \<rparr>) h = Inr h1"
    and "modify b (\<lambda>e. e\<lparr> te_nextTE := Some a \<rparr>) h1 = Inr h2"
    and "modify a (\<lambda>e. e\<lparr> te_nextTE := hdopt ys, te_prevTE := Some b \<rparr>) h2 = Inr h3"
    and "dll (links_of h3) f (us @ b # a # ys)" and "data_of h3 = data_of h"
proof -
  obtain pe where pe: "h b = Some pe" "te_nextTE pe = hdopt ys"
    using dll_links[OF assms(1)] links_of_Some by blast
  have "h c \<noteq> None" if "hdopt ys = Some c" for c
    using timer_nodes.node_alive[folded links_of_def, OF assms(1), of c] that hdopt_mem[of ys c] by simp
  then obtain h1 where h1: "modify_if (hdopt ys) (\<lambda>e. e\<lparr> te_prevTE := Some a \<rparr>) h = Inr h1"
      "links_of h1 = set_prev (hdopt ys) (Some a) (links_of h)" "data_of h1 = data_of h"
    using modify_prev[of "hdopt ys" h "Some a"] by blast
  have "b \<notin> set ys" using dll_distinct[OF assms(1)] by simp
  then have "links_of h1 b \<noteq> None" using h1(2) dll_links[OF assms(1)] by (simp add: set_prev_hd)
  then have "h1 b \<noteq> None" by (simp add: links_of_def links_by_def)
  then obtain h2 where h2: "modify b (\<lambda>e. e\<lparr> te_nextTE := Some a \<rparr>) h1 = Inr h2"
      "links_of h2 = set_next (Some b) (Some a) (links_of h1)" "data_of h2 = data_of h1"
    using modify_next[of "Some b" h1 "Some a"] by auto
  obtain e2 where e2: "h2 a = Some e2"
    using h1(3) h2(3) assms(3) data_of_Some[of h2 a] by (force simp: data_of_def body_by_def)
  let ?h3 = "h2(a \<mapsto> e2\<lparr> te_nextTE := hdopt ys, te_prevTE := Some b \<rparr>)"
  have "dll (links_of ?h3) f (us @ b # a # ys)"
    using dll_insert[OF assms(1,2)] by (simp add: links_of_upd h1(2) h2(2))
  moreover have "data_of ?h3 = data_of h"
    using data_of_same[of h2 a e2] e2 h1(3) h2(3) by simp
  ultimately show thesis using that[of pe h1 h2 ?h3] pe h1(1) h2(1) e2 by simp
qed

lemma insert_heap:
  assumes "dll (links_of (tm_events s)) (tm_firstTE s) xs" and "a \<notin> set xs" and "tm_events s a = Some ev"
    and "length xs \<le> fuel"
  shows "\<exists>h f. insertAnEvent fuel a s = Inr (s\<lparr> tm_firstTE := f, tm_events := h \<rparr>)
    \<and> dll (links_of h) f (insort_key (time_at (tm_events s)) a xs) \<and> data_of h = data_of (tm_events s)"
proof (cases xs)
  case Nil
  then have "tm_firstTE s = None" using assms(1) by simp
  then show ?thesis using Nil assms(3)
    by (auto simp: insertAnEvent_def links_of_upd dll_def data_of_def body_by_def fun_eq_iff)
next
  case (Cons f ys)
  let ?h = "tm_events s"
  have f: "tm_firstTE s = Some f" using dll_first[OF assms(1)] Cons by simp
  obtain fe where fe: "?h f = Some fe" "te_nextTE fe = hdopt ys"
    using dll_links[of "links_of ?h" "tm_firstTE s" "[]" f ys] assms(1) Cons
      links_of_Some[of ?h f None "hdopt ys"] by auto
  have af: "a \<noteq> f" using assms(2) Cons by simp
  show ?thesis
  proof (cases "te_atTimeMillis fe \<ge> te_atTimeMillis ev")
    case True
    let ?h1 = "?h(a \<mapsto> ev\<lparr> te_nextTE := Some f, te_prevTE := None \<rparr>)"
    let ?h2 = "?h1(f \<mapsto> fe\<lparr> te_prevTE := Some a \<rparr>)"
    have "links_of ?h2 = (set_prev (Some f) (Some a) (links_of ?h))(a \<mapsto> (None, Some f))"
      using fe af by (auto simp: links_of_def links_by_def set_prev_def fun_eq_iff)
    then have "dll (links_of ?h2) (Some a) (a # xs)"
      using dll_push[of "links_of ?h" "Some f" xs a] assms(1,2) f by simp
    moreover have "insertAnEvent fuel a s = Inr (s\<lparr> tm_firstTE := Some a, tm_events := ?h2 \<rparr>)"
      using True fe af assms(3) f by (simp add: insertAnEvent_def)
    moreover have "data_of ?h2 = data_of ?h"
      using fe assms(3) by (auto simp: data_of_def body_by_def fun_eq_iff)
    ultimately show ?thesis using True Cons fe assms(3)
      by (intro exI[of _ ?h2] exI[of _ "Some a"]) (simp add: time_at_def)
  next
    case False
    let ?P = "\<lambda>b. time_at ?h b < te_atTimeMillis ev"
    let ?pre = "f # takeWhile ?P ys" and ?post = "dropWhile ?P ys"
    obtain us b where pre: "?pre = us @ [b]" by (metis append_butlast_last_id list.distinct(1))
    have xs: "xs = us @ b # ?post"
      using Cons pre by (metis append.assoc append_Cons append_Nil takeWhile_dropWhile_id)
    have "searchEventPos fuel (te_atTimeMillis ev) f (te_nextTE fe) ?h = Inr (b, hdopt ?post)"
      using search_pos[of ?h "tm_firstTE s" "[]" f ys fuel "te_atTimeMillis ev"] assms(1,4) fe(2) Cons pre by simp
    moreover have d: "dll (links_of ?h) (tm_firstTE s) (us @ b # ?post)" and n: "a \<notin> set (us @ b # ?post)"
      using assms(1,2) by (simp_all only: xs[symmetric] simp_thms)
    obtain pe h1 h2 h3 where "?h b = Some pe" "te_nextTE pe = hdopt ?post"
      "modify_if (te_nextTE pe) (\<lambda>e. e\<lparr> te_prevTE := Some a \<rparr>) ?h = Inr h1"
      "modify b (\<lambda>e. e\<lparr> te_nextTE := Some a \<rparr>) h1 = Inr h2"
      "modify a (\<lambda>e. e\<lparr> te_nextTE := hdopt ?post, te_prevTE := Some b \<rparr>) h2 = Inr h3"
      "dll (links_of h3) (tm_firstTE s) (us @ b # a # ?post)" "data_of h3 = data_of ?h"
      by (rule insert_after[OF d n assms(3)])
    moreover have "us @ b # a # ?post = insort_key (time_at ?h) a xs"
    proof -
      have "insort_key (time_at ?h) a xs = ?pre @ a # ?post"
        using False Cons fe assms(3) by (simp add: insort_key_split time_at_def)
      then show ?thesis using pre by simp
    qed
    ultimately show ?thesis using False f fe assms(3)
      by (intro exI[of _ h3] exI[of _ "tm_firstTE s"]) (simp add: insertAnEvent_def)
  qed
qed

lemma cancel_heap:
  assumes "dll (links_of (tm_events s)) (tm_firstTE s) (us @ a # ys)"
  shows "\<exists>h f. tem_cancel a s = Inr (s\<lparr> tm_firstTE := f, tm_events := h(a := None) \<rparr>)
    \<and> dll (links_of h) f (us @ ys) \<and> data_of h = data_of (tm_events s)"
  using assms
proof (rule unlink_event)
  let ?f = "if us = [] then hdopt ys else tm_firstTE s"
  fix e h1 e1 h2
  assume u: "tm_events s a = Some e" "te_prevTE e = lastopt us" "te_nextTE e = hdopt ys"
    "modify_if (lastopt us) (\<lambda>e. e\<lparr> te_nextTE := hdopt ys \<rparr>) (tm_events s) = Inr h1"
    "h1 a = Some e1" "te_prevTE e1 = lastopt us" "te_nextTE e1 = hdopt ys"
    "modify_if (hdopt ys) (\<lambda>e. e\<lparr> te_prevTE := lastopt us \<rparr>) h1 = Inr h2"
    "dll (links_of h2) ?f (us @ ys)" "data_of h2 = data_of (tm_events s)"
  have "tem_cancel a s = Inr (s\<lparr> tm_firstTE := ?f, tm_events := h2(a := None) \<rparr>)"
    using u by (cases us rule: rev_cases) (simp_all add: tem_cancel_def)
  then show ?thesis using u(9,10) by (intro exI[of _ h2] exI[of _ ?f]) simp
qed

lemma take_first_heap:
  assumes "dll (links_of (tm_events s)) (tm_firstTE s) (a # ys)"
  shows "\<exists>h e. tm_events s a = Some e
    \<and> take_first a e s = Inr (s\<lparr> tm_firstTE := hdopt ys, tm_events := h \<rparr>)
    \<and> dll (links_of h) (hdopt ys) ys \<and> data_of h = data_of (tm_events s)"
proof -
  have "dll (links_of (tm_events s)) (tm_firstTE s) ([] @ a # ys)" using assms by simp
  then show ?thesis
    by (rule unlink_event) (auto simp: take_first_def intro!: exI)
qed

lemma time_at_data: "data_of h a = Some d \<Longrightarrow> time_at h a = at_time (a, d)"
  by (auto simp: time_at_def at_time_def dest: data_of_Some)

lemma insort_addresses:
  assumes "\<forall>x \<in> set (y # es). data_of h (fst x) = Some (snd x)"
  shows "map fst (insort_key at_time y es) = insort_key (time_at h) (fst y) (map fst es)"
  using assms by (induction es) (auto simp: time_at_data[of h])

subsection \<open>Each operation on the agenda\<close>

lemma insert_refines:
  assumes "timer_rep s g" and "data_of (tm_events s) a = Some d"
    and "a \<notin> fst ` set (ag_events g @ ag_threads g)" and "length (ag_events g) \<le> fuel"
  shows "\<exists>s'. insertAnEvent fuel a s = Inr s' \<and> timer_rep s' (agenda_insert (a, d) g)"
proof -
  obtain ev where ev: "tm_events s a = Some ev" using assms(2) data_of_Some by blast
  obtain h f where r: "insertAnEvent fuel a s = Inr (s\<lparr> tm_firstTE := f, tm_events := h \<rparr>)"
      "dll (links_of h) f (insort_key (time_at (tm_events s)) a (map fst (ag_events g)))"
      "data_of h = data_of (tm_events s)"
    using insert_heap[of s "map fst (ag_events g)" a ev fuel] assms ev by (auto simp: timer_rep_def image_Un)
  have m: "map fst (insort_key at_time (a, d) (ag_events g)) = insort_key (time_at (tm_events s)) a (map fst (ag_events g))"
    using insort_addresses[of "(a, d)" "ag_events g" "tm_events s"] assms(1,2) by (auto simp: timer_rep_def)
  have "distinct (map fst (insort_key at_time (a, d) (ag_events g)))"
    unfolding m using assms(1,3) by (simp add: distinct_insort timer_rep_def image_Un)
  then have "timer_rep (s\<lparr> tm_firstTE := f, tm_events := h \<rparr>) (agenda_insert (a, d) g)"
    using assms r(2,3) unfolding m[symmetric]
    by (auto simp: timer_rep_def agenda_insert_def set_insort_key sorted_insort_key)
  then show ?thesis using r(1) by blast
qed

lemma filter_not_fst: "a \<notin> fst ` set xs \<Longrightarrow> filter (\<lambda>x. fst x \<noteq> a) xs = xs"
  by (rule filter_True) force

lemma cancel_refines:
  assumes "timer_rep s g" and "(a, d) \<in> set (ag_events g)"
  shows "\<exists>s'. tem_cancel a s = Inr s' \<and> timer_rep s' (agenda_cancel a g) \<and> tm_events s' a = None"
proof -
  obtain us ys where es: "ag_events g = us @ (a, d) # ys" using assms(2) split_list by metis
  obtain h f where r: "tem_cancel a s = Inr (s\<lparr> tm_firstTE := f, tm_events := h(a := None) \<rparr>)"
      "dll (links_of h) f (map fst us @ map fst ys)" "data_of h = data_of (tm_events s)"
    using cancel_heap[of s "map fst us" a "map fst ys"] assms(1) es by (auto simp: timer_rep_def)
  have n: "a \<notin> fst ` set us" "a \<notin> fst ` set ys" "a \<notin> fst ` set (ag_threads g)"
    using assms(1) es by (auto simp: timer_rep_def)
  then have "agenda_cancel a g = g\<lparr> ag_events := us @ ys \<rparr>"
    using es by (simp add: agenda_cancel_def filter_not_fst)
  then show ?thesis
    using r assms(1) es n
    by (intro exI[of _ "s\<lparr> tm_firstTE := f, tm_events := h(a := None) \<rparr>"])
       (auto simp: timer_rep_def dll_frame sorted_append)
qed

lemma handle_refines:
  assumes "timer_rep s g" and "data_of (tm_events s) a = Some d"
    and "a \<notin> fst ` set (ag_events g @ ag_threads g)" and "length (ag_events g) \<le> fuel"
  shows "rel_sum (=) timer_rep (doOneEvent env fuel a s) (agenda_handle env (a, d) g)"
proof -
  obtain e where e: "tm_events s a = Some e" "d = timer_data.truncate e" using data_of_Some[OF assms(2)] by blast
  show ?thesis
  proof (cases "proposedTime env (ag_randoms g) e")
    case (Inl x)
    then show ?thesis using e assms(1) by (simp add: doOneEvent_def agenda_handle_def timer_rep_def)
  next
    case (Inr x)
    obtain t k where x: "x = (t, k)" by (cases x)
    obtain r w where call: "env_call env (handler_call e t) (ag_world g) = (r, w)"
      by (cases "env_call env (handler_call e t) (ag_world g)")
    let ?s1 = "s\<lparr> tm_randoms := k, tm_world := w \<rparr>" and ?g1 = "g\<lparr> ag_randoms := k, ag_world := w \<rparr>"
    have now: "tm_timerTimeMillis s = ag_now g" "tm_randoms s = ag_randoms g" "tm_world s = ag_world g"
      using assms(1) by (simp_all add: timer_rep_def)
    have rep: "timer_rep (?s1\<lparr> tm_events := (tm_events s)(a := v) \<rparr>) ?g1"
      if "v = None \<or> (\<exists>u. v = Some (e\<lparr> te_atTimeMillis := u \<rparr>))" for v
    proof -
      have "dll (links_of ((tm_events s)(a := v))) (tm_firstTE s) (map fst (ag_events g))"
        using that assms(1,3) by (auto simp: timer_rep_def dll_frame links_of_upd image_Un)
      moreover have "data_of ((tm_events s)(a := v)) (fst y) = Some (snd y)"
        if "y \<in> set (ag_events g @ ag_threads g)" for y
      proof -
        have "fst y \<noteq> a" using that assms(3) by (metis image_eqI)
        then show ?thesis using that assms(1) by (simp add: timer_rep_def data_of_def body_by_def)
      qed
      ultimately show ?thesis using assms(1) by (simp add: timer_rep_def)
    qed
    show ?thesis
    proof (cases "r \<noteq> TIMER_STOP \<and> r > ag_now g")
      case True
      let ?s2 = "?s1\<lparr> tm_events := (tm_events s)(a \<mapsto> e\<lparr> te_atTimeMillis := r \<rparr>) \<rparr>"
      have "\<exists>s'. insertAnEvent fuel a ?s2 = Inr s'
          \<and> timer_rep s' (agenda_insert (a, d\<lparr> te_atTimeMillis := r \<rparr>) ?g1)"
        using assms(3,4) e(2) by (intro insert_refines rep) auto
      then show ?thesis using True e Inr x call now
        by (auto simp: doOneEvent_def agenda_handle_def Let_def)
    next
      case False
      then show ?thesis using e Inr x call now rep[of None]
        by (auto simp: doOneEvent_def agenda_handle_def Let_def)
    qed
  qed
qed

lemma event_refines:
  assumes "timer_rep s g" and "tm_events s a = Some e" and "d = timer_data.truncate e"
    and "a \<notin> fst ` set (ag_events g @ ag_threads g)" and "length (ag_events g) \<le> fuel"
  shows "rel_sum (=) timer_rep (run_event env fuel a e s) (agenda_event env (a, d) g)"
proof -
  have d: "data_of (tm_events s) a = Some d" using assms(2,3) by (simp add: data_of_def body_by_def)
  then have "timer_rep (s\<lparr> tm_threads := tm_threads s @ [a] \<rparr>) (g\<lparr> ag_threads := ag_threads g @ [(a, d)] \<rparr>)"
    using assms(1,4) by (auto simp: timer_rep_def)
  then show ?thesis using handle_refines[OF assms(1) d assms(4,5)] assms(3)
    by (cases "env_spawn env a") (auto simp: run_event_def agenda_event_def)
qed

text \<open>Handling an event does not touch the events that come before its new time.\<close>

definition prefixed :: "appointment list \<Rightarrow> 'w agenda \<Rightarrow> 'w agenda" where
  "prefixed du g = g\<lparr> ag_events := du @ ag_events g \<rparr>"

lemma insort_key_append:
  "\<forall>y \<in> set du. k y < (k x :: int) \<Longrightarrow> insort_key k x (du @ es) = du @ insort_key k x es"
  by (induction du) auto

lemma agenda_event_prefixed:
  assumes "\<forall>y \<in> set du. at_time y \<le> ag_now g"
  shows "agenda_event env x (prefixed du g) = rbind (agenda_event env x g) (\<lambda>g'. Inr (prefixed du g'))"
proof -
  have "insort_key at_time (a, (snd x)\<lparr> te_atTimeMillis := t \<rparr>) (du @ es)
      = du @ insort_key at_time (a, (snd x)\<lparr> te_atTimeMillis := t \<rparr>) es" if "t > ag_now g" for a t es
    using assms that by (intro insort_key_append) (auto simp: at_time_def)
  then show ?thesis
    by (auto simp: agenda_event_def agenda_handle_def agenda_insert_def prefixed_def rbind_def Let_def
      split: sum.splits prod.splits)
qed

lemma agenda_handle_Inr_iff:
  "agenda_handle env x g = Inr g' \<longleftrightarrow>
     (\<exists>t k r w. proposedTime env (ag_randoms g) (snd x) = Inr (t, k)
        \<and> env_call env (handler_call (snd x) t) (ag_world g) = (r, w)
        \<and> g' = (if r \<noteq> TIMER_STOP \<and> r > ag_now g
                then agenda_insert (fst x, (snd x)\<lparr> te_atTimeMillis := r \<rparr>) (g\<lparr> ag_randoms := k, ag_world := w \<rparr>)
                else g\<lparr> ag_randoms := k, ag_world := w \<rparr>))"
  by (auto simp: agenda_handle_def rbind_def Let_def split: sum.splits prod.splits)

lemma agenda_event_later:
  assumes "agenda_event env x g = Inr g'" and "\<forall>y \<in> set (ag_events g). at_time y > ag_now g"
  shows "ag_now g' = ag_now g" and "\<forall>y \<in> set (ag_events g'). at_time y > ag_now g"
    and "length (ag_events g') \<le> Suc (length (ag_events g))"
  using assms
  by (auto simp: agenda_event_def agenda_handle_Inr_iff agenda_insert_def res_iff set_insort_key at_time_def
    split: if_splits)

lemma rel_sum_cases:
  assumes "rel_sum (=) R x y"
  obtains (fault) e where "x = Inl e" "y = Inl e" | (val) a b where "x = Inr a" "y = Inr b" "R a b"
  using assms by (cases x; cases y) auto

lemma loop_refines:
  assumes "timer_rep s (prefixed du g)" and "\<forall>y \<in> set du. at_time y \<le> ag_now g"
    and "\<forall>y \<in> set (ag_events g). at_time y > ag_now g"
    and "length du \<le> rounds" and "length du + length (ag_events g) \<le> fuel"
  shows "rel_sum (=) timer_rep (timer_loop env fuel rounds s) (rfold (agenda_event env) du g)"
  using assms
proof (induction du arbitrary: s g rounds)
  case Nil
  show ?case
  proof (cases "ag_events g")
    case Nil
    then show ?thesis using Nil.prems(1) by (simp add: timer_loop.simps prefixed_def timer_rep_def)
  next
    case (Cons x xs)
    then have "tm_firstTE s = Some (fst x)" using Nil.prems(1) dll_first by (fastforce simp: prefixed_def timer_rep_def)
    moreover obtain e where "tm_events s (fst x) = Some e" "snd x = timer_data.truncate e"
      using Nil.prems(1) Cons data_of_Some[of "tm_events s" "fst x" "snd x"] by (auto simp: prefixed_def timer_rep_def)
    ultimately show ?thesis using Nil.prems(1,3) Cons
      by (simp add: timer_loop.simps[of _ _ _ s] prefixed_def at_time_def timer_rep_def)
  qed
next
  case (Cons x du)
  obtain a d where x: "x = (a, d)" by (cases x)
  let ?g = "prefixed du g"
  have rep: "timer_rep s (g\<lparr> ag_events := x # du @ ag_events g \<rparr>)"
    using Cons.prems(1) by (simp add: prefixed_def)
  then have dl: "dll (links_of (tm_events s)) (tm_firstTE s) (a # map fst (du @ ag_events g))"
    using x by (simp add: timer_rep_def)
  then obtain h e where h: "tm_events s a = Some e"
      "take_first a e s = Inr (s\<lparr> tm_firstTE := hdopt (map fst (du @ ag_events g)), tm_events := h \<rparr>)"
      "dll (links_of h) (hdopt (map fst (du @ ag_events g))) (map fst (du @ ag_events g))"
      "data_of h = data_of (tm_events s)"
    using take_first_heap by blast
  have e: "d = timer_data.truncate e" "te_atTimeMillis e \<le> tm_timerTimeMillis s" "tm_firstTE s = Some a"
    using rep x h(1) Cons.prems(2) dll_first[OF dl] by (auto simp: timer_rep_def data_of_def body_by_def at_time_def)
  let ?s1 = "s\<lparr> tm_firstTE := hdopt (map fst (du @ ag_events g)), tm_events := h \<rparr>"
  have rep1: "timer_rep ?s1 ?g" using rep h(3,4) by (auto simp: timer_rep_def prefixed_def)
  have "data_of h a = Some d" using h(1,4) e(1) by (simp add: data_of_def body_by_def)
  then obtain e1 where e1: "h a = Some e1" "d = timer_data.truncate e1" using data_of_Some by blast
  have ev: "rel_sum (=) timer_rep (run_event env fuel a e ?s1) (agenda_event env x ?g)"
  proof -
    have "run_event env fuel a e ?s1 = run_event env fuel a e1 ?s1"
      using e(1) e1(2) truncate_fields(2)[of e] truncate_fields(2)[of e1] by (simp add: run_event_def)
    moreover have "a \<notin> fst ` set (ag_events ?g @ ag_threads ?g)"
      using rep x by (auto simp: timer_rep_def prefixed_def)
    ultimately show ?thesis
      using event_refines[OF rep1 _ e1(2)] e1 x Cons.prems(5) by (simp add: prefixed_def)
  qed
  obtain i where i: "rounds = Suc i" "length du \<le> i" using Cons.prems(4) by (cases rounds) auto
  have loop: "timer_loop env fuel rounds s = rbind (run_event env fuel a e ?s1) (timer_loop env fuel i)"
    using h(1,2) e(2,3) i(1) by (simp add: timer_loop.simps[of _ _ _ s])
  have du: "\<forall>y \<in> set du. at_time y \<le> ag_now g" using Cons.prems(2) by simp
  show ?case using ev[unfolded agenda_event_prefixed[OF du]]
  proof (cases rule: rel_sum_cases)
    case (fault e)
    then show ?thesis using loop by (cases "agenda_event env x g") auto
  next
    case (val s2 b)
    then obtain g' where g': "agenda_event env x g = Inr g'" "b = prefixed du g'"
      by (cases "agenda_event env x g") auto
    then show ?thesis
      using Cons.IH[of s2 g' i] agenda_event_later[OF g'(1) Cons.prems(3)] du i(2) Cons.prems(5) val loop
      by simp
  qed
qed

lemma rep_remove_thread:
  assumes "timer_rep s g" and "x \<in> set (ag_threads g)"
  shows "timer_rep (s\<lparr> tm_threads := remove1 (fst x) (tm_threads s) \<rparr>) (g\<lparr> ag_threads := remove1 x (ag_threads g) \<rparr>)"
    and "fst x \<notin> fst ` set (ag_events g @ remove1 x (ag_threads g))"
proof -
  have d: "distinct (map fst (ag_threads g))" using assms(1) by (simp add: timer_rep_def)
  have r: "remove1 (fst y) (map fst ys) = map fst (remove1 y ys)" "fst y \<notin> fst ` set (remove1 y ys)"
    if "distinct (map fst ys)" "y \<in> set ys" for y :: appointment and ys
    using that by (induction ys) (auto simp: image_iff)
  show "timer_rep (s\<lparr> tm_threads := remove1 (fst x) (tm_threads s) \<rparr>) (g\<lparr> ag_threads := remove1 x (ag_threads g) \<rparr>)"
    using assms r(1)[OF d assms(2)] set_remove1_subset[of x "ag_threads g"] unfolding timer_rep_def
    by (auto simp flip: r(1)[OF d assms(2)] simp: distinct_remove1)
  show "fst x \<notin> fst ` set (ag_events g @ remove1 x (ag_threads g))"
    using assms r(2)[OF d assms(2)] by (auto simp: timer_rep_def)
qed

lemma thread_refines:
  assumes "timer_rep s g" and "x \<in> set (ag_threads g)" and "length (ag_events g) \<le> fuel"
  shows "rel_sum (=) timer_rep (eventThreadFunc env fuel (fst x) s) (agenda_thread env x g)"
proof -
  have "data_of (tm_events s) (fst x) = Some (snd x)" using assms(1,2) by (simp add: timer_rep_def)
  then show ?thesis
    using handle_refines[OF rep_remove_thread(1)[OF assms(1,2)], of "fst x" "snd x" fuel env]
      rep_remove_thread(2)[OF assms(1,2)] assms(3)
    by (simp add: eventThreadFunc_def agenda_thread_def)
qed

text \<open>Adding an event at an address that was free.\<close>

lemma new_event_refines:
  assumes "timer_rep s g" and "a \<notin> fst ` set (ag_events g @ ag_threads g)" and "length (ag_events g) \<le> fuel"
  shows "\<exists>s'. insertAnEvent fuel a (s\<lparr> tm_randoms := k, tm_events := (tm_events s)(a \<mapsto> e) \<rparr>) = Inr s'
    \<and> timer_rep s' (agenda_insert (a, timer_data.truncate e) (g\<lparr> ag_randoms := k \<rparr>))"
proof -
  have "data_of ((tm_events s)(a \<mapsto> e)) (fst x) = Some (snd x)" if "x \<in> set (ag_events g @ ag_threads g)" for x
  proof -
    have "fst x \<noteq> a" using that assms(2) by (metis image_eqI)
    then show ?thesis using that assms(1) by (simp add: timer_rep_def)
  qed
  moreover have "dll (links_of ((tm_events s)(a \<mapsto> e))) (tm_firstTE s) (map fst (ag_events g))"
    using assms(1,2) by (simp add: timer_rep_def links_of_upd dll_frame image_Un)
  ultimately have "timer_rep (s\<lparr> tm_randoms := k, tm_events := (tm_events s)(a \<mapsto> e) \<rparr>) (g\<lparr> ag_randoms := k \<rparr>)"
    using assms(1) by (simp add: timer_rep_def)
  then show ?thesis using assms(2,3) by (intro insert_refines) auto
qed

text \<open>The appointments the four functions make.\<close>

definition one_shot :: "int \<Rightarrow> nat \<Rightarrow> nat \<Rightarrow> int \<Rightarrow> nat \<Rightarrow> bool \<Rightarrow> timer_data" where
  "one_shot t handler source eventType eventData newThread =
     \<lparr> te_atTimeMillis = t, te_timerHandler = handler, te_newThread = newThread, te_source = source,
       te_eventType = eventType, te_eventData = eventData, te_timerType = timerType_oneShot,
       te_repetitiveInterval = 0, te_randomMinInterval = 0, te_randomMaxInterval = 0 \<rparr>"

lemma addOneShotAbsolute_refines:
  assumes "timer_rep s g" and "a \<notin> fst ` set (ag_events g @ ag_threads g)" and "length (ag_events g) \<le> fuel"
  shows "\<exists>s'. tem_addOneShotAbsolute fuel (Some a) t (Some hl) src ty dat nt s = Inr (a, s')
    \<and> timer_rep s' (agenda_insert (a, one_shot t hl src ty dat nt) g)"
proof -
  have k: "s\<lparr> tm_randoms := tm_randoms s, tm_events := h \<rparr> = s\<lparr> tm_events := h \<rparr>" for h by (cases s) simp
  have "g\<lparr> ag_randoms := tm_randoms s \<rparr> = g" using assms(1) by (cases g) (simp add: timer_rep_def)
  then show ?thesis
    using new_event_refines[OF assms, where k = "tm_randoms s" and e = "timer_data.extend (one_shot t hl src ty dat nt) \<lparr> te_prevTE = None, te_nextTE = None \<rparr>"]
    by (auto simp: tem_addOneShotAbsolute_def one_shot_def timer_data.defs k)
qed

lemma addOneShotRelative_refines:
  assumes "timer_rep s g" and "a \<notin> fst ` set (ag_events g @ ag_threads g)" and "length (ag_events g) \<le> fuel"
    and "in_int (ag_now g + rel)"
  shows "\<exists>s'. tem_addOneShotRelative fuel (Some a) rel (Some hl) src ty dat nt s = Inr (a, s')
    \<and> timer_rep s' (agenda_insert (a, one_shot (ag_now g + rel) hl src ty dat nt) g)"
  using addOneShotAbsolute_refines[OF assms(1-3)] assms(1,4)
  by (simp add: tem_addOneShotRelative_def timer_rep_def)

lemma addRepetitive_refines:
  fixes interval :: int
  assumes "timer_rep s g" and "a \<notin> fst ` set (ag_events g @ ag_threads g)" and "length (ag_events g) \<le> fuel"
  defines "i \<equiv> max (ag_interval g) interval"
  assumes "in_int (ag_now g + i)"
  shows "\<exists>s'. tem_addRepetitive fuel (Some a) interval (Some hl) src ty dat nt s = Inr s'
    \<and> timer_rep s' (agenda_insert (a, (one_shot (ag_now g + i) hl src ty dat nt)
         \<lparr> te_timerType := timerType_repetitive, te_repetitiveInterval := i \<rparr>) g)"
proof -
  have k: "s\<lparr> tm_randoms := tm_randoms s, tm_events := h \<rparr> = s\<lparr> tm_events := h \<rparr>" for h by (cases s) simp
  have "g\<lparr> ag_randoms := tm_randoms s \<rparr> = g" using assms(1) by (cases g) (simp add: timer_rep_def)
  moreover have "(if interval < tm_callbackInterval s then tm_callbackInterval s else interval) = i"
    "tm_timerTimeMillis s = ag_now g"
    using assms(1) by (auto simp: timer_rep_def i_def)
  ultimately show ?thesis
    using new_event_refines[OF assms(1-3), where k = "tm_randoms s" and e = "timer_data.extend
      ((one_shot (ag_now g + i) hl src ty dat nt) \<lparr> te_timerType := timerType_repetitive, te_repetitiveInterval := i \<rparr>)
      \<lparr> te_prevTE = None, te_nextTE = None \<rparr>"] assms(5)
    by (auto simp: tem_addRepetitive_def one_shot_def timer_data.defs k Let_def)
qed

lemma free_events_heap:
  assumes "dseg (links_of h) p f xs None" and "length xs \<le> fuel" and "distinct xs"
  shows "free_events fuel f h = Inr (h |` (- set xs))"
  using assms
proof (induction xs arbitrary: p f h fuel)
  case Nil
  then show ?case by (simp add: free_events.simps)
next
  case (Cons a xs)
  then obtain n where n: "f = Some a" "links_of h a = Some (p, n)" "dseg (links_of h) (Some a) n xs None" by auto
  then obtain e where e: "h a = Some e" "te_nextTE e = n" using links_of_Some by blast
  obtain i where i: "fuel = Suc i" "length xs \<le> i" using Cons.prems(2) by (cases fuel) auto
  have "dseg (links_of (h(a := None))) (Some a) n xs None" using n(3) Cons.prems(3) by simp
  then have "free_events i n (h(a := None)) = Inr (h(a := None) |` (- set xs))"
    by (rule Cons.IH) (use i(2) Cons.prems(3) in simp_all)
  moreover have "h(a := None) |` (- set xs) = h |` (- set (a # xs))" by (auto simp: restrict_map_def)
  ultimately show ?case using n(1) e i(1) by (simp add: free_events.simps[of _ "Some a"])
qed

lemma tem_shutdown_frees:
  assumes "timer_rep s g" and "length (ag_events g) \<le> fuel" and "unsetTimer (tm_timerDevice s) = None"
  shows "tem_shutdown unsetTimer fuel s
    = Inr (s\<lparr> tm_timerDevice := None, tm_events := tm_events s |` (- fst ` set (ag_events g)) \<rparr>)"
  using free_events_heap[of "tm_events s" None "tm_firstTE s" "map fst (ag_events g)" fuel] assms
  by (simp add: tem_shutdown_def timer_rep_def dll_def)

lemma cancel_insert:
  assumes "a \<notin> fst ` set (ag_events g)"
  shows "agenda_cancel a (agenda_insert (a, d) g) = g"
proof -
  have "filter (\<lambda>x. fst x \<noteq> a) (insort_key at_time (a, d) es) = filter (\<lambda>x. fst x \<noteq> a) es" for es
    by (induction es) auto
  then show ?thesis using assms by (simp add: agenda_cancel_def agenda_insert_def filter_not_fst)
qed

subsection \<open>What a tick does\<close>

text \<open>Events whose proposed time can be computed, and whose thread can be created if they want one.\<close>

definition appointment_ok :: "'w timer_env \<Rightarrow> appointment \<Rightarrow> bool" where
  "appointment_ok env x = (let d = snd x in
     if te_newThread d then env_spawn env (fst x)
     else if te_timerType d = timerType_oneShot then True
     else if te_timerType d = timerType_repetitive then in_int (te_atTimeMillis d + te_repetitiveInterval d)
     else te_timerType d = timerType_random \<and> 0 \<le> te_atTimeMillis d
          \<and> 0 \<le> te_randomMinInterval d \<and> 0 \<le> te_randomMaxInterval d
          \<and> te_randomMinInterval d \<noteq> te_randomMaxInterval d
          \<and> te_atTimeMillis d + te_randomMinInterval d
              + \<bar>te_randomMaxInterval d - te_randomMinInterval d\<bar> \<le> INT_MAX)"

definition tick_ok :: "'w timer_env \<Rightarrow> 'w agenda \<Rightarrow> bool" where
  "tick_ok env g \<longleftrightarrow> in_int (ag_now g + ag_interval g)
     \<and> (\<forall>x \<in> set (due (ag_now g + ag_interval g) (ag_events g)). appointment_ok env x)"

definition random_ok :: "'w timer_env \<Rightarrow> bool" where
  "random_ok env \<longleftrightarrow> (\<forall>n. 0 \<le> env_random env n)"

lemma calcRandomInterval_range:
  assumes "0 \<le> r" and "0 \<le> lo" and "0 \<le> hi" and "lo \<noteq> hi" and "lo + \<bar>hi - lo\<bar> \<le> INT_MAX"
  shows "\<exists>d. calcRandomInterval r lo hi = Inr d \<and> lo \<le> d \<and> d < lo + \<bar>hi - lo\<bar>"
proof -
  define q where "q = r mod \<bar>hi - lo\<bar>"
  have q: "0 \<le> q" "q < \<bar>hi - lo\<bar>" using assms(4) by (simp_all add: q_def)
  have "sgn r * (\<bar>r\<bar> mod \<bar>hi - lo\<bar>) = q" using assms(1) by (cases "r = 0") (auto simp: q_def)
  moreover have "in_int (hi - lo)" "in_int (lo + q)" using q assms by (auto simp: in_int_def)
  ultimately show ?thesis using q assms(4) by (simp add: calcRandomInterval_def c_rem_def)
qed

lemma proposedTime_ok:
  assumes "appointment_ok env x" and "\<not> te_newThread (snd x)" and "random_ok env"
  shows "\<exists>t k'. proposedTime env k (snd x) = Inr (t, k')"
proof -
  let ?d = "snd x"
  consider "te_timerType ?d = timerType_oneShot" | "te_timerType ?d = timerType_repetitive"
    | "te_timerType ?d = timerType_random"
    using assms(1,2) unfolding appointment_ok_def Let_def by metis
  then show ?thesis
  proof cases
    case 3
    then have *: "0 \<le> te_atTimeMillis ?d" "0 \<le> te_randomMinInterval ?d" "0 \<le> te_randomMaxInterval ?d"
        "te_randomMinInterval ?d \<noteq> te_randomMaxInterval ?d"
        "te_atTimeMillis ?d + te_randomMinInterval ?d + \<bar>te_randomMaxInterval ?d - te_randomMinInterval ?d\<bar> \<le> INT_MAX"
      using assms(1,2) by (auto simp: appointment_ok_def Let_def)
    then obtain r where "calcRandomInterval (env_random env k) (te_randomMinInterval ?d) (te_randomMaxInterval ?d) = Inr r"
        "te_randomMinInterval ?d \<le> r" "r < te_randomMinInterval ?d + \<bar>te_randomMaxInterval ?d - te_randomMinInterval ?d\<bar>"
      using calcRandomInterval_range[of "env_random env k" "te_randomMinInterval ?d" "te_randomMaxInterval ?d"] assms(3)
      unfolding random_ok_def by auto
    then show ?thesis using * 3 by (simp add: proposedTime_def in_int_def)
  qed (use assms(1,2) in \<open>auto simp: appointment_ok_def Let_def proposedTime_def\<close>)
qed

text \<open>The calls made for a list of events: one each, in order, those with threads of their own left out.\<close>

definition calls_for :: "timer_call list \<Rightarrow> appointment list \<Rightarrow> bool" where
  "calls_for cs xs \<longleftrightarrow>
     list_all2 (\<lambda>c x. \<exists>t. c = handler_call (snd x) t) cs (filter (\<lambda>x. \<not> te_newThread (snd x)) xs)"

definition run_calls :: "'w timer_env \<Rightarrow> timer_call list \<Rightarrow> 'w \<Rightarrow> 'w" where
  "run_calls env cs w = fold (\<lambda>c w. snd (env_call env c w)) cs w"

lemma calls_for_append: "calls_for cs xs \<Longrightarrow> calls_for cs' ys \<Longrightarrow> calls_for (cs @ cs') (xs @ ys)"
  by (simp add: calls_for_def list_all2_appendI)

lemma run_calls_append: "run_calls env (cs @ cs') w = run_calls env cs' (run_calls env cs w)"
  by (simp add: run_calls_def)

lemma tick_run:
  assumes "\<forall>x \<in> set du. appointment_ok env x" and "random_ok env"
    and "\<forall>y \<in> set (ag_events g). at_time y > ag_now g"
  shows "\<exists>g' cs. rfold (agenda_event env) du g = Inr g' \<and> ag_now g' = ag_now g
    \<and> (\<forall>y \<in> set (ag_events g'). at_time y > ag_now g)
    \<and> ag_threads g' = ag_threads g @ filter (\<lambda>x. te_newThread (snd x)) du
    \<and> calls_for cs du \<and> ag_world g' = run_calls env cs (ag_world g)"
  using assms
proof (induction du arbitrary: g)
  case Nil
  then show ?case by (auto simp: calls_for_def run_calls_def intro: exI[of _ "[]"])
next
  case (Cons x du)
  obtain g1 cs1 where g1: "agenda_event env x g = Inr g1" "calls_for cs1 [x]"
      "ag_world g1 = run_calls env cs1 (ag_world g)"
      "ag_threads g1 = ag_threads g @ filter (\<lambda>x. te_newThread (snd x)) [x]"
  proof (cases "te_newThread (snd x)")
    case True
    then show thesis using that[of "g\<lparr> ag_threads := ag_threads g @ [x] \<rparr>" "[]"] Cons.prems(1)
      by (simp add: agenda_event_def appointment_ok_def calls_for_def run_calls_def)
  next
    case False
    then obtain t k where t: "proposedTime env (ag_randoms g) (snd x) = Inr (t, k)"
      using proposedTime_ok[of env x "ag_randoms g"] Cons.prems(1,2) by auto
    obtain r w where "env_call env (handler_call (snd x) t) (ag_world g) = (r, w)" by fastforce
    then show thesis using False t
      by (intro that[of "if r \<noteq> TIMER_STOP \<and> r > ag_now g
            then agenda_insert (fst x, (snd x)\<lparr> te_atTimeMillis := r \<rparr>) (g\<lparr> ag_randoms := k, ag_world := w \<rparr>)
            else g\<lparr> ag_randoms := k, ag_world := w \<rparr>" "[handler_call (snd x) t]"])
        (auto simp: agenda_event_def agenda_handle_def calls_for_def run_calls_def agenda_insert_def Let_def)
  qed
  note later = agenda_event_later[OF g1(1) Cons.prems(3)]
  obtain g' cs where "rfold (agenda_event env) du g1 = Inr g'" "ag_now g' = ag_now g1"
      "\<forall>y \<in> set (ag_events g'). at_time y > ag_now g1"
      "ag_threads g' = ag_threads g1 @ filter (\<lambda>x. te_newThread (snd x)) du"
      "calls_for cs du" "ag_world g' = run_calls env cs (ag_world g1)"
    using Cons.IH[of g1] Cons.prems(1,2) later by auto
  then show ?case using g1 later(1) calls_for_append[of cs1 "[x]" cs du]
    by (intro exI[of _ g'] exI[of _ "cs1 @ cs"]) (auto simp: run_calls_append)
qed

lemma tick_keeps:
  assumes "rfold (agenda_event env) du g = Inr g'"
  shows "set (ag_events g) \<subseteq> set (ag_events g')"
    and "x \<in> set du \<Longrightarrow> \<not> te_newThread (snd x) \<Longrightarrow>
      \<exists>k k' t w r. proposedTime env k (snd x) = Inr (t, k') \<and> r = fst (env_call env (handler_call (snd x) t) w)
        \<and> (r \<noteq> TIMER_STOP \<and> r > ag_now g \<longrightarrow> (fst x, (snd x)\<lparr> te_atTimeMillis := r \<rparr>) \<in> set (ag_events g'))"
  using assms
proof (induction du arbitrary: g)
  case (Cons y du)
  {
    case 1
    then show ?case using Cons.IH(1)
      by (fastforce simp: agenda_event_def agenda_handle_Inr_iff agenda_insert_def res_iff set_insort_key split: if_splits)
  next
    case 2
    then obtain g1 where g1: "agenda_event env y g = Inr g1" "rfold (agenda_event env) du g1 = Inr g'"
      by (auto simp: res_iff)
    show ?case
    proof (cases "x \<in> set du")
      case True
      moreover have "ag_now g1 = ag_now g" using g1(1)
        by (auto simp: agenda_event_def agenda_handle_Inr_iff agenda_insert_def res_iff split: if_splits)
      ultimately show ?thesis using Cons.IH(2)[of g1] g1(2) 2(2) by simp
    next
      case False
      then have "agenda_handle env x g = Inr g1" using 2 g1(1) by (simp add: agenda_event_def)
      then obtain t k r w where "proposedTime env (ag_randoms g) (snd x) = Inr (t, k)"
          "env_call env (handler_call (snd x) t) (ag_world g) = (r, w)"
          "r \<noteq> TIMER_STOP \<and> r > ag_now g \<longrightarrow> (fst x, (snd x)\<lparr> te_atTimeMillis := r \<rparr>) \<in> set (ag_events g1)"
        unfolding agenda_handle_Inr_iff by (auto simp: agenda_insert_def set_insort_key)
      then show ?thesis using Cons.IH(1)[OF g1(2)]
        by (intro exI[of _ "ag_randoms g"] exI[of _ k] exI[of _ t] exI[of _ "ag_world g"] exI[of _ r]) auto
    qed
  }
qed auto

subsection \<open>Properties\<close>

lemma sorted_dropWhile:
  "sorted (map at_time xs) \<Longrightarrow> y \<in> set (dropWhile (\<lambda>x. at_time x \<le> t) xs) \<Longrightarrow> t < at_time y"
  by (induction xs) (auto split: if_splits)

lemma due_later:
  assumes "timer_rep s g"
  shows "\<forall>y \<in> set (due t (ag_events g)). at_time y \<le> t" and "\<forall>y \<in> set (later t (ag_events g)). at_time y > t"
    and "due t (ag_events g) @ later t (ag_events g) = ag_events g"
  using assms sorted_dropWhile[of "ag_events g" _ t]
  by (auto simp: due_def later_def timer_rep_def dest: set_takeWhileD)

lemma callback_refines:
  assumes "timer_rep s g" and "length (ag_events g) \<le> fuel"
  shows "rel_sum (=) timer_rep (timerCallbackFunction env fuel s) (agenda_tick env g)"
proof (cases "in_int (ag_now g + ag_interval g)")
  case True
  define t where "t = ag_now g + ag_interval g"
  let ?du = "due t (ag_events g)" and ?g = "g\<lparr> ag_now := t, ag_events := later t (ag_events g) \<rparr>"
  note dl = due_later[OF assms(1), of t]
  have "prefixed ?du ?g = g\<lparr> ag_now := t \<rparr>" using dl(3) by (cases g) (simp add: prefixed_def)
  then have "timer_rep (s\<lparr> tm_timerTimeMillis := t \<rparr>) (prefixed ?du ?g)"
    using assms(1) by (simp add: timer_rep_def)
  moreover have "length ?du + length (later t (ag_events g)) = length (ag_events g)"
    using arg_cong[OF dl(3), of length] by simp
  ultimately have "rel_sum (=) timer_rep (timer_loop env fuel fuel (s\<lparr> tm_timerTimeMillis := t \<rparr>))
      (rfold (agenda_event env) ?du ?g)"
    using dl(1,2) assms(2) by (intro loop_refines) auto
  then show ?thesis using True assms(1)
    by (simp add: timerCallbackFunction_def agenda_tick_def timer_rep_def t_def)
qed (use assms in \<open>simp add: timerCallbackFunction_def agenda_tick_def timer_rep_def iadd_def\<close>)

lemma tick_total:
  assumes "timer_rep s g" and "length (ag_events g) \<le> fuel" and "tick_ok env g" and "random_ok env"
  defines "t \<equiv> ag_now g + ag_interval g"
  shows "\<exists>s' g' cs. timerCallbackFunction env fuel s = Inr s' \<and> timer_rep s' g'
    \<and> rfold (agenda_event env) (due t (ag_events g)) (g\<lparr> ag_now := t, ag_events := later t (ag_events g) \<rparr>) = Inr g'
    \<and> ag_now g' = t \<and> (\<forall>y \<in> set (ag_events g'). at_time y > t)
    \<and> ag_threads g' = ag_threads g @ filter (\<lambda>x. te_newThread (snd x)) (due t (ag_events g))
    \<and> calls_for cs (due t (ag_events g)) \<and> ag_world g' = run_calls env cs (ag_world g)"
proof -
  let ?g = "g\<lparr> ag_now := t, ag_events := later t (ag_events g) \<rparr>"
  have t: "in_int t" "\<forall>x \<in> set (due t (ag_events g)). appointment_ok env x"
    using assms(3) by (simp_all add: tick_ok_def t_def)
  then obtain g' cs where g': "rfold (agenda_event env) (due t (ag_events g)) ?g = Inr g'" "ag_now g' = t"
      "\<forall>y \<in> set (ag_events g'). at_time y > t"
      "ag_threads g' = ag_threads g @ filter (\<lambda>x. te_newThread (snd x)) (due t (ag_events g))"
      "calls_for cs (due t (ag_events g))" "ag_world g' = run_calls env cs (ag_world g)"
    using tick_run[of "due t (ag_events g)" env ?g] due_later(2)[OF assms(1), of t] assms(4) by auto
  have "agenda_tick env g = Inr g'" using g'(1) t(1) by (simp add: agenda_tick_def t_def)
  then obtain s' where "timerCallbackFunction env fuel s = Inr s'" "timer_rep s' g'"
    using callback_refines[OF assms(1,2), of env] by (cases "timerCallbackFunction env fuel s") auto
  then show ?thesis using g' by blast
qed

text \<open>A manager with one repetitive event, for the witnesses.\<close>

definition demo_data :: timer_data where
  "demo_data = \<lparr> te_atTimeMillis = 10, te_timerHandler = 1, te_newThread = False, te_source = 7, te_eventType = 0,
     te_eventData = 0, te_timerType = timerType_repetitive, te_repetitiveInterval = 10,
     te_randomMinInterval = 0, te_randomMaxInterval = 0 \<rparr>"

definition demo_manager :: "nat timer_manager" where
  "demo_manager = \<lparr> tm_events = [5 \<mapsto> timer_data.extend demo_data \<lparr> te_prevTE = None, te_nextTE = None \<rparr>],
     tm_firstTE = Some 5, tm_timerDevice = None, tm_callbackInterval = 10, tm_timerTimeMillis = 0,
     tm_threads = [], tm_randoms = 0, tm_world = 0 \<rparr>"

definition demo_agenda :: "nat agenda" where
  "demo_agenda = \<lparr> ag_events = [(5, demo_data)], ag_threads = [], ag_interval = 10, ag_now = 0,
     ag_randoms = 0, ag_world = 0 \<rparr>"

definition demo_env :: "nat timer_env" where
  "demo_env = \<lparr> env_random = (\<lambda>_. 0), env_call = (\<lambda>c w. (tc_nextTime c, Suc w)), env_spawn = (\<lambda>_. True) \<rparr>"

lemma demo_rep: "timer_rep demo_manager demo_agenda"
  by (simp add: timer_rep_def demo_manager_def demo_agenda_def demo_data_def links_of_def links_by_def data_of_def body_by_def dll_def
      timer_data.defs)

lemma demo_ok: "tick_ok demo_env demo_agenda" "random_ok demo_env" "length (ag_events demo_agenda) \<le> 3"
  by (simp_all add: tick_ok_def random_ok_def demo_agenda_def demo_env_def demo_data_def in_int_def due_def at_time_def
      appointment_ok_def)

text \<open>C4: The timer callback does to the linked list of events what a tick does to the agenda, faults
  included, and its loops end within as many rounds as there are events.
\<close>

theorem timerCallback_refines_tick:
  assumes "timer_rep s g" and "length (ag_events g) \<le> fuel"
  shows "rel_sum (=) timer_rep (timerCallbackFunction env fuel s) (agenda_tick env g)"
  using assms by (rule callback_refines)

theorem timerCallback_refines_tick_witness:
  "rel_sum (=) timer_rep (timerCallbackFunction demo_env 3 demo_manager) (agenda_tick demo_env demo_agenda)"
  using timerCallback_refines_tick[OF demo_rep demo_ok(3)] .

text \<open>When the times it computes fit into an \<open>int\<close>, the timer callback returns: the handler of every
  event that is due has been called exactly once, in the order of the times, the events with threads
  of their own have been handed over, and every event left in the list lies in the future.
\<close>

theorem timerCallback_handles_due:
  assumes "timer_rep s g" and "length (ag_events g) \<le> fuel" and "tick_ok env g" and "random_ok env"
  defines "t \<equiv> ag_now g + ag_interval g"
  shows "\<exists>s' g' cs. timerCallbackFunction env fuel s = Inr s' \<and> timer_rep s' g'
    \<and> ag_now g' = t \<and> (\<forall>y \<in> set (ag_events g'). at_time y > t)
    \<and> ag_threads g' = ag_threads g @ filter (\<lambda>x. te_newThread (snd x)) (due t (ag_events g))
    \<and> calls_for cs (due t (ag_events g)) \<and> ag_world g' = run_calls env cs (ag_world g)"
  using tick_total[OF assms(1-4)] unfolding t_def by blast

theorem timerCallback_handles_due_witness:
  "\<exists>s' g' cs. timerCallbackFunction demo_env 3 demo_manager = Inr s' \<and> timer_rep s' g'
    \<and> ag_now g' = 10 \<and> (\<forall>y \<in> set (ag_events g'). at_time y > 10) \<and> calls_for cs [(5, demo_data)]
    \<and> ag_world g' = run_calls demo_env cs 0"
proof -
  have "ag_now demo_agenda + ag_interval demo_agenda = 10" "ag_world demo_agenda = 0"
    "due 10 (ag_events demo_agenda) = [(5, demo_data)]"
    by (simp_all add: demo_agenda_def due_def at_time_def demo_data_def)
  then show ?thesis using timerCallback_handles_due[OF demo_rep demo_ok(3,1,2)] by metis
qed

text \<open>Ticks one after the other, of the code and of the agenda.\<close>

primrec ticks :: "'w timer_env \<Rightarrow> nat \<Rightarrow> nat \<Rightarrow> 'w timer_manager \<Rightarrow> 'w timer_manager res" where
  "ticks env fuel 0 s = Inr s"
| "ticks env fuel (Suc n) s = rbind (timerCallbackFunction env fuel s) (ticks env fuel n)"

primrec agenda_ticks :: "'w timer_env \<Rightarrow> nat \<Rightarrow> 'w agenda \<Rightarrow> 'w agenda res" where
  "agenda_ticks env 0 g = Inr g"
| "agenda_ticks env (Suc n) g = rbind (agenda_tick env g) (agenda_ticks env n)"

lemma agenda_event_frame:
  "agenda_event env x g = Inr g' \<Longrightarrow>
   ag_interval g' = ag_interval g \<and> length (ag_events g') \<le> Suc (length (ag_events g))"
  by (auto simp: agenda_event_def agenda_handle_Inr_iff agenda_insert_def res_iff split: if_splits)

lemma agenda_events_frame:
  "rfold (agenda_event env) du g = Inr g' \<Longrightarrow>
   ag_interval g' = ag_interval g \<and> length (ag_events g') \<le> length du + length (ag_events g)"
proof (induction du arbitrary: g)
  case (Cons x du)
  then obtain g1 where g1: "agenda_event env x g = Inr g1" "rfold (agenda_event env) du g1 = Inr g'"
    by (auto simp: res_iff)
  from Cons.IH[OF g1(2)] agenda_event_frame[OF g1(1)] show ?case by auto
qed simp

text \<open>An event that the clock drives: repetitive, at an address \<open>a\<close>, without a thread of its own, not
  yet due, with an interval of at least the resolution and a handler that returns the time proposed
  to it.\<close>

definition rhythmic :: "'w timer_env \<Rightarrow> nat \<Rightarrow> timer_data \<Rightarrow> 'w agenda \<Rightarrow> bool" where
  "rhythmic env a d g \<longleftrightarrow>
     (a, d) \<in> set (ag_events g) \<and> te_timerType d = timerType_repetitive \<and> \<not> te_newThread d
     \<and> 0 \<le> ag_now g \<and> ag_now g < te_atTimeMillis d
     \<and> 0 < ag_interval g \<and> ag_interval g \<le> te_repetitiveInterval d
     \<and> (\<forall>c w. tc_handler c = te_timerHandler d \<longrightarrow> fst (env_call env c w) = tc_nextTime c)"

lemma filter_key_one:
  "distinct (map fst xs) \<Longrightarrow> (a, d) \<in> set xs \<Longrightarrow> filter (\<lambda>x. fst x = a) xs = [(a, d)]"
  by (induction xs) (auto simp: filter_empty_conv image_iff)

lemma due_once:
  assumes "timer_rep s g" and "(a, d) \<in> set (ag_events g)"
  shows "filter (\<lambda>x. fst x = a) (due t (ag_events g)) = (if te_atTimeMillis d \<le> t then [(a, d)] else [])"
proof -
  note dl = due_later[OF assms(1), of t]
  have dist: "distinct (map fst (ag_events g))" using assms(1) by (simp add: timer_rep_def)
  have sub: "set (due t (ag_events g)) \<subseteq> set (ag_events g)" and dist': "distinct (map fst (due t (ag_events g)))"
    using arg_cong[OF dl(3), of set] arg_cong[OF dl(3), of "\<lambda>xs. distinct (map fst xs)"] dist by auto
  show ?thesis
  proof (cases "te_atTimeMillis d \<le> t")
    case True
    then have "(a, d) \<in> set (due t (ag_events g))"
      using assms(2) dl by (metis Un_iff at_time_def leD set_append snd_conv)
    then show ?thesis using True filter_key_one[OF dist'] by simp
  next
    case False
    have "x = (a, d)" if "x \<in> set (due t (ag_events g))" "fst x = a" for x
      using eq_key_imp_eq_value[OF dist, of a "snd x" d] that sub assms(2) by (metis prod.collapse subsetD)
    then show ?thesis using False dl(1) by (fastforce simp: filter_empty_conv at_time_def)
  qed
qed

text \<open>One tick: the event stays where it is, or it is handled once and scheduled one interval later.\<close>

lemma rhythmic_tick:
  assumes "timer_rep s g" and "length (ag_events g) \<le> fuel" and "tick_ok env g" and "random_ok env"
    and r: "rhythmic env a d g"
  defines "t \<equiv> ag_now g + ag_interval g"
  defines "hit \<equiv> te_atTimeMillis d \<le> t"
  defines "d' \<equiv> if hit then d\<lparr> te_atTimeMillis := te_atTimeMillis d + te_repetitiveInterval d \<rparr> else d"
  shows "\<exists>s' g' cs ds. timerCallbackFunction env fuel s = Inr s' \<and> agenda_tick env g = Inr g' \<and> timer_rep s' g'
    \<and> ag_now g' = t \<and> ag_interval g' = ag_interval g \<and> length (ag_events g') \<le> fuel
    \<and> calls_for cs ds \<and> ag_world g' = run_calls env cs (ag_world g)
    \<and> filter (\<lambda>x. fst x = a) ds = (if hit then [(a, d)] else []) \<and> rhythmic env a d' g'"
proof -
  let ?g = "g\<lparr> ag_now := t, ag_events := later t (ag_events g) \<rparr>"
  have rr: "(a, d) \<in> set (ag_events g)" "te_timerType d = timerType_repetitive" "\<not> te_newThread d"
      "0 \<le> ag_now g" "ag_now g < te_atTimeMillis d" "0 < ag_interval g" "ag_interval g \<le> te_repetitiveInterval d"
      "\<And>c w. tc_handler c = te_timerHandler d \<Longrightarrow> fst (env_call env c w) = tc_nextTime c"
    using r by (auto simp: rhythmic_def)
  obtain s' g' cs where s': "timerCallbackFunction env fuel s = Inr s'" "timer_rep s' g'"
      "rfold (agenda_event env) (due t (ag_events g)) ?g = Inr g'"
      "ag_now g' = t" "\<forall>y \<in> set (ag_events g'). at_time y > t"
      "calls_for cs (due t (ag_events g))" "ag_world g' = run_calls env cs (ag_world g)"
    using tick_total[OF assms(1-4)] unfolding t_def by blast
  have tk: "agenda_tick env g = Inr g'"
    using s'(3) assms(3) by (simp add: agenda_tick_def t_def tick_ok_def)
  have fr: "ag_interval g' = ag_interval g" "length (ag_events g') \<le> length (ag_events g)"
    using agenda_events_frame[OF s'(3)] arg_cong[OF due_later(3)[OF assms(1), of t], of length] by auto
  have m: "(a, d') \<in> set (ag_events g')"
  proof (cases hit)
    case True
    then have "(a, d) \<in> set (due t (ag_events g))"
      using rr(1) due_later[OF assms(1), of t] unfolding hit_def
      by (metis Un_iff at_time_def leD set_append snd_conv)
    then have "\<exists>k k' u w q. proposedTime env k d = Inr (u, k') \<and> q = fst (env_call env (handler_call d u) w)
        \<and> (q \<noteq> TIMER_STOP \<and> q > t \<longrightarrow> (a, d\<lparr> te_atTimeMillis := q \<rparr>) \<in> set (ag_events g'))"
      using tick_keeps(2)[OF s'(3), of "(a, d)"] rr(3) by simp
    then obtain k k' u w q where "proposedTime env k d = Inr (u, k')" "q = fst (env_call env (handler_call d u) w)"
        "q \<noteq> TIMER_STOP \<and> q > t \<longrightarrow> (a, d\<lparr> te_atTimeMillis := q \<rparr>) \<in> set (ag_events g')"
      by (elim exE conjE)
    moreover from this(1,2) have "q = te_atTimeMillis d + te_repetitiveInterval d"
      using rr(2,8) by (simp add: proposedTime_def handler_call_def res_iff)
    ultimately show ?thesis using True rr(4-7) by (simp add: t_def d'_def)
  next
    case False
    then have "(a, d) \<in> set (later t (ag_events g))"
      using rr(1) due_later[OF assms(1), of t] unfolding hit_def by (metis Un_iff at_time_def set_append snd_conv)
    then show ?thesis using False tick_keeps(1)[OF s'(3)] by (auto simp: d'_def)
  qed
  moreover have "t < te_atTimeMillis d'" using s'(5) m by (auto simp: at_time_def)
  ultimately have "rhythmic env a d' g'"
    using rr(2-8) fr(1) s'(4) by (auto simp: rhythmic_def d'_def t_def)
  moreover have "filter (\<lambda>x. fst x = a) (due t (ag_events g)) = (if hit then [(a, d)] else [])"
    using due_once[OF assms(1) rr(1), of t] by (simp add: hit_def)
  ultimately show ?thesis
    using s'(1,2,4,6,7) tk fr assms(2)
    by (intro exI[of _ s'] exI[of _ g'] exI[of _ cs] exI[of _ "due t (ag_events g)"]) simp
qed

lemma rhythm_ticks:
  "timer_rep s g \<Longrightarrow> length (ag_events g) \<le> fuel \<Longrightarrow> random_ok env \<Longrightarrow> rhythmic env a d g
   \<Longrightarrow> \<forall>k<n. \<forall>h. agenda_ticks env k g = Inr h \<longrightarrow> tick_ok env h
   \<Longrightarrow> \<exists>s' g' cs ds k. ticks env fuel n s = Inr s' \<and> timer_rep s' g' \<and> ag_now g' = ag_now g + int n * ag_interval g
      \<and> calls_for cs ds \<and> ag_world g' = run_calls env cs (ag_world g)
      \<and> filter (\<lambda>x. fst x = a) ds
          = map (\<lambda>i. (a, d\<lparr> te_atTimeMillis := te_atTimeMillis d + int i * te_repetitiveInterval d \<rparr>)) [0..<k]
      \<and> (a, d\<lparr> te_atTimeMillis := te_atTimeMillis d + int k * te_repetitiveInterval d \<rparr>) \<in> set (ag_events g')
      \<and> ag_now g' < te_atTimeMillis d + int k * te_repetitiveInterval d
      \<and> (k = 0 \<or> te_atTimeMillis d + (int k - 1) * te_repetitiveInterval d \<le> ag_now g')"
proof (induction n arbitrary: s g d)
  case 0
  then show ?case
    by (intro exI[of _ s] exI[of _ g] exI[of _ "[]"] exI[of _ 0]) (auto simp: calls_for_def run_calls_def rhythmic_def)
next
  case (Suc n)
  define t where "t = ag_now g + ag_interval g"
  define hit where "hit \<longleftrightarrow> te_atTimeMillis d \<le> t"
  define d1 where "d1 = (if hit then d\<lparr> te_atTimeMillis := te_atTimeMillis d + te_repetitiveInterval d \<rparr> else d)"
  have ok: "tick_ok env g" using Suc.prems(5) by (auto dest: spec[of _ 0])
  obtain s1 g1 cs1 ds1 where
    1: "timerCallbackFunction env fuel s = Inr s1" "agenda_tick env g = Inr g1" "timer_rep s1 g1"
      "ag_now g1 = t" "ag_interval g1 = ag_interval g" "length (ag_events g1) \<le> fuel" "calls_for cs1 ds1"
      "ag_world g1 = run_calls env cs1 (ag_world g)"
      "filter (\<lambda>x. fst x = a) ds1 = (if hit then [(a, d)] else [])" "rhythmic env a d1 g1"
    using rhythmic_tick[OF Suc.prems(1,2) ok Suc.prems(3,4)] unfolding t_def hit_def d1_def by blast
  have "\<forall>k<n. \<forall>h. agenda_ticks env k g1 = Inr h \<longrightarrow> tick_ok env h"
    using Suc.prems(5) 1(2) by (auto dest: spec[of _ "Suc _"])
  then obtain s' g' cs ds k where
    2: "ticks env fuel n s1 = Inr s'" "timer_rep s' g'" "ag_now g' = ag_now g1 + int n * ag_interval g1"
      "calls_for cs ds" "ag_world g' = run_calls env cs (ag_world g1)"
      "filter (\<lambda>x. fst x = a) ds
          = map (\<lambda>i. (a, d1\<lparr> te_atTimeMillis := te_atTimeMillis d1 + int i * te_repetitiveInterval d1 \<rparr>)) [0..<k]"
      "(a, d1\<lparr> te_atTimeMillis := te_atTimeMillis d1 + int k * te_repetitiveInterval d1 \<rparr>) \<in> set (ag_events g')"
      "ag_now g' < te_atTimeMillis d1 + int k * te_repetitiveInterval d1"
      "k = 0 \<or> te_atTimeMillis d1 + (int k - 1) * te_repetitiveInterval d1 \<le> ag_now g'"
    using Suc.IH[OF 1(3,6) Suc.prems(3) 1(10)] by blast
  have now: "ag_now g' = ag_now g + int (Suc n) * ag_interval g" using 1(4,5) 2(3) by (simp add: t_def algebra_simps)
  have le: "t \<le> ag_now g'"
    using 1(4,5) 2(3) Suc.prems(4) by (simp add: rhythmic_def)
  have run: "ticks env fuel (Suc n) s = Inr s'" using 1(1) 2(1) by simp
  have cf: "calls_for (cs1 @ cs) (ds1 @ ds)" using 1(7) 2(4) by (rule calls_for_append)
  have w: "ag_world g' = run_calls env (cs1 @ cs) (ag_world g)" using 1(8) 2(5) by (simp add: run_calls_append)
  show ?case
  proof (cases hit)
    case True
    let ?rep = "te_repetitiveInterval d"
    have d1: "d1 = d\<lparr> te_atTimeMillis := te_atTimeMillis d + ?rep \<rparr>" using True by (simp add: d1_def)
    have shift: "d1\<lparr> te_atTimeMillis := te_atTimeMillis d1 + int i * te_repetitiveInterval d1 \<rparr>
        = d\<lparr> te_atTimeMillis := te_atTimeMillis d + int (Suc i) * ?rep \<rparr>" for i
      by (simp add: d1 algebra_simps)
    have "filter (\<lambda>x. fst x = a) (ds1 @ ds)
        = map (\<lambda>i. (a, d\<lparr> te_atTimeMillis := te_atTimeMillis d + int i * ?rep \<rparr>)) [0..<Suc k]"
      using True 1(9) 2(6) unfolding shift by (simp add: map_upt_Suc del: upt_Suc)
    moreover have "te_atTimeMillis d + (int (Suc k) - 1) * ?rep \<le> ag_now g'"
      using 2(9) True le by (cases "k = 0") (auto simp: d1 hit_def algebra_simps)
    ultimately show ?thesis
      using run 2(2,7,8) now cf w unfolding shift
      by (intro exI[of _ s'] exI[of _ g'] exI[of _ "cs1 @ cs"] exI[of _ "ds1 @ ds"] exI[of _ "Suc k"])
         (auto simp: d1 algebra_simps)
  next
    case False
    then have d1: "d1 = d" by (simp add: d1_def)
    show ?thesis
      using run 2(2,6-9) now cf w 1(9) False unfolding d1
      by (intro exI[of _ s'] exI[of _ g'] exI[of _ "cs1 @ cs"] exI[of _ "ds1 @ ds"] exI[of _ k]) simp
  qed
qed

text \<open>C17: A repetitive timer keeps its rhythm. Take an event without a thread of its own that is not yet
  due, whose interval is at least the resolution and whose handler returns the time proposed to it.
  Over any number of ticks whose times fit an \<open>int\<close>, its handler is called exactly at its first
  time and at every interval after it, once each and in that order, up to the present: \<open>cs\<close> are
  the calls made, \<open>ds\<close> the events handled. Then the event is scheduled for the next multiple, which
  lies in the future. (An event with a thread of its own can be lost, as shown further below.)
\<close>

theorem repetitive_timer_keeps_rhythm:
  assumes "timer_rep s g" and "length (ag_events g) \<le> fuel" and "random_ok env"
    and "\<forall>k<n. \<forall>h. agenda_ticks env k g = Inr h \<longrightarrow> tick_ok env h"
    and "(a, d) \<in> set (ag_events g)" and "te_timerType d = timerType_repetitive" and "\<not> te_newThread d"
    and "0 \<le> ag_now g" and "te_atTimeMillis d > ag_now g"
    and "ag_interval g \<le> te_repetitiveInterval d" and "0 < ag_interval g"
    and "\<And>c w. tc_handler c = te_timerHandler d \<Longrightarrow> fst (env_call env c w) = tc_nextTime c"
  shows "\<exists>s' g' cs ds k. ticks env fuel n s = Inr s' \<and> timer_rep s' g' \<and> ag_now g' = ag_now g + int n * ag_interval g
      \<and> calls_for cs ds \<and> ag_world g' = run_calls env cs (ag_world g)
      \<and> filter (\<lambda>x. fst x = a) ds
          = map (\<lambda>i. (a, d\<lparr> te_atTimeMillis := te_atTimeMillis d + int i * te_repetitiveInterval d \<rparr>)) [0..<k]
      \<and> (a, d\<lparr> te_atTimeMillis := te_atTimeMillis d + int k * te_repetitiveInterval d \<rparr>) \<in> set (ag_events g')
      \<and> ag_now g' < te_atTimeMillis d + int k * te_repetitiveInterval d
      \<and> (k = 0 \<or> te_atTimeMillis d + (int k - 1) * te_repetitiveInterval d \<le> ag_now g')"
proof -
  have "rhythmic env a d g" using assms(5-12) by (simp add: rhythmic_def)
  from rhythm_ticks[OF assms(1-3) this assms(4)] show ?thesis .
qed

lemma demo_agenda_tick:
  "ag_events g = [(5, demo_data\<lparr> te_atTimeMillis := t \<rparr>)] \<Longrightarrow> ag_interval g = 10 \<Longrightarrow> ag_now g + 10 = t \<Longrightarrow>
   0 \<le> ag_now g \<Longrightarrow> t \<le> 1000 \<Longrightarrow>
   tick_ok demo_env g \<and> (\<exists>g'. agenda_tick demo_env g = Inr g'
     \<and> ag_events g' = [(5, demo_data\<lparr> te_atTimeMillis := t + 10 \<rparr>)] \<and> ag_interval g' = 10 \<and> ag_now g' = t)"
  by (auto simp: tick_ok_def agenda_tick_def due_def later_def at_time_def appointment_ok_def demo_data_def demo_env_def
      in_int_def agenda_event_def agenda_handle_def proposedTime_def handler_call_def agenda_insert_def Let_def)

lemma demo_ticks_ok: "\<forall>k<3. \<forall>h. agenda_ticks demo_env k demo_agenda = Inr h \<longrightarrow> tick_ok demo_env h"
proof (intro allI impI)
  fix k :: nat and h
  assume assms: "k < 3" "agenda_ticks demo_env k demo_agenda = Inr h"
  have e: "demo_data\<lparr> te_atTimeMillis := 10 \<rparr> = demo_data" by (simp add: demo_data_def)
  have "tick_ok demo_env demo_agenda \<and> (\<exists>g'. agenda_tick demo_env demo_agenda = Inr g'
      \<and> ag_events g' = [(5, demo_data\<lparr> te_atTimeMillis := 10 + 10 \<rparr>)] \<and> ag_interval g' = 10 \<and> ag_now g' = 10)"
    by (rule demo_agenda_tick) (simp_all add: demo_agenda_def e)
  then obtain g1 where g1: "tick_ok demo_env demo_agenda" "agenda_tick demo_env demo_agenda = Inr g1"
      "ag_events g1 = [(5, demo_data\<lparr> te_atTimeMillis := 20 \<rparr>)]" "ag_interval g1 = 10" "ag_now g1 = 10"
    by auto
  obtain g2 where g2: "tick_ok demo_env g1" "agenda_tick demo_env g1 = Inr g2"
      "ag_events g2 = [(5, demo_data\<lparr> te_atTimeMillis := 30 \<rparr>)]" "ag_interval g2 = 10" "ag_now g2 = 20"
    using demo_agenda_tick[OF g1(3,4)] g1(5) by auto
  have g3: "tick_ok demo_env g2" using demo_agenda_tick[OF g2(3,4)] g2(5) by auto
  consider "k = 0" | "k = 1" | "k = 2" using assms(1) by linarith
  then show "tick_ok demo_env h" using assms(2) g1(1,2) g2(1,2) g3 by cases (auto simp: numeral_2_eq_2)
qed

text \<open>Three ticks of ten milliseconds with an event every ten: three calls, and the next at 40.\<close>

theorem repetitive_timer_keeps_rhythm_witness:
  "\<exists>s' g' ds. ticks demo_env 3 3 demo_manager = Inr s' \<and> timer_rep s' g' \<and> ag_now g' = 30
    \<and> filter (\<lambda>x. fst x = (5 :: nat)) ds = map (\<lambda>i. (5 :: nat, demo_data\<lparr> te_atTimeMillis := 10 + int i * 10 \<rparr>)) [0..<3]
    \<and> (5, demo_data\<lparr> te_atTimeMillis := 40 \<rparr>) \<in> set (ag_events g')"
proof -
  have "(5, demo_data) \<in> set (ag_events demo_agenda)" "te_timerType demo_data = timerType_repetitive"
    "\<not> te_newThread demo_data" "0 \<le> ag_now demo_agenda" "te_atTimeMillis demo_data > ag_now demo_agenda"
    "ag_interval demo_agenda \<le> te_repetitiveInterval demo_data" "0 < ag_interval demo_agenda"
    "\<And>c w. tc_handler c = te_timerHandler demo_data \<Longrightarrow> fst (env_call demo_env c w) = tc_nextTime c"
    by (simp_all add: demo_data_def demo_agenda_def demo_env_def)
  note * = repetitive_timer_keeps_rhythm[OF demo_rep demo_ok(3,2) demo_ticks_ok this]
  have v: "te_atTimeMillis demo_data = 10" "te_repetitiveInterval demo_data = 10" "ag_now demo_agenda = 0"
      "ag_interval demo_agenda = 10"
    by (simp_all add: demo_data_def demo_agenda_def)
  obtain s' g' cs ds k where
    "ticks demo_env 3 3 demo_manager = Inr s'" "timer_rep s' g'" and n: "ag_now g' = 30"
    and f: "filter (\<lambda>x. fst x = (5 :: nat)) ds = map (\<lambda>i. (5 :: nat, demo_data\<lparr> te_atTimeMillis := 10 + int i * 10 \<rparr>)) [0..<k]"
    and m: "(5, demo_data\<lparr> te_atTimeMillis := 10 + int k * 10 \<rparr>) \<in> set (ag_events g')"
    and l: "ag_now g' < 10 + int k * 10" "k = 0 \<or> 10 + (int k - 1) * 10 \<le> ag_now g'"
    using *[unfolded v] by auto
  moreover have "k = 3" using n l by auto
  ultimately show ?thesis
    by (intro exI[of _ s'] exI[of _ g'] exI[of _ ds]) simp
qed

text \<open>A one-shot event added at a free address is scheduled in its place by time, and cancelling it
  before it fires gives its memory back and restores the agenda.
\<close>

theorem tem_add_cancel_roundtrip:
  assumes "timer_rep s g" and "a \<notin> fst ` set (ag_events g @ ag_threads g)" and "length (ag_events g) \<le> fuel"
    and "in_int (ag_now g + rel)"
  shows "\<exists>s1 s2. tem_addOneShotRelative fuel (Some a) rel (Some handler) src ty dat nt s = Inr (a, s1)
    \<and> timer_rep s1 (agenda_insert (a, one_shot (ag_now g + rel) handler src ty dat nt) g)
    \<and> tem_cancel a s1 = Inr s2 \<and> timer_rep s2 g \<and> tm_events s2 a = None"
proof -
  let ?d = "one_shot (ag_now g + rel) handler src ty dat nt"
  obtain s1 where s1: "tem_addOneShotRelative fuel (Some a) rel (Some handler) src ty dat nt s = Inr (a, s1)"
      "timer_rep s1 (agenda_insert (a, ?d) g)"
    using addOneShotRelative_refines[OF assms] by blast
  have "(a, ?d) \<in> set (ag_events (agenda_insert (a, ?d) g))" by (simp add: agenda_insert_def set_insort_key)
  then obtain s2 where "tem_cancel a s1 = Inr s2" "timer_rep s2 (agenda_cancel a (agenda_insert (a, ?d) g))"
      "tm_events s2 a = None"
    using cancel_refines[OF s1(2)] by blast
  then show ?thesis using s1 cancel_insert[of a g ?d] assms(2) by (auto simp: image_Un)
qed

theorem tem_add_cancel_roundtrip_witness:
  "\<exists>s1 s2. tem_addOneShotRelative 3 (Some 8) 15 (Some 2) 0 0 0 False demo_manager = Inr (8, s1)
    \<and> tem_cancel 8 s1 = Inr s2 \<and> timer_rep s2 demo_agenda"
proof -
  have "8 \<notin> fst ` set (ag_events demo_agenda @ ag_threads demo_agenda)" "in_int (ag_now demo_agenda + 15)"
    by (simp_all add: demo_agenda_def in_int_def)
  then show ?thesis
    using tem_add_cancel_roundtrip[OF demo_rep _ demo_ok(3), of 8 15 2 0 0 0 False] by blast
qed

text \<open>A random timer whose two intervals are both at most the resolution, which the comment says are
  set to the resolution, divides by zero: there is no interval left to choose from.
\<close>

theorem tem_addRandom_below_resolution_divides_by_zero:
  assumes "minInterval \<le> tm_callbackInterval s" and "maxInterval \<le> tm_callbackInterval s"
  shows "tem_addRandom env fuel (Some a) minInterval maxInterval (Some handler) src ty dat nt s = Inl DivByZero"
proof -
  have "(if m < tm_callbackInterval s then tm_callbackInterval s else m) = tm_callbackInterval s"
    if "m \<le> tm_callbackInterval s" for m
    using that by auto
  then show ?thesis using assms
    by (simp add: tem_addRandom_def calcRandomInterval_def c_rem_def in_int_def Let_def)
qed

theorem tem_addRandom_below_resolution_divides_by_zero_witness:
  "tem_addRandom demo_env 3 (Some 8) 2 5 (Some 1) 0 0 0 False demo_manager = Inl DivByZero"
  by (rule tem_addRandom_below_resolution_divides_by_zero) (simp_all add: demo_manager_def)

text \<open>A repetitive event with a thread of its own is dropped for good when its thread runs only after
  the next time of the event has come, although its handler asked for that next time.
\<close>

theorem late_thread_timer_is_lost:
  assumes "timer_rep s g" and "(a, d) \<in> set (ag_threads g)" and "length (ag_events g) \<le> fuel"
    and "te_timerType d = timerType_repetitive" and "in_int (te_atTimeMillis d + te_repetitiveInterval d)"
    and "te_atTimeMillis d + te_repetitiveInterval d \<le> ag_now g"
    and "\<And>c w. fst (env_call env c w) = tc_nextTime c"
  shows "\<exists>s' g'. eventThreadFunc env fuel a s = Inr s' \<and> timer_rep s' g'
    \<and> ag_events g' = ag_events g \<and> a \<notin> fst ` set (ag_threads g')"
proof -
  let ?t = "te_atTimeMillis d + te_repetitiveInterval d"
  obtain w where w: "env_call env (handler_call d ?t) (ag_world g) = (?t, w)"
    using assms(7)[of "handler_call d ?t" "ag_world g"]
    by (cases "env_call env (handler_call d ?t) (ag_world g)") (simp add: handler_call_def)
  let ?g = "g\<lparr> ag_threads := remove1 (a, d) (ag_threads g), ag_world := w \<rparr>"
  have "agenda_thread env (a, d) g = Inr (?g\<lparr> ag_randoms := ag_randoms g \<rparr>)"
    using assms(4-6) w by (cases g) (simp add: agenda_thread_def agenda_handle_def proposedTime_def)
  then obtain s' where "eventThreadFunc env fuel a s = Inr s'" "timer_rep s' (?g\<lparr> ag_randoms := ag_randoms g \<rparr>)"
    using thread_refines[OF assms(1-3), of env] by (cases "eventThreadFunc env fuel a s") auto
  then show ?thesis using rep_remove_thread(2)[OF assms(1,2)]
    by (intro exI[of _ s'] exI[of _ "?g\<lparr> ag_randoms := ag_randoms g \<rparr>"]) (simp add: image_Un)
qed

theorem late_thread_timer_is_lost_witness:
  "\<exists>s' g'. eventThreadFunc demo_env 3 5 (demo_manager\<lparr> tm_firstTE := None, tm_threads := [5], tm_timerTimeMillis := 20 \<rparr>)
      = Inr s' \<and> timer_rep s' g' \<and> ag_events g' = [] \<and> 5 \<notin> fst ` set (ag_threads g')"
proof -
  let ?s = "demo_manager\<lparr> tm_firstTE := None, tm_threads := [5], tm_timerTimeMillis := 20 \<rparr>"
  let ?g = "demo_agenda\<lparr> ag_events := [], ag_threads := [(5, demo_data)], ag_now := 20 \<rparr>"
  have "timer_rep ?s ?g"
    by (simp add: timer_rep_def demo_manager_def demo_agenda_def demo_data_def data_of_def body_by_def timer_data.defs)
  then show ?thesis
    using late_thread_timer_is_lost[of ?s ?g 5 demo_data 3 demo_env] by (simp add: demo_data_def demo_env_def demo_agenda_def in_int_def)
qed

end
