(* ===== verification/Threading.thy ===== *)
theory Threading
  imports Err
begin

section \<open>The threading layer\<close>

text \<open>
  \<open>src/threading.c\<close>: the recursive mutex that every locked component uses, made of a pthread mutex, a
  semaphore that guards the bookkeeping, and a count. Threads interleave, so each function is a
  program of steps, one per operation on the semaphore, the pthread mutex or the guarded fields, and
  the system is the mutex with a program counter per thread. The pthread and semaphore operations
  behave as documented and succeed on initialised objects. The field \<open>pid\<close>, which is only written
  for a debugger to read, is left out.
\<close>

subsection \<open>Initialisation\<close>

text \<open>The four attribute objects by number; an outcome is whether a call returned 0.\<close>

record threading =
  th_inits :: int
  th_attrs :: "nat set"

abbreviation (input) detachedThreadAttr :: nat where "detachedThreadAttr \<equiv> 0"
abbreviation (input) realtimeDetachedThreadAttr :: nat where "realtimeDetachedThreadAttr \<equiv> 1"
abbreviation (input) joinableRealtimeThreadAttr :: nat where "joinableRealtimeThreadAttr \<equiv> 2"
abbreviation (input) detachedLowPrioThreadAttr :: nat where "detachedLowPrioThreadAttr \<equiv> 3"

text \<open>The calls of \<open>threading_init\<close> in order: the object a call initialises, and its error text.\<close>

definition init_calls :: "(nat option \<times> string) list" where
  "init_calls =
     [(Some detachedThreadAttr, ''pthread_attr_init failed.''),
      (None, ''pthread_attr_setdetachstate failed.''),
      (Some realtimeDetachedThreadAttr, ''pthread_attr_init failed.''),
      (None, ''pthread_attr_setdetachstate failed.''),
      (None, ''pthread_attr_setdetachstate failed.''),
      (None, ''pthread_attr_setschedparam failed.''),
      (Some joinableRealtimeThreadAttr, ''pthread_attr_init failed.''),
      (None, ''pthread_attr_setdetachstate failed.''),
      (None, ''pthread_attr_setschedpolicy failed.''),
      (None, ''pthread_attr_setschedparam failed.''),
      (Some detachedLowPrioThreadAttr, ''pthread_attr_init failed.''),
      (None, ''pthread_attr_setdetachstate failed.''),
      (None, ''pthread_attr_setschedpolicy failed.'')]"

fun run_init_calls ::
  "bool \<times> bool \<Rightarrow> bool list \<Rightarrow> (nat option \<times> string) list \<Rightarrow> nat set \<Rightarrow> (bool \<times> Error \<times> nat set) res" where
  "run_init_calls errOk oks [] attrs = Inr (True, None, attrs)"
| "run_init_calls errOk oks ((obj, text) # calls) attrs =
     (if oks \<noteq> [] \<and> hd oks
      then run_init_calls errOk (tl oks) calls (case obj of None \<Rightarrow> attrs | Some a \<Rightarrow> insert a attrs)
      else rbind (ErrNew (fst errOk) (snd errOk) ERR_THREADING 0 None text) (\<lambda>e. Inr (False, e, attrs)))"

definition threading_init :: "bool \<times> bool \<Rightarrow> bool list \<Rightarrow> threading \<Rightarrow> (Error \<times> threading) res" where
  "threading_init errOk oks g =
     (if th_inits g = 0 then
        rbind (run_init_calls errOk oks init_calls (th_attrs g)) (\<lambda>(ok, error, attrs).
        if ok then rbind (iadd (th_inits g) 1) (\<lambda>n. Inr (None, g\<lparr> th_inits := n, th_attrs := attrs \<rparr>))
        else Inr (error, g\<lparr> th_attrs := attrs \<rparr>))
      else rbind (iadd (th_inits g) 1) (\<lambda>n. Inr (None, g\<lparr> th_inits := n \<rparr>)))"

definition threading_shutdown :: "bool \<times> bool \<Rightarrow> bool \<Rightarrow> threading \<Rightarrow> (Error \<times> threading) res" where
  "threading_shutdown errOk destroyOk g =
     rbind (rassert (th_inits g > 0)) (\<lambda>_.
     (let g1 = g\<lparr> th_inits := th_inits g - 1 \<rparr> in
      if th_inits g1 = 0 then
        if destroyOk then Inr (None, g1\<lparr> th_attrs := th_attrs g1 - {detachedThreadAttr} \<rparr>)
        else rbind (ErrNew (fst errOk) (snd errOk) ERR_THREADING 0 None ''pthread_attr_destroy failed.'')
               (\<lambda>e. Inr (e, g1))
      else Inr (None, g1)))"

subsection \<open>The mutex\<close>

type_synonym where_tag = "string option"

text \<open>\<open>vm_mutex\<close> is the thread that has the pthread mutex locked, \<open>vm_semaphore\<close> the semaphore's value.\<close>

record sVoxiMutex =
  vm_mutex :: "nat option"
  vm_thread :: nat
  vm_semaphore :: nat
  vm_count :: int
  vm_lastLockFrom :: where_tag
  vm_debug :: bool

text \<open>\<open>garbage\<close> is what the memory of the field \<open>thread\<close> holds, which is not initialised.\<close>

definition threading_mutex_init :: "bool \<times> bool \<Rightarrow> bool \<Rightarrow> bool \<Rightarrow> nat \<Rightarrow> (Error \<times> sVoxiMutex option) res" where
  "threading_mutex_init errOk semOk mutexOk garbage =
     (if \<not> semOk then
        rbind (ErrNew (fst errOk) (snd errOk) ERR_THREADING 0 None ''sem_init failed.'') (\<lambda>e. Inr (e, None))
      else if \<not> mutexOk then
        rbind (ErrNew (fst errOk) (snd errOk) ERR_THREADING 0 None ''pthread_mutex_init failed.'') (\<lambda>e. Inr (e, None))
      else Inr (None, Some \<lparr> vm_mutex = None, vm_thread = garbage, vm_semaphore = 1, vm_count = 0,
                             vm_lastLockFrom = None, vm_debug = False \<rparr>))"

definition threading_mutex_destroy :: "sVoxiMutex \<Rightarrow> unit res" where
  "threading_mutex_destroy m = rassert (vm_count m = 0)"

definition threading_mutex_setDebug :: "bool \<Rightarrow> sVoxiMutex \<Rightarrow> sVoxiMutex" where
  "threading_mutex_setDebug debug m = m\<lparr> vm_debug := debug \<rparr>"

text \<open>
  \<open>sem_wait\<close> may be interrupted by a signal; the wrapper repeats it. The list says how the attempts
  end; when it runs out, the thread still waits.
\<close>

datatype sem_outcome = Sem_ok | Sem_EINTR | Sem_error int

fun threading_sem_wait :: "sem_outcome list \<Rightarrow> int res" where
  "threading_sem_wait [] = Inl Blocked"
| "threading_sem_wait (Sem_ok # _) = Inr 0"
| "threading_sem_wait (Sem_EINTR # os) = threading_sem_wait os"
| "threading_sem_wait (Sem_error e # _) = Inr (-1)"

text \<open>A step is \<open>None\<close> while it would block.\<close>

definition sem_wait_step :: "sVoxiMutex \<Rightarrow> sVoxiMutex option" where
  "sem_wait_step m = (if vm_semaphore m = 0 then None else Some (m\<lparr> vm_semaphore := vm_semaphore m - 1 \<rparr>))"

definition sem_post :: "sVoxiMutex \<Rightarrow> sVoxiMutex" where
  "sem_post m = m\<lparr> vm_semaphore := Suc (vm_semaphore m) \<rparr>"

definition mutex_lock_step :: "nat \<Rightarrow> sVoxiMutex \<Rightarrow> sVoxiMutex option" where
  "mutex_lock_step t m = (if vm_mutex m = None then Some (m\<lparr> vm_mutex := Some t \<rparr>) else None)"

subsection \<open>Locking, unlocking, waiting\<close>

text \<open>
  Where a thread is inside \<open>threading_mutex_lock_debug\<close>: before the first \<open>sem_wait\<close>, before the test
  for a recursive lock, before the \<open>sem_post\<close> of the other branch, before \<open>pthread_mutex_lock\<close>, before
  the second \<open>sem_wait\<close>, before the mutex is marked as taken, before the last \<open>sem_post\<close>.
\<close>

datatype lock_pc = L_wait | L_test | L_post | L_mutex | L_wait2 | L_take | L_done where_tag

fun threading_mutex_lock_debug ::
  "nat \<Rightarrow> where_tag \<Rightarrow> lock_pc \<Rightarrow> sVoxiMutex \<Rightarrow> (sVoxiMutex \<times> (lock_pc + where_tag)) res option" where
  "threading_mutex_lock_debug t loc L_wait m = map_option (\<lambda>m'. Inr (m', Inl L_test)) (sem_wait_step m)"
| "threading_mutex_lock_debug t loc L_test m = Some
     (rbind (rassert (vm_semaphore m = 0)) (\<lambda>_.
      if vm_count m > 0 \<and> vm_thread m = t
      then rbind (iadd (vm_count m) 1) (\<lambda>n.
           Inr (m\<lparr> vm_count := n, vm_lastLockFrom := loc \<rparr>, Inl (L_done (vm_lastLockFrom m))))
      else Inr (m, Inl L_post)))"
| "threading_mutex_lock_debug t loc L_post m = Some (Inr (sem_post m, Inl L_mutex))"
| "threading_mutex_lock_debug t loc L_mutex m = map_option (\<lambda>m'. Inr (m', Inl L_wait2)) (mutex_lock_step t m)"
| "threading_mutex_lock_debug t loc L_wait2 m = map_option (\<lambda>m'. Inr (m', Inl L_take)) (sem_wait_step m)"
| "threading_mutex_lock_debug t loc L_take m = Some
     (rbind (rassert (vm_semaphore m = 0)) (\<lambda>_.
      rbind (rassert (vm_count m = 0)) (\<lambda>_.
      Inr (m\<lparr> vm_count := 1, vm_thread := t, vm_lastLockFrom := loc \<rparr>, Inl (L_done (vm_lastLockFrom m))))))"
| "threading_mutex_lock_debug t loc (L_done oldWhere) m = Some (Inr (sem_post m, Inr oldWhere))"

text \<open>
  Inside \<open>threading_mutex_unlock_debug\<close>: before \<open>sem_wait\<close>, before the count is decreased, before
  \<open>pthread_mutex_unlock\<close>, before \<open>sem_post\<close>.
\<close>

datatype unlock_pc = U_wait | U_count | U_mutex | U_post

fun threading_mutex_unlock_debug ::
  "nat \<Rightarrow> where_tag \<Rightarrow> unlock_pc \<Rightarrow> sVoxiMutex \<Rightarrow> (sVoxiMutex \<times> unlock_pc option) res option" where
  "threading_mutex_unlock_debug t oldWhere U_wait m = map_option (\<lambda>m'. Inr (m', Some U_count)) (sem_wait_step m)"
| "threading_mutex_unlock_debug t oldWhere U_count m = Some
     (rbind (rassert (vm_semaphore m = 0)) (\<lambda>_.
      rbind (rassert (vm_thread m = t)) (\<lambda>_.
      rbind (rassert (vm_count m > 0)) (\<lambda>_.
      (let m1 = m\<lparr> vm_lastLockFrom := oldWhere, vm_count := vm_count m - 1 \<rparr>
       in Inr (m1, Some (if vm_count m1 = 0 then U_mutex else U_post)))))))"
| "threading_mutex_unlock_debug t oldWhere U_mutex m = Some
     (rbind (rassert (oldWhere = None)) (\<lambda>_.
      Inr (m\<lparr> vm_mutex := None \<rparr>, Some U_post)))"
| "threading_mutex_unlock_debug t oldWhere U_post m = Some (Inr (sem_post m, None))"

text \<open>
  Inside the two waits: before \<open>sem_wait\<close>, before the state is saved, before \<open>sem_post\<close>, before
  \<open>pthread_cond_wait\<close> (or the timed one), asleep in it, before the second \<open>sem_wait\<close>, before the state
  is restored, before the last \<open>sem_post\<close>. \<open>timed\<close> tells the two functions apart: only the timed wait
  asserts that the caller is the owner, and only its wait may fail at once, without sleeping
  (\<open>invalid\<close>). A sleeping thread may wake at any time and then takes the pthread mutex again.
\<close>

datatype wait_pc = W_wait | W_save | W_post int where_tag | W_cond int where_tag | W_asleep int where_tag
  | W_wait2 int where_tag | W_restore int where_tag | W_done

fun cond_wait_step ::
  "bool \<Rightarrow> bool \<Rightarrow> nat \<Rightarrow> wait_pc \<Rightarrow> sVoxiMutex \<Rightarrow> (sVoxiMutex \<times> wait_pc option) res option" where
  "cond_wait_step timed invalid t W_wait m = map_option (\<lambda>m'. Inr (m', Some W_save)) (sem_wait_step m)"
| "cond_wait_step timed invalid t W_save m = Some
     (rbind (rassert (vm_semaphore m = 0)) (\<lambda>_.
      rbind (rassert (\<not> timed \<or> vm_thread m = t)) (\<lambda>_.
      rbind (rassert (vm_count m > 0)) (\<lambda>_.
      Inr (m\<lparr> vm_lastLockFrom := None, vm_count := 0 \<rparr>, Some (W_post (vm_count m) (vm_lastLockFrom m)))))))"
| "cond_wait_step timed invalid t (W_post oldCount oldWhere) m =
     Some (Inr (sem_post m, Some (W_cond oldCount oldWhere)))"
| "cond_wait_step timed invalid t (W_cond oldCount oldWhere) m =
     Some (Inr (if timed \<and> invalid then (m, Some (W_wait2 oldCount oldWhere))
                else (m\<lparr> vm_mutex := None \<rparr>, Some (W_asleep oldCount oldWhere))))"
| "cond_wait_step timed invalid t (W_asleep oldCount oldWhere) m =
     map_option (\<lambda>m'. Inr (m', Some (W_wait2 oldCount oldWhere))) (mutex_lock_step t m)"
| "cond_wait_step timed invalid t (W_wait2 oldCount oldWhere) m =
     map_option (\<lambda>m'. Inr (m', Some (W_restore oldCount oldWhere))) (sem_wait_step m)"
| "cond_wait_step timed invalid t (W_restore oldCount oldWhere) m = Some
     (rbind (rassert (vm_semaphore m = 0)) (\<lambda>_.
      rbind (rassert (vm_count m = 0)) (\<lambda>_.
      Inr (m\<lparr> vm_count := oldCount, vm_lastLockFrom := oldWhere, vm_thread := t \<rparr>, Some W_done))))"
| "cond_wait_step timed invalid t W_done m = Some (Inr (sem_post m, None))"

definition threading_cond_wait ::
  "nat \<Rightarrow> wait_pc \<Rightarrow> sVoxiMutex \<Rightarrow> (sVoxiMutex \<times> wait_pc option) res option" where
  "threading_cond_wait = cond_wait_step False False"

definition threading_cond_absolute_timedwait ::
  "bool \<Rightarrow> nat \<Rightarrow> wait_pc \<Rightarrow> sVoxiMutex \<Rightarrow> (sVoxiMutex \<times> wait_pc option) res option" where
  "threading_cond_absolute_timedwait = cond_wait_step True"

text \<open>The time at which \<open>threading_cond_timedwait\<close> gives up, from the time of day and the time to wait.\<close>

definition wakeuptime :: "int \<times> int \<Rightarrow> nat \<Rightarrow> int \<times> int" where
  "wakeuptime now usec = (fst now + int (usec div 1000000), (snd now + int (usec mod 1000000)) * 1000)"

text \<open>\<open>pthread_cond_timedwait\<close> returns \<open>EINVAL\<close> for a number of nanoseconds outside a second.\<close>

definition valid_timespec :: "int \<times> int \<Rightarrow> bool" where
  "valid_timespec ts \<longleftrightarrow> 0 \<le> snd ts \<and> snd ts < 1000000000"

definition threading_cond_timedwait ::
  "int \<times> int \<Rightarrow> nat \<Rightarrow> nat \<Rightarrow> wait_pc \<Rightarrow> sVoxiMutex \<Rightarrow> (sVoxiMutex \<times> wait_pc option) res option" where
  "threading_cond_timedwait now usec =
     threading_cond_absolute_timedwait (\<not> valid_timespec (wakeuptime now usec))"

subsection \<open>Threads that share a mutex\<close>

text \<open>
  A thread is outside the functions, or inside one. The locks it holds are remembered by what locking
  them returned. Clients follow the contract of the header: they unlock and wait only what they hold,
  and unlock with NULL (\<open>threading_mutex_unlock\<close>) or with what the matching lock returned.
\<close>

datatype pc = Outside | Lock where_tag lock_pc | Unlock where_tag unlock_pc | CondWait bool wait_pc

datatype action = Go | Call_lock where_tag | Call_unlock where_tag | Call_wait bool | Fail_timedwait

record system =
  sy_mutex :: sVoxiMutex
  sy_pc :: "nat \<Rightarrow> pc"
  sy_held :: "nat \<Rightarrow> where_tag list"

definition start :: "sVoxiMutex \<Rightarrow> system" where
  "start m = \<lparr> sy_mutex = m, sy_pc = (\<lambda>_. Outside), sy_held = (\<lambda>_. []) \<rparr>"

definition goes_to :: "system \<Rightarrow> nat \<Rightarrow> pc \<Rightarrow> system" where
  "goes_to s t p = s\<lparr> sy_pc := (sy_pc s)(t := p) \<rparr>"

definition moved :: "system \<Rightarrow> nat \<Rightarrow> sVoxiMutex \<Rightarrow> pc \<Rightarrow> where_tag list \<Rightarrow> system" where
  "moved s t m p st = \<lparr> sy_mutex = m, sy_pc = (sy_pc s)(t := p), sy_held = (sy_held s)(t := st) \<rparr>"

definition inside :: "nat \<Rightarrow> bool \<Rightarrow> system \<Rightarrow> system res option" where
  "inside t invalid s =
     (let m = sy_mutex s; st = sy_held s t in
      case sy_pc s t of
        Outside \<Rightarrow> None
      | Lock loc p \<Rightarrow> map_option (\<lambda>r. rbind r (\<lambda>(m', q). Inr
          (case q of Inl p' \<Rightarrow> moved s t m' (Lock loc p') st | Inr old \<Rightarrow> moved s t m' Outside (old # st))))
          (threading_mutex_lock_debug t loc p m)
      | Unlock loc p \<Rightarrow> map_option (\<lambda>r. rbind r (\<lambda>(m', q). Inr
          (case q of Some p' \<Rightarrow> moved s t m' (Unlock loc p') st | None \<Rightarrow> moved s t m' Outside (tl st))))
          (threading_mutex_unlock_debug t loc p m)
      | CondWait timed p \<Rightarrow> map_option (\<lambda>r. rbind r (\<lambda>(m', q). Inr
          (case q of Some p' \<Rightarrow> moved s t m' (CondWait timed p') st | None \<Rightarrow> moved s t m' Outside st)))
          (if timed then threading_cond_absolute_timedwait invalid t p m else threading_cond_wait t p m))"

definition thread_step :: "nat \<Rightarrow> action \<Rightarrow> system \<Rightarrow> system res option" where
  "thread_step t act s =
     (case act of
        Go \<Rightarrow> inside t False s
      | Fail_timedwait \<Rightarrow> inside t True s
      | Call_lock loc \<Rightarrow> (if sy_pc s t = Outside then Some (Inr (goes_to s t (Lock loc L_wait))) else None)
      | Call_unlock loc \<Rightarrow>
          (if sy_pc s t = Outside \<and> sy_held s t \<noteq> [] \<and> (loc = None \<or> loc = hd (sy_held s t))
           then Some (Inr (goes_to s t (Unlock loc U_wait))) else None)
      | Call_wait timed \<Rightarrow>
          (if sy_pc s t = Outside \<and> sy_held s t \<noteq> [] then Some (Inr (goes_to s t (CondWait timed W_wait))) else None))"

inductive reachable :: "sVoxiMutex \<Rightarrow> system \<Rightarrow> bool" for m where
  reach_start: "reachable m (start m)"
| reach_step: "reachable m s \<Longrightarrow> thread_step t act s = Some (Inr s') \<Longrightarrow> reachable m s'"

fun run_schedule :: "(nat \<times> action) list \<Rightarrow> system \<Rightarrow> system res option" where
  "run_schedule [] s = Some (Inr s)"
| "run_schedule ((t, act) # rest) s =
     (case thread_step t act s of Some (Inr s') \<Rightarrow> run_schedule rest s' | r \<Rightarrow> r)"

lemma run_schedule_reachable:
  "reachable m s \<Longrightarrow> run_schedule sched s = Some (Inr s') \<Longrightarrow> reachable m s'"
  by (induction sched s rule: run_schedule.induct)
     (auto split: option.splits sum.splits intro: reach_step)

subsection \<open>The invariant\<close>

text \<open>Between \<open>sem_wait\<close> and \<open>sem_post\<close>.\<close>

fun in_sem :: "pc \<Rightarrow> bool" where
  "in_sem Outside = False"
| "in_sem (Lock _ p) = (case p of L_test \<Rightarrow> True | L_post \<Rightarrow> True | L_take \<Rightarrow> True | L_done _ \<Rightarrow> True | _ \<Rightarrow> False)"
| "in_sem (Unlock _ p) = (p \<noteq> U_wait)"
| "in_sem (CondWait _ p) = (case p of W_save \<Rightarrow> True | W_post _ _ \<Rightarrow> True | W_restore _ _ \<Rightarrow> True | W_done \<Rightarrow> True | _ \<Rightarrow> False)"

text \<open>Having the pthread mutex.\<close>

fun owns :: "pc \<Rightarrow> where_tag list \<Rightarrow> bool" where
  "owns Outside st = (st \<noteq> [])"
| "owns (Lock _ p) st = (case p of L_wait \<Rightarrow> st \<noteq> [] | L_test \<Rightarrow> st \<noteq> [] | L_post \<Rightarrow> False | L_mutex \<Rightarrow> False | _ \<Rightarrow> True)"
| "owns (Unlock _ p) st = (p = U_post \<longrightarrow> tl st \<noteq> [])"
| "owns (CondWait _ p) st = (case p of W_asleep _ _ \<Rightarrow> False | _ \<Rightarrow> True)"

text \<open>The count that belongs to where the owner is.\<close>

fun depth :: "pc \<Rightarrow> where_tag list \<Rightarrow> nat" where
  "depth Outside st = length st"
| "depth (Lock _ p) st = (case p of L_wait2 \<Rightarrow> 0 | L_take \<Rightarrow> 0 | L_done _ \<Rightarrow> Suc (length st) | _ \<Rightarrow> length st)"
| "depth (Unlock _ p) st = (case p of U_mutex \<Rightarrow> 0 | U_post \<Rightarrow> length st - 1 | _ \<Rightarrow> length st)"
| "depth (CondWait _ p) st = (case p of W_wait \<Rightarrow> length st | W_save \<Rightarrow> length st | W_done \<Rightarrow> length st | _ \<Rightarrow> 0)"

text \<open>What a thread remembers fits the locks it holds.\<close>

fun pc_ok :: "pc \<Rightarrow> where_tag list \<Rightarrow> bool" where
  "pc_ok Outside st = True"
| "pc_ok (Lock _ p) st = (case p of L_wait \<Rightarrow> True | L_test \<Rightarrow> True | L_done old \<Rightarrow> (st = [] \<longrightarrow> old = None) | _ \<Rightarrow> st = [])"
| "pc_ok (Unlock loc p) st = (st \<noteq> [] \<and> (loc = None \<or> loc = hd st) \<and> (p = U_mutex \<longrightarrow> tl st = []))"
| "pc_ok (CondWait _ p) st = (st \<noteq> [] \<and> (case p of
     W_post n _ \<Rightarrow> n = int (length st) | W_cond n _ \<Rightarrow> n = int (length st) | W_asleep n _ \<Rightarrow> n = int (length st)
   | W_wait2 n _ \<Rightarrow> n = int (length st) | W_restore n _ \<Rightarrow> n = int (length st) | _ \<Rightarrow> True))"

definition sem_inv :: "system \<Rightarrow> bool" where
  "sem_inv s \<longleftrightarrow> (\<exists>h. (\<forall>t. in_sem (sy_pc s t) \<longleftrightarrow> h = Some t)
     \<and> vm_semaphore (sy_mutex s) = (if h = None then 1 else 0))"

definition own_inv :: "system \<Rightarrow> bool" where
  "own_inv s \<longleftrightarrow> (\<forall>t. owns (sy_pc s t) (sy_held s t) \<longleftrightarrow> vm_mutex (sy_mutex s) = Some t)"

definition count_inv :: "system \<Rightarrow> bool" where
  "count_inv s \<longleftrightarrow> (let m = sy_mutex s in
     vm_count m = (case vm_mutex m of None \<Rightarrow> 0 | Some t \<Rightarrow> int (depth (sy_pc s t) (sy_held s t)))
     \<and> (vm_count m > 0 \<longrightarrow> vm_mutex m = Some (vm_thread m)) \<and> (vm_count m = 0 \<longrightarrow> vm_lastLockFrom m = None))"

definition local_inv :: "system \<Rightarrow> bool" where
  "local_inv s \<longleftrightarrow> (\<forall>t. pc_ok (sy_pc s t) (sy_held s t) \<and> (sy_held s t \<noteq> [] \<longrightarrow> last (sy_held s t) = None))"

definition voxi_inv :: "system \<Rightarrow> bool" where
  "voxi_inv s \<longleftrightarrow> sem_inv s \<and> own_inv s \<and> count_inv s \<and> local_inv s"

text \<open>A new mutex.\<close>

definition fresh_mutex :: "sVoxiMutex \<Rightarrow> bool" where
  "fresh_mutex m \<longleftrightarrow> vm_mutex m = None \<and> vm_semaphore m = 1 \<and> vm_count m = 0 \<and> vm_lastLockFrom m = None"

lemma threading_mutex_init_fresh:
  "threading_mutex_init errOk True True garbage = Inr (e, Some m) \<Longrightarrow> fresh_mutex m"
  by (auto simp: threading_mutex_init_def fresh_mutex_def)

lemma voxi_inv_start: "fresh_mutex m \<Longrightarrow> voxi_inv (start m)"
  by (simp add: voxi_inv_def sem_inv_def own_inv_def count_inv_def local_inv_def fresh_mutex_def start_def)

lemma inv_sem: "voxi_inv s \<Longrightarrow> in_sem (sy_pc s t) \<Longrightarrow> vm_semaphore (sy_mutex s) = 0"
  by (auto simp: voxi_inv_def sem_inv_def)

lemma inv_owns: "voxi_inv s \<Longrightarrow> owns (sy_pc s t) (sy_held s t) \<longleftrightarrow> vm_mutex (sy_mutex s) = Some t"
  by (simp add: voxi_inv_def own_inv_def)

lemma inv_count:
  "voxi_inv s \<Longrightarrow> vm_count (sy_mutex s) = (case vm_mutex (sy_mutex s) of None \<Rightarrow> 0
     | Some t \<Rightarrow> int (depth (sy_pc s t) (sy_held s t)))"
  unfolding voxi_inv_def count_inv_def Let_def by blast

lemma inv_depth:
  "voxi_inv s \<Longrightarrow> vm_mutex (sy_mutex s) = Some t \<Longrightarrow> vm_count (sy_mutex s) = int (depth (sy_pc s t) (sy_held s t))"
  by (simp add: inv_count)

lemma inv_unowned: "voxi_inv s \<Longrightarrow> vm_mutex (sy_mutex s) = None \<Longrightarrow> vm_count (sy_mutex s) = 0"
  by (simp add: inv_count)

lemma inv_owner:
  "voxi_inv s \<Longrightarrow> vm_count (sy_mutex s) > 0 \<Longrightarrow> vm_mutex (sy_mutex s) = Some (vm_thread (sy_mutex s))"
  unfolding voxi_inv_def count_inv_def Let_def by blast

lemma inv_name: "voxi_inv s \<Longrightarrow> vm_count (sy_mutex s) = 0 \<Longrightarrow> vm_lastLockFrom (sy_mutex s) = None"
  unfolding voxi_inv_def count_inv_def Let_def by blast

lemma inv_pc: "voxi_inv s \<Longrightarrow> pc_ok (sy_pc s t) (sy_held s t)"
  and inv_held: "voxi_inv s \<Longrightarrow> sy_held s t \<noteq> [] \<Longrightarrow> last (sy_held s t) = None"
  by (simp_all add: voxi_inv_def local_inv_def)

lemma inv_count_other:
  assumes "voxi_inv s" and "vm_mutex (sy_mutex s) \<noteq> Some t" and "vm_count (sy_mutex s) > 0"
  shows "vm_thread (sy_mutex s) \<noteq> t"
  using inv_owner[OF assms(1,3)] assms(2) by auto

text \<open>The step of one thread, seen from outside.\<close>

lemma inv_moved:
  assumes "voxi_inv s"
    and "in_sem p' = in_sem (sy_pc s t) \<and> vm_semaphore m' = vm_semaphore (sy_mutex s)
      \<or> \<not> in_sem (sy_pc s t) \<and> in_sem p' \<and> vm_semaphore (sy_mutex s) \<noteq> 0 \<and> vm_semaphore m' = vm_semaphore (sy_mutex s) - 1
      \<or> in_sem (sy_pc s t) \<and> \<not> in_sem p' \<and> vm_semaphore m' = Suc (vm_semaphore (sy_mutex s))"
    and "owns p' st' = owns (sy_pc s t) (sy_held s t) \<and> vm_mutex m' = vm_mutex (sy_mutex s)
      \<or> vm_mutex (sy_mutex s) = None \<and> vm_mutex m' = Some t \<and> owns p' st'
      \<or> owns (sy_pc s t) (sy_held s t) \<and> vm_mutex m' = None \<and> \<not> owns p' st'"
    and "vm_count m' = (if vm_mutex m' = None then 0 else if vm_mutex m' = Some t then int (depth p' st')
      else vm_count (sy_mutex s))"
    and "vm_count m' > 0 \<longrightarrow> vm_mutex m' = Some (vm_thread m')"
    and "vm_count m' = 0 \<longrightarrow> vm_lastLockFrom m' = None"
    and "pc_ok p' st'" and "st' \<noteq> [] \<longrightarrow> last st' = None"
  shows "voxi_inv (moved s t m' p' st')"
proof -
  have "sem_inv (moved s t m' p' st')"
  proof -
    obtain h where h: "\<forall>u. in_sem (sy_pc s u) \<longleftrightarrow> h = Some u" "vm_semaphore (sy_mutex s) = (if h = None then 1 else 0)"
      using assms(1) by (auto simp: voxi_inv_def sem_inv_def)
    show ?thesis unfolding sem_inv_def
      by (rule exI[of _ "if in_sem p' = in_sem (sy_pc s t) then h else if in_sem p' then Some t else None"])
         (use h assms(2) in \<open>auto simp: moved_def split: if_splits\<close>)
  qed
  moreover have "own_inv (moved s t m' p' st')"
    unfolding own_inv_def
  proof
    fix u
    show "owns (sy_pc (moved s t m' p' st') u) (sy_held (moved s t m' p' st') u)
        \<longleftrightarrow> vm_mutex (sy_mutex (moved s t m' p' st')) = Some u"
      using assms(3) inv_owns[OF assms(1), of t] inv_owns[OF assms(1), of u]
      by (cases "u = t") (auto simp: moved_def)
  qed
  moreover have "count_inv (moved s t m' p' st')"
  proof -
    have "vm_count m' = (case vm_mutex m' of None \<Rightarrow> 0
        | Some u \<Rightarrow> int (depth (((sy_pc s)(t := p')) u) (((sy_held s)(t := st')) u)))"
    proof (cases "vm_mutex m'")
      case (Some u)
      then have "u \<noteq> t \<Longrightarrow> vm_mutex (sy_mutex s) = Some u" using assms(3) by auto
      then show ?thesis using Some assms(4) inv_depth[OF assms(1), of u] by (cases "u = t") simp_all
    qed (use assms(4) in simp)
    then show ?thesis using assms(5,6) unfolding count_inv_def Let_def moved_def system.simps by blast
  qed
  moreover have "local_inv (moved s t m' p' st')"
    using assms(1,7,8) by (auto simp: voxi_inv_def local_inv_def moved_def)
  ultimately show ?thesis by (simp add: voxi_inv_def)
qed

lemma inv_goes_to:
  assumes "voxi_inv s" and "sy_pc s t = Outside" and "\<not> in_sem p'"
    and "owns p' (sy_held s t) = (sy_held s t \<noteq> [])" and "depth p' (sy_held s t) = length (sy_held s t)"
    and "pc_ok p' (sy_held s t)"
  shows "voxi_inv (goes_to s t p')"
proof -
  have "goes_to s t p' = moved s t (sy_mutex s) p' (sy_held s t)"
    by (cases s) (simp add: goes_to_def moved_def)
  moreover have "voxi_inv (moved s t (sy_mutex s) p' (sy_held s t))"
  proof (rule inv_moved[OF assms(1)])
    show "vm_count (sy_mutex s) = (if vm_mutex (sy_mutex s) = None then 0
        else if vm_mutex (sy_mutex s) = Some t then int (depth p' (sy_held s t)) else vm_count (sy_mutex s))"
      using inv_depth[OF assms(1), of t] inv_unowned[OF assms(1)] assms(2,5) by auto
  qed (use assms inv_owner inv_name inv_held in \<open>auto\<close>)
  ultimately show ?thesis by simp
qed

lemma inv_holder: "voxi_inv s \<Longrightarrow> vm_mutex (sy_mutex s) = Some t \<Longrightarrow> vm_count (sy_mutex s) > 0 \<Longrightarrow> vm_thread (sy_mutex s) = t"
  using inv_owner by fastforce

text \<open>Steps that only move the semaphore, or nothing.\<close>

lemma inv_sem_step:
  assumes "voxi_inv s" and "m' = (sy_mutex s)\<lparr> vm_semaphore := k \<rparr>"
    and "in_sem p' = in_sem (sy_pc s t) \<and> k = vm_semaphore (sy_mutex s)
      \<or> \<not> in_sem (sy_pc s t) \<and> in_sem p' \<and> vm_semaphore (sy_mutex s) \<noteq> 0 \<and> k = vm_semaphore (sy_mutex s) - 1
      \<or> in_sem (sy_pc s t) \<and> \<not> in_sem p' \<and> k = Suc (vm_semaphore (sy_mutex s))"
    and "owns p' st' = owns (sy_pc s t) (sy_held s t)"
    and "owns p' st' \<longrightarrow> depth p' st' = depth (sy_pc s t) (sy_held s t)"
    and "pc_ok p' st'" and "st' \<noteq> [] \<longrightarrow> last st' = None"
  shows "voxi_inv (moved s t m' p' st')"
proof (rule inv_moved[OF assms(1)])
  show "vm_count m' = (if vm_mutex m' = None then 0 else if vm_mutex m' = Some t then int (depth p' st')
      else vm_count (sy_mutex s))"
    using assms(2,4,5) inv_owns[OF assms(1), of t] inv_depth[OF assms(1), of t] inv_unowned[OF assms(1)] by auto
qed (use assms inv_owner[OF assms(1)] inv_name[OF assms(1)] in \<open>auto\<close>)

lemma lock_inv:
  assumes "voxi_inv s" and "sy_pc s t = Lock loc p" and "inside t invalid s = Some (Inr s')"
  shows "voxi_inv s'"
proof (cases p)
  case L_wait
  then show ?thesis using assms(2,3) inv_held[OF assms(1), of t]
    by (auto simp: inside_def Let_def sem_wait_step_def split: if_splits intro!: inv_sem_step[OF assms(1)])
next
  case L_test
  note test = inv_depth[OF assms(1), of t] inv_owns[OF assms(1), of t] inv_holder[OF assms(1), of t]
  show ?thesis
  proof (cases "vm_count (sy_mutex s) > 0 \<and> vm_thread (sy_mutex s) = t")
    case True
    then have m: "vm_mutex (sy_mutex s) = Some t" using inv_owner[OF assms(1)] by simp
    have "s' = moved s t ((sy_mutex s)\<lparr> vm_count := vm_count (sy_mutex s) + 1, vm_lastLockFrom := loc \<rparr>)
        (Lock loc (L_done (vm_lastLockFrom (sy_mutex s)))) (sy_held s t)"
      using assms(2,3) L_test True by (auto simp: inside_def Let_def res_iff)
    moreover have "voxi_inv \<dots>"
      by (rule inv_moved[OF assms(1)])
         (use assms(2) L_test m True test inv_held[OF assms(1), of t] in \<open>auto\<close>)
    ultimately show ?thesis by simp
  next
    case False
    then have "s' = moved s t (sy_mutex s) (Lock loc L_post) (sy_held s t)"
      using assms(2,3) L_test by (auto simp: inside_def Let_def res_iff)
    moreover have "sy_held s t = []" using False test assms(2) L_test by auto
    moreover have "voxi_inv (moved s t (sy_mutex s) (Lock loc L_post) [])"
      by (rule inv_sem_step[OF assms(1), of _ "vm_semaphore (sy_mutex s)"])
         (use assms(2) L_test \<open>sy_held s t = []\<close> in \<open>auto\<close>)
    ultimately show ?thesis by simp
  qed
next
  case L_post
  then show ?thesis using assms(2,3) inv_pc[OF assms(1), of t]
    by (auto simp: inside_def Let_def sem_post_def intro!: inv_sem_step[OF assms(1)])
next
  case L_mutex
  then obtain s1 where "vm_mutex (sy_mutex s) = None"
      "s' = moved s t ((sy_mutex s)\<lparr> vm_mutex := Some t \<rparr>) (Lock loc L_wait2) (sy_held s t)"
    using assms(2,3) by (auto simp: inside_def Let_def mutex_lock_step_def split: if_splits)
  moreover from this(1) have "voxi_inv (moved s t ((sy_mutex s)\<lparr> vm_mutex := Some t \<rparr>) (Lock loc L_wait2) (sy_held s t))"
    by (intro inv_moved[OF assms(1)])
       (use assms(2) L_mutex inv_pc[OF assms(1), of t] inv_unowned[OF assms(1)] inv_name[OF assms(1)] in \<open>auto\<close>)
  ultimately show ?thesis by simp
next
  case L_wait2
  then show ?thesis using assms(2,3) inv_pc[OF assms(1), of t]
    by (auto simp: inside_def Let_def sem_wait_step_def split: if_splits intro!: inv_sem_step[OF assms(1)])
next
  case L_take
  then have "vm_count (sy_mutex s) = 0" and e: "vm_lastLockFrom (sy_mutex s) = None"
    and "s' = moved s t ((sy_mutex s)\<lparr> vm_count := 1, vm_thread := t, vm_lastLockFrom := loc \<rparr>)
        (Lock loc (L_done None)) (sy_held s t)"
    using assms(2,3) inv_name[OF assms(1)] by (auto simp: inside_def Let_def res_iff)
  moreover have "voxi_inv (moved s t ((sy_mutex s)\<lparr> vm_count := 1, vm_thread := t, vm_lastLockFrom := loc \<rparr>)
        (Lock loc (L_done None)) (sy_held s t))"
    by (intro inv_moved[OF assms(1)])
       (use assms(2) L_take inv_pc[OF assms(1), of t] inv_owns[OF assms(1), of t] in \<open>auto\<close>)
  ultimately show ?thesis by simp
next
  case (L_done old)
  then show ?thesis using assms(2,3) inv_pc[OF assms(1), of t] inv_held[OF assms(1), of t]
    by (auto simp: inside_def Let_def sem_post_def intro!: inv_sem_step[OF assms(1)])
qed

lemma inv_count_pos:
  assumes "voxi_inv s" and "owns (sy_pc s t) (sy_held s t)" and "depth (sy_pc s t) (sy_held s t) > 0"
  shows "vm_count (sy_mutex s) > 0" and "vm_thread (sy_mutex s) = t"
    and "vm_count (sy_mutex s) = int (depth (sy_pc s t) (sy_held s t))"
proof -
  have "vm_mutex (sy_mutex s) = Some t" using inv_owns assms(1,2) by simp
  then show *: "vm_count (sy_mutex s) = int (depth (sy_pc s t) (sy_held s t))"
    using inv_depth assms(1) by simp
  then show "vm_count (sy_mutex s) > 0" using assms(3) by simp
  with \<open>vm_mutex _ = _\<close> show "vm_thread (sy_mutex s) = t" using inv_holder assms(1) by blast
qed

lemma unlock_inv:
  assumes "voxi_inv s" and "sy_pc s t = Unlock loc p" and "inside t invalid s = Some (Inr s')"
  shows "voxi_inv s'"
proof (cases p)
  case U_wait
  then show ?thesis using assms(2,3) inv_pc[OF assms(1), of t] inv_held[OF assms(1), of t]
    by (auto simp: inside_def Let_def sem_wait_step_def split: if_splits intro!: inv_sem_step[OF assms(1)])
next
  case U_count
  let ?m = "sy_mutex s" and ?st = "sy_held s t"
  obtain x xs where st: "?st = x # xs" "loc = None \<or> loc = x" "last (x # xs) = None"
    using inv_pc[OF assms(1), of t] inv_held[OF assms(1), of t] assms(2) by (cases ?st) auto
  have m: "vm_mutex ?m = Some t" "vm_thread ?m = t" "vm_count ?m = 1 + int (length xs)"
    using inv_owns[OF assms(1), of t] inv_count_pos[OF assms(1), of t] assms(2) U_count st(1) by auto
  have s': "s' = moved s t (?m\<lparr> vm_lastLockFrom := loc, vm_count := int (length xs) \<rparr>)
      (Unlock loc (if xs = [] then U_mutex else U_post)) (x # xs)"
    using assms(2,3) U_count st(1) m(3) by (auto simp: inside_def Let_def res_iff split: if_splits)
  have "xs = [] \<Longrightarrow> loc = None" using st by auto
  then show ?thesis unfolding s'
    by (intro inv_moved[OF assms(1)]) (use m(1,2) st assms(2) U_count in \<open>auto\<close>)
next
  case U_mutex
  then have "s' = moved s t ((sy_mutex s)\<lparr> vm_mutex := None \<rparr>) (Unlock loc U_post) (sy_held s t)"
    using assms(2,3) by (auto simp: inside_def Let_def res_iff)
  moreover have "vm_count (sy_mutex s) = 0"
    using inv_owns[OF assms(1), of t] inv_depth[OF assms(1), of t] assms(2) U_mutex by simp
  ultimately show ?thesis
    by (auto intro!: inv_moved[OF assms(1)] simp: inv_name[OF assms(1)])
       (use inv_pc[OF assms(1), of t] inv_held[OF assms(1), of t] assms(2) U_mutex in \<open>auto\<close>)
next
  case U_post
  have s': "s' = moved s t (sem_post (sy_mutex s)) Outside (tl (sy_held s t))"
    using assms(2,3) U_post by (auto simp: inside_def Let_def)
  have "last (tl (sy_held s t)) = None" if "tl (sy_held s t) \<noteq> []"
    using inv_held[OF assms(1), of t] that by (cases "sy_held s t") auto
  then show ?thesis unfolding s'
    by (intro inv_sem_step[OF assms(1)]) (use U_post assms(2) in \<open>auto simp: sem_post_def\<close>)
qed

lemma wait_inv:
  assumes "voxi_inv s" and "sy_pc s t = CondWait timed p" and "inside t invalid s = Some (Inr s')"
  shows "voxi_inv s'"
proof -
  let ?m = "sy_mutex s" and ?st = "sy_held s t"
  have st: "?st \<noteq> []" "last ?st = None"
    using inv_pc[OF assms(1), of t] inv_held[OF assms(1), of t] assms(2) by auto
  note defs = inside_def Let_def threading_cond_wait_def threading_cond_absolute_timedwait_def
  show ?thesis
  proof (cases p)
    case W_wait
    then show ?thesis using assms(2,3) st
      by (auto simp: defs sem_wait_step_def split: if_splits intro!: inv_sem_step[OF assms(1)])
  next
    case W_save
    have m: "vm_mutex ?m = Some t" "vm_count ?m = int (length ?st)"
      using inv_owns[OF assms(1), of t] inv_count_pos[OF assms(1), of t] assms(2) W_save st(1) by auto
    have "s' = moved s t (?m\<lparr> vm_lastLockFrom := None, vm_count := 0 \<rparr>)
        (CondWait timed (W_post (vm_count ?m) (vm_lastLockFrom ?m))) ?st"
      using assms(2,3) W_save by (auto simp: defs res_iff split: if_splits)
    then show ?thesis
      by (auto intro!: inv_moved[OF assms(1)]) (use m st assms(2) W_save in \<open>auto\<close>)
  next
    case (W_post n w)
    then show ?thesis using assms(2,3) st inv_pc[OF assms(1), of t]
      by (auto simp: defs sem_post_def split: if_splits intro!: inv_sem_step[OF assms(1)])
  next
    case (W_cond n w)
    then have n: "n = int (length ?st)" and c: "vm_mutex ?m = Some t" "vm_count ?m = 0"
      using inv_pc[OF assms(1), of t] inv_owns[OF assms(1), of t] inv_depth[OF assms(1), of t] assms(2) by auto
    have "voxi_inv (moved s t (?m\<lparr> vm_mutex := None \<rparr>) (CondWait timed (W_asleep n w)) ?st)"
      by (intro inv_moved[OF assms(1)]) (use assms(2) W_cond n c st inv_name[OF assms(1)] in \<open>auto\<close>)
    moreover have "voxi_inv (moved s t ?m (CondWait timed (W_wait2 n w)) ?st)"
      by (intro inv_sem_step[OF assms(1), of _ "vm_semaphore ?m"]) (use assms(2) W_cond n st in \<open>auto\<close>)
    ultimately show ?thesis using assms(2,3) W_cond by (auto simp: defs split: if_splits)
  next
    case (W_asleep n w)
    then have "vm_mutex ?m = None" "s' = moved s t (?m\<lparr> vm_mutex := Some t \<rparr>) (CondWait timed (W_wait2 n w)) ?st"
      using assms(2,3) by (auto simp: defs mutex_lock_step_def split: if_splits)
    then show ?thesis
      by (auto intro!: inv_moved[OF assms(1)])
         (use st assms(2) W_asleep inv_pc[OF assms(1), of t] inv_unowned[OF assms(1)] inv_name[OF assms(1)] in \<open>auto\<close>)
  next
    case (W_wait2 n w)
    then show ?thesis using assms(2,3) st inv_pc[OF assms(1), of t]
      by (auto simp: defs sem_wait_step_def split: if_splits intro!: inv_sem_step[OF assms(1)])
  next
    case (W_restore n w)
    then have n: "n = int (length ?st)" and c: "vm_mutex ?m = Some t"
      using inv_pc[OF assms(1), of t] inv_owns[OF assms(1), of t] assms(2) by auto
    have "s' = moved s t (?m\<lparr> vm_count := n, vm_lastLockFrom := w, vm_thread := t \<rparr>) (CondWait timed W_done) ?st"
      using assms(2,3) W_restore by (auto simp: defs res_iff split: if_splits)
    then show ?thesis
      by (auto intro!: inv_moved[OF assms(1)]) (use n c st assms(2) W_restore in \<open>auto\<close>)
  next
    case W_done
    then show ?thesis using assms(2,3) st
      by (auto simp: defs sem_post_def split: if_splits intro!: inv_sem_step[OF assms(1)])
  qed
qed

lemma inside_inv:
  assumes "voxi_inv s" and "inside t invalid s = Some (Inr s')"
  shows "voxi_inv s'"
  using lock_inv[OF assms(1) _ assms(2)] unlock_inv[OF assms(1) _ assms(2)] wait_inv[OF assms(1) _ assms(2)] assms(2)
  by (cases "sy_pc s t") (simp_all add: inside_def)

lemma step_inv:
  assumes "voxi_inv s" and "thread_step t act s = Some (Inr s')"
  shows "voxi_inv s'"
  using assms(2) inside_inv[OF assms(1)]
  by (cases act) (auto simp: thread_step_def intro!: inv_goes_to[OF assms(1)] split: if_splits)

lemma voxi_reachable_inv:
  assumes "reachable m s" and "fresh_mutex m"
  shows "voxi_inv s"
  using assms by (induction rule: reachable.induct) (auto intro: voxi_inv_start step_inv)

subsection \<open>No assertion fails, and somebody can go on\<close>

lemma inside_safe:
  assumes "voxi_inv s" and "inside t invalid s = Some (Inl f)"
  shows "f = SignedOverflow \<and> INT_MAX \<le> vm_count (sy_mutex s)"
proof (cases "sy_pc s t")
  case Outside
  then show ?thesis using assms(2) by (simp add: inside_def)
next
  case (Lock loc p)
  show ?thesis
  proof (cases p)
    case L_test
    have "vm_semaphore (sy_mutex s) = 0" using inv_sem[OF assms(1), of t] Lock L_test by simp
    then have "iadd (vm_count (sy_mutex s)) 1 = Inl f" "vm_count (sy_mutex s) > 0"
      using assms(2) Lock L_test by (auto simp: inside_def Let_def rbind_def split: if_splits sum.splits)
    then show ?thesis by (auto simp: iadd_def in_int_def split: if_splits)
  next
    case L_take
    have "vm_semaphore (sy_mutex s) = 0" "vm_count (sy_mutex s) = 0"
      using inv_sem[OF assms(1), of t] inv_owns[OF assms(1), of t] inv_depth[OF assms(1), of t] Lock L_take by auto
    then show ?thesis using assms(2) Lock L_take by (simp add: inside_def Let_def)
  qed (use assms(2) Lock in \<open>auto simp: inside_def Let_def sem_wait_step_def mutex_lock_step_def split: if_splits\<close>)
next
  case (Unlock loc p)
  have st: "sy_held s t \<noteq> []" "loc = None \<or> loc = hd (sy_held s t)" "last (sy_held s t) = None"
    using inv_pc[OF assms(1), of t] inv_held[OF assms(1), of t] Unlock by auto
  show ?thesis
  proof (cases p)
    case U_count
    have "vm_semaphore (sy_mutex s) = 0" "vm_thread (sy_mutex s) = t" "vm_count (sy_mutex s) > 0"
      using inv_sem[OF assms(1), of t] inv_count_pos[OF assms(1), of t] Unlock U_count st(1) by auto
    then show ?thesis using assms(2) Unlock U_count by (simp add: inside_def Let_def)
  next
    case U_mutex
    then have "loc = None" using st inv_pc[OF assms(1), of t] Unlock by (cases "sy_held s t") auto
    then show ?thesis using assms(2) Unlock U_mutex by (simp add: inside_def Let_def)
  qed (use assms(2) Unlock in \<open>auto simp: inside_def Let_def sem_wait_step_def split: if_splits\<close>)
next
  case (CondWait timed p)
  note defs = inside_def Let_def threading_cond_wait_def threading_cond_absolute_timedwait_def
  have st: "sy_held s t \<noteq> []" using inv_pc[OF assms(1), of t] CondWait by auto
  show ?thesis
  proof (cases p)
    case W_save
    have "vm_semaphore (sy_mutex s) = 0" "vm_thread (sy_mutex s) = t" "vm_count (sy_mutex s) > 0"
      using inv_sem[OF assms(1), of t] inv_count_pos[OF assms(1), of t] CondWait W_save st by auto
    then show ?thesis using assms(2) CondWait W_save by (simp add: defs split: if_splits)
  next
    case (W_restore n w)
    have "vm_semaphore (sy_mutex s) = 0" "vm_count (sy_mutex s) = 0"
      using inv_sem[OF assms(1), of t] inv_owns[OF assms(1), of t] inv_depth[OF assms(1), of t] CondWait W_restore by auto
    then show ?thesis using assms(2) CondWait W_restore by (simp add: defs split: if_splits)
  qed (use assms(2) CondWait in \<open>auto simp: defs sem_wait_step_def mutex_lock_step_def split: if_splits\<close>)
qed

fun asleep :: "pc \<Rightarrow> bool" where
  "asleep (CondWait _ p) = (case p of W_asleep _ _ \<Rightarrow> True | _ \<Rightarrow> False)"
| "asleep _ = False"

definition can_go :: "system \<Rightarrow> nat \<Rightarrow> bool" where
  "can_go s t \<longleftrightarrow> inside t False s \<noteq> None \<and> \<not> asleep (sy_pc s t)"

lemmas can_go_unfold = can_go_def inside_def Let_def threading_cond_wait_def threading_cond_absolute_timedwait_def

lemma in_sem_can_go:
  assumes "in_sem (sy_pc s t)"
  shows "can_go s t"
proof (cases "sy_pc s t")
  case (Lock loc p)
  then show ?thesis using assms by (cases p) (auto simp: can_go_unfold)
next
  case (Unlock loc p)
  then show ?thesis using assms by (cases p) (auto simp: can_go_unfold)
next
  case (CondWait timed p)
  then show ?thesis using assms by (cases p) (auto simp: can_go_unfold)
qed (use assms in simp)

lemma free_sem_can_go:
  assumes "vm_semaphore (sy_mutex s) \<noteq> 0" and "sy_pc s t \<noteq> Outside" and "\<not> asleep (sy_pc s t)"
    and "\<forall>loc. sy_pc s t \<noteq> Lock loc L_mutex \<or> vm_mutex (sy_mutex s) = None"
  shows "can_go s t"
proof (cases "sy_pc s t")
  case (Lock loc p)
  then show ?thesis using assms by (cases p) (auto simp: can_go_unfold sem_wait_step_def mutex_lock_step_def)
next
  case (Unlock loc p)
  then show ?thesis using assms by (cases p) (auto simp: can_go_unfold sem_wait_step_def)
next
  case (CondWait timed p)
  then show ?thesis using assms by (cases p) (auto simp: can_go_unfold sem_wait_step_def)
qed (use assms in simp)

lemma inv_progress:
  assumes "voxi_inv s" and "sy_pc s t \<noteq> Outside" and "\<not> asleep (sy_pc s t)"
  shows "(\<exists>u. can_go s u) \<or> (\<exists>u. vm_mutex (sy_mutex s) = Some u \<and> sy_pc s u = Outside \<and> sy_held s u \<noteq> [])"
proof (cases "vm_semaphore (sy_mutex s) = 0")
  case True
  then obtain h where "in_sem (sy_pc s h)" using assms(1) by (auto simp: voxi_inv_def sem_inv_def split: if_splits)
  then show ?thesis using in_sem_can_go by blast
next
  case sem: False
  show ?thesis
  proof (cases "vm_mutex (sy_mutex s)")
    case None
    then show ?thesis using free_sem_can_go[OF sem assms(2,3)] by blast
  next
    case (Some u)
    then have "owns (sy_pc s u) (sy_held s u)" using inv_owns[OF assms(1)] by simp
    then have "sy_pc s u = Outside \<and> sy_held s u \<noteq> [] \<or> can_go s u"
      by (cases "sy_pc s u") (auto intro!: free_sem_can_go[OF sem] split: wait_pc.splits)
    then show ?thesis using Some by blast
  qed
qed

subsection \<open>Properties\<close>

definition demo_mutex :: sVoxiMutex where
  "demo_mutex = \<lparr> vm_mutex = None, vm_thread = 0, vm_semaphore = 1, vm_count = 0, vm_lastLockFrom = None,
     vm_debug = False \<rparr>"

text \<open>Thread 1 takes the mutex twice while thread 2 tries to.\<close>

definition demo_schedule :: "(nat \<times> action) list" where
  "demo_schedule = [(1, Call_lock None), (2, Call_lock None), (1, Go), (1, Go), (1, Go), (2, Go), (2, Go), (1, Go),
     (2, Go), (1, Go), (1, Go), (1, Go), (1, Call_lock None), (1, Go), (1, Go), (1, Go)]"

definition demo_system :: system where
  "demo_system = (case run_schedule demo_schedule (start demo_mutex) of Some (Inr s) \<Rightarrow> s | _ \<Rightarrow> start demo_mutex)"

lemma demo_run: "run_schedule demo_schedule (start demo_mutex) = Some (Inr demo_system)"
  and demo_facts: "vm_mutex (sy_mutex demo_system) = Some 1" "vm_count (sy_mutex demo_system) = 2"
    "sy_pc demo_system 1 = Outside" "sy_pc demo_system 2 = Lock None L_mutex" "sy_held demo_system 1 = [None, None]"
  by (simp_all add: demo_system_def demo_schedule_def demo_mutex_def start_def thread_step_def inside_def
      goes_to_def moved_def sem_wait_step_def sem_post_def mutex_lock_step_def in_int_def)

lemma demo_fresh: "fresh_mutex demo_mutex"
  by (simp add: fresh_mutex_def demo_mutex_def)

lemma demo_reachable: "reachable demo_mutex demo_system"
  using run_schedule_reachable[OF reach_start demo_run] .

text \<open>C3: Mutual exclusion: in every interleaving of threads that lock, unlock and wait, two threads that
  are between a lock and its unlock, in client code, are the same thread. It is the thread that has
  the pthread mutex, and the count is the number of locks it holds.
\<close>

theorem voxi_mutex_mutual_exclusion:
  assumes "fresh_mutex m" and "reachable m s"
    and "sy_pc s t = Outside" and "sy_held s t \<noteq> []" and "sy_pc s u = Outside" and "sy_held s u \<noteq> []"
  shows "t = u \<and> vm_mutex (sy_mutex s) = Some t \<and> vm_thread (sy_mutex s) = t
    \<and> vm_count (sy_mutex s) = int (length (sy_held s t))"
proof -
  have inv: "voxi_inv s" using voxi_reachable_inv assms(1,2) by blast
  have "vm_mutex (sy_mutex s) = Some t" "vm_mutex (sy_mutex s) = Some u"
    using inv_owns[OF inv, of t] inv_owns[OF inv, of u] assms(3-6) by auto
  then show ?thesis using inv_count_pos[OF inv, of t] assms(3,4) by auto
qed

theorem voxi_mutex_mutual_exclusion_witness:
  "vm_thread (sy_mutex demo_system) = 1 \<and> vm_count (sy_mutex demo_system) = 2"
  using voxi_mutex_mutual_exclusion[OF demo_fresh demo_reachable demo_facts(3) _ demo_facts(3)]
  unfolding demo_facts by simp

text \<open>C10: In no interleaving does an assertion of the mutex functions fail; the only fault there can be is
  the overflow of the count, when a thread that holds \<open>INT_MAX\<close> locks asks for one more.
\<close>

theorem voxi_mutex_assertions_hold:
  assumes "fresh_mutex m" and "reachable m s" and "thread_step t act s = Some (Inl f)"
  shows "f = SignedOverflow \<and> INT_MAX \<le> vm_count (sy_mutex s)"
  using inside_safe[OF voxi_reachable_inv[OF assms(2,1)]] assms(3)
  by (auto simp: thread_step_def split: action.splits if_splits)

theorem voxi_mutex_assertions_hold_witness:
  "\<not> (\<exists>t act. thread_step t act demo_system = Some (Inl AssertFailed))"
  using voxi_mutex_assertions_hold[OF demo_fresh demo_reachable] by blast

text \<open>C18: The mutex never deadlocks by itself: when some thread is inside one of its functions and not
  asleep on a condition, then some thread can take a step there, or the mutex is held by a thread
  that is in client code.
\<close>

theorem voxi_mutex_progress:
  assumes "fresh_mutex m" and "reachable m s" and "sy_pc s t \<noteq> Outside" and "\<not> asleep (sy_pc s t)"
  shows "(\<exists>u. can_go s u) \<or> (\<exists>u. vm_mutex (sy_mutex s) = Some u \<and> sy_pc s u = Outside \<and> sy_held s u \<noteq> [])"
  using inv_progress[OF voxi_reachable_inv[OF assms(2,1)] assms(3,4)] .

theorem voxi_mutex_progress_witness:
  "(\<exists>u. can_go demo_system u)
    \<or> (\<exists>u. vm_mutex (sy_mutex demo_system) = Some u \<and> sy_pc demo_system u = Outside \<and> sy_held demo_system u \<noteq> [])"
  by (rule voxi_mutex_progress[OF demo_fresh demo_reachable, of 2]) (simp_all add: demo_facts)

text \<open>A timed wait whose microseconds carry over a full second computes a wake-up time with too many
  nanoseconds. \<open>pthread_cond_timedwait\<close> refuses it, so that the wait does not sleep at all and keeps
  the pthread mutex.
\<close>

theorem threading_cond_timedwait_carry:
  assumes "0 \<le> snd now" and "snd now < 1000000" and "snd now + int (usec mod 1000000) \<ge> 1000000"
  shows "\<not> valid_timespec (wakeuptime now usec)
    \<and> threading_cond_timedwait now usec t (W_cond n w) m = Some (Inr (m, Some (W_wait2 n w)))"
proof -
  have "\<not> valid_timespec (wakeuptime now usec)" using assms by (simp add: valid_timespec_def wakeuptime_def)
  then show ?thesis by (simp add: threading_cond_timedwait_def threading_cond_absolute_timedwait_def)
qed

theorem threading_cond_timedwait_carry_witness:
  "threading_cond_timedwait (1000, 600000) 500000 1 (W_cond 1 None) demo_mutex = Some (Inr (demo_mutex, Some (W_wait2 1 None)))"
  using threading_cond_timedwait_carry[of "(1000, 600000)" 500000 1 1 None demo_mutex] by simp

text \<open>The last shutdown destroys one of the four attribute objects.\<close>

lemma threading_shutdown_leaves_attributes:
  assumes "th_inits g = 0" and "threading_init errOk (replicate 13 True) g = Inr (e, g1)"
    and "threading_shutdown errOk True g1 = Inr (e', g2)"
  shows "th_inits g2 = 0 \<and> {realtimeDetachedThreadAttr, joinableRealtimeThreadAttr, detachedLowPrioThreadAttr} \<subseteq> th_attrs g2"
  using assms by (auto simp: threading_init_def init_calls_def threading_shutdown_def in_int_def numeral_eq_Suc Let_def)

end
