(* ===== verification/Event.thy ===== *)
theory Event
  imports HashTable
begin

section \<open>Events and listeners\<close>

text \<open>
  \<open>src/event.c\<close>: listeners register for a source and an event type; events are posted into a ring of
  256 places, from which the manager thread takes them one by one and starts a thread each, which
  calls the listeners. The lists of listeners are found through a hash table of \<open>HashTable\<close>; the
  lists themselves and the posted events live in stores of addresses. Handlers and free functions
  are client code: a call is recorded, and as far as the manager is concerned it returns without
  having changed the listeners. The locks are held within one step.
\<close>

abbreviation EVENT_MAX_EVENTS :: nat where "EVENT_MAX_EVENTS \<equiv> 256"
abbreviation LLIST_NO_ELEMS :: nat where "LLIST_NO_ELEMS \<equiv> 50"

subsection \<open>State\<close>

text \<open>A source is an address, with 0 for NULL; \<open>ev_semaphore\<close> exists only in a blocking event.\<close>

record sEvent =
  ev_source :: "32 word"
  ev_eventType :: "32 word"
  ev_eventData :: nat
  ev_freeFunc :: "nat option"
  ev_isBlocking :: bool
  ev_semaphore :: nat

record sListenerEntry =
  le_handlerFunc :: nat
  le_handlerData :: nat
  le_makeNewThread :: bool

text \<open>A listener list as the hash table sees it: its keys and its address.\<close>

record sListenerList =
  ll_source :: "32 word"
  ll_eventType :: "32 word"
  ll_addr :: nat

type_synonym entry_lists = "nat \<rightharpoonup> sListenerEntry option list"

record listeners =
  lt_table :: "(sListenerList, entry_lists) Hasht"
  lt_lists :: entry_lists

subsection \<open>The table of listeners\<close>

unbundle bit_operations_syntax

definition calcHashCode :: "sListenerList \<Rightarrow> 32 word" where
  "calcHashCode aList = ll_source aList XOR ll_eventType aList"

definition compHashEntrys :: "sListenerList \<Rightarrow> sListenerList \<Rightarrow> 32 word" where
  "compHashEntrys list1 list2 =
     (if ll_source list1 = ll_source list2 \<and> ll_eventType list1 = ll_eventType list2 then 0 else 4711)"

definition findTemplate :: "32 word \<Rightarrow> 32 word \<Rightarrow> sListenerList" where
  "findTemplate source eventType = \<lparr> ll_source = source, ll_eventType = eventType, ll_addr = 0 \<rparr>"

text \<open>
  The list for a key, created if there is none: \<open>addr\<close> is the address of the new list, \<open>node\<close> and
  \<open>semOk\<close> the outcomes of \<open>HashAdd\<close>.
\<close>

definition listener_list ::
  "nat option \<Rightarrow> nat option \<Rightarrow> bool \<Rightarrow> 32 word \<Rightarrow> 32 word \<Rightarrow> listeners \<Rightarrow> (nat \<times> listeners) res" where
  "listener_list addr node semOk source eventType s =
     rbind (HashFind (lt_table s) (findTemplate source eventType)) (\<lambda>found.
     case found of
       Some l \<Rightarrow> Inr (ll_addr l, s)
     | None \<Rightarrow>
         rbind (deref addr) (\<lambda>a.
         rbind (HashAdd node semOk (lt_table s) \<lparr> ll_source = source, ll_eventType = eventType, ll_addr = a \<rparr>)
           (\<lambda>(res, table).
         rbind (rassert (res \<noteq> 0)) (\<lambda>_.
         Inr (a, s\<lparr> lt_table := table, lt_lists := (lt_lists s)(a \<mapsto> replicate LLIST_NO_ELEMS None) \<rparr>)))))"

text \<open>The first place of a list that satisfies a test, or the length of the list.\<close>

fun first_place :: "('a \<Rightarrow> bool) \<Rightarrow> 'a list \<Rightarrow> nat" where
  "first_place p [] = 0"
| "first_place p (x # xs) = (if p x then 0 else Suc (first_place p xs))"

text \<open>\<open>entry\<close> is the outcome of the allocation of the entry, whose result is not checked.\<close>

definition em_addListener ::
  "nat option \<Rightarrow> nat option \<Rightarrow> bool \<Rightarrow> bool \<Rightarrow> 32 word \<Rightarrow> 32 word \<Rightarrow> nat \<Rightarrow> nat \<Rightarrow> bool \<Rightarrow> listeners
   \<Rightarrow> listeners res" where
  "em_addListener addr node semOk entryOk source eventType handlerFunc handlerData makeNewThread s =
     rbind (listener_list addr node semOk source eventType s) (\<lambda>(a, s1).
     rbind (cell (lt_lists s1) a) (\<lambda>entries.
     (let i = first_place (\<lambda>e. e = None) entries in
      rbind (rassert (i < LLIST_NO_ELEMS)) (\<lambda>_.
      rbind (rguard NullDeref entryOk) (\<lambda>_.
      Inr (s1\<lparr> lt_lists := (lt_lists s1)(a \<mapsto> entries[i := Some
        \<lparr> le_handlerFunc = handlerFunc, le_handlerData = handlerData, le_makeNewThread = makeNewThread \<rparr>]) \<rparr>))))))"

definition is_listener :: "nat \<Rightarrow> nat \<Rightarrow> sListenerEntry option \<Rightarrow> bool" where
  "is_listener handlerFunc handlerData e =
     (case e of None \<Rightarrow> False
      | Some x \<Rightarrow> le_handlerFunc x = handlerFunc \<and> le_handlerData x = handlerData)"

definition em_removeListener :: "32 word \<Rightarrow> 32 word \<Rightarrow> nat \<Rightarrow> nat \<Rightarrow> listeners \<Rightarrow> listeners res" where
  "em_removeListener source eventType handlerFunc handlerData s =
     rbind (HashFind (lt_table s) (findTemplate source eventType)) (\<lambda>found.
     case found of
       None \<Rightarrow> Inl AssertFailed
     | Some l \<Rightarrow>
         rbind (cell (lt_lists s) (ll_addr l)) (\<lambda>entries.
         Inr (s\<lparr> lt_lists := (lt_lists s)(ll_addr l \<mapsto>
           entries[first_place (is_listener handlerFunc handlerData) entries := None]) \<rparr>)))"

text \<open>The destroy function of the table: the entries of the list are freed.\<close>

definition freeListenerList :: "sListenerList \<Rightarrow> entry_lists \<Rightarrow> entry_lists" where
  "freeListenerList aList ls = ls(ll_addr aList := map_option (map (\<lambda>_. None)) (ls (ll_addr aList)))"

subsection \<open>Handling one event\<close>

text \<open>
  The calls of client code: a handler with the event's fields and its own data, or a free function.
  \<open>in_thread\<close> marks a handler called in a thread of its own; all of these are joined before the free
  function is called.
\<close>

datatype client_call =
    Handler nat "32 word" "32 word" nat nat bool
  | Free nat "32 word" "32 word" nat

definition listener_call :: "sEvent \<Rightarrow> sListenerEntry \<Rightarrow> client_call" where
  "listener_call event l =
     Handler (le_handlerFunc l) (ev_source event) (ev_eventType event) (ev_eventData event) (le_handlerData l)
       (le_makeNewThread l)"

text \<open>The loop over the places; a thread that cannot be created is reported and skipped.\<close>

fun call_listeners :: "(nat \<Rightarrow> bool) \<Rightarrow> sEvent \<Rightarrow> nat \<Rightarrow> sListenerEntry option list \<Rightarrow> client_call list" where
  "call_listeners threadOk event i [] = []"
| "call_listeners threadOk event i (e # es) =
     (case e of
        None \<Rightarrow> call_listeners threadOk event (Suc i) es
      | Some l \<Rightarrow>
          if le_makeNewThread l \<and> \<not> threadOk i then call_listeners threadOk event (Suc i) es
          else listener_call event l # call_listeners threadOk event (Suc i) es)"

type_synonym events = "nat \<rightharpoonup> sEvent"

definition freeEvent :: "nat \<Rightarrow> events \<Rightarrow> events res" where
  "freeEvent event h = rbind (cell h event) (\<lambda>_. Inr (h(event := None)))"

definition finishedWithEvent :: "nat \<Rightarrow> events \<Rightarrow> (client_call list \<times> events) res" where
  "finishedWithEvent event h =
     rbind (cell h event) (\<lambda>e.
     (let calls = (case ev_freeFunc e of None \<Rightarrow> []
                   | Some f \<Rightarrow> [Free f (ev_source e) (ev_eventType e) (ev_eventData e)])
      in if ev_isBlocking e then Inr (calls, h(event \<mapsto> e\<lparr> ev_semaphore := Suc (ev_semaphore e) \<rparr>))
         else rbind (freeEvent event h) (\<lambda>h'. Inr (calls, h'))))"

definition em_handleOneEvent ::
  "(nat \<Rightarrow> bool) \<Rightarrow> nat \<Rightarrow> listeners \<Rightarrow> events \<Rightarrow> (client_call list \<times> events) res" where
  "em_handleOneEvent threadOk event s h =
     rbind (cell h event) (\<lambda>e.
     rbind (HashFind (lt_table s) (findTemplate (ev_source e) (ev_eventType e))) (\<lambda>found.
     case found of
       None \<Rightarrow> finishedWithEvent event h
     | Some l \<Rightarrow>
         rbind (cell (lt_lists s) (ll_addr l)) (\<lambda>entries.
         rbind (finishedWithEvent event h) (\<lambda>(calls, h').
         Inr (call_listeners threadOk e 0 entries @ calls, h')))))"

subsection \<open>The queue of events\<close>

record event_queue =
  eq_frontEvent :: nat
  eq_backEvent :: nat
  eq_eventQueue :: "nat option list"
  eq_eventsInQueue :: nat
  eq_eventManagerThread :: bool
  eq_events :: events
  eq_started :: "nat list"

text \<open>
  \<open>em_startup\<close>: the ring is not cleared, only its indices are. \<open>threadOk\<close> is the outcome of creating
  the manager thread, \<open>semOk\<close> of initialising the counter; the table's block is \<open>HashCreateTable\<close>'s.
\<close>

definition em_startup ::
  "allocator \<Rightarrow> bool \<Rightarrow> bool \<Rightarrow> event_queue \<Rightarrow> ((sListenerList, entry_lists) Hasht option \<times> event_queue) res" where
  "em_startup avail semOk threadOk q =
     rbind (HashCreateTable avail 1024 calcHashCode compHashEntrys (Some freeListenerList)) (\<lambda>table.
     rbind (rassert (\<not> eq_eventManagerThread q)) (\<lambda>_.
     rbind (rassert semOk) (\<lambda>_.
     rbind (rassert threadOk) (\<lambda>_.
     Inr (table, q\<lparr> eq_frontEvent := 0, eq_backEvent := 0, eq_eventsInQueue := 0, eq_eventManagerThread := True \<rparr>)))))"

text \<open>\<open>em_shutdown\<close> cancels and joins the thread and destroys the counter, but keeps the thread's handle.\<close>

definition em_shutdown :: "bool \<Rightarrow> bool \<Rightarrow> bool \<Rightarrow> event_queue \<Rightarrow> event_queue res" where
  "em_shutdown cancelOk joinOk semOk q =
     rbind (rassert cancelOk) (\<lambda>_. rbind (rassert joinOk) (\<lambda>_. rbind (rassert semOk) (\<lambda>_. Inr q)))"

text \<open>\<open>em_postEvent\<close> in four steps: the tests before the lock, the work under it, the post, the wait.\<close>

definition post_check :: "32 word \<Rightarrow> event_queue \<Rightarrow> unit res" where
  "post_check source q =
     rbind (rassert (source \<noteq> 0)) (\<lambda>_.
     rassert ((eq_backEvent q + 1) mod EVENT_MAX_EVENTS \<noteq> eq_frontEvent q))"

definition post_insert ::
  "nat option \<Rightarrow> 32 word \<Rightarrow> 32 word \<Rightarrow> nat \<Rightarrow> nat option \<Rightarrow> bool \<Rightarrow> event_queue \<Rightarrow> (nat \<times> event_queue) res" where
  "post_insert addr source eventType eventData freeFunc blocking q =
     rbind (deref addr) (\<lambda>aEvent.
     rbind (rguard OutOfBounds (eq_backEvent q < length (eq_eventQueue q))) (\<lambda>_.
     Inr (aEvent, q\<lparr> eq_events := (eq_events q)(aEvent \<mapsto>
            \<lparr> ev_source = source, ev_eventType = eventType, ev_eventData = eventData, ev_freeFunc = freeFunc,
              ev_isBlocking = blocking, ev_semaphore = 0 \<rparr>),
          eq_eventQueue := (eq_eventQueue q)[eq_backEvent q := Some aEvent],
          eq_backEvent := (eq_backEvent q + 1) mod EVENT_MAX_EVENTS \<rparr>)))"

definition post_signal :: "event_queue \<Rightarrow> event_queue" where
  "post_signal q = q\<lparr> eq_eventsInQueue := Suc (eq_eventsInQueue q) \<rparr>"

definition post_wait :: "nat \<Rightarrow> events \<Rightarrow> events res" where
  "post_wait aEvent h =
     rbind (cell h aEvent) (\<lambda>e.
     if ev_isBlocking e then
       if ev_semaphore e = 0 then Inl Blocked else freeEvent aEvent h
     else Inr h)"

text \<open>The rounds of \<open>em_mainLoop\<close>: wait for the counter, read the front, move on and start a thread.\<close>

definition main_wait :: "event_queue \<Rightarrow> event_queue res" where
  "main_wait q =
     (if eq_eventsInQueue q = 0 then Inl Blocked
      else Inr (q\<lparr> eq_eventsInQueue := eq_eventsInQueue q - 1 \<rparr>))"

definition main_take :: "event_queue \<Rightarrow> nat res" where
  "main_take q =
     rbind (rassert (eq_frontEvent q \<noteq> eq_backEvent q)) (\<lambda>_.
     if eq_frontEvent q < length (eq_eventQueue q)
     then (case eq_eventQueue q ! eq_frontEvent q of None \<Rightarrow> Inl UninitRead | Some a \<Rightarrow> Inr a)
     else Inl OutOfBounds)"

definition main_advance :: "bool \<Rightarrow> nat \<Rightarrow> event_queue \<Rightarrow> event_queue res" where
  "main_advance threadOk event q =
     rbind (rassert threadOk) (\<lambda>_.
     Inr (q\<lparr> eq_frontEvent := (eq_frontEvent q + 1) mod EVENT_MAX_EVENTS, eq_started := eq_started q @ [event] \<rparr>))"

subsection \<open>Listeners as a map from keys to places\<close>

lemma compHashEntrys_0: "compHashEntrys l k = 0 \<longleftrightarrow> ll_source l = ll_source k \<and> ll_eventType l = ll_eventType k"
  by (simp add: compHashEntrys_def)

interpretation listener_keys: hash_keys calcHashCode compHashEntrys
  by unfold_locales (auto simp: compHashEntrys_0 calcHashCode_def)

definition lt_wf :: "listeners \<Rightarrow> bool" where
  "lt_wf s \<longleftrightarrow> ht_for calcHashCode compHashEntrys (lt_table s)
     \<and> inj_on ll_addr (set (ht_elems (lt_table s)))
     \<and> (\<forall>l \<in> set (ht_elems (lt_table s)). \<exists>es. lt_lists s (ll_addr l) = Some es \<and> length es = LLIST_NO_ELEMS)"

definition list_at :: "listeners \<Rightarrow> 32 word \<Rightarrow> 32 word \<Rightarrow> sListenerList option" where
  "list_at s source eventType = ht_lookup (lt_table s) (findTemplate source eventType)"

definition places :: "listeners \<Rightarrow> 32 word \<Rightarrow> 32 word \<Rightarrow> sListenerEntry option list" where
  "places s source eventType =
     (case list_at s source eventType of None \<Rightarrow> replicate LLIST_NO_ELEMS None
      | Some l \<Rightarrow> the (lt_lists s (ll_addr l)))"

definition registered :: "listeners \<Rightarrow> 32 word \<Rightarrow> 32 word \<Rightarrow> sListenerEntry multiset" where
  "registered s source eventType = mset (List.map_filter id (places s source eventType))"

lemma HashFind_list_at: "lt_wf s \<Longrightarrow> HashFind (lt_table s) (findTemplate source eventType) = Inr (list_at s source eventType)"
  by (simp add: lt_wf_def ht_for_def HashFind_wf list_at_def)

lemma list_at_Some:
  assumes "lt_wf s"
  shows "list_at s source eventType = Some l \<longleftrightarrow>
    l \<in> set (ht_elems (lt_table s)) \<and> ll_source l = source \<and> ll_eventType l = eventType"
  using assms listener_keys.lookup_Some_iff[of "lt_table s" "findTemplate source eventType" l]
  by (auto simp: lt_wf_def list_at_def compHashEntrys_0 findTemplate_def)

lemma list_at_entries:
  assumes "lt_wf s" and "list_at s source eventType = Some l"
  shows "lt_lists s (ll_addr l) = Some (places s source eventType)" and "length (places s source eventType) = LLIST_NO_ELEMS"
proof -
  have "l \<in> set (ht_elems (lt_table s))" using assms list_at_Some by blast
  then obtain es where "lt_lists s (ll_addr l) = Some es" "length es = LLIST_NO_ELEMS"
    using assms(1) by (auto simp: lt_wf_def)
  then show "lt_lists s (ll_addr l) = Some (places s source eventType)"
    and "length (places s source eventType) = LLIST_NO_ELEMS"
    using assms(2) by (simp_all add: places_def)
qed

lemma list_at_inj:
  assumes "lt_wf s" and "list_at s source eventType = Some l" and "list_at s source' eventType' = Some l'"
    and "ll_addr l = ll_addr l'"
  shows "source = source' \<and> eventType = eventType'"
proof -
  have l: "l \<in> set (ht_elems (lt_table s))" "ll_source l = source" "ll_eventType l = eventType"
    using list_at_Some[OF assms(1)] assms(2) by auto
  have l': "l' \<in> set (ht_elems (lt_table s))" "ll_source l' = source'" "ll_eventType l' = eventType'"
    using list_at_Some[OF assms(1)] assms(3) by auto
  have "inj_on ll_addr (set (ht_elems (lt_table s)))" using assms(1) by (simp add: lt_wf_def)
  then have "l = l'" using l(1) l'(1) assms(4) by (simp add: inj_on_eq_iff)
  then show ?thesis using l l' by simp
qed

lemma length_places: "lt_wf s \<Longrightarrow> length (places s source eventType) = LLIST_NO_ELEMS"
  using list_at_entries(2) by (cases "list_at s source eventType") (auto simp: places_def)

text \<open>Changing the places of one key.\<close>

lemma lt_wf_update:
  assumes "lt_wf s" and "list_at s source eventType = Some l" and "length es = LLIST_NO_ELEMS"
  defines "s' \<equiv> s\<lparr> lt_lists := (lt_lists s)(ll_addr l \<mapsto> es) \<rparr>"
  shows "lt_wf s'"
    and "places s' k t = (if k = source \<and> t = eventType then es else places s k t)"
proof -
  show "lt_wf s'" using assms(1,3) by (auto simp: lt_wf_def s'_def)
  have at: "list_at s' = list_at s" by (simp add: s'_def list_at_def fun_eq_iff)
  have ls: "lt_lists s' = (lt_lists s)(ll_addr l \<mapsto> es)" by (simp add: s'_def)
  show "places s' k t = (if k = source \<and> t = eventType then es else places s k t)"
  proof (cases "list_at s k t")
    case (Some m)
    show ?thesis
    proof (cases "k = source \<and> t = eventType")
      case True
      then show ?thesis using assms(2) by (simp add: places_def at ls)
    next
      case False
      then have "ll_addr m \<noteq> ll_addr l" using list_at_inj[OF assms(1) Some assms(2)] by blast
      then show ?thesis using Some False by (auto simp: places_def at ls)
    qed
  next
    case None
    then show ?thesis using assms(2) by (auto simp: places_def at)
  qed
qed

lemma listener_list_ok:
  assumes "lt_wf s" and "ht_elementCount (lt_table s) < INT_MAX"
    and "a \<notin> ll_addr ` set (ht_elems (lt_table s))"
  shows "\<exists>b s'. listener_list (Some a) (Some n) True source eventType s = Inr (b, s') \<and> lt_wf s'
    \<and> (\<exists>l. list_at s' source eventType = Some l \<and> ll_addr l = b) \<and> (\<forall>k t. places s' k t = places s k t)"
proof (cases "list_at s source eventType")
  case (Some l)
  then show ?thesis using HashFind_list_at[OF assms(1)] assms(1) by (auto simp: listener_list_def)
next
  case None
  let ?d = "\<lparr> ll_source = source, ll_eventType = eventType, ll_addr = a \<rparr>"
  have ht: "ht_for calcHashCode compHashEntrys (lt_table s)" using assms(1) by (simp add: lt_wf_def)
  have "ht_lookup (lt_table s) ?d = None"
    using listener_keys.lookup_None_cong[OF ht, of "findTemplate source eventType" ?d] None
    by (simp add: list_at_def compHashEntrys_0 findTemplate_def)
  then obtain t' where t': "HashAdd (Some n) True (lt_table s) ?d = Inr (1, t')"
      "ht_for calcHashCode compHashEntrys t'"
      "\<forall>k. ht_lookup t' k = (if compHashEntrys k ?d = 0 then Some ?d else ht_lookup (lt_table s) k)"
      "mset (ht_elems t') = add_mset ?d (mset (ht_elems (lt_table s)))"
    using listener_keys.add_fresh[OF ht _ assms(2), of ?d n] by blast
  let ?s' = "s\<lparr> lt_table := t', lt_lists := (lt_lists s)(a \<mapsto> replicate LLIST_NO_ELEMS None) \<rparr>"
  have el: "set (ht_elems t') = insert ?d (set (ht_elems (lt_table s)))"
    using t'(4) by (metis set_mset_add_mset_insert set_mset_mset)
  have "lt_wf ?s'" using assms(1,3) t'(2) by (auto simp: lt_wf_def el inj_on_def)
  moreover have at: "list_at ?s' k t = (if k = source \<and> t = eventType then Some ?d else list_at s k t)" for k t
    using t'(3) by (simp add: list_at_def compHashEntrys_0 findTemplate_def)
  moreover have "places ?s' k t = places s k t" for k t
  proof (cases "list_at s k t")
    case (Some m)
    then have "ll_addr m \<noteq> a" using list_at_Some[OF assms(1)] assms(3) by blast
    then show ?thesis using Some None by (auto simp: places_def at)
  qed (use None in \<open>auto simp: places_def at\<close>)
  ultimately show ?thesis
    using t'(1) HashFind_list_at[OF assms(1), of source eventType] None
    by (intro exI[of _ a] exI[of _ ?s']) (simp add: listener_list_def)
qed

subsection \<open>Adding, removing, calling\<close>

lemma first_place_less: "first_place p xs < length xs \<longleftrightarrow> (\<exists>x \<in> set xs. p x)"
  by (induction xs) auto

lemma first_place_nth: "\<exists>x \<in> set xs. p x \<Longrightarrow> p (xs ! first_place p xs)"
  by (induction xs) auto

lemma map_filter_set_place:
  assumes "i < length xs" and "xs ! i = None"
  shows "mset (List.map_filter id (xs[i := Some x])) = add_mset x (mset (List.map_filter id xs))"
  using assms
proof (induction xs arbitrary: i)
  case (Cons y xs)
  then show ?case by (cases i; cases y) (auto simp: List.map_filter_simps)
qed simp

lemma map_filter_clear_place:
  assumes "i < length xs" and "xs ! i = Some x"
  shows "mset (List.map_filter id xs) = add_mset x (mset (List.map_filter id (xs[i := None])))"
  using map_filter_set_place[of i "xs[i := None]" x] assms list_update_id[of xs i] by simp

lemma map_filter_full: "None \<notin> set xs \<Longrightarrow> length (List.map_filter id xs) = length xs"
proof (induction xs)
  case (Cons y ys)
  then show ?case by (cases y) (auto simp: List.map_filter_simps)
qed simp

lemma map_filter_mem: "x \<in> set (List.map_filter id xs) \<longleftrightarrow> Some x \<in> set xs"
  by (induction xs) (auto simp: List.map_filter_simps split: option.splits)

lemma em_addListener_ok:
  fixes f d :: nat and nt :: bool
  assumes "lt_wf s" and "ht_elementCount (lt_table s) < INT_MAX"
    and "a \<notin> ll_addr ` set (ht_elems (lt_table s))" and "size (registered s source eventType) < LLIST_NO_ELEMS"
  defines "x \<equiv> \<lparr> le_handlerFunc = f, le_handlerData = d, le_makeNewThread = nt \<rparr>"
  shows "\<exists>s'. em_addListener (Some a) (Some n) True True source eventType f d nt s = Inr s' \<and> lt_wf s'
    \<and> (\<forall>k t. registered s' k t = (if k = source \<and> t = eventType then add_mset x (registered s k t) else registered s k t))"
proof -
  obtain l s1 where s1: "listener_list (Some a) (Some n) True source eventType s = Inr (ll_addr l, s1)" "lt_wf s1"
      "list_at s1 source eventType = Some l" "\<And>k t. places s1 k t = places s k t"
    using listener_list_ok[OF assms(1-3), of n source eventType] by blast
  let ?es = "places s source eventType"
  let ?i = "first_place (\<lambda>e. e = None) ?es"
  have es: "lt_lists s1 (ll_addr l) = Some ?es" "length ?es = LLIST_NO_ELEMS"
    using list_at_entries[OF s1(2,3)] s1(4) by auto
  have "None \<in> set ?es" using assms(4) es(2) map_filter_full[of ?es] by (auto simp: registered_def)
  then have i: "?i < LLIST_NO_ELEMS" "?es ! ?i = None"
    using first_place_less[of "\<lambda>e. e = None" ?es] first_place_nth[of ?es "\<lambda>e. e = None"] es(2) by auto
  let ?s' = "s1\<lparr> lt_lists := (lt_lists s1)(ll_addr l \<mapsto> ?es[?i := Some x]) \<rparr>"
  have "length (?es[?i := Some x]) = LLIST_NO_ELEMS" using es(2) by simp
  note u = lt_wf_update[OF s1(2,3) this]
  have "registered ?s' k t = (if k = source \<and> t = eventType then add_mset x (registered s k t) else registered s k t)" for k t
    using u(2)[of k t] s1(4) map_filter_set_place[of ?i ?es x] i es(2) by (simp add: registered_def)
  moreover have "em_addListener (Some a) (Some n) True True source eventType f d nt s = Inr ?s'"
    using s1(1) es(1) i(1) by (simp add: em_addListener_def x_def Let_def)
  ultimately show ?thesis using u(1) by blast
qed

lemma em_removeListener_ok:
  assumes "lt_wf s" and "x \<in># registered s source eventType" and "le_handlerFunc x = f" and "le_handlerData x = d"
  shows "\<exists>s' y. em_removeListener source eventType f d s = Inr s' \<and> lt_wf s'
    \<and> le_handlerFunc y = f \<and> le_handlerData y = d \<and> registered s source eventType = add_mset y (registered s' source eventType)
    \<and> (\<forall>k t. \<not> (k = source \<and> t = eventType) \<longrightarrow> registered s' k t = registered s k t)"
proof -
  let ?es = "places s source eventType"
  let ?i = "first_place (is_listener f d) ?es"
  have x: "Some x \<in> set ?es" using assms(2) by (simp add: registered_def map_filter_mem)
  then obtain l where l: "list_at s source eventType = Some l"
    by (cases "list_at s source eventType") (auto simp: places_def)
  note es = list_at_entries[OF assms(1) l]
  have "\<exists>e \<in> set ?es. is_listener f d e" using x assms(3,4) by (auto simp: is_listener_def intro!: bexI[of _ "Some x"])
  then have i: "?i < length ?es" "is_listener f d (?es ! ?i)"
    using first_place_less[of "is_listener f d" ?es] first_place_nth[of ?es "is_listener f d"] by auto
  then obtain y where y: "?es ! ?i = Some y" "le_handlerFunc y = f" "le_handlerData y = d"
    by (auto simp: is_listener_def split: option.splits)
  have "length (?es[?i := None]) = LLIST_NO_ELEMS" using es(2) by simp
  note u = lt_wf_update[OF assms(1) l this]
  let ?s' = "s\<lparr> lt_lists := (lt_lists s)(ll_addr l \<mapsto> ?es[?i := None]) \<rparr>"
  have "em_removeListener source eventType f d s = Inr ?s'"
    using HashFind_list_at[OF assms(1), of source eventType] l es(1) by (simp add: em_removeListener_def)
  moreover have "registered s source eventType = add_mset y (registered ?s' source eventType)"
    using u(2)[of source eventType] map_filter_clear_place[OF i(1) y(1)] by (simp add: registered_def)
  moreover have "registered ?s' k t = registered s k t" if "\<not> (k = source \<and> t = eventType)" for k t
    using u(2)[of k t] that by (auto simp: registered_def)
  ultimately show ?thesis using u(1) y(2,3) by blast
qed

definition free_call :: "sEvent \<Rightarrow> client_call list" where
  "free_call e = (case ev_freeFunc e of None \<Rightarrow> [] | Some f \<Rightarrow> [Free f (ev_source e) (ev_eventType e) (ev_eventData e)])"

definition finished :: "nat \<Rightarrow> sEvent \<Rightarrow> events \<Rightarrow> events" where
  "finished event e h =
     (if ev_isBlocking e then h(event \<mapsto> e\<lparr> ev_semaphore := Suc (ev_semaphore e) \<rparr>) else h(event := None))"

lemma finishedWithEvent_eq:
  "h event = Some e \<Longrightarrow> finishedWithEvent event h = Inr (free_call e, finished event e h)"
  by (simp add: finishedWithEvent_def free_call_def finished_def freeEvent_def Let_def)

lemma call_listeners_empty: "call_listeners ok e i (replicate n None) = []"
  by (induction n arbitrary: i) auto

lemma call_listeners_mset:
  "mset (call_listeners (\<lambda>_. True) e i es) = image_mset (listener_call e) (mset (List.map_filter id es))"
  by (induction es arbitrary: i) (auto simp: List.map_filter_simps split: option.splits)

lemma em_handleOneEvent_eq:
  assumes "lt_wf s" and "h event = Some e"
  shows "em_handleOneEvent ok event s h =
    Inr (call_listeners ok e 0 (places s (ev_source e) (ev_eventType e)) @ free_call e, finished event e h)"
proof (cases "list_at s (ev_source e) (ev_eventType e)")
  case None
  then show ?thesis using HashFind_list_at[OF assms(1)] assms(2) finishedWithEvent_eq[of h event e]
    by (simp add: em_handleOneEvent_def places_def call_listeners_empty)
next
  case (Some l)
  then show ?thesis using HashFind_list_at[OF assms(1)] assms(2) finishedWithEvent_eq[of h event e] list_at_entries[OF assms(1) Some]
    by (simp add: em_handleOneEvent_def)
qed

subsection \<open>Posters and the manager thread\<close>

text \<open>
  Any number of threads post while the manager thread takes events. \<open>es_checked\<close> counts the posters
  between the test for room and the insertion, \<open>es_pending\<close> those between the insertion and the post
  to the counter. With \<open>solo\<close> the clients post one after the other. A step of the manager thread
  whose assertion fails leaves it in \<open>M_failed\<close>; \<open>es_refused\<close> tells that the system refused to
  create a thread for an event, which \<open>em_mainLoop\<close> answers with an assertion (\<open>ok\<close> in \<open>advance\<close> is
  the outcome of \<open>threading_pthread_create\<close>).
\<close>

datatype main_pc = M_wait | M_take | M_advance nat | M_failed fault

record em_state =
  es_queue :: event_queue
  es_checked :: nat
  es_pending :: nat
  es_main :: main_pc
  es_posted :: "nat list"
  es_refused :: bool

definition after_take :: "em_state \<Rightarrow> nat res \<Rightarrow> em_state" where
  "after_take s r = s\<lparr> es_main := (case r of Inl f \<Rightarrow> M_failed f | Inr a \<Rightarrow> M_advance a) \<rparr>"

definition after_advance :: "bool \<Rightarrow> em_state \<Rightarrow> event_queue res \<Rightarrow> em_state" where
  "after_advance ok s r =
     (case r of
        Inl f \<Rightarrow> s\<lparr> es_main := M_failed f, es_refused := (es_refused s \<or> \<not> ok) \<rparr>
      | Inr q \<Rightarrow> s\<lparr> es_queue := q, es_main := M_wait \<rparr>)"

inductive em_step :: "bool \<Rightarrow> em_state \<Rightarrow> em_state \<Rightarrow> bool" for solo where
  check: "post_check source (es_queue s) = Inr () \<Longrightarrow> (solo \<longrightarrow> es_checked s = 0)
    \<Longrightarrow> em_step solo s (s\<lparr> es_checked := Suc (es_checked s) \<rparr>)"
| insert: "es_checked s = Suc n \<Longrightarrow> post_insert (Some addr) source ty dat fr blk (es_queue s) = Inr (a, q)
    \<Longrightarrow> em_step solo s (s\<lparr> es_queue := q, es_checked := n, es_pending := Suc (es_pending s), es_posted := es_posted s @ [a] \<rparr>)"
| signal: "es_pending s = Suc n
    \<Longrightarrow> em_step solo s (s\<lparr> es_queue := post_signal (es_queue s), es_pending := n \<rparr>)"
| wait: "es_main s = M_wait \<Longrightarrow> main_wait (es_queue s) = Inr q
    \<Longrightarrow> em_step solo s (s\<lparr> es_queue := q, es_main := M_take \<rparr>)"
| take: "es_main s = M_take \<Longrightarrow> em_step solo s (after_take s (main_take (es_queue s)))"
| advance: "es_main s = M_advance a
    \<Longrightarrow> em_step solo s (after_advance ok s (main_advance ok a (es_queue s)))"

definition em_init :: "event_queue \<Rightarrow> em_state" where
  "em_init q = \<lparr> es_queue = q, es_checked = 0, es_pending = 0, es_main = M_wait, es_posted = [],
     es_refused = False \<rparr>"

definition queue_fresh :: "event_queue \<Rightarrow> bool" where
  "queue_fresh q \<longleftrightarrow> eq_frontEvent q = 0 \<and> eq_backEvent q = 0 \<and> length (eq_eventQueue q) = EVENT_MAX_EVENTS
     \<and> eq_eventsInQueue q = 0 \<and> eq_started q = []"

inductive em_reach :: "bool \<Rightarrow> event_queue \<Rightarrow> em_state \<Rightarrow> bool" for solo q where
  init: "em_reach solo q (em_init q)"
| step: "em_reach solo q s \<Longrightarrow> em_step solo s s' \<Longrightarrow> em_reach solo q s'"

lemma em_startup_fresh:
  "em_startup avail True True q = Inr (table, q') \<Longrightarrow> length (eq_eventQueue q) = EVENT_MAX_EVENTS \<Longrightarrow> eq_started q = []
   \<Longrightarrow> queue_fresh q'"
  by (auto simp: em_startup_def res_iff queue_fresh_def)

definition queue_holds :: "event_queue \<Rightarrow> nat list \<Rightarrow> bool" where
  "queue_holds q xs \<longleftrightarrow> length (eq_eventQueue q) = EVENT_MAX_EVENTS
     \<and> ring (eq_eventQueue q) (eq_frontEvent q) (map Some xs)
     \<and> eq_backEvent q = (eq_frontEvent q + length xs) mod EVENT_MAX_EVENTS"

definition em_inv :: "em_state \<Rightarrow> bool" where
  "em_inv s \<longleftrightarrow> (\<exists>xs. queue_holds (es_queue s) xs \<and> length xs + es_checked s < EVENT_MAX_EVENTS
     \<and> es_checked s \<le> 1
     \<and> eq_eventsInQueue (es_queue s) + es_pending s + (if es_main s = M_wait then 0 else 1) = length xs
     \<and> (\<forall>a. es_main s = M_advance a \<longrightarrow> hd xs = a) \<and> es_posted s = eq_started (es_queue s) @ xs
     \<and> (\<forall>f. es_main s = M_failed f \<longrightarrow> es_refused s))"

lemma queue_check:
  assumes "queue_holds q xs" and "length xs < EVENT_MAX_EVENTS" and "post_check source q = Inr ()"
  shows "Suc (length xs) < EVENT_MAX_EVENTS"
proof (rule ccontr)
  assume "\<not> ?thesis"
  then have l: "length xs = 255" using assms(2) by simp
  have "eq_frontEvent q < 256" using assms(1) by (simp add: queue_holds_def ring_def)
  then show False using assms(1,3) l by (simp add: post_check_def queue_holds_def res_iff mod_simps)
qed

lemma queue_insert:
  assumes "queue_holds q xs" and "Suc (length xs) < EVENT_MAX_EVENTS"
    and "post_insert (Some addr) source ty dat fr blk q = Inr (a, q')"
  shows "queue_holds q' (xs @ [a])" and "eq_eventsInQueue q' = eq_eventsInQueue q" and "eq_started q' = eq_started q"
proof -
  have "ring ((eq_eventQueue q)[(eq_frontEvent q + length (map Some xs)) mod length (eq_eventQueue q) := Some a])
      (eq_frontEvent q) (map Some xs @ [Some a])"
    using assms(1,2) by (intro ring_snoc) (simp_all add: queue_holds_def)
  then show "queue_holds q' (xs @ [a])" using assms(1,3)
    by (auto simp: queue_holds_def post_insert_def res_iff mod_simps)
qed (use assms(3) in \<open>auto simp: post_insert_def res_iff\<close>)

lemma queue_take:
  assumes "queue_holds q (x # xs)" and "Suc (length xs) < EVENT_MAX_EVENTS"
  shows "main_take q = Inr x"
proof -
  have f: "eq_frontEvent q < 256" using assms(1) by (simp add: queue_holds_def ring_def)
  have "eq_frontEvent q \<noteq> (eq_frontEvent q + Suc (length xs)) mod 256"
    using mod_add_inj[of "eq_frontEvent q" 0 256 "Suc (length xs)"] f assms(2) by auto
  then show ?thesis using assms(1) f ring_hd[of "eq_eventQueue q" "eq_frontEvent q" "Some x" "map Some xs"]
    by (simp add: main_take_def queue_holds_def)
qed

lemma queue_advance:
  assumes "queue_holds q (x # xs)" and "main_advance ok x q = Inr q'"
  shows "queue_holds q' xs" and "eq_eventsInQueue q' = eq_eventsInQueue q" and "eq_started q' = eq_started q @ [x]"
  using assms ring_tl[of "eq_eventQueue q" "eq_frontEvent q" "Some x" "map Some xs"]
  by (auto simp: queue_holds_def main_advance_def res_iff mod_simps)

lemma em_invE:
  assumes "em_inv s"
  obtains xs where "queue_holds (es_queue s) xs" "length xs + es_checked s < EVENT_MAX_EVENTS" "es_checked s \<le> 1"
    "eq_eventsInQueue (es_queue s) + es_pending s + (if es_main s = M_wait then 0 else 1) = length xs"
    "\<forall>a. es_main s = M_advance a \<longrightarrow> hd xs = a" "es_posted s = eq_started (es_queue s) @ xs"
    "\<forall>f. es_main s = M_failed f \<longrightarrow> es_refused s"
  using assms by (auto simp: em_inv_def)

lemma queue_holds_count [simp]: "queue_holds (q\<lparr> eq_eventsInQueue := n \<rparr>) xs = queue_holds q xs"
  by (simp add: queue_holds_def)

lemma em_inv_step:
  assumes "em_step True s s'" and "em_inv s"
  shows "em_inv s'"
  using assms(2)
proof (rule em_invE)
  fix xs
  assume q: "queue_holds (es_queue s) xs" "length xs + es_checked s < EVENT_MAX_EVENTS" "es_checked s \<le> 1"
    "eq_eventsInQueue (es_queue s) + es_pending s + (if es_main s = M_wait then 0 else 1) = length xs"
    "\<forall>a. es_main s = M_advance a \<longrightarrow> hd xs = a" "es_posted s = eq_started (es_queue s) @ xs"
    "\<forall>f. es_main s = M_failed f \<longrightarrow> es_refused s"
  from assms(1) show ?thesis
  proof cases
    case (check source)
    then show ?thesis using q queue_check[OF q(1) _ check(2)] unfolding em_inv_def by (intro exI[of _ xs]) auto
  next
    case (insert n addr source ty dat fr blk a r)
    then have "Suc (length xs) < EVENT_MAX_EVENTS" using q(2) by simp
    note r = queue_insert[OF q(1) this insert(3)]
    show ?thesis unfolding em_inv_def
      by (rule exI[of _ "xs @ [a]"]) (use q r insert(1,2) in \<open>auto simp: hd_append\<close>)
  next
    case (signal n)
    then show ?thesis using q unfolding em_inv_def by (intro exI[of _ xs]) (auto simp: post_signal_def)
  next
    case (wait r)
    then show ?thesis using q unfolding em_inv_def
      by (intro exI[of _ xs]) (auto simp: main_wait_def split: if_splits)
  next
    case take
    then obtain y ys where ys: "xs = y # ys" using q(4) by (cases xs) auto
    then have "main_take (es_queue s) = Inr y" using queue_take[of "es_queue s" y ys] q(1,2) by simp
    then show ?thesis using q ys take unfolding em_inv_def by (intro exI[of _ xs]) (auto simp: after_take_def)
  next
    case (advance a ok)
    then obtain ys where ys: "xs = a # ys" using q(4,5) by (cases xs) auto
    show ?thesis
    proof (cases "main_advance ok a (es_queue s)")
      case (Inl f)
      then have "\<not> ok" by (auto simp: main_advance_def)
      then show ?thesis using q advance Inl unfolding em_inv_def
        by (intro exI[of _ xs]) (auto simp: after_advance_def)
    next
      case (Inr r)
      then show ?thesis using q advance ys queue_advance[OF _ Inr, of ys] unfolding em_inv_def
        by (intro exI[of _ ys]) (auto simp: after_advance_def)
    qed
  qed
qed

lemma em_reach_inv: "em_reach True q s \<Longrightarrow> queue_fresh q \<Longrightarrow> em_inv s"
proof (induction rule: em_reach.induct)
  case init
  then show ?case
    by (simp add: em_inv_def em_init_def queue_fresh_def queue_holds_def)
qed (auto intro: em_inv_step)

text \<open>Posting a number of events one after the other, without the manager thread running.\<close>

definition posted_state :: "event_queue \<Rightarrow> nat \<Rightarrow> em_state \<Rightarrow> bool" where
  "posted_state q k s \<longleftrightarrow> em_reach False q s \<and> es_main s = M_wait \<and> eq_frontEvent (es_queue s) = 0
     \<and> eq_backEvent (es_queue s) = k \<and> length (eq_eventQueue (es_queue s)) = EVENT_MAX_EVENTS
     \<and> eq_eventsInQueue (es_queue s) = k \<and> es_checked s = 0 \<and> es_pending s = 0"

lemma reach_check:
  assumes "em_reach False q s" and "(eq_backEvent (es_queue s) + 1) mod EVENT_MAX_EVENTS \<noteq> eq_frontEvent (es_queue s)"
  shows "em_reach False q (s\<lparr> es_checked := Suc (es_checked s) \<rparr>)"
  using assms by (intro em_reach.step[OF assms(1)] em_step.check[of 1]) (auto simp: post_check_def)

lemma reach_insert:
  assumes "em_reach False q s" and "es_checked s = Suc n" and "eq_backEvent (es_queue s) < length (eq_eventQueue (es_queue s))"
  shows "\<exists>s'. em_reach False q s' \<and> es_checked s' = n \<and> es_pending s' = Suc (es_pending s) \<and> es_main s' = es_main s
    \<and> eq_frontEvent (es_queue s') = eq_frontEvent (es_queue s)
    \<and> eq_backEvent (es_queue s') = (eq_backEvent (es_queue s) + 1) mod EVENT_MAX_EVENTS
    \<and> length (eq_eventQueue (es_queue s')) = length (eq_eventQueue (es_queue s))
    \<and> eq_eventsInQueue (es_queue s') = eq_eventsInQueue (es_queue s)"
proof -
  obtain r where r: "post_insert (Some 0) 1 0 0 None False (es_queue s) = Inr (0, r)"
      "eq_frontEvent r = eq_frontEvent (es_queue s)" "eq_backEvent r = (eq_backEvent (es_queue s) + 1) mod EVENT_MAX_EVENTS"
      "length (eq_eventQueue r) = length (eq_eventQueue (es_queue s))" "eq_eventsInQueue r = eq_eventsInQueue (es_queue s)"
    using assms(3) by (simp add: post_insert_def)
  show ?thesis using em_reach.step[OF assms(1) em_step.insert[OF assms(2) r(1)]] r(2-)
    by (intro exI[of _ "s\<lparr> es_queue := r, es_checked := n, es_pending := Suc (es_pending s), es_posted := es_posted s @ [0] \<rparr>"]) simp
qed

lemma post_many:
  assumes "queue_fresh q" and "k < EVENT_MAX_EVENTS"
  shows "\<exists>s. posted_state q k s"
  using assms(2)
proof (induction k)
  case 0
  show ?case using em_reach.init[of False q] assms(1)
    by (intro exI[of _ "em_init q"]) (simp add: posted_state_def em_init_def queue_fresh_def)
next
  case (Suc k)
  then obtain s where s: "posted_state q k s" by auto
  then have r: "em_reach False q (s\<lparr> es_checked := Suc (es_checked s) \<rparr>)"
    using Suc.prems by (intro reach_check) (auto simp: posted_state_def)
  then obtain s1 where s1: "em_reach False q s1" "es_checked s1 = 0" "es_pending s1 = 1" "es_main s1 = M_wait"
      "eq_frontEvent (es_queue s1) = 0" "eq_backEvent (es_queue s1) = Suc k"
      "length (eq_eventQueue (es_queue s1)) = EVENT_MAX_EVENTS" "eq_eventsInQueue (es_queue s1) = k"
    using reach_insert[OF r, of 0] s Suc.prems by (auto simp: posted_state_def)
  then show ?case using em_reach.step[OF s1(1) em_step.signal[of s1 0]]
    by (intro exI[of _ "s1\<lparr> es_queue := post_signal (es_queue s1), es_pending := 0 \<rparr>"])
       (simp add: posted_state_def post_signal_def)
qed

subsection \<open>Properties\<close>

definition demo_queue :: event_queue where
  "demo_queue = \<lparr> eq_frontEvent = 0, eq_backEvent = 0, eq_eventQueue = replicate EVENT_MAX_EVENTS None,
     eq_eventsInQueue = 0, eq_eventManagerThread = True, eq_events = Map.empty, eq_started = [] \<rparr>"

lemma demo_queue_fresh: "queue_fresh demo_queue"
  by (simp add: queue_fresh_def demo_queue_def)

text \<open>C19: When clients post one after the other, the manager thread that was woken by the counter
  always finds an event, and it is the oldest one that was not yet started: events are dispatched in
  the order of their posting, none lost or repeated. The only assertion of the manager that can
  fail is the one after \<open>threading_pthread_create\<close>, when the system refuses a thread.\<close>

theorem event_queue_in_order:
  assumes "queue_fresh q" and "em_reach True q s"
  shows "(\<exists>xs. es_posted s = eq_started (es_queue s) @ xs
      \<and> eq_eventsInQueue (es_queue s) + es_pending s + (if es_main s = M_wait then 0 else 1) = length xs
      \<and> (es_main s = M_take \<longrightarrow> xs \<noteq> [] \<and> main_take (es_queue s) = Inr (hd xs))
      \<and> (\<forall>a. es_main s = M_advance a \<longrightarrow>
            xs \<noteq> [] \<and> a = hd xs \<and> (\<exists>q'. main_advance True a (es_queue s) = Inr q'))
      \<and> (\<forall>f. es_main s = M_failed f \<longrightarrow> es_refused s))"
  using em_reach_inv[OF assms(2,1)]
proof (rule em_invE)
  fix xs
  assume q: "queue_holds (es_queue s) xs" "length xs + es_checked s < EVENT_MAX_EVENTS" "es_checked s \<le> 1"
    "eq_eventsInQueue (es_queue s) + es_pending s + (if es_main s = M_wait then 0 else 1) = length xs"
    "\<forall>a. es_main s = M_advance a \<longrightarrow> hd xs = a" "es_posted s = eq_started (es_queue s) @ xs"
    "\<forall>f. es_main s = M_failed f \<longrightarrow> es_refused s"
  have "xs \<noteq> [] \<and> main_take (es_queue s) = Inr (hd xs)" if "es_main s = M_take"
    using that q(1,2,4) queue_take by (cases xs) auto
  moreover have "xs \<noteq> [] \<and> a = hd xs \<and> (\<exists>q'. main_advance True a (es_queue s) = Inr q')" if "es_main s = M_advance a" for a
    using that q(4,5) by (cases xs) (auto simp: main_advance_def)
  ultimately show ?thesis using q by (intro exI[of _ xs]) blast
qed

lemma demo_taking:
  "\<exists>s. em_reach True demo_queue s \<and> es_main s = M_take \<and> es_posted s = [3] \<and> eq_started (es_queue s) = []"
proof -
  obtain q where q: "post_insert (Some 3) 7 1 0 None False demo_queue = Inr (3, q)"
      "eq_eventsInQueue q = 0" "eq_started q = []"
    by (simp add: post_insert_def demo_queue_def)
  let ?s1 = "(em_init demo_queue)\<lparr> es_checked := 1 \<rparr>"
  let ?s2 = "?s1\<lparr> es_queue := q, es_checked := 0, es_pending := 1, es_posted := [3] \<rparr>"
  let ?s3 = "?s2\<lparr> es_queue := post_signal q, es_pending := 0 \<rparr>"
  have "em_step True (em_init demo_queue) ?s1"
    using em_step.check[of 7 "em_init demo_queue" True] by (simp add: post_check_def em_init_def demo_queue_def)
  then have r1: "em_reach True demo_queue ?s1" by (rule em_reach.step[OF em_reach.init])
  have "em_step True ?s1 ?s2"
    using em_step.insert[of ?s1 0 3 7 1 0 None False 3 q True] q(1) by (simp add: em_init_def)
  then have r2: "em_reach True demo_queue ?s2" by (rule em_reach.step[OF r1])
  have "em_step True ?s2 ?s3" using em_step.signal[of ?s2 0 True] by simp
  then have r3: "em_reach True demo_queue ?s3" by (rule em_reach.step[OF r2])
  have "em_step True ?s3 (?s3\<lparr> es_queue := q, es_main := M_take \<rparr>)"
    using em_step.wait[of ?s3 q True] q(2) by (cases q) (simp add: main_wait_def post_signal_def em_init_def)
  from em_reach.step[OF r3 this] show ?thesis
    by (rule exI[of _ "?s3\<lparr> es_queue := q, es_main := M_take \<rparr>", OF conjI]) (simp add: q(3))
qed

theorem event_queue_in_order_witness:
  "\<exists>s. em_reach True demo_queue s \<and> es_main s = M_take \<and> main_take (es_queue s) = Inr 3"
proof -
  obtain s where s: "em_reach True demo_queue s" "es_main s = M_take" "es_posted s = [3]" "eq_started (es_queue s) = []"
    using demo_taking by blast
  then show ?thesis using event_queue_in_order[OF demo_queue_fresh s(1)] by auto
qed

text \<open>Two clients that post at the same time can overfill the queue: the test for room is made
  before the lock is taken, so both pass it on the last free place. The ring then looks empty and the
  manager thread fails its assertion.\<close>

theorem event_queue_race:
  assumes "queue_fresh q"
  shows "\<exists>s. em_reach False q s \<and> es_main s = M_take \<and> main_take (es_queue s) = Inl AssertFailed"
proof -
  obtain s where s: "posted_state q 254 s" using post_many[OF assms, of 254] by auto
  let ?s1 = "s\<lparr> es_checked := Suc (es_checked s) \<rparr>"
  have r1: "em_reach False q ?s1" using s by (intro reach_check) (auto simp: posted_state_def)
  have "em_reach False q (?s1\<lparr> es_checked := Suc (es_checked ?s1) \<rparr>)"
    using s by (intro reach_check[OF r1]) (auto simp: posted_state_def)
  then obtain s2 where s2: "em_reach False q s2" "es_checked s2 = 1" "es_main s2 = M_wait" "eq_frontEvent (es_queue s2) = 0"
      "eq_backEvent (es_queue s2) = 255" "length (eq_eventQueue (es_queue s2)) = EVENT_MAX_EVENTS"
      "eq_eventsInQueue (es_queue s2) = 254"
    using s reach_insert[of q "?s1\<lparr> es_checked := Suc (es_checked ?s1) \<rparr>" 1] by (auto simp: posted_state_def)
  then obtain s3 where s3: "em_reach False q s3" "es_main s3 = M_wait" "eq_frontEvent (es_queue s3) = 0"
      "eq_backEvent (es_queue s3) = 0" "eq_eventsInQueue (es_queue s3) = 254"
    using reach_insert[of q s2 0] by auto
  let ?q = "(es_queue s3)\<lparr> eq_eventsInQueue := 253 \<rparr>"
  have "em_reach False q (s3\<lparr> es_queue := ?q, es_main := M_take \<rparr>)"
    using s3 by (intro em_reach.step[OF s3(1)] em_step.wait) (simp_all add: main_wait_def)
  moreover have "main_take ?q = Inl AssertFailed" using s3 by (simp add: main_take_def)
  ultimately show ?thesis by fastforce
qed

theorem event_queue_race_witness:
  "\<exists>s. em_reach False demo_queue s \<and> es_main s = M_take \<and> main_take (es_queue s) = Inl AssertFailed"
  using event_queue_race[OF demo_queue_fresh] .

definition demo_listeners :: listeners where
  "demo_listeners = \<lparr> lt_table = \<lparr> ht_size = 4, ht_elementCount = 0, ht_calcIndx = calcHashCode,
     ht_compData = compHashEntrys, ht_destrData = Some freeListenerList, ht_debugLevel = 0,
     ht_infoArray = [[], [], [], []] \<rparr>, lt_lists = Map.empty \<rparr>"

definition demo_event :: sEvent where
  "demo_event = \<lparr> ev_source = 7, ev_eventType = 1, ev_eventData = 0, ev_freeFunc = None, ev_isBlocking = False, ev_semaphore = 0 \<rparr>"

text \<open>C20: A listener that is added for a source and a type is called, once, by every such event, beside
  those that were registered before; then the free function is called, and the event is freed or its
  poster released. Removing the listener restores what was registered for every key.\<close>

theorem em_publish_subscribe:
  assumes "lt_wf s" and "ht_elementCount (lt_table s) < INT_MAX"
    and "a \<notin> ll_addr ` set (ht_elems (lt_table s))"
    and "size (registered s (ev_source e) (ev_eventType e)) < LLIST_NO_ELEMS"
    and "\<forall>x \<in># registered s (ev_source e) (ev_eventType e). \<not> (le_handlerFunc x = f \<and> le_handlerData x = d)"
    and "h event = Some e"
  shows "\<exists>s1 s2 calls. em_addListener (Some a) (Some n) True True (ev_source e) (ev_eventType e) f d nt s = Inr s1 \<and> lt_wf s1
    \<and> em_handleOneEvent (\<lambda>_. True) event s1 h = Inr (calls @ free_call e, finished event e h)
    \<and> mset calls = add_mset (listener_call e \<lparr> le_handlerFunc = f, le_handlerData = d, le_makeNewThread = nt \<rparr>)
        (image_mset (listener_call e) (registered s (ev_source e) (ev_eventType e)))
    \<and> em_removeListener (ev_source e) (ev_eventType e) f d s1 = Inr s2 \<and> lt_wf s2
    \<and> (\<forall>k t. registered s2 k t = registered s k t)"
proof -
  let ?src = "ev_source e" and ?ty = "ev_eventType e"
  let ?x = "\<lparr> le_handlerFunc = f, le_handlerData = d, le_makeNewThread = nt \<rparr>"
  obtain s1 where s1: "em_addListener (Some a) (Some n) True True ?src ?ty f d nt s = Inr s1" "lt_wf s1"
      "\<And>k t. registered s1 k t = (if k = ?src \<and> t = ?ty then add_mset ?x (registered s k t) else registered s k t)"
    using em_addListener_ok[OF assms(1-4)] by blast
  have "?x \<in># registered s1 ?src ?ty" using s1(3) by simp
  then obtain s2 y where s2: "em_removeListener ?src ?ty f d s1 = Inr s2" "lt_wf s2" "le_handlerFunc y = f"
      "le_handlerData y = d" "registered s1 ?src ?ty = add_mset y (registered s2 ?src ?ty)"
      "\<forall>k t. \<not> (k = ?src \<and> t = ?ty) \<longrightarrow> registered s2 k t = registered s1 k t"
    using em_removeListener_ok[OF s1(2), of ?x ?src ?ty f d] by auto
  have *: "add_mset ?x (registered s ?src ?ty) = add_mset y (registered s2 ?src ?ty)"
    using s1(3)[of ?src ?ty] s2(5) by simp
  have "y \<in># add_mset ?x (registered s ?src ?ty)" unfolding * by simp
  then have "y = ?x" using assms(5) s2(3,4) by auto
  with * have "registered s2 ?src ?ty = registered s ?src ?ty" by simp
  then have "registered s2 k t = registered s k t" for k t
    using s2(6) s1(3)[of k t] by (cases "k = ?src \<and> t = ?ty") auto
  then show ?thesis
    using s1 s2(1,2) em_handleOneEvent_eq[OF s1(2), of h event e "\<lambda>_. True"] assms(6)
      call_listeners_mset[of e 0 "places s1 ?src ?ty"] s1(3)[of ?src ?ty]
    by (intro exI[of _ s1] exI[of _ s2] exI[of _ "call_listeners (\<lambda>_. True) e 0 (places s1 ?src ?ty)"])
       (simp add: registered_def)
qed

theorem em_publish_subscribe_witness:
  "\<exists>s1 s2. em_addListener (Some 1) (Some 2) True True 7 1 10 20 False demo_listeners = Inr s1
    \<and> em_handleOneEvent (\<lambda>_. True) 5 s1 [5 \<mapsto> demo_event] = Inr ([Handler 10 7 1 0 20 False], Map.empty)
    \<and> em_removeListener 7 1 10 20 s1 = Inr s2"
proof -
  have w: "lt_wf demo_listeners" "ht_elems (lt_table demo_listeners) = []"
    by (auto simp: lt_wf_def ht_for_def ht_wf_def demo_listeners_def ht_elems_def keys_differ_def nth_Cons split: nat.splits)
  have "list_at demo_listeners k t = None" for k t
    using list_at_Some[OF w(1), of k t] w(2) by (cases "list_at demo_listeners k t") auto
  then have r: "registered demo_listeners k t = {#}" for k t
    by (simp add: registered_def places_def map_filter_def)
  show ?thesis
    using em_publish_subscribe[OF w(1), of 1 demo_event 10 20 "[5 \<mapsto> demo_event]" 5 2 False] w(2) r
    by (auto simp: demo_listeners_def demo_event_def free_call_def finished_def listener_call_def)
qed

text \<open>\<open>em_shutdown\<close> does not clear the handle of the thread, so the manager cannot be started again.\<close>

lemma em_startup_after_shutdown:
  assumes "em_startup avail True True q = Inr (table, q1)" and "em_shutdown True True True q1 = Inr q2" and "avail 4120"
  shows "em_startup avail True True q2 = Inl AssertFailed"
  using assms by (auto simp: em_startup_def em_shutdown_def HashCreateTable_def res_iff)

end
