(* ===== verification/ThreadPool.thy ===== *)
theory ThreadPool
  imports Err DList
begin

section \<open>The thread pool\<close>

text \<open>
  \<open>src/threadpool.c\<close>: threads that wait for work, kept in two doubly linked lists of available threads
  and threads in use. Clients hand a function to a thread and may join it; each pool thread runs a
  main loop. Everything between the blocking points of a function is one step, since it is done
  under a lock or touches only the thread's own fields; a pool thread's program counter says where
  its main loop stands. The functions of the clients are a parameter \<open>fn\<close>: what they return.
\<close>

subsection \<open>State\<close>

datatype JoinState = JOIN_STATE_RUNNING_UNJOINED | JOIN_STATE_RUNNING_JOINED | JOIN_STATE_FINISHED_UNJOINED
  | JOIN_STATE_FINISHED_JOINED | JOIN_STATE_COMPLETE

text \<open>
  The main loop: before the start condition is tested, waiting on it, past it, in the client's
  function, before the join state is set, waiting for the join to complete, past that wait, before
  the clean-up, before the list lock, at the end of the loop body, ended.
\<close>

datatype worker_pc = K_start | K_wait | K_woken | K_running | K_join | K_joinwait | K_joined | K_cleanup | K_list
  | K_end | K_dead

record sThreadPoolThread =
  tt_next :: "nat option"
  tt_prev :: "nat option"
  tt_threadFunc :: "nat option"
  tt_threadFuncArgs :: nat
  tt_threadFuncResult :: nat
  tt_state :: JoinState
  tt_thread :: worker_pc

text \<open>\<open>tp_listLocked\<close>: a thread in \<open>threadPool_destroy\<close> has \<open>threadListMutex\<close>. \<open>tp_calls\<close> records the calls.\<close>

record sThreadPool =
  tp_threads :: "nat \<rightharpoonup> sThreadPoolThread"
  tp_firstAvailableThread :: "nat option"
  tp_firstThreadInUse :: "nat option"
  tp_isShuttingDown :: bool
  tp_isDetached :: bool
  tp_listLocked :: bool
  tp_calls :: "(nat \<times> nat) list"

definition upd_thread :: "nat \<Rightarrow> (sThreadPoolThread \<Rightarrow> sThreadPoolThread) \<Rightarrow> sThreadPool \<Rightarrow> sThreadPool res" where
  "upd_thread a g p = rbind (modify a g (tp_threads p)) (\<lambda>h. Inr (p\<lparr> tp_threads := h \<rparr>))"

subsection \<open>Creation\<close>

text \<open>
  The outcomes of creating a pool thread: the address of the block, the errors of the two mutexes,
  and whether the conditions and the thread could be made.
\<close>

record thread_outcome =
  to_addr :: "nat option"
  to_mutex1 :: Error
  to_mutex2 :: Error
  to_created :: bool

definition threadPoolThread_create ::
  "bool \<times> bool \<Rightarrow> thread_outcome \<Rightarrow> sThreadPool \<Rightarrow> (Error \<times> nat option \<times> sThreadPool) res" where
  "threadPoolThread_create errOk out p =
     rbind (deref (to_addr out)) (\<lambda>resource.
     if to_mutex1 out \<noteq> None then Inr (to_mutex1 out, None, p)
     else if to_mutex2 out \<noteq> None then Inr (to_mutex2 out, None, p)
     else if \<not> to_created out then
       rbind (ErrNew (fst errOk) (snd errOk) ERR_THREADING 0 None
                (''ThreadPool_create failed: Couldn'' @ [CHR 0x27] @ ''t init new thread.'')) (\<lambda>e. Inr (e, None, p))
     else
       Inr (None, Some resource, p\<lparr> tp_threads := (tp_threads p)(resource \<mapsto>
         \<lparr> tt_next = None, tt_prev = None, tt_threadFunc = None, tt_threadFuncArgs = 0, tt_threadFuncResult = 0,
           tt_state = JOIN_STATE_RUNNING_UNJOINED, tt_thread = K_start \<rparr>) \<rparr>))"

definition threadPool_makeAvailable :: "nat \<Rightarrow> sThreadPool \<Rightarrow> sThreadPool res" where
  "threadPool_makeAvailable resource p =
     rbind (modify_if (tp_firstAvailableThread p) (\<lambda>t. t\<lparr> tt_prev := Some resource \<rparr>) (tp_threads p)) (\<lambda>h1.
     rbind (modify resource (\<lambda>t. t\<lparr> tt_next := tp_firstAvailableThread p, tt_prev := None \<rparr>) h1) (\<lambda>h2.
     Inr (p\<lparr> tp_threads := h2, tp_firstAvailableThread := Some resource \<rparr>)))"

text \<open>The loop of \<open>threadPool_create\<close>, over the outcomes of its rounds.\<close>

fun create_threads :: "bool \<times> bool \<Rightarrow> thread_outcome list \<Rightarrow> sThreadPool \<Rightarrow> (Error \<times> sThreadPool) res" where
  "create_threads errOk [] p = Inr (None, p)"
| "create_threads errOk (out # outs) p =
     rbind (threadPoolThread_create errOk out p) (\<lambda>(error, resource, p1).
     if error \<noteq> None then Inr (error, p1)
     else
       rbind (deref resource) (\<lambda>a.
       rbind (threadPool_makeAvailable a p1) (\<lambda>p2. create_threads errOk outs p2)))"

text \<open>The initial size is the number of outcomes; \<open>poolOk\<close> says that the pool's block was allocated.\<close>

definition threadPool_create ::
  "bool \<times> bool \<Rightarrow> bool \<Rightarrow> Error \<Rightarrow> bool \<Rightarrow> thread_outcome list \<Rightarrow> (Error \<times> sThreadPool option) res" where
  "threadPool_create errOk poolOk mutexErr isDetached outcomes =
     rbind (rassert poolOk) (\<lambda>_.
     if mutexErr \<noteq> None then Inr (mutexErr, None)
     else
       rbind (create_threads errOk outcomes
         \<lparr> tp_threads = Map.empty, tp_firstAvailableThread = None, tp_firstThreadInUse = None,
           tp_isShuttingDown = False, tp_isDetached = isDetached, tp_listLocked = False, tp_calls = [] \<rparr>)
         (\<lambda>(error, p). Inr (error, if error = None then Some p else None)))"

subsection \<open>Running a function\<close>

text \<open>Under the list lock: take an available thread or create one, and put it in front of those in use.\<close>

definition take_thread ::
  "bool \<times> bool \<Rightarrow> thread_outcome \<Rightarrow> sThreadPool \<Rightarrow> (Error \<times> nat option \<times> sThreadPool) res" where
  "take_thread errOk out p =
     (case tp_firstAvailableThread p of
        None \<Rightarrow> threadPoolThread_create errOk out p
      | Some a \<Rightarrow>
          rbind (cell (tp_threads p) a) (\<lambda>t.
          rbind (modify_if (tt_next t) (\<lambda>x. x\<lparr> tt_prev := None \<rparr>) (tp_threads p)) (\<lambda>h.
          Inr (None, Some a, p\<lparr> tp_firstAvailableThread := tt_next t, tp_threads := h \<rparr>))))"

definition put_in_use :: "nat \<Rightarrow> sThreadPool \<Rightarrow> sThreadPool res" where
  "put_in_use a p =
     rbind (modify_if (tp_firstThreadInUse p) (\<lambda>t. t\<lparr> tt_prev := Some a \<rparr>) (tp_threads p)) (\<lambda>h1.
     rbind (modify a (\<lambda>t. t\<lparr> tt_next := tp_firstThreadInUse p, tt_prev := None \<rparr>) h1) (\<lambda>h2.
     Inr (p\<lparr> tp_threads := h2, tp_firstThreadInUse := Some a \<rparr>)))"

definition threadPool_runThread ::
  "bool \<times> bool \<Rightarrow> thread_outcome \<Rightarrow> nat option \<Rightarrow> sThreadPool \<Rightarrow> (Error \<times> nat option \<times> sThreadPool) res" where
  "threadPool_runThread errOk out func p =
     rbind (rassert (func \<noteq> None)) (\<lambda>_.
     if tp_listLocked p then Inl Blocked
     else if tp_isShuttingDown p then
       rbind (ErrNew (fst errOk) (snd errOk) ERR_THREADING 0 None
                ''Cannot run thread, since pool is shutting down.'') (\<lambda>e. Inr (e, None, p))
     else
       rbind (take_thread errOk out p) (\<lambda>(error, theThread, p1).
       if error \<noteq> None then Inr (error, None, p1)
       else
         rbind (deref theThread) (\<lambda>a.
         rbind (put_in_use a p1) (\<lambda>p2. Inr (None, Some a, p2)))))"

text \<open>After the list lock: the function is stored and the thread is signalled.\<close>

definition wake :: "sThreadPoolThread \<Rightarrow> sThreadPoolThread" where
  "wake t = (if tt_thread t = K_wait then t\<lparr> tt_thread := K_woken \<rparr> else t)"

definition start_thread :: "nat \<Rightarrow> nat \<Rightarrow> nat \<Rightarrow> sThreadPool \<Rightarrow> sThreadPool res" where
  "start_thread a func args p =
     upd_thread a (\<lambda>t. wake (t\<lparr> tt_threadFunc := Some func, tt_threadFuncArgs := args \<rparr>)) p"

subsection \<open>The main loop of a pool thread\<close>

definition finish_state :: "JoinState \<Rightarrow> JoinState" where
  "finish_state st =
     (if st = JOIN_STATE_RUNNING_JOINED then JOIN_STATE_FINISHED_JOINED
      else if st = JOIN_STATE_RUNNING_UNJOINED then JOIN_STATE_FINISHED_UNJOINED else st)"

text \<open>Removing a thread from the list of those in use.\<close>

definition remove_in_use :: "nat \<Rightarrow> sThreadPool \<Rightarrow> sThreadPool res" where
  "remove_in_use self p =
     rbind (rassert (tp_firstThreadInUse p \<noteq> None)) (\<lambda>_.
     rbind (cell (tp_threads p) self) (\<lambda>t.
     (let first = (if tp_firstThreadInUse p = Some self then tt_next t else tp_firstThreadInUse p) in
      rbind (modify_if (tt_prev t) (\<lambda>x. x\<lparr> tt_next := tt_next t \<rparr>) (tp_threads p)) (\<lambda>h1.
      rbind (cell h1 self) (\<lambda>t1.
      rbind (modify_if (tt_next t1) (\<lambda>x. x\<lparr> tt_prev := tt_prev t1 \<rparr>) h1) (\<lambda>h2.
      Inr (p\<lparr> tp_threads := h2, tp_firstThreadInUse := first \<rparr>)))))))"

definition threadPoolThread_mainLoop :: "(nat \<Rightarrow> nat \<Rightarrow> nat) \<Rightarrow> nat \<Rightarrow> sThreadPool \<Rightarrow> sThreadPool res" where
  "threadPoolThread_mainLoop fn self p =
     rbind (cell (tp_threads p) self) (\<lambda>t.
     case tt_thread t of
       K_start \<Rightarrow> upd_thread self (\<lambda>t. t\<lparr> tt_thread := (if tt_threadFunc t = None then K_wait else K_woken) \<rparr>) p
     | K_wait \<Rightarrow> Inl Blocked
     | K_woken \<Rightarrow>
         if tp_isShuttingDown p then upd_thread self (\<lambda>t. t\<lparr> tt_thread := K_dead \<rparr>) p
         else
           rbind (rassert (tt_state t = JOIN_STATE_RUNNING_UNJOINED \<or> tt_state t = JOIN_STATE_RUNNING_JOINED)) (\<lambda>_.
           rbind (deref (tt_threadFunc t)) (\<lambda>f.
           rbind (upd_thread self (\<lambda>t. t\<lparr> tt_thread := K_running \<rparr>) p) (\<lambda>p1.
           Inr (p1\<lparr> tp_calls := tp_calls p1 @ [(f, tt_threadFuncArgs t)] \<rparr>))))
     | K_running \<Rightarrow>
         rbind (deref (tt_threadFunc t)) (\<lambda>f.
         upd_thread self (\<lambda>t. t\<lparr> tt_threadFuncResult := fn f (tt_threadFuncArgs t),
                               tt_thread := (if tp_isDetached p then K_cleanup else K_join) \<rparr>) p)
     | K_join \<Rightarrow>
         upd_thread self (\<lambda>t. t\<lparr> tt_state := finish_state (tt_state t),
           tt_thread := (if finish_state (tt_state t) = JOIN_STATE_COMPLETE then K_joined else K_joinwait) \<rparr>) p
     | K_joinwait \<Rightarrow> Inl Blocked
     | K_joined \<Rightarrow> upd_thread self (\<lambda>t. t\<lparr> tt_state := JOIN_STATE_RUNNING_UNJOINED, tt_thread := K_cleanup \<rparr>) p
     | K_cleanup \<Rightarrow> upd_thread self (\<lambda>t. t\<lparr> tt_threadFunc := None, tt_thread := K_list \<rparr>) p
     | K_list \<Rightarrow>
         if tp_listLocked p then Inl Blocked
         else
           rbind (if tp_isShuttingDown p then Inr p
                  else rbind (remove_in_use self p) (threadPool_makeAvailable self)) (\<lambda>p1.
           upd_thread self (\<lambda>t. t\<lparr> tt_thread := K_end \<rparr>) p1)
     | K_end \<Rightarrow> upd_thread self (\<lambda>t. t\<lparr> tt_thread := (if tp_isShuttingDown p then K_dead else K_start) \<rparr>) p
     | K_dead \<Rightarrow> Inl Blocked)"

subsection \<open>Joining\<close>

datatype join_outcome = Join_refused Error | Join_waits | Join_done nat

text \<open>The end of a join: the result is fetched, the pool thread is released.\<close>

definition join_complete :: "nat \<Rightarrow> sThreadPool \<Rightarrow> (join_outcome \<times> sThreadPool) res" where
  "join_complete a p =
     rbind (cell (tp_threads p) a) (\<lambda>t.
     rbind (upd_thread a (\<lambda>t. t\<lparr> tt_state := JOIN_STATE_COMPLETE,
                                tt_thread := (if tt_thread t = K_joinwait then K_joined else tt_thread t) \<rparr>) p) (\<lambda>p1.
     Inr (Join_done (tt_threadFuncResult t), p1)))"

definition threadPoolThread_join ::
  "bool \<times> bool \<Rightarrow> nat \<Rightarrow> sThreadPool \<Rightarrow> (join_outcome \<times> sThreadPool) res" where
  "threadPoolThread_join errOk a p =
     rbind (cell (tp_threads p) a) (\<lambda>t.
     if tp_isDetached p then
       rbind (ErrNew (fst errOk) (snd errOk) ERR_THREADING 0 None ''You cannot call join on detached thread pools'')
         (\<lambda>e. Inr (Join_refused e, p))
     else if tt_state t = JOIN_STATE_RUNNING_JOINED \<or> tt_state t = JOIN_STATE_FINISHED_JOINED then
       rbind (ErrNew (fst errOk) (snd errOk) ERR_THREADING 0 None ''Attempt to call join on already joined thread'')
         (\<lambda>e. Inr (Join_refused e, p))
     else if tt_state t = JOIN_STATE_RUNNING_UNJOINED then
       rbind (upd_thread a (\<lambda>t. t\<lparr> tt_state := JOIN_STATE_RUNNING_JOINED \<rparr>) p) (\<lambda>p1. Inr (Join_waits, p1))
     else join_complete a p)"

text \<open>A joiner that waited, after the pool thread's signal.\<close>

definition join_woken :: "nat \<Rightarrow> sThreadPool \<Rightarrow> (join_outcome \<times> sThreadPool) res" where
  "join_woken a p =
     rbind (cell (tp_threads p) a) (\<lambda>t.
     rbind (rassert (tt_state t = JOIN_STATE_FINISHED_JOINED)) (\<lambda>_. join_complete a p))"

subsection \<open>Destruction\<close>

text \<open>\<open>threadPoolThread_destroy\<close> waits until the pool thread has ended; the main loop returns no error.\<close>

definition threadPoolThread_destroy :: "nat \<Rightarrow> sThreadPool \<Rightarrow> sThreadPool res" where
  "threadPoolThread_destroy a p =
     rbind (cell (tp_threads p) a) (\<lambda>t.
     if tt_thread t \<noteq> K_dead then Inl Blocked else Inr (p\<lparr> tp_threads := (tp_threads p)(a := None) \<rparr>))"

definition destroy_begin :: "sThreadPool \<Rightarrow> sThreadPool res" where
  "destroy_begin p = (if tp_listLocked p then Inl Blocked
     else Inr (p\<lparr> tp_listLocked := True, tp_isShuttingDown := True \<rparr>))"

text \<open>The rounds of the two loops; an available thread is signalled before it is waited for.\<close>

definition destroy_signal :: "sThreadPool \<Rightarrow> sThreadPool res" where
  "destroy_signal p = rbind (deref (tp_firstAvailableThread p)) (\<lambda>a. upd_thread a wake p)"

definition destroy_available :: "sThreadPool \<Rightarrow> sThreadPool res" where
  "destroy_available p =
     rbind (deref (tp_firstAvailableThread p)) (\<lambda>a.
     rbind (cell (tp_threads p) a) (\<lambda>t.
     rbind (threadPoolThread_destroy a p) (\<lambda>p1. Inr (p1\<lparr> tp_firstAvailableThread := tt_next t \<rparr>))))"

definition destroy_in_use :: "sThreadPool \<Rightarrow> sThreadPool res" where
  "destroy_in_use p =
     rbind (deref (tp_firstThreadInUse p)) (\<lambda>a.
     rbind (cell (tp_threads p) a) (\<lambda>t.
     rbind (threadPoolThread_destroy a p) (\<lambda>p1. Inr (p1\<lparr> tp_firstThreadInUse := tt_next t \<rparr>))))"

subsection \<open>Clients and pool threads\<close>

text \<open>
  Clients hand jobs to the pool and join each handle at most once, while the pool threads run. A job
  is pending between the two halves of \<open>threadPool_runThread\<close>; a joiner that waits is woken by the
  signal of the pool thread, which then waits itself. No wake-up comes without a signal.
\<close>

type_synonym job = "nat \<times> nat"

record pool_sys =
  ps_pool :: sThreadPool
  ps_pending :: "nat \<rightharpoonup> job"
  ps_handles :: "nat set"
  ps_joining :: "nat set"
  ps_given :: "job list"

inductive pool_step :: "(nat \<Rightarrow> nat \<Rightarrow> nat) \<Rightarrow> pool_sys \<Rightarrow> pool_sys \<Rightarrow> bool" for fn where
  run: "threadPool_runThread errOk out (Some f) (ps_pool s) = Inr (None, Some a, p)
    \<Longrightarrow> to_addr out \<notin> Some ` dom (tp_threads (ps_pool s))
    \<Longrightarrow> pool_step fn s (s\<lparr> ps_pool := p, ps_pending := (ps_pending s)(a \<mapsto> (f, args)), ps_given := ps_given s @ [(f, args)] \<rparr>)"
| start: "ps_pending s a = Some (f, args) \<Longrightarrow> start_thread a f args (ps_pool s) = Inr p
    \<Longrightarrow> pool_step fn s (s\<lparr> ps_pool := p, ps_pending := (ps_pending s)(a := None), ps_handles := insert a (ps_handles s) \<rparr>)"
| work: "threadPoolThread_mainLoop fn a (ps_pool s) = Inr p \<Longrightarrow> pool_step fn s (s\<lparr> ps_pool := p \<rparr>)"
| join_waits: "a \<in> ps_handles s \<Longrightarrow> threadPoolThread_join errOk a (ps_pool s) = Inr (Join_waits, p)
    \<Longrightarrow> pool_step fn s (s\<lparr> ps_pool := p, ps_handles := ps_handles s - {a}, ps_joining := insert a (ps_joining s) \<rparr>)"
| join_done: "a \<in> ps_handles s \<Longrightarrow> threadPoolThread_join errOk a (ps_pool s) = Inr (Join_done r, p)
    \<Longrightarrow> pool_step fn s (s\<lparr> ps_pool := p, ps_handles := ps_handles s - {a} \<rparr>)"
| join_wakes: "a \<in> ps_joining s \<Longrightarrow> tp_threads (ps_pool s) a = Some t \<Longrightarrow> tt_thread t = K_joinwait
    \<Longrightarrow> join_woken a (ps_pool s) = Inr (Join_done r, p)
    \<Longrightarrow> pool_step fn s (s\<lparr> ps_pool := p, ps_joining := ps_joining s - {a} \<rparr>)"

definition pool_start :: "sThreadPool \<Rightarrow> pool_sys" where
  "pool_start p = \<lparr> ps_pool = p, ps_pending = Map.empty, ps_handles = {}, ps_joining = {}, ps_given = [] \<rparr>"

inductive pool_reach :: "(nat \<Rightarrow> nat \<Rightarrow> nat) \<Rightarrow> sThreadPool \<Rightarrow> pool_sys \<Rightarrow> bool" for fn p where
  reach_init: "pool_reach fn p (pool_start p)"
| reach_next: "pool_reach fn p s \<Longrightarrow> pool_step fn s s' \<Longrightarrow> pool_reach fn p s'"

text \<open>Runs of the system that can be computed: clients and pool threads act in a given order.\<close>

datatype action = A_run nat nat nat | A_start nat | A_work nat | A_join nat | A_woken nat

fun perform :: "(nat \<Rightarrow> nat \<Rightarrow> nat) \<Rightarrow> action \<Rightarrow> pool_sys \<Rightarrow> pool_sys option" where
  "perform fn (A_run addr f args) s =
     (if tp_threads (ps_pool s) addr \<noteq> None then None
      else (case threadPool_runThread (True, True)
                \<lparr> to_addr = Some addr, to_mutex1 = None, to_mutex2 = None, to_created = True \<rparr> (Some f) (ps_pool s) of
        Inr (None, Some a, p) \<Rightarrow>
          Some (s\<lparr> ps_pool := p, ps_pending := (ps_pending s)(a \<mapsto> (f, args)), ps_given := ps_given s @ [(f, args)] \<rparr>)
      | _ \<Rightarrow> None))"
| "perform fn (A_start a) s =
     (case ps_pending s a of None \<Rightarrow> None
      | Some (f, args) \<Rightarrow> (case start_thread a f args (ps_pool s) of Inl _ \<Rightarrow> None
          | Inr p \<Rightarrow> Some (s\<lparr> ps_pool := p, ps_pending := (ps_pending s)(a := None), ps_handles := insert a (ps_handles s) \<rparr>)))"
| "perform fn (A_work a) s =
     (case threadPoolThread_mainLoop fn a (ps_pool s) of Inl _ \<Rightarrow> None | Inr p \<Rightarrow> Some (s\<lparr> ps_pool := p \<rparr>))"
| "perform fn (A_join a) s =
     (if a \<notin> ps_handles s then None
      else (case threadPoolThread_join (True, True) a (ps_pool s) of
        Inr (Join_waits, p) \<Rightarrow> Some (s\<lparr> ps_pool := p, ps_handles := ps_handles s - {a}, ps_joining := insert a (ps_joining s) \<rparr>)
      | Inr (Join_done r, p) \<Rightarrow> Some (s\<lparr> ps_pool := p, ps_handles := ps_handles s - {a} \<rparr>)
      | _ \<Rightarrow> None))"
| "perform fn (A_woken a) s =
     (if a \<notin> ps_joining s then None
      else (case tp_threads (ps_pool s) a of None \<Rightarrow> None
        | Some t \<Rightarrow> if tt_thread t \<noteq> K_joinwait then None
            else (case join_woken a (ps_pool s) of
              Inr (Join_done r, p) \<Rightarrow> Some (s\<lparr> ps_pool := p, ps_joining := ps_joining s - {a} \<rparr>)
            | _ \<Rightarrow> None)))"

fun performs :: "(nat \<Rightarrow> nat \<Rightarrow> nat) \<Rightarrow> action list \<Rightarrow> pool_sys \<Rightarrow> pool_sys option" where
  "performs fn [] s = Some s"
| "performs fn (act # acts) s = (case perform fn act s of None \<Rightarrow> None | Some s' \<Rightarrow> performs fn acts s')"

lemma perform_step: "perform fn act s = Some s' \<Longrightarrow> pool_step fn s s'"
  by (cases act)
     (auto split: if_splits option.splits sum.splits prod.splits join_outcome.splits intro: pool_step.intros
       simp: image_iff domIff)

lemma performs_reach: "performs fn acts s = Some s' \<Longrightarrow> pool_reach fn p s \<Longrightarrow> pool_reach fn p s'"
  by (induction acts arbitrary: s) (auto split: option.splits dest: perform_step intro: reach_next)

subsection \<open>The invariant\<close>

text \<open>A thread that has no job to do, and one that has been started with a job.\<close>

definition idle_ok :: "bool \<Rightarrow> bool \<Rightarrow> bool \<Rightarrow> sThreadPoolThread \<Rightarrow> bool" where
  "idle_ok det hdl joining t \<longleftrightarrow> tt_threadFunc t = None \<and> tt_thread t \<in> {K_start, K_wait, K_end}
     \<and> tt_state t = JOIN_STATE_RUNNING_UNJOINED \<and> \<not> joining \<and> (det \<or> \<not> hdl)"

definition ready_ok :: "bool \<Rightarrow> bool \<Rightarrow> bool \<Rightarrow> sThreadPoolThread \<Rightarrow> bool" where
  "ready_ok det hdl joining t \<longleftrightarrow> tt_threadFunc t \<noteq> None
     \<and> tt_state t = (if joining then JOIN_STATE_RUNNING_JOINED else JOIN_STATE_RUNNING_UNJOINED)
     \<and> (if det then \<not> joining else hdl \<noteq> joining)"

definition result_ok :: "(nat \<Rightarrow> nat \<Rightarrow> nat) \<Rightarrow> sThreadPoolThread \<Rightarrow> bool" where
  "result_ok fn t \<longleftrightarrow> (\<exists>f. tt_threadFunc t = Some f \<and> tt_threadFuncResult t = fn f (tt_threadFuncArgs t))"

definition busy_ok :: "(nat \<Rightarrow> nat \<Rightarrow> nat) \<Rightarrow> bool \<Rightarrow> bool \<Rightarrow> bool \<Rightarrow> sThreadPoolThread \<Rightarrow> bool" where
  "busy_ok fn det hdl joining t \<longleftrightarrow>
     (case tt_thread t of
        K_start \<Rightarrow> ready_ok det hdl joining t
      | K_end \<Rightarrow> ready_ok det hdl joining t
      | K_woken \<Rightarrow> ready_ok det hdl joining t
      | K_running \<Rightarrow> ready_ok det hdl joining t
      | K_join \<Rightarrow> \<not> det \<and> ready_ok det hdl joining t \<and> result_ok fn t
      | K_joinwait \<Rightarrow> \<not> det \<and> result_ok fn t \<and> hdl \<noteq> joining
          \<and> tt_state t = (if joining then JOIN_STATE_FINISHED_JOINED else JOIN_STATE_FINISHED_UNJOINED)
      | K_joined \<Rightarrow> \<not> det \<and> \<not> hdl \<and> \<not> joining
      | K_cleanup \<Rightarrow> tt_state t = JOIN_STATE_RUNNING_UNJOINED \<and> \<not> joining \<and> (det \<or> \<not> hdl)
      | K_list \<Rightarrow> tt_threadFunc t = None \<and> tt_state t = JOIN_STATE_RUNNING_UNJOINED \<and> \<not> joining \<and> (det \<or> \<not> hdl)
      | _ \<Rightarrow> False)"

definition thread_ok ::
  "(nat \<Rightarrow> nat \<Rightarrow> nat) \<Rightarrow> bool \<Rightarrow> bool \<Rightarrow> job option \<Rightarrow> bool \<Rightarrow> bool \<Rightarrow> sThreadPoolThread \<Rightarrow> bool" where
  "thread_ok fn det inUse pending hdl joining t \<longleftrightarrow>
     (if inUse \<and> pending = None then busy_ok fn det hdl joining t
      else idle_ok det hdl joining t \<and> (inUse \<or> pending = None))"

text \<open>The job of a thread that it has not begun.\<close>

definition unbegun :: "sThreadPoolThread \<Rightarrow> job multiset" where
  "unbegun t = (case tt_threadFunc t of None \<Rightarrow> {#}
     | Some f \<Rightarrow> if tt_thread t \<in> {K_start, K_end, K_woken} then {#(f, tt_threadFuncArgs t)#} else {#})"

definition job_of :: "pool_sys \<Rightarrow> nat \<Rightarrow> job multiset" where
  "job_of s a = (case ps_pending s a of Some j \<Rightarrow> {#j#}
     | None \<Rightarrow> (case tp_threads (ps_pool s) a of None \<Rightarrow> {#} | Some t \<Rightarrow> unbegun t))"

abbreviation pool_links :: "(nat \<rightharpoonup> sThreadPoolThread) \<Rightarrow> link_view" where
  "pool_links \<equiv> links_by tt_prev tt_next"

text \<open>A thread without its links.\<close>

definition bare :: "sThreadPoolThread \<Rightarrow> sThreadPoolThread" where
  "bare t = t\<lparr> tt_next := None, tt_prev := None \<rparr>"

definition pool_lists :: "sThreadPool \<Rightarrow> nat list \<Rightarrow> nat list \<Rightarrow> bool" where
  "pool_lists p xs ys \<longleftrightarrow> dll (pool_links (tp_threads p)) (tp_firstAvailableThread p) xs
     \<and> dll (pool_links (tp_threads p)) (tp_firstThreadInUse p) ys
     \<and> set xs \<inter> set ys = {} \<and> dom (tp_threads p) = set xs \<union> set ys
     \<and> \<not> tp_isShuttingDown p \<and> \<not> tp_listLocked p"

definition threads_ok :: "(nat \<Rightarrow> nat \<Rightarrow> nat) \<Rightarrow> pool_sys \<Rightarrow> nat set \<Rightarrow> bool" where
  "threads_ok fn s inUse \<longleftrightarrow>
     (\<forall>a. case tp_threads (ps_pool s) a of
        None \<Rightarrow> ps_pending s a = None \<and> a \<notin> ps_handles s \<and> a \<notin> ps_joining s
      | Some t \<Rightarrow> thread_ok fn (tp_isDetached (ps_pool s)) (a \<in> inUse) (ps_pending s a)
                    (a \<in> ps_handles s) (a \<in> ps_joining s) t)"

definition jobs_ok :: "pool_sys \<Rightarrow> bool" where
  "jobs_ok s \<longleftrightarrow> mset (ps_given s) = mset (tp_calls (ps_pool s)) + (\<Sum>a \<in> dom (tp_threads (ps_pool s)). job_of s a)"

definition pool_inv :: "(nat \<Rightarrow> nat \<Rightarrow> nat) \<Rightarrow> pool_sys \<Rightarrow> bool" where
  "pool_inv fn s \<longleftrightarrow> jobs_ok s \<and> (\<exists>xs ys. pool_lists (ps_pool s) xs ys \<and> threads_ok fn s (set ys))"

interpretation pool_nodes: linked_nodes tt_prev tt_next "\<lambda>v t. t\<lparr> tt_prev := v \<rparr>" "\<lambda>v t. t\<lparr> tt_next := v \<rparr>" bare
  by unfold_locales (simp_all add: bare_def)

lemma bare_fields [simp]:
  "tt_threadFunc (bare t) = tt_threadFunc t" "tt_threadFuncArgs (bare t) = tt_threadFuncArgs t"
  "tt_threadFuncResult (bare t) = tt_threadFuncResult t" "tt_state (bare t) = tt_state t" "tt_thread (bare t) = tt_thread t"
  by (simp_all add: bare_def)

lemma thread_ok_bare: "thread_ok fn det u pend h j (bare t) = thread_ok fn det u pend h j t"
  by (cases "tt_thread t") (simp_all add: thread_ok_def busy_ok_def idle_ok_def ready_ok_def result_ok_def)

lemma thread_ok_cong: "bare t' = bare t \<Longrightarrow> thread_ok fn det u pend h j t \<Longrightarrow> thread_ok fn det u pend h j t'"
  by (metis thread_ok_bare)

lemma unbegun_bare: "unbegun (bare t) = unbegun t"
  by (cases "tt_threadFunc t") (simp_all add: unbegun_def)

text \<open>Two pools whose threads differ in their links only.\<close>

lemma same_body:
  assumes "body_by bare h' = body_by bare h"
  shows "dom h' = dom h" and "h' a = None \<longleftrightarrow> h a = None"
    and "h' a = Some t' \<Longrightarrow> \<exists>t. h a = Some t \<and> bare t' = bare t"
proof -
  have b: "map_option bare (h' a) = map_option bare (h a)" for a using fun_cong[OF assms, of a] by (simp add: body_by_def)
  show "h' a = None \<longleftrightarrow> h a = None" using b[of a] by (metis map_option_is_None)
  show "dom h' = dom h" using b by (auto simp: dom_def) (metis map_option_is_None not_None_eq)+
  show "h' a = Some t' \<Longrightarrow> \<exists>t. h a = Some t \<and> bare t' = bare t" using b[of a] by (cases "h a") auto
qed

subsection \<open>Steps of one thread\<close>

lemma pool_invE:
  assumes "pool_inv fn s"
  obtains xs ys where "jobs_ok s" "pool_lists (ps_pool s) xs ys" "threads_ok fn s (set ys)"
  using assms by (auto simp: pool_inv_def)

lemma finite_threads: "pool_lists p xs ys \<Longrightarrow> finite (dom (tp_threads p))"
  by (simp add: pool_lists_def)

lemma threads_okD:
  assumes "threads_ok fn s U"
  shows "tp_threads (ps_pool s) a = Some t \<Longrightarrow>
      thread_ok fn (tp_isDetached (ps_pool s)) (a \<in> U) (ps_pending s a) (a \<in> ps_handles s) (a \<in> ps_joining s) t"
    and "tp_threads (ps_pool s) a = None \<Longrightarrow> ps_pending s a = None \<and> a \<notin> ps_handles s \<and> a \<notin> ps_joining s"
  using assms[unfolded threads_ok_def, rule_format, of a] by auto

text \<open>A step that changes one thread, or adds it, and may move threads between the lists.\<close>

lemma inv_general:
  assumes s: "jobs_ok s" "threads_ok fn s U" "finite (dom (tp_threads (ps_pool s)))"
    and body: "body_by bare (tp_threads (ps_pool s')) = (body_by bare (tp_threads (ps_pool s)))(a \<mapsto> bare t')"
    and lists: "pool_lists (ps_pool s') xs ys"
    and pool: "tp_isDetached (ps_pool s') = tp_isDetached (ps_pool s)" "tp_calls (ps_pool s') = tp_calls (ps_pool s) @ cs"
    and others: "\<And>b. b \<noteq> a \<Longrightarrow> ps_pending s' b = ps_pending s b \<and> (b \<in> ps_handles s' \<longleftrightarrow> b \<in> ps_handles s)
      \<and> (b \<in> ps_joining s' \<longleftrightarrow> b \<in> ps_joining s) \<and> (b \<in> set ys \<longleftrightarrow> b \<in> U)"
    and given: "mset (ps_given s') = mset (ps_given s) + gs" and job: "job_of s a + gs = mset cs + job_of s' a"
    and ok: "thread_ok fn (tp_isDetached (ps_pool s)) (a \<in> set ys) (ps_pending s' a) (a \<in> ps_handles s') (a \<in> ps_joining s') t'"
  shows "pool_inv fn s'"
proof -
  let ?h = "tp_threads (ps_pool s)" and ?h' = "tp_threads (ps_pool s')"
  have b: "map_option bare (?h' b) = (if b = a then Some (bare t') else map_option bare (?h b))" for b
    using fun_cong[OF body, of b] by (simp add: body_by_def)
  have dom: "dom ?h' = insert a (dom ?h)"
  proof -
    have "b \<in> dom ?h' \<longleftrightarrow> b \<in> insert a (dom ?h)" for b
      using b[of b] by (cases "?h' b"; cases "?h b") (auto split: if_splits)
    then show ?thesis by blast
  qed
  have "threads_ok fn s' (set ys)"
    unfolding threads_ok_def
  proof
    fix c
    show "case ?h' c of
        None \<Rightarrow> ps_pending s' c = None \<and> c \<notin> ps_handles s' \<and> c \<notin> ps_joining s'
      | Some t \<Rightarrow> thread_ok fn (tp_isDetached (ps_pool s')) (c \<in> set ys) (ps_pending s' c)
                    (c \<in> ps_handles s') (c \<in> ps_joining s') t"
    proof (cases "c = a")
      case True
      then obtain t where t: "?h' c = Some t" "bare t = bare t'" using b[of a] by (cases "?h' a") auto
      have "thread_ok fn (tp_isDetached (ps_pool s)) (a \<in> set ys) (ps_pending s' a) (a \<in> ps_handles s') (a \<in> ps_joining s') t"
        using t(2) ok by (rule thread_ok_cong)
      then show ?thesis using t(1) True pool(1) by simp
    next
      case False
      then show ?thesis using b[of c] others[OF False] s(2)[unfolded threads_ok_def, rule_format, of c] pool(1)
        by (cases "?h c"; cases "?h' c") (simp_all add: thread_ok_cong)
    qed
  qed
  moreover have "jobs_ok s'"
  proof -
    have "job_of s' c = job_of s c" if "c \<noteq> a" for c
      using b[of c] others[OF that] that unbegun_bare
      by (cases "?h c"; cases "?h' c") (auto simp: job_of_def split: option.splits, metis+)
    then have 1: "(\<Sum>c \<in> dom ?h - {a}. job_of s' c) = (\<Sum>c \<in> dom ?h - {a}. job_of s c)" by (intro sum.cong) auto
    have 2: "(\<Sum>c \<in> dom ?h. job_of s c) = job_of s a + (\<Sum>c \<in> dom ?h - {a}. job_of s c)"
    proof (cases "a \<in> dom ?h")
      case False
      then have "job_of s a = {#}" using threads_okD(2)[OF s(2), of a] by (auto simp: job_of_def split: option.splits)
      then show ?thesis using False by simp
    qed (use s(3) in \<open>simp add: sum.remove\<close>)
    have 3: "(\<Sum>c \<in> dom ?h'. job_of s' c) = job_of s' a + (\<Sum>c \<in> dom ?h - {a}. job_of s' c)"
      unfolding dom using s(3) by (simp add: sum.insert_remove)
    have "mset (ps_given s') = mset (tp_calls (ps_pool s)) + (job_of s a + gs) + (\<Sum>c \<in> dom ?h - {a}. job_of s c)"
      using s(1) given 2 by (simp add: jobs_ok_def add_ac)
    then show ?thesis unfolding jobs_ok_def 3 1 job pool(2) by (simp add: add_ac)
  qed
  ultimately show ?thesis using lists by (auto simp: pool_inv_def)
qed

text \<open>A step that changes fields of one thread but no links.\<close>

lemma inv_thread:
  assumes inv: "pool_inv fn s" and a: "tp_threads (ps_pool s) a = Some t"
    and pool: "ps_pool s' = (ps_pool s)\<lparr> tp_threads := (tp_threads (ps_pool s))(a \<mapsto> t'), tp_calls := tp_calls (ps_pool s) @ cs \<rparr>"
    and links: "tt_next t' = tt_next t" "tt_prev t' = tt_prev t"
    and others: "\<And>b. b \<noteq> a \<Longrightarrow> ps_pending s' b = ps_pending s b \<and> (b \<in> ps_handles s' \<longleftrightarrow> b \<in> ps_handles s)
      \<and> (b \<in> ps_joining s' \<longleftrightarrow> b \<in> ps_joining s)"
    and given: "ps_given s' = ps_given s" and job: "job_of s a = mset cs + job_of s' a"
    and ok: "\<And>u. thread_ok fn (tp_isDetached (ps_pool s)) u (ps_pending s a) (a \<in> ps_handles s) (a \<in> ps_joining s) t
      \<Longrightarrow> thread_ok fn (tp_isDetached (ps_pool s)) u (ps_pending s' a) (a \<in> ps_handles s') (a \<in> ps_joining s') t'"
  shows "pool_inv fn s'"
  using inv
proof (rule pool_invE)
  fix xs ys
  assume s: "jobs_ok s" "pool_lists (ps_pool s) xs ys" "threads_ok fn s (set ys)"
  have "pool_links ((tp_threads (ps_pool s))(a \<mapsto> t')) = pool_links (tp_threads (ps_pool s))"
    using a links by (auto simp: links_by_def fun_eq_iff)
  then have l: "pool_lists (ps_pool s') xs ys" using s(2) a pool by (auto simp: pool_lists_def)
  show ?thesis
    by (rule inv_general[OF s(1,3) finite_threads[OF s(2)] _ l, where a = a and t' = t' and cs = cs and gs = "{#}"])
       (use pool others given job ok[OF threads_okD(1)[OF s(3) a]] in \<open>simp_all add: body_by_upd\<close>)
qed

lemma upd_thread_Inr: "upd_thread a g p = Inr p' \<longleftrightarrow>
    (\<exists>t. tp_threads p a = Some t \<and> p' = p\<lparr> tp_threads := (tp_threads p)(a \<mapsto> g t) \<rparr>)"
  by (auto simp: upd_thread_def modify_def res_iff)

lemmas thread_ok_unfold = thread_ok_def busy_ok_def idle_ok_def ready_ok_def result_ok_def

lemma start_inv:
  assumes "pool_inv fn s" and "ps_pending s a = Some (f, args)" and "start_thread a f args (ps_pool s) = Inr p"
  shows "pool_inv fn (s\<lparr> ps_pool := p, ps_pending := (ps_pending s)(a := None), ps_handles := insert a (ps_handles s) \<rparr>)"
proof -
  obtain t where t: "tp_threads (ps_pool s) a = Some t"
      "p = (ps_pool s)\<lparr> tp_threads := (tp_threads (ps_pool s))(a \<mapsto> wake (t\<lparr> tt_threadFunc := Some f, tt_threadFuncArgs := args \<rparr>)) \<rparr>"
    using assms(3) by (auto simp: start_thread_def upd_thread_Inr)
  obtain U where "thread_ok fn (tp_isDetached (ps_pool s)) (a \<in> U) (ps_pending s a) (a \<in> ps_handles s) (a \<in> ps_joining s) t"
    using assms(1) threads_okD(1)[OF _ t(1)] by (auto simp: pool_inv_def)
  then have i: "tt_thread t \<in> {K_start, K_wait, K_end}" using assms(2) by (simp add: thread_ok_def idle_ok_def)
  show ?thesis
    by (rule inv_thread[OF assms(1) t(1), where cs = "[]"
          and t' = "wake (t\<lparr> tt_threadFunc := Some f, tt_threadFuncArgs := args \<rparr>)"])
       (use t(2) i assms(2) in \<open>auto simp: wake_def job_of_def unbegun_def thread_ok_unfold\<close>)
qed

text \<open>What the invariant says of one thread.\<close>

lemma inv_thread_ok:
  assumes "pool_inv fn s" and "tp_threads (ps_pool s) a = Some t"
  obtains u where "thread_ok fn (tp_isDetached (ps_pool s)) u (ps_pending s a) (a \<in> ps_handles s) (a \<in> ps_joining s) t"
    and "u \<longrightarrow> tp_firstThreadInUse (ps_pool s) \<noteq> None"
  using assms(1)
proof (rule pool_invE)
  fix xs ys
  assume s: "jobs_ok s" "pool_lists (ps_pool s) xs ys" "threads_ok fn s (set ys)"
  have "tp_firstThreadInUse (ps_pool s) = hdopt ys" using s(2) dll_first by (auto simp: pool_lists_def)
  then show thesis using that[of "a \<in> set ys"] threads_okD(1)[OF s(3) assms(2)] by (cases ys) auto
qed

lemma inv_flags: "pool_inv fn s \<Longrightarrow> \<not> tp_isShuttingDown (ps_pool s) \<and> \<not> tp_listLocked (ps_pool s)"
  by (auto simp: pool_inv_def pool_lists_def)

lemma work_inv:
  assumes inv: "pool_inv fn s" and a: "tp_threads (ps_pool s) a = Some t" and "tt_thread t \<noteq> K_list"
    and w: "threadPoolThread_mainLoop fn a (ps_pool s) = Inr p"
  shows "pool_inv fn (s\<lparr> ps_pool := p \<rparr>)"
proof -
  let ?s' = "s\<lparr> ps_pool := p \<rparr>"
  have f: "\<not> tp_isShuttingDown (ps_pool s)" "\<not> tp_listLocked (ps_pool s)" using inv_flags[OF inv] by auto
  obtain u where ok: "thread_ok fn (tp_isDetached (ps_pool s)) u (ps_pending s a) (a \<in> ps_handles s) (a \<in> ps_joining s) t"
    using inv_thread_ok[OF inv a] .
  have pend: "ps_pending s a = None" if "tt_thread t \<notin> {K_start, K_wait, K_end}"
    using that ok by (auto simp: thread_ok_def idle_ok_def split: if_splits)
  have step: "pool_inv fn ?s'"
    if "p = (ps_pool s)\<lparr> tp_threads := (tp_threads (ps_pool s))(a \<mapsto> t'), tp_calls := tp_calls (ps_pool s) @ cs \<rparr>"
      "tt_next t' = tt_next t" "tt_prev t' = tt_prev t"
      "ps_pending s a = None \<Longrightarrow> unbegun t = mset cs + unbegun t'" "ps_pending s a \<noteq> None \<Longrightarrow> cs = []"
      "\<And>u. thread_ok fn (tp_isDetached (ps_pool s)) u (ps_pending s a) (a \<in> ps_handles s) (a \<in> ps_joining s) t
        \<Longrightarrow> thread_ok fn (tp_isDetached (ps_pool s)) u (ps_pending s a) (a \<in> ps_handles s) (a \<in> ps_joining s) t'"
    for t' cs
    by (rule inv_thread[OF inv a, where t' = t' and cs = cs])
       (use that a in \<open>auto simp: job_of_def split: option.splits\<close>)
  show ?thesis
  proof (cases "tt_thread t")
    case K_start
    show ?thesis
      by (rule step[where t' = "t\<lparr> tt_thread := (if tt_threadFunc t = None then K_wait else K_woken) \<rparr>" and cs = "[]"])
         (use w a K_start in \<open>auto simp: threadPoolThread_mainLoop_def upd_thread_Inr unbegun_def thread_ok_unfold split: option.splits if_splits\<close>)
  next
    case K_woken
    then obtain fu where fu: "tt_threadFunc t = Some fu"
      using ok by (auto simp: thread_ok_unfold split: if_splits)
    show ?thesis
      by (rule step[where t' = "t\<lparr> tt_thread := K_running \<rparr>" and cs = "[(fu, tt_threadFuncArgs t)]"])
         (use w a K_woken fu f pend in \<open>auto simp: threadPoolThread_mainLoop_def upd_thread_Inr res_iff unbegun_def thread_ok_unfold split: if_splits\<close>)
  next
    case K_running
    then obtain fu where fu: "tt_threadFunc t = Some fu"
      using ok by (auto simp: thread_ok_unfold split: if_splits)
    let ?t' = "t\<lparr> tt_threadFuncResult := fn fu (tt_threadFuncArgs t), tt_thread := (if tp_isDetached (ps_pool s) then K_cleanup else K_join) \<rparr>"
    show ?thesis
      by (rule step[where t' = ?t' and cs = "[]"])
         (use w a K_running fu f pend in \<open>auto simp: threadPoolThread_mainLoop_def upd_thread_Inr res_iff unbegun_def thread_ok_unfold split: if_splits\<close>)
  next
    case K_join
    let ?t' = "t\<lparr> tt_state := finish_state (tt_state t),
      tt_thread := (if finish_state (tt_state t) = JOIN_STATE_COMPLETE then K_joined else K_joinwait) \<rparr>"
    have "tt_state t \<in> {JOIN_STATE_RUNNING_JOINED, JOIN_STATE_RUNNING_UNJOINED}"
      using ok K_join pend by (auto simp: thread_ok_unfold split: if_splits)
    then show ?thesis
      by (intro step[where t' = ?t' and cs = "[]"])
         (use w a K_join f pend in \<open>auto simp: threadPoolThread_mainLoop_def upd_thread_Inr finish_state_def unbegun_def thread_ok_unfold split: if_splits option.splits\<close>)
  next
    case K_joined
    show ?thesis
      by (rule step[where t' = "t\<lparr> tt_state := JOIN_STATE_RUNNING_UNJOINED, tt_thread := K_cleanup \<rparr>" and cs = "[]"])
         (use w a K_joined f pend in \<open>auto simp: threadPoolThread_mainLoop_def upd_thread_Inr unbegun_def thread_ok_unfold split: if_splits option.splits\<close>)
  next
    case K_cleanup
    show ?thesis
      by (rule step[where t' = "t\<lparr> tt_threadFunc := None, tt_thread := K_list \<rparr>" and cs = "[]"])
         (use w a K_cleanup f pend in \<open>auto simp: threadPoolThread_mainLoop_def upd_thread_Inr unbegun_def thread_ok_unfold split: if_splits option.splits\<close>)
  next
    case K_end
    show ?thesis
      by (rule step[where t' = "t\<lparr> tt_thread := K_start \<rparr>" and cs = "[]"])
         (use w a K_end f in \<open>auto simp: threadPoolThread_mainLoop_def upd_thread_Inr unbegun_def thread_ok_unfold split: if_splits option.splits\<close>)
  qed (use w a assms(3) in \<open>simp_all add: threadPoolThread_mainLoop_def\<close>)
qed

lemma join_thread_inv:
  assumes inv: "pool_inv fn s" and a: "tp_threads (ps_pool s) a = Some t"
    and pool: "ps_pool s' = (ps_pool s)\<lparr> tp_threads := (tp_threads (ps_pool s))(a \<mapsto> t\<lparr> tt_state := st, tt_thread := pc \<rparr>) \<rparr>"
    and pc: "unbegun (t\<lparr> tt_state := st, tt_thread := pc \<rparr>) = unbegun t"
    and ghosts: "ps_pending s' = ps_pending s" "ps_given s' = ps_given s"
      "ps_handles s' = ps_handles s - {a}" "\<And>b. b \<noteq> a \<Longrightarrow> b \<in> ps_joining s' \<longleftrightarrow> b \<in> ps_joining s"
    and ok: "\<And>u. thread_ok fn (tp_isDetached (ps_pool s)) u (ps_pending s a) (a \<in> ps_handles s) (a \<in> ps_joining s) t
      \<Longrightarrow> thread_ok fn (tp_isDetached (ps_pool s)) u (ps_pending s a) False (a \<in> ps_joining s') (t\<lparr> tt_state := st, tt_thread := pc \<rparr>)"
  shows "pool_inv fn s'"
proof (rule inv_thread[OF inv a, where t' = "t\<lparr> tt_state := st, tt_thread := pc \<rparr>" and cs = "[]"])
  show "job_of s a = mset [] + job_of s' a"
  proof -
    have "tp_threads (ps_pool s') a = Some (t\<lparr> tt_state := st, tt_thread := pc \<rparr>)" using pool by simp
    then show ?thesis using a pc ghosts(1) by (simp add: job_of_def split: option.splits)
  qed
  show "ps_pending s' b = ps_pending s b \<and> (b \<in> ps_handles s' \<longleftrightarrow> b \<in> ps_handles s)
      \<and> (b \<in> ps_joining s' \<longleftrightarrow> b \<in> ps_joining s)" if "b \<noteq> a" for b
    using ghosts(1,3) ghosts(4)[OF that] that by simp
  show "thread_ok fn (tp_isDetached (ps_pool s)) u (ps_pending s' a) (a \<in> ps_handles s') (a \<in> ps_joining s')
      (t\<lparr> tt_state := st, tt_thread := pc \<rparr>)"
    if "thread_ok fn (tp_isDetached (ps_pool s)) u (ps_pending s a) (a \<in> ps_handles s) (a \<in> ps_joining s) t" for u
    using ok[OF that] ghosts(1,3) by simp
qed (use pool ghosts(2) in simp_all)

lemma join_complete_Inr:
  "join_complete a p = Inr (r, p') \<longleftrightarrow> (\<exists>t. tp_threads p a = Some t \<and> r = Join_done (tt_threadFuncResult t)
     \<and> p' = p\<lparr> tp_threads := (tp_threads p)(a \<mapsto> t\<lparr> tt_state := JOIN_STATE_COMPLETE,
         tt_thread := (if tt_thread t = K_joinwait then K_joined else tt_thread t) \<rparr>) \<rparr>)"
  by (cases "tp_threads p a") (auto simp: join_complete_def upd_thread_def cell_def)

lemma join_waits_inv:
  assumes inv: "pool_inv fn s" and hd: "a \<in> ps_handles s"
    and j: "threadPoolThread_join errOk a (ps_pool s) = Inr (Join_waits, p)"
  shows "pool_inv fn (s\<lparr> ps_pool := p, ps_handles := ps_handles s - {a}, ps_joining := insert a (ps_joining s) \<rparr>)"
proof -
  obtain t where t: "tp_threads (ps_pool s) a = Some t" "\<not> tp_isDetached (ps_pool s)"
      "tt_state t = JOIN_STATE_RUNNING_UNJOINED"
      "p = (ps_pool s)\<lparr> tp_threads := (tp_threads (ps_pool s))(a \<mapsto> t\<lparr> tt_state := JOIN_STATE_RUNNING_JOINED \<rparr>) \<rparr>"
    using j by (auto simp: threadPoolThread_join_def res_iff upd_thread_Inr join_complete_Inr split: if_splits)
  show ?thesis
  proof (rule join_thread_inv[OF inv t(1), where st = JOIN_STATE_RUNNING_JOINED and pc = "tt_thread t"])
    fix u
    assume "thread_ok fn (tp_isDetached (ps_pool s)) u (ps_pending s a) (a \<in> ps_handles s) (a \<in> ps_joining s) t"
    then show "thread_ok fn (tp_isDetached (ps_pool s)) u (ps_pending s a) False
        (a \<in> ps_joining (s\<lparr> ps_pool := p, ps_handles := ps_handles s - {a}, ps_joining := insert a (ps_joining s) \<rparr>))
        (t\<lparr> tt_state := JOIN_STATE_RUNNING_JOINED, tt_thread := tt_thread t \<rparr>)"
      using t(2,3) hd by (cases "tt_thread t") (auto simp: thread_ok_unfold split: if_splits)
  qed (use t(4) in \<open>simp_all add: unbegun_def split: option.splits\<close>)
qed

lemma join_done_inv:
  assumes inv: "pool_inv fn s" and hd: "a \<in> ps_handles s"
    and j: "threadPoolThread_join errOk a (ps_pool s) = Inr (Join_done r, p)"
  shows "pool_inv fn (s\<lparr> ps_pool := p, ps_handles := ps_handles s - {a} \<rparr>)"
proof -
  obtain t where t: "tp_threads (ps_pool s) a = Some t" "\<not> tp_isDetached (ps_pool s)"
      "tt_state t \<notin> {JOIN_STATE_RUNNING_UNJOINED, JOIN_STATE_RUNNING_JOINED, JOIN_STATE_FINISHED_JOINED}"
      "p = (ps_pool s)\<lparr> tp_threads := (tp_threads (ps_pool s))(a \<mapsto> t\<lparr> tt_state := JOIN_STATE_COMPLETE,
         tt_thread := (if tt_thread t = K_joinwait then K_joined else tt_thread t) \<rparr>) \<rparr>"
    using j by (auto simp: threadPoolThread_join_def res_iff upd_thread_Inr join_complete_Inr split: if_splits)
  obtain u where "thread_ok fn (tp_isDetached (ps_pool s)) u (ps_pending s a) (a \<in> ps_handles s) (a \<in> ps_joining s) t"
    using inv_thread_ok[OF inv t(1)] .
  then have pc: "tt_thread t = K_joinwait" "a \<notin> ps_joining s"
    using t(2,3) hd by (cases "tt_thread t"; auto simp: thread_ok_unfold split: if_splits)+
  show ?thesis
    by (rule join_thread_inv[OF inv t(1), where st = JOIN_STATE_COMPLETE and pc = K_joined])
       (use t(2,4) pc hd in \<open>auto simp: unbegun_def thread_ok_unfold split: option.splits if_splits\<close>)
qed

lemma join_wakes_inv:
  assumes inv: "pool_inv fn s" and jn: "a \<in> ps_joining s" and a: "tp_threads (ps_pool s) a = Some t" "tt_thread t = K_joinwait"
    and j: "join_woken a (ps_pool s) = Inr (Join_done r, p)"
  shows "pool_inv fn (s\<lparr> ps_pool := p, ps_joining := ps_joining s - {a} \<rparr>)"
proof -
  have p: "p = (ps_pool s)\<lparr> tp_threads := (tp_threads (ps_pool s))(a \<mapsto> t\<lparr> tt_state := JOIN_STATE_COMPLETE, tt_thread := K_joined \<rparr>) \<rparr>"
    using j a by (auto simp: join_woken_def res_iff join_complete_Inr)
  obtain u where "thread_ok fn (tp_isDetached (ps_pool s)) u (ps_pending s a) (a \<in> ps_handles s) (a \<in> ps_joining s) t"
    using inv_thread_ok[OF inv a(1)] .
  then have "a \<notin> ps_handles s" using jn a(2) by (auto simp: thread_ok_unfold split: if_splits)
  then show ?thesis
    by (intro join_thread_inv[OF inv a(1), where st = JOIN_STATE_COMPLETE and pc = K_joined])
       (use p a(2) jn in \<open>auto simp: unbegun_def thread_ok_unfold split: option.splits if_splits\<close>)
qed

subsection \<open>Moving threads between the lists\<close>

lemma links_frame:
  assumes "\<forall>b \<in> set xs. h' b = h b"
  shows "dll (pool_links h') f xs \<longleftrightarrow> dll (pool_links h) f xs"
  using assms by (intro dll_cong) (simp add: links_by_def)

lemma put_in_use_ok:
  assumes "dll (pool_links (tp_threads p)) (tp_firstThreadInUse p) ys" and "a \<notin> set ys" and "tp_threads p a = Some t"
  shows "\<exists>h. put_in_use a p = Inr (p\<lparr> tp_threads := h, tp_firstThreadInUse := Some a \<rparr>)
    \<and> dll (pool_links h) (Some a) (a # ys) \<and> body_by bare h = body_by bare (tp_threads p)
    \<and> (\<forall>b. b \<notin> set (a # ys) \<longrightarrow> h b = tp_threads p b)"
  using assms by (rule pool_nodes.push_front) (auto simp: put_in_use_def)

lemma makeAvailable_ok:
  assumes "dll (pool_links (tp_threads p)) (tp_firstAvailableThread p) xs" and "a \<notin> set xs" and "tp_threads p a = Some t"
  shows "\<exists>h. threadPool_makeAvailable a p = Inr (p\<lparr> tp_threads := h, tp_firstAvailableThread := Some a \<rparr>)
    \<and> dll (pool_links h) (Some a) (a # xs) \<and> body_by bare h = body_by bare (tp_threads p)
    \<and> (\<forall>b. b \<notin> set (a # xs) \<longrightarrow> h b = tp_threads p b)"
  using assms by (rule pool_nodes.push_front) (auto simp: threadPool_makeAvailable_def)

lemma take_available_ok:
  assumes "dll (pool_links (tp_threads p)) (tp_firstAvailableThread p) (a # xs)"
  shows "\<exists>h. take_thread errOk out p = Inr (None, Some a, p\<lparr> tp_firstAvailableThread := hdopt xs, tp_threads := h \<rparr>)
    \<and> dll (pool_links h) (hdopt xs) xs \<and> body_by bare h = body_by bare (tp_threads p)
    \<and> (\<forall>b. b \<notin> set xs \<longrightarrow> h b = tp_threads p b)"
proof -
  have f: "tp_firstAvailableThread p = Some a" using dll_first[OF assms] by simp
  have "dll (pool_links (tp_threads p)) (tp_firstAvailableThread p) ([] @ a # xs)" using assms by simp
  then show ?thesis by (rule pool_nodes.unlink_node) (auto simp: take_thread_def f)
qed

lemma remove_in_use_ok:
  assumes "dll (pool_links (tp_threads p)) (tp_firstThreadInUse p) (us @ a # vs)"
  shows "\<exists>h f. remove_in_use a p = Inr (p\<lparr> tp_threads := h, tp_firstThreadInUse := f \<rparr>)
    \<and> dll (pool_links h) f (us @ vs) \<and> body_by bare h = body_by bare (tp_threads p)
    \<and> (\<forall>b. b \<notin> set (us @ vs) \<longrightarrow> h b = tp_threads p b)"
  using assms
proof (rule pool_nodes.unlink_node)
  let ?f = "if us = [] then hdopt vs else tp_firstThreadInUse p"
  fix x h1 x1 h2
  assume u: "tp_threads p a = Some x" "tt_prev x = lastopt us" "tt_next x = hdopt vs"
    "modify_if (lastopt us) (\<lambda>t. t\<lparr> tt_next := hdopt vs \<rparr>) (tp_threads p) = Inr h1"
    "h1 a = Some x1" "tt_prev x1 = lastopt us" "tt_next x1 = hdopt vs"
    "modify_if (hdopt vs) (\<lambda>t. t\<lparr> tt_prev := lastopt us \<rparr>) h1 = Inr h2"
    "dll (pool_links h2) ?f (us @ vs)" "body_by bare h2 = body_by bare (tp_threads p)"
    "\<forall>b. b \<notin> set (us @ vs) \<longrightarrow> h2 b = tp_threads p b"
  have f: "tp_firstThreadInUse p = hdopt (us @ a # vs)" using dll_first[OF assms] .
  have "a \<notin> set us" using dll_distinct[OF assms] by simp
  then have "remove_in_use a p = Inr (p\<lparr> tp_threads := h2, tp_firstThreadInUse := ?f \<rparr>)"
    using u f by (cases us) (auto simp: remove_in_use_def Let_def)
  then show ?thesis using u(9-11) by blast
qed

text \<open>A thread that is done goes back to the available ones.\<close>

lemma pool_list_inv:
  assumes inv: "pool_inv fn s" and a: "tp_threads (ps_pool s) a = Some t" "tt_thread t = K_list"
  shows "\<exists>p. threadPoolThread_mainLoop fn a (ps_pool s) = Inr p \<and> pool_inv fn (s\<lparr> ps_pool := p \<rparr>)"
  using inv
proof (rule pool_invE)
  fix xs ys
  assume s: "jobs_ok s" "pool_lists (ps_pool s) xs ys" "threads_ok fn s (set ys)"
  let ?p = "ps_pool s"
  note ok = threads_okD(1)[OF s(3) a(1)]
  have "a \<in> set ys" and pend: "ps_pending s a = None" using ok a(2) by (auto simp: thread_ok_def idle_ok_def split: if_splits)
  then obtain us vs where ys: "ys = us @ a # vs" by (meson split_list)
  have d: "a \<notin> set us" "a \<notin> set vs" "a \<notin> set xs" "set xs \<inter> set (us @ vs) = {}"
    using s(2) dll_distinct[of _ _ ys] ys by (auto simp: pool_lists_def)
  obtain h1 f where r: "remove_in_use a ?p = Inr (?p\<lparr> tp_threads := h1, tp_firstThreadInUse := f \<rparr>)"
      "dll (pool_links h1) f (us @ vs)" "body_by bare h1 = body_by bare (tp_threads ?p)"
      "\<forall>b. b \<notin> set (us @ vs) \<longrightarrow> h1 b = tp_threads ?p b"
    using remove_in_use_ok[of ?p us a vs] s(2) ys by (auto simp: pool_lists_def)
  let ?p1 = "?p\<lparr> tp_threads := h1, tp_firstThreadInUse := f \<rparr>"
  have "\<forall>b \<in> set xs. h1 b = tp_threads ?p b" using r(4) d(4) by blast
  then have "dll (pool_links h1) (tp_firstAvailableThread ?p) xs"
    using s(2) links_frame unfolding pool_lists_def by blast
  moreover have "h1 a = Some t" using r(4) d a(1) by simp
  ultimately obtain h2 where m: "threadPool_makeAvailable a ?p1 = Inr (?p1\<lparr> tp_threads := h2, tp_firstAvailableThread := Some a \<rparr>)"
      "dll (pool_links h2) (Some a) (a # xs)" "body_by bare h2 = body_by bare h1" "\<forall>b. b \<notin> set (a # xs) \<longrightarrow> h2 b = h1 b"
    using makeAvailable_ok[of ?p1 xs a t] d(3) by auto
  have "\<forall>b \<in> set (us @ vs). h2 b = h1 b" using m(4) d by auto
  then have inuse: "dll (pool_links h2) f (us @ vs)" using r(2) links_frame by blast
  have "body_by bare h2 a = Some (bare t)" using m(3) r(3) a(1) by (simp add: body_by_def)
  then obtain t2 where t2: "h2 a = Some t2" "bare t2 = bare t" by (auto simp: body_by_Some)
  let ?t' = "t2\<lparr> tt_thread := K_end \<rparr>"
  let ?p2 = "?p1\<lparr> tp_threads := h2(a \<mapsto> ?t'), tp_firstAvailableThread := Some a \<rparr>"
  have flags: "\<not> tp_listLocked ?p" "\<not> tp_isShuttingDown ?p" using inv_flags[OF inv] by auto
  have step: "threadPoolThread_mainLoop fn a ?p = Inr ?p2"
    using a r(1) m(1) t2(1) flags by (simp add: threadPoolThread_mainLoop_def upd_thread_def)
  have "pool_links (h2(a \<mapsto> ?t')) = pool_links h2" using t2(1) by (auto simp: links_by_def fun_eq_iff)
  moreover have "dom h2 = dom (tp_threads ?p)" using same_body(1) m(3) r(3) by metis
  ultimately have lists: "pool_lists (ps_pool (s\<lparr> ps_pool := ?p2 \<rparr>)) (a # xs) (us @ vs)"
    using s(2) m(2) inuse d ys flags a(1) by (auto simp: pool_lists_def)
  have tf: "tt_threadFunc t2 = None" "tt_state t2 = JOIN_STATE_RUNNING_UNJOINED"
      "a \<notin> ps_joining s" "tp_isDetached ?p \<or> a \<notin> ps_handles s"
    using thread_ok_cong[OF t2(2) ok] \<open>a \<in> set ys\<close> pend a(2) bare_fields(5)[of t2] t2(2)
    by (auto simp: thread_ok_unfold split: worker_pc.splits)
  have "pool_inv fn (s\<lparr> ps_pool := ?p2 \<rparr>)"
  proof (rule inv_general[OF s(1,3) finite_threads[OF s(2)] _ lists, where a = a and t' = ?t' and cs = "[]" and gs = "{#}"])
    show "body_by bare (tp_threads (ps_pool (s\<lparr> ps_pool := ?p2 \<rparr>))) = (body_by bare (tp_threads ?p))(a \<mapsto> bare ?t')"
      using m(3) r(3) by (simp add: body_by_upd)
    have "tt_threadFunc t = None" using tf(1) t2(2) bare_fields(1)[of t] bare_fields(1)[of t2] by simp
    then show "job_of s a + {#} = mset [] + job_of (s\<lparr> ps_pool := ?p2 \<rparr>) a"
      using pend a(1) tf(1) by (simp add: job_of_def unbegun_def)
    show "thread_ok fn (tp_isDetached ?p) (a \<in> set (us @ vs)) (ps_pending (s\<lparr> ps_pool := ?p2 \<rparr>) a)
        (a \<in> ps_handles (s\<lparr> ps_pool := ?p2 \<rparr>)) (a \<in> ps_joining (s\<lparr> ps_pool := ?p2 \<rparr>)) ?t'"
      using d pend tf by (simp add: thread_ok_def idle_ok_def)
  qed (use ys in \<open>auto\<close>)
  then show ?thesis using step by blast
qed

text \<open>
  The thread that \<open>threadPool_runThread\<close> takes, from the available ones or a new one, is idle and in
  neither list any more.
\<close>

lemma take_thread_ok:
  assumes s: "pool_lists p xs ys" "threads_ok fn s (set ys)" "ps_pool s = p"
    and fresh: "to_addr out \<notin> Some ` dom (tp_threads p)"
    and r: "take_thread errOk out p = Inr (None, Some a, p1)"
  shows "\<exists>zs h t. p1 = p\<lparr> tp_firstAvailableThread := hdopt zs, tp_threads := h \<rparr> \<and> h a = Some t
    \<and> dll (pool_links h) (hdopt zs) zs \<and> dll (pool_links h) (tp_firstThreadInUse p) ys
    \<and> a \<notin> set zs \<and> a \<notin> set ys \<and> set zs \<inter> set ys = {} \<and> dom h = insert a (set zs \<union> set ys)
    \<and> body_by bare h = (body_by bare (tp_threads p))(a \<mapsto> bare t)
    \<and> idle_ok (tp_isDetached p) (a \<in> ps_handles s) (a \<in> ps_joining s) t \<and> ps_pending s a = None"
proof (cases xs)
  case Nil
  then have x: "tp_firstAvailableThread p = None" using s(1) by (simp add: pool_lists_def)
  let ?t = "\<lparr> tt_next = None, tt_prev = None, tt_threadFunc = None, tt_threadFuncArgs = 0, tt_threadFuncResult = 0,
           tt_state = JOIN_STATE_RUNNING_UNJOINED, tt_thread = K_start \<rparr>"
  have a: "to_addr out = Some a" "p1 = p\<lparr> tp_threads := (tp_threads p)(a \<mapsto> ?t) \<rparr>"
    using r x by (auto simp: take_thread_def threadPoolThread_create_def res_iff split: if_splits)
  have n: "tp_threads p a = None" using fresh a(1) by (auto simp: domIff image_iff)
  then have "a \<notin> set ys" using s(1) by (auto simp: pool_lists_def)
  then have "dll (pool_links ((tp_threads p)(a \<mapsto> ?t))) (tp_firstThreadInUse p) ys"
    using s(1) links_frame[of ys "(tp_threads p)(a \<mapsto> ?t)" "tp_threads p"] by (auto simp: pool_lists_def)
  moreover have "p1 = p\<lparr> tp_firstAvailableThread := hdopt [], tp_threads := (tp_threads p)(a \<mapsto> ?t) \<rparr>" using a(2) x by simp
  moreover have "idle_ok (tp_isDetached p) (a \<in> ps_handles s) (a \<in> ps_joining s) ?t" "ps_pending s a = None"
    using threads_okD(2)[OF s(2), of a] n s(3) by (simp_all add: idle_ok_def)
  ultimately show ?thesis using \<open>a \<notin> set ys\<close> s(1) Nil
    by (intro exI[of _ "[]"] exI[of _ "(tp_threads p)(a \<mapsto> ?t)"] exI[of _ ?t]) (simp add: body_by_upd pool_lists_def)
next
  case (Cons c zs)
  then obtain h where h: "take_thread errOk out p = Inr (None, Some c, p\<lparr> tp_firstAvailableThread := hdopt zs, tp_threads := h \<rparr>)"
      "dll (pool_links h) (hdopt zs) zs" "body_by bare h = body_by bare (tp_threads p)" "\<forall>b. b \<notin> set zs \<longrightarrow> h b = tp_threads p b"
    using take_available_ok[of p c zs errOk out] s(1) by (auto simp: pool_lists_def)
  have a: "a = c" "p1 = p\<lparr> tp_firstAvailableThread := hdopt zs, tp_threads := h \<rparr>" using r h(1) by auto
  have d: "a \<notin> set zs" "a \<notin> set ys" "set zs \<inter> set ys = {}"
    using s(1) Cons a(1) dll_distinct[of _ _ xs] by (auto simp: pool_lists_def)
  have "a \<in> dom (tp_threads p)" using s(1) Cons a(1) by (auto simp: pool_lists_def)
  then obtain t where t: "tp_threads p a = Some t" by blast
  then have ht: "h a = Some t" using h(4) d(1) by simp
  have "\<forall>b \<in> set ys. h b = tp_threads p b" using h(4) d(3) by blast
  then have iu: "dll (pool_links h) (tp_firstThreadInUse p) ys" using s(1) links_frame unfolding pool_lists_def by blast
  have dm: "dom h = insert a (set zs \<union> set ys)" using same_body(1)[OF h(3)] s(1) Cons a(1) by (auto simp: pool_lists_def)
  have b: "body_by bare h = (body_by bare (tp_threads p))(a \<mapsto> bare t)"
    using h(3) t by (auto simp: body_by_def fun_eq_iff)
  have "idle_ok (tp_isDetached p) (a \<in> ps_handles s) (a \<in> ps_joining s) t \<and> ps_pending s a = None"
    using threads_okD(1)[OF s(2), of a t] t s(3) d(2) by (auto simp: thread_ok_def)
  then show ?thesis using a(2) ht h(2) iu d dm b by blast
qed

lemma run_inv:
  assumes inv: "pool_inv fn s" and fresh: "to_addr out \<notin> Some ` dom (tp_threads (ps_pool s))"
    and r: "threadPool_runThread errOk out (Some f) (ps_pool s) = Inr (None, Some a, p)"
  shows "pool_inv fn (s\<lparr> ps_pool := p, ps_pending := (ps_pending s)(a \<mapsto> (f, args)), ps_given := ps_given s @ [(f, args)] \<rparr>)"
    (is "pool_inv fn ?s'")
  using inv
proof (rule pool_invE)
  fix xs ys
  assume s: "jobs_ok s" "pool_lists (ps_pool s) xs ys" "threads_ok fn s (set ys)"
  let ?p = "ps_pool s"
  have flags: "\<not> tp_listLocked ?p" "\<not> tp_isShuttingDown ?p" using inv_flags[OF inv] by auto
  obtain p1 where k: "take_thread errOk out ?p = Inr (None, Some a, p1)" "put_in_use a p1 = Inr p"
    using r flags by (auto simp: threadPool_runThread_def res_iff split: if_splits)
  obtain zs h t where t: "p1 = ?p\<lparr> tp_firstAvailableThread := hdopt zs, tp_threads := h \<rparr>" "h a = Some t"
      "dll (pool_links h) (hdopt zs) zs" "dll (pool_links h) (tp_firstThreadInUse ?p) ys"
      "a \<notin> set zs" "a \<notin> set ys" "set zs \<inter> set ys = {}" "dom h = insert a (set zs \<union> set ys)"
      "body_by bare h = (body_by bare (tp_threads ?p))(a \<mapsto> bare t)"
      "idle_ok (tp_isDetached ?p) (a \<in> ps_handles s) (a \<in> ps_joining s) t" "ps_pending s a = None"
    using take_thread_ok[OF s(2,3) refl fresh k(1)] by blast
  obtain h2 where h2: "put_in_use a p1 = Inr (p1\<lparr> tp_threads := h2, tp_firstThreadInUse := Some a \<rparr>)"
      "dll (pool_links h2) (Some a) (a # ys)" "body_by bare h2 = body_by bare h" "\<forall>b. b \<notin> set (a # ys) \<longrightarrow> h2 b = h b"
    using put_in_use_ok[of p1 ys a t] t by auto
  have p: "p = p1\<lparr> tp_threads := h2, tp_firstThreadInUse := Some a \<rparr>" using k(2) h2(1) by simp
  have "\<forall>b \<in> set zs. h2 b = h b" using h2(4) t(5,7) by auto
  then have av: "dll (pool_links h2) (hdopt zs) zs" using t(3) links_frame by blast
  have "dom h2 = dom h" using same_body(1)[OF h2(3)] .
  then have lists: "pool_lists (ps_pool ?s') zs (a # ys)"
    using av h2(2) t(1,5,7,8) p flags by (auto simp: pool_lists_def)
  have job: "job_of s a = {#}"
  proof (cases "tp_threads ?p a")
    case (Some t0)
    then show ?thesis using threads_okD(1)[OF s(3) Some] t(6,11) by (simp add: job_of_def unbegun_def thread_ok_def idle_ok_def)
  qed (simp add: job_of_def t(11))
  show ?thesis
    by (rule inv_general[OF s(1,3) finite_threads[OF s(2)] _ lists, where a = a and t' = t and cs = "[]" and gs = "{#(f, args)#}"])
       (use p t(1,9,10) h2(3) job in \<open>simp_all add: job_of_def thread_ok_def\<close>)
qed

lemma pool_step_inv: "pool_step fn s s' \<Longrightarrow> pool_inv fn s \<Longrightarrow> pool_inv fn s'"
proof (induction rule: pool_step.induct)
  case (work a s p)
  then obtain t where t: "tp_threads (ps_pool s) a = Some t" by (auto simp: threadPoolThread_mainLoop_def res_iff)
  show ?case
  proof (cases "tt_thread t = K_list")
    case True
    then show ?thesis using pool_list_inv[OF work(2) t] work(1) by auto
  qed (use work_inv[OF work(2) t] work(1) in blast)
qed (auto intro: run_inv start_inv join_waits_inv join_done_inv join_wakes_inv)

subsection \<open>A new pool\<close>

definition new_threads :: "sThreadPool \<Rightarrow> bool" where
  "new_threads p \<longleftrightarrow> (\<forall>t \<in> ran (tp_threads p). tt_threadFunc t = None \<and> tt_thread t = K_start \<and> tt_state t = JOIN_STATE_RUNNING_UNJOINED)"

definition new_pool :: "sThreadPool \<Rightarrow> bool" where
  "new_pool p \<longleftrightarrow> (\<exists>xs. pool_lists p xs []) \<and> new_threads p \<and> tp_calls p = []"

lemma new_pool_inv:
  assumes "new_pool p"
  shows "pool_inv fn (pool_start p)"
proof -
  obtain xs where xs: "pool_lists p xs []" using assms by (auto simp: new_pool_def)
  have t: "tt_threadFunc t = None \<and> tt_thread t = K_start \<and> tt_state t = JOIN_STATE_RUNNING_UNJOINED"
    if "tp_threads p a = Some t" for a t
    using assms that by (auto simp: new_pool_def new_threads_def ran_def)
  have "threads_ok fn (pool_start p) (set [])"
    using t by (auto simp: threads_ok_def pool_start_def thread_ok_def idle_ok_def split: option.splits)
  moreover have "job_of (pool_start p) a = {#}" for a
    using t[of a] by (auto simp: job_of_def pool_start_def unbegun_def split: option.splits)
  moreover have "tp_calls p = []" using assms by (simp add: new_pool_def)
  ultimately have "jobs_ok (pool_start p)" "threads_ok fn (pool_start p) (set [])" by (simp_all add: jobs_ok_def pool_start_def)
  then show ?thesis unfolding pool_inv_def using xs by (intro conjI exI[of _ xs] exI[of _ "[]"]) (simp_all add: pool_start_def)
qed

lemma create_one:
  assumes p: "new_pool p" and fresh: "to_addr out \<notin> Some ` dom (tp_threads p)"
    and c: "threadPoolThread_create errOk out p = Inr (None, Some a, p1)"
  shows "\<exists>p2. threadPool_makeAvailable a p1 = Inr p2 \<and> new_pool p2 \<and> dom (tp_threads p2) = insert a (dom (tp_threads p))
    \<and> to_addr out = Some a"
proof -
  let ?t = "\<lparr> tt_next = None, tt_prev = None, tt_threadFunc = None, tt_threadFuncArgs = 0, tt_threadFuncResult = 0,
           tt_state = JOIN_STATE_RUNNING_UNJOINED, tt_thread = K_start \<rparr>"
  have a: "to_addr out = Some a" "p1 = p\<lparr> tp_threads := (tp_threads p)(a \<mapsto> ?t) \<rparr>"
    using c by (auto simp: threadPoolThread_create_def res_iff split: if_splits)
  obtain xs where xs: "pool_lists p xs []" using p by (auto simp: new_pool_def)
  have "tp_threads p a = None" using fresh a(1) by (auto simp: domIff image_iff)
  then have n: "a \<notin> set xs" using xs by (auto simp: pool_lists_def)
  then have "dll (pool_links (tp_threads p1)) (tp_firstAvailableThread p1) xs"
    using xs a(2) links_frame[of xs "(tp_threads p)(a \<mapsto> ?t)" "tp_threads p"] by (simp add: pool_lists_def)
  then obtain h where h: "threadPool_makeAvailable a p1 = Inr (p1\<lparr> tp_threads := h, tp_firstAvailableThread := Some a \<rparr>)"
      "dll (pool_links h) (Some a) (a # xs)" "body_by bare h = body_by bare (tp_threads p1)"
    using makeAvailable_ok[of p1 xs a ?t] n a(2) by auto
  let ?p2 = "p1\<lparr> tp_threads := h, tp_firstAvailableThread := Some a \<rparr>"
  have dm: "dom h = insert a (dom (tp_threads p))" using same_body(1)[OF h(3)] a(2) by simp
  have "new_threads ?p2"
    unfolding new_threads_def
  proof
    fix t assume "t \<in> ran (tp_threads ?p2)"
    then obtain b where "h b = Some t" by (auto simp: ran_def)
    then obtain t0 where t0: "tp_threads p1 b = Some t0" "bare t = bare t0" using same_body(3)[OF h(3)] by blast
    have "tt_threadFunc t0 = None \<and> tt_thread t0 = K_start \<and> tt_state t0 = JOIN_STATE_RUNNING_UNJOINED"
      using t0(1) p a(2) by (auto simp: new_pool_def new_threads_def ran_def split: if_splits)
    then show "tt_threadFunc t = None \<and> tt_thread t = K_start \<and> tt_state t = JOIN_STATE_RUNNING_UNJOINED"
      using t0(2) bare_fields[of t] bare_fields[of t0] by simp
  qed
  moreover have "pool_lists ?p2 (a # xs) []" using xs a(2) h(2) dm by (simp add: pool_lists_def)
  ultimately show ?thesis using h(1) dm a p by (auto simp: new_pool_def)
qed

lemma create_threads_ok:
  "new_pool p \<Longrightarrow> distinct (map to_addr outs) \<Longrightarrow> Some ` dom (tp_threads p) \<inter> to_addr ` set outs = {}
    \<Longrightarrow> create_threads errOk outs p = Inr (None, p') \<Longrightarrow> new_pool p'"
proof (induction outs arbitrary: p)
  case (Cons out outs)
  obtain a p1 where c: "threadPoolThread_create errOk out p = Inr (None, Some a, p1)"
    "rbind (threadPool_makeAvailable a p1) (create_threads errOk outs) = Inr (None, p')"
    using Cons.prems(4) by (auto simp: res_iff split: if_splits)
  have "to_addr out \<notin> Some ` dom (tp_threads p)" using Cons.prems(3) by auto
  then obtain p2 where p2: "threadPool_makeAvailable a p1 = Inr p2" "new_pool p2"
      "dom (tp_threads p2) = insert a (dom (tp_threads p))" "to_addr out = Some a"
    using create_one[OF Cons.prems(1) _ c(1)] by blast
  show ?case
  proof (rule Cons.IH[OF p2(2)])
    show "Some ` dom (tp_threads p2) \<inter> to_addr ` set outs = {}"
      using Cons.prems(2,3) p2(3,4) by (auto simp: image_iff)
  qed (use Cons.prems(2) c(2) p2(1) in simp_all)
qed simp

lemma threadPool_create_new:
  assumes "threadPool_create errOk poolOk mutexErr isDetached outs = Inr (None, Some p)" and "distinct (map to_addr outs)"
  shows "new_pool p"
proof -
  let ?p = "\<lparr> tp_threads = Map.empty, tp_firstAvailableThread = None, tp_firstThreadInUse = None,
           tp_isShuttingDown = False, tp_isDetached = isDetached, tp_listLocked = False, tp_calls = [] \<rparr>"
  have "create_threads errOk outs ?p = Inr (None, p)"
    using assms(1) by (auto simp: threadPool_create_def res_iff split: if_splits)
  moreover have "new_pool ?p" by (auto simp: new_pool_def new_threads_def pool_lists_def intro: exI[of _ "[]"])
  ultimately show ?thesis using create_threads_ok[of ?p outs errOk p] assms(2) by simp
qed

lemma pool_reach_inv:
  assumes "pool_reach fn p s" and "threadPool_create errOk poolOk mutexErr isDetached outs = Inr (None, Some p)"
    and "distinct (map to_addr outs)"
  shows "pool_inv fn s"
  using assms(1) by induction (use new_pool_inv[OF threadPool_create_new[OF assms(2,3)]] pool_step_inv in auto)

subsection \<open>What clients get\<close>

text \<open>A thread that cannot go on has no job and waits for one, or has run its job and waits for the join.\<close>

lemma worker_ok:
  assumes inv: "pool_inv fn s" and a: "tp_threads (ps_pool s) a = Some t"
    and e: "threadPoolThread_mainLoop fn a (ps_pool s) = Inl e"
  shows "e = Blocked \<and> (tt_thread t = K_wait \<and> tt_threadFunc t = None \<or> tt_thread t = K_joinwait)"
proof -
  have f: "\<not> tp_isShuttingDown (ps_pool s)" using inv_flags[OF inv] by simp
  obtain u where ok: "thread_ok fn (tp_isDetached (ps_pool s)) u (ps_pending s a) (a \<in> ps_handles s) (a \<in> ps_joining s) t"
    using inv_thread_ok[OF inv a] .
  show ?thesis
  proof (cases "tt_thread t")
    case K_list
    then show ?thesis using pool_list_inv[OF inv a] e by auto
  qed (use ok e a f in \<open>auto simp: threadPoolThread_mainLoop_def upd_thread_def thread_ok_unfold split: if_splits option.splits\<close>)
qed

text \<open>A join of a finished job succeeds and returns what the job's function returned.\<close>

lemma woken_ok:
  assumes inv: "pool_inv fn s" and jn: "a \<in> ps_joining s" and a: "tp_threads (ps_pool s) a = Some t" "tt_thread t = K_joinwait"
  shows "\<exists>f p. tt_threadFunc t = Some f \<and> join_woken a (ps_pool s) = Inr (Join_done (fn f (tt_threadFuncArgs t)), p)"
proof -
  obtain u where "thread_ok fn (tp_isDetached (ps_pool s)) u (ps_pending s a) (a \<in> ps_handles s) (a \<in> ps_joining s) t"
    using inv_thread_ok[OF inv a(1)] .
  then have "tt_state t = JOIN_STATE_FINISHED_JOINED" "result_ok fn t"
    using jn a(2) by (auto simp: thread_ok_def busy_ok_def idle_ok_def split: if_splits)
  then show ?thesis using a(1) by (auto simp: join_woken_def result_ok_def join_complete_def upd_thread_def modify_def)
qed

lemma join_ok:
  assumes inv: "pool_inv fn s" and hdl: "a \<in> ps_handles s" and det: "\<not> tp_isDetached (ps_pool s)"
    and a: "tp_threads (ps_pool s) a = Some t"
  shows "(\<exists>p. threadPoolThread_join errOk a (ps_pool s) = Inr (Join_waits, p))
    \<or> (\<exists>f p. tt_threadFunc t = Some f \<and> threadPoolThread_join errOk a (ps_pool s) = Inr (Join_done (fn f (tt_threadFuncArgs t)), p))"
proof -
  obtain u where ok: "thread_ok fn (tp_isDetached (ps_pool s)) u (ps_pending s a) (a \<in> ps_handles s) (a \<in> ps_joining s) t"
    using inv_thread_ok[OF inv a] .
  have "tt_state t = JOIN_STATE_RUNNING_UNJOINED \<or> tt_state t = JOIN_STATE_FINISHED_UNJOINED \<and> result_ok fn t"
    using ok hdl det by (cases "tt_thread t") (auto simp: thread_ok_unfold split: if_splits)
  then show ?thesis using a det
    by (auto simp: threadPoolThread_join_def result_ok_def join_complete_def upd_thread_def modify_def)
qed

lemma all_done:
  assumes "pool_inv fn s" and "tp_firstThreadInUse (ps_pool s) = None"
  shows "mset (tp_calls (ps_pool s)) = mset (ps_given s)"
  using assms(1)
proof (rule pool_invE)
  fix xs ys
  assume s: "jobs_ok s" "pool_lists (ps_pool s) xs ys" "threads_ok fn s (set ys)"
  have "ys = []" using s(2) assms(2) dll_first[of _ _ ys] by (cases ys) (auto simp: pool_lists_def)
  have "job_of s a = {#}" for a
  proof (cases "tp_threads (ps_pool s) a")
    case None
    then show ?thesis using threads_okD(2)[OF s(3) None] by (simp add: job_of_def)
  next
    case (Some t)
    then show ?thesis using threads_okD(1)[OF s(3) Some] \<open>ys = []\<close>
      by (simp add: job_of_def thread_ok_def idle_ok_def unbegun_def)
  qed
  then show ?thesis using s(1) by (simp add: jobs_ok_def)
qed

text \<open>A pool with one thread, a job that is joined while it runs and a second one for a new thread.\<close>

definition demo_run :: "bool \<Rightarrow> action list \<Rightarrow> (sThreadPool \<times> pool_sys) option" where
  "demo_run det acts =
     (case threadPool_create (True, True) True None det
             [\<lparr> to_addr = Some 5, to_mutex1 = None, to_mutex2 = None, to_created = True \<rparr>] of
        Inr (None, Some p) \<Rightarrow> map_option (Pair p) (performs (+) acts (pool_start p))
      | _ \<Rightarrow> None)"

lemma demo_runD:
  assumes "demo_run det acts = Some (p, s)"
  shows "threadPool_create (True, True) True None det
      [\<lparr> to_addr = Some 5, to_mutex1 = None, to_mutex2 = None, to_created = True \<rparr>] = Inr (None, Some p)" "pool_reach (+) p s"
  using assms performs_reach reach_init
  by (auto simp: demo_run_def split: sum.splits prod.splits option.splits)

lemma demo_computed:
  "case demo_run False [A_work 5, A_run 7 3 4, A_start 5, A_run 9 1 1, A_join 5, A_start 9, A_work 9, A_work 9,
       A_work 5, A_work 5, A_work 5] of
     Some (p, s) \<Rightarrow> tp_calls (ps_pool s) = [(1, 1), (3, 4)] \<and> ps_given s = [(3, 4), (1, 1)]
       \<and> 5 \<in> ps_joining s \<and> 9 \<in> ps_handles s
       \<and> (case tp_threads (ps_pool s) 5 of Some t \<Rightarrow> tt_thread t = K_joinwait | None \<Rightarrow> False)
   | None \<Rightarrow> False"
  by code_simp

lemma demo_state: "\<exists>p s t. demo_run False [A_work 5, A_run 7 3 4, A_start 5, A_run 9 1 1, A_join 5, A_start 9, A_work 9, A_work 9,
       A_work 5, A_work 5, A_work 5] = Some (p, s)
   \<and> tp_calls (ps_pool s) = [(1, 1), (3, 4)] \<and> ps_given s = [(3, 4), (1, 1)] \<and> 5 \<in> ps_joining s
   \<and> tp_threads (ps_pool s) 5 = Some t \<and> tt_thread t = K_joinwait"
  using demo_computed by (auto split: option.splits)

subsection \<open>Properties\<close>

text \<open>C2: However clients and pool threads are interleaved, the pool that \<open>threadPool_create\<close> made calls
  each function it was given at most once and calls nothing else; when no thread is in use any more,
  every function has been called exactly once. No pool thread ever fails an assertion or
  dereferences a null or freed pointer, and a pool thread that has to wait has either no job or a
  result that waits to be joined.\<close>

theorem threadPool_runs_each_job_once:
  assumes "threadPool_create errOk poolOk mutexErr isDetached outs = Inr (None, Some p)" and "distinct (map to_addr outs)"
    and "pool_reach fn p s"
  shows "mset (tp_calls (ps_pool s)) \<subseteq># mset (ps_given s)
    \<and> (tp_firstThreadInUse (ps_pool s) = None \<longrightarrow> mset (tp_calls (ps_pool s)) = mset (ps_given s))
    \<and> (\<forall>a t e. tp_threads (ps_pool s) a = Some t \<and> threadPoolThread_mainLoop fn a (ps_pool s) = Inl e
         \<longrightarrow> e = Blocked \<and> (tt_thread t = K_wait \<and> tt_threadFunc t = None \<or> tt_thread t = K_joinwait))"
proof -
  note inv = pool_reach_inv[OF assms(3,1,2)]
  have "jobs_ok s" using inv by (simp add: pool_inv_def)
  then have "mset (tp_calls (ps_pool s)) \<subseteq># mset (ps_given s)" by (simp add: jobs_ok_def)
  then show ?thesis using all_done[OF inv] worker_ok[OF inv] by blast
qed

theorem threadPool_runs_each_job_once_witness:
  "\<exists>s :: pool_sys. tp_calls (ps_pool s) = [(1, 1), (3, 4)] \<and> ps_given s = [(3, 4), (1, 1)]
     \<and> mset (tp_calls (ps_pool s)) \<subseteq># mset (ps_given s)
     \<and> (\<forall>a t e. tp_threads (ps_pool s) a = Some t \<and> threadPoolThread_mainLoop (+) a (ps_pool s) = Inl e \<longrightarrow> e = Blocked)"
proof -
  obtain p s where d: "demo_run False [A_work 5, A_run 7 3 4, A_start 5, A_run 9 1 1, A_join 5, A_start 9, A_work 9, A_work 9,
       A_work 5, A_work 5, A_work 5] = Some (p, s)" "tp_calls (ps_pool s) = [(1, 1), (3, 4)]" "ps_given s = [(3, 4), (1, 1)]"
    using demo_state by blast
  have "mset (tp_calls (ps_pool s)) \<subseteq># mset (ps_given s)
     \<and> (\<forall>a t e. tp_threads (ps_pool s) a = Some t \<and> threadPoolThread_mainLoop (+) a (ps_pool s) = Inl e \<longrightarrow> e = Blocked)"
    using threadPool_runs_each_job_once[OF demo_runD(1)[OF d(1)] _ demo_runD(2)[OF d(1)]] by simp
  then show ?thesis using d(2,3) by blast
qed

text \<open>C21: A client that joins a handle gets the value its function returned: the join of a handle not
  joined before is never refused, it waits or returns that value; and a client that waits, once the
  pool thread has signalled it, passes the assertion on the state and returns that value.\<close>

theorem threadPoolThread_join_returns_result:
  assumes "threadPool_create errOk poolOk mutexErr isDetached outs = Inr (None, Some p)" and "distinct (map to_addr outs)"
    and "pool_reach fn p s" and "tp_threads (ps_pool s) a = Some t"
  shows "(a \<in> ps_joining s \<and> tt_thread t = K_joinwait
      \<longrightarrow> (\<exists>f q. tt_threadFunc t = Some f \<and> join_woken a (ps_pool s) = Inr (Join_done (fn f (tt_threadFuncArgs t)), q)))
    \<and> (a \<in> ps_handles s \<and> \<not> tp_isDetached (ps_pool s)
      \<longrightarrow> (\<exists>q. threadPoolThread_join errOk' a (ps_pool s) = Inr (Join_waits, q))
        \<or> (\<exists>f q. tt_threadFunc t = Some f \<and> threadPoolThread_join errOk' a (ps_pool s) = Inr (Join_done (fn f (tt_threadFuncArgs t)), q)))"
  using woken_ok[OF pool_reach_inv[OF assms(3,1,2)] _ assms(4)] join_ok[OF pool_reach_inv[OF assms(3,1,2)] _ _ assms(4), of errOk']
  by blast

theorem threadPoolThread_join_returns_result_witness:
  "\<exists>(s :: pool_sys) t f q. tp_calls (ps_pool s) = [(1, 1), (3, 4)] \<and> tp_threads (ps_pool s) 5 = Some t \<and> tt_thread t = K_joinwait
     \<and> tt_threadFunc t = Some f \<and> join_woken 5 (ps_pool s) = Inr (Join_done (f + tt_threadFuncArgs t), q)"
proof -
  obtain p s t where d: "demo_run False [A_work 5, A_run 7 3 4, A_start 5, A_run 9 1 1, A_join 5, A_start 9, A_work 9, A_work 9,
       A_work 5, A_work 5, A_work 5] = Some (p, s)" "tp_calls (ps_pool s) = [(1, 1), (3, 4)]" "5 \<in> ps_joining s"
     "tp_threads (ps_pool s) 5 = Some t" "tt_thread t = K_joinwait"
    using demo_state by blast
  have "\<exists>f q. tt_threadFunc t = Some f \<and> join_woken 5 (ps_pool s) = Inr (Join_done (f + tt_threadFuncArgs t), q)"
    using threadPoolThread_join_returns_result[OF demo_runD(1)[OF d(1)] _ demo_runD(2)[OF d(1)] d(4)] d(3,5) by simp
  then show ?thesis using d(2,4,5) by blast
qed

subsection \<open>Shutting down\<close>

text \<open>
  Destruction of a pool whose threads are all available and waiting: each round signals the first
  thread, which ends, and frees it.
\<close>

definition destroy_round :: "(nat \<Rightarrow> nat \<Rightarrow> nat) \<Rightarrow> sThreadPool \<Rightarrow> sThreadPool res" where
  "destroy_round fn p =
     rbind (destroy_signal p) (\<lambda>p1.
     rbind (deref (tp_firstAvailableThread p1)) (\<lambda>a.
     rbind (threadPoolThread_mainLoop fn a p1) destroy_available))"

fun destroy_rounds :: "nat \<Rightarrow> (nat \<Rightarrow> nat \<Rightarrow> nat) \<Rightarrow> sThreadPool \<Rightarrow> sThreadPool res" where
  "destroy_rounds 0 fn p = Inr p"
| "destroy_rounds (Suc n) fn p = rbind (destroy_round fn p) (destroy_rounds n fn)"

lemma destroy_round_ok:
  assumes "tp_isShuttingDown p" and "tp_firstAvailableThread p = Some a" and "tp_threads p a = Some t" and "tt_thread t = K_wait"
  shows "destroy_round fn p = Inr (p\<lparr> tp_threads := (tp_threads p)(a := None), tp_firstAvailableThread := tt_next t \<rparr>)"
  using assms
  by (simp add: destroy_round_def destroy_signal_def upd_thread_def modify_def wake_def threadPoolThread_mainLoop_def
      destroy_available_def threadPoolThread_destroy_def)

lemma destroy_rounds_ok:
  "tp_isShuttingDown p \<Longrightarrow> dseg (pool_links (tp_threads p)) pv (tp_firstAvailableThread p) xs None \<Longrightarrow> distinct xs
    \<Longrightarrow> \<forall>a \<in> set xs. \<forall>t. tp_threads p a = Some t \<longrightarrow> tt_thread t = K_wait
    \<Longrightarrow> destroy_rounds (length xs) fn p =
      Inr (p\<lparr> tp_threads := tp_threads p |` (- set xs), tp_firstAvailableThread := None \<rparr>)"
proof (induction xs arbitrary: p pv)
  case (Cons a xs)
  obtain t where t: "tp_firstAvailableThread p = Some a" "tp_threads p a = Some t" "tt_thread t = K_wait"
      "dseg (pool_links (tp_threads p)) (Some a) (tt_next t) xs None"
    using Cons.prems(2,4) by (auto simp: links_by_Some)
  let ?p = "p\<lparr> tp_threads := (tp_threads p)(a := None), tp_firstAvailableThread := tt_next t \<rparr>"
  have "destroy_rounds (length xs) fn ?p =
      Inr (?p\<lparr> tp_threads := tp_threads ?p |` (- set xs), tp_firstAvailableThread := None \<rparr>)"
  proof (rule Cons.IH[where pv = "Some a"])
    show "dseg (pool_links (tp_threads ?p)) (Some a) (tp_firstAvailableThread ?p) xs None"
      using t(4) Cons.prems(3) by simp
  qed (use Cons.prems in auto)
  moreover have "((tp_threads p)(a := None)) |` (- set xs) = tp_threads p |` (- set (a # xs))"
    by (auto simp: restrict_map_def fun_eq_iff)
  ultimately show ?case using destroy_round_ok[OF Cons.prems(1) t(1-3), of fn] by simp
next
  case Nil
  then have "p\<lparr> tp_threads := tp_threads p |` (- set []), tp_firstAvailableThread := None \<rparr> = p"
    by (cases p) (simp add: restrict_map_def)
  then show ?case unfolding destroy_rounds.simps list.size by (simp only:)
qed

lemma restrict_none: "dom h \<subseteq> A \<Longrightarrow> h |` (- A) = Map.empty"
  by (auto simp: restrict_map_def fun_eq_iff domIff)

text \<open>Destroying a pool whose threads are all available and waiting for work ends every thread, frees
  every thread and empties both lists, in as many rounds as there are threads.\<close>

theorem threadPool_destroy_idle:
  assumes "pool_lists p xs []" and "\<forall>a t. tp_threads p a = Some t \<longrightarrow> tt_thread t = K_wait"
  shows "rbind (destroy_begin p) (destroy_rounds (length xs) fn)
    = Inr (p\<lparr> tp_threads := Map.empty, tp_firstAvailableThread := None, tp_isShuttingDown := True, tp_listLocked := True \<rparr>)"
proof -
  let ?p = "p\<lparr> tp_listLocked := True, tp_isShuttingDown := True \<rparr>"
  have d: "dseg (pool_links (tp_threads p)) None (tp_firstAvailableThread p) xs None" "distinct xs" "dom (tp_threads p) = set xs"
      "\<not> tp_listLocked p"
    using assms(1) by (simp_all add: pool_lists_def dll_def)
  have "destroy_rounds (length xs) fn ?p
      = Inr (?p\<lparr> tp_threads := tp_threads ?p |` (- set xs), tp_firstAvailableThread := None \<rparr>)"
    by (rule destroy_rounds_ok[where pv = None]) (use d(1,2) assms(2) in auto)
  then show ?thesis using d(3,4) restrict_none[of "tp_threads p" "set xs"] by (simp add: destroy_begin_def)
qed

theorem threadPool_destroy_idle_witness:
  "\<exists>p. tp_firstAvailableThread p = Some 5 \<and> rbind (destroy_begin p) (destroy_rounds 1 (+))
    = Inr (p\<lparr> tp_threads := Map.empty, tp_firstAvailableThread := None, tp_isShuttingDown := True, tp_listLocked := True \<rparr>)"
proof -
  let ?t = "\<lparr> tt_next = None, tt_prev = None, tt_threadFunc = None, tt_threadFuncArgs = 0, tt_threadFuncResult = 0,
      tt_state = JOIN_STATE_RUNNING_UNJOINED, tt_thread = K_wait \<rparr>"
  let ?p = "\<lparr> tp_threads = [5 \<mapsto> ?t], tp_firstAvailableThread = Some 5, tp_firstThreadInUse = None,
      tp_isShuttingDown = False, tp_isDetached = False, tp_listLocked = False, tp_calls = [] \<rparr>"
  have "pool_lists ?p [5] []" by (simp add: pool_lists_def dll_def links_by_def)
  then have "rbind (destroy_begin ?p) (destroy_rounds (length [5 :: nat]) (+))
    = Inr (?p\<lparr> tp_threads := Map.empty, tp_firstAvailableThread := None, tp_isShuttingDown := True, tp_listLocked := True \<rparr>)"
    by (rule threadPool_destroy_idle) simp
  then show ?thesis by (intro exI[of _ ?p]) simp
qed

text \<open>
  While \<open>threadPool_destroy\<close> waits for a thread it has the list lock. What the other threads can do then:
  pool threads run, clients join and finish starting a thread.
\<close>

inductive waiting_step :: "(nat \<Rightarrow> nat \<Rightarrow> nat) \<Rightarrow> sThreadPool \<Rightarrow> sThreadPool \<Rightarrow> bool" for fn where
  w_work: "threadPoolThread_mainLoop fn b p = Inr p' \<Longrightarrow> waiting_step fn p p'"
| w_start: "start_thread b f args p = Inr p' \<Longrightarrow> waiting_step fn p p'"
| w_join: "threadPoolThread_join errOk b p = Inr (r, p') \<Longrightarrow> waiting_step fn p p'"
| w_woken: "join_woken b p = Inr (r, p') \<Longrightarrow> waiting_step fn p p'"
| w_run: "threadPool_runThread errOk out func p = Inr (e, r, p') \<Longrightarrow> waiting_step fn p p'"

definition stuck_pcs :: "worker_pc set" where
  "stuck_pcs = {K_running, K_join, K_joinwait, K_joined, K_cleanup, K_list}"

definition stuck :: "nat \<Rightarrow> sThreadPool \<Rightarrow> bool" where
  "stuck a p \<longleftrightarrow> tp_listLocked p \<and> (\<exists>t. tp_threads p a = Some t \<and> tt_thread t \<in> stuck_pcs)"

lemma stuck_upd:
  assumes "stuck a p" and "upd_thread b g p = Inr p'"
    and "\<And>t. b = a \<Longrightarrow> tp_threads p a = Some t \<Longrightarrow> tt_thread t \<in> stuck_pcs \<Longrightarrow> tt_thread (g t) \<in> stuck_pcs"
  shows "stuck a p'"
  using assms by (auto simp: stuck_def upd_thread_Inr)

lemma stuck_worker:
  assumes "stuck a p" and "threadPoolThread_mainLoop fn b p = Inr p'"
  shows "stuck a p'"
proof -
  obtain t where t: "tp_threads p b = Some t" using assms(2) by (auto simp: threadPoolThread_mainLoop_def res_iff)
  have l: "tp_listLocked p" using assms(1) by (simp add: stuck_def)
  have b: "b = a \<Longrightarrow> tt_thread t \<in> stuck_pcs" using assms(1) t by (auto simp: stuck_def)
  show ?thesis using assms t l b
    by (cases "tt_thread t")
       (auto simp: threadPoolThread_mainLoop_def upd_thread_Inr res_iff stuck_pcs_def stuck_def split: if_splits)
qed

lemma stuck_step: "waiting_step fn p p' \<Longrightarrow> stuck a p \<Longrightarrow> stuck a p'"
proof (induction rule: waiting_step.induct)
  case (w_work b p p')
  then show ?case using stuck_worker by blast
next
  case (w_join errOk b p r p')
  then show ?case
    by (auto simp: threadPoolThread_join_def res_iff upd_thread_Inr join_complete_Inr stuck_def stuck_pcs_def split: if_splits)
next
  case (w_run errOk out func p e r p')
  then show ?case by (auto simp: threadPool_runThread_def stuck_def res_iff)
next
  case (w_start b f args p p')
  then show ?case by (auto simp: start_thread_def upd_thread_Inr wake_def stuck_def stuck_pcs_def)
qed (auto simp: join_woken_def res_iff join_complete_Inr stuck_def stuck_pcs_def)

lemma stuck_forever: "(waiting_step fn)\<^sup>*\<^sup>* p p' \<Longrightarrow> stuck a p \<Longrightarrow> stuck a p'"
  by (induction rule: rtranclp_induct) (auto intro: stuck_step)

text \<open>A pool that is destroyed while one of its threads is in a client's function, or on its way from
  there back to the list, is never destroyed: \<open>threadPool_destroy\<close> waits for that thread with the list
  lock held, which the thread needs before it can see that the pool is shutting down, so whatever the
  other threads do the wait for it never ends.\<close>

theorem threadPool_destroy_deadlocks:
  assumes "destroy_begin p = Inr p0" and "tp_threads p a = Some t"
    and "tt_thread t \<in> {K_running, K_join, K_joinwait, K_joined, K_cleanup, K_list}"
    and "(waiting_step fn)\<^sup>*\<^sup>* p0 p'"
  shows "threadPoolThread_destroy a p' = Inl Blocked"
proof -
  have "stuck a p0" using assms(1-3) by (auto simp: destroy_begin_def stuck_def stuck_pcs_def split: if_splits)
  then have "stuck a p'" by (rule stuck_forever[OF assms(4)])
  then show ?thesis by (auto simp: stuck_def stuck_pcs_def threadPoolThread_destroy_def)
qed

theorem threadPool_destroy_deadlocks_witness:
  "\<exists>p p0 p'. destroy_begin p = Inr p0 \<and> threadPoolThread_mainLoop (+) 5 p0 = Inr p' \<and> threadPoolThread_destroy 5 p' = Inl Blocked"
proof -
  let ?t = "\<lparr> tt_next = None, tt_prev = None, tt_threadFunc = Some 3, tt_threadFuncArgs = 4, tt_threadFuncResult = 0,
      tt_state = JOIN_STATE_RUNNING_UNJOINED, tt_thread = K_running \<rparr>"
  let ?p = "\<lparr> tp_threads = [5 \<mapsto> ?t], tp_firstAvailableThread = None, tp_firstThreadInUse = Some 5,
      tp_isShuttingDown = False, tp_isDetached = True, tp_listLocked = False, tp_calls = [(3, 4)] \<rparr>"
  let ?begun = "?p\<lparr> tp_listLocked := True, tp_isShuttingDown := True \<rparr>"
  let ?p' = "?begun\<lparr> tp_threads := [5 \<mapsto> ?t\<lparr> tt_threadFuncResult := 7, tt_thread := K_cleanup \<rparr>] \<rparr>"
  have b: "destroy_begin ?p = Inr ?begun" by (simp add: destroy_begin_def)
  have w: "threadPoolThread_mainLoop (+) 5 ?begun = Inr ?p'" by (simp add: threadPoolThread_mainLoop_def upd_thread_def modify_def)
  have s: "(waiting_step (+))\<^sup>*\<^sup>* ?begun ?p'" using w_work[OF w] by blast
  have t: "tp_threads ?p 5 = Some ?t" "tt_thread ?t \<in> {K_running, K_join, K_joinwait, K_joined, K_cleanup, K_list}" by simp_all
  have "threadPoolThread_destroy 5 ?p' = Inl Blocked" by (rule threadPool_destroy_deadlocks[OF b t s])
  then show ?thesis using b w by blast
qed

end
