(* ===== verification/Bt.thy ===== *)
theory Bt
  imports Prelude "HOL-Library.Tree"
begin

section \<open>The binary tree\<close>

text \<open>
  \<open>src/bt.c\<close>: an unbalanced search tree with father links and one built-in iterator. The nodes live
  in a store of addresses, the comparison is the client's. Walks along pointers get fuel; one more
  than the number of values is enough. Warnings that are only printed are left out.
\<close>

datatype bt_direction = BT_LEFT | BT_RIGHT | BT_NONE

record 'v bt_node =
  bn_right :: "nat option"
  bn_left :: "nat option"
  bn_father :: "nat option"
  bn_direction :: bt_direction
  bn_value :: 'v

type_synonym 'v nodes = "nat \<rightharpoonup> 'v bt_node"

text \<open>\<open>bt_current_node\<close> is \<open>None\<close> until \<open>bt_GoFirst\<close> has written the member.\<close>

record 'v bt_Tree =
  bt_root :: "nat option"
  bt_compare :: "'v \<Rightarrow> 'v \<Rightarrow> int"
  bt_current_node :: "nat option option"
  bt_count :: int

subsection \<open>Operations\<close>

definition bt_create :: "bool \<Rightarrow> ('v \<Rightarrow> 'v \<Rightarrow> int) \<Rightarrow> 'v bt_Tree res" where
  "bt_create allocOk compare =
     rbind (rguard NullDeref allocOk) (\<lambda>_.
     Inr \<lparr> bt_root = None, bt_compare = compare, bt_current_node = None, bt_count = 0 \<rparr>)"

fun bt_findnode :: "nat \<Rightarrow> ('v \<Rightarrow> 'v \<Rightarrow> int) \<Rightarrow> 'v nodes \<Rightarrow> nat option \<Rightarrow> 'v \<Rightarrow> nat option res" where
  "bt_findnode 0 compare h node key = Inl OutOfFuel"
| "bt_findnode (Suc fuel) compare h node key =
     (case node of
        None \<Rightarrow> Inr None
      | Some a \<Rightarrow>
          rbind (cell h a) (\<lambda>n.
          let tempint = compare key (bn_value n) in
          if tempint = 0 then Inr (Some a)
          else if tempint < 0 then bt_findnode fuel compare h (bn_left n) key
          else bt_findnode fuel compare h (bn_right n) key))"

fun bt_nodefind :: "nat \<Rightarrow> ('v \<Rightarrow> 'v \<Rightarrow> int) \<Rightarrow> 'v nodes \<Rightarrow> nat option \<Rightarrow> 'v \<Rightarrow> 'v option res" where
  "bt_nodefind 0 compare h node key = Inl OutOfFuel"
| "bt_nodefind (Suc fuel) compare h node key =
     (case node of
        None \<Rightarrow> Inr None
      | Some a \<Rightarrow>
          rbind (cell h a) (\<lambda>n.
          let tempint = compare key (bn_value n) in
          if tempint = 0 then Inr (Some (bn_value n))
          else if tempint < 0 then bt_nodefind fuel compare h (bn_left n) key
          else bt_nodefind fuel compare h (bn_right n) key))"

definition bt_find :: "nat \<Rightarrow> 'v bt_Tree \<Rightarrow> 'v nodes \<Rightarrow> 'v \<Rightarrow> 'v option res" where
  "bt_find fuel tree h key = bt_nodefind fuel (bt_compare tree) h (bt_root tree) key"

text \<open>Down the left links: the loops of \<open>bt_remove\<close>, \<open>bt_GoFirst\<close> and \<open>bt_GoNext\<close>.\<close>

fun go_left :: "nat \<Rightarrow> 'v nodes \<Rightarrow> nat \<Rightarrow> nat res" where
  "go_left 0 h a = Inl OutOfFuel"
| "go_left (Suc fuel) h a =
     rbind (cell h a) (\<lambda>n. case bn_left n of None \<Rightarrow> Inr a | Some b \<Rightarrow> go_left fuel h b)"

definition bt_remove :: "nat \<Rightarrow> 'v bt_Tree \<Rightarrow> 'v nodes \<Rightarrow> 'v \<Rightarrow> (bool \<times> 'v bt_Tree \<times> 'v nodes) res" where
  "bt_remove fuel tree h v =
     rbind (bt_findnode fuel (bt_compare tree) h (bt_root tree) v) (\<lambda>deletenode.
     case deletenode of
       None \<Rightarrow> Inr (False, tree, h)
     | Some a \<Rightarrow>
         rbind (cell h a) (\<lambda>n.
         rbind (case bn_right n of
                  None \<Rightarrow> modify a (\<lambda>n. n\<lparr> bn_father := bn_left n \<rparr>) h
                | Some r \<Rightarrow>
                    rbind (go_left fuel h r) (\<lambda>rightnode.
                    modify rightnode (\<lambda>m. m\<lparr> bn_left := bn_left n \<rparr>) h)) (\<lambda>h1.
         rbind (iadd (bt_count tree) (-1)) (\<lambda>c.
         Inr (True, tree\<lparr> bt_count := c \<rparr>, h1)))))"

text \<open>The loop of \<open>bt_add\<close>: the father and the direction of the new node, or nothing if the value is there.\<close>

fun add_place ::
  "nat \<Rightarrow> ('v \<Rightarrow> 'v \<Rightarrow> int) \<Rightarrow> 'v nodes \<Rightarrow> 'v \<Rightarrow> nat option \<Rightarrow> nat option \<Rightarrow> bt_direction
   \<Rightarrow> (nat option \<times> bt_direction) option res" where
  "add_place 0 compare h v cur_node father direction = Inl OutOfFuel"
| "add_place (Suc fuel) compare h v cur_node father direction =
     (case cur_node of
        None \<Rightarrow> Inr (Some (father, direction))
      | Some a \<Rightarrow>
          rbind (cell h a) (\<lambda>n.
          let tempint = compare v (bn_value n) in
          if tempint < 0 then add_place fuel compare h v (bn_left n) (Some a) BT_LEFT
          else if tempint > 0 then add_place fuel compare h v (bn_right n) (Some a) BT_RIGHT
          else Inr None))"

text \<open>Linking the new node to its father.\<close>

definition add_link :: "nat \<Rightarrow> nat option \<Rightarrow> bt_direction \<Rightarrow> 'v \<Rightarrow> 'v nodes \<Rightarrow> 'v nodes res" where
  "add_link a father direction v h =
     modify_if father (\<lambda>f. if direction = BT_LEFT then f\<lparr> bn_left := Some a \<rparr> else f\<lparr> bn_right := Some a \<rparr>)
       (h(a \<mapsto> \<lparr> bn_right = None, bn_left = None, bn_father = father, bn_direction = direction, bn_value = v \<rparr>))"

definition bt_add :: "nat \<Rightarrow> nat option \<Rightarrow> 'v bt_Tree \<Rightarrow> 'v nodes \<Rightarrow> 'v \<Rightarrow> (int \<times> 'v bt_Tree \<times> 'v nodes) res" where
  "bt_add fuel addr tree h v =
     rbind (add_place fuel (bt_compare tree) h v (bt_root tree) None BT_NONE) (\<lambda>place.
     case place of
       None \<Rightarrow> Inr (-1, tree, h)
     | Some (father, direction) \<Rightarrow>
         rbind (deref addr) (\<lambda>a.
         rbind (add_link a father direction v h) (\<lambda>h1.
         rbind (iadd (bt_count tree) 1) (\<lambda>c.
         Inr (0, tree\<lparr> bt_root := (if father = None then Some a else bt_root tree), bt_count := c \<rparr>, h1)))))"

fun bt_destroynode :: "nat \<Rightarrow> 'v nodes \<Rightarrow> nat \<Rightarrow> 'v nodes res" where
  "bt_destroynode 0 h a = Inl OutOfFuel"
| "bt_destroynode (Suc fuel) h a =
     rbind (cell h a) (\<lambda>n.
     rbind (case bn_left n of None \<Rightarrow> Inr h | Some l \<Rightarrow> bt_destroynode fuel h l) (\<lambda>h1.
     rbind (cell h1 a) (\<lambda>n1.
     rbind (case bn_right n1 of None \<Rightarrow> Inr h1 | Some r \<Rightarrow> bt_destroynode fuel h1 r) (\<lambda>h2.
     rbind (cell h2 a) (\<lambda>_. Inr (h2(a := None)))))))"

definition bt_destroy :: "nat \<Rightarrow> 'v bt_Tree \<Rightarrow> 'v nodes \<Rightarrow> 'v nodes res" where
  "bt_destroy fuel tree h = (case bt_root tree of None \<Rightarrow> Inr h | Some a \<Rightarrow> bt_destroynode fuel h a)"

subsection \<open>The iterator\<close>

definition current :: "'v bt_Tree \<Rightarrow> nat option res" where
  "current tree = (case bt_current_node tree of None \<Rightarrow> Inl UninitRead | Some c \<Rightarrow> Inr c)"

definition bt_EOT :: "'v bt_Tree \<Rightarrow> bool res" where
  "bt_EOT tree = rbind (current tree) (\<lambda>c. Inr (c = None))"

definition bt_GoFirst :: "nat \<Rightarrow> 'v bt_Tree \<Rightarrow> 'v nodes \<Rightarrow> 'v bt_Tree res" where
  "bt_GoFirst fuel tree h =
     rbind (case bt_root tree of None \<Rightarrow> Inr None | Some a \<Rightarrow> rbind (go_left fuel h a) (\<lambda>b. Inr (Some b))) (\<lambda>node.
     Inr (tree\<lparr> bt_current_node := Some node \<rparr>))"

definition bt_GetCur :: "'v bt_Tree \<Rightarrow> 'v nodes \<Rightarrow> 'v res" where
  "bt_GetCur tree h = rbind (current tree) (\<lambda>c. rbind (deref c) (\<lambda>a. rbind (cell h a) (\<lambda>n. Inr (bn_value n))))"

text \<open>Up the father links until a node is left from its left side.\<close>

fun go_up :: "nat \<Rightarrow> 'v nodes \<Rightarrow> nat option \<Rightarrow> bt_direction \<Rightarrow> nat option res" where
  "go_up 0 h node dir = Inl OutOfFuel"
| "go_up (Suc fuel) h node dir =
     (case node of
        None \<Rightarrow> Inr None
      | Some a \<Rightarrow>
          if dir = BT_LEFT then Inr node
          else rbind (cell h a) (\<lambda>n. go_up fuel h (bn_father n) (bn_direction n)))"

definition next_node :: "nat \<Rightarrow> 'v nodes \<Rightarrow> nat \<Rightarrow> nat option res" where
  "next_node fuel h a =
     rbind (cell h a) (\<lambda>n.
     case bn_right n of
       Some r \<Rightarrow> rbind (go_left fuel h r) (\<lambda>b. Inr (Some b))
     | None \<Rightarrow> go_up fuel h (bn_father n) (bn_direction n))"

definition bt_GoNext :: "nat \<Rightarrow> 'v bt_Tree \<Rightarrow> 'v nodes \<Rightarrow> 'v bt_Tree res" where
  "bt_GoNext fuel tree h =
     rbind (current tree) (\<lambda>c.
     rbind (deref c) (\<lambda>a.
     rbind (next_node fuel h a) (\<lambda>node. Inr (tree\<lparr> bt_current_node := Some node \<rparr>))))"

text \<open>The loop of \<open>bt_dup\<close>; \<open>addrs\<close> are the outcomes of the allocations of the new nodes.\<close>

fun dup_loop ::
  "nat \<Rightarrow> nat \<Rightarrow> ('v \<Rightarrow> 'v) option \<Rightarrow> nat option list \<Rightarrow> 'v bt_Tree \<Rightarrow> 'v bt_Tree \<Rightarrow> 'v nodes
   \<Rightarrow> ('v bt_Tree \<times> 'v bt_Tree \<times> 'v nodes) res" where
  "dup_loop 0 fuel dupfunc addrs bt result h = Inl OutOfFuel"
| "dup_loop (Suc rounds) fuel dupfunc addrs bt result h =
     rbind (bt_EOT bt) (\<lambda>eot.
     if eot then Inr (bt, result, h)
     else
       rbind (bt_GetCur bt h) (\<lambda>v.
       rbind (bt_add fuel (case addrs of [] \<Rightarrow> None | a # _ \<Rightarrow> a) result h
                (case dupfunc of None \<Rightarrow> v | Some f \<Rightarrow> f v)) (\<lambda>(_, result1, h1).
       rbind (bt_GoNext fuel bt h1) (\<lambda>bt1.
       dup_loop rounds fuel dupfunc (tl addrs) bt1 result1 h1))))"

definition bt_dup ::
  "nat \<Rightarrow> bool \<Rightarrow> nat option list \<Rightarrow> ('v \<Rightarrow> 'v) option \<Rightarrow> 'v bt_Tree \<Rightarrow> 'v nodes
   \<Rightarrow> ('v bt_Tree \<times> 'v bt_Tree \<times> 'v nodes) res" where
  "bt_dup fuel allocOk addrs dupfunc bt h =
     rbind (bt_create allocOk (bt_compare bt)) (\<lambda>result.
     rbind (bt_GoFirst fuel bt h) (\<lambda>bt1.
     rbind (dup_loop fuel fuel dupfunc addrs bt1 result h) (\<lambda>(bt2, result1, h1).
     Inr (result1\<lparr> bt_count := bt_count bt2 \<rparr>, bt2\<lparr> bt_current_node := bt_current_node bt \<rparr>, h1))))"

definition bt_getCount :: "'v bt_Tree \<Rightarrow> int" where
  "bt_getCount bt = bt_count bt"

subsection \<open>The tree in the store\<close>

text \<open>The nodes under \<open>p\<close> form the tree \<open>t\<close> of addresses, with their father links and directions.\<close>

fun tree_at :: "'v nodes \<Rightarrow> nat option \<Rightarrow> bt_direction \<Rightarrow> nat option \<Rightarrow> nat tree \<Rightarrow> bool" where
  "tree_at h f d p Leaf \<longleftrightarrow> p = None"
| "tree_at h f d p (Node l a r) \<longleftrightarrow> p = Some a \<and>
     (\<exists>n. h a = Some n \<and> bn_father n = f \<and> bn_direction n = d
        \<and> tree_at h (Some a) BT_LEFT (bn_left n) l \<and> tree_at h (Some a) BT_RIGHT (bn_right n) r)"

definition value_at :: "'v nodes \<Rightarrow> nat \<Rightarrow> 'v" where
  "value_at h a = bn_value (the (h a))"

abbreviation addresses :: "nat tree \<Rightarrow> nat list" where
  "addresses \<equiv> inorder"

definition tree_values :: "'v nodes \<Rightarrow> nat tree \<Rightarrow> 'v list" where
  "tree_values h t = map (value_at h) (addresses t)"

lemma tree_at_cong: "(\<And>a. a \<in> set_tree t \<Longrightarrow> h a = k a) \<Longrightarrow> tree_at h f d p t \<longleftrightarrow> tree_at k f d p t"
  by (induction t arbitrary: f d p) auto

lemma tree_values_cong: "(\<And>a. a \<in> set_tree t \<Longrightarrow> h a = k a) \<Longrightarrow> tree_values h t = tree_values k t"
  by (simp add: tree_values_def value_at_def)

lemma tree_at_alive: "tree_at h f d p t \<Longrightarrow> a \<in> set_tree t \<Longrightarrow> \<exists>n. h a = Some n"
  by (induction t arbitrary: f d p) auto

text \<open>What a lawful comparison is: it gives a total preorder.\<close>

definition order_compare :: "('v \<Rightarrow> 'v \<Rightarrow> int) \<Rightarrow> bool" where
  "order_compare cmp \<longleftrightarrow> (\<forall>x y. cmp x y < 0 \<longleftrightarrow> 0 < cmp y x) \<and> (\<forall>x y z. cmp x y \<le> 0 \<and> cmp y z \<le> 0 \<longrightarrow> cmp x z \<le> 0)"

definition ascending :: "('v \<Rightarrow> 'v \<Rightarrow> int) \<Rightarrow> 'v list \<Rightarrow> bool" where
  "ascending cmp vs \<longleftrightarrow> sorted_wrt (\<lambda>x y. cmp x y < 0) vs"

lemma order_swap: "order_compare cmp \<Longrightarrow> cmp x y < 0 \<longleftrightarrow> 0 < cmp y x"
  by (simp add: order_compare_def)

lemma order_trans: "order_compare cmp \<Longrightarrow> cmp x y \<le> 0 \<Longrightarrow> cmp y z \<le> 0 \<Longrightarrow> cmp x z \<le> 0"
  unfolding order_compare_def by blast

lemma order_trans_less:
  assumes "order_compare cmp" and "cmp x y \<le> 0" and "cmp y z < 0"
  shows "cmp x z < 0"
  using order_trans[OF assms(1), of z x y] assms order_swap[OF assms(1)] by (metis linorder_not_le order_less_le)

text \<open>The tree represents the ascending values \<open>vs\<close>.\<close>

definition bt_rep :: "'v nodes \<Rightarrow> 'v bt_Tree \<Rightarrow> nat tree \<Rightarrow> 'v list \<Rightarrow> bool" where
  "bt_rep h tree t vs \<longleftrightarrow> tree_at h None BT_NONE (bt_root tree) t \<and> distinct (addresses t) \<and> tree_values h t = vs
     \<and> ascending (bt_compare tree) vs \<and> order_compare (bt_compare tree) \<and> bt_count tree = int (length vs)"

lemma tree_values_simps [simp]:
  "tree_values h Leaf = []"
  "tree_values h (Node l a r) = tree_values h l @ value_at h a # tree_values h r"
  by (simp_all add: tree_values_def)

lemma ascending_append:
  "ascending cmp (xs @ v # ys) \<longleftrightarrow> ascending cmp xs \<and> ascending cmp ys
     \<and> (\<forall>x \<in> set xs. cmp x v < 0) \<and> (\<forall>y \<in> set ys. cmp v y < 0) \<and> (\<forall>x \<in> set xs. \<forall>y \<in> set ys. cmp x y < 0)"
  by (auto simp: ascending_def sorted_wrt_append)

lemma size_addresses: "length (addresses t) = size t"
  by (induction t) auto

subsection \<open>Searching\<close>

lemma find_skip_right: "\<forall>x \<in> set ys. \<not> P x \<Longrightarrow> find P (xs @ ys) = find P xs"
  by (induction xs) (auto simp: find_None_iff)

lemma find_skip_left: "\<forall>x \<in> set xs. \<not> P x \<Longrightarrow> find P (xs @ ys) = find P ys"
  by (induction xs) auto

lemma findnode_tree:
  "tree_at h f d p t \<Longrightarrow> order_compare cmp \<Longrightarrow> ascending cmp (tree_values h t) \<Longrightarrow> size t < fuel
    \<Longrightarrow> bt_findnode fuel cmp h p key = Inr (find (\<lambda>a. cmp key (value_at h a) = 0) (addresses t))"
proof (induction t arbitrary: f d p fuel)
  case Leaf
  then show ?case by (cases fuel) auto
next
  case (Node l a r)
  obtain fu n where n: "fuel = Suc fu" "size l < fu" "size r < fu" "p = Some a" "h a = Some n"
      "tree_at h (Some a) BT_LEFT (bn_left n) l" "tree_at h (Some a) BT_RIGHT (bn_right n) r"
    using Node.prems(1,4) by (cases fuel) auto
  have v: "bn_value n = value_at h a" using n(5) by (simp add: value_at_def)
  have asc: "ascending cmp (tree_values h l)" "ascending cmp (tree_values h r)"
      "\<forall>b \<in> set (addresses l). cmp (value_at h b) (value_at h a) < 0"
      "\<forall>b \<in> set (addresses r). cmp (value_at h a) (value_at h b) < 0"
    using Node.prems(3) by (auto simp: ascending_append tree_values_def)
  note sw = order_swap[OF Node.prems(2)] and tr = order_trans_less[OF Node.prems(2)]
  consider (eq) "cmp key (value_at h a) = 0" | (lt) "cmp key (value_at h a) < 0" | (gt) "cmp key (value_at h a) > 0" by linarith
  then show ?case
  proof cases
    case eq
    have "\<forall>b \<in> set (addresses l). cmp key (value_at h b) \<noteq> 0"
    proof
      fix b assume "b \<in> set (addresses l)"
      then have "cmp (value_at h b) (value_at h a) < 0" using asc(3) by blast
      moreover have "cmp (value_at h a) key \<le> 0" using eq sw[of key "value_at h a"] by auto
      ultimately show "cmp key (value_at h b) \<noteq> 0"
        using sw tr[of "value_at h a" key "value_at h b"] order_trans[OF Node.prems(2)] by (metis linorder_not_le order_refl)
    qed
    then show ?thesis using n eq v find_skip_left[of "addresses l"] by (simp add: Let_def)
  next
    case lt
    then have "\<forall>b \<in> set (addresses r). cmp key (value_at h b) \<noteq> 0" using asc(4) tr[of key "value_at h a"] by fastforce
    then show ?thesis using n lt v Node.IH(1)[OF n(6) Node.prems(2) asc(1) n(2)] find_skip_right[of "a # addresses r" _ "addresses l"]
      by (simp add: Let_def)
  next
    case gt
    have "\<forall>b \<in> set (addresses l). cmp key (value_at h b) \<noteq> 0"
      using gt asc(3) sw tr by (metis less_imp_le less_irrefl)
    then show ?thesis using n gt v Node.IH(2)[OF n(7) Node.prems(2) asc(2) n(3)] find_skip_left[of "addresses l"]
      by (simp add: Let_def)
  qed
qed

lemma nodefind_findnode:
  "bt_nodefind fuel cmp h p key = rbind (bt_findnode fuel cmp h p key) (\<lambda>q. Inr (map_option (value_at h) q))"
  by (induction fuel arbitrary: p) (auto simp: Let_def value_at_def cell_def split: option.splits)

lemma find_map_value: "map_option g (find (\<lambda>a. P (g a)) xs) = find P (map g xs)"
  by (induction xs) auto

lemma bt_find_rep:
  assumes "bt_rep h tree t vs" and "length vs < fuel"
  shows "bt_find fuel tree h key = Inr (find (\<lambda>x. bt_compare tree key x = 0) vs)"
proof -
  have "size t < fuel" using assms by (auto simp: bt_rep_def tree_values_def size_addresses)
  then have "bt_findnode fuel (bt_compare tree) h (bt_root tree) key
      = Inr (find (\<lambda>a. bt_compare tree key (value_at h a) = 0) (addresses t))"
    using assms(1) by (intro findnode_tree) (auto simp: bt_rep_def)
  then show ?thesis
    using assms(1) find_map_value[of "value_at h" "\<lambda>x. bt_compare tree key x = 0" "addresses t"]
    by (auto simp: bt_find_def nodefind_findnode bt_rep_def tree_values_def)
qed

subsection \<open>Adding\<close>

lemma add_place_findnode:
  "bt_findnode fuel cmp h p v = Inr None \<Longrightarrow> \<exists>place. add_place fuel cmp h v p f d = Inr (Some place)"
  "bt_findnode fuel cmp h p v = Inr (Some b) \<Longrightarrow> add_place fuel cmp h v p f d = Inr None"
  by (induction fuel arbitrary: p f d) (auto simp: Let_def cell_def split: option.splits if_splits)

text \<open>Where the address of the new node goes.\<close>

fun ins_at :: "('v \<Rightarrow> 'v \<Rightarrow> int) \<Rightarrow> 'v nodes \<Rightarrow> 'v \<Rightarrow> nat \<Rightarrow> nat tree \<Rightarrow> nat tree" where
  "ins_at cmp h v a Leaf = Node Leaf a Leaf"
| "ins_at cmp h v a (Node l b r) =
     (if cmp v (value_at h b) < 0 then Node (ins_at cmp h v a l) b r else Node l b (ins_at cmp h v a r))"

lemma ins_at_split:
  assumes "order_compare cmp"
  shows "ascending cmp (tree_values h t) \<Longrightarrow> \<forall>x \<in> set (tree_values h t). cmp v x \<noteq> 0
    \<Longrightarrow> \<exists>us ws. addresses t = us @ ws \<and> addresses (ins_at cmp h v a t) = us @ a # ws
      \<and> (\<forall>b \<in> set us. cmp (value_at h b) v < 0) \<and> (\<forall>b \<in> set ws. cmp v (value_at h b) < 0)"
proof (induction t)
  case (Node l b r)
  note sw = order_swap[OF assms] and tr = order_trans_less[OF assms]
  have asc: "ascending cmp (tree_values h l)" "ascending cmp (tree_values h r)"
      "\<forall>c \<in> set (addresses l). cmp (value_at h c) (value_at h b) < 0"
      "\<forall>c \<in> set (addresses r). cmp (value_at h b) (value_at h c) < 0"
    using Node.prems(1) by (auto simp: ascending_append tree_values_def)
  show ?case
  proof (cases "cmp v (value_at h b) < 0")
    case True
    obtain us ws where u: "addresses l = us @ ws" "addresses (ins_at cmp h v a l) = us @ a # ws"
        "\<forall>c \<in> set us. cmp (value_at h c) v < 0" "\<forall>c \<in> set ws. cmp v (value_at h c) < 0"
      using Node.IH(1)[OF asc(1)] Node.prems(2) by auto
    have "\<forall>c \<in> set (addresses r). cmp v (value_at h c) < 0" using True asc(4) tr[of v "value_at h b"] by fastforce
    then show ?thesis using u True by (intro exI[of _ us] exI[of _ "ws @ b # addresses r"]) auto
  next
    case False
    then have gt: "cmp (value_at h b) v < 0" using Node.prems(2) sw[of "value_at h b" v] by force
    obtain us ws where u: "addresses r = us @ ws" "addresses (ins_at cmp h v a r) = us @ a # ws"
        "\<forall>c \<in> set us. cmp (value_at h c) v < 0" "\<forall>c \<in> set ws. cmp v (value_at h c) < 0"
      using Node.IH(2)[OF asc(2)] Node.prems(2) by auto
    have "\<forall>c \<in> set (addresses l). cmp (value_at h c) v < 0" using asc(3) tr[OF _ gt] by fastforce
    then show ?thesis using u False gt by (intro exI[of _ "addresses l @ b # us"] exI[of _ ws]) auto
  qed
qed simp

text \<open>The new node hangs below its father.\<close>

definition new_node :: "nat option \<Rightarrow> bt_direction \<Rightarrow> 'v \<Rightarrow> 'v bt_node" where
  "new_node f d v = \<lparr> bn_right = None, bn_left = None, bn_father = f, bn_direction = d, bn_value = v \<rparr>"

definition linked :: "nat \<Rightarrow> nat \<Rightarrow> bt_direction \<Rightarrow> 'v \<Rightarrow> 'v bt_node \<Rightarrow> 'v nodes \<Rightarrow> 'v nodes" where
  "linked a b d v n h = h(a \<mapsto> new_node (Some b) d v,
     b \<mapsto> (if d = BT_LEFT then n\<lparr> bn_left := Some a \<rparr> else n\<lparr> bn_right := Some a \<rparr>))"

lemma linked_other: "c \<noteq> a \<Longrightarrow> c \<noteq> b \<Longrightarrow> linked a b d v n h c = h c"
  by (simp add: linked_def)

lemma add_link_eq: "h b = Some n \<Longrightarrow> b \<noteq> a \<Longrightarrow> add_link a (Some b) d v h = Inr (linked a b d v n h)"
  by (simp add: add_link_def linked_def new_node_def modify_def)

lemma add_place_tree:
  "tree_at h f d p t \<Longrightarrow> distinct (addresses t) \<Longrightarrow> h a = None
    \<Longrightarrow> add_place fuel cmp h v p f0 d0 = Inr (Some (father, dir))
    \<Longrightarrow> (t = Leaf \<and> father = f0 \<and> dir = d0)
      \<or> (\<exists>b n. father = Some b \<and> b \<in> set_tree t \<and> h b = Some n \<and> tree_at (linked a b dir v n h) f d p (ins_at cmp h v a t))"
proof (induction t arbitrary: f d p f0 d0 fuel)
  case Leaf
  then show ?case by (cases fuel) auto
next
  case (Node l c r)
  obtain fu n where n: "fuel = Suc fu" "p = Some c" "h c = Some n" "bn_father n = f" "bn_direction n = d"
      "tree_at h (Some c) BT_LEFT (bn_left n) l" "tree_at h (Some c) BT_RIGHT (bn_right n) r"
    using Node.prems(1,4) by (cases fuel) auto
  have v: "bn_value n = value_at h c" using n(3) by (simp add: value_at_def)
  have ds: "distinct (addresses l)" "distinct (addresses r)" "c \<notin> set_tree l" "c \<notin> set_tree r" "set_tree l \<inter> set_tree r = {}"
    using Node.prems(2) by auto
  have fr: "a \<notin> set_tree l" "a \<notin> set_tree r" "a \<noteq> c"
    using tree_at_alive[OF n(6), of a] tree_at_alive[OF n(7), of a] n(3) Node.prems(3) by auto
  show ?case
  proof (cases "cmp v (value_at h c) < 0")
    case True
    then have pl: "add_place fu cmp h v (bn_left n) (Some c) BT_LEFT = Inr (Some (father, dir))"
      using Node.prems(4) n v by (simp add: Let_def)
    have "\<exists>b m. father = Some b \<and> b \<in> set_tree (Node l c r) \<and> h b = Some m
        \<and> tree_at (linked a b dir v m h) f d p (Node (ins_at cmp h v a l) c r)"
      using Node.IH(1)[OF n(6) ds(1) Node.prems(3) pl]
    proof
      assume z: "l = Leaf \<and> father = Some c \<and> dir = BT_LEFT"
      have "tree_at (linked a c dir v n h) (Some c) BT_RIGHT (bn_right n) r"
        using n(7) fr ds tree_at_cong[of r "linked a c dir v n h" h] linked_other by metis
      then show ?thesis using z n fr by (auto simp: linked_def new_node_def)
    next
      assume "\<exists>b m. father = Some b \<and> b \<in> set_tree l \<and> h b = Some m \<and>
          tree_at (linked a b dir v m h) (Some c) BT_LEFT (bn_left n) (ins_at cmp h v a l)"
      then obtain b m where b: "father = Some b" "b \<in> set_tree l" "h b = Some m"
          "tree_at (linked a b dir v m h) (Some c) BT_LEFT (bn_left n) (ins_at cmp h v a l)" by blast
      have "b \<notin> set_tree r" "b \<noteq> c" using b(2) ds by auto
      then have "tree_at (linked a b dir v m h) (Some c) BT_RIGHT (bn_right n) r"
        using n(7) fr(2) tree_at_cong[of r "linked a b dir v m h" h] linked_other by metis
      then show ?thesis using b n fr(3) \<open>b \<noteq> c\<close> by (auto simp: linked_other)
    qed
    then show ?thesis using True by simp
  next
    case False
    then have pl: "add_place fu cmp h v (bn_right n) (Some c) BT_RIGHT = Inr (Some (father, dir))"
      using Node.prems(4) n v by (simp add: Let_def split: if_splits)
    have "\<exists>b m. father = Some b \<and> b \<in> set_tree (Node l c r) \<and> h b = Some m
        \<and> tree_at (linked a b dir v m h) f d p (Node l c (ins_at cmp h v a r))"
      using Node.IH(2)[OF n(7) ds(2) Node.prems(3) pl]
    proof
      assume z: "r = Leaf \<and> father = Some c \<and> dir = BT_RIGHT"
      have "tree_at (linked a c dir v n h) (Some c) BT_LEFT (bn_left n) l"
        using n(6) fr ds tree_at_cong[of l "linked a c dir v n h" h] linked_other by metis
      then show ?thesis using z n fr by (auto simp: linked_def new_node_def)
    next
      assume "\<exists>b m. father = Some b \<and> b \<in> set_tree r \<and> h b = Some m \<and>
          tree_at (linked a b dir v m h) (Some c) BT_RIGHT (bn_right n) (ins_at cmp h v a r)"
      then obtain b m where b: "father = Some b" "b \<in> set_tree r" "h b = Some m"
          "tree_at (linked a b dir v m h) (Some c) BT_RIGHT (bn_right n) (ins_at cmp h v a r)" by blast
      have "b \<notin> set_tree l" "b \<noteq> c" using b(2) ds by auto
      then have "tree_at (linked a b dir v m h) (Some c) BT_LEFT (bn_left n) l"
        using n(6) fr(1) tree_at_cong[of l "linked a b dir v m h" h] linked_other by metis
      then show ?thesis using b n fr(3) \<open>b \<noteq> c\<close> by (auto simp: linked_other)
    qed
    then show ?thesis using False by simp
  qed
qed

lemma linked_values:
  assumes "h b = Some n" and "b \<noteq> a"
  shows "value_at (linked a b d v n h) c = (if c = a then v else value_at h c)"
  using assms by (simp add: linked_def new_node_def value_at_def)

lemma bt_add_rep:
  assumes rep: "bt_rep h tree t vs" and fuel: "length vs < fuel" and fresh: "h a = None"
    and room: "int (length vs) < INT_MAX" and new: "\<forall>x \<in> set vs. bt_compare tree v x \<noteq> 0"
  shows "\<exists>us ws tree' h' t'. vs = us @ ws \<and> bt_add fuel (Some a) tree h v = Inr (0, tree', h')
    \<and> bt_rep h' tree' t' (us @ v # ws) \<and> (\<forall>c. c \<notin> insert a (set_tree t) \<longrightarrow> h' c = h c)
    \<and> set_tree t' = insert a (set_tree t) \<and> bt_compare tree' = bt_compare tree \<and> bt_current_node tree' = bt_current_node tree"
proof -
  let ?cmp = "bt_compare tree"
  have r: "tree_at h None BT_NONE (bt_root tree) t" "distinct (addresses t)" "tree_values h t = vs"
      "ascending ?cmp vs" "order_compare ?cmp" "bt_count tree = int (length vs)"
    using rep by (auto simp: bt_rep_def)
  have sz: "size t < fuel" using r(3) fuel by (auto simp: tree_values_def size_addresses)
  have a: "a \<notin> set_tree t" using tree_at_alive[OF r(1), of a] fresh by auto
  have "bt_findnode fuel ?cmp h (bt_root tree) v = Inr None"
    using findnode_tree[OF r(1,5) _ sz, of v] r(3,4) new by (auto simp: find_None_iff tree_values_def)
  then obtain father dir where pl: "add_place fuel ?cmp h v (bt_root tree) None BT_NONE = Inr (Some (father, dir))"
    using add_place_findnode(1)[of fuel ?cmp h "bt_root tree" v None BT_NONE] by auto
  obtain us ws where u: "addresses t = us @ ws" "addresses (ins_at ?cmp h v a t) = us @ a # ws"
      "\<forall>b \<in> set us. ?cmp (value_at h b) v < 0" "\<forall>b \<in> set ws. ?cmp v (value_at h b) < 0"
    using ins_at_split[OF r(5), of h t v a] r(3,4) new by auto
  let ?us = "map (value_at h) us" and ?ws = "map (value_at h) ws"
  have vs: "vs = ?us @ ?ws" using r(3) u(1) by (simp add: tree_values_def)
  have asc: "ascending ?cmp (?us @ v # ?ws)"
    using r(4) u(3,4) vs by (auto simp: ascending_def sorted_wrt_append)
  have st: "set_tree (ins_at ?cmp h v a t) = insert a (set_tree t)" using u(1,2) by (metis Un_insert_right list.simps(15) set_append set_inorder)
  have au: "a \<notin> set us" "a \<notin> set ws" using a u(1) set_inorder[of t] by auto
  then have ds: "distinct (addresses (ins_at ?cmp h v a t))" using r(2) u(1,2) by auto
  have c: "iadd (bt_count tree) 1 = Inr (int (length vs) + 1)" using r(6) room by (simp add: in_int_def)
  from add_place_tree[OF r(1,2) fresh pl] show ?thesis
  proof
    assume z: "t = Leaf \<and> father = None \<and> dir = BT_NONE"
    let ?h = "h(a \<mapsto> new_node None BT_NONE v)" and ?tr = "tree\<lparr> bt_root := Some a, bt_count := int (length vs) + 1 \<rparr>"
    have "bt_add fuel (Some a) tree h v = Inr (0, ?tr, ?h)"
      using pl z c by (simp add: bt_add_def add_link_def modify_if_def new_node_def)
    moreover have "bt_rep ?h ?tr (Node Leaf a Leaf) ([] @ v # [])"
      using z r by (simp add: bt_rep_def new_node_def value_at_def ascending_def)
    ultimately show ?thesis using z r(3) by (intro exI[of _ "[]"] exI[of _ ?tr] exI[of _ ?h] exI[of _ "Node Leaf a Leaf"]) auto
  next
    assume "\<exists>b n. father = Some b \<and> b \<in> set_tree t \<and> h b = Some n
        \<and> tree_at (linked a b dir v n h) None BT_NONE (bt_root tree) (ins_at ?cmp h v a t)"
    then obtain b n where b: "father = Some b" "b \<in> set_tree t" "h b = Some n"
        "tree_at (linked a b dir v n h) None BT_NONE (bt_root tree) (ins_at ?cmp h v a t)" by blast
    let ?h = "linked a b dir v n h" and ?tr = "tree\<lparr> bt_count := int (length vs) + 1 \<rparr>"
    have ba: "b \<noteq> a" using b(2) a by auto
    have "bt_add fuel (Some a) tree h v = Inr (0, ?tr, ?h)"
      using pl b(1) c add_link_eq[of h b n a dir v, OF b(3) ba] by (simp add: bt_add_def)
    moreover have "tree_values ?h (ins_at ?cmp h v a t) = ?us @ v # ?ws"
      using u(2) au linked_values[of h b n a, OF b(3) ba] by (simp add: tree_values_def)
    then have "bt_rep ?h ?tr (ins_at ?cmp h v a t) (?us @ v # ?ws)" using b(4) ds asc r(5) vs by (simp add: bt_rep_def)
    moreover have "\<forall>c. c \<notin> insert a (set_tree t) \<longrightarrow> ?h c = h c" using b(2) linked_other by (metis insertCI)
    ultimately show ?thesis using vs st
      by (intro exI[of _ ?us] exI[of _ ?ws] exI[of _ ?tr] exI[of _ ?h] exI[of _ "ins_at ?cmp h v a t"]) simp
  qed
qed

lemma bt_add_present:
  assumes rep: "bt_rep h tree t vs" and fuel: "length vs < fuel" and x: "x \<in> set vs" "bt_compare tree v x = 0"
  shows "bt_add fuel addr tree h v = Inr (-1, tree, h)"
proof -
  have sz: "size t < fuel" using rep fuel by (auto simp: bt_rep_def tree_values_def size_addresses)
  have f: "bt_findnode fuel (bt_compare tree) h (bt_root tree) v
      = Inr (find (\<lambda>a. bt_compare tree v (value_at h a) = 0) (addresses t))"
    using rep sz by (intro findnode_tree) (auto simp: bt_rep_def)
  have "find (\<lambda>a. bt_compare tree v (value_at h a) = 0) (addresses t) \<noteq> None"
    using rep x by (auto simp: find_None_iff bt_rep_def tree_values_def)
  then obtain b where "bt_findnode fuel (bt_compare tree) h (bt_root tree) v = Inr (Some b)" using f by auto
  then show ?thesis using add_place_findnode(2) by (fastforce simp: bt_add_def)
qed

subsection \<open>Iterating\<close>

lemma go_left_tree:
  "tree_at h f d (Some a) t \<Longrightarrow> size t < fuel \<Longrightarrow> go_left fuel h a = Inr (hd (addresses t))"
proof (induction t arbitrary: f d a fuel)
  case (Node l b r)
  then obtain fu n where n: "fuel = Suc fu" "size l < fu" "a = b" "h b = Some n"
      "tree_at h (Some b) BT_LEFT (bn_left n) l" by (cases fuel) auto
  show ?case
  proof (cases l)
    case Leaf
    then show ?thesis using n by simp
  next
    case (Node l1 c l2)
    then have "bn_left n = Some c" using n(5) by simp
    then show ?thesis using n Node.IH(1)[of "Some b" BT_LEFT c fu] Node by (simp add: hd_append)
  qed
qed simp

lemma go_up_mono: "go_up k h p d = Inr r \<Longrightarrow> k \<le> k' \<Longrightarrow> go_up k' h p d = Inr r"
proof (induction k arbitrary: p d k')
  case (Suc k)
  then obtain j where "k' = Suc j" "k \<le> j" by (cases k') auto
  then show ?case using Suc by (auto simp: res_iff split: option.splits if_splits)
qed simp

lemma next_node_tree:
  "tree_at h f d p t \<Longrightarrow> distinct (addresses t) \<Longrightarrow> addresses t = xs @ b # ys \<Longrightarrow> go_up k h f d = Inr r
    \<Longrightarrow> size t + k \<le> fuel \<Longrightarrow> next_node fuel h b = Inr (case ys of c # _ \<Rightarrow> Some c | [] \<Rightarrow> r)"
proof (induction t arbitrary: f d p xs ys k r)
  case (Node lt a rt)
  obtain n where n: "p = Some a" "h a = Some n" "bn_father n = f" "bn_direction n = d"
      "tree_at h (Some a) BT_LEFT (bn_left n) lt" "tree_at h (Some a) BT_RIGHT (bn_right n) rt"
    using Node.prems(1) by auto
  have ds: "distinct (addresses lt)" "distinct (addresses rt)" using Node.prems(2) by auto
  consider (l) ys1 where "addresses lt = xs @ b # ys1" "ys = ys1 @ a # addresses rt"
    | (m) "b = a" "xs = addresses lt" "ys = addresses rt"
    | (r) xs1 where "xs = addresses lt @ a # xs1" "addresses rt = xs1 @ b # ys"
    using Node.prems(3) by (auto simp: append_eq_append_conv2 append_eq_Cons_conv Cons_eq_append_conv)
  then show ?case
  proof cases
    case l
    have "go_up 1 h (Some a) BT_LEFT = Inr (Some a)" by simp
    then show ?thesis using Node.IH(1)[OF n(5) ds(1) l(1), of 1 "Some a"] Node.prems(5) l(2) by (cases ys1) auto
  next
    case m
    show ?thesis
    proof (cases rt)
      case Leaf
      then show ?thesis using m n go_up_mono[OF Node.prems(4), of fuel] Node.prems(5) by (simp add: next_node_def)
    next
      case (Node r1 c r2)
      then have "bn_right n = Some c" using n(6) by simp
      moreover have "go_left fuel h c = Inr (hd (addresses rt))"
        using go_left_tree[of h "Some a" BT_RIGHT c rt fuel] n(6) \<open>bn_right n = Some c\<close> Node.prems(5) by simp
      moreover have "addresses rt \<noteq> []" using Node by simp
      ultimately show ?thesis using m n(2) by (cases "addresses rt") (auto simp: next_node_def)
    qed
  next
    case r
    have "go_up (Suc k) h (Some a) BT_RIGHT = Inr r" using n(2-4) Node.prems(4) by simp
    then show ?thesis using Node.IH(2)[OF n(6) ds(2) r(2), of "Suc k"] Node.prems(5) by simp
  qed
qed simp

lemma bt_rep_tree:
  assumes "bt_rep h tree t vs"
  shows "tree_at h None BT_NONE (bt_root tree) t" "distinct (addresses t)" "vs = map (value_at h) (addresses t)" "length vs = size t"
  using assms by (auto simp: bt_rep_def tree_values_def size_addresses)

text \<open>The iterator stands before the addresses \<open>ys\<close>.\<close>

definition before :: "'v bt_Tree \<Rightarrow> nat list \<Rightarrow> bool" where
  "before tree ys \<longleftrightarrow> bt_current_node tree = Some (case ys of [] \<Rightarrow> None | a # _ \<Rightarrow> Some a)"

lemma bt_GoFirst_rep:
  assumes "bt_rep h tree t vs" and "length vs < fuel"
  shows "\<exists>c. bt_GoFirst fuel tree h = Inr (tree\<lparr> bt_current_node := c \<rparr>) \<and> before (tree\<lparr> bt_current_node := c \<rparr>) (addresses t)"
proof (cases t)
  case Leaf
  then show ?thesis using bt_rep_tree(1)[OF assms(1)] by (simp add: bt_GoFirst_def before_def)
next
  case (Node l a r)
  then have "bt_root tree = Some a" using bt_rep_tree(1)[OF assms(1)] by simp
  moreover have "go_left fuel h a = Inr (hd (addresses t))"
    using go_left_tree[of h None BT_NONE a t fuel] bt_rep_tree(1,4)[OF assms(1)] assms(2) calculation by simp
  moreover have "addresses t \<noteq> []" using Node by simp
  ultimately show ?thesis by (cases "addresses t") (auto simp: bt_GoFirst_def before_def)
qed

lemma bt_GoNext_tree:
  assumes "tree_at h None BT_NONE (bt_root tree) t" "distinct (addresses t)" and "addresses t = xs @ b # ys"
    and "before tree (b # ys)" and "size t < fuel"
  shows "\<exists>c. bt_GoNext fuel tree h = Inr (tree\<lparr> bt_current_node := c \<rparr>) \<and> before (tree\<lparr> bt_current_node := c \<rparr>) ys"
proof -
  have "go_up 1 h None BT_NONE = Inr None" by simp
  then have "next_node fuel h b = Inr (case ys of c # _ \<Rightarrow> Some c | [] \<Rightarrow> None)"
    using next_node_tree[OF assms(1-3), of 1 None fuel] assms(5) by simp
  then show ?thesis using assms(4) by (cases ys) (auto simp: bt_GoNext_def before_def current_def)
qed

text \<open>A client's loop over all values, as in \<open>bt_dup\<close>.\<close>

fun bt_walk :: "nat \<Rightarrow> nat \<Rightarrow> 'v bt_Tree \<Rightarrow> 'v nodes \<Rightarrow> 'v list res" where
  "bt_walk 0 fuel tree h = Inl OutOfFuel"
| "bt_walk (Suc rounds) fuel tree h =
     rbind (bt_EOT tree) (\<lambda>eot.
     if eot then Inr []
     else rbind (bt_GetCur tree h) (\<lambda>v.
       rbind (bt_GoNext fuel tree h) (\<lambda>tree1.
       rbind (bt_walk rounds fuel tree1 h) (\<lambda>vs. Inr (v # vs)))))"

lemma GetCur_before: "before tree (b # ys) \<Longrightarrow> h b = Some n \<Longrightarrow> bt_GetCur tree h = Inr (value_at h b)"
  by (simp add: before_def bt_GetCur_def current_def value_at_def)

lemma EOT_before: "before tree ys \<Longrightarrow> bt_EOT tree = Inr (ys = [])"
  by (cases ys) (auto simp: before_def bt_EOT_def current_def)

lemma bt_walk_tree:
  "tree_at h None BT_NONE (bt_root tree) t \<Longrightarrow> distinct (addresses t) \<Longrightarrow> addresses t = xs @ ys \<Longrightarrow> before tree ys
    \<Longrightarrow> size t < fuel \<Longrightarrow> length ys < rounds \<Longrightarrow> bt_walk rounds fuel tree h = Inr (map (value_at h) ys)"
proof (induction ys arbitrary: xs rounds tree)
  case Nil
  then show ?case by (cases rounds) (auto simp: EOT_before)
next
  case (Cons b ys)
  obtain k where k: "rounds = Suc k" "length ys < k" using Cons.prems(6) by (cases rounds) auto
  have "b \<in> set_tree t" using Cons.prems(3) by (metis in_set_conv_decomp set_inorder)
  then obtain n where n: "h b = Some n" using tree_at_alive[OF Cons.prems(1)] by blast
  obtain c where c: "bt_GoNext fuel tree h = Inr (tree\<lparr> bt_current_node := c \<rparr>)" "before (tree\<lparr> bt_current_node := c \<rparr>) ys"
    using bt_GoNext_tree[OF Cons.prems(1-5)] by blast
  have "bt_walk k fuel (tree\<lparr> bt_current_node := c \<rparr>) h = Inr (map (value_at h) ys)"
    using Cons.IH[of "tree\<lparr> bt_current_node := c \<rparr>" "xs @ [b]" k] Cons.prems c(2) k(2) by simp
  then show ?case using k(1) c(1) EOT_before[OF Cons.prems(4)] GetCur_before[OF Cons.prems(4), of h n] n by simp
qed

subsection \<open>Destroying\<close>

definition without :: "nat set \<Rightarrow> 'v nodes \<Rightarrow> 'v nodes" where
  "without A h = (\<lambda>c. if c \<in> A then None else h c)"

lemma destroynode_tree:
  "tree_at h f d (Some a) t \<Longrightarrow> distinct (addresses t) \<Longrightarrow> size t < fuel
    \<Longrightarrow> bt_destroynode fuel h a = Inr (without (set_tree t) h)"
proof (induction t arbitrary: h f d a fuel)
  case (Node l b r)
  then obtain fu n where n: "fuel = Suc fu" "size l < fu" "size r < fu" "a = b" "h b = Some n"
      "tree_at h (Some b) BT_LEFT (bn_left n) l" "tree_at h (Some b) BT_RIGHT (bn_right n) r" by (cases fuel) auto
  have ds: "distinct (addresses l)" "distinct (addresses r)" "b \<notin> set_tree l" "b \<notin> set_tree r" "set_tree l \<inter> set_tree r = {}"
    using Node.prems(2) by auto
  let ?h1 = "without (set_tree l) h"
  have l: "(case bn_left n of None \<Rightarrow> Inr h | Some x \<Rightarrow> bt_destroynode fu h x) = Inr ?h1"
  proof (cases "bn_left n")
    case None
    then have "l = Leaf" using n(6) by (cases l) auto
    then show ?thesis using None by (simp add: without_def)
  next
    case (Some x)
    then show ?thesis using Node.IH(1)[of h "Some b" BT_LEFT x fu] n(2,6) ds(1) by simp
  qed
  have "tree_at ?h1 (Some b) BT_RIGHT (bn_right n) r"
    using n(7) ds(5) tree_at_cong[of r ?h1 h] by (metis disjoint_iff without_def)
  then have r: "(case bn_right n of None \<Rightarrow> Inr ?h1 | Some x \<Rightarrow> bt_destroynode fu ?h1 x) = Inr (without (set_tree r) ?h1)"
    using Node.IH(2)[of ?h1 "Some b" BT_RIGHT _ fu] n(3) ds(2) by (cases r) (auto simp: without_def)
  have c: "?h1 b = Some n" "without (set_tree r) ?h1 b = Some n" using ds n(5) by (auto simp: without_def)
  have "(without (set_tree r) ?h1)(b := None) = without (set_tree (Node l b r)) h" by (auto simp: without_def)
  then show ?case using n(1,4,5) l r c by simp
qed simp

subsection \<open>Duplicating\<close>

lemma ascending_last:
  assumes "order_compare cmp" and "ascending cmp (xs @ [v])" and "xs = us @ ws" and "ascending cmp (us @ v # ws)"
  shows "ws = []"
proof (rule ccontr)
  assume "ws \<noteq> []"
  then obtain w where "w \<in> set ws" by (cases ws) auto
  then have "cmp w v < 0" "cmp v w < 0" using assms(2-4) by (auto simp: ascending_def sorted_wrt_append)
  then show False using order_swap[OF assms(1), of v w] by simp
qed

lemma dup_loop_tree:
  assumes bt: "distinct (addresses t)" "size t < fuel" "int (size t) < INT_MAX"
    and asc: "ascending (bt_compare bt) (map (\<lambda>a. g (value_at h0 a)) (addresses t))"
    and g: "g = (case dupfunc of None \<Rightarrow> id | Some f \<Rightarrow> f)"
  shows "tree_at h None BT_NONE (bt_root bt) t \<Longrightarrow> addresses t = xs @ ys \<Longrightarrow> before bt ys
    \<Longrightarrow> \<forall>a \<in> set_tree t. h a = h0 a \<Longrightarrow> bt_rep h result t2 (map (\<lambda>a. g (value_at h0 a)) xs) \<Longrightarrow> bt_compare result = bt_compare bt
    \<Longrightarrow> set_tree t \<inter> set_tree t2 = {} \<Longrightarrow> length ys \<le> length addrs \<Longrightarrow> distinct addrs \<Longrightarrow> \<forall>a \<in> set addrs. h a = None
    \<Longrightarrow> length ys < rounds
    \<Longrightarrow> \<exists>c result' h' t'. dup_loop rounds fuel dupfunc (map Some addrs) bt result h = Inr (bt\<lparr> bt_current_node := c \<rparr>, result', h')
      \<and> bt_rep h' result' t' (map (\<lambda>a. g (value_at h0 a)) (addresses t)) \<and> (\<forall>a \<in> set_tree t. h' a = h0 a)
      \<and> bt_compare result' = bt_compare bt \<and> set_tree t \<inter> set_tree t' = {}"
  using asc
proof (induction ys arbitrary: xs rounds bt result h t2 addrs)
  case Nil
  then have "dup_loop rounds fuel dupfunc (map Some addrs) bt result h
      = Inr (bt\<lparr> bt_current_node := bt_current_node bt \<rparr>, result, h)"
    by (cases rounds) (auto simp: EOT_before)
  moreover have "xs = addresses t" using Nil.prems(2) by simp
  ultimately show ?case using Nil.prems(4-7) by blast
next
  case (Cons b ys)
  let ?w = "\<lambda>a. g (value_at h0 a)"
  obtain k a as where k: "rounds = Suc k" "length ys < k" "addrs = a # as"
    using Cons.prems(8,11) by (cases rounds; cases addrs) auto
  have b: "b \<in> set_tree t" using Cons.prems(2) by (metis in_set_conv_decomp set_inorder)
  then obtain n where n: "h b = Some n" using tree_at_alive[OF Cons.prems(1)] by blast
  have cur: "bt_GetCur bt h = Inr (value_at h0 b)"
    using GetCur_before[OF Cons.prems(3), of h n] n Cons.prems(4) b by (simp add: value_at_def)
  have len: "Suc (length xs + length ys) = size t" using size_addresses[of t] Cons.prems(2) by simp
  have o: "order_compare (bt_compare bt)" using Cons.prems(5,6) by (simp add: bt_rep_def)
  have ab: "ascending (bt_compare bt) (map ?w xs @ [?w b])"
    using Cons.prems(12) Cons.prems(2) by (auto simp: ascending_def sorted_wrt_append)
  have new: "\<forall>x \<in> set (map ?w xs). bt_compare result (?w b) x \<noteq> 0"
    using ab order_swap[OF o, of _ "?w b"] Cons.prems(6) by (auto simp: ascending_append)
  obtain us ws r1 h1 t1 where a: "map ?w xs = us @ ws" "bt_add fuel (Some a) result h (?w b) = Inr (0, r1, h1)"
      "bt_rep h1 r1 t1 (us @ ?w b # ws)" "\<forall>c. c \<notin> insert a (set_tree t2) \<longrightarrow> h1 c = h c"
      "set_tree t1 = insert a (set_tree t2)" "bt_compare r1 = bt_compare result"
    using bt_add_rep[OF Cons.prems(5), of fuel a "?w b"] new len bt(2,3) Cons.prems(10) k(3) by auto
  have "ws = []" using ascending_last[OF o ab a(1)] a(3,6) Cons.prems(6) by (simp add: bt_rep_def)
  then have rep1: "bt_rep h1 r1 t1 (map ?w (xs @ [b]))" using a(1,3) by simp
  have at: "a \<notin> set_tree t" using tree_at_alive[OF Cons.prems(1), of a] Cons.prems(10) k(3) by auto
  have same: "\<forall>c \<in> set_tree t. h1 c = h c" using a(4) at Cons.prems(7) by auto
  then have t1: "tree_at h1 None BT_NONE (bt_root bt) t" using tree_at_cong[of t h1 h] Cons.prems(1) by blast
  obtain c where c: "bt_GoNext fuel bt h1 = Inr (bt\<lparr> bt_current_node := c \<rparr>)" "before (bt\<lparr> bt_current_node := c \<rparr>) ys"
    using bt_GoNext_tree[OF t1 bt(1) Cons.prems(2,3) bt(2)] by blast
  have fresh: "\<forall>x \<in> set as. h1 x = None"
  proof
    fix x assume "x \<in> set as"
    then have "x \<noteq> a" "h x = None" using Cons.prems(9,10) k(3) by auto
    moreover have "x \<notin> set_tree t2"
      using tree_at_alive[OF bt_rep_tree(1)[OF Cons.prems(5)], of x] \<open>h x = None\<close> by auto
    ultimately show "h1 x = None" using a(4) by simp
  qed
  have "\<exists>c' result' h' t'. dup_loop k fuel dupfunc (map Some as) (bt\<lparr> bt_current_node := c \<rparr>) r1 h1
        = Inr (bt\<lparr> bt_current_node := c \<rparr>\<lparr> bt_current_node := c' \<rparr>, result', h')
      \<and> bt_rep h' result' t' (map ?w (addresses t)) \<and> (\<forall>a \<in> set_tree t. h' a = h0 a)
      \<and> bt_compare result' = bt_compare (bt\<lparr> bt_current_node := c \<rparr>) \<and> set_tree t \<inter> set_tree t' = {}"
  proof (rule Cons.IH[OF _ _ c(2) _ rep1])
    show "set_tree t \<inter> set_tree t1 = {}" using a(5) at Cons.prems(7) by auto
    show "\<forall>x \<in> set_tree t. h1 x = h0 x" using same Cons.prems(4) by simp
  qed (use t1 Cons.prems a(6) k fresh in simp_all)
  moreover have "dup_loop rounds fuel dupfunc (map Some addrs) bt result h
      = dup_loop k fuel dupfunc (map Some as) (bt\<lparr> bt_current_node := c \<rparr>) r1 h1"
    using k EOT_before[OF Cons.prems(3)] cur a(2) c(1) g by (cases dupfunc) simp_all
  ultimately show ?case by auto
qed

subsection \<open>Removing\<close>

text \<open>The node that is found, its subtrees, and that the search does not look below it.\<close>

lemma findnode_below:
  "tree_at h f d p t \<Longrightarrow> distinct (addresses t) \<Longrightarrow> bt_findnode fuel cmp h p key = Inr (Some a)
    \<Longrightarrow> \<exists>n l r. h a = Some n \<and> a \<in> set_tree t \<and> tree_at h (Some a) BT_LEFT (bn_left n) l \<and> tree_at h (Some a) BT_RIGHT (bn_right n) r
      \<and> set_tree r \<subseteq> set_tree t \<and> a \<notin> set_tree r \<and> size r < size t \<and> cmp key (bn_value n) = 0
      \<and> (\<forall>c k. c \<in> set_tree r \<longrightarrow> (\<forall>b. b \<noteq> c \<longrightarrow> k b = h b) \<longrightarrow> bt_findnode fuel cmp k p key = Inr (Some a))"
proof (induction t arbitrary: f d p fuel)
  case Leaf
  then show ?case by (cases fuel) auto
next
  case (Node lt b rt)
  obtain fu n where n: "fuel = Suc fu" "p = Some b" "h b = Some n"
      "tree_at h (Some b) BT_LEFT (bn_left n) lt" "tree_at h (Some b) BT_RIGHT (bn_right n) rt"
    using Node.prems(1,3) by (cases fuel) auto
  have ds: "distinct (addresses lt)" "distinct (addresses rt)" "b \<notin> set_tree lt" "b \<notin> set_tree rt" using Node.prems(2) by auto
  consider (eq) "cmp key (bn_value n) = 0" | (lt) "cmp key (bn_value n) < 0" | (gt) "cmp key (bn_value n) > 0" by linarith
  then show ?case
  proof cases
    case eq
    then have "a = b" using Node.prems(3) n by simp
    moreover have "bt_findnode fuel cmp k p key = Inr (Some a)" if "c \<in> set_tree rt" "\<forall>x. x \<noteq> c \<longrightarrow> k x = h x" for c k
    proof -
      have "k b = h b" using that ds(4) by auto
      then show ?thesis using n(1-3) eq \<open>a = b\<close> by simp
    qed
    ultimately show ?thesis using n ds(4) eq by (intro exI[of _ n] exI[of _ lt] exI[of _ rt]) auto
  next
    case lt
    then have "bt_findnode fu cmp h (bn_left n) key = Inr (Some a)" using Node.prems(3) n by (simp add: Let_def)
    then obtain m l r where m: "h a = Some m" "a \<in> set_tree lt" "tree_at h (Some a) BT_LEFT (bn_left m) l"
        "tree_at h (Some a) BT_RIGHT (bn_right m) r" "set_tree r \<subseteq> set_tree lt" "a \<notin> set_tree r" "size r < size lt"
        "cmp key (bn_value m) = 0" "\<forall>c k. c \<in> set_tree r \<longrightarrow> (\<forall>b. b \<noteq> c \<longrightarrow> k b = h b) \<longrightarrow> bt_findnode fu cmp k (bn_left n) key = Inr (Some a)"
      using Node.IH(1)[OF n(4) ds(1)] by blast
    have "bt_findnode fuel cmp k p key = Inr (Some a)" if c: "c \<in> set_tree r" "\<forall>x. x \<noteq> c \<longrightarrow> k x = h x" for c k
    proof -
      have "k b = h b" using c m(5) ds(3) by auto
      moreover have "bt_findnode fu cmp k (bn_left n) key = Inr (Some a)" using m(9) c by blast
      ultimately show ?thesis using n(1-3) lt by (simp add: Let_def)
    qed
    then show ?thesis using m by (intro exI[of _ m] exI[of _ l] exI[of _ r]) auto
  next
    case gt
    then have "bt_findnode fu cmp h (bn_right n) key = Inr (Some a)" using Node.prems(3) n by (simp add: Let_def)
    then obtain m l r where m: "h a = Some m" "a \<in> set_tree rt" "tree_at h (Some a) BT_LEFT (bn_left m) l"
        "tree_at h (Some a) BT_RIGHT (bn_right m) r" "set_tree r \<subseteq> set_tree rt" "a \<notin> set_tree r" "size r < size rt"
        "cmp key (bn_value m) = 0" "\<forall>c k. c \<in> set_tree r \<longrightarrow> (\<forall>b. b \<noteq> c \<longrightarrow> k b = h b) \<longrightarrow> bt_findnode fu cmp k (bn_right n) key = Inr (Some a)"
      using Node.IH(2)[OF n(5) ds(2)] by blast
    have "bt_findnode fuel cmp k p key = Inr (Some a)" if c: "c \<in> set_tree r" "\<forall>x. x \<noteq> c \<longrightarrow> k x = h x" for c k
    proof -
      have "k b = h b" using c m(5) ds(4) by auto
      moreover have "bt_findnode fu cmp k (bn_right n) key = Inr (Some a)" using m(9) c by blast
      ultimately show ?thesis using n(1-3) gt by (simp add: Let_def)
    qed
    then show ?thesis using m by (intro exI[of _ m] exI[of _ l] exI[of _ r]) auto
  qed
qed

lemma findnode_father:
  assumes "h a = Some n" and "k a = Some (n\<lparr> bn_father := x \<rparr>)" and "\<forall>b. b \<noteq> a \<longrightarrow> k b = h b"
  shows "bt_findnode fuel cmp k p key = bt_findnode fuel cmp h p key"
proof (induction fuel arbitrary: p)
  case (Suc fuel)
  show ?case
  proof (cases p)
    case (Some b)
    then show ?thesis using Suc assms by (cases "b = a"; cases "h b") (simp_all add: Let_def cell_def)
  qed simp
qed simp

lemma hd_addresses: "tree_at h f d (Some q) t \<Longrightarrow> hd (addresses t) \<in> set_tree t"
  using hd_in_set[of "addresses t"] by (cases t) auto

text \<open>A store in which the leftmost node of a subtree points to a freed node: freeing the subtree follows it.\<close>

lemma destroy_dangling:
  "tree_at h f d (Some p) t \<Longrightarrow> distinct (addresses t) \<Longrightarrow> \<forall>x \<in> set_tree t. x \<noteq> c \<longrightarrow> k x = h x
    \<Longrightarrow> c = hd (addresses t) \<Longrightarrow> k c = Some m \<Longrightarrow> bn_left m = Some q \<Longrightarrow> k q = None \<Longrightarrow> size t < fuel
    \<Longrightarrow> bt_destroynode fuel k p = Inl DanglingPtr"
proof (induction t arbitrary: f d p fuel)
  case (Node l b r)
  then obtain fu n where n: "fuel = Suc fu" "p = b" "h b = Some n" "size l < fu"
      "tree_at h (Some b) BT_LEFT (bn_left n) l" by (cases fuel) auto
  show ?case
  proof (cases l)
    case Leaf
    moreover obtain fu' where "fu = Suc fu'" using n(4) by (cases fu) auto
    ultimately show ?thesis using Node.prems n(1,2) by (simp add: cell_def)
  next
    case (Node l1 x l2)
    then have x: "bn_left n = Some x" using n(5) by simp
    have c: "c = hd (addresses l)" using Node.prems(4) Node by (simp add: hd_append)
    have ne: "b \<noteq> c"
    proof -
      have "c \<in> set_tree l" using hd_addresses[of h "Some b" BT_LEFT x l] n(5) x c by simp
      then show ?thesis using Node.prems(2) by auto
    qed
    have "bt_destroynode fu k x = Inl DanglingPtr"
      using Node.IH(1)[of "Some b" BT_LEFT x fu] n(4,5) x c Node.prems(2,3,5-7) by auto
    then show ?thesis using n(1-3) x ne Node.prems(3) by simp
  qed
qed simp

lemma go_left_hd: "tree_at h f d (Some x) t \<Longrightarrow> go_left fuel h x = Inr c \<Longrightarrow> c = hd (addresses t)"
proof (induction t arbitrary: f d x fuel)
  case (Node l b r)
  then obtain fu n where n: "fuel = Suc fu" "x = b" "h b = Some n" "tree_at h (Some b) BT_LEFT (bn_left n) l" by (cases fuel) auto
  show ?case
  proof (cases "bn_left n")
    case None
    then have "l = Leaf" using n(4) by (cases l) auto
    then show ?thesis using Node.prems(2) n None by simp
  next
    case (Some y)
    then have "addresses l \<noteq> []" using n(4) by (cases l) auto
    then show ?thesis using Node.IH(1)[of "Some b" BT_LEFT y fu] Node.prems(2) n Some by (simp add: hd_append)
  qed
qed simp

lemma leftmost_in:
  "tree_at h f d p t \<Longrightarrow> a \<in> set_tree t \<Longrightarrow> h a = Some n \<Longrightarrow> bn_right n = Some x \<Longrightarrow> go_left fuel h x = Inr c \<Longrightarrow> c \<in> set_tree t"
proof (induction t arbitrary: f d p)
  case (Node l b r)
  obtain nb where nb: "h b = Some nb" "tree_at h (Some b) BT_LEFT (bn_left nb) l" "tree_at h (Some b) BT_RIGHT (bn_right nb) r"
    using Node.prems(1) by auto
  consider "a = b" | "a \<in> set_tree l" | "a \<in> set_tree r" using Node.prems(2) by auto
  then show ?case
  proof cases
    case 1
    then have "tree_at h (Some b) BT_RIGHT (Some x) r" using nb Node.prems(3,4) by simp
    then have "c \<in> set_tree r" using go_left_hd[OF _ Node.prems(5)] hd_addresses by metis
    then show ?thesis by simp
  qed (use Node.IH(1)[OF nb(2) _ Node.prems(3-5)] Node.IH(2)[OF nb(3) _ Node.prems(3-5)] in simp_all)
qed simp

text \<open>
  After the removal of a node with two subtrees its left subtree is reachable twice; freeing the tree
  frees it and then follows the second link to it.
\<close>

lemma destroy_shared:
  assumes a: "h a = Some n" "bn_left n = Some q" "bn_right n = Some x" "go_left fu0 h x = Inr c" and c: "k c = Some m" "bn_left m = Some q"
  shows "tree_at h f d (Some p) t \<Longrightarrow> distinct (addresses t) \<Longrightarrow> a \<in> set_tree t
    \<Longrightarrow> \<forall>y \<in> set_tree t. y \<noteq> c \<longrightarrow> k y = h y \<Longrightarrow> size t < fuel \<Longrightarrow> bt_destroynode fuel k p = Inl DanglingPtr"
  using c(1)
proof (induction t arbitrary: f d p fuel k)
  case (Node l b r)
  then obtain fu nb where n: "fuel = Suc fu" "size l < fu" "size r < fu" "p = b" "h b = Some nb"
      "tree_at h (Some b) BT_LEFT (bn_left nb) l" "tree_at h (Some b) BT_RIGHT (bn_right nb) r" by (cases fuel) auto
  have ds: "distinct (addresses l)" "distinct (addresses r)" "b \<notin> set_tree l" "b \<notin> set_tree r" "set_tree l \<inter> set_tree r = {}"
    using Node.prems(2) by auto
  note in_l = leftmost_in[OF n(6) _ a(1,3,4)] and in_r = leftmost_in[OF n(7) _ a(1,3,4)]
  let ?k = "without (set_tree l) k"
  have left: "(case bn_left nb of None \<Rightarrow> Inr k | Some y \<Rightarrow> bt_destroynode fu k y) = Inr ?k" if "c \<notin> set_tree l"
  proof -
    have "tree_at k (Some b) BT_LEFT (bn_left nb) l"
      using n(6) that Node.prems(4) tree_at_cong[of l k h] by (metis Un_iff tree.set(2) insertCI)
    then show ?thesis using destroynode_tree[of k "Some b" BT_LEFT _ l fu] n(2) ds(1)
      by (cases l) (auto simp: without_def)
  qed
  consider (top) "a = b" | (left) "a \<in> set_tree l" | (right) "a \<in> set_tree r" using Node.prems(3) by auto
  then show ?case
  proof cases
    case top
    then have nb: "nb = n" using a(1) n(5) by simp
    have ch: "c = hd (addresses r)" "c \<in> set_tree r"
      using go_left_hd[of h "Some b" BT_RIGHT x r fu0 c] hd_addresses[of h "Some b" BT_RIGHT x r] n(7) nb a(3,4) by auto
    have cl: "c \<notin> set_tree l" "b \<noteq> c" using ch(2) ds by auto
    have kb: "k b = Some n" using Node.prems(4) cl(2) n(5) nb by simp
    have "q \<in> set_tree l" using n(6) nb a(2) by (cases l) auto
    moreover have "\<forall>z \<in> set_tree r. z \<noteq> c \<longrightarrow> ?k z = h z" using Node.prems(4) ds(5) by (auto simp: without_def)
    moreover have "?k c = Some m" using cl(1) Node.prems(6) by (simp add: without_def)
    ultimately have "bt_destroynode fu ?k x = Inl DanglingPtr"
      using destroy_dangling[of h "Some b" BT_RIGHT x r c ?k m q fu] n(3,7) nb a(3) ds(2) ch(1) c(2)
      by (simp add: without_def)
    then show ?thesis using n(1,4) kb left[OF cl(1)] a(3) ds(3) nb by (simp add: without_def)
  next
    case left
    then obtain y where y: "bn_left nb = Some y" using n(6) by (cases l) auto
    have "b \<noteq> c" using in_l[OF left] ds(3) by auto
    moreover have "bt_destroynode fu k y = Inl DanglingPtr"
      using Node.IH(1)[of "Some b" BT_LEFT y k fu] n(2,6) y ds(1) left Node.prems(4,6) by auto
    ultimately show ?thesis using n(1,4,5) y Node.prems(4) by simp
  next
    case right
    then obtain y where y: "bn_right nb = Some y" using n(7) by (cases r) auto
    have cr: "c \<in> set_tree r" using in_r[OF right] .
    then have cl: "c \<notin> set_tree l" "b \<noteq> c" using ds by auto
    have "\<forall>z \<in> set_tree r. z \<noteq> c \<longrightarrow> ?k z = h z" using Node.prems(4) ds(5) by (auto simp: without_def)
    then have "bt_destroynode fu ?k y = Inl DanglingPtr"
      using Node.IH(2)[of "Some b" BT_RIGHT y ?k fu] n(3,7) y ds(2) right Node.prems(6) cl(1) by (simp add: without_def)
    moreover have "?k b = Some nb" using Node.prems(4) cl(2) n(5) ds(3) by (simp add: without_def)
    ultimately show ?thesis using n(1,4,5) y left[OF cl(1)] Node.prems(4) cl(2) by simp
  qed
qed simp

subsection \<open>Properties\<close>

text \<open>C23: Under a comparison that is a total preorder, the tree is an ordered set. \<open>bt_add\<close> puts a new value
  into its place in the ascending sequence of the values and returns 0, or returns -1 and changes
  nothing when an equal value is there; \<open>bt_find\<close> then finds exactly the values of the sequence.
  No operation faults or runs for ever.\<close>

theorem bt_add_find_ordered_set:
  assumes "bt_rep h tree t vs" and "length vs + 1 < fuel" and "h a = None" and "int (length vs) < INT_MAX"
  shows "if \<exists>x \<in> set vs. bt_compare tree v x = 0 then bt_add fuel (Some a) tree h v = Inr (-1, tree, h)
    else \<exists>us ws tree' h' t'. vs = us @ ws \<and> bt_add fuel (Some a) tree h v = Inr (0, tree', h')
      \<and> bt_rep h' tree' t' (us @ v # ws) \<and> bt_getCount tree' = bt_getCount tree + 1
      \<and> (\<forall>key. bt_find fuel tree' h' key = Inr (find (\<lambda>x. bt_compare tree key x = 0) (us @ v # ws)))"
proof (cases "\<exists>x \<in> set vs. bt_compare tree v x = 0")
  case True
  then show ?thesis using bt_add_present[OF assms(1)] assms(2) by auto
next
  case False
  then obtain us ws tree' h' t' where u: "vs = us @ ws" "bt_add fuel (Some a) tree h v = Inr (0, tree', h')"
      "bt_rep h' tree' t' (us @ v # ws)" "bt_compare tree' = bt_compare tree"
    using bt_add_rep[OF assms(1) _ assms(3,4), of fuel v] assms(2) by auto
  have "bt_find fuel tree' h' key = Inr (find (\<lambda>x. bt_compare tree key x = 0) (us @ v # ws))" for key
    using bt_find_rep[OF u(3), of fuel key] assms(2) u(1,4) by simp
  moreover have "bt_getCount tree' = bt_getCount tree + 1"
    using u(1,3) assms(1) by (simp add: bt_getCount_def bt_rep_def)
  ultimately show ?thesis using False u by auto
qed

definition demo_tree :: "int bt_Tree" where
  "demo_tree = \<lparr> bt_root = Some 1, bt_compare = (-), bt_current_node = None, bt_count = 3 \<rparr>"

definition demo_nodes :: "int nodes" where
  "demo_nodes = [1 \<mapsto> \<lparr> bn_right = Some 3, bn_left = Some 2, bn_father = None, bn_direction = BT_NONE, bn_value = 20 \<rparr>,
     2 \<mapsto> \<lparr> bn_right = None, bn_left = None, bn_father = Some 1, bn_direction = BT_LEFT, bn_value = 10 \<rparr>,
     3 \<mapsto> \<lparr> bn_right = None, bn_left = None, bn_father = Some 1, bn_direction = BT_RIGHT, bn_value = 30 \<rparr>]"

lemma demo_tree_rep: "bt_rep demo_nodes demo_tree (Node (Node Leaf 2 Leaf) 1 (Node Leaf 3 Leaf)) [10, 20, 30]"
  by (auto simp: bt_rep_def demo_nodes_def demo_tree_def value_at_def ascending_def order_compare_def)

theorem bt_add_find_ordered_set_witness:
  "\<exists>us ws tree' h'. [10, 20, 30] = us @ ws \<and> bt_add 5 (Some 4) demo_tree demo_nodes 25 = Inr (0, tree', h')
     \<and> (\<forall>key. bt_find 5 tree' h' key = Inr (find (\<lambda>x. bt_compare demo_tree key x = 0) (us @ 25 # ws)))"
proof -
  have "\<not> (\<exists>x \<in> set [10, 20, 30]. bt_compare demo_tree 25 x = 0)" "demo_nodes 4 = None"
    by (simp_all add: demo_tree_def demo_nodes_def)
  then show ?thesis using bt_add_find_ordered_set[OF demo_tree_rep, of 5 4 25] by auto
qed

text \<open>C24: \<open>bt_GoFirst\<close>, \<open>bt_EOT\<close>, \<open>bt_GetCur\<close> and \<open>bt_GoNext\<close> visit the values in ascending order, each once,
  and the loop ends; \<open>bt_destroy\<close> frees exactly the nodes of the tree, each once.\<close>

theorem bt_iteration_in_order:
  assumes "bt_rep h tree t vs" and "length vs < fuel"
  shows "rbind (bt_GoFirst fuel tree h) (\<lambda>tree1. bt_walk fuel fuel tree1 h) = Inr vs
    \<and> (\<exists>h'. bt_destroy fuel tree h = Inr h' \<and> dom h' = dom h - set_tree t)"
proof
  obtain c where c: "bt_GoFirst fuel tree h = Inr (tree\<lparr> bt_current_node := c \<rparr>)" "before (tree\<lparr> bt_current_node := c \<rparr>) (addresses t)"
    using bt_GoFirst_rep[OF assms] by blast
  then show "rbind (bt_GoFirst fuel tree h) (\<lambda>tree1. bt_walk fuel fuel tree1 h) = Inr vs"
    using bt_walk_tree[of h "tree\<lparr> bt_current_node := c \<rparr>" t "[]" "addresses t" fuel fuel] bt_rep_tree[OF assms(1)] assms(2)
    by (simp add: size_addresses)
  have "bt_destroy fuel tree h = Inr (without (set_tree t) h)"
    using bt_rep_tree(1,2,4)[OF assms(1)] assms(2) destroynode_tree[of h None BT_NONE _ t fuel]
    by (cases t) (auto simp: bt_destroy_def without_def)
  moreover have "dom (without (set_tree t) h) = dom h - set_tree t" by (auto simp: without_def dom_def split: if_splits)
  ultimately show "\<exists>h'. bt_destroy fuel tree h = Inr h' \<and> dom h' = dom h - set_tree t" by blast
qed

theorem bt_iteration_in_order_witness:
  "rbind (bt_GoFirst 4 demo_tree demo_nodes) (\<lambda>tree1. bt_walk 4 4 tree1 demo_nodes) = Inr [10, 20, 30]"
  using bt_iteration_in_order[OF demo_tree_rep, of 4] by simp

text \<open>\<open>bt_dup\<close> returns a tree with the duplicates of all values in the same order, its nodes being new,
  and leaves the original tree with its nodes and its iterator as they were. The duplicates must be
  in ascending order themselves, which they are when no duplication function is given.\<close>

theorem bt_dup_copies:
  assumes rep: "bt_rep h bt t vs" and fuel: "length vs < fuel" "int (length vs) < INT_MAX"
    and g: "g = (case dupfunc of None \<Rightarrow> id | Some f \<Rightarrow> f)" and asc: "ascending (bt_compare bt) (map g vs)"
    and addrs: "length vs \<le> length addrs" "distinct addrs" "\<forall>a \<in> set addrs. h a = None"
  shows "\<exists>result h' t'. bt_dup fuel True (map Some addrs) dupfunc bt h = Inr (result, bt, h')
    \<and> bt_rep h' result t' (map g vs) \<and> bt_rep h' bt t vs \<and> set_tree t \<inter> set_tree t' = {}"
proof -
  note r = bt_rep_tree[OF rep]
  obtain c where c: "bt_GoFirst fuel bt h = Inr (bt\<lparr> bt_current_node := c \<rparr>)" "before (bt\<lparr> bt_current_node := c \<rparr>) (addresses t)"
    using bt_GoFirst_rep[OF rep fuel(1)] by blast
  let ?bt = "bt\<lparr> bt_current_node := c \<rparr>"
  let ?new = "\<lparr> bt_root = None, bt_compare = bt_compare bt, bt_current_node = None, bt_count = 0 \<rparr>"
  have vals: "map g vs = map (\<lambda>a. g (value_at h a)) (addresses t)" using r(3) by simp
  have o: "order_compare (bt_compare bt)" using rep by (simp add: bt_rep_def)
  have new: "bt_rep h ?new Leaf (map (\<lambda>a. g (value_at h a)) [])" using o by (simp add: bt_rep_def ascending_def)
  have "\<exists>c' result' h' t'. dup_loop fuel fuel dupfunc (map Some addrs) ?bt ?new h = Inr (?bt\<lparr> bt_current_node := c' \<rparr>, result', h')
      \<and> bt_rep h' result' t' (map (\<lambda>a. g (value_at h a)) (addresses t)) \<and> (\<forall>a \<in> set_tree t. h' a = h a)
      \<and> bt_compare result' = bt_compare ?bt \<and> set_tree t \<inter> set_tree t' = {}"
    by (rule dup_loop_tree[OF r(2) _ _ _ g _ _ c(2) _ new])
       (use fuel addrs r asc vals in \<open>simp_all add: size_addresses comp_def\<close>)
  then obtain c' result' h' t' where d: "dup_loop fuel fuel dupfunc (map Some addrs) ?bt ?new h = Inr (?bt\<lparr> bt_current_node := c' \<rparr>, result', h')"
      "bt_rep h' result' t' (map g vs)" "\<forall>a \<in> set_tree t. h' a = h a" "set_tree t \<inter> set_tree t' = {}"
    unfolding vals by blast
  let ?res = "result'\<lparr> bt_count := bt_count bt \<rparr>"
  have "bt_dup fuel True (map Some addrs) dupfunc bt h = Inr (?res, bt, h')"
    using c(1) d(1) by (simp add: bt_dup_def bt_create_def)
  moreover have "bt_rep h' ?res t' (map g vs)" using d(2) rep by (simp add: bt_rep_def)
  moreover have "bt_rep h' bt t vs"
    using rep d(3) tree_at_cong[of t h' h] tree_values_cong[of t h' h] unfolding bt_rep_def by metis
  ultimately show ?thesis using d(4) by blast
qed

theorem bt_dup_copies_witness:
  "\<exists>result h' t'. bt_dup 4 True (map Some [7, 8, 9]) None demo_tree demo_nodes = Inr (result, demo_tree, h')
     \<and> bt_rep h' result t' [10, 20, 30] \<and> set_tree t' \<inter> {1, 2, 3} = {}"
proof -
  have "ascending (bt_compare demo_tree) (map id [10, 20, 30])" "\<forall>a \<in> set [7, 8, 9]. demo_nodes a = None"
    by (simp_all add: demo_tree_def demo_nodes_def ascending_def)
  then show ?thesis using bt_dup_copies[OF demo_tree_rep, of 4 id None "[7, 8, 9]"] by (auto simp: Int_commute)
qed

text \<open>\<open>bt_remove\<close> does not remove: it returns TRUE and lowers the count, but the value is still found by
  every later search. When the node has two subtrees the left one becomes reachable twice, and
  destroying the tree then follows a pointer into it after it was freed.\<close>

theorem bt_remove_keeps_value:
  assumes rep: "bt_rep h tree t vs" and fuel: "length vs < fuel" and x: "x \<in> set vs" "bt_compare tree key x = 0"
    and max: "int (length vs) \<le> INT_MAX"
  shows "\<exists>a n h'. bt_remove fuel tree h key = Inr (True, tree\<lparr> bt_count := int (length vs) - 1 \<rparr>, h')
    \<and> h a = Some n \<and> bt_compare tree key (bn_value n) = 0
    \<and> bt_findnode fuel (bt_compare tree) h' (bt_root tree) key = Inr (Some a)
    \<and> (bn_left n \<noteq> None \<and> bn_right n \<noteq> None \<longrightarrow> bt_destroy fuel (tree\<lparr> bt_count := int (length vs) - 1 \<rparr>) h' = Inl DanglingPtr)"
proof -
  let ?cmp = "bt_compare tree"
  note r = bt_rep_tree[OF rep]
  have "bt_findnode fuel ?cmp h (bt_root tree) key = Inr (find (\<lambda>a. ?cmp key (value_at h a) = 0) (addresses t))"
    using rep fuel r(4) by (intro findnode_tree[OF r(1)]) (auto simp: bt_rep_def)
  moreover have "find (\<lambda>a. ?cmp key (value_at h a) = 0) (addresses t) \<noteq> None" using x r(3) by (auto simp: find_None_iff)
  ultimately obtain a where f: "bt_findnode fuel ?cmp h (bt_root tree) key = Inr (Some a)" by auto
  obtain n lt rt where n: "h a = Some n" "a \<in> set_tree t" "tree_at h (Some a) BT_LEFT (bn_left n) lt"
      "tree_at h (Some a) BT_RIGHT (bn_right n) rt" "set_tree rt \<subseteq> set_tree t" "a \<notin> set_tree rt" "size rt < size t"
      "?cmp key (bn_value n) = 0"
      "\<And>c k. c \<in> set_tree rt \<Longrightarrow> (\<forall>b. b \<noteq> c \<longrightarrow> k b = h b) \<Longrightarrow> bt_findnode fuel ?cmp k (bt_root tree) key = Inr (Some a)"
    using findnode_below[OF r(1,2) f] by blast
  have "vs \<noteq> []" using x(1) by auto
  then have c: "iadd (bt_count tree) (-1) = Inr (int (length vs) - 1)" using rep max by (cases vs) (auto simp: bt_rep_def in_int_def)
  show ?thesis
  proof (cases "bn_right n")
    case None
    let ?h = "h(a \<mapsto> n\<lparr> bn_father := bn_left n \<rparr>)"
    have "bt_remove fuel tree h key = Inr (True, tree\<lparr> bt_count := int (length vs) - 1 \<rparr>, ?h)"
      using f n(1) None c by (simp add: bt_remove_def modify_def)
    moreover have "bt_findnode fuel ?cmp ?h (bt_root tree) key = Inr (Some a)"
      using findnode_father[of h a n ?h "bn_left n", OF n(1)] f by simp
    ultimately show ?thesis using n(1,8) None by blast
  next
    case (Some y)
    have g: "go_left fuel h y = Inr (hd (addresses rt))"
      using go_left_tree[of h "Some a" BT_RIGHT y rt fuel] n(4,7) Some fuel r(4) by simp
    let ?c = "hd (addresses rt)"
    have cr: "?c \<in> set_tree rt" using hd_addresses n(4) Some by metis
    then obtain m where m: "h ?c = Some m" using tree_at_alive[OF n(4)] by blast
    let ?h = "h(?c \<mapsto> m\<lparr> bn_left := bn_left n \<rparr>)"
    have "bt_remove fuel tree h key = Inr (True, tree\<lparr> bt_count := int (length vs) - 1 \<rparr>, ?h)"
      using f n(1) Some g m c by (simp add: bt_remove_def modify_def)
    moreover have "bt_findnode fuel ?cmp ?h (bt_root tree) key = Inr (Some a)" using n(9)[OF cr, of ?h] by simp
    moreover have "bt_destroy fuel (tree\<lparr> bt_count := int (length vs) - 1 \<rparr>) ?h = Inl DanglingPtr" if left: "bn_left n \<noteq> None"
    proof -
      obtain q where q: "bn_left n = Some q" using left by (cases "bn_left n") auto
      obtain p where p: "bt_root tree = Some p" using r(1) n(2) by (cases t) auto
      have "bt_destroynode fuel ?h p = Inl DanglingPtr"
        by (rule destroy_shared[OF n(1) q Some g, of ?h "m\<lparr> bn_left := bn_left n \<rparr>" None BT_NONE p t])
           (use q r(1,2,4) p n(2) fuel in auto)
      then show ?thesis using p by (simp add: bt_destroy_def)
    qed
    ultimately show ?thesis using n(1,8) by blast
  qed
qed

theorem bt_remove_keeps_value_witness:
  "\<exists>a h'. bt_remove 4 demo_tree demo_nodes 20 = Inr (True, demo_tree\<lparr> bt_count := 2 \<rparr>, h')
     \<and> bt_findnode 4 (bt_compare demo_tree) h' (bt_root demo_tree) 20 = Inr (Some a)"
  using bt_remove_keeps_value[OF demo_tree_rep, of 4 20 20] by (auto simp: demo_tree_def)

end
