(* ===== verification/Sock.thy ===== *)
theory Sock
  imports File ThreadPool
begin

section \<open>Sockets\<close>

text \<open>
  \<open>src/sock.c\<close>: connections that deliver lines of text to a handler, servers, sending. What the operating
  system decides (names, sockets, connecting, threads, how much a write takes) is an argument. A
  handler is client code: a function of the event, the buffer behind the message pointer, which it may
  write, and the state of the thread, \<open>errno\<close> with the client's world.
\<close>

subsection \<open>State\<close>

datatype sock_Event = SOCK_CONNECTION | SOCK_MESSAGE | SOCK_OVERFLOW | SOCK_DISCONNECT | SOCK_CLOSED

datatype SocketType = ST_CONNECTION | ST_SERVER | ST_SERVCONN

type_synonym 'w thread_state = "int \<times> 'w"
type_synonym 'w sock_handler = "sock_Event \<Rightarrow> buffer \<Rightarrow> 'w thread_state \<Rightarrow> (buffer \<times> 'w thread_state) res"

text \<open>An address with its port, both in network byte order, and the three kinds of sockets.\<close>

type_synonym sockaddr_in = "32 word \<times> 16 word"

record ('h, 'd) t_Connection =
  cn_typ :: SocketType
  cn_socket :: int
  cn_data :: 'd
  cn_handler :: 'h
  cn_computer :: "string option"
  cn_addr :: sockaddr_in
  cn_buflen :: int

record ('h, 'd) t_Server =
  sv_typ :: SocketType
  sv_socket :: int
  sv_data :: 'd
  sv_handler :: 'h
  sv_addr :: sockaddr_in
  sv_connectionHandler :: 'h
  sv_threadPool :: sThreadPool

record ('h, 'd) t_ServerConn =
  sc_typ :: SocketType
  sc_socket :: int
  sc_data :: "'d option"
  sc_handler :: 'h
  sc_addr :: sockaddr_in
  sc_buflen :: int

abbreviation SOCK_THREADPOOL_SIZE :: nat where "SOCK_THREADPOOL_SIZE \<equiv> 5"
abbreviation BUFSIZE :: nat where "BUFSIZE \<equiv> 10000"
abbreviation EINTR :: int where "EINTR \<equiv> 4"
abbreviation EBADF :: int where "EBADF \<equiv> 9"
abbreviation ESPIPE :: int where "ESPIPE \<equiv> 29"

subsection \<open>The thread of a connection\<close>

text \<open>One round of the loop after a line was read: the buffer, the thread's state and \<open>done\<close>.\<close>

definition dispatch_line :: "'w sock_handler \<Rightarrow> int \<Rightarrow> buffer \<Rightarrow> 'w thread_state \<Rightarrow> (buffer \<times> 'w thread_state \<times> bool) res" where
  "dispatch_line handler err buf s =
     (if err = 0 then rbind (handler SOCK_MESSAGE buf s) (\<lambda>(buf1, s1). Inr (buf1, s1, False))
      else if err = EINTR then Inr (buf, s, False)
      else rbind (handler SOCK_DISCONNECT buf s) (\<lambda>(buf1, s1). Inr (buf1, s1, True)))"

function connection_loop :: "'w sock_handler \<Rightarrow> FILE \<Rightarrow> buffer \<Rightarrow> 'w thread_state \<Rightarrow> 'w thread_state res" where
  "connection_loop handler stream buf s =
     rbind (file_readLine BUFSIZE (fst s) stream buf) (\<lambda>(err, errno, stream1, buf1).
     rbind (dispatch_line handler err buf1 (errno, snd s)) (\<lambda>(buf2, s1, done).
     if fl_eof stream1 \<and> \<not> done then rbind (handler SOCK_DISCONNECT buf2 s1) (\<lambda>(buf3, s2). Inr s2)
     else if done then Inr s1
     else connection_loop handler stream1 buf2 s1))"
  by pat_completeness auto
termination
  by (relation "measure (\<lambda>(_, stream, _). length (fl_input stream))") (auto dest: readLine_consumes[rotated])

declare connection_loop.simps [simp del]

text \<open>The stream is what arrives on the socket; its buffer is not initialised.\<close>

definition ConnectionThreadFunc :: "bool \<Rightarrow> 'w sock_handler \<Rightarrow> read_event list \<Rightarrow> 'w thread_state \<Rightarrow> 'w thread_state res" where
  "ConnectionThreadFunc fdopened handler input s =
     rbind (rassert fdopened) (\<lambda>_.
     connection_loop handler \<lparr> fl_input = input, fl_eof = False \<rparr> (replicate BUFSIZE None) s)"

subsection \<open>Sending\<close>

text \<open>
  \<open>written\<close> is what \<open>write\<close> returned, \<open>None\<close> for minus one. The second component is what went out. A short
  write is only reported on the console.
\<close>

definition sock_send_binary :: "environment \<Rightarrow> nat option \<Rightarrow> int \<Rightarrow> string \<Rightarrow> (Error \<times> string) res" where
  "sock_send_binary env written socket msg =
     (case written of
        None \<Rightarrow>
          rbind (ErrNew (fst (env_errOk env)) (snd (env_errOk env)) ERR_SOCK 0 (env_reason env)
                   (''send_binary('' @ print_int socket @ '', '' @ [CHR 0x27] @ msg @ [CHR 0x27] @ '', '' @ print_int (int (length msg))
                    @ '') failed.'')) (\<lambda>error. Inr (error, []))
      | Some n \<Rightarrow> Inr (None, take n msg))"

definition sock_send :: "environment \<Rightarrow> nat option \<Rightarrow> int \<Rightarrow> string \<Rightarrow> (Error \<times> string) res" where
  "sock_send env written socket msg = sock_send_binary env written socket msg"

definition sock_setUserData :: "'d \<Rightarrow> ('h, 'd) t_ServerConn \<Rightarrow> ('h, 'd) t_ServerConn" where
  "sock_setUserData data c = c\<lparr> sc_data := Some data \<rparr>"

subsection \<open>Names, addresses and ports\<close>

unbundle bit_operations_syntax

text \<open>\<open>htons\<close> and \<open>ntohl\<close> of the target, which is little-endian.\<close>

definition htons :: "16 word \<Rightarrow> 16 word" where
  "htons w = push_bit 8 w OR drop_bit 8 w"

definition ntohl :: "32 word \<Rightarrow> 32 word" where
  "ntohl w = push_bit 24 w OR push_bit 16 (take_bit 8 (drop_bit 8 w)) OR push_bit 8 (take_bit 8 (drop_bit 16 w)) OR drop_bit 24 w"

text \<open>The first test compares the two constants, not the address: \<open>==\<close> binds tighter than \<open>&\<close>.\<close>

definition sock_ip_is_private :: "32 word \<Rightarrow> bool" where
  "sock_ip_is_private s_addr =
     (let topTwo = (ucast (drop_bit 16 (ntohl s_addr)) :: 16 word)
      in unat topTwo AND of_bool ((0xFF00 :: nat) = 0x0A00) \<noteq> 0
         \<or> (0xAC10 \<le> topTwo \<and> topTwo < 0xAC20)
         \<or> topTwo = 0xC0A8)"

text \<open>The text, and whether it is a new block that nobody frees.\<close>

definition voxi_sock_error :: "int \<Rightarrow> string \<times> bool" where
  "voxi_sock_error err =
     (if err = 1 then (''The specified host is unknown'', False)
      else if err = 4 then (''The requested name is valid, but it does not have an IP address'', False)
      else if err = 3 then (''A non-recoverable name server error occurred'', False)
      else if err = 2 then (''A temporary error occurred on an authoritative name server. Try again later.'', False)
      else (''Unknown h_error code: '' @ print_int err, True))"

subsection \<open>Connecting\<close>

text \<open>What the process holds: blocks, sockets, threads that read from a socket, thread pools.\<close>

record resources =
  rs_blocks :: nat
  rs_sockets :: "int list"
  rs_readers :: nat
  rs_pools :: nat

text \<open>
  The outcomes of connecting: whether the two blocks are granted, the address of the host or
  \<open>h_errno\<close>, the socket, the result of \<open>connect\<close> with \<open>errno\<close>, the result of creating the thread.
\<close>

record connect_outcome =
  co_malloc :: bool
  co_strdup :: bool
  co_host :: "int + 32 word"
  co_socket :: int
  co_connect :: "int \<times> int"
  co_thread :: int

text \<open>The exits: \<open>CONNECT_FAIL_2\<close> frees the connection, but not the name it holds.\<close>

definition connect_fail1 :: "Error \<Rightarrow> resources \<Rightarrow> (Error \<times> ('h, 'd) t_Connection option \<times> resources) res" where
  "connect_fail1 error rs = rbind (rassert (error \<noteq> None)) (\<lambda>_. Inr (error, None, rs))"

definition connect_fail2 :: "Error \<Rightarrow> resources \<Rightarrow> (Error \<times> ('h, 'd) t_Connection option \<times> resources) res" where
  "connect_fail2 error rs = connect_fail1 error (rs\<lparr> rs_blocks := rs_blocks rs - 1 \<rparr>)"

definition connect_fail3 :: "int \<Rightarrow> Error \<Rightarrow> resources \<Rightarrow> (Error \<times> ('h, 'd) t_Connection option \<times> resources) res" where
  "connect_fail3 fd error rs = connect_fail2 error (rs\<lparr> rs_sockets := remove1 fd (rs_sockets rs) \<rparr>)"

definition sock_error :: "environment \<Rightarrow> Error \<Rightarrow> string \<Rightarrow> Error res" where
  "sock_error env reason text1 = ErrNew (fst (env_errOk env)) (snd (env_errOk env)) ERR_SOCK 0 reason text1"

text \<open>From the socket on.\<close>

definition connect_socket ::
  "environment \<Rightarrow> connect_outcome \<Rightarrow> ('h, 'd) t_Connection \<Rightarrow> resources \<Rightarrow> (Error \<times> ('h, 'd) t_Connection option \<times> resources) res" where
  "connect_socket env out c rs =
     (let fd = co_socket out in
      if fd < 0 then rbind (sock_error env (env_reason env) ''Failed to create a TCP socket.'') (\<lambda>error. connect_fail2 error rs)
      else
        let c1 = c\<lparr> cn_socket := fd \<rparr>; rs1 = rs\<lparr> rs_sockets := fd # rs_sockets rs \<rparr> in
        if fst (co_connect out) \<noteq> 0 \<and> snd (co_connect out) \<noteq> EINTR
        then rbind (sock_error env (env_reason env) ''Failed to connect to the server.'') (\<lambda>error. connect_fail3 fd error rs1)
        else if co_thread out \<noteq> 0
        then rbind (sock_error env (env_reason env) ''Failed to create socket handling thread.'') (\<lambda>error. connect_fail3 fd error rs1)
        else Inr (None, Some c1, rs1\<lparr> rs_readers := rs_readers rs1 + 1 \<rparr>))"

definition sock_connect ::
  "environment \<Rightarrow> connect_outcome \<Rightarrow> string \<Rightarrow> 16 word \<Rightarrow> 'h \<Rightarrow> 'd \<Rightarrow> resources
    \<Rightarrow> (Error \<times> ('h, 'd) t_Connection option \<times> resources) res" where
  "sock_connect env out computer port readproc data rs =
     rbind (emalloc (co_malloc out) (fst (env_errOk env)) (snd (env_errOk env))) (\<lambda>(error, block).
     if error \<noteq> None
     then rbind (sock_error env error ''Failed to allocate memory for the connection'') (\<lambda>error. connect_fail1 error rs)
     else rbind (deref block) (\<lambda>_.
       (let rs1 = rs\<lparr> rs_blocks := rs_blocks rs + 1 + of_bool (co_strdup out) \<rparr> in
        case co_host out of
          Inl h_errno \<Rightarrow>
            rbind (ErrNew (fst (env_errOk env)) (snd (env_errOk env)) ERR_UNKNOWN 0 None (fst (voxi_sock_error h_errno))) (\<lambda>reason.
            rbind (sock_error env reason (''Failed to find the host '' @ [CHR 0x27] @ computer @ [CHR 0x27] @ ''.'')) (\<lambda>error.
            connect_fail2 error (rs1\<lparr> rs_blocks := rs_blocks rs1 + of_bool (snd (voxi_sock_error h_errno)) \<rparr>)))
        | Inr sin_addr \<Rightarrow>
            connect_socket env out
              \<lparr> cn_typ = ST_CONNECTION, cn_socket = -1, cn_data = data, cn_handler = readproc,
                cn_computer = (if co_strdup out then Some computer else None),
                cn_addr = (sin_addr, htons port), cn_buflen = 0 \<rparr> rs1)))"

text \<open>The reading thread is not told.\<close>

definition sock_disconnect :: "('h, 'd) t_Connection \<Rightarrow> resources \<Rightarrow> resources" where
  "sock_disconnect c rs =
     rs\<lparr> rs_sockets := remove1 (cn_socket c) (rs_sockets rs),
         rs_blocks := rs_blocks rs - (case cn_computer c of None \<Rightarrow> 0 | Some _ \<Rightarrow> 1) - 1 \<rparr>"

subsection \<open>Servers\<close>

record server_outcome =
  so_malloc :: bool
  so_attr :: int
  so_pool :: "bool \<times> Error \<times> thread_outcome list"
  so_socket :: int
  so_bind :: int
  so_getsockname :: "int \<times> sockaddr_in"
  so_listen :: int
  so_thread :: int

abbreviation INADDR_ANY :: "32 word" where "INADDR_ANY \<equiv> 0"

text \<open>Binding and naming: the error, the address with its port as the caller sees them.\<close>

definition bind_server ::
  "environment \<Rightarrow> server_outcome \<Rightarrow> 32 word \<Rightarrow> 16 word \<Rightarrow> (Error \<times> 32 word \<times> 16 word) res" where
  "bind_server env out address port =
     rbind (if so_bind out < 0 then sock_error env (env_reason env) (''Couldn'' @ [CHR 0x27] @ ''t bind socket'') else Inr None) (\<lambda>error.
     if error \<noteq> None \<or> \<not> (port = 0 \<or> address = INADDR_ANY) then Inr (error, address, port)
     else if fst (so_getsockname out) = 0
     then Inr (None, fst (snd (so_getsockname out)), snd (snd (so_getsockname out)))
     else rbind (rassert (fst (so_getsockname out) = -1)) (\<lambda>_.
          rbind (sock_error env (env_reason env) ''getsockname for new socket failed.'') (\<lambda>error. Inr (error, address, port))))"

definition listen_server :: "environment \<Rightarrow> server_outcome \<Rightarrow> Error \<Rightarrow> Error res" where
  "listen_server env out error =
     (if error \<noteq> None then Inr error
      else
        rbind (if so_listen out = -1 then sock_error env (env_reason env) (''Counldn'' @ [CHR 0x27] @ ''t listen'') else Inr None) (\<lambda>error1.
        if error1 \<noteq> None then Inr error1
        else if so_thread out \<noteq> 0
        then sock_error env (env_reason env) (''Couldn'' @ [CHR 0x27] @ ''t create listener thread'') else Inr None))"

text \<open>
  The error, the server, the address and port as returned. On an error the server's block is freed, but
  neither its thread pool nor the client's pointer to it is reset.
\<close>

definition sock_create_server ::
  "environment \<Rightarrow> server_outcome \<Rightarrow> 'h \<Rightarrow> 32 word \<Rightarrow> 16 word \<Rightarrow> 'h \<Rightarrow> 'd \<Rightarrow> resources
    \<Rightarrow> (Error \<times> ('h, 'd) t_Server option \<times> 32 word \<times> 16 word \<times> resources) res" where
  "sock_create_server env out serverproc address port connectionHandler userData rs =
     rbind (rguard NullDeref (so_malloc out)) (\<lambda>_.
     rbind (rassert (so_attr out = 0)) (\<lambda>_.
     (case so_pool out of (poolOk, mutexErr, threads) \<Rightarrow>
      rbind (threadPool_create (env_errOk env) poolOk mutexErr True threads) (\<lambda>(error, pool).
      if error \<noteq> None then Inr (error, None, address, port, rs)
      else rbind (deref pool) (\<lambda>p.
        (let rs1 = rs\<lparr> rs_pools := rs_pools rs + 1 \<rparr> in
         rbind (if so_socket out < 0 then sock_error env (env_reason env) (''Couldn'' @ [CHR 0x27] @ ''t create socket'')
                else Inr None) (\<lambda>error.
         if error \<noteq> None then Inr (error, None, address, port, rs1)
         else
           rbind (bind_server env out address port) (\<lambda>(error, address1, port1).
           rbind (listen_server env out error) (\<lambda>error1.
           if error1 \<noteq> None then Inr (error1, None, address1, port1, rs1)
           else Inr (None, Some \<lparr> sv_typ = ST_SERVER, sv_socket = so_socket out, sv_data = userData, sv_handler = serverproc,
                  sv_addr = (if port = 0 \<or> address = INADDR_ANY then snd (so_getsockname out) else (address, htons port)),
                  sv_connectionHandler = connectionHandler, sv_threadPool = p \<rparr>, address1, port1,
                  rs1\<lparr> rs_blocks := rs_blocks rs1 + 1, rs_sockets := so_socket out # rs_sockets rs1,
                       rs_readers := rs_readers rs1 + 1 \<rparr>))))))))))"

text \<open>
  One round of the accepting loop. The server's handler sees the new connection before a thread of the
  pool starts to read from it; \<open>func\<close> and \<open>conn\<close> name \<open>ConnectionThreadFunc\<close> and the connection.
\<close>

definition server_accept ::
  "bool \<times> bool \<Rightarrow> thread_outcome \<Rightarrow> int \<Rightarrow> sockaddr_in \<Rightarrow> bool
    \<Rightarrow> (sock_Event \<Rightarrow> 'd \<Rightarrow> ('h, 'e) t_ServerConn \<Rightarrow> 'w \<Rightarrow> (('h, 'e) t_ServerConn \<times> 'w) res) \<Rightarrow> nat \<Rightarrow> nat
    \<Rightarrow> ('h, 'd) t_Server \<Rightarrow> 'w \<Rightarrow> (('h, 'e) t_ServerConn \<times> nat \<times> ('h, 'd) t_Server \<times> 'w) res" where
  "server_accept errOk out new_fd addr mallocOk on_event func conn server w =
     (if new_fd = -1 then Inl AssertFailed
      else
        rbind (rassert mallocOk) (\<lambda>_.
        rbind (on_event SOCK_CONNECTION (sv_data server)
                \<lparr> sc_typ = ST_SERVCONN, sc_socket = new_fd, sc_data = None, sc_handler = sv_connectionHandler server,
                  sc_addr = addr, sc_buflen = 0 \<rparr> w) (\<lambda>(sc, w1).
        rbind (threadPool_runThread errOk out (Some func) (sv_threadPool server)) (\<lambda>(error, thread, p).
        rbind (rassert (error = None)) (\<lambda>_.
        rbind (deref thread) (\<lambda>a.
        rbind (start_thread a func conn p) (\<lambda>p1. Inr (sc, a, server\<lparr> sv_threadPool := p1 \<rparr>, w1))))))))"

subsection \<open>Reading lines without a stream\<close>

text \<open>
  The functions of the Windows build, which read the socket byte by byte. \<open>lastErr\<close> is what
  \<open>WSAGetLastError\<close> says when the peer has closed the connection. An interrupted read still counts as a
  byte. The loop over comments is cut off after \<open>fuel\<close> lines.
\<close>

abbreviation WSAEINTR :: int where "WSAEINTR \<equiv> 10004"

fun gets_loop :: "int \<Rightarrow> nat \<Rightarrow> nat \<Rightarrow> read_event list \<Rightarrow> buffer \<Rightarrow> (nat option \<times> read_event list \<times> buffer) res" where
  "gets_loop lastErr 0 n evs buf = Inr (Some n, evs, buf)"
| "gets_loop lastErr (Suc room) n [] buf =
     (if lastErr = WSAEINTR then gets_loop lastErr room (n + 1) [] buf else Inr (None, [], buf))"
| "gets_loop lastErr (Suc room) n (R_error e # evs) buf =
     (if e = WSAEINTR then gets_loop lastErr room (n + 1) evs buf else Inr (None, evs, buf))"
| "gets_loop lastErr (Suc room) n (R_byte c # evs) buf =
     rbind (write_slot buf (int n) c) (\<lambda>buf1.
     if c = NL then Inr (Some (n + 1), evs, buf1) else gets_loop lastErr room (n + 1) evs buf1)"

definition sock_gets :: "int \<Rightarrow> nat \<Rightarrow> read_event list \<Rightarrow> buffer \<Rightarrow> (bool \<times> read_event list \<times> buffer) res" where
  "sock_gets lastErr bufSize evs buf =
     rbind (gets_loop lastErr (bufSize - 1) 0 evs buf) (\<lambda>(r, evs1, buf1).
     (case r of
        None \<Rightarrow> Inr (False, evs1, buf1)
      | Some n \<Rightarrow> rbind (write_slot buf1 (int n) NUL) (\<lambda>buf2. Inr (True, evs1, buf2))))"

fun gets_skip :: "nat \<Rightarrow> int \<Rightarrow> nat \<Rightarrow> read_event list \<Rightarrow> buffer \<Rightarrow> (bool \<times> read_event list \<times> buffer) res" where
  "gets_skip 0 lastErr bufSize evs buf = Inl OutOfFuel"
| "gets_skip (Suc fuel) lastErr bufSize evs buf =
     rbind (sock_gets lastErr bufSize evs buf) (\<lambda>(ok, evs1, buf1).
     if \<not> ok then Inr (False, evs1, buf1)
     else rbind (read_slot buf1 0) (\<lambda>c.
       if c = CHR ''#'' then gets_skip fuel lastErr bufSize evs1 buf1 else Inr (True, evs1, buf1)))"

definition sock_readLine :: "nat \<Rightarrow> int \<Rightarrow> nat \<Rightarrow> read_event list \<Rightarrow> buffer \<Rightarrow> (int \<times> read_event list \<times> buffer) res" where
  "sock_readLine fuel lastErr bufSize evs buf =
     rbind (gets_skip fuel lastErr bufSize evs buf) (\<lambda>(ok, evs1, buf1).
     if \<not> ok then Inr (-1, evs1, buf1)
     else
       rbind (read_cstr buf1) (\<lambda>s.
       if s = [] then Inr (0, evs1, buf1)
       else
         rbind (strip_newlines buf1 (int (length s) - 1)) (\<lambda>lastIndex.
         rbind (write_slot buf1 (lastIndex + 1) NUL) (\<lambda>buf2. Inr (0, evs1, buf2)))))"

subsection \<open>What a client of a connection relies on\<close>

text \<open>
  A handler that works on the text of the message: what it does with it and with the disconnection,
  and what it leaves of the text in the buffer.
\<close>

text \<open>
  What the buffer holds after a line has been handled; and the end of the stream: with \<open>errno\<close> zero
  the text in the buffer counts as another message, then the handler hears of the end.
\<close>

definition stale :: "(string \<Rightarrow> string) \<Rightarrow> wire_line \<Rightarrow> string" where
  "stale left l = (case l of Comment s \<Rightarrow> line_left l | Message m k \<Rightarrow> left m)"

definition at_end ::
  "(string \<Rightarrow> 'w thread_state \<Rightarrow> 'w thread_state res) \<Rightarrow> ('w thread_state \<Rightarrow> 'w thread_state res)
    \<Rightarrow> string \<Rightarrow> 'w thread_state \<Rightarrow> 'w thread_state res" where
  "at_end on_line on_close left_over s = rbind (if fst s = 0 then on_line left_over s else Inr s) on_close"

locale line_client =
  fixes handler :: "'w sock_handler"
    and on_line :: "string \<Rightarrow> 'w thread_state \<Rightarrow> 'w thread_state res"
    and on_close :: "'w thread_state \<Rightarrow> 'w thread_state res"
    and left :: "string \<Rightarrow> string"
  assumes message: "read_cstr buf = Inr m \<Longrightarrow>
      \<exists>buf1. length buf1 = length buf \<and> read_cstr buf1 = Inr (left m)
        \<and> handler SOCK_MESSAGE buf s = rbind (on_line m s) (\<lambda>s1. Inr (buf1, s1))"
    and disconnect: "handler SOCK_DISCONNECT buf s = rbind (on_close s) (\<lambda>s1. Inr (buf, s1))"
begin

lemma loop_at_end:
  assumes "read_cstr buf = Inr m"
  shows "connection_loop handler \<lparr> fl_input = [], fl_eof = False \<rparr> buf s = at_end on_line on_close m s"
proof -
  obtain e w where s: "s = (e, w)" by (cases s)
  have r: "file_readLine BUFSIZE e \<lparr> fl_input = [], fl_eof = False \<rparr> buf = Inr (e, e, \<lparr> fl_input = [], fl_eof = True \<rparr>, buf)"
    by (subst readLine_eof) auto
  show ?thesis
  proof (cases "e = 0")
    case True
    obtain buf1 where "handler SOCK_MESSAGE buf s = rbind (on_line m s) (\<lambda>s1. Inr (buf1, s1))" using message[OF assms] by blast
    then show ?thesis unfolding s connection_loop.simps[of handler _ buf "(e, w)"] fst_conv snd_conv r
      using True disconnect by (cases "on_line m (0, w)"; cases "on_close (projr (on_line m (0, w)))")
        (simp_all add: s dispatch_line_def at_end_def split: prod.splits)
  next
    case False
    then show ?thesis unfolding s connection_loop.simps[of handler _ buf "(e, w)"] fst_conv snd_conv r
      using disconnect by (cases "on_close (e, w)") (auto simp: dispatch_line_def at_end_def)
  qed
qed

lemma loop_prefix:
  assumes "\<forall>l \<in> set ls. line_ok BUFSIZE l" and "length buf = BUFSIZE"
  shows "\<exists>b. length b = BUFSIZE \<and> (ls = [] \<longrightarrow> b = buf) \<and> (ls \<noteq> [] \<longrightarrow> (\<exists>s1. rfold on_line (messages ls) s = Inr s1) \<longrightarrow> read_cstr b = Inr (stale left (last ls)))
    \<and> connection_loop handler \<lparr> fl_input = bytes (concat (map line_text ls)) @ evs, fl_eof = False \<rparr> buf s
      = rbind (rfold on_line (messages ls) s) (connection_loop handler \<lparr> fl_input = evs, fl_eof = False \<rparr> b)"
  using assms
proof (induction ls arbitrary: buf s)
  case (Cons l ls)
  let ?f = "\<lparr> fl_input = bytes (concat (map line_text (l # ls))) @ evs, fl_eof = False \<rparr>"
  let ?g = "\<lparr> fl_input = bytes (concat (map line_text ls)) @ evs, fl_eof = False \<rparr>"
  obtain e w where s: "s = (e, w)" by (cases s)
  have input: "fl_input ?f = bytes (line_text l) @ bytes (concat (map line_text ls)) @ evs" by simp
  have ok: "line_ok BUFSIZE l" "\<forall>l \<in> set ls. line_ok BUFSIZE l" using Cons.prems(1) by auto
  show ?case
  proof (cases l)
    case (Comment c)
    obtain buf1 where b: "length buf1 = length buf" "read_cstr buf1 = Inr (line_left l)"
        "file_readLine BUFSIZE e ?f buf = file_readLine BUFSIZE e ?g buf1"
      using readLine_comment[of ?f c "bytes (concat (map line_text ls)) @ evs" BUFSIZE buf e] input ok Comment Cons.prems(2) by auto
    have "connection_loop handler ?f buf s = connection_loop handler ?g buf1 s"
      unfolding s connection_loop.simps[of handler ?f] connection_loop.simps[of handler ?g] fst_conv b(3) ..
    then show ?thesis using Cons.IH[OF ok(2), of buf1 s] Cons.prems(2) b(1,2) Comment by (auto simp: stale_def)
  next
    case (Message n k)
    obtain buf1 where b: "length buf1 = length buf" "read_cstr buf1 = Inr n"
        "file_readLine BUFSIZE e ?f buf = Inr (0, e, ?g, buf1)"
      using readLine_message[of ?f n k "bytes (concat (map line_text ls)) @ evs" BUFSIZE buf e] input ok Message Cons.prems(2) by auto
    obtain buf2 where h: "length buf2 = length buf1" "read_cstr buf2 = Inr (left n)"
        "handler SOCK_MESSAGE buf1 s = rbind (on_line n s) (\<lambda>s1. Inr (buf2, s1))" using message[OF b(2)] by blast
    have step: "connection_loop handler ?f buf s = rbind (on_line n s) (connection_loop handler ?g buf2)"
      unfolding s connection_loop.simps[of handler ?f] fst_conv b(3) using h(3) s
      by (cases "on_line n (e, w)") (simp_all add: dispatch_line_def)
    show ?thesis
    proof (cases "on_line n s")
      case (Inl f)
      then show ?thesis using step Message Cons.prems(2) by (intro exI[of _ buf]) simp
    next
      case (Inr s1)
      show ?thesis using Cons.IH[OF ok(2), of buf2 s1] Cons.prems(2) b(1) h(1,2) step Message Inr by (auto simp: stale_def)
    qed
  qed
qed auto

lemma loop_lines:
  assumes "\<forall>l \<in> set ls. line_ok BUFSIZE l" and "length buf = BUFSIZE" and "ls \<noteq> []"
  shows "connection_loop handler \<lparr> fl_input = bytes (concat (map line_text ls)), fl_eof = False \<rparr> buf s
    = rbind (rfold on_line (messages ls) s) (at_end on_line on_close (stale left (last ls)))"
  using loop_prefix[OF assms(1,2), of s "[]"] assms(3) loop_at_end
  by (cases "rfold on_line (messages ls) s") auto

lemma loop_empty_line:
  assumes "\<forall>l \<in> set ls. line_ok BUFSIZE l" and "length buf = BUFSIZE" and "k + 2 \<le> BUFSIZE"
  shows "connection_loop handler \<lparr> fl_input = bytes (concat (map line_text ls)) @ bytes (replicate k CR @ [NL]) @ evs, fl_eof = False \<rparr> buf s
    = rbind (rfold on_line (messages ls) s) (\<lambda>_. Inl OutOfBounds)"
proof -
  let ?e = "\<lparr> fl_input = bytes (replicate k CR @ [NL]) @ evs, fl_eof = False \<rparr>"
  obtain b where b: "length b = BUFSIZE" "connection_loop handler \<lparr> fl_input = bytes (concat (map line_text ls)) @ bytes (replicate k CR @ [NL]) @ evs, fl_eof = False \<rparr> buf s
      = rbind (rfold on_line (messages ls) s) (connection_loop handler ?e b)"
    using loop_prefix[OF assms(1,2), of s "bytes (replicate k CR @ [NL]) @ evs"] by blast
  have "connection_loop handler ?e b = (\<lambda>_. Inl OutOfBounds)"
  proof
    fix t :: "'w thread_state"
    have "file_readLine BUFSIZE (fst t) ?e b = Inl OutOfBounds" by (rule readLine_empty_line) (use assms(3) b(1) in auto)
    then show "connection_loop handler ?e b t = Inl OutOfBounds" by (subst connection_loop.simps) simp
  qed
  then show ?thesis using b(2) by simp
qed

end

subsection \<open>Properties\<close>

text \<open>Whole lines read from the socket directly are those read through a stream.\<close>

lemma gets_loop_line:
  assumes "NL \<notin> set s" and "length s < room" and "n + length s < length buf"
  shows "gets_loop lastErr room n (bytes (s @ [NL]) @ evs) buf
    = Inr (Some (n + length s + 1), evs, blit buf n (map Some (s @ [NL])))"
  using assms
proof (induction s arbitrary: room n buf)
  case Nil
  then obtain r where "room = Suc r" by (cases room) auto
  then show ?case using Nil by (simp add: write_slot_def blit_def upd_conv_take_nth_drop)
next
  case (Cons c s)
  then obtain r where "room = Suc r" by (cases room) auto
  moreover have "blit (buf[n := Some c]) (Suc n) (map Some (s @ [NL])) = blit buf n (map Some ((c # s) @ [NL]))"
    using Cons.prems(3) by (simp add: blit_def take_Suc_conv_app_nth)
  ultimately show ?case using Cons.prems Cons.IH[of r "Suc n" "buf[n := Some c]"] by (auto simp: write_slot_def)
qed

lemma sock_gets_line:
  assumes "NL \<notin> set s" and "length s + 2 \<le> n" and "n \<le> length buf"
  shows "sock_gets lastErr n (bytes (s @ [NL]) @ evs) buf = Inr (True, evs, blit buf 0 (map Some (s @ [NL, NUL])))"
proof -
  have "blit buf 0 (map Some ((s @ [NL]) @ [NUL])) = (blit buf 0 (map Some (s @ [NL])))[length s + 1 := Some NUL]"
    using blit_snoc[of 0 "map Some (s @ [NL])" buf "Some NUL"] assms(2,3) by simp
  then have "write_slot (blit buf 0 (map Some (s @ [NL]))) (int (length s + 1)) NUL = Inr (blit buf 0 (map Some (s @ [NL, NUL])))"
    using assms(2,3) unfolding write_slot_def by (simp add: nat_add_distrib)
  then show ?thesis using gets_loop_line[of s "n - 1" 0 buf lastErr evs] assms by (simp add: sock_gets_def)
qed

lemma skip_loops_agree:
  assumes "\<forall>c \<in> set cs. line_ok n (Comment c)" and "line_ok n (Message m k)" and "n \<le> length buf"
  shows "\<exists>b. skip_comments n errno \<lparr> fl_input = bytes (concat (map line_text (map Comment cs @ [Message m k]))) @ evs, fl_eof = False \<rparr> buf
      = Inr (True, errno, \<lparr> fl_input = evs, fl_eof = False \<rparr>, b)
    \<and> gets_skip (length cs + 1) lastErr n (bytes (concat (map line_text (map Comment cs @ [Message m k]))) @ evs) buf = Inr (True, evs, b)"
  using assms(1,3)
proof (induction cs arbitrary: buf)
  case Nil
  let ?s = "m @ replicate k CR"
  have ok: "NL \<notin> set ?s" "length ?s + 2 \<le> n" using assms(2) by auto
  let ?b = "blit buf 0 (map Some (?s @ [NL, NUL]))"
  have "read_slot ?b 0 = Inr (hd m)" using blit_front[of "?s @ [NL, NUL]" buf] ok(2) Nil.prems(2) assms(2)
    by (cases m) (auto simp: read_slot_def)
  then show ?case
    using fgets_line[of "\<lparr> fl_input = bytes (?s @ [NL]) @ evs, fl_eof = False \<rparr>" ?s evs n buf errno]
      sock_gets_line[of ?s n buf lastErr evs] ok Nil.prems(2) assms(2)
    by (intro exI[of _ ?b]) (subst skip_comments.simps, simp)
next
  case (Cons c cs)
  let ?s = "CHR ''#'' # c"
  let ?rest = "bytes (concat (map line_text (map Comment cs @ [Message m k]))) @ evs"
  have ok: "NL \<notin> set ?s" "length ?s + 2 \<le> n" using Cons.prems(1) by auto
  let ?b = "blit buf 0 (map Some (?s @ [NL, NUL]))"
  have r: "read_slot ?b 0 = Inr (CHR ''#'')" using blit_front[of "?s @ [NL, NUL]" buf] ok(2) Cons.prems(2) by (auto simp: read_slot_def)
  have len: "length ?b = length buf" using ok(2) Cons.prems(2) by (subst length_blit) auto
  have "skip_comments n errno \<lparr> fl_input = bytes (?s @ [NL]) @ ?rest, fl_eof = False \<rparr> buf
      = skip_comments n errno \<lparr> fl_input = ?rest, fl_eof = False \<rparr> ?b"
    using fgets_line[of "\<lparr> fl_input = bytes (?s @ [NL]) @ ?rest, fl_eof = False \<rparr>" ?s ?rest n buf errno] ok Cons.prems(2) r
    by (subst skip_comments.simps) simp
  moreover have "gets_skip (Suc (length cs + 1)) lastErr n (bytes (?s @ [NL]) @ ?rest) buf = gets_skip (length cs + 1) lastErr n ?rest ?b"
    using sock_gets_line[of ?s n buf lastErr ?rest] ok Cons.prems(2) r by simp
  ultimately show ?case using Cons.IH[of ?b] Cons.prems len by simp
qed

text \<open>On a text of whole lines the two ways to read a line, through a stream with \<open>file_readLine\<close> and
  from the socket with \<open>sock_readLine\<close>, agree: both skip the comments, return the message without its
  line end and leave the rest unread.\<close>

theorem readLine_variants_agree:
  assumes "\<forall>c \<in> set cs. line_ok n (Comment c)" and "line_ok n (Message m k)" and "n \<le> length buf"
  shows "\<exists>buf1. read_cstr buf1 = Inr m
    \<and> file_readLine n errno \<lparr> fl_input = bytes (concat (map line_text (map Comment cs @ [Message m k]))) @ evs, fl_eof = False \<rparr> buf
        = Inr (0, errno, \<lparr> fl_input = evs, fl_eof = False \<rparr>, buf1)
    \<and> sock_readLine (length cs + 1) lastErr n (bytes (concat (map line_text (map Comment cs @ [Message m k]))) @ evs) buf
        = Inr (0, evs, buf1)"
proof -
  let ?i = "bytes (concat (map line_text (map Comment cs @ [Message m k]))) @ evs"
  obtain b where b: "skip_comments n errno \<lparr> fl_input = ?i, fl_eof = False \<rparr> buf = Inr (True, errno, \<lparr> fl_input = evs, fl_eof = False \<rparr>, b)"
      "gets_skip (length cs + 1) lastErr n ?i buf = Inr (True, evs, b)" using skip_loops_agree[OF assms] by blast
  obtain buf1 where r: "read_cstr buf1 = Inr m" "file_readLine n errno \<lparr> fl_input = ?i, fl_eof = False \<rparr> buf
      = Inr (0, errno, \<lparr> fl_input = evs, fl_eof = False \<rparr>, buf1)"
    using readLine_after_comments[OF assms] by blast
  then obtain s where s: "read_cstr b = Inr s"
      "rbind (strip_newlines b (int (length s) - 1)) (\<lambda>i. write_slot b (i + 1) NUL) = Inr buf1"
    using b(1) by (auto simp: file_readLine_def res_iff)
  have "s \<noteq> []" using s(2) strip_newlines_all[of "[]" b] by auto
  then have "sock_readLine (length cs + 1) lastErr n ?i buf = Inr (0, evs, buf1)"
    unfolding sock_readLine_def b(2) using s by (auto simp: res_iff)
  then show ?thesis using r by blast
qed

theorem readLine_variants_agree_witness:
  "\<exists>buf1. read_cstr buf1 = Inr ''go'' \<and> sock_readLine 2 0 8 (bytes (''#a'' @ [NL] @ ''go'' @ [CR, NL]) @ [R_byte CHR ''x'']) (replicate 8 None)
     = Inr (0, [R_byte CHR ''x''], buf1)"
proof -
  have "\<forall>c \<in> set [''a'']. line_ok 8 (Comment c)" "line_ok 8 (Message ''go'' 1)" "(8 :: nat) \<le> length (replicate 8 (None :: char option))" by simp_all
  from readLine_variants_agree[OF this, of 0 "[R_byte CHR ''x'']" 0]
  show ?thesis by (auto simp: numeral_2_eq_2)
qed

text \<open>The lines of a text sent one by one; \<open>written\<close> says how much of a text a write takes.\<close>

fun send_lines :: "environment \<Rightarrow> (string \<Rightarrow> nat option) \<Rightarrow> int \<Rightarrow> string list \<Rightarrow> (Error list \<times> string) res" where
  "send_lines env written socket [] = Inr ([], [])"
| "send_lines env written socket (m # ms) =
     rbind (sock_send env (written m) socket m) (\<lambda>(error, out).
     rbind (send_lines env written socket ms) (\<lambda>(errors, outs). Inr (error # errors, out @ outs)))"

definition whole_writes :: "(string \<Rightarrow> nat option) \<Rightarrow> bool" where
  "whole_writes written \<longleftrightarrow> (\<forall>m. \<exists>n. written m = Some n \<and> length m \<le> n)"

lemma send_lines_whole:
  "whole_writes written \<Longrightarrow> send_lines env written socket ms = Inr (replicate (length ms) None, concat ms)"
proof (induction ms)
  case (Cons m ms)
  then obtain n where "written m = Some n" "length m \<le> n" by (auto simp: whole_writes_def)
  then show ?case using Cons by (simp add: sock_send_def sock_send_binary_def)
qed simp

text \<open>C25: Messages sent as lines, with comments between them and any number of carriage returns before the
  newlines, arrive: the reading thread ends, and it has passed each message to the handler once, without its line end and in the order they were
  sent, and at last has told it once of the disconnection. The one flaw is at the end: when \<open>errno\<close> is
  zero there, because the end of a file does not set it, what is left of the last line in the buffer is passed once more.\<close>

theorem sock_lines_delivered:
  assumes "line_client handler on_line on_close left" and "whole_writes written"
    and "\<forall>l \<in> set ls. line_ok BUFSIZE l" and "ls \<noteq> []"
  shows "rbind (send_lines env written socket (map line_text ls)) (\<lambda>(_, wire). ConnectionThreadFunc True handler (bytes wire) s)
    = rbind (rfold on_line (messages ls) s) (\<lambda>s1. rbind (if fst s1 = 0 then on_line (stale left (last ls)) s1 else Inr s1) on_close)"
  using line_client.loop_lines[OF assms(1,3) _ assms(4), of "replicate BUFSIZE None" s] send_lines_whole[OF assms(2)]
  by (simp add: ConnectionThreadFunc_def at_end_def[abs_def])

text \<open>A handler that keeps the lines it gets.\<close>

definition recorder :: "string list sock_handler" where
  "recorder what buf s =
     (if what = SOCK_MESSAGE then rbind (read_cstr buf) (\<lambda>m. Inr (buf, (fst s, snd s @ [m])))
      else Inr (buf, (fst s, snd s @ [''closed''])))"

interpretation rec: line_client recorder "\<lambda>m s. Inr (fst s, snd s @ [m])" "\<lambda>s. Inr (fst s, snd s @ [''closed''])" "\<lambda>m. m"
  by unfold_locales (auto simp: recorder_def)

theorem sock_lines_delivered_witness:
  "rbind (send_lines demo_env (\<lambda>m. Some (length m)) 3 (map line_text [Message ''one'' 0, Comment ''x'', Message ''two'' 1]))
     (\<lambda>(_, wire). ConnectionThreadFunc True recorder (bytes wire) (ESPIPE, [])) = Inr (ESPIPE, [''one'', ''two'', ''closed''])
   \<and> rbind (send_lines demo_env (\<lambda>m. Some (length m)) 3 (map line_text [Message ''one'' 0, Comment ''x'', Message ''two'' 1]))
     (\<lambda>(_, wire). ConnectionThreadFunc True recorder (bytes wire) (0, [])) = Inr (0, [''one'', ''two'', ''two'', ''closed''])"
proof -
  let ?ls = "[Message ''one'' 0, Comment ''x'', Message ''two'' 1]"
  have "whole_writes (\<lambda>m. Some (length m))" "\<forall>l \<in> set ?ls. line_ok BUFSIZE l" by (simp_all add: whole_writes_def)
  note d = sock_lines_delivered[OF rec.line_client_axioms this, of demo_env 3]
  show ?thesis using d[of "(ESPIPE, [])"] d[of "(0, [])"] by (simp add: stale_def)
qed

text \<open>C26: A peer that sends an empty line, or a line of carriage returns only, makes the reading thread read in front of
  its buffer: after the messages before it the thread goes wrong.\<close>

theorem empty_line_reads_before_buffer:
  assumes "line_client handler on_line on_close left" and "\<forall>l \<in> set ls. line_ok BUFSIZE l" and "k + 2 \<le> BUFSIZE"
  shows "ConnectionThreadFunc True handler (bytes (concat (map line_text ls)) @ bytes (replicate k CR @ [NL]) @ evs) s
    = rbind (rfold on_line (messages ls) s) (\<lambda>_. Inl OutOfBounds)"
  using line_client.loop_empty_line[OF assms(1,2) _ assms(3), of "replicate BUFSIZE None" evs s] by (simp add: ConnectionThreadFunc_def)

theorem empty_line_reads_before_buffer_witness:
  "ConnectionThreadFunc True recorder (bytes (''one'' @ [NL, NL])) (0, []) = Inl OutOfBounds"
  using empty_line_reads_before_buffer[OF rec.line_client_axioms, of "[Message ''one'' 0]" 0 "[]" "(0, [])"] by simp

text \<open>A write that takes only a part of a line is no error; the line runs into the next one.\<close>

lemma short_write_joins_lines:
  "rbind (send_lines demo_env (\<lambda>m. Some (if m = ''one'' @ [NL] then 1 else length m)) 3 [''one'' @ [NL], ''two'' @ [NL]])
     (\<lambda>(errors, wire). rbind (ConnectionThreadFunc True recorder (bytes wire) (ESPIPE, [])) (\<lambda>s. Inr (errors, snd s)))
   = Inr ([None, None], [''otwo'', ''closed''])"
  using rec.loop_lines[of "[Message ''otwo'' 0]" "replicate BUFSIZE None" "(ESPIPE, [])"]
  by (simp add: sock_send_def sock_send_binary_def ConnectionThreadFunc_def at_end_def)

text \<open>An address from its four bytes, as the network has them.\<close>

definition inet :: "8 word \<Rightarrow> 8 word \<Rightarrow> 8 word \<Rightarrow> 8 word \<Rightarrow> 32 word" where
  "inet a b c d = ucast a OR push_bit 8 (ucast b) OR push_bit 16 (ucast c) OR push_bit 24 (ucast d)"

lemma top_two: "(ucast (drop_bit 16 (ntohl (inet a b c d))) :: 16 word) = push_bit 8 (ucast a) OR ucast b"
proof (rule bit_word_eqI)
  fix n assume "n < LENGTH(16)"
  then show "bit (ucast (drop_bit 16 (ntohl (inet a b c d))) :: 16 word) n \<longleftrightarrow> bit (push_bit 8 (ucast a) OR ucast b :: 16 word) n"
    unfolding ntohl_def inet_def by (cases "n < 8") (auto simp: bit_simps dest: bit_imp_le_length)
qed

lemma unat_top_two: "unat (push_bit 8 (ucast a) OR ucast b :: 16 word) = unat (a :: 8 word) * 256 + unat (b :: 8 word)"
proof -
  have "push_bit 8 (ucast a) OR ucast b = push_bit 8 (ucast a) + (ucast b :: 16 word)"
    by (rule disjunctive_add_eq_or[symmetric], rule bit_word_eqI) (auto simp: bit_simps dest: bit_imp_le_length)
  moreover have l: "unat a < 256" "unat b < 256" using unsigned_less[of a] unsigned_less[of b] by simp_all
  moreover have "unat (ucast a :: 16 word) = unat a" "unat (ucast b :: 16 word) = unat b"
    using l by (simp_all add: unsigned_ucast_eq take_bit_nat_eq_self)
  ultimately show ?thesis by (simp add: push_bit_eq_mult unat_word_ariths)
qed

lemma private_range:
  assumes "b < 256"
  shows "44048 \<le> a * 256 + b \<and> a * 256 + b < 44064 \<longleftrightarrow> a = (172 :: nat) \<and> 16 \<le> b \<and> b < 32"
    and "a * 256 + b = 49320 \<longleftrightarrow> a = (192 :: nat) \<and> b = 168"
proof -
  show "44048 \<le> a * 256 + b \<and> a * 256 + b < 44064 \<longleftrightarrow> a = (172 :: nat) \<and> 16 \<le> b \<and> b < 32"
    using assms by (cases a "172 :: nat" rule: linorder_cases) auto
  show "a * 256 + b = 49320 \<longleftrightarrow> a = (192 :: nat) \<and> b = 168"
    using assms by (cases a "192 :: nat" rule: linorder_cases) auto
qed

text \<open>\<open>sock_ip_is_private\<close> recognises exactly 172.16.0.0/12 and 192.168.0.0/16. The third private range,
  10.0.0.0/8, is never recognised.\<close>

theorem sock_ip_is_private_exact:
  "sock_ip_is_private (inet a b c d) \<longleftrightarrow> a = 172 \<and> 16 \<le> b \<and> b < 32 \<or> a = 192 \<and> b = 168"
proof -
  let ?t = "push_bit 8 (ucast a) OR ucast b :: 16 word"
  have t: "unat ?t = unat a * 256 + unat b" by (rule unat_top_two)
  have l: "unat a < 256" "unat b < 256" using unsigned_less[of a] unsigned_less[of b] by simp_all
  have "sock_ip_is_private (inet a b c d) \<longleftrightarrow> (0xAC10 \<le> ?t \<and> ?t < 0xAC20) \<or> ?t = 0xC0A8"
    unfolding sock_ip_is_private_def Let_def top_two by simp
  also have "\<dots> \<longleftrightarrow> (44048 \<le> unat ?t \<and> unat ?t < 44064) \<or> unat ?t = 49320"
    by (simp add: word_le_nat_alt word_less_nat_alt word_unat_eq_iff)
  also have "\<dots> \<longleftrightarrow> unat a = 172 \<and> 16 \<le> unat b \<and> unat b < 32 \<or> unat a = 192 \<and> unat b = 168" 
    unfolding t using private_range[OF l(2)] by blast
  also have "\<dots> \<longleftrightarrow> a = 172 \<and> 16 \<le> b \<and> b < 32 \<or> a = 192 \<and> b = 168"
    by (simp add: word_le_nat_alt word_less_nat_alt word_unat_eq_iff)
  finally show ?thesis .
qed

subsection \<open>Resources\<close>

definition connects :: "connect_outcome \<Rightarrow> bool" where
  "connects out \<longleftrightarrow> (case co_host out of Inl _ \<Rightarrow> False | Inr _ \<Rightarrow> True) \<and> 0 \<le> co_socket out
     \<and> (fst (co_connect out) = 0 \<or> snd (co_connect out) = EINTR) \<and> co_thread out = 0"

definition name_leaks :: "connect_outcome \<Rightarrow> nat" where
  "name_leaks out = of_bool (co_strdup out)
     + (case co_host out of Inl h_errno \<Rightarrow> of_bool (snd (voxi_sock_error h_errno)) | Inr _ \<Rightarrow> 0)"

text \<open>\<open>sock_connect\<close> returns a connection whose socket is open and read by a thread, or an error, a NULL
  connection and no open socket; but each failed attempt keeps the copy of the host's name, and with an
  unknown resolver error its text too. Disconnecting gives back the socket and the blocks, and leaves the
  reading thread behind.\<close>

theorem sock_connect_resources:
  assumes "env_errOk env = (True, True)" and "co_malloc out"
  shows "\<exists>error c rs1. sock_connect env out computer port readproc data rs = Inr (error, c, rs1)
    \<and> (if connects out
       then error = None \<and> (\<exists>x. c = Some x \<and> cn_socket x = co_socket out \<and> cn_handler x = readproc \<and> cn_data x = data
              \<and> rs_sockets rs1 = co_socket out # rs_sockets rs \<and> rs_readers rs1 = rs_readers rs + 1
              \<and> sock_disconnect x rs1 = rs\<lparr> rs_readers := rs_readers rs + 1 \<rparr>)
       else error \<noteq> None \<and> c = None \<and> rs1 = rs\<lparr> rs_blocks := rs_blocks rs + name_leaks out \<rparr>)"
proof (cases "co_host out")
  case (Inl h_errno)
  then show ?thesis using assms
    by (simp add: sock_connect_def emalloc_def ErrNew_def sock_error_def connect_fail2_def connect_fail1_def Let_def connects_def name_leaks_def)
next
  case (Inr sin_addr)
  note defs = sock_connect_def emalloc_def ErrNew_def sock_error_def connect_socket_def connect_fail3_def connect_fail2_def
    connect_fail1_def Let_def connects_def name_leaks_def sock_disconnect_def
  consider "co_socket out < 0" | "0 \<le> co_socket out" "fst (co_connect out) \<noteq> 0 \<and> snd (co_connect out) \<noteq> EINTR"
    | "0 \<le> co_socket out" "fst (co_connect out) = 0 \<or> snd (co_connect out) = EINTR" "co_thread out \<noteq> 0"
    | "connects out" using Inr by (fastforce simp: connects_def)
  then show ?thesis
  proof cases
    case 4
    then show ?thesis using Inr assms by (cases "co_strdup out") (auto simp: defs)
  qed (use Inr assms in \<open>simp_all add: defs\<close>)
qed

definition demo_out :: connect_outcome where
  "demo_out = \<lparr> co_malloc = True, co_strdup = True, co_host = Inr (inet 192 168 0 1), co_socket = 5, co_connect = (-1, 111), co_thread = 0 \<rparr>"

definition no_resources :: resources where
  "no_resources = \<lparr> rs_blocks = 0, rs_sockets = [], rs_readers = 0, rs_pools = 0 \<rparr>"

theorem sock_connect_resources_witness:
  "\<exists>error. sock_connect demo_env demo_out ''host'' 80 recorder () no_resources = Inr (error, None, no_resources\<lparr> rs_blocks := 1 \<rparr>) \<and> error \<noteq> None"
proof -
  have "env_errOk demo_env = (True, True)" "co_malloc demo_out" by (simp_all add: demo_env_def demo_out_def)
  moreover have "\<not> connects demo_out" "name_leaks demo_out = 1" by (simp_all add: connects_def name_leaks_def demo_out_def)
  ultimately show ?thesis using sock_connect_resources[of demo_env demo_out "''host''" 80 recorder "()" no_resources]
    by (auto simp: no_resources_def)
qed

text \<open>
  A server on every interface: the port it returns is the one it was given with its bytes swapped. A
  server that cannot be bound leaves its thread pool behind.
\<close>

lemma sock_create_server_swaps_port:
  assumes "so_malloc out" and "so_attr out = 0" and "so_pool out = (True, None, threads)"
    and "threadPool_create (env_errOk env) True None True threads = Inr (None, Some p)"
    and "0 \<le> so_socket out" and "so_bind out = 0" and "so_getsockname out = (0, (INADDR_ANY, htons port))"
    and "so_listen out = 0" and "so_thread out = 0"
  shows "\<exists>server rs1. sock_create_server env out serverproc INADDR_ANY port connectionHandler userData rs
    = Inr (None, Some server, INADDR_ANY, htons port, rs1)"
  using assms by (simp add: sock_create_server_def bind_server_def listen_server_def Let_def)

lemma sock_create_server_leaks_pool:
  assumes "so_malloc out" and "so_attr out = 0" and "so_pool out = (True, None, threads)"
    and "threadPool_create (env_errOk env) True None True threads = Inr (None, Some p)" and "env_errOk env = (True, True)"
    and "0 \<le> so_socket out" and "so_bind out < 0"
  shows "\<exists>e. sock_create_server env out serverproc address port connectionHandler userData rs
    = Inr (Some e, None, address, port, rs\<lparr> rs_pools := rs_pools rs + 1 \<rparr>)"
  using assms by (simp add: sock_create_server_def bind_server_def listen_server_def sock_error_def ErrNew_def Let_def)

lemma htons_80: "htons 80 = 20480"
  by (simp add: htons_def)

end
