(* ===== verification/ErrText.thy ===== *)
theory ErrText
  imports StrBuf
begin

section \<open>Errors as text\<close>

text \<open>
  \<open>ErrToString\<close> of \<open>src/err.c\<close>: an error written into a string buffer, its blanks, line ends and quotes
  replaced by a percent sign and their code. Also the quoting formatter of the string buffers on a
  buffer that has room enough: what it appends, for every format.
\<close>

subsection \<open>The conversion\<close>

definition err_types :: "ErrType list" where
  "err_types =
     [ERR_UNKNOWN, ERR_ERRNO, ERR_OSERR, ERR_SOCK, ERR_APP, ERR_SND, ERR_MAC, ERR_FFT, ERR_BROKER, ERR_MEMORY, ERR_SHLIB,
      ERR_THREADING, ERR_TEXTRPC, ERR_STRBUF, ERR_LOOP, ERR_ISI_IDE, ERR_OOW, ERR_PARSER, ERR_JAVA_GENERIC, ERR_COOWA,
      ERR_WINSOCK, ERR_SPEECH_RECOGNITION, ERR_HTTP, ERR_IVR, ERR_WIN32, ERR_DRIVER, ERR_NUANCE, ERR_STATE_MACHINE,
      ERR_LOGGING, ERR_LLT, ERR_DIALOGIC_GLOBAL_CALL, ERR_DIALOGIC_CALL_CONTROL, ERR_DIALOGIC_DX, ERR_QUEUE, ERR_SSL,
      ERR_XTI, ERR_TCL, ERR_TCPIP, ERR_SIP, ERR_ICU, ERR_SQLITE, ERR_UPNP]"

text \<open>The number of an enumerator.\<close>

definition err_type_number :: "ErrType \<Rightarrow> int" where
  "err_type_number t = int (length (takeWhile (\<lambda>x. x \<noteq> t) err_types))"

definition err_quotes :: string where
  "err_quotes = '' '' @ [CHR 0x0A, CHR 0x0D, CHR 0x27]"

definition err_format :: string where
  "err_format = ''Error( %d %d '' @ [CHR 0x27] @ ''%s'' @ [CHR 0x27] @ '' ''"

definition then_do :: "(Error \<times> sStringBuffer) res \<Rightarrow> (sStringBuffer \<Rightarrow> (Error \<times> sStringBuffer) res) \<Rightarrow> (Error \<times> sStringBuffer) res" where
  "then_do m f = rbind m (\<lambda>(error, sb). if error \<noteq> None then Inr (error, sb) else f sb)"

primrec ErrToString :: "sError \<Rightarrow> environment \<Rightarrow> sStringBuffer \<Rightarrow> (Error \<times> sStringBuffer) res"
  and ErrToStringReason :: "sError option \<Rightarrow> environment \<Rightarrow> sStringBuffer \<Rightarrow> (Error \<times> sStringBuffer) res"
where
  "ErrToString (SError t n d r) env sb =
     then_do (strbuf_sprintfQuoteSubstrings env err_quotes err_format [Arg_d (err_type_number t), Arg_d n, Arg_s d] sb) (\<lambda>sb1.
     then_do (ErrToStringReason r env sb1) (\<lambda>sb2. strbuf_sprintf env '' )'' [] sb2))"
| "ErrToStringReason None env sb = strbuf_sprintf env ''NULL'' [] sb"
| "ErrToStringReason (Some e) env sb = ErrToString e env sb"

subsection \<open>What a format stands for, with quoting\<close>

definition quote_text :: "string \<Rightarrow> string \<Rightarrow> string" where
  "quote_text q s = concat (map (\<lambda>c. if c = CHR ''%'' \<or> c \<in> set q then take 3 (quoted c) else [c]) s)"

definition conv_text :: "string option \<Rightarrow> string \<Rightarrow> string" where
  "conv_text q s = (case q of None \<Rightarrow> s | Some q \<Rightarrow> quote_text q s)"

fun expandq :: "string option \<Rightarrow> string \<Rightarrow> fmt_arg list \<Rightarrow> string option" where
  "expandq q [] args = Some []"
| "expandq q [c] args = (if c = CHR ''%'' then None else Some [c])"
| "expandq q (c # d # cs) args =
     (if c = CHR ''%'' then
        if d = CHR ''d'' then (case args of Arg_d i # args' \<Rightarrow> map_option ((@) (print_int i)) (expandq q cs args') | _ \<Rightarrow> None)
        else if d = CHR ''s'' then (case args of Arg_s s # args' \<Rightarrow> map_option ((@) (conv_text q s)) (expandq q cs args') | _ \<Rightarrow> None)
        else None
      else map_option ((#) c) (expandq q (d # cs) args))"

text \<open>The room a quoted character takes for a moment: a percent sign, eight digits, a letter and the NUL.\<close>

abbreviation QUOTE_ROOM :: nat where "QUOTE_ROOM \<equiv> 11"

lemma hex_digits_length:
  assumes "n < 16 ^ Suc k"
  shows "length (hex_digits n) \<le> Suc k \<and> 0 < length (hex_digits n)"
  using assms
proof (induction k arbitrary: n)
  case 0
  then show ?case by (simp add: hex_digits.simps)
next
  case (Suc k)
  have "n div 16 < 16 ^ Suc k" using Suc.prems by (simp add: less_mult_imp_div_less mult.commute)
  then show ?case using Suc.IH[of "n div 16"] by (subst hex_digits.simps, subst (2) hex_digits.simps) auto
qed

lemma quoted_length: "4 \<le> length (quoted c) \<and> length (quoted c) < QUOTE_ROOM"
proof -
  have "(of_char c :: nat) < 256" by simp
  then have "(if (of_char c :: nat) < 128 then (of_char c :: nat) else of_char c + 4294967040) < 16 ^ Suc 7" by simp
  from hex_digits_length[OF this] show ?thesis by (auto simp: quoted_def Let_def Suc_le_eq)
qed

lemma quoted_take3: "length (take 3 (quoted c)) = 3"
  using quoted_length[of c] by simp

lemma quote_text_longer: "length s \<le> length (quote_text q s)"
proof (induction s)
  case (Cons c s)
  have "length (quote_text q (c # s)) = (if c = CHR ''%'' \<or> c \<in> set q then 3 else 1) + length (quote_text q s)"
    using quoted_take3[of c] by (simp add: quote_text_def)
  then show ?case using Cons by simp
qed (simp add: quote_text_def)

lemma advance_more:
  assumes "sb_rep sb xs" and "n \<le> length s" and "length s \<le> sb_bufferRemaining sb"
  shows "\<exists>sb'. advance n s sb = Inr sb' \<and> sb_rep sb' (xs @ take n s) \<and> sb_bufferSize sb' = sb_bufferSize sb"
proof -
  have r: "sb_cursor sb = length xs" "take (length xs) (sb_string sb) = map Some xs" "length xs + length s \<le> length (sb_string sb)"
      "length xs \<le> length (sb_string sb)" using assms by (auto simp: sb_rep_def)
  obtain b where b: "put_bytes (sb_string sb) (length xs) s = Inr b" "length b = length (sb_string sb)"
      "take (length (xs @ s)) b = map Some (xs @ s)"
    using put_bytes_rep[of xs s "sb_string sb"] r by auto
  have "take (length xs + n) b = map Some (xs @ take n s)" using take_shorter[OF b(3), of "length xs + n"] assms(2) by (simp add: take_map)
  then have "sb_rep (sb\<lparr> sb_string := b, sb_cursor := length xs + n, sb_bufferRemaining := size_sub (sb_bufferRemaining sb) n \<rparr>) (xs @ take n s)"
    using assms b(2) by (simp add: sb_rep_def min_def)
  then show ?thesis using r(1) b(1) by (simp add: advance_def)
qed

lemma quote_loop_fits:
  "sb_rep sb xs \<Longrightarrow> length (quote_text q s) + QUOTE_ROOM \<le> sb_bufferRemaining sb
    \<Longrightarrow> \<exists>sb'. quote_loop env q s sb = Inr (None, sb') \<and> sb_rep sb' (xs @ quote_text q s) \<and> sb_bufferSize sb' = sb_bufferSize sb"
proof (induction s arbitrary: sb xs)
  case Nil
  then show ?case by (simp add: quote_text_def)
next
  case (Cons c s)
  have remain: "length xs + sb_bufferRemaining sb = sb_bufferSize sb" using Cons.prems(1) by (simp add: sb_rep_def)
  note shorter = quote_text_longer[of s q]
  show ?case
  proof (cases "c = CHR ''%'' \<or> c \<in> set q")
    case True
    note l = quoted_take3[of c]
    then have room: "length (quote_text q s) + 3 + QUOTE_ROOM \<le> sb_bufferRemaining sb"
      using Cons.prems(2) True by (simp add: quote_text_def)
    obtain sb1 where a: "advance 3 (quoted c @ [NUL]) sb = Inr sb1" "sb_rep sb1 (xs @ take 3 (quoted c))" "sb_bufferSize sb1 = sb_bufferSize sb"
      using advance_more[OF Cons.prems(1), of 3 "quoted c @ [NUL]"] quoted_length[of c] room by auto
    have "length (quote_text q s) + QUOTE_ROOM \<le> sb_bufferRemaining sb1" using a(2,3) remain room l by (simp add: sb_rep_def)
    from Cons.IH[OF a(2) this] show ?thesis using a(1,3) True room shorter by (auto simp: quote_text_def Let_def)
  next
    case False
    then have room: "length (quote_text q s) + 1 + QUOTE_ROOM \<le> sb_bufferRemaining sb" using Cons.prems(2) by (simp add: quote_text_def)
    obtain sb1 where a: "advance 1 [c] sb = Inr sb1" "sb_rep sb1 (xs @ [c])" "sb_bufferSize sb1 = sb_bufferSize sb"
      using advance_rep[OF Cons.prems(1), of "[c]"] room by auto
    have "length (quote_text q s) + QUOTE_ROOM \<le> sb_bufferRemaining sb1" using a(2,3) remain room by (simp add: sb_rep_def)
    from Cons.IH[OF a(2) this] show ?thesis using a(1,3) False by (auto simp: quote_text_def Let_def)
  qed
qed

lemma enlarge_none: "n < sb_bufferRemaining sb \<Longrightarrow> strbuf_enlarge env n sb = Inr (None, sb)"
  by (simp add: strbuf_enlarge_def)

lemma append_text_fits:
  assumes "sb_rep sb xs" and "length s + QUOTE_ROOM \<le> sb_bufferRemaining sb"
  shows "\<exists>sb'. append_text env s sb = Inr (None, sb') \<and> sb_rep sb' (xs @ s) \<and> sb_bufferSize sb' = sb_bufferSize sb"
proof -
  have "append_text env s sb = rbind (advance (length s) (s @ [NUL]) sb) (\<lambda>sb1. Inr (None, sb1))"
    using assms(2) by (simp add: append_text_def enlarge_none advance_def rbind_assoc)
  then show ?thesis using advance_more[OF assms(1), of "length s" "s @ [NUL]"] assms(2) by auto
qed

lemma append_string_fits:
  assumes "sb_rep sb xs" and "length (conv_text q s) + QUOTE_ROOM \<le> sb_bufferRemaining sb"
  shows "\<exists>sb'. append_string env q s sb = Inr (None, sb') \<and> sb_rep sb' (xs @ conv_text q s) \<and> sb_bufferSize sb' = sb_bufferSize sb"
proof (cases q)
  case None
  then show ?thesis using append_text_fits[OF assms(1), of s env] assms(2) by (simp add: append_string_def conv_text_def)
next
  case (Some k)
  then show ?thesis using quote_text_longer[of s k] quote_loop_fits[OF assms(1), of k s env] assms(2) by (simp add: append_string_def conv_text_def enlarge_none)
qed

lemma append_char_fits:
  assumes "sb_rep sb xs" and "0 < sb_bufferRemaining sb"
  shows "\<exists>sb'. append_char env c sb = Inr (None, sb') \<and> sb_rep sb' (xs @ [c]) \<and> sb_bufferSize sb' = sb_bufferSize sb"
  using advance_rep[OF assms(1), of "[c]"] assms(2) by (auto simp: append_char_def)

lemma format_loop_fits:
  "sb_rep sb xs \<Longrightarrow> expandq q fmt args = Some ys \<Longrightarrow> length ys + QUOTE_ROOM \<le> sb_bufferRemaining sb
    \<Longrightarrow> \<exists>sb'. format_loop env q fmt args sb = Inr (None, sb') \<and> sb_rep sb' (xs @ ys) \<and> sb_bufferSize sb' = sb_bufferSize sb"
proof (induction env q fmt args sb arbitrary: xs ys rule: format_loop.induct)
  case (2 env q c args sb)
  then show ?case using append_char_fits[OF "2.prems"(1), of env c] by (auto split: if_splits)
next
  case (3 env q c d cs args sb)
  have remain: "length xs + sb_bufferRemaining sb = sb_bufferSize sb" using "3.prems"(1) by (simp add: sb_rep_def)
  show ?case
  proof (cases "c = CHR ''%''")
    case False
    then obtain r where r: "expandq q (d # cs) args = Some r" "ys = c # r" using "3.prems"(2) by auto
    obtain sb1 where s: "append_char env c sb = Inr (None, sb1)" "sb_rep sb1 (xs @ [c])" "sb_bufferSize sb1 = sb_bufferSize sb"
      using append_char_fits[OF "3.prems"(1), of env c] "3.prems"(3) by auto
    have "length r + QUOTE_ROOM \<le> sb_bufferRemaining sb1" using s(2,3) remain "3.prems"(3) r(2) by (simp add: sb_rep_def)
    from "3.IH"(2)[OF False s(1) refl _ s(2) r(1) this] show ?thesis using False s(1,3) r(2) by simp
  next
    case True
    obtain a args' r where a: "expandq q cs args' = Some r" "ys = a @ r"
        "\<exists>sb1. convert env q d args sb = Inr (args', None, sb1) \<and> sb_rep sb1 (xs @ a) \<and> sb_bufferSize sb1 = sb_bufferSize sb"
    proof (cases "d = CHR ''d''")
      case d: True
      then obtain i args' r where r: "args = Arg_d i # args'" "expandq q cs args' = Some r" "ys = print_int i @ r"
        using "3.prems"(2) True by (auto split: list.splits fmt_arg.splits)
      then show ?thesis using that[of args' r "print_int i"] append_text_fits[OF "3.prems"(1), of "print_int i" env] "3.prems"(3) d
        by (fastforce simp: convert_def)
    next
      case d: False
      then obtain s args' r where r: "d = CHR ''s''" "args = Arg_s s # args'" "expandq q cs args' = Some r" "ys = conv_text q s @ r"
        using "3.prems"(2) True by (auto split: list.splits fmt_arg.splits if_splits)
      then show ?thesis using that[of args' r "conv_text q s"] append_string_fits[OF "3.prems"(1), of q s env] "3.prems"(3) d
        by (fastforce simp: convert_def)
    qed
    then obtain sb1 where s: "convert env q d args sb = Inr (args', None, sb1)" "sb_rep sb1 (xs @ a)" "sb_bufferSize sb1 = sb_bufferSize sb" by blast
    have "length r + QUOTE_ROOM \<le> sb_bufferRemaining sb1" using s(2,3) remain "3.prems"(3) a(2) by (simp add: sb_rep_def)
    from "3.IH"(1)[OF True s(1) refl refl _ s(2) a(1) this] show ?thesis using True s(1,3) a(2) by simp
  qed
qed auto

lemma sprintf_fits:
  assumes "sb_rep sb xs" and "expandq q format args = Some ys" and "length ys + QUOTE_ROOM \<le> sb_bufferRemaining sb"
  shows "\<exists>sb'. strbuf_sprintfQuoteSubstrings2 env q format args sb = Inr (None, sb') \<and> sb_rep sb' (xs @ ys)
    \<and> sb_bufferRemaining sb' = sb_bufferRemaining sb - length ys \<and> (NUL \<notin> set (xs @ ys) \<longrightarrow> strbuf_getString sb' = Inr (xs @ ys))"
proof -
  obtain sb1 where s: "format_loop env q format args sb = Inr (None, sb1)" "sb_rep sb1 (xs @ ys)" "sb_bufferSize sb1 = sb_bufferSize sb"
    using format_loop_fits[OF assms] by blast
  have r: "sb_cursor sb1 = length (xs @ ys)" "length (xs @ ys) + 1 \<le> length (sb_string sb1)" "sb_bufferRemaining sb1 = sb_bufferRemaining sb - length ys"
      "take (length (xs @ ys)) (sb_string sb1) = map Some (xs @ ys)"
    using s(2,3) assms(1,3) by (auto simp: sb_rep_def)
  obtain b where b: "put_bytes (sb_string sb1) (length (xs @ ys)) [NUL] = Inr b" "length b = length (sb_string sb1)"
      "take (Suc (length (xs @ ys))) b = map Some ((xs @ ys) @ [NUL])"
    using put_bytes_rep[of "xs @ ys" "[NUL]" "sb_string sb1"] r by auto
  let ?sb = "sb1\<lparr> sb_string := b \<rparr>"
  have rep: "sb_rep ?sb (xs @ ys)" using s(2) b(2) take_shorter[OF b(3), of "length (xs @ ys)"] by (simp add: sb_rep_def)
  have "strbuf_sprintfQuoteSubstrings2 env q format args sb = Inr (None, ?sb)"
    using s(1) r(1) b(1) sb_assert_rep[OF rep] by (simp add: strbuf_sprintfQuoteSubstrings2_def Let_def)
  moreover have "NUL \<notin> set (xs @ ys) \<longrightarrow> strbuf_getString ?sb = Inr (xs @ ys)" using read_cstr_take[OF b(3)] by (simp add: strbuf_getString_def)
  ultimately show ?thesis using rep r(3) by (intro exI[of _ ?sb]) simp
qed

subsection \<open>The text of an error\<close>

primrec err_string :: "sError \<Rightarrow> string"
  and err_string_reason :: "sError option \<Rightarrow> string"
where
  "err_string (SError t n d r) =
     ''Error( '' @ print_int (err_type_number t) @ '' '' @ print_int n @ '' '' @ [CHR 0x27] @ quote_text err_quotes d @ [CHR 0x27] @ '' ''
     @ err_string_reason r @ '' )''"
| "err_string_reason None = ''NULL''"
| "err_string_reason (Some e) = err_string e"

lemma expand_err_format:
  "expandq (Some err_quotes) err_format [Arg_d i, Arg_d n, Arg_s d]
    = Some (''Error( '' @ print_int i @ '' '' @ print_int n @ '' '' @ [CHR 0x27] @ quote_text err_quotes d @ [CHR 0x27] @ '' '')"
  by (simp add: err_format_def conv_text_def)

lemma ErrToString_fits:
  "sb_rep sb xs \<Longrightarrow> length (err_string e) + QUOTE_ROOM \<le> sb_bufferRemaining sb
    \<Longrightarrow> \<exists>sb'. ErrToString e env sb = Inr (None, sb') \<and> sb_rep sb' (xs @ err_string e)
      \<and> sb_bufferRemaining sb' = sb_bufferRemaining sb - length (err_string e)"
  "sb_rep sb xs \<Longrightarrow> length (err_string_reason r) + QUOTE_ROOM \<le> sb_bufferRemaining sb
    \<Longrightarrow> \<exists>sb'. ErrToStringReason r env sb = Inr (None, sb') \<and> sb_rep sb' (xs @ err_string_reason r)
      \<and> sb_bufferRemaining sb' = sb_bufferRemaining sb - length (err_string_reason r)"
proof (induction e and r arbitrary: sb xs and sb xs rule: ErrToString.induct ErrToStringReason.induct)
  case (SError t n d r)
  define ys where "ys = ''Error( '' @ print_int (err_type_number t) @ '' '' @ print_int n @ '' '' @ [CHR 0x27] @ quote_text err_quotes d @ [CHR 0x27] @ '' ''"
  have text1: "err_string (SError t n d r) = ys @ err_string_reason r @ '' )''" by (simp add: ys_def)
  have x: "expandq (Some err_quotes) err_format [Arg_d (err_type_number t), Arg_d n, Arg_s d] = Some ys"
    unfolding ys_def by (rule expand_err_format)
  have room: "length ys + length (err_string_reason r) + 2 + QUOTE_ROOM \<le> sb_bufferRemaining sb" using SError.prems(2) unfolding text1 by simp
  obtain sb1 where s: "strbuf_sprintfQuoteSubstrings env err_quotes err_format [Arg_d (err_type_number t), Arg_d n, Arg_s d] sb = Inr (None, sb1)"
      "sb_rep sb1 (xs @ ys)" "sb_bufferRemaining sb1 = sb_bufferRemaining sb - length ys"
    using sprintf_fits[OF SError.prems(1) x, of env] room by (auto simp: strbuf_sprintfQuoteSubstrings_def)
  have room1: "length (err_string_reason r) + QUOTE_ROOM \<le> sb_bufferRemaining sb1" using s(3) room by linarith
  obtain sb2 where t: "ErrToStringReason r env sb1 = Inr (None, sb2)" "sb_rep sb2 ((xs @ ys) @ err_string_reason r)"
      "sb_bufferRemaining sb2 = sb_bufferRemaining sb1 - length (err_string_reason r)"
    using SError.IH[OF s(2) room1] by blast
  have e: "expandq None '' )'' [] = Some '' )''" by simp
  have room2: "length '' )'' + QUOTE_ROOM \<le> sb_bufferRemaining sb2" using s(3) t(3) room by simp
  obtain sb3 where u: "strbuf_sprintf env '' )'' [] sb2 = Inr (None, sb3)" "sb_rep sb3 (((xs @ ys) @ err_string_reason r) @ '' )'')"
      "sb_bufferRemaining sb3 = sb_bufferRemaining sb2 - length '' )''"
    using sprintf_fits[OF t(2) e room2, of env] unfolding strbuf_sprintf_def by blast
  show ?case unfolding text1 using s t u by (simp add: then_do_def)
qed (use sprintf_fits[of _ _ None "''NULL''" "[]" "''NULL''"] in \<open>fastforce simp: strbuf_sprintf_def\<close>)+

text \<open>C33: \<open>ErrToString\<close> appends to a buffer with room the type and number of the error, its quoted description and the
  text of its reason, down the whole chain.\<close>

theorem ErrToString_appends:
  assumes "sb_rep sb xs" and "length (err_string e) + QUOTE_ROOM \<le> sb_bufferRemaining sb"
  shows "\<exists>sb'. ErrToString e env sb = Inr (None, sb') \<and> sb_rep sb' (xs @ err_string e)"
  using ErrToString_fits(1)[OF assms] by blast

definition demo_error :: sError where
  "demo_error = SError ERR_APP 2 ''no way'' (Some (SError ERR_ERRNO 5 ''io'' None))"

lemma demo_error_text:
  "err_string demo_error = ''Error( 4 2 '' @ [CHR 0x27] @ ''no%20way'' @ [CHR 0x27] @ '' Error( 1 5 '' @ [CHR 0x27] @ ''io'' @ [CHR 0x27] @ '' NULL ) )''"
  by (simp add: demo_error_def err_type_number_def err_types_def quote_text_def err_quotes_def quoted_def
      print_int_def digits.simps hex_digits.simps[of 32] hex_digits.simps[of 2] hex_digits.simps[of 0] hex_digit_def Let_def)
    code_simp

theorem ErrToString_appends_witness:
  "\<exists>sb sb'. strbuf_create True True 100 = Inr sb \<and> ErrToString demo_error demo_env sb = Inr (None, sb')
    \<and> sb_rep sb' (''Error( 4 2 '' @ [CHR 0x27] @ ''no%20way'' @ [CHR 0x27] @ '' Error( 1 5 '' @ [CHR 0x27] @ ''io'' @ [CHR 0x27] @ '' NULL ) )'')"
proof -
  obtain sb where sb: "strbuf_create True True 100 = Inr sb" "sb_rep sb []" "sb_bufferSize sb = 100" using strbuf_create_rep[of 100] by auto
  have "sb_bufferRemaining sb = 100" using sb(2,3) by (simp add: sb_rep_def)
  then have "length (err_string demo_error) + QUOTE_ROOM \<le> sb_bufferRemaining sb" unfolding demo_error_text by simp
  from ErrToString_appends[OF sb(2) this, of demo_env] show ?thesis using sb(1) unfolding demo_error_text by auto
qed

text \<open>
  The text has a percent sign exactly when a description has a character to quote. A line end is not
  quoted in the two digits it should have: a blank stands for the first.
\<close>

lemma print_int_no_percent: "CHR ''%'' \<notin> set (print_int i)"
proof
  assume "CHR ''%'' \<in> set (print_int i)"
  then have "is_digit (CHR ''%'')" by (auto simp: print_int_def dest: digits_are_digits split: if_splits)
  then show False by (simp add: is_digit_def)
qed

lemma quote_text_percent: "CHR ''%'' \<in> set (quote_text q d) \<longleftrightarrow> (\<exists>c \<in> set d. c = CHR ''%'' \<or> c \<in> set q)"
proof (induction d)
  case (Cons c d)
  have "CHR ''%'' \<in> set (take 3 (quoted c))" by (simp add: quoted_def Let_def numeral_3_eq_3)
  then show ?case using Cons by (auto simp: quote_text_def)
qed (simp add: quote_text_def)

lemma err_string_percent:
  "CHR ''%'' \<in> set (err_string e) \<longleftrightarrow> (\<exists>d \<in> set (err_chain e). \<exists>c \<in> set d. c = CHR ''%'' \<or> c \<in> set err_quotes)"
  "CHR ''%'' \<in> set (err_string_reason r) \<longleftrightarrow> (\<exists>d \<in> set (reason_chain r). \<exists>c \<in> set d. c = CHR ''%'' \<or> c \<in> set err_quotes)"
  by (induction e and r rule: err_chain.induct reason_chain.induct) (auto simp: print_int_no_percent quote_text_percent)

lemma newline_quoted_with_blank: "quote_text err_quotes [CHR 0x0A] = ''% a''"
proof -
  have "char_of (97 :: nat) = CHR ''a''" by code_simp
  then show ?thesis by (simp add: quote_text_def err_quotes_def quoted_def hex_digits.simps[of 10] hex_digit_def Let_def)
qed

end
