(* ===== verification/TextRPC.thy ===== *)
theory TextRPC
  imports Sock HashTable ErrText
begin

section \<open>Remote procedure calls as lines of text\<close>

text \<open>
  \<open>src/textRPC.c\<close> on top of the sockets, the string buffers, the hash table and the thread pool: two sides
  agree on a protocol version, then each may send a call, a line with an identifier and a text, and
  gets a line with the result or the error back. The calls a side waits for are in a hash table by
  their identifier; the call objects live in a store of addresses. Functions handed to the thread pool
  are kept as a list of jobs, which the pool works off in any order; each thing sent on the socket is an
  element of the list of texts sent. What the application's functions return is an argument.
\<close>

subsection \<open>State\<close>

datatype ProtocolState = PROTOCOL_STATE_INITIALIZING | PROTOCOL_STATE_NEGOTIATING_PROTOCOL_1
  | PROTOCOL_STATE_NEGOTIATING_PROTOCOL_2 | PROTOCOL_STATE_RUNNING | PROTOCOL_STATE_DISCONNECTED

abbreviation (input) LATEST_PROTOCOL_VERSION :: int where "LATEST_PROTOCOL_VERSION \<equiv> 0"
abbreviation (input) OUTSTANDING_FUNC_HASH_SIZE :: nat where "OUTSTANDING_FUNC_HASH_SIZE \<equiv> 31"
abbreviation (input) TEXTRPC_ERR_REMOTE_EXCEPTION :: int where "TEXTRPC_ERR_REMOTE_EXCEPTION \<equiv> 1"
abbreviation CALL_BUFFER :: nat where "CALL_BUFFER \<equiv> 10000"

text \<open>
  A call that waits: \<open>oc_result\<close> is unwritten when the call is made; \<open>oc_finished\<close> says that its condition has
  been broadcast. The caller holds the call's mutex from before it sends until it waits, so a return
  is handled only when it waits.
\<close>

record sOutstandingCall =
  oc_id :: "32 word"
  oc_error :: Error
  oc_result :: "string option option"
  oc_finished :: bool

text \<open>A call as the hash table sees it: its key and its address.\<close>

record call_ref =
  cr_id :: "32 word"
  cr_addr :: nat

datatype rpc_job = Job_call "string option" | Job_opened | Job_closed | Job_negotiate

text \<open>The server's functions for opened and closed connections may be NULL.\<close>

record sTextRPCServer =
  ts_connectionOpenedFunc :: "nat option"
  ts_connectionClosedFunc :: "nat option"

record sTextRPCConnection =
  tc_protocolState :: ProtocolState
  tc_tcpSocketConnection :: "int option"
  tc_tcpConnection :: "int option"
  tc_protocolVersion :: int
  tc_nextCallId :: "32 word"
  tc_outstandingCalls :: "(call_ref, unit) Hasht"
  tc_server :: "sTextRPCServer option"
  tc_threadPool :: bool
  tc_calls :: "nat \<rightharpoonup> sOutstandingCall"
  tc_jobs :: "rpc_job list"
  tc_sent :: "string list"
  tc_initWaiting :: bool
  tc_initFinished :: bool
  tc_reports :: "sError list"

text \<open>
  What the outside decides in one call: the allocations, what a write takes, the error of
  \<open>threadPool_runThread\<close>, whether \<open>malloc\<close> and \<open>strdup\<close> get their block.
\<close>

record rpc_env =
  re_env :: environment
  re_written :: "string \<Rightarrow> nat option"
  re_runError :: Error
  re_malloc :: bool
  re_strdup :: bool

subsection \<open>Keys\<close>

definition hashFunction :: "call_ref \<Rightarrow> 32 word" where
  "hashFunction call = cr_id call"

definition compFunction :: "call_ref \<Rightarrow> call_ref \<Rightarrow> 32 word" where
  "compFunction call1 call2 = cr_id call2 - cr_id call1"

interpretation call_keys: hash_keys hashFunction compFunction
  by unfold_locales (auto simp: hashFunction_def compFunction_def)

subsection \<open>Helpers\<close>

text \<open>Sending on a socket that may be NULL; jobs for the pool, whose failure is asserted not to happen.\<close>

definition rpc_send :: "rpc_env \<Rightarrow> int option \<Rightarrow> string \<Rightarrow> sTextRPCConnection \<Rightarrow> (Error \<times> sTextRPCConnection) res" where
  "rpc_send env socket msg c =
     rbind (deref socket) (\<lambda>fd.
     rbind (sock_send (re_env env) (re_written env msg) fd msg) (\<lambda>(error, out).
     Inr (error, c\<lparr> tc_sent := tc_sent c @ [out] \<rparr>)))"

text \<open>The socket of a connection, whichever side made it.\<close>

definition rpc_socket :: "sTextRPCConnection \<Rightarrow> int option" where
  "rpc_socket c = (if tc_tcpSocketConnection c = None then tc_tcpConnection c else tc_tcpSocketConnection c)"

definition run_job :: "rpc_env \<Rightarrow> rpc_job \<Rightarrow> sTextRPCConnection \<Rightarrow> sTextRPCConnection res" where
  "run_job env job c =
     rbind (rguard NullDeref (tc_threadPool c)) (\<lambda>_.
     rbind (rassert (re_runError env = None)) (\<lambda>_.
     Inr (c\<lparr> tc_jobs := tc_jobs c @ [job] \<rparr>)))"

text \<open>The pool of the connection, or else that of its server, which always has one.\<close>

definition run_job_any :: "rpc_env \<Rightarrow> rpc_job \<Rightarrow> sTextRPCConnection \<Rightarrow> sTextRPCConnection res" where
  "run_job_any env job c =
     rbind (rassert (tc_threadPool c \<or> tc_server c \<noteq> None)) (\<lambda>_.
     rbind (rassert (re_runError env = None)) (\<lambda>_.
     Inr (c\<lparr> tc_jobs := tc_jobs c @ [job] \<rparr>)))"

subsection \<open>Returns\<close>

text \<open>
  A text used as a format without arguments: a conversion other than \<open>%%\<close> reads arguments that are not
  there.
\<close>

fun format_alone :: "string \<Rightarrow> string res" where
  "format_alone [] = Inr []"
| "format_alone (c # cs) =
     (if c = CHR ''%'' then
        (case cs of
           d # ds \<Rightarrow> if d = CHR ''%'' then rbind (format_alone ds) (\<lambda>s. Inr (c # s)) else Inl LayoutMismatch
         | [] \<Rightarrow> Inl LayoutMismatch)
      else rbind (format_alone cs) (\<lambda>s. Inr (c # s)))"

definition handleReturn :: "rpc_env \<Rightarrow> bool \<Rightarrow> string option \<Rightarrow> sTextRPCConnection \<Rightarrow> (Error \<times> sTextRPCConnection) res" where
  "handleReturn env isException message client =
     rbind (deref message) (\<lambda>msg.
     (case strsep [CHR '' '', CHR 0x09] msg of (idText, rest) \<Rightarrow>
      (let callId = (word_of_int (atoi idText) :: 32 word) in
       rbind (HashFind (tc_outstandingCalls client) \<lparr> cr_id = callId, cr_addr = 0 \<rparr>) (\<lambda>found.
       case found of
         None \<Rightarrow>
           rbind (ErrNew (fst (env_errOk (re_env env))) (snd (env_errOk (re_env env))) ERR_APP 0 None
                    (''No outstanding call with id '' @ print_int (sint callId) @ ''.'')) (\<lambda>error.
           if error = None then Inl NullDeref else Inr (error, client))
       | Some ref \<Rightarrow>
           rbind (cell (tc_calls client) (cr_addr ref)) (\<lambda>call.
           rbind (if isException
                  then rbind (deref rest) (\<lambda>text1.
                       rbind (format_alone text1) (\<lambda>description.
                       rbind (ErrNew (fst (env_errOk (re_env env))) (snd (env_errOk (re_env env))) ERR_TEXTRPC
                                TEXTRPC_ERR_REMOTE_EXCEPTION None description) (\<lambda>error.
                       Inr (call\<lparr> oc_error := error, oc_result := Some None \<rparr>))))
                  else Inr (call\<lparr> oc_result := Some (if re_strdup env then rest else None), oc_error := None \<rparr>)) (\<lambda>call1.
           Inr (None, client\<lparr> tc_calls := (tc_calls client)(cr_addr ref \<mapsto> call1\<lparr> oc_finished := True \<rparr>) \<rparr>)))))))"

text \<open>An error of \<open>handleReturn\<close> is only reported.\<close>

definition report_return :: "Error \<times> sTextRPCConnection \<Rightarrow> sTextRPCConnection" where
  "report_return r = (case r of (None, c) \<Rightarrow> c | (Some e, c) \<Rightarrow> c\<lparr> tc_reports := tc_reports c @ [e] \<rparr>)"

subsection \<open>Messages\<close>

text \<open>The broadcast that the version is agreed on wakes a thread that waits for it already, and no other.\<close>

definition broadcast_init :: "sTextRPCConnection \<Rightarrow> sTextRPCConnection" where
  "broadcast_init c = c\<lparr> tc_initFinished := (tc_initFinished c \<or> tc_initWaiting c) \<rparr>"

text \<open>
  A message while the version is being agreed on. The rest of the line behind its first word is NULL when
  there is no blank, and then the next \<open>strsep\<close> returns NULL.
\<close>

definition negotiate_message :: "rpc_env \<Rightarrow> int option \<Rightarrow> string \<Rightarrow> sTextRPCConnection \<Rightarrow> sTextRPCConnection res" where
  "negotiate_message env connection message client =
     (case strsep '' '' message of (word1, rest) \<Rightarrow>
      if same_nocase word1 ''protocolVersion-request'' then
        rbind (rassert (rest \<noteq> None)) (\<lambda>_.
        (let remoteVersion = atoi (fst (strsep '' '' (the rest)));
             version = (if remoteVersion > LATEST_PROTOCOL_VERSION then LATEST_PROTOCOL_VERSION else remoteVersion);
             client1 = client\<lparr> tc_protocolVersion := version, tc_protocolState := PROTOCOL_STATE_RUNNING \<rparr>
         in rbind (rpc_send env connection (''protocolVersion '' @ print_int version @ [NL]) client1) (\<lambda>(error, client2).
            rbind (rassert (error = None)) (\<lambda>_.
            run_job_any env Job_opened (broadcast_init client2)))))
      else if same_nocase word1 ''protocolVersion'' then
        rbind (rassert (rest \<noteq> None)) (\<lambda>_.
        (let version = atoi (fst (strsep '' '' (the rest))) in
         rbind (rassert (tc_protocolVersion client = -1)) (\<lambda>_.
         rbind (rassert (version \<le> LATEST_PROTOCOL_VERSION)) (\<lambda>_.
         run_job env Job_opened (broadcast_init (client\<lparr> tc_protocolVersion := version,
                                                           tc_protocolState := PROTOCOL_STATE_RUNNING \<rparr>))))))
      else Inr client)"

text \<open>A message of the running protocol.\<close>

definition running_message :: "rpc_env \<Rightarrow> string \<Rightarrow> sTextRPCConnection \<Rightarrow> sTextRPCConnection res" where
  "running_message env message client =
     (case strsep '' '' message of (word1, rest) \<Rightarrow>
      if same_nocase word1 ''C'' then
        rbind (rassert (re_malloc env)) (\<lambda>_.
        rbind (deref rest) (\<lambda>input.
        run_job env (Job_call (if re_strdup env then Some input else None)) client))
      else if same_nocase word1 ''R'' then rbind (handleReturn env False rest client) (\<lambda>r. Inr (report_return r))
      else if same_nocase word1 ''E'' then rbind (handleReturn env True rest client) (\<lambda>r. Inr (report_return r))
      else if same_nocase word1 ''ping'' then
        rbind (rpc_send env (tc_tcpConnection client) (''ping-reply '' @ [NL]) client) (\<lambda>(error, client1). Inr client1)
      else Inr client)"

definition on_message :: "rpc_env \<Rightarrow> int option \<Rightarrow> string \<Rightarrow> sTextRPCConnection \<Rightarrow> sTextRPCConnection res" where
  "on_message env connection message client =
     (case tc_protocolState client of
        PROTOCOL_STATE_INITIALIZING \<Rightarrow> Inl AssertFailed
      | PROTOCOL_STATE_NEGOTIATING_PROTOCOL_1 \<Rightarrow> negotiate_message env connection message client
      | PROTOCOL_STATE_NEGOTIATING_PROTOCOL_2 \<Rightarrow> negotiate_message env connection message client
      | PROTOCOL_STATE_RUNNING \<Rightarrow> running_message env message client
      | PROTOCOL_STATE_DISCONNECTED \<Rightarrow> Inl AssertFailed)"

definition on_disconnect :: "rpc_env \<Rightarrow> sTextRPCConnection \<Rightarrow> sTextRPCConnection res" where
  "on_disconnect env client = run_job_any env Job_closed client"

text \<open>
  The handler of the socket. \<open>strsep\<close> writes a NUL behind the first word of the message, and more behind
  it, so that the first word is what is left. \<open>errno\<close> is what the functions called leave there.
\<close>

definition cut_buffer :: "buffer \<Rightarrow> string \<Rightarrow> buffer" where
  "cut_buffer buf message =
     (case strsep '' '' message of (word1, rest) \<Rightarrow> if rest = None then buf else buf[length word1 := Some NUL])"

definition connection_sock_handler :: "rpc_env \<Rightarrow> int \<Rightarrow> int option \<Rightarrow> sTextRPCConnection sock_handler" where
  "connection_sock_handler env errno1 connection what buf s =
     (if what = SOCK_MESSAGE then
        rbind (read_cstr buf) (\<lambda>message.
        rbind (on_message env connection message (snd s)) (\<lambda>c. Inr (cut_buffer buf message, (errno1, c))))
      else if what = SOCK_DISCONNECT then rbind (on_disconnect env (snd s)) (\<lambda>c. Inr (buf, (errno1, c)))
      else Inr (buf, s))"

subsection \<open>Jobs\<close>

definition reply_text :: "environment \<Rightarrow> int \<Rightarrow> Error \<times> string option \<Rightarrow> sStringBuffer \<Rightarrow> (Error \<times> sStringBuffer) res" where
  "reply_text env callId outcome outBuffer =
     (case outcome of
        (None, None) \<Rightarrow> rbind (strbuf_sprintf env (''R %d'' @ [NL]) [Arg_d callId] outBuffer) (\<lambda>(_, sb). Inr (None, sb))
      | (None, Some result) \<Rightarrow>
          rbind (strbuf_sprintf env (''R %d %s'' @ [NL]) [Arg_d callId, Arg_s result] outBuffer) (\<lambda>(_, sb). Inr (None, sb))
      | (Some error, _) \<Rightarrow>
          then_do (strbuf_sprintf env ''E %d '' [Arg_d callId] outBuffer) (\<lambda>sb1.
          then_do (ErrToString error env sb1) (\<lambda>sb2. strbuf_sprintf env [NL] [] sb2)))"

text \<open>
  A call that came in: \<open>outcome\<close> is what the application's function returned for the text behind the
  identifier. The final error is reported, with the failure to send as its reason.
\<close>

definition call_threadFunc ::
  "rpc_env \<Rightarrow> (string option \<Rightarrow> Error \<times> string option) \<Rightarrow> string option \<Rightarrow> sTextRPCConnection \<Rightarrow> sTextRPCConnection res" where
  "call_threadFunc env dispatchFunc input c =
     rbind (rassert (input \<noteq> None)) (\<lambda>_.
     (case strsep '' '' (the input) of (idText, message) \<Rightarrow>
      (let callId = sint (word_of_int (atoi idText) :: 32 word); outcome = dispatchFunc message in
       rbind (strbuf_create (re_malloc env) (re_malloc env) 256) (\<lambda>outBuffer.
       rbind (reply_text (re_env env) callId outcome outBuffer) (\<lambda>(error2, sb).
       rbind (if error2 = None
              then rbind (strbuf_getString sb) (\<lambda>line. rpc_send env (rpc_socket c) line c)
              else Inr (error2, c)) (\<lambda>(error3, c1).
       if error3 = None then Inr c1
       else rbind (ErrNew (fst (env_errOk (re_env env))) (snd (env_errOk (re_env env))) ERR_TEXTRPC 0 error3 ''Failed to send result'')
              (\<lambda>e. Inr (report_return (e, c1)))))))))"

text \<open>The functions of the application, by their number; a client connection has no server.\<close>

definition callConnectionOpened :: "sTextRPCConnection \<Rightarrow> nat option res" where
  "callConnectionOpened c =
     (case tc_server c of None \<Rightarrow> Inr None | Some server \<Rightarrow> Inr (ts_connectionOpenedFunc server))"

definition callConnectionClosed :: "sTextRPCConnection \<Rightarrow> nat option res" where
  "callConnectionClosed c =
     (case tc_server c of
        None \<Rightarrow> Inl NullDeref
      | Some server \<Rightarrow> Inr (ts_connectionClosedFunc server))"

definition negotiate_protocol :: "rpc_env \<Rightarrow> sTextRPCConnection \<Rightarrow> sTextRPCConnection res" where
  "negotiate_protocol env client =
     rbind (rpc_send env (tc_tcpConnection client) (''protocolVersion-request 0'' @ [NL]) client) (\<lambda>(error, c).
     rbind (rassert (error = None)) (\<lambda>_. Inr c))"

subsection \<open>Connections\<close>

text \<open>
  The side of the server. The table is not tested for NULL; here the fault comes at once instead of at its
  first use.
\<close>

definition connection_create ::
  "rpc_env \<Rightarrow> allocator \<Rightarrow> int \<Rightarrow> sTextRPCServer \<Rightarrow> (Error \<times> sTextRPCConnection) res" where
  "connection_create env avail socket server =
     rbind (rassert (re_malloc env)) (\<lambda>_.
     rbind (HashCreateTable avail OUTSTANDING_FUNC_HASH_SIZE hashFunction compFunction None) (\<lambda>table.
     rbind (deref table) (\<lambda>t.
     Inr (re_runError env,
       \<lparr> tc_protocolState = PROTOCOL_STATE_NEGOTIATING_PROTOCOL_1, tc_tcpSocketConnection = None,
         tc_tcpConnection = Some socket, tc_protocolVersion = -1, tc_nextCallId = 0, tc_outstandingCalls = t,
         tc_server = Some server, tc_threadPool = True, tc_calls = Map.empty,
         tc_jobs = (if re_runError env = None then [Job_negotiate] else []), tc_sent = [],
         tc_initWaiting = False, tc_initFinished = False, tc_reports = [] \<rparr>))))"

definition server_sock_handler ::
  "rpc_env \<Rightarrow> allocator \<Rightarrow> sock_Event \<Rightarrow> sTextRPCServer \<Rightarrow> ('h, sTextRPCConnection) t_ServerConn
    \<Rightarrow> 'w \<Rightarrow> (('h, sTextRPCConnection) t_ServerConn \<times> 'w) res" where
  "server_sock_handler env avail what rpcServer serverConn w =
     (if what = SOCK_CONNECTION then
        rbind (connection_create env avail (sc_socket serverConn) rpcServer) (\<lambda>(error, client).
        rbind (rassert (error = None)) (\<lambda>_. Inr (sock_setUserData client serverConn, w)))
      else Inr (serverConn, w))"

text \<open>
  The outcomes of creating a server or a client: the error of \<open>threading_init\<close>, the outcomes of the thread
  pool, whether the operating system grants the blocks.
\<close>

record rpc_outcome =
  ro_init :: Error
  ro_pool :: "bool \<times> Error \<times> thread_outcome list"
  ro_avail :: allocator

definition textRPC_server_create ::
  "rpc_env \<Rightarrow> rpc_outcome \<Rightarrow> server_outcome \<Rightarrow> nat option \<Rightarrow> nat option \<Rightarrow> 16 word \<Rightarrow> resources
    \<Rightarrow> (Error \<times> (sTextRPCServer \<times> (unit, unit) t_Server) option \<times> resources) res" where
  "textRPC_server_create env out sout connectionOpenedFunc connectionClosedFunc port rs =
     (if ro_init out \<noteq> None then Inr (ro_init out, None, rs)
      else
        rbind (rassert (re_malloc env)) (\<lambda>_.
        (case ro_pool out of (poolOk, mutexErr, threads) \<Rightarrow>
         rbind (threadPool_create (env_errOk (re_env env)) poolOk mutexErr True threads) (\<lambda>(error, pool).
         if error \<noteq> None then Inr (error, None, rs)
         else
           rbind (sock_create_server (re_env env) sout () INADDR_ANY port () () (rs\<lparr> rs_pools := rs_pools rs + 1 \<rparr>))
             (\<lambda>(error1, server, _, _, rs1).
           if error1 \<noteq> None then Inr (error1, None, rs1)
           else rbind (deref server) (\<lambda>tcpServer.
             Inr (None, Some (\<lparr> ts_connectionOpenedFunc = connectionOpenedFunc, ts_connectionClosedFunc = connectionClosedFunc \<rparr>, tcpServer),
                  rs1\<lparr> rs_blocks := rs_blocks rs1 + 1 \<rparr>)))))))"

text \<open>
  The side of the client up to its wait: the thread that reads from the socket runs from \<open>sock_connect\<close> on,
  before the caller waits for the end of the negotiation.
\<close>

definition textRPC_client_connect ::
  "rpc_env \<Rightarrow> rpc_outcome \<Rightarrow> connect_outcome \<Rightarrow> string \<Rightarrow> 16 word \<Rightarrow> resources
    \<Rightarrow> (Error \<times> sTextRPCConnection option \<times> resources) res" where
  "textRPC_client_connect env out cout host port rs =
     (let ok = env_errOk (re_env env); fail = (\<lambda>reason d. ErrNew (fst ok) (snd ok) ERR_TEXTRPC 0 reason d) in
      if ro_init out \<noteq> None then rbind (fail (ro_init out) ''Failed to init threading'') (\<lambda>e. Inr (e, None, rs))
      else
        rbind (emalloc (re_malloc env) (fst ok) (snd ok)) (\<lambda>(error, block).
        if error \<noteq> None then rbind (fail error ''Failed to allocate memory for the TextRPC connection.'') (\<lambda>e. Inr (e, None, rs))
        else
          rbind (deref block) (\<lambda>_.
          rbind (HashCreateTable (ro_avail out) 16 hashFunction compFunction None) (\<lambda>table.
          rbind (deref table) (\<lambda>t.
          (case ro_pool out of (poolOk, mutexErr, threads) \<Rightarrow>
           rbind (threadPool_create ok poolOk mutexErr True threads) (\<lambda>(error1, pool).
           if error1 \<noteq> None then rbind (HashDestroyTable t ()) (\<lambda>_. Inr (error1, None, rs))
           else
             rbind (sock_connect (re_env env) cout host port () () rs) (\<lambda>(error2, sockConnection, rs1).
             if error2 \<noteq> None then
               rbind (fail error2 (''Failed to connect to host '' @ [CHR 0x27] @ host @ [CHR 0x27] @ '', port '' @ print_int (uint port) @ [CHR ''.'', NL])) (\<lambda>e.
               rbind (HashDestroyTable t ()) (\<lambda>_. Inr (e, None, rs1)))
             else
               Inr (None, Some \<lparr> tc_protocolState = PROTOCOL_STATE_NEGOTIATING_PROTOCOL_1,
                    tc_tcpSocketConnection = map_option cn_socket sockConnection, tc_tcpConnection = None,
                    tc_protocolVersion = LATEST_PROTOCOL_VERSION, tc_nextCallId = 1, tc_outstandingCalls = t, tc_server = None,
                    tc_threadPool = True, tc_calls = Map.empty, tc_jobs = [], tc_sent = [],
                    tc_initWaiting = False, tc_initFinished = False, tc_reports = [] \<rparr>,
                  rs1\<lparr> rs_blocks := rs_blocks rs1 + 1, rs_pools := rs_pools rs1 + 1 \<rparr>)))))))))"

text \<open>The wait has no condition of its own: it ends only by a broadcast after it has begun.\<close>

definition client_wait :: "sTextRPCConnection \<Rightarrow> sTextRPCConnection" where
  "client_wait c = c\<lparr> tc_initWaiting := True \<rparr>"

definition client_ready :: "sTextRPCConnection \<Rightarrow> sTextRPCConnection res" where
  "client_ready c = rbind (rguard Blocked (tc_initFinished c)) (\<lambda>_. Inr (c\<lparr> tc_initWaiting := False \<rparr>))"

text \<open>
  Destroying a connection: \<open>poolError\<close> is what \<open>threadPool_destroy\<close> returns, \<open>mutexesOk\<close> says that no call on
  the mutexes failed. The handles of the socket are freed; no socket is closed and no thread is told.
\<close>

definition textRPCConnection_destroy ::
  "rpc_env \<Rightarrow> Error \<Rightarrow> bool \<Rightarrow> sTextRPCConnection \<Rightarrow> resources \<Rightarrow> (Error \<times> sTextRPCConnection option \<times> resources) res" where
  "textRPCConnection_destroy env poolError mutexesOk c rs =
     (let fail = ErrNew (fst (env_errOk (re_env env))) (snd (env_errOk (re_env env))) ERR_TEXTRPC 0 in
      if tc_threadPool c \<and> poolError \<noteq> None
      then rbind (fail poolError (''Failed to destroy connection'' @ [CHR 0x27] @ ''s thread pool'')) (\<lambda>error. Inr (error, Some c, rs))
      else
        rbind (HashDestroyTable (tc_outstandingCalls c) ()) (\<lambda>_.
        rbind (if mutexesOk then Inr None
               else fail None (''Couldn'' @ [CHR 0x27] @ ''t destroy mutex when closing textrpc connection'' @ [NL])) (\<lambda>error.
        Inr (error, None,
          rs\<lparr> rs_pools := rs_pools rs - of_bool (tc_threadPool c),
              rs_blocks := rs_blocks rs - of_bool (tc_tcpSocketConnection c \<noteq> None) - of_bool (tc_tcpConnection c \<noteq> None) - 1 \<rparr>))))"

subsection \<open>Calls\<close>

definition call_text :: "int \<Rightarrow> string \<Rightarrow> string" where
  "call_text callId txt1 = ''C '' @ print_int callId @ '' '' @ txt1 @ [NL]"

text \<open>
  A call up to its wait. \<open>addr\<close> is the block of the call object, \<open>node\<close> and \<open>semOk\<close> the outcomes of
  \<open>HashAdd\<close>, whose result is not looked at. The error of sending is kept for the end.
\<close>

definition textRPC_call_begin ::
  "rpc_env \<Rightarrow> nat option \<Rightarrow> nat option \<Rightarrow> bool \<Rightarrow> string \<Rightarrow> sTextRPCConnection \<Rightarrow> (Error \<times> sTextRPCConnection) res" where
  "textRPC_call_begin env addr node semOk txt1 c =
     (let callId = tc_nextCallId c; c1 = c\<lparr> tc_nextCallId := callId + 1 \<rparr>; callText = call_text (sint callId) txt1 in
      rbind (rguard OutOfBounds (length callText < CALL_BUFFER)) (\<lambda>_.
      rbind (rassert (addr \<noteq> None)) (\<lambda>_.
      rbind (HashAdd node semOk (tc_outstandingCalls c1) \<lparr> cr_id = callId, cr_addr = the addr \<rparr>) (\<lambda>(_, table).
      rpc_send env (rpc_socket c1) callText
        (c1\<lparr> tc_outstandingCalls := table,
             tc_calls := (tc_calls c1)(the addr \<mapsto> \<lparr> oc_id = callId, oc_error = None, oc_result = None, oc_finished = False \<rparr>) \<rparr>)))))"

text \<open>What the call does once it has been woken: the error, or the result.\<close>

definition textRPC_call_return ::
  "Error \<Rightarrow> nat \<Rightarrow> sTextRPCConnection \<Rightarrow> (Error \<times> string option \<times> sTextRPCConnection) res" where
  "textRPC_call_return sendError addr c =
     rbind (cell (tc_calls c) addr) (\<lambda>call.
     if oc_error call \<noteq> None then Inr (oc_error call, None, c)
     else
       (case oc_result call of
          None \<Rightarrow> Inl UninitRead
        | Some result \<Rightarrow>
            rbind (HashDelete (tc_outstandingCalls c) \<lparr> cr_id = oc_id call, cr_addr = addr \<rparr>) (\<lambda>(_, table).
            Inr (sendError, result, c\<lparr> tc_outstandingCalls := table, tc_calls := (tc_calls c)(addr := None) \<rparr>))))"

text \<open>
  The end of the call, woken by the broadcast of its condition. The wait is not in a loop that tests for
  the result: a wake-up without a broadcast, which POSIX allows, goes straight on and reads a result that
  nobody has written.
\<close>

definition textRPC_call_end ::
  "Error \<Rightarrow> nat \<Rightarrow> sTextRPCConnection \<Rightarrow> (Error \<times> string option \<times> sTextRPCConnection) res" where
  "textRPC_call_end sendError addr c =
     rbind (cell (tc_calls c) addr) (\<lambda>call.
     rbind (rguard Blocked (oc_finished call)) (\<lambda>_. textRPC_call_return sendError addr c))"

lemma spurious_wakeup_reads_unwritten:
  "tc_calls c addr = Some call \<Longrightarrow> oc_error call = None \<Longrightarrow> oc_result call = None
    \<Longrightarrow> textRPC_call_return sendError addr c = Inl UninitRead"
  by (simp add: textRPC_call_return_def)

subsection \<open>The handler as a client of the sockets\<close>

lemma read_cstr_inv: "read_cstr b = Inr m \<Longrightarrow> take (Suc (length m)) b = map Some (m @ [NUL]) \<and> NUL \<notin> set m"
  by (induction b arbitrary: m rule: read_cstr.induct) (auto simp: res_iff split: if_splits)

lemma strsep_prefix: "strsep delims m = (w, rest) \<Longrightarrow> (\<exists>d r. rest = Some r \<and> m = w @ d # r) \<or> rest = None \<and> w = m"
proof (cases "dropWhile (\<lambda>c. c \<notin> set delims) m")
  case (Cons d r)
  moreover assume "strsep delims m = (w, rest)"
  ultimately have "w = takeWhile (\<lambda>c. c \<notin> set delims) m" "rest = Some r" by (auto simp: strsep_def)
  then show ?thesis using takeWhile_dropWhile_id[of "\<lambda>c. c \<notin> set delims" m] Cons by metis
qed (simp add: strsep_def)

lemma cut_buffer_reads:
  assumes "read_cstr buf = Inr m"
  shows "length (cut_buffer buf m) = length buf \<and> read_cstr (cut_buffer buf m) = Inr (fst (strsep '' '' m))"
proof -
  obtain w rest where w: "strsep '' '' m = (w, rest)" by (cases "strsep '' '' m")
  note r = read_cstr_inv[OF assms]
  from strsep_prefix[OF w] show ?thesis
  proof
    assume "\<exists>d r. rest = Some r \<and> m = w @ d # r"
    then obtain d x where m: "rest = Some x" "m = w @ d # x" by blast
    have "take (length w) buf = map Some w" using take_shorter[OF r[THEN conjunct1], of "length w"] m(2) by simp
    moreover have "length w < length buf" using arg_cong[where f = length, OF r[THEN conjunct1]] m(2) by simp
    ultimately have "take (Suc (length w)) (buf[length w := Some NUL]) = map Some (w @ [NUL])" by (simp add: take_Suc_conv_app_nth)
    then show ?thesis using read_cstr_take[of w] r m w by (simp add: cut_buffer_def)
  qed (use w assms in \<open>simp add: cut_buffer_def\<close>)
qed

interpretation rpc: line_client "connection_sock_handler env errno1 connection"
    "\<lambda>m s. rbind (on_message env connection m (snd s)) (\<lambda>c. Inr (errno1, c))"
    "\<lambda>s. rbind (on_disconnect env (snd s)) (\<lambda>c. Inr (errno1, c))" "\<lambda>m. fst (strsep '' '' m)"
  for env errno1 connection
proof
  fix buf m and s :: "sTextRPCConnection thread_state"
  assume "read_cstr buf = Inr m"
  then show "\<exists>buf1. length buf1 = length buf \<and> read_cstr buf1 = Inr (fst (strsep '' '' m))
      \<and> connection_sock_handler env errno1 connection SOCK_MESSAGE buf s
        = rbind (rbind (on_message env connection m (snd s)) (\<lambda>c. Inr (errno1, c))) (\<lambda>s1. Inr (buf1, s1))"
    using cut_buffer_reads[of buf m] by (intro exI[of _ "cut_buffer buf m"]) (simp add: connection_sock_handler_def rbind_assoc)
qed (simp add: connection_sock_handler_def rbind_assoc)

subsection \<open>Single steps\<close>

definition good_env :: "rpc_env \<Rightarrow> bool" where
  "good_env env \<longleftrightarrow> re_runError env = None \<and> re_malloc env \<and> re_strdup env \<and> env_errOk (re_env env) = (True, True)
     \<and> whole_writes (re_written env)"

lemma rpc_send_whole:
  assumes "good_env env" and "socket = Some fd"
  shows "rpc_send env socket msg c = Inr (None, c\<lparr> tc_sent := tc_sent c @ [msg] \<rparr>)"
proof -
  obtain n where "re_written env msg = Some n" "length msg \<le> n" using assms(1) by (auto simp: good_env_def whole_writes_def)
  then show ?thesis using assms(2) by (simp add: rpc_send_def sock_send_def sock_send_binary_def)
qed

lemma rpc_socket_update [simp]:
  "rpc_socket (c\<lparr> tc_nextCallId := x1 \<rparr>) = rpc_socket c" "rpc_socket (c\<lparr> tc_outstandingCalls := x2 \<rparr>) = rpc_socket c"
  "rpc_socket (c\<lparr> tc_calls := x3 \<rparr>) = rpc_socket c" "rpc_socket (c\<lparr> tc_jobs := x4 \<rparr>) = rpc_socket c"
  "rpc_socket (c\<lparr> tc_sent := x5 \<rparr>) = rpc_socket c" "rpc_socket (c\<lparr> tc_reports := x6 \<rparr>) = rpc_socket c"
  by (simp_all add: rpc_socket_def)

lemma word_atoi_print: "word_of_int (atoi (print_int (sint w))) = (w :: 32 word)"
  by (simp add: atoi_print_int)

lemma strsep_print_int:
  assumes "set delims \<subseteq> {CHR '' '', CHR 0x09}"
  shows "CHR '' '' \<in> set delims \<Longrightarrow> strsep delims (print_int i @ CHR '' '' # r) = (print_int i, Some r)"
    and "strsep delims (print_int i) = (print_int i, None)"
proof -
  have "c \<notin> set delims" if "c \<in> set (print_int i)" for c
    using print_int_chars[OF that] assms by (auto simp: is_digit_def)
  then show "CHR '' '' \<in> set delims \<Longrightarrow> strsep delims (print_int i @ CHR '' '' # r) = (print_int i, Some r)"
      "strsep delims (print_int i) = (print_int i, None)"
    by (auto intro!: strsep_token strsep_last)
qed

lemma strsep_word: "\<forall>c \<in> set w. c \<noteq> CHR '' '' \<Longrightarrow> strsep '' '' (w @ CHR '' '' # r) = (w, Some r)"
  by (rule strsep_token) auto

text \<open>The texts of a call on its way: the line, the job, the reply.\<close>

definition job_text :: "32 word \<Rightarrow> string \<Rightarrow> string" where
  "job_text callId txt1 = print_int (sint callId) @ '' '' @ txt1"

definition result_text :: "32 word \<Rightarrow> string option \<Rightarrow> string" where
  "result_text callId r = ''R '' @ print_int (sint callId) @ (case r of None \<Rightarrow> [] | Some t \<Rightarrow> '' '' @ t)"

lemma receive_call:
  assumes "good_env env" and "tc_protocolState c = PROTOCOL_STATE_RUNNING" and "tc_threadPool c"
  shows "on_message env connection (butlast (call_text (sint callId) txt1)) c
    = Inr (c\<lparr> tc_jobs := tc_jobs c @ [Job_call (Some (job_text callId txt1))] \<rparr>)"
proof -
  have "strsep '' '' (''C'' @ CHR '' '' # job_text callId txt1) = (''C'', Some (job_text callId txt1))" by (rule strsep_word) simp
  moreover have "butlast (call_text (sint callId) txt1) = ''C'' @ CHR '' '' # job_text callId txt1"
    by (simp add: call_text_def job_text_def butlast_append)
  ultimately show ?thesis using assms by (simp add: on_message_def running_message_def same_nocase_def run_job_def good_env_def)
qed

text \<open>A result that fits the reply buffer and one line.\<close>

definition answer_fits :: "32 word \<Rightarrow> string option \<Rightarrow> bool" where
  "answer_fits callId r \<longleftrightarrow> length (result_text callId r) + 1 + QUOTE_ROOM \<le> 256
     \<and> (case r of None \<Rightarrow> True | Some t \<Rightarrow> NL \<notin> set t \<and> NUL \<notin> set t \<and> (t = [] \<or> last t \<noteq> CR))"

lemma print_int_plain: "NUL \<notin> set (print_int i)" "NL \<notin> set (print_int i)"
  using print_int_chars[of NUL i] print_int_chars[of NL i] by (auto simp: is_digit_def)

lemma run_call:
  assumes "good_env env" and "rpc_socket c = Some fd" and "answer_fits callId r" and "dispatchFunc (Some txt1) = (None, r)"
  shows "call_threadFunc env dispatchFunc (Some (job_text callId txt1)) c
    = Inr (c\<lparr> tc_sent := tc_sent c @ [result_text callId r @ [NL]] \<rparr>)"
proof -
  obtain sb where sb: "strbuf_create True True 256 = Inr sb" "sb_rep sb []" "sb_bufferSize sb = 256" using strbuf_create_rep[of 256] by auto
  have room: "length (result_text callId r @ [NL]) + QUOTE_ROOM \<le> sb_bufferRemaining sb"
    using assms(3) sb(2,3) by (simp add: answer_fits_def sb_rep_def)
  have nul: "NUL \<notin> set (result_text callId r @ [NL])"
    using assms(3) print_int_plain[of "sint callId"] by (auto simp: result_text_def answer_fits_def split: option.splits)
  have "\<exists>sb'. reply_text (re_env env) (sint callId) (None, r) sb = Inr (None, sb') \<and> strbuf_getString sb' = Inr (result_text callId r @ [NL])"
  proof (cases r)
    case None
    have "expandq None (''R %d'' @ [NL]) [Arg_d (sint callId)] = Some (result_text callId r @ [NL])"
      using None by (simp add: result_text_def)
    from sprintf_fits[OF sb(2) this room, of "re_env env"] show ?thesis using None nul by (auto simp: reply_text_def strbuf_sprintf_def)
  next
    case (Some t)
    have "expandq None (''R %d %s'' @ [NL]) [Arg_d (sint callId), Arg_s t] = Some (result_text callId r @ [NL])"
      using Some by (simp add: result_text_def conv_text_def)
    from sprintf_fits[OF sb(2) this room, of "re_env env"] show ?thesis using Some nul by (auto simp: reply_text_def strbuf_sprintf_def)
  qed
  moreover have "strsep '' '' (job_text callId txt1) = (print_int (sint callId), Some txt1)"
    using strsep_print_int(1)[of "'' ''"] by (simp add: job_text_def)
  moreover have "re_malloc env" using assms(1) by (simp add: good_env_def)
  ultimately show ?thesis using sb(1) rpc_send_whole[OF assms(1,2)] assms(4)
    by (auto simp: call_threadFunc_def word_atoi_print[simplified] atoi_print_int)
qed

lemma receive_result:
  assumes "good_env env" and "tc_protocolState c = PROTOCOL_STATE_RUNNING"
    and "ht_for hashFunction compFunction (tc_outstandingCalls c)"
    and "\<lparr> cr_id = callId, cr_addr = a \<rparr> \<in> set (ht_elems (tc_outstandingCalls c))" and "tc_calls c a = Some call"
  shows "on_message env connection (result_text callId r) c
    = Inr (c\<lparr> tc_calls := (tc_calls c)(a \<mapsto> call\<lparr> oc_result := Some r, oc_error := None, oc_finished := True \<rparr>) \<rparr>)"
proof -
  let ?m = "print_int (sint callId) @ (case r of None \<Rightarrow> [] | Some t \<Rightarrow> '' '' @ t)"
  have w: "strsep '' '' (''R'' @ CHR '' '' # ?m) = (''R'', Some ?m)" by (rule strsep_word) simp
  have i: "strsep [CHR '' '', CHR 0x09] ?m = (print_int (sint callId), r)"
    using strsep_print_int[of "[CHR '' '', CHR 0x09]" "sint callId"] by (cases r) auto
  have "ht_lookup (tc_outstandingCalls c) \<lparr> cr_id = callId, cr_addr = 0 \<rparr> = Some \<lparr> cr_id = callId, cr_addr = a \<rparr>"
    using call_keys.lookup_Some_iff[OF assms(3)] assms(4) by (simp add: compFunction_def)
  then have "HashFind (tc_outstandingCalls c) \<lparr> cr_id = callId, cr_addr = 0 \<rparr> = Inr (Some \<lparr> cr_id = callId, cr_addr = a \<rparr>)"
    using assms(3) by (simp add: HashFind_wf ht_for_def)
  then have "handleReturn env False (Some ?m) c
      = Inr (None, c\<lparr> tc_calls := (tc_calls c)(a \<mapsto> call\<lparr> oc_result := Some r, oc_error := None, oc_finished := True \<rparr>) \<rparr>)"
    using i assms(1,5) by (simp add: handleReturn_def Let_def atoi_print_int good_env_def)
  then show ?thesis using w assms(2) by (simp add: on_message_def running_message_def same_nocase_def result_text_def report_return_def CText.tolower_def)
qed

lemma begin_call:
  assumes "good_env env" and "rpc_socket c = Some fd" and "ht_for hashFunction compFunction (tc_outstandingCalls c)"
    and "\<forall>r \<in> set (ht_elems (tc_outstandingCalls c)). cr_id r \<noteq> tc_nextCallId c"
    and "ht_elementCount (tc_outstandingCalls c) < INT_MAX" and "length (call_text (sint (tc_nextCallId c)) txt1) < CALL_BUFFER"
  shows "\<exists>table. textRPC_call_begin env (Some a) (Some node) True txt1 c
      = Inr (None, c\<lparr> tc_nextCallId := tc_nextCallId c + 1, tc_outstandingCalls := table,
          tc_calls := (tc_calls c)(a \<mapsto> \<lparr> oc_id = tc_nextCallId c, oc_error = None, oc_result = None, oc_finished = False \<rparr>),
          tc_sent := tc_sent c @ [call_text (sint (tc_nextCallId c)) txt1] \<rparr>)
    \<and> ht_for hashFunction compFunction table
    \<and> set (ht_elems table) = insert \<lparr> cr_id = tc_nextCallId c, cr_addr = a \<rparr> (set (ht_elems (tc_outstandingCalls c)))"
proof -
  let ?ref = "\<lparr> cr_id = tc_nextCallId c, cr_addr = a \<rparr>"
  have "ht_lookup (tc_outstandingCalls c) ?ref = None"
  proof (rule ccontr)
    assume "ht_lookup (tc_outstandingCalls c) ?ref \<noteq> None"
    then obtain x where "ht_lookup (tc_outstandingCalls c) ?ref = Some x" by blast
    then show False using call_keys.lookup_Some_iff[OF assms(3)] assms(4) by (auto simp: compFunction_def)
  qed
  from call_keys.add_fresh[OF assms(3) this assms(5), of node]
  obtain table where t: "HashAdd (Some node) True (tc_outstandingCalls c) ?ref = Inr (1, table)" "ht_for hashFunction compFunction table"
      "mset (ht_elems table) = add_mset ?ref (mset (ht_elems (tc_outstandingCalls c)))" by blast
  have "set (ht_elems table) = insert ?ref (set (ht_elems (tc_outstandingCalls c)))"
    using arg_cong[OF t(3), of set_mset] by simp
  moreover have "textRPC_call_begin env (Some a) (Some node) True txt1 c
      = Inr (None, c\<lparr> tc_nextCallId := tc_nextCallId c + 1, tc_outstandingCalls := table,
          tc_calls := (tc_calls c)(a \<mapsto> \<lparr> oc_id = tc_nextCallId c, oc_error = None, oc_result = None, oc_finished = False \<rparr>),
          tc_sent := tc_sent c @ [call_text (sint (tc_nextCallId c)) txt1] \<rparr>)"
    using t(1) assms(6) rpc_send_whole[OF assms(1), of "rpc_socket c" fd] assms(2)
    by (simp add: textRPC_call_begin_def Let_def)
  ultimately show ?thesis using t(2) by blast
qed

lemma end_call:
  assumes "ht_for hashFunction compFunction (tc_outstandingCalls c)" and "tc_calls c a = Some call"
    and "\<lparr> cr_id = oc_id call, cr_addr = a \<rparr> \<in> set (ht_elems (tc_outstandingCalls c))"
    and "oc_finished call" and "oc_error call = None" and "oc_result call = Some r"
  shows "\<exists>table. textRPC_call_end None a c = Inr (None, r, c\<lparr> tc_outstandingCalls := table, tc_calls := (tc_calls c)(a := None) \<rparr>)
    \<and> ht_for hashFunction compFunction table
    \<and> set (ht_elems table) = {x \<in> set (ht_elems (tc_outstandingCalls c)). cr_id x \<noteq> oc_id call}"
proof -
  let ?ref = "\<lparr> cr_id = oc_id call, cr_addr = a \<rparr>"
  have "ht_lookup (tc_outstandingCalls c) ?ref = Some ?ref"
    using call_keys.lookup_Some_iff[OF assms(1)] assms(3) by (simp add: compFunction_def)
  from call_keys.delete_present[OF assms(1) this]
  obtain table where t: "HashDelete (tc_outstandingCalls c) ?ref = Inr (1, table)" "ht_for hashFunction compFunction table"
      "\<forall>k. ht_lookup table k = (if compFunction k ?ref = 0 then None else ht_lookup (tc_outstandingCalls c) k)" by blast
  have iff: "x \<in> set (ht_elems ht) \<longleftrightarrow> ht_lookup ht x = Some x" if "ht_for hashFunction compFunction ht" for x and ht :: "(call_ref, unit) Hasht"
    using call_keys.lookup_Some_iff[OF that, of x x] by (simp add: compFunction_def)
  have "set (ht_elems table) = {x \<in> set (ht_elems (tc_outstandingCalls c)). cr_id x \<noteq> oc_id call}"
  proof (rule set_eqI)
    fix x
    show "x \<in> set (ht_elems table) \<longleftrightarrow> x \<in> {x \<in> set (ht_elems (tc_outstandingCalls c)). cr_id x \<noteq> oc_id call}"
      using spec[OF t(3), of x] by (auto simp: iff[OF assms(1)] iff[OF t(2)] compFunction_def split: if_splits)
  qed
  then show ?thesis using t(1,2) assms(2,4-6) by (intro exI[of _ table]) (simp add: textRPC_call_end_def textRPC_call_return_def)
qed

subsection \<open>Lines on their way\<close>

text \<open>
  What the reading thread of the other side makes of the texts sent, one behind the other: \<open>file_readLine\<close>
  reads a line of them into the buffer of the thread, whatever texts it is made of. Given are what it
  returns, the line and the stream behind it.
\<close>

definition receive_line :: "string list \<Rightarrow> (int \<times> string \<times> FILE) res" where
  "receive_line sent =
     rbind (file_readLine BUFSIZE 0 \<lparr> fl_input = bytes (concat sent), fl_eof = False \<rparr> (replicate BUFSIZE None)) (\<lambda>(ret, errno, f, buf).
     rbind (read_cstr buf) (\<lambda>l. Inr (ret, l, f)))"

lemma bytes_eq: "bytes a = bytes b \<longleftrightarrow> a = b"
  by (simp add: inj_map_eq_map inj_def)

lemma receive_front:
  assumes "concat sent = m @ NL # rest" and "line_ok BUFSIZE (Message m 0)"
  shows "receive_line sent = Inr (0, m, \<lparr> fl_input = bytes rest, fl_eof = False \<rparr>)"
proof -
  have "fl_input \<lparr> fl_input = bytes (concat sent), fl_eof = False \<rparr> = bytes (line_text (Message m 0)) @ bytes rest" using assms(1) by simp
  from readLine_message[OF this assms(2), of "replicate BUFSIZE None" 0] obtain buf1 where
    "read_cstr buf1 = Inr m" "file_readLine BUFSIZE 0 \<lparr> fl_input = bytes (concat sent), fl_eof = False \<rparr> (replicate BUFSIZE None)
      = Inr (0, 0, \<lparr> fl_input = bytes rest, fl_eof = False \<rparr>, buf1)" by auto
  then show ?thesis by (simp add: receive_line_def)
qed

lemma receive_nothing: "concat sent = [] \<Longrightarrow> receive_line sent \<noteq> Inr (k, l, \<lparr> fl_input = evs, fl_eof = False \<rparr>)"
  using readLine_eof[of "\<lparr> fl_input = [], fl_eof = False \<rparr>" BUFSIZE 0] by (simp add: receive_line_def res_iff del: concat_eq_Nil_conv)

text \<open>A text that stays one line: no newline, no NUL, no carriage return at its end.\<close>

definition plain_text :: "string \<Rightarrow> bool" where
  "plain_text t \<longleftrightarrow> NL \<notin> set t \<and> NUL \<notin> set t \<and> (t = [] \<or> last t \<noteq> CR)"

lemma call_line_ok:
  assumes "plain_text t" and "length (call_text (sint i) t) < CALL_BUFFER"
  shows "line_ok BUFSIZE (Message (''C '' @ print_int (sint i) @ '' '' @ t) 0)"
  using assms print_int_plain[of "sint i"] by (auto simp: plain_text_def call_text_def)

lemma result_line_ok:
  assumes "answer_fits i r"
  shows "line_ok BUFSIZE (Message (result_text i r) 0)"
proof -
  have "print_int (sint i) \<noteq> [] \<Longrightarrow> last (print_int (sint i)) \<noteq> CR"
    using print_int_chars[of "last (print_int (sint i))" "sint i"] by (auto simp: is_digit_def)
  then show ?thesis
    using assms print_int_plain[of "sint i"] by (auto simp: answer_fits_def result_text_def last_append split: option.splits)
qed

text \<open>
  A newline in the text of a call splits it: the other side takes the part before the newline for the
  whole text of the call, and the part behind it for a message of its own.
\<close>

lemma newline_splits_call:
  assumes "plain_text t" and "length (call_text (sint i) t) < CALL_BUFFER"
  shows "receive_line [call_text (sint i) (t @ NL # u)]
    = Inr (0, butlast (call_text (sint i) t), \<lparr> fl_input = bytes (u @ [NL]), fl_eof = False \<rparr>)"
  using receive_front[OF _ call_line_ok[OF assms], of "[call_text (sint i) (t @ NL # u)]" "u @ [NL]"]
  by (simp add: call_text_def butlast_append)

subsection \<open>A client and a server\<close>

text \<open>
  A client that calls and a server that answers, both past the negotiation. Calls of any number of
  client threads, the lines on their way in both directions (the bytes sent, in order, each once:
  \<open>sock_lines_delivered\<close>, cut into lines by the reading thread), the jobs of the pool, in any order, and the
  returns of the calls interleave. The application may answer what it likes, as long as it is no error
  (\<open>textRPC_remote_error\<close> has those) and the reply is a line and fits the buffer. \<open>rp_texts\<close> are the texts
  called by identifier, \<open>rp_results\<close> what the server's function was given and returned, \<open>rp_returned\<close> what
  the calls returned. An identifier is not used twice: the counter has not gone round. Each access of the
  hash table of the calls is one step, and a waiting call is woken by its broadcast only; the code
  ensures neither, since it takes no lock around the table and waits without a loop.
\<close>

record rpc_sys =
  rp_client :: sTextRPCConnection
  rp_server :: sTextRPCConnection
  rp_texts :: "32 word \<rightharpoonup> string"
  rp_results :: "32 word \<rightharpoonup> (string option \<times> string option)"
  rp_returned :: "(32 word \<times> Error \<times> string option) list"

definition job_id :: "string \<Rightarrow> 32 word" where
  "job_id input = word_of_int (atoi (fst (strsep '' '' input)))"

inductive rpc_step :: "rpc_env \<Rightarrow> rpc_sys \<Rightarrow> rpc_sys \<Rightarrow> bool" for env where
  call: "rp_texts s (tc_nextCallId (rp_client s)) = None \<Longrightarrow> tc_calls (rp_client s) a = None
    \<Longrightarrow> ht_elementCount (tc_outstandingCalls (rp_client s)) < INT_MAX \<Longrightarrow> length (call_text (sint (tc_nextCallId (rp_client s))) txt1) < CALL_BUFFER
    \<Longrightarrow> textRPC_call_begin env (Some a) (Some node) True txt1 (rp_client s) = Inr (e, c)
    \<Longrightarrow> rpc_step env s (s\<lparr> rp_client := c, rp_texts := (rp_texts s)(tc_nextCallId (rp_client s) \<mapsto> txt1) \<rparr>)"
| to_server: "receive_line (tc_sent (rp_client s)) = Inr (0, l, \<lparr> fl_input = bytes rest, fl_eof = False \<rparr>)
    \<Longrightarrow> on_message env (rpc_socket (rp_server s)) l (rp_server s) = Inr srv
    \<Longrightarrow> rpc_step env s (s\<lparr> rp_client := (rp_client s)\<lparr> tc_sent := [rest] \<rparr>, rp_server := srv \<rparr>)"
| run: "tc_jobs (rp_server s) = js @ Job_call (Some input) # ks \<Longrightarrow> dispatchFunc (snd (strsep '' '' input)) = (None, r)
    \<Longrightarrow> answer_fits (job_id input) r
    \<Longrightarrow> call_threadFunc env dispatchFunc (Some input) ((rp_server s)\<lparr> tc_jobs := js @ ks \<rparr>) = Inr srv
    \<Longrightarrow> rpc_step env s (s\<lparr> rp_server := srv, rp_results := (rp_results s)(job_id input \<mapsto> (snd (strsep '' '' input), r)) \<rparr>)"
| to_client: "receive_line (tc_sent (rp_server s)) = Inr (0, l, \<lparr> fl_input = bytes rest, fl_eof = False \<rparr>)
    \<Longrightarrow> on_message env (rpc_socket (rp_client s)) l (rp_client s) = Inr c
    \<Longrightarrow> rpc_step env s (s\<lparr> rp_server := (rp_server s)\<lparr> tc_sent := [rest] \<rparr>, rp_client := c \<rparr>)"
| return: "tc_calls (rp_client s) a = Some call \<Longrightarrow> textRPC_call_end None a (rp_client s) = Inr (e, r, c)
    \<Longrightarrow> rpc_step env s (s\<lparr> rp_client := c, rp_returned := rp_returned s @ [(oc_id call, e, r)] \<rparr>)"

inductive_cases rpc_step_elim: "rpc_step env s s'"

text \<open>The start: nothing called, nothing under way.\<close>

definition rpc_start :: "rpc_sys \<Rightarrow> bool" where
  "rpc_start s \<longleftrightarrow>
     tc_protocolState (rp_client s) = PROTOCOL_STATE_RUNNING \<and> tc_protocolState (rp_server s) = PROTOCOL_STATE_RUNNING
     \<and> tc_threadPool (rp_server s) \<and> rpc_socket (rp_client s) \<noteq> None \<and> rpc_socket (rp_server s) \<noteq> None
     \<and> ht_for hashFunction compFunction (tc_outstandingCalls (rp_client s)) \<and> ht_elems (tc_outstandingCalls (rp_client s)) = []
     \<and> tc_calls (rp_client s) = Map.empty \<and> tc_sent (rp_client s) = [] \<and> tc_sent (rp_server s) = [] \<and> tc_jobs (rp_server s) = []
     \<and> rp_texts s = Map.empty \<and> rp_results s = Map.empty \<and> rp_returned s = []"

definition rpc_reachable :: "rpc_env \<Rightarrow> rpc_sys \<Rightarrow> rpc_sys \<Rightarrow> bool" where
  "rpc_reachable env s0 s \<longleftrightarrow> (rpc_step env)\<^sup>*\<^sup>* s0 s"

text \<open>
  The invariant: \<open>cs\<close>, \<open>js\<close> and \<open>ss\<close> are the identifiers of the calls under way as lines to the server, as jobs
  and as lines to the client.
\<close>

definition ends_ok :: "rpc_sys \<Rightarrow> bool" where
  "ends_ok s \<longleftrightarrow> tc_protocolState (rp_client s) = PROTOCOL_STATE_RUNNING \<and> tc_protocolState (rp_server s) = PROTOCOL_STATE_RUNNING
     \<and> tc_threadPool (rp_server s) \<and> rpc_socket (rp_client s) \<noteq> None \<and> rpc_socket (rp_server s) \<noteq> None"

definition table_ok :: "sTextRPCConnection \<Rightarrow> bool" where
  "table_ok c \<longleftrightarrow> ht_for hashFunction compFunction (tc_outstandingCalls c)
     \<and> (\<forall>r. r \<in> set (ht_elems (tc_outstandingCalls c)) \<longleftrightarrow> (\<exists>call. tc_calls c (cr_addr r) = Some call \<and> oc_id call = cr_id r))"

definition flight_ok :: "rpc_sys \<Rightarrow> 32 word list \<Rightarrow> 32 word list \<Rightarrow> 32 word list \<Rightarrow> bool" where
  "flight_ok s cs js ss \<longleftrightarrow>
     concat (tc_sent (rp_client s)) = concat (map (\<lambda>i. call_text (sint i) (the (rp_texts s i))) cs)
     \<and> (\<forall>i \<in> set cs. length (call_text (sint i) (the (rp_texts s i))) < CALL_BUFFER)
     \<and> tc_jobs (rp_server s) = map (\<lambda>i. Job_call (Some (job_text i (the (rp_texts s i))))) js
     \<and> concat (tc_sent (rp_server s)) = concat (map (\<lambda>i. result_text i (snd (the (rp_results s i))) @ [NL]) ss)
     \<and> distinct (cs @ js @ ss)
     \<and> set (cs @ js @ ss) = {oc_id call | a call. tc_calls (rp_client s) a = Some call \<and> \<not> oc_finished call}"

definition answers_ok :: "rpc_sys \<Rightarrow> 32 word list \<Rightarrow> 32 word list \<Rightarrow> 32 word list \<Rightarrow> bool" where
  "answers_ok s cs js ss \<longleftrightarrow>
     (\<forall>i \<in> set cs \<union> set js. rp_results s i = None)
     \<and> (\<forall>i \<in> set ss. \<exists>r. rp_results s i = Some (rp_texts s i, r) \<and> answer_fits i r)
     \<and> (\<forall>a call. tc_calls (rp_client s) a = Some call \<longrightarrow> rp_texts s (oc_id call) \<noteq> None
          \<and> (oc_finished call \<longrightarrow> oc_error call = None
              \<and> (\<exists>r. oc_result call = Some r \<and> rp_results s (oc_id call) = Some (rp_texts s (oc_id call), r))))
     \<and> (\<forall>i e r. (i, e, r) \<in> set (rp_returned s) \<longrightarrow> e = None \<and> rp_texts s i \<noteq> None \<and> rp_results s i = Some (rp_texts s i, r)
          \<and> (\<forall>a call. tc_calls (rp_client s) a = Some call \<longrightarrow> oc_id call \<noteq> i))
     \<and> distinct (map fst (rp_returned s))
     \<and> dom (rp_results s) \<subseteq> dom (rp_texts s)
     \<and> (\<forall>i. rp_texts s i \<noteq> None \<longrightarrow> (\<exists>e r. (i, e, r) \<in> set (rp_returned s)) \<or> (\<exists>a call. tc_calls (rp_client s) a = Some call \<and> oc_id call = i))"

definition rpc_inv :: "rpc_sys \<Rightarrow> 32 word list \<Rightarrow> 32 word list \<Rightarrow> 32 word list \<Rightarrow> bool" where
  "rpc_inv s cs js ss \<longleftrightarrow> ends_ok s \<and> table_ok (rp_client s) \<and> flight_ok s cs js ss \<and> answers_ok s cs js ss"

lemma rpc_invD:
  assumes "rpc_inv s cs js ss"
  shows "ends_ok s" "table_ok (rp_client s)" "flight_ok s cs js ss" "answers_ok s cs js ss"
  using assms by (simp_all add: rpc_inv_def)

lemma answersD:
  assumes "answers_ok s cs js ss"
  shows "i \<in> set cs \<union> set js \<Longrightarrow> rp_results s i = None"
    and "i \<in> set ss \<Longrightarrow> \<exists>r. rp_results s i = Some (rp_texts s i, r) \<and> answer_fits i r"
    and "tc_calls (rp_client s) a = Some call \<Longrightarrow> rp_texts s (oc_id call) \<noteq> None"
    and "tc_calls (rp_client s) a = Some call \<Longrightarrow> oc_finished call \<Longrightarrow> oc_error call = None
      \<and> (\<exists>r. oc_result call = Some r \<and> rp_results s (oc_id call) = Some (rp_texts s (oc_id call), r))"
    and "(i, e, r) \<in> set (rp_returned s) \<Longrightarrow> e = None \<and> rp_texts s i \<noteq> None \<and> rp_results s i = Some (rp_texts s i, r)"
    and "(i, e, r) \<in> set (rp_returned s) \<Longrightarrow> tc_calls (rp_client s) a = Some call \<Longrightarrow> oc_id call \<noteq> i"
    and "distinct (map fst (rp_returned s))"
    and "rp_texts s i = None \<Longrightarrow> rp_results s i = None"
    and "rp_texts s i \<noteq> None \<Longrightarrow> (\<exists>e r. (i, e, r) \<in> set (rp_returned s)) \<or> (\<exists>a call. tc_calls (rp_client s) a = Some call \<and> oc_id call = i)"
  using assms unfolding answers_ok_def by (blast, blast, blast, blast, blast, blast, blast, blast, blast)

lemma answersI:
  assumes "\<And>i. i \<in> set cs \<union> set js \<Longrightarrow> rp_results s i = None"
    and "\<And>i. i \<in> set ss \<Longrightarrow> \<exists>r. rp_results s i = Some (rp_texts s i, r) \<and> answer_fits i r"
    and "\<And>a call. tc_calls (rp_client s) a = Some call \<Longrightarrow> rp_texts s (oc_id call) \<noteq> None"
    and "\<And>a call. tc_calls (rp_client s) a = Some call \<Longrightarrow> oc_finished call \<Longrightarrow> oc_error call = None
      \<and> (\<exists>r. oc_result call = Some r \<and> rp_results s (oc_id call) = Some (rp_texts s (oc_id call), r))"
    and "\<And>i e r. (i, e, r) \<in> set (rp_returned s) \<Longrightarrow> e = None \<and> rp_texts s i \<noteq> None \<and> rp_results s i = Some (rp_texts s i, r)"
    and "\<And>i e r a call. (i, e, r) \<in> set (rp_returned s) \<Longrightarrow> tc_calls (rp_client s) a = Some call \<Longrightarrow> oc_id call \<noteq> i"
    and "distinct (map fst (rp_returned s))"
    and "\<And>i. rp_texts s i = None \<Longrightarrow> rp_results s i = None"
    and "\<And>i. rp_texts s i \<noteq> None \<Longrightarrow> (\<exists>e r. (i, e, r) \<in> set (rp_returned s)) \<or> (\<exists>a call. tc_calls (rp_client s) a = Some call \<and> oc_id call = i)"
  shows "answers_ok s cs js ss"
proof -
  have "dom (rp_results s) \<subseteq> dom (rp_texts s)" using assms(8) by (metis domIff subsetI)
  then show ?thesis unfolding answers_ok_def using assms(1-7,9) by blast
qed

lemma flightD:
  assumes "flight_ok s cs js ss"
  shows "concat (tc_sent (rp_client s)) = concat (map (\<lambda>i. call_text (sint i) (the (rp_texts s i))) cs)"
    and "tc_jobs (rp_server s) = map (\<lambda>i. Job_call (Some (job_text i (the (rp_texts s i))))) js"
    and "concat (tc_sent (rp_server s)) = concat (map (\<lambda>i. result_text i (snd (the (rp_results s i))) @ [NL]) ss)"
    and "distinct (cs @ js @ ss)"
    and "i \<in> set (cs @ js @ ss) \<longleftrightarrow> (\<exists>a call. tc_calls (rp_client s) a = Some call \<and> oc_id call = i \<and> \<not> oc_finished call)"
    and "j \<in> set cs \<Longrightarrow> length (call_text (sint j) (the (rp_texts s j))) < CALL_BUFFER"
  using assms by (auto simp: flight_ok_def)

lemma flightI:
  assumes "concat (tc_sent (rp_client s)) = concat (map (\<lambda>i. call_text (sint i) (the (rp_texts s i))) cs)"
    and "tc_jobs (rp_server s) = map (\<lambda>i. Job_call (Some (job_text i (the (rp_texts s i))))) js"
    and "concat (tc_sent (rp_server s)) = concat (map (\<lambda>i. result_text i (snd (the (rp_results s i))) @ [NL]) ss)"
    and "distinct (cs @ js @ ss)"
    and "\<And>i. i \<in> set (cs @ js @ ss) \<longleftrightarrow> (\<exists>a call. tc_calls (rp_client s) a = Some call \<and> oc_id call = i \<and> \<not> oc_finished call)"
    and "\<And>i. i \<in> set cs \<Longrightarrow> length (call_text (sint i) (the (rp_texts s i))) < CALL_BUFFER"
  shows "flight_ok s cs js ss"
proof -
  have "set (cs @ js @ ss) = {oc_id call | a call. tc_calls (rp_client s) a = Some call \<and> \<not> oc_finished call}"
    by (rule set_eqI) (use assms(5) in auto)
  then show ?thesis unfolding flight_ok_def using assms(1-4,6) by blast
qed

lemma rpc_start_inv: "rpc_start s \<Longrightarrow> rpc_inv s [] [] []"
  by (auto simp: rpc_start_def rpc_inv_def ends_ok_def table_ok_def flight_ok_def answers_ok_def)

lemma table_unique:
  assumes "table_ok c" and "tc_calls c a = Some x" and "tc_calls c b = Some y" and "oc_id x = oc_id y"
  shows "a = b"
proof -
  have "\<lparr> cr_id = oc_id x, cr_addr = a \<rparr> \<in> set (ht_elems (tc_outstandingCalls c))" "\<lparr> cr_id = oc_id x, cr_addr = b \<rparr> \<in> set (ht_elems (tc_outstandingCalls c))"
    using assms by (auto simp: table_ok_def)
  then have "ht_lookup (tc_outstandingCalls c) \<lparr> cr_id = oc_id x, cr_addr = 0 \<rparr> = Some \<lparr> cr_id = oc_id x, cr_addr = a \<rparr>"
      "ht_lookup (tc_outstandingCalls c) \<lparr> cr_id = oc_id x, cr_addr = 0 \<rparr> = Some \<lparr> cr_id = oc_id x, cr_addr = b \<rparr>"
    using assms(1) call_keys.lookup_Some_iff[of "tc_outstandingCalls c"] by (auto simp: table_ok_def compFunction_def)
  then show ?thesis by simp
qed

lemma call_inv:
  assumes inv: "rpc_inv s cs js ss" and env: "good_env env"
    and fresh: "rp_texts s (tc_nextCallId (rp_client s)) = None" "tc_calls (rp_client s) a = None"
    and fits: "ht_elementCount (tc_outstandingCalls (rp_client s)) < INT_MAX" "length (call_text (sint (tc_nextCallId (rp_client s))) txt1) < CALL_BUFFER"
  shows "\<exists>c. textRPC_call_begin env (Some a) (Some node) True txt1 (rp_client s) = Inr (None, c)
    \<and> rpc_inv (s\<lparr> rp_client := c, rp_texts := (rp_texts s)(tc_nextCallId (rp_client s) \<mapsto> txt1) \<rparr>) (cs @ [tc_nextCallId (rp_client s)]) js ss"
proof -
  let ?c = "rp_client s"
  let ?id = "tc_nextCallId ?c"
  obtain fd where fd: "rpc_socket ?c = Some fd" using inv by (auto simp: rpc_inv_def ends_ok_def)
  have tab: "ht_for hashFunction compFunction (tc_outstandingCalls ?c)" using inv by (simp add: rpc_inv_def table_ok_def)
  have new: "oc_id call \<noteq> ?id" if "tc_calls ?c b = Some call" for b call
    using answersD(3)[OF rpc_invD(4)[OF inv] that] fresh(1) by auto
  have "\<forall>r \<in> set (ht_elems (tc_outstandingCalls ?c)). cr_id r \<noteq> ?id"
    using inv new by (auto simp: rpc_inv_def table_ok_def)
  from begin_call[OF env fd tab this fits, of a node] obtain table where t:
    "textRPC_call_begin env (Some a) (Some node) True txt1 ?c
      = Inr (None, ?c\<lparr> tc_nextCallId := ?id + 1, tc_outstandingCalls := table,
          tc_calls := (tc_calls ?c)(a \<mapsto> \<lparr> oc_id = ?id, oc_error = None, oc_result = None, oc_finished = False \<rparr>),
          tc_sent := tc_sent ?c @ [call_text (sint ?id) txt1] \<rparr>)"
    "ht_for hashFunction compFunction table" "set (ht_elems table) = insert \<lparr> cr_id = ?id, cr_addr = a \<rparr> (set (ht_elems (tc_outstandingCalls ?c)))" by blast
  define c where "c = ?c\<lparr> tc_nextCallId := ?id + 1, tc_outstandingCalls := table,
          tc_calls := (tc_calls ?c)(a \<mapsto> \<lparr> oc_id = ?id, oc_error = None, oc_result = None, oc_finished = False \<rparr>),
          tc_sent := tc_sent ?c @ [call_text (sint ?id) txt1] \<rparr>"
  define s' where "s' = s\<lparr> rp_client := c, rp_texts := (rp_texts s)(?id \<mapsto> txt1) \<rparr>"
  have notin: "?id \<notin> set (cs @ js @ ss)" using flightD(5)[OF rpc_invD(3)[OF inv]] new by blast
  have "ends_ok s'" using inv by (simp add: rpc_inv_def ends_ok_def s'_def c_def)
  moreover have "table_ok c"
  proof -
    have "r \<in> set (ht_elems table) \<longleftrightarrow> (\<exists>call. tc_calls c (cr_addr r) = Some call \<and> oc_id call = cr_id r)" for r
      using inv t(3) fresh(2) new by (cases "cr_addr r = a"; cases r) (auto simp: rpc_inv_def table_ok_def c_def)
    then show ?thesis using t(2) by (simp add: table_ok_def c_def)
  qed
  moreover have "flight_ok s' (cs @ [?id]) js ss"
  proof -
    note F = flightD[OF rpc_invD(3)[OF inv]]
    have "i \<in> set ((cs @ [?id]) @ js @ ss) \<longleftrightarrow> (\<exists>b call. tc_calls c b = Some call \<and> oc_id call = i \<and> \<not> oc_finished call)" for i
      using F(5)[of i] fresh(2) by (auto simp: c_def) (metis option.distinct(1))+
    moreover have "concat (map (\<lambda>i. call_text (sint i) (the (rp_texts s' i))) cs) = concat (map (\<lambda>i. call_text (sint i) (the (rp_texts s i))) cs)"
      by (rule arg_cong[of _ _ concat]) (use notin in \<open>auto simp: s'_def\<close>)
    ultimately show ?thesis
      by (intro flightI) (use F(1-4,6) notin fits(2) in \<open>auto simp: s'_def c_def\<close>)
  qed
  moreover have "answers_ok s' (cs @ [?id]) js ss"
  proof -
    note A = answersD[OF rpc_invD(4)[OF inv]]
    have calls: "b = a \<and> call = \<lparr> oc_id = ?id, oc_error = None, oc_result = None, oc_finished = False \<rparr> \<or> b \<noteq> a \<and> tc_calls ?c b = Some call"
      if "tc_calls c b = Some call" for b call using that by (auto simp: c_def split: if_splits)
    have returned: "i \<noteq> ?id" if "(i, e, r) \<in> set (rp_returned s)" for i e r using A(5)[OF that] fresh(1) by auto
    have cl: "rp_client s' = c" "rp_results s' = rp_results s" "rp_returned s' = rp_returned s" by (simp_all add: s'_def)
    have tx: "rp_texts s' i = (if i = ?id then Some txt1 else rp_texts s i)" for i by (simp add: s'_def)
    show ?thesis
    proof (rule answersI, unfold cl)
      show "rp_results s i = None" if "i \<in> set (cs @ [?id]) \<union> set js" for i using that A(1)[of i] A(8)[OF fresh(1)] by auto
      show "\<exists>r. rp_results s i = Some (rp_texts s' i, r) \<and> answer_fits i r" if "i \<in> set ss" for i using A(2)[OF that] that notin by (auto simp: tx)
      show "rp_texts s' (oc_id call) \<noteq> None" if "tc_calls c b = Some call" for b call using calls[OF that] A(3)[of b call] by (auto simp: tx)
      show "oc_error call = None \<and> (\<exists>r. oc_result call = Some r \<and> rp_results s (oc_id call) = Some (rp_texts s' (oc_id call), r))"
        if "tc_calls c b = Some call" "oc_finished call" for b call using calls[OF that(1)] that(2) A(4)[of b call] new[of b call] by (auto simp: tx)
      show "e = None \<and> rp_texts s' i \<noteq> None \<and> rp_results s i = Some (rp_texts s' i, r)" if "(i, e, r) \<in> set (rp_returned s)" for i e r
        using A(5)[OF that] returned[OF that] by (simp add: tx)
      show "oc_id call \<noteq> i" if "(i, e, r) \<in> set (rp_returned s)" "tc_calls c b = Some call" for i e r b call
        using calls[OF that(2)] A(6)[OF that(1), of b call] returned[OF that(1)] by auto
      show "distinct (map fst (rp_returned s))" by (rule A(7))
      show "rp_results s i = None" if "rp_texts s' i = None" for i using that A(8)[of i] by (auto simp: tx split: if_splits)
      show "(\<exists>e r. (i, e, r) \<in> set (rp_returned s)) \<or> (\<exists>b call. tc_calls c b = Some call \<and> oc_id call = i)" if "rp_texts s' i \<noteq> None" for i
      proof (cases "i = ?id")
        case True
        then show ?thesis by (intro disjI2 exI[of _ a]) (simp add: c_def)
      next
        case False
        then show ?thesis using A(9)[of i] that fresh(2) by (auto simp: tx c_def) (metis option.distinct(1))
      qed
    qed
  qed
  ultimately have "rpc_inv s' (cs @ [?id]) js ss" by (simp add: rpc_inv_def s'_def)
  then show ?thesis using t(1) unfolding s'_def c_def by blast
qed

text \<open>The texts called, all of them: the identifiers only grow.\<close>

definition plain_texts :: "rpc_sys \<Rightarrow> bool" where
  "plain_texts s \<longleftrightarrow> (\<forall>i t. rp_texts s i = Some t \<longrightarrow> plain_text t)"

lemma flight_text:
  assumes "rpc_inv s cs js ss" and "i \<in> set (cs @ js @ ss)"
  shows "rp_texts s i = Some (the (rp_texts s i))"
  using flightD(5)[OF rpc_invD(3)[OF assms(1)], of i] answersD(3)[OF rpc_invD(4)[OF assms(1)]] assms(2) by fastforce

lemma to_server_inv:
  assumes inv: "rpc_inv s (i # cs) js ss" and env: "good_env env" and plain: "plain_texts s"
  defines "line \<equiv> butlast (call_text (sint i) (the (rp_texts s i)))"
    and "rest \<equiv> concat (map (\<lambda>i. call_text (sint i) (the (rp_texts s i))) cs)"
  shows "receive_line (tc_sent (rp_client s)) = Inr (0, line, \<lparr> fl_input = bytes rest, fl_eof = False \<rparr>)"
    and "\<exists>srv. on_message env connection line (rp_server s) = Inr srv
      \<and> rpc_inv (s\<lparr> rp_client := (rp_client s)\<lparr> tc_sent := [rest] \<rparr>, rp_server := srv \<rparr>) cs (js @ [i]) ss"
proof -
  note F = flightD[OF rpc_invD(3)[OF inv]]
  have "line_ok BUFSIZE (Message line 0)"
    using call_line_ok[of "the (rp_texts s i)" i] flight_text[OF inv, of i] plain F(6)[of i]
    by (simp add: line_def plain_texts_def call_text_def butlast_append)
  moreover have "concat (tc_sent (rp_client s)) = line @ NL # rest"
    using F(1) by (simp add: line_def rest_def call_text_def butlast_append)
  ultimately show "receive_line (tc_sent (rp_client s)) = Inr (0, line, \<lparr> fl_input = bytes rest, fl_eof = False \<rparr>)"
    by (intro receive_front)
  let ?srv = "(rp_server s)\<lparr> tc_jobs := tc_jobs (rp_server s) @ [Job_call (Some (job_text i (the (rp_texts s i))))] \<rparr>"
  let ?s = "s\<lparr> rp_client := (rp_client s)\<lparr> tc_sent := [rest] \<rparr>, rp_server := ?srv \<rparr>"
  have "on_message env connection line (rp_server s) = Inr ?srv" unfolding line_def
    by (rule receive_call[OF env]) (use rpc_invD(1)[OF inv] in \<open>auto simp: ends_ok_def\<close>)
  moreover have "ends_ok ?s" "table_ok (rp_client ?s)" using rpc_invD(1,2)[OF inv] by (auto simp: ends_ok_def table_ok_def)
  moreover have "flight_ok ?s cs (js @ [i]) ss"
    by (rule flightI) (use F(1-4,6) F(5)[symmetric] in \<open>auto simp: rest_def\<close>)
  moreover have "answers_ok ?s cs (js @ [i]) ss"
    using rpc_invD(4)[OF inv] unfolding answers_ok_def by simp
  ultimately show "\<exists>srv. on_message env connection line (rp_server s) = Inr srv
      \<and> rpc_inv (s\<lparr> rp_client := (rp_client s)\<lparr> tc_sent := [rest] \<rparr>, rp_server := srv \<rparr>) cs (js @ [i]) ss"
    unfolding rpc_inv_def by blast
qed

lemma job_text_parts:
  "strsep '' '' (job_text i t) = (print_int (sint i), Some t)" "job_id (job_text i t) = i"
  using strsep_print_int(1)[of "'' ''" "sint i" t] by (simp_all add: job_text_def job_id_def atoi_print_int)

lemma rpc_run_inv:
  assumes inv: "rpc_inv s cs (js @ i # ks) ss" and env: "good_env env"
    and dispatch: "dispatchFunc (rp_texts s i) = (None, r)" "answer_fits i r"
  defines "input \<equiv> job_text i (the (rp_texts s i))" and "job \<equiv> \<lambda>i. Job_call (Some (job_text i (the (rp_texts s i))))"
  shows "rp_texts s i = Some (the (rp_texts s i))" "rp_results s i = None"
    and "\<exists>srv. call_threadFunc env dispatchFunc (Some input) ((rp_server s)\<lparr> tc_jobs := map job js @ map job ks \<rparr>) = Inr srv
      \<and> rpc_inv (s\<lparr> rp_server := srv, rp_results := (rp_results s)(i \<mapsto> (rp_texts s i, r)) \<rparr>) cs (js @ ks) (ss @ [i])"
proof -
  note F = flightD[OF rpc_invD(3)[OF inv]] and A = answersD[OF rpc_invD(4)[OF inv]]
  show t: "rp_texts s i = Some (the (rp_texts s i))" using F(5)[of i] A(3) by auto
  show none: "rp_results s i = None" by (rule A(1)) simp
  obtain fd where fd: "rpc_socket (rp_server s) = Some fd" using rpc_invD(1)[OF inv] by (auto simp: ends_ok_def)
  let ?srv = "(rp_server s)\<lparr> tc_jobs := map job js @ map job ks, tc_sent := tc_sent (rp_server s) @ [result_text i r @ [NL]] \<rparr>"
  let ?s = "s\<lparr> rp_server := ?srv, rp_results := (rp_results s)(i \<mapsto> (rp_texts s i, r)) \<rparr>"
  have disp: "dispatchFunc (Some (the (rp_texts s i))) = (None, r)" using dispatch(1) t by simp
  have "call_threadFunc env dispatchFunc (Some input) ((rp_server s)\<lparr> tc_jobs := map job js @ map job ks \<rparr>) = Inr ?srv"
    using run_call[of env "(rp_server s)\<lparr> tc_jobs := map job js @ map job ks \<rparr>" fd i r dispatchFunc "the (rp_texts s i)"]
      env dispatch(2) disp fd by (simp add: input_def)
  moreover have "ends_ok ?s" "table_ok (rp_client ?s)" using rpc_invD(1,2)[OF inv] by (auto simp: ends_ok_def table_ok_def)
  moreover have "concat (map (\<lambda>j. result_text j (snd (the (rp_results ?s j))) @ [NL]) ss) = concat (map (\<lambda>j. result_text j (snd (the (rp_results s j))) @ [NL]) ss)"
    by (rule arg_cong[of _ _ concat]) (use F(4) in auto)
  then have "flight_ok ?s cs (js @ ks) (ss @ [i])"
    by (intro flightI) (use F(1,3,4,6) F(5)[symmetric] in \<open>auto simp: job_def\<close>)
  moreover have "answers_ok ?s cs (js @ ks) (ss @ [i])"
  proof (rule answersI)
    have cl: "rp_client ?s = rp_client s" "rp_texts ?s = rp_texts s" "rp_returned ?s = rp_returned s" by simp_all
    have res: "rp_results ?s j = (if j = i then Some (rp_texts s i, r) else rp_results s j)" for j by simp
    show "rp_results ?s j = None" if "j \<in> set cs \<union> set (js @ ks)" for j using that A(1)[of j] F(4) by auto
    show "\<exists>r. rp_results ?s j = Some (rp_texts ?s j, r) \<and> answer_fits j r" if "j \<in> set (ss @ [i])" for j
      using that A(2)[of j] dispatch(2) by auto
    show "rp_texts ?s (oc_id call) \<noteq> None" if "tc_calls (rp_client ?s) a = Some call" for a call using that A(3) by simp
    show "oc_error call = None \<and> (\<exists>r. oc_result call = Some r \<and> rp_results ?s (oc_id call) = Some (rp_texts ?s (oc_id call), r))"
      if "tc_calls (rp_client ?s) a = Some call" "oc_finished call" for a call using that A(4)[of a call] none by auto
    show "e = None \<and> rp_texts ?s j \<noteq> None \<and> rp_results ?s j = Some (rp_texts ?s j, x)" if "(j, e, x) \<in> set (rp_returned ?s)" for j e x
      using that A(5)[of j e x] none by auto
    show "oc_id call \<noteq> j" if "(j, e, x) \<in> set (rp_returned ?s)" "tc_calls (rp_client ?s) a = Some call" for j e x a call
      using that A(6) unfolding cl by blast
    show "distinct (map fst (rp_returned ?s))" using A(7) by simp
    show "rp_results ?s j = None" if "rp_texts ?s j = None" for j using that A(8)[of j] t by auto
    show "(\<exists>e r. (j, e, r) \<in> set (rp_returned ?s)) \<or> (\<exists>a call. tc_calls (rp_client ?s) a = Some call \<and> oc_id call = j)"
      if "rp_texts ?s j \<noteq> None" for j using that A(9)[of j] unfolding cl by blast
  qed
  ultimately show "\<exists>srv. call_threadFunc env dispatchFunc (Some input) ((rp_server s)\<lparr> tc_jobs := map job js @ map job ks \<rparr>) = Inr srv
      \<and> rpc_inv (s\<lparr> rp_server := srv, rp_results := (rp_results s)(i \<mapsto> (rp_texts s i, r)) \<rparr>) cs (js @ ks) (ss @ [i])"
    unfolding rpc_inv_def by blast
qed

lemma to_client_inv:
  assumes inv: "rpc_inv s cs js (i # ss)" and env: "good_env env"
  defines "line \<equiv> result_text i (snd (the (rp_results s i)))"
    and "rest \<equiv> concat (map (\<lambda>i. result_text i (snd (the (rp_results s i))) @ [NL]) ss)"
  shows "receive_line (tc_sent (rp_server s)) = Inr (0, line, \<lparr> fl_input = bytes rest, fl_eof = False \<rparr>)"
    and "\<exists>c. on_message env connection line (rp_client s) = Inr c
      \<and> tc_outstandingCalls c = tc_outstandingCalls (rp_client s)
      \<and> rpc_inv (s\<lparr> rp_server := (rp_server s)\<lparr> tc_sent := [rest] \<rparr>, rp_client := c \<rparr>) cs js ss"
proof -
  note F = flightD[OF rpc_invD(3)[OF inv]] and A = answersD[OF rpc_invD(4)[OF inv]] and T = rpc_invD(2)[OF inv]
  obtain a call where call: "tc_calls (rp_client s) a = Some call" "oc_id call = i" "\<not> oc_finished call" using F(5)[of i] by auto
  obtain r where r: "rp_results s i = Some (rp_texts s i, r)" "answer_fits i r" using A(2)[of i] by auto
  have "concat (tc_sent (rp_server s)) = line @ NL # rest" using F(3) by (simp add: line_def rest_def)
  then show "receive_line (tc_sent (rp_server s)) = Inr (0, line, \<lparr> fl_input = bytes rest, fl_eof = False \<rparr>)"
    using result_line_ok[OF r(2)] r(1) by (intro receive_front) (simp_all add: line_def)
  let ?new = "call\<lparr> oc_result := Some r, oc_error := None, oc_finished := True \<rparr>"
  define c where "c = (rp_client s)\<lparr> tc_calls := (tc_calls (rp_client s))(a \<mapsto> ?new) \<rparr>"
  define s' where "s' = s\<lparr> rp_server := (rp_server s)\<lparr> tc_sent := [rest] \<rparr>, rp_client := c \<rparr>"
  have other: "b = a \<and> x = ?new \<or> b \<noteq> a \<and> tc_calls (rp_client s) b = Some x \<and> oc_id x \<noteq> i" if "tc_calls c b = Some x" for b x
    using that table_unique[OF T call(1), of b x] call(2) by (auto simp: c_def split: if_splits)
  have "\<lparr> cr_id = i, cr_addr = a \<rparr> \<in> set (ht_elems (tc_outstandingCalls (rp_client s)))" using T call(1,2) by (auto simp: table_ok_def)
  then have "on_message env connection line (rp_client s) = Inr c"
    using receive_result[OF env _ _ _ call(1), of i connection r] rpc_invD(1)[OF inv] T r
    by (simp add: line_def c_def ends_ok_def table_ok_def)
  moreover have "ends_ok s'" using rpc_invD(1)[OF inv] by (simp add: ends_ok_def s'_def c_def)
  moreover have "table_ok c"
  proof -
    have "(\<exists>x. tc_calls c b = Some x \<and> oc_id x = j) \<longleftrightarrow> (\<exists>x. tc_calls (rp_client s) b = Some x \<and> oc_id x = j)" for b j
      using call(1) by (auto simp: c_def)
    then show ?thesis using T by (simp add: table_ok_def) (simp add: c_def)
  qed
  moreover have "flight_ok s' cs js ss"
  proof (rule flightI)
    fix j
    have "j \<in> set (cs @ js @ ss) \<longleftrightarrow> j \<in> set (cs @ js @ i # ss) \<and> j \<noteq> i" using F(4) by auto
    also have "\<dots> \<longleftrightarrow> (\<exists>b x. tc_calls c b = Some x \<and> oc_id x = j \<and> \<not> oc_finished x)"
    proof
      assume "j \<in> set (cs @ js @ i # ss) \<and> j \<noteq> i"
      then obtain b x where b: "tc_calls (rp_client s) b = Some x" "oc_id x = j" "\<not> oc_finished x" "j \<noteq> i" using F(5)[of j] by blast
      then have "b \<noteq> a" using call(1,2) by auto
      then show "\<exists>b x. tc_calls c b = Some x \<and> oc_id x = j \<and> \<not> oc_finished x" using b(1-3) by (intro exI[of _ b] exI[of _ x]) (simp add: c_def)
    next
      assume "\<exists>b x. tc_calls c b = Some x \<and> oc_id x = j \<and> \<not> oc_finished x"
      then obtain b x where b: "tc_calls c b = Some x" "oc_id x = j" "\<not> oc_finished x" by blast
      then show "j \<in> set (cs @ js @ i # ss) \<and> j \<noteq> i" using other[OF b(1)] F(5)[of j] by auto
    qed
    finally show "j \<in> set (cs @ js @ ss) \<longleftrightarrow> (\<exists>b x. tc_calls (rp_client s') b = Some x \<and> oc_id x = j \<and> \<not> oc_finished x)" by (simp add: s'_def)
  qed (use F(1-4,6) in \<open>auto simp: s'_def c_def rest_def\<close>)
  moreover have "answers_ok s' cs js ss"
  proof (rule answersI)
    have cl: "rp_client s' = c" "rp_results s' = rp_results s" "rp_texts s' = rp_texts s" "rp_returned s' = rp_returned s" by (simp_all add: s'_def)
    show "rp_results s' j = None" if "j \<in> set cs \<union> set js" for j using A(1)[OF that] by (simp add: cl)
    show "\<exists>x. rp_results s' j = Some (rp_texts s' j, x) \<and> answer_fits j x" if "j \<in> set ss" for j using that A(2)[of j] by (simp add: cl)
    show "rp_texts s' (oc_id x) \<noteq> None" if "tc_calls (rp_client s') b = Some x" for b x
      using that other[of b x] A(3)[of b x] A(3)[OF call(1)] call(2) by (auto simp: cl)
    show "oc_error x = None \<and> (\<exists>r. oc_result x = Some r \<and> rp_results s' (oc_id x) = Some (rp_texts s' (oc_id x), r))"
      if "tc_calls (rp_client s') b = Some x" "oc_finished x" for b x
      using that other[of b x] A(4)[of b x] r call(2) by (auto simp: cl)
    show "e = None \<and> rp_texts s' j \<noteq> None \<and> rp_results s' j = Some (rp_texts s' j, x)" if "(j, e, x) \<in> set (rp_returned s')" for j e x
      using that A(5)[of j e x] by (simp add: cl)
    show "oc_id x \<noteq> j" if "(j, e, y) \<in> set (rp_returned s')" "tc_calls (rp_client s') b = Some x" for j e y b x
      using that other[of b x] A(6)[of j e y b x] A(6)[of j e y a call] call(1,2) by (auto simp: cl)
    show "distinct (map fst (rp_returned s'))" using A(7) by (simp add: cl)
    show "rp_results s' j = None" if "rp_texts s' j = None" for j using that A(8)[of j] by (simp add: cl)
    show "(\<exists>e y. (j, e, y) \<in> set (rp_returned s')) \<or> (\<exists>b x. tc_calls (rp_client s') b = Some x \<and> oc_id x = j)"
      if "rp_texts s' j \<noteq> None" for j
    proof -
      have "\<exists>b x. tc_calls c b = Some x \<and> oc_id x = j" if "tc_calls (rp_client s) b = Some x" "oc_id x = j" for b x
        using that call(1) by (cases "b = a") (auto simp: c_def)
      then show ?thesis using A(9)[of j] \<open>rp_texts s' j \<noteq> None\<close> unfolding cl by blast
    qed
  qed
  moreover have "tc_outstandingCalls c = tc_outstandingCalls (rp_client s)" by (simp add: c_def)
  ultimately have "on_message env connection line (rp_client s) = Inr c \<and> tc_outstandingCalls c = tc_outstandingCalls (rp_client s)
      \<and> rpc_inv s' cs js ss" by (simp add: rpc_inv_def s'_def)
  then show "\<exists>c. on_message env connection line (rp_client s) = Inr c \<and> tc_outstandingCalls c = tc_outstandingCalls (rp_client s)
      \<and> rpc_inv (s\<lparr> rp_server := (rp_server s)\<lparr> tc_sent := [rest] \<rparr>, rp_client := c \<rparr>) cs js ss"
    unfolding s'_def by blast
qed

lemma return_inv:
  assumes inv: "rpc_inv s cs js ss" and call: "tc_calls (rp_client s) a = Some call" "oc_finished call"
  shows "\<exists>r c. textRPC_call_end None a (rp_client s) = Inr (None, r, c) \<and> rp_results s (oc_id call) = Some (rp_texts s (oc_id call), r)
    \<and> card (set (ht_elems (tc_outstandingCalls c))) < card (set (ht_elems (tc_outstandingCalls (rp_client s))))
    \<and> rpc_inv (s\<lparr> rp_client := c, rp_returned := rp_returned s @ [(oc_id call, None, r)] \<rparr>) cs js ss"
proof -
  note F = flightD[OF rpc_invD(3)[OF inv]] and A = answersD[OF rpc_invD(4)[OF inv]] and T = rpc_invD(2)[OF inv]
  obtain r where r: "oc_error call = None" "oc_result call = Some r" "rp_results s (oc_id call) = Some (rp_texts s (oc_id call), r)"
    using A(4)[OF call] by blast
  have tab: "ht_for hashFunction compFunction (tc_outstandingCalls (rp_client s))" using T by (simp add: table_ok_def)
  have mem: "\<lparr> cr_id = oc_id call, cr_addr = a \<rparr> \<in> set (ht_elems (tc_outstandingCalls (rp_client s)))" using T call(1) by (auto simp: table_ok_def)
  from end_call[OF tab call(1) mem call(2) r(1,2)] obtain table where t:
    "textRPC_call_end None a (rp_client s) = Inr (None, r, (rp_client s)\<lparr> tc_outstandingCalls := table, tc_calls := (tc_calls (rp_client s))(a := None) \<rparr>)"
    "ht_for hashFunction compFunction table" "set (ht_elems table) = {x \<in> set (ht_elems (tc_outstandingCalls (rp_client s))). cr_id x \<noteq> oc_id call}" by blast
  define c where "c = (rp_client s)\<lparr> tc_outstandingCalls := table, tc_calls := (tc_calls (rp_client s))(a := None) \<rparr>"
  define s' where "s' = s\<lparr> rp_client := c, rp_returned := rp_returned s @ [(oc_id call, None, r)] \<rparr>"
  have other: "tc_calls c b = Some x \<longleftrightarrow> tc_calls (rp_client s) b = Some x \<and> oc_id x \<noteq> oc_id call" for b x
    using table_unique[OF T call(1), of b x] call(1) by (auto simp: c_def)
  have "ends_ok s'" using rpc_invD(1)[OF inv] by (simp add: ends_ok_def s'_def c_def)
  moreover have "table_ok c"
  proof -
    have "x \<in> set (ht_elems table) \<longleftrightarrow> (\<exists>y. tc_calls c (cr_addr x) = Some y \<and> oc_id y = cr_id x)" for x
      using T t(3) by (auto simp: other table_ok_def)
    then show ?thesis using t(2) by (simp add: table_ok_def) (simp add: c_def)
  qed
  moreover have "flight_ok s' cs js ss"
  proof (rule flightI)
    fix j
    have "oc_id x \<noteq> oc_id call" if "tc_calls (rp_client s) b = Some x" "\<not> oc_finished x" for b x
      using table_unique[OF T call(1) that(1)] that call by auto
    then show "j \<in> set (cs @ js @ ss) \<longleftrightarrow> (\<exists>b x. tc_calls (rp_client s') b = Some x \<and> oc_id x = j \<and> \<not> oc_finished x)"
      using F(5)[of j] by (auto simp: s'_def other)
  qed (use F(1-4,6) in \<open>auto simp: s'_def c_def\<close>)
  moreover have "answers_ok s' cs js ss"
  proof (rule answersI)
    have cl: "rp_client s' = c" "rp_results s' = rp_results s" "rp_texts s' = rp_texts s"
      "rp_returned s' = rp_returned s @ [(oc_id call, None, r)]" by (simp_all add: s'_def)
    show "rp_results s' j = None" if "j \<in> set cs \<union> set js" for j using A(1)[OF that] by (simp add: cl)
    show "\<exists>x. rp_results s' j = Some (rp_texts s' j, x) \<and> answer_fits j x" if "j \<in> set ss" for j using A(2)[OF that] by (simp add: cl)
    show "rp_texts s' (oc_id x) \<noteq> None" if "tc_calls (rp_client s') b = Some x" for b x using that A(3)[of b x] by (simp add: cl other)
    show "oc_error x = None \<and> (\<exists>r. oc_result x = Some r \<and> rp_results s' (oc_id x) = Some (rp_texts s' (oc_id x), r))"
      if "tc_calls (rp_client s') b = Some x" "oc_finished x" for b x using that A(4)[of b x] by (simp add: cl other)
    show "e = None \<and> rp_texts s' j \<noteq> None \<and> rp_results s' j = Some (rp_texts s' j, x)" if "(j, e, x) \<in> set (rp_returned s')" for j e x
      using that A(5)[of j e x] r(3) A(3)[OF call(1)] by (auto simp: cl)
    show "oc_id x \<noteq> j" if "(j, e, y) \<in> set (rp_returned s')" "tc_calls (rp_client s') b = Some x" for j e y b x
      using that A(6)[of j e y b x] by (auto simp: cl other)
    show "distinct (map fst (rp_returned s'))" using A(7) A(6)[OF _ call(1)] by (force simp: cl)
    show "rp_results s' j = None" if "rp_texts s' j = None" for j using that A(8)[of j] by (simp add: cl)
    show "(\<exists>e y. (j, e, y) \<in> set (rp_returned s')) \<or> (\<exists>b x. tc_calls (rp_client s') b = Some x \<and> oc_id x = j)"
      if "rp_texts s' j \<noteq> None" for j
      using that A(9)[of j] by (cases "j = oc_id call") (auto simp: cl other)
  qed
  ultimately have i: "rpc_inv s' cs js ss" by (simp add: rpc_inv_def s'_def)
  have "\<lparr> cr_id = oc_id call, cr_addr = a \<rparr> \<notin> set (ht_elems table)" using t(3) by simp
  then have "set (ht_elems table) \<subset> set (ht_elems (tc_outstandingCalls (rp_client s)))" using mem t(3) by blast
  then have "card (set (ht_elems (tc_outstandingCalls c))) < card (set (ht_elems (tc_outstandingCalls (rp_client s))))"
    by (simp add: c_def psubset_card_mono)
  then show ?thesis using t(1) r(3) i unfolding s'_def c_def by blast
qed

text \<open>
  How much is left to do for the calls made so far: every line to the server is three steps away from the
  call it answers, every job two, every line to the client one, and every call in the table has to return.
\<close>

definition under_way :: "rpc_sys \<Rightarrow> nat" where
  "under_way s = 3 * count_list (concat (tc_sent (rp_client s))) NL + 2 * length (tc_jobs (rp_server s))
     + count_list (concat (tc_sent (rp_server s))) NL"

definition work_left :: "rpc_sys \<Rightarrow> nat" where
  "work_left s = card (set (ht_elems (tc_outstandingCalls (rp_client s)))) + under_way s"

lemma count_lines: "(\<And>x. x \<in> set xs \<Longrightarrow> count_list (f x) NL = 1) \<Longrightarrow> count_list (concat (map f xs)) NL = length xs"
  by (induction xs) auto

lemma under_way_inv:
  assumes inv: "rpc_inv s cs js ss" and plain: "plain_texts s"
  shows "under_way s = 3 * length cs + 2 * length js + length ss"
proof -
  note F = flightD[OF rpc_invD(3)[OF inv]]
  have "count_list (concat (map (\<lambda>i. call_text (sint i) (the (rp_texts s i))) cs)) NL = length cs"
  proof (rule count_lines)
    fix i assume "i \<in> set cs"
    then have "plain_text (the (rp_texts s i))" using flight_text[OF inv, of i] plain by (auto simp: plain_texts_def)
    then show "count_list (call_text (sint i) (the (rp_texts s i))) NL = 1"
      using print_int_plain[of "sint i"] by (auto simp: plain_text_def call_text_def count_notin)
  qed
  moreover have "count_list (concat (map (\<lambda>i. result_text i (snd (the (rp_results s i))) @ [NL]) ss)) NL = length ss"
  proof (rule count_lines)
    fix i assume "i \<in> set ss"
    then obtain r where "rp_results s i = Some (rp_texts s i, r)" "answer_fits i r" using answersD(2)[OF rpc_invD(4)[OF inv]] by blast
    then show "count_list (result_text i (snd (the (rp_results s i))) @ [NL]) NL = 1" using result_line_ok[of i r] by (auto simp: count_notin)
  qed
  ultimately show ?thesis using F(1-3) by (simp add: under_way_def)
qed

lemma rpc_step_inv:
  assumes "rpc_step env s s'" and inv: "rpc_inv s cs js ss" and env: "good_env env" and plain: "plain_texts s"
  shows "(\<exists>cs js ss. rpc_inv s' cs js ss) \<and> rp_results s \<subseteq>\<^sub>m rp_results s' \<and> (rp_texts s' = rp_texts s \<longrightarrow> work_left s' < work_left s)"
  using assms(1)
proof cases
  case (call a txt1 node e c)
  have "rp_texts s' (tc_nextCallId (rp_client s)) \<noteq> rp_texts s (tc_nextCallId (rp_client s))" using call(1,2) by simp
  then have "rp_texts s' \<noteq> rp_texts s" by metis
  moreover have "\<exists>cs js ss. rpc_inv s' cs js ss" using call_inv[OF inv env call(2-5), of node] call(1,6) by auto
  ultimately show ?thesis using call(1) by (simp add: map_le_def)
next
  case (to_server l rest srv)
  obtain i cs' where cs: "cs = i # cs'"
    using flightD(1)[OF rpc_invD(3)[OF inv]] receive_nothing[of "tc_sent (rp_client s)"] to_server(2) by (cases cs) auto
  note step = to_server_inv[OF inv[unfolded cs] env plain]
  have l: "l = butlast (call_text (sint i) (the (rp_texts s i)))" "rest = concat (map (\<lambda>i. call_text (sint i) (the (rp_texts s i))) cs')"
    using step(1) to_server(2) by (simp_all add: bytes_eq)
  then have i: "rpc_inv s' cs' (js @ [i]) ss" using step(2)[of "rpc_socket (rp_server s)"] to_server(1,3) by auto
  have "plain_texts s'" using plain to_server(1) by (simp add: plain_texts_def)
  then have "work_left s' < work_left s"
    using under_way_inv[OF i] under_way_inv[OF inv plain] cs to_server(1) by (simp add: work_left_def)
  then show ?thesis using i to_server(1) by (auto simp: map_le_def)
next
  case (run xs input ys dispatchFunc r srv)
  let ?job = "\<lambda>i. Job_call (Some (job_text i (the (rp_texts s i))))"
  have "map ?job js = xs @ Job_call (Some input) # ys" using flightD(2)[OF rpc_invD(3)[OF inv]] run(2) by simp
  then obtain js1 zs where zs: "js = js1 @ zs" "map ?job js1 = xs" "map ?job zs = Job_call (Some input) # ys"
    by (metis (no_types, lifting) map_eq_append_conv)
  then obtain i js2 where "zs = i # js2" "?job i = Job_call (Some input)" "map ?job js2 = ys" by (cases zs) auto
  then have js: "js = js1 @ i # js2" "map ?job js1 = xs" "map ?job js2 = ys" "input = job_text i (the (rp_texts s i))" using zs by auto
  have t: "rp_texts s i = Some (the (rp_texts s i))" using flight_text[OF inv, of i] js(1) by simp
  have d: "dispatchFunc (rp_texts s i) = (None, r)" "answer_fits i r" using run(3,4) js(4) job_text_parts[of i] t by auto
  note step = rpc_run_inv[of s cs js1 i js2 ss env dispatchFunc r, OF inv[unfolded js(1)] env d]
  have i: "rpc_inv s' cs (js1 @ js2) (ss @ [i])" "rp_results s \<subseteq>\<^sub>m rp_results s'"
    using step run(1,5) js(2-4) job_text_parts[of i "the (rp_texts s i)"] t by (auto simp: map_le_def)
  have c: "rp_client s' = rp_client s" "plain_texts s'" using plain run(1) by (simp_all add: plain_texts_def)
  then have "work_left s' < work_left s"
    using under_way_inv[OF i(1)] under_way_inv[OF inv plain] js(1) by (simp add: work_left_def)
  then show ?thesis using i by blast
next
  case (to_client l rest c)
  obtain i ss' where ss: "ss = i # ss'"
    using flightD(3)[OF rpc_invD(3)[OF inv]] receive_nothing[of "tc_sent (rp_server s)"] to_client(2) by (cases ss) auto
  note step = to_client_inv[OF inv[unfolded ss] env]
  have l: "l = result_text i (snd (the (rp_results s i)))" "rest = concat (map (\<lambda>i. result_text i (snd (the (rp_results s i))) @ [NL]) ss')"
    using step(1) to_client(2) by (simp_all add: bytes_eq)
  then have i: "rpc_inv s' cs js ss'" "tc_outstandingCalls (rp_client s') = tc_outstandingCalls (rp_client s)"
    using step(2)[of "rpc_socket (rp_client s)"] to_client(1,3) by auto
  have "plain_texts s'" using plain to_client(1) by (simp add: plain_texts_def)
  then have "work_left s' < work_left s"
    using under_way_inv[OF i(1)] under_way_inv[OF inv plain] ss i(2) by (simp add: work_left_def)
  then show ?thesis using i(1) to_client(1) by (auto simp: map_le_def)
next
  case (return a call e r c)
  have "oc_finished call" using return(2,3) by (auto simp: textRPC_call_end_def res_iff)
  from return_inv[OF inv return(2) this] have i: "rpc_inv s' cs js ss"
      "card (set (ht_elems (tc_outstandingCalls (rp_client s')))) < card (set (ht_elems (tc_outstandingCalls (rp_client s))))"
    using return(1,3) by auto
  have "plain_texts s'" using plain return(1) by (simp add: plain_texts_def)
  then have "work_left s' < work_left s"
    using under_way_inv[OF i(1)] under_way_inv[OF inv plain] i(2) by (simp add: work_left_def)
  then show ?thesis using i(1) return(1) by (auto simp: map_le_def)
qed

lemma rpc_texts_grow: "rpc_step env s s' \<Longrightarrow> rp_texts s \<subseteq>\<^sub>m rp_texts s'"
  by (elim rpc_step_elim) (auto simp: map_le_def)

lemma plain_before: "rpc_step env s s' \<Longrightarrow> plain_texts s' \<Longrightarrow> plain_texts s"
  using rpc_texts_grow[of env s s'] unfolding plain_texts_def map_le_def by (metis domI)

lemma rpc_reachable_inv:
  assumes "rpc_start s0" and "good_env env" and "rpc_reachable env s0 s" and "plain_texts s"
  shows "\<exists>cs js ss. rpc_inv s cs js ss"
  using assms(3,4) unfolding rpc_reachable_def
proof (induction rule: rtranclp_induct)
  case base
  then show ?case using rpc_start_inv[OF assms(1)] by blast
next
  case (step s s')
  then show ?case using rpc_step_inv[OF step(2) _ assms(2)] plain_before[OF step(2)] by blast
qed

lemma one_call:
  assumes start: "rpc_start s0" and env: "good_env env" and plain: "plain_text txt1" and fits: "ht_elementCount (tc_outstandingCalls (rp_client s0)) < INT_MAX"
      "length (call_text (sint (tc_nextCallId (rp_client s0))) txt1) < CALL_BUFFER" "answer_fits (tc_nextCallId (rp_client s0)) r"
  shows "\<exists>s. rpc_reachable env s0 s \<and> rp_returned s = [(tc_nextCallId (rp_client s0), None, r)] \<and> rp_texts s = [tc_nextCallId (rp_client s0) \<mapsto> txt1]"
proof -
  let ?i = "tc_nextCallId (rp_client s0)"
  have fresh: "rp_texts s0 ?i = None" "tc_calls (rp_client s0) 1 = None" and ret: "rp_returned s0 = []" "rp_texts s0 = Map.empty"
    using start by (simp_all add: rpc_start_def)
  from call_inv[OF rpc_start_inv[OF start] env fresh fits(1,2), of 0] obtain c1 where
    c1: "textRPC_call_begin env (Some 1) (Some 0) True txt1 (rp_client s0) = Inr (None, c1)"
      "rpc_inv (s0\<lparr> rp_client := c1, rp_texts := (rp_texts s0)(?i \<mapsto> txt1) \<rparr>) [?i] [] []" by auto
  define s1 where "s1 = s0\<lparr> rp_client := c1, rp_texts := (rp_texts s0)(?i \<mapsto> txt1) \<rparr>"
  have st1: "rpc_step env s0 s1" unfolding s1_def by (rule rpc_step.call[OF fresh fits(1,2) c1(1)])
  have i1: "rpc_inv s1 [?i] [] []" "rp_texts s1 = [?i \<mapsto> txt1]" "rp_returned s1 = []" using c1(2) ret by (simp_all add: s1_def)
  have p1: "plain_texts s1" using plain i1(2) by (simp add: plain_texts_def)
  note m1 = to_server_inv[OF i1(1) env p1]
  obtain srv where srv: "on_message env (rpc_socket (rp_server s1)) (butlast (call_text (sint ?i) (the (rp_texts s1 ?i)))) (rp_server s1) = Inr srv"
      "rpc_inv (s1\<lparr> rp_client := (rp_client s1)\<lparr> tc_sent := [concat (map (\<lambda>i. call_text (sint i) (the (rp_texts s1 i))) [])] \<rparr>, rp_server := srv \<rparr>) [] [?i] []" using m1(2) by auto
  define s2 where "s2 = s1\<lparr> rp_client := (rp_client s1)\<lparr> tc_sent := [concat (map (\<lambda>i. call_text (sint i) (the (rp_texts s1 i))) [])] \<rparr>, rp_server := srv \<rparr>"
  have st2: "rpc_step env s1 s2" unfolding s2_def by (rule rpc_step.to_server[OF m1(1) srv(1)])
  have i2: "rpc_inv s2 [] ([] @ ?i # []) []" "rp_texts s2 = [?i \<mapsto> txt1]" "rp_returned s2 = []" using srv(2) i1(2,3) by (simp_all add: s2_def)
  let ?input = "job_text ?i (the (rp_texts s2 ?i))"
  have jobs: "tc_jobs (rp_server s2) = [] @ Job_call (Some ?input) # []" using flightD(2)[OF rpc_invD(3)[OF i2(1)]] by simp
  obtain srv2 where srv2: "call_threadFunc env (\<lambda>_. (None, r)) (Some ?input) ((rp_server s2)\<lparr> tc_jobs := [] @ [] \<rparr>) = Inr srv2"
      "rpc_inv (s2\<lparr> rp_server := srv2, rp_results := (rp_results s2)(?i \<mapsto> (rp_texts s2 ?i, r)) \<rparr>) [] [] [?i]"
    using rpc_run_inv(3)[of s2 "[]" "[]" ?i "[]" "[]" env "\<lambda>_. (None, r)" r] i2(1) env fits(3) by auto
  define s3 where "s3 = s2\<lparr> rp_server := srv2, rp_results := (rp_results s2)(?i \<mapsto> (rp_texts s2 ?i, r)) \<rparr>"
  have p: "job_id ?input = ?i" "snd (strsep '' '' ?input) = rp_texts s2 ?i" using job_text_parts[of ?i "the (rp_texts s2 ?i)"] i2(2) by simp_all
  have st3: "rpc_step env s2 s3"
    using rpc_step.run[OF jobs, of "\<lambda>_. (None, r)" r env srv2] p fits(3) srv2(1) by (simp add: s3_def)
  have i3: "rpc_inv s3 [] [] [?i]" "rp_results s3 ?i = Some (Some txt1, r)" "rp_returned s3 = []" "rp_texts s3 = [?i \<mapsto> txt1]"
    using srv2(2) i2(2,3) by (simp_all add: s3_def)
  note m3 = to_client_inv[OF i3(1) env]
  obtain c4 where c4: "on_message env (rpc_socket (rp_client s3)) (result_text ?i (snd (the (rp_results s3 ?i)))) (rp_client s3) = Inr c4"
      "rpc_inv (s3\<lparr> rp_server := (rp_server s3)\<lparr> tc_sent := [concat (map (\<lambda>i. result_text i (snd (the (rp_results s3 i))) @ [NL]) [])] \<rparr>, rp_client := c4 \<rparr>) [] [] []" using m3(2) by auto
  define s4 where "s4 = s3\<lparr> rp_server := (rp_server s3)\<lparr> tc_sent := [concat (map (\<lambda>i. result_text i (snd (the (rp_results s3 i))) @ [NL]) [])] \<rparr>, rp_client := c4 \<rparr>"
  have st4: "rpc_step env s3 s4" unfolding s4_def by (rule rpc_step.to_client[OF m3(1) c4(1)])
  obtain a call where call: "tc_calls (rp_client s3) a = Some call" "oc_id call = ?i" using flightD(5)[OF rpc_invD(3)[OF i3(1)], of ?i] by auto
  have i4: "rpc_inv s4 [] [] []" "rp_results s4 ?i = Some (Some txt1, r)" "rp_returned s4 = []" "rp_texts s4 = [?i \<mapsto> txt1]"
    using c4(2) i3(2-4) by (simp_all add: s4_def)
  have "\<exists>call. tc_calls (rp_client s4) a = Some call \<and> oc_id call = ?i"
  proof -
    have "\<lparr> cr_id = ?i, cr_addr = a \<rparr> \<in> set (ht_elems (tc_outstandingCalls (rp_client s3)))"
      using call rpc_invD(2)[OF i3(1)] by (auto simp: table_ok_def)
    then have "c4 = (rp_client s3)\<lparr> tc_calls := (tc_calls (rp_client s3))(a \<mapsto> call\<lparr> oc_result := Some r, oc_error := None, oc_finished := True \<rparr>) \<rparr>"
      using receive_result[OF env _ _ _ call(1), of ?i "rpc_socket (rp_client s3)" r] c4(1) i3(2) rpc_invD(1,2)[OF i3(1)] by (simp add: ends_ok_def table_ok_def)
    then show ?thesis using call(2) by (simp add: s4_def)
  qed
  then obtain call4 where call4: "tc_calls (rp_client s4) a = Some call4" "oc_id call4 = ?i" by blast
  have "oc_finished call4" using flightD(5)[OF rpc_invD(3)[OF i4(1)], of ?i] call4 by auto
  from return_inv[OF i4(1) call4(1) this] obtain x c5 where c5: "textRPC_call_end None a (rp_client s4) = Inr (None, x, c5)"
      "rp_results s4 ?i = Some (rp_texts s4 ?i, x)" using call4(2) by auto
  let ?s5 = "s4\<lparr> rp_client := c5, rp_returned := rp_returned s4 @ [(oc_id call4, None, x)] \<rparr>"
  have "rpc_step env s4 ?s5" by (rule rpc_step.return[OF call4(1) c5(1)])
  then have "rpc_reachable env s0 ?s5" unfolding rpc_reachable_def using st1 st2 st3 st4 by (meson r_into_rtranclp rtranclp.rtrancl_into_rtrancl)
  moreover have "x = r" using c5(2) i4(2) by simp
  ultimately show ?thesis using i4(3,4) call4(2) by (intro exI[of _ ?s5]) simp
qed

text \<open>No thread runs into a fault: a new call whose line fits the buffer is sent, what is under way in either
  direction is a line that its reading thread reads and handles, a job of which the application makes an
  answer that fits runs to its end, and a call whose answer has come returns.\<close>

definition rpc_no_fault :: "rpc_env \<Rightarrow> rpc_sys \<Rightarrow> bool" where
  "rpc_no_fault env s \<longleftrightarrow>
     (\<forall>a node txt1. rp_texts s (tc_nextCallId (rp_client s)) = None \<longrightarrow> tc_calls (rp_client s) a = None
          \<longrightarrow> ht_elementCount (tc_outstandingCalls (rp_client s)) < INT_MAX
          \<longrightarrow> length (call_text (sint (tc_nextCallId (rp_client s))) txt1) < CALL_BUFFER
          \<longrightarrow> (\<exists>c. textRPC_call_begin env (Some a) (Some node) True txt1 (rp_client s) = Inr (None, c)))
     \<and> (concat (tc_sent (rp_client s)) \<noteq> [] \<longrightarrow>
        (\<exists>l rest srv. receive_line (tc_sent (rp_client s)) = Inr (0, l, \<lparr> fl_input = bytes rest, fl_eof = False \<rparr>)
           \<and> on_message env (rpc_socket (rp_server s)) l (rp_server s) = Inr srv))
     \<and> (\<forall>js input ks dispatchFunc r. tc_jobs (rp_server s) = js @ Job_call (Some input) # ks
          \<longrightarrow> dispatchFunc (snd (strsep '' '' input)) = (None, r) \<longrightarrow> answer_fits (job_id input) r
          \<longrightarrow> (\<exists>srv. call_threadFunc env dispatchFunc (Some input) ((rp_server s)\<lparr> tc_jobs := js @ ks \<rparr>) = Inr srv))
     \<and> (concat (tc_sent (rp_server s)) \<noteq> [] \<longrightarrow>
        (\<exists>l rest c. receive_line (tc_sent (rp_server s)) = Inr (0, l, \<lparr> fl_input = bytes rest, fl_eof = False \<rparr>)
           \<and> on_message env (rpc_socket (rp_client s)) l (rp_client s) = Inr c))
     \<and> (\<forall>a call. tc_calls (rp_client s) a = Some call \<longrightarrow> oc_finished call
          \<longrightarrow> (\<exists>r c. textRPC_call_end None a (rp_client s) = Inr (None, r, c)))"

lemma rpc_inv_no_fault:
  assumes inv: "rpc_inv s cs js ss" and env: "good_env env" and plain: "plain_texts s"
  shows "rpc_no_fault env s"
  unfolding rpc_no_fault_def
proof (intro conjI impI allI)
  note F = flightD[OF rpc_invD(3)[OF inv]]
  show "\<exists>c. textRPC_call_begin env (Some a) (Some node) True txt1 (rp_client s) = Inr (None, c)"
    if "rp_texts s (tc_nextCallId (rp_client s)) = None" "tc_calls (rp_client s) a = None"
      "ht_elementCount (tc_outstandingCalls (rp_client s)) < INT_MAX"
      "length (call_text (sint (tc_nextCallId (rp_client s))) txt1) < CALL_BUFFER" for a node txt1
    using call_inv[OF inv env that, of node] by blast
  show "\<exists>l rest srv. receive_line (tc_sent (rp_client s)) = Inr (0, l, \<lparr> fl_input = bytes rest, fl_eof = False \<rparr>)
      \<and> on_message env (rpc_socket (rp_server s)) l (rp_server s) = Inr srv" if ne: "concat (tc_sent (rp_client s)) \<noteq> []"
  proof -
    obtain i cs' where "cs = i # cs'" using ne F(1) by (cases cs) auto
    from to_server_inv[OF inv[unfolded this] env plain] show ?thesis by blast
  qed
  show "\<exists>l rest c. receive_line (tc_sent (rp_server s)) = Inr (0, l, \<lparr> fl_input = bytes rest, fl_eof = False \<rparr>)
      \<and> on_message env (rpc_socket (rp_client s)) l (rp_client s) = Inr c" if ne: "concat (tc_sent (rp_server s)) \<noteq> []"
  proof -
    obtain i ss' where "ss = i # ss'" using ne F(3) by (cases ss) auto
    from to_client_inv[OF inv[unfolded this] env] show ?thesis by blast
  qed
  show "\<exists>srv. call_threadFunc env dispatchFunc (Some input) ((rp_server s)\<lparr> tc_jobs := xs @ ys \<rparr>) = Inr srv"
    if "tc_jobs (rp_server s) = xs @ Job_call (Some input) # ys" "dispatchFunc (snd (strsep '' '' input)) = (None, r)"
      "answer_fits (job_id input) r" for xs input ys dispatchFunc r
  proof -
    have "Job_call (Some input) \<in> set (tc_jobs (rp_server s))" using that(1) by simp
    then obtain i where i: "i \<in> set js" "input = job_text i (the (rp_texts s i))" unfolding F(2) by auto
    obtain fd where "rpc_socket (rp_server s) = Some fd" using rpc_invD(1)[OF inv] by (auto simp: ends_ok_def)
    then show ?thesis using run_call[OF env, of "(rp_server s)\<lparr> tc_jobs := xs @ ys \<rparr>" fd i r dispatchFunc "the (rp_texts s i)"]
      that(2,3) i(2) job_text_parts[of i] by simp
  qed
  show "\<exists>r c. textRPC_call_end None a (rp_client s) = Inr (None, r, c)"
    if "tc_calls (rp_client s) a = Some call" "oc_finished call" for a call
    using return_inv[OF inv that] by blast
qed

text \<open>C1: Remote calls return the right answers. In every interleaving of client threads, of the bytes under way, cut into lines
  by the reading threads, and of the threads of the pool, if the texts called are plain, one line each without a newline,
  a NUL or a carriage return at the end: a call that has returned has returned no error and exactly what the server's
  function returned for the text of that very call; no call returns twice; no call is executed a second time; and no
  reading thread, no job whose answer is no error and fits, and no call that fits the buffer runs into a fault. A text with a newline is
  split (\<open>newline_splits_call\<close>). An access of the table of calls is one step, and only the broadcast wakes a call.\<close>

theorem textRPC_calls_answered:
  assumes "rpc_start s0" and "good_env env" and "rpc_reachable env s0 s"
    and "\<forall>i t. rp_texts s i = Some t \<longrightarrow> plain_text t"
  shows "(\<forall>i e r. (i, e, r) \<in> set (rp_returned s) \<longrightarrow> e = None \<and> (\<exists>txt1. rp_texts s i = Some txt1 \<and> rp_results s i = Some (Some txt1, r)))
    \<and> distinct (map fst (rp_returned s))
    \<and> (\<forall>s'. rpc_step env s s' \<longrightarrow> rp_results s \<subseteq>\<^sub>m rp_results s')
    \<and> rpc_no_fault env s"
proof -
  have plain: "plain_texts s" using assms(4) by (simp add: plain_texts_def)
  obtain cs js ss where inv: "rpc_inv s cs js ss" using rpc_reachable_inv[OF assms(1-3) plain] by blast
  note A = answersD[OF rpc_invD(4)[OF inv]]
  have "e = None \<and> (\<exists>txt1. rp_texts s i = Some txt1 \<and> rp_results s i = Some (Some txt1, r))" if "(i, e, r) \<in> set (rp_returned s)" for i e r
    using A(5)[OF that] by auto
  then show ?thesis using A(7) rpc_step_inv[OF _ inv assms(2) plain] rpc_inv_no_fault[OF inv assms(2) plain] by blast
qed

definition demo_rpc_env :: rpc_env where
  "demo_rpc_env = \<lparr> re_env = demo_env, re_written = (\<lambda>m. Some (length m)), re_runError = None, re_malloc = True, re_strdup = True \<rparr>"

definition no_calls :: "(call_ref, unit) Hasht" where
  "no_calls = \<lparr> ht_size = 16, ht_elementCount = 0, ht_calcIndx = hashFunction, ht_compData = compFunction, ht_destrData = None,
     ht_debugLevel = 0, ht_infoArray = replicate 16 [] \<rparr>"

definition demo_conn :: sTextRPCConnection where
  "demo_conn = \<lparr> tc_protocolState = PROTOCOL_STATE_RUNNING, tc_tcpSocketConnection = Some 3, tc_tcpConnection = None,
     tc_protocolVersion = 0, tc_nextCallId = 1, tc_outstandingCalls = no_calls, tc_server = None, tc_threadPool = True,
     tc_calls = Map.empty, tc_jobs = [], tc_sent = [], tc_initWaiting = False, tc_initFinished = True, tc_reports = [] \<rparr>"

definition demo_sys :: rpc_sys where
  "demo_sys = \<lparr> rp_client = demo_conn, rp_server = demo_conn, rp_texts = Map.empty, rp_results = Map.empty, rp_returned = [] \<rparr>"

lemma demo_rpc_env_good: "good_env demo_rpc_env"
  by (simp add: good_env_def demo_rpc_env_def demo_env_def whole_writes_def)

lemma no_calls_for: "ht_for hashFunction compFunction no_calls" "ht_elems no_calls = []"
  by (simp_all add: ht_for_def ht_wf_def no_calls_def keys_differ_def ht_elems_def)

lemma demo_sys_start: "rpc_start demo_sys"
  using no_calls_for by (simp add: rpc_start_def demo_sys_def demo_conn_def rpc_socket_def)

theorem textRPC_calls_answered_witness:
  "\<exists>s. rpc_reachable demo_rpc_env demo_sys s \<and> rp_returned s = [(1, None, Some ''pong'')]
    \<and> (\<exists>txt1. rp_texts s 1 = Some txt1 \<and> rp_results s 1 = Some (Some txt1, Some ''pong''))"
proof -
  have i: "tc_nextCallId (rp_client demo_sys) = 1" by (simp add: demo_sys_def demo_conn_def)
  have "answer_fits 1 (Some ''pong'')" by (simp add: answer_fits_def result_text_def print_int_def digits.simps)
  moreover have "length (call_text (sint (1 :: 32 word)) ''ping'') < CALL_BUFFER" by (simp add: call_text_def print_int_def digits.simps)
  moreover have "ht_elementCount (tc_outstandingCalls (rp_client demo_sys)) < INT_MAX" by (simp add: demo_sys_def demo_conn_def no_calls_def)
  moreover have plain: "plain_text ''ping''" by (simp add: plain_text_def)
  ultimately obtain s where s: "rpc_reachable demo_rpc_env demo_sys s" "rp_returned s = [(1, None, Some ''pong'')]" "rp_texts s = [1 \<mapsto> ''ping'']"
    using one_call[OF demo_sys_start demo_rpc_env_good, of "''ping''" "Some ''pong''"] unfolding i by blast
  then show ?thesis using textRPC_calls_answered[OF demo_sys_start demo_rpc_env_good s(1)] plain by auto
qed

lemma digits_length: "n < 10 ^ Suc k \<Longrightarrow> length (digits n) \<le> Suc k"
proof (induction k arbitrary: n)
  case 0
  then show ?case by (simp add: digits.simps)
next
  case (Suc k)
  have "n div 10 < 10 ^ Suc k" using Suc.prems by (simp add: less_mult_imp_div_less mult.commute)
  then show ?case using Suc.IH[of "n div 10"] by (subst digits.simps) auto
qed

lemma empty_answer_fits: "answer_fits i None"
proof -
  have "\<bar>sint i\<bar> \<le> 2147483648" using sint_range_size[of i] by (simp add: word_size abs_le_iff)
  then have "nat (sint i) < 10 ^ Suc 9" "nat (- sint i) < 10 ^ Suc 9" by (simp_all add: nat_less_iff)
  then have "length (print_int (sint i)) \<le> 11" using digits_length[of "nat (sint i)" 9] digits_length[of "nat (- sint i)" 9] by (simp add: print_int_def)
  then show ?thesis by (simp add: answer_fits_def result_text_def)
qed

text \<open>The steps that bring the calls made so far to their end: every step but a new call.\<close>

definition rpc_work :: "rpc_env \<Rightarrow> rpc_sys \<Rightarrow> rpc_sys \<Rightarrow> bool" where
  "rpc_work env s s' \<longleftrightarrow> rpc_step env s s' \<and> rp_texts s' = rp_texts s"

lemma rpc_workI: "rpc_step env s s' \<Longrightarrow> rp_texts s' = rp_texts s \<Longrightarrow> \<exists>s'. rpc_work env s s'"
  by (auto simp: rpc_work_def)

lemma unfinished_step:
  assumes inv: "rpc_inv s cs js ss" and env: "good_env env" and plain: "plain_texts s" and "cs @ js @ ss \<noteq> []"
  shows "\<exists>s'. rpc_work env s s'"
proof -
  consider i cs' where "cs = i # cs'" | i js' where "js = i # js'" | i ss' where "ss = i # ss'" using assms(4) by (cases cs; cases js; cases ss) auto
  then show ?thesis
  proof cases
    case 1
    note m = to_server_inv[OF inv[unfolded 1] env plain]
    obtain srv where srv: "on_message env (rpc_socket (rp_server s)) (butlast (call_text (sint i) (the (rp_texts s i)))) (rp_server s) = Inr srv" using m(2) by auto
    from rpc_step.to_server[OF m(1) srv(1)] show ?thesis by (rule rpc_workI) simp
  next
    case 2
    have inv2: "rpc_inv s cs ([] @ i # js') ss" using inv 2 by simp
    let ?job = "\<lambda>i. Job_call (Some (job_text i (the (rp_texts s i))))" and ?input = "job_text i (the (rp_texts s i))"
    have "\<exists>srv. call_threadFunc env (\<lambda>_. (None, None)) (Some ?input) ((rp_server s)\<lparr> tc_jobs := map ?job [] @ map ?job js' \<rparr>) = Inr srv
        \<and> rpc_inv (s\<lparr> rp_server := srv, rp_results := (rp_results s)(i \<mapsto> (rp_texts s i, None)) \<rparr>) cs ([] @ js') (ss @ [i])"
      by (rule rpc_run_inv(3)[OF inv2 env _ empty_answer_fits]) simp
    then obtain srv where srv: "call_threadFunc env (\<lambda>_. (None, None)) (Some ?input) ((rp_server s)\<lparr> tc_jobs := [] @ map ?job js' \<rparr>) = Inr srv" by auto
    have t: "rp_texts s i = Some (the (rp_texts s i))" using flight_text[OF inv, of i] 2 by simp
    have jobs: "tc_jobs (rp_server s) = [] @ Job_call (Some ?input) # map ?job js'" using flightD(2)[OF rpc_invD(3)[OF inv]] 2 by simp
    have p: "job_id ?input = i" "snd (strsep '' '' ?input) = rp_texts s i" using job_text_parts[of i "the (rp_texts s i)"] t by simp_all
    have "rpc_step env s (s\<lparr> rp_server := srv, rp_results := (rp_results s)(i \<mapsto> (rp_texts s i, None)) \<rparr>)"
      using rpc_step.run[OF jobs, of "\<lambda>_. (None, None)" None env srv] srv(1) p empty_answer_fits by simp
    then show ?thesis by (rule rpc_workI) simp
  next
    case 3
    note m = to_client_inv[OF inv[unfolded 3] env]
    obtain c where c: "on_message env (rpc_socket (rp_client s)) (result_text i (snd (the (rp_results s i)))) (rp_client s) = Inr c" using m(2) by auto
    from rpc_step.to_client[OF m(1) c(1)] show ?thesis by (rule rpc_workI) simp
  qed
qed

lemma rpc_work_run:
  assumes "(rpc_work env ^^ n) s s'" and "\<exists>cs js ss. rpc_inv s cs js ss" and "good_env env" and "plain_texts s"
  shows "n + work_left s' \<le> work_left s \<and> rp_texts s' = rp_texts s \<and> (\<exists>cs js ss. rpc_inv s' cs js ss)"
  using assms(1)
proof (induction n arbitrary: s')
  case 0
  then show ?case using assms(2) by simp
next
  case (Suc n)
  then obtain t where t: "(rpc_work env ^^ n) s t" "rpc_work env t s'" by auto
  note ih = Suc.IH[OF t(1)]
  have "plain_texts t" using ih assms(4) by (simp add: plain_texts_def)
  then show ?case using ih t(2) rpc_step_inv[of env t s'] assms(3) unfolding rpc_work_def by fastforce
qed

lemma rpc_work_done:
  assumes inv: "rpc_inv s cs js ss" and env: "good_env env" and plain: "plain_texts s" and stuck: "\<nexists>s'. rpc_work env s s'"
  shows "tc_calls (rp_client s) = Map.empty \<and> (\<forall>i. rp_texts s i \<noteq> None \<longrightarrow> (\<exists>r. (i, None, r) \<in> set (rp_returned s)))"
proof -
  note A = answersD[OF rpc_invD(4)[OF inv]]
  have none: "cs @ js @ ss = []" using unfinished_step[OF inv env plain] stuck by blast
  have "tc_calls (rp_client s) a = None" for a
  proof (rule ccontr)
    assume "tc_calls (rp_client s) a \<noteq> None"
    then obtain call where c: "tc_calls (rp_client s) a = Some call" by blast
    then have "oc_finished call" using flightD(5)[OF rpc_invD(3)[OF inv], of "oc_id call"] none by auto
    from return_inv[OF inv c this] obtain r c' where "textRPC_call_end None a (rp_client s) = Inr (None, r, c')" by blast
    from rpc_step.return[OF c this] have "\<exists>s'. rpc_work env s s'" by (rule rpc_workI) simp
    then show False using stuck by simp
  qed
  then have "tc_calls (rp_client s) = Map.empty" by blast
  then show ?thesis using A(5,9) by fastforce
qed

text \<open>C30: No call is lost. From every reachable state in which the texts called are plain, every run of the protocol without
  further calls, whichever line, job or call goes on next, ends, after at most \<open>work_left\<close> steps; and where it ends, no
  call waits any more and every call made has returned without an error. The application answers each job
  with a result that is no error and fits (\<open>textRPC_remote_error\<close> has the errors), every write goes out whole, and the
  accesses of the table of calls are not interleaved.\<close>

theorem textRPC_no_call_lost:
  assumes "rpc_start s0" and "good_env env" and "rpc_reachable env s0 s"
    and "\<forall>i t. rp_texts s i = Some t \<longrightarrow> plain_text t"
  shows "(\<forall>n s'. (rpc_work env ^^ n) s s' \<longrightarrow> n \<le> work_left s)
    \<and> (\<forall>s'. (rpc_work env)\<^sup>*\<^sup>* s s' \<longrightarrow> (\<nexists>s''. rpc_work env s' s'') \<longrightarrow>
         tc_calls (rp_client s') = Map.empty \<and> (\<forall>i. rp_texts s i \<noteq> None \<longrightarrow> (\<exists>r. (i, None, r) \<in> set (rp_returned s'))))"
proof -
  have plain: "plain_texts s" using assms(4) by (simp add: plain_texts_def)
  note run = rpc_work_run[OF _ rpc_reachable_inv[OF assms(1-3) plain] assms(2) plain]
  have "tc_calls (rp_client s') = Map.empty \<and> (\<forall>i. rp_texts s i \<noteq> None \<longrightarrow> (\<exists>r. (i, None, r) \<in> set (rp_returned s')))"
    if steps: "(rpc_work env)\<^sup>*\<^sup>* s s'" and stuck: "\<nexists>s''. rpc_work env s' s''" for s'
  proof -
    obtain n where "(rpc_work env ^^ n) s s'" using steps by (auto simp: rtranclp_power)
    from run[OF this] obtain cs js ss where i: "rp_texts s' = rp_texts s" "rpc_inv s' cs js ss" by blast
    then show ?thesis using rpc_work_done[OF i(2) assms(2) _ stuck] plain by (simp add: plain_texts_def)
  qed
  then show ?thesis using run add_leD1 by blast
qed

theorem textRPC_no_call_lost_witness:
  "\<exists>s. rpc_reachable demo_rpc_env demo_sys s \<and> rp_returned s = [] \<and> (\<forall>n s'. (rpc_work demo_rpc_env ^^ n) s s' \<longrightarrow> n \<le> 4)
    \<and> (\<forall>s'. (rpc_work demo_rpc_env)\<^sup>*\<^sup>* s s' \<longrightarrow> (\<nexists>s''. rpc_work demo_rpc_env s' s'') \<longrightarrow> (\<exists>r. (1, None, r) \<in> set (rp_returned s')))"
proof -
  have i: "tc_nextCallId (rp_client demo_sys) = 1" "tc_calls (rp_client demo_sys) 1 = None" "rp_texts demo_sys 1 = None"
      "ht_elementCount (tc_outstandingCalls (rp_client demo_sys)) < INT_MAX" by (simp_all add: demo_sys_def demo_conn_def no_calls_def)
  have f: "length (call_text (sint (1 :: 32 word)) ''ping'') < CALL_BUFFER" by (simp add: call_text_def print_int_def digits.simps)
  let ?call = "\<lparr> oc_id = 1, oc_error = None, oc_result = None, oc_finished = False \<rparr> :: sOutstandingCall"
  obtain table where t: "textRPC_call_begin demo_rpc_env (Some 1) (Some 0) True ''ping'' (rp_client demo_sys)
      = Inr (None, (rp_client demo_sys)\<lparr> tc_nextCallId := 2, tc_outstandingCalls := table, tc_calls := [1 \<mapsto> ?call], tc_sent := [call_text (sint (1 :: 32 word)) ''ping''] \<rparr>)"
      "set (ht_elems table) = {\<lparr> cr_id = 1, cr_addr = 1 \<rparr>}"
    using begin_call[OF demo_rpc_env_good, of "rp_client demo_sys" 3 "''ping''" 1 0] i f no_calls_for
    by (auto simp: demo_sys_def demo_conn_def rpc_socket_def)
  let ?s = "demo_sys\<lparr> rp_client := (rp_client demo_sys)\<lparr> tc_nextCallId := 2, tc_outstandingCalls := table, tc_calls := [1 \<mapsto> ?call],
      tc_sent := [call_text (sint (1 :: 32 word)) ''ping''] \<rparr>, rp_texts := [1 \<mapsto> ''ping''] \<rparr>"
  have "rpc_step demo_rpc_env demo_sys ?s"
    using rpc_step.call[of demo_sys 1 "''ping''" demo_rpc_env 0] i f t(1) by (simp add: demo_sys_def)
  then have r: "rpc_reachable demo_rpc_env demo_sys ?s" by (simp add: rpc_reachable_def)
  have p: "\<forall>i t. rp_texts ?s i = Some t \<longrightarrow> plain_text t" by (simp add: plain_text_def)
  have "print_int (sint (1 :: 32 word)) = ''1''" by code_simp
  then have w: "work_left ?s = 4" using t(2) by (simp add: work_left_def under_way_def call_text_def demo_sys_def demo_conn_def)
  have e: "rp_returned ?s = []" by (simp add: demo_sys_def)
  show ?thesis using textRPC_no_call_lost[OF demo_sys_start demo_rpc_env_good r p] r e unfolding w
    by (intro exI[of _ ?s]) simp
qed

subsection \<open>Errors of the other side\<close>

lemma format_alone_plain: "CHR ''%'' \<notin> set p \<Longrightarrow> format_alone (p @ s) = rbind (format_alone s) (\<lambda>x. Inr (p @ x))"
  by (induction p) (auto simp: rbind_assoc rbind_def split: sum.splits)

lemma quoted_second: "\<exists>h k. take 3 (quoted c) = [CHR ''%'', h, k] \<and> h \<noteq> CHR ''%''"
proof -
  obtain h rest where q: "quoted c = CHR ''%'' # h # rest" "h \<noteq> CHR ''%''" "rest \<noteq> []"
  proof -
    let ?n = "if (of_char c :: nat) < 128 then (of_char c :: nat) else of_char c + 4294967040"
    have digit: "d \<noteq> CHR ''%''" if "d \<in> set (hex_digits n)" for d n
      using that
    proof (induction n rule: hex_digits.induct)
      case (1 n)
      have h: "hex_digit m \<noteq> CHR ''%''" if "m < 16" for m
      proof
        assume "hex_digit m = CHR ''%''"
        then have "of_char (hex_digit m) = (37 :: nat)" by simp
        then show False using that by (auto simp: hex_digit_def of_char_of split: if_splits)
      qed
      have "hex_digit (n mod 16) \<noteq> CHR ''%''" "n < 16 \<Longrightarrow> hex_digit n \<noteq> CHR ''%''" by (simp_all add: h)
      note ne = this
      show ?case
      proof (cases "n < 16")
        case True
        then show ?thesis using "1.prems" ne(2) by (simp add: hex_digits.simps[of n])
      next
        case False
        then have "d \<in> set (hex_digits (n div 16)) \<or> d = hex_digit (n mod 16)" using "1.prems" by (auto simp: hex_digits.simps[of n])
        then show ?thesis using "1.IH" ne(1) False by metis
      qed
    qed
    define hex where "hex = hex_digits ?n"
    have "hex_digits n \<noteq> []" for n by (subst hex_digits.simps) simp
    then obtain x xs where x: "hex = x # xs" unfolding hex_def by (meson neq_Nil_conv)
    have q: "quoted c = CHR ''%'' # (if length hex < 2 then CHR '' '' # hex else hex) @ ''c''"
      unfolding quoted_def Let_def hex_def ..
    have "x \<noteq> CHR ''%''" using digit[of x ?n] x unfolding hex_def by simp
    then show ?thesis using that[of "CHR '' ''" "[x, CHR ''c'']"] that[of x "xs @ ''c''"] q x by (cases xs) auto
  qed
  then show ?thesis by (cases rest) auto
qed

lemma format_alone_quoted:
  "format_alone (quote_text q d @ s) =
    (if \<exists>c \<in> set d. c = CHR ''%'' \<or> c \<in> set q then Inl LayoutMismatch else rbind (format_alone s) (\<lambda>x. Inr (d @ x)))"
proof (induction d)
  case (Cons c d)
  obtain h k where "take 3 (quoted c) = [CHR ''%'', h, k]" "h \<noteq> CHR ''%''" using quoted_second[of c] by blast
  then show ?case using Cons by (auto simp: quote_text_def rbind_assoc rbind_def split: sum.splits)
qed (simp add: quote_text_def rbind_def split: sum.splits)

definition needs_quotes :: "string list \<Rightarrow> bool" where
  "needs_quotes ds \<longleftrightarrow> (\<exists>d \<in> set ds. \<exists>c \<in> set d. c = CHR ''%'' \<or> c \<in> set err_quotes)"

lemma quote_text_none: "\<not> (\<exists>c \<in> set d. c = CHR ''%'' \<or> c \<in> set q) \<Longrightarrow> quote_text q d = d"
  by (induction d) (auto simp: quote_text_def)

lemma format_alone_error:
  "format_alone (err_string e @ s) = (if needs_quotes (err_chain e) then Inl LayoutMismatch else rbind (format_alone s) (\<lambda>x. Inr (err_string e @ x)))"
  "format_alone (err_string_reason r @ s)
    = (if needs_quotes (reason_chain r) then Inl LayoutMismatch else rbind (format_alone s) (\<lambda>x. Inr (err_string_reason r @ x)))"
proof (induction e and r arbitrary: s and s rule: err_chain.induct reason_chain.induct)
  case (SError t n d r)
  let ?p = "''Error( '' @ print_int (err_type_number t) @ '' '' @ print_int n @ '' '' @ [CHR 0x27]" and ?m = "[CHR 0x27] @ '' ''"
  have text1: "err_string (SError t n d r) @ s = ?p @ quote_text err_quotes d @ ?m @ err_string_reason r @ '' )'' @ s" by simp
  have p: "CHR ''%'' \<notin> set ?p" "CHR ''%'' \<notin> set ?m" "CHR ''%'' \<notin> set '' )''" using print_int_no_percent by auto
  have nq: "needs_quotes (err_chain (SError t n d r)) \<longleftrightarrow> (\<exists>c \<in> set d. c = CHR ''%'' \<or> c \<in> set err_quotes) \<or> needs_quotes (reason_chain r)"
    by (simp add: needs_quotes_def)
  show ?case unfolding text1 nq format_alone_plain[OF p(1)] format_alone_quoted format_alone_plain[OF p(2)] SError.IH format_alone_plain[OF p(3)]
    using quote_text_none[of d err_quotes] by (cases "format_alone s") auto
qed (use format_alone_plain[of "''NULL''"] in \<open>simp_all add: needs_quotes_def\<close>)

definition error_text :: "32 word \<Rightarrow> sError \<Rightarrow> string" where
  "error_text callId e = ''E '' @ print_int (sint callId) @ '' '' @ err_string e"

lemma run_failing_call:
  assumes "good_env env" and "rpc_socket c = Some fd" and "dispatchFunc (Some txt1) = (Some e, x)"
    and "length (error_text callId e) + 1 + QUOTE_ROOM \<le> 256" and "NUL \<notin> set (err_string e)"
  shows "call_threadFunc env dispatchFunc (Some (job_text callId txt1)) c = Inr (c\<lparr> tc_sent := tc_sent c @ [error_text callId e @ [NL]] \<rparr>)"
proof -
  let ?p = "''E '' @ print_int (sint callId) @ '' ''" and ?env = "re_env env"
  obtain sb where sb: "strbuf_create True True 256 = Inr sb" "sb_rep sb []" "sb_bufferSize sb = 256" using strbuf_create_rep[of 256] by auto
  have room: "sb_bufferRemaining sb = 256" "length ?p + length (err_string e) + 1 + QUOTE_ROOM \<le> 256"
    using sb(2,3) assms(4) by (auto simp: sb_rep_def error_text_def)
  have x: "expandq None ''E %d '' [Arg_d (sint callId)] = Some ?p" "expandq None [NL] [] = Some [NL]" by simp_all
  obtain sb1 where s1: "strbuf_sprintf ?env ''E %d '' [Arg_d (sint callId)] sb = Inr (None, sb1)" "sb_rep sb1 ([] @ ?p)"
      "sb_bufferRemaining sb1 = sb_bufferRemaining sb - length ?p"
    using sprintf_fits[OF sb(2) x(1), of ?env] room unfolding strbuf_sprintf_def by auto
  have room1: "length (err_string e) + QUOTE_ROOM \<le> sb_bufferRemaining sb1" using s1(3) room by simp
  obtain sb2 where s2: "ErrToString e ?env sb1 = Inr (None, sb2)" "sb_rep sb2 (([] @ ?p) @ err_string e)"
      "sb_bufferRemaining sb2 = sb_bufferRemaining sb1 - length (err_string e)"
    using ErrToString_fits(1)[OF s1(2) room1, of ?env] by blast
  have room2: "length [NL] + QUOTE_ROOM \<le> sb_bufferRemaining sb2" using s1(3) s2(3) room by simp
  have nul: "NUL \<notin> set ((([] @ ?p) @ err_string e) @ [NL])" using assms(5) print_int_plain[of "sint callId"] by auto
  have line: "(([] @ ?p) @ err_string e) @ [NL] = error_text callId e @ [NL]" by (simp add: error_text_def)
  obtain sb3 where s3: "strbuf_sprintf ?env [NL] [] sb2 = Inr (None, sb3)" "strbuf_getString sb3 = Inr (error_text callId e @ [NL])"
    using sprintf_fits[OF s2(2) x(2) room2, of ?env] nul unfolding strbuf_sprintf_def line by auto
  have "reply_text ?env (sint callId) (Some e, x) sb = Inr (None, sb3)"
    using s1(1) s2(1) s3(1) by (simp add: reply_text_def then_do_def)
  moreover have "re_malloc env" using assms(1) by (simp add: good_env_def)
  ultimately show ?thesis using sb(1) s3(2) rpc_send_whole[OF assms(1,2)] assms(3)
    by (simp add: call_threadFunc_def job_text_parts atoi_print_int)
qed

text \<open>C31: An error of the server's function is sent as text with its blanks quoted by percent signs, and the client uses that
  text as a format. So the error reaches the caller only when no description in its chain has a blank, a
  quote, a line end or a percent sign; otherwise the client reads arguments that nobody passed.\<close>

theorem textRPC_remote_error:
  assumes "good_env env" and "rpc_socket server = Some fd" and "dispatchFunc (Some txt1) = (Some e, x)"
    and "length (error_text callId e) + 1 + QUOTE_ROOM \<le> 256" and "NUL \<notin> set (err_string e)"
    and "tc_protocolState client = PROTOCOL_STATE_RUNNING" and "ht_for hashFunction compFunction (tc_outstandingCalls client)"
    and "\<lparr> cr_id = callId, cr_addr = a \<rparr> \<in> set (ht_elems (tc_outstandingCalls client))" and "tc_calls client a = Some call"
  shows "call_threadFunc env dispatchFunc (Some (job_text callId txt1)) server = Inr (server\<lparr> tc_sent := tc_sent server @ [error_text callId e @ [NL]] \<rparr>)
    \<and> on_message env connection (error_text callId e) client
      = (if needs_quotes (err_chain e) then Inl LayoutMismatch
         else Inr (client\<lparr> tc_calls := (tc_calls client)(a \<mapsto> call\<lparr> oc_error := Some (mkErr ERR_TEXTRPC 1 None (err_string e)),
                                                                     oc_result := Some None, oc_finished := True \<rparr>) \<rparr>))"
proof -
  let ?m = "print_int (sint callId) @ CHR '' '' # err_string e"
  have m: "error_text callId e = ''E'' @ CHR '' '' # ?m" by (simp add: error_text_def)
  have w: "strsep '' '' (''E'' @ CHR '' '' # ?m) = (''E'', Some ?m)" by (rule strsep_word) simp
  have i: "strsep [CHR '' '', CHR 0x09] ?m = (print_int (sint callId), Some (err_string e))"
    using strsep_print_int(1)[of "[CHR '' '', CHR 0x09]" "sint callId"] by simp
  have "ht_lookup (tc_outstandingCalls client) \<lparr> cr_id = callId, cr_addr = 0 \<rparr> = Some \<lparr> cr_id = callId, cr_addr = a \<rparr>"
    using call_keys.lookup_Some_iff[OF assms(7)] assms(8) by (simp add: compFunction_def)
  then have f: "HashFind (tc_outstandingCalls client) \<lparr> cr_id = callId, cr_addr = 0 \<rparr> = Inr (Some \<lparr> cr_id = callId, cr_addr = a \<rparr>)"
    using assms(7) by (simp add: HashFind_wf ht_for_def)
  have "handleReturn env True (Some ?m) client
      = (if needs_quotes (err_chain e) then Inl LayoutMismatch
         else Inr (None, client\<lparr> tc_calls := (tc_calls client)(a \<mapsto> call\<lparr> oc_error := Some (mkErr ERR_TEXTRPC 1 None (err_string e)),
                                                                     oc_result := Some None, oc_finished := True \<rparr>) \<rparr>))"
    using i f assms(1,9) format_alone_error(1)[of e "[]"] by (simp add: handleReturn_def Let_def atoi_print_int good_env_def ErrNew_def)
  then have "on_message env connection (error_text callId e) client
      = (if needs_quotes (err_chain e) then Inl LayoutMismatch
         else Inr (client\<lparr> tc_calls := (tc_calls client)(a \<mapsto> call\<lparr> oc_error := Some (mkErr ERR_TEXTRPC 1 None (err_string e)),
                                                                     oc_result := Some None, oc_finished := True \<rparr>) \<rparr>))"
    unfolding m using w assms(6) by (simp add: on_message_def running_message_def same_nocase_def report_return_def CText.tolower_def)
  then show ?thesis using run_failing_call[of env server fd dispatchFunc txt1 e x callId] assms(1-5) by blast
qed

definition one_waiting :: sTextRPCConnection where
  "one_waiting = demo_conn\<lparr>
     tc_outstandingCalls := no_calls\<lparr> ht_elementCount := 1, ht_infoArray := (replicate 16 [])[1 := [\<lparr> hi_addr = 9, hi_data = \<lparr> cr_id = 1, cr_addr = 7 \<rparr>, hi_firstCursor = None \<rparr>]] \<rparr>,
     tc_calls := [7 \<mapsto> \<lparr> oc_id = 1, oc_error = None, oc_result = None, oc_finished = False \<rparr>] \<rparr>"

lemma one_waiting_table: "ht_for hashFunction compFunction (tc_outstandingCalls one_waiting)"
    "\<lparr> cr_id = 1, cr_addr = 7 \<rparr> \<in> set (ht_elems (tc_outstandingCalls one_waiting))"
proof -
  have "(replicate 16 [])[1 := [x]] = [] # [x] # replicate 14 []" for x :: "call_ref HiPtr" by (simp add: numeral_eq_Suc)
  then show "ht_for hashFunction compFunction (tc_outstandingCalls one_waiting)"
      "\<lparr> cr_id = 1, cr_addr = 7 \<rparr> \<in> set (ht_elems (tc_outstandingCalls one_waiting))"
    by (auto simp: ht_for_def ht_wf_def one_waiting_def no_calls_def keys_differ_def ht_elems_def hashFunction_def nth_Cons' nth_replicate)
qed

theorem textRPC_remote_error_witness:
  "on_message demo_rpc_env None (error_text 1 (SError ERR_APP 2 ''no way'' None)) one_waiting = Inl LayoutMismatch"
proof -
  let ?e = "SError ERR_APP 2 ''no way'' None"
  have "err_string ?e = ''Error( 4 2 '' @ [CHR 0x27] @ ''no%20way'' @ [CHR 0x27] @ '' NULL )''"
    by (simp add: err_type_number_def err_types_def quote_text_def err_quotes_def quoted_def print_int_def digits.simps
        hex_digits.simps[of 32] hex_digits.simps[of 2] hex_digits.simps[of 0] hex_digit_def Let_def) code_simp
  note text1 = this
  have "length (error_text 1 ?e) + 1 + QUOTE_ROOM \<le> 256" "NUL \<notin> set (err_string ?e)"
    unfolding error_text_def text1 by (simp_all add: print_int_def digits.simps[of 1] digits.simps[of "Suc 0"])
  moreover have "rpc_socket demo_conn = Some 3" "tc_protocolState one_waiting = PROTOCOL_STATE_RUNNING"
      "tc_calls one_waiting 7 = Some \<lparr> oc_id = 1, oc_error = None, oc_result = None, oc_finished = False \<rparr>"
    by (simp_all add: demo_conn_def rpc_socket_def one_waiting_def)
  ultimately have "on_message demo_rpc_env None (error_text 1 ?e) one_waiting = (if needs_quotes (err_chain ?e) then Inl LayoutMismatch
         else Inr (one_waiting\<lparr> tc_calls := (tc_calls one_waiting)(7 \<mapsto> \<lparr> oc_id = 1, oc_error = None, oc_result = None, oc_finished = False \<rparr>
            \<lparr> oc_error := Some (mkErr ERR_TEXTRPC 1 None (err_string ?e)), oc_result := Some None, oc_finished := True \<rparr>) \<rparr>))"
    using textRPC_remote_error[of demo_rpc_env demo_conn 3 "\<lambda>_. (Some ?e, None)" "''x''" ?e None 1 one_waiting 7] demo_rpc_env_good one_waiting_table
    by blast
  then show ?thesis by (simp add: needs_quotes_def err_quotes_def)
qed

subsection \<open>Beginning and end of a connection\<close>

text \<open>C32: The negotiation: the server's request, the client's answer, and both sides run version 0, when the client's thread
  waits for it before the request comes.\<close>

theorem textRPC_negotiation:
  assumes "good_env env" and "connection_create env avail socket rpcServer = Inr (None, server)"
    and "tc_protocolState client = PROTOCOL_STATE_NEGOTIATING_PROTOCOL_1" and "tc_threadPool client"
  shows "\<exists>server1 client1 server2 client2. negotiate_protocol env server = Inr server1
    \<and> tc_sent server1 = [''protocolVersion-request 0'' @ [NL]]
    \<and> on_message env (Some fd) ''protocolVersion-request 0'' (client_wait client) = Inr client1
    \<and> tc_sent client1 = tc_sent client @ [''protocolVersion 0'' @ [NL]]
    \<and> on_message env (Some fd') ''protocolVersion 0'' server1 = Inr server2
    \<and> tc_protocolState client1 = PROTOCOL_STATE_RUNNING \<and> tc_protocolState server2 = PROTOCOL_STATE_RUNNING
    \<and> tc_protocolVersion client1 = 0 \<and> tc_protocolVersion server2 = 0 \<and> client_ready client1 = Inr client2"
proof -
  have c: "tc_protocolState server = PROTOCOL_STATE_NEGOTIATING_PROTOCOL_1" "tc_tcpConnection server = Some socket"
      "tc_protocolVersion server = -1" "tc_threadPool server" "tc_sent server = []" "re_runError env = None"
    using assms(1,2) by (auto simp: connection_create_def res_iff good_env_def)
  have p: "strsep '' '' ''protocolVersion-request 0'' = (''protocolVersion-request'', Some ''0'')"
      "strsep '' '' ''protocolVersion 0'' = (''protocolVersion'', Some ''0'')" "strsep '' '' ''0'' = (''0'', None)" by (simp_all add: strsep_def)
  have a: "atoi ''0'' = 0" by (simp add: atoi_def is_space_def read_digits_def is_digit_def)
  have "char_of (48 :: nat) = CHR ''0''" by code_simp
  then have n: "print_int 0 = ''0''" by (simp add: print_int_def digits.simps)
  have q: "\<not> same_nocase ''protocolVersion'' ''protocolVersion-request''" by (simp add: same_nocase_def)
  have same: "same_nocase w w" for w by (simp add: same_nocase_def)
  note defs = on_message_def negotiate_message_def negotiate_protocol_def client_wait_def client_ready_def broadcast_init_def run_job_def run_job_any_def
  show ?thesis using c assms(3,4) rpc_send_whole[OF assms(1)]
    by (simp add: defs p a n q same)
qed

definition demo_server :: sTextRPCServer where
  "demo_server = \<lparr> ts_connectionOpenedFunc = None, ts_connectionClosedFunc = None \<rparr>"

definition new_client :: sTextRPCConnection where
  "new_client = demo_conn\<lparr> tc_protocolState := PROTOCOL_STATE_NEGOTIATING_PROTOCOL_1, tc_initFinished := False \<rparr>"

theorem textRPC_negotiation_witness:
  "\<exists>server client1. connection_create demo_rpc_env (\<lambda>_. True) 5 demo_server = Inr (None, server)
    \<and> on_message demo_rpc_env (Some 3) ''protocolVersion-request 0'' (client_wait new_client) = Inr client1
    \<and> tc_sent client1 = [''protocolVersion 0'' @ [NL]]"
proof -
  obtain server where s: "connection_create demo_rpc_env (\<lambda>_. True) 5 demo_server = Inr (None, server)"
    by (simp add: connection_create_def demo_rpc_env_def HashCreateTable_def Let_def)
  have c: "tc_protocolState new_client = PROTOCOL_STATE_NEGOTIATING_PROTOCOL_1" "tc_threadPool new_client" "tc_sent new_client = []"
    by (simp_all add: new_client_def demo_conn_def)
  then show ?thesis using textRPC_negotiation[OF demo_rpc_env_good s c(1,2), where fd = 3 and fd' = 5] s by auto
qed

lemma handleReturn_frame:
  assumes "handleReturn env b rest c = Inr (e, d)"
  shows "\<exists>calls. d = c\<lparr> tc_calls := calls \<rparr>"
proof -
  obtain msg where msg: "rest = Some msg" using assms by (cases rest) (auto simp: handleReturn_def)
  obtain idText r where w: "strsep [CHR '' '', CHR 0x09] msg = (idText, r)" by (cases "strsep [CHR '' '', CHR 0x09] msg")
  obtain found where f: "HashFind (tc_outstandingCalls c) \<lparr> cr_id = word_of_int (atoi idText), cr_addr = 0 \<rparr> = Inr found"
    using assms by (auto simp: handleReturn_def msg w Let_def rbind_Inr_iff)
  show ?thesis
  proof (cases found)
    case None
    then have "d = c" using assms by (auto simp: handleReturn_def msg w Let_def f rbind_Inr_iff split: if_splits)
    then show ?thesis by (intro exI[of _ "tc_calls c"]) simp
  next
    case (Some ref)
    then have "\<exists>call1. d = c\<lparr> tc_calls := (tc_calls c)(cr_addr ref \<mapsto> call1) \<rparr>"
      using assms by (simp add: handleReturn_def msg w Let_def f rbind_Inr_iff del: fun_upd_apply) blast
    then show ?thesis by blast
  qed
qed

lemma running_keeps:
  assumes "on_message env connection m c = Inr c1" and "tc_protocolState c = PROTOCOL_STATE_RUNNING \<and> \<not> tc_initFinished c"
  shows "tc_protocolState c1 = PROTOCOL_STATE_RUNNING \<and> \<not> tc_initFinished c1"
proof -
  have r: "tc_protocolState (report_return x) = PROTOCOL_STATE_RUNNING \<and> \<not> tc_initFinished (report_return x)"
    if hr: "handleReturn env b rest c = Inr x" for b rest x
  proof -
    obtain e d where x: "x = (e, d)" by (cases x)
    obtain calls where d: "d = c\<lparr> tc_calls := calls \<rparr>" using handleReturn_frame[OF hr[unfolded x]] by blast
    show ?thesis using assms(2) unfolding x d by (cases e) (simp_all add: report_return_def)
  qed
  obtain w rest where w: "strsep '' '' m = (w, rest)" by (cases "strsep '' '' m")
  have m: "running_message env m c = Inr c1" using assms by (simp add: on_message_def)
  note m1 = m[unfolded running_message_def w prod.case]
  consider "same_nocase w ''C''" | "\<not> same_nocase w ''C''" "same_nocase w ''R''" | "\<not> same_nocase w ''C''" "\<not> same_nocase w ''R''" "same_nocase w ''E''"
    | "\<not> same_nocase w ''C''" "\<not> same_nocase w ''R''" "\<not> same_nocase w ''E''" by blast
  then show ?thesis
  proof cases
    case 1
    then show ?thesis using m1 assms(2) by (auto simp: rbind_Inr_iff run_job_def)
  next
    case 2
    then obtain x where "handleReturn env False rest c = Inr x" "c1 = report_return x" using m1 by (auto simp: rbind_Inr_iff)
    then show ?thesis using r by blast
  next
    case 3
    then obtain x where "handleReturn env True rest c = Inr x" "c1 = report_return x" using m1 by (auto simp: rbind_Inr_iff)
    then show ?thesis using r by blast
  next
    case 4
    then show ?thesis using m1 assms(2) by (auto simp: rbind_Inr_iff rpc_send_def split: if_splits prod.splits)
  qed
qed

lemma running_keeps_all:
  "rfold (on_message env connection) ms c = Inr c1 \<Longrightarrow> tc_protocolState c = PROTOCOL_STATE_RUNNING \<and> \<not> tc_initFinished c \<Longrightarrow> \<not> tc_initFinished c1"
  by (induction ms arbitrary: c) (auto simp: res_iff dest: running_keeps)

text \<open>When the request comes before the client's thread has begun to wait, the wait never ends, whatever messages follow,
  though the connection runs: the broadcast is lost and the wait tests no condition.\<close>

theorem textRPC_client_misses_negotiation:
  assumes "good_env env" and "tc_protocolState client = PROTOCOL_STATE_NEGOTIATING_PROTOCOL_1" and "tc_threadPool client"
    and "\<not> tc_initWaiting client" and "\<not> tc_initFinished client"
  shows "\<exists>client1. on_message env (Some fd) ''protocolVersion-request 0'' client = Inr client1 \<and> tc_protocolState client1 = PROTOCOL_STATE_RUNNING
    \<and> (\<forall>ms client2. rfold (on_message env (Some fd)) ms (client_wait client1) = Inr client2 \<longrightarrow> client_ready client2 = Inl Blocked)"
proof -
  have p: "strsep '' '' ''protocolVersion-request 0'' = (''protocolVersion-request'', Some ''0'')" by (simp add: strsep_def)
  have same: "same_nocase w w" for w by (simp add: same_nocase_def)
  have e: "re_runError env = None" using assms(1) by (simp add: good_env_def)
  obtain client1 where c: "on_message env (Some fd) ''protocolVersion-request 0'' client = Inr client1"
      "tc_protocolState client1 = PROTOCOL_STATE_RUNNING" "\<not> tc_initFinished client1"
    using assms(2-5) e rpc_send_whole[OF assms(1)] by (simp add: on_message_def negotiate_message_def broadcast_init_def run_job_any_def p same Let_def)
  have "client_ready client2 = Inl Blocked" if "rfold (on_message env (Some fd)) ms (client_wait client1) = Inr client2" for ms client2
    using running_keeps_all[OF that] c(2,3) by (simp add: client_wait_def client_ready_def)
  then show ?thesis using c(1,2) by blast
qed

theorem textRPC_client_misses_negotiation_witness:
  "\<exists>client1. on_message demo_rpc_env (Some 3) ''protocolVersion-request 0'' new_client = Inr client1
    \<and> client_ready (client_wait client1) = Inl Blocked"
proof -
  have "tc_protocolState new_client = PROTOCOL_STATE_NEGOTIATING_PROTOCOL_1" "tc_threadPool new_client"
      "\<not> tc_initWaiting new_client" "\<not> tc_initFinished new_client"
    by (simp_all add: new_client_def demo_conn_def)
  from textRPC_client_misses_negotiation[OF demo_rpc_env_good this, where fd = 3]
  obtain client1 where c: "on_message demo_rpc_env (Some 3) ''protocolVersion-request 0'' new_client = Inr client1"
      "\<forall>ms client2. rfold (on_message demo_rpc_env (Some 3)) ms (client_wait client1) = Inr client2 \<longrightarrow> client_ready client2 = Inl Blocked" by blast
  have "rfold (on_message demo_rpc_env (Some 3)) [] (client_wait client1) = Inr (client_wait client1)" by simp
  then show ?thesis using c by blast
qed

subsection \<open>Destroying a client\<close>

lemma HashDestroyTable_fresh:
  "HashCreateTable avail sz calc cmp None = Inr (Some t) \<Longrightarrow> HashDestroyTable t w = Inr w"
proof -
  assume "HashCreateTable avail sz calc cmp None = Inr (Some t)"
  then have t: "ht_size t = sz" "ht_infoArray t = replicate sz []"
    by (auto simp: HashCreateTable_def Let_def res_iff split: if_splits)
  have "\<exists>w1. rfold (\<lambda>i w. rbind (bucket t i) (\<lambda>chain. rfold (DestroyInfo t) chain w)) [0..<sz] w = Inr w1 \<and> w1 = w"
    by (rule rfold_invariant) (auto simp: bucket_def t)
  then show ?thesis by (simp add: HashDestroyTable_def t)
qed

text \<open>A client that connects and is then destroyed leaves its socket open, the thread that reads from it running and
  the copy of the host's name allocated; the thread pool and the other blocks are given back.\<close>

theorem textRPC_destroyed_client_reads_on:
  assumes "good_env env" and "ro_init out = None" and "ro_avail out (24 + 16 * 4)"
    and "case ro_pool out of (poolOk, mutexErr, threads) \<Rightarrow> threadPool_create (True, True) poolOk mutexErr True threads = Inr (None, Some pool)"
    and "connects cout" and "co_malloc cout"
  shows "\<exists>c rs1 rs2. textRPC_client_connect env out cout host port rs = Inr (None, Some c, rs1)
    \<and> textRPCConnection_destroy env None True c rs1 = Inr (None, None, rs2)
    \<and> rs_sockets rs2 = co_socket cout # rs_sockets rs \<and> rs_readers rs2 = rs_readers rs + 1
    \<and> rs_pools rs2 = rs_pools rs \<and> rs_blocks rs2 = rs_blocks rs + of_bool (co_strdup cout)"
proof -
  obtain poolOk mutexErr threads where pool: "ro_pool out = (poolOk, mutexErr, threads)" by (cases "ro_pool out")
  have ok: "env_errOk (re_env env) = (True, True)" "re_malloc env" using assms(1) by (simp_all add: good_env_def)
  obtain t :: "(call_ref, unit) Hasht" where t: "HashCreateTable (ro_avail out) 16 hashFunction compFunction None = Inr (Some t)"
    using assms(3) by (simp add: HashCreateTable_def Let_def)
  have pc: "threadPool_create (True, True) poolOk mutexErr True threads = Inr (None, Some pool)" using assms(4) pool by simp
  obtain a where a: "co_host cout = Inr a" using assms(5) by (cases "co_host cout") (simp_all add: connects_def)
  let ?rs1 = "rs\<lparr> rs_blocks := rs_blocks rs + 1 + of_bool (co_strdup cout), rs_sockets := co_socket cout # rs_sockets rs,
         rs_readers := rs_readers rs + 1 \<rparr>"
  obtain x where x: "sock_connect (re_env env) cout host port () () rs = Inr (None, Some x, ?rs1)"
    using assms(5,6) ok a by (cases "co_strdup cout") (auto simp: sock_connect_def connect_socket_def emalloc_def connects_def Let_def)
  have "\<exists>c. textRPC_client_connect env out cout host port rs
        = Inr (None, Some c, ?rs1\<lparr> rs_blocks := rs_blocks ?rs1 + 1, rs_pools := rs_pools ?rs1 + 1 \<rparr>)
      \<and> tc_threadPool c \<and> tc_outstandingCalls c = t \<and> tc_tcpSocketConnection c \<noteq> None \<and> tc_tcpConnection c = None"
    using assms(2) ok pool pc t x by (simp add: textRPC_client_connect_def emalloc_def Let_def)
  then obtain c where c: "textRPC_client_connect env out cout host port rs
        = Inr (None, Some c, ?rs1\<lparr> rs_blocks := rs_blocks ?rs1 + 1, rs_pools := rs_pools ?rs1 + 1 \<rparr>)"
      "tc_threadPool c" "tc_outstandingCalls c = t" "tc_tcpSocketConnection c \<noteq> None" "tc_tcpConnection c = None" by blast
  have d: "textRPCConnection_destroy env None True c (?rs1\<lparr> rs_blocks := rs_blocks ?rs1 + 1, rs_pools := rs_pools ?rs1 + 1 \<rparr>)
      = Inr (None, None, ?rs1\<lparr> rs_blocks := rs_blocks rs + of_bool (co_strdup cout) \<rparr>)"
    using c(2-5) HashDestroyTable_fresh[OF t] by (simp add: textRPCConnection_destroy_def)
  show ?thesis
    by (rule exI[of _ c], rule exI[of _ "?rs1\<lparr> rs_blocks := rs_blocks ?rs1 + 1, rs_pools := rs_pools ?rs1 + 1 \<rparr>"],
        rule exI[of _ "?rs1\<lparr> rs_blocks := rs_blocks rs + of_bool (co_strdup cout) \<rparr>"], intro conjI, rule c(1), rule d) simp_all
qed

definition demo_host :: connect_outcome where
  "demo_host = demo_out\<lparr> co_connect := (0, 0) \<rparr>"

definition demo_rpc_out :: rpc_outcome where
  "demo_rpc_out = \<lparr> ro_init = None, ro_pool = (True, None, []), ro_avail = (\<lambda>_. True) \<rparr>"

theorem textRPC_destroyed_client_reads_on_witness:
  "\<exists>c rs1 rs2. textRPC_client_connect demo_rpc_env demo_rpc_out demo_host ''host'' 80 no_resources = Inr (None, Some c, rs1)
    \<and> textRPCConnection_destroy demo_rpc_env None True c rs1 = Inr (None, None, rs2) \<and> rs_sockets rs2 = [5] \<and> rs_blocks rs2 = 1"
proof -
  have h: "connects demo_host" "co_malloc demo_host" "co_socket demo_host = 5" "co_strdup demo_host"
    by (simp_all add: demo_host_def demo_out_def connects_def)
  have "case ro_pool demo_rpc_out of (poolOk, mutexErr, threads) \<Rightarrow> threadPool_create (True, True) poolOk mutexErr True threads
      = Inr (None, Some \<lparr> tp_threads = Map.empty, tp_firstAvailableThread = None, tp_firstThreadInUse = None,
           tp_isShuttingDown = False, tp_isDetached = True, tp_listLocked = False, tp_calls = [] \<rparr>)"
    by (simp add: demo_rpc_out_def threadPool_create_def)
  then show ?thesis
    using textRPC_destroyed_client_reads_on[OF demo_rpc_env_good _ _ _ h(1,2), of demo_rpc_out _ "''host''" 80 no_resources] h(3,4)
    by (fastforce simp: demo_rpc_out_def no_resources_def)
qed

text \<open>
  The handler of a disconnection wakes no one: a call that waits then waits for ever, since no thread reads
  replies any more, and a new call can still be made.
\<close>

lemma textRPC_disconnect_strands_calls:
  assumes "connection_sock_handler env errno1 connection SOCK_DISCONNECT buf (e, c) = Inr (buf1, e1, c1)"
    and "tc_calls c addr = Some call" and "\<not> oc_finished call"
  shows "textRPC_call_end sendError addr c1 = Inl Blocked \<and> tc_protocolState c1 = tc_protocolState c"
  using assms by (auto simp: connection_sock_handler_def on_disconnect_def run_job_any_def textRPC_call_end_def cell_def res_iff)

end
