(* ===== verification/Logging.thy ===== *)
theory Logging
  imports WordMap
begin

section \<open>Logging to files\<close>

text \<open>
  \<open>src/logging.c\<close>: loggers of two drivers, one stream or two (all messages, and errors) for each
  destination. The files of a logger are entries of a hash table by their names, opened at the first
  message to them, and renamed when the day changes. Part of the state is a file system: a directory of
  inodes, their texts, and the streams open for appending. What the operating system decides is an
  argument, and so is the text that the caller's format and arguments stand for. Error objects get their
  memory here.
\<close>

subsection \<open>Files\<close>

abbreviation LINE_END :: char where "LINE_END \<equiv> CHR ''\<newline>''"
abbreviation TAB :: char where "TAB \<equiv> CHR 0x09"
abbreviation BUFFER_LENGTH :: nat where "BUFFER_LENGTH \<equiv> 65536"
abbreviation MAX_FILENAME_LENGTH :: nat where "MAX_FILENAME_LENGTH \<equiv> 4096"
abbreviation FILELOG_DEFAULT_EXTENSION :: string where "FILELOG_DEFAULT_EXTENSION \<equiv> ''log''"
abbreviation LOG_DESTINATION_CONSOLE :: string where "LOG_DESTINATION_CONSOLE \<equiv> ''[console]''"

datatype stream = Stdout | Stderr | Stream nat

record files =
  fs_names :: "string \<rightharpoonup> nat"
  fs_data :: "nat \<Rightarrow> string"
  fs_inodes :: nat
  fs_open :: "nat \<rightharpoonup> nat"
  fs_streams :: nat
  fs_stdout :: string
  fs_stderr :: string

text \<open>
  What the outside decides in one call: the names that may be opened, renamed and removed, the streams
  that take text, the allocations, the mutex, the clock. \<open>le_errno\<close> is what \<open>ErrErrno\<close> returns, \<open>le_time\<close>,
  \<open>le_date\<close> and \<open>le_weekAgo\<close> are the texts \<open>strftime\<close> makes.
\<close>

record log_env =
  le_allows :: "string \<Rightarrow> bool"
  le_takes :: "stream \<Rightarrow> bool"
  le_logger :: bool
  le_entry :: bool
  le_strdup :: "string \<Rightarrow> bool"
  le_fullName :: bool
  le_table :: allocator
  le_node :: "nat option"
  le_sem :: bool
  le_mutex :: int
  le_errno :: Error
  le_time :: string
  le_millitm :: nat
  le_date :: string
  le_weekAgo :: string
  le_thread :: nat

text \<open>\<open>fopen(name, "a")\<close>, \<open>fclose\<close>, \<open>fputs\<close>, \<open>rename\<close> and \<open>remove\<close>.\<close>

definition fopen_append :: "log_env \<Rightarrow> string \<Rightarrow> files \<Rightarrow> stream option \<times> files" where
  "fopen_append env name fs =
     (if \<not> le_allows env name then (None, fs)
      else
        let fs1 = (if fs_names fs name = None
                   then fs\<lparr> fs_names := (fs_names fs)(name \<mapsto> fs_inodes fs), fs_data := (fs_data fs)(fs_inodes fs := []),
                            fs_inodes := fs_inodes fs + 1 \<rparr>
                   else fs)
        in (Some (Stream (fs_streams fs1)),
            fs1\<lparr> fs_open := (fs_open fs1)(fs_streams fs1 := fs_names fs1 name), fs_streams := fs_streams fs1 + 1 \<rparr>))"

fun close_stream :: "stream \<Rightarrow> files \<Rightarrow> files" where
  "close_stream (Stream h) fs = fs\<lparr> fs_open := (fs_open fs)(h := None) \<rparr>"
| "close_stream _ fs = fs"

fun append_stream :: "stream \<Rightarrow> string \<Rightarrow> files \<Rightarrow> files res" where
  "append_stream Stdout s fs = Inr (fs\<lparr> fs_stdout := fs_stdout fs @ s \<rparr>)"
| "append_stream Stderr s fs = Inr (fs\<lparr> fs_stderr := fs_stderr fs @ s \<rparr>)"
| "append_stream (Stream h) s fs =
     (case fs_open fs h of
        None \<Rightarrow> Inl DanglingPtr
      | Some i \<Rightarrow> Inr (fs\<lparr> fs_data := (fs_data fs)(i := fs_data fs i @ s) \<rparr>))"

definition rename_file :: "log_env \<Rightarrow> string \<Rightarrow> string \<Rightarrow> files \<Rightarrow> bool \<times> files" where
  "rename_file env old new fs =
     (if fs_names fs old = None \<or> \<not> le_allows env old \<or> \<not> le_allows env new then (False, fs)
      else if old = new then (True, fs)
      else (True, fs\<lparr> fs_names := (fs_names fs)(new := fs_names fs old, old := None) \<rparr>))"

definition remove_file :: "log_env \<Rightarrow> string \<Rightarrow> files \<Rightarrow> bool \<times> files" where
  "remove_file env name fs =
     (if fs_names fs name = None \<or> \<not> le_allows env name then (False, fs)
      else (True, fs\<lparr> fs_names := (fs_names fs)(name := None) \<rparr>))"

text \<open>The text of a name; \<open>snprintf\<close> into a buffer; the last place of a character.\<close>

definition file_text :: "files \<Rightarrow> string \<Rightarrow> string" where
  "file_text fs name = (case fs_names fs name of None \<Rightarrow> [] | Some i \<Rightarrow> fs_data fs i)"

definition fit :: "nat \<Rightarrow> string \<Rightarrow> string" where
  "fit len s = take (len - 1) s"

fun strrchr :: "string \<Rightarrow> char \<Rightarrow> nat option" where
  "strrchr [] c = None"
| "strrchr (d # ds) c =
     (case strrchr ds c of Some i \<Rightarrow> Some (Suc i) | None \<Rightarrow> if d = c then Some 0 else None)"

subsection \<open>Loggers\<close>

datatype LogLevel = LOGLEVEL_NONE | LOGLEVEL_CRITICAL | LOGLEVEL_ERROR | LOGLEVEL_WARNING | LOGLEVEL_INFO
  | LOGLEVEL_DEBUG | LOGLEVEL_TRACE

datatype LogFormat = LOGFORMAT_LEGACY | LOGFORMAT_STANDARD

datatype LoggingDriver = LoggingDriverFile | LoggingDriverDualFile

fun LogLevelName :: "LogLevel \<Rightarrow> string" where
  "LogLevelName LOGLEVEL_NONE = ''None''"
| "LogLevelName LOGLEVEL_CRITICAL = ''Critical''"
| "LogLevelName LOGLEVEL_ERROR = ''Error''"
| "LogLevelName LOGLEVEL_WARNING = ''Warning''"
| "LogLevelName LOGLEVEL_INFO = ''Info''"
| "LogLevelName LOGLEVEL_DEBUG = ''Debug''"
| "LogLevelName LOGLEVEL_TRACE = ''Trace''"

fun level_number :: "LogLevel \<Rightarrow> nat" where
  "level_number LOGLEVEL_NONE = 0"
| "level_number LOGLEVEL_CRITICAL = 1"
| "level_number LOGLEVEL_ERROR = 2"
| "level_number LOGLEVEL_WARNING = 3"
| "level_number LOGLEVEL_INFO = 4"
| "level_number LOGLEVEL_DEBUG = 5"
| "level_number LOGLEVEL_TRACE = 6"

text \<open>A member that points to a block: never written, freed, NULL, or the block.\<close>

datatype 'a pointer = Wild | Freed | Null | Block 'a

definition free_block :: "'a pointer \<Rightarrow> unit res" where
  "free_block p = (case p of Wild \<Rightarrow> Inl UninitRead | Freed \<Rightarrow> Inl DanglingPtr | _ \<Rightarrow> Inr ())"

record sLogFileEntry =
  lf_fullName :: string
  lf_fileName :: "string option"
  lf_fileExtension :: "string option"
  lf_commonFd :: "stream option"
  lf_errorFd :: "stream option"

record sLogger =
  lg_driver :: LoggingDriver
  lg_applicationName :: "string pointer"
  lg_mutexInited :: bool
  lg_logFileFullName :: "string option"
  lg_date :: string
  lg_logFormat :: LogFormat
  lg_logFiles :: "(sLogFileEntry, files) Hasht option"

definition log_error :: "Error \<Rightarrow> string \<Rightarrow> Error" where
  "log_error reason text1 = Some (mkErr ERR_LOGGING 0 reason text1)"

definition quote_name :: "string \<Rightarrow> string" where
  "quote_name s = [CHR 0x27] @ s @ [CHR 0x27]"

subsection \<open>Entries\<close>

definition logFileHashTable_hash :: "sLogFileEntry \<Rightarrow> 32 word" where
  "logFileHashTable_hash e = HashString (Some (lf_fullName e))"

definition logFileHashTable_comp :: "sLogFileEntry \<Rightarrow> sLogFileEntry \<Rightarrow> 32 word" where
  "logFileHashTable_comp e1 e2 = strcmp (lf_fullName e1) (lf_fullName e2)"

interpretation log_keys: hash_keys logFileHashTable_hash logFileHashTable_comp
  by unfold_locales (auto simp: logFileHashTable_hash_def logFileHashTable_comp_def)

definition close_entry_stream :: "stream option \<Rightarrow> files \<Rightarrow> files" where
  "close_entry_stream f fs = (case f of None \<Rightarrow> fs | Some s \<Rightarrow> close_stream s fs)"

definition logFileEntryDestroy :: "sLogFileEntry \<Rightarrow> files \<Rightarrow> files" where
  "logFileEntryDestroy e fs = close_entry_stream (lf_errorFd e) (close_entry_stream (lf_commonFd e) fs)"

text \<open>
  Looking up a name, which may be NULL: the hash of NULL is zero, and comparing with an element of
  that bucket follows the NULL.
\<close>

definition name_key :: "string \<Rightarrow> sLogFileEntry" where
  "name_key name = \<lparr> lf_fullName = name, lf_fileName = None, lf_fileExtension = None, lf_commonFd = None, lf_errorFd = None \<rparr>"

definition logFileHashTable_find :: "(sLogFileEntry, files) Hasht \<Rightarrow> string option \<Rightarrow> sLogFileEntry option res" where
  "logFileHashTable_find ht fullName =
     (case fullName of
        Some name \<Rightarrow> HashFind ht (name_key name)
      | None \<Rightarrow> rbind (bucket ht 0) (\<lambda>chain. if chain = [] then Inr None else Inl NullDeref))"

text \<open>
  \<open>logFileEntryCreate\<close>: the console, or the two streams of a file, which are opened for both drivers. A
  copy of a string that fails is followed as NULL at once, or, for the name of the console, at the first
  comparison, which is a fault here already.
\<close>

definition split_name :: "string \<Rightarrow> string \<times> string" where
  "split_name name =
     (case strrchr name (CHR ''.'') of
        Some i \<Rightarrow> (take i name, drop (Suc i) name)
      | None \<Rightarrow> (name, FILELOG_DEFAULT_EXTENSION))"

definition stream_name :: "string \<Rightarrow> string \<Rightarrow> string \<Rightarrow> string" where
  "stream_name fileName specifier extension = fit MAX_FILENAME_LENGTH (fileName @ specifier @ ''.'' @ extension)"

definition open_entry :: "log_env \<Rightarrow> string \<Rightarrow> string \<Rightarrow> files \<Rightarrow> (Error \<times> sLogFileEntry option \<times> files) res" where
  "open_entry env fileName extension fs =
     (let common = stream_name fileName ''_Common'' extension; errors = stream_name fileName ''_Error'' extension in
      case fopen_append env common fs of
        (None, fs1) \<Rightarrow> Inr (log_error (le_errno env) (''Failed to open logging file '' @ quote_name common), None, fs1)
      | (Some commonFd, fs1) \<Rightarrow>
          (case fopen_append env errors fs1 of
             (None, fs2) \<Rightarrow> Inr (log_error (le_errno env) (''Failed to open logging file '' @ quote_name errors), None, fs2)
           | (Some errorFd, fs2) \<Rightarrow>
               Inr (None, Some \<lparr> lf_fullName = stream_name fileName [] extension, lf_fileName = Some fileName,
                      lf_fileExtension = Some extension, lf_commonFd = Some commonFd, lf_errorFd = Some errorFd \<rparr>, fs2)))"

definition logFileEntryCreate ::
  "log_env \<Rightarrow> string option \<Rightarrow> bool \<Rightarrow> files \<Rightarrow> (Error \<times> sLogFileEntry option \<times> files) res" where
  "logFileEntryCreate env name dualFile fs =
     (let theName = (case name of None \<Rightarrow> LOG_DESTINATION_CONSOLE | Some n \<Rightarrow> n) in
      rbind (emalloc (le_entry env) True True) (\<lambda>(error, block).
      if error \<noteq> None then Inr (error, None, fs)
      else if same_nocase theName LOG_DESTINATION_CONSOLE then
        rbind (rguard NullDeref (le_strdup env LOG_DESTINATION_CONSOLE)) (\<lambda>_.
        Inr (None, Some \<lparr> lf_fullName = LOG_DESTINATION_CONSOLE, lf_fileName = None, lf_fileExtension = None,
               lf_commonFd = Some (if dualFile then Stdout else Stderr), lf_errorFd = (if dualFile then Some Stderr else None) \<rparr>, fs))
      else
        rbind (rguard NullDeref (le_strdup env theName)) (\<lambda>_.
        (case split_name theName of (fileName, extension) \<Rightarrow>
         rbind (rguard NullDeref (le_strdup env extension)) (\<lambda>_.
         if \<not> le_fullName env
         then Inr (log_error (le_errno env) (''Failed to allocate memory for file name string '' @ quote_name fileName), None, fs)
         else open_entry env fileName extension fs)))))"

subsection \<open>Creation and destruction\<close>

text \<open>
  \<open>loggerCreateCommon\<close> with its clean-up, which leaves the logger to its caller; the format is written later,
  by \<open>log_create\<close>.
\<close>

definition loggerCreateCommon :: "log_env \<Rightarrow> LoggingDriver \<Rightarrow> string \<Rightarrow> (Error \<times> sLogger) res" where
  "loggerCreateCommon env driver appName =
     rbind (HashCreateTable (le_table env) 16 logFileHashTable_hash logFileHashTable_comp (Some logFileEntryDestroy)) (\<lambda>table.
     (let noTable = (table = None);
          noName = (\<not> noTable \<and> \<not> le_strdup env appName);
          noMutex = (\<not> noTable \<and> \<not> noName \<and> le_mutex env \<noteq> 0);
          error = (if noTable then log_error None ''Failed to create log file hash table.''
                   else if noName then log_error (le_errno env) (''Failed to allocate memory for application string '' @ quote_name appName)
                   else if noMutex then log_error (le_errno env) ''Failed to initialize mutex'' else None);
          name = (if noTable then Wild else if noName then Null else Block appName) in
      rbind (if error \<noteq> None then free_block name else Inr ()) (\<lambda>_.
      Inr (error,
        \<lparr> lg_driver = driver,
          lg_applicationName = (case name of Block _ \<Rightarrow> if error \<noteq> None then Freed else name | _ \<Rightarrow> name),
          lg_mutexInited = (error = None), lg_logFileFullName = None, lg_date = le_date env,
          lg_logFormat = LOGFORMAT_LEGACY, lg_logFiles = table \<rparr>))))"

definition loggerDestroyCommon :: "sLogger \<Rightarrow> files \<Rightarrow> files res" where
  "loggerDestroyCommon logger fs =
     rbind (free_block (lg_applicationName logger)) (\<lambda>_.
     rbind (rguard UninitRead (lg_mutexInited logger)) (\<lambda>_.
     (case lg_logFiles logger of None \<Rightarrow> Inr fs | Some table \<Rightarrow> HashDestroyTable table fs)))"

text \<open>
  \<open>fileCreate\<close> and \<open>dualFileCreate\<close>, which differ in the driver they expect. An entry that cannot be added is
  destroyed without an error.
\<close>

definition create_logger ::
  "bool \<Rightarrow> log_env \<Rightarrow> LoggingDriver \<Rightarrow> string \<Rightarrow> string option \<Rightarrow> files \<Rightarrow> (Error \<times> sLogger option \<times> files) res" where
  "create_logger dualFile env driver appName args fs =
     rbind (emalloc (le_logger env) True True) (\<lambda>(error, block).
     if error \<noteq> None then Inr (error, None, fs)
     else
       rbind (loggerCreateCommon env driver appName) (\<lambda>(error1, logger).
       if error1 \<noteq> None then rbind (loggerDestroyCommon logger fs) (\<lambda>fs1. Inr (error1, None, fs1))
       else
         rbind (logFileEntryCreate env args dualFile fs) (\<lambda>(error2, e, fs1).
         if error2 \<noteq> None then rbind (loggerDestroyCommon logger fs1) (\<lambda>fs2. Inr (error2, None, fs2))
         else
           rbind (deref e) (\<lambda>entry.
           rbind (deref (lg_logFiles logger)) (\<lambda>table.
           rbind (HashAdd (le_node env) (le_sem env) table entry) (\<lambda>(added, table1).
           Inr (None,
             Some (logger\<lparr> lg_logFileFullName := (if le_strdup env (lf_fullName entry) then Some (lf_fullName entry) else None),
                           lg_logFiles := Some table1 \<rparr>),
             if added = 0 then logFileEntryDestroy entry fs1 else fs1)))))))"

definition fileCreate ::
  "log_env \<Rightarrow> LoggingDriver \<Rightarrow> string \<Rightarrow> string option \<Rightarrow> files \<Rightarrow> (Error \<times> sLogger option \<times> files) res" where
  "fileCreate env driver appName args fs =
     rbind (rassert (driver = LoggingDriverFile)) (\<lambda>_. create_logger False env driver appName args fs)"

definition dualFileCreate ::
  "log_env \<Rightarrow> LoggingDriver \<Rightarrow> string \<Rightarrow> string option \<Rightarrow> files \<Rightarrow> (Error \<times> sLogger option \<times> files) res" where
  "dualFileCreate env driver appName args fs =
     rbind (rassert (driver = LoggingDriverDualFile)) (\<lambda>_. create_logger True env driver appName args fs)"

definition fileDestroy :: "sLogger \<Rightarrow> files \<Rightarrow> files res" where
  "fileDestroy logger fs =
     rbind (rassert (lg_driver logger = LoggingDriverFile)) (\<lambda>_. loggerDestroyCommon logger fs)"

definition dualFileDestroy :: "sLogger \<Rightarrow> files \<Rightarrow> files res" where
  "dualFileDestroy logger fs =
     rbind (rassert (lg_driver logger = LoggingDriverDualFile)) (\<lambda>_. loggerDestroyCommon logger fs)"

subsection \<open>Writing a line\<close>

definition fileLogWrite :: "log_env \<Rightarrow> stream \<Rightarrow> string \<Rightarrow> files \<Rightarrow> (Error \<times> files) res" where
  "fileLogWrite env f buffer fs =
     (if \<not> le_takes env f then Inr (log_error None ''fputs failed.'', fs)
      else rbind (append_stream f (buffer @ [LINE_END]) fs) (\<lambda>fs1. Inr (None, fs1)))"

text \<open>\<open>%03ld\<close>.\<close>

definition print_3 :: "nat \<Rightarrow> string" where
  "print_3 n = (let s = digits n in replicate (3 - length s) (CHR ''0'') @ s)"

definition line_head :: "log_env \<Rightarrow> LogFormat \<Rightarrow> string \<Rightarrow> string \<Rightarrow> LogLevel \<Rightarrow> string \<Rightarrow> int \<Rightarrow> string" where
  "line_head env logFormat applicationName moduleName logLevel sourceFile sourceLine =
     (let thread = ''['' @ digits (le_thread env) @ '']''; place = sourceFile @ '':'' @ print_int sourceLine in
      ''.'' @ print_3 (le_millitm env) @ [TAB] @
      (if logFormat = LOGFORMAT_LEGACY
       then applicationName @ [TAB] @ moduleName @ [TAB] @ LogLevelName logLevel @ [TAB] @ thread @ [TAB] @ place @ [TAB]
       else LogLevelName logLevel @ [TAB] @ thread @ [TAB] @ applicationName @ ''/'' @ moduleName @ [TAB] @ place @ [TAB]))"

text \<open>
  The buffer after \<open>fileLogBuildLine\<close>. The index grows by what \<open>snprintf\<close> would have written: behind the end
  of the buffer, the room that is left wraps around. \<open>message\<close> is what \<open>format\<close> and \<open>args\<close> stand for.
\<close>

definition fileLogBuildLine ::
  "log_env \<Rightarrow> nat \<Rightarrow> LogFormat \<Rightarrow> string pointer \<Rightarrow> string \<Rightarrow> LogLevel \<Rightarrow> string \<Rightarrow> int \<Rightarrow> string \<Rightarrow> (Error \<times> string) res" where
  "fileLogBuildLine env buffer_length logFormat applicationName moduleName logLevel sourceFile sourceLine message =
     (if le_time env = [] \<or> length (le_time env) \<ge> buffer_length then Inr (log_error None ''strftime failed.'', [])
      else
        rbind (case applicationName of Block n \<Rightarrow> Inr n | Null \<Rightarrow> Inl NullDeref | Wild \<Rightarrow> Inl UninitRead | Freed \<Rightarrow> Inl DanglingPtr) (\<lambda>app.
        (let head = le_time env @ line_head env logFormat app moduleName logLevel sourceFile sourceLine in
         rbind (rguard OutOfBounds (length head \<le> buffer_length)) (\<lambda>_.
         Inr (None, fit buffer_length (head @ message))))))"

subsection \<open>Rotation\<close>

text \<open>What \<open>ErrReport\<close> prints.\<close>

definition report_error :: "Error \<Rightarrow> files \<Rightarrow> files" where
  "report_error error fs = fs\<lparr> fs_stderr := fs_stderr fs @ concat (map (\<lambda>l. l @ [LINE_END]) (ErrReport error)) \<rparr>"

definition report_unless :: "bool \<Rightarrow> Error \<Rightarrow> files \<Rightarrow> files" where
  "report_unless ok error fs = (if ok then fs else report_error error fs)"

definition fileLogRotate ::
  "log_env \<Rightarrow> stream \<Rightarrow> string \<Rightarrow> string \<Rightarrow> string \<Rightarrow> string \<Rightarrow> files \<Rightarrow> (stream \<times> files) res" where
  "fileLogRotate env f logFileName logFileSpecifier logFileExtension logDate fs =
     rbind (case f of Stream h \<Rightarrow> rguard DanglingPtr (fs_open fs h \<noteq> None) | _ \<Rightarrow> Inr ()) (\<lambda>_.
     (let currentLogFileName = stream_name logFileName logFileSpecifier logFileExtension;
          fileName = stream_name logFileName (logFileSpecifier @ ''_'' @ logDate) logFileExtension;
          oldName = stream_name logFileName (logFileSpecifier @ ''_'' @ le_weekAgo env) logFileExtension in
      case rename_file env currentLogFileName fileName (close_stream f fs) of (renamed, fs1) \<Rightarrow>
      case fopen_append env currentLogFileName
             (report_unless renamed (log_error (le_errno env) (''Failed to rename logging file '' @ quote_name currentLogFileName
                @ '' to '' @ quote_name fileName)) fs1) of (opened, fs2) \<Rightarrow>
      case remove_file env oldName
             (report_unless (opened \<noteq> None) (log_error (le_errno env) (''Failed to open logging file '' @ quote_name currentLogFileName)) fs2)
        of (removed, fs3) \<Rightarrow>
      Inr (case opened of Some s \<Rightarrow> s | None \<Rightarrow> Stderr,
           report_unless removed (log_error (le_errno env) (''Failed to remove logging file '' @ quote_name oldName)) fs3)))"

text \<open>A stream of an entry is rotated unless it is NULL or the console.\<close>

definition rotate_stream ::
  "log_env \<Rightarrow> stream option \<Rightarrow> string \<Rightarrow> sLogFileEntry \<Rightarrow> files \<Rightarrow> (stream option \<times> files) res" where
  "rotate_stream env f specifier e fs =
     (case f of
        Some (Stream h) \<Rightarrow>
          rbind (deref (lf_fileName e)) (\<lambda>name.
          rbind (deref (lf_fileExtension e)) (\<lambda>extension.
          rbind (fileLogRotate env (Stream h) name specifier extension (le_date env) fs) (\<lambda>(s, fs1). Inr (Some s, fs1))))
      | _ \<Rightarrow> Inr (f, fs))"

definition rotate_entry :: "bool \<Rightarrow> log_env \<Rightarrow> sLogFileEntry \<Rightarrow> files \<Rightarrow> (sLogFileEntry \<times> files) res" where
  "rotate_entry dualFile env e fs =
     (if \<not> dualFile then
        rbind (rotate_stream env (lf_commonFd e) [] e fs) (\<lambda>(f, fs1). Inr (e\<lparr> lf_commonFd := f \<rparr>, fs1))
      else
        rbind (rotate_stream env (lf_commonFd e) ''_Common'' e fs) (\<lambda>(f, fs1).
        rbind (rotate_stream env (lf_errorFd e) ''_Error'' e fs1) (\<lambda>(g, fs2).
        Inr (e\<lparr> lf_commonFd := f, lf_errorFd := g \<rparr>, fs2))))"

text \<open>The entry is one object with the element of the table: a change of its streams is a change there.\<close>

definition set_entry :: "sLogFileEntry \<Rightarrow> (sLogFileEntry, files) Hasht \<Rightarrow> (sLogFileEntry, files) Hasht" where
  "set_entry e ht =
     ht\<lparr> ht_infoArray := map (map (\<lambda>n. if lf_fullName (hi_data n) = lf_fullName e then n\<lparr> hi_data := e \<rparr> else n)) (ht_infoArray ht) \<rparr>"

subsection \<open>Logging a text\<close>

text \<open>
  Where a text goes: the destination, with the default extension if its name has no dot, or the file of the
  logger. Then the entry, which is made when it is not found.
\<close>

definition log_destination :: "sLogger \<Rightarrow> string option \<Rightarrow> string option" where
  "log_destination logger logDestination =
     (case logDestination of
        None \<Rightarrow> lg_logFileFullName logger
      | Some d \<Rightarrow>
          if d = [] then lg_logFileFullName logger
          else if \<not> same_nocase d LOG_DESTINATION_CONSOLE \<and> strrchr d (CHR ''.'') = None
          then Some (fit MAX_FILENAME_LENGTH (d @ ''.'' @ FILELOG_DEFAULT_EXTENSION))
          else Some d)"

definition find_entry ::
  "bool \<Rightarrow> log_env \<Rightarrow> sLogger \<Rightarrow> string option \<Rightarrow> files \<Rightarrow> (Error \<times> sLogFileEntry option \<times> sLogger \<times> files) res" where
  "find_entry dualFile env logger destToUse fs =
     (case lg_logFiles logger of
        None \<Rightarrow> Inr (None, None, logger, fs)
      | Some table \<Rightarrow>
          rbind (logFileHashTable_find table destToUse) (\<lambda>found.
          if found \<noteq> None then Inr (None, found, logger, fs)
          else
            rbind (logFileEntryCreate env destToUse dualFile fs) (\<lambda>(error, e, fs1).
            if error \<noteq> None then Inr (error, None, logger, fs1)
            else
              rbind (deref e) (\<lambda>entry.
              rbind (HashAdd (le_node env) (le_sem env) table entry) (\<lambda>(added, table1).
              if added = 0
              then Inr (log_error None (''Failed to create log file entry for '' @ (case destToUse of None \<Rightarrow> [] | Some d \<Rightarrow> quote_name d) @ ''.''),
                     None, logger, logFileEntryDestroy entry fs1)
              else Inr (None, Some entry, logger\<lparr> lg_logFiles := Some table1 \<rparr>, fs1))))))"

definition day_change ::
  "bool \<Rightarrow> log_env \<Rightarrow> sLogFileEntry \<Rightarrow> sLogger \<Rightarrow> files \<Rightarrow> (sLogFileEntry \<times> sLogger \<times> files) res" where
  "day_change dualFile env e logger fs =
     (if le_date env = lg_date logger then Inr (e, logger, fs)
      else
        rbind (rotate_entry dualFile env e fs) (\<lambda>(e1, fs1).
        Inr (e1, logger\<lparr> lg_date := le_date env, lg_logFiles := map_option (set_entry e1) (lg_logFiles logger) \<rparr>, fs1)))"

text \<open>
  Without a table there is no entry, no line is built, and the unwritten buffer is sent to the
  console.
\<close>

definition fileLogText ::
  "log_env \<Rightarrow> sLogger \<Rightarrow> string option \<Rightarrow> string \<Rightarrow> LogLevel \<Rightarrow> string \<Rightarrow> int \<Rightarrow> string \<Rightarrow> files \<Rightarrow> (Error \<times> sLogger \<times> files) res" where
  "fileLogText env logger logDestination moduleName logLevel sourceFile sourceLine message fs =
     rbind (find_entry False env logger (log_destination logger logDestination) fs) (\<lambda>(error, e, logger1, fs1).
     if error \<noteq> None then Inr (error, logger1, fs1)
     else
       (case e of
          None \<Rightarrow> Inl UninitRead
        | Some entry \<Rightarrow>
            rbind (day_change False env entry logger1 fs1) (\<lambda>(entry1, logger2, fs2).
            rbind (fileLogBuildLine env BUFFER_LENGTH (lg_logFormat logger2) (lg_applicationName logger2) moduleName logLevel
                     sourceFile sourceLine message) (\<lambda>(error1, buffer).
            if error1 \<noteq> None then Inr (error1, logger2, fs2)
            else
              (case lf_commonFd entry1 of
                 None \<Rightarrow> Inr (None, logger2, fs2)
               | Some fd \<Rightarrow> rbind (fileLogWrite env fd buffer fs2) (\<lambda>(error2, fs3). Inr (error2, logger2, fs3)))))))"

definition is_error_level :: "LogLevel \<Rightarrow> bool" where
  "is_error_level logLevel \<longleftrightarrow> level_number LOGLEVEL_NONE < level_number logLevel \<and> level_number logLevel \<le> level_number LOGLEVEL_WARNING"

definition dualFileLogText ::
  "log_env \<Rightarrow> sLogger \<Rightarrow> string option \<Rightarrow> string \<Rightarrow> LogLevel \<Rightarrow> string \<Rightarrow> int \<Rightarrow> string \<Rightarrow> files \<Rightarrow> (Error \<times> sLogger \<times> files) res" where
  "dualFileLogText env logger logDestination moduleName logLevel sourceFile sourceLine message fs =
     rbind (find_entry True env logger (log_destination logger logDestination) fs) (\<lambda>(error, e, logger1, fs1).
     if error \<noteq> None then Inr (error, logger1, fs1)
     else
       (case e of
          None \<Rightarrow> Inl UninitRead
        | Some entry \<Rightarrow>
            rbind (day_change True env entry logger1 fs1) (\<lambda>(entry1, logger2, fs2).
            rbind (fileLogBuildLine env BUFFER_LENGTH (lg_logFormat logger2) (lg_applicationName logger2) moduleName logLevel
                     sourceFile sourceLine message) (\<lambda>(error1, buffer).
            if error1 \<noteq> None then Inr (error1, logger2, fs2)
            else
              rbind (case lf_errorFd entry1 of
                       Some fd \<Rightarrow> if is_error_level logLevel then fileLogWrite env fd buffer fs2 else Inr (None, fs2)
                     | None \<Rightarrow> Inr (None, fs2)) (\<lambda>(error2, fs3).
              if error2 \<noteq> None then Inr (error2, logger2, fs3)
              else
                (case lf_commonFd entry1 of
                   None \<Rightarrow> Inr (None, logger2, fs3)
                 | Some fd \<Rightarrow> rbind (fileLogWrite env fd buffer fs3) (\<lambda>(error3, fs4). Inr (error3, logger2, fs4))))))))"

subsection \<open>The interface\<close>

text \<open>
  The program: the files, the loggers by their addresses, the default logger and the global level. The
  address 0 is that of \<open>sDefaultLogger\<close>, whose members are constants.
\<close>

record log_program =
  lp_files :: files
  lp_loggers :: "nat \<rightharpoonup> sLogger"
  lp_default :: nat
  lp_level :: LogLevel

definition sDefaultLogger :: sLogger where
  "sDefaultLogger = \<lparr> lg_driver = LoggingDriverFile, lg_applicationName = Block ''unknown'', lg_mutexInited = True,
     lg_logFileFullName = None, lg_date = ''2004-12-24'', lg_logFormat = LOGFORMAT_STANDARD, lg_logFiles = None \<rparr>"

definition log_create ::
  "log_env \<Rightarrow> nat \<Rightarrow> string \<Rightarrow> LoggingDriver option \<Rightarrow> string option \<Rightarrow> bool \<Rightarrow> log_program \<Rightarrow> (Error \<times> nat option \<times> log_program) res" where
  "log_create env addr applicationName driver driverArguments setAsDefault prog =
     (case driver of
        None \<Rightarrow> Inr (log_error None ''log_create: Cannot use NULL driver.'', None, prog)
      | Some d \<Rightarrow>
          rbind (case d of
                   LoggingDriverFile \<Rightarrow> fileCreate env d applicationName driverArguments (lp_files prog)
                 | LoggingDriverDualFile \<Rightarrow> dualFileCreate env d applicationName driverArguments (lp_files prog)) (\<lambda>(error, logger, fs).
          if error \<noteq> None then Inr (error, None, prog\<lparr> lp_files := fs \<rparr>)
          else
            rbind (deref logger) (\<lambda>lg.
            Inr (None, Some addr,
              prog\<lparr> lp_files := fs, lp_loggers := (lp_loggers prog)(addr \<mapsto> lg\<lparr> lg_logFormat := LOGFORMAT_STANDARD \<rparr>),
                    lp_default := (if setAsDefault then addr else lp_default prog) \<rparr>))))"

text \<open>The default logger stays the default when it is destroyed.\<close>

definition log_destroy :: "nat \<Rightarrow> log_program \<Rightarrow> log_program res" where
  "log_destroy addr prog =
     rbind (cell (lp_loggers prog) addr) (\<lambda>logger.
     rbind (rguard DanglingPtr (addr \<noteq> 0)) (\<lambda>_.
     rbind (case lg_driver logger of
              LoggingDriverFile \<Rightarrow> fileDestroy logger (lp_files prog)
            | LoggingDriverDualFile \<Rightarrow> dualFileDestroy logger (lp_files prog)) (\<lambda>fs.
     Inr (prog\<lparr> lp_files := fs, lp_loggers := (lp_loggers prog)(addr := None) \<rparr>))))"

definition log_setFormat :: "nat \<Rightarrow> LogFormat \<Rightarrow> log_program \<Rightarrow> log_program res" where
  "log_setFormat addr logFormat prog =
     rbind (modify addr (\<lambda>lg. lg\<lparr> lg_logFormat := logFormat \<rparr>) (lp_loggers prog)) (\<lambda>l. Inr (prog\<lparr> lp_loggers := l \<rparr>))"

definition base_name :: "string \<Rightarrow> string" where
  "base_name sourceFile = (case strrchr sourceFile (CHR ''/'') of None \<Rightarrow> sourceFile | Some i \<Rightarrow> drop (Suc i) sourceFile)"

definition log_logText ::
  "log_env \<Rightarrow> nat option \<Rightarrow> string option \<Rightarrow> string \<Rightarrow> LogLevel \<Rightarrow> string \<Rightarrow> int \<Rightarrow> string \<Rightarrow> log_program \<Rightarrow> (Error \<times> log_program) res" where
  "log_logText env logger logDestination moduleName logLevel sourceFile sourceLine message prog =
     (let addr = (case logger of None \<Rightarrow> lp_default prog | Some a \<Rightarrow> a) in
      rbind (cell (lp_loggers prog) addr) (\<lambda>lg.
      rbind (case lg_driver lg of
               LoggingDriverFile \<Rightarrow> fileLogText env lg logDestination moduleName logLevel (base_name sourceFile) sourceLine message (lp_files prog)
             | LoggingDriverDualFile \<Rightarrow>
                 dualFileLogText env lg logDestination moduleName logLevel (base_name sourceFile) sourceLine message (lp_files prog))
        (\<lambda>(error, lg1, fs). Inr (error, prog\<lparr> lp_files := fs, lp_loggers := (lp_loggers prog)(addr \<mapsto> lg1) \<rparr>))))"

text \<open>The error of the inner call is dropped. \<open>stringOk\<close>: the block for the text of the error.\<close>

definition log_logError ::
  "log_env \<Rightarrow> bool \<Rightarrow> nat option \<Rightarrow> string option \<Rightarrow> string \<Rightarrow> LogLevel \<Rightarrow> string \<Rightarrow> int \<Rightarrow> sError \<Rightarrow> log_program \<Rightarrow> (Error \<times> log_program) res" where
  "log_logError env stringOk logger logDestination moduleName logLevel sourceFile sourceLine error prog =
     rbind (ErrToHumanReadableString error stringOk) (\<lambda>(internalError, errorMessage).
     if internalError \<noteq> None then Inr (internalError, prog)
     else
       rbind (deref errorMessage) (\<lambda>m.
       rbind (log_logText env logger logDestination moduleName logLevel sourceFile sourceLine (takeWhile (\<lambda>c. c \<noteq> NUL) m) prog)
         (\<lambda>(_, prog1). Inr (None, prog1))))"

text \<open>The macros \<open>LOG_CRITICAL\<close> to \<open>LOG_TRACE\<close>: the global or the module's level is at least that of the message.\<close>

definition LOG ::
  "log_env \<Rightarrow> LogLevel \<Rightarrow> nat option \<Rightarrow> string option \<Rightarrow> string \<Rightarrow> LogLevel \<Rightarrow> string \<Rightarrow> int \<Rightarrow> string \<Rightarrow> log_program \<Rightarrow> (Error \<times> log_program) res" where
  "LOG env moduleLevel logger logDestination moduleName logLevel sourceFile sourceLine message prog =
     (if level_number logLevel \<le> level_number (lp_level prog) \<or> level_number logLevel \<le> level_number moduleLevel
      then log_logText env logger logDestination moduleName logLevel sourceFile sourceLine message prog
      else Inr (None, prog))"

text \<open>The module of \<open>logging.c\<close> itself has level \<open>LOGLEVEL_NONE\<close>; \<open>line\<close> is the line of the macro.\<close>

definition log_GlobalLogLevelSet :: "log_env \<Rightarrow> int \<Rightarrow> LogLevel \<Rightarrow> log_program \<Rightarrow> (LogLevel \<times> log_program) res" where
  "log_GlobalLogLevelSet env line level prog =
     (let oldLevel = lp_level prog;
          message = ''Global logging level changed from '' @ print_int (int (level_number oldLevel)) @ '' to '' @ print_int (int (level_number level));
          info = LOG env LOGLEVEL_NONE None (Some []) ''VoxiLogging'' LOGLEVEL_INFO ''logging.c'' line message in
      rbind (if level_number level < level_number oldLevel then info prog else Inr (None, prog)) (\<lambda>(_, prog1).
      rbind (if level_number level \<ge> level_number oldLevel then info (prog1\<lparr> lp_level := level \<rparr>)
             else Inr (None, prog1\<lparr> lp_level := level \<rparr>)) (\<lambda>(_, prog2).
      Inr (oldLevel, prog2))))"

subsection \<open>Well-formed loggers\<close>

text \<open>
  The streams of an entry that are files. A logger is well formed when every stream of its entries is open
  and belongs to one entry only, entries with streams have a name, no node of the table has a cursor,
  and the application's name and the mutex are there.
\<close>

definition handles :: "stream option \<Rightarrow> nat list" where
  "handles f = (case f of Some (Stream h) \<Rightarrow> [h] | _ \<Rightarrow> [])"

definition entry_handles :: "sLogFileEntry \<Rightarrow> nat list" where
  "entry_handles e = handles (lf_commonFd e) @ handles (lf_errorFd e)"

definition table_handles :: "(sLogFileEntry, files) Hasht \<Rightarrow> nat list" where
  "table_handles t = concat (map entry_handles (ht_elems t))"

definition fs_ok :: "files \<Rightarrow> bool" where
  "fs_ok fs \<longleftrightarrow> (\<forall>h i. fs_open fs h = Some i \<longrightarrow> h < fs_streams fs \<and> i < fs_inodes fs)
     \<and> (\<forall>n i. fs_names fs n = Some i \<longrightarrow> i < fs_inodes fs) \<and> inj_on (fs_names fs) (dom (fs_names fs))"

definition entry_named :: "sLogFileEntry \<Rightarrow> bool" where
  "entry_named e \<longleftrightarrow> entry_handles e \<noteq> [] \<longrightarrow> lf_fileName e \<noteq> None \<and> lf_fileExtension e \<noteq> None"

definition log_table :: "(sLogFileEntry, files) Hasht \<Rightarrow> files \<Rightarrow> bool" where
  "log_table t fs \<longleftrightarrow> ht_for logFileHashTable_hash logFileHashTable_comp t \<and> ht_destrData t = Some logFileEntryDestroy
     \<and> (\<forall>n \<in> set (concat (ht_infoArray t)). hi_firstCursor n = None)
     \<and> distinct (table_handles t) \<and> set (table_handles t) \<subseteq> dom (fs_open fs) \<and> (\<forall>e \<in> set (ht_elems t). entry_named e)"

definition logger_ok :: "sLogger \<Rightarrow> files \<Rightarrow> bool" where
  "logger_ok lg fs \<longleftrightarrow> (\<exists>n. lg_applicationName lg = Block n) \<and> lg_mutexInited lg \<and> fs_ok fs
     \<and> (\<exists>t. lg_logFiles lg = Some t \<and> log_table t fs)"

definition table_of :: "sLogger \<Rightarrow> (sLogFileEntry, files) Hasht" where
  "table_of lg = the (lg_logFiles lg)"

lemma logger_okD:
  "logger_ok lg fs \<Longrightarrow> lg_logFiles lg = Some (table_of lg)" "logger_ok lg fs \<Longrightarrow> log_table (table_of lg) fs" "logger_ok lg fs \<Longrightarrow> fs_ok fs"
  by (auto simp: logger_ok_def table_of_def)

subsubsection \<open>Files\<close>

lemma fopen_refused: "\<not> le_allows env name \<Longrightarrow> fopen_append env name fs = (None, fs)"
  by (simp add: fopen_append_def)

lemma fopen_append_ok:
  assumes "fs_ok fs" and "le_allows env name"
  shows "\<exists>fs1 i. fopen_append env name fs = (Some (Stream (fs_streams fs)), fs1) \<and> fs_ok fs1
    \<and> fs_open fs1 = (fs_open fs)(fs_streams fs \<mapsto> i) \<and> fs_streams fs1 = fs_streams fs + 1
    \<and> fs_names fs1 = (fs_names fs)(name \<mapsto> i) \<and> (\<forall>n. file_text fs1 n = file_text fs n)
    \<and> (fs_names fs name = None \<or> fs_names fs name = Some i) \<and> (\<forall>j < fs_inodes fs. fs_data fs1 j = fs_data fs j)"
proof (cases "fs_names fs name")
  case None
  let ?i = "fs_inodes fs"
  have fresh: "fs_names fs n \<noteq> Some ?i" for n using assms(1) by (auto simp: fs_ok_def)
  have inj: "inj_on ((fs_names fs)(name \<mapsto> ?i)) (insert name (dom (fs_names fs)))"
  proof -
    have "inj_on (fs_names fs) (dom (fs_names fs))" using assms(1) by (simp add: fs_ok_def)
    moreover have "Some ?i \<notin> fs_names fs ` A" for A using fresh by (metis imageE)
    ultimately show ?thesis using None by (simp add: inj_on_fun_updI domIff)
  qed
  define fs1 where "fs1 = fs\<lparr> fs_names := (fs_names fs)(name \<mapsto> ?i), fs_data := (fs_data fs)(?i := []), fs_inodes := ?i + 1,
    fs_open := (fs_open fs)(fs_streams fs \<mapsto> ?i), fs_streams := fs_streams fs + 1 \<rparr>"
  have "fopen_append env name fs = (Some (Stream (fs_streams fs)), fs1)" using assms(2) None by (simp add: fopen_append_def fs1_def)
  moreover have "fs_ok fs1"
    using assms(1) inj unfolding fs_ok_def fs1_def by (simp add: less_Suc_eq)
  moreover have "file_text fs1 n = file_text fs n" for n
    using None fresh[of n] by (simp add: file_text_def fs1_def split: option.split)
  ultimately show ?thesis using None by (intro exI[of _ fs1] exI[of _ ?i]) (simp add: fs1_def)
next
  case (Some i)
  define fs1 where "fs1 = fs\<lparr> fs_open := (fs_open fs)(fs_streams fs \<mapsto> i), fs_streams := fs_streams fs + 1 \<rparr>"
  have "fopen_append env name fs = (Some (Stream (fs_streams fs)), fs1)" using assms(2) Some by (simp add: fopen_append_def fs1_def)
  moreover have "fs_ok fs1" using assms(1) Some by (auto simp: fs_ok_def fs1_def less_Suc_eq)
  moreover have "file_text fs1 n = file_text fs n" for n by (simp add: file_text_def fs1_def split: option.split)
  ultimately show ?thesis using Some by (intro exI[of _ fs1] exI[of _ i]) (simp add: fs1_def fun_upd_idem)
qed

lemma fresh_handle: "fs_ok fs \<Longrightarrow> fs_open fs (fs_streams fs) = None"
  by (auto simp: fs_ok_def) (metis not_None_eq less_irrefl)

lemma close_stream_ok: "fs_ok fs \<Longrightarrow> fs_ok (close_stream f fs)"
  by (cases f) (auto simp: fs_ok_def)

lemma close_entry_stream_ok:
  "fs_ok fs \<Longrightarrow> fs_ok (close_entry_stream f fs)" "fs_open (close_entry_stream f fs) = fs_open fs |` (- set (handles f))"
  "fs_streams (close_entry_stream f fs) = fs_streams fs"
proof -
  show "fs_ok fs \<Longrightarrow> fs_ok (close_entry_stream f fs)" by (cases f) (simp_all add: close_entry_stream_def close_stream_ok)
  show "fs_open (close_entry_stream f fs) = fs_open fs |` (- set (handles f))" "fs_streams (close_entry_stream f fs) = fs_streams fs"
  proof (atomize(full), cases f)
    case (Some s)
    then show "fs_open (close_entry_stream f fs) = fs_open fs |` (- set (handles f)) \<and> fs_streams (close_entry_stream f fs) = fs_streams fs"
      by (cases s) (auto simp: close_entry_stream_def handles_def restrict_map_def)
  qed (simp add: close_entry_stream_def handles_def restrict_map_def)
qed

lemma logFileEntryDestroy_ok:
  "fs_ok fs \<Longrightarrow> fs_ok (logFileEntryDestroy e fs)" "fs_open (logFileEntryDestroy e fs) = fs_open fs |` (- set (entry_handles e))"
  by (simp_all add: logFileEntryDestroy_def close_entry_stream_ok entry_handles_def Int_commute)

lemma append_stream_ok:
  assumes "fs_ok fs" and "set (handles (Some f)) \<subseteq> dom (fs_open fs)"
  shows "\<exists>fs1. append_stream f s fs = Inr fs1 \<and> fs_ok fs1 \<and> fs_open fs1 = fs_open fs"
  using assms by (cases f) (auto simp: fs_ok_def handles_def)

lemma report_unless_ok [simp]:
  "fs_ok (report_unless b e fs) \<longleftrightarrow> fs_ok fs" "fs_open (report_unless b e fs) = fs_open fs"
  "fs_names (report_unless b e fs) = fs_names fs" "fs_streams (report_unless b e fs) = fs_streams fs"
  "fs_inodes (report_unless b e fs) = fs_inodes fs" "fs_data (report_unless b e fs) = fs_data fs"
  by (simp_all add: report_unless_def report_error_def fs_ok_def)

lemma rename_file_ok:
  assumes "fs_ok fs"
  shows "fs_ok (snd (rename_file env old new fs))" "fs_open (snd (rename_file env old new fs)) = fs_open fs"
    "fs_streams (snd (rename_file env old new fs)) = fs_streams fs"
proof -
  have "inj_on ((fs_names fs)(new := fs_names fs old, old := None)) (dom ((fs_names fs)(new := fs_names fs old, old := None)))"
    if "old \<noteq> new"
    using assms that by (auto simp: fs_ok_def inj_on_def dom_def)
  then show "fs_ok (snd (rename_file env old new fs))" using assms by (auto simp: rename_file_def fs_ok_def)
qed (simp_all add: rename_file_def)

lemma remove_file_ok:
  assumes "fs_ok fs"
  shows "fs_ok (snd (remove_file env name fs))" "fs_open (snd (remove_file env name fs)) = fs_open fs"
    "fs_streams (snd (remove_file env name fs)) = fs_streams fs"
proof -
  have "inj_on ((fs_names fs)(name := None)) (dom ((fs_names fs)(name := None)))"
    using assms by (auto simp: fs_ok_def inj_on_def)
  then show "fs_ok (snd (remove_file env name fs))" using assms by (auto simp: remove_file_def fs_ok_def)
qed (simp_all add: remove_file_def)

subsubsection \<open>Tables\<close>

lemma log_table_nodes: "log_table t fs \<Longrightarrow> ht_for logFileHashTable_hash logFileHashTable_comp t" "log_table t fs \<Longrightarrow> ht_wf t"
  by (simp_all add: log_table_def ht_for_def)

text \<open>Adding to the table, whatever the outcomes: the element is in, or the table is as it was.\<close>

lemma HashAdd_log:
  assumes "ht_for logFileHashTable_hash logFileHashTable_comp t" and "ht_elementCount t < INT_MAX"
    and "\<forall>n \<in> set (concat (ht_infoArray t)). hi_firstCursor n = None"
  shows "HashAdd node sem t e = Inr (0, t) \<or> (\<exists>t1. HashAdd node sem t e = Inr (1, t1)
      \<and> ht_for logFileHashTable_hash logFileHashTable_comp t1 \<and> ht_destrData t1 = ht_destrData t
      \<and> (\<forall>n \<in> set (concat (ht_infoArray t1)). hi_firstCursor n = None) \<and> mset (ht_elems t1) = add_mset e (mset (ht_elems t)))"
proof (cases "ht_lookup t e")
  case None
  show ?thesis
  proof (cases "node \<noteq> None \<and> sem")
    case True
    then obtain a where a: "node = Some a" "sem" by blast
    obtain t1 where t1: "HashAdd (Some a) True t e = Inr (1, t1)" "ht_for logFileHashTable_hash logFileHashTable_comp t1"
        "mset (ht_elems t1) = add_mset e (mset (ht_elems t))"
      using log_keys.add_fresh[OF assms(1) None assms(2), of a] by blast
    have wf: "ht_wf t" using assms(1) by (simp add: ht_for_def)
    have "t1 = t\<lparr> ht_infoArray := (ht_infoArray t)[ht_slot t e := \<lparr> hi_addr = a, hi_data = e, hi_firstCursor = None \<rparr> # ht_infoArray t ! ht_slot t e],
        ht_elementCount := ht_elementCount t + 1 \<rparr>"
      using t1(1) wf by (auto simp: HashAdd_def hash_index_wf FindInfo_def bucket_wf res_iff iadd_def split: if_splits)
    moreover have "set (concat (ht_infoArray t1)) \<subseteq> insert \<lparr> hi_addr = a, hi_data = e, hi_firstCursor = None \<rparr> (set (concat (ht_infoArray t)))"
    proof -
      have "ht_slot t e < length (ht_infoArray t)" using ht_slot_less[OF wf] wf by (simp add: ht_wf_def)
      then show ?thesis unfolding calculation using set_update_subset_insert[of "ht_infoArray t"] nth_mem by fastforce
    qed
    ultimately show ?thesis using t1 a assms(3) by auto
  next
    case False
    then show ?thesis using assms(1) None
      by (auto simp: HashAdd_def ht_for_def hash_index_wf FindInfo_def bucket_wf split: option.split)
  qed
next
  case (Some x)
  then show ?thesis using log_keys.add_present[OF assms(1)] by blast
qed

lemma table_handles_mset: "mset (table_handles t) = sum_mset (image_mset (\<lambda>e. mset (entry_handles e)) (mset (ht_elems t)))"
proof -
  have "mset (concat (map entry_handles xs)) = sum_mset (image_mset (\<lambda>e. mset (entry_handles e)) (mset xs))" for xs
    by (induction xs) auto
  then show ?thesis by (simp add: table_handles_def)
qed

lemma log_table_open: "log_table t fs \<Longrightarrow> set (table_handles t) \<subseteq> dom (fs_open fs1) \<Longrightarrow> log_table t fs1"
  by (simp add: log_table_def)

lemma elementCount_elems: "log_table t fs \<Longrightarrow> ht_elementCount t = int (length (ht_elems t))"
  by (simp add: log_table_def ht_for_def ht_wf_def ht_elems_def)

lemma log_table_add:
  assumes "log_table t fs" and "int (length (ht_elems t)) < INT_MAX" and "distinct (entry_handles e)"
    and "set (entry_handles e) \<inter> set (table_handles t) = {}" and "set (entry_handles e) \<union> dom (fs_open fs) \<subseteq> dom (fs_open fs1)"
    and "entry_named e"
  shows "HashAdd node sem t e = Inr (0, t) \<or> (\<exists>t1. HashAdd node sem t e = Inr (1, t1) \<and> log_table t1 fs1
    \<and> mset (ht_elems t1) = add_mset e (mset (ht_elems t)))"
proof -
  have t: "ht_for logFileHashTable_hash logFileHashTable_comp t" "ht_elementCount t < INT_MAX"
      "\<forall>n \<in> set (concat (ht_infoArray t)). hi_firstCursor n = None"
    using assms(1,2) elementCount_elems[OF assms(1)] by (simp_all add: log_table_def)
  show ?thesis
  proof (cases "HashAdd node sem t e = Inr (0, t)")
    case False
    then obtain t1 where t1: "HashAdd node sem t e = Inr (1, t1)" "ht_for logFileHashTable_hash logFileHashTable_comp t1"
        "ht_destrData t1 = ht_destrData t" "\<forall>n \<in> set (concat (ht_infoArray t1)). hi_firstCursor n = None"
        "mset (ht_elems t1) = add_mset e (mset (ht_elems t))"
      using HashAdd_log[OF t, of node sem e] by blast
    have m: "mset (table_handles t1) = mset (entry_handles e @ table_handles t)"
      by (simp add: table_handles_mset t1(5))
    then have s: "set (table_handles t1) = set (entry_handles e @ table_handles t)" by (rule mset_eq_setD)
    have "distinct (entry_handles e @ table_handles t)" using assms(1,3,4) by (simp add: log_table_def)
    then have "distinct (table_handles t1)" using mset_eq_imp_distinct_iff[OF m] by simp
    moreover have "set (ht_elems t1) = insert e (set (ht_elems t))" using t1(5) by (metis set_mset_add_mset_insert set_mset_mset)
    moreover have "set (table_handles t) \<subseteq> dom (fs_open fs)" using assms(1) by (simp add: log_table_def)
    then have "set (table_handles t1) \<subseteq> dom (fs_open fs1)" using assms(5) unfolding s set_append by blast
    ultimately have "log_table t1 fs1" using t1(2-4) assms(1,6) by (simp add: log_table_def)
    then show ?thesis using t1(1,5) by blast
  qed simp
qed

subsubsection \<open>Finding the entry\<close>

lemma log_error_Some [simp]: "log_error r s \<noteq> None" "log_error r s = Some x \<longleftrightarrow> x = mkErr ERR_LOGGING 0 r s"
  by (auto simp: log_error_def)

definition strdup_ok :: "log_env \<Rightarrow> bool" where
  "strdup_ok env \<longleftrightarrow> (\<forall>s. le_strdup env s)"

lemma open_entry_ok:
  assumes "fs_ok fs"
  shows "\<exists>error e fs1. open_entry env n x fs = Inr (error, e, fs1) \<and> fs_ok fs1 \<and> fs_open fs \<subseteq>\<^sub>m fs_open fs1
    \<and> (error = None \<longrightarrow> (\<exists>y. e = Some y \<and> distinct (entry_handles y) \<and> entry_named y
         \<and> set (entry_handles y) \<subseteq> dom (fs_open fs1) - dom (fs_open fs)))"
proof (cases "le_allows env (stream_name n ''_Common'' x)")
  case False
  then show ?thesis using assms by (simp add: open_entry_def fopen_refused)
next
  case True
  let ?h = "fs_streams fs"
  obtain fs1 i where a: "fopen_append env (stream_name n ''_Common'' x) fs = (Some (Stream ?h), fs1)" "fs_ok fs1"
      "fs_open fs1 = (fs_open fs)(?h \<mapsto> i)" "fs_streams fs1 = ?h + 1" using fopen_append_ok[OF assms True] by blast
  have f: "fs_open fs ?h = None" using fresh_handle[OF assms] .
  show ?thesis
  proof (cases "le_allows env (stream_name n ''_Error'' x)")
    case False
    then show ?thesis using a f by (auto simp: open_entry_def fopen_refused map_le_def)
  next
    case True
    obtain fs2 j where b: "fopen_append env (stream_name n ''_Error'' x) fs1 = (Some (Stream (?h + 1)), fs2)" "fs_ok fs2"
        "fs_open fs2 = (fs_open fs1)(?h + 1 \<mapsto> j)" using fopen_append_ok[OF a(2) True] unfolding a(4) by blast
    have g: "fs_open fs (?h + 1) = None" using assms by (auto simp: fs_ok_def) (metis Suc_lessD less_irrefl not_None_eq)
    have "fs_open fs \<subseteq>\<^sub>m fs_open fs2" using f g by (auto simp: map_le_def a(3) b(3))
    moreover have "{?h, ?h + 1} \<subseteq> dom (fs_open fs2) - dom (fs_open fs)" using f g by (auto simp: a(3) b(3))
    ultimately show ?thesis using a(1) b(1,2) by (simp add: open_entry_def entry_handles_def handles_def entry_named_def)
  qed
qed

lemma logFileEntryCreate_ok:
  assumes "fs_ok fs" and "strdup_ok env"
  shows "\<exists>error e fs1. logFileEntryCreate env name dual fs = Inr (error, e, fs1) \<and> fs_ok fs1 \<and> fs_open fs \<subseteq>\<^sub>m fs_open fs1
    \<and> (error = None \<longrightarrow> (\<exists>y. e = Some y \<and> distinct (entry_handles y) \<and> entry_named y
         \<and> set (entry_handles y) \<subseteq> dom (fs_open fs1) - dom (fs_open fs)))"
proof -
  let ?name = "case name of None \<Rightarrow> LOG_DESTINATION_CONSOLE | Some n \<Rightarrow> n"
  obtain n x where s: "split_name ?name = (n, x)" by (cases "split_name ?name")
  have m: "emalloc b True True = Inr (if b then None else Some (mkErr ERR_MEMORY MEMERR_OUT None ''Out of memory when allocating''), if b then Some () else None)" for b
    by (simp add: emalloc_def ErrNew_def)
  show ?thesis
    using assms open_entry_ok[OF assms(1), of env n x]
    by (auto simp: logFileEntryCreate_def Let_def m s strdup_ok_def entry_handles_def handles_def entry_named_def)
qed

definition one_more :: "sLogger \<Rightarrow> sLogger \<Rightarrow> bool" where
  "one_more lg lg1 \<longleftrightarrow> length (ht_elems (table_of lg1)) \<le> length (ht_elems (table_of lg)) + 1
     \<and> lg_applicationName lg1 = lg_applicationName lg \<and> lg_logFormat lg1 = lg_logFormat lg \<and> lg_logFileFullName lg1 = lg_logFileFullName lg
     \<and> lg_driver lg1 = lg_driver lg"

lemma find_entry_ok:
  assumes "logger_ok lg fs" and "strdup_ok env" and "int (length (ht_elems (table_of lg))) < INT_MAX"
  shows "\<exists>error e lg1 fs1. find_entry dual env lg (Some d) fs = Inr (error, e, lg1, fs1) \<and> logger_ok lg1 fs1 \<and> one_more lg lg1
    \<and> lg_date lg1 = lg_date lg \<and> (error = None \<longrightarrow> (\<exists>y. e = Some y \<and> y \<in> set (ht_elems (table_of lg1))))"
proof -
  define t where "t = table_of lg"
  have t: "lg_logFiles lg = Some t" "log_table t fs" "fs_ok fs" using logger_okD[OF assms(1)] by (simp_all add: t_def)
  have find: "logFileHashTable_find t (Some d) = Inr (ht_lookup t (name_key d))"
    using HashFind_wf[OF log_table_nodes(2)[OF t(2)]] by (simp add: logFileHashTable_find_def)
  show ?thesis
  proof (cases "ht_lookup t (name_key d)")
    case (Some e)
    then have "e \<in> set (ht_elems t)" using log_keys.lookup_Some[OF log_table_nodes(1)[OF t(2)]] by blast
    then show ?thesis using assms(1) t(1) find Some by (simp add: find_entry_def one_more_def flip: t_def)
  next
    case None
    obtain error e fs1 where c: "logFileEntryCreate env (Some d) dual fs = Inr (error, e, fs1)" "fs_ok fs1" "fs_open fs \<subseteq>\<^sub>m fs_open fs1"
        "error = None \<longrightarrow> (\<exists>y. e = Some y \<and> distinct (entry_handles y) \<and> entry_named y
           \<and> set (entry_handles y) \<subseteq> dom (fs_open fs1) - dom (fs_open fs))"
      using logFileEntryCreate_ok[OF t(3) assms(2), of "Some d" dual] by blast
    have d: "dom (fs_open fs) \<subseteq> dom (fs_open fs1)" using c(3) by (rule map_le_implies_dom_le)
    have h: "set (table_handles t) \<subseteq> dom (fs_open fs)" using t(2) by (simp add: log_table_def)
    show ?thesis
    proof (cases "error = None")
      case False
      have "logger_ok lg fs1" using assms(1) t c(2) d h log_table_open[OF t(2), of fs1] by (auto simp: logger_ok_def)
      then show ?thesis using False find None c(1) t(1) by (simp add: find_entry_def one_more_def)
    next
      case True
      then obtain y where y: "e = Some y" "distinct (entry_handles y)" "entry_named y"
          "set (entry_handles y) \<subseteq> dom (fs_open fs1) - dom (fs_open fs)" using c(4) by blast
      then consider "HashAdd (le_node env) (le_sem env) t y = Inr (0, t)"
        | t1 where "HashAdd (le_node env) (le_sem env) t y = Inr (1, t1)" "log_table t1 fs1" "mset (ht_elems t1) = add_mset y (mset (ht_elems t))"
        using log_table_add[OF t(2), of y fs1 "le_node env" "le_sem env"] assms(3) d h unfolding t_def by blast
      then show ?thesis
      proof cases
        case 1
        have "set (table_handles t) \<subseteq> dom (fs_open (logFileEntryDestroy y fs1))"
          unfolding logFileEntryDestroy_ok dom_restrict using d h y(4) by blast
        then have "logger_ok lg (logFileEntryDestroy y fs1)"
          using assms(1) t(1) log_table_open[OF t(2)] logFileEntryDestroy_ok(1)[OF c(2)] by (auto simp: logger_ok_def)
        then show ?thesis using 1 True find None c(1) t(1) y(1) by (simp add: find_entry_def one_more_def)
      next
        case 2
        have "length (ht_elems t1) = length (ht_elems t) + 1" "y \<in> set (ht_elems t1)"
          using arg_cong[where f = size, OF 2(3)] arg_cong[where f = set_mset, OF 2(3)] by simp_all
        moreover have "logger_ok (lg\<lparr> lg_logFiles := Some t1 \<rparr>) fs1" using assms(1) 2(2) c(2) by (auto simp: logger_ok_def)
        ultimately show ?thesis using 2(1) True find None c(1) t(1) y(1) by (simp add: find_entry_def one_more_def table_of_def)
      qed
    qed
  qed
qed

subsubsection \<open>Changing an entry\<close>

lemma distinct_buckets:
  "\<forall>i < length xss. distinct (xss ! i) \<and> (\<forall>x \<in> set (xss ! i). g x = i + k) \<Longrightarrow> distinct (concat xss)"
proof (induction xss arbitrary: k)
  case (Cons xs xss)
  have "distinct (concat xss)" by (rule Cons.IH[of "k + 1"]) (use Cons.prems in force)
  moreover have "g x = k" if "x \<in> set xs" for x using Cons.prems that by force
  moreover have "g x \<noteq> k" if x: "x \<in> set (concat xss)" for x
  proof -
    obtain ys where "ys \<in> set xss" "x \<in> set ys" using x by auto
    then obtain i where "i < length xss" "x \<in> set (xss ! i)" by (auto simp: in_set_conv_nth)
    then show ?thesis using Cons.prems[rule_format, of "Suc i"] by simp
  qed
  moreover have "distinct xs" using Cons.prems by force
  ultimately show ?case by auto
qed simp

lemma names_distinct:
  assumes "ht_for logFileHashTable_hash logFileHashTable_comp t"
  shows "distinct (map lf_fullName (ht_elems t))"
proof -
  let ?xss = "map (map (lf_fullName \<circ> hi_data)) (ht_infoArray t)"
  have wf: "ht_wf t" and f: "ht_calcIndx t = logFileHashTable_hash" "ht_compData t = logFileHashTable_comp"
    using assms by (auto simp: ht_for_def)
  have "distinct (concat ?xss)"
  proof (rule distinct_buckets[where k = 0 and g = "\<lambda>s. unat (HashString (Some s)) mod ht_size t"], intro allI impI conjI ballI)
    fix i assume i: "i < length ?xss"
    then have b: "list_all (\<lambda>n. unat (logFileHashTable_hash (hi_data n)) mod ht_size t = i) (ht_infoArray t ! i)"
        "keys_differ logFileHashTable_comp (ht_infoArray t ! i)" using wf f by (auto simp: ht_wf_def)
    show "distinct (?xss ! i)" using b(2) i
      by (simp add: keys_differ_def logFileHashTable_comp_def distinct_conv_nth sorted_wrt_iff_nth_less) (metis nat_neq_iff)
    show "unat (HashString (Some x)) mod ht_size t = i + 0" if "x \<in> set (?xss ! i)" for x
      using b(1) i that by (auto simp: logFileHashTable_hash_def list_all_iff)
  qed
  then show ?thesis by (simp add: ht_elems_def map_concat comp_def)
qed

lemma set_entry_elems: "ht_elems (set_entry e t) = map (\<lambda>x. if lf_fullName x = lf_fullName e then e else x) (ht_elems t)"
  by (simp add: ht_elems_def set_entry_def comp_def map_concat[symmetric] if_distrib)

lemma mset_replace:
  assumes "distinct (map f xs)" and "x \<in> set xs" and "f y = f x"
  shows "add_mset x (mset (map (\<lambda>z. if f z = f y then y else z) xs)) = add_mset y (mset xs)"
proof -
  obtain us vs where xs: "xs = us @ x # vs" using assms(2) by (auto dest: split_list)
  have "map (\<lambda>z. if f z = f y then y else z) us = us" "map (\<lambda>z. if f z = f y then y else z) vs = vs"
    using assms(1,3) unfolding xs by (auto intro!: map_idI) (metis image_eqI)+
  then show ?thesis using assms(3) by (simp add: xs)
qed

lemma set_entry_for:
  assumes "ht_for logFileHashTable_hash logFileHashTable_comp t"
  shows "ht_for logFileHashTable_hash logFileHashTable_comp (set_entry e t)"
proof -
  let ?g = "\<lambda>n :: sLogFileEntry HiPtr. if lf_fullName (hi_data n) = lf_fullName e then n\<lparr> hi_data := e \<rparr> else n"
  have g: "lf_fullName (hi_data (?g n)) = lf_fullName (hi_data n)" for n by simp
  then have "logFileHashTable_hash (hi_data (?g n)) = logFileHashTable_hash (hi_data n)"
      "logFileHashTable_comp (hi_data (?g n)) (hi_data (?g m)) = logFileHashTable_comp (hi_data n) (hi_data m)" for n m
    unfolding logFileHashTable_hash_def logFileHashTable_comp_def by metis+
  note g2 = this
  have f: "ht_wf t" "ht_calcIndx t = logFileHashTable_hash" "ht_compData t = logFileHashTable_comp" using assms by (simp_all add: ht_for_def)
  define h where "h = ?g"
  have array: "ht_infoArray (set_entry e t) = map (map h) (ht_infoArray t)" by (simp add: set_entry_def h_def)
  have "length (concat (map (map h) xss)) = length (concat xss)" for xss by (induction xss) simp_all
  moreover have "list_all (\<lambda>n. unat (logFileHashTable_hash (hi_data n)) mod ht_size t = i) (map h chain)
      = list_all (\<lambda>n. unat (logFileHashTable_hash (hi_data n)) mod ht_size t = i) chain"
      "keys_differ logFileHashTable_comp (map h chain) = keys_differ logFileHashTable_comp chain" for i chain
    unfolding keys_differ_def sorted_wrt_map list.pred_map comp_def h_def g2 by (rule refl)+
  ultimately show ?thesis using f unfolding ht_for_def ht_wf_def array by (simp add: set_entry_def)
qed

lemma log_table_set:
  assumes "log_table t fs" and "e \<in> set (ht_elems t)" and "lf_fullName e1 = lf_fullName e" and "entry_named e1"
    and "distinct (entry_handles e1)" and "set (entry_handles e1) \<subseteq> dom (fs_open fs1)"
    and "set (entry_handles e1) \<inter> (dom (fs_open fs) - set (entry_handles e)) = {}"
    and "dom (fs_open fs) - set (entry_handles e) \<subseteq> dom (fs_open fs1)"
  shows "log_table (set_entry e1 t) fs1 \<and> e1 \<in> set (ht_elems (set_entry e1 t))"
proof -
  have d: "distinct (map lf_fullName (ht_elems t))" using names_distinct[OF log_table_nodes(1)[OF assms(1)]] .
  note m = mset_replace[OF d assms(2,3)]
  define rest where "rest = mset (ht_elems t) - {#e#}"
  have r: "mset (ht_elems t) = add_mset e rest" using assms(2) by (simp add: rest_def)
  then have r1: "mset (ht_elems (set_entry e1 t)) = add_mset e1 rest" using m by (simp add: set_entry_elems)
  obtain xs where xs: "mset xs = rest" using ex_mset by blast
  let ?hs = "concat (map entry_handles xs)"
  have hs: "mset ?hs = sum_mset (image_mset (\<lambda>e. mset (entry_handles e)) rest)" unfolding xs[symmetric] by (induction xs) auto
  have m0: "mset (table_handles t) = mset (entry_handles e @ ?hs)" unfolding table_handles_mset r by (simp add: hs)
  have m1: "mset (table_handles (set_entry e1 t)) = mset (entry_handles e1 @ ?hs)" unfolding table_handles_mset r1 by (simp add: hs)
  have t: "distinct (entry_handles e @ ?hs)" "set (entry_handles e @ ?hs) \<subseteq> dom (fs_open fs)"
    using assms(1) mset_eq_imp_distinct_iff[OF m0] mset_eq_setD[OF m0] by (simp_all add: log_table_def)
  then have "distinct (entry_handles e1 @ ?hs)" using assms(5,7) unfolding distinct_append set_append by blast
  then have "distinct (table_handles (set_entry e1 t))" using mset_eq_imp_distinct_iff[OF m1] by simp
  moreover have "set (table_handles (set_entry e1 t)) \<subseteq> dom (fs_open fs1)"
    using t assms(6,8) unfolding mset_eq_setD[OF m1] distinct_append set_append by blast
  moreover have "set (ht_elems (set_entry e1 t)) = insert e1 (set_mset rest)" "set (ht_elems t) = insert e (set_mset rest)"
    using arg_cong[where f = set_mset, OF r1] arg_cong[where f = set_mset, OF r] by simp_all
  moreover have "\<forall>n \<in> set (concat (ht_infoArray (set_entry e1 t))). hi_firstCursor n = None"
    using assms(1) by (auto simp: log_table_def set_entry_def)
  moreover have "ht_destrData (set_entry e1 t) = ht_destrData t" by (simp add: set_entry_def)
  ultimately show ?thesis using assms(1,4) set_entry_for by (simp add: log_table_def)
qed

subsubsection \<open>Rotation\<close>

lemma fileLogRotate_ok:
  assumes "fs_ok fs" and "h \<in> dom (fs_open fs)"
  shows "\<exists>s fs1. fileLogRotate env (Stream h) n sp x date fs = Inr (s, fs1) \<and> fs_ok fs1
    \<and> (s = Stderr \<and> fs_open fs1 = (fs_open fs)(h := None)
       \<or> s = Stream (fs_streams fs) \<and> (\<exists>i. fs_open fs1 = (fs_open fs)(h := None, fs_streams fs \<mapsto> i)))"
proof -
  let ?cur = "stream_name n sp x" and ?new = "stream_name n (sp @ ''_'' @ date) x" and ?old = "stream_name n (sp @ ''_'' @ le_weekAgo env) x"
  obtain b1 fs1 where 1: "rename_file env ?cur ?new (close_stream (Stream h) fs) = (b1, fs1)"
    by (cases "rename_file env ?cur ?new (close_stream (Stream h) fs)")
  have o1: "fs_ok fs1" "fs_open fs1 = (fs_open fs)(h := None)" "fs_streams fs1 = fs_streams fs"
    using rename_file_ok[of "close_stream (Stream h) fs" env ?cur ?new] close_stream_ok[OF assms(1), of "Stream h"] 1 by simp_all
  define fs1' where "fs1' = report_unless b1 (log_error (le_errno env) (''Failed to rename logging file '' @ quote_name ?cur @ '' to '' @ quote_name ?new)) fs1"
  have o1': "fs_ok fs1'" "fs_open fs1' = (fs_open fs)(h := None)" "fs_streams fs1' = fs_streams fs" using o1 by (simp_all add: fs1'_def)
  obtain s2 fs2 where 2: "fopen_append env ?cur fs1' = (s2, fs2)" by (cases "fopen_append env ?cur fs1'")
  have o2: "fs_ok fs2 \<and> (s2 = None \<and> fs_open fs2 = (fs_open fs)(h := None)
      \<or> s2 = Some (Stream (fs_streams fs)) \<and> (\<exists>i. fs_open fs2 = (fs_open fs)(h := None, fs_streams fs \<mapsto> i)))"
  proof (cases "le_allows env ?cur")
    case True
    obtain fs3 i where "fopen_append env ?cur fs1' = (Some (Stream (fs_streams fs1')), fs3)" "fs_ok fs3"
        "fs_open fs3 = (fs_open fs1')(fs_streams fs1' \<mapsto> i)" using fopen_append_ok[OF o1'(1) True] by blast
    then show ?thesis using 2 o1'(2,3) by simp (rule exI, rule refl)
  next
    case False
    then show ?thesis using 2 o1' by (simp add: fopen_refused)
  qed
  define fs2' where "fs2' = report_unless (s2 \<noteq> None) (log_error (le_errno env) (''Failed to open logging file '' @ quote_name ?cur)) fs2"
  obtain b3 fs3 where 3: "remove_file env ?old fs2' = (b3, fs3)" by (cases "remove_file env ?old fs2'")
  have o3: "fs_ok fs3" "fs_open fs3 = fs_open fs2" using remove_file_ok[of fs2' env ?old] o2 3 by (simp_all add: fs2'_def)
  have "fileLogRotate env (Stream h) n sp x date fs = Inr (case s2 of Some s \<Rightarrow> s | None \<Rightarrow> Stderr,
      report_unless b3 (log_error (le_errno env) (''Failed to remove logging file '' @ quote_name ?old)) fs3)"
  proof -
    have "rguard DanglingPtr (fs_open fs h \<noteq> None) = Inr ()" using assms(2) by auto
    then show ?thesis unfolding fileLogRotate_def Let_def stream.case
      by (simp only: rbind_simps 1 prod.case fs1'_def[symmetric] 2 fs2'_def[symmetric] 3)
  qed
  then show ?thesis using o2 o3 by (auto split: option.split)
qed

definition moved :: "nat list \<Rightarrow> files \<Rightarrow> nat list \<Rightarrow> files \<Rightarrow> bool" where
  "moved hs fs hs1 fs1 \<longleftrightarrow> distinct hs1 \<and> set hs1 \<subseteq> dom (fs_open fs1) \<and> set hs1 \<inter> (dom (fs_open fs) - set hs) = {}
     \<and> dom (fs_open fs) - set hs \<subseteq> dom (fs_open fs1)"

lemma moved_refl: "distinct hs \<Longrightarrow> set hs \<subseteq> dom (fs_open fs) \<Longrightarrow> moved hs fs hs fs"
  by (auto simp: moved_def)

lemma moved_append:
  assumes "moved hs fs hs1 fs1" and "moved ks fs1 ks1 fs2" and "set ks \<subseteq> dom (fs_open fs)" and "set hs \<inter> set ks = {}"
  shows "moved (hs @ ks) fs (hs1 @ ks1) fs2"
proof -
  have h: "distinct hs1" "set hs1 \<subseteq> dom (fs_open fs1)" "set hs1 \<inter> (dom (fs_open fs) - set hs) = {}"
      "dom (fs_open fs) - set hs \<subseteq> dom (fs_open fs1)" using assms(1) by (simp_all add: moved_def)
  have k: "distinct ks1" "set ks1 \<subseteq> dom (fs_open fs2)" "set ks1 \<inter> (dom (fs_open fs1) - set ks) = {}"
      "dom (fs_open fs1) - set ks \<subseteq> dom (fs_open fs2)" using assms(2) by (simp_all add: moved_def)
  have s: "set hs1 \<subseteq> dom (fs_open fs1) - set ks" using h assms(3,4) by blast
  then have "distinct (hs1 @ ks1)" using h(1) k(1,3) unfolding distinct_append by blast
  moreover have "set (hs1 @ ks1) \<subseteq> dom (fs_open fs2)" unfolding set_append using s k(2,4) by blast
  moreover have r: "dom (fs_open fs) - set (hs @ ks) \<subseteq> dom (fs_open fs1) - set ks" unfolding set_append using h(4) by blast
  then have "set (hs1 @ ks1) \<inter> (dom (fs_open fs) - set (hs @ ks)) = {}" unfolding set_append using h(3) k(3) by blast
  ultimately show ?thesis using k(4) subset_trans[OF r] unfolding moved_def by blast
qed

lemma rotate_stream_ok:
  assumes "fs_ok fs" and "set (handles f) \<subseteq> dom (fs_open fs)" and "handles f \<noteq> [] \<longrightarrow> lf_fileName e \<noteq> None \<and> lf_fileExtension e \<noteq> None"
  shows "\<exists>f1 fs1. rotate_stream env f sp e fs = Inr (f1, fs1) \<and> fs_ok fs1 \<and> moved (handles f) fs (handles f1) fs1"
proof (cases "\<exists>h. f = Some (Stream h)")
  case True
  then obtain h where h: "f = Some (Stream h)" by blast
  then have hd: "h \<in> dom (fs_open fs)" using assms(2) by (simp add: handles_def)
  obtain n x where n: "lf_fileName e = Some n" "lf_fileExtension e = Some x" using assms(3) h by (auto simp: handles_def)
  obtain s fs1 where r: "fileLogRotate env (Stream h) n sp x (le_date env) fs = Inr (s, fs1)" "fs_ok fs1"
      "s = Stderr \<and> fs_open fs1 = (fs_open fs)(h := None)
       \<or> s = Stream (fs_streams fs) \<and> (\<exists>i. fs_open fs1 = (fs_open fs)(h := None, fs_streams fs \<mapsto> i))"
    using fileLogRotate_ok[OF assms(1) hd, of env n sp x "le_date env"] by blast
  have "moved (handles f) fs (handles (Some s)) fs1"
    using r(3) fresh_handle[OF assms(1)] by (auto simp: moved_def handles_def h split: if_splits)
  then show ?thesis using h n r(1,2) by (simp add: rotate_stream_def)
next
  case False
  then have "rotate_stream env f sp e fs = Inr (f, fs)" "handles f = []"
    by (auto simp: rotate_stream_def handles_def split: option.split stream.split)
  then show ?thesis using assms(1) by (simp add: moved_def)
qed

lemma rotate_entry_ok:
  assumes "fs_ok fs" and "distinct (entry_handles e)" and "set (entry_handles e) \<subseteq> dom (fs_open fs)" and "entry_named e"
  shows "\<exists>e1 fs1. rotate_entry dual env e fs = Inr (e1, fs1) \<and> fs_ok fs1 \<and> lf_fullName e1 = lf_fullName e \<and> entry_named e1
    \<and> moved (entry_handles e) fs (entry_handles e1) fs1"
proof -
  have n: "handles (lf_commonFd e) \<noteq> [] \<longrightarrow> lf_fileName e \<noteq> None \<and> lf_fileExtension e \<noteq> None"
      "handles (lf_errorFd e) \<noteq> [] \<longrightarrow> lf_fileName e \<noteq> None \<and> lf_fileExtension e \<noteq> None"
    using assms(4) by (auto simp: entry_named_def entry_handles_def)
  have d: "set (handles (lf_commonFd e)) \<subseteq> dom (fs_open fs)" "set (handles (lf_errorFd e)) \<subseteq> dom (fs_open fs)"
      "set (handles (lf_commonFd e)) \<inter> set (handles (lf_errorFd e)) = {}" "distinct (handles (lf_errorFd e))"
    using assms(2,3) by (auto simp: entry_handles_def)
  obtain f1 fs1 where 1: "rotate_stream env (lf_commonFd e) (if dual then ''_Common'' else []) e fs = Inr (f1, fs1)" "fs_ok fs1"
      "moved (handles (lf_commonFd e)) fs (handles f1) fs1"
    using rotate_stream_ok[OF assms(1) d(1) n(1)] by blast
  have e1: "set (handles (lf_errorFd e)) \<subseteq> dom (fs_open fs1)" using 1(3) d unfolding moved_def by blast
  show ?thesis
  proof (cases dual)
    case False
    have "moved (entry_handles e) fs (entry_handles (e\<lparr> lf_commonFd := f1 \<rparr>)) fs1"
      using moved_append[OF 1(3) moved_refl[OF d(4) e1] d(2,3)] by (simp add: entry_handles_def)
    moreover have "entry_named (e\<lparr> lf_commonFd := f1 \<rparr>)"
      using n 1 False by (auto simp: entry_named_def entry_handles_def rotate_stream_def handles_def res_iff split: option.splits stream.splits)
    ultimately show ?thesis using False 1 by (simp add: rotate_entry_def)
  next
    case True
    obtain g1 fs2 where 2: "rotate_stream env (lf_errorFd e) ''_Error'' e fs1 = Inr (g1, fs2)" "fs_ok fs2"
        "moved (handles (lf_errorFd e)) fs1 (handles g1) fs2"
      using rotate_stream_ok[OF 1(2) e1 n(2)] by blast
    have "moved (entry_handles e) fs (entry_handles (e\<lparr> lf_commonFd := f1, lf_errorFd := g1 \<rparr>)) fs2"
      using moved_append[OF 1(3) 2(3) d(2,3)] by (simp add: entry_handles_def)
    moreover have "entry_named (e\<lparr> lf_commonFd := f1, lf_errorFd := g1 \<rparr>)"
      using n 1 2 by (auto simp: entry_named_def entry_handles_def rotate_stream_def handles_def res_iff split: option.splits stream.splits)
    ultimately show ?thesis using True 1 2 by (simp add: rotate_entry_def)
  qed
qed

lemma day_change_ok:
  assumes "logger_ok lg fs" and "e \<in> set (ht_elems (table_of lg))"
  shows "\<exists>e1 lg1 fs1. day_change dual env e lg fs = Inr (e1, lg1, fs1) \<and> logger_ok lg1 fs1 \<and> one_more lg lg1
    \<and> e1 \<in> set (ht_elems (table_of lg1)) \<and> length (ht_elems (table_of lg1)) = length (ht_elems (table_of lg)) \<and> lg_date lg1 = le_date env"
proof (cases "le_date env = lg_date lg")
  case True
  then show ?thesis using assms by (simp add: day_change_def one_more_def)
next
  case False
  define t where "t = table_of lg"
  have t: "lg_logFiles lg = Some t" "log_table t fs" "fs_ok fs" using logger_okD[OF assms(1)] by (simp_all add: t_def)
  have e: "distinct (entry_handles e)" "set (entry_handles e) \<subseteq> dom (fs_open fs)" "entry_named e"
  proof -
    obtain us vs where us: "ht_elems t = us @ e # vs" using assms(2) t_def by (auto dest: split_list)
    show "distinct (entry_handles e)" "set (entry_handles e) \<subseteq> dom (fs_open fs)" "entry_named e"
      using t(2) us by (auto simp: log_table_def table_handles_def)
  qed
  obtain e1 fs1 where r: "rotate_entry dual env e fs = Inr (e1, fs1)" "fs_ok fs1" "lf_fullName e1 = lf_fullName e" "entry_named e1"
      "moved (entry_handles e) fs (entry_handles e1) fs1"
    using rotate_entry_ok[OF t(3) e] by blast
  have s: "log_table (set_entry e1 t) fs1" "e1 \<in> set (ht_elems (set_entry e1 t))"
    using log_table_set[OF t(2) _ r(3,4), of fs1] assms(2) r(5) by (simp_all add: t_def moved_def)
  have "logger_ok (lg\<lparr> lg_date := le_date env, lg_logFiles := Some (set_entry e1 t) \<rparr>) fs1"
    using assms(1) r(2) s(1) by (auto simp: logger_ok_def)
  then show ?thesis using False r(1) s(2) t(1) by (simp add: day_change_def one_more_def table_of_def set_entry_elems)
qed

subsubsection \<open>Messages\<close>

text \<open>The head of the line of a message fits the buffer.\<close>

definition head_of :: "log_env \<Rightarrow> sLogger \<Rightarrow> string \<Rightarrow> LogLevel \<Rightarrow> string \<Rightarrow> int \<Rightarrow> string" where
  "head_of env lg moduleName logLevel sourceFile sourceLine =
     le_time env @ line_head env (lg_logFormat lg) (case lg_applicationName lg of Block n \<Rightarrow> n | _ \<Rightarrow> []) moduleName logLevel sourceFile sourceLine"

definition head_fits :: "log_env \<Rightarrow> sLogger \<Rightarrow> string \<Rightarrow> LogLevel \<Rightarrow> string \<Rightarrow> int \<Rightarrow> bool" where
  "head_fits env lg moduleName logLevel sourceFile sourceLine \<longleftrightarrow> le_time env \<noteq> [] \<and> length (le_time env) < BUFFER_LENGTH
     \<and> length (head_of env lg moduleName logLevel sourceFile sourceLine) \<le> BUFFER_LENGTH"

lemma BuildLine_ok:
  assumes "logger_ok lg fs" and "head_fits env lg m l src line"
  shows "fileLogBuildLine env BUFFER_LENGTH (lg_logFormat lg) (lg_applicationName lg) m l src line message
    = Inr (None, fit BUFFER_LENGTH (head_of env lg m l src line @ message))"
  using assms by (auto simp: fileLogBuildLine_def head_fits_def head_of_def logger_ok_def)

text \<open>Whatever the clock says: a line, an error without one, or a head that is longer than the buffer.\<close>

lemma BuildLine_cases:
  assumes "logger_ok lg fs"
  obtains error buffer where "fileLogBuildLine env BUFFER_LENGTH (lg_logFormat lg) (lg_applicationName lg) m l src line message = Inr (error, buffer)"
  | "fileLogBuildLine env BUFFER_LENGTH (lg_logFormat lg) (lg_applicationName lg) m l src line message = Inl OutOfBounds"
    "BUFFER_LENGTH < length (head_of env lg m l src line)"
proof (cases "le_time env = [] \<or> length (le_time env) \<ge> BUFFER_LENGTH")
  case True
  then show thesis by (intro that(1)) (auto simp: fileLogBuildLine_def)
next
  case False
  show thesis
  proof (cases "head_fits env lg m l src line")
    case True
    then show thesis by (intro that(1)[OF BuildLine_ok[OF assms]])
  next
    case long: False
    then have "BUFFER_LENGTH < length (head_of env lg m l src line)" using False by (auto simp: head_fits_def)
    moreover from this have "fileLogBuildLine env BUFFER_LENGTH (lg_logFormat lg) (lg_applicationName lg) m l src line message = Inl OutOfBounds"
      using False assms by (auto simp: fileLogBuildLine_def head_of_def logger_ok_def)
    ultimately show thesis by (intro that(2))
  qed
qed

lemma Write_ok:
  assumes "logger_ok lg fs" and "e \<in> set (ht_elems (table_of lg))" and "lf_commonFd e = Some f \<or> lf_errorFd e = Some f"
  shows "\<exists>error fs1. fileLogWrite env f s fs = Inr (error, fs1) \<and> logger_ok lg fs1 \<and> (le_takes env f \<longrightarrow> error = None)"
proof (cases "le_takes env f")
  case True
  have t: "lg_logFiles lg = Some (table_of lg)" "log_table (table_of lg) fs" "fs_ok fs" using logger_okD[OF assms(1)] by blast+
  have "set (handles (Some f)) \<subseteq> set (entry_handles e)" using assms(3) by (auto simp: entry_handles_def)
  also have "\<dots> \<subseteq> dom (fs_open fs)" using t(2) assms(2) by (auto simp: log_table_def table_handles_def)
  finally obtain fs1 where a: "append_stream f (s @ [LINE_END]) fs = Inr fs1" "fs_ok fs1" "fs_open fs1 = fs_open fs"
    using append_stream_ok[OF t(3)] by blast
  have "log_table (table_of lg) fs1" using t(2) a(3) by (simp add: log_table_def)
  then have "logger_ok lg fs1" using assms(1) a(2) t(1) by (auto simp: logger_ok_def)
  then show ?thesis using True a(1) by (simp add: fileLogWrite_def)
next
  case False
  then show ?thesis using assms(1) by (simp add: fileLogWrite_def)
qed

lemma head_fits_cong: "one_more lg lg1 \<Longrightarrow> head_fits env lg1 m l src line = head_fits env lg m l src line"
  by (simp add: one_more_def head_fits_def head_of_def)

text \<open>Finding the entry and changing the day, for either driver.\<close>

lemma prepare_ok:
  assumes "logger_ok lg fs" and "strdup_ok env" and "int (length (ht_elems (table_of lg))) < INT_MAX"
  obtains error e lg1 fs1 where "find_entry dual env lg (Some d) fs = Inr (error, e, lg1, fs1)" "error \<noteq> None" "logger_ok lg1 fs1" "one_more lg lg1"
  | e lg1 fs1 e1 lg2 fs2 where "find_entry dual env lg (Some d) fs = Inr (None, Some e, lg1, fs1)"
      "day_change dual env e lg1 fs1 = Inr (e1, lg2, fs2)" "logger_ok lg2 fs2" "one_more lg lg2" "e1 \<in> set (ht_elems (table_of lg2))"
      "head_of env lg2 = head_of env lg"
proof -
  obtain error e lg1 fs1 where f: "find_entry dual env lg (Some d) fs = Inr (error, e, lg1, fs1)" "logger_ok lg1 fs1" "one_more lg lg1"
      "error = None \<longrightarrow> (\<exists>y. e = Some y \<and> y \<in> set (ht_elems (table_of lg1)))"
    using find_entry_ok[OF assms, of dual d] by blast
  show thesis
  proof (cases "error = None")
    case False
    then show thesis using that(1) f by blast
  next
    case True
    then obtain y where y: "e = Some y" "y \<in> set (ht_elems (table_of lg1))" using f(4) by blast
    obtain e1 lg2 fs2 where d: "day_change dual env y lg1 fs1 = Inr (e1, lg2, fs2)" "logger_ok lg2 fs2" "one_more lg1 lg2"
        "e1 \<in> set (ht_elems (table_of lg2))" "length (ht_elems (table_of lg2)) = length (ht_elems (table_of lg1))"
      using day_change_ok[OF f(2) y(2), of dual env] by blast
    have o: "one_more lg lg2" using f(3) d(3,5) by (simp add: one_more_def)
    then have "head_of env lg2 = head_of env lg" by (simp add: one_more_def head_of_def fun_eq_iff)
    then show thesis using that(2) f(1) True y(1) d o by blast
  qed
qed

text \<open>What a call of either driver comes to; the second outcome is the head longer than the buffer.\<close>

definition log_ends :: "log_env \<Rightarrow> sLogger \<Rightarrow> string \<Rightarrow> LogLevel \<Rightarrow> string \<Rightarrow> int \<Rightarrow> (Error \<times> sLogger \<times> files) res \<Rightarrow> bool" where
  "log_ends env lg m l src line r \<longleftrightarrow>
     (\<exists>error lg1 fs1. r = Inr (error, lg1, fs1) \<and> logger_ok lg1 fs1 \<and> one_more lg lg1)
     \<or> r = Inl OutOfBounds \<and> BUFFER_LENGTH < length (head_of env lg m l src line)"

lemma logText_ok:
  assumes "logger_ok lg fs" and "strdup_ok env" and "int (length (ht_elems (table_of lg))) < INT_MAX"
    and "log_destination lg dest = Some d"
  shows "log_ends env lg m l src line (fileLogText env lg dest m l src line message fs)"
    "log_ends env lg m l src line (dualFileLogText env lg dest m l src line message fs)"
proof -
  show "log_ends env lg m l src line (fileLogText env lg dest m l src line message fs)"
  proof (rule prepare_ok[OF assms(1-3), where dual = False and d = d])
    fix e lg1 fs1 e1 lg2 fs2
    assume f: "find_entry False env lg (Some d) fs = Inr (None, Some e, lg1, fs1)" "day_change False env e lg1 fs1 = Inr (e1, lg2, fs2)"
      and ok: "logger_ok lg2 fs2" "one_more lg lg2" "e1 \<in> set (ht_elems (table_of lg2))" "head_of env lg2 = head_of env lg"
    show ?thesis
    proof (rule BuildLine_cases[OF ok(1), of env m l src line message])
      fix error buffer
      assume b: "fileLogBuildLine env BUFFER_LENGTH (lg_logFormat lg2) (lg_applicationName lg2) m l src line message = Inr (error, buffer)"
      show ?thesis
      proof (cases "error = None \<and> lf_commonFd e1 \<noteq> None")
        case True
        then obtain fd where fd: "lf_commonFd e1 = Some fd" by blast
        obtain error2 fs3 where "fileLogWrite env fd buffer fs2 = Inr (error2, fs3)" "logger_ok lg2 fs3"
          using Write_ok[OF ok(1,3), of fd env buffer] fd by blast
        then show ?thesis using f ok b True fd by (simp add: fileLogText_def assms(4) log_ends_def)
      next
        case False
        then show ?thesis using f ok b by (auto simp: fileLogText_def assms(4) log_ends_def)
      qed
    qed (use f ok in \<open>simp add: fileLogText_def assms(4) log_ends_def\<close>)
  qed (auto simp: fileLogText_def assms(4) log_ends_def)
  show "log_ends env lg m l src line (dualFileLogText env lg dest m l src line message fs)"
  proof (rule prepare_ok[OF assms(1-3), where dual = True and d = d])
    fix e lg1 fs1 e1 lg2 fs2
    assume f: "find_entry True env lg (Some d) fs = Inr (None, Some e, lg1, fs1)" "day_change True env e lg1 fs1 = Inr (e1, lg2, fs2)"
      and ok: "logger_ok lg2 fs2" "one_more lg lg2" "e1 \<in> set (ht_elems (table_of lg2))" "head_of env lg2 = head_of env lg"
    show ?thesis
    proof (rule BuildLine_cases[OF ok(1), of env m l src line message])
      fix error0 buffer
      assume b: "fileLogBuildLine env BUFFER_LENGTH (lg_logFormat lg2) (lg_applicationName lg2) m l src line message = Inr (error0, buffer)"
      obtain error fs3 where w: "(case lf_errorFd e1 of Some fd \<Rightarrow> if is_error_level l then fileLogWrite env fd buffer fs2 else Inr (None, fs2)
          | None \<Rightarrow> Inr (None, fs2)) = Inr (error, fs3)" "logger_ok lg2 fs3"
      proof (cases "lf_errorFd e1")
        case None
        then show thesis using that[of None fs2] ok(1) by simp
      next
        case (Some fd)
        then show thesis using that Write_ok[OF ok(1,3), of fd env buffer] ok(1) by (cases "is_error_level l") auto
      qed
      show ?thesis
      proof (cases "error0 = None \<and> error = None \<and> lf_commonFd e1 \<noteq> None")
        case True
        then obtain fd where fd: "lf_commonFd e1 = Some fd" by blast
        obtain error1 fs4 where "fileLogWrite env fd buffer fs3 = Inr (error1, fs4)" "logger_ok lg2 fs4"
          using Write_ok[OF w(2) ok(3), of fd env buffer] fd by blast
        then show ?thesis using f ok b w True fd by (simp add: dualFileLogText_def assms(4) log_ends_def)
      next
        case False
        then show ?thesis using f ok b w by (auto simp: dualFileLogText_def assms(4) log_ends_def)
      qed
    qed (use f ok in \<open>simp add: dualFileLogText_def assms(4) log_ends_def\<close>)
  qed (auto simp: dualFileLogText_def assms(4) log_ends_def)
qed

subsubsection \<open>Without memory for the names\<close>

text \<open>\<open>strdup\<close> is only called when an entry is made, and a refusal is followed by a use of its result: apart from that, a call
  does what it would do if \<open>strdup\<close> were never refused.\<close>

abbreviation all_strdup :: "log_env \<Rightarrow> log_env" where
  "all_strdup env \<equiv> env\<lparr> le_strdup := (\<lambda>_. True) \<rparr>"

lemma all_strdup_files [simp]:
  "fopen_append (all_strdup env) = fopen_append env" "rename_file (all_strdup env) = rename_file env"
  "remove_file (all_strdup env) = remove_file env"
  by (simp_all add: fun_eq_iff fopen_append_def rename_file_def remove_file_def)

lemma all_strdup_lines [simp]:
  "fileLogWrite (all_strdup env) = fileLogWrite env" "fileLogBuildLine (all_strdup env) = fileLogBuildLine env"
  "head_of (all_strdup env) = head_of env" "strdup_ok (all_strdup env)"
  by (simp_all add: fun_eq_iff fileLogWrite_def fileLogBuildLine_def line_head_def head_of_def strdup_ok_def Let_def)

lemma all_strdup_rotate [simp]: "fileLogRotate (all_strdup env) = fileLogRotate env"
  by (simp add: fun_eq_iff fileLogRotate_def)

lemma all_strdup_stream [simp]: "rotate_stream (all_strdup env) = rotate_stream env"
  by (simp add: fun_eq_iff rotate_stream_def split: option.split stream.split)

lemma all_strdup_day [simp]: "day_change dual (all_strdup env) = day_change dual env"
  by (simp add: fun_eq_iff day_change_def rotate_entry_def)

lemma all_strdup_open [simp]: "open_entry (all_strdup env) n x fs = open_entry env n x fs"
proof -
  obtain a fs1 where 1: "fopen_append env (stream_name n ''_Common'' x) fs = (a, fs1)" by fastforce
  obtain b fs2 where 2: "fopen_append env (stream_name n ''_Error'' x) fs1 = (b, fs2)" by fastforce
  show ?thesis by (cases a; cases b) (simp_all add: open_entry_def 1 2)
qed

lemma all_strdup_create:
  "logFileEntryCreate (all_strdup env) name dual fs = logFileEntryCreate env name dual fs
   \<or> logFileEntryCreate env name dual fs = Inl NullDeref \<and> \<not> strdup_ok env"
proof -
  let ?name = "case name of None \<Rightarrow> LOG_DESTINATION_CONSOLE | Some n \<Rightarrow> n"
  obtain n x where s: "split_name ?name = (n, x)" by (cases "split_name ?name")
  have m: "emalloc b True True = Inr (if b then None else Some (mkErr ERR_MEMORY MEMERR_OUT None ''Out of memory when allocating''), if b then Some () else None)" for b
    by (simp add: emalloc_def ErrNew_def)
  show ?thesis
    by (cases "le_strdup env LOG_DESTINATION_CONSOLE"; cases "le_strdup env ?name"; cases "le_strdup env x")
      (auto simp: logFileEntryCreate_def Let_def m s strdup_ok_def)
qed

lemma all_strdup_find:
  "find_entry dual (all_strdup env) lg d fs = find_entry dual env lg d fs
   \<or> find_entry dual env lg d fs = Inl NullDeref \<and> \<not> strdup_ok env"
proof (cases "logFileEntryCreate (all_strdup env) d dual fs = logFileEntryCreate env d dual fs")
  case True
  then show ?thesis by (simp add: find_entry_def cong: option.case_cong if_cong)
next
  case False
  then have c: "logFileEntryCreate env d dual fs = Inl NullDeref" "\<not> strdup_ok env" using all_strdup_create by blast+
  show ?thesis
  proof (cases "lg_logFiles lg")
    case (Some t)
    then show ?thesis using c by (cases "logFileHashTable_find t d") (auto simp: find_entry_def)
  qed (simp add: find_entry_def)
qed

lemma all_strdup_logText:
  "fileLogText (all_strdup env) lg dest m l src line message fs = fileLogText env lg dest m l src line message fs
   \<or> fileLogText env lg dest m l src line message fs = Inl NullDeref \<and> \<not> strdup_ok env"
  "dualFileLogText (all_strdup env) lg dest m l src line message fs = dualFileLogText env lg dest m l src line message fs
   \<or> dualFileLogText env lg dest m l src line message fs = Inl NullDeref \<and> \<not> strdup_ok env"
  subgoal using all_strdup_find[of False env lg "log_destination lg dest" fs]
    by (elim disjE) (simp_all add: fileLogText_def cong: option.case_cong if_cong)
  subgoal using all_strdup_find[of True env lg "log_destination lg dest" fs]
    by (elim disjE) (simp_all add: dualFileLogText_def cong: option.case_cong if_cong)
  done

text \<open>C28: A message to a well-formed logger of either driver, whatever the operating system refuses and also
  when the day has changed, leaves the logger well formed: every stream of its entries is open and belongs to one entry. The
  destination is named, or else the logger has a file of its own, so that there is a name to look up. Two
  calls do not return, and they are the only ones: a \<open>strdup\<close> was refused while an entry was made, and its NULL is used;
  or the head of the line is longer than the buffer of 64 KB and what follows is written behind it.\<close>

theorem logging_keeps_streams_open:
  assumes "logger_ok lg fs" and "int (length (ht_elems (table_of lg))) < INT_MAX" and "log_destination lg dest = Some d"
    and "lp_loggers prog addr = Some lg" and "lp_files prog = fs"
  shows "(\<exists>error prog1 lg1. log_logText env (Some addr) dest m l src line message prog = Inr (error, prog1)
      \<and> lp_loggers prog1 = (lp_loggers prog)(addr \<mapsto> lg1) \<and> logger_ok lg1 (lp_files prog1))
    \<or> log_logText env (Some addr) dest m l src line message prog = Inl NullDeref \<and> (\<exists>s. \<not> le_strdup env s)
    \<or> log_logText env (Some addr) dest m l src line message prog = Inl OutOfBounds
        \<and> BUFFER_LENGTH < length (head_of env lg m l (base_name src) line)"
proof (cases "lg_driver lg")
  case LoggingDriverFile
  then show ?thesis
    using logText_ok(1)[OF assms(1) _ assms(2,3), of "all_strdup env" m l "base_name src" line message]
      all_strdup_logText(1)[of env lg dest m l "base_name src" line message fs] assms(4,5)
    by (auto simp: log_logText_def log_ends_def strdup_ok_def)
next
  case LoggingDriverDualFile
  then show ?thesis
    using logText_ok(2)[OF assms(1) _ assms(2,3), of "all_strdup env" m l "base_name src" line message]
      all_strdup_logText(2)[of env lg dest m l "base_name src" line message fs] assms(4,5)
    by (auto simp: log_logText_def log_ends_def strdup_ok_def)
qed

subsection \<open>What the files hold\<close>

text \<open>
  Each file entry of the dual driver is linked to its two files: its streams write to the inodes
  its names stand for. The environment refuses nothing.
\<close>

definition linked :: "sLogFileEntry \<Rightarrow> files \<Rightarrow> bool" where
  "linked e fs \<longleftrightarrow> (\<exists>n x h k i j. split_name (lf_fullName e) = (n, x) \<and> lf_fileName e = Some n \<and> lf_fileExtension e = Some x
     \<and> lf_commonFd e = Some (Stream h) \<and> fs_open fs h = Some i \<and> fs_names fs (stream_name n ''_Common'' x) = Some i
     \<and> lf_errorFd e = Some (Stream k) \<and> fs_open fs k = Some j \<and> fs_names fs (stream_name n ''_Error'' x) = Some j)"

definition dual_ok :: "(nat \<rightharpoonup> nat) \<Rightarrow> sLogger \<Rightarrow> files \<Rightarrow> bool" where
  "dual_ok B lg fs \<longleftrightarrow> logger_ok lg fs \<and> (\<forall>e \<in> set (ht_elems (table_of lg)). lf_fullName e = LOG_DESTINATION_CONSOLE \<or> linked e fs)
     \<and> fs_open fs |` (- set (table_handles (table_of lg))) = B"

definition fair :: "log_env \<Rightarrow> bool" where
  "fair env \<longleftrightarrow> (\<forall>n. le_allows env n) \<and> (\<forall>f. le_takes env f) \<and> strdup_ok env \<and> le_entry env \<and> le_fullName env
     \<and> le_node env \<noteq> None \<and> le_sem env"

text \<open>A destination that is a file of a reasonable length, its full name, and its two files.\<close>

definition file_dest :: "string \<Rightarrow> bool" where
  "file_dest d \<longleftrightarrow> d \<noteq> [] \<and> \<not> same_nocase d LOG_DESTINATION_CONSOLE \<and> length d + 40 < MAX_FILENAME_LENGTH"

definition full_dest :: "string \<Rightarrow> string" where
  "full_dest d = (if strrchr d (CHR ''.'') = None then d @ ''.log'' else d)"

definition common_file :: "string \<Rightarrow> string" where
  "common_file d = (case split_name (full_dest d) of (n, x) \<Rightarrow> n @ ''_Common.'' @ x)"

definition error_file :: "string \<Rightarrow> string" where
  "error_file d = (case split_name (full_dest d) of (n, x) \<Rightarrow> n @ ''_Error.'' @ x)"

lemma strrchr_split: "strrchr s c = Some i \<Longrightarrow> s = take i s @ c # drop (Suc i) s"
  by (induction s arbitrary: i) (auto split: option.splits if_splits)

lemma strrchr_None: "strrchr s c = None \<longleftrightarrow> c \<notin> set s"
  by (induction s) (auto split: option.splits)

lemma full_dest_dot: "CHR ''.'' \<in> set (full_dest d)"
  using strrchr_None[of d "CHR ''.''"] by (auto simp: full_dest_def)

lemma full_dest_split: "split_name (full_dest d) = (n, x) \<Longrightarrow> full_dest d = n @ ''.'' @ x"
proof -
  assume s: "split_name (full_dest d) = (n, x)"
  obtain i where i: "strrchr (full_dest d) (CHR ''.'') = Some i"
    using full_dest_dot strrchr_None by (cases "strrchr (full_dest d) (CHR ''.'')") blast+
  then show ?thesis using s strrchr_split[OF i] by (simp add: split_name_def)
qed

lemma full_dest_file:
  assumes "file_dest d"
  shows "\<not> same_nocase (full_dest d) LOG_DESTINATION_CONSOLE" "full_dest d \<noteq> LOG_DESTINATION_CONSOLE" "length (full_dest d) + 30 < MAX_FILENAME_LENGTH"
    "full_dest d \<noteq> []" "fit MAX_FILENAME_LENGTH (full_dest d) = full_dest d"
proof -
  have dot: "CText.tolower (CHR ''.'') = CHR ''.''" by (simp add: CText.tolower_def)
  have plain: "CHR ''.'' \<notin> set (map CText.tolower LOG_DESTINATION_CONSOLE)" by (simp add: CText.tolower_def)
  show n: "\<not> same_nocase (full_dest d) LOG_DESTINATION_CONSOLE"
    using dot plain full_dest_dot[of d] unfolding same_nocase_def by (metis image_eqI list.set_map)
  then show "full_dest d \<noteq> LOG_DESTINATION_CONSOLE" by (auto simp: same_nocase_def)
  show "length (full_dest d) + 30 < MAX_FILENAME_LENGTH" "full_dest d \<noteq> []" "fit MAX_FILENAME_LENGTH (full_dest d) = full_dest d"
    using assms by (auto simp: full_dest_def file_dest_def fit_def)
qed

lemma dest_names:
  assumes "file_dest d" and "split_name (full_dest d) = (n, x)"
  shows "stream_name n [] x = full_dest d" "stream_name n ''_Common'' x = common_file d" "stream_name n ''_Error'' x = error_file d"
    "common_file d \<noteq> error_file d"
  using full_dest_file[OF assms(1)] full_dest_split[OF assms(2)] assms(2)
  by (auto simp: stream_name_def fit_def common_file_def error_file_def)

lemma log_destination_file: "file_dest d \<Longrightarrow> log_destination lg (Some d) = Some (full_dest d)"
  by (auto simp: log_destination_def file_dest_def full_dest_def fit_def)

lemma linked_cong:
  assumes "linked e fs" and "\<And>h. h \<in> set (entry_handles e) \<Longrightarrow> fs_open fs1 h = fs_open fs h" and "fs_names fs \<subseteq>\<^sub>m fs_names fs1"
  shows "linked e fs1"
proof -
  obtain n x h k i j where l: "split_name (lf_fullName e) = (n, x)" "lf_fileName e = Some n" "lf_fileExtension e = Some x"
     "lf_commonFd e = Some (Stream h)" "fs_open fs h = Some i" "fs_names fs (stream_name n ''_Common'' x) = Some i"
     "lf_errorFd e = Some (Stream k)" "fs_open fs k = Some j" "fs_names fs (stream_name n ''_Error'' x) = Some j"
    using assms(1) unfolding linked_def by blast
  have "fs_open fs1 h = Some i" "fs_open fs1 k = Some j"
    using assms(2)[of h] assms(2)[of k] l(4,5,7,8) by (simp_all add: entry_handles_def handles_def)
  moreover have "fs_names fs1 (stream_name n ''_Common'' x) = Some i" "fs_names fs1 (stream_name n ''_Error'' x) = Some j"
    using assms(3) l(6,9) by (metis domI map_le_def)+
  ultimately show ?thesis using l unfolding linked_def by blast
qed

text \<open>Opening the two files of a new entry under a fair environment.\<close>

lemma open_entry_fair:
  assumes "fs_ok fs" and "fair env" and "file_dest d" and "split_name (full_dest d) = (n, x)"
  shows "\<exists>e fs1. open_entry env n x fs = Inr (None, Some e, fs1) \<and> lf_fullName e = full_dest d \<and> linked e fs1 \<and> fs_ok fs1
    \<and> fs_names fs \<subseteq>\<^sub>m fs_names fs1 \<and> (\<forall>m. file_text fs1 m = file_text fs m) \<and> distinct (entry_handles e) \<and> entry_named e
    \<and> fs_open fs \<subseteq>\<^sub>m fs_open fs1 \<and> set (entry_handles e) \<inter> dom (fs_open fs) = {} \<and> dom (fs_open fs1) = dom (fs_open fs) \<union> set (entry_handles e)"
proof -
  let ?h = "fs_streams fs"
  note names = dest_names[OF assms(3,4)]
  have a: "le_allows env m" for m using assms(2) by (simp add: fair_def)
  obtain fs1 i where 1: "fopen_append env (common_file d) fs = (Some (Stream ?h), fs1)" "fs_ok fs1" "fs_open fs1 = (fs_open fs)(?h \<mapsto> i)"
      "fs_streams fs1 = ?h + 1" "fs_names fs1 = (fs_names fs)(common_file d \<mapsto> i)" "\<forall>m. file_text fs1 m = file_text fs m"
      "fs_names fs (common_file d) = None \<or> fs_names fs (common_file d) = Some i"
    using fopen_append_ok[OF assms(1) a] by blast
  obtain fs2 j where 2: "fopen_append env (error_file d) fs1 = (Some (Stream (?h + 1)), fs2)" "fs_ok fs2" "fs_open fs2 = (fs_open fs1)(?h + 1 \<mapsto> j)"
      "fs_names fs2 = (fs_names fs1)(error_file d \<mapsto> j)" "\<forall>m. file_text fs2 m = file_text fs1 m"
      "fs_names fs1 (error_file d) = None \<or> fs_names fs1 (error_file d) = Some j"
    using fopen_append_ok[OF 1(2) a, of "error_file d"] unfolding 1(4) by blast
  have f: "fs_open fs ?h = None" "fs_open fs (?h + 1) = None"
    using fresh_handle[OF assms(1)] assms(1) by (auto simp: fs_ok_def) (metis Suc_lessD less_irrefl not_None_eq)
  define e where "e = \<lparr> lf_fullName = full_dest d, lf_fileName = Some n, lf_fileExtension = Some x,
    lf_commonFd = Some (Stream ?h), lf_errorFd = Some (Stream (?h + 1)) \<rparr>"
  have "open_entry env n x fs = Inr (None, Some e, fs2)" using 1(1) 2(1) by (simp add: open_entry_def names e_def)
  moreover have "linked e fs2" using names assms(4) by (simp add: linked_def e_def 1(3,5) 2(3,4))
  moreover have "fs_names fs \<subseteq>\<^sub>m fs_names fs2"
    using 1(5,7) 2(4,6) by (auto simp: map_le_def split: if_splits)
  moreover have "entry_handles e = [?h, ?h + 1]" "entry_named e" by (simp_all add: e_def entry_handles_def handles_def entry_named_def)
  moreover have "fs_open fs \<subseteq>\<^sub>m fs_open fs2" "dom (fs_open fs2) = dom (fs_open fs) \<union> {?h, ?h + 1}"
    using f by (auto simp: 1(3) 2(3) map_le_def)
  ultimately show ?thesis using 1(6) 2(2,5) f by (intro exI[of _ e] exI[of _ fs2]) (simp add: e_def domIff)
qed

lemma find_entry_fair:
  assumes "dual_ok B lg fs" and "fair env" and "file_dest d" and "int (length (ht_elems (table_of lg))) < INT_MAX"
  shows "\<exists>e lg1 fs1. find_entry True env lg (Some (full_dest d)) fs = Inr (None, Some e, lg1, fs1) \<and> dual_ok B lg1 fs1 \<and> one_more lg lg1
    \<and> lg_date lg1 = lg_date lg \<and> e \<in> set (ht_elems (table_of lg1)) \<and> lf_fullName e = full_dest d \<and> (\<forall>m. file_text fs1 m = file_text fs m)"
proof -
  define t where "t = table_of lg"
  have ok: "logger_ok lg fs" using assms(1) by (simp add: dual_ok_def)
  then have t: "lg_logFiles lg = Some t" "log_table t fs" "fs_ok fs" using logger_okD[OF ok] by (simp_all add: t_def)
  have find: "logFileHashTable_find t (Some (full_dest d)) = Inr (ht_lookup t (name_key (full_dest d)))"
    using HashFind_wf[OF log_table_nodes(2)[OF t(2)]] by (simp add: logFileHashTable_find_def)
  show ?thesis
  proof (cases "ht_lookup t (name_key (full_dest d))")
    case (Some e)
    then have "e \<in> set (ht_elems t)" "lf_fullName e = full_dest d"
      using log_keys.lookup_Some[OF log_table_nodes(1)[OF t(2)] Some] by (simp_all add: logFileHashTable_comp_def name_key_def)
    then show ?thesis using assms(1) t(1) find Some by (simp add: find_entry_def one_more_def flip: t_def)
  next
    case None
    obtain n x where s: "split_name (full_dest d) = (n, x)" by (cases "split_name (full_dest d)")
    obtain e fs1 where o: "open_entry env n x fs = Inr (None, Some e, fs1)" "lf_fullName e = full_dest d" "linked e fs1" "fs_ok fs1"
        "fs_names fs \<subseteq>\<^sub>m fs_names fs1" "\<forall>m. file_text fs1 m = file_text fs m" "distinct (entry_handles e)" "entry_named e"
        "fs_open fs \<subseteq>\<^sub>m fs_open fs1" "set (entry_handles e) \<inter> dom (fs_open fs) = {}" "dom (fs_open fs1) = dom (fs_open fs) \<union> set (entry_handles e)"
      using open_entry_fair[OF t(3) assms(2,3) s] by blast
    have c: "logFileEntryCreate env (Some (full_dest d)) True fs = Inr (None, Some e, fs1)"
      using assms(2) full_dest_file(1)[OF assms(3)] o(1) by (simp add: logFileEntryCreate_def emalloc_def fair_def strdup_ok_def s Let_def)
    have h: "set (table_handles t) \<subseteq> dom (fs_open fs)" using t(2) by (simp add: log_table_def)
    have count: "ht_elementCount t < INT_MAX" using assms(4) elementCount_elems[OF t(2)] by (simp add: t_def)
    obtain a where a: "le_node env = Some a" "le_sem env" using assms(2) by (auto simp: fair_def)
    have "ht_lookup t e = None"
      using log_keys.lookup_None_cong[OF log_table_nodes(1)[OF t(2)] None, of e] o(2) by (simp add: logFileHashTable_comp_def name_key_def)
    then obtain t2 where t2: "HashAdd (Some a) True t e = Inr (1, t2)"
      using log_keys.add_fresh[OF log_table_nodes(1)[OF t(2)] _ count, of e a] by blast
    have "set (entry_handles e) \<inter> set (table_handles t) = {}" "set (entry_handles e) \<union> dom (fs_open fs) \<subseteq> dom (fs_open fs1)"
      using o(10,11) h by blast+
    then obtain t1 where t1: "HashAdd (Some a) True t e = Inr (1, t1)" "log_table t1 fs1" "mset (ht_elems t1) = add_mset e (mset (ht_elems t))"
      using log_table_add[OF t(2) _ o(7), of fs1 "Some a" True] assms(4) o(8) t2 unfolding t_def[symmetric] by auto
    have m: "mset (table_handles t1) = mset (entry_handles e @ table_handles t)" by (simp add: table_handles_mset t1(3))
    have el: "set (ht_elems t1) = insert e (set (ht_elems t))" using arg_cong[where f = set_mset, OF t1(3)] by simp
    have keep: "linked y fs1" if "y \<in> set (ht_elems t)" "linked y fs" for y
    proof (rule linked_cong[OF that(2) _ o(5)])
      fix k assume "k \<in> set (entry_handles y)"
      then have "k \<in> dom (fs_open fs)" using that(1) h by (auto simp: table_handles_def)
      then show "fs_open fs1 k = fs_open fs k" using o(9) by (simp add: map_le_def)
    qed
    have "dual_ok B (lg\<lparr> lg_logFiles := Some t1 \<rparr>) fs1"
      unfolding dual_ok_def
    proof (intro conjI)
      show "logger_ok (lg\<lparr> lg_logFiles := Some t1 \<rparr>) fs1" using ok t1(2) o(4) by (auto simp: logger_ok_def)
      show "\<forall>y \<in> set (ht_elems (table_of (lg\<lparr> lg_logFiles := Some t1 \<rparr>))). lf_fullName y = LOG_DESTINATION_CONSOLE \<or> linked y fs1"
        using assms(1) keep el o(3) by (auto simp: dual_ok_def table_of_def t(1))
      have "fs_open fs1 |` (- (set (entry_handles e) \<union> set (table_handles t))) = fs_open fs |` (- set (table_handles t))"
      proof
        fix k
        show "(fs_open fs1 |` (- (set (entry_handles e) \<union> set (table_handles t)))) k = (fs_open fs |` (- set (table_handles t))) k"
        proof (cases "k \<in> dom (fs_open fs)")
          case True
          then have "fs_open fs1 k = fs_open fs k" "k \<notin> set (entry_handles e)" using o(9,10) by (auto simp: map_le_def)
          then show ?thesis by (simp add: restrict_map_def)
        next
          case False
          then have "k \<in> set (entry_handles e) \<or> k \<notin> dom (fs_open fs1)" using o(11) by blast
          then show ?thesis using False by (auto simp: restrict_map_def domIff)
        qed
      qed
      moreover have "fs_open fs |` (- set (table_handles t)) = B" using assms(1) by (simp add: dual_ok_def t_def)
      moreover have "set (table_handles t1) = set (entry_handles e) \<union> set (table_handles t)" using mset_eq_setD[OF m] by simp
      ultimately show "fs_open fs1 |` (- set (table_handles (table_of (lg\<lparr> lg_logFiles := Some t1 \<rparr>)))) = B" by (simp add: table_of_def)
    qed
    moreover have "length (ht_elems t1) = length (ht_elems t) + 1" using arg_cong[where f = size, OF t1(3)] by simp
    ultimately show ?thesis using find None c t(1) t1(1) a el o(2,6) by (simp add: find_entry_def one_more_def table_of_def)
  qed
qed

lemma append_named:
  assumes "fs_ok fs" and "fair env" and "fs_open fs h = Some i" and "fs_names fs nm = Some i"
  shows "\<exists>fs1. fileLogWrite env (Stream h) s fs = Inr (None, fs1) \<and> fs_ok fs1 \<and> fs_open fs1 = fs_open fs \<and> fs_names fs1 = fs_names fs
    \<and> (\<forall>m. file_text fs1 m = file_text fs m @ (if m = nm then s @ [LINE_END] else []))"
proof -
  define fs1 where "fs1 = fs\<lparr> fs_data := (fs_data fs)(i := fs_data fs i @ s @ [LINE_END]) \<rparr>"
  have f: "fs_open fs1 = fs_open fs" "fs_names fs1 = fs_names fs" "fs_streams fs1 = fs_streams fs" "fs_inodes fs1 = fs_inodes fs"
    by (simp_all add: fs1_def)
  have inj: "m = nm" if "fs_names fs m = Some i" for m
    using assms(1) that assms(4) unfolding fs_ok_def inj_on_def by (metis domI)
  have "file_text fs1 m = file_text fs m @ (if m = nm then s @ [LINE_END] else [])" for m
  proof (cases "fs_names fs m")
    case None
    then show ?thesis using assms(4) by (cases "m = nm") (simp_all add: file_text_def f(2))
  next
    case (Some k)
    show ?thesis
    proof (cases "k = i")
      case True
      then show ?thesis using inj[of m] Some by (simp add: file_text_def f(2)) (simp add: fs1_def)
    next
      case False
      then have "m \<noteq> nm" using assms(4) Some by auto
      then show ?thesis using Some False by (simp add: file_text_def f(2)) (simp add: fs1_def)
    qed
  qed
  moreover have "fs_ok fs1" using assms(1) by (auto simp: fs_ok_def f)
  moreover have "fileLogWrite env (Stream h) s fs = Inr (None, fs1)" using assms(2,3) by (simp add: fileLogWrite_def fair_def fs1_def)
  ultimately show ?thesis using f by blast
qed

lemma append_linked:
  assumes "dual_ok B lg fs" and "fair env" and "fs_open fs h = Some i" and "fs_names fs nm = Some i"
  shows "\<exists>fs1. fileLogWrite env (Stream h) s fs = Inr (None, fs1) \<and> dual_ok B lg fs1 \<and> fs_open fs1 = fs_open fs \<and> fs_names fs1 = fs_names fs
    \<and> (\<forall>m. file_text fs1 m = file_text fs m @ (if m = nm then s @ [LINE_END] else []))"
proof -
  have ok: "logger_ok lg fs" using assms(1) by (simp add: dual_ok_def)
  have t: "lg_logFiles lg = Some (table_of lg)" "log_table (table_of lg) fs" "fs_ok fs" using logger_okD[OF ok] by blast+
  obtain fs1 where f: "fileLogWrite env (Stream h) s fs = Inr (None, fs1)" "fs_ok fs1" "fs_open fs1 = fs_open fs" "fs_names fs1 = fs_names fs"
      "\<forall>m. file_text fs1 m = file_text fs m @ (if m = nm then s @ [LINE_END] else [])"
    using append_named[OF t(3) assms(2-4), of s] by blast
  have "logger_ok lg fs1" using ok t f(2,3) by (auto simp: logger_ok_def log_table_def)
  then have "dual_ok B lg fs1" using assms(1) linked_cong[of _ fs fs1] unfolding dual_ok_def f(3) by (metis f(3,4) map_le_refl)
  then show ?thesis using f by blast
qed

text \<open>The line of a message.\<close>

definition log_line :: "log_env \<Rightarrow> sLogger \<Rightarrow> string \<Rightarrow> LogLevel \<Rightarrow> string \<Rightarrow> int \<Rightarrow> string \<Rightarrow> string" where
  "log_line env lg moduleName logLevel sourceFile sourceLine message =
     fit BUFFER_LENGTH (head_of env lg moduleName logLevel sourceFile sourceLine @ message) @ [LINE_END]"

lemma dualFileLogText_appends:
  assumes "dual_ok B lg fs" and "fair env" and "file_dest d" and "int (length (ht_elems (table_of lg))) < INT_MAX"
    and "head_fits env lg md lvl src line" and "lg_date lg = le_date env"
  shows "\<exists>lg1 fs1. dualFileLogText env lg (Some d) md lvl src line message fs = Inr (None, lg1, fs1) \<and> dual_ok B lg1 fs1 \<and> one_more lg lg1
    \<and> lg_date lg1 = le_date env
    \<and> (\<forall>nm. file_text fs1 nm = file_text fs nm
         @ (if nm = common_file d \<or> nm = error_file d \<and> is_error_level lvl then log_line env lg md lvl src line message else []))"
proof -
  obtain e lg1 fs1 where f: "find_entry True env lg (Some (full_dest d)) fs = Inr (None, Some e, lg1, fs1)" "dual_ok B lg1 fs1" "one_more lg lg1"
      "lg_date lg1 = lg_date lg" "e \<in> set (ht_elems (table_of lg1))" "lf_fullName e = full_dest d" "\<forall>m. file_text fs1 m = file_text fs m"
    using find_entry_fair[OF assms(1-4)] by blast
  obtain n x where s: "split_name (full_dest d) = (n, x)" by (cases "split_name (full_dest d)")
  note names = dest_names[OF assms(3) s]
  have "linked e fs1" using f(2,5,6) full_dest_file(2)[OF assms(3)] by (auto simp: dual_ok_def)
  then obtain h i k j where l: "lf_commonFd e = Some (Stream h)" "fs_open fs1 h = Some i" "fs_names fs1 (common_file d) = Some i"
      "lf_errorFd e = Some (Stream k)" "fs_open fs1 k = Some j" "fs_names fs1 (error_file d) = Some j"
    using s names f(6) by (auto simp: linked_def)
  let ?s = "fit BUFFER_LENGTH (head_of env lg md lvl src line @ message)"
  have day: "day_change True env e lg1 fs1 = Inr (e, lg1, fs1)" using assms(6) f(4) by (simp add: day_change_def)
  have "head_of env lg1 md lvl src line = head_of env lg md lvl src line" using f(3) by (simp add: one_more_def head_of_def)
  then have build: "fileLogBuildLine env BUFFER_LENGTH (lg_logFormat lg1) (lg_applicationName lg1) md lvl src line message = Inr (None, ?s)"
    using BuildLine_ok[of lg1 fs1 env md lvl src line message] f(2) head_fits_cong[OF f(3)] assms(5) by (simp add: dual_ok_def)
  obtain fs2 where 2: "(if is_error_level lvl then fileLogWrite env (Stream k) ?s fs1 else Inr (None, fs1)) = Inr (None, fs2)" "dual_ok B lg1 fs2"
      "fs_open fs2 = fs_open fs1" "fs_names fs2 = fs_names fs1"
      "\<forall>m. file_text fs2 m = file_text fs1 m @ (if m = error_file d \<and> is_error_level lvl then ?s @ [LINE_END] else [])"
  proof (cases "is_error_level lvl")
    case True
    then show thesis using that append_linked[OF f(2) assms(2) l(5,6), of ?s] by auto
  next
    case False
    then show thesis using that[of fs1] f(2) by simp
  qed
  obtain fs3 where 3: "fileLogWrite env (Stream h) ?s fs2 = Inr (None, fs3)" "dual_ok B lg1 fs3"
      "\<forall>m. file_text fs3 m = file_text fs2 m @ (if m = common_file d then ?s @ [LINE_END] else [])"
    using append_linked[OF 2(2) assms(2), of h i "common_file d" ?s] l(2,3) 2(3,4) by auto
  have "dualFileLogText env lg (Some d) md lvl src line message fs = Inr (None, lg1, fs3)"
    using f(1) day build 2(1) 3(1) l(1,4) by (simp add: dualFileLogText_def log_destination_file[OF assms(3)])
  moreover have "file_text fs3 nm = file_text fs nm
      @ (if nm = common_file d \<or> nm = error_file d \<and> is_error_level lvl then log_line env lg md lvl src line message else [])" for nm
    using 3(3) 2(5) f(7) names(4) by (auto simp: log_line_def)
  ultimately show ?thesis using 3(2) f(3,4) assms(6) by (intro exI[of _ lg1] exI[of _ fs3]) simp
qed

subsubsection \<open>Any number of messages\<close>

text \<open>Every call has an environment of its own: the clock, the milliseconds, the thread that logs, the
  address \<open>malloc\<close> gives to a new node of the table.\<close>

record log_message =
  ms_env :: log_env
  ms_dest :: string
  ms_module :: string
  ms_level :: LogLevel
  ms_file :: string
  ms_line :: int
  ms_text :: string

text \<open>The messages of one day, one after the other; and what each file gets of them.\<close>

definition log_all :: "log_message list \<Rightarrow> sLogger \<times> files \<Rightarrow> (sLogger \<times> files) res" where
  "log_all ms s =
     rfold (\<lambda>m (lg, fs). rbind (dualFileLogText (ms_env m) lg (Some (ms_dest m)) (ms_module m) (ms_level m) (ms_file m) (ms_line m) (ms_text m) fs)
       (\<lambda>(error, lg1, fs1). Inr (lg1, fs1))) ms s"

definition line_of :: "sLogger \<Rightarrow> log_message \<Rightarrow> string" where
  "line_of lg m = log_line (ms_env m) lg (ms_module m) (ms_level m) (ms_file m) (ms_line m) (ms_text m)"

definition lines_for :: "sLogger \<Rightarrow> string \<Rightarrow> log_message list \<Rightarrow> string" where
  "lines_for lg name ms =
     concat (map (\<lambda>m. if name = common_file (ms_dest m) \<or> name = error_file (ms_dest m) \<and> is_error_level (ms_level m)
       then line_of lg m else []) ms)"

text \<open>A message of the day \<open>date\<close> to a file, whose call is refused nothing and whose head fits the buffer.\<close>

definition message_ok :: "string \<Rightarrow> sLogger \<Rightarrow> log_message \<Rightarrow> bool" where
  "message_ok date lg m \<longleftrightarrow> fair (ms_env m) \<and> le_date (ms_env m) = date \<and> file_dest (ms_dest m)
     \<and> head_fits (ms_env m) lg (ms_module m) (ms_level m) (ms_file m) (ms_line m)"

lemma log_line_cong:
  assumes "lg_applicationName lg1 = lg_applicationName lg" and "lg_logFormat lg1 = lg_logFormat lg"
  shows "line_of lg1 = line_of lg" "lines_for lg1 = lines_for lg" "message_ok date lg1 = message_ok date lg"
proof -
  show l: "line_of lg1 = line_of lg" using assms by (simp add: fun_eq_iff line_of_def log_line_def head_of_def)
  show "lines_for lg1 = lines_for lg" by (intro ext, simp only: lines_for_def l)
  show "message_ok date lg1 = message_ok date lg"
    using assms by (simp add: fun_eq_iff message_ok_def head_fits_def head_of_def)
qed

lemma log_all_files:
  assumes "dual_ok B lg fs" and "lg_date lg = date" and "int (length (ht_elems (table_of lg)) + length ms) \<le> INT_MAX"
    and "\<forall>m \<in> set ms. message_ok date lg m"
  shows "\<exists>lg1 fs1. log_all ms (lg, fs) = Inr (lg1, fs1) \<and> dual_ok B lg1 fs1 \<and> lg_driver lg1 = lg_driver lg
    \<and> (\<forall>name. file_text fs1 name = file_text fs name @ lines_for lg name ms)"
  using assms
proof (induction ms arbitrary: lg fs)
  case Nil
  then show ?case by (simp add: log_all_def lines_for_def)
next
  case (Cons m ms)
  have m: "fair (ms_env m)" "file_dest (ms_dest m)" "lg_date lg = le_date (ms_env m)"
      "head_fits (ms_env m) lg (ms_module m) (ms_level m) (ms_file m) (ms_line m)"
    using Cons.prems(2,4) by (simp_all add: message_ok_def)
  obtain lg1 fs1 where 1: "dualFileLogText (ms_env m) lg (Some (ms_dest m)) (ms_module m) (ms_level m) (ms_file m) (ms_line m) (ms_text m) fs = Inr (None, lg1, fs1)"
      "dual_ok B lg1 fs1" "one_more lg lg1" "lg_date lg1 = le_date (ms_env m)"
      "\<forall>nm. file_text fs1 nm = file_text fs nm @ (if nm = common_file (ms_dest m) \<or> nm = error_file (ms_dest m) \<and> is_error_level (ms_level m)
         then line_of lg m else [])"
    using dualFileLogText_appends[OF Cons.prems(1) m(1,2) _ m(4,3), of "ms_text m"] Cons.prems(3)
    by (auto simp: line_of_def simp del: split_paired_Ex)
  note c = log_line_cong[of lg1 lg]
  have "\<exists>lg2 fs2. log_all ms (lg1, fs1) = Inr (lg2, fs2) \<and> dual_ok B lg2 fs2 \<and> lg_driver lg2 = lg_driver lg1
      \<and> (\<forall>name. file_text fs2 name = file_text fs1 name @ lines_for lg1 name ms)"
    by (rule Cons.IH) (use 1 Cons.prems c m(3) in \<open>auto simp: one_more_def\<close>)
  moreover have "lg_driver lg1 = lg_driver lg" "lines_for lg1 = lines_for lg" using 1(3) c by (simp_all add: one_more_def)
  ultimately show ?case using 1 by (auto simp: log_all_def lines_for_def)
qed

subsubsection \<open>From creation to destruction\<close>

lemma destroy_chain:
  "\<forall>n \<in> set chain. hi_firstCursor n = None \<Longrightarrow> ht_destrData t = Some logFileEntryDestroy \<Longrightarrow>
   rfold (DestroyInfo t) chain fs = Inr (fold logFileEntryDestroy (map hi_data chain) fs)"
  by (induction chain arbitrary: fs) (simp_all add: DestroyInfo_def)

lemma fold_destroy:
  "fs_open (fold logFileEntryDestroy es fs) = fs_open fs |` (- set (concat (map entry_handles es)))"
  "file_text (fold logFileEntryDestroy es fs) = file_text fs"
proof -
  have c: "fs_names (close_entry_stream f fs) = fs_names fs" "fs_data (close_entry_stream f fs) = fs_data fs" for f fs
    by (cases f; cases "the f"; simp add: close_entry_stream_def)+
  have u: "m |` UNIV = m" for m :: "nat \<rightharpoonup> nat" by (simp add: restrict_map_def)
  show "fs_open (fold logFileEntryDestroy es fs) = fs_open fs |` (- set (concat (map entry_handles es)))"
    by (induction es arbitrary: fs) (simp_all add: u logFileEntryDestroy_ok(2) Int_commute)
  show "file_text (fold logFileEntryDestroy es fs) = file_text fs"
  proof (induction es arbitrary: fs)
    case (Cons e es)
    have "file_text (logFileEntryDestroy e fs) = file_text fs"
      by (rule ext) (simp add: file_text_def logFileEntryDestroy_def c split: option.split)
    then show ?case using Cons by simp
  qed simp
qed

lemma HashDestroyTable_log:
  assumes "log_table t fs0"
  shows "HashDestroyTable t fs = Inr (fold logFileEntryDestroy (ht_elems t) fs)"
proof -
  have t: "length (ht_infoArray t) = ht_size t" "\<forall>n \<in> set (concat (ht_infoArray t)). hi_firstCursor n = None"
      "ht_destrData t = Some logFileEntryDestroy" using assms by (auto simp: log_table_def ht_for_def ht_wf_def)
  have "rfold (\<lambda>i w. rbind (bucket t i) (\<lambda>chain. rfold (DestroyInfo t) chain w)) [0..<k] fs
      = Inr (fold logFileEntryDestroy (map hi_data (concat (take k (ht_infoArray t)))) fs)" if "k \<le> ht_size t" for k
    using that
  proof (induction k)
    case (Suc k)
    then have k: "k < length (ht_infoArray t)" using t(1) by simp
    then have "\<forall>n \<in> set (ht_infoArray t ! k). hi_firstCursor n = None" using t(2) nth_mem by fastforce
    then show ?case using Suc k destroy_chain[OF _ t(3)] by (simp add: bucket_def take_Suc_conv_app_nth)
  qed simp
  from this[of "ht_size t"] show ?thesis using t(1) by (simp add: HashDestroyTable_def ht_elems_def)
qed

lemma destroy_dual:
  assumes "dual_ok B lg fs"
  shows "\<exists>fs1. loggerDestroyCommon lg fs = Inr fs1 \<and> fs_open fs1 = B \<and> file_text fs1 = file_text fs"
proof -
  have ok: "logger_ok lg fs" using assms by (simp add: dual_ok_def)
  have t: "lg_logFiles lg = Some (table_of lg)" "log_table (table_of lg) fs" using logger_okD[OF ok] by blast+
  have "loggerDestroyCommon lg fs = Inr (fold logFileEntryDestroy (ht_elems (table_of lg)) fs)"
    using ok t(1) HashDestroyTable_log[OF t(2)] by (auto simp: loggerDestroyCommon_def logger_ok_def free_block_def)
  then show ?thesis using assms fold_destroy by (simp add: dual_ok_def table_handles_def)
qed

text \<open>Creating a logger is opening the destination of a logger without entries.\<close>

lemma create_dual:
  assumes "fair env" and "le_logger env" and "le_mutex env = 0" and "le_table env (24 + 16 * 4)" and "fs_ok fs" and "file_dest a"
  shows "\<exists>lg fs1. create_logger True env driver app (Some a) fs = Inr (None, Some lg, fs1) \<and> dual_ok (fs_open fs) lg fs1
    \<and> lg_applicationName lg = Block app \<and> lg_date lg = le_date env \<and> lg_driver lg = driver
    \<and> lg_logFileFullName lg = Some (full_dest a) \<and> length (ht_elems (table_of lg)) \<le> 1 \<and> file_text fs1 = file_text fs"
proof -
  define t where "t = \<lparr> ht_size = 16, ht_elementCount = 0, ht_calcIndx = logFileHashTable_hash, ht_compData = logFileHashTable_comp,
      ht_destrData = Some logFileEntryDestroy, ht_debugLevel = 0, ht_infoArray = replicate 16 [] \<rparr>"
  have t: "HashCreateTable (le_table env) 16 logFileHashTable_hash logFileHashTable_comp (Some logFileEntryDestroy) = Inr (Some t)"
    using assms(4) by (simp add: HashCreateTable_def t_def Let_def)
  have el: "ht_elems t = []" "table_handles t = []" by (simp_all add: ht_elems_def table_handles_def t_def)
  have "log_table t fs"
    using el by (simp add: log_table_def ht_for_def ht_wf_def keys_differ_def t_def)
  define lg0 where "lg0 = \<lparr> lg_driver = driver, lg_applicationName = Block app, lg_mutexInited = True, lg_logFileFullName = None,
      lg_date = le_date env, lg_logFormat = LOGFORMAT_LEGACY, lg_logFiles = Some t \<rparr>"
  have t0: "table_of lg0 = t" by (simp add: table_of_def lg0_def)
  have common: "loggerCreateCommon env driver app = Inr (None, lg0)"
    using assms(1,3) t by (simp add: loggerCreateCommon_def lg0_def fair_def strdup_ok_def)
  have "dual_ok (fs_open fs) lg0 fs"
    using \<open>log_table t fs\<close> assms(5) el by (simp add: dual_ok_def logger_ok_def t0 restrict_map_def) (simp add: lg0_def)
  then obtain e lg1 fs1 where f: "find_entry True env lg0 (Some (full_dest a)) fs = Inr (None, Some e, lg1, fs1)" "dual_ok (fs_open fs) lg1 fs1"
      "one_more lg0 lg1" "lg_date lg1 = lg_date lg0" "lf_fullName e = full_dest a" "\<forall>m. file_text fs1 m = file_text fs m"
    using find_entry_fair[OF _ assms(1,6), of "fs_open fs" lg0 fs] el t0 by auto
  have none: "logFileHashTable_find t (Some (full_dest a)) = Inr None"
    by (simp add: logFileHashTable_find_def HashFind_def hash_index_def FindInfo_def bucket_def t_def)
  have same: "logFileEntryCreate env (Some a) True fs = logFileEntryCreate env (Some (full_dest a)) True fs"
  proof -
    have "split_name (full_dest a) = split_name a"
    proof (cases "strrchr a (CHR ''.'')")
      case None
      then obtain i where i: "strrchr (full_dest a) (CHR ''.'') = Some i"
        using full_dest_dot[of a] strrchr_None by (cases "strrchr (full_dest a) (CHR ''.'')") blast+
      have full: "full_dest a = a @ CHR ''.'' # ''log''" using None by (simp add: full_dest_def)
      have "strrchr (xs @ CHR ''.'' # ''log'') (CHR ''.'') = Some (length xs)" for xs by (induction xs) simp_all
      then show ?thesis using None unfolding full by (simp add: split_name_def)
    qed (simp add: full_dest_def)
    then show ?thesis using assms(1,6) full_dest_file(1)[OF assms(6)]
      by (simp add: logFileEntryCreate_def emalloc_def file_dest_def fair_def strdup_ok_def Let_def)
  qed
  obtain fs2 t1 where c: "logFileEntryCreate env (Some (full_dest a)) True fs = Inr (None, Some e, fs2)"
      "HashAdd (le_node env) (le_sem env) t e = Inr (1, t1)" "lg1 = lg0\<lparr> lg_logFiles := Some t1 \<rparr>" "fs1 = fs2"
  proof -
    have l: "lg_logFiles lg0 = Some t" by (simp add: lg0_def)
    obtain error x fs2 where x: "logFileEntryCreate env (Some (full_dest a)) True fs = Inr (error, x, fs2)" "error = None"
      using f(1) by (auto simp: find_entry_def l none res_iff split: if_splits)
    obtain y where y: "x = Some y" using f(1) x by (cases x) (simp_all add: find_entry_def l none)
    obtain added t1 where h: "HashAdd (le_node env) (le_sem env) t y = Inr (added, t1)"
      using f(1) x y by (auto simp: find_entry_def l none res_iff)
    have "added \<noteq> 0" using f(1) x y h by (auto simp: find_entry_def l none)
    moreover have "added = 0 \<or> added = 1" using h by (auto simp: HashAdd_def res_iff split: if_splits option.splits)
    ultimately show thesis using that f(1) x y h by (simp add: find_entry_def l none)
  qed
  define lg where "lg = lg1\<lparr> lg_logFileFullName := Some (full_dest a) \<rparr>"
  have "create_logger True env driver app (Some a) fs = Inr (None, Some lg, fs1)"
    using assms(1,2) common same c f(5) by (simp add: create_logger_def emalloc_def fair_def strdup_ok_def lg_def lg0_def)
  moreover have tl: "table_of lg = table_of lg1" by (simp add: lg_def table_of_def)
  have "dual_ok (fs_open fs) lg fs1" using f(2) by (simp add: dual_ok_def logger_ok_def tl) (simp add: lg_def)
  moreover have "length (ht_elems (table_of lg)) \<le> 1" using f(3) el t0 by (simp add: one_more_def tl)
  moreover have "lg_applicationName lg = Block app" "lg_date lg = le_date env" "lg_driver lg = driver" "lg_logFileFullName lg = Some (full_dest a)"
    by (simp_all add: lg_def c(3)) (simp_all add: lg0_def)
  ultimately show ?thesis using f(6) by (intro exI[of _ lg] exI[of _ fs1]) (simp add: fun_eq_iff)
qed

text \<open>The logger that \<open>log_create\<close> makes for an application, as far as the text of its lines goes.\<close>

definition logger_for :: "string \<Rightarrow> sLogger" where
  "logger_for app = sDefaultLogger\<lparr> lg_applicationName := Block app \<rparr>"

text \<open>C27: Created, used for any messages of one day to any files and destroyed, a logger of the dual driver has
  appended to each file exactly the lines of the messages that go there, in their order: all of a destination to its common
  file, those from critical to warning to its error file too; and it has closed every stream it opened. Each line carries the
  time, the milliseconds and the thread of its own call. The system refuses nothing, and the head of every line fits the buffer.\<close>

theorem dual_logger_refines_lines:
  assumes "fair env" and "le_logger env" and "le_mutex env = 0" and "le_table env (24 + 16 * 4)" and "fs_ok fs" and "file_dest a"
    and "int (length ms) < INT_MAX"
    and "\<forall>m \<in> set ms. fair (ms_env m) \<and> le_date (ms_env m) = le_date env \<and> file_dest (ms_dest m)
      \<and> head_fits (ms_env m) (logger_for app) (ms_module m) (ms_level m) (ms_file m) (ms_line m)"
  shows "\<exists>lg fs1 lg2 fs2 fs3. dualFileCreate env LoggingDriverDualFile app (Some a) fs = Inr (None, Some lg, fs1)
    \<and> log_all ms (lg\<lparr> lg_logFormat := LOGFORMAT_STANDARD \<rparr>, fs1) = Inr (lg2, fs2)
    \<and> dualFileDestroy lg2 fs2 = Inr fs3 \<and> fs_open fs3 = fs_open fs
    \<and> (\<forall>name. file_text fs3 name = file_text fs name @ lines_for (logger_for app) name ms)"
proof -
  obtain lg fs1 where c: "create_logger True env LoggingDriverDualFile app (Some a) fs = Inr (None, Some lg, fs1)" "dual_ok (fs_open fs) lg fs1"
      "lg_applicationName lg = Block app" "lg_date lg = le_date env" "lg_driver lg = LoggingDriverDualFile"
      "length (ht_elems (table_of lg)) \<le> 1" "file_text fs1 = file_text fs"
    using create_dual[OF assms(1-6), of LoggingDriverDualFile app] by blast
  define lg1 where "lg1 = lg\<lparr> lg_logFormat := LOGFORMAT_STANDARD \<rparr>"
  have tl: "table_of lg1 = table_of lg" by (simp add: lg1_def table_of_def)
  have d: "dual_ok (fs_open fs) lg1 fs1" using c(2) by (simp add: dual_ok_def logger_ok_def tl) (simp add: lg1_def)
  have "lg_applicationName lg1 = lg_applicationName (logger_for app)" "lg_logFormat lg1 = lg_logFormat (logger_for app)"
    using c(3) by (simp_all add: lg1_def logger_for_def sDefaultLogger_def)
  note k = log_line_cong[OF this]
  have "\<forall>m \<in> set ms. message_ok (le_date env) lg1 m" using assms(8) unfolding k(3) message_ok_def .
  then obtain lg2 fs2 where a: "log_all ms (lg1, fs1) = Inr (lg2, fs2)" "dual_ok (fs_open fs) lg2 fs2" "lg_driver lg2 = lg_driver lg1"
      "\<forall>name. file_text fs2 name = file_text fs1 name @ lines_for lg1 name ms"
    using log_all_files[OF d, of "le_date env" ms] assms(7) c(4,6) tl by (auto simp: lg1_def)
  obtain fs3 where "loggerDestroyCommon lg2 fs2 = Inr fs3" "fs_open fs3 = fs_open fs" "file_text fs3 = file_text fs2"
    using destroy_dual[OF a(2)] by blast
  then show ?thesis using c(1,5,7) a k(2)
    by (intro exI[of _ lg] exI[of _ fs1] exI[of _ lg2] exI[of _ fs2] exI[of _ fs3])
      (simp add: dualFileCreate_def dualFileDestroy_def lg1_def)
qed

subsection \<open>A new day\<close>

lemma rotate_fair:
  assumes "fs_ok fs" and "fair env" and "h \<in> dom (fs_open fs)"
    and "cur = stream_name n sp x" and "new = stream_name n (sp @ ''_'' @ le_date env) x" and "old = stream_name n (sp @ ''_'' @ le_weekAgo env) x"
    and "distinct [cur, new, old]"
  shows "\<exists>fs1 i. fileLogRotate env (Stream h) n sp x (le_date env) fs = Inr (Stream (fs_streams fs), fs1) \<and> fs_ok fs1
    \<and> fs_open fs1 = (fs_open fs)(h := None, fs_streams fs \<mapsto> i) \<and> fs_names fs1 cur = Some i \<and> file_text fs1 cur = []
    \<and> (fs_names fs cur \<noteq> None \<longrightarrow> file_text fs1 new = file_text fs cur)
    \<and> (\<forall>m. m \<notin> {cur, new, old} \<longrightarrow> file_text fs1 m = file_text fs m \<and> fs_names fs1 m = fs_names fs m)"
proof -
  have all: "le_allows env m" for m using assms(2) by (simp add: fair_def)
  define fs0 where "fs0 = close_stream (Stream h) fs"
  have o0: "fs_ok fs0" "fs_open fs0 = (fs_open fs)(h := None)" "fs_streams fs0 = fs_streams fs" "fs_names fs0 = fs_names fs"
      "\<And>m. file_text fs0 m = file_text fs m"
    using close_stream_ok[OF assms(1), of "Stream h"] by (simp_all add: fs0_def file_text_def split: option.split)
  obtain b1 fs1 where 1: "rename_file env cur new fs0 = (b1, fs1)" by (cases "rename_file env cur new fs0")
  have o1: "fs_ok fs1" "fs_open fs1 = (fs_open fs)(h := None)" "fs_streams fs1 = fs_streams fs"
    using rename_file_ok[OF o0(1), of env cur new] 1 o0 by simp_all
  have data: "fs_data fs1 = fs_data fs0" using 1 by (auto simp: rename_file_def split: if_splits)
  have n1: "fs_names fs1 cur = None" "fs_names fs cur \<noteq> None \<longrightarrow> fs_names fs1 new = fs_names fs cur"
      "\<forall>m. m \<notin> {cur, new} \<longrightarrow> fs_names fs1 m = fs_names fs m"
    using 1 assms(7) o0(4) all by (auto simp: rename_file_def split: if_splits)
  have t1: "fs_names fs cur \<noteq> None \<longrightarrow> file_text fs1 new = file_text fs cur" "\<forall>m. m \<notin> {cur, new} \<longrightarrow> file_text fs1 m = file_text fs m"
      "file_text fs1 cur = []"
  proof -
    have dt: "fs_data fs1 = fs_data fs" unfolding data by (simp add: fs0_def)
    have ft: "file_text fs1 m = (case fs_names fs1 m of None \<Rightarrow> [] | Some i \<Rightarrow> fs_data fs i)" for m by (simp only: file_text_def dt)
    show "fs_names fs cur \<noteq> None \<longrightarrow> file_text fs1 new = file_text fs cur" "\<forall>m. m \<notin> {cur, new} \<longrightarrow> file_text fs1 m = file_text fs m"
        "file_text fs1 cur = []"
      using n1 by (simp_all add: ft file_text_def[of fs])
  qed
  define fs1' where "fs1' = report_unless b1 (log_error (le_errno env) (''Failed to rename logging file '' @ quote_name cur @ '' to '' @ quote_name new)) fs1"
  have o1': "fs_ok fs1'" "fs_open fs1' = fs_open fs1" "fs_streams fs1' = fs_streams fs" "fs_names fs1' = fs_names fs1"
      "\<And>m. file_text fs1' m = file_text fs1 m" using o1 by (simp_all add: fs1'_def file_text_def split: option.split)
  obtain fs2 i where 2: "fopen_append env cur fs1' = (Some (Stream (fs_streams fs)), fs2)" "fs_ok fs2"
      "fs_open fs2 = (fs_open fs1)(fs_streams fs \<mapsto> i)" "fs_names fs2 = (fs_names fs1)(cur \<mapsto> i)" "\<forall>m. file_text fs2 m = file_text fs1 m"
    using fopen_append_ok[OF o1'(1) all, of cur] o1' by metis
  obtain b3 fs3 where 3: "remove_file env old fs2 = (b3, fs3)" by (cases "remove_file env old fs2")
  have o3: "fs_ok fs3" "fs_open fs3 = fs_open fs2" using remove_file_ok[OF 2(2), of env old] 3 by simp_all
  have n3: "\<forall>m. m \<noteq> old \<longrightarrow> fs_names fs3 m = fs_names fs2 m \<and> file_text fs3 m = file_text fs2 m"
    using 3 by (auto simp: remove_file_def file_text_def split: if_splits option.split)
  define fs4 where "fs4 = report_unless b3 (log_error (le_errno env) (''Failed to remove logging file '' @ quote_name old)) fs3"
  have o4: "fs_ok fs4" "fs_open fs4 = fs_open fs3" "fs_names fs4 = fs_names fs3" "\<And>m. file_text fs4 m = file_text fs3 m"
    using o3 by (simp_all add: fs4_def file_text_def split: option.split)
  have "rguard DanglingPtr (fs_open fs h \<noteq> None) = Inr ()" using assms(3) by auto
  then have "fileLogRotate env (Stream h) n sp x (le_date env) fs = Inr (Stream (fs_streams fs), fs4)"
    unfolding fileLogRotate_def Let_def stream.case assms(4-6)[symmetric] fs0_def[symmetric]
    by (simp only: rbind_simps 1 prod.case fs1'_def[symmetric] 2(1) option.case)
      (simp add: report_unless_def[of True] 3 fs4_def)
  moreover have d: "cur \<noteq> new" "cur \<noteq> old" "new \<noteq> old" using assms(7) by auto
  moreover have "fs_open fs4 = (fs_open fs)(h := None, fs_streams fs \<mapsto> i)" by (simp add: o4 o3 2(3) o1(2))
  moreover have "fs_names fs4 cur = Some i" "file_text fs4 cur = []" using n3 d 2(4,5) t1(3) by (simp_all add: o4)
  moreover have "fs_names fs cur \<noteq> None \<longrightarrow> file_text fs4 new = file_text fs cur" using n3 d 2(5) t1(1) by (simp add: o4)
  moreover have "\<forall>m. m \<notin> {cur, new, old} \<longrightarrow> file_text fs4 m = file_text fs m \<and> fs_names fs4 m = fs_names fs m"
    using n3 n1(3) t1(2) 2(4,5) by (simp add: o4)
  ultimately show ?thesis using o4(1) by blast
qed

text \<open>The names of the files of a destination, with the dates.\<close>

definition dated_file :: "string \<Rightarrow> string \<Rightarrow> string \<Rightarrow> string" where
  "dated_file d specifier date = (case split_name (full_dest d) of (n, x) \<Rightarrow> n @ specifier @ ''_'' @ date @ ''.'' @ x)"

lemma stream_name_dest:
  "file_dest d \<Longrightarrow> split_name (full_dest d) = (n, x) \<Longrightarrow> length sp \<le> 25 \<Longrightarrow> stream_name n sp x = n @ sp @ ''.'' @ x"
  using full_dest_file(3)[of d] full_dest_split[of d n x] by (simp add: stream_name_def fit_def)

text \<open>Dates as \<open>strftime\<close> writes them: of ten characters, with a digit first, and today is not a week ago.\<close>

definition dates_ok :: "log_env \<Rightarrow> bool" where
  "dates_ok env \<longleftrightarrow> length (le_date env) = 10 \<and> length (le_weekAgo env) = 10 \<and> le_date env \<noteq> le_weekAgo env"

definition entry_for :: "sLogger \<Rightarrow> string \<Rightarrow> sLogFileEntry \<Rightarrow> bool" where
  "entry_for lg d e \<longleftrightarrow> e \<in> set (ht_elems (table_of lg)) \<and> lf_fullName e = full_dest d"

lemma find_entry_present:
  assumes "logger_ok lg fs" and "entry_for lg d e"
  shows "find_entry dual env lg (Some (full_dest d)) fs = Inr (None, Some e, lg, fs)"
proof -
  have t: "lg_logFiles lg = Some (table_of lg)" "log_table (table_of lg) fs" using logger_okD[OF assms(1)] by blast+
  have "ht_lookup (table_of lg) (name_key (full_dest d)) = Some e"
    using log_keys.lookup_Some_iff[OF log_table_nodes(1)[OF t(2)], of "name_key (full_dest d)" e] assms(2)
    by (simp add: entry_for_def logFileHashTable_comp_def name_key_def)
  then show ?thesis using t(1) HashFind_wf[OF log_table_nodes(2)[OF t(2)]] by (simp add: find_entry_def logFileHashTable_find_def)
qed

lemma linked_handles:
  assumes "logger_ok lg fs" and "entry_for lg d e" and "linked e fs" and "split_name (full_dest d) = (n, x)"
  obtains h i k j where "lf_fileName e = Some n" "lf_fileExtension e = Some x" "lf_commonFd e = Some (Stream h)" "fs_open fs h = Some i"
    "fs_names fs (stream_name n ''_Common'' x) = Some i" "lf_errorFd e = Some (Stream k)" "fs_open fs k = Some j"
    "fs_names fs (stream_name n ''_Error'' x) = Some j" "h \<noteq> k"
proof -
  obtain h i k j where l: "lf_fileName e = Some n" "lf_fileExtension e = Some x" "lf_commonFd e = Some (Stream h)" "fs_open fs h = Some i"
    "fs_names fs (stream_name n ''_Common'' x) = Some i" "lf_errorFd e = Some (Stream k)" "fs_open fs k = Some j"
    "fs_names fs (stream_name n ''_Error'' x) = Some j"
    using assms(2-4) by (auto simp: linked_def entry_for_def)
  obtain us vs where "ht_elems (table_of lg) = us @ e # vs" using assms(2) by (auto simp: entry_for_def dest: split_list)
  then have "distinct (entry_handles e)" using logger_okD(2)[OF assms(1)] by (simp add: log_table_def table_handles_def)
  then have "h \<noteq> k" using l(3,6) by (simp add: entry_handles_def handles_def)
  then show thesis using that l by blast
qed

lemma build_for:
  assumes "logger_ok lg fs" and "head_fits env lg md lvl src line"
    and "lg_applicationName lg1 = lg_applicationName lg" and "lg_logFormat lg1 = lg_logFormat lg"
  shows "fileLogBuildLine env BUFFER_LENGTH (lg_logFormat lg1) (lg_applicationName lg1) md lvl src line message
    = Inr (None, fit BUFFER_LENGTH (head_of env lg md lvl src line @ message))"
  using BuildLine_ok[OF assms(1,2), of message] assms(3,4) by simp

text \<open>What a rotation of both files of an entry does: each of them is new and empty, and its old text is under
  the dated name.\<close>

lemma rotate_entry_fair:
  assumes "logger_ok lg fs" and "fair env" and "dates_ok env" and "file_dest d" and "entry_for lg d e" and "linked e fs"
  obtains a b i1 i2 fs2 where "rotate_entry True env e fs = Inr (e\<lparr> lf_commonFd := Some (Stream a), lf_errorFd := Some (Stream b) \<rparr>, fs2)"
    and "fs_ok fs2" and "fs_open fs2 a = Some i1" and "fs_open fs2 b = Some i2"
    and "fs_names fs2 (common_file d) = Some i1" and "fs_names fs2 (error_file d) = Some i2"
    and "file_text fs2 (common_file d) = []" and "file_text fs2 (error_file d) = []"
    and "file_text fs2 (dated_file d ''_Common'' (le_date env)) = file_text fs (common_file d)"
    and "file_text fs2 (dated_file d ''_Error'' (le_date env)) = file_text fs (error_file d)"
    and "distinct [common_file d, error_file d, dated_file d ''_Common'' (le_date env), dated_file d ''_Error'' (le_date env)]"
proof -
  obtain n x where s: "split_name (full_dest d) = (n, x)" by (cases "split_name (full_dest d)")
  note names = stream_name_dest[OF assms(4) s]
  obtain h i k j where l: "lf_fileName e = Some n" "lf_fileExtension e = Some x" "lf_commonFd e = Some (Stream h)" "fs_open fs h = Some i"
    "fs_names fs (stream_name n ''_Common'' x) = Some i" "lf_errorFd e = Some (Stream k)" "fs_open fs k = Some j"
    "fs_names fs (stream_name n ''_Error'' x) = Some j" "h \<noteq> k"
    using linked_handles[OF assms(1,5,6) s] by blast
  define nm where "nm sp = stream_name n sp x" for sp
  have nm: "nm sp = n @ sp @ ''.'' @ x" if "length sp \<le> 25" for sp using names[OF that] by (simp add: nm_def)
  let ?c = "nm ''_Common''" and ?cd = "nm (''_Common'' @ ''_'' @ le_date env)" and ?cw = "nm (''_Common'' @ ''_'' @ le_weekAgo env)"
  let ?e = "nm ''_Error''" and ?ed = "nm (''_Error'' @ ''_'' @ le_date env)" and ?ew = "nm (''_Error'' @ ''_'' @ le_weekAgo env)"
  have len: "length (le_date env) = 10" "length (le_weekAgo env) = 10" "le_date env \<noteq> le_weekAgo env" using assms(3) by (simp_all add: dates_ok_def)
  have distinct: "distinct [?c, ?cd, ?cw]" "distinct [?e, ?ed, ?ew]" "?c \<notin> {?e, ?ed, ?ew}" "?cd \<notin> {?e, ?ed, ?ew}" "?e \<notin> {?c, ?cd, ?cw}" "?ed \<notin> {?c, ?cd, ?cw}"
    using len by (simp_all add: nm)
  have fsok: "fs_ok fs" using logger_okD(3)[OF assms(1)] .
  obtain fs1 i1 where 1: "fileLogRotate env (Stream h) n ''_Common'' x (le_date env) fs = Inr (Stream (fs_streams fs), fs1)" "fs_ok fs1"
      "fs_open fs1 = (fs_open fs)(h := None, fs_streams fs \<mapsto> i1)" "fs_names fs1 ?c = Some i1" "file_text fs1 ?c = []"
      "file_text fs1 ?cd = file_text fs ?c" "\<forall>m. m \<notin> {?c, ?cd, ?cw} \<longrightarrow> file_text fs1 m = file_text fs m \<and> fs_names fs1 m = fs_names fs m"
    using rotate_fair[OF fsok assms(2) _ nm_def nm_def nm_def distinct(1), of h] l(4,5) by (auto simp: nm_def)
  have kh: "k \<noteq> fs_streams fs" using fsok l(7) by (auto simp: fs_ok_def)
  have open1: "fs_open fs1 k = Some j" using 1(3) l(7,9) kh by simp
  have names1: "fs_names fs1 ?e = Some j" using 1(7) distinct(5) l(8) by (simp add: nm_def)
  obtain fs2 i2 where 2: "fileLogRotate env (Stream k) n ''_Error'' x (le_date env) fs1 = Inr (Stream (fs_streams fs1), fs2)" "fs_ok fs2"
      "fs_open fs2 = (fs_open fs1)(k := None, fs_streams fs1 \<mapsto> i2)" "fs_names fs2 ?e = Some i2" "file_text fs2 ?e = []"
      "file_text fs2 ?ed = file_text fs1 ?e" "\<forall>m. m \<notin> {?e, ?ed, ?ew} \<longrightarrow> file_text fs2 m = file_text fs1 m \<and> fs_names fs2 m = fs_names fs1 m"
    using rotate_fair[OF 1(2) assms(2) _ nm_def nm_def nm_def distinct(2), of k] open1 names1 by auto
  have "fs_streams fs < fs_streams fs1" using 1(2,3) unfolding fs_ok_def by (metis fun_upd_same)
  then have new: "fs_streams fs \<noteq> fs_streams fs1" by simp
  have open2: "fs_open fs2 (fs_streams fs) = Some i1" "fs_open fs2 (fs_streams fs1) = Some i2" using 1(3) 2(3) kh new by simp_all
  have names2: "fs_names fs2 ?c = Some i1" using 2(7) distinct(3) 1(4) by simp
  have rot: "rotate_entry True env e fs = Inr (e\<lparr> lf_commonFd := Some (Stream (fs_streams fs)), lf_errorFd := Some (Stream (fs_streams fs1)) \<rparr>, fs2)"
    using 1(1) 2(1) by (simp add: rotate_entry_def rotate_stream_def l(1-3,6))
  have f: "common_file d = ?c" "error_file d = ?e" "dated_file d ''_Common'' (le_date env) = ?cd" "dated_file d ''_Error'' (le_date env) = ?ed"
    using len by (simp_all add: common_file_def error_file_def dated_file_def s nm)
  have "file_text fs2 ?c = []" "file_text fs2 ?cd = file_text fs ?c" "file_text fs2 ?ed = file_text fs ?e"
    using 2(5-7) 1(5-7) distinct by auto
  moreover have "distinct [?c, ?e, ?cd, ?ed]" using distinct by auto
  ultimately show thesis using that[OF rot 2(2) open2] names2 2(4,5) unfolding f by blast
qed

text \<open>C29: At the first message of a new day the dual driver keeps what a destination's files hold under dated names and
  begins them anew with that message.\<close>

theorem dual_rotation_keeps_old_lines:
  assumes "logger_ok lg fs" and "fair env" and "dates_ok env" and "file_dest d" and "entry_for lg d e" and "linked e fs"
    and "lg_date lg \<noteq> le_date env" and "head_fits env lg md lvl src line"
  shows "\<exists>lg1 fs1. dualFileLogText env lg (Some d) md lvl src line message fs = Inr (None, lg1, fs1) \<and> lg_date lg1 = le_date env
    \<and> file_text fs1 (dated_file d ''_Common'' (le_date env)) = file_text fs (common_file d)
    \<and> file_text fs1 (dated_file d ''_Error'' (le_date env)) = file_text fs (error_file d)
    \<and> file_text fs1 (common_file d) = log_line env lg md lvl src line message
    \<and> file_text fs1 (error_file d) = (if is_error_level lvl then log_line env lg md lvl src line message else [])"
proof -
  obtain a b i1 i2 fs2 where 2: "rotate_entry True env e fs = Inr (e\<lparr> lf_commonFd := Some (Stream a), lf_errorFd := Some (Stream b) \<rparr>, fs2)"
      "fs_ok fs2" "fs_open fs2 a = Some i1" "fs_open fs2 b = Some i2"
      "fs_names fs2 (common_file d) = Some i1" "fs_names fs2 (error_file d) = Some i2"
      "file_text fs2 (common_file d) = []" "file_text fs2 (error_file d) = []"
      "file_text fs2 (dated_file d ''_Common'' (le_date env)) = file_text fs (common_file d)"
      "file_text fs2 (dated_file d ''_Error'' (le_date env)) = file_text fs (error_file d)"
      "distinct [common_file d, error_file d, dated_file d ''_Common'' (le_date env), dated_file d ''_Error'' (le_date env)]"
    by (rule rotate_entry_fair[OF assms(1-6)])
  define e1 where "e1 = e\<lparr> lf_commonFd := Some (Stream a), lf_errorFd := Some (Stream b) \<rparr>"
  define lg1 where "lg1 = lg\<lparr> lg_date := le_date env, lg_logFiles := map_option (set_entry e1) (lg_logFiles lg) \<rparr>"
  have day: "day_change True env e lg fs = Inr (e1, lg1, fs2)" using assms(7) 2(1) by (simp add: day_change_def lg1_def e1_def)
  let ?s = "fit BUFFER_LENGTH (head_of env lg md lvl src line @ message)"
  have build: "fileLogBuildLine env BUFFER_LENGTH (lg_logFormat lg1) (lg_applicationName lg1) md lvl src line message = Inr (None, ?s)"
    by (rule build_for[OF assms(1,8)]) (simp_all add: lg1_def)
  obtain fs3 where 3: "(if is_error_level lvl then fileLogWrite env (Stream b) ?s fs2 else Inr (None, fs2)) = Inr (None, fs3)"
      "fs_ok fs3" "fs_open fs3 = fs_open fs2" "fs_names fs3 = fs_names fs2"
      "\<forall>m. file_text fs3 m = file_text fs2 m @ (if m = error_file d \<and> is_error_level lvl then ?s @ [LINE_END] else [])"
    using append_named[OF 2(2) assms(2) 2(4,6), of ?s] 2(2) by (cases "is_error_level lvl") auto
  obtain fs4 where 4: "fileLogWrite env (Stream a) ?s fs3 = Inr (None, fs4)"
      "\<forall>m. file_text fs4 m = file_text fs3 m @ (if m = common_file d then ?s @ [LINE_END] else [])"
    using append_named[OF 3(2) assms(2), of a i1 "common_file d" ?s] 2(3,5) 3(3,4) by auto
  have "dualFileLogText env lg (Some d) md lvl src line message fs = Inr (None, lg1, fs4)"
    using find_entry_present[OF assms(1,5), of True env] day build 3(1) 4(1)
    by (simp add: dualFileLogText_def log_destination_file[OF assms(4)] e1_def)
  moreover have "file_text fs4 (dated_file d ''_Common'' (le_date env)) = file_text fs (common_file d)"
      "file_text fs4 (dated_file d ''_Error'' (le_date env)) = file_text fs (error_file d)" "file_text fs4 (common_file d) = ?s @ [LINE_END]"
      "file_text fs4 (error_file d) = (if is_error_level lvl then ?s @ [LINE_END] else [])"
    using 4(2) 3(5) 2(7-11) by auto
  ultimately show ?thesis by (intro exI[of _ lg1] exI[of _ fs4]) (simp add: log_line_def lg1_def)
qed

text \<open>The driver with one file per destination opens the common file of the dual driver but rotates the file without a
  suffix: from the first new day on its messages go to another file, and the file they went to is never renamed.\<close>

theorem file_rotation_changes_file:
  assumes "logger_ok lg fs" and "fair env" and "dates_ok env" and "file_dest d" and "entry_for lg d e" and "linked e fs"
    and "lg_date lg \<noteq> le_date env" and "head_fits env lg md lvl src line"
  shows "\<exists>lg1 fs1. fileLogText env lg (Some d) md lvl src line message fs = Inr (None, lg1, fs1)
    \<and> file_text fs1 (common_file d) = file_text fs (common_file d) \<and> common_file d \<noteq> full_dest d
    \<and> file_text fs1 (full_dest d) = log_line env lg md lvl src line message"
proof -
  obtain n x where s: "split_name (full_dest d) = (n, x)" by (cases "split_name (full_dest d)")
  note names = stream_name_dest[OF assms(4) s]
  obtain h i where l: "lf_fileName e = Some n" "lf_fileExtension e = Some x" "lf_commonFd e = Some (Stream h)" "fs_open fs h = Some i"
    using linked_handles[OF assms(1,5,6) s] by blast
  define nm where "nm sp = stream_name n sp x" for sp
  have nm: "nm sp = n @ sp @ ''.'' @ x" if "length sp \<le> 25" for sp using names[OF that] by (simp add: nm_def)
  let ?c = "nm []" and ?cd = "nm ([] @ ''_'' @ le_date env)" and ?cw = "nm ([] @ ''_'' @ le_weekAgo env)" and ?o = "nm ''_Common''"
  have len: "length (le_date env) = 10" "length (le_weekAgo env) = 10" "le_date env \<noteq> le_weekAgo env" using assms(3) by (simp_all add: dates_ok_def)
  have "le_date env \<noteq> ''Common''" "le_weekAgo env \<noteq> ''Common''" using len by auto
  then have distinct: "distinct [?c, ?cd, ?cw]" "?o \<notin> {?c, ?cd, ?cw}" using len by (auto simp: nm)
  have fsok: "fs_ok fs" using logger_okD(3)[OF assms(1)] .
  have h: "h \<in> dom (fs_open fs)" using l(4) by auto
  obtain fs1 i1 where 1: "fileLogRotate env (Stream h) n [] x (le_date env) fs = Inr (Stream (fs_streams fs), fs1)" "fs_ok fs1"
      "fs_open fs1 = (fs_open fs)(h := None, fs_streams fs \<mapsto> i1)" "fs_names fs1 ?c = Some i1" "file_text fs1 ?c = []"
      "\<forall>m. m \<notin> {?c, ?cd, ?cw} \<longrightarrow> file_text fs1 m = file_text fs m \<and> fs_names fs1 m = fs_names fs m"
    using rotate_fair[OF fsok assms(2) h nm_def nm_def nm_def distinct(1)] by blast
  define e1 where "e1 = e\<lparr> lf_commonFd := Some (Stream (fs_streams fs)) \<rparr>"
  have rot: "rotate_entry False env e fs = Inr (e1, fs1)" using 1(1) by (simp add: rotate_entry_def rotate_stream_def l(1-3) e1_def)
  define lg1 where "lg1 = lg\<lparr> lg_date := le_date env, lg_logFiles := map_option (set_entry e1) (lg_logFiles lg) \<rparr>"
  have day: "day_change False env e lg fs = Inr (e1, lg1, fs1)" using assms(7) rot by (simp add: day_change_def lg1_def)
  let ?s = "fit BUFFER_LENGTH (head_of env lg md lvl src line @ message)"
  have build: "fileLogBuildLine env BUFFER_LENGTH (lg_logFormat lg1) (lg_applicationName lg1) md lvl src line message = Inr (None, ?s)"
    by (rule build_for[OF assms(1,8)]) (simp_all add: lg1_def)
  obtain fs2 where 2: "fileLogWrite env (Stream (fs_streams fs)) ?s fs1 = Inr (None, fs2)"
      "\<forall>m. file_text fs2 m = file_text fs1 m @ (if m = ?c then ?s @ [LINE_END] else [])"
    using append_named[OF 1(2) assms(2), of "fs_streams fs" i1 ?c ?s] 1(3,4) by auto
  have "fileLogText env lg (Some d) md lvl src line message fs = Inr (None, lg1, fs2)"
    using find_entry_present[OF assms(1,5), of False env] day build 2(1)
    by (simp add: fileLogText_def log_destination_file[OF assms(4)] e1_def)
  moreover have "common_file d = ?o" by (simp add: common_file_def s nm)
  moreover have "full_dest d = ?c" using full_dest_split[OF s] by (simp add: nm)
  moreover have "file_text fs2 ?o = file_text fs ?o" "file_text fs2 ?c = ?s @ [LINE_END]" using 2(2) 1(5,6) distinct by auto
  ultimately show ?thesis using distinct(2) by (intro exI[of _ lg1] exI[of _ fs2]) (simp add: log_line_def)
qed

subsection \<open>Faults and lost messages\<close>

text \<open>Before a default logger is created, a message without a logger prints a buffer nobody wrote.\<close>

lemma default_logger_prints_garbage:
  assumes "lp_default prog = 0" and "lp_loggers prog 0 = Some sDefaultLogger"
  shows "log_logText env None dest m l src line message prog = Inl UninitRead"
  using assms by (simp add: log_logText_def fileLogText_def find_entry_def sDefaultLogger_def)

text \<open>The clean-up of a failed creation frees the application's name, and the caller frees it again.\<close>

lemma failed_mutex_frees_twice:
  assumes "le_logger env" and "le_table env (24 + 16 * 4)" and "strdup_ok env" and "le_mutex env \<noteq> 0"
  shows "fileCreate env LoggingDriverFile app args fs = Inl DanglingPtr"
proof -
  obtain t where "HashCreateTable (le_table env) 16 logFileHashTable_hash logFileHashTable_comp (Some logFileEntryDestroy) = Inr (Some t)"
    using assms(2) by (simp add: HashCreateTable_def Let_def)
  then show ?thesis using assms(1,3,4)
    by (simp add: fileCreate_def create_logger_def emalloc_def loggerCreateCommon_def strdup_ok_def Let_def free_block_def loggerDestroyCommon_def)
qed

text \<open>A destroyed default logger is still used.\<close>

lemma destroyed_default_is_used:
  assumes "log_destroy (lp_default prog) prog = Inr prog1"
  shows "log_logText env None dest m l src line message prog1 = Inl DanglingPtr"
  using assms by (auto simp: log_destroy_def log_logText_def cell_def res_iff)

text \<open>The console by another spelling is never found among the entries and cannot be added a second time: every
  message to it is lost with an error.\<close>

theorem console_spelled_differently_loses_messages:
  assumes "logger_ok lg fs" and "fair env" and "d \<noteq> []" and "same_nocase d LOG_DESTINATION_CONSOLE"
    and "\<forall>e \<in> set (ht_elems (table_of lg)). lf_fullName e \<noteq> d" and "\<exists>e \<in> set (ht_elems (table_of lg)). lf_fullName e = LOG_DESTINATION_CONSOLE"
  shows "\<exists>error lg1 fs1. dualFileLogText env lg (Some d) md lvl src line message fs = Inr (error, lg1, fs1) \<and> error \<noteq> None
    \<and> fs_stdout fs1 = fs_stdout fs \<and> fs_stderr fs1 = fs_stderr fs \<and> (\<forall>m. file_text fs1 m = file_text fs m) \<and> lg1 = lg"
proof -
  define t where "t = table_of lg"
  have t: "lg_logFiles lg = Some t" "log_table t fs" using logger_okD[OF assms(1)] by (simp_all add: t_def)
  note ht = log_table_nodes(1)[OF t(2)]
  have dest: "log_destination lg (Some d) = Some d" using assms(3,4) by (simp add: log_destination_def)
  have "ht_lookup t (name_key d) = None"
    using log_keys.lookup_Some_iff[OF ht, of "name_key d"] assms(5)
    by (cases "ht_lookup t (name_key d)") (auto simp: t_def logFileHashTable_comp_def name_key_def)
  then have find: "logFileHashTable_find t (Some d) = Inr None"
    using HashFind_wf[OF log_table_nodes(2)[OF t(2)]] by (simp add: logFileHashTable_find_def)
  define e where "e = \<lparr> lf_fullName = LOG_DESTINATION_CONSOLE, lf_fileName = None, lf_fileExtension = None,
    lf_commonFd = Some Stdout, lf_errorFd = Some Stderr \<rparr>"
  have c: "logFileEntryCreate env (Some d) True fs = Inr (None, Some e, fs)"
    using assms(2,4) by (simp add: logFileEntryCreate_def emalloc_def fair_def strdup_ok_def e_def)
  obtain e0 where "e0 \<in> set (ht_elems t)" "lf_fullName e0 = LOG_DESTINATION_CONSOLE" using assms(6) by (auto simp: t_def)
  then have "ht_lookup t e = Some e0" using log_keys.lookup_Some_iff[OF ht, of e e0] by (simp add: logFileHashTable_comp_def e_def)
  then have "HashAdd (le_node env) (le_sem env) t e = Inr (0, t)" using log_keys.add_present[OF ht] by blast
  moreover have "logFileEntryDestroy e fs = fs" by (simp add: logFileEntryDestroy_def close_entry_stream_def e_def)
  ultimately show ?thesis using find c t(1) by (simp add: dualFileLogText_def dest find_entry_def)
qed

text \<open>A message is written exactly when its level is at most the global or the module's level.\<close>

lemma LOG_filters:
  "\<not> level_number l \<le> level_number (lp_level prog) \<Longrightarrow> \<not> level_number l \<le> level_number ml \<Longrightarrow>
   LOG env ml lg dest m l src line message prog = Inr (None, prog)"
  by (simp add: LOG_def)

subsection \<open>Examples\<close>

definition demo_log_env :: log_env where
  "demo_log_env = \<lparr> le_allows = (\<lambda>_. True), le_takes = (\<lambda>_. True), le_logger = True, le_entry = True, le_strdup = (\<lambda>_. True),
     le_fullName = True, le_table = (\<lambda>_. True), le_node = Some 1, le_sem = True, le_mutex = 0, le_errno = None, le_time = ''noon'',
     le_millitm = 7, le_date = ''2024-01-02'', le_weekAgo = ''2023-12-26'', le_thread = 1 \<rparr>"

definition one_table :: "sLogFileEntry \<Rightarrow> (sLogFileEntry, files) Hasht" where
  "one_table e = \<lparr> ht_size = 1, ht_elementCount = 1, ht_calcIndx = logFileHashTable_hash, ht_compData = logFileHashTable_comp,
     ht_destrData = Some logFileEntryDestroy, ht_debugLevel = 0, ht_infoArray = [[\<lparr> hi_addr = 1, hi_data = e, hi_firstCursor = None \<rparr>]] \<rparr>"

definition demo_entry :: sLogFileEntry where
  "demo_entry = \<lparr> lf_fullName = ''app.log'', lf_fileName = Some ''app'', lf_fileExtension = Some ''log'',
     lf_commonFd = Some (Stream 0), lf_errorFd = Some (Stream 1) \<rparr>"

definition console_entry :: sLogFileEntry where
  "console_entry = \<lparr> lf_fullName = LOG_DESTINATION_CONSOLE, lf_fileName = None, lf_fileExtension = None,
     lf_commonFd = Some Stdout, lf_errorFd = Some Stderr \<rparr>"

definition demo_logger :: "LoggingDriver \<Rightarrow> sLogFileEntry \<Rightarrow> sLogger" where
  "demo_logger driver e = (logger_for ''app'')\<lparr> lg_driver := driver, lg_date := ''2024-01-01'', lg_logFiles := Some (one_table e) \<rparr>"

definition demo_files :: files where
  "demo_files = \<lparr> fs_names = [''app_Common.log'' \<mapsto> 0, ''app_Error.log'' \<mapsto> 1], fs_data = (\<lambda>i. if i = 0 then ''old'' else []),
     fs_inodes = 2, fs_open = [0 \<mapsto> 0, 1 \<mapsto> 1], fs_streams = 2, fs_stdout = [], fs_stderr = [] \<rparr>"

lemma demo_fair: "fair demo_log_env" "strdup_ok demo_log_env" "dates_ok demo_log_env"
  by (simp_all add: fair_def strdup_ok_def dates_ok_def demo_log_env_def)

lemma demo_table: "table_of (demo_logger driver e) = one_table e" "ht_elems (one_table e) = [e]" "table_handles (one_table e) = entry_handles e"
  by (simp_all add: demo_logger_def table_of_def ht_elems_def table_handles_def) (simp_all add: one_table_def ht_elems_def)

lemma demo_logger_ok:
  "logger_ok (demo_logger driver demo_entry) demo_files" "logger_ok (demo_logger driver console_entry) demo_files"
proof -
  have "fs_ok demo_files" by (auto simp: fs_ok_def demo_files_def inj_on_def split: if_splits)
  moreover have "ht_for logFileHashTable_hash logFileHashTable_comp (one_table e)" for e
    by (simp add: ht_for_def ht_wf_def one_table_def keys_differ_def)
  moreover have tb: "log_table (one_table e) demo_files" if "distinct (entry_handles e)" "set (entry_handles e) \<subseteq> {0, 1}" "entry_named e" for e
    using that calculation(2)[of e] by (simp add: log_table_def demo_table) (auto simp: one_table_def demo_files_def)
  moreover have "log_table (one_table demo_entry) demo_files" "log_table (one_table console_entry) demo_files"
    by (rule tb; simp add: entry_handles_def handles_def entry_named_def demo_entry_def console_entry_def)+
  ultimately show "logger_ok (demo_logger driver demo_entry) demo_files" "logger_ok (demo_logger driver console_entry) demo_files"
    unfolding logger_ok_def demo_logger_def logger_for_def sDefaultLogger_def by simp_all
qed

lemma demo_head: "head_fits demo_log_env (demo_logger driver e) ''m'' l ''f.c'' 3" "head_fits demo_log_env (logger_for ''app'') ''m'' l ''f.c'' 3"
proof -
  have "length (LogLevelName l) < 10" by (cases l) simp_all
  then show "head_fits demo_log_env (demo_logger driver e) ''m'' l ''f.c'' 3" "head_fits demo_log_env (logger_for ''app'') ''m'' l ''f.c'' 3"
    by (simp_all add: head_fits_def head_of_def line_head_def print_3_def print_int_def digits.simps[of 7] digits.simps[of 1] digits.simps[of 3]
        digits.simps[of "Suc 0"] demo_log_env_def demo_logger_def logger_for_def sDefaultLogger_def)
qed

lemma demo_dest: "file_dest ''app.log''" "split_name (full_dest ''app.log'') = (''app'', ''log'')" "full_dest ''app.log'' = ''app.log''"
  by (simp_all add: file_dest_def full_dest_def split_name_def same_nocase_def)

lemma demo_linked: "linked demo_entry demo_files" "entry_for (demo_logger driver demo_entry) ''app.log'' demo_entry"
    "common_file ''app.log'' = ''app_Common.log''"
proof -
  show "linked demo_entry demo_files"
    by (simp add: linked_def demo_entry_def demo_files_def stream_name_def fit_def split_name_def)
  show "entry_for (demo_logger driver demo_entry) ''app.log'' demo_entry" by (simp add: entry_for_def demo_table demo_dest) (simp add: demo_entry_def)
  show "common_file ''app.log'' = ''app_Common.log''" by (simp add: common_file_def demo_dest(2))
qed

theorem logging_keeps_streams_open_witness:
  "\<exists>error prog1 lg1. log_logText demo_log_env (Some 1) (Some ''app.log'') ''m'' LOGLEVEL_ERROR ''src/f.c'' 3 ''hello''
      \<lparr> lp_files = demo_files, lp_loggers = [1 \<mapsto> demo_logger LoggingDriverDualFile demo_entry], lp_default = 1, lp_level = LOGLEVEL_INFO \<rparr> = Inr (error, prog1)
    \<and> logger_ok lg1 (lp_files prog1)"
proof -
  let ?lg = "demo_logger LoggingDriverDualFile demo_entry"
  let ?prog = "\<lparr> lp_files = demo_files, lp_loggers = [1 \<mapsto> ?lg], lp_default = 1, lp_level = LOGLEVEL_INFO \<rparr>"
  have b: "base_name ''src/f.c'' = ''f.c''" by (simp add: base_name_def)
  have d: "log_destination ?lg (Some ''app.log'') = Some ''app.log''"
    using log_destination_file[OF demo_dest(1)] demo_dest(3) by simp
  have c: "int (length (ht_elems (table_of ?lg))) < INT_MAX" by (simp add: demo_table)
  have h: "\<not> BUFFER_LENGTH < length (head_of demo_log_env ?lg ''m'' LOGLEVEL_ERROR ''f.c'' 3)"
    using demo_head(1)[of LoggingDriverDualFile demo_entry LOGLEVEL_ERROR] unfolding head_fits_def by linarith
  have n: "\<not> (\<exists>s. \<not> le_strdup demo_log_env s)" by (simp add: demo_log_env_def)
  have p: "lp_loggers ?prog 1 = Some ?lg" "lp_files ?prog = demo_files" by simp_all
  show ?thesis
    using logging_keeps_streams_open[OF demo_logger_ok(1) c d p, of demo_log_env "''m''" LOGLEVEL_ERROR "''src/f.c''" 3 "''hello''"]
      h n unfolding b by blast
qed

theorem dual_rotation_keeps_old_lines_witness:
  "\<exists>lg1 fs1. dualFileLogText demo_log_env (demo_logger LoggingDriverDualFile demo_entry) (Some ''app.log'') ''m'' LOGLEVEL_ERROR ''f.c'' 3 ''hello'' demo_files
      = Inr (None, lg1, fs1) \<and> file_text fs1 ''app_Common_2024-01-02.log'' = ''old''"
proof -
  have "lg_date (demo_logger LoggingDriverDualFile demo_entry) \<noteq> le_date demo_log_env" by (simp add: demo_logger_def demo_log_env_def)
  note dual_rotation_keeps_old_lines[OF demo_logger_ok(1) demo_fair(1,3) demo_dest(1) demo_linked(2,1) this demo_head(1), of LOGLEVEL_ERROR "''hello''"]
  moreover have "dated_file ''app.log'' ''_Common'' (le_date demo_log_env) = ''app_Common_2024-01-02.log''"
    by (simp add: dated_file_def demo_dest(2) demo_log_env_def)
  moreover have "file_text demo_files (common_file ''app.log'') = ''old''" by (simp add: demo_linked(3) file_text_def demo_files_def)
  ultimately show ?thesis by auto
qed

theorem file_rotation_changes_file_witness:
  "\<exists>lg1 fs1. fileLogText demo_log_env (demo_logger LoggingDriverFile demo_entry) (Some ''app.log'') ''m'' LOGLEVEL_ERROR ''f.c'' 3 ''hello'' demo_files
      = Inr (None, lg1, fs1) \<and> file_text fs1 ''app_Common.log'' = ''old''"
proof -
  have "lg_date (demo_logger LoggingDriverFile demo_entry) \<noteq> le_date demo_log_env" by (simp add: demo_logger_def demo_log_env_def)
  note file_rotation_changes_file[OF demo_logger_ok(1) demo_fair(1,3) demo_dest(1) demo_linked(2,1) this demo_head(1), of LOGLEVEL_ERROR "''hello''"]
  moreover have "file_text demo_files (common_file ''app.log'') = ''old''" by (simp add: demo_linked(3) file_text_def demo_files_def)
  ultimately show ?thesis using demo_linked(3) by auto
qed

theorem console_spelled_differently_loses_messages_witness:
  "\<exists>error lg1 fs1. dualFileLogText demo_log_env (demo_logger LoggingDriverDualFile console_entry) (Some ''[Console]'') ''m'' LOGLEVEL_ERROR ''f.c'' 3 ''hello'' demo_files
      = Inr (error, lg1, fs1) \<and> error \<noteq> None \<and> fs_stdout fs1 = []"
proof -
  have "same_nocase ''[Console]'' LOG_DESTINATION_CONSOLE" by (simp add: same_nocase_def CText.tolower_def) code_simp
  moreover have "\<forall>e \<in> set (ht_elems (table_of (demo_logger LoggingDriverDualFile console_entry))). lf_fullName e \<noteq> ''[Console]''"
      "\<exists>e \<in> set (ht_elems (table_of (demo_logger LoggingDriverDualFile console_entry))). lf_fullName e = LOG_DESTINATION_CONSOLE"
    by (simp_all add: demo_table) (simp_all add: console_entry_def)
  ultimately show ?thesis
    using console_spelled_differently_loses_messages[OF demo_logger_ok(2) demo_fair(1), of "''[Console]''" LoggingDriverDualFile
        "''m''" LOGLEVEL_ERROR "''f.c''" 3 "''hello''"] by (fastforce simp: demo_files_def)
qed

text \<open>Two messages, the second a moment later from another thread and with another node.\<close>

definition demo_later :: log_env where
  "demo_later = demo_log_env\<lparr> le_time := ''tea time'', le_millitm := 9, le_thread := 2, le_node := Some 2 \<rparr>"

lemma demo_later_head: "head_fits demo_later (logger_for ''app'') ''m'' l ''f.c'' 3"
proof -
  have "length (LogLevelName l) < 10" by (cases l) simp_all
  then show ?thesis
    by (simp add: head_fits_def head_of_def line_head_def print_3_def print_int_def digits.simps[of 9] digits.simps[of 2] digits.simps[of 3]
        demo_later_def demo_log_env_def logger_for_def sDefaultLogger_def)
qed

theorem dual_logger_refines_lines_witness:
  "\<exists>fs3 :: files. fs_open fs3 = fs_open demo_files \<and> file_text fs3 ''app_Common.log''
     = ''old'' @ log_line demo_log_env (logger_for ''app'') ''m'' LOGLEVEL_ERROR ''f.c'' 3 ''hello''
         @ log_line demo_later (logger_for ''app'') ''m'' LOGLEVEL_INFO ''f.c'' 3 ''bye''"
proof -
  let ?m = "\<lparr> ms_env = demo_log_env, ms_dest = ''app.log'', ms_module = ''m'', ms_level = LOGLEVEL_ERROR, ms_file = ''f.c'', ms_line = 3, ms_text = ''hello'' \<rparr>"
  let ?n = "\<lparr> ms_env = demo_later, ms_dest = ''app.log'', ms_module = ''m'', ms_level = LOGLEVEL_INFO, ms_file = ''f.c'', ms_line = 3, ms_text = ''bye'' \<rparr>"
  have e: "le_logger demo_log_env" "le_mutex demo_log_env = 0" "le_table demo_log_env (24 + 16 * 4)" by (simp_all add: demo_log_env_def)
  have "fs_ok demo_files" using demo_logger_ok(1) by (simp add: logger_ok_def)
  moreover have "int (length [?m, ?n]) < INT_MAX" by simp
  moreover have "fair demo_later" "le_date demo_later = le_date demo_log_env"
    using demo_fair(1) by (simp_all add: demo_later_def fair_def strdup_ok_def)
  then have "\<forall>m \<in> set [?m, ?n]. fair (ms_env m) \<and> le_date (ms_env m) = le_date demo_log_env \<and> file_dest (ms_dest m)
      \<and> head_fits (ms_env m) (logger_for ''app'') (ms_module m) (ms_level m) (ms_file m) (ms_line m)"
    using demo_fair(1) demo_dest(1) demo_head(2) demo_later_head by simp
  ultimately obtain fs3 where "fs_open fs3 = fs_open demo_files"
      "\<forall>name. file_text fs3 name = file_text demo_files name @ lines_for (logger_for ''app'') name [?m, ?n]"
    using dual_logger_refines_lines[OF demo_fair(1) e _ demo_dest(1), of demo_files "[?m, ?n]" "''app''"] by blast
  moreover have "file_text demo_files ''app_Common.log'' = ''old''" by (simp add: file_text_def demo_files_def)
  ultimately show ?thesis using demo_linked(3) by (intro exI[of _ fs3]) (simp add: lines_for_def line_of_def)
qed

text \<open>The two faults are real: a refused \<open>strdup\<close>, and the name of a module that is longer than the buffer.\<close>

lemma refused_strdup_faults:
  assumes "\<not> same_nocase d LOG_DESTINATION_CONSOLE" and "\<not> le_strdup env d" and "le_entry env"
  shows "logFileEntryCreate env (Some d) dual fs = Inl NullDeref"
  using assms by (simp add: logFileEntryCreate_def emalloc_def Let_def)

lemma long_head_overflows:
  assumes "BUFFER_LENGTH < length m" and "le_time env \<noteq> []" and "length (le_time env) < BUFFER_LENGTH"
  shows "fileLogBuildLine env BUFFER_LENGTH LOGFORMAT_STANDARD (Block app) m l src line message = Inl OutOfBounds"
  using assms by (auto simp: fileLogBuildLine_def line_head_def Let_def)

text \<open>An empty name is a file without a name, not the console.\<close>

lemma empty_name_opens_file: "fair env \<Longrightarrow> logFileEntryCreate env (Some []) dual fs = open_entry env [] ''log'' fs"
  by (simp add: logFileEntryCreate_def emalloc_def fair_def strdup_ok_def same_nocase_def split_name_def)

end
