(* ===== verification/Path.thy ===== *)
theory Path
  imports Vector CText
begin

section \<open>Search paths\<close>

text \<open>
  \<open>src/path.c\<close>: a search path is split into a vector of directories, and a file is looked for in them in
  turn. The memory is a map from the addresses of blocks to their characters; a pointer is an address with
  an offset, because \<open>strsep\<close> moves the caller's pointer through the copy it cuts up. The struct and
  the array of the vector belong to its own model. \<open>fopen\<close> is an argument, a function on the client's world.
\<close>

subsection \<open>Memory\<close>

record path_mem =
  pm_next :: nat
  pm_blocks :: "nat \<rightharpoonup> string"

type_synonym path_ptr = "nat \<times> nat"

text \<open>
  The outcomes: which allocations are granted, those of \<open>vectorCreate\<close> (struct, name, two mutexes), the
  sizes of its array, those of an error, and \<open>errno\<close>.
\<close>

record path_env =
  pe_alloc :: "nat \<Rightarrow> bool"
  pe_vector :: "bool \<times> bool \<times> bool \<times> bool"
  pe_avail :: allocator
  pe_errOk :: "bool \<times> bool"
  pe_errno :: int

abbreviation PATH_DELIM :: char where "PATH_DELIM \<equiv> CHR '':''"
abbreviation DIR_DELIM :: char where "DIR_DELIM \<equiv> CHR ''/''"

text \<open>Taking a block with the given characters, giving one back, and the text a pointer stands for.\<close>

definition new_block :: "path_env \<Rightarrow> string \<Rightarrow> path_mem \<Rightarrow> nat option \<times> path_mem" where
  "new_block env cs m =
     (let a = pm_next m in
      if pe_alloc env a then (Some a, m\<lparr> pm_next := a + 1, pm_blocks := (pm_blocks m)(a \<mapsto> cs) \<rparr>)
      else (None, m\<lparr> pm_next := a + 1 \<rparr>))"

definition release :: "nat \<Rightarrow> path_mem \<Rightarrow> path_mem" where
  "release a m = m\<lparr> pm_blocks := (pm_blocks m)(a := None) \<rparr>"

definition path_free :: "path_ptr \<Rightarrow> path_mem \<Rightarrow> path_mem res" where
  "path_free p m =
     (if snd p = 0 \<and> pm_blocks m (fst p) \<noteq> None then Inr (release (fst p) m) else Inl DanglingPtr)"

definition path_text :: "path_ptr \<Rightarrow> path_mem \<Rightarrow> string res" where
  "path_text p m =
     rbind (cell (pm_blocks m) (fst p)) (\<lambda>b.
     let s = drop (snd p) b in if NUL \<in> set s then Inr (takeWhile (\<lambda>c. c \<noteq> NUL) s) else Inl OutOfBounds)"

subsection \<open>Splitting\<close>

text \<open>
  \<open>path_separate\<close>: the token, the caller's pointer behind it, and the memory, in which a NUL has taken
  the place of the delimiter.
\<close>

definition path_separate ::
  "path_ptr option \<Rightarrow> path_mem \<Rightarrow> (path_ptr option \<times> path_ptr option \<times> path_mem) res" where
  "path_separate path m =
     (case path of
        None \<Rightarrow> Inr (None, None, m)
      | Some p \<Rightarrow>
          rbind (path_text p m) (\<lambda>s.
          rbind (cell (pm_blocks m) (fst p)) (\<lambda>b.
          case strsep [PATH_DELIM] s of
            (token, None) \<Rightarrow> Inr (Some p, None, m)
          | (token, Some rest) \<Rightarrow>
              let k = snd p + length token
              in Inr (Some p, Some (fst p, k + 1), m\<lparr> pm_blocks := (pm_blocks m)(fst p \<mapsto> b[k := NUL]) \<rparr>))))"

definition path_left :: "path_ptr option \<Rightarrow> path_mem \<Rightarrow> nat" where
  "path_left path m =
     (case path of
        None \<Rightarrow> 0
      | Some p \<Rightarrow> (case pm_blocks m (fst p) of None \<Rightarrow> 0 | Some b \<Rightarrow> Suc (length (drop (snd p) b))))"

lemma strsep_shorter: "strsep ds s = (token, Some rest) \<Longrightarrow> length token < length s"
proof -
  assume "strsep ds s = (token, Some rest)"
  then obtain d where "dropWhile (\<lambda>c. c \<notin> set ds) s = d # rest" "token = takeWhile (\<lambda>c. c \<notin> set ds) s"
    by (auto simp: strsep_def split: list.splits)
  then show ?thesis using arg_cong[OF takeWhile_dropWhile_id[of "\<lambda>c. c \<notin> set ds" s], of length] by simp
qed

lemma takeWhile_stops: "x \<in> set xs \<Longrightarrow> \<not> P x \<Longrightarrow> length (takeWhile P xs) < length xs"
  by (induction xs) auto

lemma path_left_shrinks:
  assumes "path_separate path m = Inr (Some d, path1, m1)" and "path_text d m1 = Inr s"
    and "new_block env (s @ [NUL]) m1 = (Some c, m2)"
  shows "path_left path1 m2 < path_left path m"
proof -
  obtain p where p: "path = Some p" using assms(1) by (cases path) (auto simp: path_separate_def)
  obtain t b where t: "path_text p m = Inr t" and b: "pm_blocks m (fst p) = Some b"
    using assms(1) unfolding p by (auto simp: path_separate_def res_iff)
  obtain token r where tr: "strsep [PATH_DELIM] t = (token, r)" by (cases "strsep [PATH_DELIM] t")
  show ?thesis
  proof (cases r)
    case None
    then show ?thesis using assms(1) tr t b by (auto simp: p path_separate_def path_left_def)
  next
    case (Some rest)
    let ?k = "snd p + length token"
    have d: "d = p" "path1 = Some (fst p, ?k + 1)" "m1 = m\<lparr> pm_blocks := (pm_blocks m)(fst p \<mapsto> b[?k := NUL]) \<rparr>"
      using assms(1) tr t b by (auto simp: p path_separate_def Let_def Some)
    have room: "?k < length b"
    proof -
      have t1: "t = takeWhile (\<lambda>c. c \<noteq> NUL) (drop (snd p) b)"
        using t b by (auto simp: path_text_def Let_def split: if_splits)
      have "length t \<le> length (drop (snd p) b)" unfolding t1 by (rule length_takeWhile_le)
      then show ?thesis using strsep_shorter[OF tr[unfolded Some]] by simp
    qed
    have s: "length s < length b - snd p"
    proof -
      let ?b = "drop (snd p) (b[?k := NUL])"
      have s1: "s = takeWhile (\<lambda>c. c \<noteq> NUL) ?b" and e: "NUL \<in> set ?b"
        using assms(2) unfolding d by (auto simp: path_text_def Let_def split: if_splits)
      have "length s < length ?b" unfolding s1 using e by (intro takeWhile_stops[of NUL]) auto
      then show ?thesis by simp
    qed
    show ?thesis
      using assms(3) room s by (auto simp: d p b path_left_def new_block_def Let_def split: if_splits)
  qed
qed

text \<open>
  \<open>path_parse\<close>: the loop and the exit. The error, what is in \<open>*pathVec\<close>, and the pointer the exit frees,
  which is no longer the start of the copy. The caller's vector is NULL where it could not be created.
\<close>

type_synonym path_vector = "(nat, path_mem) sVector"

definition path_error :: "path_env \<Rightarrow> string \<Rightarrow> Error res" where
  "path_error env t = ErrNew (fst (pe_errOk env)) (snd (pe_errOk env)) ERR_ERRNO (pe_errno env) None t"

function path_loop ::
  "path_env \<Rightarrow> path_vector option \<Rightarrow> path_ptr option \<Rightarrow> path_mem
    \<Rightarrow> (Error \<times> path_vector option \<times> path_ptr option \<times> path_mem) res" where
  "path_loop env pathVec pathCopy m =
     rbind (path_separate pathCopy m) (\<lambda>(nextDir, pathCopy1, m1).
     case nextDir of
       None \<Rightarrow> Inr (None, pathVec, pathCopy1, m1)
     | Some d \<Rightarrow>
         rbind (path_text d m1) (\<lambda>s.
         case new_block env (s @ [NUL]) m1 of
           (None, m2) \<Rightarrow>
             rbind (path_error env ''path_parse: strdup failed when copying path'') (\<lambda>error.
             Inr (error, pathVec, pathCopy1, m2))
         | (Some nextDirCopy, m2) \<Rightarrow>
             rbind (deref pathVec) (\<lambda>v.
             rbind (vectorAppendPtr (pe_avail env) v nextDirCopy) (\<lambda>(_, v1).
             path_loop env (Some v1) pathCopy1 m2))))"
  by pat_completeness auto
termination
  by (relation "measure (\<lambda>(_, _, path, m). path_left path m)") (auto intro: path_left_shrinks[OF _ _ sym])

declare path_loop.simps [simp del]

definition path_parse ::
  "path_env \<Rightarrow> string option \<Rightarrow> path_vector option \<Rightarrow> path_mem \<Rightarrow> (Error \<times> path_vector option \<times> path_mem) res" where
  "path_parse env path pathVec m =
     (case path of
        None \<Rightarrow> Inr (None, None, m)
      | Some s \<Rightarrow>
          rbind (case new_block env (s @ [NUL]) m of
                   (None, m1) \<Rightarrow>
                     rbind (path_error env ''path_parse: strdup failed when creating temporary copy'') (\<lambda>error.
                     Inr (error, pathVec, None, m1))
                 | (Some a, m1) \<Rightarrow>
                     (case pe_vector env of (structOk, nameOk, lockOk, refLockOk) \<Rightarrow>
                      rbind (vectorCreate structOk nameOk (pe_avail env) lockOk refLockOk (Some ''path vector'')
                               sizeof_voidp 1 1 (Some release)) (\<lambda>v.
                      path_loop env v (Some (a, 0)) m1)))
            (\<lambda>(error, pathVec1, pathCopy, m2).
             rbind (case pathCopy of None \<Rightarrow> Inr m2 | Some p \<Rightarrow> path_free p m2) (\<lambda>m3.
             Inr (error, pathVec1, m3))))"

subsection \<open>Joining and opening\<close>

text \<open>
  \<open>snprintf\<close> writes through the result of \<open>malloc\<close>, which is not checked. The block has the size of the text
  with its NUL.
\<close>

definition path_join :: "char \<Rightarrow> path_env \<Rightarrow> string \<Rightarrow> string \<Rightarrow> path_mem \<Rightarrow> (nat \<times> path_mem) res" where
  "path_join delim env a b m =
     (let resultLen = length a + 1 + length b + 1 in
      case new_block env (take (resultLen - 1) (a @ [delim] @ b) @ [NUL]) m of
        (None, m1) \<Rightarrow> Inl NullDeref
      | (Some r, m1) \<Rightarrow> Inr (r, m1))"

definition path_concat_path :: "path_env \<Rightarrow> string \<Rightarrow> string \<Rightarrow> path_mem \<Rightarrow> (nat \<times> path_mem) res" where
  "path_concat_path env path str m = path_join PATH_DELIM env path str m"

definition path_concat_dir :: "path_env \<Rightarrow> string \<Rightarrow> string \<Rightarrow> path_mem \<Rightarrow> (nat \<times> path_mem) res" where
  "path_concat_dir env dir str m = path_join DIR_DELIM env dir str m"

type_synonym 'w fopen = "string \<Rightarrow> string \<Rightarrow> 'w \<Rightarrow> nat option \<times> 'w"

function fopen_loop ::
  "path_env \<Rightarrow> 'w fopen \<Rightarrow> string \<Rightarrow> string \<Rightarrow> path_vector \<Rightarrow> int \<Rightarrow> nat option \<Rightarrow> 'w \<Rightarrow> path_mem
    \<Rightarrow> (nat option \<times> 'w \<times> path_mem) res" where
  "fopen_loop env fopen name mode v i f w m =
     (if i < vectorGetElementCount v \<and> f = None then
        rbind (vectorGetElementAt v i) (\<lambda>d.
        rbind (path_text (d, 0) m) (\<lambda>dir.
        rbind (path_concat_dir env dir name m) (\<lambda>(r, m1).
        rbind (path_text (r, 0) m1) (\<lambda>fullName.
        case fopen fullName mode w of (f1, w1) \<Rightarrow>
          rbind (path_free (r, 0) m1) (\<lambda>m2. fopen_loop env fopen name mode v (i + 1) f1 w1 m2)))))
      else Inr (f, w, m))"
  by pat_completeness auto
termination
  by (relation "measure (\<lambda>(_, _, _, _, v, i, _). nat (vectorGetElementCount v - i))") auto

declare fopen_loop.simps [simp del]

text \<open>At the exit only the struct of the vector is freed, not what it holds.\<close>

definition path_fopen ::
  "path_env \<Rightarrow> 'w fopen \<Rightarrow> string option \<Rightarrow> string option \<Rightarrow> string \<Rightarrow> 'w \<Rightarrow> path_mem
    \<Rightarrow> (nat option \<times> 'w \<times> path_mem) res" where
  "path_fopen env fopen path name mode w m =
     (case name of
        None \<Rightarrow> Inr (None, w, m)
      | Some n \<Rightarrow>
          if path = None then Inr (None, w, m)
          else
            rbind (path_parse env path None m) (\<lambda>(err, pathVec, m1).
            if err \<noteq> None then Inr (None, w, m1)
            else rbind (deref pathVec) (\<lambda>v. fopen_loop env fopen n mode v 0 None w m1)))"

subsection \<open>What they promise\<close>

text \<open>The directories of a path, and the first file that opens.\<close>

fun path_dirs :: "string \<Rightarrow> string list" where
  "path_dirs [] = [[]]"
| "path_dirs (c # cs) =
     (if c = PATH_DELIM then [] # path_dirs cs
      else (case path_dirs cs of [] \<Rightarrow> [[c]] | d # ds \<Rightarrow> (c # d) # ds))"

fun first_open :: "'w fopen \<Rightarrow> string \<Rightarrow> string \<Rightarrow> string list \<Rightarrow> 'w \<Rightarrow> nat option \<times> 'w" where
  "first_open fopen name mode [] w = (None, w)"
| "first_open fopen name mode (d # ds) w =
     (case fopen (d @ [DIR_DELIM] @ name) mode w of
        (Some f, w1) \<Rightarrow> (Some f, w1)
      | (None, w1) \<Rightarrow> first_open fopen name mode ds w1)"

text \<open>Everything the two functions ask for is granted; the memory hands out fresh blocks.\<close>

definition path_granted :: "path_env \<Rightarrow> bool" where
  "path_granted env \<longleftrightarrow>
     (\<forall>a. pe_alloc env a) \<and> pe_vector env = (True, True, True, True) \<and> (\<forall>n. pe_avail env n)"

definition path_fresh :: "path_mem \<Rightarrow> bool" where
  "path_fresh m \<longleftrightarrow> (\<forall>a. pm_blocks m a \<noteq> None \<longrightarrow> a < pm_next m)"

lemma path_dirs_nonempty [simp]: "path_dirs s \<noteq> []"
  by (cases s) (auto split: list.split)

lemma path_dirs_append: "path_dirs (a @ [PATH_DELIM] @ b) = path_dirs a @ path_dirs b"
  by (induction a) (auto split: list.splits)

lemma path_dirs_plain: "PATH_DELIM \<notin> set s \<Longrightarrow> path_dirs s = [s]"
  by (induction s) auto

lemma strsep_path:
  "strsep [PATH_DELIM] s = (token, None) \<Longrightarrow> token = s \<and> path_dirs s = [s]"
  "strsep [PATH_DELIM] s = (token, Some rest) \<Longrightarrow>
     s = token @ [PATH_DELIM] @ rest \<and> PATH_DELIM \<notin> set token \<and> path_dirs s = token # path_dirs rest"
proof -
  have split: "dropWhile (\<lambda>c. c \<notin> set [PATH_DELIM]) s = d # r \<Longrightarrow>
      d = PATH_DELIM \<and> s = takeWhile (\<lambda>c. c \<notin> set [PATH_DELIM]) s @ [PATH_DELIM] @ r" for d r
    using takeWhile_dropWhile_id[of "\<lambda>c. c \<notin> set [PATH_DELIM]" s] hd_dropWhile[of "\<lambda>c. c \<notin> set [PATH_DELIM]" s] by simp
  show "strsep [PATH_DELIM] s = (token, None) \<Longrightarrow> token = s \<and> path_dirs s = [s]"
  proof -
    assume "strsep [PATH_DELIM] s = (token, None)"
    then have "dropWhile (\<lambda>c. c \<notin> set [PATH_DELIM]) s = []" "token = s" by (auto simp: strsep_def split: list.splits)
    then have "token = s" "PATH_DELIM \<notin> set s" unfolding dropWhile_eq_Nil_conv by auto
    then show ?thesis using path_dirs_plain by simp
  qed
  assume "strsep [PATH_DELIM] s = (token, Some rest)"
  then have "\<exists>d. dropWhile (\<lambda>c. c \<notin> set [PATH_DELIM]) s = d # rest \<and> token = takeWhile (\<lambda>c. c \<notin> set [PATH_DELIM]) s"
    unfolding strsep_def by (auto simp del: set_simps split: list.split_asm)
  then obtain d where d: "dropWhile (\<lambda>c. c \<notin> set [PATH_DELIM]) s = d # rest"
    and t: "token = takeWhile (\<lambda>c. c \<notin> set [PATH_DELIM]) s" by blast
  have s: "s = token @ [PATH_DELIM] @ rest" using split[OF d] unfolding t by blast
  have n: "PATH_DELIM \<notin> set token" unfolding t by (auto dest: set_takeWhileD)
  moreover have "path_dirs s = token # path_dirs rest"
    unfolding s path_dirs_append using path_dirs_plain[OF n] by simp
  ultimately show "s = token @ [PATH_DELIM] @ rest \<and> PATH_DELIM \<notin> set token \<and> path_dirs s = token # path_dirs rest"
    using s by blast
qed

lemma length_path_dirs: "length (path_dirs s) \<le> length s + 1"
  by (induction s) (auto split: list.split)

subsection \<open>Splitting a path\<close>

lemma new_block_granted:
  "path_granted env \<Longrightarrow> new_block env cs m = (Some (pm_next m), m\<lparr> pm_next := pm_next m + 1, pm_blocks := (pm_blocks m)(pm_next m \<mapsto> cs) \<rparr>)"
  by (simp add: new_block_def path_granted_def Let_def)

lemma path_text_at:
  assumes "pm_blocks m a = Some (pre @ s @ NUL # rest)" and "NUL \<notin> set s" and "i = length pre"
  shows "path_text (a, i) m = Inr s"
proof -
  have "takeWhile (\<lambda>c. c \<noteq> NUL) (s @ NUL # rest) = s"
    using assms(2) by (induction s) auto
  then show ?thesis using assms by (simp add: path_text_def Let_def)
qed

lemma separate_last:
  assumes "pm_blocks m a = Some (pre @ s @ NUL # rest)" and "NUL \<notin> set s" and "i = length pre"
    and "strsep [PATH_DELIM] s = (token, None)"
  shows "path_separate (Some (a, i)) m = Inr (Some (a, i), None, m)"
  using assms(1,4) path_text_at[OF assms(1-3)] by (simp add: path_separate_def)

lemma separate_more:
  assumes "pm_blocks m a = Some (pre @ s @ NUL # rest)" and "NUL \<notin> set s" and "i = length pre"
    and "strsep [PATH_DELIM] s = (token, Some s1)"
  shows "path_separate (Some (a, i)) m = Inr (Some (a, i), Some (a, i + length token + 1),
      m\<lparr> pm_blocks := (pm_blocks m)(a \<mapsto> (pre @ token @ [NUL]) @ s1 @ NUL # rest) \<rparr>)"
  using assms(1,3,4) path_text_at[OF assms(1-3)] strsep_path(2)[OF assms(4)]
  by (simp add: path_separate_def list_update_append)

text \<open>The vector of the path: its capacity, which grows by one, is never ahead of the count.\<close>

definition dirs_vector :: "path_vector \<Rightarrow> nat list \<Rightarrow> bool" where
  "dirs_vector v xs \<longleftrightarrow>
     vec_holds v xs \<and> v_elementSize v = sizeof_voidp \<and> v_capacityIncrement v = 1
     \<and> v_capacity v \<le> max 1 (int (length xs)) \<and> v_destroyFunc v = Some release"

lemma dirs_vector_append:
  assumes "dirs_vector v xs" and "path_granted env" and "4 * (length xs + 1) < SIZE_T_MOD"
  shows "\<exists>v1. vectorAppendPtr (pe_avail env) v a = Inr (int (length xs), v1) \<and> dirs_vector v1 (xs @ [a])"
proof -
  have h: "vec_holds v xs" and e: "v_elementSize v = sizeof_voidp" "v_capacityIncrement v = 1" "v_capacity v \<le> max 1 (int (length xs))"
    using assms(1) by (auto simp: dirs_vector_def)
  have grow: "int (length xs) = v_capacity v \<longrightarrow> vec_can_grow (pe_avail env) v"
    using e assms(2,3) by (auto simp: vec_can_grow_def block_fits_def path_granted_def Let_def)
  obtain v1 where v1: "vectorAppend (pe_avail env) v a = Inr (int (length xs), v1)" "vec_holds v1 (xs @ [a])"
    "v_elementSize v1 = v_elementSize v" "v_destroyFunc v1 = v_destroyFunc v"
    using vectorAppend_holds[OF h grow] by blast
  moreover have "v_capacityIncrement v1 = 1 \<and> v_capacity v1 \<le> max 1 (int (length xs) + 1)"
    using v1(1) e vec_holds_count[OF h]
    by (auto simp: vectorAppend_def increaseCapacity_def res_iff Let_def split: if_splits)
  ultimately show ?thesis
    using e assms(1) vectorAppendPtr_eq[OF e(1)] by (auto simp: dirs_vector_def)
qed

lemma path_loop_end: "path_loop env v None m = Inr (None, v, None, m)"
  by (subst path_loop.simps) (simp add: path_separate_def)

text \<open>
  The loop from a place in the copy: what is left of the text goes, directory by directory, into blocks
  of its own, and no other block but the copy changes.
\<close>

lemma path_loop_splits:
  assumes "path_granted env" and "dirs_vector v xs" and "pm_blocks m a = Some (pre @ s @ NUL # rest)" and "NUL \<notin> set s"
    and "i = length pre" and "a < pm_next m" and "4 * (length xs + length s + 1) < SIZE_T_MOD"
  shows "\<exists>v1 m1. path_loop env (Some v) (Some (a, i)) m = Inr (None, Some v1, None, m1)
      \<and> dirs_vector v1 (xs @ [pm_next m ..< pm_next m + length (path_dirs s)])
      \<and> pm_next m1 = pm_next m + length (path_dirs s) \<and> pm_blocks m1 a \<noteq> None
      \<and> (\<forall>k < length (path_dirs s). pm_blocks m1 (pm_next m + k) = Some (path_dirs s ! k @ [NUL]))
      \<and> (\<forall>b < pm_next m. b \<noteq> a \<longrightarrow> pm_blocks m1 b = pm_blocks m b) \<and> (path_fresh m \<longrightarrow> path_fresh m1)"
  using assms(2-7)
proof (induction "length s" arbitrary: s v xs m pre i rule: less_induct)
  case less
  obtain token r where tr: "strsep [PATH_DELIM] s = (token, r)" by (cases "strsep [PATH_DELIM] s")
  have small: "4 * (length xs + 1) < SIZE_T_MOD" using less.prems(6) by simp
  obtain v1 where v1: "vectorAppendPtr (pe_avail env) v (pm_next m) = Inr (int (length xs), v1)" "dirs_vector v1 (xs @ [pm_next m])"
    using dirs_vector_append[OF less.prems(1) assms(1) small] by blast
  show ?case
  proof (cases r)
    case None
    have s: "token = s" "path_dirs s = [s]" using strsep_path(1) tr None by auto
    let ?m = "m\<lparr> pm_next := pm_next m + 1, pm_blocks := (pm_blocks m)(pm_next m \<mapsto> s @ [NUL]) \<rparr>"
    have "path_loop env (Some v) (Some (a, i)) m = Inr (None, Some v1, None, ?m)"
      using separate_last[OF less.prems(2-4) tr[unfolded None]] path_text_at[OF less.prems(2-4)] v1(1) assms(1)
      by (subst path_loop.simps) (simp add: new_block_granted path_loop_end)
    moreover have "path_fresh m \<longrightarrow> path_fresh ?m" by (auto simp: path_fresh_def less_SucI)
    ultimately show ?thesis using v1(2) less.prems(2,5) s by auto
  next
    case (Some s1)
    note sp = strsep_path(2)[OF tr[unfolded Some]]
    let ?m1 = "m\<lparr> pm_blocks := (pm_blocks m)(a \<mapsto> (pre @ token @ [NUL]) @ s1 @ NUL # rest) \<rparr>"
    let ?m2 = "?m1\<lparr> pm_next := pm_next m + 1, pm_blocks := (pm_blocks ?m1)(pm_next m \<mapsto> token @ [NUL]) \<rparr>"
    have n: "NUL \<notin> set token" "NUL \<notin> set s1" using sp less.prems(3) by auto
    have t: "path_text (a, i) ?m1 = Inr token"
      by (rule path_text_at[of _ _ pre _ "s1 @ NUL # rest"]) (use n less.prems(4) in auto)
    have step: "path_loop env (Some v) (Some (a, i)) m = path_loop env (Some v1) (Some (a, i + length token + 1)) ?m2"
      using separate_more[OF less.prems(2-4) tr[unfolded Some]] t v1(1) assms(1)
      by (subst path_loop.simps) (simp add: new_block_granted)
    have short: "length s1 < length s" using sp by simp
    have b: "pm_blocks ?m2 a = Some ((pre @ token @ [NUL]) @ s1 @ NUL # rest)" using less.prems(5) by simp
    have l: "i + length token + 1 = length (pre @ token @ [NUL])" using less.prems(4) by simp
    have a: "a < pm_next ?m2" using less.prems(5) by simp
    have size: "4 * (length (xs @ [pm_next m]) + length s1 + 1) < SIZE_T_MOD" using less.prems(6) sp by simp
    obtain v2 m3 where ih: "path_loop env (Some v1) (Some (a, i + length token + 1)) ?m2 = Inr (None, Some v2, None, m3)"
      "dirs_vector v2 ((xs @ [pm_next m]) @ [pm_next ?m2 ..< pm_next ?m2 + length (path_dirs s1)])"
      "pm_next m3 = pm_next ?m2 + length (path_dirs s1)" "pm_blocks m3 a \<noteq> None"
      "\<forall>k < length (path_dirs s1). pm_blocks m3 (pm_next ?m2 + k) = Some (path_dirs s1 ! k @ [NUL])"
      "\<forall>b < pm_next ?m2. b \<noteq> a \<longrightarrow> pm_blocks m3 b = pm_blocks ?m2 b" "path_fresh ?m2 \<longrightarrow> path_fresh m3"
      using less.hyps[OF short v1(2) b n(2) l a size] by blast
    have dirs: "path_dirs s = token # path_dirs s1" using sp by blast
    have range: "[pm_next m ..< pm_next m + length (path_dirs s)] = pm_next m # [pm_next ?m2 ..< pm_next ?m2 + length (path_dirs s1)]"
      unfolding dirs by (simp add: upt_rec)
    have "pm_blocks m3 (pm_next m + k) = Some (path_dirs s ! k @ [NUL])" if k: "k < length (path_dirs s)" for k
    proof (cases k)
      case 0
      then show ?thesis using ih(6) less.prems(5) by (simp add: dirs)
    next
      case (Suc j)
      then show ?thesis using ih(5) k by (simp add: dirs)
    qed
    moreover have "pm_blocks m3 b = pm_blocks m b" if "b < pm_next m" "b \<noteq> a" for b
      using ih(6) that by auto
    moreover have "path_fresh m \<longrightarrow> path_fresh m3" using ih(7) less.prems(5) by (auto simp: path_fresh_def less_SucI)
    ultimately show ?thesis
      unfolding step ih(1) range using ih(2-4) by (simp add: dirs)
  qed
qed

lemma path_dirs_chars: "d \<in> set (path_dirs s) \<Longrightarrow> set d \<subseteq> set s"
proof (induction s arbitrary: d)
  case (Cons c s)
  obtain e es where e: "path_dirs s = e # es" by (cases "path_dirs s") auto
  have "set e \<subseteq> set s" "\<forall>d \<in> set es. set d \<subseteq> set s" using Cons.IH by (auto simp: e)
  then show ?case using Cons.prems by (auto simp: e split: if_splits)
qed auto

text \<open>\<open>path_parse\<close> with memory granted.\<close>

lemma path_parse_all:
  assumes "path_granted env" and "path_fresh m" and "NUL \<notin> set path" and "4 * (length path + 1) < SIZE_T_MOD"
  shows "\<exists>v m1 as. path_parse env (Some path) old m = Inr (None, Some v, m1) \<and> vec_holds v as \<and> path_fresh m1 \<and> distinct as \<and> length as = length (path_dirs path)
      \<and> map (\<lambda>a. path_text (a, 0) m1) as = map Inr (path_dirs path)
      \<and> pm_blocks m1 (pm_next m) \<noteq> None \<and> pm_next m \<notin> set as \<and> (\<forall>a \<in> set as. pm_blocks m a = None)
      \<and> (\<forall>b. pm_blocks m b \<noteq> None \<longrightarrow> pm_blocks m1 b = pm_blocks m b)"
proof -
  let ?a = "pm_next m"
  let ?m = "m\<lparr> pm_next := ?a + 1, pm_blocks := (pm_blocks m)(?a \<mapsto> path @ [NUL]) \<rparr>"
  obtain v where v: "vectorCreate True True (pe_avail env) True True (Some ''path vector'') sizeof_voidp 1 1 (Some release) = Inr (Some v)"
    "dirs_vector v []"
    using vectorCreate_holds[of sizeof_voidp 1 1 "pe_avail env" "Some ''path vector''" "Some release"] assms(1)
    by (auto simp: dirs_vector_def path_granted_def block_fits_def)
  have b: "pm_blocks ?m ?a = Some ([] @ path @ NUL # [])" by simp
  obtain v1 m1 where l: "path_loop env (Some v) (Some (?a, 0)) ?m = Inr (None, Some v1, None, m1)"
    "dirs_vector v1 ([] @ [pm_next ?m ..< pm_next ?m + length (path_dirs path)])" "pm_blocks m1 ?a \<noteq> None"
    "\<forall>k < length (path_dirs path). pm_blocks m1 (pm_next ?m + k) = Some (path_dirs path ! k @ [NUL])"
    "\<forall>b < pm_next ?m. b \<noteq> ?a \<longrightarrow> pm_blocks m1 b = pm_blocks ?m b" "path_fresh ?m \<longrightarrow> path_fresh m1"
    using path_loop_splits[OF assms(1) v(2) b assms(3)] assms(4) by auto
  let ?as = "[pm_next ?m ..< pm_next ?m + length (path_dirs path)]"
  have "path_parse env (Some path) old m = Inr (None, Some v1, m1)"
    using v(1) l(1) assms(1) by (simp add: path_parse_def new_block_granted path_granted_def)
  moreover have "map (\<lambda>a. path_text (a, 0) m1) ?as = map Inr (path_dirs path)"
  proof (rule nth_equalityI)
    fix k assume "k < length (map (\<lambda>a. path_text (a, 0) m1) ?as)"
    then have k: "k < length (path_dirs path)" by (simp del: upt_Suc)
    then have "NUL \<notin> set (path_dirs path ! k)" using path_dirs_chars[of "path_dirs path ! k" path] assms(3) by auto
    then show "map (\<lambda>a. path_text (a, 0) m1) ?as ! k = map Inr (path_dirs path) ! k"
      using l(4) k path_text_at[of m1 "pm_next ?m + k" "[]" "path_dirs path ! k" "[]" 0] by (simp del: upt_Suc)
  qed (simp del: upt_Suc)
  moreover have "pm_blocks m1 b = pm_blocks m b" if "pm_blocks m b \<noteq> None" for b
    using l(5) assms(2) that by (auto simp: path_fresh_def)
  moreover have "path_fresh m1" using l(6) assms(2) by (auto simp: path_fresh_def less_SucI)
  moreover have "\<forall>a \<in> set ?as. pm_blocks m a = None" using assms(2) by (auto simp: path_fresh_def)
  moreover have "vec_holds v1 ?as" "?a \<notin> set ?as" "length ?as = length (path_dirs path)" "distinct ?as"
    using l(2) by (simp_all add: dirs_vector_def del: upt_Suc)
  ultimately show ?thesis using l(3) by blast
qed


subsection \<open>Properties\<close>

text \<open>Looking in the directories from the \<open>i\<close>-th on.\<close>

lemma path_text_kept: "path_text (a, i) m = Inr s \<Longrightarrow> pm_blocks m1 a = pm_blocks m a \<Longrightarrow> path_text (a, i) m1 = Inr s"
  by (simp add: path_text_def cell_def)

lemma path_text_NUL: "path_text p m = Inr s \<Longrightarrow> NUL \<notin> set s"
  by (auto simp: path_text_def Let_def res_iff split: if_splits dest: set_takeWhileD)

lemma fopen_loop_first:
  assumes "path_granted env" and "path_fresh m" and "vec_holds v as" and "map (\<lambda>a. path_text (a, 0) m) as = map Inr dirs"
    and "i \<le> length as" and "NUL \<notin> set name"
  shows "\<exists>m1. fopen_loop env fopen name mode v (int i) None w m
        = Inr (fst (first_open fopen name mode (drop i dirs) w), snd (first_open fopen name mode (drop i dirs) w), m1)
      \<and> (\<forall>b. pm_blocks m b \<noteq> None \<longrightarrow> pm_blocks m1 b = pm_blocks m b)"
  using assms(2,4,5)
proof (induction "length as - i" arbitrary: i w m)
  case 0
  moreover have "length dirs = length as" using 0(3) by (metis length_map)
  ultimately show ?case
    using vec_holds_count[OF assms(3)] by (subst fopen_loop.simps) (simp add: vectorGetElementCount_def)
next
  case (Suc n)
  have len: "length dirs = length as" using Suc.prems(2) by (metis length_map)
  have i: "i < length as" using Suc.hyps(2) by simp
  have t: "path_text (as ! i, 0) m = Inr (dirs ! i)" using arg_cong[OF Suc.prems(2), of "\<lambda>xs. xs ! i"] i len by simp
  let ?s = "dirs ! i @ [DIR_DELIM] @ name"
  let ?r = "pm_next m"
  let ?m1 = "m\<lparr> pm_next := ?r + 1, pm_blocks := (pm_blocks m)(?r \<mapsto> ?s @ [NUL]) \<rparr>"
  have c: "path_concat_dir env (dirs ! i) name m = Inr (?r, ?m1)"
    using assms(1) by (simp add: path_concat_dir_def path_join_def new_block_granted)
  have "NUL \<notin> set ?s" using path_text_NUL[OF t] assms(6) by simp
  then have t1: "path_text (?r, 0) ?m1 = Inr ?s" by (intro path_text_at[of _ _ "[]" _ "[]"]) auto
  obtain f1 w1 where f: "fopen ?s mode w = (f1, w1)" by (cases "fopen ?s mode w")
  let ?m2 = "release ?r ?m1"
  have same: "pm_blocks m b \<noteq> None \<Longrightarrow> pm_blocks ?m2 b = pm_blocks m b" for b
    using Suc.prems(1) by (auto simp: release_def path_fresh_def)
  have d: "drop i dirs = dirs ! i # drop (i + 1) dirs" using i len by (simp add: Cons_nth_drop_Suc)
  have step: "fopen_loop env fopen name mode v (int i) None w m = fopen_loop env fopen name mode v (int (i + 1)) f1 w1 ?m2"
    using i t c t1 f vec_holds_count[OF assms(3)] vectorGetElementAt_holds[OF assms(3), of "int i"]
    by (subst fopen_loop.simps) (simp add: vectorGetElementCount_def path_free_def add.commute)
  show ?case
  proof (cases f1)
    case None
    have fresh: "path_fresh ?m2" using Suc.prems(1) by (auto simp: path_fresh_def release_def less_SucI)
    have "map (\<lambda>a. path_text (a, 0) ?m2) as = map Inr dirs"
    proof (rule nth_equalityI)
      fix k assume "k < length (map (\<lambda>a. path_text (a, 0) ?m2) as)"
      then have k: "k < length as" by simp
      have "path_text (as ! k, 0) m = Inr (dirs ! k)" using arg_cong[OF Suc.prems(2), of "\<lambda>xs. xs ! k"] k len by simp
      moreover from this have "pm_blocks m (as ! k) \<noteq> None" by (auto simp: path_text_def res_iff)
      ultimately show "map (\<lambda>a. path_text (a, 0) ?m2) as ! k = map Inr dirs ! k"
        using path_text_kept[OF _ same] k len by simp
    qed (simp add: len)
    note dirs = this
    have le: "n = length as - (i + 1)" "i + 1 \<le> length as" using Suc.hyps(2) i by auto
    obtain m3 where "fopen_loop env fopen name mode v (int (i + 1)) None w1 ?m2
        = Inr (fst (first_open fopen name mode (drop (i + 1) dirs) w1), snd (first_open fopen name mode (drop (i + 1) dirs) w1), m3)"
      "\<forall>b. pm_blocks ?m2 b \<noteq> None \<longrightarrow> pm_blocks m3 b = pm_blocks ?m2 b"
      using Suc.hyps(1)[OF le(1) fresh dirs le(2)] by blast
    then show ?thesis using step None f d same by (auto simp del: drop_Suc)
  next
    case (Some g)
    then show ?thesis using step f d same by (subst (asm) (2) fopen_loop.simps) auto
  qed
qed

text \<open>with memory granted, \<open>path_parse\<close> returns no error and a vector of exactly the directories of
  the path, in order and each in a block of its own, however many delimiters follow each other. The
  temporary copy of the path is never freed, although the exit means to: \<open>strsep\<close> leaves the pointer to it
  NULL.\<close>

theorem path_parse_lists_dirs:
  assumes "path_granted env" and "path_fresh m" and "NUL \<notin> set path" and "4 * (length path + 1) < SIZE_T_MOD"
  shows "\<exists>v m1 as. path_parse env (Some path) old m = Inr (None, Some v, m1) \<and> vec_holds v as \<and> distinct as
      \<and> map (\<lambda>a. path_text (a, 0) m1) as = map Inr (path_dirs path)
      \<and> pm_blocks m1 (pm_next m) \<noteq> None \<and> pm_next m \<notin> set as
      \<and> (\<forall>b. pm_blocks m b \<noteq> None \<longrightarrow> pm_blocks m1 b = pm_blocks m b)"
  using path_parse_all[OF assms, of old] by blast

text \<open>C35: a path put together with \<open>path_concat_path\<close> parses to the directories of its two parts, one after
  the other.\<close>

theorem path_concat_parse_roundtrip:
  assumes "path_granted env" and "path_fresh m" and "NUL \<notin> set p" and "NUL \<notin> set q"
    and "4 * (length p + length q + 2) < SIZE_T_MOD"
  shows "\<exists>r m1 v m2 as. path_concat_path env p q m = Inr (r, m1) \<and> path_text (r, 0) m1 = Inr (p @ [PATH_DELIM] @ q)
      \<and> path_parse env (Some (p @ [PATH_DELIM] @ q)) old m1 = Inr (None, Some v, m2) \<and> vec_holds v as
      \<and> map (\<lambda>a. path_text (a, 0) m2) as = map Inr (path_dirs p @ path_dirs q)"
proof -
  let ?t = "p @ [PATH_DELIM] @ q"
  let ?m = "m\<lparr> pm_next := pm_next m + 1, pm_blocks := (pm_blocks m)(pm_next m \<mapsto> ?t @ [NUL]) \<rparr>"
  have c: "path_concat_path env p q m = Inr (pm_next m, ?m)"
    using assms(1) by (simp add: path_concat_path_def path_join_def new_block_granted)
  have n: "NUL \<notin> set ?t" using assms(3,4) by simp
  have "path_text (pm_next m, 0) ?m = Inr ?t"
    by (rule path_text_at[of _ _ "[]" _ "[]"]) (use n in auto)
  moreover have f: "path_fresh ?m" using assms(2) by (auto simp: path_fresh_def less_SucI)
  moreover have "4 * (length ?t + 1) < SIZE_T_MOD" using assms(5) by simp
  ultimately show ?thesis
    using c path_parse_all[OF assms(1) f n, of old] unfolding path_dirs_append by blast
qed

text \<open>C34: \<open>path_fopen\<close>, with memory granted, tries the directories of the path from left to right and returns
  the first stream that opens, or NULL when there is none: the order of the attempts, and that none is
  made after a success, are those of the reference. But it frees only the struct of the vector it made:
  the copy of the path and the copy of every directory are still allocated.\<close>

theorem path_fopen_opens_first:
  assumes "path_granted env" and "path_fresh m" and "NUL \<notin> set path" and "NUL \<notin> set name"
    and "4 * (length path + 1) < SIZE_T_MOD"
  shows "\<exists>m1 as. path_fopen env fopen (Some path) (Some name) mode w m
        = Inr (fst (first_open fopen name mode (path_dirs path) w), snd (first_open fopen name mode (path_dirs path) w), m1)
      \<and> length as = length (path_dirs path) \<and> distinct (pm_next m # as)
      \<and> (\<forall>a \<in> set (pm_next m # as). pm_blocks m a = None \<and> pm_blocks m1 a \<noteq> None)"
proof -
  obtain v m1 as where p: "path_parse env (Some path) None m = Inr (None, Some v, m1)" "vec_holds v as" "path_fresh m1"
    "distinct as" "length as = length (path_dirs path)" "map (\<lambda>a. path_text (a, 0) m1) as = map Inr (path_dirs path)"
    "pm_blocks m1 (pm_next m) \<noteq> None" "pm_next m \<notin> set as" "\<forall>a \<in> set as. pm_blocks m a = None"
    using path_parse_all[OF assms(1-3,5), of None] by blast
  obtain m2 where f: "fopen_loop env fopen name mode v 0 None w m1
      = Inr (fst (first_open fopen name mode (path_dirs path) w), snd (first_open fopen name mode (path_dirs path) w), m2)"
    "\<forall>b. pm_blocks m1 b \<noteq> None \<longrightarrow> pm_blocks m2 b = pm_blocks m1 b"
    using fopen_loop_first[OF assms(1) p(3,2,6) _ assms(4), of 0 fopen mode w] by auto
  have "pm_blocks m1 a \<noteq> None" if "a \<in> set as" for a
  proof -
    have "path_text (a, 0) m1 \<in> set (map Inr (path_dirs path))" using p(6) that by (metis (no_types, lifting) imageI list.set_map)
    then show ?thesis by (auto simp: path_text_def cell_def split: option.splits)
  qed
  then have "\<forall>a \<in> set (pm_next m # as). pm_blocks m a = None \<and> pm_blocks m2 a \<noteq> None"
    using p(7,9) f(2) assms(2) by (auto simp: path_fresh_def)
  moreover have "path_fopen env fopen (Some path) (Some name) mode w m
      = Inr (fst (first_open fopen name mode (path_dirs path) w), snd (first_open fopen name mode (path_dirs path) w), m2)"
    using p(1) f(1) by (simp add: path_fopen_def)
  ultimately show ?thesis using p(4,5,8) by (metis distinct.simps(2))
qed

text \<open>if the memory runs out at a directory that is not the last one, the exit of \<open>path_parse\<close>
  passes a pointer into the middle of the copy to \<open>free\<close>.\<close>

theorem path_parse_frees_interior_pointer:
  assumes "pe_alloc env (pm_next m)" and "\<not> pe_alloc env (pm_next m + 1)" and "pe_errOk env = (True, True)"
    and "pe_vector env = (True, True, True, True)" and "pe_avail env 4"
    and "NUL \<notin> set dir" and "NUL \<notin> set rest" and "PATH_DELIM \<notin> set dir"
  shows "path_parse env (Some (dir @ [PATH_DELIM] @ rest)) old m = Inl DanglingPtr"
proof -
  let ?s = "dir @ [PATH_DELIM] @ rest"
  let ?a = "pm_next m"
  let ?m = "m\<lparr> pm_next := ?a + 1, pm_blocks := (pm_blocks m)(?a \<mapsto> ?s @ [NUL]) \<rparr>"
  have tr: "strsep [PATH_DELIM] ?s = (dir, Some rest)"
    using assms(8) strsep_token[of dir "[PATH_DELIM]" PATH_DELIM rest] by auto
  have b: "pm_blocks ?m ?a = Some ([] @ ?s @ NUL # [])" by simp
  have n: "NUL \<notin> set ?s" using assms(6,7) by simp
  let ?m1 = "?m\<lparr> pm_blocks := (pm_blocks ?m)(?a \<mapsto> ([] @ dir @ [NUL]) @ rest @ NUL # []) \<rparr>"
  have sep: "path_separate (Some (?a, 0)) ?m = Inr (Some (?a, 0), Some (?a, 0 + length dir + 1), ?m1)"
    by (rule separate_more[OF b n _ tr]) simp
  have t: "path_text (?a, 0) ?m1 = Inr dir"
    by (rule path_text_at[of _ _ "[]" _ "rest @ [NUL]"]) (use assms(6) in auto)
  obtain e where "path_error env ''path_parse: strdup failed when copying path'' = Inr (Some e)"
    using assms(3) by (simp add: path_error_def ErrNew_def)
  then have l: "\<exists>m2. path_loop env v (Some (?a, 0)) ?m = Inr (Some e, v, Some (?a, 0 + length dir + 1), m2)" for v
    using assms(2) sep t by (subst path_loop.simps) (simp add: new_block_def Let_def)
  obtain v where v: "vectorCreate True True (pe_avail env) True True (Some ''path vector'') sizeof_voidp 1 1 (Some release) = Inr (Some v)"
    using vectorCreate_holds[of sizeof_voidp 1 1 "pe_avail env" "Some ''path vector''" "Some release"] assms(5)
    by (auto simp: block_fits_def block_bytes_def size_mul_def size_of_int_def)
  obtain m2 where "path_loop env (Some v) (Some (?a, 0)) ?m = Inr (Some e, Some v, Some (?a, 0 + length dir + 1), m2)"
    using l by blast
  moreover have "new_block env (?s @ [NUL]) m = (Some ?a, ?m)" using assms(1) by (simp add: new_block_def Let_def)
  ultimately show ?thesis
    unfolding path_parse_def using v by (simp only: assms(4) option.case prod.case rbind_simps) (simp add: path_free_def)
qed

subsection \<open>Examples\<close>

definition demo_path_env :: path_env where
  "demo_path_env = \<lparr> pe_alloc = \<lambda>_. True, pe_vector = (True, True, True, True), pe_avail = \<lambda>_. True,
     pe_errOk = (True, True), pe_errno = 12 \<rparr>"

definition demo_path_mem :: path_mem where
  "demo_path_mem = \<lparr> pm_next = 5, pm_blocks = [3 \<mapsto> ''x''] \<rparr>"

lemma demo_path: "path_granted demo_path_env" "path_fresh demo_path_mem"
  by (auto simp: demo_path_env_def demo_path_mem_def path_granted_def path_fresh_def)

text \<open>Only \<open>/usr/lib/a.so\<close> can be opened; the attempts are counted.\<close>

definition demo_fopen :: "nat fopen" where
  "demo_fopen name mode w = (if name = ''/usr/lib/a.so'' then Some 7 else None, w + 1)"

theorem path_parse_lists_dirs_witness:
  "\<exists>v m1 as. path_parse demo_path_env (Some ''a::b'') None demo_path_mem = Inr (None, Some v, m1) \<and> vec_holds v as
      \<and> distinct as \<and> map (\<lambda>a. path_text (a, 0) m1) as = [Inr ''a'', Inr [], Inr ''b''] \<and> pm_blocks m1 5 \<noteq> None
      \<and> 5 \<notin> set as \<and> pm_blocks m1 3 = Some ''x''"
proof -
  have d: "map Inr (path_dirs ''a::b'') = [Inr ''a'', Inr [], Inr ''b'']" "pm_next demo_path_mem = 5" "pm_blocks demo_path_mem 3 = Some ''x''"
    by (simp_all add: demo_path_mem_def)
  have "NUL \<notin> set ''a::b''" "4 * (length ''a::b'' + 1) < SIZE_T_MOD" by simp_all
  from path_parse_lists_dirs[OF demo_path this, of None] show ?thesis unfolding d using d(3) by (metis option.distinct(1))
qed

theorem path_concat_parse_roundtrip_witness:
  "\<exists>r m1 v m2 as. path_concat_path demo_path_env ''bin:lib'' ''etc'' demo_path_mem = Inr (r, m1)
      \<and> path_text (r, 0) m1 = Inr ''bin:lib:etc''
      \<and> path_parse demo_path_env (Some ''bin:lib:etc'') None m1 = Inr (None, Some v, m2) \<and> vec_holds v as
      \<and> map (\<lambda>a. path_text (a, 0) m2) as = [Inr ''bin'', Inr ''lib'', Inr ''etc'']"
  using path_concat_parse_roundtrip[OF demo_path, of "''bin:lib''" "''etc''" None] by simp

theorem path_fopen_opens_first_witness:
  "\<exists>m1 as. path_fopen demo_path_env demo_fopen (Some ''/bin:/usr/lib:/lib'') (Some ''a.so'') ''r'' 0 demo_path_mem = Inr (Some 7, 2, m1)
      \<and> length as = 3 \<and> distinct (5 # as) \<and> (\<forall>a \<in> set (5 # as). pm_blocks m1 a \<noteq> None)"
proof -
  have "first_open demo_fopen ''a.so'' ''r'' (path_dirs ''/bin:/usr/lib:/lib'') 0 = (Some 7, 2)"
    by (simp add: demo_fopen_def)
  moreover have "length (path_dirs ''/bin:/usr/lib:/lib'') = 3" "pm_next demo_path_mem = 5" by (simp_all add: demo_path_mem_def)
  note d = calculation this
  have "NUL \<notin> set ''/bin:/usr/lib:/lib''" "NUL \<notin> set ''a.so''" "4 * (length ''/bin:/usr/lib:/lib'' + 1) < SIZE_T_MOD" by simp_all
  from path_fopen_opens_first[OF demo_path this, of demo_fopen "''r''" 0] show ?thesis unfolding d fst_conv snd_conv by blast
qed

theorem path_parse_frees_interior_pointer_witness:
  "path_parse (demo_path_env\<lparr> pe_alloc := \<lambda>a. a \<noteq> 6 \<rparr>) (Some ''bin:lib'') None demo_path_mem = Inl DanglingPtr"
  using path_parse_frees_interior_pointer[of "demo_path_env\<lparr> pe_alloc := \<lambda>a. a \<noteq> 6 \<rparr>" demo_path_mem "''bin''" "''lib''" None]
  by (simp add: demo_path_env_def demo_path_mem_def)

end
