(* ===== verification/Geometry.thy ===== *)
theory Geometry
  imports Prelude CText Complex_Main "HOL-Library.Signed_Division"
begin

section \<open>Geometry in a room\<close>

text \<open>
  \<open>src/geometry.c\<close>: angles as 16-bit parts of a circle, tables of the arc tangent and the sine, and
  positions that are moved and changed between coordinate systems. Coordinates are objects at
  addresses, because the caller may pass the same one twice. What the floating-point library rounds to
  when the tables are filled is an argument; everything else is integer arithmetic, whose overflow is
  a fault. Division is C's, towards zero.
\<close>

subsection \<open>State\<close>

type_synonym Angle = "16 word"

record sCoordinate =
  co_x :: int
  co_y :: int
  co_z :: int
  co_xzRotation :: Angle

type_synonym coordinates = "nat \<rightharpoonup> sCoordinate"

text \<open>The static variables, zero before \<open>geo_init\<close>.\<close>

record geo_state =
  ge_init_count :: int
  ge_atan_table :: "Angle list"
  ge_sin_table :: "int list"

definition geo_start :: geo_state where
  "geo_start = \<lparr> ge_init_count = 0, ge_atan_table = replicate 8193 0, ge_sin_table = replicate 16385 0 \<rparr>"

subsection \<open>Tables\<close>

text \<open>
  \<open>fl_atan i\<close> stands for \<open>rint(atan(i / 8192.0) * 32768 / M_PI)\<close> and \<open>fl_sin i\<close> for
  \<open>rint(sin(i * (2 * M_PI) / 65536) * 32768)\<close>.
\<close>

definition geo_init :: "(nat \<Rightarrow> int) \<Rightarrow> (nat \<Rightarrow> int) \<Rightarrow> geo_state \<Rightarrow> geo_state res" where
  "geo_init fl_atan fl_sin g =
     (let g1 = (if ge_init_count g = 0
                then g\<lparr> ge_atan_table := map (\<lambda>i. word_of_int (fl_atan i)) [0..<8193],
                       ge_sin_table := map (\<lambda>i. let val = fl_sin i in if val \<ge> 32768 then 32767 else val) [0..<16385] \<rparr>
                else g)
      in rbind (iadd (ge_init_count g1) 1) (\<lambda>n. Inr (g1\<lparr> ge_init_count := n \<rparr>)))"

definition table_at :: "'a list \<Rightarrow> int \<Rightarrow> 'a res" where
  "table_at t i = (if 0 \<le> i \<and> i < int (length t) then Inr (t ! nat i) else Inl OutOfBounds)"

definition c_divide :: "int \<Rightarrow> int \<Rightarrow> int res" where
  "c_divide a b = (if b = 0 then Inl DivByZero else Inr (a sdiv b))"

definition atan_at :: "geo_state \<Rightarrow> int \<Rightarrow> int \<Rightarrow> Angle res" where
  "atan_at g a b = rbind (imul a 8192) (\<lambda>p. rbind (c_divide p b) (\<lambda>q. table_at (ge_atan_table g) q))"

text \<open>The angle, and what is printed. Every path negates the one of its arguments that may be the least integer.\<close>

definition geo_atan :: "geo_state \<Rightarrow> int \<Rightarrow> int \<Rightarrow> (Angle \<times> string) res" where
  "geo_atan g dx dz =
     (if dx = 0 \<and> dz = 0 then Inr (0, ''WARNING: geo_atan called with (0,0)...'' @ [CHR 0x0A])
      else
        rbind (rguard SignedOverflow (dx \<noteq> INT_MIN \<and> dz \<noteq> INT_MIN)) (\<lambda>_.
        rbind (if dz > 0 then
                 if dx > 0 then
                   if dz > dx then atan_at g dx dz
                   else rbind (atan_at g dz dx) (\<lambda>t. Inr (16384 - t))
                 else
                   if dz > - dx then rbind (atan_at g (- dx) dz) (\<lambda>t. Inr (- t))
                   else rbind (atan_at g dz (- dx)) (\<lambda>t. Inr (49152 + t))
               else
                 if dx > 0 then
                   if - dz > dx then rbind (atan_at g dx (- dz)) (\<lambda>t. Inr (32768 - t))
                   else rbind (atan_at g (- dz) dx) (\<lambda>t. Inr (16384 + t))
                 else
                   if - dz > - dx then rbind (atan_at g dx dz) (\<lambda>t. Inr (32768 + t))
                   else rbind (atan_at g dz dx) (\<lambda>t. Inr (49152 - t)))
          (\<lambda>result. Inr (result, []))))"

definition geo_sin :: "geo_state \<Rightarrow> Angle \<Rightarrow> int res" where
  "geo_sin g w =
     (let a = uint w; t = ge_sin_table g in
      if a < 16384 then table_at t a
      else if a < 32768 then table_at t (32768 - a)
      else if a < 49152 then rbind (table_at t (a - 32768)) (\<lambda>v. Inr (- v))
      else rbind (table_at t (65536 - a)) (\<lambda>v. Inr (- v)))"

definition geo_cos :: "geo_state \<Rightarrow> Angle \<Rightarrow> int res" where
  "geo_cos g w =
     (let a = uint w; t = ge_sin_table g in
      if a < 16384 then table_at t (16384 - a)
      else if a < 32768 then rbind (table_at t (a - 16384)) (\<lambda>v. Inr (- v))
      else if a < 49152 then rbind (table_at t (49152 - a)) (\<lambda>v. Inr (- v))
      else table_at t (a - 49152))"

subsection \<open>Positions\<close>

text \<open>\<open>rint(sqrt(n))\<close>: the nearest integer; no integer lies halfway between two roots.\<close>

fun root_below :: "nat \<Rightarrow> nat" where
  "root_below n =
     (if n = 0 then 0
      else let r = 2 * root_below (n div 4) in if (r + 1) * (r + 1) \<le> n then r + 1 else r)"

declare root_below.simps [simp del]

definition rint_sqrt :: "int \<Rightarrow> int" where
  "rint_sqrt n = (let r = int (root_below (nat n)) in if n > r * r + r then r + 1 else r)"

definition isub :: "int \<Rightarrow> int \<Rightarrow> int res" where
  "isub a b = iadd a (- b)"

definition ineg :: "int \<Rightarrow> int res" where
  "ineg a = iadd 0 (- a)"

definition geo_distance :: "coordinates \<Rightarrow> nat \<Rightarrow> nat \<Rightarrow> int res" where
  "geo_distance m a b =
     rbind (cell m a) (\<lambda>ca. rbind (cell m b) (\<lambda>cb.
     rbind (isub (co_x ca) (co_x cb)) (\<lambda>dx.
     rbind (isub (co_z ca) (co_z cb)) (\<lambda>dz.
     rbind (imul dx dx) (\<lambda>xx. rbind (imul dz dz) (\<lambda>zz.
     rbind (iadd xx zz) (\<lambda>s. Inr (rint_sqrt s))))))))"

definition geo_directionFromAtoB :: "geo_state \<Rightarrow> coordinates \<Rightarrow> nat \<Rightarrow> nat \<Rightarrow> (Angle \<times> string) res" where
  "geo_directionFromAtoB g m a b =
     rbind (cell m a) (\<lambda>ca. rbind (cell m b) (\<lambda>cb.
     rbind (isub (co_x cb) (co_x ca)) (\<lambda>dx.
     rbind (isub (co_z cb) (co_z ca)) (\<lambda>dz.
     geo_atan g dx dz))))"

text \<open>\<open>a * b / 32768\<close>.\<close>

definition scaled :: "int \<Rightarrow> int \<Rightarrow> int res" where
  "scaled a b = rbind (imul a b) (\<lambda>p. Inr (p sdiv 32768))"

definition geo_moveForward :: "geo_state \<Rightarrow> nat \<Rightarrow> int \<Rightarrow> coordinates \<Rightarrow> coordinates res" where
  "geo_moveForward g c distance m =
     rbind (cell m c) (\<lambda>p.
     rbind (geo_sin g (co_xzRotation p)) (\<lambda>s.
     rbind (scaled distance s) (\<lambda>d.
     rbind (iadd (co_x p) d) (\<lambda>x.
     rbind (modify c (\<lambda>p. p\<lparr> co_x := x \<rparr>) m) (\<lambda>m1.
     rbind (cell m1 c) (\<lambda>p1.
     rbind (geo_cos g (co_xzRotation p1)) (\<lambda>k.
     rbind (scaled distance k) (\<lambda>e.
     rbind (iadd (co_z p1) e) (\<lambda>z.
     modify c (\<lambda>p. p\<lparr> co_z := z \<rparr>) m1)))))))))"

definition geo_printCoordinate :: "sCoordinate \<Rightarrow> string" where
  "geo_printCoordinate c =
     ''(x:'' @ print_int (co_x c) @ '', y:'' @ print_int (co_y c) @ '', z:'' @ print_int (co_z c)
       @ '', xzrot:'' @ print_int (uint (co_xzRotation c)) @ '')''"

text \<open>The sum of two rotated parts, \<open>a * u / 32768 + b * v / 32768\<close>.\<close>

definition rotated :: "int \<Rightarrow> int res \<Rightarrow> int \<Rightarrow> int res \<Rightarrow> int res" where
  "rotated a u b v =
     rbind u (\<lambda>u. rbind (scaled a u) (\<lambda>p. rbind v (\<lambda>v. rbind (scaled b v) (\<lambda>q. iadd p q))))"

text \<open>The four assignments go through the pointers one after the other.\<close>

definition geo_transformCoordinatesOutward :: "geo_state \<Rightarrow> nat \<Rightarrow> nat \<Rightarrow> nat \<Rightarrow> coordinates \<Rightarrow> coordinates res" where
  "geo_transformCoordinatesOutward g objectPos coordinateSystem result m =
     rbind (cell m objectPos) (\<lambda>p. rbind (cell m coordinateSystem) (\<lambda>s.
     rbind (rotated (co_x p) (geo_cos g (co_xzRotation s)) (co_z p) (geo_sin g (co_xzRotation s))) (\<lambda>d.
     rbind (iadd d (co_x s)) (\<lambda>x.
     rbind (modify result (\<lambda>r. r\<lparr> co_x := x \<rparr>) m) (\<lambda>m1.
     rbind (cell m1 objectPos) (\<lambda>p. rbind (cell m1 coordinateSystem) (\<lambda>s.
     rbind (ineg (co_x p)) (\<lambda>minusX.
     rbind (rotated minusX (geo_sin g (co_xzRotation s)) (co_z p) (geo_cos g (co_xzRotation s))) (\<lambda>d.
     rbind (iadd d (co_z s)) (\<lambda>z.
     rbind (modify result (\<lambda>r. r\<lparr> co_z := z \<rparr>) m1) (\<lambda>m2.
     rbind (cell m2 objectPos) (\<lambda>p. rbind (cell m2 coordinateSystem) (\<lambda>s.
     rbind (iadd (co_y p) (co_y s)) (\<lambda>y.
     rbind (modify result (\<lambda>r. r\<lparr> co_y := y \<rparr>) m2) (\<lambda>m3.
     rbind (cell m3 objectPos) (\<lambda>p. rbind (cell m3 coordinateSystem) (\<lambda>s.
     modify result (\<lambda>r. r\<lparr> co_xzRotation := co_xzRotation p + co_xzRotation s \<rparr>) m3)))))))))))))))))"

definition geo_transformCoordinatesInward :: "geo_state \<Rightarrow> nat \<Rightarrow> nat \<Rightarrow> nat \<Rightarrow> coordinates \<Rightarrow> coordinates res" where
  "geo_transformCoordinatesInward g objectPos coordinateSystem result m =
     rbind (cell m objectPos) (\<lambda>p. rbind (cell m coordinateSystem) (\<lambda>s.
     rbind (isub (co_x p) (co_x s)) (\<lambda>tempx.
     rbind (isub (co_z p) (co_z s)) (\<lambda>tempz.
     rbind (rotated tempx (geo_cos g (- co_xzRotation s)) tempz (geo_sin g (- co_xzRotation s))) (\<lambda>x.
     rbind (modify result (\<lambda>r. r\<lparr> co_x := x \<rparr>) m) (\<lambda>m1.
     rbind (cell m1 coordinateSystem) (\<lambda>s.
     rbind (ineg tempx) (\<lambda>minusX.
     rbind (rotated minusX (geo_sin g (- co_xzRotation s)) tempz (geo_cos g (- co_xzRotation s))) (\<lambda>z.
     rbind (modify result (\<lambda>r. r\<lparr> co_z := z \<rparr>) m1) (\<lambda>m2.
     rbind (cell m2 objectPos) (\<lambda>p. rbind (cell m2 coordinateSystem) (\<lambda>s.
     rbind (isub (co_y p) (co_y s)) (\<lambda>y.
     rbind (modify result (\<lambda>r. r\<lparr> co_y := y \<rparr>) m2) (\<lambda>m3.
     rbind (cell m3 objectPos) (\<lambda>p. rbind (cell m3 coordinateSystem) (\<lambda>s.
     modify result (\<lambda>r. r\<lparr> co_xzRotation := co_xzRotation p - co_xzRotation s \<rparr>) m3))))))))))))))))"

definition geo_translateCoordinates :: "nat \<Rightarrow> nat \<Rightarrow> nat \<Rightarrow> coordinates \<Rightarrow> coordinates res" where
  "geo_translateCoordinates objectPos translateBy result m =
     rbind (cell m objectPos) (\<lambda>p. rbind (cell m translateBy) (\<lambda>t.
     rbind (iadd (co_x p) (co_x t)) (\<lambda>x. rbind (modify result (\<lambda>r. r\<lparr> co_x := x \<rparr>) m) (\<lambda>m1.
     rbind (cell m1 objectPos) (\<lambda>p. rbind (cell m1 translateBy) (\<lambda>t.
     rbind (iadd (co_y p) (co_y t)) (\<lambda>y. rbind (modify result (\<lambda>r. r\<lparr> co_y := y \<rparr>) m1) (\<lambda>m2.
     rbind (cell m2 objectPos) (\<lambda>p. rbind (cell m2 translateBy) (\<lambda>t.
     rbind (iadd (co_z p) (co_z t)) (\<lambda>z. rbind (modify result (\<lambda>r. r\<lparr> co_z := z \<rparr>) m2) (\<lambda>m3.
     rbind (cell m3 objectPos) (\<lambda>p.
     modify result (\<lambda>r. r\<lparr> co_xzRotation := co_xzRotation p \<rparr>) m3)))))))))))))"

subsection \<open>What the floating-point library is relied on for\<close>

text \<open>
  The roundings are right to within one unit, and exact where the result is a whole number. The exact
  roundings have this property.
\<close>

definition turn :: "int \<Rightarrow> real" where
  "turn i = of_int i * (2 * pi) / 65536"

definition libm_ok :: "(nat \<Rightarrow> int) \<Rightarrow> (nat \<Rightarrow> int) \<Rightarrow> bool" where
  "libm_ok fl_atan fl_sin \<longleftrightarrow>
     (\<forall>i \<le> 8192. 0 \<le> fl_atan i \<and> \<bar>of_int (fl_atan i) - arctan (real i / 8192) * 32768 / pi\<bar> \<le> 1)
     \<and> (\<forall>i \<le> 16384. 0 \<le> fl_sin i \<and> fl_sin i \<le> 32768 \<and> \<bar>of_int (fl_sin i) - 32768 * sin (turn (int i))\<bar> \<le> 1)
     \<and> fl_sin 0 = 0 \<and> fl_sin 16384 = 32768"

definition exact_atan :: "nat \<Rightarrow> int" where
  "exact_atan i = round (arctan (real i / 8192) * 32768 / pi)"

definition exact_sin :: "nat \<Rightarrow> int" where
  "exact_sin i = round (32768 * sin (turn (int i)))"

lemma round_close: "\<bar>of_int (round (x :: real)) - x\<bar> \<le> 1"
  using of_int_round_abs_le[of x] by linarith

lemma turn_quarter: "turn 16384 = pi / 2" "turn 0 = 0" "sin (turn 16384) = 1"
  by (simp_all add: turn_def)

lemma turn_less: "i \<le> 16384 \<Longrightarrow> 0 \<le> turn (int i) \<and> turn (int i) \<le> pi / 2"
proof -
  assume "i \<le> 16384"
  then have "real i * (2 * pi) \<le> 16384 * (2 * pi)" by (intro mult_right_mono) auto
  then show ?thesis by (simp add: turn_def)
qed

lemma exact_libm_ok: "libm_ok exact_atan exact_sin"
proof -
  have "0 \<le> exact_atan i" for i
    using round_mono[of 0 "arctan (real i / 8192) * 32768 / pi"] by (simp add: exact_atan_def)
  moreover have "0 \<le> exact_sin i \<and> exact_sin i \<le> 32768" if "i \<le> 16384" for i
  proof -
    have "0 \<le> sin (turn (int i))" using turn_less[OF that] by (intro sin_ge_zero) auto
    then show ?thesis
      using round_mono[of 0 "32768 * sin (turn (int i))"] round_mono[of "32768 * sin (turn (int i))" "of_int 32768"]
      by (simp add: exact_sin_def)
  qed
  moreover have "exact_sin 0 = 0" "exact_sin 16384 = 32768"
    using round_of_int[of 32768] by (simp_all add: exact_sin_def turn_quarter(2,3))
  ultimately show ?thesis
    unfolding libm_ok_def using round_close by (simp add: exact_atan_def exact_sin_def)
qed

text \<open>The tables after \<open>geo_init\<close>.\<close>

definition tables_ok :: "geo_state \<Rightarrow> bool" where
  "tables_ok g \<longleftrightarrow>
     length (ge_atan_table g) = 8193 \<and> length (ge_sin_table g) = 16385
     \<and> (\<forall>i \<le> 8192. \<bar>of_int (uint (ge_atan_table g ! i)) - arctan (real i / 8192) * 32768 / pi\<bar> \<le> 1)
     \<and> (\<forall>i \<le> 16384. 0 \<le> ge_sin_table g ! i \<and> ge_sin_table g ! i \<le> 32767
          \<and> \<bar>of_int (ge_sin_table g ! i) - 32768 * sin (turn (int i))\<bar> \<le> 1)
     \<and> ge_sin_table g ! 0 = 0 \<and> ge_sin_table g ! 16384 = 32767"

lemma geo_init_tables:
  assumes "libm_ok fl_atan fl_sin" and "ge_init_count g = 0"
  shows "\<exists>g1. geo_init fl_atan fl_sin g = Inr g1 \<and> tables_ok g1 \<and> ge_init_count g1 = 1"
proof -
  have a: "uint (word_of_int (fl_atan i) :: Angle) = fl_atan i" if "i \<le> 8192" for i
  proof -
    have "arctan (real i / 8192) \<le> pi / 2" using arctan_ubound[of "real i / 8192"] by simp
    then have "arctan (real i / 8192) * 32768 / pi \<le> 16384" by (simp add: field_simps)
    then have "of_int (fl_atan i) \<le> (16385 :: real)" "0 \<le> fl_atan i" using assms(1) that by (auto simp: libm_ok_def abs_le_iff)
    then show ?thesis by (simp add: uint_word_of_int_eq take_bit_eq_mod)
  qed
  have s: "\<bar>of_int (if 32768 \<le> fl_sin i then 32767 else fl_sin i) - 32768 * sin (turn (int i))\<bar> \<le> 1" if "i \<le> 16384" for i
  proof -
    have "\<bar>of_int (fl_sin i) - 32768 * sin (turn (int i))\<bar> \<le> 1" "fl_sin i \<le> 32768" using assms(1) that by (auto simp: libm_ok_def)
    moreover have "sin (turn (int i)) \<le> 1" by simp
    ultimately show ?thesis by (cases "fl_sin i = 32768") (auto simp: abs_le_iff)
  qed
  let ?g = "g\<lparr> ge_atan_table := map (\<lambda>i. word_of_int (fl_atan i)) [0..<8193],
      ge_sin_table := map (\<lambda>i. let val = fl_sin i in if val \<ge> 32768 then 32767 else val) [0..<16385], ge_init_count := 1 \<rparr>"
  have at: "ge_atan_table ?g ! i = word_of_int (fl_atan i)" if "i \<le> 8192" for i
    using that by (simp del: upt_Suc)
  have st: "ge_sin_table ?g ! i = (if 32768 \<le> fl_sin i then 32767 else fl_sin i)" if "i \<le> 16384" for i
    using that by (simp add: Let_def del: upt_Suc)
  have "tables_ok ?g"
    unfolding tables_ok_def
  proof (intro conjI allI impI)
    show "length (ge_atan_table ?g) = 8193" "length (ge_sin_table ?g) = 16385" by (simp_all del: upt_Suc)
    show "\<bar>of_int (uint (ge_atan_table ?g ! i)) - arctan (real i / 8192) * 32768 / pi\<bar> \<le> 1" if "i \<le> 8192" for i
      unfolding at[OF that] a[OF that] using assms(1) that by (simp add: libm_ok_def)
    show "\<bar>of_int (ge_sin_table ?g ! i) - 32768 * sin (turn (int i))\<bar> \<le> 1" if "i \<le> 16384" for i
      unfolding st[OF that] by (rule s[OF that])
    show "0 \<le> ge_sin_table ?g ! i" "ge_sin_table ?g ! i \<le> 32767" if "i \<le> 16384" for i
      using assms(1) that unfolding st[OF that] by (auto simp: libm_ok_def)
    show "ge_sin_table ?g ! 0 = 0" "ge_sin_table ?g ! 16384 = 32767"
      using assms(1) by (simp_all add: st[of 0, simplified] st[of 16384, simplified] libm_ok_def)
  qed
  moreover have "geo_init fl_atan fl_sin g = Inr ?g"
    using assms(2) by (simp add: geo_init_def in_int_def Let_def del: upt_Suc)
  ultimately show ?thesis by (intro exI[of _ ?g]) simp
qed

subsection \<open>Sine and cosine\<close>

lemma uint_angle: "0 \<le> uint (w :: Angle)" "uint (w :: Angle) < 65536"
  using uint_bounded[of w] by simp_all

lemma uint_turned: "uint (w + 16384 :: Angle) = (if uint w < 49152 then uint w + 16384 else uint w - 49152)"
proof -
  have "uint (w + 16384) = (uint w + 16384) mod 65536" by (simp add: uint_word_ariths)
  moreover have "(uint w + 16384) mod 65536 = uint w - 49152" if "\<not> uint w < 49152"
    using mod_pos_pos_trivial[of "uint w - 49152" 65536] uint_angle[of w] that mod_add_self2[of "uint w - 49152" 65536] by (simp add: algebra_simps)
  ultimately show ?thesis using uint_angle[of w] by simp
qed

lemma uint_opposite: "uint (- w :: Angle) = (if uint w = 0 then 0 else 65536 - uint w)"
  using uint_angle[of w] by (simp add: uint_word_ariths zmod_zminus1_eq_if)

lemma table_at_in: "0 \<le> i \<Longrightarrow> i < int (length t) \<Longrightarrow> table_at t i = Inr (t ! nat i)"
  by (simp add: table_at_def)

lemma sin_table_at: "tables_ok g \<Longrightarrow> 0 \<le> i \<Longrightarrow> i \<le> 16384 \<Longrightarrow> table_at (ge_sin_table g) i = Inr (ge_sin_table g ! nat i)"
  by (simp add: table_at_in tables_ok_def)

lemma geo_cos_turned: "geo_cos g w = geo_sin g (w + 16384)"
  using uint_angle[of w] by (auto simp: geo_cos_def geo_sin_def Let_def uint_turned algebra_simps)

lemma geo_sin_opposite:
  assumes "tables_ok g"
  shows "geo_sin g (- w) = rbind (geo_sin g w) (\<lambda>s. Inr (- s))"
proof -
  have z: "ge_sin_table g ! 0 = 0" using assms by (simp add: tables_ok_def)
  obtain a where a: "uint w = a" by blast
  have bounds: "0 \<le> a" "a < 65536" using uint_angle[of w] a by auto
  then consider "a = 0" | "0 < a" "a < 16384" | "a = 16384" | "16384 < a" "a < 32768"
    | "a = 32768" | "32768 < a" "a < 49152" | "a = 49152" | "49152 < a"
    by linarith
  then show ?thesis
    using bounds z by cases (simp_all add: geo_sin_def Let_def uint_opposite a sin_table_at[OF assms])
qed

lemma turn_shift: "turn (i - 32768) = turn i - pi" "turn (32768 - i) = pi - turn i" "turn (65536 - i) = 2 * pi - turn i"
  by (simp_all add: turn_def field_simps)

lemma sin_2pi_minus_turn: "sin (2 * pi - x) = - sin x"
  using sin_periodic[of "- x"] by (simp add: algebra_simps)

lemma geo_sin_close:
  assumes "tables_ok g"
  shows "\<exists>s. geo_sin g w = Inr s \<and> \<bar>s\<bar> \<le> 32767 \<and> \<bar>of_int s - 32768 * sin (turn (uint w))\<bar> \<le> 1"
proof -
  let ?t = "\<lambda>i. ge_sin_table g ! nat i"
  have t: "0 \<le> ?t i \<and> ?t i \<le> 32767 \<and> \<bar>of_int (?t i) - 32768 * sin (turn i)\<bar> \<le> 1" if "0 \<le> i" "i \<le> 16384" for i
    using assms that unfolding tables_ok_def by (metis int_nat_eq nat_mono nat_numeral)
  consider "uint w < 16384" | "16384 \<le> uint w" "uint w < 32768" | "32768 \<le> uint w" "uint w < 49152" | "49152 \<le> uint w" by linarith
  then show ?thesis
  proof cases
    case 1
    then show ?thesis using t[of "uint w"] uint_angle[of w] by (simp add: geo_sin_def Let_def sin_table_at[OF assms])
  next
    case 2
    then show ?thesis using t[of "32768 - uint w"] by (simp add: geo_sin_def Let_def sin_table_at[OF assms] turn_shift)
  next
    case 3
    then show ?thesis using t[of "uint w - 32768"] by (simp add: geo_sin_def Let_def sin_table_at[OF assms] turn_shift abs_le_iff)
  next
    case 4
    then show ?thesis using t[of "65536 - uint w"] uint_angle[of w]
      by (simp add: geo_sin_def Let_def sin_table_at[OF assms] turn_shift sin_2pi_minus_turn abs_le_iff)
  qed
qed

subsection \<open>The arc tangent\<close>

text \<open>The direction \<open>(dx, dz)\<close> makes the angle \<open>\<theta>\<close> with the z axis.\<close>

definition angle_of :: "int \<Rightarrow> int \<Rightarrow> real \<Rightarrow> bool" where
  "angle_of dx dz \<theta> \<longleftrightarrow> (\<exists>r > 0. of_int dx = r * sin \<theta> \<and> of_int dz = r * cos \<theta>)"

lemma angle_of_arctan: "0 < b \<Longrightarrow> angle_of a b (arctan (of_int a / of_int b))"
proof -
  assume b: "0 < b"
  let ?x = "of_int a / of_int b :: real"
  have "0 < sqrt (1 + ?x\<^sup>2)" by (simp add: add_pos_nonneg)
  then show ?thesis
    unfolding angle_of_def using b
    by (intro exI[of _ "of_int b * sqrt (1 + ?x\<^sup>2)"]) (simp add: sin_arctan cos_arctan)
qed

lemma three_quarters: "sin (3 * pi / 2 + x) = - cos x" "cos (3 * pi / 2 + x) = sin x"
proof -
  have "3 * pi / 2 + x = pi + (pi / 2 + x)" by simp
  then show "sin (3 * pi / 2 + x) = - cos x" "cos (3 * pi / 2 + x) = sin x"
    by (simp_all only: sin_periodic_pi2 cos_periodic_pi2) (simp_all add: sin_add cos_add)
qed

lemma angle_of_turned:
  assumes "angle_of a b \<phi>"
  shows "angle_of b a (pi / 2 - \<phi>)" "angle_of b (- a) (pi / 2 + \<phi>)" "angle_of a (- b) (pi - \<phi>)" "angle_of (- a) (- b) (pi + \<phi>)"
    "angle_of (- b) a (3 * pi / 2 + \<phi>)" "angle_of (- b) (- a) (3 * pi / 2 - \<phi>)" "angle_of (- a) b (2 * pi - \<phi>)" "angle_of (- a) b (- \<phi>)"
proof -
  obtain r where r: "0 < r" "of_int a = r * sin \<phi>" "of_int b = r * cos \<phi>" using assms by (auto simp: angle_of_def)
  note s = three_quarters
  note s' = s[of "- \<phi>", simplified]
  show "angle_of b a (pi / 2 - \<phi>)" "angle_of b (- a) (pi / 2 + \<phi>)" "angle_of a (- b) (pi - \<phi>)" "angle_of (- a) (- b) (pi + \<phi>)"
    "angle_of (- b) a (3 * pi / 2 + \<phi>)" "angle_of (- b) (- a) (3 * pi / 2 - \<phi>)" "angle_of (- a) b (2 * pi - \<phi>)" "angle_of (- a) b (- \<phi>)"
    using r s s' unfolding angle_of_def by (auto simp: sin_add cos_add sin_diff cos_diff intro!: exI[of _ r])
qed

lemma arctan_slow: "x \<le> y \<Longrightarrow> arctan y - arctan x \<le> y - x"
proof (cases "x < y")
  case True
  then obtain z where z: "x < z" "arctan y - arctan x = (y - x) * inverse (1 + z\<^sup>2)"
    using MVT2[of x y arctan "\<lambda>z. inverse (1 + z\<^sup>2)"] DERIV_arctan by blast
  have "inverse (1 + z\<^sup>2) \<le> 1" by (simp add: inverse_le_1_iff)
  then show ?thesis using z True mult_left_mono[of "inverse (1 + z\<^sup>2)" 1 "y - x"] by simp
qed simp

text \<open>The table at a ratio of at most one, whatever the common sign of the two numbers.\<close>

lemma divide_nonneg:
  fixes a b :: int
  assumes "0 \<le> a" and "0 < b"
  shows "c_divide a b = Inr (a div b)" and "c_divide (- a) (- b) = Inr (a div b)"
  using assms by (cases "a = 0"; simp add: c_divide_def signed_divide_int_def)+

lemma atan_at_octant:
  assumes "tables_ok g" and "0 \<le> a" and "a \<le> b" and "0 < b" and "a \<le> 262143"
  shows "\<exists>t \<phi>. atan_at g a b = Inr t \<and> atan_at g (- a) (- b) = Inr t \<and> angle_of a b \<phi>
      \<and> uint t \<le> 8193 \<and> \<bar>turn (uint t) - \<phi>\<bar> \<le> turn 3"
proof -
  let ?q = "a * 8192 div b" and ?x = "of_int a / of_int b :: real"
  have q: "0 \<le> ?q" "?q \<le> 8192"
    using assms(2-4) zdiv_mono1[of "a * 8192" "b * 8192" b] by (simp_all add: pos_imp_zdiv_nonneg_iff)
  let ?t = "ge_atan_table g ! nat ?q" and ?y = "of_int ?q / 8192 :: real"
  have range: "in_int (a * 8192)" "in_int (- a * 8192)" using assms(2,5) by (simp_all add: in_int_def)
  have length: "?q < int (length (ge_atan_table g))" using q assms(1) by (simp add: tables_ok_def)
  have at: "atan_at g a b = Inr ?t" "atan_at g (- a) (- b) = Inr ?t"
    unfolding atan_at_def imul_ok[OF range(1)] imul_ok[OF range(2)] rbind_simps
    using divide_nonneg[of "a * 8192" b] table_at_in[OF q(1) length] assms(2,4) by simp_all
  have t: "\<bar>of_int (uint ?t) - arctan ?y * 32768 / pi\<bar> \<le> 1"
  proof -
    have "nat ?q \<le> 8192" "real (nat ?q) = of_int ?q" using q by simp_all
    moreover have "\<forall>i \<le> 8192. \<bar>of_int (uint (ge_atan_table g ! i)) - arctan (real i / 8192) * 32768 / pi\<bar> \<le> 1"
      using assms(1) unfolding tables_ok_def by blast
    ultimately show ?thesis by metis
  qed
  have xy: "?y \<le> ?x" "?x \<le> ?y + 1 / 8192"
  proof -
    have m: "?q * b \<le> a * 8192" "a * 8192 \<le> (?q + 1) * b"
    proof -
      have "?q * b + a * 8192 mod b = a * 8192" by (rule div_mult_mod_eq)
      moreover have "(?q + 1) * b = ?q * b + b" by (simp only: distrib_right mult_1)
      moreover note pos_mod_bound[OF assms(4), of "a * 8192"] pos_mod_sign[OF assms(4), of "a * 8192"]
      ultimately show "?q * b \<le> a * 8192" "a * 8192 \<le> (?q + 1) * b" by linarith+
    qed
    have "of_int ?q * of_int b \<le> (of_int a * 8192 :: real)" "of_int a * 8192 \<le> (of_int ?q + 1) * (of_int b :: real)"
      using of_int_le_iff[where ?'a = real, THEN iffD2, OF m(1)] of_int_le_iff[where ?'a = real, THEN iffD2, OF m(2)] by simp_all
    then show "?y \<le> ?x" "?x \<le> ?y + 1 / 8192" using assms(4) by (simp_all add: field_simps)
  qed
  have "arctan ?y \<le> arctan ?x" "arctan ?x - arctan ?y \<le> 1 / 8192" using xy arctan_slow[OF xy(1)] arctan_le_iff by auto
  moreover have "\<bar>turn (uint ?t) - arctan ?y\<bar> \<le> pi / 32768"
    using t pi_gt_zero by (simp add: turn_def abs_le_iff field_simps)
  moreover have "1 / 8192 \<le> 2 * pi / 32768" using pi_ge_two by simp
  moreover have "turn 3 = pi / 32768 + 2 * pi / 32768" by (simp add: turn_def)
  ultimately have close: "\<bar>turn (uint ?t) - arctan ?x\<bar> \<le> turn 3" unfolding abs_le_iff by linarith
  have "arctan ?y \<le> pi / 4" using q arctan_le_iff[of ?y 1] by (simp add: arctan_one)
  then have "arctan ?y * 32768 / pi \<le> 8192" by (simp add: field_simps)
  then have "of_int (uint ?t) \<le> (8193 :: real)" using t by linarith
  then have "uint ?t \<le> 8193" by linarith
  then show ?thesis using at close angle_of_arctan[OF assms(4)] by blast
qed

lemma uint_plus_small: "uint (t :: Angle) \<le> 8193 \<Longrightarrow> uint (16384 + t) = 16384 + uint t"
    "uint t \<le> 8193 \<Longrightarrow> uint (32768 + t) = 32768 + uint t" "uint t \<le> 8193 \<Longrightarrow> uint (49152 + t) = 49152 + uint t"
    "uint t \<le> 8193 \<Longrightarrow> uint (16384 - t) = 16384 - uint t" "uint t \<le> 8193 \<Longrightarrow> uint (32768 - t) = 32768 - uint t"
    "uint t \<le> 8193 \<Longrightarrow> uint (49152 - t) = 49152 - uint t"
  using uint_angle[of t] by (simp_all add: uint_sub_if' uint_plus_if')

lemma turn_parts: "turn (16384 + i) = pi / 2 + turn i" "turn (32768 + i) = pi + turn i" "turn (49152 + i) = 3 * pi / 2 + turn i"
    "turn (16384 - i) = pi / 2 - turn i" "turn (32768 - i) = pi - turn i" "turn (49152 - i) = 3 * pi / 2 - turn i"
    "turn (65536 - i) = 2 * pi - turn i"
  by (simp_all add: turn_def field_simps)

text \<open>\<open>geo_atan\<close> in the whole circle.\<close>

lemma geo_atan_angle:
  assumes "tables_ok g" and "\<bar>dx\<bar> \<le> 262143" and "\<bar>dz\<bar> \<le> 262143" and "(dx, dz) \<noteq> (0, 0)"
  shows "\<exists>w \<theta>. geo_atan g dx dz = Inr (w, []) \<and> angle_of dx dz \<theta> \<and> \<bar>turn (uint w) - \<theta>\<bar> \<le> turn 3"
proof -
  have guard: "dx \<noteq> INT_MIN" "dz \<noteq> INT_MIN" "\<not> (dx = 0 \<and> dz = 0)" using assms(2-4) by auto
  have oct: "\<exists>t \<phi>. atan_at g a b = Inr t \<and> atan_at g (- a) (- b) = Inr t \<and> angle_of a b \<phi> \<and> uint t \<le> 8193 \<and> \<bar>turn (uint t) - \<phi>\<bar> \<le> turn 3"
    if "0 \<le> a" "a \<le> b" "0 < b" "a \<le> 262143" for a b by (rule atan_at_octant[OF assms(1) that])
  consider (1) "dz > 0" "dx > 0" "dz > dx" | (2) "dz > 0" "dx > 0" "\<not> dz > dx" | (3) "dz > 0" "\<not> dx > 0" "dz > - dx"
    | (4) "dz > 0" "\<not> dx > 0" "\<not> dz > - dx" | (5) "\<not> dz > 0" "dx > 0" "- dz > dx" | (6) "\<not> dz > 0" "dx > 0" "\<not> - dz > dx"
    | (7) "\<not> dz > 0" "\<not> dx > 0" "- dz > - dx" | (8) "\<not> dz > 0" "\<not> dx > 0" "\<not> - dz > - dx" by blast
  then show ?thesis
  proof cases
    case 1
    then obtain t \<phi> where "atan_at g dx dz = Inr t" "angle_of dx dz \<phi>" "uint t \<le> 8193" "\<bar>turn (uint t) - \<phi>\<bar> \<le> turn 3"
      using oct[of dx dz] assms(2) by auto
    then show ?thesis using 1 guard by (auto simp: geo_atan_def)
  next
    case 2
    then obtain t \<phi> where t: "atan_at g dz dx = Inr t" "angle_of dz dx \<phi>" "uint t \<le> 8193" "\<bar>turn (uint t) - \<phi>\<bar> \<le> turn 3"
      using oct[of dz dx] assms(3) by auto
    have "\<bar>turn (uint (16384 - t)) - (pi / 2 - \<phi>)\<bar> \<le> turn 3" using t(4) by (simp add: uint_plus_small[OF t(3)] turn_parts abs_le_iff)
    then show ?thesis using 2 guard t(1) angle_of_turned(1)[OF t(2)] by (auto simp: geo_atan_def)
  next
    case 3
    then obtain t \<phi> where t: "atan_at g (- dx) dz = Inr t" "angle_of (- dx) dz \<phi>" "uint t \<le> 8193" "\<bar>turn (uint t) - \<phi>\<bar> \<le> turn 3"
      using oct[of "- dx" dz] assms(2) by auto
    have "\<exists>\<theta>. angle_of dx dz \<theta> \<and> \<bar>turn (uint (- t)) - \<theta>\<bar> \<le> turn 3"
      using t(4) angle_of_turned(7,8)[OF t(2)]
      by (cases "uint t = 0") (force simp: uint_opposite turn_parts turn_quarter abs_le_iff)+
    then show ?thesis using 3 guard t(1) by (auto simp: geo_atan_def)
  next
    case 4
    then obtain t \<phi> where t: "atan_at g dz (- dx) = Inr t" "angle_of dz (- dx) \<phi>" "uint t \<le> 8193" "\<bar>turn (uint t) - \<phi>\<bar> \<le> turn 3"
      using oct[of dz "- dx"] assms(3) by auto
    have "\<bar>turn (uint (49152 + t)) - (3 * pi / 2 + \<phi>)\<bar> \<le> turn 3" using t(4) by (simp add: uint_plus_small[OF t(3)] turn_parts abs_le_iff)
    then show ?thesis using 4 guard t(1) angle_of_turned(5)[OF t(2)] by (auto simp: geo_atan_def)
  next
    case 5
    then obtain t \<phi> where t: "atan_at g dx (- dz) = Inr t" "angle_of dx (- dz) \<phi>" "uint t \<le> 8193" "\<bar>turn (uint t) - \<phi>\<bar> \<le> turn 3"
      using oct[of dx "- dz"] assms(2) by auto
    have "\<bar>turn (uint (32768 - t)) - (pi - \<phi>)\<bar> \<le> turn 3" using t(4) by (simp add: uint_plus_small[OF t(3)] turn_parts abs_le_iff)
    then show ?thesis using 5 guard t(1) angle_of_turned(3)[OF t(2)] by (auto simp: geo_atan_def)
  next
    case 6
    then obtain t \<phi> where t: "atan_at g (- dz) dx = Inr t" "angle_of (- dz) dx \<phi>" "uint t \<le> 8193" "\<bar>turn (uint t) - \<phi>\<bar> \<le> turn 3"
      using oct[of "- dz" dx] assms(3) by auto
    have "\<bar>turn (uint (16384 + t)) - (pi / 2 + \<phi>)\<bar> \<le> turn 3" using t(4) by (simp add: uint_plus_small[OF t(3)] turn_parts abs_le_iff)
    then show ?thesis using 6 guard t(1) angle_of_turned(2)[OF t(2)] by (auto simp: geo_atan_def)
  next
    case 7
    then obtain t \<phi> where t: "atan_at g dx dz = Inr t" "angle_of (- dx) (- dz) \<phi>" "uint t \<le> 8193" "\<bar>turn (uint t) - \<phi>\<bar> \<le> turn 3"
      using oct[of "- dx" "- dz"] assms(2) by auto
    have "\<bar>turn (uint (32768 + t)) - (pi + \<phi>)\<bar> \<le> turn 3" using t(4) by (simp add: uint_plus_small[OF t(3)] turn_parts abs_le_iff)
    then show ?thesis using 7 guard t(1) angle_of_turned(4)[OF t(2)] by (auto simp: geo_atan_def)
  next
    case 8
    then obtain t \<phi> where t: "atan_at g dz dx = Inr t" "angle_of (- dz) (- dx) \<phi>" "uint t \<le> 8193" "\<bar>turn (uint t) - \<phi>\<bar> \<le> turn 3"
      using oct[of "- dz" "- dx"] assms(3) guard by auto
    have "\<bar>turn (uint (49152 - t)) - (3 * pi / 2 - \<phi>)\<bar> \<le> turn 3" using t(4) by (simp add: uint_plus_small[OF t(3)] turn_parts abs_le_iff)
    then show ?thesis using 8 guard t(1) angle_of_turned(6)[OF t(2)] by (auto simp: geo_atan_def)
  qed
qed

subsection \<open>Moving and changing coordinates\<close>

lemma sdiv_close:
  fixes p :: int
  shows "\<bar>32768 * (p sdiv 32768) - p\<bar> \<le> 32767"
proof -
  have d: "32768 * (\<bar>p\<bar> div 32768) + \<bar>p\<bar> mod 32768 = \<bar>p\<bar>" by simp
  moreover have "0 \<le> \<bar>p\<bar> mod 32768" "\<bar>p\<bar> mod 32768 < 32768" by simp_all
  ultimately have "\<bar>32768 * (\<bar>p\<bar> div 32768) - \<bar>p\<bar>\<bar> \<le> 32767" by linarith
  then show ?thesis by (cases "0 < p"; cases "p = 0") (auto simp: signed_divide_int_def)
qed

lemma scaled_close:
  assumes "\<bar>a\<bar> \<le> 65536" and "\<bar>b\<bar> \<le> 32767"
  shows "\<exists>q. scaled a b = Inr q \<and> \<bar>q\<bar> \<le> \<bar>a\<bar> \<and> \<bar>32768 * q - a * b\<bar> \<le> 32767"
proof -
  have m: "\<bar>a * b\<bar> \<le> \<bar>a\<bar> * 32767" unfolding abs_mult by (rule mult_left_mono[OF assms(2)]) simp
  have "in_int (a * b)" unfolding in_int_def using m assms(1) by linarith
  then have "scaled a b = Inr ((a * b) sdiv 32768)" by (simp add: scaled_def)
  moreover have "\<bar>(a * b) sdiv 32768\<bar> \<le> \<bar>a\<bar>" using m sdiv_close[of "a * b"] by linarith
  ultimately show ?thesis using sdiv_close[of "a * b"] by blast
qed

lemma rotated_close:
  assumes "\<bar>a\<bar> \<le> 65536" and "\<bar>b\<bar> \<le> 65536" and "\<bar>u\<bar> \<le> 32767" and "\<bar>v\<bar> \<le> 32767"
  shows "\<exists>q. rotated a (Inr u) b (Inr v) = Inr q \<and> \<bar>q\<bar> \<le> \<bar>a\<bar> + \<bar>b\<bar> \<and> \<bar>32768 * q - (a * u + b * v)\<bar> \<le> 65534"
proof -
  obtain p q where p: "scaled a u = Inr p" "\<bar>p\<bar> \<le> \<bar>a\<bar>" "\<bar>32768 * p - a * u\<bar> \<le> 32767"
    and q: "scaled b v = Inr q" "\<bar>q\<bar> \<le> \<bar>b\<bar>" "\<bar>32768 * q - b * v\<bar> \<le> 32767"
    using scaled_close[OF assms(1,3)] scaled_close[OF assms(2,4)] by blast
  have "in_int (p + q)" unfolding in_int_def using p(2) q(2) assms(1,2) by linarith
  then have "rotated a (Inr u) b (Inr v) = Inr (p + q)" using p(1) q(1) by (simp add: rotated_def)
  moreover have "\<bar>p + q\<bar> \<le> \<bar>a\<bar> + \<bar>b\<bar>" using p(2) q(2) by linarith
  moreover have "\<bar>32768 * (p + q) - (a * u + b * v)\<bar> \<le> 65534"
  proof -
    have "32768 * (p + q) - (a * u + b * v) = (32768 * p - a * u) + (32768 * q - b * v)" by (simp add: algebra_simps)
    then show ?thesis using p(3) q(3) by linarith
  qed
  ultimately show ?thesis by blast
qed

text \<open>A position is near: its sums with another near one do not overflow.\<close>

definition near :: "sCoordinate \<Rightarrow> bool" where
  "near s \<longleftrightarrow> \<bar>co_x s\<bar> \<le> 1000000000 \<and> \<bar>co_y s\<bar> \<le> 1000000000 \<and> \<bar>co_z s\<bar> \<le> 1000000000"

lemma near_add: "near s \<Longrightarrow> \<bar>a\<bar> \<le> 1000000000 \<Longrightarrow> in_int (a + co_x s) \<and> in_int (a + co_y s) \<and> in_int (a + co_z s)"
  by (auto simp: near_def in_int_def)

lemma outward_ok:
  assumes "m obj = Some p" and "m sys = Some s" and "m res = Some old" and "res \<noteq> obj" and "res \<noteq> sys"
    and "geo_cos g (co_xzRotation s) = Inr k" and "geo_sin g (co_xzRotation s) = Inr n" and "\<bar>k\<bar> \<le> 32767" and "\<bar>n\<bar> \<le> 32767"
    and "\<bar>co_x p\<bar> \<le> 65536" and "\<bar>co_z p\<bar> \<le> 65536" and "near p" and "near s"
  shows "\<exists>X Z. geo_transformCoordinatesOutward g obj sys res m
        = Inr (m(res \<mapsto> \<lparr> co_x = X + co_x s, co_y = co_y p + co_y s, co_z = Z + co_z s, co_xzRotation = co_xzRotation p + co_xzRotation s \<rparr>))
      \<and> \<bar>X\<bar> \<le> \<bar>co_x p\<bar> + \<bar>co_z p\<bar> \<and> \<bar>Z\<bar> \<le> \<bar>co_x p\<bar> + \<bar>co_z p\<bar>
      \<and> \<bar>32768 * X - (co_x p * k + co_z p * n)\<bar> \<le> 65534 \<and> \<bar>32768 * Z - (- co_x p * n + co_z p * k)\<bar> \<le> 65534"
proof -
  obtain X where X: "rotated (co_x p) (Inr k) (co_z p) (Inr n) = Inr X" "\<bar>X\<bar> \<le> \<bar>co_x p\<bar> + \<bar>co_z p\<bar>"
    "\<bar>32768 * X - (co_x p * k + co_z p * n)\<bar> \<le> 65534"
    using rotated_close[OF assms(10,11,8,9)] by blast
  have minus: "\<bar>- co_x p\<bar> \<le> 65536" using assms(10) by simp
  obtain Z where Z: "rotated (- co_x p) (Inr n) (co_z p) (Inr k) = Inr Z" "\<bar>Z\<bar> \<le> \<bar>- co_x p\<bar> + \<bar>co_z p\<bar>"
    "\<bar>32768 * Z - (- co_x p * n + co_z p * k)\<bar> \<le> 65534"
    using rotated_close[OF minus assms(11,9,8)] by blast
  have "in_int (X + co_x s)" "in_int (Z + co_z s)" "in_int (co_y p + co_y s)" "in_int (- co_x p)"
    using near_add[OF assms(13), of X] near_add[OF assms(13), of Z] near_add[OF assms(13), of "co_y p"] X(2) Z(2) assms(10-12)
    by (auto simp: near_def in_int_def)
  then have "geo_transformCoordinatesOutward g obj sys res m
      = Inr (m(res \<mapsto> \<lparr> co_x = X + co_x s, co_y = co_y p + co_y s, co_z = Z + co_z s, co_xzRotation = co_xzRotation p + co_xzRotation s \<rparr>))"
    using assms(1-7) X(1) Z(1) by (cases old) (simp add: geo_transformCoordinatesOutward_def ineg_def)
  then show ?thesis using X(2,3) Z(2,3) by auto
qed

lemma inward_ok:
  assumes "m obj = Some p" and "m sys = Some s" and "m res = Some old" and "res \<noteq> sys"
    and "geo_cos g (- co_xzRotation s) = Inr k" and "geo_sin g (- co_xzRotation s) = Inr n" and "\<bar>k\<bar> \<le> 32767" and "\<bar>n\<bar> \<le> 32767"
    and "\<bar>co_x p - co_x s\<bar> \<le> 65536" and "\<bar>co_z p - co_z s\<bar> \<le> 65536" and "in_int (co_y p - co_y s)"
  shows "\<exists>x z. geo_transformCoordinatesInward g obj sys res m
        = Inr (m(res \<mapsto> \<lparr> co_x = x, co_y = co_y p - co_y s, co_z = z, co_xzRotation = co_xzRotation p - co_xzRotation s \<rparr>))
      \<and> \<bar>32768 * x - ((co_x p - co_x s) * k + (co_z p - co_z s) * n)\<bar> \<le> 65534
      \<and> \<bar>32768 * z - (- (co_x p - co_x s) * n + (co_z p - co_z s) * k)\<bar> \<le> 65534"
proof -
  let ?a = "co_x p - co_x s" and ?b = "co_z p - co_z s"
  have minus: "\<bar>- ?a\<bar> \<le> 65536" using assms(9) by simp
  obtain x z where x: "rotated ?a (Inr k) ?b (Inr n) = Inr x" "\<bar>32768 * x - (?a * k + ?b * n)\<bar> \<le> 65534"
    and z: "rotated (- ?a) (Inr n) ?b (Inr k) = Inr z" "\<bar>32768 * z - (- ?a * n + ?b * k)\<bar> \<le> 65534"
    using rotated_close[OF assms(9,10,7,8)] rotated_close[OF minus assms(10,8,7)] by blast
  have i: "isub (co_x p) (co_x s) = Inr ?a" "isub (co_z p) (co_z s) = Inr ?b" "isub (co_y p) (co_y s) = Inr (co_y p - co_y s)"
    "ineg ?a = Inr (- ?a)"
    using assms(9-11) by (auto simp: isub_def ineg_def in_int_def intro!: iadd_ok[THEN trans])
  have "geo_transformCoordinatesInward g obj sys res m
      = Inr (m(res \<mapsto> \<lparr> co_x = x, co_y = co_y p - co_y s, co_z = z, co_xzRotation = co_xzRotation p - co_xzRotation s \<rparr>))"
  proof (cases "res = obj")
    case True
    then show ?thesis using assms(1-6) x(1) z(1) i by (cases old) (simp add: geo_transformCoordinatesInward_def)
  next
    case False
    then show ?thesis using assms(1-6) x(1) z(1) i by (cases old) (simp add: geo_transformCoordinatesInward_def)
  qed
  then show ?thesis using x(2) z(2) by blast
qed

text \<open>Sine and cosine of one angle lie on a circle, and turning back undoes a turn.\<close>

lemma circle_close:
  assumes "tables_ok g" and "geo_sin g w = Inr n" and "geo_cos g w = Inr k"
  shows "\<bar>k * k + n * n - 1073741824\<bar> \<le> 131072"
proof -
  let ?s = "sin (turn (uint w))" and ?c = "cos (turn (uint w))"
  have "sin (turn (uint (w + 16384))) = ?c"
  proof -
    have "turn (uint (w + 16384)) = turn (uint w) + pi / 2 \<or> turn (uint (w + 16384)) = turn (uint w) + pi / 2 - 2 * pi"
      by (simp add: uint_turned turn_def field_simps)
    then show ?thesis using three_quarters[of 0] by (auto simp: sin_add sin_diff)
  qed
  then have e: "\<bar>of_int n - 32768 * ?s\<bar> \<le> 1" "\<bar>of_int k - 32768 * ?c\<bar> \<le> 1"
    using geo_sin_close[OF assms(1), of w] geo_sin_close[OF assms(1), of "w + 16384"] assms(2,3) by (auto simp: geo_cos_turned)
  define a b where "a = of_int n - 32768 * ?s" and "b = of_int k - 32768 * ?c"
  have ab: "\<bar>a\<bar> \<le> 1" "\<bar>b\<bar> \<le> 1" using e by (simp_all add: a_def b_def)
  have "(\<bar>?s\<bar> + \<bar>?c\<bar>)\<^sup>2 \<le> (3 / 2)\<^sup>2"
  proof -
    have "2 * (\<bar>?s\<bar> * \<bar>?c\<bar>) \<le> ?s\<^sup>2 + ?c\<^sup>2" using sum_squares_bound[of "\<bar>?s\<bar>" "\<bar>?c\<bar>"] by (simp add: power2_eq_square)
    then show ?thesis by (simp add: power2_sum field_simps)
  qed
  then have "\<bar>?s\<bar> + \<bar>?c\<bar> \<le> 3 / 2" by (rule power2_le_imp_le) simp
  moreover have "\<bar>?s * a\<bar> \<le> \<bar>?s\<bar>" "\<bar>?c * b\<bar> \<le> \<bar>?c\<bar>" using ab by (simp_all add: abs_mult mult_left_le)
  moreover have "\<bar>a * a\<bar> \<le> 1" "\<bar>b * b\<bar> \<le> 1" unfolding abs_mult using ab by (auto simp del: abs_mult_self_eq intro: mult_le_one)
  moreover have "(of_int k * of_int k + of_int n * of_int n - 1073741824 :: real) = 65536 * (?s * a + ?c * b) + (a * a + b * b)"
  proof -
    have square: "(32768 * C + b) * (32768 * C + b) + (32768 * S + a) * (32768 * S + a) - 1073741824
        = 1073741824 * (S\<^sup>2 + C\<^sup>2 - 1) + 65536 * (S * a + C * b) + (a * a + b * b)" for S C :: real
      by (simp add: algebra_simps power2_eq_square)
    have "of_int n = 32768 * ?s + a" "of_int k = 32768 * ?c + b" by (simp_all add: a_def b_def)
    then have "(of_int k * of_int k + of_int n * of_int n - 1073741824 :: real)
        = 1073741824 * (?s\<^sup>2 + ?c\<^sup>2 - 1) + 65536 * (?s * a + ?c * b) + (a * a + b * b)"
      using square[of ?c ?s] by simp
    then show ?thesis by simp
  qed
  moreover have "\<bar>s\<bar> + \<bar>c\<bar> \<le> 3 / 2 \<Longrightarrow> \<bar>p\<bar> \<le> \<bar>s\<bar> \<Longrightarrow> \<bar>q\<bar> \<le> \<bar>c\<bar> \<Longrightarrow> \<bar>u\<bar> \<le> 1 \<Longrightarrow> \<bar>v\<bar> \<le> 1
      \<Longrightarrow> \<bar>65536 * (p + q) + (u + v)\<bar> \<le> 131072" for s c p q u v :: real
  proof -
    assume h: "\<bar>s\<bar> + \<bar>c\<bar> \<le> 3 / 2" "\<bar>p\<bar> \<le> \<bar>s\<bar>" "\<bar>q\<bar> \<le> \<bar>c\<bar>" "\<bar>u\<bar> \<le> 1" "\<bar>v\<bar> \<le> 1"
    have "\<bar>p + q\<bar> \<le> 3 / 2" "\<bar>u + v\<bar> \<le> 2" using h abs_triangle_ineq[of p q] abs_triangle_ineq[of u v] by linarith+
    then have "p + q \<le> 3 / 2" "- (3 / 2) \<le> p + q" "u + v \<le> 2" "- 2 \<le> u + v" by linarith+
    then show "\<bar>65536 * (p + q) + (u + v)\<bar> \<le> 131072" 
      using mult_left_mono[of "p + q" "3 / 2" 65536] mult_left_mono[of "- (3 / 2)" "p + q" 65536] unfolding abs_le_iff by simp
  qed
  ultimately have "\<bar>of_int k * of_int k + of_int n * of_int n - 1073741824 :: real\<bar> \<le> 131072" by metis
  then have "\<bar>of_int (k * k + n * n - 1073741824) :: real\<bar> \<le> 131072" by simp
  then show ?thesis unfolding of_int_abs[symmetric] by linarith
qed

lemma turned_back:
  fixes x z X Z x1 k n :: int
  assumes "\<bar>32768 * X - (x * k + z * n)\<bar> \<le> 65534" and "\<bar>32768 * Z - (- x * n + z * k)\<bar> \<le> 65534"
    and "\<bar>32768 * x1 - (X * k + Z * (- n))\<bar> \<le> 65534" and "\<bar>k\<bar> \<le> 32767" and "\<bar>n\<bar> \<le> 32767"
    and "\<bar>k * k + n * n - 1073741824\<bar> \<le> 131072"
  shows "8192 * \<bar>x1 - x\<bar> \<le> 49152 + \<bar>x\<bar>"
proof -
  define A where "A = 32768 * X - (x * k + z * n)"
  define B where "B = 32768 * Z - (- x * n + z * k)"
  define C where "C = 32768 * x1 - (X * k + Z * (- n))"
  define D where "D = k * k + n * n - 1073741824"
  have "1073741824 * (x1 - x) = 32768 * C + (k * A + - n * B) + x * D"
    unfolding A_def B_def C_def D_def by (simp add: algebra_simps)
  moreover have "\<bar>k * A\<bar> \<le> 32768 * 65534" "\<bar>- n * B\<bar> \<le> 32768 * 65534"
  proof -
    have "\<bar>A\<bar> \<le> 65534" "\<bar>B\<bar> \<le> 65534" "\<bar>k\<bar> \<le> 32768" "\<bar>- n\<bar> \<le> 32768" using assms(1,2,4,5) by (simp_all add: A_def B_def)
    then show "\<bar>k * A\<bar> \<le> 32768 * 65534" "\<bar>- n * B\<bar> \<le> 32768 * 65534"
      unfolding abs_mult using mult_mono[of "\<bar>k\<bar>" 32768 "\<bar>A\<bar>" 65534] mult_mono[of "\<bar>- n\<bar>" 32768 "\<bar>B\<bar>" 65534] by simp_all
  qed
  moreover have "\<bar>x * D\<bar> \<le> \<bar>x\<bar> * 131072" unfolding abs_mult D_def by (rule mult_left_mono[OF assms(6)]) simp
  moreover have "\<bar>C\<bar> \<le> 65534" using assms(3) by (simp add: C_def)
  ultimately show ?thesis by linarith
qed

lemma geo_init_ok:
  assumes "libm_ok fl_atan fl_sin" and "geo_init fl_atan fl_sin geo_start = Inr g"
  shows "tables_ok g"
  using geo_init_tables[OF assms(1), of geo_start] assms(2) by (auto simp: geo_start_def)

lemma geo_cos_close:
  assumes "tables_ok g"
  shows "\<exists>k. geo_cos g w = Inr k \<and> \<bar>k\<bar> \<le> 32767 \<and> \<bar>of_int k - 32768 * cos (turn (uint w))\<bar> \<le> 1"
proof -
  have "turn (uint (w + 16384)) = turn (uint w) + pi / 2 \<or> turn (uint (w + 16384)) = turn (uint w) - 3 * pi / 2"
    by (simp add: uint_turned turn_def field_simps)
  then have "sin (turn (uint (w + 16384))) = cos (turn (uint w))"
    using three_quarters[of 0] by (auto simp: sin_add sin_diff)
  then show ?thesis using geo_sin_close[OF assms, of "w + 16384"] by (simp add: geo_cos_turned)
qed

lemma root_below_bounds: "root_below n * root_below n \<le> n \<and> n < (root_below n + 1) * (root_below n + 1)"
proof (induction n rule: root_below.induct)
  case (1 n)
  show ?case
  proof (cases "n = 0")
    case False
    let ?r = "root_below (n div 4)"
    have ih: "?r * ?r \<le> n div 4" "n div 4 < (?r + 1) * (?r + 1)" using 1 False by auto
    have "4 * (?r * ?r) \<le> n" "n < 4 * ((?r + 1) * (?r + 1))" using ih by linarith+
    then have "(2 * ?r) * (2 * ?r) \<le> n" "n < (2 * ?r + 2) * (2 * ?r + 2)" by (simp_all add: algebra_simps)
    then show ?thesis using False by (subst (1 2 3 4) root_below.simps) (simp add: Let_def algebra_simps)
  qed (simp add: root_below.simps)
qed

lemma rint_sqrt_close:
  assumes "0 \<le> n"
  shows "0 \<le> rint_sqrt n \<and> \<bar>of_int (rint_sqrt n) - sqrt (of_int n)\<bar> < 1 / 2"
proof -
  define r where "r = int (root_below (nat n))"
  have r: "0 \<le> r" "r * r \<le> n" "n < (r + 1) * (r + 1)"
  proof -
    obtain N where N: "n = int N" using assms nonneg_int_cases by blast
    note b = root_below_bounds[of N]
    have "int (root_below N * root_below N) \<le> int N" "int N < int ((root_below N + 1) * (root_below N + 1))"
      using b of_nat_le_iff of_nat_less_iff by blast+
    then show "0 \<le> r" "r * r \<le> n" "n < (r + 1) * (r + 1)" unfolding r_def N by (simp_all add: algebra_simps)
  qed
  let ?d = "rint_sqrt n"
  have d: "?d = (if n > r * r + r then r + 1 else r)" by (simp add: rint_sqrt_def r_def)
  have "4 * n < (2 * ?d + 1) * (2 * ?d + 1)" "0 < ?d \<Longrightarrow> (2 * ?d - 1) * (2 * ?d - 1) < 4 * n" "0 \<le> ?d"
    using r unfolding d by (auto simp: algebra_simps split: if_splits)
  moreover have "sqrt (of_int n) < of_int ?d + 1 / 2" if "4 * n < (2 * ?d + 1) * (2 * ?d + 1)" "0 \<le> ?d"
  proof -
    have "of_int (4 * n) < (of_int ((2 * ?d + 1) * (2 * ?d + 1)) :: real)" using that(1) of_int_less_iff by blast
    then have "of_int n < (of_int ?d + 1 / 2 :: real)\<^sup>2" by (simp add: power2_eq_square algebra_simps)
    moreover have "0 \<le> (of_int ?d + 1 / 2 :: real)" using that(2) by simp
    ultimately show ?thesis using assms by (intro real_less_lsqrt) simp_all
  qed
  moreover have "of_int ?d - 1 / 2 < sqrt (of_int n)" if "0 < ?d \<Longrightarrow> (2 * ?d - 1) * (2 * ?d - 1) < 4 * n" "0 \<le> ?d"
  proof (cases "0 < ?d")
    case True
    have "of_int ((2 * ?d - 1) * (2 * ?d - 1)) < (of_int (4 * n) :: real)" using that(1)[OF True] of_int_less_iff by blast
    then have "(of_int ?d - 1 / 2 :: real)\<^sup>2 < of_int n" by (simp add: power2_eq_square algebra_simps)
    then show ?thesis by (rule real_less_rsqrt)
  next
    case False
    have "0 \<le> sqrt (of_int n)" using assms by simp
    moreover have "of_int ?d \<le> (0 :: real)" using False by simp
    ultimately show ?thesis by linarith
  qed
  ultimately show ?thesis unfolding abs_less_iff by linarith
qed

lemma distance_ok:
  assumes "m a = Some p" and "m b = Some q" and "\<bar>co_x p - co_x q\<bar> \<le> 32767" and "\<bar>co_z p - co_z q\<bar> \<le> 32767"
  shows "geo_distance m a b = Inr (rint_sqrt ((co_x p - co_x q)\<^sup>2 + (co_z p - co_z q)\<^sup>2))"
proof -
  let ?x = "co_x p - co_x q" and ?z = "co_z p - co_z q"
  have sq: "v * v \<le> 1073676289 \<and> 0 \<le> v * v" if "\<bar>v\<bar> \<le> 32767" for v :: int
    using mult_mono[OF that that] by (simp add: abs_mult_self_eq flip: abs_mult)
  have "in_int (?x * ?x)" "in_int (?z * ?z)" "in_int (?x * ?x + ?z * ?z)"
    using sq[OF assms(3)] sq[OF assms(4)] unfolding in_int_def by linarith+
  moreover have "isub (co_x p) (co_x q) = Inr ?x" "isub (co_z p) (co_z q) = Inr ?z"
    using assms(3,4) by (auto simp: isub_def in_int_def intro!: iadd_ok[THEN trans])
  ultimately show ?thesis using assms(1,2) by (simp add: geo_distance_def power2_eq_square)
qed

lemma geo_cos_opposite:
  assumes "tables_ok g"
  shows "geo_cos g (- w) = geo_cos g w"
proof -
  obtain a where a: "uint w = a" by blast
  have bounds: "0 \<le> a" "a < 65536" using uint_angle[of w] a by auto
  have z: "ge_sin_table g ! 0 = 0" using assms by (simp add: tables_ok_def)
  consider "a = 0" | "0 < a" "a < 16384" | "a = 16384" | "16384 < a" "a < 32768"
    | "a = 32768" | "32768 < a" "a < 49152" | "a = 49152" | "49152 < a" using bounds by linarith
  then show ?thesis
    using bounds z by cases (simp_all add: geo_cos_def Let_def uint_opposite a sin_table_at[OF assms])
qed

lemma scaled_one: "0 < a \<Longrightarrow> a \<le> 32768 \<Longrightarrow> scaled a 32767 = Inr (a - 1)"
proof -
  assume a: "0 < a" "a \<le> 32768"
  obtain q where q: "scaled a 32767 = Inr q" "\<bar>32768 * q - a * 32767\<bar> \<le> 32767" using scaled_close[of a 32767] a by auto
  have "q = (a * 32767) sdiv 32768" using q(1) by (simp add: scaled_def res_iff)
  also have "\<dots> = (a * 32767) div 32768" using a by (simp add: signed_divide_int_def)
  also have "\<dots> = a - 1"
  proof -
    have "a * 32767 = (a - 1) * 32768 + (32768 - a)" by simp
    then have "(a * 32767) div 32768 = (a - 1) + (32768 - a) div 32768" by (metis div_mult_self3 zero_neq_numeral)
    then show ?thesis using a by simp
  qed
  finally show ?thesis using q(1) by simp
qed

lemma scaled_real:
  fixes s :: real
  assumes "\<bar>32768 * a - d * n\<bar> \<le> 32767" and "\<bar>of_int n - 32768 * s\<bar> \<le> 1"
  shows "\<bar>of_int a - of_int d * s\<bar> \<le> 1 + \<bar>of_int d\<bar> / 32768"
proof -
  have "\<bar>of_int (32768 * a - d * n) :: real\<bar> \<le> 32767" using assms(1) by (metis of_int_abs of_int_le_numeral_iff)
  then have 1: "\<bar>32768 * of_int a - of_int d * of_int n :: real\<bar> \<le> 32768" by simp
  have 2: "\<bar>of_int d * (of_int n - 32768 * s)\<bar> \<le> \<bar>of_int d\<bar>"
    unfolding abs_mult using mult_left_mono[OF assms(2), of "\<bar>of_int d\<bar>"] by simp
  have sum: "32768 * (of_int a - of_int d * s) = (32768 * of_int a - of_int d * of_int n) + of_int d * (of_int n - 32768 * s)"
    by (simp add: algebra_simps)
  have "\<bar>32768 * (of_int a - of_int d * s)\<bar> \<le> 32768 + \<bar>of_int d\<bar>"
    unfolding sum by (rule order_trans[OF abs_triangle_ineq add_mono[OF 1 2]])
  then have "32768 * \<bar>of_int a - of_int d * s\<bar> \<le> 32768 + \<bar>of_int d\<bar>" unfolding abs_mult by simp
  moreover have "32768 * e \<le> 32768 + f \<Longrightarrow> e \<le> 1 + f / 32768" for e f :: real by (simp add: field_simps)
  ultimately show ?thesis by blast
qed

subsection \<open>Properties\<close>

text \<open>C36: after \<open>geo_init\<close>, \<open>geo_atan\<close> gives for every direction but \<open>(0, 0)\<close>, with components of at most
  262143 mm, the angle of that direction to within three 65536ths of a circle: it never reads outside its
  table nor divides by zero, and the eight sections of the circle fit together.\<close>

theorem geo_atan_close:
  assumes "libm_ok fl_atan fl_sin" and "geo_init fl_atan fl_sin geo_start = Inr g"
    and "\<bar>dx\<bar> \<le> 262143" and "\<bar>dz\<bar> \<le> 262143" and "(dx, dz) \<noteq> (0, 0)"
  shows "\<exists>w \<theta>. geo_atan g dx dz = Inr (w, []) \<and> angle_of dx dz \<theta> \<and> \<bar>turn (uint w) - \<theta>\<bar> \<le> turn 3"
  by (rule geo_atan_angle[OF geo_init_ok[OF assms(1,2)] assms(3-5)])

text \<open>C37: a position at most 65.5 m away, the two plane coordinates taken together, that is taken out of a
  coordinate system and back in again is where it was, to within 6 mm and one 8192th of its coordinates; its
  height and its rotation are exactly what they were, the rotation although it wraps around. The position and
  the system may be rotated in any way, and neither is more than a thousand kilometres from its origin. (Farther
  away the products no longer fit an \<open>int\<close>, as shown below.)\<close>

theorem geo_transform_roundtrip:
  assumes "libm_ok fl_atan fl_sin" and "geo_init fl_atan fl_sin geo_start = Inr g"
    and "m obj = Some p" and "m sys = Some s" and "m out = Some old" and "distinct [obj, sys, out]"
    and "\<bar>co_x p\<bar> + \<bar>co_z p\<bar> \<le> 65536" and "near p" and "near s"
  shows "\<exists>m1 m2 q. geo_transformCoordinatesOutward g obj sys out m = Inr m1
      \<and> geo_transformCoordinatesInward g out sys out m1 = Inr m2 \<and> m2 out = Some q
      \<and> 8192 * \<bar>co_x q - co_x p\<bar> \<le> 49152 + \<bar>co_x p\<bar> \<and> 8192 * \<bar>co_z q - co_z p\<bar> \<le> 49152 + \<bar>co_z p\<bar>
      \<and> co_y q = co_y p \<and> co_xzRotation q = co_xzRotation p"
proof -
  note t = geo_init_ok[OF assms(1,2)]
  let ?w = "co_xzRotation s"
  obtain n k where n: "geo_sin g ?w = Inr n" "\<bar>n\<bar> \<le> 32767" and k: "geo_cos g ?w = Inr k" "\<bar>k\<bar> \<le> 32767"
    using geo_sin_close[OF t, of ?w] geo_cos_close[OF t, of ?w] by blast
  have minusw: "geo_sin g (- ?w) = Inr (- n)" "geo_cos g (- ?w) = Inr k"
    using geo_sin_opposite[OF t, of ?w] geo_cos_opposite[OF t, of ?w] n(1) k(1) by simp_all
  have far: "\<bar>co_x p\<bar> \<le> 65536" "\<bar>co_z p\<bar> \<le> 65536" using assms(7) by linarith+
  obtain X Z where out: "geo_transformCoordinatesOutward g obj sys out m
        = Inr (m(out \<mapsto> \<lparr> co_x = X + co_x s, co_y = co_y p + co_y s, co_z = Z + co_z s, co_xzRotation = co_xzRotation p + ?w \<rparr>))"
    and XZ: "\<bar>X\<bar> \<le> \<bar>co_x p\<bar> + \<bar>co_z p\<bar>" "\<bar>Z\<bar> \<le> \<bar>co_x p\<bar> + \<bar>co_z p\<bar>"
    "\<bar>32768 * X - (co_x p * k + co_z p * n)\<bar> \<le> 65534" "\<bar>32768 * Z - (- co_x p * n + co_z p * k)\<bar> \<le> 65534"
    using outward_ok[OF assms(3,4,5) _ _ k(1) n(1) k(2) n(2) far assms(8,9)] assms(6) by auto
  let ?p = "\<lparr> co_x = X + co_x s, co_y = co_y p + co_y s, co_z = Z + co_z s, co_xzRotation = co_xzRotation p + ?w \<rparr>"
  let ?m = "m(out \<mapsto> ?p)"
  have at: "?m out = Some ?p" "?m sys = Some s" using assms(4,6) by auto
  have minus: "\<bar>- n\<bar> \<le> 32767" and other: "out \<noteq> sys" using n(2) assms(6) by auto
  have small: "\<bar>co_x ?p - co_x s\<bar> \<le> 65536" "\<bar>co_z ?p - co_z s\<bar> \<le> 65536" "in_int (co_y ?p - co_y s)"
  proof -
    have "\<bar>co_y p\<bar> \<le> 1000000000" using assms(8) by (simp add: near_def)
    then show "in_int (co_y ?p - co_y s)" by (auto simp: in_int_def)
  qed (use XZ(1,2) assms(7) in auto)
  obtain x z where back_in: "geo_transformCoordinatesInward g out sys out ?m
        = Inr (?m(out \<mapsto> \<lparr> co_x = x, co_y = co_y ?p - co_y s, co_z = z, co_xzRotation = co_xzRotation ?p - ?w \<rparr>))"
    and raw: "\<bar>32768 * x - ((co_x ?p - co_x s) * k + (co_z ?p - co_z s) * - n)\<bar> \<le> 65534"
      "\<bar>32768 * z - (- (co_x ?p - co_x s) * - n + (co_z ?p - co_z s) * k)\<bar> \<le> 65534"
    using inward_ok[OF at(1) at(2) at(1) other minusw(2,1) k(2) minus small] by blast
  have xz: "\<bar>32768 * x - (X * k + Z * (- n))\<bar> \<le> 65534" "\<bar>32768 * z - (- X * (- n) + Z * k)\<bar> \<le> 65534"
    using raw by simp_all
  note circle = circle_close[OF t n(1) k(1)]
  have "8192 * \<bar>x - co_x p\<bar> \<le> 49152 + \<bar>co_x p\<bar>"
    by (rule turned_back[OF XZ(3,4) xz(1) k(2) n(2) circle])
  moreover have "8192 * \<bar>z - co_z p\<bar> \<le> 49152 + \<bar>co_z p\<bar>"
  proof (rule turned_back[of Z "co_z p" k "co_x p" "- n" X z])
    show "\<bar>32768 * Z - (co_z p * k + co_x p * - n)\<bar> \<le> 65534" "\<bar>32768 * X - (- co_z p * - n + co_x p * k)\<bar> \<le> 65534"
      "\<bar>32768 * z - (Z * k + X * - (- n))\<bar> \<le> 65534" "\<bar>k\<bar> \<le> 32767" "\<bar>- n\<bar> \<le> 32767" "\<bar>k * k + - n * - n - 1073741824\<bar> \<le> 131072"
      using XZ(3,4) xz(2) k(2) n(2) circle by (simp_all add: algebra_simps)
  qed
  ultimately show ?thesis using out back_in by auto
qed

text \<open>\<open>geo_moveForward\<close> moves a position by the distance in its direction, to within a millimetre
  and one 32768th of the distance, and keeps its height and its direction.\<close>

theorem geo_moveForward_moves:
  assumes "libm_ok fl_atan fl_sin" and "geo_init fl_atan fl_sin geo_start = Inr g"
    and "m c = Some p" and "near p" and "\<bar>distance\<bar> \<le> 65536"
  shows "\<exists>q. geo_moveForward g c distance m = Inr (m(c \<mapsto> q)) \<and> co_y q = co_y p \<and> co_xzRotation q = co_xzRotation p
      \<and> \<bar>of_int (co_x q - co_x p) - of_int distance * sin (turn (uint (co_xzRotation p)))\<bar> \<le> 1 + \<bar>of_int distance\<bar> / 32768
      \<and> \<bar>of_int (co_z q - co_z p) - of_int distance * cos (turn (uint (co_xzRotation p)))\<bar> \<le> 1 + \<bar>of_int distance\<bar> / 32768"
proof -
  note t = geo_init_ok[OF assms(1,2)]
  let ?w = "co_xzRotation p"
  obtain n k where n: "geo_sin g ?w = Inr n" "\<bar>n\<bar> \<le> 32767" "\<bar>of_int n - 32768 * sin (turn (uint ?w))\<bar> \<le> 1"
    and k: "geo_cos g ?w = Inr k" "\<bar>k\<bar> \<le> 32767" "\<bar>of_int k - 32768 * cos (turn (uint ?w))\<bar> \<le> 1"
    using geo_sin_close[OF t, of ?w] geo_cos_close[OF t, of ?w] by blast
  obtain a b where a: "scaled distance n = Inr a" "\<bar>a\<bar> \<le> \<bar>distance\<bar>" "\<bar>32768 * a - distance * n\<bar> \<le> 32767"
    and b: "scaled distance k = Inr b" "\<bar>b\<bar> \<le> \<bar>distance\<bar>" "\<bar>32768 * b - distance * k\<bar> \<le> 32767"
    using scaled_close[OF assms(5) n(2)] scaled_close[OF assms(5) k(2)] by blast
  have "in_int (co_x p + a)" "in_int (co_z p + b)"
    using near_add[OF assms(4), of a] near_add[OF assms(4), of b] a(2) b(2) assms(5) by (simp_all add: add.commute)
  then have "geo_moveForward g c distance m = Inr (m(c \<mapsto> p\<lparr> co_x := co_x p + a, co_z := co_z p + b \<rparr>))"
    using assms(3) n(1) k(1) a(1) b(1) by (simp add: geo_moveForward_def)
  moreover note scaled_real[OF a(3) n(3)] scaled_real[OF b(3) k(3)]
  ultimately show ?thesis by (intro exI[of _ "p\<lparr> co_x := co_x p + a, co_z := co_z p + b \<rparr>"]) simp
qed

text \<open>\<open>geo_distance\<close> of two positions less than 32768 mm apart in each coordinate is their distance in the
  plane rounded to the nearest millimetre.\<close>

theorem geo_distance_nearest:
  assumes "m a = Some p" and "m b = Some q" and "\<bar>co_x p - co_x q\<bar> \<le> 32767" and "\<bar>co_z p - co_z q\<bar> \<le> 32767"
  shows "\<exists>d. geo_distance m a b = Inr d \<and> 0 \<le> d
      \<and> \<bar>of_int d - sqrt (of_int ((co_x p - co_x q)\<^sup>2 + (co_z p - co_z q)\<^sup>2))\<bar> < 1 / 2"
  using distance_ok[OF assms] rint_sqrt_close[of "(co_x p - co_x q)\<^sup>2 + (co_z p - co_z q)\<^sup>2"] by simp

text \<open>the largest entry of the sine table is 32767 and stands for one, so that a system that is not
  rotated at all is no identity: positions are pulled one millimetre towards its origin.\<close>

theorem geo_unrotated_system_shrinks:
  assumes "libm_ok fl_atan fl_sin" and "geo_init fl_atan fl_sin geo_start = Inr g"
    and "m obj = Some p" and "m sys = Some s" and "m out = Some old" and "distinct [obj, sys, out]"
    and "0 < co_x p" and "co_x p \<le> 32768" and "0 < co_z p" and "co_z p \<le> 32768" and "near p" and "near s" and "co_xzRotation s = 0"
  shows "\<exists>q. geo_transformCoordinatesOutward g obj sys out m = Inr (m(out \<mapsto> q))
      \<and> co_x q = co_x p + co_x s - 1 \<and> co_z q = co_z p + co_z s - 1"
proof -
  note t = geo_init_ok[OF assms(1,2)]
  have k: "geo_cos g (co_xzRotation s) = Inr 32767" and n: "geo_sin g (co_xzRotation s) = Inr 0"
    using t assms(13) sin_table_at[OF t] by (simp_all add: geo_cos_def geo_sin_def Let_def tables_ok_def)
  let ?q = "old\<lparr> co_x := co_x p - 1 + co_x s, co_z := co_z p - 1 + co_z s, co_y := co_y p + co_y s, co_xzRotation := co_xzRotation p \<rparr>"
  have r: "rotated (co_x p) (Inr 32767) (co_z p) (Inr 0) = Inr (co_x p - 1)" "rotated (- co_x p) (Inr 0) (co_z p) (Inr 32767) = Inr (co_z p - 1)"
    using scaled_one[of "co_x p"] scaled_one[of "co_z p"] assms(7-10) by (simp_all add: rotated_def scaled_def in_int_def)
  have i: "in_int (co_x p - 1 + co_x s)" "in_int (co_z p - 1 + co_z s)" "in_int (co_y p + co_y s)" "ineg (co_x p) = Inr (- co_x p)"
    using assms(7-12) by (auto simp: near_def in_int_def ineg_def intro!: iadd_ok[THEN trans])
  have "geo_transformCoordinatesOutward g obj sys out m = Inr (m(out \<mapsto> ?q))"
    using assms(3-6,13) k n r i by (simp add: geo_transformCoordinatesOutward_def)
  then show ?thesis by (intro exI[of _ ?q]) simp
qed

text \<open>\<open>geo_transformCoordinatesOutward\<close> may not write its result over the position: the new x is already
  there when z is computed. A quarter turn in place loses the x coordinate altogether.\<close>

theorem geo_outward_in_place_loses:
  assumes "libm_ok fl_atan fl_sin" and "geo_init fl_atan fl_sin geo_start = Inr g"
    and "m obj = Some p" and "m sys = Some s" and "obj \<noteq> sys" and "near p" and "near s" and "co_xzRotation s = 16384"
    and "0 < co_x p" and "co_x p \<le> 32768" and "co_z p = 0" and "co_x s = 0"
  shows "\<exists>q. geo_transformCoordinatesOutward g obj sys obj m = Inr (m(obj \<mapsto> q)) \<and> co_x q = 0 \<and> co_z q = co_z s"
proof -
  note t = geo_init_ok[OF assms(1,2)]
  have k: "geo_cos g (co_xzRotation s) = Inr 0" and n: "geo_sin g (co_xzRotation s) = Inr 32767"
    using t assms(8) sin_table_at[OF t] by (simp_all add: geo_cos_def geo_sin_def Let_def tables_ok_def)
  have "in_int (co_y p + co_y s)" "in_int (co_z s)" using assms(6,7) by (auto simp: near_def in_int_def)
  then have "geo_transformCoordinatesOutward g obj sys obj m
      = Inr (m(obj \<mapsto> p\<lparr> co_x := 0, co_z := co_z s, co_y := co_y p + co_y s, co_xzRotation := co_xzRotation p + 16384 \<rparr>))"
    using assms(3-5,8-12) k n by (simp add: geo_transformCoordinatesOutward_def rotated_def scaled_def ineg_def in_int_def)
  then show ?thesis by (intro exI[of _ "p\<lparr> co_x := 0, co_z := co_z s, co_y := co_y p + co_y s, co_xzRotation := co_xzRotation p + 16384 \<rparr>"]) simp
qed

text \<open>beyond 262 metres \<open>geo_atan\<close> overflows; and two positions 47 metres apart have no \<open>geo_distance\<close>.\<close>

theorem geo_overflows_far_away:
  assumes "262144 \<le> dx" and "dx < dz" and "m a = Some p" and "m b = Some q" and "in_int (co_x p - co_x q)"
    and "46341 \<le> \<bar>co_x p - co_x q\<bar>" and "in_int (co_z p - co_z q)" and "dz \<le> INT_MAX"
  shows "geo_atan g dx dz = Inl SignedOverflow \<and> geo_distance m a b = Inl SignedOverflow"
proof
  have "\<not> in_int (dx * 8192)" using assms(1) by (simp add: in_int_def)
  then show "geo_atan g dx dz = Inl SignedOverflow"
    using assms(1,2) by (simp add: geo_atan_def atan_at_def imul_def rguard_def)
  let ?x = "co_x p - co_x q"
  have "46341 * 46341 \<le> \<bar>?x\<bar> * \<bar>?x\<bar>" using assms(6) by (intro mult_mono) auto
  then have "\<not> in_int (?x * ?x)" by (simp add: in_int_def)
  moreover have "isub (co_x p) (co_x q) = Inr ?x" "isub (co_z p) (co_z q) = Inr (co_z p - co_z q)"
    using assms(5,7) by (simp_all add: isub_def iadd_def)
  ultimately show "geo_distance m a b = Inl SignedOverflow" using assms(3,4) by (simp add: geo_distance_def imul_def)
qed

text \<open>A position 66 metres away along one axis is already too far for a coordinate system, even one that
  is not rotated: the product with the cosine does not fit an \<open>int\<close>.\<close>

theorem geo_transform_overflows:
  assumes "libm_ok fl_atan fl_sin" and "geo_init fl_atan fl_sin geo_start = Inr g"
    and "m obj = Some p" and "m sys = Some s" and "co_xzRotation s = 0"
  shows "65539 \<le> co_x p \<Longrightarrow> geo_transformCoordinatesOutward g obj sys out m = Inl SignedOverflow"
    and "65539 \<le> co_x p - co_x s \<Longrightarrow> in_int (co_x p - co_x s) \<Longrightarrow> in_int (co_z p - co_z s) \<Longrightarrow>
      geo_transformCoordinatesInward g obj sys out m = Inl SignedOverflow"
proof -
  note t = geo_init_ok[OF assms(1,2)]
  have k: "geo_cos g 0 = Inr 32767"
    using t sin_table_at[OF t] by (simp add: geo_cos_def Let_def tables_ok_def)
  have o: "rotated x (Inr 32767) z v = Inl SignedOverflow" if "65539 \<le> x" for x z v
    using that by (simp add: rotated_def scaled_def imul_def rguard_def in_int_def)
  show "geo_transformCoordinatesOutward g obj sys out m = Inl SignedOverflow" if "65539 \<le> co_x p"
    using assms(3-5) k o[OF that] by (simp add: geo_transformCoordinatesOutward_def)
  show "geo_transformCoordinatesInward g obj sys out m = Inl SignedOverflow"
    if "65539 \<le> co_x p - co_x s" "in_int (co_x p - co_x s)" "in_int (co_z p - co_z s)"
    using assms(3-5) k o[OF that(1)] that(2,3) by (simp add: geo_transformCoordinatesInward_def isub_def iadd_def)
qed

subsection \<open>Examples\<close>

definition demo_point :: sCoordinate where
  "demo_point = \<lparr> co_x = 300, co_y = 50, co_z = 0, co_xzRotation = 40960 \<rparr>"

definition demo_system :: "Angle \<Rightarrow> sCoordinate" where
  "demo_system w = \<lparr> co_x = 0, co_y = 70, co_z = 100, co_xzRotation = w \<rparr>"

definition demo_room :: "Angle \<Rightarrow> coordinates" where
  "demo_room w = [1 \<mapsto> demo_point, 2 \<mapsto> demo_system w, 3 \<mapsto> demo_point\<lparr> co_z := 400 \<rparr>]"

lemma demo_room: "demo_room w 1 = Some demo_point" "demo_room w 2 = Some (demo_system w)" "demo_room w 3 = Some (demo_point\<lparr> co_z := 400 \<rparr>)"
    "near demo_point" "near (demo_system w)" "near (demo_point\<lparr> co_z := 400 \<rparr>)"
  by (simp_all add: demo_room_def demo_point_def demo_system_def near_def)

lemma exact_geo: "\<exists>g. geo_init exact_atan exact_sin geo_start = Inr g"
  using geo_init_tables[OF exact_libm_ok, of geo_start] by (auto simp: geo_start_def)

theorem geo_atan_close_witness:
  "\<exists>g w \<theta>. geo_init exact_atan exact_sin geo_start = Inr g \<and> geo_atan g 300 (-400) = Inr (w, []) \<and> angle_of 300 (-400) \<theta>
      \<and> \<bar>turn (uint w) - \<theta>\<bar> \<le> turn 3"
proof -
  obtain g where g: "geo_init exact_atan exact_sin geo_start = Inr g" using exact_geo by blast
  show ?thesis using g geo_atan_close[OF exact_libm_ok g, of 300 "-400"] by auto
qed

theorem geo_transform_roundtrip_witness:
  "\<exists>g m1 m2 q. geo_init exact_atan exact_sin geo_start = Inr g
      \<and> geo_transformCoordinatesOutward g 1 2 3 (demo_room 30000) = Inr m1
      \<and> geo_transformCoordinatesInward g 3 2 3 m1 = Inr m2 \<and> m2 3 = Some q
      \<and> \<bar>co_x q - 300\<bar> \<le> 6 \<and> \<bar>co_z q\<bar> \<le> 6 \<and> co_y q = 50 \<and> co_xzRotation q = 40960"
proof -
  obtain g where g: "geo_init exact_atan exact_sin geo_start = Inr g" using exact_geo by blast
  have d: "distinct [1, 2, 3 :: nat]" "\<bar>co_x demo_point\<bar> + \<bar>co_z demo_point\<bar> \<le> 65536" by (simp_all add: demo_point_def)
  obtain m1 m2 q where "geo_transformCoordinatesOutward g 1 2 3 (demo_room 30000) = Inr m1"
    "geo_transformCoordinatesInward g 3 2 3 m1 = Inr m2" "m2 3 = Some q"
    "8192 * \<bar>co_x q - co_x demo_point\<bar> \<le> 49152 + \<bar>co_x demo_point\<bar>" "8192 * \<bar>co_z q - co_z demo_point\<bar> \<le> 49152 + \<bar>co_z demo_point\<bar>"
    "co_y q = co_y demo_point" "co_xzRotation q = co_xzRotation demo_point"
    using geo_transform_roundtrip[where m = "demo_room 30000", OF exact_libm_ok g demo_room(1,2,3) d demo_room(4,5)] by blast
  then show ?thesis using g by (auto simp: demo_point_def)
qed

theorem geo_moveForward_moves_witness:
  "\<exists>g q. geo_init exact_atan exact_sin geo_start = Inr g \<and> geo_moveForward g 1 1000 (demo_room 0) = Inr ((demo_room 0)(1 \<mapsto> q))
      \<and> co_y q = 50 \<and> co_xzRotation q = 40960 \<and> \<bar>of_int (co_x q - 300) - 1000 * sin (turn 40960)\<bar> \<le> 1 + 1000 / 32768
      \<and> \<bar>of_int (co_z q) - 1000 * cos (turn 40960)\<bar> \<le> 1 + 1000 / 32768"
proof -
  obtain g where g: "geo_init exact_atan exact_sin geo_start = Inr g" using exact_geo by blast
  obtain q where q: "geo_moveForward g 1 1000 (demo_room 0) = Inr ((demo_room 0)(1 \<mapsto> q))" "co_y q = co_y demo_point"
    "co_xzRotation q = co_xzRotation demo_point"
    "\<bar>of_int (co_x q - co_x demo_point) - of_int 1000 * sin (turn (uint (co_xzRotation demo_point)))\<bar> \<le> 1 + \<bar>of_int 1000\<bar> / 32768"
    "\<bar>of_int (co_z q - co_z demo_point) - of_int 1000 * cos (turn (uint (co_xzRotation demo_point)))\<bar> \<le> 1 + \<bar>of_int 1000\<bar> / 32768"
    using geo_moveForward_moves[where m = "demo_room 0" and distance = 1000, OF exact_libm_ok g demo_room(1,4)] by auto
  have "uint (co_xzRotation demo_point) = 40960" by (simp add: demo_point_def)
  with q g show ?thesis by (simp add: demo_point_def) blast
qed

theorem geo_distance_nearest_witness:
  "\<exists>d. geo_distance (demo_room 0) 1 2 = Inr d \<and> 0 \<le> d \<and> \<bar>of_int d - sqrt 100000\<bar> < 1 / 2"
  using geo_distance_nearest[where m = "demo_room 0", OF demo_room(1,2)] by (simp add: demo_point_def demo_system_def)

theorem geo_unrotated_system_shrinks_witness:
  "\<exists>g q. geo_init exact_atan exact_sin geo_start = Inr g \<and> geo_transformCoordinatesOutward g 3 2 1 (demo_room 0) = Inr ((demo_room 0)(1 \<mapsto> q))
      \<and> co_x q = 299 \<and> co_z q = 499"
proof -
  obtain g where g: "geo_init exact_atan exact_sin geo_start = Inr g" using exact_geo by blast
  show ?thesis
    using g geo_unrotated_system_shrinks[where m = "demo_room 0", OF exact_libm_ok g demo_room(3,2,1)] demo_room(5,6)
    by (simp add: demo_point_def demo_system_def)
qed

theorem geo_outward_in_place_loses_witness:
  "\<exists>g q. geo_init exact_atan exact_sin geo_start = Inr g \<and> geo_transformCoordinatesOutward g 1 2 1 (demo_room 16384) = Inr ((demo_room 16384)(1 \<mapsto> q))
      \<and> co_x q = 0 \<and> co_z q = 100"
proof -
  obtain g where g: "geo_init exact_atan exact_sin geo_start = Inr g" using exact_geo by blast
  show ?thesis
    using g geo_outward_in_place_loses[where m = "demo_room 16384", OF exact_libm_ok g demo_room(1,2)] demo_room(4,5)
    by (simp add: demo_point_def demo_system_def)
qed

theorem geo_overflows_far_away_witness:
  "geo_atan geo_start 262144 300000 = Inl SignedOverflow
    \<and> geo_distance [1 \<mapsto> demo_point, 2 \<mapsto> demo_point\<lparr> co_x := 47000 \<rparr>] 1 2 = Inl SignedOverflow"
  using geo_overflows_far_away[of 262144 300000 "[1 \<mapsto> demo_point, 2 \<mapsto> demo_point\<lparr> co_x := 47000 \<rparr>]" 1 demo_point 2 "demo_point\<lparr> co_x := 47000 \<rparr>" geo_start]
  by (simp add: demo_point_def in_int_def)

end
