(* ===== verification/Tcp.thy ===== *)
theory Tcp
  imports Sock
begin

section \<open>TCP connections\<close>

text \<open>
  \<open>src/tcpip.c\<close>: connecting by name, and reading and writing whole messages on a connection. What the
  network does is an argument: the pieces in which the bytes arrive and the failures between them, how
  much a write takes, and the outcomes of connecting, as in \<open>Sock\<close>.
\<close>

subsection \<open>State\<close>

record sTCPConnection =
  tc_addr :: sockaddr_in
  tc_socket :: int

text \<open>What the caller's pointer to the connection is after a call.\<close>

datatype tcp_pointer = Unchanged | Null_pointer | Freed_pointer | Connected sTCPConnection

text \<open>
  What arrives: pieces of the stream and failed reads with their \<open>errno\<close>; when nothing is left, the
  peer has closed the connection. \<open>recv\<close> takes at most the number of bytes asked for; a failed read gives
  \<open>Inl\<close>.
\<close>

datatype recv_event = Piece string | Failed int

fun recv_bytes :: "nat \<Rightarrow> recv_event list \<Rightarrow> (int + string) \<times> recv_event list" where
  "recv_bytes n [] = (Inr [], [])"
| "recv_bytes n (Failed e # evs) = (Inl e, evs)"
| "recv_bytes n (Piece s # evs) =
     (if length s \<le> n then (Inr s, evs) else (Inr (take n s), Piece (drop n s) # evs))"

subsection \<open>Connecting\<close>

text \<open>The text for \<open>h_errno\<close>, and whether it is a new block that nobody frees.\<close>

definition tcp_sock_error :: "int \<Rightarrow> string \<times> bool" where
  "tcp_sock_error err =
     (if err = 1 then (''The specified host is unknown'', False)
      else if err = 4 then (''The requested name is valid, but it does not have an IP address'', False)
      else if err = 3 then (''A non-recoverable name server error occurred'', False)
      else if err = 2 then (''A temporary error occurred on an authoritative name server. Try again later.'', False)
      else (''Unknown h_error code: '' @ print_int err, True))"

definition tcp_error :: "environment \<Rightarrow> Error \<Rightarrow> string \<Rightarrow> Error res" where
  "tcp_error env reason t = ErrNew (fst (env_errOk env)) (snd (env_errOk env)) ERR_TCPIP 0 reason t"

text \<open>From the socket on. The exits close and free what there is; the caller's pointer keeps its value.\<close>

definition tcp_fail1 :: "Error \<Rightarrow> tcp_pointer \<Rightarrow> resources \<Rightarrow> (Error \<times> tcp_pointer \<times> resources) res" where
  "tcp_fail1 error p rs = rbind (rassert (error \<noteq> None)) (\<lambda>_. Inr (error, p, rs))"

definition tcp_fail2 :: "Error \<Rightarrow> resources \<Rightarrow> (Error \<times> tcp_pointer \<times> resources) res" where
  "tcp_fail2 error rs = tcp_fail1 error Freed_pointer (rs\<lparr> rs_blocks := rs_blocks rs - 1 \<rparr>)"

definition tcp_fail3 :: "int \<Rightarrow> Error \<Rightarrow> resources \<Rightarrow> (Error \<times> tcp_pointer \<times> resources) res" where
  "tcp_fail3 fd error rs = tcp_fail2 error (rs\<lparr> rs_sockets := remove1 fd (rs_sockets rs) \<rparr>)"

definition tcp_connectName ::
  "environment \<Rightarrow> connect_outcome \<Rightarrow> string \<Rightarrow> 16 word \<Rightarrow> resources \<Rightarrow> (Error \<times> tcp_pointer \<times> resources) res" where
  "tcp_connectName env out hostName port rs =
     (case co_host out of
        Inl h_errno \<Rightarrow>
          (let rs1 = rs\<lparr> rs_blocks := rs_blocks rs + of_bool (snd (tcp_sock_error h_errno)) \<rparr> in
           rbind (ErrNew (fst (env_errOk env)) (snd (env_errOk env)) ERR_UNKNOWN 0 None (fst (tcp_sock_error h_errno))) (\<lambda>reason.
           rbind (tcp_error env reason (''Failed to find the host '' @ [CHR 0x27] @ hostName @ [CHR 0x27] @ ''.'')) (\<lambda>error.
           tcp_fail1 error Unchanged rs1)))
      | Inr sin_addr \<Rightarrow>
          rbind (emalloc (co_malloc out) (fst (env_errOk env)) (snd (env_errOk env))) (\<lambda>(error, block).
          if error \<noteq> None
          then rbind (tcp_error env error ''Failed to allocate memory for the connection'') (\<lambda>error. tcp_fail1 error Null_pointer rs)
          else rbind (deref block) (\<lambda>_.
            (let rs1 = rs\<lparr> rs_blocks := rs_blocks rs + 1 \<rparr>; fd = co_socket out in
             if fd < 0
             then rbind (tcp_error env (env_reason env) ''Failed to create a TCP socket.'') (\<lambda>error. tcp_fail2 error rs1)
             else
               let rs2 = rs1\<lparr> rs_sockets := fd # rs_sockets rs1 \<rparr> in
               if fst (co_connect out) \<noteq> 0 \<and> snd (co_connect out) \<noteq> EINTR
               then rbind (tcp_error env (env_reason env) ''Failed to connect to the server.'') (\<lambda>error. tcp_fail3 fd error rs2)
               else Inr (None, Connected \<lparr> tc_addr = (sin_addr, htons port), tc_socket = fd \<rparr>, rs2)))))"

definition tcp_disconnect :: "sTCPConnection \<Rightarrow> resources \<Rightarrow> Error \<times> resources" where
  "tcp_disconnect c rs =
     (None, rs\<lparr> rs_sockets := remove1 (tc_socket c) (rs_sockets rs), rs_blocks := rs_blocks rs - 1 \<rparr>)"

subsection \<open>Reading and writing\<close>

text \<open>Each round takes an event or some of the bytes of one.\<close>

fun event_size :: "recv_event \<Rightarrow> nat" where
  "event_size (Piece s) = 1 + length s"
| "event_size (Failed e) = 1"

lemma recv_bytes_size:
  "recv_bytes n evs = (r, evs1) \<Longrightarrow> r = Inl e \<or> r = Inr s \<and> s \<noteq> []
    \<Longrightarrow> sum_list (map event_size evs1) < sum_list (map event_size evs)"
  by (cases "(n, evs)" rule: recv_bytes.cases) (auto split: if_splits)

text \<open>
  The loop of \<open>tcp_read\<close>: \<open>remain\<close> is a signed integer that \<open>recv\<close> takes as a size again. A failed read,
  an interrupted one too, ends it; the end of the stream is an assertion.
\<close>

function tcp_read_loop ::
  "environment \<Rightarrow> int \<Rightarrow> nat \<Rightarrow> recv_event list \<Rightarrow> buffer \<Rightarrow> (Error \<times> recv_event list \<times> buffer) res" where
  "tcp_read_loop env remain off evs buf =
     (case recv_bytes (size_of_int remain) evs of
        (Inl _, evs1) \<Rightarrow>
          rbind (tcp_error env (env_reason env) ''recv error'') (\<lambda>error.
          if remain > 0 \<and> error = None then tcp_read_loop env remain off evs1 buf else Inr (error, evs1, buf))
      | (Inr s, evs1) \<Rightarrow>
          rbind (rassert (length s > 0)) (\<lambda>_.
          rbind (put_bytes buf off s) (\<lambda>buf1.
          if remain - int (length s) > 0
          then tcp_read_loop env (remain - int (length s)) (off + length s) evs1 buf1
          else Inr (None, evs1, buf1))))"
  by pat_completeness auto

termination
  by (relation "measure (\<lambda>(_, _, _, evs, _). sum_list (map event_size evs))")
    (auto dest!: recv_bytes_size[OF sym] simp del: recv_bytes.simps)

declare tcp_read_loop.simps [simp del]

text \<open>\<open>int remainBufLen = size\<close>.\<close>

definition int_of_size :: "nat \<Rightarrow> int" where
  "int_of_size n = (if n < 2147483648 then int n else int n - 4294967296)"

definition tcp_read ::
  "environment \<Rightarrow> nat \<Rightarrow> recv_event list \<Rightarrow> buffer \<Rightarrow> (Error \<times> recv_event list \<times> buffer) res" where
  "tcp_read env sz evs buf = tcp_read_loop env (int_of_size sz) 0 evs buf"

text \<open>\<open>written\<close> is what \<open>write\<close> returns. The result: the error, and the bytes that are on their way.\<close>

definition tcp_write :: "nat option \<Rightarrow> string \<Rightarrow> (Error \<times> string) res" where
  "tcp_write written data =
     rbind (rassert (written = Some (length data))) (\<lambda>_. Inr (None, data))"

subsection \<open>Messages over a stream\<close>

text \<open>The events that are still to come are pieces of \<open>data\<close>, none of them empty, before \<open>rest\<close>.\<close>

definition arriving :: "string \<Rightarrow> recv_event list \<Rightarrow> recv_event list \<Rightarrow> bool" where
  "arriving data rest evs \<longleftrightarrow> (\<exists>ps. evs = map Piece ps @ rest \<and> concat ps = data \<and> [] \<notin> set ps)"

lemma recv_arriving:
  assumes "arriving data rest evs" and "0 < n" and "data \<noteq> []"
  shows "\<exists>s evs1. recv_bytes n evs = (Inr s, evs1) \<and> s \<noteq> [] \<and> length s \<le> n \<and> data = s @ drop (length s) data
      \<and> arriving (drop (length s) data) rest evs1"
proof -
  obtain ps where ps: "evs = map Piece ps @ rest" "concat ps = data" "[] \<notin> set ps" using assms(1) by (auto simp: arriving_def)
  then obtain p qs where p: "ps = p # qs" using assms(3) by (cases ps) auto
  show ?thesis
  proof (cases "length p \<le> n")
    case True
    then show ?thesis using ps p by (intro exI[of _ p] exI[of _ "map Piece qs @ rest"]) (auto simp: arriving_def)
  next
    case False
    have "arriving (drop n data) rest (Piece (drop n p) # map Piece qs @ rest)"
      unfolding arriving_def using ps p False by (intro exI[of _ "drop n p # qs"]) auto
    then show ?thesis using ps p False assms(2)
      by (intro exI[of _ "take n p"] exI[of _ "Piece (drop n p) # map Piece qs @ rest"]) (auto simp: min_def)
  qed
qed

lemma read_loop_fills:
  assumes "arriving data rest evs" and "0 < n" and "n \<le> length data" and "off + n \<le> length buf" and "n < 2147483648"
  shows "\<exists>evs1. tcp_read_loop env (int n) off evs buf = Inr (None, evs1, blit buf off (map Some (take n data)))
      \<and> arriving (drop n data) rest evs1"
  using assms
proof (induction n arbitrary: data evs off buf rule: less_induct)
  case (less n)
  have size: "size_of_int (int n) = n" using less.prems(5) by (simp add: size_of_int_nonneg)
  have "data \<noteq> []" using less.prems(2,3) by auto
  then obtain s evs1 where s: "recv_bytes n evs = (Inr s, evs1)" "s \<noteq> []" "length s \<le> n" "data = s @ drop (length s) data"
    "arriving (drop (length s) data) rest evs1"
    using recv_arriving[OF less.prems(1,2)] by blast
  obtain data1 where data: "data = s @ data1" "arriving data1 rest evs1" using s(4,5) by metis
  have put: "put_bytes buf off s = Inr (blit buf off (map Some s))" using s(3) less.prems(4) by (simp add: put_bytes_def)
  show ?case
  proof (cases "length s = n")
    case True
    then show ?thesis using s(1,2) put data less.prems(2) by (subst tcp_read_loop.simps) (auto simp: size)
  next
    case False
    let ?k = "n - length s" and ?buf = "blit buf off (map Some s)"
    have k: "?k < n" "0 < ?k" "?k \<le> length data1" "off + length s + ?k \<le> length ?buf" "?k < 2147483648"
      using False s(2,3) less.prems data(1) by (auto simp: length_blit)
    obtain evs2 where ih: "tcp_read_loop env (int ?k) (off + length s) evs1 ?buf
          = Inr (None, evs2, blit ?buf (off + length s) (map Some (take ?k data1)))" "arriving (drop ?k data1) rest evs2"
      using less.IH[OF k(1) data(2) k(2-5)] by blast
    have "tcp_read_loop env (int n) off evs buf = tcp_read_loop env (int ?k) (off + length s) evs1 ?buf"
      using s(1-3) False put by (subst tcp_read_loop.simps) (simp add: size of_nat_diff)
    moreover have "blit ?buf (off + length s) (map Some (take ?k data1)) = blit buf off (map Some (take n data))"
      
    proof -
      have "off < length buf" "off + length s \<le> length buf" using s(2,3) less.prems(4) by (cases s; simp)+
      then show ?thesis using s(3) less.prems(4) data(1) k(3) by (simp add: blit_def min_def add.commute)
    qed
    moreover have "drop ?k data1 = drop n data" using data(1) s(3) by simp
    ultimately show ?thesis using ih by auto
  qed
qed

text \<open>A message longer than what arrives: the read goes on with what comes after it.\<close>

lemma read_loop_short:
  assumes "arriving data rest evs" and "length data < n" and "off + n \<le> length buf" and "n < 2147483648"
  shows "\<exists>buf1. length buf1 = length buf
      \<and> tcp_read_loop env (int n) off evs buf = tcp_read_loop env (int (n - length data)) (off + length data) rest buf1"
  using assms
proof (induction n arbitrary: data evs off buf rule: less_induct)
  case (less n)
  show ?case
  proof (cases "data = []")
    case True
    then obtain ps where "evs = map Piece ps @ rest" "concat ps = []" "[] \<notin> set ps" using less.prems(1) by (auto simp: arriving_def)
    then have "evs = rest" by (cases ps) auto
    then show ?thesis using True by auto
  next
    case False
    have size: "size_of_int (int n) = n" using less.prems(4) by (simp add: size_of_int_nonneg)
    have n: "0 < n" using less.prems(2) by simp
    obtain s evs1 where s: "recv_bytes n evs = (Inr s, evs1)" "s \<noteq> []" "length s \<le> n" "data = s @ drop (length s) data"
      "arriving (drop (length s) data) rest evs1"
      using recv_arriving[OF less.prems(1) n False] by blast
    obtain data1 where data: "data = s @ data1" "arriving data1 rest evs1" using s(4,5) by metis
    let ?k = "n - length s" and ?buf = "blit buf off (map Some s)"
    have put: "put_bytes buf off s = Inr ?buf" using s(3) less.prems(3) by (simp add: put_bytes_def)
    have k: "?k < n" "length data1 < ?k" "off + length s + ?k \<le> length ?buf" "?k < 2147483648"
      using s(2,3) less.prems data(1) by (auto simp: length_blit)
    have short: "length s < n" using k(2) by simp
    have "tcp_read_loop env (int n) off evs buf = tcp_read_loop env (int ?k) (off + length s) evs1 ?buf"
      using s(1-3) short put by (subst tcp_read_loop.simps) (simp add: size of_nat_diff)
    then show ?thesis using less.IH[OF k(1) data(2) k(2-4)] k(3) less.prems(3) data(1) s(3)
      by (simp add: length_blit add.assoc)
  qed
qed

lemma read_loop_end: "0 \<le> r \<Longrightarrow> tcp_read_loop env r off [] buf = Inl AssertFailed"
  by (subst tcp_read_loop.simps) simp

lemma read_loop_failed:
  assumes "env_errOk env = (True, True)"
  shows "\<exists>e. tcp_read_loop env r off (Failed c # rest) buf = Inr (Some e, rest, buf)"
  using assms by (subst tcp_read_loop.simps) (simp add: tcp_error_def ErrNew_def)

text \<open>Several messages of known lengths, each written with one call and read with one call.\<close>

fun tcp_reads :: "environment \<Rightarrow> nat list \<Rightarrow> recv_event list \<Rightarrow> buffer \<Rightarrow> (string list \<times> recv_event list) res" where
  "tcp_reads env [] evs buf = Inr ([], evs)"
| "tcp_reads env (n # ns) evs buf =
     rbind (tcp_read env n evs buf) (\<lambda>(error, evs1, buf1).
     rbind (rassert (error = None)) (\<lambda>_.
     rbind (tcp_reads env ns evs1 buf1) (\<lambda>(msgs, evs2). Inr (map the (take n buf1) # msgs, evs2))))"

lemma reads_messages:
  assumes "arriving (concat msgs) rest evs" and "\<forall>m \<in> set msgs. m \<noteq> [] \<and> length m \<le> length buf" and "length buf < 2147483648"
  shows "tcp_reads env (map length msgs) evs buf = Inr (msgs, rest)"
  using assms
proof (induction msgs arbitrary: evs buf)
  case Nil
  then obtain ps where "evs = map Piece ps @ rest" "concat ps = []" "[] \<notin> set ps" by (auto simp: arriving_def)
  then show ?case by (cases ps) auto
next
  case (Cons m msgs)
  have m: "0 < length m" "length m \<le> length (concat (m # msgs))" "0 + length m \<le> length buf" "length m < 2147483648"
    using Cons.prems(2,3) by auto
  obtain evs1 where r: "tcp_read_loop env (int (length m)) 0 evs buf = Inr (None, evs1, blit buf 0 (map Some (take (length m) (concat (m # msgs)))))"
    "arriving (drop (length m) (concat (m # msgs))) rest evs1"
    using read_loop_fills[OF Cons.prems(1) m] by blast
  let ?buf = "blit buf 0 (map Some m)"
  have len: "length ?buf = length buf" using m(3) by (simp add: length_blit)
  have "tcp_read env (length m) evs buf = Inr (None, evs1, ?buf)" using r(1) m(4) by (simp add: tcp_read_def int_of_size_def)
  moreover have "tcp_reads env (map length msgs) evs1 ?buf = Inr (msgs, rest)"
    using Cons.IH[of evs1 ?buf] r(2) Cons.prems(2,3) len by simp
  moreover have "map the (take (length m) ?buf) = m" using m(3) by (simp add: blit_def comp_def)
  ultimately show ?case by simp
qed

subsection \<open>Properties\<close>

text \<open>C38: messages that \<open>tcp_write\<close> has sent are read by \<open>tcp_read\<close> with their lengths exactly as they were
  written, in whatever pieces the network delivers the stream, and nothing of what follows is consumed.\<close>

theorem tcp_messages_delivered:
  assumes "list_all2 (\<lambda>m sent. tcp_write (Some (length m)) m = Inr (None, sent)) msgs sents"
    and "arriving (concat sents) rest evs" and "\<forall>m \<in> set msgs. m \<noteq> [] \<and> length m \<le> length buf" and "length buf < 2147483648"
  shows "tcp_reads env (map length msgs) evs buf = Inr (msgs, rest)"
proof -
  have "sents = msgs" using assms(1) by (induction rule: list_all2_induct) (auto simp: tcp_write_def)
  then show ?thesis using reads_messages assms(2-4) by blast
qed

text \<open>but a message of length zero cannot be read, a peer that closes its side before the whole
  message has arrived fails an assertion of the reader, and so does a write that the system takes only in part.\<close>

theorem tcp_read_asserts_at_end:
  assumes "arriving data [] evs" and "length data < sz" and "sz \<le> length buf" and "sz < 2147483648"
    and "tcp_write (Some k) msg = Inr r"
  shows "tcp_read env sz evs buf = Inl AssertFailed \<and> tcp_read env 0 evs buf = Inl AssertFailed \<and> k = length msg"
proof -
  obtain buf1 where b: "tcp_read_loop env (int sz) 0 evs buf = tcp_read_loop env (int (sz - length data)) (0 + length data) [] buf1"
    using read_loop_short[OF assms(1,2) _ assms(4), of 0 buf env] assms(3) by auto
  have "tcp_read env sz evs buf = Inl AssertFailed"
    using b assms(4) read_loop_end by (simp add: tcp_read_def int_of_size_def)
  moreover have "tcp_read env 0 evs buf = Inl AssertFailed"
    using assms(1) by (subst tcp_read_def, subst tcp_read_loop.simps)
      (cases evs; auto simp: arriving_def int_of_size_def size_of_int_def Cons_eq_map_conv append_eq_Cons_conv)
  moreover have "k = length msg" using assms(5) by (simp add: tcp_write_def res_iff)
  ultimately show ?thesis by blast
qed

text \<open>an interrupted read is an error like any other, and what had already been read of the message is
  gone: the next read starts in its middle.\<close>

theorem tcp_read_interrupted_loses_place:
  assumes "env_errOk env = (True, True)" and "arriving first [] evs" and "0 < length first" and "length first < sz"
    and "sz \<le> length buf" and "sz < 2147483648"
  shows "\<exists>e buf1. tcp_read env sz (evs @ Failed EINTR # rest) buf = Inr (Some e, rest, buf1)"
proof -
  have a: "arriving first (Failed EINTR # rest) (evs @ Failed EINTR # rest)" using assms(2) by (auto simp: arriving_def)
  obtain buf1 where "tcp_read_loop env (int sz) 0 (evs @ Failed EINTR # rest) buf
      = tcp_read_loop env (int (sz - length first)) (0 + length first) (Failed EINTR # rest) buf1"
    using read_loop_short[OF a assms(4) _ assms(6), of 0 buf env] assms(5) by auto
  moreover obtain e where "tcp_read_loop env (int (sz - length first)) (0 + length first) (Failed EINTR # rest) buf1 = Inr (Some e, rest, buf1)"
    using read_loop_failed[OF assms(1)] by blast
  ultimately show ?thesis using assms(6) by (simp add: tcp_read_def int_of_size_def)
qed

text \<open>every failure of \<open>tcp_connectName\<close> gives back the block and the socket it took, but after the block
  was allocated the caller's pointer is left to the freed block. Success takes one of each.\<close>

theorem tcp_connectName_resources:
  assumes "env_errOk env = (True, True)" and "tcp_connectName env out hostName port rs = Inr (error, p, rs1)"
    and "co_host out = Inr addr"
  shows "(error = None \<longleftrightarrow> co_malloc out \<and> 0 \<le> co_socket out \<and> (fst (co_connect out) = 0 \<or> snd (co_connect out) = EINTR))
    \<and> (error \<noteq> None \<longrightarrow> rs1 = rs \<and> p = (if co_malloc out then Freed_pointer else Null_pointer))
    \<and> (error = None \<longrightarrow> p = Connected \<lparr> tc_addr = (addr, htons port), tc_socket = co_socket out \<rparr>
         \<and> snd (tcp_disconnect \<lparr> tc_addr = (addr, htons port), tc_socket = co_socket out \<rparr> rs1) = rs)"
  using assms
  by (auto simp: tcp_connectName_def tcp_fail1_def tcp_fail2_def tcp_fail3_def tcp_error_def ErrNew_def emalloc_def tcp_disconnect_def Let_def
      split: if_splits)

subsection \<open>Examples\<close>

definition demo_tcp_env :: environment where
  "demo_tcp_env = \<lparr> env_avail = \<lambda>_. True, env_errOk = (True, True), env_reason = None \<rparr>"

definition demo_outcome :: connect_outcome where
  "demo_outcome = \<lparr> co_malloc = True, co_strdup = True, co_host = Inr 1, co_socket = 3, co_connect = (-1, 111), co_thread = 0 \<rparr>"

theorem tcp_messages_delivered_witness:
  "tcp_reads demo_tcp_env [5, 2] [Piece ''he'', Piece ''lloO'', Piece ''K'', Failed 4] (replicate 8 None) = Inr ([''hello'', ''OK''], [Failed 4])"
proof -
  have a: "list_all2 (\<lambda>m sent. tcp_write (Some (length m)) m = Inr (None, sent)) [''hello'', ''OK''] [''hello'', ''OK'']"
    by (simp add: tcp_write_def)
  have b: "arriving (concat [''hello'', ''OK'']) [Failed 4] [Piece ''he'', Piece ''lloO'', Piece ''K'', Failed 4]"
    unfolding arriving_def by (intro exI[of _ "[''he'', ''lloO'', ''K'']"]) simp
  have "\<forall>m \<in> set [''hello'', ''OK'']. m \<noteq> [] \<and> length m \<le> length (replicate 8 None)" "length (replicate 8 None) < (2147483648 :: nat)"
    "map length [''hello'', ''OK''] = [5, 2]" by simp_all
  with tcp_messages_delivered[OF a b, of "replicate 8 None" demo_tcp_env] show ?thesis by metis
qed

theorem tcp_read_asserts_at_end_witness:
  "tcp_read demo_tcp_env 5 [Piece ''he''] (replicate 8 None) = Inl AssertFailed \<and> tcp_read demo_tcp_env 0 [Piece ''he''] (replicate 8 None) = Inl AssertFailed"
proof -
  have a: "arriving ''he'' [] [Piece ''he'']" unfolding arriving_def by (intro exI[of _ "[''he'']"]) simp
  show ?thesis using tcp_read_asserts_at_end[OF a, of 5 "replicate 8 None" 2 "''ab''" "(None, ''ab'')" demo_tcp_env] by (simp add: tcp_write_def)
qed

theorem tcp_read_interrupted_loses_place_witness:
  "\<exists>e buf1. tcp_read demo_tcp_env 5 [Piece ''he'', Failed EINTR, Piece ''llo''] (replicate 8 None) = Inr (Some e, [Piece ''llo''], buf1)"
proof -
  have a: "arriving ''he'' [] [Piece ''he'']" unfolding arriving_def by (intro exI[of _ "[''he'']"]) simp
  show ?thesis using tcp_read_interrupted_loses_place[OF _ a, of demo_tcp_env 5 "replicate 8 None" "[Piece ''llo'']"]
    by (simp add: demo_tcp_env_def)
qed

theorem tcp_connectName_resources_witness:
  "\<exists>e. tcp_connectName demo_tcp_env demo_outcome ''host'' 80 \<lparr> rs_blocks = 1, rs_sockets = [], rs_readers = 0, rs_pools = 0 \<rparr>
     = Inr (Some e, Freed_pointer, \<lparr> rs_blocks = 1, rs_sockets = [], rs_readers = 0, rs_pools = 0 \<rparr>)"
proof -
  let ?rs = "\<lparr> rs_blocks = 1, rs_sockets = [], rs_readers = 0, rs_pools = 0 \<rparr>"
  obtain error p rs1 where r: "tcp_connectName demo_tcp_env demo_outcome ''host'' 80 ?rs = Inr (error, p, rs1)"
    by (auto simp: tcp_connectName_def demo_tcp_env_def demo_outcome_def tcp_fail1_def tcp_fail2_def tcp_fail3_def tcp_error_def ErrNew_def
        emalloc_def Let_def)
  then show ?thesis using tcp_connectName_resources[OF _ r, of 1] by (simp add: demo_tcp_env_def demo_outcome_def)
qed

end
