(* ===== verification/Shlib.thy ===== *)
theory Shlib
  imports WordMap
begin

section \<open>Shared libraries\<close>

text \<open>
  \<open>src/shlib.c\<close> opens shared libraries, finds functions in them by name and closes them. It is written three
  times: over \<open>dlopen\<close>, over the Windows calls (here only the mangling of file names), and, for programs
  that are linked statically, over a hash table that names the functions of each known library. What the
  dynamic linker knows is part of the state; the addresses the static linker gives to functions are an
  argument. Interface \<open>shared_library\<close>: what the clients of either build rely on.
\<close>

subsection \<open>The interface\<close>

text \<open>
  The library that a handle stands for, if it is open, is the map from its function names to their
  addresses; \<open>content\<close> says what is in the files that can be opened.
\<close>

locale shared_library =
  fixes inv :: "'s \<Rightarrow> bool"
    and lib :: "'s \<Rightarrow> 'h \<Rightarrow> (string \<rightharpoonup> nat) option"
    and content :: "'s \<Rightarrow> string \<Rightarrow> (string \<rightharpoonup> nat) option"
    and open_lib :: "string \<Rightarrow> 's \<Rightarrow> (Error \<times> 'h option \<times> 's) res"
    and find_func :: "'h \<Rightarrow> string \<Rightarrow> 's \<Rightarrow> (Error \<times> nat option \<times> 's) res"
    and close_lib :: "'h \<Rightarrow> 's \<Rightarrow> (Error \<times> 's) res"
  assumes open_ok: "inv s \<Longrightarrow> content s name = Some tab \<Longrightarrow>
      \<exists>h s1. open_lib name s = Inr (None, Some h, s1) \<and> inv s1 \<and> content s1 = content s \<and> lib s1 h = Some tab
        \<and> (\<forall>k. lib s k \<noteq> None \<longrightarrow> lib s1 k = lib s k)"
    and open_missing: "inv s \<Longrightarrow> content s name = None \<Longrightarrow>
      \<exists>e p s1. open_lib name s = Inr (Some e, p, s1) \<and> inv s1 \<and> content s1 = content s
        \<and> (\<forall>k. lib s k \<noteq> None \<longrightarrow> lib s1 k = lib s k)"
    and find: "inv s \<Longrightarrow> lib s h = Some tab \<Longrightarrow>
      \<exists>e s1. find_func h f s = Inr (e, tab f, s1) \<and> (e = None \<longleftrightarrow> tab f \<noteq> None) \<and> inv s1 \<and> content s1 = content s \<and> lib s1 = lib s"
    and close: "inv s \<Longrightarrow> lib s h = Some tab \<Longrightarrow>
      \<exists>s1. close_lib h s = Inr (None, s1) \<and> inv s1 \<and> content s1 = content s \<and> (\<forall>k. k \<noteq> h \<longrightarrow> lib s1 k = lib s k)"
begin

lemma open_find:
  assumes "inv s" and "content s name = Some tab" and "tab f = Some a"
  shows "\<exists>h s1 s2. open_lib name s = Inr (None, Some h, s1) \<and> find_func h f s1 = Inr (None, Some a, s2) \<and> inv s2"
proof -
  obtain h s1 where o: "open_lib name s = Inr (None, Some h, s1)" "inv s1" "lib s1 h = Some tab" using open_ok[OF assms(1,2)] by blast
  obtain e s2 where "find_func h f s1 = Inr (e, tab f, s2)" "e = None \<longleftrightarrow> tab f \<noteq> None" "inv s2" using find[OF o(2,3)] by blast
  then show ?thesis using o(1) assms(3) by auto
qed

end

subsection \<open>File names\<close>

text \<open>\<open>strstr\<close> and \<open>strrchr\<close>: the place of the first occurrence, and of the last character.\<close>

fun strstr :: "string \<Rightarrow> string \<Rightarrow> nat option" where
  "strstr [] needle = (if needle = [] then Some 0 else None)"
| "strstr (c # cs) needle =
     (if take (length needle) (c # cs) = needle then Some 0 else map_option Suc (strstr cs needle))"

fun last_place :: "string \<Rightarrow> char \<Rightarrow> nat option" where
  "last_place [] c = None"
| "last_place (d # ds) c =
     (case last_place ds c of Some i \<Rightarrow> Some (Suc i) | None \<Rightarrow> if d = c then Some 0 else None)"

text \<open>A pointer that is NULL is below every other.\<close>

definition later_place :: "nat option \<Rightarrow> nat option \<Rightarrow> nat option" where
  "later_place p q =
     (case p of None \<Rightarrow> q | Some i \<Rightarrow> (case q of None \<Rightarrow> p | Some j \<Rightarrow> if i > j then p else q))"

definition strip_lib :: "string \<Rightarrow> string" where
  "strip_lib filename =
     (case strstr filename ''lib'' of
        None \<Rightarrow> filename
      | Some p \<Rightarrow>
          (case later_place (last_place filename CHR ''/'') (last_place filename (CHR 0x5C)) of
             None \<Rightarrow> if p = 0 then drop 3 filename else filename
           | Some s \<Rightarrow>
               if strstr (drop s filename) ''lib'' = Some 1 then take (s + 1) filename @ drop (s + 4) filename
               else filename))"

definition strip_so :: "string \<Rightarrow> string" where
  "strip_so name =
     (case strstr name ''.so'' of
        None \<Rightarrow> name | Some p \<Rightarrow> if length (drop p name) = 3 then take p name else name)"

definition add_dll :: "string \<Rightarrow> string" where
  "add_dll name = (if strstr name ''.dll'' = None then name @ ''.dll'' else name)"

text \<open>The Windows build; the block has room for the name and \<open>.dll\<close>.\<close>

definition shlib_mangle_windows :: "bool \<Rightarrow> string \<Rightarrow> string res" where
  "shlib_mangle_windows mallocOk filename =
     rbind (rassert mallocOk) (\<lambda>_. Inr (add_dll (strip_so (strip_lib filename))))"

text \<open>The other builds: a copy, which may be NULL.\<close>

definition shlib_mangle_filename :: "bool \<Rightarrow> string \<Rightarrow> string option" where
  "shlib_mangle_filename strdupOk filename = (if strdupOk then Some filename else None)"

subsection \<open>The dynamic linker\<close>

text \<open>
  What the dynamic linker knows: the libraries that can be opened, the program itself, which \<open>dlopen(NULL)\<close>
  opens, how often each is open (the handle is the same each time), and the error that \<open>dlerror\<close>
  will report next.
\<close>

record dl_state =
  dl_files :: "string \<rightharpoonup> (string \<rightharpoonup> nat)"
  dl_program :: "string \<rightharpoonup> nat"
  dl_count :: "string option \<Rightarrow> nat"
  dl_error :: "string option"

type_synonym dl_handle = "string option"

definition dl_symbols :: "dl_state \<Rightarrow> dl_handle \<Rightarrow> (string \<rightharpoonup> nat) option" where
  "dl_symbols s h = (case h of None \<Rightarrow> Some (dl_program s) | Some name \<Rightarrow> dl_files s name)"

definition dlopen :: "string option \<Rightarrow> dl_state \<Rightarrow> dl_handle option \<times> dl_state" where
  "dlopen name s =
     (if dl_symbols s name = None then (None, s\<lparr> dl_error := Some ''cannot open shared object file'' \<rparr>)
      else (Some name, s\<lparr> dl_count := (dl_count s)(name := dl_count s name + 1) \<rparr>))"

definition dlerror :: "dl_state \<Rightarrow> string option \<times> dl_state" where
  "dlerror s = (dl_error s, s\<lparr> dl_error := None \<rparr>)"

definition dlclose :: "dl_handle \<Rightarrow> dl_state \<Rightarrow> int \<times> dl_state" where
  "dlclose h s =
     (if dl_count s h = 0 then (-1, s\<lparr> dl_error := Some ''shared object not open'' \<rparr>)
      else (0, s\<lparr> dl_count := (dl_count s)(h := dl_count s h - 1) \<rparr>))"

definition dlsym :: "dl_handle \<Rightarrow> string \<Rightarrow> dl_state \<Rightarrow> (nat option \<times> dl_state) res" where
  "dlsym h name s =
     (if dl_count s h = 0 then Inl DanglingPtr
      else
        rbind (deref (dl_symbols s h)) (\<lambda>tab.
        case tab name of
          None \<Rightarrow> Inr (None, s\<lparr> dl_error := Some ''undefined symbol'' \<rparr>)
        | Some a \<Rightarrow> Inr (Some a, s)))"

definition quoted_name :: "string \<Rightarrow> string" where
  "quoted_name s = [CHR 0x27] @ s @ [CHR 0x27]"

definition shlib_error :: "bool \<times> bool \<Rightarrow> Error \<Rightarrow> string \<Rightarrow> Error res" where
  "shlib_error errOk reason t = ErrNew (fst errOk) (snd errOk) ERR_SHLIB 0 reason t"

definition null_text :: "string option \<Rightarrow> string" where
  "null_text s = (case s of None \<Rightarrow> ''(null)'' | Some s \<Rightarrow> s)"

definition shlib_open :: "bool \<times> bool \<Rightarrow> bool \<Rightarrow> string \<Rightarrow> dl_state \<Rightarrow> (Error \<times> dl_handle option \<times> dl_state) res" where
  "shlib_open errOk strdupOk filename s =
     (let realFilename = shlib_mangle_filename strdupOk filename in
      case dlopen realFilename s of
        (Some h, s1) \<Rightarrow> Inr (None, Some h, s1)
      | (None, s1) \<Rightarrow>
          (case dlerror s1 of (t, s2) \<Rightarrow>
           rbind (shlib_error errOk None (''dlerror '' @ quoted_name (null_text t) @ '' opening file '' @ quoted_name (null_text realFilename))) (\<lambda>error.
           Inr (error, None, s2))))"

definition shlib_close :: "dl_handle \<Rightarrow> dl_state \<Rightarrow> (Error \<times> dl_state) res" where
  "shlib_close shlib s = (case dlclose shlib s of (err, s1) \<Rightarrow> rbind (rassert (err = 0)) (\<lambda>_. Inr (None, s1)))"

definition shlib_findFunc :: "bool \<times> bool \<Rightarrow> dl_handle \<Rightarrow> string \<Rightarrow> dl_state \<Rightarrow> (Error \<times> nat option \<times> dl_state) res" where
  "shlib_findFunc errOk shlib name s =
     rbind (dlsym shlib name s) (\<lambda>(funcPtr, s1).
     case dlerror s1 of
       (None, s2) \<Rightarrow> Inr (None, funcPtr, s2)
     | (Some dlerr, s2) \<Rightarrow>
         rbind (shlib_error errOk None (''shlib error '' @ quoted_name dlerr @ '' finding the function '' @ quoted_name name @ ''.'')) (\<lambda>error.
         Inr (error, funcPtr, s2)))"

text \<open>With no error pending and every copy and error granted, this is a \<open>shared_library\<close>.\<close>

definition dl_lib :: "dl_state \<Rightarrow> dl_handle \<Rightarrow> (string \<rightharpoonup> nat) option" where
  "dl_lib s h = (if dl_count s h = 0 then None else dl_symbols s h)"

definition dl_inv :: "dl_state \<Rightarrow> bool" where
  "dl_inv s \<longleftrightarrow> dl_error s = None"

interpretation dl: shared_library dl_inv dl_lib dl_files "shlib_open (True, True) True" "shlib_findFunc (True, True)" shlib_close
proof unfold_locales
  fix s name tab
  assume s: "dl_inv s" "dl_files s name = Some tab"
  let ?s = "s\<lparr> dl_count := (dl_count s)(Some name := dl_count s (Some name) + 1) \<rparr>"
  have "shlib_open (True, True) True name s = Inr (None, Some (Some name), ?s)"
    using s by (simp add: shlib_open_def shlib_mangle_filename_def dlopen_def dl_symbols_def Let_def)
  moreover have "dl_inv ?s" "dl_lib ?s (Some name) = Some tab" "\<forall>k. dl_lib s k \<noteq> None \<longrightarrow> dl_lib ?s k = dl_lib s k"
    using s by (simp_all add: dl_inv_def dl_lib_def dl_symbols_def split: option.split)
  ultimately show "\<exists>h s1. shlib_open (True, True) True name s = Inr (None, Some h, s1) \<and> dl_inv s1 \<and> dl_files s1 = dl_files s \<and> dl_lib s1 h = Some tab
      \<and> (\<forall>k. dl_lib s k \<noteq> None \<longrightarrow> dl_lib s1 k = dl_lib s k)"
    by (intro exI[of _ "Some name"] exI[of _ ?s]) simp
next
  fix s name
  assume s: "dl_inv s" "dl_files s name = None"
  then show "\<exists>e p s1. shlib_open (True, True) True name s = Inr (Some e, p, s1) \<and> dl_inv s1 \<and> dl_files s1 = dl_files s
      \<and> (\<forall>k. dl_lib s k \<noteq> None \<longrightarrow> dl_lib s1 k = dl_lib s k)"
    by (simp add: shlib_open_def shlib_mangle_filename_def dlopen_def dl_symbols_def dl_inv_def dl_lib_def dlerror_def shlib_error_def
        ErrNew_def split: option.split)
next
  fix s h tab f
  assume s: "dl_inv s" "dl_lib s h = Some tab"
  then show "\<exists>e s1. shlib_findFunc (True, True) h f s = Inr (e, tab f, s1) \<and> (e = None \<longleftrightarrow> tab f \<noteq> None) \<and> dl_inv s1
      \<and> dl_files s1 = dl_files s \<and> dl_lib s1 = dl_lib s"
    by (cases "tab f") (auto simp: shlib_findFunc_def dlsym_def dl_inv_def dl_lib_def dlerror_def shlib_error_def ErrNew_def dl_symbols_def
        fun_eq_iff split: if_splits option.splits)
next
  fix s h tab
  assume s: "dl_inv s" "dl_lib s h = Some tab"
  then show "\<exists>s1. shlib_close h s = Inr (None, s1) \<and> dl_inv s1 \<and> dl_files s1 = dl_files s \<and> (\<forall>k. k \<noteq> h \<longrightarrow> dl_lib s1 k = dl_lib s k)"
    by (auto simp: shlib_close_def dlclose_def dl_inv_def dl_lib_def dl_symbols_def split: if_splits option.splits)
qed

subsection \<open>The statically linked build\<close>

text \<open>
  A library is a hash table from the names of its functions to their addresses. The world of the table
  counts the blocks its elements hold. Outcomes: the blocks of an element, of the copy of its name (a
  failed copy is not noticed and is followed at the next comparison), of the table, the node for a name and its semaphore.
\<close>

record sShlibHashTable_elem =
  se_name :: string
  se_funcPtr :: nat

type_synonym shlib_table = "(sShlibHashTable_elem, nat) Hasht"

record static_env =
  sn_errOk :: "bool \<times> bool"
  sn_elem :: bool
  sn_strdup :: bool
  sn_table :: allocator
  sn_node :: "string \<Rightarrow> nat option"
  sn_sem :: bool
  sn_address :: "string \<Rightarrow> nat"

definition shlibHashTable_hash :: "sShlibHashTable_elem \<Rightarrow> 32 word" where
  "shlibHashTable_hash e = HashString (Some (se_name e))"

definition shlibHashTable_comp :: "sShlibHashTable_elem \<Rightarrow> sShlibHashTable_elem \<Rightarrow> 32 word" where
  "shlibHashTable_comp e1 e2 = strcmp (se_name e1) (se_name e2)"

definition shlibHashTable_dest :: "sShlibHashTable_elem \<Rightarrow> nat \<Rightarrow> nat" where
  "shlibHashTable_dest e blocks = blocks - 2"

interpretation shlib_keys: hash_keys shlibHashTable_hash shlibHashTable_comp
  by unfold_locales (auto simp: shlibHashTable_hash_def shlibHashTable_comp_def)

definition shlibHashTable_add :: "static_env \<Rightarrow> string \<Rightarrow> nat \<Rightarrow> shlib_table \<times> nat \<Rightarrow> (shlib_table \<times> nat) res" where
  "shlibHashTable_add env name funcPtr s =
     rbind (rassert (sn_elem env)) (\<lambda>_.
     rbind (rguard NullDeref (sn_strdup env)) (\<lambda>_.
     rbind (HashAdd (sn_node env name) (sn_sem env) (fst s) \<lparr> se_name = name, se_funcPtr = funcPtr \<rparr>) (\<lambda>(addOk, ht).
     rbind (rassert (addOk \<noteq> 0)) (\<lambda>_. Inr (ht, snd s + 2)))))"

definition shlibHashTable_find :: "shlib_table \<Rightarrow> string \<Rightarrow> nat option res" where
  "shlibHashTable_find ht name =
     rbind (HashFind ht \<lparr> se_name = name, se_funcPtr = 0 \<rparr>) (\<lambda>r. Inr (map_option se_funcPtr r))"

text \<open>\<open>LOAD\<close> adds a function under its own name; the functions of the known libraries.\<close>

definition load_functions :: "static_env \<Rightarrow> string list \<Rightarrow> shlib_table \<times> nat \<Rightarrow> (shlib_table \<times> nat) res" where
  "load_functions env names s = rfold (\<lambda>n. shlibHashTable_add env n (sn_address env n)) names s"

definition coowa_functions :: "string list" where
  "coowa_functions =
     [''coowa_init'', ''coowa_shutdownServer'', ''coowa_connectServer'', ''coowa_createConnection'',
      ''coowa_getConnectionRepositories'', ''coowa_create'', ''coowa_getLocalRootObjects'',
      ''coowa_getAllWithParent'', ''coowa_getRecursiveChildrenOfObject'', ''coowa_save'',
      ''coowa_getAllObjects'', ''coowa_destroy'', ''coowa_hasActionHandler'', ''coowa_getActionHandlers'',
      ''coowa_callActionHandler'', ''coowa_getActionPreconditions'', ''coowa_getActionPostconditions'',
      ''coowa_getByPostcondition'', ''coowa_attrSet'', ''coowa_attrGet'', ''coowa_attrGetRaw'',
      ''coowa_attrSetShallow'', ''coowa_attrTest'', ''coowa_getIsNoMore'', ''coowa_isInstanceOf'',
      ''coowa_getNonInheritedActionHandlers'', ''coowa_setActionPreconditions'',
      ''coowa_setActionPostconditions'', ''coowa_destroyAttributeValue'', ''coowa_getAttributes'',
      ''coowa_setActionHandlerFunctionName'', ''coowa_getActionHandlerFunctionName'',
      ''coowa_destroyActionHandler'', ''coowa_createActionHandler'', ''coowa_createRepository'',
      ''coowa_checkRepository'']"

definition sound_driver_functions :: "string list" where
  "sound_driver_functions =
     [''openDriver'', ''closeDriver'', ''openDevice'', ''closeDevice'', ''getMixer'',
      ''getBufferedStream'', ''getFork'', ''setTimerCallbackFunc'', ''unsetTimerCallbackFunc'',
      ''setDebugState'', ''setRecordGain'']"

definition core_lib_functions :: "string list" where
  "core_lib_functions =
     [''bo_beliefObject_createHypothetical'', ''bo_belief_object_isInstanceOf'',
      ''bo_beliefs_believeObject'', ''bo_beliefs_create'', ''bo_beliefs_destroy'',
      ''bo_beliefs_getAllBeliefObjects'', ''bo_beliefs_getBeliefObject'',
      ''bo_beliefs_object_addRelation'', ''bo_beliefs_object_compare'', ''bo_beliefs_object_destroy'',
      ''bo_beliefs_object_getAttrTypedValue'', ''bo_beliefs_object_getBeliever'',
      ''bo_beliefs_object_getChildren'', ''bo_beliefs_object_getContents'',
      ''bo_beliefs_object_getDebugName'', ''bo_beliefs_object_getGender'',
      ''bo_beliefs_object_getInstances'', ''bo_beliefs_object_getName'', ''bo_beliefs_object_getObject'',
      ''bo_beliefs_object_getParent'', ''bo_beliefs_object_hasISARelationship'',
      ''bo_beliefs_object_hasRelation'', ''bo_beliefs_object_isHypothetical'',
      ''bo_beliefs_object_setAttrToTypedValue'', ''bo_beliefs_object_setParent'',
      ''bo_beliefs_object_transfer'', ''bo_beliefs_realizeHypotheticalObject'',
      ''coowaObject_beliefObject_createHypothetical'', ''coowaObject_belief_object_isInstanceOf'',
      ''coowaObject_beliefs_believeObject'', ''coowaObject_beliefs_create'',
      ''coowaObject_beliefs_destroy'', ''coowaObject_beliefs_getAllBeliefObjects'',
      ''coowaObject_beliefs_getBeliefObject'', ''coowaObject_beliefs_object_addRelation'',
      ''coowaObject_beliefs_object_compare'', ''coowaObject_beliefs_object_destroy'',
      ''coowaObject_beliefs_object_getAttrTypedValue'', ''coowaObject_beliefs_object_getBeliever'',
      ''coowaObject_beliefs_object_getChildren'', ''coowaObject_beliefs_object_getDebugName'',
      ''coowaObject_beliefs_object_getGender'', ''coowaObject_beliefs_object_getInstances'',
      ''coowaObject_beliefs_object_getName'', ''coowaObject_beliefs_object_getObject'',
      ''coowaObject_beliefs_object_getParent'', ''coowaObject_beliefs_object_hasISARelationship'',
      ''coowaObject_beliefs_object_hasRelation'', ''coowaObject_beliefs_object_isHypothetical'',
      ''coowaObject_beliefs_object_setAttrToTypedValue'', ''coowaObject_beliefs_object_setParent'',
      ''coowaObject_beliefs_object_transfer'', ''coowaObject_beliefs_realizeHypotheticalObject'',
      ''coowa_attr_conjugations_get'', ''coowa_attr_words_get'', ''coowa_attr_words_set'']"

definition swedish_repository_functions :: "string list" where
  "swedish_repository_functions =
     [''mi_swedishLanguage_init'', ''mi_swedishLanguage_getPronounciation'']"

definition known_library :: "string \<Rightarrow> string list option" where
  "known_library filename =
     (if filename = ''libcoowa_g.so'' then Some coowa_functions
      else if filename = ''coreLib.so'' then Some core_lib_functions
      else if filename = ''../lib/libswedish-repository.so'' then Some swedish_repository_functions
      else if filename = ''alsaSound_05.so'' then Some sound_driver_functions
      else if filename = ''nullSound.so'' then Some sound_driver_functions
      else None)"

text \<open>The tables that are open, at their addresses, and the blocks that their elements hold.\<close>

record static_state =
  sx_tables :: "nat \<rightharpoonup> shlib_table"
  sx_next :: nat
  sx_blocks :: nat

text \<open>
  \<open>application_shlib_open\<close> is the application's: it fills the table of a library it knows. When it fails,
  the new table is not destroyed and nobody has its address.
\<close>

definition static_shlib_open ::
  "static_env \<Rightarrow> (string \<Rightarrow> shlib_table \<times> nat \<Rightarrow> (Error \<times> shlib_table \<times> nat) res) \<Rightarrow> string \<Rightarrow> static_state
    \<Rightarrow> (Error \<times> nat option \<times> static_state) res" where
  "static_shlib_open env application_shlib_open filename s =
     rbind (HashCreateTable (sn_table env) 100 shlibHashTable_hash shlibHashTable_comp (Some shlibHashTable_dest)) (\<lambda>ht.
     case ht of
       None \<Rightarrow> Inl AssertFailed
     | Some ht \<Rightarrow>
         rbind (case known_library filename of
                  Some names \<Rightarrow> rbind (load_functions env names (ht, sx_blocks s)) (\<lambda>(ht1, blocks). Inr (None, ht1, blocks))
                | None \<Rightarrow> application_shlib_open filename (ht, sx_blocks s)) (\<lambda>(error, ht1, blocks).
         let s1 = s\<lparr> sx_tables := (sx_tables s)(sx_next s \<mapsto> ht1), sx_next := sx_next s + 1, sx_blocks := blocks \<rparr> in
         if error \<noteq> None
         then rbind (shlib_error (sn_errOk env) error (''Cant '' @ [CHR 0x22] @ ''load'' @ [CHR 0x22] @ '' file '' @ quoted_name filename)) (\<lambda>error1.
              Inr (error1, None, s1))
         else Inr (None, Some (sx_next s), s1)))"

definition static_shlib_close :: "nat \<Rightarrow> static_state \<Rightarrow> (Error \<times> static_state) res" where
  "static_shlib_close shlib s =
     rbind (cell (sx_tables s) shlib) (\<lambda>ht.
     rbind (HashDestroyTable ht (sx_blocks s)) (\<lambda>blocks.
     Inr (None, s\<lparr> sx_tables := (sx_tables s)(shlib := None), sx_blocks := blocks \<rparr>)))"

definition static_shlib_findFunc :: "static_env \<Rightarrow> nat \<Rightarrow> string \<Rightarrow> static_state \<Rightarrow> (Error \<times> nat option \<times> static_state) res" where
  "static_shlib_findFunc env shlib name s =
     rbind (cell (sx_tables s) shlib) (\<lambda>ht.
     rbind (shlibHashTable_find ht name) (\<lambda>funcPtr.
     if funcPtr = None
     then rbind (shlib_error (sn_errOk env) None (''shlib error. Can'' @ [CHR 0x27] @ ''t find function '' @ quoted_name name @ ''.'')) (\<lambda>error.
          Inr (error, None, s))
     else Inr (None, funcPtr, s)))"

subsection \<open>Tables of functions\<close>

text \<open>A table without cursors, whose elements count as two blocks each.\<close>

definition func_table :: "shlib_table \<Rightarrow> bool" where
  "func_table t \<longleftrightarrow> ht_for shlibHashTable_hash shlibHashTable_comp t \<and> ht_destrData t = Some shlibHashTable_dest
     \<and> (\<forall>n \<in> set (concat (ht_infoArray t)). hi_firstCursor n = None)"

definition table_symbols :: "shlib_table \<Rightarrow> string \<rightharpoonup> nat" where
  "table_symbols t f = map_option se_funcPtr (ht_lookup t \<lparr> se_name = f, se_funcPtr = 0 \<rparr>)"

lemma comp_0 [simp]: "shlibHashTable_comp e1 e2 = 0 \<longleftrightarrow> se_name e1 = se_name e2"
  by (simp add: shlibHashTable_comp_def)

lemma table_find: "func_table t \<Longrightarrow> shlibHashTable_find t f = Inr (table_symbols t f)"
  by (simp add: shlibHashTable_find_def func_table_def ht_for_def HashFind_wf table_symbols_def)

lemma table_add:
  assumes "func_table t" and "table_symbols t n = None" and "ht_elementCount t < INT_MAX"
    and "sn_elem env" and "sn_strdup env" and "sn_node env n = Some a" and "sn_sem env"
  shows "\<exists>t1. shlibHashTable_add env n p (t, b) = Inr (t1, b + 2) \<and> func_table t1 \<and> table_symbols t1 = (table_symbols t)(n \<mapsto> p)
      \<and> ht_elementCount t1 = ht_elementCount t + 1 \<and> length (ht_elems t1) = length (ht_elems t) + 1"
proof -
  let ?e = "\<lparr> se_name = n, se_funcPtr = p \<rparr>"
  have t: "ht_for shlibHashTable_hash shlibHashTable_comp t" using assms(1) by (simp add: func_table_def)
  have wf: "ht_wf t" using t by (simp add: ht_for_def)
  have none: "ht_lookup t ?e = None"
  proof (rule shlib_keys.lookup_None_cong[OF t])
    show "ht_lookup t \<lparr> se_name = n, se_funcPtr = 0 \<rparr> = None" using assms(2) by (simp add: table_symbols_def)
  qed simp
  obtain t1 where t1: "HashAdd (Some a) True t ?e = Inr (1, t1)" "ht_for shlibHashTable_hash shlibHashTable_comp t1"
    "\<forall>k. ht_lookup t1 k = (if shlibHashTable_comp k ?e = 0 then Some ?e else ht_lookup t k)"
    "ht_elementCount t1 = ht_elementCount t + 1" "mset (ht_elems t1) = add_mset ?e (mset (ht_elems t))"
    using shlib_keys.add_fresh[OF t none assms(3), of a] by blast
  have e: "t1 = t\<lparr> ht_infoArray := (ht_infoArray t)[ht_slot t ?e := \<lparr> hi_addr = a, hi_data = ?e, hi_firstCursor = None \<rparr> # ht_infoArray t ! ht_slot t ?e],
      ht_elementCount := ht_elementCount t + 1 \<rparr>"
    using t1(1) wf by (auto simp: HashAdd_def hash_index_wf FindInfo_def bucket_wf res_iff iadd_def split: if_splits)
  have "ht_slot t ?e < length (ht_infoArray t)" using ht_slot_less[OF wf] wf by (simp add: ht_wf_def)
  then have "set (concat (ht_infoArray t1)) \<subseteq> insert \<lparr> hi_addr = a, hi_data = ?e, hi_firstCursor = None \<rparr> (set (concat (ht_infoArray t)))"
    unfolding e using set_update_subset_insert[of "ht_infoArray t"] nth_mem by fastforce
  then have "func_table t1" using assms(1) t1(2) e by (auto simp: func_table_def)
  moreover have "table_symbols t1 = (table_symbols t)(n \<mapsto> p)" using t1(3) by (auto simp: table_symbols_def fun_eq_iff)
  moreover have "length (ht_elems t1) = length (ht_elems t) + 1" using t1(5) by (metis Suc_eq_plus1 size_add_mset size_mset)
  ultimately show ?thesis using t1(1,4) assms(4-7) by (simp add: shlibHashTable_add_def)
qed

lemma load_table:
  assumes "func_table t" and "distinct names" and "\<forall>n \<in> set names. table_symbols t n = None"
    and "ht_elementCount t + int (length names) < INT_MAX"
    and "sn_elem env" and "sn_strdup env" and "\<forall>n. sn_node env n \<noteq> None" and "sn_sem env"
  shows "\<exists>t1. load_functions env names (t, b) = Inr (t1, b + 2 * length names) \<and> func_table t1
      \<and> table_symbols t1 = (\<lambda>f. if f \<in> set names then Some (sn_address env f) else table_symbols t f)
      \<and> length (ht_elems t1) = length (ht_elems t) + length names"
  using assms(1-4)
proof (induction names arbitrary: t b)
  case (Cons n names)
  have c: "table_symbols t n = None" "ht_elementCount t < INT_MAX" using Cons.prems(3,4) by simp_all
  obtain a where a: "sn_node env n = Some a" using assms(7) by auto
  obtain t1 where t1: "shlibHashTable_add env n (sn_address env n) (t, b) = Inr (t1, b + 2)" "func_table t1"
    "table_symbols t1 = (table_symbols t)(n \<mapsto> sn_address env n)" "ht_elementCount t1 = ht_elementCount t + 1"
    "length (ht_elems t1) = length (ht_elems t) + 1"
    using table_add[OF Cons.prems(1) c assms(5,6) a assms(8)] by blast
  have d: "distinct names" "\<forall>m \<in> set names. table_symbols t1 m = None" "ht_elementCount t1 + int (length names) < INT_MAX"
    using Cons.prems(2-4) t1(3,4) by auto
  obtain t2 where "load_functions env names (t1, b + 2) = Inr (t2, b + 2 + 2 * length names)" "func_table t2"
    "table_symbols t2 = (\<lambda>f. if f \<in> set names then Some (sn_address env f) else table_symbols t1 f)"
    "length (ht_elems t2) = length (ht_elems t1) + length names"
    using Cons.IH[OF t1(2) d, of "b + 2"] by blast
  then show ?case using t1 Cons.prems(2) by (auto simp: load_functions_def fun_eq_iff)
qed (simp add: load_functions_def)

lemma new_table:
  assumes "sn_table env 424"
  shows "\<exists>t. HashCreateTable (sn_table env) 100 shlibHashTable_hash shlibHashTable_comp (Some shlibHashTable_dest) = Inr (Some t)
      \<and> func_table t \<and> table_symbols t = Map.empty \<and> ht_elementCount t = 0 \<and> ht_elems t = []"
proof -
  define t :: shlib_table where "t = \<lparr> ht_size = 100, ht_elementCount = 0, ht_calcIndx = shlibHashTable_hash, ht_compData = shlibHashTable_comp,
      ht_destrData = Some shlibHashTable_dest, ht_debugLevel = 0, ht_infoArray = replicate 100 [] \<rparr>"
  have "HashCreateTable (sn_table env) 100 shlibHashTable_hash shlibHashTable_comp (Some shlibHashTable_dest) = Inr (Some t)"
    using assms by (simp add: HashCreateTable_def t_def Let_def)
  moreover have "ht_wf t" by (simp add: t_def ht_wf_def keys_differ_def)
  then have "func_table t" by (simp add: func_table_def ht_for_def t_def)
  moreover have "ht_lookup t k = None" for k
  proof -
    have "ht_slot t k < 100" using ht_slot_less[OF \<open>ht_wf t\<close>, of k] by (simp add: t_def)
    then show ?thesis by (simp add: ht_lookup_def) (simp add: t_def)
  qed
  then have "table_symbols t = Map.empty" by (simp add: table_symbols_def fun_eq_iff)
  moreover have "ht_elementCount t = 0" "ht_elems t = []" by (simp_all add: t_def ht_elems_def)
  ultimately show ?thesis by blast
qed

lemma destroy_table:
  assumes "func_table t"
  shows "HashDestroyTable t b = Inr (b - 2 * length (ht_elems t))"
proof -
  have t: "length (ht_infoArray t) = ht_size t" "\<forall>n \<in> set (concat (ht_infoArray t)). hi_firstCursor n = None"
      "ht_destrData t = Some shlibHashTable_dest" using assms by (auto simp: func_table_def ht_for_def ht_wf_def)
  have chain: "\<forall>n \<in> set c. hi_firstCursor n = None \<Longrightarrow> rfold (DestroyInfo t) c b = Inr (b - 2 * length c)" for c b
    using t(3) by (induction c arbitrary: b) (simp_all add: DestroyInfo_def shlibHashTable_dest_def)
  have "rfold (\<lambda>i w. rbind (bucket t i) (\<lambda>chain. rfold (DestroyInfo t) chain w)) [0..<k] b
      = Inr (b - 2 * length (concat (take k (ht_infoArray t))))" if "k \<le> ht_size t" for k
    using that
  proof (induction k)
    case (Suc k)
    then have k: "k < length (ht_infoArray t)" using t(1) by simp
    then have "\<forall>n \<in> set (ht_infoArray t ! k). hi_firstCursor n = None" using t(2) nth_mem by fastforce
    then show ?case using Suc k chain by (simp add: bucket_def take_Suc_conv_app_nth)
  qed simp
  from this[of "ht_size t"] show ?thesis using t(1) by (simp add: HashDestroyTable_def ht_elems_def)
qed

subsection \<open>The statically linked build as a shared library\<close>

lemma known_distinct: "known_library filename = Some names \<Longrightarrow> distinct names \<and> length names \<le> 56"
proof -
  have "distinct coowa_functions \<and> length coowa_functions \<le> 56" by code_simp
  moreover have "distinct core_lib_functions \<and> length core_lib_functions \<le> 56" by code_simp
  moreover have "distinct swedish_repository_functions \<and> length swedish_repository_functions \<le> 56" by code_simp
  moreover have "distinct sound_driver_functions \<and> length sound_driver_functions \<le> 56" by code_simp
  ultimately show "known_library filename = Some names \<Longrightarrow> distinct names \<and> length names \<le> 56"
    by (auto simp: known_library_def split: if_splits)
qed

definition static_granted :: "static_env \<Rightarrow> bool" where
  "static_granted env \<longleftrightarrow> sn_errOk env = (True, True) \<and> sn_elem env \<and> sn_strdup env \<and> sn_table env 424 \<and> (\<forall>n. sn_node env n \<noteq> None) \<and> sn_sem env"

definition static_lib :: "static_state \<Rightarrow> nat \<Rightarrow> (string \<rightharpoonup> nat) option" where
  "static_lib s h = map_option table_symbols (sx_tables s h)"

definition static_inv :: "static_state \<Rightarrow> bool" where
  "static_inv s \<longleftrightarrow> (\<forall>h t. sx_tables s h = Some t \<longrightarrow> func_table t \<and> h < sx_next s)"

definition static_content :: "(string \<Rightarrow> nat) \<Rightarrow> string \<Rightarrow> (string \<rightharpoonup> nat) option" where
  "static_content addr filename =
     map_option (\<lambda>names f. if f \<in> set names then Some (addr f) else None) (known_library filename)"

lemma static_open_known:
  assumes "static_granted env" and "known_library filename = Some names" and "static_inv s"
  shows "\<exists>t. static_shlib_open env app filename s
        = Inr (None, Some (sx_next s), s\<lparr> sx_tables := (sx_tables s)(sx_next s \<mapsto> t), sx_next := sx_next s + 1, sx_blocks := sx_blocks s + 2 * length names \<rparr>)
      \<and> func_table t \<and> Some (table_symbols t) = static_content (sn_address env) filename \<and> length (ht_elems t) = length names"
proof -
  have g: "sn_elem env" "sn_strdup env" "\<forall>n. sn_node env n \<noteq> None" "sn_sem env" "sn_table env 424" using assms(1) by (auto simp: static_granted_def)
  obtain t where t: "HashCreateTable (sn_table env) 100 shlibHashTable_hash shlibHashTable_comp (Some shlibHashTable_dest) = Inr (Some t)"
    "func_table t" "table_symbols t = Map.empty" "ht_elementCount t = 0" "ht_elems t = []"
    using new_table[OF g(5)] by blast
  have d: "distinct names" "\<forall>n \<in> set names. table_symbols t n = None" "ht_elementCount t + int (length names) < INT_MAX"
    using known_distinct[OF assms(2)] t(3,4) by auto
  obtain t1 where t1: "load_functions env names (t, sx_blocks s) = Inr (t1, sx_blocks s + 2 * length names)" "func_table t1"
    "table_symbols t1 = (\<lambda>f. if f \<in> set names then Some (sn_address env f) else table_symbols t f)" "length (ht_elems t1) = length (ht_elems t) + length names"
    using load_table[OF t(2) d g(1-4)] by blast
  then show ?thesis
    using t assms(2) by (intro exI[of _ t1]) (simp add: static_shlib_open_def static_content_def fun_eq_iff)
qed

text \<open>A program whose memory lasts and that has no libraries of its own.\<close>

definition granted_env :: "(string \<Rightarrow> nat) \<Rightarrow> static_env" where
  "granted_env addr = \<lparr> sn_errOk = (True, True), sn_elem = True, sn_strdup = True, sn_table = \<lambda>_. True, sn_node = \<lambda>_. Some 0,
     sn_sem = True, sn_address = addr \<rparr>"

definition no_application :: "sError \<Rightarrow> string \<Rightarrow> shlib_table \<times> nat \<Rightarrow> (Error \<times> shlib_table \<times> nat) res" where
  "no_application e filename s = Inr (Some e, s)"

lemma granted_env: "static_granted (granted_env addr)" "sn_address (granted_env addr) = addr"
  by (simp_all add: static_granted_def granted_env_def)

interpretation st: shared_library static_inv static_lib "\<lambda>_. static_content addr"
  "static_shlib_open (granted_env addr) (no_application e)" "static_shlib_findFunc (granted_env addr)" static_shlib_close for addr e
proof unfold_locales
  fix s name tab
  assume s: "static_inv s" "static_content addr name = Some tab"
  then obtain names where n: "known_library name = Some names" by (auto simp: static_content_def)
  obtain t where t: "static_shlib_open (granted_env addr) (no_application e) name s
        = Inr (None, Some (sx_next s), s\<lparr> sx_tables := (sx_tables s)(sx_next s \<mapsto> t), sx_next := sx_next s + 1, sx_blocks := sx_blocks s + 2 * length names \<rparr>)"
    "func_table t" "Some (table_symbols t) = static_content addr name"
    using static_open_known[OF granted_env(1)[of addr] n s(1)] unfolding granted_env(2) by blast
  let ?s = "s\<lparr> sx_tables := (sx_tables s)(sx_next s \<mapsto> t), sx_next := sx_next s + 1, sx_blocks := sx_blocks s + 2 * length names \<rparr>"
  have "static_inv ?s" using s(1) t(2) by (auto simp: static_inv_def less_SucI)
  moreover have "static_lib ?s (sx_next s) = Some tab" using t(3) s(2) by (simp add: static_lib_def)
  moreover have "\<forall>k. static_lib s k \<noteq> None \<longrightarrow> static_lib ?s k = static_lib s k" using s(1) by (auto simp: static_lib_def static_inv_def)
  ultimately show "\<exists>h s1. static_shlib_open (granted_env addr) (no_application e) name s = Inr (None, Some h, s1) \<and> static_inv s1
      \<and> static_content addr = static_content addr \<and> static_lib s1 h = Some tab \<and> (\<forall>k. static_lib s k \<noteq> None \<longrightarrow> static_lib s1 k = static_lib s k)"
    using t(1) by blast
next
  fix s name
  assume s: "static_inv s" "static_content addr name = None"
  then have n: "known_library name = None" by (simp add: static_content_def)
  obtain t where t: "HashCreateTable (\<lambda>_. True) 100 shlibHashTable_hash shlibHashTable_comp (Some shlibHashTable_dest) = Inr (Some t)" "func_table t"
    using new_table[of "granted_env addr"] by (auto simp: granted_env_def)
  let ?s = "s\<lparr> sx_tables := (sx_tables s)(sx_next s \<mapsto> t), sx_next := sx_next s + 1 \<rparr>"
  have "\<exists>e1. static_shlib_open (granted_env addr) (no_application e) name s = Inr (Some e1, None, ?s)"
    using n t by (simp add: static_shlib_open_def granted_env_def no_application_def shlib_error_def ErrNew_def)
  moreover have "static_inv ?s" using s(1) t(2) by (auto simp: static_inv_def less_SucI)
  moreover have "\<forall>k. static_lib s k \<noteq> None \<longrightarrow> static_lib ?s k = static_lib s k" using s(1) by (auto simp: static_lib_def static_inv_def)
  ultimately show "\<exists>e1 p s1. static_shlib_open (granted_env addr) (no_application e) name s = Inr (Some e1, p, s1) \<and> static_inv s1
      \<and> static_content addr = static_content addr \<and> (\<forall>k. static_lib s k \<noteq> None \<longrightarrow> static_lib s1 k = static_lib s k)"
    by blast
next
  fix s h tab f
  assume s: "static_inv s" "static_lib s h = Some tab"
  then obtain t where t: "sx_tables s h = Some t" "func_table t" "tab = table_symbols t" by (auto simp: static_lib_def static_inv_def)
  then show "\<exists>e1 s1. static_shlib_findFunc (granted_env addr) h f s = Inr (e1, tab f, s1) \<and> (e1 = None \<longleftrightarrow> tab f \<noteq> None) \<and> static_inv s1
      \<and> static_content addr = static_content addr \<and> static_lib s1 = static_lib s"
    using s(1) by (cases "tab f") (simp_all add: static_shlib_findFunc_def table_find granted_env_def shlib_error_def ErrNew_def)
next
  fix s h tab
  assume s: "static_inv s" "static_lib s h = Some tab"
  then obtain t where t: "sx_tables s h = Some t" "func_table t" by (auto simp: static_lib_def static_inv_def)
  let ?s = "s\<lparr> sx_tables := (sx_tables s)(h := None), sx_blocks := sx_blocks s - 2 * length (ht_elems t) \<rparr>"
  have "static_shlib_close h s = Inr (None, ?s)" using t by (simp add: static_shlib_close_def destroy_table)
  moreover have "static_inv ?s" "\<forall>k. k \<noteq> h \<longrightarrow> static_lib ?s k = static_lib s k" using s(1) by (auto simp: static_inv_def static_lib_def)
  ultimately show "\<exists>s1. static_shlib_close h s = Inr (None, s1) \<and> static_inv s1 \<and> static_content addr = static_content addr
      \<and> (\<forall>k. k \<noteq> h \<longrightarrow> static_lib s1 k = static_lib s k)"
    by blast
qed

subsection \<open>File names of the Windows build\<close>

lemma strstr_so: "strstr x ''.so'' = None \<Longrightarrow> strstr (x @ ''.so'') ''.so'' = Some (length x)"
proof (induction x)
  case (Cons c x)
  have no: "take 3 (c # x @ ''.so'') \<noteq> ''.so''"
  proof (cases x)
    case Nil
    then show ?thesis by simp
  next
    case (Cons d y)
    then show ?thesis using Cons.prems by (cases y) auto
  qed
  moreover have "strstr x ''.so'' = None" using Cons.prems by (auto split: if_splits)
  ultimately show ?case using Cons.IH by (auto simp: numeral_3_eq_3 numeral_2_eq_2)
qed simp

lemma last_place_None: "c \<notin> set s \<Longrightarrow> last_place s c = None"
  by (induction s) auto

lemma last_place_last: "c \<notin> set t \<Longrightarrow> last_place (s @ c # t) c = Some (length s)"
  by (induction s) (auto simp: last_place_None)

lemma strstr_inside: "strstr (x @ needle @ y) needle \<noteq> None"
  by (induction x) (cases needle; cases y; auto)+

lemma strip_lib_name:
  assumes "CHR ''/'' \<notin> set base" and "CHR 0x5C \<notin> set (dir @ base)" and "dir = [] \<or> (\<exists>d. dir = d @ ''/'')"
  shows "strip_lib (dir @ ''lib'' @ base) = dir @ base"
proof (cases "dir = []")
  case True
  then show ?thesis using assms(1,2) by (simp add: strip_lib_def last_place_None later_place_def)
next
  case False
  then obtain d where d: "dir = d @ ''/''" using assms(3) by blast
  have "last_place (dir @ ''lib'' @ base) CHR ''/'' = Some (length d)"
    using last_place_last[of "CHR ''/''" "''lib'' @ base" d] assms(1) by (simp add: d)
  moreover have "last_place (dir @ ''lib'' @ base) (CHR 0x5C) = None" using assms(2) by (intro last_place_None) auto
  moreover have "drop (length d) (dir @ ''lib'' @ base) = CHR ''/'' # ''lib'' @ base" by (simp add: d)
  moreover have "strstr (CHR ''/'' # ''lib'' @ base) ''lib'' = Some 1" by simp
  ultimately show ?thesis
    using strstr_inside[of dir "''lib''" base] by (auto simp: strip_lib_def later_place_def d split: option.split)
qed

subsection \<open>Properties\<close>

text \<open>the Windows build turns the Unix name of a library, with or without a directory, into the name
  of the corresponding DLL: \<open>lib\<close> goes from the last part only, \<open>.so\<close> from the end, \<open>.dll\<close> is added.\<close>

theorem mangle_windows_unix_name:
  assumes "CHR ''/'' \<notin> set base" and "CHR 0x5C \<notin> set (dir @ base)" and "dir = [] \<or> (\<exists>d. dir = d @ ''/'')"
    and "strstr (dir @ base) ''.so'' = None" and "strstr (dir @ base) ''.dll'' = None"
  shows "shlib_mangle_windows True (dir @ ''lib'' @ base @ ''.so'') = Inr (dir @ base @ ''.dll'')"
proof -
  have "strip_lib (dir @ ''lib'' @ (base @ ''.so'')) = dir @ (base @ ''.so'')"
    using assms(1-3) by (intro strip_lib_name) auto
  moreover have "strip_so (dir @ base @ ''.so'') = dir @ base"
    using strstr_so[OF assms(4)] by (simp add: strip_so_def)
  ultimately show ?thesis using assms(5) by (simp add: shlib_mangle_windows_def add_dll_def)
qed

text \<open>C39: in the statically linked build, a known library opens to a table in which exactly the functions of
  its list are found, each at the address the linker gave it; every other name is an error and NULL;
  none of the assertions about duplicates fails; and closing it gives back all its blocks and leaves the
  libraries that were open.\<close>

theorem static_library_lifecycle:
  assumes "static_granted env" and "known_library filename = Some names" and "static_inv s"
  shows "\<exists>h s1 s2. static_shlib_open env app filename s = Inr (None, Some h, s1)
      \<and> (\<forall>f. \<exists>e. static_shlib_findFunc env h f s1 = Inr (e, if f \<in> set names then Some (sn_address env f) else None, s1)
            \<and> (e = None \<longleftrightarrow> f \<in> set names))
      \<and> static_shlib_close h s1 = Inr (None, s2) \<and> sx_tables s2 = sx_tables s \<and> sx_blocks s2 = sx_blocks s"
proof -
  obtain t where t: "static_shlib_open env app filename s
        = Inr (None, Some (sx_next s), s\<lparr> sx_tables := (sx_tables s)(sx_next s \<mapsto> t), sx_next := sx_next s + 1, sx_blocks := sx_blocks s + 2 * length names \<rparr>)"
    "func_table t" "Some (table_symbols t) = static_content (sn_address env) filename" "length (ht_elems t) = length names"
    using static_open_known[OF assms] by blast
  let ?s = "s\<lparr> sx_tables := (sx_tables s)(sx_next s \<mapsto> t), sx_next := sx_next s + 1, sx_blocks := sx_blocks s + 2 * length names \<rparr>"
  have sym: "table_symbols t f = (if f \<in> set names then Some (sn_address env f) else None)" for f
    using t(3) assms(2) by (simp add: static_content_def)
  have "\<exists>e. static_shlib_findFunc env (sx_next s) f ?s = Inr (e, if f \<in> set names then Some (sn_address env f) else None, ?s)
      \<and> (e = None \<longleftrightarrow> f \<in> set names)" for f
    using t(2) assms(1) by (simp add: static_shlib_findFunc_def table_find sym static_granted_def shlib_error_def ErrNew_def)
  moreover have none: "sx_tables s (sx_next s) = None"
    using assms(3) by (cases "sx_tables s (sx_next s)") (auto simp: static_inv_def)
  then have "static_shlib_close (sx_next s) ?s = Inr (None, s\<lparr> sx_next := sx_next s + 1 \<rparr>)"
    using t(2,4) by (simp add: static_shlib_close_def destroy_table fun_upd_idem)
  ultimately show ?thesis using t(1) by (intro exI[of _ "sx_next s"] exI[of _ ?s] exI[of _ "s\<lparr> sx_next := sx_next s + 1 \<rparr>"]) simp
qed

text \<open>opening a library that the application refuses too leaves the new table behind: the caller gets no
  handle to it, and nobody can close it.\<close>

theorem static_unknown_library_leaks:
  assumes "static_granted env" and "known_library filename = None" and "app = no_application e"
  shows "\<exists>e1 t s1. static_shlib_open env app filename s = Inr (Some e1, None, s1)
      \<and> sx_tables s1 = (sx_tables s)(sx_next s \<mapsto> t) \<and> sx_next s1 = sx_next s + 1"
proof -
  have "sn_table env 424" "sn_errOk env = (True, True)" using assms(1) by (auto simp: static_granted_def)
  moreover obtain t where "HashCreateTable (sn_table env) 100 shlibHashTable_hash shlibHashTable_comp (Some shlibHashTable_dest) = Inr (Some t)"
    using new_table[of env] calculation(1) by blast
  ultimately have "\<exists>e1. static_shlib_open env app filename s
      = Inr (Some e1, None, s\<lparr> sx_tables := (sx_tables s)(sx_next s \<mapsto> t), sx_next := sx_next s + 1 \<rparr>)"
    using assms(2,3) by (simp add: static_shlib_open_def no_application_def shlib_error_def ErrNew_def)
  then obtain e1 where "static_shlib_open env app filename s
      = Inr (Some e1, None, s\<lparr> sx_tables := (sx_tables s)(sx_next s \<mapsto> t), sx_next := sx_next s + 1 \<rparr>)" by blast
  then show ?thesis by (intro exI[of _ e1] exI[of _ t] exI[of _ "s\<lparr> sx_tables := (sx_tables s)(sx_next s \<mapsto> t), sx_next := sx_next s + 1 \<rparr>"]) simp
qed

text \<open>the build over \<open>dlopen\<close> reads the pending error only after \<open>dlsym\<close>: an error that another part of the
  program left pending makes a function that was found look missing.\<close>

theorem stale_dlerror_hides_function:
  assumes "dl_lib s h = Some tab" and "tab f = Some a" and "dl_error s = Some stale"
  shows "\<exists>e. shlib_findFunc (True, True) h f s = Inr (Some e, Some a, s\<lparr> dl_error := None \<rparr>)"
  using assms by (auto simp: shlib_findFunc_def dlsym_def dl_lib_def dlerror_def shlib_error_def ErrNew_def split: if_splits)

text \<open>when the copy of the file name cannot be allocated, the program itself is opened instead of the
  library, without an error.\<close>

theorem failed_copy_opens_program:
  "shlib_open errOk False filename s = Inr (None, Some None, s\<lparr> dl_count := (dl_count s)(None := dl_count s None + 1) \<rparr>)"
  by (simp add: shlib_open_def shlib_mangle_filename_def dlopen_def dl_symbols_def Let_def)

subsection \<open>Examples\<close>

theorem mangle_windows_unix_name_witness:
  "shlib_mangle_windows True ''bar/lib/libfoo.so'' = Inr ''bar/lib/foo.dll''"
  using mangle_windows_unix_name[of "''foo''" "''bar/lib/''"] by simp

definition no_tables :: static_state where
  "no_tables = \<lparr> sx_tables = Map.empty, sx_next = 0, sx_blocks = 0 \<rparr>"

theorem static_library_lifecycle_witness:
  "\<exists>h s1 e s2. static_shlib_open (granted_env length) (no_application oom) ''nullSound.so'' no_tables = Inr (None, Some h, s1)
      \<and> static_shlib_findFunc (granted_env length) h ''getMixer'' s1 = Inr (None, Some 8, s1)
      \<and> static_shlib_findFunc (granted_env length) h ''getAPIVersion'' s1 = Inr (Some e, None, s1)
      \<and> static_shlib_close h s1 = Inr (None, s2) \<and> sx_tables s2 = Map.empty \<and> sx_blocks s2 = 0"
proof -
  have k: "known_library ''nullSound.so'' = Some sound_driver_functions" by (simp add: known_library_def)
  have m: "''getMixer'' \<in> set sound_driver_functions" "''getAPIVersion'' \<notin> set sound_driver_functions"
    by (simp_all add: sound_driver_functions_def)
  have i: "static_inv no_tables" by (simp add: static_inv_def no_tables_def)
  obtain h s1 s2 where r: "static_shlib_open (granted_env length) (no_application oom) ''nullSound.so'' no_tables = Inr (None, Some h, s1)"
    "\<forall>f. \<exists>e. static_shlib_findFunc (granted_env length) h f s1 = Inr (e, if f \<in> set sound_driver_functions then Some (sn_address (granted_env length) f) else None, s1)
            \<and> (e = None \<longleftrightarrow> f \<in> set sound_driver_functions)"
    "static_shlib_close h s1 = Inr (None, s2)" "sx_tables s2 = sx_tables no_tables" "sx_blocks s2 = sx_blocks no_tables"
    using static_library_lifecycle[OF granted_env(1) k i, of length "no_application oom"] by blast
  have "static_shlib_findFunc (granted_env length) h ''getMixer'' s1 = Inr (None, Some 8, s1)"
    using spec[OF r(2), of "''getMixer''"] m(1) by (auto simp: granted_env(2))
  moreover have "\<exists>e. static_shlib_findFunc (granted_env length) h ''getAPIVersion'' s1 = Inr (Some e, None, s1)"
    using spec[OF r(2), of "''getAPIVersion''"] m(2) by auto
  ultimately show ?thesis using r by (auto simp: no_tables_def)
qed

theorem static_unknown_library_leaks_witness:
  "\<exists>e1 t s1. static_shlib_open (granted_env length) (no_application oom) ''libsound.so'' no_tables = Inr (Some e1, None, s1)
      \<and> sx_tables s1 = [0 \<mapsto> t]"
  using static_unknown_library_leaks[of "granted_env length" "''libsound.so''" "no_application oom" oom no_tables] granted_env(1)
  by (auto simp: known_library_def no_tables_def)

definition demo_dl :: dl_state where
  "demo_dl = \<lparr> dl_files = [''libm.so'' \<mapsto> [''sin'' \<mapsto> 100]], dl_program = [''main'' \<mapsto> 1], dl_count = (\<lambda>_. 0)(Some ''libm.so'' := 1),
     dl_error = Some ''old error'' \<rparr>"

theorem stale_dlerror_hides_function_witness:
  "\<exists>e. shlib_findFunc (True, True) (Some ''libm.so'') ''sin'' demo_dl = Inr (Some e, Some 100, demo_dl\<lparr> dl_error := None \<rparr>)"
  using stale_dlerror_hides_function[of demo_dl "Some ''libm.so''" "[''sin'' \<mapsto> 100]" "''sin''" 100 "''old error''"]
  by (simp add: demo_dl_def dl_lib_def dl_symbols_def)

end
