(* ===== verification/Driver.thy ===== *)
theory Driver
  imports Shlib
begin

section \<open>Drivers\<close>

text \<open>
  \<open>src/driver.c\<close>: a driver is a shared library with a function that tells its version, and further functions
  whose addresses go into the members of a struct. The functions of \<open>shlib.c\<close> are arguments, because the
  program is linked with either build of them; what a driver's function does is client code, a function of
  its address on the client's world. The lemmas are proved in the context of \<open>shared_library\<close>.
\<close>

subsection \<open>Operations\<close>

record sDriverFunctionInfo =
  di_name :: string
  di_offset :: nat

text \<open>The members of a driver struct that hold function pointers, by their offsets.\<close>

type_synonym driver_struct = "nat \<rightharpoonup> nat option"

type_synonym ('h, 's) find_func = "'h \<Rightarrow> string \<Rightarrow> 's \<Rightarrow> (Error \<times> nat option \<times> 's) res"
type_synonym 'w version_func = "nat \<Rightarrow> 'w \<Rightarrow> Error \<times> int \<times> 'w"

definition driver_error :: "bool \<times> bool \<Rightarrow> Error \<Rightarrow> string \<Rightarrow> Error res" where
  "driver_error errOk reason t = ErrNew (fst errOk) (snd errOk) ERR_DRIVER 0 reason t"

text \<open>\<open>OPEN_DRIVER_FAIL_2\<close>: the library is closed, whatever that returns; the caller's handle stays as it is.\<close>

definition open_fail ::
  "('h \<Rightarrow> 's \<Rightarrow> (Error \<times> 's) res) \<Rightarrow> 'h \<Rightarrow> Error \<Rightarrow> int \<Rightarrow> 's \<Rightarrow> 'w \<Rightarrow> (Error \<times> int \<times> 'h option \<times> 's \<times> 'w) res" where
  "open_fail close h error apiVersion s w =
     rbind (close h s) (\<lambda>(_, s1). rbind (rassert (error \<noteq> None)) (\<lambda>_. Inr (error, apiVersion, Some h, s1, w)))"

definition driverOpen ::
  "bool \<times> bool \<Rightarrow> (string \<Rightarrow> 's \<Rightarrow> (Error \<times> 'h option \<times> 's) res) \<Rightarrow> ('h, 's) find_func \<Rightarrow> ('h \<Rightarrow> 's \<Rightarrow> (Error \<times> 's) res)
    \<Rightarrow> 'w version_func \<Rightarrow> string \<Rightarrow> int \<Rightarrow> 's \<Rightarrow> 'w \<Rightarrow> (Error \<times> int \<times> 'h option \<times> 's \<times> 'w) res" where
  "driverOpen errOk open_lib finder close call name apiVersion s w =
     rbind (open_lib name s) (\<lambda>(error, shlib, s1).
     if error \<noteq> None
     then rbind (driver_error errOk error (''Failed to open driver shared library/DLL '' @ quoted_name name)) (\<lambda>error.
          rbind (rassert (error \<noteq> None)) (\<lambda>_. Inr (error, apiVersion, shlib, s1, w)))
     else
       rbind (deref shlib) (\<lambda>h.
       rbind (finder h ''getAPIVersion'' s1) (\<lambda>(error, func, s2).
       if error \<noteq> None
       then rbind (driver_error errOk error (''Driver did not have '' @ quoted_name ''getAPIVersion'' @ '' function'')) (\<lambda>error.
            open_fail close h error apiVersion s2 w)
       else
         rbind (rassert (func \<noteq> None)) (\<lambda>_.
         rbind (deref func) (\<lambda>f.
         case call f w of (error, version, w1) \<Rightarrow>
           if error \<noteq> None
           then rbind (driver_error errOk None ''Failed to get driver API Version.'') (\<lambda>error. open_fail close h error version s2 w1)
           else Inr (None, version, shlib, s2, w1))))))"

definition driverClose :: "bool \<times> bool \<Rightarrow> ('h \<Rightarrow> 's \<Rightarrow> (Error \<times> 's) res) \<Rightarrow> 'h \<Rightarrow> 's \<Rightarrow> (Error \<times> 's) res" where
  "driverClose errOk close h s =
     rbind (close h s) (\<lambda>(error, s1).
     if error \<noteq> None
     then rbind (driver_error errOk error (''Failed to close the driver'' @ [CHR 0x27] @ ''s shared library'')) (\<lambda>error. Inr (error, s1))
     else Inr (None, s1))"

text \<open>The loop over the indices: a function that is not found has its member set, to NULL, and ends it.\<close>

fun load_loop ::
  "bool \<times> bool \<Rightarrow> ('h, 's) find_func \<Rightarrow> 'h \<Rightarrow> sDriverFunctionInfo list \<Rightarrow> nat list \<Rightarrow> driver_struct \<Rightarrow> 's
    \<Rightarrow> (Error \<times> driver_struct \<times> 's) res" where
  "load_loop errOk finder h infos [] ds s = Inr (None, ds, s)"
| "load_loop errOk finder h infos (i # rest) ds s =
     rbind (if i < length infos then Inr (infos ! i) else Inl OutOfBounds) (\<lambda>info.
     rbind (finder h (di_name info) s) (\<lambda>(error, func, s1).
     rbind (rguard OutOfBounds (ds (di_offset info) \<noteq> None)) (\<lambda>_.
     let ds1 = ds(di_offset info \<mapsto> func) in
     if error \<noteq> None
     then rbind (driver_error errOk error (''Driver file does not have function '' @ quoted_name (di_name info) @ '' '')) (\<lambda>error.
          rbind (rassert (error \<noteq> None)) (\<lambda>_. Inr (error, ds1, s1)))
     else load_loop errOk finder h infos rest ds1 s1)))"

definition driverLoadFunctions ::
  "bool \<times> bool \<Rightarrow> ('h, 's) find_func \<Rightarrow> 'h \<Rightarrow> int \<Rightarrow> sDriverFunctionInfo list \<Rightarrow> driver_struct \<Rightarrow> 's
    \<Rightarrow> (Error \<times> driver_struct \<times> 's) res" where
  "driverLoadFunctions errOk finder shlib functionCount driverFunctions driverStruct s =
     load_loop errOk finder shlib driverFunctions [0..<nat functionCount] driverStruct s"

subsection \<open>Drivers over any shared library\<close>

text \<open>The struct after the functions have been looked up in \<open>tab\<close>, up to the first one that is missing.\<close>

fun loaded :: "(string \<rightharpoonup> nat) \<Rightarrow> sDriverFunctionInfo list \<Rightarrow> driver_struct \<Rightarrow> driver_struct" where
  "loaded tab [] ds = ds"
| "loaded tab (i # rest) ds =
     (case tab (di_name i) of
        None \<Rightarrow> ds(di_offset i \<mapsto> None)
      | Some a \<Rightarrow> loaded tab rest (ds(di_offset i \<mapsto> Some a)))"

context shared_library
begin

lemma driver_open:
  assumes "inv s" and "content s name = Some tab" and "tab ''getAPIVersion'' = Some f" and "call f w = (None, v, w1)"
  shows "\<exists>h s1. driverOpen errOk open_lib find_func close_lib call name old s w = Inr (None, v, Some h, s1, w1) \<and> inv s1 \<and> lib s1 h = Some tab"
proof -
  obtain h s1 where o: "open_lib name s = Inr (None, Some h, s1)" "inv s1" "lib s1 h = Some tab" using open_ok[OF assms(1,2)] by blast
  obtain e s2 where fs: "find_func h ''getAPIVersion'' s1 = Inr (e, tab ''getAPIVersion'', s2)" "e = None \<longleftrightarrow> tab ''getAPIVersion'' \<noteq> None"
    "inv s2" "lib s2 = lib s1" using find[OF o(2,3)] by blast
  have e: "e = None" using fs(2) assms(3) by simp
  have "driverOpen errOk open_lib find_func close_lib call name old s w = Inr (None, v, Some h, s2, w1)"
    using o(1) fs(1) e assms(3,4) by (simp add: driverOpen_def)
  then show ?thesis using fs(3,4) o(3) by auto
qed

lemma driver_open_fails:
  assumes "inv s" and "content s name = Some tab" and "tab ''getAPIVersion'' = None" and "\<forall>k. lib s k = None"
  shows "\<exists>e h s1. driverOpen (True, True) open_lib find_func close_lib call name old s w = Inr (Some e, old, Some h, s1, w) \<and> inv s1
      \<and> (\<exists>s2. close_lib h s2 = Inr (None, s1))"
proof -
  obtain h s1 where o: "open_lib name s = Inr (None, Some h, s1)" "inv s1" "lib s1 h = Some tab" using open_ok[OF assms(1,2)] by blast
  obtain e s2 where fs: "find_func h ''getAPIVersion'' s1 = Inr (e, tab ''getAPIVersion'', s2)" "e = None \<longleftrightarrow> tab ''getAPIVersion'' \<noteq> None"
    "inv s2" "lib s2 = lib s1" using find[OF o(2,3)] by blast
  obtain s3 where c: "close_lib h s2 = Inr (None, s3)" "inv s3" using close[OF fs(3), of h tab] fs(4) o(3) by auto
  obtain e1 where e: "e = Some e1" using fs(2) assms(3) by auto
  show ?thesis using o(1) fs(1) e c assms(3) by (auto simp: driverOpen_def driver_error_def ErrNew_def open_fail_def)
qed

lemma load_functions_loop:
  assumes "inv s" and "lib s h = Some tab" and "k \<le> length infos" and "\<forall>i \<in> set (drop k infos). di_offset i \<in> dom ds"
  shows "\<exists>e s1. load_loop (True, True) find_func h infos [k..<length infos] ds s = Inr (e, loaded tab (drop k infos) ds, s1)
      \<and> (e = None \<longleftrightarrow> (\<forall>i \<in> set (drop k infos). tab (di_name i) \<noteq> None)) \<and> inv s1 \<and> lib s1 = lib s"
  using assms
proof (induction "length infos - k" arbitrary: k ds s)
  case (Suc n)
  then have k: "k < length infos" by simp
  let ?i = "infos ! k"
  have d: "drop k infos = ?i # drop (Suc k) infos" and u: "[k..<length infos] = k # [Suc k..<length infos]"
    using k by (simp_all add: Cons_nth_drop_Suc upt_conv_Cons)
  obtain e s1 where f: "find_func h (di_name ?i) s = Inr (e, tab (di_name ?i), s1)" "e = None \<longleftrightarrow> tab (di_name ?i) \<noteq> None" "inv s1" "lib s1 = lib s"
    using find[OF Suc.prems(1,2)] by blast
  have o: "ds (di_offset ?i) \<noteq> None" using Suc.prems(4) unfolding d by auto
  show ?case
  proof (cases "tab (di_name ?i)")
    case None
    then obtain e1 where "e = Some e1" using f(2) by auto
    then show ?thesis unfolding d u using None f o k by (simp add: driver_error_def ErrNew_def)
  next
    case (Some a)
    let ?ds = "ds(di_offset ?i \<mapsto> Some a)"
    have p: "n = length infos - Suc k" "lib s1 h = Some tab" "Suc k \<le> length infos" "\<forall>i \<in> set (drop (Suc k) infos). di_offset i \<in> dom ?ds"
      using Suc.hyps(2) f(4) Suc.prems(2,4) k unfolding d by auto
    obtain e2 s2 where ih: "load_loop (True, True) find_func h infos [Suc k..<length infos] ?ds s1 = Inr (e2, loaded tab (drop (Suc k) infos) ?ds, s2)"
      "e2 = None \<longleftrightarrow> (\<forall>i \<in> set (drop (Suc k) infos). tab (di_name i) \<noteq> None)" "inv s2" "lib s2 = lib s1"
      using Suc.hyps(1)[OF p(1) f(3) p(2-4)] by blast
    have "e = None" using f(2) Some by simp
    then show ?thesis unfolding d u using Some f ih o k by simp
  qed
qed simp

end

lemma loaded_all:
  assumes "\<forall>i \<in> set infos. tab (di_name i) \<noteq> None" and "distinct (map di_offset infos)"
  shows "(\<forall>i \<in> set infos. loaded tab infos ds (di_offset i) = Some (tab (di_name i)))
    \<and> (\<forall>p. p \<notin> di_offset ` set infos \<longrightarrow> loaded tab infos ds p = ds p)"
  using assms by (induction infos arbitrary: ds) auto

subsection \<open>Properties\<close>

text \<open>C40: over the dynamic linker, a driver with \<open>getAPIVersion\<close> opens, with the version this function tells,
  and \<open>driverLoadFunctions\<close> then sets each member of the struct to the address of its function, and no
  other member, provided that the driver has them all; it returns an error exactly when one is missing.\<close>

theorem driver_opens_and_loads:
  assumes "dl_inv s" and "dl_files s name = Some tab" and "tab ''getAPIVersion'' = Some f" and "call f w = (None, v, w1)"
    and "\<forall>i \<in> set infos. di_offset i \<in> dom ds" and "distinct (map di_offset infos)"
  shows "\<exists>h s1 e ds1 s2. driverOpen (True, True) (shlib_open (True, True) True) (shlib_findFunc (True, True)) shlib_close call name old s w
        = Inr (None, v, Some h, s1, w1)
      \<and> driverLoadFunctions (True, True) (shlib_findFunc (True, True)) h (int (length infos)) infos ds s1 = Inr (e, ds1, s2)
      \<and> (e = None \<longleftrightarrow> (\<forall>i \<in> set infos. tab (di_name i) \<noteq> None))
      \<and> (e = None \<longrightarrow> (\<forall>i \<in> set infos. ds1 (di_offset i) = Some (tab (di_name i))) \<and> (\<forall>p. p \<notin> di_offset ` set infos \<longrightarrow> ds1 p = ds p))"
proof -
  obtain h s1 where o: "driverOpen (True, True) (shlib_open (True, True) True) (shlib_findFunc (True, True)) shlib_close call name old s w
        = Inr (None, v, Some h, s1, w1)" "dl_inv s1" "dl_lib s1 h = Some tab"
    using dl.driver_open[OF assms(1-3), where call = call and w = w, OF assms(4)] by blast
  have d: "\<forall>i \<in> set (drop 0 infos). di_offset i \<in> dom ds" using assms(5) by simp
  obtain e s2 where l: "load_loop (True, True) (shlib_findFunc (True, True)) h infos [0..<length infos] ds s1 = Inr (e, loaded tab (drop 0 infos) ds, s2)"
    "e = None \<longleftrightarrow> (\<forall>i \<in> set (drop 0 infos). tab (di_name i) \<noteq> None)"
    using dl.load_functions_loop[OF o(2,3) _ d] by blast
  have "e = None \<longrightarrow> (\<forall>i \<in> set infos. loaded tab infos ds (di_offset i) = Some (tab (di_name i)))
      \<and> (\<forall>p. p \<notin> di_offset ` set infos \<longrightarrow> loaded tab infos ds p = ds p)"
    using loaded_all[OF _ assms(6)] l(2) by simp
  then show ?thesis using o(1) l by (auto simp: driverLoadFunctions_def)
qed

text \<open>in the statically linked build none of the known libraries lists a function \<open>getAPIVersion\<close>, not even
  those of the sound drivers: \<open>driverOpen\<close> fails for each of them, with the library closed again and the
  caller's handle left pointing to what was freed.\<close>

theorem static_driver_never_opens:
  assumes "known_library name \<noteq> None" and "static_inv s" and "sx_tables s = Map.empty"
  shows "\<exists>e h s1. driverOpen (True, True) (static_shlib_open (granted_env addr) (no_application e0)) (static_shlib_findFunc (granted_env addr))
        static_shlib_close call name old s w = Inr (Some e, old, Some h, s1, w) \<and> sx_tables s1 h = None"
proof -
  obtain names where n: "known_library name = Some names" using assms(1) by blast
  have no: "''getAPIVersion'' \<notin> set names"
    using n by (auto simp: known_library_def coowa_functions_def core_lib_functions_def swedish_repository_functions_def sound_driver_functions_def
        split: if_splits)
  let ?tab = "\<lambda>f. if f \<in> set names then Some (addr f) else None"
  have c: "static_content addr name = Some ?tab" using n by (simp add: static_content_def)
  have g: "?tab ''getAPIVersion'' = None" using no by simp
  have l: "\<forall>k. static_lib s k = None" using assms(3) by (simp add: static_lib_def)
  obtain e h s1 s2 where r: "driverOpen (True, True) (static_shlib_open (granted_env addr) (no_application e0)) (static_shlib_findFunc (granted_env addr))
      static_shlib_close call name old s w = Inr (Some e, old, Some h, s1, w)" "static_shlib_close h s2 = Inr (None, s1)"
    using st.driver_open_fails[OF assms(2) c g l, of e0 call old w] by blast
  have "sx_tables s1 h = None" using r(2) by (auto simp: static_shlib_close_def res_iff)
  then show ?thesis using r(1) by blast
qed

text \<open>the error that a driver's own version function returns is dropped: the error of \<open>driverOpen\<close> has no
  reason.\<close>

theorem driver_version_error_dropped:
  assumes "dl_inv s" and "dl_files s name = Some tab" and "tab ''getAPIVersion'' = Some f" and "call f w = (Some err, v, w1)"
  shows "\<exists>e h s1. driverOpen (True, True) (shlib_open (True, True) True) (shlib_findFunc (True, True)) shlib_close call name old s w
        = Inr (Some e, v, Some h, s1, w1) \<and> err_reason e = None"
proof -
  obtain h s1 where o: "shlib_open (True, True) True name s = Inr (None, Some h, s1)" "dl_inv s1" "dl_lib s1 h = Some tab"
    using dl.open_ok[OF assms(1,2)] by blast
  obtain e s2 where fs: "shlib_findFunc (True, True) h ''getAPIVersion'' s1 = Inr (e, Some f, s2)" "e = None" "dl_inv s2" "dl_lib s2 h = Some tab"
    using dl.find[OF o(2,3), of "''getAPIVersion''"] assms(3) o(3) by auto
  obtain s3 where "shlib_close h s2 = Inr (None, s3)" using dl.close[OF fs(3,4)] by blast
  then show ?thesis using o(1) fs assms(4) by (simp add: driverOpen_def driver_error_def ErrNew_def open_fail_def mkErr_def)
qed

subsection \<open>Examples\<close>

definition driver_dl :: dl_state where
  "driver_dl = \<lparr> dl_files = [''drv.so'' \<mapsto> [''getAPIVersion'' \<mapsto> 10, ''openDevice'' \<mapsto> 20, ''closeDevice'' \<mapsto> 30]], dl_program = Map.empty,
     dl_count = \<lambda>_. 0, dl_error = None \<rparr>"

definition driver_infos :: "sDriverFunctionInfo list" where
  "driver_infos = [\<lparr> di_name = ''closeDevice'', di_offset = 8 \<rparr>, \<lparr> di_name = ''openDevice'', di_offset = 4 \<rparr>]"

definition api_version :: "unit version_func" where
  "api_version f w = (None, int f, w)"

theorem driver_opens_and_loads_witness:
  "\<exists>h s1 ds1 s2. driverOpen (True, True) (shlib_open (True, True) True) (shlib_findFunc (True, True)) shlib_close api_version ''drv.so'' 0 driver_dl ()
        = Inr (None, 10, Some h, s1, ())
      \<and> driverLoadFunctions (True, True) (shlib_findFunc (True, True)) h 2 driver_infos [0 \<mapsto> None, 4 \<mapsto> None, 8 \<mapsto> None] s1 = Inr (None, ds1, s2)
      \<and> ds1 8 = Some (Some 30) \<and> ds1 4 = Some (Some 20) \<and> ds1 0 = Some None"
proof -
  let ?tab = "[''getAPIVersion'' \<mapsto> 10, ''openDevice'' \<mapsto> 20, ''closeDevice'' \<mapsto> 30 :: nat]" and ?ds = "[0 \<mapsto> None, 4 \<mapsto> None, 8 \<mapsto> None] :: driver_struct"
  have a: "dl_inv driver_dl" "dl_files driver_dl ''drv.so'' = Some ?tab" "?tab ''getAPIVersion'' = Some 10" "api_version 10 () = (None, 10, ())"
    "\<forall>i \<in> set driver_infos. di_offset i \<in> dom ?ds" "distinct (map di_offset driver_infos)"
    by (simp_all add: dl_inv_def driver_dl_def api_version_def driver_infos_def)
  have i: "\<forall>i \<in> set driver_infos. ?tab (di_name i) \<noteq> None" "int (length driver_infos) = 2" by (simp_all add: driver_infos_def)
  obtain h s1 e ds1 s2 where r: "driverOpen (True, True) (shlib_open (True, True) True) (shlib_findFunc (True, True)) shlib_close api_version ''drv.so'' 0 driver_dl ()
        = Inr (None, 10, Some h, s1, ())"
    "driverLoadFunctions (True, True) (shlib_findFunc (True, True)) h (int (length driver_infos)) driver_infos ?ds s1 = Inr (e, ds1, s2)"
    "e = None \<longleftrightarrow> (\<forall>i \<in> set driver_infos. ?tab (di_name i) \<noteq> None)"
    "e = None \<longrightarrow> (\<forall>i \<in> set driver_infos. ds1 (di_offset i) = Some (?tab (di_name i))) \<and> (\<forall>p. p \<notin> di_offset ` set driver_infos \<longrightarrow> ds1 p = ?ds p)"
    using driver_opens_and_loads[where call = api_version and old = 0, OF a] by blast
  have e: "e = None" using r(3) i(1) by blast
  have "ds1 8 = Some (Some 30)" "ds1 4 = Some (Some 20)" "ds1 0 = Some None" using r(4) e by (simp_all add: driver_infos_def)
  then show ?thesis using r(1,2) unfolding e i(2) by blast
qed

theorem static_driver_never_opens_witness:
  "\<exists>e h s1. driverOpen (True, True) (static_shlib_open (granted_env length) (no_application oom)) (static_shlib_findFunc (granted_env length))
        static_shlib_close api_version ''alsaSound_05.so'' 0 no_tables () = Inr (Some e, 0, Some h, s1, ()) \<and> sx_tables s1 h = None"
  by (rule static_driver_never_opens) (simp_all add: known_library_def static_inv_def no_tables_def)

theorem driver_version_error_dropped_witness:
  "\<exists>e h s1. driverOpen (True, True) (shlib_open (True, True) True) (shlib_findFunc (True, True)) shlib_close (\<lambda>f w. (Some oom, 0, w)) ''drv.so'' 0 driver_dl ()
        = Inr (Some e, 0, Some h, s1, ()) \<and> err_reason e = None"
  using driver_version_error_dropped[of driver_dl "''drv.so''" _ 10 "\<lambda>f w. (Some oom, 0, w)" "()" oom 0 "()" 0]
  by (simp add: dl_inv_def driver_dl_def)

end
