(* ===== verification/Spec2Isabelle.thy ===== *)
theory Spec2Isabelle
  imports CircularBuffer Queue ByteQueue WordMap IdTable MemManager StateMachine BitTools Timer Threading Event ThreadPool Bt TextRPC Logging Path Geometry Tcp Driver
begin

text \<open>
  \<^bold>\<open>The Voxi utility library.\<close> A C library of containers, buffers, error objects and operating
  system wrappers that the Voxi speech products share. This development models its containers and
  buffers, its threads, timers and events, the parts that carry the library's own algorithms, and
  proves them correct, or proves where they are not.

  \<^bold>\<open>The parts and how they interact.\<close> \<open>src/err.c\<close> is used by everything: a function that can fail
  returns an \<open>Error\<close>, NULL meaning success, and errors are chained by their reason. \<open>src/vector.c\<close> is
  the dynamic array under \<open>src/circularBuffer.c\<close>, a ring that drops its oldest element when it is
  full. \<open>src/queue.c\<close> is a linked queue between threads with a mutex and a counting semaphore;
  \<open>src/byteQueueC.c\<close> is a ring of bytes between one writer and one reader with a condition
  variable and an end-of-stream protocol. \<open>src/hash.c\<close> is a table of chains with cursors that
  block the destruction of the element they stand on; \<open>src/wordMap.c\<close> keeps two such tables over
  the same entries, by name and by number, and saves and loads them as text. \<open>src/idTable.c\<close> and
  \<open>src/memory.c\<close> hand out small integers and memory blocks through free lists. \<open>src/bag.c\<close> is an
  unordered growing collection with callbacks and iterators. \<open>src/stateMachine.c\<close> runs state
  machines that clients define at run time from classes, states and transitions, kept in hash
  tables and bags. \<open>src/threading.c\<close> is a recursive mutex on top of a POSIX mutex and a semaphore,
  with condition waits; \<open>src/threadpool.c\<close> keeps threads that wait for functions to run, in two
  linked lists; \<open>src/timer.c\<close> keeps a list of events sorted by time, which a periodic callback
  works off; \<open>src/event.c\<close> passes events from sources to the listeners that subscribed to them,
  through a ring and a manager thread, with the listeners in a hash table. \<open>src/checksums.c\<close> and
  \<open>src/bitFippling.c\<close> compute a CRC and reverse byte orders. \<open>src/strbuf.c\<close> is a growing text with
  formatted and quoted appending, \<open>src/bt.c\<close> a binary tree with cursors, \<open>src/file.c\<close> reads lines from
  streams. \<open>src/sock.c\<close> has a thread for each connection that reads lines and calls a handler, and servers
  whose connections run on a thread pool; \<open>src/textRPC.c\<close> puts remote procedure calls on top of it: calls
  and returns are lines, the calls that wait are in a hash table, each incoming call is a job for the
  thread pool, and an error travels as the text \<open>ErrToString\<close> makes of it. \<open>src/logging.c\<close> writes lines to
  one or two files per destination, which it keeps in a hash table and renames when the day changes.
  \<open>src/path.c\<close> splits search paths into vectors of directories and opens files along them;
  \<open>src/geometry.c\<close> computes with positions and angles in integers, through two tables; \<open>src/tcpip.c\<close> is a
  plain stream connection; \<open>src/shlib.c\<close> opens shared libraries, or in statically linked programs keeps
  the functions of known libraries in a hash table; \<open>src/driver.c\<close> opens drivers through it, of either build.

  \<^bold>\<open>Conventions.\<close> The theory \<open>Prelude\<close> fixes them. A struct is a record with one field per member,
  a pointer that may be NULL is an option, a block of elements is a list of slots (\<open>None\<close>: never
  written), linked structures live in an explicit store of addresses. A function returns
  \<open>fault + value\<close>: the left side is a failed assertion or undefined behaviour, every reading and
  writing outside a block, of an unwritten slot, through NULL or a freed address, and every signed
  overflow being such a value, so that a theorem with \<open>Inr\<close> in its conclusion says that none of them
  happens. Errors that the C code returns are ordinary values. What the operating system and the
  C library decide (allocations, mutex and semaphore initialisation, \<open>rand\<close>) is an argument.
  The target is ILP32 and assertions are enabled. Client callbacks are functions on a world type,
  and where a theorem needs laws of them (a comparison that is an equivalence, a hash that
  respects it) they are hypotheses or locale assumptions.

  \<^bold>\<open>Theories.\<close>
  \<^item> \<open>Prelude\<close>: faults and results, loops that stop at the first fault, 32-bit arithmetic, blocks,
    rings, and the lemmas all components share.
  \<^item> \<open>Err\<close> (\<open>src/err.c\<close>, \<open>src/mem.c\<close>): error chains, their copy with its clean-up on a failed
    allocation, their disposal, and the readable string written in two passes: the length computed
    first is exactly the length written.
  \<^item> \<open>Vector\<close> (\<open>src/vector.c\<close>): the state is the struct and its block; each operation refines the
    corresponding list operation, with exact conditions for the assertions. Locale \<open>array_store\<close>.
  \<^item> \<open>Fifo\<close>: the contract of a first-in-first-out container, locale \<open>fifo\<close>, with the order theorem
    proved once; interpreted by \<open>CircularBuffer\<close>, \<open>Queue\<close> and \<open>ByteQueue\<close>.
  \<^item> \<open>CircularBuffer\<close> (\<open>src/circularBuffer.c\<close>): refinement of the ring over a vector to a bounded
    list; termination of \<open>circBuf_clear\<close>; the slots \<open>circBuf_destroy\<close> gets wrong.
  \<^item> \<open>Queue\<close> (\<open>src/queue.c\<close>): the list in a store, each function with its failure codes, and a step
    relation for any number of threads whose pushes and pops interleave between locking, linking,
    posting and waiting, in which a fault is a state of its own: none is reachable; absence of lost
    wake-ups by rule induction.
  \<^item> \<open>ByteQueue\<close> (\<open>src/byteQueueC.c\<close>): writing with drops, reading as a computation that either
    ends or waits and is resumed, and a step relation for writer and reader; no byte is lost,
    duplicated or reordered, and a waiting reader, or a writer waiting to start the next stream, has had a
    broadcast when it can go on.
  \<^item> \<open>HashTable\<close> (\<open>src/hash.c\<close>): refinement to a finite map for every lawful pair of hash and
    comparison, locale \<open>hash_keys\<close>; cursors visit every element once; the corruption of the cursor
    list.
  \<^item> \<open>WordMap\<close> (\<open>src/wordMap.c\<close>): interpretations of \<open>hash_keys\<close> for names and numbers, the two-way
    map, and the round trip of its text form through a file: \<open>wordMap_save\<close> writes one text, \<open>wordMap_load\<close>
    reads it with \<open>fscanf\<close>, \<open>fgets\<close> and \<open>file_readLine\<close>; names with a newline do not survive.
  \<^item> \<open>SlotAllocator\<close>: the contract of a table that hands out indices, locale \<open>slot_allocator\<close>, and
    free lists threaded through a table.
  \<^item> \<open>IdTable\<close> (\<open>src/idTable.c\<close>) and \<open>MemManager\<close> (\<open>src/memory.c\<close>): its two instances: fresh indices,
    restoration by removal, double frees, and the defects found.
  \<^item> \<open>Bag\<close> (\<open>src/bag.c\<close>): locale \<open>multiset_store\<close>, interpreted for the pointer operations and for the
    by-value operations; the in-place filter, iterators, the cross product of string bags.
  \<^item> \<open>StateMachine\<close> (\<open>src/stateMachine.c\<close>): definitions with reference counts between classes and
    states, their construction and destruction, and runs; a run calls the entry and exit functions
    in the order the path through the classes prescribes.
  \<^item> \<open>BitTools\<close> (\<open>src/checksums.c\<close>, \<open>src/bitFippling.c\<close>): the table-driven CRC equals the bit-serial one;
    byte reversals are their own inverses.
  \<^item> \<open>DList\<close>: doubly linked lists in a store, and the locale \<open>linked_nodes\<close> for records that carry the two
    links, with pushing and unlinking proved once; interpreted by \<open>Timer\<close> and \<open>ThreadPool\<close>.
  \<^item> \<open>Timer\<close> (\<open>src/timer.c\<close>): refinement of the linked list and the callback to a sorted agenda; each
    due event is handled once, in the order of time, a repetitive one at every multiple of its interval.
  \<^item> \<open>Threading\<close> (\<open>src/threading.c\<close>): locking, unlocking and waiting as programs of atomic steps for any
    number of threads; mutual exclusion, no failing assertion, progress.
  \<^item> \<open>Event\<close> (\<open>src/event.c\<close>): an interpretation of \<open>hash_keys\<close> for listener lists, subscription, and
    a step relation for posters and the manager thread; order of the events, the one assertion of the manager
    that can fail, and the race between two posters.
  \<^item> \<open>ThreadPool\<close> (\<open>src/threadpool.c\<close>): a step relation for clients and pool threads; each function is
    called once, joins return its result, and destruction with a thread at work deadlocks.
  \<^item> \<open>Bt\<close> (\<open>src/bt.c\<close>): insertion and search refine an ordered set of values, iteration visits them in
    order, duplication copies; what removal does instead.
  \<^item> \<open>CText\<close>: what the other files use of the C library's text functions, decimal and hexadecimal
    numbers, \<open>atoi\<close>, \<open>strsep\<close>, the conversions of a format.
  \<^item> \<open>StrBuf\<close> (\<open>src/strbuf.c\<close>): the block with its written prefix, growth, formatted appending as the
    appending of the formatted text, and the fill that overflows.
  \<^item> \<open>ErrText\<close> (\<open>src/err.c\<close>): \<open>ErrToString\<close> into a string buffer, against the quoted text of the chain.
  \<^item> \<open>File\<close> (\<open>src/file.c\<close>): lines from a stream of bytes and failed reads; hexadecimal input.
  \<^item> \<open>Sock\<close> (\<open>src/sock.c\<close>): the reading thread for any handler that is a \<open>line_client\<close>, a locale with the
    theorem that what one side sends as lines reaches the handler of the other side once and in order;
    connecting, servers and what they give back.
  \<^item> \<open>TextRPC\<close> (\<open>src/textRPC.c\<close>): its handler as a \<open>line_client\<close>, its table as an interpretation of
    \<open>hash_keys\<close>, and a step relation for two connected sides with any order of calls, deliveries and
    jobs, in which the bytes sent are cut into lines by \<open>file_readLine\<close>: for texts without a newline every call
    gets the answer computed for it, and every run without further calls ends with all calls returned;
    a newline splits a call. The relation takes each access of the table of calls as one step and wakes a call
    only by its broadcast, which the code does not ensure: it takes no lock around the table and waits without a
    loop. Negotiation and its race; errors.
  \<^item> \<open>Logging\<close> (\<open>src/logging.c\<close>): on a file system of names, inodes and streams, with an interpretation of
    \<open>hash_keys\<close> for the entries; a logger's streams stay open and its own, except that a refused \<open>strdup\<close> and a
    head of a line longer than its buffer fault; the files get exactly the lines sent to them, each with the time and
    the thread of its own call; rotation keeps the old lines, or for the other driver changes the file.
  \<^item> \<open>Path\<close> (\<open>src/path.c\<close>): splitting with a pointer that moves through a copy, against the list of
    directories; the search refines trying the directories in order; what is leaked, and the wrong pointer
    that is freed.
  \<^item> \<open>Geometry\<close> (\<open>src/geometry.c\<close>): the tables and the eight sections of the circle against the real angle;
    moving and transforming against sine and cosine, and their round trip, all with error bounds; overflow
    and aliasing.
  \<^item> \<open>Tcp\<close> (\<open>src/tcpip.c\<close>): messages of known lengths over a stream that arrives in any pieces; connecting.
  \<^item> \<open>Shlib\<close> (\<open>src/shlib.c\<close>): locale \<open>shared_library\<close>, interpreted for the build over \<open>dlopen\<close> and for the
    statically linked one, whose table is an interpretation of \<open>hash_keys\<close>; the names of the Windows build.
  \<^item> \<open>Driver\<close> (\<open>src/driver.c\<close>): opening and loading proved in \<open>shared_library\<close> and applied to both builds.

  \<^bold>\<open>Loops, bounds and fuel.\<close> Loops over indices are recursion on the list of indices; loops that
  change their bound (\<open>circBuf_clear\<close>, \<open>write_loop\<close>, \<open>read_loop\<close>, \<open>filter2_loop\<close>, \<open>iterate\<close>,
  \<open>next_bucket\<close>, \<open>enlarge_to\<close>, \<open>path_loop\<close>, \<open>fopen_loop\<close>, \<open>tcp_read_loop\<close>) are total functions with a
  measure. Only walks along pointers take
  fuel: \<open>last_entry\<close> in the queue, where the length of the chain is enough and the invariants say so,
  \<open>cursor_collect\<close> over a hash table, where one more than the number of elements is enough, and
  \<open>find_prev\<close> in the identifier table; \<open>searchEventPos\<close> and \<open>free_events\<close> in the timer, where the number
  of events is enough, and \<open>timer_loop\<close>, where it is enough as well because an event goes back into
  the list only for a later time; \<open>run_loop\<close> in the state machine, where a run that follows a path of
  n states needs n rounds, and the loops of its destruction, where the number of definitions is
  enough; the walks of \<open>bt.c\<close>, where one more than the number of values is enough, and \<open>gets_skip\<close> in
  \<open>sock.c\<close>, where one more than the number of comment lines is. The main loops of the manager thread and of the pool threads never end on their own and
  are step relations. Sizes of blocks are bounded by \<open>block_fits\<close>: the bytes of the
  block fit \<open>size_t\<close>.

  \<^bold>\<open>Not modelled.\<close> Of the components above: \<open>wordMap_saveToStringBuffer\<close>,
  \<open>idt_save\<close> and \<open>idt_load\<close>, the compiled-out trace stack and the operating system wrappers of
  \<open>err.c\<close>, \<open>tem_printTEQ\<close>, the compiled-out profiling wrapper of \<open>threading.c\<close>, the scheduling
  diagnostics and \<open>writeListenerList\<close> of \<open>event.c\<close>, \<open>sock_serv_conn_adrs_c\<close>. Of \<open>tcpip.c\<close> and \<open>shlib.c\<close> the
  branches that call Windows. Of the rest, \<open>license.c\<close> reads keys and checks signatures through a library
  of cryptography that is not part of the sources; \<open>win32_glue.c\<close>, \<open>libcCompat.c\<close>, \<open>time.c\<close> and
  \<open>tanClient.c\<close> stand in for functions of the operating system; \<open>byteQueue.cpp\<close> is a C++ variant of the byte
  queue. Debugging output is left out throughout.
\<close>

end
